(* ===== verification/Rtx_State.thy ===== *)
theory Rtx_State
  imports Prelude
begin

text \<open>
  The data of the RTX kernel (\<open>rtos/rtx/TARGET_CORTEX_M/rt_TypeDef.h\<close>, \<open>os_tcb.h\<close>): control
  blocks, the pointers between them and the kernel's global variables.

  A control block is named by the constructor of \<open>ptr\<close>: the two list heads \<open>os_rdy\<close> and
  \<open>os_dly\<close>, the tasks, and the semaphores, mailboxes and mutexes. The link fields at the
  common offsets of \<open>OS_XCB\<close>, \<open>OS_TCB\<close>, \<open>OS_SCB\<close>, \<open>OS_MCB\<close> and \<open>OS_MUCB\<close>, which the code
  reaches through casts, are one map each from control blocks to the field's value; the
  fields of one kind of block only are a record per block. A \<open>P_TCB\<close> that may be null is an
  option of a task number. The words of the memory pools of \<open>rt_MemBox.c\<close> are the map \<open>mem\<close> from
  addresses to their contents.
\<close>

datatype ptr = Rdy | Dly | Task nat | Sem nat | Mbx nat | Mut nat

datatype cbtype = TCB | MCB | SCB | MUCB | HCB

datatype tstate = INACTIVE | READY | RUNNING | WAIT_DLY | WAIT_ITV | WAIT_OR | WAIT_AND
  | WAIT_SEM | WAIT_MBX | WAIT_MUT

record tcb =
  t_state :: tstate
  prio :: u8
  task_id :: u8
  interval_time :: u16
  events :: u16
  waits :: u16
  msg :: u32
  ret0 :: u32
  ret1 :: u32

record scb =
  tokens :: u16

record mcb =
  mb_state :: u8
  m_first :: u16
  m_last :: u16
  m_count :: u16
  m_size :: u16
  m_msg :: "nat \<Rightarrow> u32"

record mucb =
  mu_prio :: u8
  mu_level :: u16
  mu_owner :: "nat option"

record psq =
  q_first :: u8
  q_last :: u8
  q_count :: u8
  q_size :: u8
  q_ent :: "nat \<Rightarrow> ptr \<times> u32"

record kernel =
  p_lnk :: "ptr \<Rightarrow> nat option"
  p_rlnk :: "ptr \<Rightarrow> ptr option"
  p_dlnk :: "ptr \<Rightarrow> nat option"
  p_blnk :: "ptr \<Rightarrow> ptr option"
  delta_time :: "ptr \<Rightarrow> u16"
  cb_type :: "ptr \<Rightarrow> cbtype"
  tcbs :: "nat \<Rightarrow> tcb"
  scbs :: "nat \<Rightarrow> scb"
  mcbs :: "nat \<Rightarrow> mcb"
  mucbs :: "nat \<Rightarrow> mucb"
  run :: "nat option"
  new_tsk :: "nat option"
  os_active_TCB :: "nat option list"
  os_time :: u32
  robin_task :: "nat option"
  robin_time :: u16
  robin_tout :: u16
  os_psq :: psq
  mem :: "u32 \<Rightarrow> u32"

abbreviation set_lnk :: "ptr \<Rightarrow> nat option \<Rightarrow> kernel \<Rightarrow> kernel" where
  "set_lnk p v s \<equiv> s\<lparr>p_lnk := (p_lnk s)(p := v)\<rparr>"

abbreviation set_rlnk :: "ptr \<Rightarrow> ptr option \<Rightarrow> kernel \<Rightarrow> kernel" where
  "set_rlnk p v s \<equiv> s\<lparr>p_rlnk := (p_rlnk s)(p := v)\<rparr>"

abbreviation set_dlnk :: "ptr \<Rightarrow> nat option \<Rightarrow> kernel \<Rightarrow> kernel" where
  "set_dlnk p v s \<equiv> s\<lparr>p_dlnk := (p_dlnk s)(p := v)\<rparr>"

abbreviation set_blnk :: "ptr \<Rightarrow> ptr option \<Rightarrow> kernel \<Rightarrow> kernel" where
  "set_blnk p v s \<equiv> s\<lparr>p_blnk := (p_blnk s)(p := v)\<rparr>"

abbreviation set_delta :: "ptr \<Rightarrow> u16 \<Rightarrow> kernel \<Rightarrow> kernel" where
  "set_delta p v s \<equiv> s\<lparr>delta_time := (delta_time s)(p := v)\<rparr>"

abbreviation upd_tcb :: "nat \<Rightarrow> (tcb \<Rightarrow> tcb) \<Rightarrow> kernel \<Rightarrow> kernel" where
  "upd_tcb t f s \<equiv> s\<lparr>tcbs := (tcbs s)(t := f (tcbs s t))\<rparr>"

abbreviation set_state :: "nat \<Rightarrow> tstate \<Rightarrow> kernel \<Rightarrow> kernel" where
  "set_state t st s \<equiv> upd_tcb t (t_state_update (\<lambda>_. st)) s"

abbreviation set_prio :: "nat \<Rightarrow> u8 \<Rightarrow> kernel \<Rightarrow> kernel" where
  "set_prio t p s \<equiv> upd_tcb t (prio_update (\<lambda>_. p)) s"

abbreviation prio_of :: "kernel \<Rightarrow> nat \<Rightarrow> u8" where
  "prio_of s t \<equiv> prio (tcbs s t)"

abbreviation state_of :: "kernel \<Rightarrow> nat \<Rightarrow> tstate" where
  "state_of s t \<equiv> t_state (tcbs s t)"

text \<open>The kernel's return codes (\<open>rt_Task.h\<close>) and the all-ones timeout of an unlimited wait.\<close>

datatype os_result = OS_R_OK | OS_R_TMO | OS_R_EVT | OS_R_SEM | OS_R_MBX | OS_R_MUT | OS_R_NOK

fun res_code :: "os_result \<Rightarrow> u32" where
  "res_code OS_R_OK = 0"
| "res_code OS_R_TMO = 1"
| "res_code OS_R_EVT = 2"
| "res_code OS_R_SEM = 3"
| "res_code OS_R_MBX = 4"
| "res_code OS_R_MUT = 5"
| "res_code OS_R_NOK = 255"

end
