(* ===== verification/Rtx_List.thy ===== *)
theory Rtx_List
  imports Rtx_State
begin

text \<open>
  The kernel's task lists (\<open>rtos/rtx/TARGET_CORTEX_M/rt_List.c\<close>): the ready list and the
  waiting lists of semaphores, mailboxes and mutexes, linked through \<open>p_lnk\<close> (and, for the
  waiting lists, backwards through \<open>p_rlnk\<close>) and ordered by descending priority.

  First the operations as the code has them, then the abstraction: \<open>lists_inv X q s\<close> says
  that the list of the control block \<open>h\<close> holds the tasks \<open>q h\<close>, and each operation is shown
  to compute a function of \<open>q\<close> (insertion by priority, removal of the first element,
  removal of a task).
\<close>

section \<open>The operations\<close>

fun sem_mbx :: "cbtype \<Rightarrow> bool" where
  "sem_mbx SCB = True"
| "sem_mbx MCB = True"
| "sem_mbx MUCB = True"
| "sem_mbx _ = False"

text \<open>The search loop of \<open>rt_put_prio\<close>: the last block whose successor has a lower priority.\<close>

partial_function (option) find_prio :: "kernel \<Rightarrow> u8 \<Rightarrow> ptr \<Rightarrow> ptr option" where
  "find_prio s pr p_CB =
     (case p_lnk s p_CB of
        None \<Rightarrow> Some p_CB
      | Some p_CB2 \<Rightarrow> if pr \<le> prio_of s p_CB2 then find_prio s pr (Task p_CB2) else Some p_CB)"

definition rt_put_prio :: "kernel \<Rightarrow> ptr \<Rightarrow> nat \<Rightarrow> kernel option" where
  "rt_put_prio s p_CB p_task = do {
     p \<leftarrow> find_prio s (prio_of s p_task) p_CB;
     let p_CB2 = p_lnk s p;
     let s1 = set_lnk p (Some p_task) (set_lnk (Task p_task) p_CB2 s);
     if sem_mbx (cb_type s p_CB)
     then let s2 = (case p_CB2 of None \<Rightarrow> s1 | Some u \<Rightarrow> set_rlnk (Task u) (Some (Task p_task)) s1)
          in Some (set_rlnk (Task p_task) (Some p) s2)
     else Some (set_rlnk (Task p_task) None s1)
   }"

definition rt_get_first :: "kernel \<Rightarrow> ptr \<Rightarrow> (nat \<times> kernel) option" where
  "rt_get_first s p_CB =
     (case p_lnk s p_CB of
        None \<Rightarrow> None
      | Some p_first \<Rightarrow>
          let s1 = set_lnk p_CB (p_lnk s (Task p_first)) s
          in if sem_mbx (cb_type s p_CB)
             then let s2 = (case p_lnk s1 (Task p_first) of
                              None \<Rightarrow> s1
                            | Some u \<Rightarrow> set_lnk (Task p_first) None (set_rlnk (Task u) (Some p_CB) s1))
                  in Some (p_first, set_rlnk (Task p_first) None s2)
             else Some (p_first, set_lnk (Task p_first) None s1))"

definition rt_put_rdy_first :: "kernel \<Rightarrow> nat \<Rightarrow> kernel" where
  "rt_put_rdy_first s p_task =
     set_lnk Rdy (Some p_task) (set_rlnk (Task p_task) None (set_lnk (Task p_task) (p_lnk s Rdy) s))"

text \<open>Dereferences \<open>os_rdy.p_lnk\<close> and \<open>os_tsk.run\<close> without a null check.\<close>

definition rt_get_same_rdy_prio :: "kernel \<Rightarrow> (nat option \<times> kernel) option" where
  "rt_get_same_rdy_prio s = do {
     p_first \<leftarrow> p_lnk s Rdy;
     r \<leftarrow> run s;
     if prio_of s p_first = prio_of s r
     then Some (Some p_first, set_lnk Rdy (p_lnk s (Task p_first)) s)
     else Some (None, s)
   }"

definition rt_rdy_prio :: "kernel \<Rightarrow> u8 option" where
  "rt_rdy_prio s = map_option (prio_of s) (p_lnk s Rdy)"

text \<open>The search of \<open>rt_rmv_list\<close> through the ready list.\<close>

partial_function (option) rmv_rdy :: "kernel \<Rightarrow> nat \<Rightarrow> ptr \<Rightarrow> kernel option" where
  "rmv_rdy s p_task p_b =
     (if p_lnk s p_b = Some p_task then Some (set_lnk p_b (p_lnk s (Task p_task)) s)
      else case p_lnk s p_b of None \<Rightarrow> Some s | Some u \<Rightarrow> rmv_rdy s p_task (Task u))"

definition rt_rmv_list :: "kernel \<Rightarrow> nat \<Rightarrow> kernel option" where
  "rt_rmv_list s p_task =
     (case p_rlnk s (Task p_task) of
        Some p \<Rightarrow>
          let s1 = set_lnk p (p_lnk s (Task p_task)) s
          in Some (case p_lnk s1 (Task p_task) of
                     None \<Rightarrow> s1
                   | Some u \<Rightarrow> set_rlnk (Task u) (p_rlnk s1 (Task p_task)) s1)
      | None \<Rightarrow> rmv_rdy s p_task Rdy)"

text \<open>The loop of \<open>rt_resort_prio\<close> back to the header of a waiting list.\<close>

partial_function (option) find_head :: "kernel \<Rightarrow> ptr \<Rightarrow> ptr option" where
  "find_head s p_CB =
     (if cb_type s p_CB = TCB
      then case p_rlnk s p_CB of None \<Rightarrow> None | Some p \<Rightarrow> find_head s p
      else Some p_CB)"

definition rt_resort_prio :: "kernel \<Rightarrow> nat \<Rightarrow> kernel option" where
  "rt_resort_prio s p_task =
     (case p_rlnk s (Task p_task) of
        None \<Rightarrow>
          if state_of s p_task = READY
          then do { s1 \<leftarrow> rt_rmv_list s p_task; rt_put_prio s1 Rdy p_task }
          else Some s
      | Some p \<Rightarrow> do {
          p_CB \<leftarrow> find_head s p;
          s1 \<leftarrow> rt_rmv_list s p_task;
          rt_put_prio s1 p_CB p_task
        })"

section \<open>Lists in the kernel's heap\<close>

text \<open>
  \<open>path l h ts\<close>: following the links \<open>l\<close> from \<open>h\<close> visits the tasks \<open>ts\<close>; \<open>chain l h ts\<close>: and the
  list ends there. \<open>endp h ts\<close> is the last block visited, \<open>rchain r h ts\<close> says that the
  backward links \<open>r\<close> agree.
\<close>

primrec endp :: "ptr \<Rightarrow> nat list \<Rightarrow> ptr" where
  "endp h [] = h"
| "endp h (t # ts) = endp (Task t) ts"

primrec path :: "(ptr \<Rightarrow> nat option) \<Rightarrow> ptr \<Rightarrow> nat list \<Rightarrow> bool" where
  "path l h [] = True"
| "path l h (t # ts) = (l h = Some t \<and> path l (Task t) ts)"

definition chain :: "(ptr \<Rightarrow> nat option) \<Rightarrow> ptr \<Rightarrow> nat list \<Rightarrow> bool" where
  "chain l h ts = (path l h ts \<and> l (endp h ts) = None)"

primrec rchain :: "(ptr \<Rightarrow> ptr option) \<Rightarrow> ptr \<Rightarrow> nat list \<Rightarrow> bool" where
  "rchain r h [] = True"
| "rchain r h (t # ts) = (r (Task t) = Some h \<and> rchain r (Task t) ts)"

lemma endp_append [simp]: "endp h (xs @ ys) = endp (endp h xs) ys"
  by (induction xs arbitrary: h) auto

lemma endp_cases: "endp h xs = (if xs = [] then h else Task (last xs))"
  by (induction xs arbitrary: h) auto

lemma path_append [simp]: "path l h (xs @ ys) = (path l h xs \<and> path l (endp h xs) ys)"
  by (induction xs arbitrary: h) auto

lemma rchain_append [simp]: "rchain r h (xs @ ys) = (rchain r h xs \<and> rchain r (endp h xs) ys)"
  by (induction xs arbitrary: h) auto

lemma chain_append: "chain l h (xs @ ys) = (path l h xs \<and> chain l (endp h xs) ys)"
  by (auto simp: chain_def)

lemma chain_Nil [simp]: "chain l h [] = (l h = None)"
  by (simp add: chain_def)

lemma chain_Cons [simp]: "chain l h (t # ts) = (l h = Some t \<and> chain l (Task t) ts)"
  by (auto simp: chain_def)

lemma chain_None: "l h = None \<Longrightarrow> chain l h ts \<longleftrightarrow> ts = []"
  by (cases ts) auto

lemma chain_Some: "l h = Some t \<Longrightarrow> chain l h ts \<longleftrightarrow> (\<exists>us. ts = t # us \<and> chain l (Task t) us)"
  by (cases ts) auto

lemma chain_fun: "chain l h xs \<Longrightarrow> chain l h ys \<Longrightarrow> xs = ys"
  by (induction xs arbitrary: h ys) (auto simp: chain_None chain_Some)

lemma chain_not_self: "chain l (Task t) ts \<Longrightarrow> t \<notin> set ts"
proof
  assume c: "chain l (Task t) ts" and "t \<in> set ts"
  then obtain xs ys where "ts = xs @ t # ys"
    by (auto simp: in_set_conv_decomp)
  with c have "chain l (Task t) ys"
    by (simp add: chain_append)
  from chain_fun [OF c this] \<open>ts = xs @ t # ys\<close> show False
    by simp
qed

lemma chain_distinct: "chain l h ts \<Longrightarrow> distinct ts"
  by (induction ts arbitrary: h) (auto dest: chain_not_self)

text \<open>A control block that is no task: the head of a list.\<close>

fun hdr :: "ptr \<Rightarrow> bool" where
  "hdr (Task t) = False"
| "hdr _ = True"

lemma hdr_not_Task [simp]: "hdr h \<Longrightarrow> h \<noteq> Task t" "hdr h \<Longrightarrow> Task t \<noteq> h"
  by auto

lemma path_upd_Task [simp]:
  "Task u \<noteq> h \<Longrightarrow> u \<notin> set ts \<Longrightarrow> path (l(Task u := v)) h ts = path l h ts"
  by (induction ts arbitrary: h) auto

lemma path_upd_hdr [simp]:
  "hdr p \<Longrightarrow> p \<noteq> h \<Longrightarrow> path (l(p := v)) h ts = path l h ts"
  by (induction ts arbitrary: h) auto

lemma path_upd_end [simp]:
  "distinct ts \<Longrightarrow> hdr h \<Longrightarrow> path (l(endp h ts := v)) h ts = path l h ts"
proof (induction ts rule: rev_induct)
  case (snoc t ts)
  have "endp h ts \<noteq> Task t" and "path (l(Task t := v)) h ts = path l h ts"
    using snoc.prems by (auto simp: endp_cases)
  moreover have "endp h (ts @ [t]) = Task t"
    by simp
  ultimately show ?case
    by (metis fun_upd_other path.simps(1) path.simps(2) path_append)
qed simp

lemma endp_eq_Task: "endp h xs = Task t \<Longrightarrow> hdr h \<Longrightarrow> t \<in> set xs"
  by (auto simp: endp_cases split: if_splits)

lemma endp_eq_hdr: "endp h xs = p \<Longrightarrow> hdr p \<Longrightarrow> xs = [] \<and> h = p"
  by (auto simp: endp_cases split: if_splits)

lemma chain_upd_Task [simp]:
  assumes "Task u \<noteq> h" and "u \<notin> set ts"
  shows "chain (l(Task u := v)) h ts = chain l h ts"
proof -
  from assms have "endp h ts \<noteq> Task u"
    by (auto simp: endp_cases)
  with assms show ?thesis
    by (simp add: chain_def)
qed

lemma chain_upd_hdr [simp]:
  assumes "hdr p" and "p \<noteq> h"
  shows "chain (l(p := v)) h ts = chain l h ts"
proof -
  from assms have "endp h ts \<noteq> p"
    by (auto simp: endp_cases)
  with assms show ?thesis
    by (simp add: chain_def)
qed

lemma chain_upd_endp:
  assumes "hdr h" and "hdr h'" and "h \<noteq> h'" and "set xs \<inter> set ts = {}"
  shows "chain (l(endp h xs := v)) h' ts = chain l h' ts"
  using assms by (cases xs rule: rev_cases) auto

lemma rchain_upd_Task [simp]:
  "u \<notin> set ts \<Longrightarrow> rchain (r(Task u := v)) h ts = rchain r h ts"
  by (induction ts arbitrary: h) auto

text \<open>Inserting a task behind the prefix \<open>xs\<close> of a list, and removing it again.\<close>

lemma chain_insert:
  assumes c: "chain l h (xs @ ys)" and t: "t \<notin> set (xs @ ys)" and h: "hdr h"
  shows "chain (l(Task t := l (endp h xs), endp h xs := Some t)) h (xs @ t # ys)"
proof -
  have d: "distinct (xs @ ys)"
    using c by (rule chain_distinct)
  have c2: "chain l (endp h xs) ys"
    using c unfolding chain_append by simp
  have e: "endp h xs \<noteq> Task t" "endp h xs = Task u \<Longrightarrow> u \<notin> set ys" for u
    using t h d by (auto dest: endp_eq_Task)
  have "path (l(Task t := l (endp h xs), endp h xs := Some t)) h xs"
    using c t h d by (simp add: chain_append)
  moreover have "chain (l(Task t := l (endp h xs), endp h xs := Some t)) (Task t) ys"
    using c2 t e by (cases "endp h xs"; cases ys) auto
  ultimately show ?thesis
    by (simp add: chain_append)
qed

lemma chain_delete:
  assumes c: "chain l h (xs @ t # ys)" and h: "hdr h"
  shows "chain (l(endp h xs := l (Task t))) h (xs @ ys)"
proof -
  have d: "distinct (xs @ t # ys)"
    using c by (rule chain_distinct)
  have c2: "chain l (endp h xs) (t # ys)"
    using c unfolding chain_append by simp
  have e: "endp h xs = Task u \<Longrightarrow> u \<notin> set ys" for u
    using h d by (auto dest: endp_eq_Task)
  have "path (l(endp h xs := l (Task t))) h xs"
    using c h d by (simp add: chain_append)
  moreover have "chain (l(endp h xs := l (Task t))) (endp h xs) ys"
    using c2 e by (cases "endp h xs"; cases ys) auto
  ultimately show ?thesis
    by (simp add: chain_append)
qed

lemma rchain_insert:
  assumes "rchain r h (xs @ ys)" and "t \<notin> set (xs @ ys)" and "distinct (xs @ ys)"
  shows "rchain ((case ys of [] \<Rightarrow> r | u # _ \<Rightarrow> r(Task u := Some (Task t)))(Task t := Some (endp h xs)))
           h (xs @ t # ys)"
  using assms by (cases ys) auto

lemma rchain_delete:
  assumes "rchain r h (xs @ t # ys)" and "distinct (xs @ t # ys)"
  shows "rchain (case ys of [] \<Rightarrow> r | u # _ \<Rightarrow> r(Task u := r (Task t))) h (xs @ ys)"
  using assms by (cases ys) auto

section \<open>The abstraction: one list of tasks per control block\<close>

text \<open>The lists a task can be in: the ready list and those of initialised kernel objects.\<close>

definition live :: "kernel \<Rightarrow> ptr \<Rightarrow> bool" where
  "live s h = (h = Rdy \<or> sem_mbx (cb_type s h))"

definition cb_ok :: "kernel \<Rightarrow> bool" where
  "cb_ok s = (cb_type s Rdy = HCB \<and> cb_type s Dly = HCB \<and> (\<forall>t. cb_type s (Task t) = TCB))"

definition unqueued :: "(ptr \<Rightarrow> nat list) \<Rightarrow> kernel \<Rightarrow> nat \<Rightarrow> bool" where
  "unqueued q s t = (\<forall>h. live s h \<longrightarrow> t \<notin> set (q h))"

text \<open>
  The tasks in \<open>X\<close> are exempt from the rule that a task in no waiting list has a null
  \<open>p_rlnk\<close>: \<open>rt_rmv_list\<close> leaves the field of the removed task as it was.
\<close>

definition lists_inv :: "nat set \<Rightarrow> (ptr \<Rightarrow> nat list) \<Rightarrow> kernel \<Rightarrow> bool" where
  "lists_inv X q s \<longleftrightarrow>
     cb_ok s \<and>
     (\<forall>h. live s h \<longrightarrow> chain (p_lnk s) h (q h)) \<and>
     (\<forall>h. sem_mbx (cb_type s h) \<longrightarrow> rchain (p_rlnk s) h (q h)) \<and>
     (\<forall>t. t \<notin> X \<longrightarrow> (\<forall>h. sem_mbx (cb_type s h) \<longrightarrow> t \<notin> set (q h)) \<longrightarrow> p_rlnk s (Task t) = None) \<and>
     (\<forall>h h'. live s h \<longrightarrow> live s h' \<longrightarrow> h \<noteq> h' \<longrightarrow> set (q h) \<inter> set (q h') = {})"

lemma cb_ok_hdr: "cb_ok s \<Longrightarrow> live s h \<Longrightarrow> hdr h"
  by (cases h) (auto simp: cb_ok_def live_def)

lemma cb_ok_Rdy: "cb_ok s \<Longrightarrow> \<not> sem_mbx (cb_type s Rdy)"
  by (simp add: cb_ok_def)

lemma live_sem_mbx: "sem_mbx (cb_type s h) \<Longrightarrow> live s h"
  by (simp add: live_def)

lemma live_Rdy [simp]: "live s Rdy"
  by (simp add: live_def)

lemma lists_invD:
  assumes "lists_inv X q s"
  shows "cb_ok s"
    and "live s h \<Longrightarrow> chain (p_lnk s) h (q h)"
    and "live s h \<Longrightarrow> hdr h"
    and "live s h \<Longrightarrow> distinct (q h)"
    and "sem_mbx (cb_type s h) \<Longrightarrow> rchain (p_rlnk s) h (q h)"
    and "t \<notin> X \<Longrightarrow> (\<And>h. sem_mbx (cb_type s h) \<Longrightarrow> t \<notin> set (q h)) \<Longrightarrow> p_rlnk s (Task t) = None"
    and "live s h \<Longrightarrow> live s h' \<Longrightarrow> h \<noteq> h' \<Longrightarrow> set (q h) \<inter> set (q h') = {}"
proof -
  show "cb_ok s" and "live s h \<Longrightarrow> chain (p_lnk s) h (q h)"
    using assms by (auto simp: lists_inv_def)
  then show "live s h \<Longrightarrow> hdr h" and "live s h \<Longrightarrow> distinct (q h)"
    by (auto intro: cb_ok_hdr chain_distinct)
qed (use assms in \<open>auto simp: lists_inv_def\<close>)

text \<open>The abstract operation: insertion behind all tasks of the same or a higher priority.\<close>

fun ins_prio :: "(nat \<Rightarrow> u8) \<Rightarrow> nat \<Rightarrow> nat list \<Rightarrow> nat list" where
  "ins_prio pr t [] = [t]"
| "ins_prio pr t (u # us) = (if pr t \<le> pr u then u # ins_prio pr t us else t # u # us)"

lemma set_ins_prio [simp]: "set (ins_prio pr t ts) = insert t (set ts)"
  by (induction ts) auto

lemma length_ins_prio [simp]: "length (ins_prio pr t ts) = Suc (length ts)"
  by (induction ts) auto

lemma ins_prio_neq_Nil [simp]: "ins_prio pr t ts \<noteq> []"
  by (cases ts) auto

definition prio_sorted :: "(nat \<Rightarrow> u8) \<Rightarrow> nat list \<Rightarrow> bool" where
  "prio_sorted pr = sorted_wrt (\<lambda>a b. pr b \<le> pr a)"

lemma prio_sorted_simps [simp]:
  "prio_sorted pr []"
  "prio_sorted pr (t # ts) = ((\<forall>u \<in> set ts. pr u \<le> pr t) \<and> prio_sorted pr ts)"
  by (simp_all add: prio_sorted_def)

lemma prio_sorted_append:
  "prio_sorted pr (xs @ ys) =
     (prio_sorted pr xs \<and> prio_sorted pr ys \<and> (\<forall>x \<in> set xs. \<forall>y \<in> set ys. pr y \<le> pr x))"
  by (auto simp: prio_sorted_def sorted_wrt_append)

lemma prio_sorted_cong: "(\<And>t. t \<in> set ts \<Longrightarrow> pr t = pr' t) \<Longrightarrow> prio_sorted pr ts = prio_sorted pr' ts"
  by (induction ts) auto

lemma prio_sorted_ins_prio: "prio_sorted pr ts \<Longrightarrow> prio_sorted pr (ins_prio pr t ts)"
  by (induction ts) auto

lemma prio_sorted_remove1: "prio_sorted pr ts \<Longrightarrow> prio_sorted pr (remove1 t ts)"
  by (simp add: prio_sorted_def sorted_wrt_remove1)

lemma ins_prio_cong:
  "(\<And>u. u \<in> insert t (set ts) \<Longrightarrow> pr u = pr' u) \<Longrightarrow> ins_prio pr t ts = ins_prio pr' t ts"
  by (induction ts) auto

lemma hd_ins_prio:
  "hd (ins_prio pr t ts) = (if ts \<noteq> [] \<and> pr t \<le> pr (hd ts) then hd ts else t)"
  by (cases ts) auto

lemma find_prio_chain:
  assumes "chain (p_lnk s) h ts"
  obtains xs ys where "ts = xs @ ys" and "find_prio s (prio_of s t) h = Some (endp h xs)"
    and "ins_prio (prio_of s) t ts = xs @ t # ys"
proof -
  have "\<exists>xs ys. ts = xs @ ys \<and> find_prio s (prio_of s t) h = Some (endp h xs) \<and>
      ins_prio (prio_of s) t ts = xs @ t # ys"
    using assms
  proof (induction ts arbitrary: h)
    case Nil
    then show ?case by (simp add: find_prio.simps)
  next
    case (Cons u us)
    show ?case
    proof (cases "prio_of s t \<le> prio_of s u")
      case True
      from Cons obtain xs ys where "us = xs @ ys"
        "find_prio s (prio_of s t) (Task u) = Some (endp (Task u) xs)"
        "ins_prio (prio_of s) t us = xs @ t # ys"
        by (auto dest!: Cons.IH)
      with True Cons.prems show ?thesis
        by (intro exI [of _ "u # xs"] exI [of _ ys]) (simp add: find_prio.simps [of s _ h])
    next
      case False
      with Cons.prems show ?thesis
        by (intro exI [of _ "[]"] exI [of _ "u # us"]) (simp add: find_prio.simps [of s _ h])
    qed
  qed
  then show ?thesis
    using that by blast
qed

lemma lists_inv_update_simps [simp]:
  "lists_inv X q (s\<lparr>p_dlnk := a\<rparr>) = lists_inv X q s"
  "lists_inv X q (s\<lparr>p_blnk := b\<rparr>) = lists_inv X q s"
  "lists_inv X q (s\<lparr>delta_time := c\<rparr>) = lists_inv X q s"
  "lists_inv X q (s\<lparr>tcbs := d\<rparr>) = lists_inv X q s"
  "lists_inv X q (s\<lparr>scbs := e\<rparr>) = lists_inv X q s"
  "lists_inv X q (s\<lparr>mcbs := f\<rparr>) = lists_inv X q s"
  "lists_inv X q (s\<lparr>mucbs := g\<rparr>) = lists_inv X q s"
  "lists_inv X q (s\<lparr>run := rn\<rparr>) = lists_inv X q s"
  "lists_inv X q (s\<lparr>new_tsk := rn\<rparr>) = lists_inv X q s"
  "lists_inv X q (s\<lparr>os_active_TCB := ac\<rparr>) = lists_inv X q s"
  "lists_inv X q (s\<lparr>os_time := tm\<rparr>) = lists_inv X q s"
  "lists_inv X q (s\<lparr>robin_task := rt\<rparr>) = lists_inv X q s"
  "lists_inv X q (s\<lparr>robin_time := ti\<rparr>) = lists_inv X q s"
  "lists_inv X q (s\<lparr>os_psq := pq\<rparr>) = lists_inv X q s"
  "lists_inv X q (s\<lparr>mem := mm\<rparr>) = lists_inv X q s"
  by (simp_all add: lists_inv_def live_def cb_ok_def)

lemma live_cong: "cb_type s' = cb_type s \<Longrightarrow> live s' h = live s h"
  by (simp add: live_def)

lemma live_update_simps [simp]:
  "live (s\<lparr>p_lnk := l\<rparr>) h = live s h"
  "live (s\<lparr>p_rlnk := r\<rparr>) h = live s h"
  "live (s\<lparr>p_dlnk := a\<rparr>) h = live s h"
  "live (s\<lparr>p_blnk := b\<rparr>) h = live s h"
  "live (s\<lparr>delta_time := c\<rparr>) h = live s h"
  "live (s\<lparr>tcbs := d\<rparr>) h = live s h"
  "live (s\<lparr>scbs := e\<rparr>) h = live s h"
  "live (s\<lparr>mcbs := f\<rparr>) h = live s h"
  "live (s\<lparr>mucbs := g\<rparr>) h = live s h"
  "live (s\<lparr>run := rn\<rparr>) h = live s h"
  "live (s\<lparr>new_tsk := rn\<rparr>) h = live s h"
  "live (s\<lparr>os_active_TCB := ac\<rparr>) h = live s h"
  "live (s\<lparr>os_time := tm\<rparr>) h = live s h"
  "live (s\<lparr>robin_task := rt\<rparr>) h = live s h"
  "live (s\<lparr>robin_time := ti\<rparr>) h = live s h"
  "live (s\<lparr>os_psq := pq\<rparr>) h = live s h"
  "live (s\<lparr>mem := mm\<rparr>) h = live s h"
  by (simp_all add: live_def)

lemma lists_inv_mono: "lists_inv X q s \<Longrightarrow> X \<subseteq> Y \<Longrightarrow> lists_inv Y q s"
  by (auto simp: lists_inv_def)

text \<open>The effect of relinking one list, on the heap of all lists.\<close>

lemma lists_inv_relink:
  assumes inv: "lists_inv X q s" and h: "live s h"
    and chain: "chain l h ts" and rchain: "sem_mbx (cb_type s h) \<Longrightarrow> rchain r h ts"
    and others: "\<And>h'. live s h' \<Longrightarrow> h' \<noteq> h \<Longrightarrow> chain l h' (q h')"
    and rothers: "\<And>t. t \<notin> A \<Longrightarrow> r (Task t) = p_rlnk s (Task t)"
    and A: "\<And>t h'. t \<in> A \<Longrightarrow> live s h' \<Longrightarrow> h' \<noteq> h \<Longrightarrow> t \<notin> set (q h')"
    and Anone: "\<And>t. t \<in> A \<Longrightarrow> t \<notin> Y \<Longrightarrow> (sem_mbx (cb_type s h) \<Longrightarrow> t \<notin> set ts) \<Longrightarrow> r (Task t) = None"
    and ts: "set ts \<subseteq> set (q h) \<union> A" and Y: "X - A \<subseteq> Y" and gone: "set (q h) - set ts \<subseteq> A"
  shows "lists_inv Y (q(h := ts)) (s\<lparr>p_lnk := l, p_rlnk := r\<rparr>)"
proof -
  note D = lists_invD [OF inv]
  have "rchain r h' (q h')" if "sem_mbx (cb_type s h')" "h' \<noteq> h" for h'
  proof -
    have eq: "r (Task t) = p_rlnk s (Task t)" if "t \<in> set (q h')" for t
      using that \<open>h' \<noteq> h\<close> A live_sem_mbx [OF \<open>sem_mbx (cb_type s h')\<close>] by (intro rothers) blast
    have "rchain r k us = rchain (p_rlnk s) k us" if "set us \<subseteq> set (q h')" for k us
      using that by (induction us arbitrary: k) (auto simp: eq)
    then show ?thesis
      using D(5) [OF \<open>sem_mbx (cb_type s h')\<close>] by blast
  qed
  moreover have "r (Task t) = None"
    if "t \<notin> Y" "\<And>h'. sem_mbx (cb_type s h') \<Longrightarrow> t \<notin> set ((q(h := ts)) h')" for t
  proof (cases "t \<in> A")
    case True
    then show ?thesis
      using that(1) that(2) [of h] by (intro Anone) auto
  next
    case False
    have "p_rlnk s (Task t) = None"
    proof (rule D(6))
      show "t \<notin> X"
        using False Y \<open>t \<notin> Y\<close> by blast
      show "t \<notin> set (q h')" if "sem_mbx (cb_type s h')" for h'
        using that \<open>\<And>h'. sem_mbx (cb_type s h') \<Longrightarrow> t \<notin> set ((q(h := ts)) h')\<close> [of h'] False gone
        by (cases "h' = h") auto
    qed
    then show ?thesis
      using rothers [OF False] by simp
  qed
  moreover have "set ts \<inter> set (q h') = {}" if "live s h'" "h' \<noteq> h" for h'
    using ts A that D(7) [OF h \<open>live s h'\<close>] by blast
  ultimately show ?thesis
    using D chain rchain others h
    by (auto simp: lists_inv_def live_def cb_ok_def dest: D(7))
qed

section \<open>Each operation computes its abstract counterpart\<close>

text \<open>
  Every statement gives the resulting state as \<open>s\<lparr>p_lnk := l, p_rlnk := r\<rparr>\<close>: the operations
  change the forward and backward links and nothing else.
\<close>

lemma rt_put_prio_refines:
  assumes inv: "lists_inv X q s" and h: "live s h" and t: "unqueued q s t"
  shows "\<exists>l r. rt_put_prio s h t = Some (s\<lparr>p_lnk := l, p_rlnk := r\<rparr>) \<and>
    lists_inv (X - {t}) (q(h := ins_prio (prio_of s) t (q h))) (s\<lparr>p_lnk := l, p_rlnk := r\<rparr>)"
proof -
  note D = lists_invD [OF inv]
  obtain xs ys where q: "q h = xs @ ys"
    and f: "find_prio s (prio_of s t) h = Some (endp h xs)"
    and i: "ins_prio (prio_of s) t (q h) = xs @ t # ys"
    using find_prio_chain [OF D(2) [OF h]] by blast
  have t': "t \<notin> set (q h')" if "live s h'" for h'
    using t that by (simp add: unqueued_def)
  have c: "chain (p_lnk s) (endp h xs) ys"
    using D(2) [OF h] by (simp add: q chain_append)
  have nxt: "p_lnk s (endp h xs) = (case ys of [] \<Rightarrow> None | u # _ \<Rightarrow> Some u)"
    using c by (cases ys) auto
  define l where "l = (p_lnk s)(Task t := p_lnk s (endp h xs), endp h xs := Some t)"
  define r where "r = (if sem_mbx (cb_type s h)
    then (case ys of [] \<Rightarrow> p_rlnk s | u # _ \<Rightarrow> (p_rlnk s)(Task u := Some (Task t)))(Task t := Some (endp h xs))
    else (p_rlnk s)(Task t := None))"
  have "rt_put_prio s h t = Some (s\<lparr>p_lnk := l, p_rlnk := r\<rparr>)"
    by (cases ys) (simp_all add: rt_put_prio_def f nxt l_def r_def)
  moreover have "lists_inv (X - {t}) (q(h := xs @ t # ys)) (s\<lparr>p_lnk := l, p_rlnk := r\<rparr>)"
  proof (rule lists_inv_relink [OF inv h, where A = "insert t (set (q h))"])
    show "chain l h (xs @ t # ys)"
      unfolding l_def by (rule chain_insert [OF D(2) [OF h, unfolded q] t' [OF h, unfolded q] D(3) [OF h]])
    show "rchain r h (xs @ t # ys)" if "sem_mbx (cb_type s h)"
      unfolding r_def if_P [OF that]
      by (rule rchain_insert [OF D(5) [OF that, unfolded q] t' [OF h, unfolded q] D(4) [OF h, unfolded q]])
    show "chain l h' (q h')" if "live s h'" "h' \<noteq> h" for h'
      unfolding l_def using that D(7) [OF h that(1)] t' [OF that(1)] q
      by (subst chain_upd_endp) (use D that h in auto)
    show "r (Task u) = p_rlnk s (Task u)" if "u \<notin> insert t (set (q h))" for u
      using that q by (auto simp: r_def split: list.splits)
    show "u \<notin> set (q h')" if "u \<in> insert t (set (q h))" "live s h'" "h' \<noteq> h" for u h'
      using that D(7) [OF h that(2)] t' [OF that(2)] by auto
    show "r (Task u) = None"
      if "u \<in> insert t (set (q h))" "u \<notin> X - {t}"
        "sem_mbx (cb_type s h) \<Longrightarrow> u \<notin> set (xs @ t # ys)" for u
    proof (cases "u = t")
      case True
      then show ?thesis using that by (auto simp: r_def)
    next
      case False
      then have "u \<in> set (q h)" "\<not> sem_mbx (cb_type s h)"
        using that q by auto
      moreover have "p_rlnk s (Task u) = None"
      proof (rule D(6))
        show "u \<notin> X" using that False by auto
        show "u \<notin> set (q h')" if "sem_mbx (cb_type s h')" for h'
          using calculation that D(7) [OF h live_sem_mbx [OF that]] by auto
      qed
      ultimately show ?thesis
        using False by (simp add: r_def)
    qed
    show "X - insert t (set (q h)) \<subseteq> X - {t}" by auto
  qed (use q in auto)
  ultimately show ?thesis
    using i by metis
qed

lemma rt_get_first_refines:
  assumes inv: "lists_inv X q s" and h: "live s h" and q: "q h = t # ts"
  shows "\<exists>l r. rt_get_first s h = Some (t, s\<lparr>p_lnk := l, p_rlnk := r\<rparr>) \<and>
    lists_inv (X - (if h = Rdy then {} else {t})) (q(h := ts)) (s\<lparr>p_lnk := l, p_rlnk := r\<rparr>)"
proof -
  note D = lists_invD [OF inv]
  have c: "p_lnk s h = Some t" "chain (p_lnk s) (Task t) ts"
    using D(2) [OF h] by (simp_all add: q)
  have nxt: "p_lnk s (Task t) = (case ts of [] \<Rightarrow> None | u # _ \<Rightarrow> Some u)"
    using c by (cases ts) auto
  have hd: "hdr h" and dist: "distinct (t # ts)"
    using D(3,4) [OF h] q by auto
  define l where "l = (p_lnk s)(h := p_lnk s (Task t), Task t := None)"
  define r where "r = (if sem_mbx (cb_type s h)
    then (case ts of [] \<Rightarrow> p_rlnk s | u # _ \<Rightarrow> (p_rlnk s)(Task u := Some h))(Task t := None)
    else p_rlnk s)"
  have idem: "(p_lnk s)(h := v, Task t := None) = (p_lnk s)(h := v)" if "p_lnk s (Task t) = None" for v
    using that hd by (auto simp: fun_eq_iff)
  have "rt_get_first s h = Some (t, s\<lparr>p_lnk := l, p_rlnk := r\<rparr>)"
    using hd nxt idem by (cases ts) (auto simp: rt_get_first_def c l_def r_def)
  moreover have "lists_inv (X - (if h = Rdy then {} else {t})) (q(h := ts)) (s\<lparr>p_lnk := l, p_rlnk := r\<rparr>)"
  proof (rule lists_inv_relink [OF inv h, where A = "set (q h)"])
    show "chain l h ts"
      unfolding l_def using chain_delete [of "p_lnk s" h "[]" t ts] D(2) [OF h] hd dist q by simp
    show "rchain r h ts" if "sem_mbx (cb_type s h)"
      unfolding r_def using rchain_delete [of "p_rlnk s" h "[]" t ts] D(5) [OF that] dist q that
      by (cases ts) auto
    show "chain l h' (q h')" if "live s h'" "h' \<noteq> h" for h'
      unfolding l_def using that D(2,3,7) [OF that(1)] D(7) [OF h that(1)] hd q by simp
    show "r (Task u) = p_rlnk s (Task u)" if "u \<notin> set (q h)" for u
      using that q by (auto simp: r_def split: list.splits)
    show "u \<notin> set (q h')" if "u \<in> set (q h)" "live s h'" "h' \<noteq> h" for u h'
      using that D(7) [OF h that(2)] by auto
    show "r (Task u) = None"
      if u: "u \<in> set (q h)" "u \<notin> X - (if h = Rdy then {} else {t})"
        and nots: "sem_mbx (cb_type s h) \<Longrightarrow> u \<notin> set ts" for u
    proof (cases "sem_mbx (cb_type s h)")
      case True
      then show ?thesis using nots q u(1) by (simp add: r_def)
    next
      case False
      have "p_rlnk s (Task u) = None"
      proof (rule D(6))
        show "u \<notin> X" using u False h by (auto simp: live_def)
        show "u \<notin> set (q h')" if "sem_mbx (cb_type s h')" for h'
          using u(1) False that D(7) [OF h live_sem_mbx [OF that]] by auto
      qed
      then show ?thesis using False by (simp add: r_def)
    qed
  qed (use q in auto)
  ultimately show ?thesis
    by blast
qed

lemma rt_get_first_empty:
  assumes "lists_inv X q s" and "live s h" and "q h = []"
  shows "rt_get_first s h = None"
  using lists_invD(2) [OF assms(1,2)] assms(3) by (simp add: rt_get_first_def)

lemma rt_put_rdy_first_refines:
  assumes inv: "lists_inv X q s" and t: "unqueued q s t"
  shows "\<exists>l r. rt_put_rdy_first s t = s\<lparr>p_lnk := l, p_rlnk := r\<rparr> \<and>
    lists_inv (X - {t}) (q(Rdy := t # q Rdy)) (s\<lparr>p_lnk := l, p_rlnk := r\<rparr>)"
proof -
  note D = lists_invD [OF inv]
  have t': "t \<notin> set (q h')" if "live s h'" for h'
    using t that by (simp add: unqueued_def)
  define l where "l = (p_lnk s)(Task t := p_lnk s Rdy, Rdy := Some t)"
  define r where "r = (p_rlnk s)(Task t := None)"
  have "rt_put_rdy_first s t = s\<lparr>p_lnk := l, p_rlnk := r\<rparr>"
    by (simp add: rt_put_rdy_first_def l_def r_def)
  moreover have "lists_inv (X - {t}) (q(Rdy := t # q Rdy)) (s\<lparr>p_lnk := l, p_rlnk := r\<rparr>)"
  proof (rule lists_inv_relink [OF inv live_Rdy, where A = "{t}"])
    show "chain l Rdy (t # q Rdy)"
      unfolding l_def using chain_insert [of "p_lnk s" Rdy "[]" "q Rdy" t] D(2) t' by simp
    show "rchain r Rdy (t # q Rdy)" if "sem_mbx (cb_type s Rdy)"
      using that cb_ok_Rdy [OF D(1)] by simp
    show "chain l h' (q h')" if "live s h'" "h' \<noteq> Rdy" for h'
      unfolding l_def using that D(2,3) [OF that(1)] t' [OF that(1)] by simp
    show "r (Task u) = None" if "u \<in> {t}" for u
      using that by (simp add: r_def)
  qed (use t' in \<open>auto simp: r_def\<close>)
  ultimately show ?thesis
    by blast
qed

lemma rmv_rdy_found:
  "chain (p_lnk s) h (xs @ t # ys) \<Longrightarrow>
    rmv_rdy s t h = Some (set_lnk (endp h xs) (p_lnk s (Task t)) s)"
proof (induction xs arbitrary: h)
  case Nil
  then show ?case by (simp add: rmv_rdy.simps fun_upd_def)
next
  case (Cons x xs)
  then have "x \<noteq> t"
    by (auto dest: chain_not_self)
  with Cons show ?case
    by (simp add: rmv_rdy.simps [of s t h])
qed

lemma rmv_rdy_not_found: "chain (p_lnk s) h ts \<Longrightarrow> t \<notin> set ts \<Longrightarrow> rmv_rdy s t h = Some s"
proof (induction ts arbitrary: h)
  case (Cons x xs)
  then show ?case
    by (simp add: rmv_rdy.simps [of s t h])
qed (simp add: rmv_rdy.simps)

lemma rt_rmv_list_refines:
  assumes inv: "lists_inv X q s" and h: "live s h" and t: "t \<in> set (q h)" "t \<notin> X"
  shows "\<exists>l r. rt_rmv_list s t = Some (s\<lparr>p_lnk := l, p_rlnk := r\<rparr>) \<and>
    lists_inv (insert t X) (q(h := remove1 t (q h))) (s\<lparr>p_lnk := l, p_rlnk := r\<rparr>)"
proof -
  note D = lists_invD [OF inv]
  obtain xs ys where q: "q h = xs @ t # ys"
    using t(1) by (auto simp: in_set_conv_decomp)
  have hd: "hdr h" and dist: "distinct (xs @ t # ys)"
    and c: "chain (p_lnk s) h (xs @ t # ys)"
    using D(2,3,4) [OF h] q by auto
  have ct: "chain (p_lnk s) (Task t) ys"
    using c by (simp add: chain_append)
  have nxt: "p_lnk s (Task t) = (case ys of [] \<Rightarrow> None | u # _ \<Rightarrow> Some u)"
    using ct by (cases ys) auto
  have ne: "endp h xs \<noteq> Task t"
    using dist hd by (auto dest: endp_eq_Task)
  define l where "l = (p_lnk s)(endp h xs := p_lnk s (Task t))"
  define r where "r = (if sem_mbx (cb_type s h)
    then (case ys of [] \<Rightarrow> p_rlnk s | u # _ \<Rightarrow> (p_rlnk s)(Task u := p_rlnk s (Task t)))
    else p_rlnk s)"
  have "rt_rmv_list s t = Some (s\<lparr>p_lnk := l, p_rlnk := r\<rparr>)"
  proof (cases "sem_mbx (cb_type s h)")
    case True
    have "p_rlnk s (Task t) = Some (endp h xs)"
      using D(5) [OF True] by (simp add: q)
    with True nxt ne show ?thesis
      by (cases ys) (auto simp: rt_rmv_list_def l_def r_def)
  next
    case False
    with h have "h = Rdy" by (simp add: live_def)
    have "p_rlnk s (Task t) = None"
    proof (rule D(6))
      show "t \<notin> set (q h')" if "sem_mbx (cb_type s h')" for h'
        using t(1) False that D(7) [OF h live_sem_mbx [OF that]] by auto
    qed (use t in auto)
    with False \<open>h = Rdy\<close> rmv_rdy_found [OF c] show ?thesis
      by (simp add: rt_rmv_list_def l_def r_def)
  qed
  moreover have "lists_inv (insert t X) (q(h := xs @ ys)) (s\<lparr>p_lnk := l, p_rlnk := r\<rparr>)"
  proof (rule lists_inv_relink [OF inv h, where A = "set (q h)"])
    show "chain l h (xs @ ys)"
      unfolding l_def by (rule chain_delete [OF c hd])
    show "rchain r h (xs @ ys)" if "sem_mbx (cb_type s h)"
      unfolding r_def if_P [OF that] by (rule rchain_delete [OF D(5) [OF that, unfolded q] dist])
    show "chain l h' (q h')" if "live s h'" "h' \<noteq> h" for h'
      unfolding l_def using that D(7) [OF h that(1)] q
      by (subst chain_upd_endp) (use D(2,3) [OF that(1)] that hd in auto)
    show "r (Task u) = p_rlnk s (Task u)" if "u \<notin> set (q h)" for u
      using that q by (auto simp: r_def split: list.splits)
    show "u \<notin> set (q h')" if "u \<in> set (q h)" "live s h'" "h' \<noteq> h" for u h'
      using that D(7) [OF h that(2)] by auto
    show "r (Task u) = None"
      if u: "u \<in> set (q h)" "u \<notin> insert t X"
        and nots: "sem_mbx (cb_type s h) \<Longrightarrow> u \<notin> set (xs @ ys)" for u
    proof (cases "sem_mbx (cb_type s h)")
      case True
      then show ?thesis using nots q u by simp
    next
      case False
      have "p_rlnk s (Task u) = None"
      proof (rule D(6))
        show "u \<notin> X" using u by auto
        show "u \<notin> set (q h')" if "sem_mbx (cb_type s h')" for h'
          using u(1) False that D(7) [OF h live_sem_mbx [OF that]] by auto
      qed
      then show ?thesis using False by (simp add: r_def)
    qed
  qed (use q in auto)
  moreover have "remove1 t (q h) = xs @ ys"
    using dist q by (simp add: remove1_append)
  ultimately show ?thesis
    by metis
qed

lemma rt_rmv_list_unqueued:
  assumes inv: "lists_inv X q s" and t: "unqueued q s t" "t \<notin> X"
  shows "rt_rmv_list s t = Some s"
proof -
  note D = lists_invD [OF inv]
  have "p_rlnk s (Task t) = None"
    by (rule D(6)) (use t live_sem_mbx in \<open>auto simp: unqueued_def\<close>)
  moreover have "rmv_rdy s t Rdy = Some s"
    by (rule rmv_rdy_not_found [OF D(2)]) (use t in \<open>auto simp: unqueued_def\<close>)
  ultimately show ?thesis
    by (simp add: rt_rmv_list_def)
qed

lemma find_head_chain:
  assumes "rchain (p_rlnk s) h (xs @ [t])" and "\<forall>u. cb_type s (Task u) = TCB" and "cb_type s h \<noteq> TCB"
  shows "find_head s (endp h xs) = Some h"
  using assms
proof (induction xs arbitrary: t rule: rev_induct)
  case Nil
  then show ?case by (simp add: find_head.simps)
next
  case (snoc x xs)
  then have "p_rlnk s (Task x) = Some (endp h xs)" and "find_head s (endp h xs) = Some h"
    by auto
  with snoc.prems(2) show ?case
    by (simp add: find_head.simps [of s "Task x"])
qed

text \<open>
  Re-sorting a task whose priority has changed: it moves to its place in the list it is in.
\<close>

lemma rt_resort_prio_refines:
  assumes inv: "lists_inv X q s" and h: "live s h" and t: "t \<in> set (q h)" "t \<notin> X"
    and st: "h = Rdy \<Longrightarrow> state_of s t = READY"
  shows "\<exists>l r. rt_resort_prio s t = Some (s\<lparr>p_lnk := l, p_rlnk := r\<rparr>) \<and>
    lists_inv X (q(h := ins_prio (prio_of s) t (remove1 t (q h)))) (s\<lparr>p_lnk := l, p_rlnk := r\<rparr>)"
proof -
  note D = lists_invD [OF inv]
  obtain l r where rm: "rt_rmv_list s t = Some (s\<lparr>p_lnk := l, p_rlnk := r\<rparr>)"
    and i1: "lists_inv (insert t X) (q(h := remove1 t (q h))) (s\<lparr>p_lnk := l, p_rlnk := r\<rparr>)"
    using rt_rmv_list_refines [OF inv h t] by blast
  have unq: "unqueued (q(h := remove1 t (q h))) (s\<lparr>p_lnk := l, p_rlnk := r\<rparr>) t"
    using D(4) [OF h] D(7) [OF h] t by (auto simp: unqueued_def)
  have h': "live (s\<lparr>p_lnk := l, p_rlnk := r\<rparr>) h"
    using h by simp
  obtain l' r' where pp: "rt_put_prio (s\<lparr>p_lnk := l, p_rlnk := r\<rparr>) h t = Some (s\<lparr>p_lnk := l', p_rlnk := r'\<rparr>)"
    and i2: "lists_inv X (q(h := ins_prio (prio_of s) t (remove1 t (q h)))) (s\<lparr>p_lnk := l', p_rlnk := r'\<rparr>)"
    using rt_put_prio_refines [OF i1 h' unq] t(2) by auto
  have "rt_resort_prio s t = Some (s\<lparr>p_lnk := l', p_rlnk := r'\<rparr>)"
  proof (cases "sem_mbx (cb_type s h)")
    case True
    obtain xs ys where q: "q h = xs @ t # ys"
      using t(1) by (auto simp: in_set_conv_decomp)
    have rc: "rchain (p_rlnk s) h (xs @ [t])"
      using D(5) [OF True] q by simp
    have "find_head s (endp h xs) = Some h"
      by (rule find_head_chain [OF rc]) (use D(1) True in \<open>auto simp: cb_ok_def\<close>)
    with rc rm pp show ?thesis
      by (simp add: rt_resort_prio_def)
  next
    case False
    with h have "h = Rdy" by (simp add: live_def)
    have "p_rlnk s (Task t) = None"
    proof (rule D(6))
      show "t \<notin> set (q h')" if "sem_mbx (cb_type s h')" for h'
        using t(1) False that D(7) [OF h live_sem_mbx [OF that]] by auto
    qed (use t in auto)
    with rm pp st \<open>h = Rdy\<close> show ?thesis
      by (simp add: rt_resort_prio_def)
  qed
  with i2 show ?thesis
    by blast
qed

lemma rt_resort_prio_unqueued:
  assumes inv: "lists_inv X q s" and t: "unqueued q s t" "t \<notin> X" and st: "state_of s t \<noteq> READY"
  shows "rt_resort_prio s t = Some s"
proof -
  have "p_rlnk s (Task t) = None"
    by (rule lists_invD(6) [OF inv]) (use t live_sem_mbx in \<open>auto simp: unqueued_def\<close>)
  with st show ?thesis
    by (simp add: rt_resort_prio_def)
qed

end
