(* ===== verification/Rtx_Delay.thy ===== *)
theory Rtx_Delay
  imports Rtx_List
begin

text \<open>
  The delay list (\<open>rt_put_dly\<close>, \<open>rt_dec_dly\<close>, \<open>rt_rmv_dly\<close> of \<open>rt_List.c\<close>): the tasks that wait
  with a timeout, linked through \<open>p_dlnk\<close> and \<open>p_blnk\<close> from \<open>os_dly\<close>. The field \<open>delta_time\<close> of a
  block is the time between its own expiry and that of its successor.

  The abstraction \<open>dly_inv d s\<close> turns the deltas into absolute remaining times: \<open>d\<close> is the list
  of the waiting tasks with the number of ticks each still has to wait.
\<close>

section \<open>The operations\<close>

text \<open>The statements at the label \<open>last\<close> of \<open>rt_put_dly\<close>, and those after its loop.\<close>

definition put_dly_last :: "kernel \<Rightarrow> nat \<Rightarrow> ptr \<Rightarrow> u32 \<Rightarrow> u32 \<Rightarrow> kernel" where
  "put_dly_last s p_task p idelay delta =
     (let s1 = set_dlnk (Task p_task) None s;
          s2 = set_dlnk p (Some p_task) s1;
          s3 = set_blnk (Task p_task) (Some p) s2;
          s4 = set_delta p (ucast (idelay - delta)) s3
      in set_delta (Task p_task) 0 s4)"

definition put_dly_here :: "kernel \<Rightarrow> nat \<Rightarrow> ptr \<Rightarrow> u32 \<Rightarrow> u32 \<Rightarrow> kernel" where
  "put_dly_here s p_task p idelay delta =
     (let s1 = set_dlnk (Task p_task) (p_dlnk s p) s;
          s2 = set_dlnk p (Some p_task) s1;
          s3 = set_blnk (Task p_task) (Some p) s2;
          s4 = (case p_dlnk s3 (Task p_task) of
                  None \<Rightarrow> s3
                | Some u \<Rightarrow> set_blnk (Task u) (Some (Task p_task)) s3);
          s5 = set_delta (Task p_task) (ucast (delta - idelay)) s4
      in set_delta p (delta_time s5 p - delta_time s5 (Task p_task)) s5)"

partial_function (option) put_dly_loop ::
    "kernel \<Rightarrow> nat \<Rightarrow> u32 \<Rightarrow> ptr \<Rightarrow> u32 \<Rightarrow> kernel option" where
  "put_dly_loop s p_task idelay p delta =
     (if delta < idelay
      then case p_dlnk s p of
             None \<Rightarrow> Some (put_dly_last s p_task p idelay delta)
           | Some u \<Rightarrow> put_dly_loop s p_task idelay (Task u) (delta + ucast (delta_time s (Task u)))
      else Some (put_dly_here s p_task p idelay delta))"

definition rt_put_dly :: "kernel \<Rightarrow> nat \<Rightarrow> u16 \<Rightarrow> kernel option" where
  "rt_put_dly s p_task delay =
     (if p_dlnk s Dly = None
      then Some (put_dly_last s p_task Dly (ucast delay) 0)
      else put_dly_loop s p_task (ucast delay) Dly (ucast (delta_time s Dly)))"

text \<open>The unlinking of an expired task from its waiting list in \<open>rt_dec_dly\<close>.\<close>

definition dec_dly_unlink :: "kernel \<Rightarrow> nat \<Rightarrow> kernel" where
  "dec_dly_unlink s p_rdy =
     (case p_rlnk s (Task p_rdy) of
        None \<Rightarrow> s
      | Some p \<Rightarrow>
          let s1 = set_lnk p (p_lnk s (Task p_rdy)) s;
              s2 = (case p_lnk s1 (Task p_rdy) of
                      None \<Rightarrow> s1
                    | Some u \<Rightarrow>
                        set_lnk (Task p_rdy) None (set_rlnk (Task u) (p_rlnk s1 (Task p_rdy)) s1))
          in set_rlnk (Task p_rdy) None s2)"

definition dec_dly_wake :: "kernel \<Rightarrow> nat \<Rightarrow> kernel option" where
  "dec_dly_wake s p_rdy = do {
     s2 \<leftarrow> rt_put_prio (dec_dly_unlink s p_rdy) Rdy p_rdy;
     let s3 = set_delta Dly (delta_time s2 (Task p_rdy)) s2;
     let s4 = (if state_of s3 p_rdy = WAIT_ITV
               then set_delta (Task p_rdy) (interval_time (tcbs s3 p_rdy) + ucast (os_time s3)) s3
               else s3);
     let s5 = set_state p_rdy READY s4;
     let s6 = set_dlnk Dly (p_dlnk s5 (Task p_rdy)) s5;
     let s7 = (case p_dlnk s6 (Task p_rdy) of
                 None \<Rightarrow> s6
               | Some u \<Rightarrow> set_dlnk (Task p_rdy) None (set_blnk (Task u) (Some Dly) s6));
     Some (set_blnk (Task p_rdy) None s7)
   }"

partial_function (option) dec_dly_loop :: "kernel \<Rightarrow> kernel option" where
  "dec_dly_loop s =
     (case p_dlnk s Dly of
        None \<Rightarrow> Some s
      | Some p_rdy \<Rightarrow>
          if delta_time s Dly = 0
          then Option.bind (dec_dly_wake s p_rdy) dec_dly_loop
          else Some s)"

definition rt_dec_dly :: "kernel \<Rightarrow> kernel option" where
  "rt_dec_dly s =
     (if p_dlnk s Dly = None then Some s
      else dec_dly_loop (set_delta Dly (delta_time s Dly - 1) s))"

definition rt_rmv_dly :: "kernel \<Rightarrow> nat \<Rightarrow> kernel" where
  "rt_rmv_dly s p_task =
     (case p_blnk s (Task p_task) of
        None \<Rightarrow> s
      | Some p_b \<Rightarrow>
          let s1 = set_dlnk p_b (p_dlnk s (Task p_task)) s;
              s2 = (case p_dlnk s1 (Task p_task) of
                      Some u \<Rightarrow>
                        set_dlnk (Task p_task) None
                          (set_blnk (Task u) (Some p_b)
                            (set_delta p_b (delta_time s1 p_b + delta_time s1 (Task p_task)) s1))
                    | None \<Rightarrow> set_delta p_b 0 s1)
          in set_blnk (Task p_task) None s2)"

section \<open>Remaining times\<close>

text \<open>
  \<open>dpath f p b d\<close>: read from the block \<open>p\<close>, whose own expiry is at time \<open>b\<close>, the deltas \<open>f\<close> give the
  absolute times of \<open>d\<close>.
\<close>

fun dpath :: "(ptr \<Rightarrow> u16) \<Rightarrow> ptr \<Rightarrow> nat \<Rightarrow> (nat \<times> nat) list \<Rightarrow> bool" where
  "dpath f p b [] = True"
| "dpath f p b ((t, a) # d) = (unat (f p) + b = a \<and> dpath f (Task t) a d)"

fun endt :: "nat \<Rightarrow> (nat \<times> nat) list \<Rightarrow> nat" where
  "endt b [] = b"
| "endt b ((t, a) # d) = endt a d"

definition dly_inv :: "(nat \<times> nat) list \<Rightarrow> kernel \<Rightarrow> bool" where
  "dly_inv d s \<longleftrightarrow>
     chain (p_dlnk s) Dly (map fst d) \<and>
     rchain (p_blnk s) Dly (map fst d) \<and>
     (\<forall>t. t \<notin> fst ` set d \<longrightarrow> p_blnk s (Task t) = None) \<and>
     dpath (delta_time s) Dly 0 d \<and>
     (d \<noteq> [] \<longrightarrow> delta_time s (Task (fst (last d))) = 0) \<and>
     (\<forall>(t, a) \<in> set d. a < 2 ^ 16)"

lemma dpath_append [simp]:
  "dpath f p b (xs @ ys) = (dpath f p b xs \<and> dpath f (endp p (map fst xs)) (endt b xs) ys)"
  by (induction f p b xs rule: dpath.induct) auto

lemma endt_append [simp]: "endt b (xs @ ys) = endt (endt b xs) ys"
  by (induction b xs rule: endt.induct) auto

lemma dpath_endt_le: "dpath f p b d \<Longrightarrow> b \<le> endt b d"
  by (induction f p b d rule: dpath.induct) auto

lemma dpath_lower: "dpath f p b d \<Longrightarrow> (t, a) \<in> set d \<Longrightarrow> b \<le> a"
  by (induction f p b d rule: dpath.induct) auto

lemma dpath_sorted: "dpath f p b d \<Longrightarrow> sorted (map snd d)"
  by (induction f p b d rule: dpath.induct) (auto dest: dpath_lower)

lemma dpath_upd_Task [simp]:
  "Task t \<noteq> p \<Longrightarrow> t \<notin> fst ` set d \<Longrightarrow> dpath (f(Task t := v)) p b d = dpath f p b d"
  by (induction f p b d rule: dpath.induct) auto

lemma dpath_upd_hdr [simp]:
  "hdr h \<Longrightarrow> h \<noteq> p \<Longrightarrow> dpath (f(h := v)) p b d = dpath f p b d"
  by (induction f p b d rule: dpath.induct) auto

lemma dpath_upd_end [simp]:
  "distinct (map fst d) \<Longrightarrow> hdr p \<Longrightarrow> dpath (f(endp p (map fst d) := v)) p b d = dpath f p b d"
proof (induction d rule: rev_induct)
  case (snoc x d)
  obtain t a where x: "x = (t, a)" by (cases x)
  from snoc.prems x have "endp p (map fst d) \<noteq> Task t" and "t \<notin> fst ` set d" "p \<noteq> Task t"
    by (auto simp: endp_cases last_map)
  then show ?case
    by (simp add: x del: fun_upd_apply) (simp add: fun_upd_other)
qed simp

lemma endt_last: "d \<noteq> [] \<Longrightarrow> endt b d = snd (last d)"
  by (induction b d rule: endt.induct) auto

lemma dly_invD:
  assumes "dly_inv d s"
  shows "chain (p_dlnk s) Dly (map fst d)"
    and "rchain (p_blnk s) Dly (map fst d)"
    and "t \<notin> fst ` set d \<Longrightarrow> p_blnk s (Task t) = None"
    and "dpath (delta_time s) Dly 0 d"
    and "d \<noteq> [] \<Longrightarrow> delta_time s (Task (fst (last d))) = 0"
    and "(t, a) \<in> set d \<Longrightarrow> a < 2 ^ 16"
    and "distinct (map fst d)"
  using assms chain_distinct by (auto simp: dly_inv_def)

lemma dly_inv_update_simps [simp]:
  "dly_inv d (s\<lparr>p_lnk := l\<rparr>) = dly_inv d s"
  "dly_inv d (s\<lparr>p_rlnk := r\<rparr>) = dly_inv d s"
  "dly_inv d (s\<lparr>cb_type := c\<rparr>) = dly_inv d s"
  "dly_inv d (s\<lparr>tcbs := tc\<rparr>) = dly_inv d s"
  "dly_inv d (s\<lparr>scbs := e\<rparr>) = dly_inv d s"
  "dly_inv d (s\<lparr>mcbs := f\<rparr>) = dly_inv d s"
  "dly_inv d (s\<lparr>mucbs := g\<rparr>) = dly_inv d s"
  "dly_inv d (s\<lparr>run := rn\<rparr>) = dly_inv d s"
  "dly_inv d (s\<lparr>new_tsk := rn\<rparr>) = dly_inv d s"
  "dly_inv d (s\<lparr>os_active_TCB := ac\<rparr>) = dly_inv d s"
  "dly_inv d (s\<lparr>os_time := tm\<rparr>) = dly_inv d s"
  "dly_inv d (s\<lparr>robin_task := rt\<rparr>) = dly_inv d s"
  "dly_inv d (s\<lparr>robin_time := ti\<rparr>) = dly_inv d s"
  "dly_inv d (s\<lparr>os_psq := pq\<rparr>) = dly_inv d s"
  "dly_inv d (s\<lparr>mem := mm\<rparr>) = dly_inv d s"
  by (simp_all add: dly_inv_def)

section \<open>Waiting with a timeout\<close>

fun ins_dly :: "nat \<Rightarrow> nat \<Rightarrow> (nat \<times> nat) list \<Rightarrow> (nat \<times> nat) list" where
  "ins_dly t a [] = [(t, a)]"
| "ins_dly t a ((u, c) # d) = (if c < a then (u, c) # ins_dly t a d else (t, a) # (u, c) # d)"

lemma set_ins_dly [simp]: "set (ins_dly t a d) = insert (t, a) (set d)"
  by (induction t a d rule: ins_dly.induct) auto

lemma put_dly_loop_split:
  fixes delay :: u16
  assumes "chain (p_dlnk s) p (map fst ((u, c) # ys))"
    and "dpath (delta_time s) (Task u) c ys"
    and "delta_time s (Task (fst (last ((u, c) # ys)))) = 0"
    and "\<forall>(t, a) \<in> set ((u, c) # ys). a < 2 ^ 16"
  shows "\<exists>xs zs. (u, c) # ys = xs @ zs \<and> ins_dly t (unat delay) ((u, c) # ys) = xs @ (t, unat delay) # zs \<and>
    (\<forall>(t, a) \<in> set xs. a < unat delay) \<and>
    put_dly_loop s t (ucast delay) p (of_nat c) =
      Some (case zs of
              [] \<Rightarrow> put_dly_last s t (endp p (map fst xs)) (ucast delay) (of_nat (endt 0 xs))
            | (v, e) # _ \<Rightarrow> put_dly_here s t (endp p (map fst xs)) (ucast delay) (of_nat e))"
  using assms
proof (induction ys arbitrary: u c p)
  case Nil
  have c: "unat (of_nat c :: u32) = c"
    using Nil.prems by (intro unat_of_nat_u32) auto
  show ?case
  proof (cases "c < unat delay")
    case True
    then have less: "(of_nat c :: u32) < ucast delay"
      using c by (simp add: word_less_nat_alt)
    with True Nil.prems show ?thesis
      by (intro exI [of _ "[(u, c)]"] exI [of _ "[]"])
        (simp add: put_dly_loop.simps [of s t _ p] put_dly_loop.simps [of s t _ "Task u"])
  next
    case False
    with c show ?thesis
      by (intro exI [of _ "[]"] exI [of _ "[(u, c)]"])
        (simp add: put_dly_loop.simps word_less_nat_alt)
  qed
next
  case (Cons y ys)
  obtain v e where y: "y = (v, e)" by (cases y)
  have c: "unat (of_nat c :: u32) = c"
    using Cons.prems by (intro unat_of_nat_u32) auto
  show ?case
  proof (cases "c < unat delay")
    case True
    have e: "of_nat c + ucast (delta_time s (Task u)) = (of_nat e :: u32)"
    proof -
      have "of_nat e = (of_nat (unat (delta_time s (Task u)) + c) :: u32)"
        using Cons.prems y by simp
      then show ?thesis by simp
    qed
    have P: "chain (p_dlnk s) (Task u) (map fst ((v, e) # ys))" "dpath (delta_time s) (Task v) e ys"
      "delta_time s (Task (fst (last ((v, e) # ys)))) = 0" "\<forall>(t, a) \<in> set ((v, e) # ys). a < 2 ^ 16"
      using Cons.prems y by auto
    obtain xs zs where IH: "y # ys = xs @ zs" "ins_dly t (unat delay) (y # ys) = xs @ (t, unat delay) # zs"
      "\<forall>(t, a) \<in> set xs. a < unat delay"
      "put_dly_loop s t (ucast delay) (Task u) (of_nat e) =
        Some (case zs of
                [] \<Rightarrow> put_dly_last s t (endp (Task u) (map fst xs)) (ucast delay) (of_nat (endt 0 xs))
              | (v, e) # _ \<Rightarrow> put_dly_here s t (endp (Task u) (map fst xs)) (ucast delay) (of_nat e))"
      using Cons.IH [OF P] y by blast
    have "endt 0 ((u, c) # xs) = endt 0 xs" if "zs = []"
      using IH(1) that y by (cases xs) auto
    with True Cons.prems c e IH show ?thesis
      by (intro exI [of _ "(u, c) # xs"] exI [of _ zs])
        (simp add: put_dly_loop.simps [of s t _ p] word_less_nat_alt split: list.split)
  next
    case False
    with c y show ?thesis
      by (intro exI [of _ "[]"] exI [of _ "(u, c) # y # ys"])
        (simp add: put_dly_loop.simps word_less_nat_alt)
  qed
qed

lemma rt_put_dly_split:
  fixes delay :: u16
  assumes "dly_inv d s"
  obtains xs zs where "d = xs @ zs" and "ins_dly t (unat delay) d = xs @ (t, unat delay) # zs"
    and "\<forall>(t, a) \<in> set xs. a < unat delay"
    and "rt_put_dly s t delay =
      Some (case zs of
              [] \<Rightarrow> put_dly_last s t (endp Dly (map fst xs)) (ucast delay) (of_nat (endt 0 xs))
            | (v, e) # _ \<Rightarrow> put_dly_here s t (endp Dly (map fst xs)) (ucast delay) (of_nat e))"
proof (cases d)
  case Nil
  with assms have "p_dlnk s Dly = None"
    by (simp add: dly_inv_def)
  with Nil show thesis
    by (intro that [of "[]" "[]"]) (simp_all add: rt_put_dly_def)
next
  case (Cons y ys)
  obtain u c where y: "y = (u, c)" by (cases y)
  note D = dly_invD [OF assms, unfolded Cons y]
  have P: "chain (p_dlnk s) Dly (map fst ((u, c) # ys))" "dpath (delta_time s) (Task u) c ys"
    "delta_time s (Task (fst (last ((u, c) # ys)))) = 0" "\<forall>(t, a) \<in> set ((u, c) # ys). a < 2 ^ 16"
    using D(1,4,5) D(6) by auto
  have "ucast (delta_time s Dly) = (of_nat c :: u32)"
    using D(4) by (auto simp: unsigned_of_nat)
  moreover have "p_dlnk s Dly \<noteq> None"
    using D(1) by simp
  ultimately have "rt_put_dly s t delay = put_dly_loop s t (ucast delay) Dly (of_nat c)"
    by (auto simp: rt_put_dly_def)
  with put_dly_loop_split [OF P, of t delay] that show thesis
    unfolding Cons y by metis
qed

lemma ins_dly_next:
  assumes "ins_dly t a (xs @ zs) = xs @ (t, a) # zs" and "\<forall>(u, c) \<in> set xs. c < a" and "zs \<noteq> []"
  shows "a \<le> snd (hd zs)"
  using assms
proof (induction xs)
  case Nil
  then show ?case by (cases zs) (auto split: if_splits)
qed auto

lemma dly_inv_relink:
  assumes "dly_inv d s"
    and "chain dl Dly (map fst d')" and "rchain bl Dly (map fst d')"
    and "\<And>u. u \<notin> fst ` set d' \<Longrightarrow> bl (Task u) = None"
    and "dpath de Dly 0 d'" and "d' \<noteq> [] \<Longrightarrow> de (Task (fst (last d'))) = 0"
    and "\<And>u a. (u, a) \<in> set d' \<Longrightarrow> a < 2 ^ 16"
  shows "dly_inv d' (s\<lparr>p_dlnk := dl, p_blnk := bl, delta_time := de\<rparr>)"
  using assms by (auto simp: dly_inv_def)

text \<open>
  A task that starts to wait for \<open>delay\<close> ticks enters the list with that remaining time, and the
  remaining time of every other task is unchanged.
\<close>

lemma rt_put_dly_refines:
  assumes inv: "dly_inv d s" and t: "t \<notin> fst ` set d"
  shows "\<exists>dl bl de. rt_put_dly s t delay = Some (s\<lparr>p_dlnk := dl, p_blnk := bl, delta_time := de\<rparr>) \<and>
    dly_inv (ins_dly t (unat delay) d) (s\<lparr>p_dlnk := dl, p_blnk := bl, delta_time := de\<rparr>)"
proof -
  note D = dly_invD [OF inv]
  obtain xs zs where d: "d = xs @ zs"
    and ins: "ins_dly t (unat delay) d = xs @ (t, unat delay) # zs"
    and xs: "\<forall>(t, a) \<in> set xs. a < unat delay"
    and put: "rt_put_dly s t delay =
      Some (case zs of
              [] \<Rightarrow> put_dly_last s t (endp Dly (map fst xs)) (ucast delay) (of_nat (endt 0 xs))
            | (v, e) # _ \<Rightarrow> put_dly_here s t (endp Dly (map fst xs)) (ucast delay) (of_nat e))"
    using rt_put_dly_split [OF inv] by blast
  define p where "p = endp Dly (map fst xs)"
  define b where "b = endt 0 xs"
  have b: "b \<le> unat delay"
    using xs by (cases xs rule: rev_cases) (auto simp: b_def)
  have tn: "t \<notin> set (map fst xs @ map fst zs)"
    using t d by auto
  have pt: "p \<noteq> Task t"
    using tn by (auto simp: p_def dest: endp_eq_Task)
  have c: "chain (p_dlnk s) Dly (map fst xs @ map fst zs)"
    and r: "rchain (p_blnk s) Dly (map fst xs @ map fst zs)"
    and dist: "distinct (map fst xs @ map fst zs)"
    using D(1,2,7) by (simp_all add: d)
  have pz: "p = Task u \<Longrightarrow> u \<notin> fst ` set zs" for u
    using dist endp_eq_Task [of Dly "map fst xs"] by (force simp: p_def)
  have dp: "dpath (delta_time s) Dly 0 xs" "dpath (delta_time s) p b zs"
    using D(4) by (simp_all add: d p_def b_def)
  have nxt: "p_dlnk s p = (case zs of [] \<Rightarrow> None | (u, _) # _ \<Rightarrow> Some u)"
    using c unfolding chain_append p_def by (cases zs) auto
  define dl where "dl = (p_dlnk s)(Task t := p_dlnk s p, p := Some t)"
  define bl where "bl = (case zs of [] \<Rightarrow> p_blnk s | (u, _) # _ \<Rightarrow> (p_blnk s)(Task u := Some (Task t)))
    (Task t := Some p)"
  define de where "de = (case zs of
      [] \<Rightarrow> (delta_time s)(p := ucast (ucast delay - of_nat b :: u32), Task t := 0)
    | (_, e) # _ \<Rightarrow> let x = ucast (of_nat e - ucast delay :: u32)
        in (delta_time s)(Task t := x, p := delta_time s p - x))"
  have dl: "chain dl Dly (map fst (xs @ (t, unat delay) # zs))"
    unfolding dl_def p_def using chain_insert [OF c tn] by simp
  have bl: "rchain bl Dly (map fst (xs @ (t, unat delay) # zs))"
    using rchain_insert [OF r tn dist] by (cases zs) (auto simp: bl_def p_def)
  have dpxs: "dpath (f(p := v)) Dly 0 xs = dpath f Dly 0 xs" for f v
    unfolding p_def using dist by simp
  show ?thesis
  proof (cases zs)
    case Nil
    have "unat (ucast (ucast delay - of_nat b :: u32) :: u16) + b = unat delay"
    proof -
      have "b < 65536"
        using b unat_u16_less by (rule le_less_trans)
      then have "unat (ucast delay - of_nat b :: u32) = unat delay - b"
        using b by (subst unat_sub) (simp_all add: word_le_nat_alt unat_of_nat_u32)
      then show ?thesis
        using b unat_u16_less [of delay] by (simp add: unat_ucast_u32_u16)
    qed
    then have "dpath de Dly 0 (xs @ [(t, unat delay)])"
      using dp tn pt by (simp add: de_def Nil dpxs flip: p_def b_def)
    then have "dly_inv (xs @ (t, unat delay) # zs) (s\<lparr>p_dlnk := dl, p_blnk := bl, delta_time := de\<rparr>)"
      using dl bl D(3,6) d
      by (intro dly_inv_relink [OF inv]) (auto simp: Nil de_def bl_def unat_u16_less)
    moreover have "rt_put_dly s t delay = Some (s\<lparr>p_dlnk := dl, p_blnk := bl, delta_time := de\<rparr>)"
      using put nxt pt by (simp add: put_dly_last_def dl_def bl_def de_def Nil b_def p_def)
    ultimately show ?thesis
      using ins by metis
  next
    case (Cons z zs')
    obtain u e where z: "z = (u, e)" by (cases z)
    have e: "unat delay \<le> e" "e < 2 ^ 16" "u \<noteq> t" "unat (delta_time s p) + b = e" "p \<noteq> Task u"
      using ins_dly_next [of t "unat delay" xs zs] ins xs Cons z d D(6) tn dp dist
      by (auto simp: p_def dest: endp_eq_Task)
    define x :: u16 where "x = ucast (of_nat e - ucast delay :: u32)"
    have x: "unat x = e - unat delay"
    proof -
      have "unat (of_nat e - ucast delay :: u32) = e - unat delay"
        using e by (subst unat_sub) (simp_all add: word_le_nat_alt unat_of_nat_u32)
      then show ?thesis
        using e by (simp add: x_def unat_ucast_u32_u16)
    qed
    have px: "unat (delta_time s p - x) = unat delay - b"
      using e b x by (subst unat_sub) (auto simp: word_le_nat_alt)
    have de: "de = (delta_time s)(Task t := x, p := delta_time s p - x)"
      by (simp add: de_def Cons z x_def Let_def)
    have "dpath de p b ((t, unat delay) # zs)"
      using dp tn pt pz e x px b Cons z
      by (cases p) (auto simp: de)
    moreover have "dpath de Dly 0 xs"
      using dp tn pt by (simp add: de dpxs)
    ultimately have "dpath de Dly 0 (xs @ (t, unat delay) # zs)"
      by (simp flip: p_def b_def)
    moreover have "de (Task (fst (last zs))) = 0"
    proof -
      have "fst (last zs) \<in> set (map fst zs)"
        using Cons by simp
      then have "Task (fst (last zs)) \<noteq> p" "fst (last zs) \<noteq> t"
        using tn pz by (metis set_map, metis Un_iff set_append)
      then show ?thesis
        using D(5) d Cons by (simp add: de)
    qed
    ultimately have "dly_inv (xs @ (t, unat delay) # zs) (s\<lparr>p_dlnk := dl, p_blnk := bl, delta_time := de\<rparr>)"
      using dl bl D(3,6) d Cons z unat_u16_less [of delay]
      by (intro dly_inv_relink [OF inv]) (auto simp: bl_def)
    moreover have "rt_put_dly s t delay = Some (s\<lparr>p_dlnk := dl, p_blnk := bl, delta_time := de\<rparr>)"
      using put nxt pt e Cons z fun_upd_twist [of "Task t" "Task u" "p_blnk s" "Some p" "Some (Task t)"]
      by (simp add: put_dly_here_def dl_def bl_def de x_def flip: p_def)
    ultimately show ?thesis
      using ins by metis
  qed
qed

text \<open>
  A task that stops waiting leaves the list, and again the remaining time of every other task is
  unchanged: its delta is added to that of its predecessor.
\<close>

definition rmv_dly :: "nat \<Rightarrow> (nat \<times> nat) list \<Rightarrow> (nat \<times> nat) list" where
  "rmv_dly t d = filter (\<lambda>(u, a). u \<noteq> t) d"

lemma rmv_dly_absent: "t \<notin> fst ` set d \<Longrightarrow> rmv_dly t d = d"
  unfolding rmv_dly_def by (rule filter_True) force

lemma rmv_dly_middle:
  assumes "distinct (map fst (xs @ (t, a) # zs))"
  shows "rmv_dly t (xs @ (t, a) # zs) = xs @ zs"
proof -
  have "rmv_dly t (xs @ (t, a) # zs) = rmv_dly t xs @ rmv_dly t zs"
    by (simp add: rmv_dly_def)
  with assms show ?thesis
    by (simp add: rmv_dly_absent)
qed

lemma set_rmv_dly [simp]: "set (rmv_dly t d) = {x \<in> set d. fst x \<noteq> t}"
  by (auto simp: rmv_dly_def)

lemma rt_rmv_dly_refines:
  assumes inv: "dly_inv d s"
  shows "\<exists>dl bl de. rt_rmv_dly s t = s\<lparr>p_dlnk := dl, p_blnk := bl, delta_time := de\<rparr> \<and>
    dly_inv (rmv_dly t d) (s\<lparr>p_dlnk := dl, p_blnk := bl, delta_time := de\<rparr>)"
proof (cases "t \<in> fst ` set d")
  case False
  with dly_invD(3) [OF inv] have "rt_rmv_dly s t = s"
    by (simp add: rt_rmv_dly_def)
  with inv False show ?thesis
    by (intro exI [of _ "p_dlnk s"] exI [of _ "p_blnk s"] exI [of _ "delta_time s"])
      (simp add: rmv_dly_absent)
next
  case True
  note D = dly_invD [OF inv]
  from True obtain a xs zs where d: "d = xs @ (t, a) # zs"
    by (auto simp: in_set_conv_decomp)
  define p where "p = endp Dly (map fst xs)"
  define b where "b = endt 0 xs"
  have c: "chain (p_dlnk s) Dly (map fst xs @ t # map fst zs)"
    and r: "rchain (p_blnk s) Dly (map fst xs @ t # map fst zs)"
    and dist: "distinct (map fst xs @ t # map fst zs)"
    using D(1,2,7) by (simp_all add: d)
  have pt: "p \<noteq> Task t" and pz: "p = Task u \<Longrightarrow> u \<notin> fst ` set zs" for u
    using dist endp_eq_Task [of Dly "map fst xs"] by (force simp: p_def)+
  have bt: "p_blnk s (Task t) = Some p"
    using r by (simp add: p_def)
  have dp: "dpath (delta_time s) Dly 0 xs" "unat (delta_time s p) + b = a" "dpath (delta_time s) (Task t) a zs"
    using D(4) by (simp_all add: d p_def b_def)
  have nxt: "p_dlnk s (Task t) = (case zs of [] \<Rightarrow> None | (u, _) # _ \<Rightarrow> Some u)"
    using c unfolding chain_append by (cases zs) auto
  define dl where "dl = (p_dlnk s)(p := p_dlnk s (Task t), Task t := None)"
  define bl where "bl = (case zs of [] \<Rightarrow> p_blnk s | (u, _) # _ \<Rightarrow> (p_blnk s)(Task u := Some p))(Task t := None)"
  define de where "de = (case zs of [] \<Rightarrow> (delta_time s)(p := 0)
    | _ \<Rightarrow> (delta_time s)(p := delta_time s p + delta_time s (Task t)))"
  have idem: "(p_dlnk s)(p := v, Task t := None) = (p_dlnk s)(p := v)" if "p_dlnk s (Task t) = None" for v
    using that pt by (auto simp: fun_eq_iff)
  have eq: "rt_rmv_dly s t = s\<lparr>p_dlnk := dl, p_blnk := bl, delta_time := de\<rparr>"
    using bt nxt pt idem by (cases zs) (auto simp: rt_rmv_dly_def dl_def bl_def de_def)
  have dpxs: "dpath (f(p := v)) Dly 0 xs = dpath f Dly 0 xs" for f v
    unfolding p_def using dist by simp
  have "dly_inv (xs @ zs) (s\<lparr>p_dlnk := dl, p_blnk := bl, delta_time := de\<rparr>)"
  proof (rule dly_inv_relink [OF inv])
    show "chain dl Dly (map fst (xs @ zs))"
      unfolding dl_def p_def using chain_delete [OF c] dist by simp
    show "rchain bl Dly (map fst (xs @ zs))"
      using rchain_delete [OF r dist] dist bt by (cases zs) (auto simp: bl_def p_def)
    show "bl (Task u) = None" if "u \<notin> fst ` set (xs @ zs)" for u
      using that D(3) [of u] d by (cases "u = t") (auto simp: bl_def split: list.splits)
    show "dpath de Dly 0 (xs @ zs)"
    proof (cases zs)
      case Nil
      then show ?thesis using dp dpxs by (simp add: de_def)
    next
      case (Cons z zs')
      obtain u e where z: "z = (u, e)" by (cases z)
      have e: "unat (delta_time s (Task t)) + a = e" "e < 65536"
        using dp(3) D(6) [of u e] by (simp_all add: Cons z d)
      have sum: "unat (delta_time s p + delta_time s (Task t)) + b = e"
        using e dp(2) by (subst unat_add_u16) auto
      have "dpath de p b zs"
        using sum dp(3) pz [of u] pz dist by (cases p) (auto simp: de_def Cons z)
      then show ?thesis
        using dp(1) dpxs by (simp add: de_def Cons flip: p_def b_def)
    qed
    show "de (Task (fst (last (xs @ zs)))) = 0" if "xs @ zs \<noteq> []"
    proof (cases zs)
      case Nil
      with that have "p = Task (fst (last (xs @ zs)))"
        by (simp add: p_def endp_cases last_map)
      then show ?thesis by (simp add: de_def Nil)
    next
      case (Cons z zs')
      then have "fst (last zs) \<in> fst ` set zs"
        by (intro imageI last_in_set) simp
      then have "p \<noteq> Task (fst (last zs))"
        using pz by blast
      then show ?thesis
        using D(5) d Cons by (simp add: de_def)
    qed
    show "v < 2 ^ 16" if "(u, v) \<in> set (xs @ zs)" for u v
      using that D(6) d by auto
  qed
  with eq rmv_dly_middle D(7) show ?thesis
    unfolding d by metis
qed

section \<open>Timeouts\<close>

lemma lists_inv_congD:
  assumes "\<And>h. live s h \<Longrightarrow> q h = q' h" and inv: "lists_inv X q s"
  shows "lists_inv X q' s"
proof -
  note D = lists_invD [OF inv]
  have eq: "q' h = q h" if "live s h \<or> sem_mbx (cb_type s h)" for h
    using that assms(1) live_sem_mbx by metis
  then have "p_rlnk s (Task t) = None" if "t \<notin> X" "\<forall>h. sem_mbx (cb_type s h) \<longrightarrow> t \<notin> set (q' h)" for t
    using that by (intro D(6)) auto
  with D(1,2,5,7) eq show ?thesis
    unfolding lists_inv_def by simp
qed

lemma lists_inv_cong:
  assumes "\<And>h. live s h \<Longrightarrow> q h = q' h"
  shows "lists_inv X q s = lists_inv X q' s"
  using assms lists_inv_congD [of s q q' X] lists_inv_congD [of s q' q X] by fastforce

lemma lists_inv_clear:
  assumes inv: "lists_inv (insert t X) q s" and t: "unqueued q s t"
  shows "lists_inv X q (s\<lparr>p_lnk := (p_lnk s)(Task t := None), p_rlnk := (p_rlnk s)(Task t := None)\<rparr>)"
proof -
  have "Task t \<noteq> h \<and> t \<notin> set (q h)" if "live s h" for h
    using that t lists_invD(3) [OF inv that] by (auto simp: unqueued_def)
  then show ?thesis
    using inv live_sem_mbx [of s] by (auto simp: lists_inv_def live_def cb_ok_def)
qed

abbreviation unlink_q :: "nat \<Rightarrow> (ptr \<Rightarrow> nat list) \<Rightarrow> ptr \<Rightarrow> nat list" where
  "unlink_q t q \<equiv> (\<lambda>h. remove1 t (q h))"

lemma dec_dly_unlink_rmv:
  assumes "rt_rmv_list s t = Some s1" and "p_rlnk s (Task t) = Some p" and "p \<noteq> Task t"
    and "p_lnk s (Task t) \<noteq> Some t"
  shows "dec_dly_unlink s t =
    s1\<lparr>p_lnk := (p_lnk s1)(Task t := None), p_rlnk := (p_rlnk s1)(Task t := None)\<rparr>"
proof (cases "p_lnk s (Task t)")
  case None
  then have "(p_lnk s)(p := v, Task t := None) = (p_lnk s)(p := v)" for v
    using assms(3) by (auto simp: fun_eq_iff)
  with None assms show ?thesis
    by (auto simp: dec_dly_unlink_def rt_rmv_list_def)
next
  case (Some u)
  with assms show ?thesis
    by (auto simp: dec_dly_unlink_def rt_rmv_list_def)
qed

lemma dec_dly_unlink_refines:
  assumes inv: "lists_inv X q s" and t: "t \<notin> X" "t \<notin> set (q Rdy)"
  shows "\<exists>l r. dec_dly_unlink s t = s\<lparr>p_lnk := l, p_rlnk := r\<rparr> \<and>
    lists_inv X (unlink_q t q) (s\<lparr>p_lnk := l, p_rlnk := r\<rparr>) \<and> unqueued (unlink_q t q) s t"
proof -
  note D = lists_invD [OF inv]
  have unq: "unqueued (unlink_q t q) s t"
    using D(4) by (simp add: unqueued_def)
  show ?thesis
  proof (cases "unqueued q s t")
    case True
    then have "p_rlnk s (Task t) = None"
      using D(6) t live_sem_mbx by (auto simp: unqueued_def)
    moreover have "lists_inv X (unlink_q t q) s"
      using inv True by (subst lists_inv_cong [where q' = q]) (auto simp: unqueued_def remove1_idem)
    ultimately show ?thesis
      using unq by (intro exI [of _ "p_lnk s"] exI [of _ "p_rlnk s"]) (simp add: dec_dly_unlink_def)
  next
    case False
    then obtain h where h: "live s h" "t \<in> set (q h)"
      by (auto simp: unqueued_def)
    with t have sm: "sem_mbx (cb_type s h)"
      by (auto simp: live_def)
    obtain l r where rm: "rt_rmv_list s t = Some (s\<lparr>p_lnk := l, p_rlnk := r\<rparr>)"
      and i1: "lists_inv (insert t X) (q(h := remove1 t (q h))) (s\<lparr>p_lnk := l, p_rlnk := r\<rparr>)"
      using rt_rmv_list_refines [OF inv h t(1)] by blast
    have same: "(q(h := remove1 t (q h))) k = unlink_q t q k" if "live s k" for k
    proof (cases "k = h")
      case False
      then have "t \<notin> set (q k)"
        using D(7) [OF h(1) that] h(2) by auto
      with False show ?thesis by (simp add: remove1_idem)
    qed simp
    have i2: "lists_inv (insert t X) (unlink_q t q) (s\<lparr>p_lnk := l, p_rlnk := r\<rparr>)"
      by (rule lists_inv_congD [OF _ i1], rule same) simp
    obtain xs ys where q: "q h = xs @ t # ys"
      using h(2) by (auto simp: in_set_conv_decomp)
    have "p_rlnk s (Task t) = Some (endp h xs)" "endp h xs \<noteq> Task t"
      using D(5) [OF sm] D(3,4) [OF h(1)] q by (auto dest: endp_eq_Task)
    moreover have "chain (p_lnk s) (Task t) ys"
      using D(2) [OF h(1)] by (simp add: q chain_append)
    then have "p_lnk s (Task t) \<noteq> Some t"
      using chain_not_self [of "p_lnk s" t ys] by (cases ys) auto
    ultimately have "dec_dly_unlink s t =
        s\<lparr>p_lnk := l(Task t := None), p_rlnk := r(Task t := None)\<rparr>"
      using dec_dly_unlink_rmv [OF rm] by simp
    moreover have "lists_inv X (unlink_q t q) (s\<lparr>p_lnk := l(Task t := None), p_rlnk := r(Task t := None)\<rparr>)"
      using lists_inv_clear [OF i2] unq by (simp add: unqueued_def)
    ultimately show ?thesis
      using unq by blast
  qed
qed

definition wake_q :: "(nat \<Rightarrow> u8) \<Rightarrow> nat \<Rightarrow> (ptr \<Rightarrow> nat list) \<Rightarrow> ptr \<Rightarrow> nat list" where
  "wake_q pr t q = (unlink_q t q)(Rdy := ins_prio pr t (q Rdy))"

lemma dec_dly_wake_refines:
  assumes inv: "lists_inv X q s" and dly: "dly_inv ((t, 0) # d) s"
    and t: "t \<notin> X" "t \<notin> set (q Rdy)"
  shows "\<exists>l r dl bl de. dec_dly_wake s t = Some (s\<lparr>p_lnk := l, p_rlnk := r, p_dlnk := dl,
        p_blnk := bl, delta_time := de, tcbs := (tcbs s)(t := (tcbs s t)\<lparr>t_state := READY\<rparr>)\<rparr>) \<and>
      lists_inv X (wake_q (prio_of s) t q) (s\<lparr>p_lnk := l, p_rlnk := r\<rparr>) \<and>
      dly_inv d (s\<lparr>p_dlnk := dl, p_blnk := bl, delta_time := de\<rparr>)"
proof -
  note D = dly_invD [OF dly]
  obtain l r where un: "dec_dly_unlink s t = s\<lparr>p_lnk := l, p_rlnk := r\<rparr>"
    and i1: "lists_inv X (unlink_q t q) (s\<lparr>p_lnk := l, p_rlnk := r\<rparr>)"
    and unq: "unqueued (unlink_q t q) (s\<lparr>p_lnk := l, p_rlnk := r\<rparr>) t"
    using dec_dly_unlink_refines [OF inv t] by (auto simp: unqueued_def)
  obtain l' r' where pp: "rt_put_prio (s\<lparr>p_lnk := l, p_rlnk := r\<rparr>) Rdy t = Some (s\<lparr>p_lnk := l', p_rlnk := r'\<rparr>)"
    and i2: "lists_inv X (wake_q (prio_of s) t q) (s\<lparr>p_lnk := l', p_rlnk := r'\<rparr>)"
    using rt_put_prio_refines [OF i1 live_Rdy unq] t by (auto simp: wake_q_def remove1_idem)
  have c: "p_dlnk s Dly = Some t" "chain (p_dlnk s) (Task t) (map fst d)" "t \<notin> fst ` set d"
    and bt: "p_blnk s (Task t) = Some Dly" "rchain (p_blnk s) (Task t) (map fst d)"
    and z: "delta_time s Dly = 0" and dp: "dpath (delta_time s) (Task t) 0 d"
    using D(1,2,4,7) by (auto simp: unsigned_eq_0_iff)
  have nxt: "p_dlnk s (Task t) = (case d of [] \<Rightarrow> None | (u, _) # _ \<Rightarrow> Some u)"
    using c(2) by (cases d) auto
  define dl where "dl = (p_dlnk s)(Dly := p_dlnk s (Task t), Task t := None)"
  define bl where "bl = (case d of [] \<Rightarrow> p_blnk s | (u, _) # _ \<Rightarrow> (p_blnk s)(Task u := Some Dly))(Task t := None)"
  define de where "de = (let f = (delta_time s)(Dly := delta_time s (Task t))
    in if state_of s t = WAIT_ITV then f(Task t := interval_time (tcbs s t) + ucast (os_time s)) else f)"
  have idem: "(p_dlnk s)(Dly := v, Task t := None) = (p_dlnk s)(Dly := v)" if "p_dlnk s (Task t) = None" for v
    using that by (auto simp: fun_eq_iff)
  have "dec_dly_wake s t = Some (s\<lparr>p_lnk := l', p_rlnk := r', p_dlnk := dl,
        p_blnk := bl, delta_time := de, tcbs := (tcbs s)(t := (tcbs s t)\<lparr>t_state := READY\<rparr>)\<rparr>)"
    using nxt idem by (cases d) (auto simp: dec_dly_wake_def un pp dl_def bl_def de_def Let_def)
  moreover have "dly_inv d (s\<lparr>p_dlnk := dl, p_blnk := bl, delta_time := de\<rparr>)"
  proof (rule dly_inv_relink [OF dly])
    show "chain dl Dly (map fst d)"
      using c nxt by (cases d) (auto simp: dl_def)
    show "rchain bl Dly (map fst d)"
      using bt c D(7) by (cases d) (auto simp: bl_def)
    show "bl (Task u) = None" if "u \<notin> fst ` set d" for u
      using that D(3) [of u] by (cases "u = t") (auto simp: bl_def split: list.splits)
    show "dpath de Dly 0 d"
      using dp c by (cases d) (auto simp: de_def Let_def)
    show "de (Task (fst (last d))) = 0" if "d \<noteq> []"
    proof -
      have "fst (last d) \<noteq> t"
        using c(3) last_in_set [OF that] by (metis imageI)
      then show ?thesis
        using D(5) that by (simp add: de_def Let_def)
    qed
    show "a < 2 ^ 16" if "(u, a) \<in> set d" for u a
      using that D(6) by auto
  qed
  ultimately show ?thesis
    using i2 by blast
qed

end
