(* ===== verification/Rtx_Timeout.thy ===== *)
theory Rtx_Timeout
  imports Rtx_Delay
begin

text \<open>
  The tick of the delay list, \<open>rt_dec_dly\<close>: every remaining time goes down by one, and the
  tasks whose time has run out leave their waiting lists and become ready, in the order of
  the list.
\<close>

text \<open>
  Waking the tasks \<open>ts\<close> one after the other: \<open>wake_all\<close> on the lists, \<open>ready_all\<close> on the task
  control blocks.
\<close>

fun wake_all :: "(nat \<Rightarrow> u8) \<Rightarrow> nat list \<Rightarrow> (ptr \<Rightarrow> nat list) \<Rightarrow> ptr \<Rightarrow> nat list" where
  "wake_all pr [] q = q"
| "wake_all pr (t # ts) q = wake_all pr ts (wake_q pr t q)"

definition ready_all :: "nat list \<Rightarrow> (nat \<Rightarrow> tcb) \<Rightarrow> nat \<Rightarrow> tcb" where
  "ready_all ts tc = (\<lambda>t. if t \<in> set ts then (tc t)\<lparr>t_state := READY\<rparr> else tc t)"

lemma wake_q_Rdy [simp]: "wake_q pr t q Rdy = ins_prio pr t (q Rdy)"
  by (simp add: wake_q_def)

lemma wake_q_other [simp]: "h \<noteq> Rdy \<Longrightarrow> wake_q pr t q h = remove1 t (q h)"
  by (simp add: wake_q_def)

lemma set_wake_all_Rdy [simp]: "set (wake_all pr ts q Rdy) = set ts \<union> set (q Rdy)"
  by (induction ts arbitrary: q) auto

lemma wake_all_other:
  "h \<noteq> Rdy \<Longrightarrow> distinct (q h) \<Longrightarrow> set (wake_all pr ts q h) = set (q h) - set ts"
  by (induction ts arbitrary: q) auto

lemma prio_sorted_wake_all_Rdy: "prio_sorted pr (q Rdy) \<Longrightarrow> prio_sorted pr (wake_all pr ts q Rdy)"
  by (induction ts arbitrary: q) (simp_all add: prio_sorted_ins_prio)

lemma prio_sorted_wake_all:
  "h \<noteq> Rdy \<Longrightarrow> prio_sorted pr (q h) \<Longrightarrow> prio_sorted pr (wake_all pr ts q h)"
  by (induction ts arbitrary: q) (simp_all add: prio_sorted_remove1)

lemma prio_ready_all [simp]: "prio (ready_all ts tc t) = prio (tc t)"
  by (simp add: ready_all_def)

lemma dec_dly_loop_refines:
  assumes "lists_inv X q s" and "dly_inv (map (\<lambda>t. (t, 0)) ts @ d) s"
    and "set ts \<inter> (X \<union> set (q Rdy)) = {}" and "\<forall>(t, a) \<in> set d. 0 < a"
  shows "\<exists>l r dl bl de. dec_dly_loop s = Some (s\<lparr>p_lnk := l, p_rlnk := r, p_dlnk := dl,
        p_blnk := bl, delta_time := de, tcbs := ready_all ts (tcbs s)\<rparr>) \<and>
      lists_inv X (wake_all (prio_of s) ts q) (s\<lparr>p_lnk := l, p_rlnk := r\<rparr>) \<and>
      dly_inv d (s\<lparr>p_dlnk := dl, p_blnk := bl, delta_time := de\<rparr>)"
  using assms
proof (induction ts arbitrary: q s)
  case Nil
  have "dec_dly_loop s = Some s"
  proof (cases d)
    case Nil
    with \<open>dly_inv (map (\<lambda>t. (t, 0)) [] @ d) s\<close> show ?thesis
      by (simp add: dly_inv_def dec_dly_loop.simps)
  next
    case (Cons x d')
    obtain u a where x: "x = (u, a)" by (cases x)
    from Nil.prems(2,4) have "p_dlnk s Dly = Some u" "delta_time s Dly \<noteq> 0"
      by (auto simp: Cons x dly_inv_def)
    then show ?thesis
      by (simp add: dec_dly_loop.simps)
  qed
  moreover have "ready_all [] (tcbs s) = tcbs s"
    by (simp add: ready_all_def)
  ultimately show ?case
    using Nil.prems
    by (intro exI [of _ "p_lnk s"] exI [of _ "p_rlnk s"] exI [of _ "p_dlnk s"] exI [of _ "p_blnk s"]
        exI [of _ "delta_time s"]) simp
next
  case (Cons t ts)
  let ?d = "map (\<lambda>t. (t, 0)) ts @ d"
  have dly: "dly_inv ((t, 0) # ?d) s"
    using Cons.prems(2) by simp
  have t: "t \<notin> X" "t \<notin> set (q Rdy)" and tts: "t \<notin> set ts"
    using Cons.prems(3) dly_invD(7) [OF dly] by (auto simp: comp_def)
  obtain l r dl bl de where w: "dec_dly_wake s t = Some (s\<lparr>p_lnk := l, p_rlnk := r, p_dlnk := dl,
        p_blnk := bl, delta_time := de, tcbs := (tcbs s)(t := (tcbs s t)\<lparr>t_state := READY\<rparr>)\<rparr>)"
    and i1: "lists_inv X (wake_q (prio_of s) t q) (s\<lparr>p_lnk := l, p_rlnk := r\<rparr>)"
    and d1: "dly_inv ?d (s\<lparr>p_dlnk := dl, p_blnk := bl, delta_time := de\<rparr>)"
    using dec_dly_wake_refines [OF Cons.prems(1) dly t] by blast
  define s' where "s' = s\<lparr>p_lnk := l, p_rlnk := r, p_dlnk := dl, p_blnk := bl, delta_time := de,
    tcbs := (tcbs s)(t := (tcbs s t)\<lparr>t_state := READY\<rparr>)\<rparr>"
  have pr: "prio_of s' = prio_of s"
    by (auto simp: s'_def)
  have i1': "lists_inv X (wake_q (prio_of s) t q) s'"
    using i1 by (simp add: s'_def)
  have d1': "dly_inv ?d s'"
    using d1 by (simp add: s'_def dly_inv_def)
  have "p_dlnk s Dly = Some t" "delta_time s Dly = 0"
    using dly by (auto simp: dly_inv_def unsigned_eq_0_iff)
  then have step: "dec_dly_loop s = dec_dly_loop s'"
    using w by (simp add: dec_dly_loop.simps [of s] s'_def)
  have fresh: "set ts \<inter> (X \<union> set (wake_q (prio_of s) t q Rdy)) = {}"
    using Cons.prems(3) tts by auto
  have rdy: "ready_all ts (tcbs s') = ready_all (t # ts) (tcbs s)"
    by (auto simp: ready_all_def s'_def)
  obtain l2 r2 dl2 bl2 de2 where
    ih: "dec_dly_loop s' = Some (s'\<lparr>p_lnk := l2, p_rlnk := r2, p_dlnk := dl2,
        p_blnk := bl2, delta_time := de2, tcbs := ready_all ts (tcbs s')\<rparr>)"
      "lists_inv X (wake_all (prio_of s') ts (wake_q (prio_of s) t q)) (s'\<lparr>p_lnk := l2, p_rlnk := r2\<rparr>)"
      "dly_inv d (s'\<lparr>p_dlnk := dl2, p_blnk := bl2, delta_time := de2\<rparr>)"
    using Cons.IH [OF i1' d1' fresh Cons.prems(4)] by blast
  have "dec_dly_loop s = Some (s\<lparr>p_lnk := l2, p_rlnk := r2, p_dlnk := dl2,
        p_blnk := bl2, delta_time := de2, tcbs := ready_all (t # ts) (tcbs s)\<rparr>)"
    using step ih(1) unfolding rdy by (simp add: s'_def)
  moreover have "lists_inv X (wake_all (prio_of s) (t # ts) q) (s\<lparr>p_lnk := l2, p_rlnk := r2\<rparr>)"
    using ih(2) unfolding pr by (simp add: s'_def lists_inv_def live_def cb_ok_def)
  moreover have "dly_inv d (s\<lparr>p_dlnk := dl2, p_blnk := bl2, delta_time := de2\<rparr>)"
    using ih(3) by (simp add: s'_def dly_inv_def)
  ultimately show ?case
    by blast
qed

text \<open>Who is woken by a tick, and the remaining times of the others.\<close>

definition expired :: "(nat \<times> nat) list \<Rightarrow> nat list" where
  "expired d = map fst (filter (\<lambda>(t, a). a \<le> 1) d)"

definition tick_dly :: "(nat \<times> nat) list \<Rightarrow> (nat \<times> nat) list" where
  "tick_dly d = map (\<lambda>(t, a). (t, a - 1)) (filter (\<lambda>(t, a). 1 < a) d)"

definition dec1 :: "(nat \<times> nat) list \<Rightarrow> (nat \<times> nat) list" where
  "dec1 d = map (\<lambda>(t, a). (t, a - 1)) d"

lemma dec1_simps [simp]: "dec1 [] = []" "dec1 ((t, a) # d) = (t, a - 1) # dec1 d"
  by (simp_all add: dec1_def)

lemma map_fst_dec1 [simp]: "map fst (dec1 d) = map fst d"
  by (auto simp: dec1_def)

lemma fst_set_dec1: "fst ` set (dec1 d) = fst ` set d"
  by (metis map_fst_dec1 set_map)

lemma dec_split:
  assumes "sorted (map snd d)" and "\<forall>(t, a) \<in> set d. 0 < a"
  shows "dec1 d = map (\<lambda>t. (t, 0)) (expired d) @ tick_dly d"
  using assms
proof (induction d)
  case (Cons x d)
  obtain t a where x: "x = (t, a)" by (cases x)
  show ?case
  proof (cases "a = 1")
    case True
    with Cons x show ?thesis
      by (simp add: expired_def tick_dly_def)
  next
    case False
    with Cons.prems x have "1 < a" "\<forall>(u, c) \<in> set d. 1 < c"
      by fastforce+
    then have "filter (\<lambda>(t, a). a \<le> 1) (x # d) = []" "filter (\<lambda>(t, a). 1 < a) (x # d) = x # d"
      using x by (auto simp: filter_empty_conv filter_id_conv)
    then show ?thesis
      unfolding expired_def tick_dly_def dec1_def by simp
  qed
qed (simp add: expired_def tick_dly_def)

lemma dpath_dec:
  assumes "dpath f p b d" and "0 < b"
  shows "dpath f p (b - 1) (dec1 d)"
  using assms by (induction f p b d rule: dpath.induct) auto

lemma dly_inv_dec:
  assumes dly: "dly_inv d s" and d: "d \<noteq> []" and pos: "\<forall>(t, a) \<in> set d. 0 < a"
  shows "dly_inv (dec1 d) (set_delta Dly (delta_time s Dly - 1) s)"
proof -
  obtain t a d' where d': "d = (t, a) # d'"
    using d by (cases d) auto
  note D = dly_invD [OF dly]
  have a: "unat (delta_time s Dly) = a" "0 < a"
    using D(4) pos by (auto simp: d')
  then have "unat (delta_time s Dly - 1) = a - 1"
    by (subst unat_minus_one) (auto simp: unat_eq_zero)
  moreover have "dpath (delta_time s) (Task t) (a - 1) (dec1 d')"
    using D(4) a by (intro dpath_dec) (simp_all add: d')
  ultimately have "dpath ((delta_time s)(Dly := delta_time s Dly - 1)) Dly 0 (dec1 d)"
    by (simp add: d')
  moreover have "fst (last (dec1 d)) = fst (last d)" "dec1 d \<noteq> []"
    using d by (simp_all add: dec1_def last_map case_prod_beta)
  moreover have "c < 2 ^ 16" if "(u, c) \<in> set (dec1 d)" for u c
    using that D(6) by (auto simp: dec1_def less_imp_diff_less)
  ultimately show ?thesis
    using D(1,2,3,5) d unfolding dly_inv_def by (auto simp: fst_set_dec1)
qed

lemma rt_dec_dly_refines:
  assumes inv: "lists_inv X q s" and dly: "dly_inv d s" and pos: "\<forall>(t, a) \<in> set d. 0 < a"
    and fresh: "fst ` set d \<inter> (X \<union> set (q Rdy)) = {}"
  shows "\<exists>l r dl bl de. rt_dec_dly s = Some (s\<lparr>p_lnk := l, p_rlnk := r, p_dlnk := dl,
        p_blnk := bl, delta_time := de, tcbs := ready_all (expired d) (tcbs s)\<rparr>) \<and>
      lists_inv X (wake_all (prio_of s) (expired d) q) (s\<lparr>p_lnk := l, p_rlnk := r\<rparr>) \<and>
      dly_inv (tick_dly d) (s\<lparr>p_dlnk := dl, p_blnk := bl, delta_time := de\<rparr>)"
proof (cases "d = []")
  case True
  with dly have "rt_dec_dly s = Some s"
    by (simp add: rt_dec_dly_def dly_inv_def)
  with True inv dly show ?thesis
    by (intro exI [of _ "p_lnk s"] exI [of _ "p_rlnk s"] exI [of _ "p_dlnk s"] exI [of _ "p_blnk s"]
        exI [of _ "delta_time s"]) (simp add: expired_def tick_dly_def ready_all_def)
next
  case False
  let ?s = "set_delta Dly (delta_time s Dly - 1) s"
  have "sorted (map snd d)"
    using dly_invD(4) [OF dly] by (rule dpath_sorted)
  then have dly': "dly_inv (map (\<lambda>t. (t, 0)) (expired d) @ tick_dly d) ?s"
    using dly_inv_dec [OF dly False pos] dec_split [OF _ pos] by simp
  have fresh': "set (expired d) \<inter> (X \<union> set (q Rdy)) = {}"
    using fresh by (auto simp: expired_def)
  have pos': "\<forall>(t, a) \<in> set (tick_dly d). 0 < a"
    by (auto simp: tick_dly_def)
  have "p_dlnk s Dly \<noteq> None"
    using dly False by (cases d) (auto simp: dly_inv_def)
  then have "rt_dec_dly s = dec_dly_loop ?s"
    by (auto simp: rt_dec_dly_def)
  moreover have "lists_inv X q ?s"
    using inv by simp
  note dec_dly_loop_refines [OF this dly' fresh' pos']
  ultimately show ?thesis
    by (simp add: dly_inv_def lists_inv_def live_def cb_ok_def)
qed

end
