(* ===== verification/Rtx_Task.thy ===== *)
theory Rtx_Task
  imports Rtx_Timeout
begin

text \<open>
  Task switching (\<open>rt_Task.c\<close>) and the invariant of the scheduler.

  The operations are followed by \<open>krun q d n s\<close>: the lists of the kernel are \<open>q\<close>, the delay list
  is \<open>d\<close>, the states recorded in the task control blocks agree with the lists the tasks are in,
  and \<open>n\<close> is the one running task; \<open>top_prio q n s\<close> says that no ready task has a higher
  priority. Each building block of the kernel's services is shown to keep them and never to
  dereference a null pointer.
\<close>

section \<open>The operations\<close>

definition rt_switch_req :: "kernel \<Rightarrow> nat \<Rightarrow> kernel" where
  "rt_switch_req s p_new = set_state p_new RUNNING (s\<lparr>new_tsk := Some p_new\<rparr>)"

definition rt_dispatch :: "kernel \<Rightarrow> nat option \<Rightarrow> kernel option" where
  "rt_dispatch s next_TCB =
     (case next_TCB of
        None \<Rightarrow> do { (t, s1) \<leftarrow> rt_get_first s Rdy; Some (rt_switch_req s1 t) }
      | Some t \<Rightarrow> do {
          r \<leftarrow> run s;
          if prio_of s r < prio_of s t
          then Some (rt_switch_req (set_state r READY (rt_put_rdy_first s r)) t)
          else rt_put_prio (set_state t READY s) Rdy t
        })"

definition rt_block :: "kernel \<Rightarrow> u16 \<Rightarrow> tstate \<Rightarrow> kernel option" where
  "rt_block s timeout block_state =
     (if timeout \<noteq> 0
      then do {
        r \<leftarrow> run s;
        s1 \<leftarrow> (if timeout < 0xffff then rt_put_dly s r timeout else Some s);
        (t, s2) \<leftarrow> rt_get_first (set_state r block_state s1) Rdy;
        Some (rt_switch_req s2 t)
      }
      else Some s)"

definition rt_tsk_pass :: "kernel \<Rightarrow> kernel option" where
  "rt_tsk_pass s = do {
     (p_new, s1) \<leftarrow> rt_get_same_rdy_prio s;
     case p_new of
       None \<Rightarrow> Some s1
     | Some t \<Rightarrow> do {
         r \<leftarrow> run s1;
         s2 \<leftarrow> rt_put_prio s1 Rdy r;
         Some (rt_switch_req (set_state r READY s2) t)
       }
   }"

definition rt_tsk_self :: "kernel \<Rightarrow> u8" where
  "rt_tsk_self s = (case run s of None \<Rightarrow> 0 | Some r \<Rightarrow> task_id (tcbs s r))"

text \<open>
  The sequence \<open>rt_put_prio (&os_rdy, os_tsk.run); os_tsk.run->state = READY; rt_dispatch (NULL)\<close>
  by which the running task gives way to the first ready one.
\<close>

definition give_way :: "kernel \<Rightarrow> nat \<Rightarrow> kernel option" where
  "give_way s r = do { s1 \<leftarrow> rt_put_prio s Rdy r; rt_dispatch (set_state r READY s1) None }"

text \<open>
  The shared code of \<open>rt_sem_wait\<close>, \<open>rt_mut_wait\<close>, \<open>rt_mbx_send\<close> and \<open>rt_mbx_wait\<close> that puts the
  running task into the waiting list of an object.
\<close>

definition enq_wait :: "kernel \<Rightarrow> ptr \<Rightarrow> nat \<Rightarrow> kernel option" where
  "enq_wait s h r =
     (if p_lnk s h \<noteq> None then rt_put_prio s h r
      else Some (set_rlnk (Task r) (Some h) (set_lnk (Task r) None (set_lnk h (Some r) s))))"

definition lookup_tid :: "kernel \<Rightarrow> u32 \<Rightarrow> nat option" where
  "lookup_tid s tid =
     (if tid = 0 \<or> length (os_active_TCB s) < unat tid then None
      else os_active_TCB s ! (unat tid - 1))"

definition tsk_prio_run :: "kernel \<Rightarrow> nat \<Rightarrow> u8 \<Rightarrow> (os_result \<times> kernel) option" where
  "tsk_prio_run s r new_prio = do {
     rp \<leftarrow> rt_rdy_prio s;
     s1 \<leftarrow> (if new_prio < rp then give_way s r else Some s);
     Some (OS_R_OK, s1)
   }"

definition rt_tsk_prio :: "kernel \<Rightarrow> u32 \<Rightarrow> u8 \<Rightarrow> (os_result \<times> kernel) option" where
  "rt_tsk_prio s tid new_prio =
     (if tid = 0 then do { r \<leftarrow> run s; tsk_prio_run (set_prio r new_prio s) r new_prio }
      else case lookup_tid s tid of
             None \<Rightarrow> Some (OS_R_NOK, s)
           | Some t \<Rightarrow>
               let s1 = set_prio t new_prio s
               in if run s1 = Some t then tsk_prio_run s1 t new_prio
                  else do {
                    s2 \<leftarrow> rt_resort_prio s1 t;
                    s3 \<leftarrow> (if state_of s2 t = READY
                           then do { (u, s3) \<leftarrow> rt_get_first s2 Rdy; rt_dispatch s3 (Some u) }
                           else Some s2);
                    Some (OS_R_OK, s3)
                  })"

text \<open>
  Of a terminated task the kernel keeps the control block and the stack memory, which is not
  part of this model (\<open>tsk_stack\<close>, \<open>stack\<close> and the check of its guard word are left out).
\<close>

definition rt_tsk_delete :: "kernel \<Rightarrow> u32 \<Rightarrow> (os_result \<times> kernel) option" where
  "rt_tsk_delete s tid = do {
     r \<leftarrow> run s;
     if tid = 0 \<or> tid = ucast (task_id (tcbs s r))
     then do {
       let s1 = set_state r INACTIVE s;
       let s2 = s1\<lparr>os_active_TCB := (os_active_TCB s1)[unat (task_id (tcbs s1 r)) - 1 := None]\<rparr>;
       s3 \<leftarrow> rt_dispatch (s2\<lparr>run := None\<rparr>) None;
       Some (OS_R_OK, s3)
     }
     else case lookup_tid s tid of
            None \<Rightarrow> Some (OS_R_NOK, s)
          | Some t \<Rightarrow> do {
              s1 \<leftarrow> rt_rmv_list s t;
              let s2 = rt_rmv_dly s1 t;
              Some (OS_R_OK, s2\<lparr>os_active_TCB := (os_active_TCB s2)[unat tid - 1 := None]\<rparr>)
            }
   }"

fun get_tid_from :: "nat \<Rightarrow> nat option list \<Rightarrow> u32" where
  "get_tid_from i [] = 0"
| "get_tid_from i (x # xs) = (if x = None then of_nat (Suc i) else get_tid_from (Suc i) xs)"

definition rt_get_TID :: "kernel \<Rightarrow> u32" where
  "rt_get_TID s = get_tid_from 0 (os_active_TCB s)"

definition rt_init_context :: "kernel \<Rightarrow> nat \<Rightarrow> u8 \<Rightarrow> kernel" where
  "rt_init_context s t priority =
     s\<lparr>cb_type := (cb_type s)(Task t := TCB),
       p_lnk := (p_lnk s)(Task t := None), p_rlnk := (p_rlnk s)(Task t := None),
       p_dlnk := (p_dlnk s)(Task t := None), p_blnk := (p_blnk s)(Task t := None),
       delta_time := (delta_time s)(Task t := 0),
       tcbs := (tcbs s)(t := (tcbs s t)\<lparr>t_state := READY, prio := priority,
         interval_time := 0, events := 0, waits := 0\<rparr>)\<rparr>"

text \<open>The control block of the idle demon, and the state after \<open>rt_sys_init\<close>.\<close>

definition idle_TCB :: nat where
  "idle_TCB = 0"

definition rt_init_robin :: "u32 \<Rightarrow> kernel \<Rightarrow> kernel" where
  "rt_init_robin os_rrobin s = s\<lparr>robin_task := None, robin_tout := ucast os_rrobin\<rparr>"

definition rt_sys_init :: "u8 \<Rightarrow> u32 \<Rightarrow> kernel \<Rightarrow> kernel" where
  "rt_sys_init os_fifo_size os_rrobin s =
     (let s1 = s\<lparr>os_active_TCB := replicate (length (os_active_TCB s)) None\<rparr>;
          s2 = upd_tcb idle_TCB (task_id_update (\<lambda>_. 255)) s1;
          s3 = rt_init_context s2 idle_TCB 0;
          s4 = s3\<lparr>cb_type := (cb_type s3)(Rdy := HCB, Dly := HCB),
                  p_lnk := (p_lnk s3)(Rdy := None),
                  p_dlnk := (p_dlnk s3)(Dly := None), p_blnk := (p_blnk s3)(Dly := None),
                  delta_time := (delta_time s3)(Dly := 0), run := Some idle_TCB\<rparr>;
          s5 = set_state idle_TCB RUNNING s4
      in rt_init_robin os_rrobin
           (s5\<lparr>os_psq := (os_psq s5)\<lparr>q_first := 0, q_last := 0, q_size := os_fifo_size\<rparr>\<rparr>))"

section \<open>The invariant\<close>

text \<open>The state a task has while it is in the list of a control block.\<close>

fun qstate :: "ptr \<Rightarrow> tstate" where
  "qstate Rdy = READY"
| "qstate (Sem i) = WAIT_SEM"
| "qstate (Mbx i) = WAIT_MBX"
| "qstate (Mut i) = WAIT_MUT"
| "qstate _ = INACTIVE"

text \<open>
  The tasks in \<open>X\<close> are dead: \<open>rt_tsk_delete\<close> unlinks a task from its lists but leaves the state
  and the \<open>p_rlnk\<close> recorded in its control block as they were. \<open>N\<close> is the running task, or \<open>None\<close>
  in the middle of an operation that has already put it back into the ready list.
\<close>

definition kbase :: "nat set \<Rightarrow> (ptr \<Rightarrow> nat list) \<Rightarrow> (nat \<times> nat) list \<Rightarrow> kernel \<Rightarrow> bool" where
  "kbase X q d s \<longleftrightarrow>
     lists_inv X q s \<and> dly_inv d s \<and> (\<forall>(t, a) \<in> set d. 0 < a) \<and>
     (\<forall>h. live s h \<longrightarrow> prio_sorted (prio_of s) (q h)) \<and>
     (\<forall>h t. live s h \<longrightarrow> t \<in> set (q h) \<longrightarrow> state_of s t = qstate h \<and> t \<notin> X) \<and>
     (\<forall>t. t \<notin> X \<longrightarrow> state_of s t = READY \<longrightarrow> t \<in> set (q Rdy)) \<and>
     (\<forall>t. t \<in> fst ` set d \<longrightarrow> state_of s t \<notin> {READY, RUNNING, INACTIVE} \<and> t \<notin> X)"

definition krun ::
    "nat set \<Rightarrow> (ptr \<Rightarrow> nat list) \<Rightarrow> (nat \<times> nat) list \<Rightarrow> nat option \<Rightarrow> kernel \<Rightarrow> bool" where
  "krun X q d N s \<longleftrightarrow> kbase X q d s \<and>
     (\<forall>t. t \<notin> X \<longrightarrow> state_of s t = RUNNING \<longleftrightarrow> N = Some t) \<and>
     (\<forall>n. N = Some n \<longrightarrow> n \<notin> X \<and> new_tsk s = Some n) \<and>
     (N = Some idle_TCB \<or> idle_TCB \<in> set (q Rdy))"

definition top_prio :: "(ptr \<Rightarrow> nat list) \<Rightarrow> nat \<Rightarrow> kernel \<Rightarrow> bool" where
  "top_prio q n s \<longleftrightarrow> (\<forall>t \<in> set (q Rdy). prio_of s t \<le> prio_of s n)"

text \<open>What the building blocks leave alone.\<close>

definition kframe :: "kernel \<Rightarrow> kernel \<Rightarrow> bool" where
  "kframe s s' \<longleftrightarrow>
     scbs s' = scbs s \<and> mcbs s' = mcbs s \<and> mucbs s' = mucbs s \<and> cb_type s' = cb_type s \<and>
     run s' = run s \<and> os_active_TCB s' = os_active_TCB s \<and> os_time s' = os_time s \<and>
     robin_task s' = robin_task s \<and> robin_time s' = robin_time s \<and> robin_tout s' = robin_tout s \<and>
     os_psq s' = os_psq s \<and> mem s' = mem s \<and> (\<forall>t. tcbs s' t \<lparr>t_state := INACTIVE\<rparr> = tcbs s t \<lparr>t_state := INACTIVE\<rparr>)"

lemma kframe_refl [simp]: "kframe s s"
  by (simp add: kframe_def)

lemma kframe_trans [trans]: "kframe s s' \<Longrightarrow> kframe s' s'' \<Longrightarrow> kframe s s''"
  by (simp add: kframe_def)

lemma tcb_but_state:
  "a\<lparr>t_state := st\<rparr> = b\<lparr>t_state := st\<rparr> \<longleftrightarrow>
   prio a = prio b \<and> task_id a = task_id b \<and> interval_time a = interval_time b \<and>
   events a = events b \<and> waits a = waits b \<and> msg a = msg b \<and> ret0 a = ret0 b \<and> ret1 a = ret1 b" for a b :: tcb
  by (cases a, cases b) auto

lemma kframeD:
  assumes "kframe s s'"
  shows "scbs s' = scbs s" "mcbs s' = mcbs s" "mucbs s' = mucbs s" "cb_type s' = cb_type s"
    "run s' = run s" "os_active_TCB s' = os_active_TCB s" "os_time s' = os_time s"
    "robin_task s' = robin_task s" "robin_time s' = robin_time s" "robin_tout s' = robin_tout s"
    "os_psq s' = os_psq s" "prio_of s' = prio_of s" "live s' = live s"
    "task_id (tcbs s' t) = task_id (tcbs s t)" "interval_time (tcbs s' t) = interval_time (tcbs s t)"
    "events (tcbs s' t) = events (tcbs s t)" "waits (tcbs s' t) = waits (tcbs s t)"
    "msg (tcbs s' t) = msg (tcbs s t)" "ret0 (tcbs s' t) = ret0 (tcbs s t)"
    "ret1 (tcbs s' t) = ret1 (tcbs s t)" "mem s' = mem s"
  using assms by (auto simp: kframe_def tcb_but_state live_def)

text \<open>The weaker frame of the operations that also change priorities.\<close>

definition oframe :: "kernel \<Rightarrow> kernel \<Rightarrow> bool" where
  "oframe s s' \<longleftrightarrow>
     scbs s' = scbs s \<and> mcbs s' = mcbs s \<and> mucbs s' = mucbs s \<and> os_psq s' = os_psq s \<and>
     run s' = run s \<and> os_active_TCB s' = os_active_TCB s \<and> (\<forall>t. task_id (tcbs s' t) = task_id (tcbs s t))"

lemma oframe_refl [simp]: "oframe s s"
  by (simp add: oframe_def)

lemma oframe_trans [trans]: "oframe s s' \<Longrightarrow> oframe s' s'' \<Longrightarrow> oframe s s''"
  by (simp add: oframe_def)

lemma kframe_oframe: "kframe s s' \<Longrightarrow> oframe s s'"
  unfolding oframe_def by (simp add: kframeD)

lemma kframe_prio: "kframe s s' \<Longrightarrow> prio (tcbs s' t) = prio (tcbs s t)"
  by (simp add: kframe_def tcb_but_state)

lemma krunD:
  assumes "krun X q d N s"
  shows "lists_inv X q s" and "dly_inv d s" and "\<forall>(t, a) \<in> set d. 0 < a"
    and "live s h \<Longrightarrow> prio_sorted (prio_of s) (q h)"
    and "live s h \<Longrightarrow> t \<in> set (q h) \<Longrightarrow> state_of s t = qstate h"
    and "live s h \<Longrightarrow> t \<in> set (q h) \<Longrightarrow> t \<notin> X"
    and "t \<notin> X \<Longrightarrow> state_of s t = READY \<Longrightarrow> t \<in> set (q Rdy)"
    and "t \<in> fst ` set d \<Longrightarrow> state_of s t \<notin> {READY, RUNNING, INACTIVE}"
    and "t \<in> fst ` set d \<Longrightarrow> t \<notin> X"
    and "t \<notin> X \<Longrightarrow> state_of s t = RUNNING \<longleftrightarrow> N = Some t"
    and "N = Some n \<Longrightarrow> n \<notin> X" and "N = Some n \<Longrightarrow> new_tsk s = Some n"
    and "N = Some idle_TCB \<or> idle_TCB \<in> set (q Rdy)"
  using assms unfolding krun_def kbase_def by (elim conjE; simp)+

lemma krunI:
  assumes "lists_inv X q s" and "dly_inv d s" and "\<forall>(t, a) \<in> set d. 0 < a"
    and "\<And>h. live s h \<Longrightarrow> prio_sorted (prio_of s) (q h)"
    and "\<And>h t. live s h \<Longrightarrow> t \<in> set (q h) \<Longrightarrow> state_of s t = qstate h"
    and "\<And>h t. live s h \<Longrightarrow> t \<in> set (q h) \<Longrightarrow> t \<notin> X"
    and "\<And>t. t \<notin> X \<Longrightarrow> state_of s t = READY \<Longrightarrow> t \<in> set (q Rdy)"
    and "\<And>t. t \<in> fst ` set d \<Longrightarrow> state_of s t \<notin> {READY, RUNNING, INACTIVE}"
    and "\<And>t. t \<in> fst ` set d \<Longrightarrow> t \<notin> X"
    and "\<And>t. t \<notin> X \<Longrightarrow> state_of s t = RUNNING \<longleftrightarrow> N = Some t"
    and "\<And>n. N = Some n \<Longrightarrow> n \<notin> X \<and> new_tsk s = Some n"
    and "N = Some idle_TCB \<or> idle_TCB \<in> set (q Rdy)"
  shows "krun X q d N s"
  unfolding krun_def kbase_def using assms by simp

lemma krun_run_unqueued:
  assumes "krun X q d (Some n) s"
  shows "unqueued q s n" and "n \<notin> fst ` set d" and "n \<notin> X" and "state_of s n = RUNNING"
proof -
  note D = krunD [OF assms]
  show st: "state_of s n = RUNNING" and "n \<notin> X"
    using D(10,11) by auto
  have "qstate h \<noteq> RUNNING" for h
    by (cases h) auto
  then show "unqueued q s n"
    using D(5) st by (metis unqueued_def)
  show "n \<notin> fst ` set d"
    using D(8) st by auto
qed

lemma krun_update_simps [simp]:
  "krun X q d N (s\<lparr>scbs := e\<rparr>) = krun X q d N s"
  "krun X q d N (s\<lparr>mcbs := f\<rparr>) = krun X q d N s"
  "krun X q d N (s\<lparr>mucbs := g\<rparr>) = krun X q d N s"
  "krun X q d N (s\<lparr>run := rn\<rparr>) = krun X q d N s"
  "krun X q d N (s\<lparr>os_active_TCB := ac\<rparr>) = krun X q d N s"
  "krun X q d N (s\<lparr>os_time := tm\<rparr>) = krun X q d N s"
  "krun X q d N (s\<lparr>robin_task := rt\<rparr>) = krun X q d N s"
  "krun X q d N (s\<lparr>robin_time := ti\<rparr>) = krun X q d N s"
  "krun X q d N (s\<lparr>os_psq := pq\<rparr>) = krun X q d N s"
  "krun X q d N (s\<lparr>mem := mm\<rparr>) = krun X q d N s"
  by (simp_all add: krun_def kbase_def)

lemma krun_tcbs:
  assumes "\<And>t. t_state (f t) = state_of s t" and "\<And>t. prio (f t) = prio_of s t"
  shows "krun X q d N (s\<lparr>tcbs := f\<rparr>) = krun X q d N s"
  by (simp add: krun_def kbase_def assms)

lemma krun_upd_tcb [simp]:
  "krun X q d N (upd_tcb t (ret0_update g0) s) = krun X q d N s"
  "krun X q d N (upd_tcb t (ret1_update g0) s) = krun X q d N s"
  "krun X q d N (upd_tcb t (msg_update g0) s) = krun X q d N s"
  "krun X q d N (upd_tcb t (events_update g1) s) = krun X q d N s"
  "krun X q d N (upd_tcb t (waits_update g1) s) = krun X q d N s"
  "krun X q d N (upd_tcb t (interval_time_update g1) s) = krun X q d N s"
  by (rule krun_tcbs; simp)+

lemma top_prio_cong: "prio_of s' = prio_of s \<Longrightarrow> top_prio q n s' = top_prio q n s"
  by (simp add: top_prio_def fun_eq_iff)

lemma krun_Rdy_nonempty:
  assumes "krun X q d N s" and "N \<noteq> Some idle_TCB"
  shows "q Rdy \<noteq> []"
  using krunD(13) [OF assms(1)] assms(2) by auto

section \<open>The building blocks\<close>

text \<open>Taking the first task off a waiting list.\<close>

lemma k_get_first:
  assumes k: "krun X q d N s" and h: "live s h" "h \<noteq> Rdy" and q: "q h = t # ts"
  shows "\<exists>s'. rt_get_first s h = Some (t, s') \<and> krun X (q(h := ts)) d N s' \<and>
    unqueued (q(h := ts)) s' t \<and> tcbs s' = tcbs s \<and> new_tsk s' = new_tsk s \<and> kframe s s' \<and>
    t \<notin> X \<and> N \<noteq> Some t"
proof -
  note D = krunD [OF k]
  from rt_get_first_refines [OF D(1) h(1) q] obtain l r where
    op: "rt_get_first s h = Some (t, s\<lparr>p_lnk := l, p_rlnk := r\<rparr>)" and
    inv: "lists_inv (X - (if h = Rdy then {} else {t})) (q(h := ts)) (s\<lparr>p_lnk := l, p_rlnk := r\<rparr>)"
    by auto
  let ?s = "s\<lparr>p_lnk := l, p_rlnk := r\<rparr>"
  have tX: "t \<notin> X"
    using D(6) [OF h(1)] q by simp
  have inv': "lists_inv X (q(h := ts)) ?s"
    using inv by (rule lists_inv_mono) auto
  have dist: "distinct (q h)"
    using lists_invD(4) [OF D(1) h(1)] .
  have uq: "unqueued (q(h := ts)) ?s t"
    using lists_invD(7) [OF D(1) _ h(1)] dist q by (auto simp: unqueued_def)
  have sub: "set ((q(h := ts)) h') \<subseteq> set (q h')" for h'
    using q by auto
  have "prio_sorted (prio_of s) ts"
    using D(4) [OF h(1)] q by simp
  moreover have "qstate h \<noteq> RUNNING"
    by (cases h) auto
  ultimately have "krun X (q(h := ts)) d N ?s" and "N \<noteq> Some t"
    using D inv' h sub q unfolding krun_def kbase_def by (auto simp: krunD(10) [OF k tX, symmetric])
  with op uq tX show ?thesis
    by (intro exI [of _ ?s]) (simp add: kframe_def)
qed

text \<open>Cancelling a timeout, and the states that are neither in a list nor being waited in.\<close>

lemma k_rmv_dly:
  assumes k: "krun X q d N s"
  shows "krun X q (rmv_dly t d) N (rt_rmv_dly s t)" and "tcbs (rt_rmv_dly s t) = tcbs s"
    and "new_tsk (rt_rmv_dly s t) = new_tsk s" and "kframe s (rt_rmv_dly s t)"
    and "unqueued q (rt_rmv_dly s t) u = unqueued q s u"
proof -
  note D = krunD [OF k]
  from rt_rmv_dly_refines [OF D(2)] obtain dl bl de where
    op: "rt_rmv_dly s t = s\<lparr>p_dlnk := dl, p_blnk := bl, delta_time := de\<rparr>" and
    inv: "dly_inv (rmv_dly t d) (s\<lparr>p_dlnk := dl, p_blnk := bl, delta_time := de\<rparr>)"
    by blast
  show "krun X q (rmv_dly t d) N (rt_rmv_dly s t)"
    using k inv unfolding op krun_def kbase_def by (auto simp: image_iff)
qed (use rt_rmv_dly_refines [OF krunD(2) [OF k], of t] in
  \<open>auto simp: kframe_def unqueued_def\<close>)

text \<open>A task that is in no list becomes ready; if it was the running one, nobody runs.\<close>

definition stop :: "nat \<Rightarrow> nat option \<Rightarrow> nat option" where
  "stop t N = (if N = Some t then None else N)"

lemma stop_simps [simp]: "stop t (Some t) = None" "stop t None = None"
  "n \<noteq> t \<Longrightarrow> stop t (Some n) = Some n"
  by (auto simp: stop_def)

lemma k_make_ready:
  assumes k: "krun X q d N s" and t: "unqueued q s t" "t \<notin> fst ` set d" "t \<notin> X"
  shows "\<exists>s'. rt_put_prio (set_state t READY s) Rdy t = Some s' \<and>
    krun X (q(Rdy := ins_prio (prio_of s) t (q Rdy))) d (stop t N) s' \<and> kframe s s' \<and>
    new_tsk s' = new_tsk s \<and> tcbs s' = tcbs (set_state t READY s)"
    and "\<exists>s'. rt_put_prio s Rdy t = Some s' \<and> 
    krun X (q(Rdy := ins_prio (prio_of s) t (q Rdy))) d (stop t N) (set_state t READY s') \<and> kframe s s' \<and>
    new_tsk s' = new_tsk s \<and> tcbs s' = tcbs s"
proof -
  note D = krunD [OF k]
  have main: "krun X (q(Rdy := ins_prio (prio_of s) t (q Rdy))) d (stop t N)
      (set_state t READY (s\<lparr>p_lnk := l, p_rlnk := r\<rparr>))"
    if inv: "lists_inv (X - {t}) (q(Rdy := ins_prio (prio_of s) t (q Rdy))) (s\<lparr>p_lnk := l, p_rlnk := r\<rparr>)"
    for l r
  proof -
    have "lists_inv X (q(Rdy := ins_prio (prio_of s) t (q Rdy))) (s\<lparr>p_lnk := l, p_rlnk := r\<rparr>)"
      using inv by (rule lists_inv_mono) auto
    moreover have "prio_of (set_state t READY s) = prio_of s"
      by auto
    moreover have "prio_sorted (prio_of s) (ins_prio (prio_of s) t (q Rdy))"
      using D(4) [of Rdy] by (simp add: prio_sorted_ins_prio)
    ultimately show ?thesis
    proof (intro krunI, goal_cases)
      case (5 h u)
      then show ?case
        using D(5) [of h u] t(1) by (auto simp: unqueued_def split: if_splits)
    next
      case (6 h u)
      then show ?case
        using D(6) [of h u] t(3) by (auto split: if_splits)
    next
      case (8 u)
      then show ?case
        using D(8) [of u] t(2) by auto
    qed (use D t in \<open>auto simp: unqueued_def stop_def split: if_splits\<close>)
  qed
  have "unqueued q (set_state t READY s) t" and "prio_of (set_state t READY s) = prio_of s"
    using t by (auto simp: unqueued_def)
  with rt_put_prio_refines [of X q "set_state t READY s" Rdy t] D(1) obtain l r where
    "rt_put_prio (set_state t READY s) Rdy t = Some (set_state t READY s\<lparr>p_lnk := l, p_rlnk := r\<rparr>)"
    "lists_inv (X - {t}) (q(Rdy := ins_prio (prio_of s) t (q Rdy)))
      (set_state t READY s\<lparr>p_lnk := l, p_rlnk := r\<rparr>)"
    by auto
  moreover have "set_state t READY s\<lparr>p_lnk := l, p_rlnk := r\<rparr> = set_state t READY (s\<lparr>p_lnk := l, p_rlnk := r\<rparr>)"
    by simp
  ultimately show "\<exists>s'. rt_put_prio (set_state t READY s) Rdy t = Some s' \<and>
    krun X (q(Rdy := ins_prio (prio_of s) t (q Rdy))) d (stop t N) s' \<and> kframe s s' \<and>
    new_tsk s' = new_tsk s \<and> tcbs s' = tcbs (set_state t READY s)"
    using main [of r l] by (simp add: kframe_def)
  from rt_put_prio_refines [OF D(1) _ t(1), of Rdy] obtain l r where
    "rt_put_prio s Rdy t = Some (s\<lparr>p_lnk := l, p_rlnk := r\<rparr>)"
    "lists_inv (X - {t}) (q(Rdy := ins_prio (prio_of s) t (q Rdy))) (s\<lparr>p_lnk := l, p_rlnk := r\<rparr>)"
    by auto
  then show "\<exists>s'. rt_put_prio s Rdy t = Some s' \<and> 
    krun X (q(Rdy := ins_prio (prio_of s) t (q Rdy))) d (stop t N) (set_state t READY s') \<and> kframe s s' \<and>
    new_tsk s' = new_tsk s \<and> tcbs s' = tcbs s"
    using main [of r l] by (simp add: kframe_def)
qed

text \<open>The first ready task is switched to.\<close>

lemma k_dispatch_none:
  assumes k: "krun X q d None s"
  shows "\<exists>s'. rt_dispatch s None = Some s' \<and>
    krun X (q(Rdy := tl (q Rdy))) d (Some (hd (q Rdy))) s' \<and>
    top_prio (q(Rdy := tl (q Rdy))) (hd (q Rdy)) s' \<and> kframe s s' \<and>
    tcbs s' = tcbs (set_state (hd (q Rdy)) RUNNING s)"
proof -
  note D = krunD [OF k]
  obtain t ts where q: "q Rdy = t # ts"
    using krun_Rdy_nonempty [OF k] by (cases "q Rdy") auto
  from rt_get_first_refines [OF D(1) live_Rdy q] obtain l r where
    op: "rt_get_first s Rdy = Some (t, s\<lparr>p_lnk := l, p_rlnk := r\<rparr>)" and
    inv: "lists_inv X (q(Rdy := ts)) (s\<lparr>p_lnk := l, p_rlnk := r\<rparr>)"
    by auto
  let ?s = "rt_switch_req (s\<lparr>p_lnk := l, p_rlnk := r\<rparr>) t"
  have pr: "prio_of ?s = prio_of s"
    by (auto simp: rt_switch_req_def)
  have dist: "t \<notin> set ts" and srt: "prio_sorted (prio_of s) (t # ts)"
    using lists_invD(4) [OF D(1) live_Rdy] D(4) [OF live_Rdy] q by auto
  have st: "state_of s t = READY" and tX: "t \<notin> X"
    using D(5) [OF live_Rdy, of t] D(6) [OF live_Rdy, of t] q by auto
  have uq: "live s h \<Longrightarrow> h \<noteq> Rdy \<Longrightarrow> t \<notin> set (q h)" for h
    using lists_invD(7) [OF D(1) _ live_Rdy] q by fastforce
  have "krun X (q(Rdy := ts)) d (Some t) ?s"
  proof (rule krunI, goal_cases)
    case (4 h)
    show ?case
      unfolding pr using 4 D(4) [of h] srt by (simp add: rt_switch_req_def)
  next
    case (5 h u)
    then show ?case
      using D(5) [of h u] D(5) [OF live_Rdy, of u] dist uq [of h] q
      by (auto simp: rt_switch_req_def split: if_splits)
  next
    case (6 h u)
    then show ?case
      using D(6) [of h u] D(6) [OF live_Rdy, of u] q by (auto simp: rt_switch_req_def split: if_splits)
  next
    case (7 u)
    then show ?case
      using D(7) [of u] q by (auto simp: rt_switch_req_def split: if_splits)
  next
    case (8 u)
    then show ?case
      using D(8) [of u] st by (auto simp: rt_switch_req_def split: if_splits)
  next
    case (10 u)
    then show ?case
      using D(10) [of u] st by (auto simp: rt_switch_req_def split: if_splits)
  qed (use inv D(2,3,9,13) tX q in \<open>auto simp: rt_switch_req_def\<close>)
  moreover have "top_prio (q(Rdy := ts)) t ?s"
    unfolding top_prio_def using srt fun_cong [OF pr] by (auto simp: prio_sorted_def)
  moreover have "rt_dispatch s None = Some ?s"
    by (simp add: rt_dispatch_def op)
  ultimately show ?thesis
    by (auto simp: q kframe_def rt_switch_req_def)
qed

text \<open>A woken task is dispatched.\<close>

definition disp_run :: "(nat \<Rightarrow> u8) \<Rightarrow> nat \<Rightarrow> nat \<Rightarrow> nat" where
  "disp_run pr n t = (if pr n < pr t then t else n)"

definition disp_q :: "(nat \<Rightarrow> u8) \<Rightarrow> nat \<Rightarrow> nat \<Rightarrow> (ptr \<Rightarrow> nat list) \<Rightarrow> ptr \<Rightarrow> nat list" where
  "disp_q pr n t q = q(Rdy := if pr n < pr t then n # q Rdy else ins_prio pr t (q Rdy))"

lemma k_dispatch_some:
  assumes k: "krun X q d (Some n) s" and top: "top_prio q n s" and n: "run s = Some n"
    and t: "unqueued q s t" "t \<notin> fst ` set d" "t \<notin> X" "t \<noteq> n"
  shows "\<exists>s'. rt_dispatch s (Some t) = Some s' \<and>
    krun X (disp_q (prio_of s) n t q) d (Some (disp_run (prio_of s) n t)) s' \<and>
    top_prio (disp_q (prio_of s) n t q) (disp_run (prio_of s) n t) s' \<and> kframe s s'"
proof (cases "prio_of s n < prio_of s t")
  case False
  from k_make_ready(1) [OF k t(1-3)] t(4) obtain s' where s':
    "rt_put_prio (set_state t READY s) Rdy t = Some s'"
    "krun X (q(Rdy := ins_prio (prio_of s) t (q Rdy))) d (Some n) s'"
    "kframe s s'" by auto
  with top False show ?thesis
    by (auto simp: rt_dispatch_def n disp_q_def disp_run_def top_prio_def kframe_prio)
next
  case True
  note D = krunD [OF k] and R = krun_run_unqueued [OF k]
  from rt_put_rdy_first_refines [OF D(1) R(1)] obtain l r where
    op: "rt_put_rdy_first s n = s\<lparr>p_lnk := l, p_rlnk := r\<rparr>" and
    inv: "lists_inv (X - {n}) (q(Rdy := n # q Rdy)) (s\<lparr>p_lnk := l, p_rlnk := r\<rparr>)"
    by auto
  let ?s = "rt_switch_req (set_state n READY (s\<lparr>p_lnk := l, p_rlnk := r\<rparr>)) t"
  have pr: "prio_of ?s = prio_of s"
    by (auto simp: rt_switch_req_def)
  have inv': "lists_inv X (q(Rdy := n # q Rdy)) (s\<lparr>p_lnk := l, p_rlnk := r\<rparr>)"
    using inv by (rule lists_inv_mono) auto
  have st: "state_of s t \<noteq> READY" "state_of s t \<noteq> RUNNING"
    using D(7) [of t] D(10) [of t] t by (auto simp: unqueued_def)
  have "krun X (q(Rdy := n # q Rdy)) d (Some t) ?s"
  proof (rule krunI, goal_cases)
    case (4 h)
    show ?case
      unfolding pr using 4 D(4) [of h] D(4) [OF live_Rdy] top
      by (auto simp: rt_switch_req_def top_prio_def)
  next
    case (5 h u)
    then show ?case
      using D(5) [of h u] D(5) [OF live_Rdy, of u] t R(1)
      by (auto simp: rt_switch_req_def unqueued_def split: if_splits)
  next
    case (6 h u)
    then show ?case
      using D(6) [of h u] D(6) [OF live_Rdy, of u] R(3) by (auto simp: rt_switch_req_def split: if_splits)
  next
    case (7 u)
    then show ?case
      using D(7) [of u] by (auto simp: rt_switch_req_def split: if_splits)
  next
    case (8 u)
    then show ?case
      using D(8) [of u] R(2) t(2) by (auto simp: rt_switch_req_def split: if_splits)
  next
    case (10 u)
    then show ?case
      using D(10) [of u] st t(4) by (auto simp: rt_switch_req_def split: if_splits)
  qed (use inv' D(2,3,9,13) t(3) in \<open>auto simp: rt_switch_req_def\<close>)
  moreover have "top_prio (q(Rdy := n # q Rdy)) t ?s"
    unfolding top_prio_def using top True fun_cong [OF pr] by (fastforce simp: top_prio_def)
  moreover have "rt_dispatch s (Some t) = Some ?s"
    using True by (simp add: rt_dispatch_def n op)
  moreover have "kframe s ?s"
    by (simp add: kframe_def rt_switch_req_def)
  ultimately show ?thesis
    using True by (auto simp: disp_q_def disp_run_def)
qed

text \<open>The running task gives way to the first ready task.\<close>

lemma k_give_way:
  assumes k: "krun X q d (Some n) s"
  shows "\<exists>s'. give_way s n = Some s' \<and>
    krun X (q(Rdy := tl (ins_prio (prio_of s) n (q Rdy)))) d
      (Some (hd (ins_prio (prio_of s) n (q Rdy)))) s' \<and>
    top_prio (q(Rdy := tl (ins_prio (prio_of s) n (q Rdy))))
      (hd (ins_prio (prio_of s) n (q Rdy))) s' \<and> kframe s s'"
proof -
  note R = krun_run_unqueued [OF k]
  from k_make_ready(2) [OF k R(1-3)] obtain s1 where s1:
    "rt_put_prio s Rdy n = Some s1" "kframe s s1"
    "krun X (q(Rdy := ins_prio (prio_of s) n (q Rdy))) d None (set_state n READY s1)"
    by auto
  from k_dispatch_none [OF s1(3)] obtain s' where s':
    "rt_dispatch (set_state n READY s1) None = Some s'" "kframe (set_state n READY s1) s'"
    "krun X (q(Rdy := tl (ins_prio (prio_of s) n (q Rdy)))) d
      (Some (hd (ins_prio (prio_of s) n (q Rdy)))) s'"
    "top_prio (q(Rdy := tl (ins_prio (prio_of s) n (q Rdy)))) (hd (ins_prio (prio_of s) n (q Rdy))) s'"
    by auto
  have "kframe s (set_state n READY s1)"
    using s1(2) by (simp add: kframe_def)
  with s' s1(1) show ?thesis
    by (auto simp: give_way_def intro: kframe_trans)
qed

text \<open>A task enters a waiting list.\<close>

lemma enq_wait_eq:
  assumes inv: "lists_inv X q s" and h: "sem_mbx (cb_type s h)"
  shows "enq_wait s h t = rt_put_prio s h t"
proof (cases "p_lnk s h")
  case None
  have "hdr h"
    using lists_invD(3) [OF inv live_sem_mbx [OF h]] .
  then have "Task t \<noteq> h"
    by auto
  with None h show ?thesis
    by (simp add: enq_wait_def rt_put_prio_def find_prio.simps [of s _ h] fun_upd_twist)
qed (simp add: enq_wait_def)

lemma rt_block_eq:
  assumes "timeout \<noteq> 0" and "run s = Some n"
  shows "rt_block s timeout st = do {
    s1 \<leftarrow> (if timeout < 0xffff then rt_put_dly s n timeout else Some s);
    rt_dispatch (set_state n st s1) None }"
  using assms by (simp add: rt_block_def rt_dispatch_def cong: Option.bind_cong)

definition dly_wait :: "nat \<Rightarrow> u16 \<Rightarrow> (nat \<times> nat) list \<Rightarrow> (nat \<times> nat) list" where
  "dly_wait t timeout d = (if timeout < 0xffff then ins_dly t (unat timeout) d else d)"

lemma put_dly_wait:
  assumes inv: "dly_inv d s" and t: "t \<notin> fst ` set d"
  shows "\<exists>dl bl de. (if timeout < 0xffff then rt_put_dly s t timeout else Some s) =
      Some (s\<lparr>p_dlnk := dl, p_blnk := bl, delta_time := de\<rparr>) \<and>
    dly_inv (dly_wait t timeout d) (s\<lparr>p_dlnk := dl, p_blnk := bl, delta_time := de\<rparr>)"
proof (cases "timeout < 0xffff")
  case False
  with inv show ?thesis
    by (intro exI [of _ "p_dlnk s"] exI [of _ "p_blnk s"] exI [of _ "delta_time s"])
      (simp add: dly_wait_def)
qed (use rt_put_dly_refines [OF inv t, of timeout] in \<open>auto simp: dly_wait_def\<close>)

lemma dly_wait_pos:
  assumes "\<forall>(t, a) \<in> set d. 0 < a" and "timeout \<noteq> 0"
  shows "\<forall>(t, a) \<in> set (dly_wait n timeout d). 0 < a"
  using assms by (auto simp: dly_wait_def unat_gt_0)

lemma fst_dly_wait: "fst ` set (dly_wait n timeout d) \<subseteq> insert n (fst ` set d)"
  by (auto simp: dly_wait_def image_iff)

text \<open>
  The running task blocks: \<open>q'\<close> is \<open>q\<close> with the task in at most one waiting list, whose
  state it then gets.
\<close>

lemma krun_blocked:
  assumes k: "krun X q d (Some n) s" and inv: "lists_inv X q' s'" and dly: "dly_inv (dly_wait n timeout d) s'"
    and timeout: "timeout \<noteq> 0" and st: "st \<notin> {READY, RUNNING, INACTIVE}" and n: "n \<noteq> idle_TCB"
    and q': "\<And>h. live s h \<Longrightarrow> q' h = q h \<or> q' h = ins_prio (prio_of s) n (q h) \<and> qstate h = st"
    and s': "tcbs s' = (tcbs s)(n := (tcbs s n)\<lparr>t_state := st\<rparr>)" "cb_type s' = cb_type s"
  shows "krun X q' (dly_wait n timeout d) None s'"
proof (rule krunI)
  note D = krunD [OF k] and R = krun_run_unqueued [OF k]
  have pr: "prio_of s' = prio_of s" and live: "live s' h = live s h" for h
    using s' by (auto simp: live_def)
  show "prio_sorted (prio_of s') (q' h)" if "live s' h" for h
    unfolding pr using q' [of h] D(4) [of h] that by (auto simp: live prio_sorted_ins_prio)
  show "state_of s' t = qstate h" if "live s' h" "t \<in> set (q' h)" for h t
    using q' [of h] D(5) [of h t] that R(1) s'(1) by (auto simp: live unqueued_def)
  show "t \<notin> X" if "live s' h" "t \<in> set (q' h)" for h t
    using q' [of h] D(6) [of h t] that R(3) by (auto simp: live)
  have Rdy: "q' Rdy = q Rdy"
    using q' [of Rdy] st by auto
  show "t \<in> set (q' Rdy)" if "t \<notin> X" "state_of s' t = READY" for t
    using D(7) [of t] that Rdy st s'(1) by (auto split: if_splits)
  show "state_of s' t \<notin> {READY, RUNNING, INACTIVE}" if "t \<in> fst ` set (dly_wait n timeout d)" for t
    using D(8) [of t] that fst_dly_wait [of n timeout d] st s'(1) by auto
  show "t \<notin> X" if "t \<in> fst ` set (dly_wait n timeout d)" for t
    using D(9) [of t] that fst_dly_wait [of n timeout d] R(3) by auto
  show "state_of s' t = RUNNING \<longleftrightarrow> None = Some t" if "t \<notin> X" for t
    using D(10) [OF that] st s'(1) by auto
  show "None = Some idle_TCB \<or> idle_TCB \<in> set (q' Rdy)"
    using D(13) n Rdy by auto
  show "\<forall>(t, a) \<in> set (dly_wait n timeout d). 0 < a"
    using D(3) timeout by (rule dly_wait_pos)
qed (use inv dly in simp_all)

lemma k_blocked_dispatch:
  assumes k: "krun X q d None (set_state n st (s\<lparr>p_dlnk := dl, p_blnk := bl, delta_time := de\<rparr>))"
    and op: "(if timeout < 0xffff then rt_put_dly s n timeout else Some s) =
      Some (s\<lparr>p_dlnk := dl, p_blnk := bl, delta_time := de\<rparr>)"
    and "timeout \<noteq> 0" "run s = Some n"
  shows "\<exists>s'. rt_block s timeout st = Some s' \<and>
    krun X (q(Rdy := tl (q Rdy))) d (Some (hd (q Rdy))) s' \<and>
    top_prio (q(Rdy := tl (q Rdy))) (hd (q Rdy)) s' \<and> kframe s s' \<and>
    tcbs s' = tcbs (set_state (hd (q Rdy)) RUNNING (set_state n st s))"
proof -
  from k_dispatch_none [OF k] obtain s' where s':
    "rt_dispatch (set_state n st (s\<lparr>p_dlnk := dl, p_blnk := bl, delta_time := de\<rparr>)) None = Some s'"
    "krun X (q(Rdy := tl (q Rdy))) d (Some (hd (q Rdy))) s'"
    "top_prio (q(Rdy := tl (q Rdy))) (hd (q Rdy)) s'"
    "kframe (set_state n st (s\<lparr>p_dlnk := dl, p_blnk := bl, delta_time := de\<rparr>)) s'"
    "tcbs s' = tcbs (set_state (hd (q Rdy)) RUNNING (set_state n st s))"
    by auto
  have "rt_block s timeout st = Some s'"
    unfolding rt_block_eq [OF assms(3,4)] op by (simp only: bind.bind_lunit s'(1))
  moreover have "kframe s (set_state n st (s\<lparr>p_dlnk := dl, p_blnk := bl, delta_time := de\<rparr>))"
    by (simp add: kframe_def)
  then have "kframe s s'"
    using s'(4) by (rule kframe_trans)
  ultimately show ?thesis
    using s' by blast
qed

text \<open>
  Between entering the list and blocking, the services also write fields of the control blocks
  that do not concern the scheduler: \<open>g\<close> updates the task's block, \<open>mc\<close> are the new mailboxes.
\<close>

lemma k_wait_upd:
  assumes k: "krun X q d (Some n) s" and h: "sem_mbx (cb_type s h)" and n: "run s = Some n" "n \<noteq> idle_TCB"
    and timeout: "timeout \<noteq> 0" and g: "\<And>tc. t_state (g tc) = t_state tc \<and> prio (g tc) = prio tc"
  shows "\<exists>s1 s'. enq_wait s h n = Some s1 \<and> kframe s s1 \<and> tcbs s1 = tcbs s \<and>
    rt_block (upd_tcb n g (s1\<lparr>mcbs := mc\<rparr>)) timeout (qstate h) = Some s' \<and>
    krun X (q(h := ins_prio (prio_of s) n (q h), Rdy := tl (q Rdy))) (dly_wait n timeout d)
      (Some (hd (q Rdy))) s' \<and>
    top_prio (q(h := ins_prio (prio_of s) n (q h), Rdy := tl (q Rdy))) (hd (q Rdy)) s' \<and>
    kframe (upd_tcb n g (s\<lparr>mcbs := mc\<rparr>)) s'"
proof -
  have k0: "krun X q d (Some n) (upd_tcb n g (s\<lparr>mcbs := mc\<rparr>))"
    using k krun_tcbs [of "(tcbs s)(n := g (tcbs s n))" "s\<lparr>mcbs := mc\<rparr>"] g by simp
  note D = krunD [OF k] and R = krun_run_unqueued [OF k]
  let ?q = "q(h := ins_prio (prio_of s) n (q h))"
  have hR: "h \<noteq> Rdy" "live s h"
    using h cb_ok_Rdy [OF lists_invD(1) [OF D(1)]] by (auto simp: live_def)
  have st: "qstate h \<notin> {READY, RUNNING, INACTIVE}"
    using hR h lists_invD(1) [OF D(1)] by (cases h) (auto simp: cb_ok_def)
  from rt_put_prio_refines [OF D(1) hR(2) R(1)] obtain l r where
    op: "enq_wait s h n = Some (s\<lparr>p_lnk := l, p_rlnk := r\<rparr>)" and
    inv: "lists_inv (X - {n}) ?q (s\<lparr>p_lnk := l, p_rlnk := r\<rparr>)"
    unfolding enq_wait_eq [OF D(1) h] by auto
  let ?s1 = "upd_tcb n g (s\<lparr>p_lnk := l, p_rlnk := r\<rparr>\<lparr>mcbs := mc\<rparr>)"
  have inv': "lists_inv X ?q ?s1"
    using lists_inv_mono [OF inv, of X] by auto
  have "dly_inv d ?s1"
    using D(2) by simp
  from put_dly_wait [OF this R(2), of timeout] obtain dl bl de where
    op2: "(if timeout < 0xffff then rt_put_dly ?s1 n timeout else Some ?s1) =
      Some (?s1\<lparr>p_dlnk := dl, p_blnk := bl, delta_time := de\<rparr>)" and
    dly: "dly_inv (dly_wait n timeout d) (?s1\<lparr>p_dlnk := dl, p_blnk := bl, delta_time := de\<rparr>)"
    by blast
  let ?s2 = "set_state n (qstate h) (?s1\<lparr>p_dlnk := dl, p_blnk := bl, delta_time := de\<rparr>)"
  have pr: "prio_of (upd_tcb n g (s\<lparr>mcbs := mc\<rparr>)) = prio_of s"
    using g by auto
  have "krun X ?q (dly_wait n timeout d) None ?s2"
  proof (rule krun_blocked [OF k0 _ _ timeout st n(2)])
    show "lists_inv X ?q ?s2" and "dly_inv (dly_wait n timeout d) ?s2"
      using inv' dly by (simp_all add: dly_inv_def)
  qed (unfold pr, auto)
  from k_blocked_dispatch [OF this op2 timeout] obtain s' where
    "rt_block ?s1 timeout (qstate h) = Some s'"
    "krun X (?q(Rdy := tl (?q Rdy))) (dly_wait n timeout d) (Some (hd (?q Rdy))) s'"
    "top_prio (?q(Rdy := tl (?q Rdy))) (hd (?q Rdy)) s'" "kframe ?s1 s'"
    using n(1) by auto
  moreover have "kframe (upd_tcb n g (s\<lparr>mcbs := mc\<rparr>)) ?s1" "kframe s (s\<lparr>p_lnk := l, p_rlnk := r\<rparr>)"
    by (simp_all add: kframe_def)
  ultimately show ?thesis
    using hR(1) op
    by (intro exI [of _ "s\<lparr>p_lnk := l, p_rlnk := r\<rparr>"] exI [of _ s']) (auto intro: kframe_trans)
qed

lemma k_wait:
  assumes k: "krun X q d (Some n) s" and h: "sem_mbx (cb_type s h)" and n: "run s = Some n" "n \<noteq> idle_TCB"
    and timeout: "timeout \<noteq> 0"
  shows "\<exists>s'. do { s1 \<leftarrow> enq_wait s h n; rt_block s1 timeout (qstate h) } = Some s' \<and>
    krun X (q(h := ins_prio (prio_of s) n (q h), Rdy := tl (q Rdy))) (dly_wait n timeout d)
      (Some (hd (q Rdy))) s' \<and>
    top_prio (q(h := ins_prio (prio_of s) n (q h), Rdy := tl (q Rdy))) (hd (q Rdy)) s' \<and> kframe s s'"
proof -
  from k_wait_upd [OF assms, of "\<lambda>tc. tc" "mcbs s"] obtain s1 s' where s1: "enq_wait s h n = Some s1"
    "kframe s s1" and s': "rt_block (upd_tcb n (\<lambda>tc. tc) (s1\<lparr>mcbs := mcbs s\<rparr>)) timeout (qstate h) = Some s'"
    "krun X (q(h := ins_prio (prio_of s) n (q h), Rdy := tl (q Rdy))) (dly_wait n timeout d)
      (Some (hd (q Rdy))) s'"
    "top_prio (q(h := ins_prio (prio_of s) n (q h), Rdy := tl (q Rdy))) (hd (q Rdy)) s'"
    "kframe (upd_tcb n (\<lambda>tc. tc) (s\<lparr>mcbs := mcbs s\<rparr>)) s'"
    by auto
  have "upd_tcb n (\<lambda>tc. tc) (s1\<lparr>mcbs := mcbs s\<rparr>) = s1"
    using kframeD(2) [OF s1(2)] by (simp flip: kframeD(2) [OF s1(2)])
  with s1 s' show ?thesis
    by simp
qed

lemma k_block_free:
  assumes k: "krun X q d (Some n) s" and n: "run s = Some n" "n \<noteq> idle_TCB"
    and timeout: "timeout \<noteq> 0" and st: "st \<notin> {READY, RUNNING, INACTIVE}"
  shows "\<exists>s'. rt_block s timeout st = Some s' \<and>
    krun X (q(Rdy := tl (q Rdy))) (dly_wait n timeout d) (Some (hd (q Rdy))) s' \<and>
    top_prio (q(Rdy := tl (q Rdy))) (hd (q Rdy)) s' \<and> kframe s s' \<and>
    tcbs s' = tcbs (set_state (hd (q Rdy)) RUNNING (set_state n st s))"
proof -
  note D = krunD [OF k] and R = krun_run_unqueued [OF k]
  from put_dly_wait [OF D(2) R(2), of timeout] obtain dl bl de where
    op: "(if timeout < 0xffff then rt_put_dly s n timeout else Some s) =
      Some (s\<lparr>p_dlnk := dl, p_blnk := bl, delta_time := de\<rparr>)" and
    dly: "dly_inv (dly_wait n timeout d) (s\<lparr>p_dlnk := dl, p_blnk := bl, delta_time := de\<rparr>)"
    by blast
  have "krun X q (dly_wait n timeout d) None
      (set_state n st (s\<lparr>p_dlnk := dl, p_blnk := bl, delta_time := de\<rparr>))"
    by (rule krun_blocked [OF k _ _ timeout st n(2)]) (use D(1) dly in auto)
  from k_blocked_dispatch [OF this op timeout n(1)] show ?thesis .
qed

text \<open>The priority of a task changes, and the list it is in is sorted again.\<close>

lemma k_set_prio_run:
  assumes k: "krun X q d (Some n) s"
  shows "krun X q d (Some n) (set_prio n p s)"
proof -
  note D = krunD [OF k] and R = krun_run_unqueued [OF k]
  have "prio_sorted (prio_of (set_prio n p s)) (q h) = prio_sorted (prio_of s) (q h)"
    if "live s h" for h
    using R(1) that by (intro prio_sorted_cong) (auto simp: unqueued_def)
  then show ?thesis
    using k unfolding krun_def kbase_def by auto
qed

definition resort_q :: "(nat \<Rightarrow> u8) \<Rightarrow> nat \<Rightarrow> (ptr \<Rightarrow> nat list) \<Rightarrow> ptr \<Rightarrow> nat list" where
  "resort_q pr t q h = (if t \<in> set (q h) then ins_prio pr t (remove1 t (q h)) else q h)"

lemma set_resort_q [simp]: "distinct (q h) \<Longrightarrow> set (resort_q pr t q h) = set (q h)"
  by (auto simp: resort_q_def)

lemma k_resort:
  assumes k: "krun X q d N s" and t: "t \<notin> X"
  shows "\<exists>s'. rt_resort_prio (set_prio t p s) t = Some s' \<and>
    krun X (resort_q ((prio_of s)(t := p)) t q) d N s' \<and> kframe (set_prio t p s) s' \<and>
    tcbs s' = tcbs (set_prio t p s)"
proof -
  let ?s = "set_prio t p s" and ?pr = "(prio_of s)(t := p)"
  note D = krunD [OF k]
  have pr: "prio_of ?s = ?pr" and inv: "lists_inv X q ?s"
    using D(1) by auto
  have "\<exists>l r. rt_resort_prio ?s t = Some (?s\<lparr>p_lnk := l, p_rlnk := r\<rparr>) \<and>
      lists_inv X (resort_q ?pr t q) (?s\<lparr>p_lnk := l, p_rlnk := r\<rparr>)"
  proof (cases "unqueued q s t")
    case True
    then have "state_of ?s t \<noteq> READY"
      using D(7) [OF t] by (auto simp: unqueued_def)
    then have "rt_resort_prio ?s t = Some ?s"
      using rt_resort_prio_unqueued [OF inv _ t] True by (simp add: unqueued_def)
    moreover have "lists_inv X (resort_q ?pr t q) ?s"
      by (rule lists_inv_congD [OF _ inv]) (use True in \<open>auto simp: resort_q_def unqueued_def\<close>)
    ultimately show ?thesis
      by (intro exI [of _ "p_lnk ?s"] exI [of _ "p_rlnk ?s"]) simp
  next
    case False
    then obtain h where h: "live s h" "t \<in> set (q h)"
      by (auto simp: unqueued_def)
    have "live ?s h" and "h = Rdy \<Longrightarrow> state_of ?s t = READY"
      using h D(5) [of Rdy t] by auto
    from rt_resort_prio_refines [OF inv this(1) h(2) t this(2)] obtain l r where
      op: "rt_resort_prio ?s t = Some (?s\<lparr>p_lnk := l, p_rlnk := r\<rparr>)" and
      inv': "lists_inv X (q(h := ins_prio ?pr t (remove1 t (q h)))) (?s\<lparr>p_lnk := l, p_rlnk := r\<rparr>)"
      unfolding pr by blast
    have "lists_inv X (resort_q ?pr t q) (?s\<lparr>p_lnk := l, p_rlnk := r\<rparr>)"
      by (rule lists_inv_congD [OF _ inv'])
        (use h lists_invD(7) [OF D(1) _ h(1)] in \<open>auto simp: resort_q_def\<close>)
    with op show ?thesis
      by blast
  qed
  then obtain l r where op: "rt_resort_prio ?s t = Some (?s\<lparr>p_lnk := l, p_rlnk := r\<rparr>)" and
    inv': "lists_inv X (resort_q ?pr t q) (?s\<lparr>p_lnk := l, p_rlnk := r\<rparr>)"
    by blast
  have set_q: "set (resort_q ?pr t q h) = set (q h)" if "live s h" for h
    using lists_invD(4) [OF D(1) that] by simp
  have "krun X (resort_q ?pr t q) d N (?s\<lparr>p_lnk := l, p_rlnk := r\<rparr>)"
  proof (rule krunI, goal_cases)
    case (4 h)
    then have h: "live s h"
      by simp
    have "prio_sorted ?pr (remove1 t (q h)) = prio_sorted (prio_of s) (remove1 t (q h))"
      using lists_invD(4) [OF D(1) h] by (intro prio_sorted_cong) auto
    moreover have "t \<notin> set (q h) \<Longrightarrow> prio_sorted ?pr (q h) = prio_sorted (prio_of s) (q h)"
      by (intro prio_sorted_cong) auto
    ultimately have "prio_sorted ?pr (resort_q ?pr t q h)"
      using D(4) [OF h] by (simp add: resort_q_def prio_sorted_ins_prio prio_sorted_remove1)
    then show ?case
      by (simp add: pr [symmetric])
  next
    case (5 h u)
    then show ?case
      using D(5) [of h u] set_q [of h] by auto
  next
    case (6 h u)
    then show ?case
      using D(6) [of h u] set_q [of h] by simp
  next
    case (7 u)
    then show ?case
      using D(7) [of u] set_q [of Rdy] by (auto split: if_splits)
  next
    case (8 u)
    then show ?case
      using D(8) [of u] by auto
  next
    case (10 u)
    then show ?case
      using D(10) [of u] by auto
  qed (use inv' D(2,3,9,11-13) set_q [of Rdy] in simp_all)
  with op show ?thesis
    by (auto simp: kframe_def)
qed

text \<open>
  The interrupt handlers of the kernel park the running task at the head of the ready list and
  switch to the first ready task when they are done.
\<close>

lemma k_park:
  assumes k: "krun X q d (Some n) s" and top: "top_prio q n s"
  shows "krun X (q(Rdy := n # q Rdy)) d None (rt_put_rdy_first (set_state n READY s) n)"
    and "kframe s (rt_put_rdy_first (set_state n READY s) n)"
proof -
  note D = krunD [OF k] and R = krun_run_unqueued [OF k]
  let ?s0 = "set_state n READY s"
  have "lists_inv X q ?s0" and uq: "unqueued q ?s0 n"
    using D(1) R(1) by (simp_all add: unqueued_def)
  from rt_put_rdy_first_refines [OF this] obtain l r where
    op: "rt_put_rdy_first ?s0 n = ?s0\<lparr>p_lnk := l, p_rlnk := r\<rparr>" and
    inv: "lists_inv (X - {n}) (q(Rdy := n # q Rdy)) (?s0\<lparr>p_lnk := l, p_rlnk := r\<rparr>)"
    by blast
  let ?s = "?s0\<lparr>p_lnk := l, p_rlnk := r\<rparr>"
  have inv': "lists_inv X (q(Rdy := n # q Rdy)) ?s"
    using inv by (rule lists_inv_mono) auto
  have pr: "prio_of ?s = prio_of s"
    by auto
  have "krun X (q(Rdy := n # q Rdy)) d None ?s"
  proof (rule krunI, goal_cases)
    case (4 h)
    show ?case
      unfolding pr using 4 D(4) [of h] D(4) [OF live_Rdy] top by (auto simp: top_prio_def)
  next
    case (5 h u)
    then show ?case
      using D(5) [of h u] D(5) [OF live_Rdy, of u] R(1) by (auto simp: unqueued_def split: if_splits)
  next
    case (6 h u)
    then show ?case
      using D(6) [of h u] D(6) [OF live_Rdy, of u] R(3) by (auto split: if_splits)
  next
    case (7 u)
    then show ?case
      using D(7) [of u] by (auto split: if_splits)
  next
    case (8 u)
    then show ?case
      using D(8) [of u] R(2) by auto
  next
    case (10 u)
    then show ?case
      using D(10) [of u] by auto
  qed (use inv' D(2,3,9,13) in \<open>auto simp: dly_inv_def\<close>)
  then show "krun X (q(Rdy := n # q Rdy)) d None (rt_put_rdy_first (set_state n READY s) n)"
    unfolding op .
  show "kframe s (rt_put_rdy_first (set_state n READY s) n)"
    unfolding op by (simp add: kframe_def)
qed

lemma dispatch_none_eq:
  "rt_dispatch s None = do { (t, s1) \<leftarrow> rt_get_first s Rdy; Some (rt_switch_req s1 t) }"
  by (simp add: rt_dispatch_def)

end
