(* ===== verification/Rtx_Semaphore.thy ===== *)
theory Rtx_Semaphore
  imports Rtx_Task
begin

text \<open>
  Semaphores (\<open>rt_Semaphore.c\<close>) and the code their deletion shares with that of mutexes: waking
  all waiting tasks and letting a ready task of higher priority take over.

  A semaphore is \<open>sem_ok\<close> when tasks wait on it only while it has no token; every operation
  keeps this, the scheduler's invariant and the priority rule.
\<close>

section \<open>The operations\<close>

definition rt_ret_val :: "nat \<Rightarrow> u32 \<Rightarrow> kernel \<Rightarrow> kernel" where
  "rt_ret_val t v0 s = upd_tcb t (ret0_update (\<lambda>_. v0)) s"

definition rt_ret_val2 :: "nat \<Rightarrow> u32 \<Rightarrow> u32 \<Rightarrow> kernel \<Rightarrow> kernel" where
  "rt_ret_val2 t v0 v1 s = upd_tcb t (ret1_update (\<lambda>_. v1)) (upd_tcb t (ret0_update (\<lambda>_. v0)) s)"

text \<open>The loop of \<open>rt_sem_delete\<close> and \<open>rt_mut_delete\<close>, and the preemption after it.\<close>

partial_function (option) release_all :: "kernel \<Rightarrow> ptr \<Rightarrow> kernel option" where
  "release_all s h =
     (if p_lnk s h = None then Some s
      else do {
        (t, s1) \<leftarrow> rt_get_first s h;
        s2 \<leftarrow> rt_put_prio (set_state t READY (rt_rmv_dly (rt_ret_val t 0 s1) t)) Rdy t;
        release_all s2 h
      })"

definition preempt :: "kernel \<Rightarrow> kernel option" where
  "preempt s = (case p_lnk s Rdy of
      None \<Rightarrow> Some s
    | Some u \<Rightarrow> do {
        r \<leftarrow> run s;
        if prio_of s r < prio_of s u then give_way s r else Some s
      })"

definition rt_sem_init :: "kernel \<Rightarrow> nat \<Rightarrow> u16 \<Rightarrow> kernel" where
  "rt_sem_init s i token_count =
     s\<lparr>cb_type := (cb_type s)(Sem i := SCB), p_lnk := (p_lnk s)(Sem i := None),
       scbs := (scbs s)(i := (scbs s i)\<lparr>tokens := token_count\<rparr>)\<rparr>"

text \<open>A deleted block has the type 0, which is that of a task control block (\<open>TCB\<close>).\<close>

definition rt_sem_delete :: "kernel \<Rightarrow> nat \<Rightarrow> (os_result \<times> kernel) option" where
  "rt_sem_delete s i = do {
     s1 \<leftarrow> release_all s (Sem i);
     s2 \<leftarrow> preempt s1;
     Some (OS_R_OK, s2\<lparr>cb_type := (cb_type s2)(Sem i := TCB)\<rparr>)
   }"

definition rt_sem_send :: "kernel \<Rightarrow> nat \<Rightarrow> (os_result \<times> kernel) option" where
  "rt_sem_send s i =
     (if p_lnk s (Sem i) \<noteq> None
      then do {
        (t, s1) \<leftarrow> rt_get_first s (Sem i);
        s2 \<leftarrow> rt_dispatch (rt_rmv_dly (rt_ret_val t 1 s1) t) (Some t);
        Some (OS_R_OK, s2)
      }
      else Some (OS_R_OK, s\<lparr>scbs := (scbs s)(i := (scbs s i)\<lparr>tokens := tokens (scbs s i) + 1\<rparr>)\<rparr>))"

definition rt_sem_wait :: "kernel \<Rightarrow> nat \<Rightarrow> u16 \<Rightarrow> (os_result \<times> kernel) option" where
  "rt_sem_wait s i timeout =
     (if tokens (scbs s i) \<noteq> 0
      then Some (OS_R_OK, s\<lparr>scbs := (scbs s)(i := (scbs s i)\<lparr>tokens := tokens (scbs s i) - 1\<rparr>)\<rparr>)
      else if timeout = 0 then Some (OS_R_TMO, s)
      else do {
        r \<leftarrow> run s;
        s1 \<leftarrow> enq_wait s (Sem i) r;
        s2 \<leftarrow> rt_block s1 timeout WAIT_SEM;
        Some (OS_R_TMO, s2)
      })"

definition rt_sem_psh :: "kernel \<Rightarrow> nat \<Rightarrow> kernel option" where
  "rt_sem_psh s i =
     (if p_lnk s (Sem i) \<noteq> None
      then do {
        (t, s1) \<leftarrow> rt_get_first s (Sem i);
        rt_put_prio (rt_ret_val t 1 (set_state t READY (rt_rmv_dly s1 t))) Rdy t
      }
      else Some (s\<lparr>scbs := (scbs s)(i := (scbs s i)\<lparr>tokens := tokens (scbs s i) + 1\<rparr>)\<rparr>))"

section \<open>Waking all waiting tasks\<close>

text \<open>A service's contract: it does not fault and keeps the scheduler's invariant.\<close>

definition sched :: "nat set \<Rightarrow> (ptr \<Rightarrow> nat list) \<Rightarrow> (nat \<times> nat) list \<Rightarrow> nat \<Rightarrow> kernel \<Rightarrow> bool" where
  "sched X q d n s \<longleftrightarrow> krun X q d (Some n) s \<and> top_prio q n s"

lemma krun_ret_val [simp]:
  "krun X q d N (rt_ret_val t v s) = krun X q d N s"
  "krun X q d N (rt_ret_val2 t v w s) = krun X q d N s"
  by (simp_all add: rt_ret_val_def rt_ret_val2_def krun_tcbs)

lemma rt_ret_val_simps [simp]:
  "run (rt_ret_val t v s) = run s" "live (rt_ret_val t v s) = live s"
  "prio_of (rt_ret_val t v s) = prio_of s" "prio_of (rt_ret_val t v s) u = prio_of s u" "cb_type (rt_ret_val t v s) = cb_type s"
  "p_lnk (rt_ret_val t v s) = p_lnk s" "unqueued q (rt_ret_val t v s) = unqueued q s"
  "mem (rt_ret_val t v s) = mem s" "new_tsk (rt_ret_val t v s) = new_tsk s" "scbs (rt_ret_val t v s) = scbs s"
  "mcbs (rt_ret_val t v s) = mcbs s" "mucbs (rt_ret_val t v s) = mucbs s"
  by (auto simp: rt_ret_val_def unqueued_def fun_eq_iff live_def)

lemma krun_lnk_None: "krun X q d N s \<Longrightarrow> live s h \<Longrightarrow> p_lnk s h = None \<longleftrightarrow> q h = []"
  using lists_invD(2) [OF krunD(1), of X q d N s h] by (cases "q h") auto

lemma rt_rmv_dly_ret_val: "rt_rmv_dly (rt_ret_val t v s) u = rt_ret_val t v (rt_rmv_dly s u)"
  by (auto simp: rt_rmv_dly_def rt_ret_val_def Let_def split: option.split)

lemma rt_rmv_dly_ret_val2: "rt_rmv_dly (rt_ret_val2 t v w s) u = rt_ret_val2 t v w (rt_rmv_dly s u)"
  by (auto simp: rt_rmv_dly_def rt_ret_val2_def Let_def split: option.split)

lemma kframe_ret_val [intro]: "kframe s s' \<Longrightarrow> kframe (rt_ret_val t v s) (rt_ret_val t v s')"
  by (simp add: kframe_def rt_ret_val_def tcb_but_state)

text \<open>The first task of a waiting list is taken off it, and its timeout is cancelled.\<close>

lemma k_wake:
  assumes k: "krun X q d N s" and h: "live s h" "h \<noteq> Rdy" and q: "q h = t # ts"
  shows "\<exists>s1. rt_get_first s h = Some (t, s1) \<and> kframe s s1 \<and> kframe s (rt_rmv_dly s1 t) \<and>
    krun X (q(h := ts)) (rmv_dly t d) N (rt_rmv_dly s1 t) \<and>
    unqueued (q(h := ts)) (rt_rmv_dly s1 t) t \<and> t \<notin> fst ` set (rmv_dly t d) \<and> t \<notin> X \<and> N \<noteq> Some t \<and>
    tcbs (rt_rmv_dly s1 t) = tcbs s \<and> tcbs s1 = tcbs s"
proof -
  from k_get_first [OF assms] obtain s1 where s1: "rt_get_first s h = Some (t, s1)"
    "krun X (q(h := ts)) d N s1" "unqueued (q(h := ts)) s1 t" "tcbs s1 = tcbs s" "kframe s s1"
    "t \<notin> X" "N \<noteq> Some t" by blast
  note R = k_rmv_dly [OF s1(2), of t]
  have "t \<notin> fst ` set (rmv_dly t d)"
    by auto
  with s1 R show ?thesis
    by (intro exI [of _ s1]) (auto intro: kframe_trans)
qed

lemma k_wake_ready:
  assumes k: "krun X q d N s" and t: "unqueued q s t" "t \<notin> fst ` set d" "t \<notin> X" "N \<noteq> Some t"
  shows "\<exists>s'. rt_put_prio (set_state t READY (rt_ret_val t v s)) Rdy t = Some s' \<and>
    krun X (q(Rdy := ins_prio (prio_of s) t (q Rdy))) d N s' \<and> kframe (rt_ret_val t v s) s'"
  using k_make_ready(1) [of X q d N "rt_ret_val t v s" t] assms by (auto simp: stop_def)

text \<open>Waking all tasks of a list in turn.\<close>

fun ready_q :: "(nat \<Rightarrow> u8) \<Rightarrow> nat list \<Rightarrow> (ptr \<Rightarrow> nat list) \<Rightarrow> ptr \<Rightarrow> nat list" where
  "ready_q pr [] q = q"
| "ready_q pr (t # ts) q = ready_q pr ts (q(Rdy := ins_prio pr t (q Rdy)))"

lemma ready_q_other [simp]: "h \<noteq> Rdy \<Longrightarrow> ready_q pr ts q h = q h"
  by (induction ts arbitrary: q) auto

lemma set_ready_q [simp]: "set (ready_q pr ts q Rdy) = set ts \<union> set (q Rdy)"
  by (induction ts arbitrary: q) auto

fun cancel_all :: "nat list \<Rightarrow> (nat \<times> nat) list \<Rightarrow> (nat \<times> nat) list" where
  "cancel_all [] d = d"
| "cancel_all (t # ts) d = cancel_all ts (rmv_dly t d)"

definition ret_all :: "nat list \<Rightarrow> kernel \<Rightarrow> kernel" where
  "ret_all ts s = s\<lparr>tcbs := (\<lambda>t. if t \<in> set ts then (tcbs s t)\<lparr>ret0 := 0\<rparr> else tcbs s t)\<rparr>"

lemma ret_all_simps [simp]: "ret_all [] s = s"
  by (simp add: ret_all_def)

lemma kframe_ret_all [intro]: "kframe s s' \<Longrightarrow> kframe (ret_all ts s) (ret_all ts s')"
  by (simp add: kframe_def ret_all_def tcb_but_state)

lemma release_all_refines:
  assumes "krun X q d N s" and "live s h" "h \<noteq> Rdy" and "q h = ts"
  shows "\<exists>s'. release_all s h = Some s' \<and>
    krun X (ready_q (prio_of s) ts (q(h := []))) (cancel_all ts d) N s' \<and> kframe (ret_all ts s) s'"
  using assms
proof (induction ts arbitrary: s q d)
  case Nil
  then have "release_all s h = Some s"
    by (simp add: release_all.simps krun_lnk_None)
  with Nil show ?case
    by (intro exI [of _ s]) (simp add: fun_upd_idem)
next
  case (Cons t ts)
  from k_wake [OF Cons.prems] obtain s1 where s1: "rt_get_first s h = Some (t, s1)"
    "kframe s (rt_rmv_dly s1 t)" "krun X (q(h := ts)) (rmv_dly t d) N (rt_rmv_dly s1 t)"
    "unqueued (q(h := ts)) (rt_rmv_dly s1 t) t" "t \<notin> fst ` set (rmv_dly t d)" "t \<notin> X" "N \<noteq> Some t"
    by blast
  let ?q = "(q(h := ts))(Rdy := ins_prio (prio_of s) t (q Rdy))"
  have pr: "prio_of (rt_rmv_dly s1 t) = prio_of s"
    using kframeD(12) [OF s1(2)] .
  from k_wake_ready [OF s1(3-7), of 0] Cons.prems(3) obtain s2 where s2:
    "rt_put_prio (set_state t READY (rt_ret_val t 0 (rt_rmv_dly s1 t))) Rdy t = Some s2"
    "krun X ?q (rmv_dly t d) N s2" "kframe (rt_ret_val t 0 (rt_rmv_dly s1 t)) s2"
    unfolding pr by auto
  have fr: "kframe (rt_ret_val t 0 s) s2"
    using kframe_ret_val [OF s1(2)] s2(3) by (rule kframe_trans)
  have pr2: "prio_of s2 = prio_of s" and live: "live s2 h"
    using kframeD(12,13) [OF fr] Cons.prems(2) by simp_all
  have "?q h = ts"
    using Cons.prems(3) by simp
  from Cons.IH [OF s2(2) live Cons.prems(3) this] obtain s' where s':
    "release_all s2 h = Some s'"
    "krun X (ready_q (prio_of s) ts (?q(h := []))) (cancel_all ts (rmv_dly t d)) N s'"
    "kframe (ret_all ts s2) s'"
    unfolding pr2 by blast
  have "release_all s h = Some s'"
    using krun_lnk_None [OF Cons.prems(1,2)] Cons.prems(4) s1(1) s2(1) s'(1)
    by (auto simp: release_all.simps [of s] rt_rmv_dly_ret_val)
  moreover have "?q(h := []) = (q(h := []))(Rdy := ins_prio (prio_of s) t ((q(h := [])) Rdy))"
    using Cons.prems(3) by auto
  moreover have "kframe (ret_all (t # ts) s) (ret_all ts s2)"
    using fr by (auto simp: kframe_def ret_all_def rt_ret_val_def tcb_but_state)
  then have "kframe (ret_all (t # ts) s) s'"
    using s'(3) by (rule kframe_trans)
  ultimately show ?case
    using s'(2) by (intro exI [of _ s']) (simp only: ready_q.simps cancel_all.simps simp_thms)
qed

section \<open>The operations keep the scheduler's invariant\<close>

lemma preempt_sched:
  assumes k: "krun X q d (Some n) s" and n: "run s = Some n"
  shows "\<exists>s' q' n'. preempt s = Some s' \<and> sched X q' d n' s' \<and> kframe s s' \<and>
    (\<forall>h. h \<noteq> Rdy \<longrightarrow> q' h = q h) \<and> insert n' (set (q' Rdy)) = insert n (set (q Rdy))"
proof (cases "q Rdy")
  case Nil
  then have "preempt s = Some s"
    using krun_lnk_None [OF k, of Rdy] by (simp add: preempt_def)
  with k Nil show ?thesis
    by (intro exI [of _ s] exI [of _ q] exI [of _ n]) (simp add: sched_def top_prio_def)
next
  case (Cons u us)
  have l: "p_lnk s Rdy = Some u"
    using lists_invD(2) [OF krunD(1) [OF k] live_Rdy] Cons by simp
  show ?thesis
  proof (cases "prio_of s n < prio_of s u")
    case True
    then have "preempt s = give_way s n"
      using n l by (simp add: preempt_def)
    with k_give_way [OF k] obtain s' where "preempt s = Some s'" "kframe s s'"
      "krun X (q(Rdy := tl (ins_prio (prio_of s) n (q Rdy)))) d
        (Some (hd (ins_prio (prio_of s) n (q Rdy)))) s'"
      "top_prio (q(Rdy := tl (ins_prio (prio_of s) n (q Rdy)))) (hd (ins_prio (prio_of s) n (q Rdy))) s'"
      by auto
    moreover have "insert (hd (ins_prio (prio_of s) n (q Rdy))) (set (tl (ins_prio (prio_of s) n (q Rdy)))) =
        insert n (set (q Rdy))"
      by (metis ins_prio_neq_Nil list.exhaust_sel list.simps(15) set_ins_prio)
    ultimately show ?thesis
      unfolding sched_def by (intro exI conjI) (assumption | simp)+
  next
    case False
    then have "preempt s = Some s"
      using n l by (simp add: preempt_def)
    moreover have "top_prio q n s"
      using krunD(4) [OF k live_Rdy] False Cons unfolding top_prio_def by auto
    ultimately show ?thesis
      using k by (intro exI [of _ s] exI [of _ q] exI [of _ n]) (simp add: sched_def)
  qed
qed

lemma lists_inv_dead:
  assumes "lists_inv X q s" and "sem_mbx (cb_type s h)" and "q h = []"
  shows "lists_inv X q (s\<lparr>cb_type := (cb_type s)(h := TCB)\<rparr>)"
proof -
  have "h \<noteq> Rdy" "h \<noteq> Dly" and cb: "cb_ok s"
    using assms lists_invD(1) [OF assms(1)] by (auto simp: cb_ok_def)
  moreover have "t \<notin> X \<Longrightarrow> (\<forall>h'. h' \<noteq> h \<longrightarrow> sem_mbx (cb_type s h') \<longrightarrow> t \<notin> set (q h')) \<Longrightarrow>
      p_rlnk s (Task t) = None" for t
    using lists_invD(6) [OF assms(1), of t] assms(3) by (metis empty_iff list.set(1))
  ultimately show ?thesis
    using assms unfolding lists_inv_def cb_ok_def live_def by auto
qed

lemma krun_delete:
  assumes k: "krun X q d N s" and h: "sem_mbx (cb_type s h)" and q: "q h = []"
  shows "krun X q d N (s\<lparr>cb_type := (cb_type s)(h := TCB)\<rparr>)"
proof (rule krunI)
  note D = krunD [OF k]
  let ?s = "s\<lparr>cb_type := (cb_type s)(h := TCB)\<rparr>"
  have live: "live ?s h' \<Longrightarrow> live s h'" for h'
    by (auto simp: live_def split: if_splits)
  show "lists_inv X q ?s"
    using D(1) h q by (rule lists_inv_dead)
  show "prio_sorted (prio_of ?s) (q h')" if "live ?s h'" for h'
    using D(4) [OF live [OF that]] by simp
  show "state_of ?s t = qstate h'" if "live ?s h'" "t \<in> set (q h')" for h' t
    using D(5) [OF live [OF that(1)] that(2)] by simp
  show "t \<notin> X" if "live ?s h'" "t \<in> set (q h')" for h' t
    using D(6) [OF live [OF that(1)] that(2)] .
qed (use krunD [OF k] in simp_all)

lemma top_prio_fields [simp]:
  "top_prio q n (s\<lparr>cb_type := c\<rparr>) = top_prio q n s" "top_prio q n (s\<lparr>scbs := e\<rparr>) = top_prio q n s"
  "top_prio q n (s\<lparr>mcbs := f\<rparr>) = top_prio q n s" "top_prio q n (s\<lparr>mucbs := g\<rparr>) = top_prio q n s"
  "top_prio q n (s\<lparr>run := rn\<rparr>) = top_prio q n s"
  "top_prio q n (s\<lparr>os_active_TCB := ac\<rparr>) = top_prio q n s"
  "top_prio q n (s\<lparr>os_time := tm\<rparr>) = top_prio q n s"
  "top_prio q n (s\<lparr>robin_task := rt\<rparr>) = top_prio q n s"
  "top_prio q n (s\<lparr>robin_time := ti\<rparr>) = top_prio q n s"
  "top_prio q n (s\<lparr>os_psq := pq\<rparr>) = top_prio q n s"
  "top_prio q n (s\<lparr>mem := mm\<rparr>) = top_prio q n s"
  "top_prio q n (rt_ret_val t v s) = top_prio q n s"
  by (auto simp: top_prio_def rt_ret_val_def)

lemma sched_fields [simp]:
  "sched X q d n (s\<lparr>scbs := e\<rparr>) = sched X q d n s" "sched X q d n (s\<lparr>mcbs := f\<rparr>) = sched X q d n s"
  "sched X q d n (s\<lparr>mucbs := g\<rparr>) = sched X q d n s" "sched X q d n (s\<lparr>run := rn\<rparr>) = sched X q d n s"
  "sched X q d n (s\<lparr>os_active_TCB := ac\<rparr>) = sched X q d n s"
  "sched X q d n (s\<lparr>os_time := tm\<rparr>) = sched X q d n s"
  "sched X q d n (s\<lparr>robin_task := rt\<rparr>) = sched X q d n s"
  "sched X q d n (s\<lparr>robin_time := ti\<rparr>) = sched X q d n s"
  "sched X q d n (s\<lparr>os_psq := pq\<rparr>) = sched X q d n s"
  "sched X q d n (s\<lparr>mem := mm\<rparr>) = sched X q d n s"
  "sched X q d n (rt_ret_val t v s) = sched X q d n s"
  by (simp_all add: sched_def)

text \<open>
  What a service does to a woken task between taking it off the waiting list and dispatching it
  (return values, the message of a mailbox) is an update \<open>F\<close> that does not concern the scheduler.
\<close>

locale aside =
  fixes F :: "kernel \<Rightarrow> kernel"
  assumes krun_F: "krun X q d N (F s) = krun X q d N s"
    and run_F: "run (F s) = run s"
    and prio_F: "prio_of (F s) = prio_of s"
    and live_F: "live (F s) = live s"
    and rmv_F: "rt_rmv_dly (F s) t = F (rt_rmv_dly s t)"
    and frame_F: "kframe s s' \<Longrightarrow> kframe (F s) (F s')"
begin

lemma wake_dispatch:
  assumes k: "sched X q d n s" and h: "live s h" "h \<noteq> Rdy" and q: "q h = t # ts" and n: "run s = Some n"
  shows "\<exists>s1 s'. rt_get_first s h = Some (t, s1) \<and> tcbs s1 = tcbs s \<and> kframe s s1 \<and>
    rt_dispatch (rt_rmv_dly (F s1) t) (Some t) = Some s' \<and>
    sched X (disp_q (prio_of s) n t (q(h := ts))) (rmv_dly t d) (disp_run (prio_of s) n t) s' \<and>
    kframe (F s) s'"
proof -
  have k': "krun X q d (Some n) s" and top: "top_prio q n s"
    using k by (auto simp: sched_def)
  from k_wake [OF k' h q] obtain s1 where s1: "rt_get_first s h = Some (t, s1)"
    "kframe s (rt_rmv_dly s1 t)" "krun X (q(h := ts)) (rmv_dly t d) (Some n) (rt_rmv_dly s1 t)"
    "unqueued (q(h := ts)) (rt_rmv_dly s1 t) t" "t \<notin> fst ` set (rmv_dly t d)" "t \<notin> X" "t \<noteq> n"
    "tcbs s1 = tcbs s" "kframe s s1"
    by auto
  let ?s = "F (rt_rmv_dly s1 t)"
  have pr: "prio_of ?s = prio_of s"
    using kframeD(12) [OF s1(2)] prio_F by simp
  have "top_prio (q(h := ts)) n s"
    using top h(2) by (simp add: top_prio_def)
  then have top': "top_prio (q(h := ts)) n ?s"
    using top_prio_cong [OF pr] by blast
  have k'': "krun X (q(h := ts)) (rmv_dly t d) (Some n) ?s" and run: "run ?s = Some n"
    using s1(3) kframeD(5) [OF s1(2)] n by (simp_all add: krun_F run_F)
  have uq: "unqueued (q(h := ts)) ?s t"
    using s1(4) by (simp add: unqueued_def live_F)
  from k_dispatch_some [OF k'' top' run uq s1(5,6,7)] obtain s' where s':
    "rt_dispatch ?s (Some t) = Some s'"
    "krun X (disp_q (prio_of s) n t (q(h := ts))) (rmv_dly t d) (Some (disp_run (prio_of s) n t)) s'"
    "top_prio (disp_q (prio_of s) n t (q(h := ts))) (disp_run (prio_of s) n t) s'" "kframe ?s s'"
    unfolding pr by blast
  have "kframe (F s) s'"
    using frame_F [OF s1(2)] s'(4) by (rule kframe_trans)
  with s' s1(1,8,9) show ?thesis
    unfolding sched_def by (intro exI [of _ s1] exI [of _ s']) (simp add: rmv_F)
qed

lemma wake_ready:
  assumes k: "krun X q d N s" and h: "live s h" "h \<noteq> Rdy" and q: "q h = t # ts"
  shows "\<exists>s1 s'. rt_get_first s h = Some (t, s1) \<and> tcbs s1 = tcbs s \<and> kframe s s1 \<and>
    rt_put_prio (set_state t READY (rt_rmv_dly (F s1) t)) Rdy t = Some s' \<and>
    krun X (q(h := ts, Rdy := ins_prio (prio_of s) t (q Rdy))) (rmv_dly t d) N s' \<and> kframe (F s) s'"
proof -
  from k_wake [OF k h q] obtain s1 where s1: "rt_get_first s h = Some (t, s1)"
    "kframe s (rt_rmv_dly s1 t)" "krun X (q(h := ts)) (rmv_dly t d) N (rt_rmv_dly s1 t)"
    "unqueued (q(h := ts)) (rt_rmv_dly s1 t) t" "t \<notin> fst ` set (rmv_dly t d)" "t \<notin> X" "N \<noteq> Some t"
    "tcbs s1 = tcbs s" "kframe s s1"
    by blast
  let ?s = "F (rt_rmv_dly s1 t)"
  have pr: "prio_of ?s = prio_of s"
    using kframeD(12) [OF s1(2)] prio_F by simp
  have k'': "krun X (q(h := ts)) (rmv_dly t d) N ?s"
    using s1(3) by (simp add: krun_F)
  have uq: "unqueued (q(h := ts)) ?s t"
    using s1(4) by (simp add: unqueued_def live_F)
  from k_make_ready(1) [OF k'' uq s1(5,6)] s1(7) h(2) obtain s' where s':
    "rt_put_prio (set_state t READY ?s) Rdy t = Some s'" "kframe ?s s'"
    "krun X (q(h := ts, Rdy := ins_prio (prio_of s) t (q Rdy))) (rmv_dly t d) N s'"
    unfolding pr by (auto simp: stop_def)
  have "kframe (F s) s'"
    using frame_F [OF s1(2)] s'(2) by (rule kframe_trans)
  with s' s1(1,8,9) show ?thesis
    by (intro exI [of _ s1] exI [of _ s']) (simp add: rmv_F)
qed

end

lemma aside_comp: "aside F \<Longrightarrow> aside G \<Longrightarrow> aside (\<lambda>s. F (G s))"
  by (simp add: aside_def)

lemma rt_rmv_dly_upd_tcb: "rt_rmv_dly (upd_tcb t g s) u = upd_tcb t g (rt_rmv_dly s u)"
  by (auto simp: rt_rmv_dly_def Let_def split: option.split)

interpretation ret_val: aside "rt_ret_val t v" for t v
  by unfold_locales (auto simp: rt_rmv_dly_ret_val)

interpretation ret_val2: aside "rt_ret_val2 t v w" for t v w
  by (unfold_locales, simp_all add: rt_rmv_dly_ret_val2)
    (auto simp: rt_ret_val2_def live_def fun_eq_iff kframe_def tcb_but_state)

interpretation mcb_update: aside "\<lambda>s. s\<lparr>mcbs := (mcbs s)(i := g (mcbs s i))\<rparr>" for i g
  by unfold_locales
    (auto simp: rt_rmv_dly_def Let_def live_def fun_eq_iff kframe_def split: option.split)

text \<open>A new waiting list.\<close>

lemma krun_create:
  assumes k: "krun X q d N s" and h: "\<not> live s h" "hdr h" "h \<noteq> Dly" "sem_mbx c"
  shows "krun X (q(h := [])) d N (s\<lparr>cb_type := (cb_type s)(h := c), p_lnk := (p_lnk s)(h := None)\<rparr>)"
proof (rule krunI)
  let ?s = "s\<lparr>cb_type := (cb_type s)(h := c), p_lnk := (p_lnk s)(h := None)\<rparr>"
  note D = krunD [OF k] and L = lists_invD [OF krunD(1) [OF k]]
  have hR: "h \<noteq> Rdy"
    using h(1) by (auto simp: live_def)
  have live: "live (s\<lparr>cb_type := (cb_type s)(h := c)\<rparr>) h' \<longleftrightarrow> h' = h \<or> live s h'" for h'
    using h by (auto simp: live_def)
  have chain: "chain ((p_lnk s)(h := None)) h' (q h')" if "live s h'" for h'
    using that L(2,3) [of h'] h by (metis chain_upd_hdr)
  show "lists_inv X (q(h := [])) ?s"
    unfolding lists_inv_def
  proof (intro conjI allI impI)
    show "cb_ok ?s"
      using L(1) h hR by (auto simp: cb_ok_def)
    show "chain (p_lnk ?s) h' ((q(h := [])) h')" if "live ?s h'" for h'
      using that chain [of h'] by (auto simp: live)
    show "rchain (p_rlnk ?s) h' ((q(h := [])) h')" if "sem_mbx (cb_type ?s h')" for h'
      using that L(5) [of h'] by (auto split: if_splits)
    show "p_rlnk ?s (Task t) = None"
      if "t \<notin> X" "\<forall>h'. sem_mbx (cb_type ?s h') \<longrightarrow> t \<notin> set ((q(h := [])) h')" for t
    proof -
      have "t \<notin> set (q h')" if "sem_mbx (cb_type s h')" for h'
        using \<open>\<forall>h'. sem_mbx (cb_type ?s h') \<longrightarrow> _\<close> [rule_format, of h'] that h(1) live_sem_mbx [OF that]
        by (cases "h' = h") auto
      with L(6) [OF that(1)] show ?thesis
        by simp
    qed
    show "set ((q(h := [])) h') \<inter> set ((q(h := [])) h'') = {}"
      if "live ?s h'" "live ?s h''" "h' \<noteq> h''" for h' h''
      using that L(7) [of h' h''] by (auto simp: live)
  qed
  show "prio_sorted (prio_of ?s) ((q(h := [])) h')" if "live ?s h'" for h'
    using that D(4) [of h'] by (auto simp: live)
  show "state_of ?s t = qstate h'" if "live ?s h'" "t \<in> set ((q(h := [])) h')" for h' t
    using that D(5) [of h' t] by (auto simp: live split: if_splits)
  show "t \<notin> X" if "live ?s h'" "t \<in> set ((q(h := [])) h')" for h' t
    using that D(6) [of h' t] by (auto simp: live split: if_splits)
  show "t \<in> set ((q(h := [])) Rdy)" if "t \<notin> X" "state_of ?s t = READY" for t
    using D(7) [of t] that hR by simp
  show "N = Some idle_TCB \<or> idle_TCB \<in> set ((q(h := [])) Rdy)"
    using D(13) hR by simp
qed (use krunD [OF k] in simp_all)

section \<open>The semaphore\<close>

definition sem_ok :: "(ptr \<Rightarrow> nat list) \<Rightarrow> kernel \<Rightarrow> bool" where
  "sem_ok q s \<longleftrightarrow> (\<forall>i. cb_type s (Sem i) = SCB \<longrightarrow> q (Sem i) \<noteq> [] \<longrightarrow> tokens (scbs s i) = 0)"

lemma sem_ok_kframe:
  "sem_ok q s \<Longrightarrow> kframe s s' \<Longrightarrow> (\<And>i. q (Sem i) = [] \<Longrightarrow> q' (Sem i) = []) \<Longrightarrow> sem_ok q' s'"
  by (force simp: sem_ok_def kframe_def)

lemma rt_sem_init_krun:
  assumes "krun X q d N s" and "\<not> live s (Sem i)"
  shows "krun X (q(Sem i := [])) d N (rt_sem_init s i c)"
  using krun_create [OF assms, of SCB] by (simp add: rt_sem_init_def)

lemma rt_sem_init_sched:
  assumes "sched X q d n s" and "\<not> live s (Sem i)"
  shows "sched X (q(Sem i := [])) d n (rt_sem_init s i c)"
  using assms rt_sem_init_krun [of X q d "Some n" s i c]
  by (auto simp: sched_def top_prio_def rt_sem_init_def)

lemma rt_sem_send_empty:
  assumes "krun X q d N s" and "cb_type s (Sem i) = SCB" and "q (Sem i) = []"
  shows "rt_sem_send s i =
    Some (OS_R_OK, s\<lparr>scbs := (scbs s)(i := (scbs s i)\<lparr>tokens := tokens (scbs s i) + 1\<rparr>)\<rparr>)"
  using krun_lnk_None [OF assms(1), of "Sem i"] assms by (simp add: rt_sem_send_def live_def)

lemma rt_sem_send_waiting:
  assumes k: "sched X q d n s" and i: "cb_type s (Sem i) = SCB" and q: "q (Sem i) = t # ts"
    and n: "run s = Some n"
  shows "\<exists>s'. rt_sem_send s i = Some (OS_R_OK, s') \<and>
    sched X (disp_q (prio_of s) n t (q(Sem i := ts))) (rmv_dly t d) (disp_run (prio_of s) n t) s' \<and>
    kframe (rt_ret_val t 1 s) s'"
proof -
  have l: "live s (Sem i)"
    using i by (simp add: live_def)
  then have "p_lnk s (Sem i) \<noteq> None"
    using krun_lnk_None [of X q d "Some n" s] k q by (auto simp: sched_def)
  with ret_val.wake_dispatch [OF k l _ q n, of t 1] show ?thesis
    by (auto simp: rt_sem_send_def)
qed

lemma rt_sem_wait_token:
  "tokens (scbs s i) \<noteq> 0 \<Longrightarrow> rt_sem_wait s i timeout =
    Some (OS_R_OK, s\<lparr>scbs := (scbs s)(i := (scbs s i)\<lparr>tokens := tokens (scbs s i) - 1\<rparr>)\<rparr>)"
  by (simp add: rt_sem_wait_def)

lemma rt_sem_wait_block:
  assumes k: "sched X q d n s" and i: "cb_type s (Sem i) = SCB" "tokens (scbs s i) = 0"
    and n: "run s = Some n" "n \<noteq> idle_TCB" and timeout: "timeout \<noteq> 0"
  shows "\<exists>s'. rt_sem_wait s i timeout = Some (OS_R_TMO, s') \<and>
    sched X (q(Sem i := ins_prio (prio_of s) n (q (Sem i)), Rdy := tl (q Rdy)))
      (dly_wait n timeout d) (hd (q Rdy)) s' \<and> kframe s s'"
  using k_wait [of X q d n s "Sem i" timeout] assms
  by (auto simp: rt_sem_wait_def sched_def split: Option.bind_splits)

lemma rt_sem_psh_waiting:
  assumes k: "krun X q d N s" and i: "cb_type s (Sem i) = SCB" and q: "q (Sem i) = t # ts"
  shows "\<exists>s'. rt_sem_psh s i = Some s' \<and>
    krun X (q(Sem i := ts, Rdy := ins_prio (prio_of s) t (q Rdy))) (rmv_dly t d) N s' \<and>
    kframe (rt_ret_val t 1 s) s'"
proof -
  have l: "live s (Sem i)"
    using i by (simp add: live_def)
  have "rt_ret_val t 1 (set_state t READY (rt_rmv_dly s1 t)) =
      set_state t READY (rt_rmv_dly (rt_ret_val t 1 s1) t)" for s1
    unfolding rt_rmv_dly_ret_val by (cases "tcbs (rt_rmv_dly s1 t) t") (simp add: rt_ret_val_def)
  moreover have "p_lnk s (Sem i) \<noteq> None"
    using krun_lnk_None [OF k l] q by auto
  ultimately show ?thesis
    using ret_val.wake_ready [OF k l _ q, of t 1] by (auto simp: rt_sem_psh_def)
qed

text \<open>Deleting a semaphore or a mutex with its waiting tasks.\<close>

lemma release_preempt:
  assumes k: "krun X q d (Some n) s" and n: "run s = Some n" and h: "sem_mbx (cb_type s h)"
  shows "\<exists>s1 s2 q' n'. release_all s h = Some s1 \<and> preempt s1 = Some s2 \<and>
    sched X q' (cancel_all (q h) d) n' (s2\<lparr>cb_type := (cb_type s2)(h := TCB)\<rparr>) \<and>
    kframe (ret_all (q h) s) s2 \<and> (\<forall>h'. h' \<noteq> Rdy \<longrightarrow> q' h' = (q(h := [])) h') \<and>
    insert n' (set (q' Rdy)) = insert n (set (q Rdy) \<union> set (q h))"
proof -
  have hR: "h \<noteq> Rdy" "live s h"
    using h lists_invD(1) [OF krunD(1) [OF k]] by (auto simp: live_def cb_ok_def)
  from release_all_refines [OF k hR(2,1) refl] obtain s1 where s1: "release_all s h = Some s1"
    "krun X (ready_q (prio_of s) (q h) (q(h := []))) (cancel_all (q h) d) (Some n) s1"
    "kframe (ret_all (q h) s) s1" by blast
  have "run s1 = Some n"
    using kframeD(5) [OF s1(3)] n by (simp add: ret_all_def)
  from preempt_sched [OF s1(2) this] obtain s2 q' n' where s2: "preempt s1 = Some s2"
    "sched X q' (cancel_all (q h) d) n' s2" "kframe s1 s2"
    "\<forall>h'. h' \<noteq> Rdy \<longrightarrow> q' h' = ready_q (prio_of s) (q h) (q(h := [])) h'"
    "insert n' (set (q' Rdy)) = insert n (set (q Rdy) \<union> set (q h))"
    using hR(1) by (auto simp: Un_commute)
  have fr: "kframe (ret_all (q h) s) s2"
    using s1(3) s2(3) by (rule kframe_trans)
  have "cb_type s2 = cb_type s"
    using kframeD(4) [OF fr] by (simp add: ret_all_def)
  with s2(2,4) h hR(1) have "krun X q' (cancel_all (q h) d) (Some n') (s2\<lparr>cb_type := (cb_type s2)(h := TCB)\<rparr>)"
    using krun_delete [of X q' "cancel_all (q h) d" "Some n'" s2 h] by (simp add: sched_def)
  with s1(1) s2(1,2,4,5) fr show ?thesis
    by (intro exI [of _ s1] exI [of _ s2] exI [of _ q'] exI [of _ n']) (simp add: sched_def)
qed

lemma rt_sem_delete_sched:
  assumes k: "krun X q d (Some n) s" and n: "run s = Some n" and i: "cb_type s (Sem i) = SCB"
  shows "\<exists>s' q' n'. rt_sem_delete s i = Some (OS_R_OK, s') \<and>
    sched X q' (cancel_all (q (Sem i)) d) n' s' \<and> \<not> live s' (Sem i) \<and>
    kframe (ret_all (q (Sem i)) (s\<lparr>cb_type := (cb_type s)(Sem i := TCB)\<rparr>)) s' \<and>
    (\<forall>h. h \<noteq> Rdy \<longrightarrow> q' h = (q(Sem i := [])) h) \<and>
    insert n' (set (q' Rdy)) = insert n (set (q Rdy) \<union> set (q (Sem i)))"
proof -
  have "sem_mbx (cb_type s (Sem i))"
    using i by simp
  from release_preempt [OF k n this] obtain s1 s2 q' n' where r:
    "release_all s (Sem i) = Some s1" "preempt s1 = Some s2"
    "sched X q' (cancel_all (q (Sem i)) d) n' (s2\<lparr>cb_type := (cb_type s2)(Sem i := TCB)\<rparr>)"
    "kframe (ret_all (q (Sem i)) s) s2" "\<forall>h'. h' \<noteq> Rdy \<longrightarrow> q' h' = (q(Sem i := [])) h'"
    "insert n' (set (q' Rdy)) = insert n (set (q Rdy) \<union> set (q (Sem i)))"
    by blast
  let ?s = "s2\<lparr>cb_type := (cb_type s2)(Sem i := TCB)\<rparr>"
  have "rt_sem_delete s i = Some (OS_R_OK, ?s)"
    using r(1,2) by (simp add: rt_sem_delete_def)
  moreover have "kframe (ret_all (q (Sem i)) (s\<lparr>cb_type := (cb_type s)(Sem i := TCB)\<rparr>)) ?s"
    using r(4) by (simp add: kframe_def ret_all_def tcb_but_state)
  moreover have "\<not> live ?s (Sem i)"
    by (simp add: live_def)
  ultimately show ?thesis
    using r(3,5,6) by blast
qed

end
