(* ===== verification/Rtx_MemBox.thy ===== *)
theory Rtx_MemBox
  imports Rtx_State
begin

text \<open>
  Memory pools of blocks of one size (\<open>rt_MemBox.c\<close>), on a memory of 32-bit words: the free
  blocks are linked through their first words, the pool's header \<open>OS_BM\<close> holds the first free
  block, the end of the pool and the block size at the offsets 0, 4 and 8.

  \<open>pool m b ps\<close> says that the free blocks of the pool \<open>b\<close> are \<open>ps\<close>. Initialisation is shown to carve the
  area behind the header into adjacent blocks that stay inside it, allocation to take the first
  free block, and freeing to put a block back.
\<close>

unbundle bit_operations_syntax

type_synonym memory = "u32 \<Rightarrow> u32"

section \<open>The operations\<close>

definition BOX_ALIGN_8 :: u32 where
  "BOX_ALIGN_8 = 0x80000000"

text \<open>The block size and the size of the header after rounding.\<close>

definition box_layout :: "u32 \<Rightarrow> u32 \<times> u32" where
  "box_layout blk_size =
     (if blk_size AND BOX_ALIGN_8 \<noteq> 0
      then (((blk_size AND NOT BOX_ALIGN_8) + 7) AND NOT 7, (12 + 7) AND NOT 7)
      else ((blk_size + 3) AND NOT 3, 12))"

text \<open>The loop that links the blocks; \<open>lim\<close> is the last address at which a block fits.\<close>

partial_function (option) link_blocks :: "memory \<Rightarrow> u32 \<Rightarrow> u32 \<Rightarrow> u32 \<Rightarrow> memory option" where
  "link_blocks m blk blk_size lim =
     (if lim < blk + blk_size then Some (m(blk := 0))
      else link_blocks (m(blk := blk + blk_size)) (blk + blk_size) blk_size lim)"

definition init_box :: "memory \<Rightarrow> u32 \<Rightarrow> u32 \<Rightarrow> u32 \<Rightarrow> (u32 \<times> memory) option" where
  "init_box m box_mem box_size blk_size0 =
     (let (blk_size, sizeof_bm) = box_layout blk_size0
      in if blk_size = 0 then Some (1, m)
         else if box_size < blk_size + sizeof_bm then Some (1, m)
         else
           let blk = box_mem + sizeof_bm;
               m1 = m(box_mem := blk, box_mem + 4 := box_mem + box_size, box_mem + 8 := blk_size)
           in map_option (\<lambda>m2. (0, m2)) (link_blocks m1 blk blk_size (box_mem + box_size - blk_size)))"

definition rt_alloc_box :: "memory \<Rightarrow> u32 \<Rightarrow> u32 \<times> memory" where
  "rt_alloc_box m box_mem =
     (let free = m box_mem in if free \<noteq> 0 then (free, m(box_mem := m free)) else (free, m))"

partial_function (option) zero_words :: "memory \<Rightarrow> u32 \<Rightarrow> u32 \<Rightarrow> memory option" where
  "zero_words m p i = (if i = 0 then Some m else zero_words (m(p := 0)) (p + 4) (i - 4))"

definition calloc_box :: "memory \<Rightarrow> u32 \<Rightarrow> (u32 \<times> memory) option" where
  "calloc_box m box_mem =
     (let (free, m1) = rt_alloc_box m box_mem
      in if free \<noteq> 0 then map_option (\<lambda>m2. (free, m2)) (zero_words m1 free (m1 (box_mem + 8)))
         else Some (free, m1))"

definition rt_free_box :: "memory \<Rightarrow> u32 \<Rightarrow> u32 \<Rightarrow> u32 \<times> memory" where
  "rt_free_box m box_mem box =
     (if box < box_mem \<or> m (box_mem + 4) \<le> box then (1, m)
      else let m1 = m(box := m box_mem) in (0, m1(box_mem := box)))"

section \<open>The free list\<close>

fun free_list :: "memory \<Rightarrow> u32 \<Rightarrow> u32 list \<Rightarrow> bool" where
  "free_list m p [] = (p = 0)"
| "free_list m p (b # bs) = (p = b \<and> b \<noteq> 0 \<and> free_list m (m b) bs)"

definition pool :: "memory \<Rightarrow> u32 \<Rightarrow> u32 list \<Rightarrow> bool" where
  "pool m b ps \<longleftrightarrow> free_list m (m b) ps \<and> distinct ps \<and> set ps \<inter> {b, b + 4, b + 8} = {}"

lemma free_list_upd [simp]: "x \<notin> set ps \<Longrightarrow> free_list (m(x := v)) p ps = free_list m p ps"
  by (induction ps arbitrary: p) auto

lemma hdr_ne [simp]: "b \<noteq> b + 4" "b \<noteq> b + 8" "b + 4 \<noteq> b" "b + 8 \<noteq> b" "b + 4 \<noteq> b + 8" "b + 8 \<noteq> b + 4"
  for b :: u32
  by simp_all

lemma rt_alloc_box_empty: "pool m b [] \<Longrightarrow> rt_alloc_box m b = (0, m)"
  by (simp add: pool_def rt_alloc_box_def)

lemma rt_alloc_box_pool:
  assumes "pool m b (p # ps)"
  shows "rt_alloc_box m b = (p, m(b := m p))" and "pool (m(b := m p)) b ps"
    and "(m(b := m p)) (b + 4) = m (b + 4)" and "(m(b := m p)) (b + 8) = m (b + 8)"
  using assms by (auto simp: pool_def rt_alloc_box_def)

lemma rt_free_box_pool:
  assumes "pool m b ps" and "b \<le> p" "p < m (b + 4)" and "p \<noteq> 0" "p \<notin> set ps" "p \<notin> {b, b + 4, b + 8}"
  shows "fst (rt_free_box m b p) = 0" and "pool (snd (rt_free_box m b p)) b (p # ps)"
  using assms by (auto simp: pool_def rt_free_box_def Let_def)

lemma rt_free_box_outside: "p < b \<or> m (b + 4) \<le> p \<Longrightarrow> rt_free_box m b p = (1, m)"
  by (simp add: rt_free_box_def)

section \<open>Initialisation\<close>

definition blocks :: "u32 \<Rightarrow> u32 \<Rightarrow> nat \<Rightarrow> u32 list" where
  "blocks blk sz n = map (\<lambda>k. blk + of_nat k * sz) [0..<n]"

lemma blocks_Suc: "blocks blk sz (Suc n) = blk # blocks (blk + sz) sz n"
  by (simp add: blocks_def upt_conv_Cons map_Suc_upt [symmetric] algebra_simps del: upt_Suc map_Suc_upt)

lemma unat_add_u32: "unat a + unat b < 2 ^ 32 \<Longrightarrow> unat (a + b :: u32) = unat a + unat b"
  by (simp add: unat_word_ariths)

lemma unat_block:
  "unat blk + n * unat sz < 2 ^ 32 \<Longrightarrow> unat (blk + of_nat n * sz :: u32) = unat blk + n * unat sz"
  by (simp add: unat_word_ariths unat_of_nat mod_simps)

lemma link_blocks_list:
  assumes "unat blk + n * unat sz \<le> unat lim" and "unat lim < unat blk + Suc n * unat sz"
    and "unat lim + unat sz < 2 ^ 32" and "0 < unat blk" and "0 < unat sz"
  shows "\<exists>m'. link_blocks m blk sz lim = Some m' \<and> free_list m' blk (blocks blk sz (Suc n)) \<and>
    (\<forall>x. unat x < unat blk \<longrightarrow> m' x = m x)"
  using assms
proof (induction n arbitrary: blk m)
  case 0
  then have "unat (blk + sz) = unat blk + unat sz"
    by (intro unat_add_u32) simp
  with 0 have "lim < blk + sz"
    by (simp add: word_less_nat_alt)
  with 0 show ?case
    by (auto simp: link_blocks.simps blocks_def)
next
  case (Suc n)
  have add: "unat (blk + sz) = unat blk + unat sz"
    using Suc.prems by (intro unat_add_u32) simp
  have "\<not> lim < blk + sz"
    using Suc.prems add by (simp add: word_less_nat_alt)
  then have step: "link_blocks m blk sz lim = link_blocks (m(blk := blk + sz)) (blk + sz) sz lim"
    by (simp add: link_blocks.simps [of m blk])
  have "0 < unat (blk + sz)"
    using Suc.prems(4) add by simp
  with Suc.IH [of "blk + sz" "m(blk := blk + sz)"] Suc.prems add obtain m' where m':
    "link_blocks (m(blk := blk + sz)) (blk + sz) sz lim = Some m'"
    "free_list m' (blk + sz) (blocks (blk + sz) sz (Suc n))"
    "\<forall>x. unat x < unat (blk + sz) \<longrightarrow> m' x = (m(blk := blk + sz)) x"
    by (simp del: fun_upd_apply) blast
  have "m' blk = blk + sz"
    using m'(3) add Suc.prems(5) by simp
  with m' add Suc.prems(4) show ?case
    unfolding step blocks_Suc [of blk] by (auto simp: unat_gt_0)
qed

lemma unat_block_less:
  assumes "unat blk + n * unat sz < 2 ^ 32" and "k < n"
  shows "unat (blk + of_nat k * sz :: u32) = unat blk + k * unat sz"
proof (rule unat_block)
  have "k * unat sz \<le> n * unat sz"
    using assms(2) by (intro mult_right_mono) auto
  with assms(1) show "unat blk + k * unat sz < 2 ^ 32"
    by linarith
qed

lemma set_blocks:
  assumes "unat blk + n * unat sz < 2 ^ 32" and "p \<in> set (blocks blk sz n)"
  shows "\<exists>k < n. unat p = unat blk + k * unat sz"
proof -
  obtain k where k: "k < n" "p = blk + of_nat k * sz"
    using assms(2) by (auto simp: blocks_def)
  with unat_block_less [OF assms(1) k(1)] show ?thesis
    by blast
qed

lemma distinct_blocks:
  assumes "unat blk + n * unat sz < 2 ^ 32" and "0 < unat sz"
  shows "distinct (blocks blk sz n)"
proof -
  have "inj_on (\<lambda>k. blk + of_nat k * sz) {0..<n}"
  proof (rule inj_onI)
    fix j k
    assume jk: "j \<in> {0..<n}" "k \<in> {0..<n}" and eq: "blk + of_nat j * sz = blk + of_nat k * sz"
    have "unat blk + j * unat sz = unat blk + k * unat sz"
      using unat_block_less [OF assms(1), of j] unat_block_less [OF assms(1), of k] jk eq by (metis atLeastLessThan_iff)
    with assms(2) show "j = k"
      by simp
  qed
  then show ?thesis
    by (simp add: blocks_def distinct_map)
qed

text \<open>An initialised pool: every block is free and inside the pool's memory.\<close>

lemma init_box_pool:
  assumes lay: "box_layout blk_size0 = (sz, hd_size)" and sz: "sz \<noteq> 0"
    and small: "unat sz + unat hd_size < 2 ^ 32" and fits: "unat sz + unat hd_size \<le> unat box_size"
    and room: "unat b + unat box_size < 2 ^ 32" and n: "n = (unat box_size - unat hd_size) div unat sz"
  shows "\<exists>m'. init_box m b box_size blk_size0 = Some (0, m') \<and> pool m' b (blocks (b + hd_size) sz n) \<and>
    0 < n \<and> m' (b + 4) = b + box_size \<and> m' (b + 8) = sz"
proof -
  have hd12: "12 \<le> unat hd_size"
    using lay by (auto simp: box_layout_def split: if_splits)
  have szp: "0 < unat sz"
    using sz by (simp add: unat_gt_0)
  have blk: "unat (b + hd_size) = unat b + unat hd_size"
    using fits room by (intro unat_add_u32) simp
  have e: "unat (b + box_size) = unat b + unat box_size"
    using room by (intro unat_add_u32) simp
  have lim: "unat (b + box_size - sz) = unat b + unat box_size - unat sz"
    using e fits by (subst unat_sub) (simp_all add: word_le_nat_alt)
  define k where "k = n - 1"
  have "unat sz \<le> unat box_size - unat hd_size"
    using fits by simp
  then have n0: "0 < n"
    using n szp by (simp add: div_greater_zero_iff)
  then have nk: "n = Suc k"
    by (simp add: k_def)
  have "n * unat sz \<le> unat box_size - unat hd_size" "unat box_size - unat hd_size < Suc n * unat sz"
    using n szp by (simp_all add: dividend_less_div_times)
  then have bnd: "k * unat sz + unat sz \<le> unat box_size - unat hd_size"
    "unat box_size - unat hd_size < k * unat sz + unat sz + unat sz"
    unfolding nk by simp_all
  let ?m = "m(b := b + hd_size, b + 4 := b + box_size, b + 8 := sz)"
  have "\<exists>m'. link_blocks ?m (b + hd_size) sz (b + box_size - sz) = Some m' \<and>
      free_list m' (b + hd_size) (blocks (b + hd_size) sz (Suc k)) \<and>
      (\<forall>x. unat x < unat (b + hd_size) \<longrightarrow> m' x = ?m x)"
    by (rule link_blocks_list) (use blk lim fits room bnd szp hd12 in \<open>simp_all add: algebra_simps\<close>)
  then obtain m' where m': "link_blocks ?m (b + hd_size) sz (b + box_size - sz) = Some m'"
    "free_list m' (b + hd_size) (blocks (b + hd_size) sz n)"
    "\<forall>x. unat x < unat (b + hd_size) \<longrightarrow> m' x = ?m x"
    unfolding nk by blast
  have hdr: "unat b < unat (b + hd_size)" "unat (b + 4) < unat (b + hd_size)" "unat (b + 8) < unat (b + hd_size)"
    using blk hd12 fits room by (simp_all add: unat_add_u32)
  have fit: "unat (b + hd_size) + n * unat sz < 2 ^ 32"
    using blk fits room bnd unfolding nk by simp
  have "p \<notin> {b, b + 4, b + 8}" if "p \<in> set (blocks (b + hd_size) sz n)" for p
    using set_blocks [OF fit that] hdr by auto
  then have "pool m' b (blocks (b + hd_size) sz n)"
    using m'(2,3) hdr distinct_blocks [OF fit szp] by (auto simp: pool_def)
  moreover have "\<not> box_size < sz + hd_size"
    using fits small by (simp add: word_less_nat_alt unat_add_u32)
  ultimately show ?thesis
    using m'(1,3) hdr sz n0 by (auto simp: init_box_def lay)
qed

text \<open>Clearing a block writes zero to all its words and to nothing else.\<close>

lemma zero_words_Some:
  assumes "unat i = 4 * n"
  shows "\<exists>m'. zero_words m p i = Some m' \<and>
    (\<forall>x. m' x = (if \<exists>k < n. x = p + 4 * of_nat k then 0 else m x))"
  using assms
proof (induction n arbitrary: m p i)
  case 0
  then show ?case
    by (simp add: zero_words.simps unat_eq_0)
next
  case (Suc n)
  then have "i \<noteq> 0" and "unat (i - 4) = 4 * n"
    by (auto simp: unat_sub word_le_nat_alt)
  from Suc.IH [OF this(2), of "m(p := 0)" "p + 4"] obtain m' where m':
    "zero_words (m(p := 0)) (p + 4) (i - 4) = Some m'"
    "\<forall>x. m' x = (if \<exists>k < n. x = p + 4 + 4 * of_nat k then 0 else (m(p := 0)) x)"
    by blast
  have "(\<exists>k < Suc n. x = p + 4 * of_nat k) \<longleftrightarrow> x = p \<or> (\<exists>k < n. x = p + 4 + 4 * of_nat k)" for x
    by (auto simp: less_Suc_eq_0_disj algebra_simps)
  with m' \<open>i \<noteq> 0\<close> show ?case
    by (auto simp: zero_words.simps [of m])
qed

end
