(* ===== verification/Ring.thy ===== *)
theory Ring
  imports Prelude
begin

text \<open>
  The interface of a ring buffer with an explicit element count, which the mailboxes
  (\<open>rt_Mailbox.c\<close>) and the queue of post service requests (\<open>rt_List.c\<close>, \<open>rt_System.c\<close>) both
  implement in their control blocks: where the next element goes, where the oldest one is, and
  what storing and dropping an element do to the two indices. From these laws the FIFO behaviour
  is derived once.
\<close>

definition next_idx :: "nat \<Rightarrow> nat \<Rightarrow> nat" where
  "next_idx n k = (if Suc k = n then 0 else Suc k)"

lemma next_idx_mod: "k < n \<Longrightarrow> next_idx n k = Suc k mod n"
  by (auto simp: next_idx_def)

lemma next_idx_less: "k < n \<Longrightarrow> next_idx n k < n"
  by (auto simp: next_idx_def)

locale ring =
  fixes cap :: "'b \<Rightarrow> nat"
    and head :: "'b \<Rightarrow> nat"
    and tail :: "'b \<Rightarrow> nat"
    and cnt :: "'b \<Rightarrow> nat"
    and slot :: "'b \<Rightarrow> nat \<Rightarrow> 'a"
    and put :: "'b \<Rightarrow> 'a \<Rightarrow> 'b"
    and drop_first :: "'b \<Rightarrow> 'b"
  assumes cap_put: "cnt b < cap b \<Longrightarrow> head b < cap b \<Longrightarrow> cap (put b x) = cap b"
    and tail_put: "cnt b < cap b \<Longrightarrow> head b < cap b \<Longrightarrow> tail (put b x) = tail b"
    and head_put: "cnt b < cap b \<Longrightarrow> head b < cap b \<Longrightarrow> head (put b x) = next_idx (cap b) (head b)"
    and cnt_put: "cnt b < cap b \<Longrightarrow> head b < cap b \<Longrightarrow> cnt (put b x) = Suc (cnt b)"
    and slot_put: "cnt b < cap b \<Longrightarrow> head b < cap b \<Longrightarrow> slot (put b x) = (slot b)(head b := x)"
    and cap_drop: "0 < cnt b \<Longrightarrow> tail b < cap b \<Longrightarrow> cap (drop_first b) = cap b"
    and tail_drop: "0 < cnt b \<Longrightarrow> tail b < cap b \<Longrightarrow> tail (drop_first b) = next_idx (cap b) (tail b)"
    and head_drop: "0 < cnt b \<Longrightarrow> tail b < cap b \<Longrightarrow> head (drop_first b) = head b"
    and cnt_drop: "0 < cnt b \<Longrightarrow> tail b < cap b \<Longrightarrow> cnt (drop_first b) = cnt b - 1"
    and slot_drop: "0 < cnt b \<Longrightarrow> tail b < cap b \<Longrightarrow> slot (drop_first b) = slot b"
begin

definition wf :: "'b \<Rightarrow> bool" where
  "wf b \<longleftrightarrow> tail b < cap b \<and> cnt b \<le> cap b \<and> head b = (tail b + cnt b) mod cap b"

definition items :: "'b \<Rightarrow> 'a list" where
  "items b = map (\<lambda>k. slot b ((tail b + k) mod cap b)) [0..<cnt b]"

lemma length_items [simp]: "length (items b) = cnt b"
  by (simp add: items_def)

lemma wf_head: "wf b \<Longrightarrow> head b < cap b"
  by (auto simp: wf_def)

lemma wf_put: "wf b \<Longrightarrow> cnt b < cap b \<Longrightarrow> wf (put b x)"
  using wf_head [of b]
  by (simp add: wf_def cap_put tail_put head_put cnt_put next_idx_mod mod_Suc_eq)

lemma next_idx_add: "t < n \<Longrightarrow> (next_idx n t + k) mod n = (t + Suc k) mod n"
  by (metis add_Suc add_Suc_right mod_add_left_eq next_idx_mod)

lemma wf_drop:
  assumes "wf b" and "0 < cnt b"
  shows "wf (drop_first b)"
proof -
  obtain m where "cnt b = Suc m"
    using assms(2) by (cases "cnt b") auto
  moreover have "tail b < cap b"
    using assms(1) by (simp add: wf_def)
  ultimately show ?thesis
    using assms next_idx_add [of "tail b" "cap b" m]
    by (simp add: wf_def cap_drop tail_drop head_drop cnt_drop next_idx_less)
qed

lemma head_fresh:
  assumes "wf b" and "k < cnt b" and "cnt b < cap b"
  shows "(tail b + k) mod cap b \<noteq> head b"
proof
  assume "(tail b + k) mod cap b = head b"
  then have "(tail b + k) mod cap b = (tail b + cnt b) mod cap b"
    using assms(1) by (simp add: wf_def)
  then have "cap b dvd cnt b - k"
    using assms(2) by (metis add_diff_cancel_left add_left_mono less_imp_le mod_eq_dvd_iff_nat)
  then show False
    using assms(2,3) by (auto dest: dvd_imp_le)
qed

text \<open>Storing appends, dropping removes the oldest element, which is the one at \<open>tail\<close>.\<close>

lemma items_put:
  assumes "wf b" and "cnt b < cap b"
  shows "items (put b x) = items b @ [x]"
proof -
  have "head b < cap b"
    using assms(1) by (rule wf_head)
  moreover have "slot (put b x) ((tail b + k) mod cap b) = slot b ((tail b + k) mod cap b)" if "k < cnt b" for k
    using head_fresh [OF assms(1) that assms(2)] calculation assms(2) by (simp add: slot_put)
  moreover have "(tail b + cnt b) mod cap b = head b"
    using assms(1) by (simp add: wf_def)
  ultimately show ?thesis
    using assms(2) by (simp add: items_def cap_put tail_put cnt_put slot_put)
qed

lemma items_drop:
  assumes "wf b" and "0 < cnt b"
  shows "items b = slot b (tail b) # items (drop_first b)"
proof -
  have t: "tail b < cap b"
    using assms(1) by (simp add: wf_def)
  have "[0..<cnt b] = 0 # map Suc [0..<cnt b - 1]"
    using assms(2) by (simp add: map_Suc_upt upt_conv_Cons del: upt_Suc)
  then have "items b = slot b (tail b) # map (\<lambda>k. slot b ((tail b + Suc k) mod cap b)) [0..<cnt b - 1]"
    using t by (simp add: items_def)
  moreover note next_idx_add [OF t]
  ultimately show ?thesis
    using t assms(2) by (simp add: items_def cap_drop tail_drop cnt_drop slot_drop)
qed

text \<open>A full buffer that drops its oldest element has room for one more.\<close>

lemma items_replace:
  assumes "wf b" and "0 < cnt b"
  shows "wf (put (drop_first b) x)" and "items (put (drop_first b) x) = tl (items b) @ [x]"
proof -
  have "cnt (drop_first b) < cap (drop_first b)"
    using assms by (auto simp: wf_def cnt_drop cap_drop)
  then show "wf (put (drop_first b) x)" and "items (put (drop_first b) x) = tl (items b) @ [x]"
    using wf_drop [OF assms] items_drop [OF assms] by (simp_all add: wf_put items_put)
qed

end

end
