(* ===== verification/Rtx_Mailbox.thy ===== *)
theory Rtx_Mailbox
  imports Rtx_Semaphore Rtx_MemBox Ring
begin

text \<open>
  Mailboxes (\<open>rt_Mailbox.c\<close>): a ring of messages, and one waiting list that serves the tasks
  waiting for a message (\<open>mb_state\<close> 1), those waiting to send one (2), or those waiting for a
  block of the mail's memory pool (3).

  The messages of a mailbox are the list \<open>mbring.items\<close>; \<open>mbx_ok\<close> ties the waiting list to the
  fill level: receivers wait only on an empty mailbox, senders only on a full one.
\<close>

section \<open>The operations\<close>

abbreviation upd_mbx :: "nat \<Rightarrow> (mcb \<Rightarrow> mcb) \<Rightarrow> kernel \<Rightarrow> kernel" where
  "upd_mbx i f s \<equiv> s\<lparr>mcbs := (mcbs s)(i := f (mcbs s i))\<rparr>"

text \<open>\<open>if (++idx == size) idx = 0\<close> on the 16-bit indices.\<close>

definition inc16 :: "u16 \<Rightarrow> u16 \<Rightarrow> u16" where
  "inc16 sz idx = (if idx + 1 = sz then 0 else idx + 1)"

definition mb_store :: "mcb \<Rightarrow> u32 \<Rightarrow> mcb" where
  "mb_store b x = b\<lparr>m_msg := (m_msg b)(unat (m_first b) := x), m_first := inc16 (m_size b) (m_first b)\<rparr>"

definition mb_put :: "mcb \<Rightarrow> u32 \<Rightarrow> mcb" where
  "mb_put b x = (let b1 = mb_store b x in b1\<lparr>m_count := m_count b1 + 1\<rparr>)"

definition mb_take :: "mcb \<Rightarrow> mcb" where
  "mb_take b = b\<lparr>m_last := inc16 (m_size b) (m_last b)\<rparr>"

definition mb_drop :: "mcb \<Rightarrow> mcb" where
  "mb_drop b = (let b1 = mb_take b in b1\<lparr>m_count := m_count b1 - 1\<rparr>)"

definition mb_oldest :: "mcb \<Rightarrow> u32" where
  "mb_oldest b = m_msg b (unat (m_last b))"

text \<open>\<open>sizeof (struct OS_MCB)\<close> is 20 and \<open>sizeof (void *)\<close> is 4 on the target.\<close>

definition rt_mbx_init :: "kernel \<Rightarrow> nat \<Rightarrow> u16 \<Rightarrow> kernel" where
  "rt_mbx_init s i mbx_size =
     s\<lparr>cb_type := (cb_type s)(Mbx i := MCB), p_lnk := (p_lnk s)(Mbx i := None),
       mcbs := (mcbs s)(i := (mcbs s i)\<lparr>mb_state := 0, m_first := 0, m_last := 0, m_count := 0,
         m_size := ucast ((ucast mbx_size + 4 - 20 :: u32) div 4)\<rparr>)\<rparr>"

definition rt_mbx_send :: "kernel \<Rightarrow> nat \<Rightarrow> u32 \<Rightarrow> u16 \<Rightarrow> (os_result \<times> kernel) option" where
  "rt_mbx_send s i p_msg timeout =
     (if p_lnk s (Mbx i) \<noteq> None \<and> mb_state (mcbs s i) = 1
      then do {
        (t, s1) \<leftarrow> rt_get_first s (Mbx i);
        s2 \<leftarrow> rt_dispatch (rt_rmv_dly (rt_ret_val2 t 0x10 p_msg s1) t) (Some t);
        Some (OS_R_OK, s2)
      }
      else if m_count (mcbs s i) = m_size (mcbs s i)
      then if timeout = 0 then Some (OS_R_TMO, s)
           else do {
             r \<leftarrow> run s;
             s1 \<leftarrow> enq_wait s (Mbx i) r;
             let s2 = (if p_lnk s (Mbx i) = None then upd_mbx i (mb_state_update (\<lambda>_. 2)) s1 else s1);
             s3 \<leftarrow> rt_block (upd_tcb r (msg_update (\<lambda>_. p_msg)) s2) timeout WAIT_MBX;
             Some (OS_R_TMO, s3)
           }
      else Some (OS_R_OK, upd_mbx i (\<lambda>b. mb_put b p_msg) s))"

text \<open>The received message is the second component of the result, \<open>None\<close> if there is none yet.\<close>

definition rt_mbx_wait :: "kernel \<Rightarrow> nat \<Rightarrow> u16 \<Rightarrow> (os_result \<times> u32 option \<times> kernel) option" where
  "rt_mbx_wait s i timeout =
     (if m_count (mcbs s i) \<noteq> 0
      then let x = mb_oldest (mcbs s i); s1 = upd_mbx i mb_take s
           in if p_lnk s1 (Mbx i) \<noteq> None \<and> mb_state (mcbs s1 i) = 2
              then do {
                (t, s2) \<leftarrow> rt_get_first s1 (Mbx i);
                let s3 = rt_ret_val t 0 s2;
                let s4 = upd_mbx i (\<lambda>b. mb_store b (msg (tcbs s3 t))) s3;
                s5 \<leftarrow> rt_dispatch (rt_rmv_dly s4 t) (Some t);
                Some (OS_R_OK, Some x, s5)
              }
              else Some (OS_R_OK, Some x, upd_mbx i (\<lambda>b. b\<lparr>m_count := m_count b - 1\<rparr>) s1)
      else if timeout = 0 then Some (OS_R_TMO, None, s)
      else do {
        r \<leftarrow> run s;
        s1 \<leftarrow> enq_wait s (Mbx i) r;
        let s2 = (if p_lnk s (Mbx i) = None then upd_mbx i (mb_state_update (\<lambda>_. 1)) s1 else s1);
        s3 \<leftarrow> rt_block s2 timeout WAIT_MBX;
        Some (OS_R_TMO, None, s3)
      })"

definition rt_mbx_check :: "kernel \<Rightarrow> nat \<Rightarrow> u16" where
  "rt_mbx_check s i = m_size (mcbs s i) - m_count (mcbs s i)"

text \<open>
  The post service of a mailbox. The switch has no default case: a waiting list in another state
  is left alone. A full mailbox is the error \<open>OS_ERR_MBX_OVF\<close>, from which the error handler does
  not return.
\<close>

definition rt_mbx_psh :: "kernel \<Rightarrow> nat \<Rightarrow> u32 \<Rightarrow> kernel option" where
  "rt_mbx_psh s i p_msg =
     (if p_lnk s (Mbx i) \<noteq> None
      then if mb_state (mcbs s i) = 3
           then let (m, mem') = rt_alloc_box (mem s) p_msg; s0 = s\<lparr>mem := mem'\<rparr>
                in if m = 0 then Some s0
                   else do {
                     (t, s1) \<leftarrow> rt_get_first s0 (Mbx i);
                     rt_put_prio (rt_rmv_dly (set_state t READY (rt_ret_val t m s1)) t) Rdy t
                   }
           else if mb_state (mcbs s i) = 2
           then do {
             (t, s1) \<leftarrow> rt_get_first s (Mbx i);
             let s2 = rt_ret_val t 0 s1;
             let s3 = upd_mbx i (\<lambda>b. mb_put b (msg (tcbs s2 t))) s2;
             rt_put_prio (rt_rmv_dly (set_state t READY s3) t) Rdy t
           }
           else if mb_state (mcbs s i) = 1
           then do {
             (t, s1) \<leftarrow> rt_get_first s (Mbx i);
             rt_put_prio (rt_rmv_dly (set_state t READY (rt_ret_val2 t 0x10 p_msg s1)) t) Rdy t
           }
           else Some s
      else if m_count (mcbs s i) < m_size (mcbs s i)
           then Some (upd_mbx i (\<lambda>b. mb_put b p_msg) s)
           else None)"

section \<open>The ring of messages\<close>

lemma unat_inc16: "k < n \<Longrightarrow> unat (inc16 n k) = next_idx (unat n) (unat k)"
proof -
  assume "k < n"
  then have "unat k + 1 \<le> unat n"
    by (simp add: word_less_nat_alt)
  moreover have "unat n < 65536"
    by (rule unat_u16_less)
  ultimately have "unat k + 1 = 65536 \<or> unat (k + 1) = unat k + 1"
    using unat_add_u16 [of k 1] by auto
  with \<open>unat n < 65536\<close> \<open>unat k + 1 \<le> unat n\<close> show ?thesis
    by (auto simp: inc16_def next_idx_def unat_eq_0 simp flip: word_unat_eq_iff)
qed

interpretation mbring: ring "\<lambda>b. unat (m_size b)" "\<lambda>b. unat (m_first b)" "\<lambda>b. unat (m_last b)"
  "\<lambda>b. unat (m_count b)" m_msg mb_put mb_drop
proof
  fix b :: mcb and x
  assume c: "unat (m_count b) < unat (m_size b)" and "unat (m_first b) < unat (m_size b)"
  then have f: "m_first b < m_size b"
    by (simp add: word_less_nat_alt)
  show "unat (m_size (mb_put b x)) = unat (m_size b)" "unat (m_last (mb_put b x)) = unat (m_last b)"
    "m_msg (mb_put b x) = (m_msg b)(unat (m_first b) := x)"
    "unat (m_first (mb_put b x)) = next_idx (unat (m_size b)) (unat (m_first b))"
    using unat_inc16 [OF f] by (simp_all add: mb_put_def mb_store_def)
  show "unat (m_count (mb_put b x)) = Suc (unat (m_count b))"
    using c unat_u16_less [of "m_size b"] unat_add_u16 [of "m_count b" 1]
    by (simp add: mb_put_def mb_store_def)
next
  fix b :: mcb
  assume c: "0 < unat (m_count b)" and "unat (m_last b) < unat (m_size b)"
  then have f: "m_last b < m_size b"
    by (simp add: word_less_nat_alt)
  show "unat (m_size (mb_drop b)) = unat (m_size b)" "unat (m_first (mb_drop b)) = unat (m_first b)"
    "m_msg (mb_drop b) = m_msg b"
    "unat (m_last (mb_drop b)) = next_idx (unat (m_size b)) (unat (m_last b))"
    using unat_inc16 [OF f] by (simp_all add: mb_drop_def mb_take_def)
  have "1 \<le> m_count b"
    using c by (simp add: word_le_nat_alt)
  then show "unat (m_count (mb_drop b)) = unat (m_count b) - 1"
    by (simp add: mb_drop_def mb_take_def unat_sub)
qed

section \<open>The mailbox\<close>

abbreviation msgs :: "kernel \<Rightarrow> nat \<Rightarrow> u32 list" where
  "msgs s i \<equiv> mbring.items (mcbs s i)"

text \<open>
  A mailbox whose waiting list is in use holds either no message or as many as it can; state 3 is
  that of the allocation list of a mail queue, whose ring stays unused.
\<close>

definition mbx_wf :: "ptr \<Rightarrow> (ptr \<Rightarrow> nat list) \<Rightarrow> mcb \<Rightarrow> bool" where
  "mbx_wf h q b \<longleftrightarrow> mbring.wf b \<and>
     (q h = [] \<or> mb_state b = 1 \<and> m_count b = 0 \<or> mb_state b = 2 \<and> m_count b = m_size b \<or>
      mb_state b = 3)"

definition mbx_ok :: "(ptr \<Rightarrow> nat list) \<Rightarrow> kernel \<Rightarrow> bool" where
  "mbx_ok q s \<longleftrightarrow> (\<forall>i. cb_type s (Mbx i) = MCB \<longrightarrow> mbx_wf (Mbx i) q (mcbs s i))"

lemma mbx_okD: "mbx_ok q s \<Longrightarrow> cb_type s (Mbx i) = MCB \<Longrightarrow> mbx_wf (Mbx i) q (mcbs s i)"
  by (simp add: mbx_ok_def)

lemma mbx_wfD:
  assumes "mbx_wf h q b"
  shows "mbring.wf b" and "0 < unat (m_size b)" and "unat (m_count b) \<le> unat (m_size b)"
    and "q h \<noteq> [] \<Longrightarrow> mb_state b = 1 \<and> m_count b = 0 \<or> mb_state b = 2 \<and> m_count b = m_size b \<or> mb_state b = 3"
  using assms by (auto simp: mbx_wf_def mbring.wf_def)

text \<open>The message queues of the CMSIS layer pass four more words than the queue holds.\<close>

lemma rt_mbx_init_size:
  assumes "0 < n" "n < 16380"
  shows "unat (m_size (mcbs (rt_mbx_init s i (of_nat (4 * (n + 4)))) i)) = n"
proof -
  define x :: u16 where "x = of_nat (4 * (n + 4))"
  have u: "unat x = 4 * (n + 4)"
    unfolding x_def unat_of_nat using assms by simp
  then have "unat (ucast x + 4 :: u32) = 4 * n + 20"
    using assms by (simp add: unat_word_ariths)
  then have "unat (ucast x + 4 - 20 :: u32) = 4 * n"
    by (subst unat_sub) (simp_all add: word_le_nat_alt)
  then have "unat ((ucast x + 4 - 20 :: u32) div 4) = n"
    by (simp add: unat_div)
  then show ?thesis
    unfolding x_def [symmetric] using assms by (simp add: rt_mbx_init_def unat_ucast_u32_u16)
qed

lemma rt_mbx_init_sched:
  assumes "sched X q d n s" and "\<not> live s (Mbx i)"
  shows "sched X (q(Mbx i := [])) d n (rt_mbx_init s i sz)"
  using krun_create [of X q d "Some n" s "Mbx i" MCB] assms
  by (auto simp: sched_def top_prio_def rt_mbx_init_def)

lemma rt_mbx_init_wf:
  assumes "0 < unat (m_size (mcbs (rt_mbx_init s i sz) i))" and "q (Mbx i) = []"
  shows "mbx_wf (Mbx i) q (mcbs (rt_mbx_init s i sz) i)" and "msgs (rt_mbx_init s i sz) i = []"
  using assms by (auto simp: rt_mbx_init_def mbx_wf_def mbring.wf_def mbring.items_def)

subsection \<open>Sending\<close>

lemma mbx_lnk:
  assumes "sched X q d n s" and "cb_type s (Mbx i) = MCB"
  shows "p_lnk s (Mbx i) = None \<longleftrightarrow> q (Mbx i) = []"
  using assms krun_lnk_None [of X q d "Some n" s "Mbx i"] by (auto simp: sched_def live_def)

lemma rt_mbx_send_receiver:
  assumes k: "sched X q d n s" and i: "cb_type s (Mbx i) = MCB" and q: "q (Mbx i) = t # ts"
    and st: "mb_state (mcbs s i) = 1" and n: "run s = Some n"
  shows "\<exists>s'. rt_mbx_send s i m timeout = Some (OS_R_OK, s') \<and>
    sched X (disp_q (prio_of s) n t (q(Mbx i := ts))) (rmv_dly t d) (disp_run (prio_of s) n t) s' \<and>
    kframe (rt_ret_val2 t 0x10 m s) s'"
proof -
  have "p_lnk s (Mbx i) \<noteq> None" and l: "live s (Mbx i)"
    using mbx_lnk [OF k i] q i by (auto simp: live_def)
  then show ?thesis
    using ret_val2.wake_dispatch [OF k l _ q n, of t "0x10" m] st by (auto simp: rt_mbx_send_def)
qed

lemma rt_mbx_send_store:
  assumes wf: "mbx_wf (Mbx i) q (mcbs s i)" and space: "m_count (mcbs s i) \<noteq> m_size (mcbs s i)"
    and no: "p_lnk s (Mbx i) = None \<or> mb_state (mcbs s i) \<noteq> 1"
  shows "rt_mbx_send s i m timeout = Some (OS_R_OK, upd_mbx i (\<lambda>b. mb_put b m) s)"
    and "mbring.wf (mb_put (mcbs s i) m)"
    and "msgs (upd_mbx i (\<lambda>b. mb_put b m) s) i = msgs s i @ [m]"
proof -
  have c: "unat (m_count (mcbs s i)) < unat (m_size (mcbs s i))"
    using mbx_wfD(3) [OF wf] space by (metis le_neq_implies_less word_unat_eq_iff)
  show "rt_mbx_send s i m timeout = Some (OS_R_OK, upd_mbx i (\<lambda>b. mb_put b m) s)"
    using space no by (auto simp: rt_mbx_send_def)
  show "mbring.wf (mb_put (mcbs s i) m)" "msgs (upd_mbx i (\<lambda>b. mb_put b m) s) i = msgs s i @ [m]"
    using mbring.wf_put [OF mbx_wfD(1) [OF wf] c] mbring.items_put [OF mbx_wfD(1) [OF wf] c] by simp_all
qed

lemma rt_mbx_send_full:
  "m_count (mcbs s i) = m_size (mcbs s i) \<Longrightarrow> p_lnk s (Mbx i) = None \<or> mb_state (mcbs s i) \<noteq> 1 \<Longrightarrow>
   rt_mbx_send s i m 0 = Some (OS_R_TMO, s)"
  by (auto simp: rt_mbx_send_def)

lemma rt_mbx_send_block:
  assumes k: "sched X q d n s" and i: "cb_type s (Mbx i) = MCB"
    and full: "m_count (mcbs s i) = m_size (mcbs s i)"
    and st: "q (Mbx i) \<noteq> [] \<Longrightarrow> mb_state (mcbs s i) = 2"
    and n: "run s = Some n" "n \<noteq> idle_TCB" and timeout: "timeout \<noteq> 0"
  shows "\<exists>s'. rt_mbx_send s i m timeout = Some (OS_R_TMO, s') \<and>
    sched X (q(Mbx i := ins_prio (prio_of s) n (q (Mbx i)), Rdy := tl (q Rdy)))
      (dly_wait n timeout d) (hd (q Rdy)) s' \<and>
    kframe (upd_tcb n (msg_update (\<lambda>_. m)) (upd_mbx i (mb_state_update (\<lambda>_. 2)) s)) s'"
proof -
  let ?mc = "(mcbs s)(i := (mcbs s i)\<lparr>mb_state := 2\<rparr>)"
  have k': "krun X q d (Some n) s" and i': "sem_mbx (cb_type s (Mbx i))"
    using k i by (simp_all add: sched_def)
  from k_wait_upd [OF k' i' n timeout, of "msg_update (\<lambda>_. m)" ?mc] obtain s1 s' where
    s1: "enq_wait s (Mbx i) n = Some s1" "kframe s s1" and
    s': "rt_block (upd_tcb n (msg_update (\<lambda>_. m)) (s1\<lparr>mcbs := ?mc\<rparr>)) timeout WAIT_MBX = Some s'"
    "krun X (q(Mbx i := ins_prio (prio_of s) n (q (Mbx i)), Rdy := tl (q Rdy)))
      (dly_wait n timeout d) (Some (hd (q Rdy))) s'"
    "top_prio (q(Mbx i := ins_prio (prio_of s) n (q (Mbx i)), Rdy := tl (q Rdy))) (hd (q Rdy)) s'"
    "kframe (upd_tcb n (msg_update (\<lambda>_. m)) (s\<lparr>mcbs := ?mc\<rparr>)) s'"
    by auto
  have no: "\<not> (p_lnk s (Mbx i) \<noteq> None \<and> mb_state (mcbs s i) = 1)"
    using st mbx_lnk [OF k i] by auto
  have mc: "mcbs s1 = mcbs s"
    using kframeD(2) [OF s1(2)] .
  have "(if p_lnk s (Mbx i) = None then upd_mbx i (mb_state_update (\<lambda>_. 2)) s1 else s1) = s1\<lparr>mcbs := ?mc\<rparr>"
  proof (cases "p_lnk s (Mbx i)")
    case (Some y)
    then have "?mc = mcbs s1"
      using st mbx_lnk [OF k i] mc by (auto simp: fun_eq_iff)
    with Some show ?thesis
      by simp
  qed (simp add: mc)
  with s1 s'(1) no full timeout n have "rt_mbx_send s i m timeout = Some (OS_R_TMO, s')"
    by (auto simp: rt_mbx_send_def Let_def)
  with s' show ?thesis
    by (auto simp: sched_def)
qed

subsection \<open>Receiving\<close>

lemma mb_replace: "mb_store (mb_take b) v = mb_put (mb_drop b) v"
  by (simp add: mb_store_def mb_take_def mb_put_def mb_drop_def)

lemma mb_drop_split: "(mb_take b)\<lparr>m_count := m_count (mb_take b) - 1\<rparr> = mb_drop b"
  by (simp add: mb_drop_def Let_def)

lemma rt_mbx_wait_message:
  assumes wf: "mbx_wf (Mbx i) q (mcbs s i)" and c: "m_count (mcbs s i) \<noteq> 0"
    and no: "p_lnk s (Mbx i) = None \<or> mb_state (mcbs s i) \<noteq> 2"
  shows "rt_mbx_wait s i timeout = Some (OS_R_OK, Some (hd (msgs s i)), upd_mbx i mb_drop s)"
    and "mbring.wf (mb_drop (mcbs s i))" and "msgs (upd_mbx i mb_drop s) i = tl (msgs s i)"
proof -
  have c': "0 < unat (m_count (mcbs s i))"
    using c by (simp add: unat_gt_0)
  note items = mbring.items_drop [OF mbx_wfD(1) [OF wf] c']
  show "mbring.wf (mb_drop (mcbs s i))" and "msgs (upd_mbx i mb_drop s) i = tl (msgs s i)"
    using items mbring.wf_drop [OF mbx_wfD(1) [OF wf] c'] by simp_all
  have "mb_state (mb_take (mcbs s i)) = mb_state (mcbs s i)"
    by (simp add: mb_take_def)
  then show "rt_mbx_wait s i timeout = Some (OS_R_OK, Some (hd (msgs s i)), upd_mbx i mb_drop s)"
    using c no items by (auto simp: rt_mbx_wait_def Let_def mb_drop_split mb_oldest_def)
qed

lemma rt_mbx_wait_sender:
  assumes k: "sched X q d n s" and i: "cb_type s (Mbx i) = MCB" and wf: "mbx_wf (Mbx i) q (mcbs s i)"
    and q: "q (Mbx i) = t # ts" and st: "mb_state (mcbs s i) = 2" and n: "run s = Some n"
  shows "\<exists>s'. rt_mbx_wait s i timeout = Some (OS_R_OK, Some (hd (msgs s i)), s') \<and>
    sched X (disp_q (prio_of s) n t (q(Mbx i := ts))) (rmv_dly t d) (disp_run (prio_of s) n t) s' \<and>
    kframe (upd_mbx i (\<lambda>b. mb_put (mb_drop b) (msg (tcbs s t))) (rt_ret_val t 0 s)) s'"
    and "mbring.wf (mb_put (mb_drop (mcbs s i)) m)"
    and "mbring.items (mb_put (mb_drop (mcbs s i)) m) = tl (msgs s i) @ [m]"
proof -
  have full: "m_count (mcbs s i) = m_size (mcbs s i)"
    using mbx_wfD(4) [OF wf] q st by auto
  then have c: "0 < unat (m_count (mcbs s i))"
    using mbx_wfD(2) [OF wf] by simp
  show "mbring.wf (mb_put (mb_drop (mcbs s i)) m)"
    and "mbring.items (mb_put (mb_drop (mcbs s i)) m) = tl (msgs s i) @ [m]"
    using mbring.items_replace [OF mbx_wfD(1) [OF wf] c] .
  let ?s1 = "upd_mbx i mb_take s" and ?v = "msg (tcbs s t)"
  let ?F = "\<lambda>s. upd_mbx i (\<lambda>b. mb_store b ?v) (rt_ret_val t 0 s)"
  have F: "aside ?F"
    by (rule aside_comp [OF mcb_update.aside_axioms ret_val.aside_axioms])
  have k1: "sched X q d n ?s1" and l: "live ?s1 (Mbx i)" and n1: "run ?s1 = Some n"
    using k i n by (simp_all add: live_def)
  from aside.wake_dispatch [OF F k1 l _ q n1] obtain s2 s' where s2:
    "rt_get_first ?s1 (Mbx i) = Some (t, s2)" "tcbs s2 = tcbs s"
    "rt_dispatch (rt_rmv_dly (?F s2) t) (Some t) = Some s'"
    "sched X (disp_q (prio_of s) n t (q(Mbx i := ts))) (rmv_dly t d) (disp_run (prio_of s) n t) s'"
    "kframe (?F ?s1) s'"
    by auto
  have v: "msg (tcbs (rt_ret_val t 0 s2) t) = ?v"
    using s2(2) by (simp add: rt_ret_val_def)
  have "p_lnk ?s1 (Mbx i) \<noteq> None" and "mb_state (mcbs ?s1 i) = 2"
    using mbx_lnk [OF k i] q st by (auto simp: mb_take_def)
  moreover have "m_count (mcbs s i) \<noteq> 0"
    using c by auto
  moreover have "mb_oldest (mcbs s i) = hd (msgs s i)"
    using mbring.items_drop [OF mbx_wfD(1) [OF wf] c] by (simp add: mb_oldest_def)
  ultimately have "rt_mbx_wait s i timeout = Some (OS_R_OK, Some (hd (msgs s i)), s')"
    using s2(1,3) v unfolding rt_mbx_wait_def Let_def by simp
  moreover have "?F ?s1 = upd_mbx i (\<lambda>b. mb_put (mb_drop b) ?v) (rt_ret_val t 0 s)"
    by (simp add: mb_replace rt_ret_val_def)
  ultimately show "\<exists>s'. rt_mbx_wait s i timeout = Some (OS_R_OK, Some (hd (msgs s i)), s') \<and>
    sched X (disp_q (prio_of s) n t (q(Mbx i := ts))) (rmv_dly t d) (disp_run (prio_of s) n t) s' \<and>
    kframe (upd_mbx i (\<lambda>b. mb_put (mb_drop b) (msg (tcbs s t))) (rt_ret_val t 0 s)) s'"
    using s2(4,5) by (intro exI [of _ s']) simp
qed

lemma rt_mbx_wait_empty: "m_count (mcbs s i) = 0 \<Longrightarrow> rt_mbx_wait s i 0 = Some (OS_R_TMO, None, s)"
  by (simp add: rt_mbx_wait_def)

lemma rt_mbx_wait_block:
  assumes k: "sched X q d n s" and i: "cb_type s (Mbx i) = MCB"
    and c: "m_count (mcbs s i) = 0" and st: "q (Mbx i) \<noteq> [] \<Longrightarrow> mb_state (mcbs s i) = 1"
    and n: "run s = Some n" "n \<noteq> idle_TCB" and timeout: "timeout \<noteq> 0"
  shows "\<exists>s'. rt_mbx_wait s i timeout = Some (OS_R_TMO, None, s') \<and>
    sched X (q(Mbx i := ins_prio (prio_of s) n (q (Mbx i)), Rdy := tl (q Rdy)))
      (dly_wait n timeout d) (hd (q Rdy)) s' \<and>
    kframe (upd_mbx i (mb_state_update (\<lambda>_. 1)) s) s'"
proof -
  let ?mc = "(mcbs s)(i := (mcbs s i)\<lparr>mb_state := 1\<rparr>)"
  have k': "krun X q d (Some n) s" and i': "sem_mbx (cb_type s (Mbx i))"
    using k i by (simp_all add: sched_def)
  from k_wait_upd [OF k' i' n timeout, of "\<lambda>tc. tc" ?mc] obtain s1 s' where
    s1: "enq_wait s (Mbx i) n = Some s1" "kframe s s1" and
    s': "rt_block (s1\<lparr>mcbs := ?mc\<rparr>) timeout WAIT_MBX = Some s'"
    "krun X (q(Mbx i := ins_prio (prio_of s) n (q (Mbx i)), Rdy := tl (q Rdy)))
      (dly_wait n timeout d) (Some (hd (q Rdy))) s'"
    "top_prio (q(Mbx i := ins_prio (prio_of s) n (q (Mbx i)), Rdy := tl (q Rdy))) (hd (q Rdy)) s'"
    "kframe (s\<lparr>mcbs := ?mc\<rparr>) s'"
    by auto
  have mc: "mcbs s1 = mcbs s"
    using kframeD(2) [OF s1(2)] .
  have "(if p_lnk s (Mbx i) = None then upd_mbx i (mb_state_update (\<lambda>_. 1)) s1 else s1) = s1\<lparr>mcbs := ?mc\<rparr>"
  proof (cases "p_lnk s (Mbx i)")
    case (Some y)
    then have "?mc = mcbs s1"
      using st mbx_lnk [OF k i] mc by (auto simp: fun_eq_iff)
    with Some show ?thesis
      by simp
  qed (simp add: mc)
  with s1 s'(1) c timeout n have "rt_mbx_wait s i timeout = Some (OS_R_TMO, None, s')"
    by (auto simp: rt_mbx_wait_def Let_def)
  with s' show ?thesis
    by (auto simp: sched_def)
qed

subsection \<open>Posts from interrupt handlers\<close>

lemma set_state_upd_commute:
  "set_state t READY (rt_ret_val2 t v w s) = rt_ret_val2 t v w (set_state t READY s)"
  "set_state t READY (rt_ret_val t v s) = rt_ret_val t v (set_state t READY s)"
  by (cases "tcbs s t"; simp add: rt_ret_val2_def rt_ret_val_def)+

lemma rt_rmv_dly_set_state: "rt_rmv_dly (set_state t st s) u = set_state t st (rt_rmv_dly s u)"
  by (rule rt_rmv_dly_upd_tcb)

lemma mbx_lnk':
  assumes "krun X q d N s" and "cb_type s (Mbx i) = MCB"
  shows "p_lnk s (Mbx i) = None \<longleftrightarrow> q (Mbx i) = []"
  using assms krun_lnk_None [of X q d N s "Mbx i"] by (auto simp: live_def)

lemma rt_mbx_psh_receiver:
  assumes k: "krun X q d N s" and i: "cb_type s (Mbx i) = MCB" and q: "q (Mbx i) = t # ts"
    and st: "mb_state (mcbs s i) = 1"
  shows "\<exists>s'. rt_mbx_psh s i m = Some s' \<and>
    krun X (q(Mbx i := ts, Rdy := ins_prio (prio_of s) t (q Rdy))) (rmv_dly t d) N s' \<and>
    kframe (rt_ret_val2 t 0x10 m s) s'"
proof -
  have "p_lnk s (Mbx i) \<noteq> None" and l: "live s (Mbx i)"
    using mbx_lnk' [OF k i] q i by (auto simp: live_def)
  with ret_val2.wake_ready [OF k l _ q, of t "0x10" m] st show ?thesis
    by (auto simp: rt_mbx_psh_def rt_rmv_dly_set_state)
qed

lemma rt_mbx_psh_sender:
  assumes k: "krun X q d N s" and i: "cb_type s (Mbx i) = MCB" and q: "q (Mbx i) = t # ts"
    and st: "mb_state (mcbs s i) = 2"
  shows "\<exists>s'. rt_mbx_psh s i m = Some s' \<and>
    krun X (q(Mbx i := ts, Rdy := ins_prio (prio_of s) t (q Rdy))) (rmv_dly t d) N s' \<and>
    kframe (upd_mbx i (\<lambda>b. mb_put b (msg (tcbs s t))) (rt_ret_val t 0 s)) s'"
proof -
  let ?F = "\<lambda>s'. upd_mbx i (\<lambda>b. mb_put b (msg (tcbs s t))) (rt_ret_val t 0 s')"
  have F: "aside ?F"
    by (rule aside_comp [OF mcb_update.aside_axioms ret_val.aside_axioms])
  have "p_lnk s (Mbx i) \<noteq> None" and l: "live s (Mbx i)"
    using mbx_lnk' [OF k i] q i by (auto simp: live_def)
  moreover from aside.wake_ready [OF F k l _ q] obtain s1 s' where s1:
    "rt_get_first s (Mbx i) = Some (t, s1)" "tcbs s1 = tcbs s"
    "rt_put_prio (set_state t READY (rt_rmv_dly (?F s1) t)) Rdy t = Some s'"
    "krun X (q(Mbx i := ts, Rdy := ins_prio (prio_of s) t (q Rdy))) (rmv_dly t d) N s'" "kframe (?F s) s'"
    by auto
  moreover have "msg (tcbs (rt_ret_val t 0 s1) t) = msg (tcbs s t)"
    using s1(2) by (simp add: rt_ret_val_def)
  ultimately show ?thesis
    using st by (intro exI [of _ s']) (auto simp: rt_mbx_psh_def Let_def rt_rmv_dly_set_state)
qed

lemma rt_mbx_psh_store:
  assumes k: "krun X q d N s" and i: "cb_type s (Mbx i) = MCB" and q: "q (Mbx i) = []"
    and wf: "mbx_wf (Mbx i) q (mcbs s i)"
  shows "rt_mbx_psh s i m =
      (if m_count (mcbs s i) = m_size (mcbs s i) then None else Some (upd_mbx i (\<lambda>b. mb_put b m) s))"
  using mbx_lnk' [OF k i] q mbx_wfD(3) [OF wf]
  by (auto simp: rt_mbx_psh_def word_less_nat_alt word_unat_eq_iff)

text \<open>
  A task waiting for memory of a mail queue: \<open>p_msg\<close> is the pool, from which a block was just
  freed.
\<close>

interpretation mem_update: aside "\<lambda>s. s\<lparr>mem := g (mem s)\<rparr>" for g
  by unfold_locales
    (auto simp: rt_rmv_dly_def Let_def live_def kframe_def intro!: ext split: option.split)

lemma rt_mbx_psh_alloc:
  assumes k: "krun X q d N s" and i: "cb_type s (Mbx i) = MCB" and q: "q (Mbx i) = t # ts"
    and st: "mb_state (mcbs s i) = 3" and pool: "pool (mem s) p (b # bs)"
  shows "\<exists>s'. rt_mbx_psh s i p = Some s' \<and>
    krun X (q(Mbx i := ts, Rdy := ins_prio (prio_of s) t (q Rdy))) (rmv_dly t d) N s' \<and>
    kframe (rt_ret_val t b (s\<lparr>mem := (mem s)(p := mem s b)\<rparr>)) s' \<and> pool (mem s') p bs"
proof -
  let ?s = "s\<lparr>mem := (mem s)(p := mem s b)\<rparr>"
  note A = rt_alloc_box_pool [OF pool]
  have b0: "b \<noteq> 0"
    using pool by (auto simp: pool_def)
  have k': "krun X q d N ?s" and l: "live ?s (Mbx i)"
    using k i by (simp_all add: live_def)
  have "p_lnk s (Mbx i) \<noteq> None"
    using mbx_lnk' [OF k i] q by auto
  moreover from ret_val.wake_ready [OF k' l _ q, of t b] obtain s1 s' where s1:
    "rt_get_first ?s (Mbx i) = Some (t, s1)"
    "rt_put_prio (set_state t READY (rt_rmv_dly (rt_ret_val t b s1) t)) Rdy t = Some s'"
    "krun X (q(Mbx i := ts, Rdy := ins_prio (prio_of s) t (q Rdy))) (rmv_dly t d) N s'"
    "kframe (rt_ret_val t b ?s) s'"
    by auto
  moreover have "mem s' = (mem s)(p := mem s b)"
    using kframeD(21) [OF s1(4)] by simp
  ultimately show ?thesis
    using st A(1,2) b0 by (intro exI [of _ s']) (auto simp: rt_mbx_psh_def rt_rmv_dly_set_state)
qed

lemma rt_mbx_psh_no_memory:
  assumes "p_lnk s (Mbx i) \<noteq> None" and "mb_state (mcbs s i) = 3" and "pool (mem s) p []"
  shows "rt_mbx_psh s i p = Some s"
  using assms rt_alloc_box_empty [OF assms(3)] by (auto simp: rt_mbx_psh_def)

end
