(* ===== verification/Rtx_Event.thy ===== *)
theory Rtx_Event
  imports Rtx_Semaphore
begin

text \<open>
  Event flags (\<open>rt_Event.c\<close>): each task has a set of pending flags \<open>events\<close>, and the flags \<open>waits\<close>
  it waits for, all of them (\<open>WAIT_AND\<close>) or any (\<open>WAIT_OR\<close>).
\<close>

unbundle bit_operations_syntax

section \<open>The operations\<close>

definition rt_evt_wait :: "kernel \<Rightarrow> u16 \<Rightarrow> u16 \<Rightarrow> bool \<Rightarrow> (os_result \<times> kernel) option" where
  "rt_evt_wait s wait_flags timeout and_wait = do {
     r \<leftarrow> run s;
     let ev = events (tcbs s r);
     if and_wait \<and> ev AND wait_flags = wait_flags
     then Some (OS_R_EVT, upd_tcb r (events_update (\<lambda>e. e AND NOT wait_flags)) s)
     else if \<not> and_wait \<and> ev AND wait_flags \<noteq> 0
     then Some (OS_R_EVT, upd_tcb r (\<lambda>tc. tc\<lparr>waits := ev AND wait_flags, events := ev AND NOT wait_flags\<rparr>) s)
     else do {
       s1 \<leftarrow> rt_block (upd_tcb r (waits_update (\<lambda>_. wait_flags)) s) timeout
               (if and_wait then WAIT_AND else WAIT_OR);
       Some (OS_R_TMO, s1)
     }
   }"

text \<open>
  What \<open>rt_evt_set\<close> and \<open>rt_evt_psh\<close> do to the control block of the task, and whether they wake
  it; 0x08 is \<open>osEventSignal\<close>.
\<close>

definition evt_post :: "tcb \<Rightarrow> u16 \<Rightarrow> tcb \<times> bool" where
  "evt_post tc flags =
     (let ev = events tc OR flags; fl = waits tc
      in if t_state tc = WAIT_AND \<and> ev AND fl = fl
         then (tc\<lparr>events := ev AND NOT fl, ret0 := 0x08, ret1 := ucast fl\<rparr>, True)
         else if t_state tc = WAIT_OR \<and> ev AND fl \<noteq> 0
         then (tc\<lparr>waits := fl AND ev, events := ev AND NOT fl, ret0 := 0x08, ret1 := ucast (fl AND ev)\<rparr>, True)
         else (tc\<lparr>events := ev\<rparr>, False))"

text \<open>The table of active tasks is indexed by the task's number less one.\<close>

definition active_slot :: "kernel \<Rightarrow> u32 \<Rightarrow> nat option option" where
  "active_slot s tid =
     (if tid = 0 \<or> length (os_active_TCB s) < unat tid then None
      else Some (os_active_TCB s ! (unat tid - 1)))"

definition rt_evt_set :: "kernel \<Rightarrow> u16 \<Rightarrow> u32 \<Rightarrow> kernel option" where
  "rt_evt_set s event_flags tid = do {
     p_tcb \<leftarrow> active_slot s tid;
     case p_tcb of
       None \<Rightarrow> Some s
     | Some t \<Rightarrow>
         let (tc, wkup) = evt_post (tcbs s t) event_flags; s1 = upd_tcb t (\<lambda>_. tc) s
         in if wkup then rt_dispatch (set_state t READY (rt_rmv_dly s1 t)) (Some t) else Some s1
   }"

definition rt_evt_clr :: "kernel \<Rightarrow> u16 \<Rightarrow> u32 \<Rightarrow> kernel option" where
  "rt_evt_clr s clear_flags tid = do {
     p_tcb \<leftarrow> active_slot s tid;
     Some (case p_tcb of
             None \<Rightarrow> s
           | Some t \<Rightarrow> upd_tcb t (events_update (\<lambda>e. e AND NOT clear_flags)) s)
   }"

definition rt_evt_get :: "kernel \<Rightarrow> u16 option" where
  "rt_evt_get s = map_option (\<lambda>r. waits (tcbs s r)) (run s)"

definition rt_evt_psh :: "kernel \<Rightarrow> nat \<Rightarrow> u16 \<Rightarrow> kernel option" where
  "rt_evt_psh s t set_flags =
     (let (tc, rdy) = evt_post (tcbs s t) set_flags; s1 = upd_tcb t (\<lambda>_. tc) s
      in if rdy then rt_put_prio (set_state t READY (rt_rmv_dly s1 t)) Rdy t else Some s1)"

section \<open>Waiting\<close>

lemma evt_post_keeps [simp]:
  "t_state (fst (evt_post tc f)) = t_state tc" "prio (fst (evt_post tc f)) = prio tc"
  "task_id (fst (evt_post tc f)) = task_id tc"
  by (simp_all add: evt_post_def Let_def)

lemma evt_post_waiting: "snd (evt_post tc f) \<Longrightarrow> t_state tc = WAIT_AND \<or> t_state tc = WAIT_OR"
  by (auto simp: evt_post_def Let_def split: if_splits)

lemma rt_evt_wait_met:
  assumes "run s = Some n" and "if a then events (tcbs s n) AND f = f else events (tcbs s n) AND f \<noteq> 0"
  shows "\<exists>s'. rt_evt_wait s f timeout a = Some (OS_R_EVT, s') \<and>
    events (tcbs s' n) = events (tcbs s n) AND NOT f \<and> (\<not> a \<longrightarrow> waits (tcbs s' n) = events (tcbs s n) AND f) \<and>
    (krun X q d N s' \<longleftrightarrow> krun X q d N s) \<and> (top_prio q m s' \<longleftrightarrow> top_prio q m s)"
  using assms by (auto simp: rt_evt_wait_def Let_def krun_tcbs top_prio_def split: if_splits)

lemma rt_evt_wait_block:
  assumes k: "sched X q d n s" and n: "run s = Some n" "n \<noteq> idle_TCB" and timeout: "timeout \<noteq> 0"
    and no: "if a then events (tcbs s n) AND f \<noteq> f else events (tcbs s n) AND f = 0"
  shows "\<exists>s'. rt_evt_wait s f timeout a = Some (OS_R_TMO, s') \<and>
    sched X (q(Rdy := tl (q Rdy))) (dly_wait n timeout d) (hd (q Rdy)) s' \<and>
    kframe (upd_tcb n (waits_update (\<lambda>_. f)) s) s' \<and>
    tcbs s' = tcbs (set_state (hd (q Rdy)) RUNNING
      (set_state n (if a then WAIT_AND else WAIT_OR) (upd_tcb n (waits_update (\<lambda>_. f)) s)))"
proof -
  let ?s = "upd_tcb n (waits_update (\<lambda>_. f)) s" and ?st = "if a then WAIT_AND else WAIT_OR"
  have k': "krun X q d (Some n) ?s" and n': "run ?s = Some n"
    using k n by (simp_all add: sched_def)
  have "?st \<notin> {READY, RUNNING, INACTIVE}"
    by simp
  from k_block_free [OF k' n' n(2) timeout this] obtain s' where
    "rt_block ?s timeout ?st = Some s'"
    "krun X (q(Rdy := tl (q Rdy))) (dly_wait n timeout d) (Some (hd (q Rdy))) s'"
    "top_prio (q(Rdy := tl (q Rdy))) (hd (q Rdy)) s'" "kframe ?s s'"
    "tcbs s' = tcbs (set_state (hd (q Rdy)) RUNNING (set_state n ?st ?s))"
    by blast
  moreover have "rt_evt_wait s f timeout a = Option.bind (rt_block ?s timeout ?st) (\<lambda>s1. Some (OS_R_TMO, s1))"
    using n no by (auto simp: rt_evt_wait_def Let_def)
  ultimately show ?thesis
    by (simp add: sched_def)
qed

section \<open>Posting\<close>

lemma rt_dispatch_set_ready:
  assumes "run s = Some n" and "t \<noteq> n"
  shows "rt_dispatch (set_state t READY s) (Some t) = rt_dispatch s (Some t)"
  using assms
  by (cases "tcbs s t") (simp add: rt_dispatch_def rt_switch_req_def rt_put_rdy_first_def fun_upd_twist)

text \<open>A task waiting for flags is in no list.\<close>

lemma evt_waiting_unqueued:
  assumes "krun X q d N s" and "state_of s t \<in> {WAIT_AND, WAIT_OR}"
  shows "unqueued q s t"
proof -
  have "qstate h \<notin> {WAIT_AND, WAIT_OR}" for h
    by (cases h) auto
  with krunD(5) [OF assms(1)] assms(2) show ?thesis
    by (metis unqueued_def)
qed

lemma krun_evt_post: "krun X q d N (upd_tcb t (\<lambda>_. fst (evt_post (tcbs s t) f)) s) = krun X q d N s"
  by (rule krun_tcbs) auto

text \<open>The woken task, before it is dispatched or made ready.\<close>

lemma evt_woken:
  assumes k: "krun X q d N s" and w: "snd (evt_post (tcbs s t) f)" and t: "t \<notin> X"
  shows "let s1 = rt_rmv_dly (upd_tcb t (\<lambda>_. fst (evt_post (tcbs s t) f)) s) t in
    krun X q (rmv_dly t d) N s1 \<and> unqueued q s1 t \<and> t \<notin> fst ` set (rmv_dly t d) \<and> N \<noteq> Some t \<and>
    kframe (upd_tcb t (\<lambda>_. fst (evt_post (tcbs s t) f)) s) s1 \<and> prio_of s1 = prio_of s \<and> run s1 = run s"
proof -
  let ?s = "upd_tcb t (\<lambda>_. fst (evt_post (tcbs s t) f)) s"
  have st: "state_of s t \<in> {WAIT_AND, WAIT_OR}"
    using evt_post_waiting [OF w] by simp
  have k1: "krun X q d N ?s"
    using k by (simp only: krun_evt_post)
  note R = k_rmv_dly [OF k1, of t]
  have "prio_of ?s = prio_of s"
    by auto
  then have "prio_of (rt_rmv_dly ?s t) = prio_of s"
    using kframeD(12) [OF R(4)] by simp
  moreover have "unqueued q ?s t"
    using evt_waiting_unqueued [OF k st] by (simp add: unqueued_def)
  moreover have "N \<noteq> Some t"
    using krunD(10) [OF k t] st by auto
  moreover have "t \<notin> fst ` set (rmv_dly t d)"
    by auto
  ultimately show ?thesis
    using R(1,4,5) kframeD(5) [OF R(4)] by (simp add: Let_def)
qed

lemma rt_evt_set_idle:
  assumes "active_slot s tid = Some (Some t)" and "\<not> snd (evt_post (tcbs s t) f)"
  shows "rt_evt_set s f tid = Some (upd_tcb t (events_update (\<lambda>e. e OR f)) s)"
  using assms by (cases "tcbs s t") (auto simp: rt_evt_set_def evt_post_def Let_def split: if_splits)

lemma rt_evt_set_wakes:
  assumes k: "sched X q d n s" and n: "run s = Some n" and a: "active_slot s tid = Some (Some t)" "t \<notin> X"
    and w: "snd (evt_post (tcbs s t) f)"
  shows "\<exists>s'. rt_evt_set s f tid = Some s' \<and>
    sched X (disp_q (prio_of s) n t q) (rmv_dly t d) (disp_run (prio_of s) n t) s' \<and>
    kframe (upd_tcb t (\<lambda>_. fst (evt_post (tcbs s t) f)) s) s'"
proof -
  let ?s = "upd_tcb t (\<lambda>_. fst (evt_post (tcbs s t) f)) s" and ?s1 = "rt_rmv_dly (upd_tcb t (\<lambda>_. fst (evt_post (tcbs s t) f)) s) t"
  have k': "krun X q d (Some n) s" and top: "top_prio q n s"
    using k by (simp_all add: sched_def)
  have W: "krun X q (rmv_dly t d) (Some n) ?s1" "unqueued q ?s1 t" "t \<notin> fst ` set (rmv_dly t d)" "t \<noteq> n"
    "kframe ?s ?s1" "prio_of ?s1 = prio_of s" "run ?s1 = Some n"
    using evt_woken [OF k' w a(2)] n by (auto simp: Let_def)
  have "top_prio q n ?s1"
    using top top_prio_cong [OF W(6)] by blast
  from k_dispatch_some [OF W(1) this W(7,2,3) a(2) W(4)] obtain s' where
    "rt_dispatch ?s1 (Some t) = Some s'"
    "krun X (disp_q (prio_of s) n t q) (rmv_dly t d) (Some (disp_run (prio_of s) n t)) s'"
    "top_prio (disp_q (prio_of s) n t q) (disp_run (prio_of s) n t) s'" "kframe ?s1 s'"
    unfolding W(6) by blast
  moreover have "rt_evt_set s f tid = rt_dispatch ?s1 (Some t)"
    using a w rt_dispatch_set_ready [OF W(7,4)]
    by (simp add: rt_evt_set_def split_beta Let_def)
  ultimately show ?thesis
    using W(5) by (auto simp: sched_def intro: kframe_trans)
qed

lemma rt_evt_psh_wakes:
  assumes k: "krun X q d N s" and w: "snd (evt_post (tcbs s t) f)" and t: "t \<notin> X"
  shows "\<exists>s'. rt_evt_psh s t f = Some s' \<and>
    krun X (q(Rdy := ins_prio (prio_of s) t (q Rdy))) (rmv_dly t d) N s' \<and>
    kframe (upd_tcb t (\<lambda>_. fst (evt_post (tcbs s t) f)) s) s'"
proof -
  let ?s = "upd_tcb t (\<lambda>_. fst (evt_post (tcbs s t) f)) s" and ?s1 = "rt_rmv_dly (upd_tcb t (\<lambda>_. fst (evt_post (tcbs s t) f)) s) t"
  have W: "krun X q (rmv_dly t d) N ?s1" "unqueued q ?s1 t" "t \<notin> fst ` set (rmv_dly t d)" "N \<noteq> Some t"
    "kframe ?s ?s1" "prio_of ?s1 = prio_of s"
    using evt_woken [OF k w t] by (auto simp: Let_def)
  from k_make_ready(1) [OF W(1,2,3) t] W(4) obtain s' where
    "rt_put_prio (set_state t READY ?s1) Rdy t = Some s'" "kframe ?s1 s'"
    "krun X (q(Rdy := ins_prio (prio_of s) t (q Rdy))) (rmv_dly t d) N s'"
    unfolding W(6) by (auto simp: stop_def)
  with w W(5) show ?thesis
    by (auto simp: rt_evt_psh_def split_beta Let_def intro: kframe_trans)
qed

lemma rt_evt_psh_idle:
  "\<not> snd (evt_post (tcbs s t) f) \<Longrightarrow> rt_evt_psh s t f = Some (upd_tcb t (events_update (\<lambda>e. e OR f)) s)"
  by (cases "tcbs s t") (auto simp: rt_evt_psh_def evt_post_def Let_def split: if_splits)

end
