(* ===== verification/Rtx_Psq.thy ===== *)
theory Rtx_Psq
  imports Rtx_Mailbox Rtx_Event
begin

text \<open>
  The queue of post service requests: interrupt handlers store what they want done to a kernel
  object (\<open>rt_psq_enq\<close> of \<open>rt_List.c\<close>, the \<open>isr_\<close> functions), and \<open>rt_pop_req\<close> of \<open>rt_System.c\<close>
  does it later, at the lowest interrupt priority. The queue is the ring \<open>psring\<close>.
\<close>

section \<open>The operations\<close>

abbreviation upd_psq :: "(psq \<Rightarrow> psq) \<Rightarrow> kernel \<Rightarrow> kernel" where
  "upd_psq f s \<equiv> s\<lparr>os_psq := f (os_psq s)\<rparr>"

text \<open>The index reserved for the new entry, the count and the next index; a full queue gives its size.\<close>

definition rt_inc_qi :: "u32 \<Rightarrow> u8 \<Rightarrow> u8 \<Rightarrow> u32 \<times> u8 \<times> u8" where
  "rt_inc_qi sz count first =
     (if ucast count = sz then (ucast count, count, first)
      else let c2 = (if (ucast first :: u32) + 1 = sz then 0 else (ucast first :: u32) + 1)
           in (ucast first, count + 1, ucast c2))"

definition rt_psq_enq :: "kernel \<Rightarrow> ptr \<Rightarrow> u32 \<Rightarrow> kernel option" where
  "rt_psq_enq s entry arg =
     (let b = os_psq s;
          (idx, count', first') = rt_inc_qi (ucast (q_size b)) (q_count b) (q_first b);
          b1 = b\<lparr>q_count := count', q_first := first'\<rparr>
      in if idx < ucast (q_size b)
         then Some (s\<lparr>os_psq := b1\<lparr>q_ent := (q_ent b1)(unat idx := (entry, arg))\<rparr>\<rparr>)
         else None)"

definition isr_sem_send :: "kernel \<Rightarrow> nat \<Rightarrow> kernel option" where
  "isr_sem_send s i = rt_psq_enq s (Sem i) 0"

definition isr_evt_set :: "kernel \<Rightarrow> u16 \<Rightarrow> u32 \<Rightarrow> kernel option" where
  "isr_evt_set s event_flags tid = do {
     p_tcb \<leftarrow> active_slot s tid;
     case p_tcb of None \<Rightarrow> Some s | Some t \<Rightarrow> rt_psq_enq s (Task t) (ucast event_flags)
   }"

definition isr_mbx_send :: "kernel \<Rightarrow> nat \<Rightarrow> u32 \<Rightarrow> kernel option" where
  "isr_mbx_send s i p_msg = rt_psq_enq s (Mbx i) p_msg"

definition isr_mbx_receive :: "kernel \<Rightarrow> nat \<Rightarrow> (os_result \<times> u32 option \<times> kernel) option" where
  "isr_mbx_receive s i =
     (if m_count (mcbs s i) \<noteq> 0
      then do {
        let x = mb_oldest (mcbs s i);
        s1 \<leftarrow> (if mb_state (mcbs s i) = 2 then rt_psq_enq s (Mbx i) 0 else Some s);
        Some (OS_R_MBX, Some x, upd_mbx i mb_drop s1)
      }
      else Some (OS_R_OK, None, s))"

text \<open>
  One post. The code casts the pointer to the type the block's tag names: a block of another kind
  under that tag is a type confusion, which the model does not follow.
\<close>

definition pop_post :: "kernel \<Rightarrow> ptr \<times> u32 \<Rightarrow> kernel option" where
  "pop_post s e =
     (case e of (p, arg) \<Rightarrow>
        (case cb_type s p of
           TCB \<Rightarrow> (case p of Task t \<Rightarrow> rt_evt_psh s t (ucast arg) | _ \<Rightarrow> None)
         | MCB \<Rightarrow> (case p of Mbx i \<Rightarrow> rt_mbx_psh s i arg | _ \<Rightarrow> None)
         | _ \<Rightarrow> (case p of Sem i \<Rightarrow> rt_sem_psh s i | _ \<Rightarrow> None)))"

partial_function (option) pop_loop :: "kernel \<Rightarrow> u32 \<Rightarrow> (kernel \<times> u32) option" where
  "pop_loop s idx =
     (if q_count (os_psq s) = 0 then Some (s, idx)
      else do {
        s1 \<leftarrow> pop_post s (q_ent (os_psq s) (unat idx));
        pop_loop (upd_psq (\<lambda>b. b\<lparr>q_count := q_count b - 1\<rparr>) s1)
          (if idx + 1 = ucast (q_size (os_psq s1)) then 0 else idx + 1)
      })"

definition rt_pop_req :: "kernel \<Rightarrow> kernel option" where
  "rt_pop_req s = do {
     r \<leftarrow> run s;
     (s1, idx) \<leftarrow> pop_loop (rt_put_rdy_first (set_state r READY s) r) (ucast (q_last (os_psq s)));
     (t, s2) \<leftarrow> rt_get_first (upd_psq (\<lambda>b. b\<lparr>q_last := ucast idx\<rparr>) s1) Rdy;
     Some (rt_switch_req s2 t)
   }"

section \<open>The queue as a ring\<close>

definition inc8 :: "u8 \<Rightarrow> u8 \<Rightarrow> u8" where
  "inc8 sz k = ucast (if (ucast k :: u32) + 1 = ucast sz then 0 else (ucast k :: u32) + 1)"

definition psq_put :: "psq \<Rightarrow> ptr \<times> u32 \<Rightarrow> psq" where
  "psq_put b e = b\<lparr>q_count := q_count b + 1, q_first := inc8 (q_size b) (q_first b),
     q_ent := (q_ent b)(unat (q_first b) := e)\<rparr>"

definition psq_drop :: "psq \<Rightarrow> psq" where
  "psq_drop b = b\<lparr>q_count := q_count b - 1, q_last := inc8 (q_size b) (q_last b)\<rparr>"

lemma unat_ucast_u8_add1: "unat ((ucast (k :: u8) :: u32) + 1) = unat k + 1"
  using unat_u8_less [of k] by (simp add: unat_word_ariths)

lemma unat_inc8: "k < n \<Longrightarrow> unat (inc8 n k) = next_idx (unat n) (unat k)"
proof -
  assume "k < n"
  then have "unat k + 1 \<le> unat n" "unat n < 256"
    using unat_u8_less [of n] by (simp_all add: word_less_nat_alt)
  moreover have "(ucast k :: u32) + 1 = ucast n \<longleftrightarrow> unat k + 1 = unat n"
    by (simp add: word_unat_eq_iff unat_ucast_u8_add1)
  ultimately show ?thesis
    by (simp add: inc8_def next_idx_def unat_ucast_u32_u8 unat_ucast_u8_add1)
qed

interpretation psring: ring "\<lambda>b. unat (q_size b)" "\<lambda>b. unat (q_first b)" "\<lambda>b. unat (q_last b)"
  "\<lambda>b. unat (q_count b)" q_ent psq_put psq_drop
proof
  fix b :: psq and x
  assume c: "unat (q_count b) < unat (q_size b)" and "unat (q_first b) < unat (q_size b)"
  then have f: "q_first b < q_size b"
    by (simp add: word_less_nat_alt)
  show "unat (q_size (psq_put b x)) = unat (q_size b)" "unat (q_last (psq_put b x)) = unat (q_last b)"
    "q_ent (psq_put b x) = (q_ent b)(unat (q_first b) := x)"
    "unat (q_first (psq_put b x)) = next_idx (unat (q_size b)) (unat (q_first b))"
    using unat_inc8 [OF f] by (simp_all add: psq_put_def)
  show "unat (q_count (psq_put b x)) = Suc (unat (q_count b))"
    using c unat_u8_less [of "q_size b"] by (simp add: psq_put_def unat_word_ariths)
next
  fix b :: psq
  assume c: "0 < unat (q_count b)" and "unat (q_last b) < unat (q_size b)"
  then have f: "q_last b < q_size b"
    by (simp add: word_less_nat_alt)
  show "unat (q_size (psq_drop b)) = unat (q_size b)" "unat (q_first (psq_drop b)) = unat (q_first b)"
    "q_ent (psq_drop b) = q_ent b"
    "unat (q_last (psq_drop b)) = next_idx (unat (q_size b)) (unat (q_last b))"
    using unat_inc8 [OF f] by (simp_all add: psq_drop_def)
  have "1 \<le> q_count b"
    using c by (simp add: word_le_nat_alt)
  then show "unat (q_count (psq_drop b)) = unat (q_count b) - 1"
    by (simp add: psq_drop_def unat_sub)
qed

abbreviation posts :: "kernel \<Rightarrow> (ptr \<times> u32) list" where
  "posts s \<equiv> psring.items (os_psq s)"

text \<open>An entry is stored behind the others; a full queue is an error.\<close>

lemma rt_psq_enq_eq:
  "rt_psq_enq s p a =
     (if q_count (os_psq s) = q_size (os_psq s) then None
      else if q_first (os_psq s) < q_size (os_psq s) then Some (s\<lparr>os_psq := psq_put (os_psq s) (p, a)\<rparr>)
      else None)"
proof -
  have eq: "(ucast (x :: u8) :: u32) = ucast y \<longleftrightarrow> x = y" for x y
    by (simp add: word_unat_eq_iff)
  have less: "(ucast (x :: u8) :: u32) < ucast y \<longleftrightarrow> x < y" for x y
    by (simp add: word_less_nat_alt)
  show ?thesis
    by (simp add: rt_psq_enq_def rt_inc_qi_def eq less Let_def psq_put_def inc8_def)
qed

lemma rt_psq_enq_posts:
  assumes "psring.wf (os_psq s)" and "q_count (os_psq s) \<noteq> q_size (os_psq s)"
  shows "\<exists>s'. rt_psq_enq s p a = Some s' \<and> s' = s\<lparr>os_psq := os_psq s'\<rparr> \<and> psring.wf (os_psq s') \<and>
    posts s' = posts s @ [(p, a)]"
proof -
  have "unat (q_first (os_psq s)) < unat (q_size (os_psq s))"
    using psring.wf_head [OF assms(1)] .
  moreover have "unat (q_count (os_psq s)) < unat (q_size (os_psq s))"
    using assms by (auto simp: psring.wf_def word_unat_eq_iff)
  ultimately show ?thesis
    using assms psring.wf_put [OF assms(1)] psring.items_put [OF assms(1)]
    by (simp add: rt_psq_enq_eq word_less_nat_alt)
qed

lemma rt_psq_enq_full: "q_count (os_psq s) = q_size (os_psq s) \<Longrightarrow> rt_psq_enq s p a = None"
  by (simp add: rt_psq_enq_eq)

section \<open>Processing the posts\<close>

text \<open>A post names an initialised object of its kind, or a task that is not dead.\<close>

fun post_ok :: "nat set \<Rightarrow> kernel \<Rightarrow> ptr \<times> u32 \<Rightarrow> bool" where
  "post_ok X s (Task t, a) = (t \<notin> X)"
| "post_ok X s (Sem i, a) = (cb_type s (Sem i) = SCB)"
| "post_ok X s (Mbx i, a) = (cb_type s (Mbx i) = MCB)"
| "post_ok X s _ = False"

fun post_plain :: "ptr \<times> u32 \<Rightarrow> bool" where
  "post_plain (Mbx i, a) = False"
| "post_plain _ = True"

text \<open>
  What a post keeps: it only takes tasks off waiting lists. \<open>p\<close> says that the post is not to a
  mailbox.
\<close>

definition post_step ::
    "bool \<Rightarrow> nat set \<Rightarrow> (ptr \<Rightarrow> nat list) \<Rightarrow> (nat \<times> nat) list \<Rightarrow> kernel \<Rightarrow>
     (ptr \<Rightarrow> nat list) \<Rightarrow> (nat \<times> nat) list \<Rightarrow> kernel \<Rightarrow> bool" where
  "post_step p X q d s q' d' s' \<longleftrightarrow>
     krun X q' d' None s' \<and> os_psq s' = os_psq s \<and> cb_type s' = cb_type s \<and> mucbs s' = mucbs s \<and>
     run s' = run s \<and> os_active_TCB s' = os_active_TCB s \<and> prio_of s' = prio_of s \<and>
     (\<forall>t. task_id (tcbs s' t) = task_id (tcbs s t)) \<and> (p \<longrightarrow> mcbs s' = mcbs s) \<and>
     (\<forall>h. h \<noteq> Rdy \<longrightarrow> set (q' h) \<subseteq> set (q h)) \<and> set (q Rdy) \<subseteq> set (q' Rdy) \<and>
     (sem_ok q s \<longrightarrow> sem_ok q' s')"

lemma post_step_trans:
  "post_step p X q d s q' d' s' \<Longrightarrow> post_step p X q' d' s' q'' d'' s'' \<Longrightarrow> post_step p X q d s q'' d'' s''"
  unfolding post_step_def by (simp, blast)

lemma sem_ok_sub:
  assumes "sem_ok q s" and "scbs s' = scbs s" "cb_type s' = cb_type s" and "\<And>i. set (q' (Sem i)) \<subseteq> set (q (Sem i))"
  shows "sem_ok q' s'"
  using assms unfolding sem_ok_def by (metis set_empty subset_empty)

lemma post_wake_step:
  assumes k: "krun X (q(h := ts, Rdy := ins_prio (prio_of s) t (q Rdy))) (rmv_dly t d) None s'"
    and q: "q h = t # ts" "h \<noteq> Rdy" and fr: "kframe (F s) s'" and F: "aside F"
    and eqs: "os_psq (F s) = os_psq s" "cb_type (F s) = cb_type s" "mucbs (F s) = mucbs s"
      "os_active_TCB (F s) = os_active_TCB s" "scbs (F s) = scbs s" "p \<Longrightarrow> mcbs (F s) = mcbs s"
      "\<And>t. task_id (tcbs (F s) t) = task_id (tcbs s t)"
  shows "post_step p X q d s (q(h := ts, Rdy := ins_prio (prio_of s) t (q Rdy))) (rmv_dly t d) s'"
proof -
  note K = kframeD [OF fr] and A = aside.run_F [OF F] aside.prio_F [OF F]
  let ?q = "q(h := ts, Rdy := ins_prio (prio_of s) t (q Rdy))"
  have sub: "h' \<noteq> Rdy \<Longrightarrow> set (?q h') \<subseteq> set (q h')" for h'
    using q(1) by auto
  moreover have "sem_ok ?q s'" if "sem_ok q s"
    by (rule sem_ok_sub [OF that]) (use sub K(1,4) eqs in simp_all)
  moreover have "set (q Rdy) \<subseteq> set (?q Rdy)"
    by auto
  ultimately show ?thesis
    using k K A eqs unfolding post_step_def by simp
qed

lemma post_step_refl:
  assumes "krun X q d None s'" and "os_psq s' = os_psq s" "cb_type s' = cb_type s" "mucbs s' = mucbs s"
    "run s' = run s" "os_active_TCB s' = os_active_TCB s" "prio_of s' = prio_of s" and "sem_ok q s \<Longrightarrow> sem_ok q s'"
    and "\<And>t. task_id (tcbs s' t) = task_id (tcbs s t)" and "p \<Longrightarrow> mcbs s' = mcbs s"
  shows "post_step p X q d s q d s'"
  using assms by (simp add: post_step_def)

lemma pop_sem:
  assumes k: "krun X q d None s" and i: "cb_type s (Sem i) = SCB"
  shows "\<exists>q' d' s'. rt_sem_psh s i = Some s' \<and> post_step p X q d s q' d' s'"
proof (cases "q (Sem i)")
  case Nil
  let ?s = "s\<lparr>scbs := (scbs s)(i := (scbs s i)\<lparr>tokens := tokens (scbs s i) + 1\<rparr>)\<rparr>"
  have "rt_sem_psh s i = Some ?s"
    using krun_lnk_None [OF k, of "Sem i"] Nil i by (simp add: rt_sem_psh_def live_def)
  moreover have "post_step p X q d s q d ?s"
    by (rule post_step_refl) (use k Nil in \<open>auto simp: sem_ok_def\<close>)
  ultimately show ?thesis
    by blast
next
  case (Cons t ts)
  from rt_sem_psh_waiting [OF k i Cons] obtain s' where s': "rt_sem_psh s i = Some s'"
    "krun X (q(Sem i := ts, Rdy := ins_prio (prio_of s) t (q Rdy))) (rmv_dly t d) None s'"
    "kframe (rt_ret_val t 1 s) s'" by blast
  have "post_step p X q d s (q(Sem i := ts, Rdy := ins_prio (prio_of s) t (q Rdy))) (rmv_dly t d) s'"
    by (rule post_wake_step [OF s'(2) Cons _ s'(3) ret_val.aside_axioms]) (simp_all add: rt_ret_val_def)
  with s'(1) show ?thesis
    by blast
qed

lemma pop_evt:
  assumes k: "krun X q d None s" and t: "t \<notin> X"
  shows "\<exists>q' d' s'. rt_evt_psh s t f = Some s' \<and> post_step p X q d s q' d' s'"
proof (cases "snd (evt_post (tcbs s t) f)")
  case False
  let ?s = "upd_tcb t (events_update (\<lambda>e. e OR f)) s"
  have "post_step p X q d s q d ?s"
    by (rule post_step_refl) (use k in \<open>auto simp: sem_ok_def\<close>)
  with rt_evt_psh_idle [OF False] show ?thesis
    by blast
next
  case True
  let ?s = "upd_tcb t (\<lambda>_. fst (evt_post (tcbs s t) f)) s"
  from rt_evt_psh_wakes [OF k True t] obtain s' where s': "rt_evt_psh s t f = Some s'"
    "krun X (q(Rdy := ins_prio (prio_of s) t (q Rdy))) (rmv_dly t d) None s'" "kframe ?s s'"
    by blast
  have "prio_of ?s = prio_of s"
    by auto
  with s'(2) kframeD [OF s'(3)] have
    "post_step p X q d s (q(Rdy := ins_prio (prio_of s) t (q Rdy))) (rmv_dly t d) s'"
    by (auto simp: post_step_def sem_ok_def)
  with s'(1) show ?thesis
    by blast
qed

lemma pop_mbx:
  assumes k: "krun X q d None s" and i: "cb_type s (Mbx i) = MCB" and op: "rt_mbx_psh s i a = Some s'"
  shows "\<exists>q' d'. post_step False X q d s q' d' s'"
proof (cases "q (Mbx i)")
  case Nil
  then have "s' = upd_mbx i (\<lambda>b. mb_put b a) s"
    using op mbx_lnk' [OF k i] by (auto simp: rt_mbx_psh_def split: if_splits)
  then have "post_step False X q d s q d s'"
    by (intro post_step_refl) (use k in \<open>auto simp: sem_ok_def\<close>)
  then show ?thesis
    by blast
next
  case (Cons t ts)
  have lnk: "p_lnk s (Mbx i) \<noteq> None"
    using Cons mbx_lnk' [OF k i] by auto
  have same: "\<exists>q' d'. post_step False X q d s q' d' s" if "s' = s"
    using post_step_refl [of X q d s s] k by auto
  consider "mb_state (mcbs s i) = 1" | "mb_state (mcbs s i) = 2" | "mb_state (mcbs s i) = 3"
    | "mb_state (mcbs s i) \<notin> {1, 2, 3}"
    by blast
  then show ?thesis
  proof cases
    case 1
    from rt_mbx_psh_receiver [OF k i Cons 1, of a] op have
      *: "krun X (q(Mbx i := ts, Rdy := ins_prio (prio_of s) t (q Rdy))) (rmv_dly t d) None s'"
        "kframe (rt_ret_val2 t 0x10 a s) s'"
      by auto
    have "post_step False X q d s (q(Mbx i := ts, Rdy := ins_prio (prio_of s) t (q Rdy))) (rmv_dly t d) s'"
      by (rule post_wake_step [OF *(1) Cons _ *(2) ret_val2.aside_axioms]) (simp_all add: rt_ret_val2_def)
    then show ?thesis
      by blast
  next
    case 2
    from rt_mbx_psh_sender [OF k i Cons 2, of a] op have
      *: "krun X (q(Mbx i := ts, Rdy := ins_prio (prio_of s) t (q Rdy))) (rmv_dly t d) None s'"
        "kframe (upd_mbx i (\<lambda>b. mb_put b (msg (tcbs s t))) (rt_ret_val t 0 s)) s'"
      by auto
    have "post_step False X q d s (q(Mbx i := ts, Rdy := ins_prio (prio_of s) t (q Rdy))) (rmv_dly t d) s'"
      by (rule post_wake_step [where F = "\<lambda>s'. upd_mbx i (\<lambda>b. mb_put b (msg (tcbs s t))) (rt_ret_val t 0 s')",
            OF *(1) Cons _ *(2) aside_comp [OF mcb_update.aside_axioms ret_val.aside_axioms]])
        (simp_all add: rt_ret_val_def)
    then show ?thesis
      by blast
  next
    case 3
    obtain m mem' where al: "rt_alloc_box (mem s) a = (m, mem')"
      by fastforce
    let ?s = "s\<lparr>mem := mem'\<rparr>"
    show ?thesis
    proof (cases "m = 0")
      case True
      then have "s' = ?s"
        using op lnk 3 al by (simp add: rt_mbx_psh_def)
      then have "post_step False X q d s q d s'"
        by (intro post_step_refl) (use k in \<open>auto simp: sem_ok_def\<close>)
      then show ?thesis
        by blast
    next
      case False
      have "krun X q d None ?s" and l: "live ?s (Mbx i)"
        using k i by (simp_all add: live_def)
      from ret_val.wake_ready [OF this _ Cons, of t m] op lnk 3 al False have
        *: "krun X (q(Mbx i := ts, Rdy := ins_prio (prio_of ?s) t (q Rdy))) (rmv_dly t d) None s'"
          "kframe (rt_ret_val t m ?s) s'"
        by (auto simp: rt_mbx_psh_def rt_rmv_dly_set_state)
      have "post_step False X q d ?s (q(Mbx i := ts, Rdy := ins_prio (prio_of ?s) t (q Rdy))) (rmv_dly t d) s'"
        by (rule post_wake_step [OF *(1) Cons _ *(2) ret_val.aside_axioms]) (simp_all add: rt_ret_val_def)
      then have "post_step False X q d s (q(Mbx i := ts, Rdy := ins_prio (prio_of ?s) t (q Rdy))) (rmv_dly t d) s'"
        by (simp add: post_step_def sem_ok_def)
      then show ?thesis
        by blast
    qed
  next
    case 4
    then show ?thesis
      using op lnk same by (auto simp: rt_mbx_psh_def)
  qed
qed

lemma pop_post_step:
  assumes k: "krun X q d None s" and e: "post_ok X s e" "p \<Longrightarrow> post_plain e" and op: "pop_post s e = Some s'"
  shows "\<exists>q' d'. post_step p X q d s q' d' s'"
  using e
proof (cases rule: post_ok.cases [of "(X, s, e)"])
  case (1 _ _ t a)
  have "cb_type s (Task t) = TCB"
    using lists_invD(1) [OF krunD(1) [OF k]] by (simp add: cb_ok_def)
  with 1 e op pop_evt [OF k, of t "ucast a"] show ?thesis
    by (auto simp: pop_post_def)
next
  case (2 _ _ i a)
  with e op pop_sem [OF k, of i] show ?thesis
    by (auto simp: pop_post_def)
next
  case (3 _ _ i a)
  with e op pop_mbx [OF k, of i a s'] show ?thesis
    by (auto simp: pop_post_def post_step_def)
qed auto

text \<open>Posts to tasks and semaphores cannot fail.\<close>

lemma pop_post_total:
  assumes k: "krun X q d None s" and e: "post_ok X s e" "post_plain e"
  shows "\<exists>s'. pop_post s e = Some s'"
  using e
proof (cases rule: post_ok.cases [of "(X, s, e)"])
  case (1 _ _ t a)
  have "cb_type s (Task t) = TCB"
    using lists_invD(1) [OF krunD(1) [OF k]] by (simp add: cb_ok_def)
  with 1 e pop_evt [OF k, of t "ucast a"] show ?thesis
    by (auto simp: pop_post_def)
next
  case (2 _ _ i a)
  with e pop_sem [OF k, of i] show ?thesis
    by (auto simp: pop_post_def)
qed auto

lemma post_ok_cong: "cb_type s' = cb_type s \<Longrightarrow> post_ok X s' e = post_ok X s e"
  by (cases "(X, s, e)" rule: post_ok.cases) auto

text \<open>The view of the queue from the running index \<open>idx\<close>, and one turn of the loop.\<close>

definition psq_at :: "psq \<Rightarrow> u8 \<Rightarrow> psq" where
  "psq_at b k = b\<lparr>q_last := k\<rparr>"

lemma pop_loop_turn:
  assumes b: "psring.wf (psq_at (os_psq s) k)" "q_count (os_psq s) \<noteq> 0"
    and post: "pop_post s (hd (psring.items (psq_at (os_psq s) k))) = Some s1" "os_psq s1 = os_psq s"
  shows "pop_loop s (ucast k) =
      pop_loop (upd_psq (\<lambda>b. b\<lparr>q_count := q_count b - 1\<rparr>) s1) (ucast (inc8 (q_size (os_psq s)) k))"
    and "psq_at (os_psq (upd_psq (\<lambda>b. b\<lparr>q_count := q_count b - 1\<rparr>) s1)) (inc8 (q_size (os_psq s)) k) =
      psq_drop (psq_at (os_psq s) k)"
proof -
  have c: "0 < unat (q_count (psq_at (os_psq s) k))"
    using b(2) by (simp add: psq_at_def unat_gt_0)
  have "hd (psring.items (psq_at (os_psq s) k)) = q_ent (os_psq s) (unat k)"
    using psring.items_drop [OF b(1) c] by (simp add: psq_at_def)
  moreover have k: "k < q_size (os_psq s)"
    using b(1) by (simp add: psring.wf_def psq_at_def word_less_nat_alt)
  have less: "unat k + 1 \<le> unat (q_size (os_psq s))"
    using k by (simp add: word_less_nat_alt)
  have "(if (ucast k :: u32) + 1 = ucast (q_size (os_psq s)) then 0 else (ucast k :: u32) + 1) =
      ucast (inc8 (q_size (os_psq s)) k)"
    using unat_inc8 [OF k] less
    by (auto simp: word_unat_eq_iff unat_ucast_u8_add1 next_idx_def)
  ultimately show "pop_loop s (ucast k) =
      pop_loop (upd_psq (\<lambda>b. b\<lparr>q_count := q_count b - 1\<rparr>) s1) (ucast (inc8 (q_size (os_psq s)) k))"
    using b(2) post by (simp add: pop_loop.simps [of s])
  show "psq_at (os_psq (upd_psq (\<lambda>b. b\<lparr>q_count := q_count b - 1\<rparr>) s1)) (inc8 (q_size (os_psq s)) k) =
      psq_drop (psq_at (os_psq s) k)"
    using post(2) by (simp add: psq_at_def psq_drop_def)
qed

lemma pop_loop_fault:
  assumes b: "psring.wf (psq_at (os_psq s) k)" "q_count (os_psq s) \<noteq> 0"
    and post: "pop_post s (hd (psring.items (psq_at (os_psq s) k))) = None"
  shows "pop_loop s (ucast k) = None"
proof -
  have c: "0 < unat (q_count (psq_at (os_psq s) k))"
    using b(2) by (simp add: psq_at_def unat_gt_0)
  have "hd (psring.items (psq_at (os_psq s) k)) = q_ent (os_psq s) (unat k)"
    using psring.items_drop [OF b(1) c] by (simp add: psq_at_def)
  with b(2) post show ?thesis
    by (simp add: pop_loop.simps [of s])
qed

text \<open>The loop, for any queue it comes to the end of, and the guarantee that it does for plain posts.\<close>

definition popped ::
    "bool \<Rightarrow> nat set \<Rightarrow> (ptr \<Rightarrow> nat list) \<Rightarrow> (nat \<times> nat) list \<Rightarrow> kernel \<Rightarrow> kernel \<times> u32 \<Rightarrow> bool" where
  "popped p X q d s r \<longleftrightarrow> (\<exists>q' d' s' k. r = (s', ucast (k :: u8)) \<and>
     post_step p X q d s q' d' (s'\<lparr>os_psq := os_psq s\<rparr>) \<and>
     psring.wf (psq_at (os_psq s') k) \<and> q_count (os_psq s') = 0)"

lemma pop_loop_popped:
  assumes "krun X q d None s" and "psring.wf (psq_at (os_psq s) k)"
    and "\<forall>e \<in> set (psring.items (psq_at (os_psq s) k)). post_ok X s e \<and> (p \<longrightarrow> post_plain e)"
  shows "(\<forall>r. pop_loop s (ucast k) = Some r \<longrightarrow> popped p X q d s r) \<and>
    ((\<forall>e \<in> set (psring.items (psq_at (os_psq s) k)). post_plain e) \<longrightarrow> (\<exists>r. pop_loop s (ucast k) = Some r))"
  using assms
proof (induction "unat (q_count (os_psq s))" arbitrary: s q d k)
  case 0
  then have z: "q_count (os_psq s) = 0"
    by (simp add: unat_eq_0)
  then have "pop_loop s (ucast k) = Some (s, ucast k)"
    by (simp add: pop_loop.simps [of s])
  moreover have "popped p X q d s (s, ucast k)"
    unfolding popped_def using post_step_refl [of X q d s s] 0 z by auto
  ultimately show ?case
    by simp
next
  case (Suc c)
  let ?b = "psq_at (os_psq s) k" and ?k = "inc8 (q_size (os_psq s)) k"
  have c: "q_count (os_psq s) \<noteq> 0" "0 < unat (q_count ?b)"
    using Suc.hyps(2) by (auto simp: psq_at_def)
  note items = psring.items_drop [OF Suc.prems(2) c(2)]
  let ?e = "hd (psring.items ?b)"
  have e: "?e \<in> set (psring.items ?b)" and sub: "set (psring.items (psq_drop ?b)) \<subseteq> set (psring.items ?b)"
    using items by auto
  show ?case
  proof (cases "pop_post s ?e")
    case None
    then have "pop_loop s (ucast k) = None"
      by (rule pop_loop_fault [OF Suc.prems(2) c(1)])
    moreover have "\<not> (\<forall>e \<in> set (psring.items ?b). post_plain e)"
      using pop_post_total [OF Suc.prems(1)] Suc.prems(3) e None by fastforce
    ultimately show ?thesis
      by simp
  next
    case (Some s1)
    obtain q1 d1 where st: "post_step p X q d s q1 d1 s1"
      using pop_post_step [OF Suc.prems(1) _ _ Some] Suc.prems(3) e by blast
    then have s1: "krun X q1 d1 None s1" "os_psq s1 = os_psq s" "cb_type s1 = cb_type s"
      by (auto simp: post_step_def)
    let ?s = "upd_psq (\<lambda>b. b\<lparr>q_count := q_count b - 1\<rparr>) s1"
    note turn = pop_loop_turn [OF Suc.prems(2) c(1) Some s1(2)]
    have k: "krun X q1 d1 None ?s"
      using s1(1) by simp
    have wf: "psring.wf (psq_at (os_psq ?s) ?k)"
      unfolding turn(2) by (rule psring.wf_drop [OF Suc.prems(2) c(2)])
    have cnt: "c = unat (q_count (os_psq ?s))"
      using Suc.hyps(2) c(1) s1(2) psring.cnt_drop [OF c(2)] Suc.prems(2)
      by (simp add: psring.wf_def psq_at_def psq_drop_def)
    have ok: "\<forall>e \<in> set (psring.items (psq_at (os_psq ?s) ?k)). post_ok X ?s e \<and> (p \<longrightarrow> post_plain e)"
      unfolding turn(2) using Suc.prems(3) sub post_ok_cong [of ?s s X] s1(3) by auto
    from Suc.hyps(1) [OF cnt k wf ok] have
      IH: "\<And>r. pop_loop s (ucast k) = Some r \<Longrightarrow> popped p X q1 d1 ?s r"
        "(\<forall>e \<in> set (psring.items (psq_drop ?b)). post_plain e) \<Longrightarrow> \<exists>r. pop_loop s (ucast k) = Some r"
      unfolding turn by blast+
    have "popped p X q d s r" if "popped p X q1 d1 ?s r" for r
    proof -
      from that obtain q' d' s' k' where r: "r = (s', ucast (k' :: u8))"
        "post_step p X q1 d1 ?s q' d' (s'\<lparr>os_psq := os_psq ?s\<rparr>)" "psring.wf (psq_at (os_psq s') k')"
        "q_count (os_psq s') = 0"
        by (auto simp: popped_def)
      have "post_step p X q1 d1 s1 q' d' (s'\<lparr>os_psq := os_psq s1\<rparr>)"
        using r(2) by (simp add: post_step_def sem_ok_def)
      with st have "post_step p X q d s q' d' (s'\<lparr>os_psq := os_psq s\<rparr>)"
        unfolding s1(2) by (rule post_step_trans)
      with r show ?thesis
        unfolding popped_def by blast
    qed
    with IH sub show ?thesis
      by blast
  qed
qed

section \<open>The post service handler\<close>

lemma psq_at_self [simp]: "psq_at b (q_last b) = b"
  by (simp add: psq_at_def)

text \<open>What the handler has done when it comes to its end.\<close>

definition pop_effect ::
    "(ptr \<Rightarrow> nat list) \<Rightarrow> nat \<Rightarrow> kernel \<Rightarrow> (ptr \<Rightarrow> nat list) \<Rightarrow> nat \<Rightarrow> kernel \<Rightarrow> bool" where
  "pop_effect q n s q' n' s' \<longleftrightarrow>
     psring.wf (os_psq s') \<and> posts s' = [] \<and>
     cb_type s' = cb_type s \<and> mucbs s' = mucbs s \<and> run s' = run s \<and> os_active_TCB s' = os_active_TCB s \<and>
     prio_of s' = prio_of s \<and> (\<forall>t. task_id (tcbs s' t) = task_id (tcbs s t)) \<and>
     ((\<forall>e \<in> set (posts s). post_plain e) \<longrightarrow> mcbs s' = mcbs s) \<and>
     (\<forall>h. h \<noteq> Rdy \<longrightarrow> set (q' h) \<subseteq> set (q h)) \<and>
     insert n (set (q Rdy)) \<subseteq> insert n' (set (q' Rdy)) \<and> (sem_ok q s \<longrightarrow> sem_ok q' s')"

lemma rt_pop_req_sched:
  assumes k: "sched X q d n s" and n: "run s = Some n" and wf: "psring.wf (os_psq s)"
    and ok: "\<forall>e \<in> set (posts s). post_ok X s e"
  shows "rt_pop_req s = Some s' \<Longrightarrow> \<exists>q' d' n'. sched X q' d' n' s' \<and> pop_effect q n s q' n' s'"
    and "\<forall>e \<in> set (posts s). post_plain e \<Longrightarrow> \<exists>s'. rt_pop_req s = Some s'"
proof -
  let ?s0 = "rt_put_rdy_first (set_state n READY s) n" and ?q0 = "q(Rdy := n # q Rdy)"
  define p where "p \<longleftrightarrow> (\<forall>e \<in> set (posts s). post_plain e)"
  have k': "krun X q d (Some n) s" "top_prio q n s"
    using k by (simp_all add: sched_def)
  note P = k_park [OF k']
  note F0 = kframeD [OF P(2)]
  have b0: "psq_at (os_psq ?s0) (q_last (os_psq s)) = os_psq s"
    using F0(11) by simp
  have ok0: "\<forall>e \<in> set (posts s). post_ok X ?s0 e \<and> (p \<longrightarrow> post_plain e)"
    using ok post_ok_cong [OF F0(4)] by (auto simp: p_def)
  have L: "\<And>r. pop_loop ?s0 (ucast (q_last (os_psq s))) = Some r \<Longrightarrow> popped p X ?q0 d ?s0 r"
    "(\<forall>e \<in> set (posts s). post_plain e) \<Longrightarrow> \<exists>r. pop_loop ?s0 (ucast (q_last (os_psq s))) = Some r"
    using pop_loop_popped [OF P(1), of "q_last (os_psq s)" p] wf ok0 unfolding b0 by blast+
  have fin: "\<exists>s'. do { (t, s2) \<leftarrow> rt_get_first (upd_psq (\<lambda>b. b\<lparr>q_last := ucast idx\<rparr>) s1) Rdy; Some (rt_switch_req s2 t) } = Some s' \<and>
      (\<exists>q' d' n'. sched X q' d' n' s' \<and> pop_effect q n s q' n' s')"
    if pp: "popped p X ?q0 d ?s0 (s1, idx)" for s1 idx
  proof -
    from pp obtain q1 d1 k where r: "idx = ucast (k :: u8)"
      "post_step p X ?q0 d ?s0 q1 d1 (s1\<lparr>os_psq := os_psq ?s0\<rparr>)" "psring.wf (psq_at (os_psq s1) k)"
      "q_count (os_psq s1) = 0"
      unfolding popped_def by blast
    have u: "ucast (ucast k :: u32) = k"
      by (simp add: word_unat_eq_iff unat_ucast_u32_u8 unat_u8_less)
    let ?s1 = "upd_psq (\<lambda>b. b\<lparr>q_last := k\<rparr>) s1"
    have k1: "krun X q1 d1 None ?s1"
      using r(2) by (simp add: post_step_def)
    from k_dispatch_none [OF k1] obtain s' where s': "rt_dispatch ?s1 None = Some s'"
      "krun X (q1(Rdy := tl (q1 Rdy))) d1 (Some (hd (q1 Rdy))) s'"
      "top_prio (q1(Rdy := tl (q1 Rdy))) (hd (q1 Rdy)) s'" "kframe ?s1 s'"
      by blast
    note F = kframeD [OF s'(4)]
    have psq: "os_psq s' = psq_at (os_psq s1) k"
      using F(11) by (simp add: psq_at_def)
    have sub: "\<forall>h. h \<noteq> Rdy \<longrightarrow> set (q1 h) \<subseteq> set (q h)" and rdy: "insert n (set (q Rdy)) \<subseteq> set (q1 Rdy)"
      using r(2) by (auto simp: post_step_def)
    have "q1 Rdy \<noteq> []"
      using rdy by auto
    then have "set (q1 Rdy) = insert (hd (q1 Rdy)) (set (tl (q1 Rdy)))"
      by (cases "q1 Rdy") auto
    moreover have "sem_ok (q1(Rdy := tl (q1 Rdy))) s'" if "sem_ok q s"
      using r(2) that F(1,4) F0(1,4) by (simp add: post_step_def sem_ok_def)
    moreover have "prio_of s' = prio_of s" "cb_type s' = cb_type s" "mucbs s' = mucbs s" "run s' = run s"
      "os_active_TCB s' = os_active_TCB s"
      using r(2) F F0 by (auto simp: post_step_def)
    moreover have "(\<forall>e \<in> set (posts s). post_plain e) \<longrightarrow> mcbs s' = mcbs s"
      "\<forall>t. task_id (tcbs s' t) = task_id (tcbs s t)"
      using r(2) F(2,14) F0(2,14) by (simp_all add: post_step_def p_def [symmetric])
    moreover have "posts s' = []" "psring.wf (os_psq s')"
      using r(3,4) unfolding psq by (simp_all add: psring.items_def psq_at_def)
    ultimately have "pop_effect q n s (q1(Rdy := tl (q1 Rdy))) (hd (q1 Rdy)) s'"
      unfolding pop_effect_def using sub rdy by (intro conjI) simp_all
    moreover have "sched X (q1(Rdy := tl (q1 Rdy))) d1 (hd (q1 Rdy)) s'"
      using s'(2,3) by (simp add: sched_def)
    moreover have "do { (t, s2) \<leftarrow> rt_get_first (upd_psq (\<lambda>b. b\<lparr>q_last := ucast idx\<rparr>) s1) Rdy;
        Some (rt_switch_req s2 t) } = Some s'"
      using s'(1) unfolding dispatch_none_eq r(1) u .
    ultimately show ?thesis
      by blast
  qed
  show "\<exists>q' d' n'. sched X q' d' n' s' \<and> pop_effect q n s q' n' s'"
    if "rt_pop_req s = Some s'"
  proof -
    from that n obtain s1 idx where "pop_loop ?s0 (ucast (q_last (os_psq s))) = Some (s1, idx)"
      "do { (t, s2) \<leftarrow> rt_get_first (upd_psq (\<lambda>b. b\<lparr>q_last := ucast idx\<rparr>) s1) Rdy; Some (rt_switch_req s2 t) } = Some s'"
      by (auto simp: rt_pop_req_def elim!: bind_SomeE)
    then show ?thesis
      using fin [OF L(1)] by fastforce
  qed
  show "\<exists>s'. rt_pop_req s = Some s'" if "\<forall>e \<in> set (posts s). post_plain e"
  proof -
    from L(2) [OF that] obtain s1 idx where p: "pop_loop ?s0 (ucast (q_last (os_psq s))) = Some (s1, idx)"
      by fastforce
    from fin [OF L(1) [OF p]] p n show ?thesis
      by (auto simp: rt_pop_req_def)
  qed
qed

end
