(* ===== verification/Rtx_Timer.thy ===== *)
theory Rtx_Timer
  imports Rtx_Psq
begin

text \<open>
  The user timers of \<open>rt_CMSIS.c\<close>: a list of running timers, each with the ticks between the expiry
  of its predecessor and its own (\<open>tm_tcnt\<close>). \<open>tmr_inv xs ts\<close> turns them into absolute times: \<open>xs\<close>
  lists the running timers with the ticks they still have, in the order in which they expire.
\<close>

section \<open>The operations\<close>

datatype os_status = osOK | osEventSignal | osEventMessage | osEventMail | osEventTimeout
  | osErrorParameter | osErrorResource | osErrorTimeoutResource | osErrorISR | osErrorISRRecursive
  | osErrorPriority | osErrorNoMemory | osErrorValue | osErrorOS

definition osWaitForever :: u32 where
  "osWaitForever = 0xFFFFFFFF"

definition rt_ms2tick :: "u32 \<Rightarrow> u32 \<Rightarrow> u32" where
  "rt_ms2tick os_clockrate millisec =
     (if millisec = osWaitForever then 0xFFFF
      else if 4000000 < millisec then 0xFFFE
      else let tick = (1000 * millisec + os_clockrate - 1) div os_clockrate
           in if 0xFFFE < tick then 0xFFFE else tick)"

record tmr =
  tm_next :: "nat option"
  tm_state :: u8
  tm_type :: u8
  tm_tcnt :: u16
  tm_icnt :: u16
  tm_arg :: u32
  tm_fp :: u32

record timers =
  tmr_head :: "nat option"
  tmrs :: "nat \<Rightarrow> tmr"

definition osTimerInvalid :: u8 where "osTimerInvalid = 0"
definition osTimerStopped :: u8 where "osTimerStopped = 1"
definition osTimerRunning :: u8 where "osTimerRunning = 2"
definition osTimerOnce :: u8 where "osTimerOnce = 0"
definition osTimerPeriodic :: u8 where "osTimerPeriodic = 1"

abbreviation upd_tmr :: "nat \<Rightarrow> (tmr \<Rightarrow> tmr) \<Rightarrow> timers \<Rightarrow> timers" where
  "upd_tmr t f ts \<equiv> ts\<lparr>tmrs := (tmrs ts)(t := f (tmrs ts t))\<rparr>"

text \<open>The search loops of \<open>rt_timer_insert\<close> and \<open>rt_timer_remove\<close>: the predecessor and the place.\<close>

partial_function (option) timer_find ::
    "timers \<Rightarrow> nat option \<Rightarrow> nat option \<Rightarrow> u32 \<Rightarrow> (nat option \<times> nat option \<times> u32) option" where
  "timer_find ts prev p tcnt =
     (case p of
        None \<Rightarrow> Some (prev, None, tcnt)
      | Some u \<Rightarrow>
          if tcnt < ucast (tm_tcnt (tmrs ts u)) then Some (prev, Some u, tcnt)
          else timer_find ts (Some u) (tm_next (tmrs ts u)) (tcnt - ucast (tm_tcnt (tmrs ts u))))"

definition link_prev :: "nat option \<Rightarrow> nat option \<Rightarrow> timers \<Rightarrow> timers" where
  "link_prev prev p ts =
     (case prev of None \<Rightarrow> ts\<lparr>tmr_head := p\<rparr> | Some v \<Rightarrow> upd_tmr v (tm_next_update (\<lambda>_. p)) ts)"

definition rt_timer_insert :: "timers \<Rightarrow> nat \<Rightarrow> u32 \<Rightarrow> timers option" where
  "rt_timer_insert ts pt tcnt = do {
     (prev, p, c) \<leftarrow> timer_find ts None (tmr_head ts) tcnt;
     let ts1 = upd_tmr pt (\<lambda>t. t\<lparr>tm_next := p, tm_tcnt := ucast c\<rparr>) ts;
     let ts2 = (case p of
                  None \<Rightarrow> ts1
                | Some u \<Rightarrow> upd_tmr u (tm_tcnt_update (\<lambda>x. x - tm_tcnt (tmrs ts1 pt))) ts1);
     Some (link_prev prev (Some pt) ts2)
   }"

partial_function (option) timer_search ::
    "timers \<Rightarrow> nat \<Rightarrow> nat option \<Rightarrow> nat option \<Rightarrow> (nat option \<times> nat option) option" where
  "timer_search ts pt prev p =
     (case p of
        None \<Rightarrow> Some (prev, None)
      | Some u \<Rightarrow> if u = pt then Some (prev, p) else timer_search ts pt (Some u) (tm_next (tmrs ts u)))"

text \<open>The flag is true for the result 0 and false for the result -1.\<close>

definition rt_timer_remove :: "timers \<Rightarrow> nat \<Rightarrow> (bool \<times> timers) option" where
  "rt_timer_remove ts pt = do {
     (prev, p) \<leftarrow> timer_search ts pt None (tmr_head ts);
     Some (case p of
             None \<Rightarrow> (False, ts)
           | Some _ \<Rightarrow>
               let ts1 = link_prev prev (tm_next (tmrs ts pt)) ts
               in (True, case tm_next (tmrs ts1 pt) of
                           None \<Rightarrow> ts1
                         | Some u \<Rightarrow> upd_tmr u (tm_tcnt_update (\<lambda>x. x + tm_tcnt (tmrs ts1 pt))) ts1))
   }"

definition svcTimerStart :: "u32 \<Rightarrow> timers \<Rightarrow> nat option \<Rightarrow> u32 \<Rightarrow> (os_status \<times> timers) option" where
  "svcTimerStart os_clockrate ts timer_id millisec =
     (case timer_id of
        None \<Rightarrow> Some (osErrorParameter, ts)
      | Some pt \<Rightarrow>
          let tcnt = rt_ms2tick os_clockrate millisec
          in if tcnt = 0 then Some (osErrorValue, ts)
             else if tm_state (tmrs ts pt) = osTimerRunning
             then do {
               (found, ts1) \<leftarrow> rt_timer_remove ts pt;
               if found then map_option (\<lambda>ts2. (osOK, ts2)) (rt_timer_insert ts1 pt tcnt)
               else Some (osErrorResource, ts1)
             }
             else if tm_state (tmrs ts pt) = osTimerStopped
             then map_option (\<lambda>ts2. (osOK, ts2))
                    (rt_timer_insert (upd_tmr pt (\<lambda>t. t\<lparr>tm_state := osTimerRunning, tm_icnt := ucast tcnt\<rparr>) ts) pt tcnt)
             else Some (osErrorResource, ts))"

definition svcTimerStop :: "timers \<Rightarrow> nat option \<Rightarrow> (os_status \<times> timers) option" where
  "svcTimerStop ts timer_id =
     (case timer_id of
        None \<Rightarrow> Some (osErrorParameter, ts)
      | Some pt \<Rightarrow>
          if tm_state (tmrs ts pt) \<noteq> osTimerRunning then Some (osErrorResource, ts)
          else do {
            (found, ts1) \<leftarrow> rt_timer_remove (upd_tmr pt (tm_state_update (\<lambda>_. osTimerStopped)) ts) pt;
            Some (if found then osOK else osErrorResource, ts1)
          })"

definition svcTimerDelete :: "timers \<Rightarrow> nat option \<Rightarrow> (os_status \<times> timers) option" where
  "svcTimerDelete ts timer_id =
     (case timer_id of
        None \<Rightarrow> Some (osErrorParameter, ts)
      | Some pt \<Rightarrow>
          if tm_state (tmrs ts pt) = osTimerRunning
          then do {
            (_, ts1) \<leftarrow> rt_timer_remove ts pt;
            Some (osOK, upd_tmr pt (tm_state_update (\<lambda>_. osTimerInvalid)) ts1)
          }
          else if tm_state (tmrs ts pt) = osTimerStopped
          then Some (osOK, upd_tmr pt (tm_state_update (\<lambda>_. osTimerInvalid)) ts)
          else Some (osErrorResource, ts))"

definition svcTimerCall :: "timers \<Rightarrow> nat option \<Rightarrow> u32 \<times> u32" where
  "svcTimerCall ts timer_id =
     (case timer_id of None \<Rightarrow> (0, 0) | Some pt \<Rightarrow> (tm_fp (tmrs ts pt), tm_arg (tmrs ts pt)))"

text \<open>
  The message put by an interrupt handler. A message queue is given by the number of its control
  block, \<open>None\<close> being the null pointer.
\<close>

definition isrMessagePut :: "kernel \<Rightarrow> nat option \<Rightarrow> u32 \<Rightarrow> u32 \<Rightarrow> (os_status \<times> kernel) option" where
  "isrMessagePut s queue_id info millisec =
     (case queue_id of
        None \<Rightarrow> Some (osErrorParameter, s)
      | Some i \<Rightarrow>
          if millisec \<noteq> 0 then Some (osErrorParameter, s)
          else if cb_type s (Mbx i) \<noteq> MCB then Some (osErrorParameter, s)
          else if rt_mbx_check s i = 0 then Some (osErrorResource, s)
          else map_option (\<lambda>s1. (osOK, s1)) (isr_mbx_send s i info))"

text \<open>A timer's address is \<open>addr pt\<close>; \<open>tq\<close> is \<open>osMessageQId_osTimerMessageQ\<close>.\<close>

partial_function (option) timer_loop ::
    "(nat \<Rightarrow> u32) \<Rightarrow> nat option \<Rightarrow> timers \<Rightarrow> kernel \<Rightarrow> nat option \<Rightarrow> (timers \<times> kernel) option" where
  "timer_loop addr tq ts s p =
     (case p of
        None \<Rightarrow> Some (ts, s)
      | Some pt \<Rightarrow>
          if tm_tcnt (tmrs ts pt) = 0
          then do {
            let p' = tm_next (tmrs ts pt);
            let ts1 = ts\<lparr>tmr_head := p'\<rparr>;
            (_, s1) \<leftarrow> isrMessagePut s tq (addr pt) 0;
            ts2 \<leftarrow> (if tm_type (tmrs ts1 pt) = osTimerPeriodic
                   then rt_timer_insert ts1 pt (ucast (tm_icnt (tmrs ts1 pt)))
                   else Some (upd_tmr pt (tm_state_update (\<lambda>_. osTimerStopped)) ts1));
            timer_loop addr tq ts2 s1 p'
          }
          else Some (ts, s))"

definition sysTimerTick ::
    "(nat \<Rightarrow> u32) \<Rightarrow> nat option \<Rightarrow> timers \<Rightarrow> kernel \<Rightarrow> (timers \<times> kernel) option" where
  "sysTimerTick addr tq ts s =
     (case tmr_head ts of
        None \<Rightarrow> Some (ts, s)
      | Some p \<Rightarrow> timer_loop addr tq (upd_tmr p (tm_tcnt_update (\<lambda>x. x - 1)) ts) s (Some p))"

section \<open>Milliseconds and ticks\<close>

lemma rt_ms2tick_exact:
  assumes "millisec \<noteq> osWaitForever" and "unat millisec \<le> 4000000" and "0 < unat clk" "unat clk \<le> 200000000"
  shows "unat (rt_ms2tick clk millisec) = min 0xFFFE ((1000 * unat millisec + unat clk - 1) div unat clk)"
proof -
  have m: "unat (1000 * millisec) = 1000 * unat millisec"
    using assms(2) by (simp add: unat_word_ariths)
  have a: "unat (1000 * millisec + clk) = 1000 * unat millisec + unat clk"
    using assms m by (simp add: unat_add_u32)
  then have "(1 :: u32) \<le> 1000 * millisec + clk"
    using assms(3) by (simp add: word_le_nat_alt)
  with a have "unat (1000 * millisec + clk - 1) = 1000 * unat millisec + unat clk - 1"
    by (simp add: unat_sub)
  then have t: "unat ((1000 * millisec + clk - 1) div clk) = (1000 * unat millisec + unat clk - 1) div unat clk"
    by (simp add: unat_div)
  have "\<not> 4000000 < millisec"
    using assms(2) by (simp add: word_less_nat_alt)
  with assms(1) t show ?thesis
    by (simp add: rt_ms2tick_def Let_def word_less_nat_alt min_def)
qed

lemma rt_ms2tick_le: "unat (rt_ms2tick clk millisec) \<le> 0xFFFF"
  by (auto simp: rt_ms2tick_def Let_def word_less_nat_alt)

section \<open>Absolute expiry times\<close>

fun tseg :: "(nat \<Rightarrow> tmr) \<Rightarrow> nat option \<Rightarrow> nat \<Rightarrow> (nat \<times> nat) list \<Rightarrow> nat option \<Rightarrow> bool" where
  "tseg f p b [] p' = (p = p')"
| "tseg f p b ((t, a) # xs) p' = (p = Some t \<and> a = b + unat (tm_tcnt (f t)) \<and> tseg f (tm_next (f t)) a xs p')"

lemma tseg_append [simp]:
  "tseg f p b (xs @ ys) p' = (\<exists>m. tseg f p b xs m \<and> tseg f m (endt b xs) ys p')"
  by (induction f p b xs p' rule: tseg.induct) auto

lemma tseg_cong:
  "(\<And>t. t \<in> fst ` set xs \<Longrightarrow> tm_next (f t) = tm_next (g t) \<and> tm_tcnt (f t) = tm_tcnt (g t)) \<Longrightarrow>
   tseg f p b xs p' = tseg g p b xs p'"
  by (induction f p b xs p' rule: tseg.induct) auto

lemma tseg_upd_other [simp]: "t \<notin> fst ` set xs \<Longrightarrow> tseg (f(t := v)) p b xs p' = tseg f p b xs p'"
  by (rule tseg_cong) auto

definition tmr_inv :: "(nat \<times> nat) list \<Rightarrow> timers \<Rightarrow> bool" where
  "tmr_inv xs ts \<longleftrightarrow>
     tseg (tmrs ts) (tmr_head ts) 0 xs None \<and> distinct (map fst xs) \<and> (\<forall>x \<in> set xs. snd x < 2 ^ 16)"

fun ins_tmr :: "nat \<Rightarrow> nat \<Rightarrow> (nat \<times> nat) list \<Rightarrow> (nat \<times> nat) list" where
  "ins_tmr t a [] = [(t, a)]"
| "ins_tmr t a ((u, b) # xs) = (if a < b then (t, a) # (u, b) # xs else (u, b) # ins_tmr t a xs)"

lemma set_ins_tmr [simp]: "set (ins_tmr t a xs) = insert (t, a) (set xs)"
  by (induction t a xs rule: ins_tmr.induct) auto

lemma ins_tmr_sorted: "sorted (map snd xs) \<Longrightarrow> sorted (map snd (ins_tmr t a xs))"
  by (induction t a xs rule: ins_tmr.induct) auto

lemma distinct_ins_tmr: "t \<notin> fst ` set xs \<Longrightarrow> distinct (map fst xs) \<Longrightarrow> distinct (map fst (ins_tmr t a xs))"
  by (induction t a xs rule: ins_tmr.induct) (auto simp: image_iff)

lemma ins_tmr_behind: "\<forall>x \<in> set ys. snd x \<le> a \<Longrightarrow> ins_tmr t a (ys @ xs) = ys @ ins_tmr t a xs"
  by (induction t a ys rule: ins_tmr.induct) auto

text \<open>The search finds the first timer that expires later.\<close>

lemma timer_find_split:
  assumes "tseg (tmrs ts) p b xs None" and "b + unat c = a"
  shows "\<exists>pre post m. xs = pre @ post \<and> ins_tmr t a xs = pre @ (t, a) # post \<and>
    tseg (tmrs ts) p b pre m \<and> tseg (tmrs ts) m (endt b pre) post None \<and> endt b pre \<le> a \<and>
    (\<forall>u. m = Some u \<longrightarrow> a - endt b pre < unat (tm_tcnt (tmrs ts u))) \<and>
    timer_find ts prev p c =
      Some (if pre = [] then prev else Some (fst (last pre)), m, of_nat (a - endt b pre))"
  using assms
proof (induction xs arbitrary: p b c prev)
  case Nil
  then show ?case
    by (intro exI [of _ "[]"]) (auto simp: timer_find.simps)
next
  case (Cons x xs)
  obtain u e where x: "x = (u, e)"
    by fastforce
  with Cons.prems have p: "p = Some u" "e = b + unat (tm_tcnt (tmrs ts u))"
    "tseg (tmrs ts) (tm_next (tmrs ts u)) e xs None"
    by auto
  show ?case
  proof (cases "c < ucast (tm_tcnt (tmrs ts u))")
    case True
    then have "unat c < unat (tm_tcnt (tmrs ts u))"
      by (simp add: word_less_nat_alt)
    then have "a < e" and "a - b = unat c"
      using Cons.prems(2) p(2) by simp_all
    with True x p show ?thesis
      using \<open>unat c < _\<close> Cons.prems
      by (intro exI [of _ "[]"] exI [of _ "x # xs"] exI [of _ p]) (auto simp: timer_find.simps)
  next
    case False
    then have "unat (tm_tcnt (tmrs ts u)) \<le> unat c"
      by (simp add: word_less_nat_alt)
    then have le: "e \<le> a" and c': "e + unat (c - ucast (tm_tcnt (tmrs ts u))) = a"
      using Cons.prems(2) p(2) by (simp_all add: unat_sub word_le_nat_alt)
    from Cons.IH [OF p(3) c', of "Some u"] obtain pre post m where IH:
      "xs = pre @ post" "ins_tmr t a xs = pre @ (t, a) # post"
      "tseg (tmrs ts) (tm_next (tmrs ts u)) e pre m" "tseg (tmrs ts) m (endt e pre) post None" "endt e pre \<le> a"
      "\<forall>u. m = Some u \<longrightarrow> a - endt e pre < unat (tm_tcnt (tmrs ts u))"
      "timer_find ts (Some u) (tm_next (tmrs ts u)) (c - ucast (tm_tcnt (tmrs ts u))) =
        Some (if pre = [] then Some u else Some (fst (last pre)), m, of_nat (a - endt e pre))"
      by blast
    have "timer_find ts prev p c =
        Some (if pre = [] then Some u else Some (fst (last pre)), m, of_nat (a - endt e pre))"
      using False p(1) IH(7) by (simp add: timer_find.simps [of ts prev])
    then show ?thesis
      using IH x p le by (intro exI [of _ "x # pre"] exI [of _ post] exI [of _ m]) auto
  qed
qed

text \<open>Changing the successor of the last timer of a segment.\<close>

lemma tseg_relink:
  assumes "tseg f p b pre m" and "pre \<noteq> []" and "distinct (map fst pre)"
  shows "tseg (f(fst (last pre) := (f (fst (last pre)))\<lparr>tm_next := m'\<rparr>)) p b pre m'"
proof -
  obtain ys v e where pre: "pre = ys @ [(v, e)]"
    using assms(2) by (metis append_butlast_last_id surj_pair)
  with assms show ?thesis
    by auto
qed

lemma tseg_head_shift:
  assumes "tseg f m b post None" and "distinct (map fst post)" and "\<And>u. m = Some u \<Longrightarrow> k \<le> unat (tm_tcnt (f u))"
    and "\<And>u. m = Some u \<Longrightarrow> unat (g u) = unat (tm_tcnt (f u)) - k"
  shows "tseg (case m of None \<Rightarrow> f | Some u \<Rightarrow> f(u := (f u)\<lparr>tm_tcnt := g u\<rparr>)) m (b + k) post None"
  using assms by (cases post) auto

section \<open>Insertion and removal\<close>

definition tmr_frame :: "timers \<Rightarrow> timers \<Rightarrow> bool" where
  "tmr_frame ts ts' \<longleftrightarrow> (\<forall>t. tmrs ts' t \<lparr>tm_next := None, tm_tcnt := 0\<rparr> = tmrs ts t \<lparr>tm_next := None, tm_tcnt := 0\<rparr>)"

lemma tmr_eq_but:
  "x\<lparr>tm_next := None, tm_tcnt := 0\<rparr> = y\<lparr>tm_next := None, tm_tcnt := 0\<rparr> \<longleftrightarrow>
   tm_state x = tm_state y \<and> tm_type x = tm_type y \<and> tm_icnt x = tm_icnt y \<and> tm_arg x = tm_arg y \<and>
   tm_fp x = tm_fp y" for x y :: tmr
  by (cases x, cases y) auto

lemma tmr_frameD:
  assumes "tmr_frame ts ts'"
  shows "tm_state (tmrs ts' t) = tm_state (tmrs ts t)" "tm_type (tmrs ts' t) = tm_type (tmrs ts t)"
    "tm_icnt (tmrs ts' t) = tm_icnt (tmrs ts t)"
  using assms by (simp_all add: tmr_frame_def tmr_eq_but)

lemma tmr_frame_refl [simp]: "tmr_frame ts ts"
  by (simp add: tmr_frame_def)

lemma tmr_frame_trans: "tmr_frame a b \<Longrightarrow> tmr_frame b c \<Longrightarrow> tmr_frame a c"
  by (simp add: tmr_frame_def)

text \<open>Linking \<open>p\<close> behind the segment \<open>pre\<close> that starts at the head.\<close>

lemma link_prev_seg:
  assumes pre: "tseg (tmrs ts) (tmr_head ts) 0 pre m" and dist: "distinct (map fst (pre @ post))"
    and post: "tseg (tmrs ts) p (endt 0 pre) post None"
    and prev: "prev = (if pre = [] then None else Some (fst (last pre)))"
  shows "tseg (tmrs (link_prev prev p ts)) (tmr_head (link_prev prev p ts)) 0 (pre @ post) None"
    and "tmr_frame ts (link_prev prev p ts)"
proof -
  show "tseg (tmrs (link_prev prev p ts)) (tmr_head (link_prev prev p ts)) 0 (pre @ post) None"
  proof (cases "pre = []")
    case False
    let ?v = "fst (last pre)"
    have "?v \<in> fst ` set pre"
      using False by simp
    then have v: "?v \<notin> fst ` set post"
      using dist by auto
    have "tseg ((tmrs ts)(?v := (tmrs ts ?v)\<lparr>tm_next := p\<rparr>)) (tmr_head ts) 0 pre p"
      using tseg_relink [OF pre False] dist by simp
    with v post show ?thesis
      using False by (auto simp: link_prev_def prev)
  qed (use post in \<open>simp add: link_prev_def prev\<close>)
  show "tmr_frame ts (link_prev prev p ts)"
    by (auto simp: tmr_frame_def link_prev_def tmr_eq_but split: option.split)
qed

lemma rt_timer_insert_refines:
  assumes inv: "tmr_inv xs ts" and t: "t \<notin> fst ` set xs" and c: "unat c < 2 ^ 16"
  shows "\<exists>ts'. rt_timer_insert ts t c = Some ts' \<and> tmr_inv (ins_tmr t (unat c) xs) ts' \<and> tmr_frame ts ts'"
proof -
  have seg: "tseg (tmrs ts) (tmr_head ts) 0 xs None" and dist: "distinct (map fst xs)"
    using inv by (simp_all add: tmr_inv_def)
  from timer_find_split [OF seg, of c "unat c" t None] obtain pre post m where F:
    "xs = pre @ post" "ins_tmr t (unat c) xs = pre @ (t, unat c) # post"
    "tseg (tmrs ts) (tmr_head ts) 0 pre m" "tseg (tmrs ts) m (endt 0 pre) post None" "endt 0 pre \<le> unat c"
    "\<forall>u. m = Some u \<longrightarrow> unat c - endt 0 pre < unat (tm_tcnt (tmrs ts u))"
    "timer_find ts None (tmr_head ts) c =
      Some (if pre = [] then None else Some (fst (last pre)), m, of_nat (unat c - endt 0 pre))"
    by auto
  let ?k = "unat c - endt 0 pre"
  define w :: u16 where "w = ucast (of_nat ?k :: u32)"
  have w: "unat w = ?k"
    using c by (simp add: w_def unat_ucast_u32_u16 unat_of_nat)
  let ?ts1 = "upd_tmr t (\<lambda>x. x\<lparr>tm_next := m, tm_tcnt := w\<rparr>) ts"
  define ts2 where "ts2 = (case m of None \<Rightarrow> ?ts1 | Some u \<Rightarrow> upd_tmr u (tm_tcnt_update (\<lambda>x. x - tm_tcnt (tmrs ?ts1 t))) ?ts1)"
  have tp: "t \<notin> fst ` set pre" "t \<notin> fst ` set post" and dp: "distinct (map fst pre)" "distinct (map fst post)"
    and disj: "fst ` set pre \<inter> fst ` set post = {}"
    using t dist F(1) by auto
  have mp: "u \<in> fst ` set post" if "m = Some u" for u
    using F(4) that by (cases post) auto
  have mt: "m \<noteq> Some t" and mpre: "m = Some u \<Longrightarrow> u \<notin> fst ` set pre" for u
    using mp tp disj by auto
  have tm2: "tmrs ts2 = (case m of None \<Rightarrow> tmrs ?ts1 | Some u \<Rightarrow> (tmrs ?ts1)(u := (tmrs ?ts1 u)\<lparr>tm_tcnt := tm_tcnt (tmrs ts u) - w\<rparr>))"
    and hd2: "tmr_head ts2 = tmr_head ts"
    using mt by (auto simp: ts2_def split: option.split)
  have "tseg (tmrs ts2) m (endt 0 pre + ?k) post None"
    unfolding tm2
  proof (rule tseg_head_shift)
    show "tseg (tmrs ?ts1) m (endt 0 pre) post None"
      using F(4) tp(2) by simp
    show "?k \<le> unat (tm_tcnt (tmrs ?ts1 u))" if "m = Some u" for u
      using F(6) that mt by auto
    show "unat (tm_tcnt (tmrs ts u) - w) = unat (tm_tcnt (tmrs ?ts1 u)) - ?k" if "m = Some u" for u
      using F(6) that mt w by (auto simp: unat_sub word_le_nat_alt)
  qed (use dp in simp_all)
  moreover have "tm_next (tmrs ts2 t) = m" "tm_tcnt (tmrs ts2 t) = w"
    using mt by (auto simp: tm2 split: option.split)
  ultimately have post: "tseg (tmrs ts2) (Some t) (endt 0 pre) ((t, unat c) # post) None"
    using w F(5) by simp
  have "tmrs ts2 u = tmrs ts u" if "u \<in> fst ` set pre" for u
    using that tp(1) mpre by (auto simp: tm2 split: option.split)
  then have pre: "tseg (tmrs ts2) (tmr_head ts2) 0 pre m"
    using tseg_cong [of pre "tmrs ts2" "tmrs ts"] F(3) hd2 by simp
  have d: "distinct (map fst (pre @ (t, unat c) # post))"
    using distinct_ins_tmr [OF t dist, of "unat c"] F(2) by simp
  note L = link_prev_seg [OF pre d post refl]
  have fr: "tmr_frame ts ts2"
    by (auto simp: tmr_frame_def ts2_def tmr_eq_but split: option.split)
  have bnd: "\<forall>x \<in> set (ins_tmr t (unat c) xs). snd x < 2 ^ 16"
    using inv c by (simp add: tmr_inv_def)
  have "rt_timer_insert ts t c = Some (link_prev (if pre = [] then None else Some (fst (last pre))) (Some t) ts2)"
    unfolding rt_timer_insert_def F(7) ts2_def Let_def w_def by simp
  moreover have "tmr_inv (ins_tmr t (unat c) xs) (link_prev (if pre = [] then None else Some (fst (last pre))) (Some t) ts2)"
    unfolding tmr_inv_def F(2) using L(1) d bnd [unfolded F(2)] by (intro conjI)
  ultimately show ?thesis
    using tmr_frame_trans [OF fr L(2)] by blast
qed

lemma timer_search_found:
  assumes "tseg (tmrs ts) p b (pre @ (t, a) # post) None" and "t \<notin> fst ` set pre"
  shows "timer_search ts t prev p = Some (if pre = [] then prev else Some (fst (last pre)), Some t)"
  using assms
proof (induction pre arbitrary: p b prev)
  case Nil
  then show ?case
    by (simp add: timer_search.simps)
next
  case (Cons x pre)
  obtain u e where x: "x = (u, e)"
    by fastforce
  with Cons.prems have "p = Some u" "u \<noteq> t"
    "tseg (tmrs ts) (tm_next (tmrs ts u)) e (pre @ (t, a) # post) None" "t \<notin> fst ` set pre"
    by auto
  then show ?case
    using Cons.IH [of "tm_next (tmrs ts u)" e "Some u"] x by (auto simp: timer_search.simps [of ts t prev])
qed

lemma timer_search_absent:
  assumes "tseg (tmrs ts) p b xs None" and "t \<notin> fst ` set xs"
  shows "\<exists>prev'. timer_search ts t prev p = Some (prev', None)"
  using assms
proof (induction xs arbitrary: p b prev)
  case (Cons x xs)
  then show ?case
    by (cases x) (auto simp: timer_search.simps [of ts t prev])
qed (simp add: timer_search.simps)

definition rmv_tmr :: "nat \<Rightarrow> (nat \<times> nat) list \<Rightarrow> (nat \<times> nat) list" where
  "rmv_tmr t xs = filter (\<lambda>x. fst x \<noteq> t) xs"

lemma rt_timer_remove_absent:
  assumes "tmr_inv xs ts" and "t \<notin> fst ` set xs"
  shows "rt_timer_remove ts t = Some (False, ts)"
  using assms timer_search_absent [of ts "tmr_head ts" 0 xs t None]
  by (auto simp: rt_timer_remove_def tmr_inv_def)

text \<open>Removing a timer leaves the expiry times of the others as they were.\<close>

lemma rt_timer_remove_refines:
  assumes inv: "tmr_inv xs ts" and t: "t \<in> fst ` set xs"
  shows "\<exists>ts'. rt_timer_remove ts t = Some (True, ts') \<and> tmr_inv (rmv_tmr t xs) ts' \<and> tmr_frame ts ts'"
proof -
  obtain a where "(t, a) \<in> set xs"
    using t by auto
  then obtain pre post where xs: "xs = pre @ (t, a) # post"
    by (meson split_list)
  have seg: "tseg (tmrs ts) (tmr_head ts) 0 xs None" and dist: "distinct (map fst xs)"
    and bnd: "\<forall>x \<in> set xs. snd x < 2 ^ 16"
    using inv by (simp_all add: tmr_inv_def)
  have tp: "t \<notin> fst ` set pre" "t \<notin> fst ` set post" and dp: "distinct (map fst (pre @ post))"
    and disj: "fst ` set pre \<inter> fst ` set post = {}"
    using dist unfolding xs by auto
  have "filter (\<lambda>x. fst x \<noteq> t) ys = ys" if "t \<notin> fst ` set ys" for ys :: "(nat \<times> nat) list"
    by (rule filter_True) (use that in auto)
  with tp have rm: "rmv_tmr t xs = pre @ post"
    by (simp add: rmv_tmr_def xs)
  from seg obtain m where m: "tseg (tmrs ts) (tmr_head ts) 0 pre m" "m = Some t"
    "a = endt 0 pre + unat (tm_tcnt (tmrs ts t))" "tseg (tmrs ts) (tm_next (tmrs ts t)) a post None"
    unfolding xs by auto
  let ?p = "tm_next (tmrs ts t)" and ?c = "tm_tcnt (tmrs ts t)"
  let ?prev = "if pre = [] then None else Some (fst (last pre))"
  have pp: "u \<in> fst ` set post" if "?p = Some u" for u
    using m(4) that by (cases post) auto
  define g where "g = (case ?p of None \<Rightarrow> ts | Some u \<Rightarrow> upd_tmr u (tm_tcnt_update (\<lambda>x. x + ?c)) ts)"
  have post: "tseg (tmrs g) ?p (endt 0 pre) post None"
  proof (cases post)
    case (Cons x post')
    obtain u e where x: "x = (u, e)"
      by fastforce
    have u: "?p = Some u" "e = a + unat (tm_tcnt (tmrs ts u))" "u \<notin> fst ` set post'"
      using m(4) dp Cons x by auto
    have "e < 2 ^ 16"
      using bnd xs Cons x by auto
    then have "unat (tm_tcnt (tmrs ts u) + ?c) = unat (tm_tcnt (tmrs ts u)) + unat ?c"
      using u(2) m(3) by (intro unat_add_u16) simp
    then show ?thesis
      using m(3,4) u Cons x by (simp add: g_def)
  qed (use m(4) in \<open>simp add: g_def\<close>)
  have "tmrs g u = tmrs ts u" if "u \<in> fst ` set pre" for u
    using that pp disj by (auto simp: g_def split: option.split)
  then have "tseg (tmrs g) (tmr_head g) 0 pre m"
    using tseg_cong [of pre "tmrs g" "tmrs ts"] m(1) by (simp add: g_def split: option.split)
  note L = link_prev_seg [OF this dp post refl]
  have ne: "?prev \<noteq> ?p" if "pre \<noteq> []" for u
    using that pp disj by (metis IntI empty_iff image_eqI last_in_set option.inject)
  have gt: "tmrs (link_prev ?prev ?p ts) t = tmrs ts t"
    using tp(1) by (auto simp: link_prev_def)
  have eq: "(case ?p of None \<Rightarrow> link_prev ?prev ?p ts
      | Some u \<Rightarrow> upd_tmr u (tm_tcnt_update (\<lambda>x. x + ?c)) (link_prev ?prev ?p ts)) = link_prev ?prev ?p g"
    using ne by (auto simp: g_def link_prev_def fun_upd_twist split: option.split)
  have "rt_timer_remove ts t = Some (True, link_prev ?prev ?p g)"
    unfolding rt_timer_remove_def timer_search_found [OF seg [unfolded xs] tp(1), of None]
      bind.bind_lunit prod.case option.case Let_def gt eq ..
  moreover have "tmr_inv (rmv_tmr t xs) (link_prev ?prev ?p g)"
    unfolding tmr_inv_def rm using L(1) dp bnd xs by auto
  moreover have "tmr_frame ts g"
    by (auto simp: tmr_frame_def g_def tmr_eq_but split: option.split)
  ultimately show ?thesis
    using tmr_frame_trans [OF _ L(2)] by blast
qed

section \<open>The timer tick\<close>

text \<open>The messages for the expired timers, in order of expiry.\<close>

fun put_all :: "(nat \<Rightarrow> u32) \<Rightarrow> nat option \<Rightarrow> nat list \<Rightarrow> kernel \<Rightarrow> kernel option" where
  "put_all addr tq [] s = Some s"
| "put_all addr tq (t # ts) s = do { (_, s1) \<leftarrow> isrMessagePut s tq (addr t) 0; put_all addr tq ts s1 }"

text \<open>Expired periodic timers start again with their initial count.\<close>

fun restart :: "(nat \<Rightarrow> bool) \<Rightarrow> (nat \<Rightarrow> nat) \<Rightarrow> nat list \<Rightarrow> (nat \<times> nat) list \<Rightarrow> (nat \<times> nat) list" where
  "restart per ic [] xs = xs"
| "restart per ic (t # ts) xs = restart per ic ts (if per t then ins_tmr t (ic t) xs else xs)"

abbreviation periodic :: "timers \<Rightarrow> nat \<Rightarrow> bool" where
  "periodic ts t \<equiv> tm_type (tmrs ts t) = osTimerPeriodic"

abbreviation icnt :: "timers \<Rightarrow> nat \<Rightarrow> nat" where
  "icnt ts t \<equiv> unat (tm_icnt (tmrs ts t))"

lemma restart_pos:
  assumes "\<forall>x \<in> set xs. 0 < snd x" and "\<And>t. per t \<Longrightarrow> t \<in> set ts \<Longrightarrow> 0 < ic t"
  shows "\<forall>x \<in> set (restart per ic ts xs). 0 < snd x"
  using assms
proof (induction ts arbitrary: xs)
  case (Cons t ts)
  show ?case
    using Cons.IH [of "ins_tmr t (ic t) xs"] Cons.IH [of xs] Cons.prems by (cases "per t") auto
qed simp

lemma restart_subset: "fst ` set (restart per ic ts xs) \<subseteq> set ts \<union> fst ` set xs"
proof (induction ts arbitrary: xs)
  case (Cons t ts)
  show ?case
    using Cons.IH [of "ins_tmr t (ic t) xs"] Cons.IH [of xs] by auto
qed simp

text \<open>The running timers have an initial count.\<close>

definition tmr_ok :: "(nat \<times> nat) list \<Rightarrow> timers \<Rightarrow> bool" where
  "tmr_ok xs ts \<longleftrightarrow> tmr_inv xs ts \<and> (\<forall>x \<in> set xs. 0 < snd x \<and> tm_icnt (tmrs ts (fst x)) \<noteq> 0)"

lemma timer_loop_stop:
  "p = None \<or> (\<exists>u. p = Some u \<and> tm_tcnt (tmrs ts u) \<noteq> 0) \<Longrightarrow> timer_loop addr tq ts s p = Some (ts, s)"
  by (auto simp: timer_loop.simps)

lemma timer_loop_refines:
  assumes "tmr_inv (map (\<lambda>t. (t, 0)) zs @ xs) ts" and "\<forall>x \<in> set xs. 0 < snd x"
    and "\<forall>t \<in> set zs. tm_icnt (tmrs ts t) \<noteq> 0"
    and "if zs = [] then p = None \<or> (\<exists>u. p = Some u \<and> tm_tcnt (tmrs ts u) \<noteq> 0) else p = tmr_head ts"
  shows "\<exists>ts'. (\<forall>s. timer_loop addr tq ts s p = map_option (\<lambda>s'. (ts', s')) (put_all addr tq zs s)) \<and>
    tmr_inv (restart (periodic ts) (icnt ts) zs xs) ts' \<and>
    (\<forall>t. tm_type (tmrs ts' t) = tm_type (tmrs ts t) \<and> tm_icnt (tmrs ts' t) = tm_icnt (tmrs ts t) \<and>
      tm_state (tmrs ts' t) =
        (if t \<in> set zs \<and> \<not> periodic ts t then osTimerStopped else tm_state (tmrs ts t)))"
  using assms
proof (induction zs arbitrary: ts p xs)
  case Nil
  then show ?case
    using timer_loop_stop [of p ts addr tq] by auto
next
  case (Cons t zs)
  let ?p = "tm_next (tmrs ts t)"
  let ?ts1 = "ts\<lparr>tmr_head := ?p\<rparr>"
  let ?zs = "map (\<lambda>t. (t, 0)) zs"
  have t: "tmr_head ts = Some t" "tm_tcnt (tmrs ts t) = 0" and dist: "t \<notin> fst ` set (?zs @ xs)"
    and inv1: "tmr_inv (?zs @ xs) ?ts1"
    using Cons.prems(1) by (auto simp: tmr_inv_def unat_eq_0 image_image)
  obtain ts2 where ts2: "(if tm_type (tmrs ?ts1 t) = osTimerPeriodic
      then rt_timer_insert ?ts1 t (ucast (tm_icnt (tmrs ?ts1 t)))
      else Some (upd_tmr t (tm_state_update (\<lambda>_. osTimerStopped)) ?ts1)) = Some ts2"
    and inv2: "tmr_inv (?zs @ (if periodic ts t then ins_tmr t (icnt ts t) xs else xs)) ts2"
    and cfg: "\<And>u. tm_type (tmrs ts2 u) = tm_type (tmrs ts u) \<and> tm_icnt (tmrs ts2 u) = tm_icnt (tmrs ts u) \<and>
      tm_state (tmrs ts2 u) = (if u = t \<and> \<not> periodic ts t then osTimerStopped else tm_state (tmrs ts u))"
  proof (cases "periodic ts t")
    case True
    have c: "unat (ucast (tm_icnt (tmrs ts t)) :: u32) < 2 ^ 16"
      using unat_u16_less [of "tm_icnt (tmrs ts t)"] by simp
    have "ins_tmr t (icnt ts t) (?zs @ xs) = ?zs @ ins_tmr t (icnt ts t) xs"
      by (rule ins_tmr_behind) auto
    with rt_timer_insert_refines [OF inv1 dist c] obtain ts2 where
      "rt_timer_insert ?ts1 t (ucast (tm_icnt (tmrs ts t))) = Some ts2"
      "tmr_inv (?zs @ ins_tmr t (icnt ts t) xs) ts2" "tmr_frame ?ts1 ts2"
      by auto
    with True show ?thesis
      using that [of ts2] tmr_frameD [of ?ts1 ts2] by simp
  next
    case False
    let ?ts2 = "upd_tmr t (tm_state_update (\<lambda>_. osTimerStopped)) ?ts1"
    have "tmr_inv (?zs @ xs) ?ts2"
      using inv1 tseg_cong [of "?zs @ xs" "tmrs ?ts2" "tmrs ?ts1"] unfolding tmr_inv_def by simp
    with False show ?thesis
      using that [of ?ts2] by simp
  qed
  have pos2: "\<forall>x \<in> set (if periodic ts t then ins_tmr t (icnt ts t) xs else xs). 0 < snd x"
    using Cons.prems(2,3) by (auto simp: unat_gt_0)
  have p2: "if zs = [] then ?p = None \<or> (\<exists>u. ?p = Some u \<and> tm_tcnt (tmrs ts2 u) \<noteq> 0) else ?p = tmr_head ts2"
  proof (cases zs)
    case Nil
    show ?thesis
    proof (cases xs)
      case (Cons x xs')
      obtain u b where x: "x = (u, b)"
        by fastforce
      have "?p = Some u" "0 < b"
        using inv1 Cons x Nil Cons.prems(2) by (auto simp: tmr_inv_def)
      moreover have "unat (tm_tcnt (tmrs ts2 u)) \<noteq> 0"
        using inv2 Cons x Nil \<open>0 < b\<close> by (auto simp: tmr_inv_def split: if_splits)
      ultimately show ?thesis
        using Nil by auto
    qed (use inv1 Nil in \<open>simp add: tmr_inv_def\<close>)
  next
    case (Cons z zs')
    then show ?thesis
      using inv1 inv2 by (auto simp: tmr_inv_def)
  qed
  have ic2: "\<forall>u \<in> set zs. tm_icnt (tmrs ts2 u) \<noteq> 0"
    using Cons.prems(3) cfg by simp
  have same: "periodic ts2 = periodic ts" "icnt ts2 = icnt ts"
    using cfg by auto
  from Cons.IH [OF inv2 pos2 ic2 p2] obtain ts' where ts':
    "\<And>s1. timer_loop addr tq ts2 s1 ?p = map_option (\<lambda>s'. (ts', s')) (put_all addr tq zs s1)"
    "tmr_inv (restart (periodic ts2) (icnt ts2) zs (if periodic ts t then ins_tmr t (icnt ts t) xs else xs)) ts'"
    "\<And>u. tm_type (tmrs ts' u) = tm_type (tmrs ts2 u) \<and> tm_icnt (tmrs ts' u) = tm_icnt (tmrs ts2 u) \<and>
      tm_state (tmrs ts' u) =
        (if u \<in> set zs \<and> \<not> periodic ts2 u then osTimerStopped else tm_state (tmrs ts2 u))"
    by blast
  have "timer_loop addr tq ts s p = do {
      (_, s1) \<leftarrow> isrMessagePut s tq (addr t) 0; timer_loop addr tq ts2 s1 ?p }" for s
    using Cons.prems(4) t ts2 unfolding timer_loop.simps [of addr tq ts s] Let_def
    by (simp del: bind.bind_lunit add: bind.bind_lunit)
  then have "timer_loop addr tq ts s p = map_option (\<lambda>s'. (ts', s')) (put_all addr tq (t # zs) s)" for s
    unfolding ts'(1) by (cases "isrMessagePut s tq (addr t) 0") auto
  moreover have "tmr_inv (restart (periodic ts) (icnt ts) (t # zs) xs) ts'"
    using ts'(2) unfolding same by simp
  ultimately show ?case
    using ts'(3) cfg by (intro exI [of _ ts']) auto
qed

lemma tseg_sorted: "tseg f p b xs p' \<Longrightarrow> sorted (map snd xs) \<and> (\<forall>x \<in> set xs. b \<le> snd x)"
  by (induction f p b xs p' rule: tseg.induct) fastforce+

lemma tseg_dec: "tseg f p b xs p' \<Longrightarrow> 0 < b \<Longrightarrow> tseg f p (b - 1) (dec1 xs) p'"
  by (induction f p b xs p' rule: tseg.induct) auto

lemma sysTimerTick_refines:
  assumes ok: "tmr_ok xs ts"
  shows "\<exists>ts'. (\<forall>s. sysTimerTick addr tq ts s = map_option (\<lambda>s'. (ts', s')) (put_all addr tq (expired xs) s)) \<and>
    tmr_ok (restart (periodic ts) (icnt ts) (expired xs) (tick_dly xs)) ts' \<and>
    (\<forall>t. tm_type (tmrs ts' t) = tm_type (tmrs ts t) \<and> tm_icnt (tmrs ts' t) = tm_icnt (tmrs ts t) \<and>
      tm_state (tmrs ts' t) =
        (if t \<in> set (expired xs) \<and> \<not> periodic ts t then osTimerStopped else tm_state (tmrs ts t)))"
proof (cases xs)
  case Nil
  then have "tmr_head ts = None"
    using ok by (simp add: tmr_ok_def tmr_inv_def)
  with ok Nil show ?thesis
    by (intro exI [of _ ts]) (simp add: sysTimerTick_def expired_def tick_dly_def)
next
  case (Cons x xs')
  obtain t a where x: "x = (t, a)"
    by fastforce
  have inv: "tmr_inv xs ts" and pos: "\<forall>y \<in> set xs. 0 < snd y" and ic: "\<forall>y \<in> set xs. tm_icnt (tmrs ts (fst y)) \<noteq> 0"
    using ok by (auto simp: tmr_ok_def)
  let ?ts = "upd_tmr t (tm_tcnt_update (\<lambda>x. x - 1)) ts"
  have t: "tmr_head ts = Some t" "a = unat (tm_tcnt (tmrs ts t))" "0 < a"
    using inv pos Cons x by (auto simp: tmr_inv_def)
  then have c: "unat (tm_tcnt (tmrs ts t) - 1) = a - 1"
    by (simp add: unat_sub word_le_nat_alt)
  have "tseg (tmrs ts) (tm_next (tmrs ts t)) a xs' None" "t \<notin> fst ` set xs'"
    using inv Cons x t by (auto simp: tmr_inv_def)
  then have "tmr_inv (dec1 xs) ?ts"
    using inv Cons x t(1) c tseg_dec [OF _ t(3)] by (auto simp: tmr_inv_def dec1_def comp_def case_prod_beta less_imp_diff_less image_image)
  moreover have "dec1 xs = map (\<lambda>t. (t, 0)) (expired xs) @ tick_dly xs"
    using tseg_sorted [of "tmrs ts" "tmr_head ts" 0 xs None] inv pos by (intro dec_split) (auto simp: tmr_inv_def)
  ultimately have inv': "tmr_inv (map (\<lambda>t. (t, 0)) (expired xs) @ tick_dly xs) ?ts"
    by simp
  have pos': "\<forall>y \<in> set (tick_dly xs). 0 < snd y"
    by (auto simp: tick_dly_def)
  have exp: "set (expired xs) \<subseteq> fst ` set xs"
    by (auto simp: expired_def)
  then have ic': "\<forall>u \<in> set (expired xs). tm_icnt (tmrs ?ts u) \<noteq> 0"
    using ic by auto
  have p: "if expired xs = [] then Some t = None \<or> (\<exists>u. Some t = Some u \<and> tm_tcnt (tmrs ?ts u) \<noteq> 0)
      else Some t = tmr_head ?ts"
  proof (cases "expired xs = []")
    case True
    then have "1 < a"
      using Cons x by (simp add: expired_def split: if_splits)
    then show ?thesis
      using True c by (auto simp flip: unat_eq_0)
  qed (use t(1) in simp)
  from timer_loop_refines [OF inv' pos' ic' p, of addr tq] obtain ts' where ts':
    "\<forall>s. timer_loop addr tq ?ts s (Some t) = map_option (\<lambda>s'. (ts', s')) (put_all addr tq (expired xs) s)"
    "tmr_inv (restart (periodic ?ts) (icnt ?ts) (expired xs) (tick_dly xs)) ts'"
    "\<forall>u. tm_type (tmrs ts' u) = tm_type (tmrs ?ts u) \<and> tm_icnt (tmrs ts' u) = tm_icnt (tmrs ?ts u) \<and>
      tm_state (tmrs ts' u) =
        (if u \<in> set (expired xs) \<and> \<not> periodic ?ts u then osTimerStopped else tm_state (tmrs ?ts u))"
    by blast
  have same: "periodic ?ts = periodic ts" "icnt ?ts = icnt ts"
    by auto
  have same': "tm_type (tmrs ?ts u) = tm_type (tmrs ts u)" "tm_icnt (tmrs ?ts u) = tm_icnt (tmrs ts u)"
    "tm_state (tmrs ?ts u) = tm_state (tmrs ts u)" for u
    by simp_all
  note cfg = ts'(3) [unfolded same']
  let ?xs = "restart (periodic ts) (icnt ts) (expired xs) (tick_dly xs)"
  have "\<forall>y \<in> set ?xs. 0 < snd y"
    by (rule restart_pos [OF pos']) (use ic' in \<open>auto simp: unat_gt_0 split: if_splits\<close>)
  moreover have "fst ` set (tick_dly xs) \<subseteq> fst ` set xs"
    unfolding tick_dly_def by force
  then have sub: "fst ` set ?xs \<subseteq> fst ` set xs"
    using restart_subset [of "periodic ts" "icnt ts" "expired xs" "tick_dly xs"] exp by blast
  have "\<forall>y \<in> set ?xs. tm_icnt (tmrs ts' (fst y)) \<noteq> 0"
  proof
    fix y
    assume "y \<in> set ?xs"
    with sub obtain z where z: "z \<in> set xs" "fst y = fst z"
      by blast
    moreover have "tm_icnt (tmrs ts' (fst z)) = tm_icnt (tmrs ts (fst z))"
      using ts'(3) same(2) by simp
    ultimately show "tm_icnt (tmrs ts' (fst y)) \<noteq> 0"
      using ic by simp
  qed
  ultimately have "tmr_ok ?xs ts'"
    using ts'(2) unfolding tmr_ok_def same by blast
  moreover have "sysTimerTick addr tq ts s = timer_loop addr tq ?ts s (Some t)" for s
    using t(1) by (simp add: sysTimerTick_def)
  ultimately show ?thesis
    using ts'(1) cfg by (intro exI [of _ ts'] conjI) simp_all
qed

section \<open>Starting and stopping\<close>

lemma svcTimerStart_stopped:
  assumes ok: "tmr_ok xs ts" and t: "t \<notin> fst ` set xs" "tm_state (tmrs ts t) = osTimerStopped"
    and c: "rt_ms2tick clk ms \<noteq> 0"
  shows "\<exists>ts'. svcTimerStart clk ts (Some t) ms = Some (osOK, ts') \<and>
    tmr_ok (ins_tmr t (unat (rt_ms2tick clk ms)) xs) ts' \<and> tm_state (tmrs ts' t) = osTimerRunning \<and>
    icnt ts' t = unat (rt_ms2tick clk ms)"
proof -
  let ?c = "rt_ms2tick clk ms"
  let ?ts = "upd_tmr t (\<lambda>x. x\<lparr>tm_state := osTimerRunning, tm_icnt := ucast ?c\<rparr>) ts"
  have inv: "tmr_inv xs ?ts"
    using ok t(1) by (simp add: tmr_ok_def tmr_inv_def)
  have c16: "unat ?c < 2 ^ 16"
    using rt_ms2tick_le [of clk ms] by simp
  then have w: "unat (ucast ?c :: u16) = unat ?c"
    by (simp add: unat_ucast_u32_u16)
  then have w0: "(ucast ?c :: u16) \<noteq> 0"
    using c by (metis unat_eq_0)
  from rt_timer_insert_refines [OF inv t(1) c16] obtain ts' where ts': "rt_timer_insert ?ts t ?c = Some ts'"
    "tmr_inv (ins_tmr t (unat ?c) xs) ts'" "tmr_frame ?ts ts'"
    by blast
  note F = tmr_frameD [OF ts'(3)]
  have "tmr_ok (ins_tmr t (unat ?c) xs) ts'"
    using ok ts'(2) c w0 F(3) by (auto simp: tmr_ok_def unat_gt_0)
  moreover have "svcTimerStart clk ts (Some t) ms = Some (osOK, ts')"
    using c t(2) ts'(1) by (simp add: svcTimerStart_def Let_def osTimerRunning_def osTimerStopped_def)
  ultimately show ?thesis
    using F w by auto
qed

text \<open>Restarting a running timer moves its expiry, but keeps the old initial count.\<close>

lemma svcTimerStart_running:
  assumes ok: "tmr_ok xs ts" and t: "t \<in> fst ` set xs" "tm_state (tmrs ts t) = osTimerRunning"
    and c: "rt_ms2tick clk ms \<noteq> 0"
  shows "\<exists>ts'. svcTimerStart clk ts (Some t) ms = Some (osOK, ts') \<and>
    tmr_ok (ins_tmr t (unat (rt_ms2tick clk ms)) (rmv_tmr t xs)) ts' \<and> icnt ts' t = icnt ts t"
proof -
  let ?c = "rt_ms2tick clk ms"
  have inv: "tmr_inv xs ts" and ic: "tm_icnt (tmrs ts t) \<noteq> 0"
    using ok t(1) by (auto simp: tmr_ok_def)
  from rt_timer_remove_refines [OF inv t(1)] obtain ts1 where ts1: "rt_timer_remove ts t = Some (True, ts1)"
    "tmr_inv (rmv_tmr t xs) ts1" "tmr_frame ts ts1"
    by blast
  have "t \<notin> fst ` set (rmv_tmr t xs)" "unat ?c < 2 ^ 16"
    using rt_ms2tick_le [of clk ms] by (auto simp: rmv_tmr_def)
  from rt_timer_insert_refines [OF ts1(2) this] obtain ts' where ts': "rt_timer_insert ts1 t ?c = Some ts'"
    "tmr_inv (ins_tmr t (unat ?c) (rmv_tmr t xs)) ts'" "tmr_frame ts1 ts'"
    by blast
  note F = tmr_frameD [OF tmr_frame_trans [OF ts1(3) ts'(3)]]
  have "tmr_ok (ins_tmr t (unat ?c) (rmv_tmr t xs)) ts'"
    using ok ts'(2) c ic F(3) by (auto simp: tmr_ok_def unat_gt_0 rmv_tmr_def)
  moreover have "svcTimerStart clk ts (Some t) ms = Some (osOK, ts')"
    using c t(2) ts1(1) ts'(1) by (simp add: svcTimerStart_def Let_def)
  ultimately show ?thesis
    using F(3) by auto
qed

lemma svcTimerStop_running:
  assumes ok: "tmr_ok xs ts" and t: "t \<in> fst ` set xs" "tm_state (tmrs ts t) = osTimerRunning"
  shows "\<exists>ts'. svcTimerStop ts (Some t) = Some (osOK, ts') \<and> tmr_ok (rmv_tmr t xs) ts' \<and>
    tm_state (tmrs ts' t) = osTimerStopped"
proof -
  let ?ts = "upd_tmr t (tm_state_update (\<lambda>_. osTimerStopped)) ts"
  have inv: "tmr_inv xs ?ts"
    using ok tseg_cong [of xs "tmrs ?ts" "tmrs ts"] by (simp add: tmr_ok_def tmr_inv_def)
  from rt_timer_remove_refines [OF inv t(1)] obtain ts' where ts': "rt_timer_remove ?ts t = Some (True, ts')"
    "tmr_inv (rmv_tmr t xs) ts'" "tmr_frame ?ts ts'"
    by blast
  note F = tmr_frameD [OF ts'(3)]
  have "tmr_ok (rmv_tmr t xs) ts'"
    using ok ts'(2) F(3) by (auto simp: tmr_ok_def rmv_tmr_def)
  with t(2) ts'(1) F(1) show ?thesis
    by (simp add: svcTimerStop_def)
qed

end
