(* ===== verification/Rtx_Mutex.thy ===== *)
theory Rtx_Mutex
  imports Rtx_Semaphore
begin

text \<open>
  Mutexes with priority inheritance (\<open>rt_Mutex.c\<close>). \<open>mut_ok\<close> is the consistency of a mutex
  with its waiting list: a free mutex has no waiting task, and the owner of a locked one is a
  live task that does not wait for it.
\<close>

section \<open>The operations\<close>

abbreviation upd_mut :: "nat \<Rightarrow> (mucb \<Rightarrow> mucb) \<Rightarrow> kernel \<Rightarrow> kernel" where
  "upd_mut i f s \<equiv> s\<lparr>mucbs := (mucbs s)(i := f (mucbs s i))\<rparr>"

definition rt_mut_init :: "kernel \<Rightarrow> nat \<Rightarrow> kernel" where
  "rt_mut_init s i =
     s\<lparr>cb_type := (cb_type s)(Mut i := MUCB), p_lnk := (p_lnk s)(Mut i := None),
       mucbs := (mucbs s)(i := \<lparr>mu_prio = 0, mu_level = 0, mu_owner = None\<rparr>)\<rparr>"

definition rt_mut_delete :: "kernel \<Rightarrow> nat \<Rightarrow> (os_result \<times> kernel) option" where
  "rt_mut_delete s i = do {
     s1 \<leftarrow> (if mu_level (mucbs s i) \<noteq> 0
            then do {
              ow \<leftarrow> mu_owner (mucbs s i);
              let s0 = set_prio ow (mu_prio (mucbs s i)) s;
              if run s0 \<noteq> Some ow then rt_resort_prio s0 ow else Some s0
            }
            else Some s);
     s2 \<leftarrow> release_all s1 (Mut i);
     s3 \<leftarrow> preempt s2;
     Some (OS_R_OK, s3\<lparr>cb_type := (cb_type s3)(Mut i := TCB)\<rparr>)
   }"

text \<open>
  The two cases of a release with waiting tasks: \<open>mut_handover\<close> is the code from the choice of
  the new owner on, \<open>r\<close> being the running task.
\<close>

definition mut_handover :: "kernel \<Rightarrow> nat \<Rightarrow> nat \<Rightarrow> kernel option" where
  "mut_handover s i r = do {
     (t, s1) \<leftarrow> rt_get_first s (Mut i);
     let s2 = rt_rmv_dly (rt_ret_val t 0 s1) t;
     let s3 = upd_mut i (\<lambda>m. m\<lparr>mu_level := 1, mu_owner := Some t, mu_prio := prio_of s2 t\<rparr>) s2;
     rp \<leftarrow> rt_rdy_prio s3;
     if rp \<le> prio_of s3 r then rt_dispatch s3 (Some t)
     else do {
       s4 \<leftarrow> rt_put_prio s3 Rdy r;
       s5 \<leftarrow> rt_put_prio s4 Rdy t;
       rt_dispatch (set_state t READY (set_state r READY s5)) None
     }
   }"

definition rt_mut_release :: "kernel \<Rightarrow> nat \<Rightarrow> (os_result \<times> kernel) option" where
  "rt_mut_release s i =
     (if mu_level (mucbs s i) = 0 \<or> mu_owner (mucbs s i) \<noteq> run s then Some (OS_R_NOK, s)
      else
        let s1 = upd_mut i (mu_level_update (\<lambda>l. l - 1)) s
        in if mu_level (mucbs s1 i) \<noteq> 0 then Some (OS_R_OK, s1)
           else do {
             r \<leftarrow> run s1;
             let s2 = set_prio r (mu_prio (mucbs s1 i)) s1;
             s3 \<leftarrow> (if p_lnk s2 (Mut i) \<noteq> None then mut_handover s2 i r
                    else do {
                      rp \<leftarrow> rt_rdy_prio s2;
                      if prio_of s2 r < rp then give_way s2 r else Some s2
                    });
             Some (OS_R_OK, s3)
           })"

definition rt_mut_wait :: "kernel \<Rightarrow> nat \<Rightarrow> u16 \<Rightarrow> (os_result \<times> kernel) option" where
  "rt_mut_wait s i timeout =
     (if mu_level (mucbs s i) = 0
      then do {
        r \<leftarrow> run s;
        Some (OS_R_OK, upd_mut i (\<lambda>m. m\<lparr>mu_owner := Some r, mu_prio := prio_of s r,
                                        mu_level := mu_level m + 1\<rparr>) s)
      }
      else if mu_owner (mucbs s i) = run s
      then Some (OS_R_OK, upd_mut i (mu_level_update (\<lambda>l. l + 1)) s)
      else if timeout = 0 then Some (OS_R_TMO, s)
      else do {
        r \<leftarrow> run s;
        s1 \<leftarrow> (if mu_prio (mucbs s i) < prio_of s r
               then do {
                 ow \<leftarrow> mu_owner (mucbs s i);
                 rt_resort_prio (set_prio ow (prio_of s r) s) ow
               }
               else Some s);
        s2 \<leftarrow> enq_wait s1 (Mut i) r;
        s3 \<leftarrow> rt_block s2 timeout WAIT_MUT;
        Some (OS_R_TMO, s3)
      })"

section \<open>The mutex\<close>

definition mut_ok :: "nat set \<Rightarrow> (ptr \<Rightarrow> nat list) \<Rightarrow> kernel \<Rightarrow> bool" where
  "mut_ok X q s \<longleftrightarrow> (\<forall>i. cb_type s (Mut i) = MUCB \<longrightarrow>
     (case mu_level (mucbs s i) = 0 of
        True \<Rightarrow> q (Mut i) = []
      | False \<Rightarrow> (case mu_owner (mucbs s i) of
                    None \<Rightarrow> False
                  | Some ow \<Rightarrow> ow \<notin> X \<and> ow \<notin> set (q (Mut i)))))"

lemma mut_okD:
  assumes "mut_ok X q s" and "cb_type s (Mut i) = MUCB"
  shows "mu_level (mucbs s i) = 0 \<Longrightarrow> q (Mut i) = []"
    and "mu_level (mucbs s i) \<noteq> 0 \<Longrightarrow> \<exists>ow. mu_owner (mucbs s i) = Some ow \<and> ow \<notin> X \<and> ow \<notin> set (q (Mut i))"
  using assms by (auto simp: mut_ok_def split: bool.splits option.splits)

lemma rt_mut_init_sched:
  assumes k: "sched X q d n s" and i: "\<not> live s (Mut i)"
  shows "sched X (q(Mut i := [])) d n (rt_mut_init s i)"
  using krun_create [of X q d "Some n" s "Mut i" MUCB] assms
  by (auto simp: sched_def top_prio_def rt_mut_init_def)

lemma rt_mut_wait_free:
  "mu_level (mucbs s i) = 0 \<Longrightarrow> run s = Some n \<Longrightarrow> rt_mut_wait s i timeout =
    Some (OS_R_OK, upd_mut i (\<lambda>m. m\<lparr>mu_owner := Some n, mu_prio := prio_of s n, mu_level := 1\<rparr>) s)"
  by (simp add: rt_mut_wait_def)

lemma rt_mut_wait_own:
  "mu_level (mucbs s i) \<noteq> 0 \<Longrightarrow> mu_owner (mucbs s i) = run s \<Longrightarrow> rt_mut_wait s i timeout =
    Some (OS_R_OK, upd_mut i (mu_level_update (\<lambda>l. l + 1)) s)"
  by (simp add: rt_mut_wait_def)

text \<open>The priorities after a wait that blocks: the owner inherits that of the running task.\<close>

definition inherit :: "kernel \<Rightarrow> nat \<Rightarrow> nat \<Rightarrow> nat \<Rightarrow> nat \<Rightarrow> u8" where
  "inherit s i ow n = (prio_of s)(ow := if mu_prio (mucbs s i) < prio_of s n then prio_of s n else prio_of s ow)"

definition inherit_q :: "kernel \<Rightarrow> nat \<Rightarrow> nat \<Rightarrow> nat \<Rightarrow> (ptr \<Rightarrow> nat list) \<Rightarrow> ptr \<Rightarrow> nat list" where
  "inherit_q s i ow n q = (if mu_prio (mucbs s i) < prio_of s n then resort_q (inherit s i ow n) ow q else q)"

lemma rt_mut_wait_block:
  assumes k: "sched X q d n s" and i: "cb_type s (Mut i) = MUCB"
    and ow: "mu_level (mucbs s i) \<noteq> 0" "mu_owner (mucbs s i) = Some ow" "ow \<noteq> n" "ow \<notin> X"
    and n: "run s = Some n" "n \<noteq> idle_TCB" and timeout: "timeout \<noteq> 0"
  shows "\<exists>s'. rt_mut_wait s i timeout = Some (OS_R_TMO, s') \<and>
    (let q1 = inherit_q s i ow n q; q' = q1(Mut i := ins_prio (inherit s i ow n) n (q1 (Mut i)), Rdy := tl (q1 Rdy))
     in sched X q' (dly_wait n timeout d) (hd (q1 Rdy)) s') \<and>
    kframe (set_prio ow (inherit s i ow n ow) s) s'"
proof -
  let ?s0 = "set_prio ow (inherit s i ow n ow) s" and ?q1 = "inherit_q s i ow n q"
  have k': "krun X q d (Some n) s"
    using k by (simp add: sched_def)
  have pr: "prio_of ?s0 = inherit s i ow n"
    by (auto simp: inherit_def)
  have "\<exists>s1. (if mu_prio (mucbs s i) < prio_of s n
        then rt_resort_prio (set_prio ow (prio_of s n) s) ow else Some s) = Some s1 \<and>
      krun X ?q1 d (Some n) s1 \<and> kframe ?s0 s1"
  proof (cases "mu_prio (mucbs s i) < prio_of s n")
    case True
    then show ?thesis
      using k_resort [OF k' ow(4), of "prio_of s n"] by (auto simp: inherit_q_def inherit_def)
  next
    case False
    then have "?s0 = s"
      by (simp add: inherit_def)
    with k' False show ?thesis
      by (auto simp: inherit_q_def)
  qed
  then obtain s1 where s1: "(if mu_prio (mucbs s i) < prio_of s n
        then rt_resort_prio (set_prio ow (prio_of s n) s) ow else Some s) = Some s1"
    "krun X ?q1 d (Some n) s1" "kframe ?s0 s1" by blast
  note F = kframeD [OF s1(3)]
  have pr1: "prio_of s1 = inherit s i ow n"
    using F(12) pr by simp
  have "sem_mbx (cb_type s1 (Mut i))" "run s1 = Some n"
    using F(4,5) i n(1) by simp_all
  from k_wait [OF s1(2) this n(2) timeout] obtain s2 s' where s': "enq_wait s1 (Mut i) n = Some s2"
    "rt_block s2 timeout WAIT_MUT = Some s'"
    "krun X (?q1(Mut i := ins_prio (inherit s i ow n) n (?q1 (Mut i)), Rdy := tl (?q1 Rdy)))
      (dly_wait n timeout d) (Some (hd (?q1 Rdy))) s'"
    "top_prio (?q1(Mut i := ins_prio (inherit s i ow n) n (?q1 (Mut i)), Rdy := tl (?q1 Rdy)))
      (hd (?q1 Rdy)) s'" "kframe s1 s'"
    unfolding pr1 by (auto elim!: bind_SomeE)
  have "rt_mut_wait s i timeout = Some (OS_R_TMO, s')"
    using s1(1) s'(1,2) ow n timeout by (simp add: rt_mut_wait_def split: if_splits)
  with s' s1(3) show ?thesis
    unfolding sched_def Let_def by (auto intro: kframe_trans)
qed

section \<open>Releasing\<close>

text \<open>Two tasks are made ready before their states are set.\<close>

lemma k_two_ready:
  assumes k: "krun X q d (Some n) s" and t: "unqueued q s t" "t \<notin> fst ` set d" "t \<notin> X" "t \<noteq> n"
  shows "\<exists>s1 s2. rt_put_prio s Rdy n = Some s1 \<and> rt_put_prio s1 Rdy t = Some s2 \<and>
    krun X (q(Rdy := ins_prio (prio_of s) t (ins_prio (prio_of s) n (q Rdy)))) d None
      (set_state t READY (set_state n READY s2)) \<and> kframe s s2"
proof -
  note D = krunD [OF k] and R = krun_run_unqueued [OF k]
  from rt_put_prio_refines [OF D(1) live_Rdy R(1)] obtain l r where
    op1: "rt_put_prio s Rdy n = Some (s\<lparr>p_lnk := l, p_rlnk := r\<rparr>)" and
    inv1: "lists_inv (X - {n}) (q(Rdy := ins_prio (prio_of s) n (q Rdy))) (s\<lparr>p_lnk := l, p_rlnk := r\<rparr>)"
    by blast
  let ?s1 = "s\<lparr>p_lnk := l, p_rlnk := r\<rparr>" and ?q1 = "q(Rdy := ins_prio (prio_of s) n (q Rdy))"
  have "unqueued ?q1 ?s1 t"
    using t(1,4) by (auto simp: unqueued_def)
  from rt_put_prio_refines [OF inv1 live_Rdy this] obtain l' r' where
    op2: "rt_put_prio ?s1 Rdy t = Some (?s1\<lparr>p_lnk := l', p_rlnk := r'\<rparr>)" and
    inv2: "lists_inv (X - {n} - {t}) (q(Rdy := ins_prio (prio_of s) t (ins_prio (prio_of s) n (q Rdy))))
      (s\<lparr>p_lnk := l', p_rlnk := r'\<rparr>)"
    by auto
  let ?q = "q(Rdy := ins_prio (prio_of s) t (ins_prio (prio_of s) n (q Rdy)))"
  let ?s = "set_state t READY (set_state n READY (s\<lparr>p_lnk := l', p_rlnk := r'\<rparr>))"
  have pr: "prio_of ?s = prio_of s"
    by auto
  have "krun X ?q d None ?s"
  proof (rule krunI, goal_cases)
    case 1
    show ?case
      using lists_inv_mono [OF inv2, of X] by auto
  next
    case (4 h)
    show ?case
      unfolding pr using 4 D(4) [of h] D(4) [OF live_Rdy] by (simp add: prio_sorted_ins_prio)
  next
    case (5 h u)
    then show ?case
      using D(5) [of h u] t(1) R(1) by (auto simp: unqueued_def split: if_splits)
  next
    case (6 h u)
    then show ?case
      using D(6) [of h u] t(3) R(3) by (auto split: if_splits)
  next
    case (7 u)
    then show ?case
      using D(7) [of u] by (auto split: if_splits)
  next
    case (8 u)
    then show ?case
      using D(8) [of u] R(2) t(2) by auto
  next
    case (10 u)
    then show ?case
      using D(10) [of u] t(4) by (auto split: if_splits)
  qed (use D(2,3,9,13) in \<open>auto split: if_splits\<close>)
  moreover have "kframe s (s\<lparr>p_lnk := l', p_rlnk := r'\<rparr>)"
    by (simp add: kframe_def)
  ultimately show ?thesis
    using op1 op2 by (intro exI [of _ ?s1] exI [of _ "s\<lparr>p_lnk := l', p_rlnk := r'\<rparr>"]) simp
qed

lemma rt_rdy_prio_hd:
  assumes "krun X q d (Some n) s" and "n \<noteq> idle_TCB"
  shows "rt_rdy_prio s = Some (prio_of s (hd (q Rdy)))" and "hd (q Rdy) \<in> set (q Rdy)"
    and "\<And>t. t \<in> set (q Rdy) \<Longrightarrow> prio_of s t \<le> prio_of s (hd (q Rdy))"
proof -
  have ne: "q Rdy \<noteq> []"
    using krun_Rdy_nonempty [OF assms(1)] assms(2) by simp
  then show "hd (q Rdy) \<in> set (q Rdy)"
    by simp
  show "rt_rdy_prio s = Some (prio_of s (hd (q Rdy)))"
    using lists_invD(2) [OF krunD(1) [OF assms(1)] live_Rdy] ne by (cases "q Rdy") (auto simp: rt_rdy_prio_def)
  show "prio_of s t \<le> prio_of s (hd (q Rdy))" if "t \<in> set (q Rdy)" for t
    using krunD(4) [OF assms(1) live_Rdy] that ne by (cases "q Rdy") auto
qed

lemma top_prioI:
  "krun X q d (Some n) s \<Longrightarrow> n \<noteq> idle_TCB \<Longrightarrow> prio_of s (hd (q Rdy)) \<le> prio_of s n \<Longrightarrow> top_prio q n s"
  using rt_rdy_prio_hd(3) by (fastforce simp: top_prio_def)

text \<open>The lists and the running task after a handover of the mutex \<open>i\<close> to \<open>t\<close>.\<close>

definition hand_q :: "(nat \<Rightarrow> u8) \<Rightarrow> nat \<Rightarrow> nat \<Rightarrow> (ptr \<Rightarrow> nat list) \<Rightarrow> ptr \<Rightarrow> nat list" where
  "hand_q pr n t q =
     (if pr (hd (q Rdy)) \<le> pr n then disp_q pr n t q
      else q(Rdy := tl (ins_prio pr t (ins_prio pr n (q Rdy)))))"

definition hand_run :: "(nat \<Rightarrow> u8) \<Rightarrow> nat \<Rightarrow> nat \<Rightarrow> (ptr \<Rightarrow> nat list) \<Rightarrow> nat" where
  "hand_run pr n t q =
     (if pr (hd (q Rdy)) \<le> pr n then disp_run pr n t
      else hd (ins_prio pr t (ins_prio pr n (q Rdy))))"

lemma mut_handover_sched:
  assumes k: "krun X q d (Some n) s" and i: "cb_type s (Mut i) = MUCB" and q: "q (Mut i) = t # ts"
    and n: "run s = Some n" "n \<noteq> idle_TCB"
  shows "\<exists>s'. mut_handover s i n = Some s' \<and>
    sched X (hand_q (prio_of s) n t (q(Mut i := ts))) (rmv_dly t d)
      (hand_run (prio_of s) n t (q(Mut i := ts))) s' \<and>
    kframe (upd_mut i (\<lambda>m. m\<lparr>mu_level := 1, mu_owner := Some t, mu_prio := prio_of s t\<rparr>) (rt_ret_val t 0 s)) s'"
proof -
  have l: "live s (Mut i)"
    using i by (simp add: live_def)
  from k_wake [OF k l _ q] obtain s1 where s1: "rt_get_first s (Mut i) = Some (t, s1)"
    "kframe s (rt_rmv_dly s1 t)" "krun X (q(Mut i := ts)) (rmv_dly t d) (Some n) (rt_rmv_dly s1 t)"
    "unqueued (q(Mut i := ts)) (rt_rmv_dly s1 t) t" "t \<notin> fst ` set (rmv_dly t d)" "t \<notin> X" "t \<noteq> n"
    by auto
  let ?s2 = "rt_ret_val t 0 (rt_rmv_dly s1 t)" and ?q = "q(Mut i := ts)" and ?d = "rmv_dly t d"
  let ?f = "\<lambda>m. m\<lparr>mu_level := 1, mu_owner := Some t, mu_prio := prio_of s t\<rparr>"
  let ?s3 = "upd_mut i ?f ?s2"
  have fr: "kframe (upd_mut i ?f (rt_ret_val t 0 s)) ?s3"
    using s1(2) by (simp add: kframe_def rt_ret_val_def tcb_but_state)
  have pr: "prio_of ?s3 = prio_of s"
    using kframeD(12) [OF s1(2)] by simp
  have run3: "run ?s3 = Some n"
    using kframeD(5) [OF s1(2)] n(1) by simp
  have k3: "krun X ?q ?d (Some n) ?s3"
    using s1(3) by simp
  have uq3: "unqueued ?q ?s3 t"
    using s1(4) by (simp add: unqueued_def)
  have rp: "rt_rdy_prio ?s3 = Some (prio_of s (hd (?q Rdy)))"
    using rt_rdy_prio_hd(1) [OF k3 n(2)] pr by (simp add: fun_eq_iff)
  have step: "mut_handover s i n =
      (if prio_of s (hd (?q Rdy)) \<le> prio_of s n then rt_dispatch ?s3 (Some t)
       else do { s4 \<leftarrow> rt_put_prio ?s3 Rdy n; s5 \<leftarrow> rt_put_prio s4 Rdy t;
                 rt_dispatch (set_state t READY (set_state n READY s5)) None })"
    using rp fun_cong [OF pr] s1(1)
    by (simp add: mut_handover_def rt_rmv_dly_ret_val Let_def)
  show ?thesis
  proof (cases "prio_of s (hd (?q Rdy)) \<le> prio_of s n")
    case True
    then have "top_prio ?q n ?s3"
      using fun_cong [OF pr] by (intro top_prioI [OF k3 n(2)]) simp
    from k_dispatch_some [OF k3 this run3 uq3 s1(5,6,7)] obtain s' where
      "rt_dispatch ?s3 (Some t) = Some s'" "kframe ?s3 s'"
      "krun X (disp_q (prio_of s) n t ?q) ?d (Some (disp_run (prio_of s) n t)) s'"
      "top_prio (disp_q (prio_of s) n t ?q) (disp_run (prio_of s) n t) s'"
      unfolding pr by blast
    with True step fr show ?thesis
      by (auto simp: hand_q_def hand_run_def sched_def intro: kframe_trans)
  next
    case False
    from k_two_ready [OF k3 uq3 s1(5,6,7)] obtain s4 s5 where
      s5: "rt_put_prio ?s3 Rdy n = Some s4" "rt_put_prio s4 Rdy t = Some s5" "kframe ?s3 s5"
      "krun X (?q(Rdy := ins_prio (prio_of s) t (ins_prio (prio_of s) n (q Rdy)))) ?d None
        (set_state t READY (set_state n READY s5))"
      unfolding pr by auto
    let ?s5 = "set_state t READY (set_state n READY s5)"
    from k_dispatch_none [OF s5(4)] obtain s' where s': "rt_dispatch ?s5 None = Some s'" "kframe ?s5 s'"
      "krun X (hand_q (prio_of s) n t ?q) ?d (Some (hand_run (prio_of s) n t ?q)) s'"
      "top_prio (hand_q (prio_of s) n t ?q) (hand_run (prio_of s) n t ?q) s'"
      using False by (auto simp: hand_q_def hand_run_def)
    have "kframe ?s3 ?s5"
      using s5(3) by (simp add: kframe_def)
    with fr s'(2) have "kframe (upd_mut i ?f (rt_ret_val t 0 s)) s'"
      by (blast intro: kframe_trans)
    moreover have "mut_handover s i n = Some s'"
      unfolding step using False s5(1,2) s'(1) by (simp only: if_False bind.bind_lunit)
    ultimately show ?thesis
      using s'(3,4) by (auto simp: sched_def)
  qed
qed

lemma rt_mut_release_other:
  "mu_level (mucbs s i) = 0 \<or> mu_owner (mucbs s i) \<noteq> run s \<Longrightarrow> rt_mut_release s i = Some (OS_R_NOK, s)"
  by (simp add: rt_mut_release_def)

lemma rt_mut_release_nested:
  "mu_level (mucbs s i) \<notin> {0, 1} \<Longrightarrow> mu_owner (mucbs s i) = run s \<Longrightarrow>
   rt_mut_release s i = Some (OS_R_OK, upd_mut i (mu_level_update (\<lambda>l. l - 1)) s)"
  by (simp add: rt_mut_release_def Let_def)

text \<open>The state of a mutex whose last level is given up, and its owner's own priority restored.\<close>

definition mut_freed :: "kernel \<Rightarrow> nat \<Rightarrow> nat \<Rightarrow> kernel" where
  "mut_freed s i n = set_prio n (mu_prio (mucbs s i)) (upd_mut i (mu_level_update (\<lambda>_. 0)) s)"

lemma mut_freed_krun: "krun X q d (Some n) s \<Longrightarrow> krun X q d (Some n) (mut_freed s i n)"
  unfolding mut_freed_def by (rule k_set_prio_run) simp

lemma mut_freed_simps [simp]:
  "cb_type (mut_freed s i n) = cb_type s" "run (mut_freed s i n) = run s" "p_lnk (mut_freed s i n) = p_lnk s"
  "prio_of (mut_freed s i n) = (prio_of s)(n := mu_prio (mucbs s i))"
  by (auto simp: mut_freed_def)

lemma rt_mut_release_last:
  assumes "mu_level (mucbs s i) = 1" and "mu_owner (mucbs s i) = Some n" and "run s = Some n"
  shows "rt_mut_release s i = do {
    s3 \<leftarrow> (if p_lnk s (Mut i) \<noteq> None then mut_handover (mut_freed s i n) i n
           else do {
             rp \<leftarrow> rt_rdy_prio (mut_freed s i n);
             if mu_prio (mucbs s i) < rp then give_way (mut_freed s i n) n else Some (mut_freed s i n)
           });
    Some (OS_R_OK, s3) }"
proof -
  have "upd_mut i (mu_level_update (\<lambda>l. l - 1)) s = upd_mut i (mu_level_update (\<lambda>_. 0)) s"
    using assms(1) by (cases "mucbs s i") simp
  then show ?thesis
    using assms unfolding rt_mut_release_def mut_freed_def Let_def by (simp cong: if_cong)
qed

lemma rt_mut_release_idle:
  assumes k: "krun X q d (Some n) s" and i: "cb_type s (Mut i) = MUCB" "q (Mut i) = []"
    and ow: "mu_level (mucbs s i) = 1" "mu_owner (mucbs s i) = Some n"
    and n: "run s = Some n" "n \<noteq> idle_TCB"
  shows "\<exists>s' q' n'. rt_mut_release s i = Some (OS_R_OK, s') \<and> sched X q' d n' s' \<and>
    kframe (mut_freed s i n) s' \<and> (\<forall>h. h \<noteq> Rdy \<longrightarrow> q' h = q h)"
proof -
  note k' = mut_freed_krun [OF k, of i]
  have "p_lnk s (Mut i) = None"
    using krun_lnk_None [OF k, of "Mut i"] i by (simp add: live_def)
  note step = rt_mut_release_last [OF ow n(1), unfolded this]
  note rp = rt_rdy_prio_hd [OF k' n(2)]
  show ?thesis
  proof (cases "mu_prio (mucbs s i) < prio_of (mut_freed s i n) (hd (q Rdy))")
    case True
    from k_give_way [OF k'] obtain s' where s': "give_way (mut_freed s i n) n = Some s'"
      "krun X (q(Rdy := tl (ins_prio (prio_of (mut_freed s i n)) n (q Rdy)))) d
        (Some (hd (ins_prio (prio_of (mut_freed s i n)) n (q Rdy)))) s'"
      "top_prio (q(Rdy := tl (ins_prio (prio_of (mut_freed s i n)) n (q Rdy))))
        (hd (ins_prio (prio_of (mut_freed s i n)) n (q Rdy))) s'"
      "kframe (mut_freed s i n) s'"
      by blast
    have "rt_mut_release s i = Some (OS_R_OK, s')"
      unfolding step rp(1) using True s'(1) by simp
    with s' show ?thesis
      unfolding sched_def by (intro exI conjI) (assumption | simp)+
  next
    case False
    then have "prio_of (mut_freed s i n) (hd (q Rdy)) \<le> prio_of (mut_freed s i n) n"
      by (simp add: mut_freed_def)
    then have "top_prio q n (mut_freed s i n)"
      by (rule top_prioI [OF k' n(2)])
    moreover have "rt_mut_release s i = Some (OS_R_OK, mut_freed s i n)"
      unfolding step rp(1) using False by simp
    ultimately show ?thesis
      using k' by (intro exI [of _ "mut_freed s i n"] exI [of _ q] exI [of _ n]) (simp add: sched_def)
  qed
qed

lemma rt_mut_release_waiting:
  assumes k: "krun X q d (Some n) s" and i: "cb_type s (Mut i) = MUCB" "q (Mut i) = t # ts"
    and ow: "mu_level (mucbs s i) = 1" "mu_owner (mucbs s i) = Some n"
    and n: "run s = Some n" "n \<noteq> idle_TCB"
  shows "\<exists>s'. rt_mut_release s i = Some (OS_R_OK, s') \<and>
    sched X (hand_q ((prio_of s)(n := mu_prio (mucbs s i))) n t (q(Mut i := ts))) (rmv_dly t d)
      (hand_run ((prio_of s)(n := mu_prio (mucbs s i))) n t (q(Mut i := ts))) s' \<and>
    kframe (upd_mut i (\<lambda>m. m\<lparr>mu_level := 1, mu_owner := Some t, mu_prio := prio_of s t\<rparr>)
      (rt_ret_val t 0 (mut_freed s i n))) s'"
proof -
  have "p_lnk s (Mut i) \<noteq> None"
    using krun_lnk_None [OF k, of "Mut i"] i by (simp add: live_def)
  moreover have tn: "t \<noteq> n"
    using krun_run_unqueued(1) [OF k, unfolded unqueued_def, rule_format, of "Mut i"] i
    by (auto simp: live_def)
  moreover from tn have "prio_of (mut_freed s i n) t = prio_of s t"
    by (simp add: mut_freed_def)
  ultimately show ?thesis
    using mut_handover_sched [OF mut_freed_krun [OF k, of i], where i = i and t = t and ts = ts] i n
    unfolding rt_mut_release_last [OF ow n(1)] mut_freed_simps(4)
    by (auto simp del: mut_freed_simps(4))
qed

section \<open>Deleting\<close>

text \<open>The owner gets its own priority back; the lists are sorted again if it does not run.\<close>

lemma rt_mut_delete_sched:
  assumes k: "krun X q d (Some n) s" and i: "cb_type s (Mut i) = MUCB" and ok: "mut_ok X q s"
    and n: "run s = Some n"
  shows "\<exists>s' q' d' n'. rt_mut_delete s i = Some (OS_R_OK, s') \<and> sched X q' d' n' s' \<and>
    \<not> live s' (Mut i) \<and> (\<forall>h. live s h \<longrightarrow> h \<noteq> Rdy \<longrightarrow> set (q' h) = set ((q(Mut i := [])) h)) \<and>
    insert n' (set (q' Rdy)) = insert n (set (q Rdy) \<union> set (q (Mut i))) \<and>
    oframe s s' \<and> cb_type s' = (cb_type s)(Mut i := TCB) \<and>
    (\<forall>t. mu_level (mucbs s i) = 0 \<or> mu_owner (mucbs s i) \<noteq> Some t \<longrightarrow> prio_of s' t = prio_of s t)"
proof -
  obtain s1 q1 where s1: "(if mu_level (mucbs s i) \<noteq> 0
      then do {
        ow \<leftarrow> mu_owner (mucbs s i);
        let s0 = set_prio ow (mu_prio (mucbs s i)) s;
        if run s0 \<noteq> Some ow then rt_resort_prio s0 ow else Some s0
      }
      else Some s) = Some s1"
    and k1: "krun X q1 d (Some n) s1" and q1: "\<And>h. live s h \<Longrightarrow> set (q1 h) = set (q h)"
    and f1: "run s1 = Some n" "cb_type s1 = cb_type s" "oframe s s1"
      "\<forall>t. mu_level (mucbs s i) = 0 \<or> mu_owner (mucbs s i) \<noteq> Some t \<longrightarrow> prio_of s1 t = prio_of s t"
  proof (cases "mu_level (mucbs s i) = 0")
    case True
    then show ?thesis
      using that [of s q] k n by simp
  next
    case False
    then obtain ow where ow: "mu_owner (mucbs s i) = Some ow" "ow \<notin> X"
      using mut_okD(2) [OF ok i] by blast
    show ?thesis
    proof (cases "ow = n")
      case True
      then show ?thesis
        using that [of "set_prio n (mu_prio (mucbs s i)) s" q] k_set_prio_run [OF k] ow n False
        by (auto simp: oframe_def)
    next
      case oth: False
      from k_resort [OF k ow(2)] obtain s1 where
        "rt_resort_prio (set_prio ow (mu_prio (mucbs s i)) s) ow = Some s1"
        "krun X (resort_q ((prio_of s)(ow := mu_prio (mucbs s i))) ow q) d (Some n) s1"
        "kframe (set_prio ow (mu_prio (mucbs s i)) s) s1"
        by blast
      moreover from kframe_oframe [OF this(3)] have "oframe s s1"
        by (simp add: oframe_def)
      moreover have "distinct (q h)" if "live s h" for h
        using lists_invD(4) [OF krunD(1) [OF k] that] .
      ultimately show ?thesis
        using that [of s1 "resort_q ((prio_of s)(ow := mu_prio (mucbs s i))) ow q"] ow n False oth
        by (simp add: kframeD(4,5) [of "set_prio ow (mu_prio (mucbs s i)) s" s1]
          kframe_prio [of "set_prio ow (mu_prio (mucbs s i)) s" s1])
    qed
  qed
  have cb: "sem_mbx (cb_type s1 (Mut i))"
    using f1(2) i by simp
  from release_preempt [OF k1 f1(1) this] obtain s2 s3 q' n' where r:
    "release_all s1 (Mut i) = Some s2" "preempt s2 = Some s3"
    "sched X q' (cancel_all (q1 (Mut i)) d) n' (s3\<lparr>cb_type := (cb_type s3)(Mut i := TCB)\<rparr>)"
    "kframe (ret_all (q1 (Mut i)) s1) s3" "\<forall>h'. h' \<noteq> Rdy \<longrightarrow> q' h' = (q1(Mut i := [])) h'"
    "insert n' (set (q' Rdy)) = insert n (set (q1 Rdy) \<union> set (q1 (Mut i)))"
    by blast
  let ?s = "s3\<lparr>cb_type := (cb_type s3)(Mut i := TCB)\<rparr>"
  have "live s (Mut i)"
    using i by (simp add: live_def)
  then have sets: "set (q1 Rdy) = set (q Rdy)" "set (q1 (Mut i)) = set (q (Mut i))"
    using q1 by simp_all
  have "rt_mut_delete s i = Some (OS_R_OK, ?s)"
    unfolding rt_mut_delete_def s1 using r(1,2) by simp
  moreover have "\<not> live ?s (Mut i)"
    by (simp add: live_def)
  moreover have "\<forall>h. live s h \<longrightarrow> h \<noteq> Rdy \<longrightarrow> set (q' h) = set ((q(Mut i := [])) h)"
    using r(5) q1 by simp
  moreover have "oframe s ?s" "cb_type ?s = (cb_type s)(Mut i := TCB)"
    "\<forall>t. mu_level (mucbs s i) = 0 \<or> mu_owner (mucbs s i) \<noteq> Some t \<longrightarrow> prio_of ?s t = prio_of s t"
    using f1(2-4) kframeD(4) [OF r(4)] kframe_oframe [OF r(4)] kframe_prio [OF r(4)]
    by (simp_all add: oframe_def ret_all_def)
  ultimately show ?thesis
    using r(3,6) unfolding sets by blast
qed

end
