(* ===== verification/Rtx_System.thy ===== *)
theory Rtx_System
  imports Rtx_Timer Rtx_Mutex
begin

text \<open>
  Time: the system tick with the round robin check (\<open>rt_systick\<close> of \<open>rt_System.c\<close>, \<open>rt_Robin.c\<close>),
  suspending and resuming the kernel, and the waiting services of \<open>rt_Time.c\<close>. The interrupt
  enable registers that \<open>rt_tsk_lock\<close> and \<open>rt_tsk_unlock\<close> write are not part of the state.
\<close>

section \<open>The operations\<close>

definition rt_chk_robin :: "kernel \<Rightarrow> kernel option" where
  "rt_chk_robin s =
     (let s1 = (if robin_task s \<noteq> p_lnk s Rdy
                then s\<lparr>robin_task := p_lnk s Rdy, robin_time := ucast (os_time s) + robin_tout s - 1\<rparr>
                else s)
      in if robin_time s1 = ucast (os_time s1)
         then do {
           (p_new, s2) \<leftarrow> rt_get_first (s1\<lparr>robin_task := None\<rparr>) Rdy;
           rt_put_prio s2 Rdy p_new
         }
         else Some s1)"

definition rt_systick ::
    "(nat \<Rightarrow> u32) \<Rightarrow> nat option \<Rightarrow> timers \<Rightarrow> kernel \<Rightarrow> (timers \<times> kernel) option" where
  "rt_systick addr tq ts s = do {
     r \<leftarrow> run s;
     s1 \<leftarrow> rt_chk_robin (rt_put_rdy_first (set_state r READY s) r);
     s2 \<leftarrow> rt_dec_dly (s1\<lparr>os_time := os_time s1 + 1\<rparr>);
     (ts', s3) \<leftarrow> sysTimerTick addr tq ts s2;
     (t, s4) \<leftarrow> rt_get_first s3 Rdy;
     Some (ts', rt_switch_req s4 t)
   }"

definition rt_suspend :: "kernel \<Rightarrow> u32" where
  "rt_suspend s = (if p_dlnk s Dly \<noteq> None then ucast (delta_time s Dly) else 0xFFFF)"

partial_function (option) resume_loop :: "kernel \<Rightarrow> u32 \<Rightarrow> kernel option" where
  "resume_loop s delta =
     (if p_dlnk s Dly = None then Some s
      else do {
        s1 \<leftarrow> rt_dec_dly s;
        if delta = 0 then Some s1
        else resume_loop (s1\<lparr>os_time := os_time s1 + 1\<rparr>) (delta - 1)
      })"

definition rt_resume :: "kernel \<Rightarrow> u32 \<Rightarrow> kernel option" where
  "rt_resume s sleep_time = do {
     r \<leftarrow> run s;
     let s1 = (rt_put_rdy_first (set_state r READY s) r)\<lparr>robin_task := None\<rparr>;
     s2 \<leftarrow> (if p_dlnk s1 Dly \<noteq> None
           then if ucast (delta_time s1 Dly) \<le> sleep_time
                then resume_loop (set_delta Dly 1 (s1\<lparr>os_time := os_time s1 + ucast (delta_time s1 Dly)\<rparr>))
                       (sleep_time - ucast (delta_time s1 Dly))
                else Some (set_delta Dly (delta_time s1 Dly - ucast sleep_time)
                       (s1\<lparr>os_time := os_time s1 + sleep_time\<rparr>))
           else Some (s1\<lparr>os_time := os_time s1 + sleep_time\<rparr>));
     (t, s3) \<leftarrow> rt_get_first s2 Rdy;
     Some (rt_switch_req s3 t)
   }"

definition rt_time_get :: "kernel \<Rightarrow> u32" where
  "rt_time_get s = os_time s"

definition rt_dly_wait :: "kernel \<Rightarrow> u16 \<Rightarrow> kernel option" where
  "rt_dly_wait s delay_time = rt_block s delay_time WAIT_DLY"

definition rt_itv_set :: "kernel \<Rightarrow> u16 \<Rightarrow> kernel option" where
  "rt_itv_set s itv = do {
     r \<leftarrow> run s;
     let s1 = upd_tcb r (interval_time_update (\<lambda>_. itv)) s;
     Some (set_delta (Task r) (itv + ucast (os_time s1)) s1)
   }"

definition rt_itv_wait :: "kernel \<Rightarrow> kernel option" where
  "rt_itv_wait s = do {
     r \<leftarrow> run s;
     let delta = delta_time s (Task r) - ucast (os_time s);
     let s1 = set_delta (Task r) (delta_time s (Task r) + interval_time (tcbs s r)) s;
     if and delta 0x8000 = 0 then rt_block s1 delta WAIT_ITV else Some s1
   }"

section \<open>The round robin check\<close>

lemma rt_chk_robin_krun:
  assumes k: "krun X q d None s"
  shows "\<exists>s' ts rt tm. rt_chk_robin s = Some s' \<and> krun X (q(Rdy := ts)) d None s' \<and>
    kframe (s\<lparr>robin_task := rt, robin_time := tm\<rparr>) s' \<and>
    (ts = q Rdy \<or> ts = ins_prio (prio_of s) (hd (q Rdy)) (tl (q Rdy)))"
proof -
  define s1 where "s1 = (if robin_task s \<noteq> p_lnk s Rdy
      then s\<lparr>robin_task := p_lnk s Rdy, robin_time := ucast (os_time s) + robin_tout s - 1\<rparr> else s)"
  have k1: "krun X q d None s1"
    using k by (simp add: s1_def)
  have f1: "kframe (s\<lparr>robin_task := robin_task s1, robin_time := robin_time s1\<rparr>) s1"
    by (simp add: kframe_def s1_def)
  show ?thesis
  proof (cases "robin_time s1 = ucast (os_time s1)")
    case False
    then have "rt_chk_robin s = Some s1"
      by (simp add: rt_chk_robin_def s1_def Let_def)
    with k1 f1 show ?thesis
      by (intro exI [of _ s1] exI [of _ "q Rdy"]) auto
  next
    case True
    let ?s1 = "s1\<lparr>robin_task := None\<rparr>"
    obtain t ts where q: "q Rdy = t # ts"
      using krun_Rdy_nonempty [OF k] by (cases "q Rdy") auto
    note D = krunD [OF k]
    have inv: "lists_inv X q ?s1"
      using krunD(1) [OF k1] by simp
    from rt_get_first_refines [OF inv live_Rdy q] obtain l r where
      op: "rt_get_first ?s1 Rdy = Some (t, ?s1\<lparr>p_lnk := l, p_rlnk := r\<rparr>)" and
      inv1: "lists_inv X (q(Rdy := ts)) (?s1\<lparr>p_lnk := l, p_rlnk := r\<rparr>)"
      by auto
    have "unqueued (q(Rdy := ts)) (?s1\<lparr>p_lnk := l, p_rlnk := r\<rparr>) t"
      using lists_invD(4) [OF inv live_Rdy] lists_invD(7) [OF inv live_Rdy] q
      by (fastforce simp: unqueued_def)
    from rt_put_prio_refines [OF inv1 live_Rdy this] obtain l' r' where
      op2: "rt_put_prio (?s1\<lparr>p_lnk := l, p_rlnk := r\<rparr>) Rdy t = Some (?s1\<lparr>p_lnk := l', p_rlnk := r'\<rparr>)" and
      inv2: "lists_inv (X - {t}) (q(Rdy := ins_prio (prio_of ?s1) t ts)) (?s1\<lparr>p_lnk := l', p_rlnk := r'\<rparr>)"
      by auto
    let ?s = "?s1\<lparr>p_lnk := l', p_rlnk := r'\<rparr>" and ?q = "q(Rdy := ins_prio (prio_of s) t ts)"
    have pr: "prio_of ?s1 = prio_of s" "tcbs ?s = tcbs s"
      by (simp_all add: s1_def)
    have inv3: "lists_inv X ?q ?s"
      using lists_inv_mono [OF inv2, of X] unfolding pr by auto
    have l: "live s1 h = live s h" "live ?s h = live s h" for h
      by (simp_all add: live_def s1_def)
    have sets: "set (?q h) = set (q h)" for h
      using q by simp
    have "krun X ?q d None ?s"
    proof (rule krunI, goal_cases)
      case (4 h)
      then show ?case
        using D(4) [of h] D(4) [OF live_Rdy] q by (auto simp: l pr(2) prio_sorted_ins_prio)
    next
      case (5 h u)
      then show ?case
        using D(5) [of h u] by (simp only: l sets pr(2))
    next
      case (6 h u)
      then show ?case
        using D(6) [of h u] unfolding l sets by simp
    next
      case (7 u)
      then show ?case
        using D(7) [of u] unfolding sets pr(2) by simp
    next
      case (8 u)
      then show ?case
        using D(8) [of u] unfolding pr(2) by simp
    next
      case (10 u)
      then show ?case
        using D(10) [of u] unfolding pr(2) by simp
    next
      case 12
      then show ?case
        using D(13) by (simp only: sets)
    qed (use inv3 krunD(2) [OF k1] D(3,9) in \<open>simp_all add: dly_inv_def\<close>)
    moreover have "rt_chk_robin s = Some ?s"
      using True op op2 by (simp add: rt_chk_robin_def Let_def s1_def [symmetric])
    moreover have "kframe (s\<lparr>robin_task := None, robin_time := robin_time s1\<rparr>) ?s"
      by (simp add: kframe_def s1_def)
    ultimately show ?thesis
      unfolding q by (intro exI [of _ ?s] exI) (auto simp: q)
  qed
qed

section \<open>The decrement of the delays\<close>

lemma k_dec_dly:
  assumes k: "krun X q d N s"
  shows "\<exists>s'. rt_dec_dly s = Some s' \<and> krun X (wake_all (prio_of s) (expired d) q) (tick_dly d) N s' \<and>
    kframe s s' \<and> new_tsk s' = new_tsk s"
proof -
  note D = krunD [OF k]
  have fresh: "fst ` set d \<inter> (X \<union> set (q Rdy)) = {}"
    using D(8,9) D(5) [OF live_Rdy] by fastforce
  from rt_dec_dly_refines [OF D(1,2,3) fresh] obtain l r dl bl de where
    op: "rt_dec_dly s = Some (s\<lparr>p_lnk := l, p_rlnk := r, p_dlnk := dl, p_blnk := bl, delta_time := de,
      tcbs := ready_all (expired d) (tcbs s)\<rparr>)" and
    inv: "lists_inv X (wake_all (prio_of s) (expired d) q) (s\<lparr>p_lnk := l, p_rlnk := r\<rparr>)" and
    dly: "dly_inv (tick_dly d) (s\<lparr>p_dlnk := dl, p_blnk := bl, delta_time := de\<rparr>)"
    by blast
  let ?s = "s\<lparr>p_lnk := l, p_rlnk := r, p_dlnk := dl, p_blnk := bl, delta_time := de,
      tcbs := ready_all (expired d) (tcbs s)\<rparr>"
  let ?q = "wake_all (prio_of s) (expired d) q"
  have st: "state_of ?s t = (if t \<in> set (expired d) then READY else state_of s t)" for t
    by (simp add: ready_all_def)
  have pr: "prio_of ?s = prio_of s"
    by simp
  have exp: "set (expired d) \<subseteq> fst ` set d"
    by (auto simp: expired_def)
  have dist: "distinct (map fst d)"
    using dly_invD(7) [OF D(2)] .
  have sub: "h \<noteq> Rdy \<Longrightarrow> t \<in> set (?q h) \<Longrightarrow> t \<in> set (q h) \<and> t \<notin> set (expired d)" if "live s h" for h t
    using lists_invD(4) [OF D(1) that] by (auto simp: wake_all_other)
  have tick: "t \<in> fst ` set d \<and> t \<notin> set (expired d)" if "t \<in> fst ` set (tick_dly d)" for t
  proof -
    from that obtain a where a: "(t, a) \<in> set d" "1 < a"
      by (auto simp: tick_dly_def)
    have "t \<notin> set (expired d)"
    proof
      assume "t \<in> set (expired d)"
      then obtain c where "(t, c) \<in> set d" "c \<le> 1"
        by (auto simp: expired_def)
      moreover from this have "c = a"
        using dist a(1) by (meson eq_key_imp_eq_value)
      ultimately show False
        using a(2) by simp
    qed
    moreover have "t \<in> fst ` set d"
      using a(1) by (rule image_eqI [rotated]) simp
    ultimately show ?thesis
      by blast
  qed
  have "krun X ?q (tick_dly d) N ?s"
  proof (rule krunI)
    show "lists_inv X ?q ?s" "dly_inv (tick_dly d) ?s"
      using inv dly by (simp_all add: dly_inv_def)
    show "\<forall>(t, a) \<in> set (tick_dly d). 0 < a"
      by (auto simp: tick_dly_def)
    show "prio_sorted (prio_of ?s) (?q h)" if "live ?s h" for h
      unfolding pr using that D(4) [of h] D(4) [OF live_Rdy]
      by (cases "h = Rdy") (auto intro: prio_sorted_wake_all_Rdy prio_sorted_wake_all)
    show "state_of ?s t = qstate h" if "live ?s h" "t \<in> set (?q h)" for h t
      using that sub [of h t] D(5) [of h t] unfolding st by (cases "h = Rdy") auto
    show "t \<notin> X" if "live ?s h" "t \<in> set (?q h)" for h t
      using that sub [of h t] D(6) [of h t] subsetD [OF exp, of t] D(9) [of t] by (cases "h = Rdy") auto
    show "t \<in> set (?q Rdy)" if "t \<notin> X" "state_of ?s t = READY" for t
      using that D(7) [of t] unfolding st by (auto split: if_splits)
    show "state_of ?s t \<notin> {READY, RUNNING, INACTIVE}" if "t \<in> fst ` set (tick_dly d)" for t
      using tick [OF that] D(8) [of t] unfolding st by simp
    show "t \<notin> X" if "t \<in> fst ` set (tick_dly d)" for t
      using tick [OF that] D(9) by blast
    show "state_of ?s t = RUNNING \<longleftrightarrow> N = Some t" if "t \<notin> X" for t
      using D(10) [OF that] D(8) [of t] subsetD [OF exp, of t] unfolding st by auto
    show "n \<notin> X \<and> new_tsk ?s = Some n" if "N = Some n" for n
      using D(11,12) that by simp
    show "N = Some idle_TCB \<or> idle_TCB \<in> set (?q Rdy)"
      using D(13) by auto
  qed
  moreover have "kframe s ?s"
    by (auto simp: kframe_def ready_all_def tcb_but_state)
  ultimately show ?thesis
    using op by auto
qed

section \<open>The tick\<close>

lemma isrMessagePut_psq: "isrMessagePut s q i ms = Some (r, s') \<Longrightarrow> s' = s\<lparr>os_psq := os_psq s'\<rparr>"
  by (auto simp: isrMessagePut_def isr_mbx_send_def rt_psq_enq_eq split: option.splits if_splits)

lemma put_all_psq: "put_all addr tq zs s = Some s' \<Longrightarrow> s' = s\<lparr>os_psq := os_psq s'\<rparr>"
proof (induction zs arbitrary: s)
  case (Cons t zs)
  then obtain r s1 where "isrMessagePut s tq (addr t) 0 = Some (r, s1)" "put_all addr tq zs s1 = Some s'"
    by (auto elim!: bind_SomeE)
  with isrMessagePut_psq [of s tq "addr t" 0 r s1] Cons.IH [of s1] show ?case
    by (metis kernel.surjective kernel.update_convs(18))
qed simp

text \<open>What the posts depend on.\<close>

lemma put_all_cong:
  assumes "cb_type s' = cb_type s" "mcbs s' = mcbs s" "os_psq s' = os_psq s"
  shows "put_all addr tq zs s' = map_option (\<lambda>p. s'\<lparr>os_psq := os_psq p\<rparr>) (put_all addr tq zs s)"
proof -
  have put: "isrMessagePut s1' tq i 0 = map_option (\<lambda>(r, p). (r, s1'\<lparr>os_psq := os_psq p\<rparr>)) (isrMessagePut s1 tq i 0)"
    if "cb_type s1' = cb_type s1" "mcbs s1' = mcbs s1" "os_psq s1' = os_psq s1" for s1 s1' i
    using that by (auto simp: isrMessagePut_def isr_mbx_send_def rt_psq_enq_eq rt_mbx_check_def split: option.split)
  show ?thesis
    using assms
  proof (induction zs arbitrary: s s')
    case (Cons t zs)
    show ?case
    proof (cases "isrMessagePut s tq (addr t) 0")
      case None
      with put [OF Cons.prems, of "addr t"] show ?thesis
        by simp
    next
      case (Some x)
      obtain r s1 where x: "x = (r, s1)"
        by fastforce
      let ?s1' = "s'\<lparr>os_psq := os_psq s1\<rparr>"
      have s1: "s1 = s\<lparr>os_psq := os_psq s1\<rparr>"
        using isrMessagePut_psq Some x by blast
      then have "cb_type ?s1' = cb_type s1" "mcbs ?s1' = mcbs s1" "os_psq ?s1' = os_psq s1"
        using Cons.prems by (metis kernel.select_convs kernel.update_convs kernel.surjective)+
      from Cons.IH [OF this] put [OF Cons.prems, of "addr t"] Some x show ?thesis
        by (simp add: option.map_comp comp_def)
    qed
  qed simp
qed

lemma wake_all_hd:
  assumes "set ts = set (q Rdy)"
  shows "set (wake_all pr ds (q(Rdy := ts)) Rdy) = set ds \<union> set (q Rdy)"
    and "h \<noteq> Rdy \<Longrightarrow> distinct (q h) \<Longrightarrow> set (wake_all pr ds (q(Rdy := ts)) h) = set (q h) - set ds"
  using assms by (simp_all add: wake_all_other)

text \<open>
  What a tick changes beside the lists, the delays and the timers: the clock, the round robin
  record and the posts of the expired timers.
\<close>

definition tick_frame :: "kernel \<Rightarrow> kernel \<Rightarrow> bool" where
  "tick_frame s s' \<longleftrightarrow> kframe (s\<lparr>os_time := os_time s', robin_task := robin_task s',
     robin_time := robin_time s', os_psq := os_psq s'\<rparr>) s'"

lemma tick_frameD:
  assumes "tick_frame s s'"
  shows "scbs s' = scbs s" "mcbs s' = mcbs s" "mucbs s' = mucbs s" "cb_type s' = cb_type s"
    "run s' = run s" "os_active_TCB s' = os_active_TCB s" "mem s' = mem s"
    "prio_of s' = prio_of s"
  using kframeD [OF assms [unfolded tick_frame_def]] by simp_all

lemma systick_parts:
  assumes s: "sched X q d n s" and n: "run s = Some n"
  shows "\<exists>s1 s2 ts. rt_chk_robin (rt_put_rdy_first (set_state n READY s) n) = Some s1 \<and>
    rt_dec_dly (s1\<lparr>os_time := os_time s1 + 1\<rparr>) = Some s2 \<and>
    krun X (wake_all (prio_of s) (expired d) (q(Rdy := ts))) (tick_dly d) None s2 \<and>
    set ts = insert n (set (q Rdy)) \<and> tick_frame s s2 \<and> os_time s2 = os_time s + 1 \<and> os_psq s2 = os_psq s"
proof -
  from s have k: "krun X q d (Some n) s" "top_prio q n s"
    by (simp_all add: sched_def)
  let ?s0 = "rt_put_rdy_first (set_state n READY s) n" and ?q0 = "q(Rdy := n # q Rdy)"
  note k0 = k_park [OF k]
  from rt_chk_robin_krun [OF k0(1)] obtain s1 ts rt tm where s1: "rt_chk_robin ?s0 = Some s1"
    "krun X (?q0(Rdy := ts)) d None s1" "kframe (?s0\<lparr>robin_task := rt, robin_time := tm\<rparr>) s1"
    "ts = ?q0 Rdy \<or> ts = ins_prio (prio_of ?s0) (hd (?q0 Rdy)) (tl (?q0 Rdy))"
    by blast
  have set_ts: "set ts = insert n (set (q Rdy))"
    using s1(4) by auto
  have "krun X (q(Rdy := ts)) d None (s1\<lparr>os_time := os_time s1 + 1\<rparr>)"
    using s1(2) by simp
  from k_dec_dly [OF this] obtain s2 where s2: "rt_dec_dly (s1\<lparr>os_time := os_time s1 + 1\<rparr>) = Some s2"
    "krun X (wake_all (prio_of (s1\<lparr>os_time := os_time s1 + 1\<rparr>)) (expired d) (q(Rdy := ts))) (tick_dly d) None s2"
    "kframe (s1\<lparr>os_time := os_time s1 + 1\<rparr>) s2"
    by blast
  note F0 = kframeD [OF k0(2)] and F1 = kframeD [OF s1(3)] and F2 = kframeD [OF s2(3)]
  have pr: "prio_of (s1\<lparr>os_time := os_time s1 + 1\<rparr>) = prio_of s"
    using F0(12) F1(12) by simp
  have "tick_frame s s2"
    using k0(2) s1(3) s2(3) by (simp add: tick_frame_def kframe_def)
  then show ?thesis
    using s1 s2(1) s2(2) [unfolded pr] set_ts F0 F1 F2 by (intro exI [of _ s1] exI [of _ s2] exI [of _ ts]) simp
qed

lemma rt_systick_sched:
  assumes s: "sched X q d n s" and n: "run s = Some n" and tm: "tmr_ok xs ts"
  shows "\<exists>ts'. tmr_ok (restart (periodic ts) (icnt ts) (expired xs) (tick_dly xs)) ts' \<and>
    (case put_all addr tq (expired xs) s of
       None \<Rightarrow> rt_systick addr tq ts s = None
     | Some p \<Rightarrow> \<exists>s' q' n'. rt_systick addr tq ts s = Some (ts', s') \<and> sched X q' (tick_dly d) n' s' \<and>
         insert n' (set (q' Rdy)) = insert n (set (q Rdy) \<union> set (expired d)) \<and>
         (\<forall>h. live s h \<longrightarrow> h \<noteq> Rdy \<longrightarrow> set (q' h) = set (q h) - set (expired d)) \<and>
         os_time s' = os_time s + 1 \<and> os_psq s' = os_psq p \<and> tick_frame s s')"
proof -
  from systick_parts [OF s n] obtain s1 s2 rs where
    p: "rt_chk_robin (rt_put_rdy_first (set_state n READY s) n) = Some s1"
    "rt_dec_dly (s1\<lparr>os_time := os_time s1 + 1\<rparr>) = Some s2"
    and k2: "krun X (wake_all (prio_of s) (expired d) (q(Rdy := rs))) (tick_dly d) None s2"
    and rs: "set rs = insert n (set (q Rdy))" and f2: "tick_frame s s2"
    and os: "os_time s2 = os_time s + 1" "os_psq s2 = os_psq s"
    by blast
  let ?q = "wake_all (prio_of s) (expired d) (q(Rdy := rs))"
  from sysTimerTick_refines [OF tm, of addr tq] obtain ts' where
    tick: "\<And>s. sysTimerTick addr tq ts s = map_option (\<lambda>s'. (ts', s')) (put_all addr tq (expired xs) s)"
    and tm': "tmr_ok (restart (periodic ts) (icnt ts) (expired xs) (tick_dly xs)) ts'"
    by blast
  have put: "put_all addr tq (expired xs) s2 =
      map_option (\<lambda>p. s2\<lparr>os_psq := os_psq p\<rparr>) (put_all addr tq (expired xs) s)"
    using tick_frameD [OF f2] os by (intro put_all_cong) simp_all
  show ?thesis
  proof (cases "put_all addr tq (expired xs) s")
    case None
    then show ?thesis
      using tm' p put n by (intro exI [of _ ts']) (simp add: rt_systick_def tick)
  next
    case (Some p1)
    have "krun X ?q (tick_dly d) None (s2\<lparr>os_psq := os_psq p1\<rparr>)"
      using k2 by simp
    from k_dispatch_none [OF this] obtain s' where s':
      "rt_dispatch (s2\<lparr>os_psq := os_psq p1\<rparr>) None = Some s'"
      "krun X (?q(Rdy := tl (?q Rdy))) (tick_dly d) (Some (hd (?q Rdy))) s'"
      "top_prio (?q(Rdy := tl (?q Rdy))) (hd (?q Rdy)) s'" "kframe (s2\<lparr>os_psq := os_psq p1\<rparr>) s'"
      by blast
    have ne: "?q Rdy \<noteq> []"
      using krun_Rdy_nonempty [OF k2] by simp
    have ins: "insert (hd (?q Rdy)) (set (tl (?q Rdy))) = set (?q Rdy)"
      using ne by (metis list.collapse list.simps(15))
    have others: "set ((?q(Rdy := tl (?q Rdy))) h) = set (q h) - set (expired d)" if "live s h" "h \<noteq> Rdy" for h
    proof -
      have "distinct (q h)"
        using s lists_invD(4) [OF krunD(1) that(1)] by (auto simp: sched_def)
      then show ?thesis
        using that(2) by (simp add: wake_all_other)
    qed
    have tf: "tick_frame s s'"
      using f2 s'(4) by (simp add: tick_frame_def kframe_def)
    show ?thesis
      unfolding Some option.case
    proof (intro exI conjI allI impI)
      show "rt_systick addr tq ts s = Some (ts', s')"
        using p put n Some s'(1) unfolding rt_systick_def tick dispatch_none_eq
        by (auto split: Option.bind_splits)
      show "sched X (?q(Rdy := tl (?q Rdy))) (tick_dly d) (hd (?q Rdy)) s'"
        using s'(2,3) by (simp add: sched_def)
      show "insert (hd (?q Rdy)) (set ((?q(Rdy := tl (?q Rdy))) Rdy)) = insert n (set (q Rdy) \<union> set (expired d))"
        using ins rs by auto
      show "os_time s' = os_time s + 1" "os_psq s' = os_psq p1"
        using kframeD [OF s'(4)] os by simp_all
    qed (fact tm' tf | erule (1) others)+
  qed
qed

section \<open>Several ticks at once\<close>

definition sub_dly :: "nat \<Rightarrow> (nat \<times> nat) list \<Rightarrow> (nat \<times> nat) list" where
  "sub_dly k d = map (\<lambda>(t, a). (t, a - k)) d"

text \<open>Who is woken within \<open>k\<close> ticks, and the remaining times of the others.\<close>

definition woken :: "nat \<Rightarrow> (nat \<times> nat) list \<Rightarrow> nat set" where
  "woken k d = fst ` {x \<in> set d. snd x \<le> k}"

definition adv :: "nat \<Rightarrow> (nat \<times> nat) list \<Rightarrow> (nat \<times> nat) list" where
  "adv k d = map (\<lambda>(t, a). (t, a - k)) (filter (\<lambda>(t, a). k < a) d)"

lemma woken_simps [simp]:
  "woken k [] = {}" "woken k ((t, a) # d) = (if a \<le> k then insert t (woken k d) else woken k d)"
  by (auto simp: woken_def image_iff)

lemma adv_simps [simp]:
  "adv k [] = []" "adv k ((t, a) # d) = (if k < a then (t, a - k) # adv k d else adv k d)"
  by (simp_all add: adv_def)

lemma tick_simps [simp]:
  "tick_dly [] = []" "tick_dly ((t, a) # d) = (if 1 < a then (t, a - 1) # tick_dly d else tick_dly d)"
  by (simp_all add: tick_dly_def)

lemma expired_simps [simp]:
  "expired [] = []" "expired ((t, a) # d) = (if a \<le> 1 then t # expired d else expired d)"
  by (simp_all add: expired_def)

lemma sub_dly_simps [simp]: "sub_dly k [] = []" "sub_dly k ((t, a) # d) = (t, a - k) # sub_dly k d"
  by (simp_all add: sub_dly_def)

lemma adv_1: "adv 1 d = tick_dly d"
  by (induction d) auto

lemma adv_tick: "adv k (tick_dly d) = adv (Suc k) d"
  by (induction d) auto

lemma adv_sub: "j \<le> k \<Longrightarrow> \<forall>x \<in> set d. j < snd x \<Longrightarrow> adv (k - j) (sub_dly j d) = adv k d"
  by (induction d) auto

lemma sub_adv: "\<forall>x \<in> set d. k < snd x \<Longrightarrow> sub_dly k d = adv k d"
  by (induction d) auto

lemma woken_1: "woken 1 d = set (expired d)"
  by (induction d) auto

lemma woken_tick: "set (expired d) \<union> woken k (tick_dly d) = woken (Suc k) d"
proof (induction d)
  case (Cons x d)
  then show ?case
    by (cases x) (simp split: if_splits, fastforce)
qed simp

lemma woken_sub: "j \<le> k \<Longrightarrow> \<forall>x \<in> set d. j < snd x \<Longrightarrow> woken (k - j) (sub_dly j d) = woken k d"
proof (induction d)
  case (Cons x d)
  then have "snd x - j \<le> k - j \<longleftrightarrow> snd x \<le> k"
    by auto
  with Cons show ?case
    by (cases x) simp
qed simp

lemma dpath_sub:
  assumes "dpath f p b d" and "k \<le> b"
  shows "dpath f p (b - k) (sub_dly k d)"
  using assms by (induction f p b d rule: dpath.induct) (auto simp: sub_dly_def)

lemma dly_inv_sub:
  assumes dly: "dly_inv d s" and d: "d = (t, a) # d'" and k: "k \<le> a"
  shows "dly_inv (sub_dly k d) (set_delta Dly (of_nat (a - k)) s)"
proof -
  note D = dly_invD [OF dly]
  have "a < 2 ^ 16"
    using D(6) d by auto
  then have "unat (of_nat (a - k) :: u16) = a - k"
    by (simp add: unat_of_nat)
  moreover have "dpath (delta_time s) (Task t) (a - k) (sub_dly k d')"
    using D(4) k by (intro dpath_sub) (simp_all add: d)
  ultimately have "dpath ((delta_time s)(Dly := of_nat (a - k))) Dly 0 (sub_dly k d)"
    by (simp add: d sub_dly_def)
  moreover have "map fst (sub_dly k d) = map fst d"
    by (auto simp: sub_dly_def)
  moreover from this have "fst ` set (sub_dly k d) = fst ` set d"
    by (metis set_map)
  moreover have "fst (last (sub_dly k d)) = fst (last d)" "sub_dly k d \<noteq> []"
    using d by (simp_all add: sub_dly_def last_map case_prod_beta)
  moreover have "c < 2 ^ 16" if "(u, c) \<in> set (sub_dly k d)" for u c
    using that D(6) by (auto simp: sub_dly_def less_imp_diff_less)
  ultimately show ?thesis
    using D(1,2,3,5) d unfolding dly_inv_def by auto
qed

lemma krun_sub:
  assumes k: "krun X q d N s" and d: "d = (t, a) # d'" and j: "j < a"
  shows "krun X q (sub_dly j d) N (set_delta Dly (of_nat (a - j)) s)"
proof -
  note D = krunD [OF k]
  have "sorted (map snd d)"
    using dly_invD(4) [OF D(2)] by (rule dpath_sorted)
  then have pos: "\<forall>(u, c) \<in> set (sub_dly j d). 0 < c"
    using j d by (auto simp: sub_dly_def)
  have f: "fst ` set (sub_dly j d) = fst ` set d"
    by (force simp: sub_dly_def)
  show ?thesis
    by (rule krunI) (use D dly_inv_sub [OF D(2) d, of j] j pos in \<open>simp_all add: f\<close>)
qed

lemma sorted_dly: "krun X q d N s \<Longrightarrow> sorted (map snd d)"
  by (rule dpath_sorted [OF dly_invD(4) [OF krunD(2)]])

lemma last_dly:
  assumes "sorted (map snd d)" and "(t, a) \<in> set d"
  shows "a \<le> snd (last d)"
  using assms by (induction d) (force simp: sorted_append)+

definition adv_lists :: "nat \<Rightarrow> (nat \<times> nat) list \<Rightarrow> kernel \<Rightarrow> (ptr \<Rightarrow> nat list) \<Rightarrow> (ptr \<Rightarrow> nat list) \<Rightarrow> bool" where
  "adv_lists k d s q q' \<longleftrightarrow> set (q' Rdy) = set (q Rdy) \<union> woken k d \<and>
     (\<forall>h. live s h \<longrightarrow> h \<noteq> Rdy \<longrightarrow> set (q' h) = set (q h) - woken k d)"

lemma adv_lists_tick:
  assumes k: "krun X q d N s"
  shows "adv_lists 1 d s q (wake_all (prio_of s) (expired d) q)"
  using lists_invD(4) [OF krunD(1) [OF k]] by (auto simp: adv_lists_def woken_1 [unfolded One_nat_def] wake_all_other)

lemma adv_lists_trans:
  assumes "adv_lists 1 d s q q1" "adv_lists k (tick_dly d) s1 q1 q'" "live s1 = live s"
  shows "adv_lists (Suc k) d s q q'"
proof -
  have "woken (Suc k) d = woken (Suc 0) d \<union> woken k (tick_dly d)"
    using woken_tick [of d k] by (simp add: woken_1 [unfolded One_nat_def])
  with assms show ?thesis
    by (simp add: adv_lists_def) blast
qed

lemma adv_nil: "adv k d = [] \<longleftrightarrow> (\<forall>x \<in> set d. snd x \<le> k)"
  by (auto simp: adv_def filter_empty_conv)

lemma last_tick:
  assumes "sorted (map snd d)" and "tick_dly d \<noteq> []"
  shows "snd (last (tick_dly d)) = snd (last d) - 1" and "1 < snd (last d)"
proof -
  have "snd (last (tick_dly d)) = snd (last d) - 1 \<and> 1 < snd (last d)"
    using assms
  proof (induction d)
    case (Cons x d)
    then show ?case
      by (cases x; cases "tick_dly d = []"; cases d) (auto split: if_splits)
  qed simp
  then show "snd (last (tick_dly d)) = snd (last d) - 1" and "1 < snd (last d)"
    by auto
qed

lemma resume_loop_krun:
  assumes "krun X q d N s"
  shows "\<exists>s' q'. resume_loop s dt = Some s' \<and> krun X q' (adv (Suc (unat dt)) d) N s' \<and>
    adv_lists (Suc (unat dt)) d s q q' \<and> kframe (s\<lparr>os_time := os_time s'\<rparr>) s' \<and>
    os_time s' = os_time s + of_nat (if d = [] then 0 else min (unat dt) (snd (last d)))"
  using assms
proof (induction "unat dt" arbitrary: dt s q d)
  case 0
  then have dt: "dt = 0"
    by (simp add: unat_eq_zero)
  show ?case
  proof (cases "d = []")
    case True
    then have "p_dlnk s Dly = None"
      using krunD(2) [OF 0(2)] by (simp add: dly_inv_def)
    with True 0 dt show ?thesis
      by (intro exI [of _ s] exI [of _ q]) (auto simp: resume_loop.simps adv_lists_def)
  next
    case False
    then have "p_dlnk s Dly \<noteq> None"
      using krunD(2) [OF 0(2)] by (cases d) (auto simp: dly_inv_def)
    moreover from k_dec_dly [OF 0(2)] obtain s1 where "rt_dec_dly s = Some s1"
      "krun X (wake_all (prio_of s) (expired d) q) (tick_dly d) N s1" "kframe s s1"
      by blast
    ultimately show ?thesis
      using dt adv_lists_tick [OF 0(2)] kframeD(7) [of s s1] adv_1 [of d]
      by (intro exI [of _ s1] exI [of _ "wake_all (prio_of s) (expired d) q"])
        (auto simp: resume_loop.simps)
  qed
next
  case (Suc k)
  have dt: "dt \<noteq> 0"
    using Suc.hyps(2) by auto
  have k: "k = unat (dt - 1)"
    using unat_minus_one [OF dt] Suc.hyps(2) by simp
  show ?case
  proof (cases "d = []")
    case True
    then have "p_dlnk s Dly = None"
      using krunD(2) [OF Suc.prems] by (simp add: dly_inv_def)
    with True Suc.prems dt show ?thesis
      by (intro exI [of _ s] exI [of _ q]) (auto simp: resume_loop.simps adv_lists_def)
  next
    case False
    then have ne: "p_dlnk s Dly \<noteq> None"
      using krunD(2) [OF Suc.prems] by (cases d) (auto simp: dly_inv_def)
    let ?q1 = "wake_all (prio_of s) (expired d) q"
    from k_dec_dly [OF Suc.prems] obtain s1 where s1: "rt_dec_dly s = Some s1"
      "krun X ?q1 (tick_dly d) N s1" "kframe s s1"
      by blast
    let ?s1 = "s1\<lparr>os_time := os_time s1 + 1\<rparr>"
    have "krun X ?q1 (tick_dly d) N ?s1"
      using s1(2) by simp
    from Suc.hyps(1) [OF k this] obtain s' q' where IH:
      "resume_loop ?s1 (dt - 1) = Some s'" "krun X q' (adv (Suc k) (tick_dly d)) N s'"
      "adv_lists (Suc k) (tick_dly d) ?s1 ?q1 q'" "kframe (?s1\<lparr>os_time := os_time s'\<rparr>) s'"
      "os_time s' = os_time ?s1 + of_nat (if tick_dly d = [] then 0 else min k (snd (last (tick_dly d))))"
      unfolding k by blast
    have "resume_loop s dt = Some s'"
      using ne s1 IH(1) dt by (auto simp: resume_loop.simps [of s])
    moreover have "live ?s1 = live s"
      using kframeD(13) [OF s1(3)] by (simp add: live_def fun_eq_iff)
    then have "adv_lists (Suc (Suc k)) d s q q'"
      by (rule adv_lists_trans [OF adv_lists_tick [OF Suc.prems] IH(3)])
    moreover have "kframe (s\<lparr>os_time := os_time s'\<rparr>) s'"
      using s1(3) IH(4) by (simp add: kframe_def)
    moreover have "os_time s' = os_time s + of_nat (min (Suc k) (snd (last d)))"
    proof (cases "tick_dly d = []")
      case True
      moreover have "0 < snd (last d)"
        using krunD(3) [OF Suc.prems] False last_in_set [OF False] by (metis case_prod_beta)
      moreover from True have "snd (last d) \<le> 1"
        using last_in_set [OF False] adv_nil [of 1 d] by (auto simp: adv_1 [symmetric])
      ultimately have "min (Suc k) (snd (last d)) = 1"
        by simp
      then show ?thesis
        using IH(5) True kframeD(7) [OF s1(3)] by simp
    next
      case ne1: False
      from last_tick [OF sorted_dly [OF Suc.prems] ne1] have
        "min (Suc k) (snd (last d)) = Suc (min k (snd (last (tick_dly d))))"
        by simp
      then show ?thesis
        using IH(5) ne1 kframeD(7) [OF s1(3)] by simp
    qed
    ultimately show ?thesis
      using IH(2) False Suc.hyps(2) adv_tick [of "Suc k" d]
      by (intro exI [of _ s'] exI [of _ q']) simp
  qed
qed

text \<open>
  After \<open>sleep_time\<close> ticks without the tick interrupt, \<open>rt_resume\<close> wakes the tasks whose delay has
  run out and shortens the other delays. The clock advances by \<open>sleep_time\<close> only as long as the
  delay list outlasts it: the catch-up loop stops when the list is empty.
\<close>

definition resume_time :: "nat \<Rightarrow> (nat \<times> nat) list \<Rightarrow> nat" where
  "resume_time k d = (if d = [] then k else min k (snd (last d) + 1))"

lemma krun_time_delta [simp]:
  "krun X q d N (s\<lparr>os_time := tm, delta_time := de\<rparr>) = krun X q d N (s\<lparr>delta_time := de\<rparr>)"
  by (simp add: krun_def kbase_def dly_inv_def)

lemma resume_delays:
  assumes k1: "krun X q d None s1"
    and upd_def: "upd = (if p_dlnk s1 Dly \<noteq> None
           then if ucast (delta_time s1 Dly) \<le> sleep
                then resume_loop (set_delta Dly 1 (s1\<lparr>os_time := os_time s1 + ucast (delta_time s1 Dly)\<rparr>))
                       (sleep - ucast (delta_time s1 Dly))
                else Some (set_delta Dly (delta_time s1 Dly - ucast sleep)
                       (s1\<lparr>os_time := os_time s1 + sleep\<rparr>))
           else Some (s1\<lparr>os_time := os_time s1 + sleep\<rparr>))"
  shows "\<exists>s2 q2. upd = Some s2 \<and> krun X q2 (adv (unat sleep) d) None s2 \<and>
    adv_lists (unat sleep) d s1 q q2 \<and> os_time s2 = os_time s1 + of_nat (resume_time (unat sleep) d)"
proof (cases d)
  case Nil
  then have "p_dlnk s1 Dly = None"
    using krunD(2) [OF k1] by (simp add: dly_inv_def)
  then have "upd = Some (s1\<lparr>os_time := os_time s1 + sleep\<rparr>)"
    by (simp add: upd_def)
  with Nil k1 show ?thesis
    by (intro exI [of _ "s1\<lparr>os_time := os_time s1 + sleep\<rparr>"] exI [of _ q])
      (simp add: adv_lists_def resume_time_def)
next
  case (Cons x d')
  obtain t a where d: "d = (t, a) # d'"
    using Cons by (cases x) auto
  note D = krunD [OF k1]
  have ne: "p_dlnk s1 Dly \<noteq> None" and a: "unat (delta_time s1 Dly) = a" and pos: "0 < a"
    using dly_invD(1,4) [OF D(2)] D(3) d by auto
  have srt: "\<forall>x \<in> set d. a \<le> snd x"
    using sorted_dly [OF k1] d by auto
  have ua: "unat (ucast (delta_time s1 Dly) :: u32) = a"
    using a by simp
  have oa: "of_nat a = delta_time s1 Dly" "of_nat a = (ucast (delta_time s1 Dly) :: u32)"
    by (simp_all flip: a)
  show ?thesis
  proof (cases "a \<le> unat sleep")
    case True
    then have le: "ucast (delta_time s1 Dly) \<le> sleep"
      by (simp add: word_le_nat_alt a)
    let ?s2 = "set_delta Dly 1 (s1\<lparr>os_time := os_time s1 + ucast (delta_time s1 Dly)\<rparr>)"
    have "krun X q (sub_dly (a - 1) d) None (set_delta Dly (of_nat (a - (a - 1))) s1)"
      by (rule krun_sub [OF k1 d]) (use pos in simp)
    then have "krun X q (sub_dly (a - 1) d) None
        ((set_delta Dly 1 s1)\<lparr>os_time := os_time s1 + ucast (delta_time s1 Dly)\<rparr>)"
      using pos by simp
    then have k2: "krun X q (sub_dly (a - 1) d) None ?s2"
      by simp
    have us: "unat (sleep - ucast (delta_time s1 Dly)) = unat sleep - a"
      using le by (simp add: unat_sub a)
    from resume_loop_krun [OF k2, of "sleep - ucast (delta_time s1 Dly)"] obtain s2 q2 where R:
      "resume_loop ?s2 (sleep - ucast (delta_time s1 Dly)) = Some s2"
      "krun X q2 (adv (Suc (unat sleep - a)) (sub_dly (a - 1) d)) None s2"
      "adv_lists (Suc (unat sleep - a)) (sub_dly (a - 1) d) ?s2 q q2"
      "os_time s2 = os_time ?s2 +
        of_nat (if sub_dly (a - 1) d = [] then 0 else min (unat sleep - a) (snd (last (sub_dly (a - 1) d))))"
      unfolding us by blast
    have j: "Suc (unat sleep - a) = unat sleep - (a - 1)" "a - 1 \<le> unat sleep"
      and lt: "\<forall>x \<in> set d. a - 1 < snd x"
      using True pos srt by auto
    have A: "adv (Suc (unat sleep - a)) (sub_dly (a - 1) d) = adv (unat sleep) d"
      "woken (Suc (unat sleep - a)) (sub_dly (a - 1) d) = woken (unat sleep) d"
      unfolding j(1) using adv_sub [OF j(2) lt] woken_sub [OF j(2) lt] by simp_all
    have "snd (last (sub_dly (a - 1) d)) = snd (last d) - (a - 1)"
      by (simp add: d sub_dly_def last_map case_prod_beta)
    moreover have "a \<le> snd (last d)"
      using srt last_in_set [of d] d by simp
    ultimately have T: "a + min (unat sleep - a) (snd (last (sub_dly (a - 1) d))) = resume_time (unat sleep) d"
      using True pos d by (simp add: resume_time_def)
    have "sub_dly (a - 1) d \<noteq> []"
      by (simp add: sub_dly_def d)
    then have "os_time s2 = os_time s1 + of_nat a + of_nat (min (unat sleep - a) (snd (last (sub_dly (a - 1) d))))"
      using R(4) oa(2) by simp
    then have "os_time s2 = os_time s1 + of_nat (resume_time (unat sleep) d)"
      unfolding T [symmetric] of_nat_add by (simp only: add.assoc)
    moreover have "upd = Some s2"
      using ne le R(1) by (simp add: upd_def)
    moreover have "adv_lists (unat sleep) d s1 q q2"
      using R(3) A(2) by (simp add: adv_lists_def live_def)
    ultimately show ?thesis
      using R(2) A(1) by auto
  next
    case False
    then have le: "\<not> ucast (delta_time s1 Dly) \<le> sleep"
      by (simp add: word_le_nat_alt a)
    let ?s2 = "set_delta Dly (delta_time s1 Dly - ucast sleep) (s1\<lparr>os_time := os_time s1 + sleep\<rparr>)"
    have lt: "unat sleep < a"
      using False by simp
    then have "unat sleep < 2 ^ 16"
      using dly_invD(6) [OF D(2), of t a] d by simp
    then have "of_nat (a - unat sleep) = delta_time s1 Dly - ucast sleep"
      using lt by (simp add: of_nat_diff oa(1))
    moreover have "krun X q (sub_dly (unat sleep) d) None (set_delta Dly (of_nat (a - unat sleep)) s1)"
      by (rule krun_sub [OF k1 d lt])
    ultimately have "krun X q (sub_dly (unat sleep) d) None
        ((set_delta Dly (delta_time s1 Dly - ucast sleep) s1)\<lparr>os_time := os_time s1 + sleep\<rparr>)"
      by simp
    then have k2: "krun X q (sub_dly (unat sleep) d) None ?s2"
      by simp
    have all: "\<forall>x \<in> set d. unat sleep < snd x"
      using srt lt by fastforce
    moreover from all have "woken (unat sleep) d = {}"
      by (force simp: woken_def)
    moreover have "resume_time (unat sleep) d = unat sleep"
    proof -
      have "unat sleep < snd (last d)"
        using all last_in_set [of d] d by blast
      then show ?thesis
        by (simp add: resume_time_def)
    qed
    moreover have "upd = Some ?s2"
      using ne le by (simp add: upd_def)
    ultimately show ?thesis
      using k2 sub_adv [OF all] by (intro exI [of _ ?s2] exI [of _ q]) (simp add: adv_lists_def)
  qed
qed

lemma rt_resume_sched:
  assumes s: "sched X q d n s" and n: "run s = Some n"
  shows "\<exists>s' q' n'. rt_resume s sleep = Some s' \<and> sched X q' (adv (unat sleep) d) n' s' \<and>
    insert n' (set (q' Rdy)) = insert n (set (q Rdy) \<union> woken (unat sleep) d) \<and>
    (\<forall>h. live s h \<longrightarrow> h \<noteq> Rdy \<longrightarrow> set (q' h) = set (q h) - woken (unat sleep) d) \<and>
    os_time s' = os_time s + of_nat (resume_time (unat sleep) d)"
proof -
  from s have k: "krun X q d (Some n) s" "top_prio q n s"
    by (simp_all add: sched_def)
  let ?s1 = "(rt_put_rdy_first (set_state n READY s) n)\<lparr>robin_task := None\<rparr>" and ?q1 = "q(Rdy := n # q Rdy)"
  have k1: "krun X ?q1 d None ?s1"
    using k_park(1) [OF k] by simp
  have t1: "os_time ?s1 = os_time s" "live ?s1 = live s"
    using kframeD(7,13) [OF k_park(2) [OF k]] by (simp_all add: live_def fun_eq_iff)
  define upd where "upd = (if p_dlnk ?s1 Dly \<noteq> None
           then if ucast (delta_time ?s1 Dly) \<le> sleep
                then resume_loop (set_delta Dly 1 (?s1\<lparr>os_time := os_time ?s1 + ucast (delta_time ?s1 Dly)\<rparr>))
                       (sleep - ucast (delta_time ?s1 Dly))
                else Some (set_delta Dly (delta_time ?s1 Dly - ucast sleep)
                       (?s1\<lparr>os_time := os_time ?s1 + sleep\<rparr>))
           else Some (?s1\<lparr>os_time := os_time ?s1 + sleep\<rparr>))"
  have op: "rt_resume s sleep = do { s2 \<leftarrow> upd; rt_dispatch s2 None }"
    using n unfolding rt_resume_def dispatch_none_eq upd_def by (simp add: Let_def)
  from resume_delays [OF k1 upd_def] obtain s2 q2 where s2: "upd = Some s2" "krun X q2 (adv (unat sleep) d) None s2"
    "adv_lists (unat sleep) d ?s1 ?q1 q2" "os_time s2 = os_time ?s1 + of_nat (resume_time (unat sleep) d)"
    by (elim exE conjE)
  from k_dispatch_none [OF s2(2)] obtain s' where s':
    "rt_dispatch s2 None = Some s'"
    "krun X (q2(Rdy := tl (q2 Rdy))) (adv (unat sleep) d) (Some (hd (q2 Rdy))) s'"
    "top_prio (q2(Rdy := tl (q2 Rdy))) (hd (q2 Rdy)) s'" "kframe s2 s'"
    by blast
  have ins: "insert (hd (q2 Rdy)) (set (tl (q2 Rdy))) = set (q2 Rdy)"
    using krun_Rdy_nonempty [OF s2(2)] by (cases "q2 Rdy") auto
  show ?thesis
  proof (intro exI conjI)
    show "rt_resume s sleep = Some s'"
      using s'(1) s2(1) op by simp
    show "sched X (q2(Rdy := tl (q2 Rdy))) (adv (unat sleep) d) (hd (q2 Rdy)) s'"
      using s'(2,3) by (simp add: sched_def)
    show "insert (hd (q2 Rdy)) (set ((q2(Rdy := tl (q2 Rdy))) Rdy)) = insert n (set (q Rdy) \<union> woken (unat sleep) d)"
      using ins s2(3) by (auto simp: adv_lists_def)
    show "\<forall>h. live s h \<longrightarrow> h \<noteq> Rdy \<longrightarrow> set ((q2(Rdy := tl (q2 Rdy))) h) = set (q h) - woken (unat sleep) d"
      using s2(3) t1(2) by (simp add: adv_lists_def)
    show "os_time s' = os_time s + of_nat (resume_time (unat sleep) d)"
      using s2(4) t1(1) kframeD(7) [OF s'(4)] by simp
  qed
qed

end
