(* ===== verification/Rtx_Threads.thy ===== *)
theory Rtx_Threads
  imports Rtx_System
begin

text \<open>
  The services on tasks of \<open>rt_Task.c\<close> and \<open>rt_Time.c\<close>: changing a priority, passing the processor
  on, deleting a task and waiting for a delay.
\<close>

section \<open>The head of the ready list is taken and dispatched\<close>

lemma rt_dispatch_set_state:
  assumes "run s = Some n" and "t \<noteq> n"
  shows "rt_dispatch (set_state t st s) (Some t) = rt_dispatch s (Some t)"
proof -
  have eq: "(tcbs s)(t := (tcbs s t)\<lparr>t_state := st\<rparr>, n := x, t := y) = (tcbs s)(n := x, t := y)" for x y
    using assms(2) by (auto simp: fun_eq_iff)
  show ?thesis
    using assms by (cases "tcbs s t") (simp add: rt_dispatch_def rt_switch_req_def rt_put_rdy_first_def fun_eq_iff)
qed

text \<open>Between \<open>rt_get_first\<close> and \<open>rt_dispatch\<close> the task taken is in no list.\<close>

lemma k_pop_Rdy:
  assumes k: "krun X q d (Some n) s" and q: "q Rdy = t # ts" and t: "t \<noteq> idle_TCB"
  shows "\<exists>s'. rt_get_first s Rdy = Some (t, s') \<and> krun X (q(Rdy := ts)) d (Some n) (set_state t INACTIVE s') \<and>
    unqueued (q(Rdy := ts)) (set_state t INACTIVE s') t \<and> t \<notin> fst ` set d \<and> t \<notin> X \<and> t \<noteq> n \<and>
    tcbs s' = tcbs s \<and> kframe s s'"
proof -
  note D = krunD [OF k]
  from rt_get_first_refines [OF D(1) live_Rdy q] obtain l r where
    op: "rt_get_first s Rdy = Some (t, s\<lparr>p_lnk := l, p_rlnk := r\<rparr>)" and
    inv: "lists_inv X (q(Rdy := ts)) (s\<lparr>p_lnk := l, p_rlnk := r\<rparr>)"
    by auto
  let ?s = "s\<lparr>p_lnk := l, p_rlnk := r\<rparr>"
  have st: "state_of s t = READY" and tX: "t \<notin> X"
    using D(5,6) [OF live_Rdy, of t] q by auto
  have td: "t \<notin> fst ` set d" and tn: "t \<noteq> n"
    using D(8) [of t] D(10) [OF tX] st by auto
  have dist: "t \<notin> set ts" and srt: "prio_sorted (prio_of s) (t # ts)"
    using lists_invD(4) [OF D(1) live_Rdy] D(4) [OF live_Rdy] q by auto
  have uq: "live s h \<Longrightarrow> h \<noteq> Rdy \<Longrightarrow> t \<notin> set (q h)" for h
    using lists_invD(7) [OF D(1) _ live_Rdy] q by fastforce
  have "krun X (q(Rdy := ts)) d (Some n) (set_state t INACTIVE ?s)"
  proof (rule krunI, goal_cases)
    case (4 h)
    have "prio_of (set_state t INACTIVE ?s) = prio_of s"
      by auto
    then show ?case
      using 4 D(4) [of h] srt by simp
  next
    case (5 h u)
    then show ?case
      using D(5) [of h u] D(5) [OF live_Rdy, of u] dist uq [of h] q by (auto split: if_splits)
  next
    case (6 h u)
    then show ?case
      using D(6) [of h u] D(6) [OF live_Rdy, of u] q by (auto split: if_splits)
  next
    case (7 u)
    then show ?case
      using D(7) [of u] q by (auto split: if_splits)
  next
    case (8 u)
    then show ?case
      using D(8) [of u] td by (auto split: if_splits)
  next
    case (10 u)
    then show ?case
      using D(10) [of u] tn by (auto split: if_splits)
  qed (use inv D(2,3,9,11,12,13) tX t q in \<open>auto split: if_splits\<close>)
  moreover have "unqueued (q(Rdy := ts)) (set_state t INACTIVE ?s) t"
    using dist uq by (auto simp: unqueued_def)
  ultimately show ?thesis
    using op td tX tn by (intro exI [of _ ?s]) (simp add: kframe_def)
qed

lemma k_dispatch_head:
  assumes k: "krun X q d (Some n) s" and q: "q Rdy = t # ts" and t: "t \<noteq> idle_TCB" and n: "run s = Some n"
    and top: "\<And>u. u \<in> set ts \<Longrightarrow> prio_of s u \<le> prio_of s n"
  shows "\<exists>s' q' n'. do { (u, s1) \<leftarrow> rt_get_first s Rdy; rt_dispatch s1 (Some u) } = Some s' \<and>
    sched X q' d n' s' \<and> kframe s s' \<and> (\<forall>h. h \<noteq> Rdy \<longrightarrow> q' h = q h) \<and>
    insert n' (set (q' Rdy)) = insert n (set (q Rdy))"
proof -
  from k_pop_Rdy [OF k q t] obtain s1 where s1: "rt_get_first s Rdy = Some (t, s1)"
    "krun X (q(Rdy := ts)) d (Some n) (set_state t INACTIVE s1)"
    "unqueued (q(Rdy := ts)) (set_state t INACTIVE s1) t" "t \<notin> fst ` set d" "t \<notin> X" "t \<noteq> n"
    "tcbs s1 = tcbs s" "kframe s s1"
    by blast
  let ?s = "set_state t INACTIVE s1"
  have r: "run s1 = Some n"
    using kframeD(5) [OF s1(8)] n by simp
  have pr: "prio_of ?s = prio_of s"
    using s1(7) by auto
  have "top_prio (q(Rdy := ts)) n ?s"
    unfolding top_prio_cong [OF pr] using top by (simp add: top_prio_def)
  from k_dispatch_some [OF s1(2) this _ s1(3-6)] r obtain s' where s':
    "rt_dispatch ?s (Some t) = Some s'"
    "krun X (disp_q (prio_of s) n t (q(Rdy := ts))) d (Some (disp_run (prio_of s) n t)) s'"
    "top_prio (disp_q (prio_of s) n t (q(Rdy := ts))) (disp_run (prio_of s) n t) s'" "kframe ?s s'"
    unfolding pr by auto
  have "rt_dispatch s1 (Some t) = Some s'"
    using rt_dispatch_set_state [OF r s1(6), of INACTIVE] s'(1) by simp
  moreover have "kframe s s'"
    using s1(8) s'(4) by (auto simp: kframe_def tcb_but_state split: if_splits)
  ultimately show ?thesis
    using s1(1) s'(2,3) q
    by (intro exI [of _ s'] exI [of _ "disp_q (prio_of s) n t (q(Rdy := ts))"] exI [of _ "disp_run (prio_of s) n t"])
      (auto simp: sched_def disp_q_def disp_run_def)
qed

section \<open>Changing a priority\<close>

text \<open>What every service on the ready tasks keeps: who is ready or runs, and the waiting lists.\<close>

definition same_tasks :: "kernel \<Rightarrow> nat \<Rightarrow> (ptr \<Rightarrow> nat list) \<Rightarrow> nat \<Rightarrow> (ptr \<Rightarrow> nat list) \<Rightarrow> bool" where
  "same_tasks s n q n' q' \<longleftrightarrow> insert n' (set (q' Rdy)) = insert n (set (q Rdy)) \<and>
     (\<forall>h. live s h \<longrightarrow> h \<noteq> Rdy \<longrightarrow> set (q' h) = set (q h))"

lemma same_tasks_refl [simp]: "same_tasks s n q n q"
  by (simp add: same_tasks_def)

lemma k_give_way_sched:
  assumes k: "krun X q d (Some n) s"
  shows "\<exists>s' q' n'. give_way s n = Some s' \<and> sched X q' d n' s' \<and> kframe s s' \<and> same_tasks s n q n' q'"
proof -
  let ?ts = "ins_prio (prio_of s) n (q Rdy)"
  have "insert (hd ?ts) (set (tl ?ts)) = set ?ts"
    by (cases ?ts) auto
  with k_give_way [OF k] show ?thesis
    by (force simp: sched_def same_tasks_def)
qed

lemma tsk_prio_run_sched:
  assumes s: "sched X q d n s" and n: "n \<noteq> idle_TCB"
  shows "\<exists>s' q' n'. tsk_prio_run (set_prio n p s) n p = Some (OS_R_OK, s') \<and> sched X q' d n' s' \<and>
    kframe (set_prio n p s) s' \<and> same_tasks s n q n' q'"
proof -
  let ?s = "set_prio n p s"
  have k: "krun X q d (Some n) ?s"
    using s k_set_prio_run by (simp add: sched_def)
  note R = rt_rdy_prio_hd [OF k n]
  have live: "live ?s = live s"
    by (simp add: live_def fun_eq_iff)
  show ?thesis
  proof (cases "p < prio_of ?s (hd (q Rdy))")
    case True
    from k_give_way_sched [OF k] obtain s' q' n' where
      "give_way ?s n = Some s'" "sched X q' d n' s'" "kframe ?s s'" "same_tasks ?s n q n' q'"
      by blast
    with True R(1) show ?thesis
      by (intro exI [of _ s'] exI [of _ q'] exI [of _ n'])
        (simp add: tsk_prio_run_def same_tasks_def live)
  next
    case False
    have "top_prio q n ?s"
      unfolding top_prio_def
    proof
      fix t assume "t \<in> set (q Rdy)"
      with R(3) [of t] False show "prio_of ?s t \<le> prio_of ?s n"
        by (simp only: not_less) auto
    qed
    with False R(1) k show ?thesis
      by (intro exI [of _ ?s] exI [of _ q] exI [of _ n]) (simp add: tsk_prio_run_def sched_def)
  qed
qed

lemma tsk_prio_other_sched:
  assumes s: "sched X q d n s" and n: "run s = Some n" "n \<noteq> idle_TCB" and t: "t \<noteq> n" "t \<notin> X"
    and p: "prio_of s idle_TCB < p" "t \<noteq> idle_TCB"
  shows "\<exists>s' q' n'. do {
      s2 \<leftarrow> rt_resort_prio (set_prio t p s) t;
      s3 \<leftarrow> (if state_of s2 t = READY then do { (u, s3) \<leftarrow> rt_get_first s2 Rdy; rt_dispatch s3 (Some u) }
        else Some s2);
      Some (OS_R_OK, s3)
    } = Some (OS_R_OK, s') \<and> sched X q' d n' s' \<and> kframe (set_prio t p s) s' \<and> same_tasks s n q n' q'"
proof -
  let ?s = "set_prio t p s" and ?pr = "(prio_of s)(t := p)"
  let ?q = "resort_q ?pr t q"
  have k: "krun X q d (Some n) s" and top: "top_prio q n s"
    using s by (simp_all add: sched_def)
  from k_resort [OF k t(2), of p] obtain s2 where s2: "rt_resort_prio ?s t = Some s2"
    "krun X ?q d (Some n) s2" "kframe ?s s2" "tcbs s2 = tcbs ?s"
    by blast
  have st: "state_of s2 t = state_of s t" and pr: "prio_of s2 = ?pr" and r: "run s2 = Some n"
    using s2(4) kframeD(5) [OF s2(3)] n by auto
  have sets: "live s h \<Longrightarrow> set (?q h) = set (q h)" for h
    using lists_invD(4) [OF krunD(1) [OF k]] by simp
  have RUN: "READY \<noteq> RUNNING" by simp
  show ?thesis
  proof (cases "state_of s t = READY")
    case False
    then have nt: "t \<notin> set (q Rdy)"
      using krunD(5) [OF k live_Rdy, of t] by auto
    then have "top_prio ?q n s2"
      using top t(1) by (auto simp: top_prio_def fun_cong [OF pr] resort_q_def)
    with False s2 st sets show ?thesis
      by (intro exI [of _ s2] exI [of _ ?q] exI [of _ n]) (simp add: sched_def same_tasks_def)
  next
    case True
    then have tq: "t \<in> set (?q Rdy)"
      using krunD(7) [OF k t(2)] sets [OF live_Rdy] by simp
    then obtain u us where q: "?q Rdy = u # us"
      by (cases "?q Rdy") auto
    have srt: "prio_sorted ?pr (u # us)" and dist: "distinct (u # us)"
      using krunD(4) [OF s2(2) live_Rdy] lists_invD(4) [OF krunD(1) [OF s2(2)] live_Rdy] pr q by auto
    have pu: "p \<le> ?pr u"
      using srt tq q by (auto simp: prio_sorted_def)
    then have u: "u \<noteq> idle_TCB"
      using p by (auto split: if_splits)
    have "prio_of s2 v \<le> prio_of s2 n" if "v \<in> set us" for v
    proof (cases "v = t")
      case True
      then have "u \<noteq> t" "u \<in> set (q Rdy)"
        using dist that q sets [OF live_Rdy] by auto
      then have "prio_of s u \<le> prio_of s n"
        using top by (simp add: top_prio_def)
      then show ?thesis
        using True pu \<open>u \<noteq> t\<close> t(1) fun_cong [OF pr] by simp
    next
      case False
      then have "v \<in> set (q Rdy)"
        using that q sets [OF live_Rdy] by auto
      then show ?thesis
        using False top t(1) fun_cong [OF pr] by (simp add: top_prio_def)
    qed
    from k_dispatch_head [OF s2(2) q u r this] obtain s' q' n' where s':
      "do { (u, s1) \<leftarrow> rt_get_first s2 Rdy; rt_dispatch s1 (Some u) } = Some s'" "sched X q' d n' s'"
      "kframe s2 s'" "\<And>h. h \<noteq> Rdy \<Longrightarrow> q' h = ?q h" "insert n' (set (q' Rdy)) = insert n (set (?q Rdy))"
      by blast
    have "same_tasks s n q n' q'"
      using s'(4,5) sets by (simp add: same_tasks_def)
    then show ?thesis
      using s2(1) st True s'(1,2) kframe_trans [OF s2(3) s'(3)]
      by (intro exI [of _ s'] exI [of _ q'] exI [of _ n']) auto
  qed
qed

text \<open>
  \<open>rt_tsk_prio\<close> changes the priority of the running or of another task; if a ready task then has a
  higher priority than the running one, it takes over. The priority must be above the idle demon's.
\<close>

definition prio_target :: "kernel \<Rightarrow> u32 \<Rightarrow> nat option" where
  "prio_target s tid = (if tid = 0 then run s else lookup_tid s tid)"

lemma rt_tsk_prio_sched:
  assumes s: "sched X q d n s" and n: "run s = Some n" "n \<noteq> idle_TCB"
    and t: "prio_target s tid = Some t" "t \<notin> X" "t \<noteq> idle_TCB" and p: "prio_of s idle_TCB < p"
  shows "\<exists>s' q' n'. rt_tsk_prio s tid p = Some (OS_R_OK, s') \<and> sched X q' d n' s' \<and>
    kframe (set_prio t p s) s' \<and> same_tasks s n q n' q'"
proof (cases "t = n")
  case True
  then have "rt_tsk_prio s tid p = tsk_prio_run (set_prio n p s) n p"
    using n t(1) by (auto simp: rt_tsk_prio_def prio_target_def)
  with tsk_prio_run_sched [OF s n(2)] True show ?thesis
    by simp
next
  case False
  then have "rt_tsk_prio s tid p = do {
      s2 \<leftarrow> rt_resort_prio (set_prio t p s) t;
      s3 \<leftarrow> (if state_of s2 t = READY then do { (u, s3) \<leftarrow> rt_get_first s2 Rdy; rt_dispatch s3 (Some u) }
        else Some s2);
      Some (OS_R_OK, s3)
    }"
    using n t(1) by (auto simp: rt_tsk_prio_def prio_target_def Let_def split: if_splits)
  with tsk_prio_other_sched [OF s n False t(2) p t(3)] show ?thesis
    by simp
qed

lemma rt_tsk_prio_absent:
  "tid \<noteq> 0 \<Longrightarrow> lookup_tid s tid = None \<Longrightarrow> rt_tsk_prio s tid p = Some (OS_R_NOK, s)"
  by (simp add: rt_tsk_prio_def)

section \<open>Passing the processor on\<close>

text \<open>
  \<open>rt_tsk_pass\<close> gives the processor to the first ready task if it has the priority of the running
  one, which then queues behind all ready tasks of that priority; otherwise nothing changes.
\<close>

lemma rt_tsk_pass_other:
  assumes s: "sched X q d n s" and n: "run s = Some n" and q: "q Rdy = t # ts"
    and p: "prio_of s t \<noteq> prio_of s n"
  shows "rt_tsk_pass s = Some s"
proof -
  have "p_lnk s Rdy = Some t"
    using lists_invD(2) [OF krunD(1) live_Rdy, of X q d "Some n" s] s q by (simp add: sched_def)
  with n p show ?thesis
    by (simp add: rt_tsk_pass_def rt_get_same_rdy_prio_def)
qed

lemma lists_inv_lnk:
  assumes inv: "lists_inv X q s" and t: "unqueued q s t"
  shows "lists_inv X q (set_lnk (Task t) v s)"
proof -
  have "chain ((p_lnk s)(Task t := v)) h (q h) = chain (p_lnk s) h (q h)" if "live s h" for h
    using t that cb_ok_hdr [OF lists_invD(1) [OF inv] that] by (intro chain_upd_Task) (auto simp: unqueued_def)
  with inv show ?thesis
    by (simp add: lists_inv_def live_def cb_ok_def)
qed

lemma rt_tsk_pass_same:
  assumes s: "sched X q d n s" and n: "run s = Some n" and q: "q Rdy = t # ts"
    and p: "prio_of s t = prio_of s n" and t: "t \<noteq> idle_TCB"
  shows "\<exists>s'. rt_tsk_pass s = Some s' \<and> sched X (q(Rdy := ins_prio (prio_of s) n ts)) d t s' \<and> kframe s s'"
proof -
  have k: "krun X q d (Some n) s" and top: "top_prio q n s"
    using s by (simp_all add: sched_def)
  note D = krunD [OF k] and R = krun_run_unqueued [OF k]
  have c: "p_lnk s Rdy = Some t" "p_lnk s (Task t) = (case ts of [] \<Rightarrow> None | u # _ \<Rightarrow> Some u)"
    using lists_invD(2) [OF D(1) live_Rdy] q by (auto split: list.split)
  from k_pop_Rdy [OF k q t] have tX: "t \<notin> X" "t \<notin> fst ` set d" "t \<noteq> n"
    by auto
  have st: "state_of s t = READY"
    using D(5) [OF live_Rdy, of t] q by simp
  have srt: "prio_sorted (prio_of s) (t # ts)" and dist: "t \<notin> set ts"
    using lists_invD(4) [OF D(1) live_Rdy] D(4) [OF live_Rdy] q by auto
  have uq: "live s h \<Longrightarrow> h \<noteq> Rdy \<Longrightarrow> t \<notin> set (q h)" for h
    using lists_invD(7) [OF D(1) _ live_Rdy] q by fastforce
  let ?s1 = "set_lnk Rdy (p_lnk s (Task t)) s"
  from rt_get_first_refines [OF D(1) live_Rdy q] obtain l r where
    op: "rt_get_first s Rdy = Some (t, s\<lparr>p_lnk := l, p_rlnk := r\<rparr>)" and
    inv: "lists_inv X (q(Rdy := ts)) (s\<lparr>p_lnk := l, p_rlnk := r\<rparr>)"
    by auto
  have tr: "p_rlnk s (Task t) = None"
    using lists_invD(6) [OF D(1) tX(1)] uq cb_ok_Rdy [OF lists_invD(1) [OF D(1)]] live_sem_mbx by blast
  have E: "set_lnk (Task t) None ?s1 = s\<lparr>p_lnk := l, p_rlnk := r\<rparr>"
    using op c(1) tr cb_ok_Rdy [OF lists_invD(1) [OF D(1)]]
    by (auto simp: rt_get_first_def Let_def fun_upd_idem)
  have "set_lnk (Task t) (p_lnk s (Task t)) (s\<lparr>p_lnk := l, p_rlnk := r\<rparr>) = ?s1"
    unfolding E [symmetric] by (simp add: fun_upd_idem)
  moreover have "unqueued (q(Rdy := ts)) (s\<lparr>p_lnk := l, p_rlnk := r\<rparr>) t"
    using uq dist by (auto simp: unqueued_def)
  ultimately have inv1: "lists_inv X (q(Rdy := ts)) ?s1"
    using lists_inv_lnk [OF inv, of t "p_lnk s (Task t)"] by simp
  have nq: "live s h \<Longrightarrow> n \<notin> set (q h)" for h
    using R(1) by (simp add: unqueued_def)
  have "unqueued (q(Rdy := ts)) ?s1 n"
    using nq nq [OF live_Rdy] q by (auto simp: unqueued_def)
  from rt_put_prio_refines [OF inv1 live_Rdy this] obtain l' r' where
    op2: "rt_put_prio ?s1 Rdy n = Some (?s1\<lparr>p_lnk := l', p_rlnk := r'\<rparr>)" and
    inv2: "lists_inv (X - {n}) (q(Rdy := ins_prio (prio_of s) n ts)) (?s1\<lparr>p_lnk := l', p_rlnk := r'\<rparr>)"
    by auto
  let ?s = "rt_switch_req (set_state n READY (?s1\<lparr>p_lnk := l', p_rlnk := r'\<rparr>)) t"
    and ?q = "q(Rdy := ins_prio (prio_of s) n ts)"
  have inv3: "lists_inv X ?q ?s"
    using lists_inv_mono [OF inv2, of X] by (simp add: rt_switch_req_def)
  have pr: "prio_of ?s = prio_of s" and lv: "live ?s = live s"
    by (auto simp: rt_switch_req_def live_def fun_eq_iff)
  have st': "state_of ?s u = (if u = t then RUNNING else if u = n then READY else state_of s u)" for u
    by (simp add: rt_switch_req_def)
  have "krun X ?q d (Some t) ?s"
  proof (rule krunI, goal_cases)
    case (4 h)
    then show ?case
      unfolding pr lv using D(4) [of h] srt by (simp add: prio_sorted_ins_prio)
  next
    case (5 h u)
    then show ?case
      unfolding st' lv using D(5) [of h u] D(5) [OF live_Rdy, of u] R(1) q dist uq [of h] tX(3)
      by (auto simp: unqueued_def split: if_splits)
  next
    case (6 h u)
    then show ?case
      using D(6) [of h u] D(6) [OF live_Rdy, of u] R(3) q unfolding lv by (auto split: if_splits)
  next
    case (7 u)
    then show ?case
      unfolding st'
      using D(7) [of u] q by (auto split: if_splits)
  next
    case (8 u)
    then show ?case
      unfolding st' using D(8) [of u] tX(2) R(2) by auto
  next
    case (10 u)
    then show ?case
      unfolding st' using D(10) [of u] tX(3) by auto
  next
    case (11 u)
    then show ?case
      using tX(1) by (simp add: rt_switch_req_def)
  next
    case 12
    show ?case
      using D(13) q by (auto split: if_splits)
  qed (use inv3 D(2,3,9) in \<open>simp_all add: rt_switch_req_def dly_inv_def\<close>)
  moreover have "top_prio ?q t ?s"
    unfolding top_prio_cong [OF pr] using srt p top q by (auto simp: top_prio_def prio_sorted_def)
  moreover have "rt_tsk_pass s = Some ?s"
    using n p c op2 by (simp add: rt_tsk_pass_def rt_get_same_rdy_prio_def)
  moreover have "kframe s ?s"
    by (simp add: kframe_def rt_switch_req_def)
  ultimately show ?thesis
    unfolding sched_def by blast
qed

section \<open>Deleting a task\<close>

lemma k_kill_run:
  assumes k: "krun X q d (Some n) s" and n: "n \<noteq> idle_TCB"
  shows "krun X q d None (set_state n INACTIVE s)"
proof -
  note D = krunD [OF k] and R = krun_run_unqueued [OF k]
  have pr: "prio_of (set_state n INACTIVE s) = prio_of s" and lv: "live (set_state n INACTIVE s) = live s"
    by (auto simp: live_def fun_eq_iff)
  show ?thesis
  proof (rule krunI, goal_cases)
    case (4 h)
    then show ?case
      unfolding pr lv using D(4) by simp
  next
    case (5 h u)
    then show ?case
      unfolding lv using D(5) [of h u] R(1) by (auto simp: unqueued_def)
  next
    case (6 h u)
    then show ?case
      unfolding lv using D(6) by simp
  next
    case (7 u)
    then show ?case
      using D(7) [of u] by (auto split: if_splits)
  next
    case (8 u)
    then show ?case
      using D(8) [of u] R(2) by auto
  next
    case (10 u)
    then show ?case
      using D(10) [of u] by auto
  qed (use D(1,2,3,9,13) n in auto)
qed

text \<open>
  The running task deletes itself: its entry of \<open>os_active_TCB\<close> is cleared, and the first ready
  task takes over.
\<close>

lemma rt_tsk_delete_self:
  assumes s: "sched X q d n s" and n: "run s = Some n" "n \<noteq> idle_TCB"
    and tid: "tid = 0 \<or> tid = ucast (task_id (tcbs s n))"
  shows "\<exists>s'. rt_tsk_delete s tid = Some (OS_R_OK, s') \<and>
    sched X (q(Rdy := tl (q Rdy))) d (hd (q Rdy)) s' \<and> state_of s' n = INACTIVE \<and>
    kframe (s\<lparr>os_active_TCB := (os_active_TCB s)[unat (task_id (tcbs s n)) - 1 := None], run := None\<rparr>) s'"
proof -
  let ?s1 = "(set_state n INACTIVE s)
      \<lparr>os_active_TCB := (os_active_TCB s)[unat (task_id (tcbs s n)) - 1 := None]\<rparr>\<lparr>run := None\<rparr>"
  have k: "krun X q d (Some n) s"
    using s by (simp add: sched_def)
  have "krun X q d None ?s1"
    using k_kill_run [OF k n(2)] unfolding krun_update_simps .
  from k_dispatch_none [OF this] obtain s' where s': "rt_dispatch ?s1 None = Some s'"
    "krun X (q(Rdy := tl (q Rdy))) d (Some (hd (q Rdy))) s'"
    "top_prio (q(Rdy := tl (q Rdy))) (hd (q Rdy)) s'" "kframe ?s1 s'"
    "tcbs s' = tcbs (set_state (hd (q Rdy)) RUNNING ?s1)"
    by blast
  have "rt_tsk_delete s tid = Some (OS_R_OK, s')"
    using tid n(1) s'(1) by (auto simp: rt_tsk_delete_def Let_def)
  moreover have "hd (q Rdy) \<noteq> n"
    using krun_run_unqueued(1) [OF k] rt_rdy_prio_hd(2) [OF k n(2)] live_Rdy [of s] by (auto simp: unqueued_def)
  ultimately show ?thesis
    using s'(2-5) by (auto simp: sched_def kframe_def tcb_but_state)
qed

definition rmv_q :: "nat \<Rightarrow> (ptr \<Rightarrow> nat list) \<Rightarrow> ptr \<Rightarrow> nat list" where
  "rmv_q t q h = remove1 t (q h)"

lemma rt_rmv_list_any:
  assumes k: "krun X q d N s" and t: "t \<notin> X"
  shows "\<exists>l r. rt_rmv_list s t = Some (s\<lparr>p_lnk := l, p_rlnk := r\<rparr>) \<and>
      lists_inv (insert t X) (rmv_q t q) (s\<lparr>p_lnk := l, p_rlnk := r\<rparr>)"
proof (cases "unqueued q s t")
  case True
  note D = krunD [OF k]
  have "rt_rmv_list s t = Some s"
    by (rule rt_rmv_list_unqueued [OF D(1) True t])
  moreover have "lists_inv (insert t X) (rmv_q t q) s"
    by (rule lists_inv_congD [OF _ lists_inv_mono [OF D(1)]])
      (use True in \<open>auto simp: rmv_q_def unqueued_def remove1_idem\<close>)
  ultimately show ?thesis
    by (intro exI [of _ "p_lnk s"] exI [of _ "p_rlnk s"]) simp
next
  case False
  note D = krunD [OF k]
  obtain h where h: "live s h" "t \<in> set (q h)"
    using False by (auto simp: unqueued_def)
  from rt_rmv_list_refines [OF D(1) h t] obtain l r where
    op: "rt_rmv_list s t = Some (s\<lparr>p_lnk := l, p_rlnk := r\<rparr>)" and
    inv: "lists_inv (insert t X) (q(h := remove1 t (q h))) (s\<lparr>p_lnk := l, p_rlnk := r\<rparr>)"
    by blast
  have oth: "live s h' \<Longrightarrow> h' \<noteq> h \<Longrightarrow> t \<notin> set (q h')" for h'
    using lists_invD(7) [OF D(1) _ h(1)] h(2) by auto
  have "lists_inv (insert t X) (rmv_q t q) (s\<lparr>p_lnk := l, p_rlnk := r\<rparr>)"
    by (rule lists_inv_congD [OF _ inv]) (auto simp: rmv_q_def remove1_idem oth)
  with op show ?thesis
    by blast
qed

lemma k_dead:
  assumes k: "krun X q d N s" and t: "t \<notin> X" "N \<noteq> Some t" "t \<noteq> idle_TCB"
    and inv: "lists_inv (insert t X) (rmv_q t q) s'" "dly_inv (rmv_dly t d) s'"
    and eq: "tcbs s' = tcbs s" "cb_type s' = cb_type s" "new_tsk s' = new_tsk s"
  shows "krun (insert t X) (rmv_q t q) (rmv_dly t d) N s'"
proof -
  note D = krunD [OF k]
  have lv: "live s' = live s"
    by (simp add: live_def eq fun_eq_iff)
  have sets: "live s h \<Longrightarrow> set (rmv_q t q h) = set (q h) - {t}" for h
    using lists_invD(4) [OF D(1)] by (simp add: rmv_q_def)
  have d: "u \<in> fst ` set (rmv_dly t d) \<Longrightarrow> u \<in> fst ` set d \<and> u \<noteq> t" for u
    by auto
  show ?thesis
  proof (rule krunI, goal_cases)
    case (4 h)
    then show ?case
      unfolding lv eq using D(4) [of h] by (simp add: rmv_q_def prio_sorted_remove1)
  next
    case (5 h u)
    then show ?case
      unfolding lv eq using D(5) [of h u] sets [of h] by auto
  next
    case (6 h u)
    then show ?case
      unfolding lv eq using D(6) [of h u] sets [of h] by auto
  next
    case (7 u)
    then show ?case
      unfolding eq using D(7) [of u] sets [OF live_Rdy] by auto
  next
    case (8 u)
    then show ?case
      unfolding eq using D(8) [of u] d [of u] by blast
  next
    case (9 u)
    then show ?case
      using D(9) [of u] d [of u] by blast
  next
    case (10 u)
    then show ?case
      unfolding eq using D(10) [of u] by auto
  next
    case (11 n)
    then show ?case
      unfolding eq using D(11,12) t(2) by auto
  next
    case 12
    then show ?case
      using D(13) sets [OF live_Rdy] t(3) by auto
  qed (use inv D(3) in auto)
qed

text \<open>
  Deleting another task takes it out of the list and the delay list it waits in. Its control block
  is left as it was: state, \<open>p_rlnk\<close> and the pointer of a mutex it owns are not touched.
\<close>

lemma rt_tsk_delete_other:
  assumes s: "sched X q d n s" and n: "run s = Some n"
    and tid: "tid \<noteq> 0" "tid \<noteq> ucast (task_id (tcbs s n))" "lookup_tid s tid = Some t"
    and t: "t \<notin> X" "t \<noteq> n" "t \<noteq> idle_TCB"
  shows "\<exists>s'. rt_tsk_delete s tid = Some (OS_R_OK, s') \<and> sched (insert t X) (rmv_q t q) (rmv_dly t d) n s' \<and>
    kframe (s\<lparr>os_active_TCB := (os_active_TCB s)[unat tid - 1 := None]\<rparr>) s' \<and> tcbs s' = tcbs s"
proof -
  have k: "krun X q d (Some n) s" and top: "top_prio q n s"
    using s by (simp_all add: sched_def)
  note D = krunD [OF k]
  from rt_rmv_list_any [OF k t(1)] obtain l r where
    op: "rt_rmv_list s t = Some (s\<lparr>p_lnk := l, p_rlnk := r\<rparr>)" and
    inv: "lists_inv (insert t X) (rmv_q t q) (s\<lparr>p_lnk := l, p_rlnk := r\<rparr>)"
    by blast
  let ?s = "s\<lparr>p_lnk := l, p_rlnk := r\<rparr>"
  have "dly_inv d ?s"
    using D(2) by simp
  from rt_rmv_dly_refines [OF this, of t] obtain dl bl de where
    op2: "rt_rmv_dly ?s t = ?s\<lparr>p_dlnk := dl, p_blnk := bl, delta_time := de\<rparr>" and
    dly: "dly_inv (rmv_dly t d) (?s\<lparr>p_dlnk := dl, p_blnk := bl, delta_time := de\<rparr>)"
    by blast
  let ?s2 = "?s\<lparr>p_dlnk := dl, p_blnk := bl, delta_time := de\<rparr>"
    and ?s' = "?s\<lparr>p_dlnk := dl, p_blnk := bl, delta_time := de,
      os_active_TCB := (os_active_TCB s)[unat tid - 1 := None]\<rparr>"
  have "lists_inv (insert t X) (rmv_q t q) ?s2"
    using inv by simp
  from k_dead [OF k t(1) _ t(3) this dly] t(2)
  have "krun (insert t X) (rmv_q t q) (rmv_dly t d) (Some n) ?s'"
    by simp
  moreover have "top_prio (rmv_q t q) n ?s'"
    using top set_remove1_subset [of t "q Rdy"] by (auto simp: top_prio_def rmv_q_def)
  ultimately show ?thesis
    using n tid op op2 by (intro exI [of _ ?s']) (simp add: rt_tsk_delete_def sched_def kframe_def)
qed

section \<open>Waiting for a delay\<close>

lemma rt_dly_wait_blocks:
  assumes s: "sched X q d n s" and n: "run s = Some n" "n \<noteq> idle_TCB" and dt: "dt \<noteq> 0"
  shows "\<exists>s'. rt_dly_wait s dt = Some s' \<and>
    sched X (q(Rdy := tl (q Rdy))) (dly_wait n dt d) (hd (q Rdy)) s' \<and> kframe s s' \<and> state_of s' n = WAIT_DLY"
proof -
  have k: "krun X q d (Some n) s"
    using s by (simp add: sched_def)
  have "n \<noteq> hd (q Rdy)"
    using krun_run_unqueued(1) [OF k] rt_rdy_prio_hd(2) [OF k n(2)] live_Rdy [of s] by (auto simp: unqueued_def)
  with k_block_free [OF k n dt, of WAIT_DLY] show ?thesis
    by (auto simp: rt_dly_wait_def sched_def)
qed

lemma rt_dly_wait_zero: "rt_dly_wait s 0 = Some s"
  by (simp add: rt_dly_wait_def rt_block_def)

end
