(* ===== verification/Rtx_Cmsis.thy ===== *)
theory Rtx_Cmsis
  imports Rtx_Threads Rtx_Mailbox
begin

text \<open>
  The CMSIS-RTOS layer \<open>rt_CMSIS.c\<close>: the functions \<open>svc...\<close>, \<open>isr...\<close> and \<open>sys...\<close> that check the
  arguments of a call, translate milliseconds into ticks and kernel results into status codes,
  and the public functions \<open>os...\<close> that choose between them.

  An object is named by its number, a null pointer is \<open>None\<close>; the alignment and section checks of
  \<open>rt_id2obj\<close> and \<open>rt_tid2ptcb\<close> concern addresses, which this model does not have. The public
  functions take the flag \<open>isr\<close>, whether \<open>__get_IPSR ()\<close> is not zero; that a call from a thread
  is made through a supervisor call does not change its result. \<open>sysThreadError\<close> with an error
  does not return (\<open>RTX_Conf_CM.c\<close>), which is the value \<open>None\<close>. The parameter \<open>clk\<close> is \<open>os_clockrate\<close>.
\<close>

unbundle bit_operations_syntax

section \<open>Threads\<close>

definition osPriorityIdle :: int where "osPriorityIdle = -3"
definition osPriorityRealtime :: int where "osPriorityRealtime = 3"
definition osPriorityError :: int where "osPriorityError = 0x84"

record thread_def =
  pthread :: u32
  tpriority :: int
  stacksize :: u32
  stack_pointer :: u32
  td_tcb :: nat

definition ticks :: "u32 \<Rightarrow> u32 \<Rightarrow> u16" where
  "ticks clk millisec = ucast (rt_ms2tick clk millisec)"

definition rt_tid2ptcb :: "kernel \<Rightarrow> nat option \<Rightarrow> nat option" where
  "rt_tid2ptcb s thread_id =
     (case thread_id of
        None \<Rightarrow> None
      | Some t \<Rightarrow> if cb_type s (Task t) \<noteq> TCB then None else Some t)"

definition svcThreadCreate :: "kernel \<Rightarrow> thread_def option \<Rightarrow> u32 \<Rightarrow> (nat option \<times> kernel) option" where
  "svcThreadCreate s thread_def argument =
     (case thread_def of
        None \<Rightarrow> None
      | Some td \<Rightarrow>
          if pthread td = 0 \<or> tpriority td < osPriorityIdle \<or> osPriorityRealtime < tpriority td \<or>
             stacksize td = 0 \<or> stack_pointer td = 0
          then None
          else
            let priority = of_int (tpriority td - osPriorityIdle + 1); t = td_tcb td; tsk = rt_get_TID s
            in if tsk = 0 then None
               else do {
                 let s1 = s\<lparr>os_active_TCB := (os_active_TCB s)[unat tsk - 1 := Some t]\<rparr>;
                 let s2 = upd_tcb t (\<lambda>tc. tc\<lparr>task_id := ucast tsk, msg := argument\<rparr>) s1;
                 s3 \<leftarrow> rt_dispatch (rt_init_context s2 t priority) (Some t);
                 Some (os_active_TCB s3 ! (unat tsk - 1), s3)
               })"

text \<open>The idle demon has the number 255, for which the table of active tasks has no entry.\<close>

definition svcThreadGetId :: "kernel \<Rightarrow> nat option option" where
  "svcThreadGetId s =
     (let tsk = rt_tsk_self s
      in if tsk = 0 then Some None
         else if length (os_active_TCB s) < unat tsk then None
         else Some (os_active_TCB s ! (unat tsk - 1)))"

definition svcThreadTerminate :: "kernel \<Rightarrow> nat option \<Rightarrow> (os_status \<times> kernel) option" where
  "svcThreadTerminate s thread_id =
     (case rt_tid2ptcb s thread_id of
        None \<Rightarrow> Some (osErrorParameter, s)
      | Some t \<Rightarrow> do {
          (res, s1) \<leftarrow> rt_tsk_delete s (ucast (task_id (tcbs s t)));
          Some (if res = OS_R_NOK then osErrorResource else osOK, s1)
        })"

definition svcThreadYield :: "kernel \<Rightarrow> (os_status \<times> kernel) option" where
  "svcThreadYield s = map_option (\<lambda>s1. (osOK, s1)) (rt_tsk_pass s)"

definition svcThreadSetPriority :: "kernel \<Rightarrow> nat option \<Rightarrow> int \<Rightarrow> (os_status \<times> kernel) option" where
  "svcThreadSetPriority s thread_id priority =
     (case rt_tid2ptcb s thread_id of
        None \<Rightarrow> Some (osErrorParameter, s)
      | Some t \<Rightarrow>
          if priority < osPriorityIdle \<or> osPriorityRealtime < priority then Some (osErrorValue, s)
          else do {
            (res, s1) \<leftarrow> rt_tsk_prio s (ucast (task_id (tcbs s t))) (of_int (priority - osPriorityIdle + 1));
            Some (if res = OS_R_NOK then osErrorResource else osOK, s1)
          })"

definition svcThreadGetPriority :: "kernel \<Rightarrow> nat option \<Rightarrow> int" where
  "svcThreadGetPriority s thread_id =
     (case rt_tid2ptcb s thread_id of
        None \<Rightarrow> osPriorityError
      | Some t \<Rightarrow> uint (prio_of s t) - 1 + osPriorityIdle)"

definition osThreadCreate :: "bool \<Rightarrow> kernel \<Rightarrow> thread_def option \<Rightarrow> u32 \<Rightarrow> (nat option \<times> kernel) option" where
  "osThreadCreate isr s thread_def argument =
     (if isr then Some (None, s) else svcThreadCreate s thread_def argument)"

definition osThreadGetId :: "bool \<Rightarrow> kernel \<Rightarrow> nat option option" where
  "osThreadGetId isr s = (if isr then Some None else svcThreadGetId s)"

definition osThreadTerminate :: "bool \<Rightarrow> kernel \<Rightarrow> nat option \<Rightarrow> (os_status \<times> kernel) option" where
  "osThreadTerminate isr s thread_id =
     (if isr then Some (osErrorISR, s) else svcThreadTerminate s thread_id)"

definition osThreadYield :: "bool \<Rightarrow> kernel \<Rightarrow> (os_status \<times> kernel) option" where
  "osThreadYield isr s = (if isr then Some (osErrorISR, s) else svcThreadYield s)"

definition osThreadSetPriority :: "bool \<Rightarrow> kernel \<Rightarrow> nat option \<Rightarrow> int \<Rightarrow> (os_status \<times> kernel) option" where
  "osThreadSetPriority isr s thread_id priority =
     (if isr then Some (osErrorISR, s) else svcThreadSetPriority s thread_id priority)"

definition osThreadGetPriority :: "bool \<Rightarrow> kernel \<Rightarrow> nat option \<Rightarrow> int" where
  "osThreadGetPriority isr s thread_id = (if isr then osPriorityError else svcThreadGetPriority s thread_id)"

text \<open>\<open>osThreadExit\<close> up to its final endless loop.\<close>

definition osThreadExit :: "kernel \<Rightarrow> (os_status \<times> kernel) option" where
  "osThreadExit s = do { tid \<leftarrow> svcThreadGetId s; svcThreadTerminate s tid }"

section \<open>Delays\<close>

definition svcDelay :: "u32 \<Rightarrow> kernel \<Rightarrow> u32 \<Rightarrow> (os_status \<times> kernel) option" where
  "svcDelay clk s millisec =
     (if millisec = 0 then Some (osOK, s)
      else map_option (\<lambda>s1. (osEventTimeout, s1)) (rt_dly_wait s (ticks clk millisec)))"

definition osDelay :: "bool \<Rightarrow> u32 \<Rightarrow> kernel \<Rightarrow> u32 \<Rightarrow> (os_status \<times> kernel) option" where
  "osDelay isr clk s millisec = (if isr then Some (osErrorISR, s) else svcDelay clk s millisec)"

section \<open>Timers\<close>

text \<open>
  A timer definition that is not null is its function \<open>ptimer\<close> and its control block. The thread
  of the timers must exist.
\<close>

definition svcTimerCreate ::
    "nat option \<Rightarrow> timers \<Rightarrow> (u32 \<times> nat option) option \<Rightarrow> u8 \<Rightarrow> u32 \<Rightarrow> (nat \<times> timers) option" where
  "svcTimerCreate timer_thread ts timer_def type argument =
     (case timer_def of
        None \<Rightarrow> None
      | Some (ptimer, timer) \<Rightarrow>
          if ptimer = 0 then None
          else case timer of
                 None \<Rightarrow> None
               | Some pt \<Rightarrow>
                   if type \<noteq> osTimerOnce \<and> type \<noteq> osTimerPeriodic then None
                   else if timer_thread = None then None
                   else if tm_state (tmrs ts pt) \<noteq> osTimerInvalid then None
                   else Some (pt, upd_tmr pt (\<lambda>x. x\<lparr>tm_state := osTimerStopped, tm_type := type,
                     tm_arg := argument, tm_fp := ptimer\<rparr>) ts))"

definition osTimerCreate ::
    "bool \<Rightarrow> nat option \<Rightarrow> timers \<Rightarrow> (u32 \<times> nat option) option \<Rightarrow> u8 \<Rightarrow> u32 \<Rightarrow> (nat option \<times> timers) option" where
  "osTimerCreate isr timer_thread ts timer_def type argument =
     (if isr then Some (None, ts)
      else map_option (\<lambda>(pt, ts1). (Some pt, ts1)) (svcTimerCreate timer_thread ts timer_def type argument))"

definition osTimerStart :: "bool \<Rightarrow> u32 \<Rightarrow> timers \<Rightarrow> nat option \<Rightarrow> u32 \<Rightarrow> (os_status \<times> timers) option" where
  "osTimerStart isr clk ts timer_id millisec =
     (if isr then Some (osErrorISR, ts) else svcTimerStart clk ts timer_id millisec)"

definition osTimerStop :: "bool \<Rightarrow> timers \<Rightarrow> nat option \<Rightarrow> (os_status \<times> timers) option" where
  "osTimerStop isr ts timer_id = (if isr then Some (osErrorISR, ts) else svcTimerStop ts timer_id)"

definition osTimerDelete :: "bool \<Rightarrow> timers \<Rightarrow> nat option \<Rightarrow> (os_status \<times> timers) option" where
  "osTimerDelete isr ts timer_id = (if isr then Some (osErrorISR, ts) else svcTimerDelete ts timer_id)"

section \<open>Signals\<close>

text \<open>\<open>osFeature_Signals\<close> is 16: a set of signals has no bit above the lower half word.\<close>

definition bad_signals :: "u32 \<Rightarrow> bool" where
  "bad_signals signals \<longleftrightarrow> signals AND push_bit 16 0xFFFFFFFF \<noteq> 0"

definition svcSignalSet :: "kernel \<Rightarrow> nat option \<Rightarrow> u32 \<Rightarrow> (u32 \<times> kernel) option" where
  "svcSignalSet s thread_id signals =
     (case rt_tid2ptcb s thread_id of
        None \<Rightarrow> Some (0x80000000, s)
      | Some t \<Rightarrow>
          if bad_signals signals then Some (0x80000000, s)
          else map_option (\<lambda>s1. (ucast (events (tcbs s t)), s1))
                 (rt_evt_set s (ucast signals) (ucast (task_id (tcbs s t)))))"

definition svcSignalClear :: "kernel \<Rightarrow> nat option \<Rightarrow> u32 \<Rightarrow> (u32 \<times> kernel) option" where
  "svcSignalClear s thread_id signals =
     (case rt_tid2ptcb s thread_id of
        None \<Rightarrow> Some (0x80000000, s)
      | Some t \<Rightarrow>
          if bad_signals signals then Some (0x80000000, s)
          else map_option (\<lambda>s1. (ucast (events (tcbs s t)), s1))
                 (rt_evt_clr s (ucast signals) (ucast (task_id (tcbs s t)))))"

definition svcSignalGet :: "kernel \<Rightarrow> nat option \<Rightarrow> u32" where
  "svcSignalGet s thread_id =
     (case rt_tid2ptcb s thread_id of None \<Rightarrow> 0x80000000 | Some t \<Rightarrow> ucast (events (tcbs s t)))"

text \<open>The result of a waiting call; the value is \<open>None\<close> where the code leaves it unset.\<close>

record os_event =
  ev_status :: os_status
  ev_value :: "u32 option"

definition svcSignalWait :: "u32 \<Rightarrow> kernel \<Rightarrow> u32 \<Rightarrow> u32 \<Rightarrow> (os_event \<times> kernel) option" where
  "svcSignalWait clk s signals millisec =
     (if bad_signals signals then Some (\<lparr>ev_status = osErrorValue, ev_value = None\<rparr>, s)
      else do {
        (res, s1) \<leftarrow> (if signals \<noteq> 0 then rt_evt_wait s (ucast signals) (ticks clk millisec) True
                     else rt_evt_wait s 0xFFFF (ticks clk millisec) False);
        if res = OS_R_EVT
        then do {
          w \<leftarrow> rt_evt_get s1;
          Some (\<lparr>ev_status = osEventSignal, ev_value = Some (if signals \<noteq> 0 then signals else ucast w)\<rparr>, s1)
        }
        else Some (\<lparr>ev_status = if millisec \<noteq> 0 then osEventTimeout else osOK, ev_value = Some 0\<rparr>, s1)
      })"

definition isrSignalSet :: "kernel \<Rightarrow> nat option \<Rightarrow> u32 \<Rightarrow> (u32 \<times> kernel) option" where
  "isrSignalSet s thread_id signals =
     (case rt_tid2ptcb s thread_id of
        None \<Rightarrow> Some (0x80000000, s)
      | Some t \<Rightarrow>
          if bad_signals signals then Some (0x80000000, s)
          else map_option (\<lambda>s1. (ucast (events (tcbs s t)), s1))
                 (isr_evt_set s (ucast signals) (ucast (task_id (tcbs s t)))))"

definition osSignalSet :: "bool \<Rightarrow> kernel \<Rightarrow> nat option \<Rightarrow> u32 \<Rightarrow> (u32 \<times> kernel) option" where
  "osSignalSet isr s thread_id signals =
     (if isr then isrSignalSet s thread_id signals else svcSignalSet s thread_id signals)"

text \<open>Two functions return \<open>osErrorISR\<close> as an integer.\<close>

definition osSignalClear :: "bool \<Rightarrow> kernel \<Rightarrow> nat option \<Rightarrow> u32 \<Rightarrow> (u32 \<times> kernel) option" where
  "osSignalClear isr s thread_id signals = (if isr then Some (0x82, s) else svcSignalClear s thread_id signals)"

definition osSignalGet :: "bool \<Rightarrow> kernel \<Rightarrow> nat option \<Rightarrow> u32" where
  "osSignalGet isr s thread_id = (if isr then 0x82 else svcSignalGet s thread_id)"

definition osSignalWait :: "bool \<Rightarrow> u32 \<Rightarrow> kernel \<Rightarrow> u32 \<Rightarrow> u32 \<Rightarrow> (os_event \<times> kernel) option" where
  "osSignalWait isr clk s signals millisec =
     (if isr then Some (\<lparr>ev_status = osErrorISR, ev_value = None\<rparr>, s) else svcSignalWait clk s signals millisec)"

section \<open>Mutexes\<close>

text \<open>
  A definition that is not null holds the object's address or null. The object must not have been
  created yet: its \<open>cb_type\<close> is 0, the value of the constructor \<open>TCB\<close>.
\<close>

definition svcMutexCreate :: "kernel \<Rightarrow> nat option option \<Rightarrow> (nat \<times> kernel) option" where
  "svcMutexCreate s mutex_def =
     (case mutex_def of
        None \<Rightarrow> None
      | Some None \<Rightarrow> None
      | Some (Some i) \<Rightarrow> if cb_type s (Mut i) \<noteq> TCB then None else Some (i, rt_mut_init s i))"

definition svcMutexWait :: "u32 \<Rightarrow> kernel \<Rightarrow> nat option \<Rightarrow> u32 \<Rightarrow> (os_status \<times> kernel) option" where
  "svcMutexWait clk s mutex_id millisec =
     (case mutex_id of
        None \<Rightarrow> Some (osErrorParameter, s)
      | Some i \<Rightarrow>
          if cb_type s (Mut i) \<noteq> MUCB then Some (osErrorParameter, s)
          else do {
            (res, s1) \<leftarrow> rt_mut_wait s i (ticks clk millisec);
            Some (if res = OS_R_TMO then if millisec \<noteq> 0 then osErrorTimeoutResource else osErrorResource
                  else osOK, s1)
          })"

definition svcMutexRelease :: "kernel \<Rightarrow> nat option \<Rightarrow> (os_status \<times> kernel) option" where
  "svcMutexRelease s mutex_id =
     (case mutex_id of
        None \<Rightarrow> Some (osErrorParameter, s)
      | Some i \<Rightarrow>
          if cb_type s (Mut i) \<noteq> MUCB then Some (osErrorParameter, s)
          else do {
            (res, s1) \<leftarrow> rt_mut_release s i;
            Some (if res = OS_R_NOK then osErrorResource else osOK, s1)
          })"

definition svcMutexDelete :: "kernel \<Rightarrow> nat option \<Rightarrow> (os_status \<times> kernel) option" where
  "svcMutexDelete s mutex_id =
     (case mutex_id of
        None \<Rightarrow> Some (osErrorParameter, s)
      | Some i \<Rightarrow>
          if cb_type s (Mut i) \<noteq> MUCB then Some (osErrorParameter, s)
          else map_option (\<lambda>(_, s1). (osOK, s1)) (rt_mut_delete s i))"

definition osMutexCreate :: "bool \<Rightarrow> kernel \<Rightarrow> nat option option \<Rightarrow> (nat option \<times> kernel) option" where
  "osMutexCreate isr s mutex_def =
     (if isr then Some (None, s) else map_option (\<lambda>(i, s1). (Some i, s1)) (svcMutexCreate s mutex_def))"

definition osMutexWait :: "bool \<Rightarrow> u32 \<Rightarrow> kernel \<Rightarrow> nat option \<Rightarrow> u32 \<Rightarrow> (os_status \<times> kernel) option" where
  "osMutexWait isr clk s mutex_id millisec =
     (if isr then Some (osErrorISR, s) else svcMutexWait clk s mutex_id millisec)"

definition osMutexRelease :: "bool \<Rightarrow> kernel \<Rightarrow> nat option \<Rightarrow> (os_status \<times> kernel) option" where
  "osMutexRelease isr s mutex_id = (if isr then Some (osErrorISR, s) else svcMutexRelease s mutex_id)"

definition osMutexDelete :: "bool \<Rightarrow> kernel \<Rightarrow> nat option \<Rightarrow> (os_status \<times> kernel) option" where
  "osMutexDelete isr s mutex_id = (if isr then Some (osErrorISR, s) else svcMutexDelete s mutex_id)"

section \<open>Semaphores\<close>

definition osFeature_Semaphore :: u32 where "osFeature_Semaphore = 65535"

text \<open>The comparison with \<open>osFeature_Semaphore\<close> is signed, the count is cut to 16 bits afterwards.\<close>

definition svcSemaphoreCreate :: "kernel \<Rightarrow> nat option option \<Rightarrow> u32 \<Rightarrow> (nat \<times> kernel) option" where
  "svcSemaphoreCreate s semaphore_def count =
     (case semaphore_def of
        None \<Rightarrow> None
      | Some None \<Rightarrow> None
      | Some (Some i) \<Rightarrow>
          if cb_type s (Sem i) \<noteq> TCB then None
          else if sint osFeature_Semaphore < sint count then None
          else Some (i, rt_sem_init s i (ucast count)))"

definition svcSemaphoreWait :: "u32 \<Rightarrow> kernel \<Rightarrow> nat option \<Rightarrow> u32 \<Rightarrow> (int \<times> kernel) option" where
  "svcSemaphoreWait clk s semaphore_id millisec =
     (case semaphore_id of
        None \<Rightarrow> Some (-1, s)
      | Some i \<Rightarrow>
          if cb_type s (Sem i) \<noteq> SCB then Some (-1, s)
          else do {
            (res, s1) \<leftarrow> rt_sem_wait s i (ticks clk millisec);
            Some (if res = OS_R_TMO then 0 else uint (tokens (scbs s1 i)) + 1, s1)
          })"

definition svcSemaphoreRelease :: "kernel \<Rightarrow> nat option \<Rightarrow> (os_status \<times> kernel) option" where
  "svcSemaphoreRelease s semaphore_id =
     (case semaphore_id of
        None \<Rightarrow> Some (osErrorParameter, s)
      | Some i \<Rightarrow>
          if cb_type s (Sem i) \<noteq> SCB then Some (osErrorParameter, s)
          else if ucast (tokens (scbs s i)) = osFeature_Semaphore then Some (osErrorResource, s)
          else map_option (\<lambda>(_, s1). (osOK, s1)) (rt_sem_send s i))"

definition svcSemaphoreDelete :: "kernel \<Rightarrow> nat option \<Rightarrow> (os_status \<times> kernel) option" where
  "svcSemaphoreDelete s semaphore_id =
     (case semaphore_id of
        None \<Rightarrow> Some (osErrorParameter, s)
      | Some i \<Rightarrow>
          if cb_type s (Sem i) \<noteq> SCB then Some (osErrorParameter, s)
          else map_option (\<lambda>(_, s1). (osOK, s1)) (rt_sem_delete s i))"

definition isrSemaphoreRelease :: "kernel \<Rightarrow> nat option \<Rightarrow> (os_status \<times> kernel) option" where
  "isrSemaphoreRelease s semaphore_id =
     (case semaphore_id of
        None \<Rightarrow> Some (osErrorParameter, s)
      | Some i \<Rightarrow>
          if cb_type s (Sem i) \<noteq> SCB then Some (osErrorParameter, s)
          else if ucast (tokens (scbs s i)) = osFeature_Semaphore then Some (osErrorResource, s)
          else map_option (\<lambda>s1. (osOK, s1)) (isr_sem_send s i))"

definition osSemaphoreCreate :: "bool \<Rightarrow> kernel \<Rightarrow> nat option option \<Rightarrow> u32 \<Rightarrow> (nat option \<times> kernel) option" where
  "osSemaphoreCreate isr s semaphore_def count =
     (if isr then Some (None, s)
      else map_option (\<lambda>(i, s1). (Some i, s1)) (svcSemaphoreCreate s semaphore_def count))"

definition osSemaphoreWait :: "bool \<Rightarrow> u32 \<Rightarrow> kernel \<Rightarrow> nat option \<Rightarrow> u32 \<Rightarrow> (int \<times> kernel) option" where
  "osSemaphoreWait isr clk s semaphore_id millisec =
     (if isr then Some (-1, s) else svcSemaphoreWait clk s semaphore_id millisec)"

definition osSemaphoreRelease :: "bool \<Rightarrow> kernel \<Rightarrow> nat option \<Rightarrow> (os_status \<times> kernel) option" where
  "osSemaphoreRelease isr s semaphore_id =
     (if isr then isrSemaphoreRelease s semaphore_id else svcSemaphoreRelease s semaphore_id)"

definition osSemaphoreDelete :: "bool \<Rightarrow> kernel \<Rightarrow> nat option \<Rightarrow> (os_status \<times> kernel) option" where
  "osSemaphoreDelete isr s semaphore_id =
     (if isr then Some (osErrorISR, s) else svcSemaphoreDelete s semaphore_id)"

section \<open>Memory pools\<close>

definition rt_clr_box :: "memory \<Rightarrow> u32 \<Rightarrow> u32 \<Rightarrow> memory option" where
  "rt_clr_box m box_mem box = (if box \<noteq> 0 then zero_words m box (m (box_mem + 8)) else Some m)"

record pool_def =
  pool_sz :: u32
  item_sz :: u32
  pool_addr :: u32

text \<open>\<open>sizeof (struct OS_BM)\<close> is 12 on the target; the result of \<open>_init_box\<close> is not looked at.\<close>

definition svcPoolCreate :: "kernel \<Rightarrow> pool_def option \<Rightarrow> (u32 \<times> kernel) option" where
  "svcPoolCreate s pool_def =
     (case pool_def of
        None \<Rightarrow> None
      | Some pd \<Rightarrow>
          if pool_sz pd = 0 \<or> item_sz pd = 0 \<or> pool_addr pd = 0 then None
          else
            let blk_sz = (item_sz pd + 3) AND NOT 3
            in map_option (\<lambda>(_, m). (pool_addr pd, s\<lparr>mem := m\<rparr>))
                 (init_box (mem s) (pool_addr pd) (12 + pool_sz pd * blk_sz) blk_sz))"

definition sysPoolAlloc :: "kernel \<Rightarrow> u32 \<Rightarrow> bool \<Rightarrow> (u32 \<times> kernel) option" where
  "sysPoolAlloc s pool_id clr =
     (if pool_id = 0 then Some (0, s)
      else
        let (p, m) = rt_alloc_box (mem s) pool_id
        in map_option (\<lambda>m'. (p, s\<lparr>mem := m'\<rparr>)) (if clr then rt_clr_box m pool_id p else Some m))"

definition sysPoolFree :: "kernel \<Rightarrow> u32 \<Rightarrow> u32 \<Rightarrow> os_status \<times> kernel" where
  "sysPoolFree s pool_id block =
     (if pool_id = 0 then (osErrorParameter, s)
      else
        let (res, m) = rt_free_box (mem s) pool_id block
        in (if res \<noteq> 0 then osErrorValue else osOK, s\<lparr>mem := m\<rparr>))"

definition osPoolCreate :: "bool \<Rightarrow> kernel \<Rightarrow> pool_def option \<Rightarrow> (u32 \<times> kernel) option" where
  "osPoolCreate isr s pool_def = (if isr then Some (0, s) else svcPoolCreate s pool_def)"

definition osPoolAlloc :: "kernel \<Rightarrow> u32 \<Rightarrow> (u32 \<times> kernel) option" where
  "osPoolAlloc s pool_id = sysPoolAlloc s pool_id False"

definition osPoolCAlloc :: "kernel \<Rightarrow> u32 \<Rightarrow> (u32 \<times> kernel) option" where
  "osPoolCAlloc s pool_id = sysPoolAlloc s pool_id True"

definition osPoolFree :: "kernel \<Rightarrow> u32 \<Rightarrow> u32 \<Rightarrow> os_status \<times> kernel" where
  "osPoolFree s pool_id block = sysPoolFree s pool_id block"

section \<open>Message queues\<close>

text \<open>A definition that is not null is the size of the queue and the queue's memory or null.\<close>

definition svcMessageCreate :: "kernel \<Rightarrow> (u32 \<times> nat option) option \<Rightarrow> (nat \<times> kernel) option" where
  "svcMessageCreate s queue_def =
     (case queue_def of
        None \<Rightarrow> None
      | Some (queue_sz, mcb) \<Rightarrow>
          if queue_sz = 0 then None
          else case mcb of
                 None \<Rightarrow> None
               | Some i \<Rightarrow>
                   if cb_type s (Mbx i) \<noteq> TCB then None
                   else Some (i, rt_mbx_init s i (ucast (4 * (queue_sz + 4)))))"

definition svcMessagePut :: "u32 \<Rightarrow> kernel \<Rightarrow> nat option \<Rightarrow> u32 \<Rightarrow> u32 \<Rightarrow> (os_status \<times> kernel) option" where
  "svcMessagePut clk s queue_id info millisec =
     (case queue_id of
        None \<Rightarrow> Some (osErrorParameter, s)
      | Some i \<Rightarrow>
          if cb_type s (Mbx i) \<noteq> MCB then Some (osErrorParameter, s)
          else do {
            (res, s1) \<leftarrow> rt_mbx_send s i info (ticks clk millisec);
            Some (if res = OS_R_TMO then if millisec \<noteq> 0 then osErrorTimeoutResource else osErrorResource
                  else osOK, s1)
          })"

definition svcMessageGet :: "u32 \<Rightarrow> kernel \<Rightarrow> nat option \<Rightarrow> u32 \<Rightarrow> (os_event \<times> kernel) option" where
  "svcMessageGet clk s queue_id millisec =
     (case queue_id of
        None \<Rightarrow> Some (\<lparr>ev_status = osErrorParameter, ev_value = None\<rparr>, s)
      | Some i \<Rightarrow>
          if cb_type s (Mbx i) \<noteq> MCB then Some (\<lparr>ev_status = osErrorParameter, ev_value = None\<rparr>, s)
          else do {
            (res, v, s1) \<leftarrow> rt_mbx_wait s i (ticks clk millisec);
            Some (if res = OS_R_TMO
                  then \<lparr>ev_status = if millisec \<noteq> 0 then osEventTimeout else osOK, ev_value = v\<rparr>
                  else \<lparr>ev_status = osEventMessage, ev_value = v\<rparr>, s1)
          })"

definition isrMessageGet :: "kernel \<Rightarrow> nat option \<Rightarrow> u32 \<Rightarrow> (os_event \<times> kernel) option" where
  "isrMessageGet s queue_id millisec =
     (case queue_id of
        None \<Rightarrow> Some (\<lparr>ev_status = osErrorParameter, ev_value = None\<rparr>, s)
      | Some i \<Rightarrow>
          if millisec \<noteq> 0 then Some (\<lparr>ev_status = osErrorParameter, ev_value = None\<rparr>, s)
          else if cb_type s (Mbx i) \<noteq> MCB then Some (\<lparr>ev_status = osErrorParameter, ev_value = None\<rparr>, s)
          else do {
            (res, v, s1) \<leftarrow> isr_mbx_receive s i;
            Some (\<lparr>ev_status = if res \<noteq> OS_R_MBX then osOK else osEventMessage, ev_value = v\<rparr>, s1)
          })"

definition osMessageCreate :: "bool \<Rightarrow> kernel \<Rightarrow> (u32 \<times> nat option) option \<Rightarrow> (nat option \<times> kernel) option" where
  "osMessageCreate isr s queue_def =
     (if isr then Some (None, s) else map_option (\<lambda>(i, s1). (Some i, s1)) (svcMessageCreate s queue_def))"

definition osMessagePut :: "bool \<Rightarrow> u32 \<Rightarrow> kernel \<Rightarrow> nat option \<Rightarrow> u32 \<Rightarrow> u32 \<Rightarrow> (os_status \<times> kernel) option" where
  "osMessagePut isr clk s queue_id info millisec =
     (if isr then isrMessagePut s queue_id info millisec else svcMessagePut clk s queue_id info millisec)"

definition osMessageGet :: "bool \<Rightarrow> u32 \<Rightarrow> kernel \<Rightarrow> nat option \<Rightarrow> u32 \<Rightarrow> (os_event \<times> kernel) option" where
  "osMessageGet isr clk s queue_id millisec =
     (if isr then isrMessageGet s queue_id millisec else svcMessageGet clk s queue_id millisec)"

section \<open>Mail queues\<close>

text \<open>
  A mail queue is a pair of words, the message queue of the mails and the pool they are allocated
  from, each null or valid; \<open>queue_id\<close> is \<open>None\<close> for a null pointer to the pair.
\<close>

record mailq =
  mq_mcb :: "nat option"
  mq_pool :: u32

record mailq_def =
  mq_queue_sz :: u32
  mq_item_sz :: u32
  mq_queue :: "mailq option"

definition svcMailCreate :: "kernel \<Rightarrow> mailq_def option \<Rightarrow> (mailq \<times> kernel) option" where
  "svcMailCreate s queue_def =
     (case queue_def of
        None \<Rightarrow> None
      | Some md \<Rightarrow>
          if mq_queue_sz md = 0 \<or> mq_item_sz md = 0 then None
          else case mq_queue md of
                 None \<Rightarrow> None
               | Some mq \<Rightarrow>
                   if mq_pool mq = 0 then None
                   else case mq_mcb mq of
                          None \<Rightarrow> None
                        | Some i \<Rightarrow>
                            if cb_type s (Mbx i) \<noteq> TCB then None
                            else
                              let blk_sz = (mq_item_sz md + 3) AND NOT 3
                              in map_option (\<lambda>(_, m). (mq, rt_mbx_init (s\<lparr>mem := m\<rparr>) i (ucast (4 * (mq_queue_sz md + 4)))))
                                   (init_box (mem s) (mq_pool mq) (12 + mq_queue_sz md * blk_sz) blk_sz))"

definition sysMailAlloc ::
    "u32 \<Rightarrow> kernel \<Rightarrow> mailq option \<Rightarrow> u32 \<Rightarrow> bool \<Rightarrow> bool \<Rightarrow> (u32 \<times> kernel) option" where
  "sysMailAlloc clk s queue_id millisec isr clr =
     (case queue_id of
        None \<Rightarrow> Some (0, s)
      | Some mq \<Rightarrow>
          (case mq_mcb mq of
             None \<Rightarrow> Some (0, s)
           | Some i \<Rightarrow>
               if mq_pool mq = 0 then Some (0, s)
               else if isr \<and> millisec \<noteq> 0 then Some (0, s)
               else do {
                 let (p, m) = rt_alloc_box (mem s) (mq_pool mq);
                 m' \<leftarrow> (if clr then rt_clr_box m (mq_pool mq) p else Some m);
                 let s1 = s\<lparr>mem := m'\<rparr>;
                 if p = 0 \<and> millisec \<noteq> 0
                 then do {
                   r \<leftarrow> run s1;
                   s2 \<leftarrow> enq_wait s1 (Mbx i) r;
                   let s3 = (if p_lnk s1 (Mbx i) = None then upd_mbx i (mb_state_update (\<lambda>_. 3)) s2 else s2);
                   s4 \<leftarrow> rt_block s3 (ticks clk millisec) WAIT_MBX;
                   Some (p, s4)
                 }
                 else Some (p, s1)
               }))"

definition sysMailFree :: "kernel \<Rightarrow> mailq option \<Rightarrow> u32 \<Rightarrow> bool \<Rightarrow> (os_status \<times> kernel) option" where
  "sysMailFree s queue_id mail isr =
     (case queue_id of
        None \<Rightarrow> Some (osErrorParameter, s)
      | Some mq \<Rightarrow>
          (case mq_mcb mq of
             None \<Rightarrow> Some (osErrorParameter, s)
           | Some i \<Rightarrow>
               if mq_pool mq = 0 then Some (osErrorParameter, s)
               else
                 let (res, m) = rt_free_box (mem s) (mq_pool mq) mail; s1 = s\<lparr>mem := m\<rparr>
                 in if res \<noteq> 0 then Some (osErrorValue, s1)
                    else if mb_state (mcbs s1 i) = 3
                    then if isr then map_option (\<lambda>s2. (osOK, s2)) (rt_psq_enq s1 (Mbx i) (mq_pool mq))
                         else
                           let (p, m') = rt_alloc_box (mem s1) (mq_pool mq); s2 = s1\<lparr>mem := m'\<rparr>
                           in if p = 0 then Some (osOK, s2)
                              else do {
                                (t, s3) \<leftarrow> rt_get_first s2 (Mbx i);
                                let s4 = (if p_lnk s3 (Mbx i) = None then upd_mbx i (mb_state_update (\<lambda>_. 0)) s3 else s3);
                                s5 \<leftarrow> rt_dispatch (rt_rmv_dly (rt_ret_val t p s4) t) (Some t);
                                Some (osOK, s5)
                              }
                    else Some (osOK, s1)))"

definition osMailCreate :: "bool \<Rightarrow> kernel \<Rightarrow> mailq_def option \<Rightarrow> (mailq option \<times> kernel) option" where
  "osMailCreate isr s queue_def =
     (if isr then Some (None, s) else map_option (\<lambda>(q, s1). (Some q, s1)) (svcMailCreate s queue_def))"

definition osMailAlloc :: "bool \<Rightarrow> u32 \<Rightarrow> kernel \<Rightarrow> mailq option \<Rightarrow> u32 \<Rightarrow> (u32 \<times> kernel) option" where
  "osMailAlloc isr clk s queue_id millisec = sysMailAlloc clk s queue_id millisec isr False"

definition osMailCAlloc :: "bool \<Rightarrow> u32 \<Rightarrow> kernel \<Rightarrow> mailq option \<Rightarrow> u32 \<Rightarrow> (u32 \<times> kernel) option" where
  "osMailCAlloc isr clk s queue_id millisec = sysMailAlloc clk s queue_id millisec isr True"

definition osMailFree :: "bool \<Rightarrow> kernel \<Rightarrow> mailq option \<Rightarrow> u32 \<Rightarrow> (os_status \<times> kernel) option" where
  "osMailFree isr s queue_id mail = sysMailFree s queue_id mail isr"

definition osMailPut :: "bool \<Rightarrow> u32 \<Rightarrow> kernel \<Rightarrow> mailq option \<Rightarrow> u32 \<Rightarrow> (os_status \<times> kernel) option" where
  "osMailPut isr clk s queue_id mail =
     (case queue_id of
        None \<Rightarrow> Some (osErrorParameter, s)
      | Some mq \<Rightarrow> if mail = 0 then Some (osErrorValue, s) else osMessagePut isr clk s (mq_mcb mq) mail 0)"

definition osMailGet :: "bool \<Rightarrow> u32 \<Rightarrow> kernel \<Rightarrow> mailq option \<Rightarrow> u32 \<Rightarrow> (os_event \<times> kernel) option" where
  "osMailGet isr clk s queue_id millisec =
     (case queue_id of
        None \<Rightarrow> Some (\<lparr>ev_status = osErrorParameter, ev_value = None\<rparr>, s)
      | Some mq \<Rightarrow>
          map_option (\<lambda>(ev, s1). (if ev_status ev = osEventMessage then ev\<lparr>ev_status := osEventMail\<rparr> else ev, s1))
            (osMessageGet isr clk s (mq_mcb mq) millisec))"

section \<open>Kernel control\<close>

record os =
  kern :: kernel
  os_initialized :: bool
  os_running :: bool
  timer_queue :: "nat option"
  timer_thread :: "nat option"

text \<open>The constants of \<open>RTX_Conf_CM.c\<close> and the definitions of the timer's queue and thread.\<close>

record os_conf =
  cf_fifo_size :: u8
  cf_rrobin :: u32
  cf_timer_queue :: "(u32 \<times> nat option) option"
  cf_timer_thread :: "thread_def option"

definition svcKernelInitialize :: "os_conf \<Rightarrow> os \<Rightarrow> (os_status \<times> os) option" where
  "svcKernelInitialize cf o1 =
     (if os_initialized o1 then Some (osOK, o1)
      else do {
        let s = rt_sys_init (cf_fifo_size cf) (cf_rrobin cf) (kern o1);
        r \<leftarrow> run s;
        Some (osOK, o1\<lparr>kern := set_prio r 255 s, os_initialized := True\<rparr>)
      })"

text \<open>The stack pointer and the tick timer are not part of the state.\<close>

definition svcKernelStart :: "os_conf \<Rightarrow> os \<Rightarrow> (os_status \<times> os) option" where
  "svcKernelStart cf o1 =
     (if os_running o1 then Some (osOK, o1)
      else do {
        (tq, s1) \<leftarrow> svcMessageCreate (kern o1) (cf_timer_queue cf);
        (tt, s2) \<leftarrow> svcThreadCreate s1 (cf_timer_thread cf) 0;
        (_, s3) \<leftarrow> rt_tsk_prio s2 0 0;
        Some (osOK, o1\<lparr>kern := s3\<lparr>run := None\<rparr>, timer_queue := Some tq, timer_thread := tt, os_running := True\<rparr>)
      })"

definition osKernelInitialize :: "bool \<Rightarrow> os_conf \<Rightarrow> os \<Rightarrow> (os_status \<times> os) option" where
  "osKernelInitialize isr cf o1 = (if isr then Some (osErrorISR, o1) else svcKernelInitialize cf o1)"

definition osKernelRunning :: "os \<Rightarrow> bool" where
  "osKernelRunning o1 = os_running o1"

text \<open>
  \<open>osKernelStart\<close>: \<open>control\<close> is the value of \<open>__get_CONTROL () & 3\<close>, and \<open>os_flags & 1\<close> the flag
  \<open>privileged\<close>. Setting the stack pointer and the control register has no effect on this state.
\<close>

definition osKernelStart :: "bool \<Rightarrow> u32 \<Rightarrow> bool \<Rightarrow> os_conf \<Rightarrow> os \<Rightarrow> (os_status \<times> os) option" where
  "osKernelStart isr control privileged cf o1 =
     (if isr then Some (osErrorISR, o1)
      else if control = 1 then Some (osErrorOS, o1)
      else if control = 3 \<and> privileged then Some (osErrorOS, o1)
      else svcKernelStart cf o1)"

end
