(* ===== verification/Rtx_Service.thy ===== *)
theory Rtx_Service
  imports Rtx_Cmsis Rtx_Event
begin

text \<open>
  The system invariant of the kernel: beside the scheduler's \<open>sched\<close>, every initialised object,
  the table of active tasks and the queue of posts are in order. Each service called by a thread
  is shown to keep it and to end without a fault.
\<close>

section \<open>The invariant of the objects\<close>

text \<open>
  State 3 of a mailbox, whose list then holds tasks that wait for memory of a mail queue, is not
  covered: it is reached only through \<open>sysMailAlloc\<close>.
\<close>

definition obj_ok :: "nat set \<Rightarrow> (ptr \<Rightarrow> nat list) \<Rightarrow> kernel \<Rightarrow> ptr \<Rightarrow> bool" where
  "obj_ok X q s h \<longleftrightarrow>
     (case h of
        Sem i \<Rightarrow> cb_type s h \<in> {TCB, SCB} \<and> (cb_type s h = SCB \<longrightarrow> q h \<noteq> [] \<longrightarrow> tokens (scbs s i) = 0)
      | Mbx i \<Rightarrow> cb_type s h \<in> {TCB, MCB} \<and> (cb_type s h = MCB \<longrightarrow> mbx_wf h q (mcbs s i) \<and> (q h \<noteq> [] \<longrightarrow> mb_state (mcbs s i) \<noteq> 3))
      | Mut i \<Rightarrow> cb_type s h \<in> {TCB, MUCB} \<and> (cb_type s h = MUCB \<longrightarrow>
          (if mu_level (mucbs s i) = 0 then q h = []
           else \<exists>ow. mu_owner (mucbs s i) = Some ow \<and> ow \<notin> X \<and> ow \<noteq> idle_TCB \<and> ow \<notin> set (q h)))
      | _ \<Rightarrow> True)"

definition obj_same :: "kernel \<Rightarrow> kernel \<Rightarrow> ptr \<Rightarrow> bool" where
  "obj_same s s' h \<longleftrightarrow> cb_type s' h = cb_type s h \<and>
     (case h of
        Sem i \<Rightarrow> scbs s' i = scbs s i
      | Mbx i \<Rightarrow> mcbs s' i = mcbs s i
      | Mut i \<Rightarrow> mucbs s' i = mucbs s i
      | _ \<Rightarrow> True)"

lemma obj_ok_simps:
  "obj_ok X q s (Sem i) \<longleftrightarrow> cb_type s (Sem i) \<in> {TCB, SCB} \<and>
     (cb_type s (Sem i) = SCB \<longrightarrow> q (Sem i) \<noteq> [] \<longrightarrow> tokens (scbs s i) = 0)"
  "obj_ok X q s (Mbx i) \<longleftrightarrow> cb_type s (Mbx i) \<in> {TCB, MCB} \<and>
     (cb_type s (Mbx i) = MCB \<longrightarrow>
        mbx_wf (Mbx i) q (mcbs s i) \<and> (q (Mbx i) \<noteq> [] \<longrightarrow> mb_state (mcbs s i) \<noteq> 3))"
  "obj_ok X q s (Mut i) \<longleftrightarrow> cb_type s (Mut i) \<in> {TCB, MUCB} \<and>
     (cb_type s (Mut i) = MUCB \<longrightarrow>
       (if mu_level (mucbs s i) = 0 then q (Mut i) = []
        else \<exists>ow. mu_owner (mucbs s i) = Some ow \<and> ow \<notin> X \<and> ow \<noteq> idle_TCB \<and> ow \<notin> set (q (Mut i))))"
  "obj_ok X q s Rdy" "obj_ok X q s Dly" "obj_ok X q s (Task t)"
  by (simp_all add: obj_ok_def)

lemma obj_same_simps:
  "obj_same s s' (Sem i) \<longleftrightarrow> cb_type s' (Sem i) = cb_type s (Sem i) \<and> scbs s' i = scbs s i"
  "obj_same s s' (Mbx i) \<longleftrightarrow> cb_type s' (Mbx i) = cb_type s (Mbx i) \<and> mcbs s' i = mcbs s i"
  "obj_same s s' (Mut i) \<longleftrightarrow> cb_type s' (Mut i) = cb_type s (Mut i) \<and> mucbs s' i = mucbs s i"
  by (simp_all add: obj_same_def)

lemma obj_ok_mono:
  assumes ok: "obj_ok X q s h" and same: "obj_same s s' h" and sub: "live s h \<Longrightarrow> set (q' h) \<subseteq> set (q h)"
    and X: "X' \<subseteq> X"
  shows "obj_ok X' q' s' h"
proof -
  have nil: "live s h \<Longrightarrow> q h = [] \<Longrightarrow> q' h = []"
    using sub by auto
  show ?thesis
  proof (cases h)
    case (Sem i)
    with ok same nil show ?thesis
      by (auto simp: obj_ok_simps obj_same_simps live_def)
  next
    case (Mbx i)
    with ok same nil show ?thesis
      by (auto simp: obj_ok_simps obj_same_simps live_def mbx_wf_def)
  next
    case (Mut i)
    have "ow \<notin> set (q h) \<Longrightarrow> live s h \<Longrightarrow> ow \<notin> set (q' h)" for ow
      using sub by auto
    with Mut ok same nil X show ?thesis
      by (auto simp: obj_ok_simps obj_same_simps live_def split: if_splits)
  qed (simp_all add: obj_ok_simps)
qed

text \<open>A post of an interrupt names a semaphore or a task; mailbox posts are not covered.\<close>

definition psq_ok :: "nat set \<Rightarrow> kernel \<Rightarrow> bool" where
  "psq_ok X s \<longleftrightarrow> psring.wf (os_psq s) \<and> (\<forall>e \<in> set (posts s). post_ok X s e \<and> post_plain e)"

text \<open>Entry \<open>k\<close> of the table of active tasks holds a task that is not dead and has the number \<open>k + 1\<close>.\<close>

definition act_ok :: "nat set \<Rightarrow> kernel \<Rightarrow> bool" where
  "act_ok X s \<longleftrightarrow> length (os_active_TCB s) < 255 \<and>
     (\<forall>k < length (os_active_TCB s). \<forall>t. os_active_TCB s ! k = Some t \<longrightarrow>
        t \<notin> X \<and> t \<noteq> idle_TCB \<and> unat (task_id (tcbs s t)) = k + 1)"

definition kinv :: "nat set \<Rightarrow> (ptr \<Rightarrow> nat list) \<Rightarrow> (nat \<times> nat) list \<Rightarrow> nat \<Rightarrow> kernel \<Rightarrow> bool" where
  "kinv X q d n s \<longleftrightarrow> sched X q d n s \<and> (\<forall>h. obj_ok X q s h) \<and> psq_ok X s \<and> act_ok X s \<and>
     prio_of s idle_TCB = 0 \<and> task_id (tcbs s idle_TCB) = 255"

lemma kinvD:
  assumes "kinv X q d n s"
  shows "sched X q d n s" "krun X q d (Some n) s" "top_prio q n s" "obj_ok X q s h" "psq_ok X s" "act_ok X s"
    "prio_of s idle_TCB = 0" "task_id (tcbs s idle_TCB) = 255"
  using assms by (simp_all add: kinv_def sched_def)

lemma psq_ok_cong:
  "psq_ok X s \<Longrightarrow> os_psq s' = os_psq s \<Longrightarrow> cb_type s' = cb_type s \<Longrightarrow> X' \<subseteq> X \<Longrightarrow> psq_ok X' s'"
proof -
  assume a: "psq_ok X s" "os_psq s' = os_psq s" "cb_type s' = cb_type s" "X' \<subseteq> X"
  have "post_ok X s e \<Longrightarrow> post_ok X' s' e" for e
    using a(3,4) by (cases "(X, s, e)" rule: post_ok.cases) auto
  with a show ?thesis
    by (auto simp: psq_ok_def)
qed

lemma act_ok_cong:
  assumes "act_ok X s" "os_active_TCB s' = os_active_TCB s" "\<And>t. task_id (tcbs s' t) = task_id (tcbs s t)" "X' \<subseteq> X"
  shows "act_ok X' s'"
  using assms unfolding act_ok_def by fastforce

text \<open>
  The general step: at most the object \<open>g\<close> has changed, all other waiting lists have only lost
  tasks.
\<close>

lemma kinv_step:
  assumes k: "kinv X q d n s" and s': "sched X q' d' n' s'"
    and fr: "oframe (F s) s'" and same: "os_psq (F s) = os_psq s" "os_active_TCB (F s) = os_active_TCB s"
      "\<And>t. task_id (tcbs (F s) t) = task_id (tcbs s t)"
    and cb: "cb_type s' = cb_type s" and idle: "prio_of s' idle_TCB = 0"
    and oth: "\<And>h. h \<noteq> g \<Longrightarrow> obj_same s (F s) h" "\<And>h. live s h \<Longrightarrow> h \<noteq> g \<Longrightarrow> h \<noteq> Rdy \<Longrightarrow> set (q' h) \<subseteq> set (q h)"
    and g: "obj_ok X q' s' g"
  shows "kinv X q' d' n' s'"
proof -
  have same': "obj_same s s' h" if "h \<noteq> g" for h
    using oth(1) [OF that] fr cb by (auto simp: obj_same_def oframe_def split: ptr.split)
  have "obj_ok X q' s' h" for h
  proof (cases "h = g \<or> h = Rdy")
    case True
    with g show ?thesis
      using obj_ok_simps(4) by auto
  next
    case False
    show ?thesis
    proof (rule obj_ok_mono [OF kinvD(4) [OF k]])
      show "obj_same s s' h"
        by (rule same') (use False in blast)
      show "set (q' h) \<subseteq> set (q h)" if "live s h"
        by (rule oth(2) [OF that]) (use False in blast)+
    qed simp
  qed
  moreover have "psq_ok X s'"
    using psq_ok_cong [OF kinvD(5) [OF k]] fr same cb by (simp add: oframe_def)
  moreover have "act_ok X s'"
    using act_ok_cong [OF kinvD(6) [OF k]] fr same by (simp add: oframe_def)
  ultimately show ?thesis
    using s' idle fr same kinvD(8) [OF k] by (simp add: kinv_def oframe_def)
qed

lemma kinv_frame:
  assumes k: "kinv X q d n s" and s': "sched X q' d' n' s'" and fr: "oframe s s'"
    and cb: "cb_type s' = cb_type s" and idle: "prio_of s' idle_TCB = 0"
    and sub: "\<And>h. live s h \<Longrightarrow> h \<noteq> Rdy \<Longrightarrow> set (q' h) \<subseteq> set (q h)"
  shows "kinv X q' d' n' s'"
  by (rule kinv_step [where F = "\<lambda>s. s" and g = Rdy, OF k s' fr])
    (use cb idle sub in \<open>auto simp: obj_same_def obj_ok_def split: ptr.split\<close>)

text \<open>Tasks in a waiting list are neither the running task nor the idle demon.\<close>

lemma waiting_not:
  assumes k: "krun X q d (Some n) s" and h: "live s h" "h \<noteq> Rdy" and t: "t \<in> set (q h)"
  shows "t \<noteq> n" and "t \<noteq> idle_TCB" and "t \<notin> X"
proof -
  show "t \<noteq> n"
    using krun_run_unqueued(1) [OF k] h t by (auto simp: unqueued_def)
  have "idle_TCB \<in> set (q Rdy) \<Longrightarrow> t \<noteq> idle_TCB"
    using lists_invD(7) [OF krunD(1) [OF k] h(1) live_Rdy h(2)] t by auto
  then show "t \<noteq> idle_TCB"
    using krunD(13) [OF k] \<open>t \<noteq> n\<close> by auto
  show "t \<notin> X"
    by (rule krunD(6) [OF k h(1) t])
qed

section \<open>Semaphores\<close>

text \<open>A call ends without a fault, in a state that satisfies the invariant.\<close>

definition serves :: "nat set \<Rightarrow> ('a \<times> kernel) option \<Rightarrow> bool" where
  "serves X r \<longleftrightarrow> (\<exists>v s' q' d' n'. r = Some (v, s') \<and> kinv X q' d' n' s')"

lemma servesI: "r = Some (v, s') \<Longrightarrow> kinv X q' d' n' s' \<Longrightarrow> serves X r"
  by (auto simp: serves_def)

lemma serves_bind:
  "serves X r \<Longrightarrow> (\<And>v s'. \<exists>w. f (v, s') = Some (w, s')) \<Longrightarrow> serves X (Option.bind r f)"
  unfolding serves_def by force

lemma serves_map: "serves X r \<Longrightarrow> serves X (map_option (\<lambda>(v, s'). (g v, s')) r)"
  unfolding serves_def by force

lemma kframe_idle: "kframe (F s) s' \<Longrightarrow> prio_of (F s) idle_TCB = 0 \<Longrightarrow> prio_of s' idle_TCB = 0"
  by (simp add: kframe_prio)

lemma sem_init_serves:
  assumes k: "kinv X q d n s" and i: "cb_type s (Sem i) = TCB"
  shows "\<exists>q'. kinv X q' d n (rt_sem_init s i c)"
proof -
  let ?s = "rt_sem_init s i c" and ?q = "q(Sem i := [])"
  have nl: "\<not> live s (Sem i)"
    using i by (simp add: live_def)
  have s': "sched X ?q d n ?s"
    by (rule rt_sem_init_sched [OF kinvD(1) [OF k] nl])
  have "obj_ok X ?q ?s h" for h
  proof (cases "h = Sem i")
    case True
    then show ?thesis
      by (simp add: obj_ok_simps rt_sem_init_def)
  next
    case False
    show ?thesis
      by (rule obj_ok_mono [OF kinvD(4) [OF k]])
        (use False in \<open>auto simp: obj_same_def rt_sem_init_def split: ptr.split\<close>)
  qed
  moreover have "post_ok X s e \<Longrightarrow> post_ok X ?s e" for e
    by (cases "(X, s, e)" rule: post_ok.cases) (auto simp: rt_sem_init_def)
  then have "psq_ok X ?s"
    using kinvD(5) [OF k] by (auto simp: psq_ok_def rt_sem_init_def)
  moreover have "act_ok X ?s"
    by (rule act_ok_cong [OF kinvD(6) [OF k]]) (simp_all add: rt_sem_init_def)
  ultimately have "kinv X ?q d n ?s"
    using s' kinvD(7,8) [OF k] by (simp add: kinv_def rt_sem_init_def)
  then show ?thesis
    by blast
qed

lemma sem_wait_serves:
  assumes k: "kinv X q d n s" and i: "cb_type s (Sem i) = SCB" and n: "run s = Some n" "n \<noteq> idle_TCB"
  shows "serves X (rt_sem_wait s i timeout)"
proof (cases "tokens (scbs s i) = 0")
  case False
  then have "q (Sem i) = []"
    using kinvD(4) [OF k, of "Sem i"] i by (auto simp: obj_ok_simps)
  moreover note op = rt_sem_wait_token [OF False, of timeout]
  ultimately show ?thesis
    using kinvD(1,7) [OF k] i
    by (intro servesI [OF op] kinv_step [where F = "\<lambda>s. s\<lparr>scbs := (scbs s)(i := (scbs s i)\<lparr>tokens := tokens (scbs s i) - 1\<rparr>)\<rparr>"
        and g = "Sem i", OF k])
      (auto simp: obj_same_def obj_ok_simps sched_def split: ptr.split)
next
  case True
  show ?thesis
  proof (cases "timeout = 0")
    case True
    with \<open>tokens (scbs s i) = 0\<close> have "rt_sem_wait s i timeout = Some (OS_R_TMO, s)"
      by (simp add: rt_sem_wait_def)
    with k show ?thesis
      by (rule servesI [rotated])
  next
    case False
    from rt_sem_wait_block [OF kinvD(1) [OF k] i True n False] obtain s' where
      op: "rt_sem_wait s i timeout = Some (OS_R_TMO, s')"
      and s': "sched X (q(Sem i := ins_prio (prio_of s) n (q (Sem i)), Rdy := tl (q Rdy))) (dly_wait n timeout d) (hd (q Rdy)) s'"
      and f: "kframe s s'"
      by blast
    have "kinv X (q(Sem i := ins_prio (prio_of s) n (q (Sem i)), Rdy := tl (q Rdy))) (dly_wait n timeout d) (hd (q Rdy)) s'"
      by (rule kinv_step [where F = "\<lambda>s. s" and g = "Sem i", OF k s' kframe_oframe [OF f]])
        (use True i kframeD [OF f] kframe_prio [OF f] kinvD(7) [OF k] in \<open>auto simp: obj_same_def obj_ok_simps split: ptr.split\<close>)
    with op show ?thesis
      by (rule servesI)
  qed
qed

lemma sem_send_serves:
  assumes k: "kinv X q d n s" and i: "cb_type s (Sem i) = SCB" and n: "run s = Some n"
  shows "serves X (rt_sem_send s i)"
proof (cases "q (Sem i)")
  case Nil
  note op = rt_sem_send_empty [OF kinvD(2) [OF k] i Nil]
  show ?thesis
    using kinvD(1,7) [OF k] i Nil
    by (intro servesI [OF op] kinv_step [where F = "\<lambda>s. s\<lparr>scbs := (scbs s)(i := (scbs s i)\<lparr>tokens := tokens (scbs s i) + 1\<rparr>)\<rparr>"
        and g = "Sem i", OF k])
      (auto simp: obj_same_def obj_ok_simps sched_def split: ptr.split)
next
  case (Cons t ts)
  from rt_sem_send_waiting [OF kinvD(1) [OF k] i Cons n] obtain s' where
    op: "rt_sem_send s i = Some (OS_R_OK, s')"
    and s': "sched X (disp_q (prio_of s) n t (q(Sem i := ts))) (rmv_dly t d) (disp_run (prio_of s) n t) s'"
    and f: "kframe (rt_ret_val t 1 s) s'"
    by blast
  have "kinv X (disp_q (prio_of s) n t (q(Sem i := ts))) (rmv_dly t d) (disp_run (prio_of s) n t) s'"
  proof (rule kinv_frame [OF k s'])
    show "oframe s s'"
      using kframe_oframe [OF f] by (simp add: oframe_def rt_ret_val_def)
  qed (use kframeD [OF f] kframe_prio [OF f] kinvD(7) [OF k] Cons in \<open>auto simp: rt_ret_val_def disp_q_def\<close>)
  with op show ?thesis
    by (rule servesI)
qed

lemma kinv_delete:
  assumes k: "kinv X q d n s" and s': "sched X q' d' n' s'" and fr: "oframe s s'"
    and cb: "cb_type s' = (cb_type s)(g := TCB)" and g: "g = Sem i \<or> g = Mut i" and idle: "prio_of s' idle_TCB = 0"
    and sub: "\<And>h. live s h \<Longrightarrow> h \<noteq> g \<Longrightarrow> h \<noteq> Rdy \<Longrightarrow> set (q' h) \<subseteq> set (q h)"
    and posts: "\<forall>e \<in> set (posts s). fst e \<noteq> g"
  shows "kinv X q' d' n' s'"
proof -
  have "obj_ok X q' s' h" for h
  proof (cases "h = g \<or> h = Rdy")
    case True
    with g cb show ?thesis
      by (auto simp: obj_ok_simps)
  next
    case False
    show ?thesis
    proof (rule obj_ok_mono [OF kinvD(4) [OF k]])
      show "obj_same s s' h"
        using False cb fr by (auto simp: obj_same_def oframe_def split: ptr.split)
      show "set (q' h) \<subseteq> set (q h)" if "live s h"
        by (rule sub [OF that]) (use False in blast)+
    qed simp
  qed
  moreover have "post_ok X s' e" if "post_ok X s e" "fst e \<noteq> g" for e
    using that cb by (cases "(X, s, e)" rule: post_ok.cases) auto
  then have "psq_ok X s'"
    using kinvD(5) [OF k] fr posts by (auto simp: psq_ok_def oframe_def)
  moreover have "act_ok X s'"
    using act_ok_cong [OF kinvD(6) [OF k]] fr by (simp add: oframe_def)
  ultimately show ?thesis
    using s' idle fr kinvD(8) [OF k] by (simp add: kinv_def oframe_def)
qed

lemma sem_delete_serves:
  assumes k: "kinv X q d n s" and i: "cb_type s (Sem i) = SCB" and n: "run s = Some n"
    and posts: "\<forall>e \<in> set (posts s). fst e \<noteq> Sem i"
  shows "serves X (rt_sem_delete s i)"
proof -
  from rt_sem_delete_sched [OF kinvD(2) [OF k] n i] obtain s' q' n' where
    op: "rt_sem_delete s i = Some (OS_R_OK, s')"
    and s': "sched X q' (cancel_all (q (Sem i)) d) n' s'"
    and f: "kframe (ret_all (q (Sem i)) (s\<lparr>cb_type := (cb_type s)(Sem i := TCB)\<rparr>)) s'"
    and q': "\<forall>h. h \<noteq> Rdy \<longrightarrow> q' h = (q(Sem i := [])) h"
    by blast
  have "kinv X q' (cancel_all (q (Sem i)) d) n' s'"
  proof (rule kinv_delete [OF k s' _ _ _ _ _ posts])
    show "oframe s s'"
      using kframe_oframe [OF f] by (simp add: oframe_def ret_all_def)
  qed (use kframeD [OF f] kframe_prio [OF f] kinvD(7) [OF k] q' in \<open>auto simp: ret_all_def\<close>)
  with op show ?thesis
    by (rule servesI)
qed

section \<open>Mutexes\<close>

lemma mut_init_serves:
  assumes k: "kinv X q d n s" and i: "cb_type s (Mut i) = TCB"
  shows "\<exists>q'. kinv X q' d n (rt_mut_init s i)"
proof -
  let ?s = "rt_mut_init s i" and ?q = "q(Mut i := [])"
  have nl: "\<not> live s (Mut i)"
    using i by (simp add: live_def)
  have s': "sched X ?q d n ?s"
    by (rule rt_mut_init_sched [OF kinvD(1) [OF k] nl])
  have "obj_ok X ?q ?s h" for h
  proof (cases "h = Mut i")
    case True
    then show ?thesis
      by (simp add: obj_ok_simps rt_mut_init_def)
  next
    case False
    show ?thesis
      by (rule obj_ok_mono [OF kinvD(4) [OF k]])
        (use False in \<open>auto simp: obj_same_def rt_mut_init_def split: ptr.split\<close>)
  qed
  moreover have "post_ok X s e \<Longrightarrow> post_ok X ?s e" for e
    by (cases "(X, s, e)" rule: post_ok.cases) (auto simp: rt_mut_init_def)
  then have "psq_ok X ?s"
    using kinvD(5) [OF k] by (auto simp: psq_ok_def rt_mut_init_def)
  moreover have "act_ok X ?s"
    by (rule act_ok_cong [OF kinvD(6) [OF k]]) (simp_all add: rt_mut_init_def)
  ultimately have "kinv X ?q d n ?s"
    using s' kinvD(7,8) [OF k] by (simp add: kinv_def rt_mut_init_def)
  then show ?thesis
    by blast
qed

lemma mut_wait_serves:
  assumes k: "kinv X q d n s" and i: "cb_type s (Mut i) = MUCB" and n: "run s = Some n" "n \<noteq> idle_TCB"
    and nest: "mu_owner (mucbs s i) = Some n \<Longrightarrow> mu_level (mucbs s i) + 1 \<noteq> 0"
  shows "serves X (rt_mut_wait s i timeout)"
proof -
  note O = kinvD(4) [OF k, of "Mut i", unfolded obj_ok_simps]
  note R = krun_run_unqueued [OF kinvD(2) [OF k]]
  have nq: "n \<notin> set (q (Mut i))"
    using R(1) i by (auto simp: unqueued_def live_def)
  consider "mu_level (mucbs s i) = 0" | "mu_level (mucbs s i) \<noteq> 0" "mu_owner (mucbs s i) = Some n"
    | ow where "mu_level (mucbs s i) \<noteq> 0" "mu_owner (mucbs s i) = Some ow" "ow \<noteq> n" "ow \<notin> X" "ow \<noteq> idle_TCB"
      "ow \<notin> set (q (Mut i))"
    using O i by (cases "mu_level (mucbs s i) = 0") auto
  then show ?thesis
  proof cases
    case 1
    note op = rt_mut_wait_free [OF 1 n(1), of timeout]
    show ?thesis
      using kinvD(1,7) [OF k] i 1 O R(3) n
      by (intro servesI [OF op] kinv_step [where g = "Mut i" and F = "upd_mut i
          (\<lambda>m. m\<lparr>mu_owner := Some n, mu_prio := prio_of s n, mu_level := 1\<rparr>)", OF k])
        (auto simp: obj_same_def obj_ok_simps sched_def split: ptr.split)
  next
    case 2
    then have "mu_owner (mucbs s i) = run s"
      using n by simp
    note op = rt_mut_wait_own [OF 2(1) this, of timeout]
    show ?thesis
      using kinvD(1,7) [OF k] i 2 O R(3) n nest
      by (intro servesI [OF op] kinv_step [where g = "Mut i" and F = "upd_mut i (mu_level_update (\<lambda>l. l + 1))", OF k])
        (auto simp: obj_same_def obj_ok_simps sched_def split: ptr.split)
  next
    case 3
    show ?thesis
    proof (cases "timeout = 0")
      case True
      have "rt_mut_wait s i timeout = Some (OS_R_TMO, s)"
        using 3 True n by (simp add: rt_mut_wait_def)
      with k show ?thesis
        by (rule servesI [rotated])
    next
      case False
      let ?q1 = "inherit_q s i ow n q"
      let ?q' = "?q1(Mut i := ins_prio (inherit s i ow n) n (?q1 (Mut i)), Rdy := tl (?q1 Rdy))"
      from rt_mut_wait_block [OF kinvD(1) [OF k] i 3(1-4) n False] obtain s' where
        op: "rt_mut_wait s i timeout = Some (OS_R_TMO, s')"
        and s': "sched X ?q' (dly_wait n timeout d) (hd (?q1 Rdy)) s'"
        and f: "kframe (set_prio ow (inherit s i ow n ow) s) s'"
        unfolding Let_def by blast
      have sets: "set (?q1 h) = set (q h)" if "live s h" for h
        using lists_invD(4) [OF krunD(1) [OF kinvD(2) [OF k]] that] by (simp add: inherit_q_def)
      have li: "live s (Mut i)"
        using i by (simp add: live_def)
      have "kinv X ?q' (dly_wait n timeout d) (hd (?q1 Rdy)) s'"
        by (rule kinv_step [where F = "\<lambda>s. set_prio ow (inherit s i ow n ow) s" and g = "Mut i", OF k s' kframe_oframe [OF f]])
          (use 3 i kframeD [OF f] kframe_prio [OF f] kinvD(7) [OF k] sets sets [OF li] in
            \<open>auto simp: obj_same_def obj_ok_simps split: ptr.split\<close>)
      with op show ?thesis
        by (rule servesI)
    qed
  qed
qed

lemma hand_q_other: "h \<noteq> Rdy \<Longrightarrow> hand_q pr n t q h = q h"
  by (simp add: hand_q_def disp_q_def)

lemma mut_release_serves:
  assumes k: "kinv X q d n s" and i: "cb_type s (Mut i) = MUCB" and n: "run s = Some n" "n \<noteq> idle_TCB"
  shows "serves X (rt_mut_release s i)"
proof -
  note O = kinvD(4) [OF k, of "Mut i", unfolded obj_ok_simps]
  consider "mu_level (mucbs s i) = 0 \<or> mu_owner (mucbs s i) \<noteq> run s"
    | "mu_level (mucbs s i) \<notin> {0, 1}" "mu_owner (mucbs s i) = Some n"
    | "mu_level (mucbs s i) = 1" "mu_owner (mucbs s i) = Some n"
    using n by auto
  then show ?thesis
  proof cases
    case 1
    from rt_mut_release_other [OF this] k show ?thesis
      by (rule servesI)
  next
    case 2
    then have "mu_owner (mucbs s i) = run s"
      using n by simp
    note op = rt_mut_release_nested [OF 2(1) this]
    have "mu_level (mucbs s i) - 1 \<noteq> 0"
      using 2(1) by (metis diff_eq_diff_eq diff_self insertCI)
    then show ?thesis
      using kinvD(1,7) [OF k] i 2 O n
      by (intro servesI [OF op] kinv_step [where g = "Mut i" and F = "upd_mut i (mu_level_update (\<lambda>l. l - 1))", OF k])
        (auto simp: obj_same_def obj_ok_simps sched_def split: ptr.split)
  next
    case 3
    show ?thesis
    proof (cases "q (Mut i)")
      case Nil
      from rt_mut_release_idle [OF kinvD(2) [OF k] i Nil 3 n] obtain s' q' n' where
        op: "rt_mut_release s i = Some (OS_R_OK, s')" and s': "sched X q' d n' s'"
        and f: "kframe (mut_freed s i n) s'" and q': "\<forall>h. h \<noteq> Rdy \<longrightarrow> q' h = q h"
        by blast
      have "kinv X q' d n' s'"
        by (rule kinv_step [where F = "\<lambda>s. mut_freed s i n" and g = "Mut i", OF k s' kframe_oframe [OF f]])
          (use i n Nil q' kframeD [OF f] kframe_prio [OF f] kinvD(7) [OF k] in
            \<open>auto simp: obj_same_def obj_ok_simps mut_freed_def split: ptr.split\<close>)
      with op show ?thesis
        by (rule servesI)
    next
      case (Cons t ts)
      let ?pr = "(prio_of s)(n := mu_prio (mucbs s i))" and ?q = "q(Mut i := ts)"
      let ?F = "\<lambda>s. upd_mut i (\<lambda>m. m\<lparr>mu_level := 1, mu_owner := Some t, mu_prio := prio_of s t\<rparr>)
        (rt_ret_val t 0 (mut_freed s i n))"
      from rt_mut_release_waiting [OF kinvD(2) [OF k] i Cons 3 n] obtain s' where
        op: "rt_mut_release s i = Some (OS_R_OK, s')"
        and s': "sched X (hand_q ?pr n t ?q) (rmv_dly t d) (hand_run ?pr n t ?q) s'"
        and f: "kframe (?F s) s'"
        by blast
      have l: "live s (Mut i)"
        using i by (simp add: live_def)
      have W: "t \<noteq> n" "t \<noteq> idle_TCB" "t \<notin> X" and nt: "t \<notin> set ts"
        using waiting_not [OF kinvD(2) [OF k] l, of t] Cons lists_invD(4) [OF krunD(1) [OF kinvD(2) [OF k]] l] by auto
      have "kinv X (hand_q ?pr n t ?q) (rmv_dly t d) (hand_run ?pr n t ?q) s'"
        by (rule kinv_step [where F = ?F and g = "Mut i", OF k s' kframe_oframe [OF f]])
          (use i n W nt kframeD [OF f] kframe_prio [OF f] kinvD(7) [OF k] in
            \<open>auto simp: obj_same_def obj_ok_simps mut_freed_def hand_q_other rt_ret_val_def split: ptr.split\<close>)
      with op show ?thesis
        by (rule servesI)
    qed
  qed
qed

lemma mut_delete_serves:
  assumes k: "kinv X q d n s" and i: "cb_type s (Mut i) = MUCB" and n: "run s = Some n"
  shows "serves X (rt_mut_delete s i)"
proof -
  note O = kinvD(4) [OF k]
  have ok: "mut_ok X q s"
    unfolding mut_ok_def
  proof (intro allI impI)
    fix j assume "cb_type s (Mut j) = MUCB"
    with O [of "Mut j"] show "case mu_level (mucbs s j) = 0 of True \<Rightarrow> q (Mut j) = []
       | False \<Rightarrow> (case mu_owner (mucbs s j) of None \<Rightarrow> False | Some ow \<Rightarrow> ow \<notin> X \<and> ow \<notin> set (q (Mut j)))"
      by (cases "mu_level (mucbs s j) = 0") (auto simp: obj_ok_simps)
  qed
  from rt_mut_delete_sched [OF kinvD(2) [OF k] i ok n] obtain s' q' d' n' where
    op: "rt_mut_delete s i = Some (OS_R_OK, s')" and s': "sched X q' d' n' s'"
    and q': "\<forall>h. live s h \<longrightarrow> h \<noteq> Rdy \<longrightarrow> set (q' h) = set ((q(Mut i := [])) h)"
    and f: "oframe s s'" "cb_type s' = (cb_type s)(Mut i := TCB)"
    and pr: "\<forall>t. mu_level (mucbs s i) = 0 \<or> mu_owner (mucbs s i) \<noteq> Some t \<longrightarrow> prio_of s' t = prio_of s t"
    by blast
  have posts: "\<forall>e \<in> set (posts s). fst e \<noteq> Mut i"
  proof
    fix e assume "e \<in> set (posts s)"
    then have "post_ok X s e"
      using kinvD(5) [OF k] by (simp add: psq_ok_def)
    then show "fst e \<noteq> Mut i"
      by (cases "(X, s, e)" rule: post_ok.cases) auto
  qed
  have "mu_level (mucbs s i) = 0 \<or> mu_owner (mucbs s i) \<noteq> Some idle_TCB"
    using O [of "Mut i"] i by (cases "mu_level (mucbs s i) = 0") (auto simp: obj_ok_simps)
  then have idle: "prio_of s' idle_TCB = 0"
    using spec [OF pr, of idle_TCB] kinvD(7) [OF k] by simp
  have "kinv X q' d' n' s'"
    by (rule kinv_delete [OF k s' f _ idle _ posts]) (use q' in simp_all)
  with op show ?thesis
    by (rule servesI)
qed

section \<open>Tasks, delays and signals\<close>

definition ends :: "nat set \<Rightarrow> kernel option \<Rightarrow> bool" where
  "ends X r \<longleftrightarrow> (\<exists>s' q' d' n'. r = Some s' \<and> kinv X q' d' n' s')"

lemma endsI: "r = Some s' \<Longrightarrow> kinv X q' d' n' s' \<Longrightarrow> ends X r"
  by (auto simp: ends_def)

lemma serves_ends: "ends X r \<Longrightarrow> serves X (map_option (\<lambda>s'. (v, s')) r)"
  by (auto simp: ends_def serves_def)

lemma dly_wait_ends:
  assumes k: "kinv X q d n s" and n: "run s = Some n" "n \<noteq> idle_TCB"
  shows "ends X (rt_dly_wait s dt)"
proof (cases "dt = 0")
  case True
  with k show ?thesis
    by (intro endsI) (simp_all add: rt_dly_wait_zero)
next
  case False
  from rt_dly_wait_blocks [OF kinvD(1) [OF k] n False] obtain s' where op: "rt_dly_wait s dt = Some s'"
    and s': "sched X (q(Rdy := tl (q Rdy))) (dly_wait n dt d) (hd (q Rdy)) s'" and f: "kframe s s'"
    by blast
  have "kinv X (q(Rdy := tl (q Rdy))) (dly_wait n dt d) (hd (q Rdy)) s'"
    by (rule kinv_frame [OF k s' kframe_oframe [OF f]])
      (use kframeD(4) [OF f] kframe_prio [OF f] kinvD(7) [OF k] in auto)
  with op show ?thesis
    by (rule endsI)
qed

lemma tsk_pass_ends:
  assumes k: "kinv X q d n s" and n: "run s = Some n" "n \<noteq> idle_TCB" and p: "prio_of s n \<noteq> 0"
  shows "ends X (rt_tsk_pass s)"
proof -
  obtain t ts where q: "q Rdy = t # ts"
    using krun_Rdy_nonempty [OF kinvD(2) [OF k]] n by (cases "q Rdy") auto
  show ?thesis
  proof (cases "prio_of s t = prio_of s n")
    case False
    from rt_tsk_pass_other [OF kinvD(1) [OF k] n(1) q False] k show ?thesis
      by (rule endsI)
  next
    case True
    then have "t \<noteq> idle_TCB"
      using p kinvD(7) [OF k] by auto
    from rt_tsk_pass_same [OF kinvD(1) [OF k] n(1) q True this] obtain s' where op: "rt_tsk_pass s = Some s'"
      and s': "sched X (q(Rdy := ins_prio (prio_of s) n ts)) d t s'" and f: "kframe s s'"
      by blast
    have "kinv X (q(Rdy := ins_prio (prio_of s) n ts)) d t s'"
      by (rule kinv_frame [OF k s' kframe_oframe [OF f]])
        (use kframeD(4) [OF f] kframe_prio [OF f] kinvD(7) [OF k] in auto)
    with op show ?thesis
      by (rule endsI)
  qed
qed

lemma tsk_prio_serves:
  assumes k: "kinv X q d n s" and n: "run s = Some n" "n \<noteq> idle_TCB"
    and t: "prio_target s tid = Some t" "t \<notin> X" "t \<noteq> idle_TCB" and p: "p \<noteq> 0"
  shows "serves X (rt_tsk_prio s tid p)"
proof -
  have "prio_of s idle_TCB < p"
    using p kinvD(7) [OF k] by (simp add: word_gt_0)
  from rt_tsk_prio_sched [OF kinvD(1) [OF k] n t this] obtain s' q' n' where
    op: "rt_tsk_prio s tid p = Some (OS_R_OK, s')" and s': "sched X q' d n' s'"
    and f: "kframe (set_prio t p s) s'" and q': "same_tasks s n q n' q'"
    by blast
  have "kinv X q' d n' s'"
  proof (rule kinv_frame [OF k s'])
    show "oframe s s'"
      using kframe_oframe [OF f] by (simp add: oframe_def)
    show "prio_of s' idle_TCB = 0"
      using kframe_prio [OF f] t(3) kinvD(7) [OF k] by simp
  qed (use kframeD(4) [OF f] q' in \<open>auto simp: same_tasks_def\<close>)
  with op show ?thesis
    by (rule servesI)
qed

lemma evt_wait_serves:
  assumes k: "kinv X q d n s" and n: "run s = Some n" "n \<noteq> idle_TCB"
  shows "serves X (rt_evt_wait s f timeout a)"
proof -
  let ?ready = "if a then events (tcbs s n) AND f = f else events (tcbs s n) AND f \<noteq> 0"
  let ?wait = "upd_tcb n (waits_update (\<lambda>_. f)) s"
  consider "?ready" | "\<not> ?ready" "timeout = 0" | "\<not> ?ready" "timeout \<noteq> 0"
    by blast
  then show ?thesis
  proof cases
    case 1
    obtain g where g: "rt_evt_wait s f timeout a = Some (OS_R_EVT, upd_tcb n g s)"
      "\<And>tc. t_state (g tc) = t_state tc" "\<And>tc. prio (g tc) = prio tc" "\<And>tc. task_id (g tc) = task_id tc"
      using 1 n that [of "events_update (\<lambda>e. e AND NOT f)"]
        that [of "\<lambda>tc. tc\<lparr>waits := events (tcbs s n) AND f, events := events (tcbs s n) AND NOT f\<rparr>"]
      by (auto simp: rt_evt_wait_def Let_def split: if_splits)
    have s': "sched X q d n (upd_tcb n g s)"
      using kinvD(2,3) [OF k] g by (simp add: sched_def krun_tcbs top_prio_def)
    have "kinv X q d n (upd_tcb n g s)"
      by (rule kinv_frame [OF k s']) (use g kinvD(7) [OF k] in \<open>auto simp: oframe_def\<close>)
    with g(1) show ?thesis
      by (rule servesI)
  next
    case 2
    have s': "sched X q d n ?wait"
      using kinvD(2,3) [OF k] by (auto simp: sched_def krun_tcbs top_prio_def)
    have "kinv X q d n ?wait"
      by (rule kinv_frame [OF k s']) (use kinvD(7) [OF k] in \<open>auto simp: oframe_def\<close>)
    moreover have "rt_evt_wait s f timeout a = Some (OS_R_TMO, ?wait)"
      using 2 n by (auto simp: rt_evt_wait_def rt_block_def Let_def split: if_splits)
    ultimately show ?thesis
      by (rule servesI [rotated])
  next
    case 3
    have "if a then events (tcbs s n) AND f \<noteq> f else events (tcbs s n) AND f = 0"
      using 3(1) by (auto split: if_splits)
    from rt_evt_wait_block [OF kinvD(1) [OF k] n 3(2) this] obtain s' where
      op: "rt_evt_wait s f timeout a = Some (OS_R_TMO, s')"
      and s': "sched X (q(Rdy := tl (q Rdy))) (dly_wait n timeout d) (hd (q Rdy)) s'" and fr: "kframe ?wait s'"
      by blast
    have "kinv X (q(Rdy := tl (q Rdy))) (dly_wait n timeout d) (hd (q Rdy)) s'"
    proof (rule kinv_frame [OF k s'])
      show "oframe s s'"
        using kframe_oframe [OF fr] by (simp add: oframe_def)
    qed (use kframeD(4) [OF fr] kframe_prio [OF fr] kinvD(7) [OF k] in auto)
    with op show ?thesis
      by (rule servesI)
  qed
qed

lemma active_slot_ok:
  assumes "act_ok X s" and "active_slot s tid = Some (Some t)"
  shows "t \<notin> X" "t \<noteq> idle_TCB" "unat (task_id (tcbs s t)) = unat tid" "lookup_tid s tid = Some t"
    "os_active_TCB s ! (unat tid - 1) = Some t" "0 < unat tid" "unat tid \<le> length (os_active_TCB s)"
proof -
  have tid: "0 < unat tid" "unat tid \<le> length (os_active_TCB s)" "os_active_TCB s ! (unat tid - 1) = Some t"
    using assms(2) by (auto simp: active_slot_def unat_gt_0 split: if_splits)
  have "unat tid - 1 < length (os_active_TCB s)"
    using tid by arith
  with assms(1) tid(3) have "t \<notin> X \<and> t \<noteq> idle_TCB \<and> unat (task_id (tcbs s t)) = unat tid - 1 + 1"
    unfolding act_ok_def by blast
  with tid show "t \<notin> X" "t \<noteq> idle_TCB" "unat (task_id (tcbs s t)) = unat tid"
    "os_active_TCB s ! (unat tid - 1) = Some t" "0 < unat tid" "unat tid \<le> length (os_active_TCB s)"
    by simp_all
  show "lookup_tid s tid = Some t"
    using assms(2) by (auto simp: active_slot_def lookup_tid_def split: if_splits)
qed

lemma evt_set_ends:
  assumes k: "kinv X q d n s" and n: "run s = Some n" and tid: "active_slot s tid \<noteq> None"
  shows "ends X (rt_evt_set s f tid)"
proof (cases "active_slot s tid")
  case None
  with tid show ?thesis
    by simp
next
  case (Some slot)
  show ?thesis
  proof (cases slot)
    case None
    with Some have "rt_evt_set s f tid = Some s"
      by (simp add: rt_evt_set_def)
    from this k show ?thesis
      by (rule endsI)
  next
    case (Some t)
    with \<open>active_slot s tid = Some slot\<close> have a: "active_slot s tid = Some (Some t)"
      by simp
    note A = active_slot_ok [OF kinvD(6) [OF k] a]
    show ?thesis
    proof (cases "snd (evt_post (tcbs s t) f)")
      case False
      let ?s = "upd_tcb t (events_update (\<lambda>e. e OR f)) s"
      have s': "sched X q d n ?s"
        using kinvD(2,3) [OF k] by (auto simp: sched_def krun_tcbs top_prio_def)
      have "kinv X q d n ?s"
        by (rule kinv_frame [OF k s']) (use kinvD(7) [OF k] in \<open>auto simp: oframe_def\<close>)
      with rt_evt_set_idle [OF a False] show ?thesis
        by (rule endsI)
    next
      case True
      from rt_evt_set_wakes [OF kinvD(1) [OF k] n a A(1) True] obtain s' where op: "rt_evt_set s f tid = Some s'"
        and s': "sched X (disp_q (prio_of s) n t q) (rmv_dly t d) (disp_run (prio_of s) n t) s'"
        and fr: "kframe (upd_tcb t (\<lambda>_. fst (evt_post (tcbs s t) f)) s) s'"
        by blast
      have "kinv X (disp_q (prio_of s) n t q) (rmv_dly t d) (disp_run (prio_of s) n t) s'"
      proof (rule kinv_frame [OF k s'])
        show "oframe s s'"
          using kframe_oframe [OF fr] by (simp add: oframe_def)
      qed (use kframeD(4) [OF fr] kframe_prio [OF fr] kinvD(7) [OF k] A(2) in \<open>auto simp: disp_q_def\<close>)
      with op show ?thesis
        by (rule endsI)
    qed
  qed
qed

lemma evt_clr_ends:
  assumes k: "kinv X q d n s" and tid: "active_slot s tid \<noteq> None"
  shows "ends X (rt_evt_clr s f tid)"
proof -
  have "kinv X q d n (upd_tcb t (events_update (\<lambda>e. e AND NOT f)) s)" for t
  proof -
    have s': "sched X q d n (upd_tcb t (events_update (\<lambda>e. e AND NOT f)) s)"
      using kinvD(2,3) [OF k] by (auto simp: sched_def krun_tcbs top_prio_def)
    show ?thesis
      by (rule kinv_frame [OF k s']) (use kinvD(7) [OF k] in \<open>auto simp: oframe_def\<close>)
  qed
  with k tid show ?thesis
    by (auto simp: ends_def rt_evt_clr_def split: option.split) blast+
qed

section \<open>Threads\<close>

text \<open>Taking a task out of the table of active tasks.\<close>

lemma act_ok_remove:
  assumes a: "act_ok X s" and t: "active_slot s tid = Some (Some t)"
    and s': "os_active_TCB s' = (os_active_TCB s)[unat tid - 1 := None]"
      "\<And>u. task_id (tcbs s' u) = task_id (tcbs s u)"
  shows "act_ok (insert t X) s'"
proof -
  note A = active_slot_ok [OF a t]
  have "u \<notin> insert t X \<and> u \<noteq> idle_TCB \<and> unat (task_id (tcbs s u)) = k + 1"
    if "k < length (os_active_TCB s)" "(os_active_TCB s)[unat tid - 1 := None] ! k = Some u" for k u
  proof -
    have k: "k \<noteq> unat tid - 1"
      using that A(6,7) by (cases "k = unat tid - 1") auto
    with that have "os_active_TCB s ! k = Some u"
      by simp
    with a that(1) have u: "u \<notin> X \<and> u \<noteq> idle_TCB \<and> unat (task_id (tcbs s u)) = k + 1"
      unfolding act_ok_def by blast
    moreover have "u \<noteq> t"
      using u k A(3,6) by auto
    ultimately show ?thesis
      by blast
  qed
  with a s' show ?thesis
    unfolding act_ok_def by simp
qed

lemma obj_ok_insert:
  assumes ok: "obj_ok X q s h" and same: "obj_same s s' h" and sub: "live s h \<Longrightarrow> set (q' h) \<subseteq> set (q h)"
    and own: "\<And>i. h = Mut i \<Longrightarrow> cb_type s h = MUCB \<Longrightarrow> mu_level (mucbs s i) \<noteq> 0 \<Longrightarrow> mu_owner (mucbs s i) \<noteq> Some t"
  shows "obj_ok (insert t X) q' s' h"
proof -
  have M: "obj_ok X q' s' h"
    by (rule obj_ok_mono [where q' = q', OF ok same _ subset_refl]) (rule sub)
  show ?thesis
  proof (cases h)
    case (Mut i)
    with M own [of i] same show ?thesis
      by (auto simp: obj_ok_simps obj_same_simps split: if_splits)
  qed (use M in \<open>simp_all add: obj_ok_simps\<close>)
qed

definition owns_nothing :: "nat \<Rightarrow> kernel \<Rightarrow> bool" where
  "owns_nothing t s \<longleftrightarrow> (\<forall>i. cb_type s (Mut i) = MUCB \<longrightarrow> mu_level (mucbs s i) \<noteq> 0 \<longrightarrow> mu_owner (mucbs s i) \<noteq> Some t)"

text \<open>A thread that can go: it owns no mutex, and no post is pending for it.\<close>

definition releases :: "nat \<Rightarrow> kernel \<Rightarrow> bool" where
  "releases t s \<longleftrightarrow> owns_nothing t s \<and> (\<forall>e \<in> set (posts s). fst e \<noteq> Task t)"

lemma psq_ok_insert:
  assumes "psq_ok X s" and "releases t s" and s': "os_psq s' = os_psq s" "cb_type s' = cb_type s"
  shows "psq_ok (insert t X) s'"
proof -
  have "post_ok (insert t X) s' e" if "post_ok X s e" "fst e \<noteq> Task t" for e
    using that s'(2) by (cases "(X, s, e)" rule: post_ok.cases) auto
  then show ?thesis
    using assms by (auto simp: psq_ok_def releases_def)
qed

lemma tsk_delete_other_serves:
  assumes k: "kinv X q d n s" and n: "run s = Some n"
    and tid: "active_slot s tid = Some (Some t)" "tid \<noteq> ucast (task_id (tcbs s n))" and t: "t \<noteq> n"
    and own: "releases t s"
  shows "serves (insert t X) (rt_tsk_delete s tid)"
proof -
  note A = active_slot_ok [OF kinvD(6) [OF k] tid(1)]
  have tid0: "tid \<noteq> 0"
    using A(6) by auto
  from rt_tsk_delete_other [OF kinvD(1) [OF k] n tid0 tid(2) A(4,1) t A(2)] obtain s' where
    op: "rt_tsk_delete s tid = Some (OS_R_OK, s')"
    and s': "sched (insert t X) (rmv_q t q) (rmv_dly t d) n s'"
    and f: "kframe (s\<lparr>os_active_TCB := (os_active_TCB s)[unat tid - 1 := None]\<rparr>) s'"
    by blast
  note F = kframeD [OF f]
  have "obj_ok (insert t X) (rmv_q t q) s' h" for h
    by (rule obj_ok_insert [OF kinvD(4) [OF k]])
      (use F own set_remove1_subset [of t "q h"] in
        \<open>auto simp: obj_same_def releases_def owns_nothing_def rmv_q_def split: ptr.split\<close>)
  moreover have "psq_ok (insert t X) s'"
    by (rule psq_ok_insert [OF kinvD(5) [OF k] own]) (use F in simp_all)
  moreover have "act_ok (insert t X) s'"
    by (rule act_ok_remove [OF kinvD(6) [OF k] tid(1)]) (use F in simp_all)
  ultimately have "kinv (insert t X) (rmv_q t q) (rmv_dly t d) n s'"
    using s' kframe_prio [OF f] F(14) kinvD(7,8) [OF k] by (simp add: kinv_def)
  with op show ?thesis
    by (rule servesI)
qed

lemma tsk_delete_self_kinv:
  assumes k: "kinv X q d n s" and n: "run s = Some n" "n \<noteq> idle_TCB"
    and tid: "tid = ucast (task_id (tcbs s n))"
  shows "\<exists>s'. rt_tsk_delete s tid = Some (OS_R_OK, s') \<and> kinv X (q(Rdy := tl (q Rdy))) d (hd (q Rdy)) s' \<and>
    state_of s' n = INACTIVE \<and>
    kframe (s\<lparr>os_active_TCB := (os_active_TCB s)[unat (task_id (tcbs s n)) - 1 := None], run := None\<rparr>) s'"
proof -
  let ?s = "s\<lparr>os_active_TCB := (os_active_TCB s)[unat (task_id (tcbs s n)) - 1 := None], run := None\<rparr>"
  from rt_tsk_delete_self [OF kinvD(1) [OF k] n] tid obtain s' where
    op: "rt_tsk_delete s tid = Some (OS_R_OK, s')"
    and s': "sched X (q(Rdy := tl (q Rdy))) d (hd (q Rdy)) s'" "state_of s' n = INACTIVE" and f: "kframe ?s s'"
    by blast
  note F = kframeD [OF f]
  have "obj_ok X (q(Rdy := tl (q Rdy))) s' h" for h
  proof (cases "h = Rdy")
    case False
    show ?thesis
      by (rule obj_ok_mono [OF kinvD(4) [OF k]]) (use False F in \<open>auto simp: obj_same_def split: ptr.split\<close>)
  qed (simp add: obj_ok_simps)
  moreover have "psq_ok X s'"
    by (rule psq_ok_cong [OF kinvD(5) [OF k]]) (use F in simp_all)
  moreover have "act_ok X s'"
  proof -
    have "u \<notin> X \<and> u \<noteq> idle_TCB \<and> unat (task_id (tcbs s u)) = k + 1"
      if "k < length (os_active_TCB s)" "(os_active_TCB s)[j := None] ! k = Some u" for j k u
      using that kinvD(6) [OF k] unfolding act_ok_def by (cases "k = j") auto
    then show ?thesis
      using kinvD(6) [OF k] F unfolding act_ok_def by simp
  qed
  ultimately have "kinv X (q(Rdy := tl (q Rdy))) d (hd (q Rdy)) s'"
    using s'(1) kframe_prio [OF f] F(14) kinvD(7,8) [OF k] by (simp add: kinv_def)
  with op s'(2) f show ?thesis
    by blast
qed

lemma tsk_delete_self_serves:
  assumes "kinv X q d n s" and "run s = Some n" "n \<noteq> idle_TCB" and "tid = ucast (task_id (tcbs s n))"
  shows "serves X (rt_tsk_delete s tid)"
proof -
  obtain s' where "rt_tsk_delete s tid = Some (OS_R_OK, s')" "kinv X (q(Rdy := tl (q Rdy))) d (hd (q Rdy)) s'"
    using tsk_delete_self_kinv [OF assms] by blast
  then show ?thesis
    by (rule servesI)
qed

text \<open>A control block that no thread uses: of a terminated thread, or never initialised.\<close>

definition fresh :: "nat set \<Rightarrow> nat \<Rightarrow> kernel \<Rightarrow> bool" where
  "fresh X t s \<longleftrightarrow> t \<noteq> idle_TCB \<and> (t \<in> X \<or> state_of s t = INACTIVE) \<and> Some t \<notin> set (os_active_TCB s)"

lemma fresh_unqueued:
  assumes k: "krun X q d (Some n) s" and t: "fresh X t s"
  shows "unqueued q s t" and "t \<notin> fst ` set d" and "t \<noteq> n"
proof -
  note D = krunD [OF k]
  have "qstate h \<noteq> INACTIVE" if "live s h" for h
    using cb_ok_hdr [OF lists_invD(1) [OF D(1)] that] that lists_invD(1) [OF D(1)]
    by (cases h) (auto simp: live_def cb_ok_def)
  then show "unqueued q s t"
    using t D(5,6) by (fastforce simp: fresh_def unqueued_def)
  show "t \<notin> fst ` set d"
    using t D(8,9) by (auto simp: fresh_def)
  show "t \<noteq> n"
    using t krun_run_unqueued(3,4) [OF k] by (auto simp: fresh_def)
qed

text \<open>A thread that has terminated itself and can go is as dead as one that another thread has terminated.\<close>

lemma kinv_bury:
  assumes k: "kinv X q d n s" and t: "fresh X t s" "releases t s"
  shows "kinv (insert t X) q d n s"
proof -
  note D = krunD [OF kinvD(2) [OF k]] and U = fresh_unqueued [OF kinvD(2) [OF k] t(1)]
  have "krun (insert t X) q d (Some n) s"
  proof (rule krunI)
    show "lists_inv (insert t X) q s"
      using lists_inv_mono [OF D(1)] by blast
  qed (use D U in \<open>auto simp: unqueued_def\<close>)
  moreover have "obj_ok (insert t X) q s h" for h
    by (rule obj_ok_insert [OF kinvD(4) [OF k]]) (use t(2) in \<open>auto simp: obj_same_def releases_def owns_nothing_def split: ptr.split\<close>)
  moreover have "psq_ok (insert t X) s"
    by (rule psq_ok_insert [OF kinvD(5) [OF k] t(2)]) simp_all
  moreover have "act_ok (insert t X) s"
    using kinvD(6) [OF k] t(1) nth_mem [of _ "os_active_TCB s"] unfolding act_ok_def fresh_def by (metis insertE)
  ultimately show ?thesis
    using kinvD(3,7,8) [OF k] by (simp add: kinv_def sched_def)
qed

lemma tsk_delete_self_gone:
  assumes k: "kinv X q d n s" and n: "run s = Some n" "n \<noteq> idle_TCB"
    and tid: "tid = ucast (task_id (tcbs s n))" and r: "releases n s"
  shows "serves (insert n X) (rt_tsk_delete s tid)"
proof -
  obtain s' q' d' n' where s': "rt_tsk_delete s tid = Some (OS_R_OK, s')" "kinv X q' d' n' s'" "state_of s' n = INACTIVE"
    and f: "kframe (s\<lparr>os_active_TCB := (os_active_TCB s)[unat (task_id (tcbs s n)) - 1 := None], run := None\<rparr>) s'"
    using tsk_delete_self_kinv [OF k n tid] by blast
  note F = kframeD [OF f]
  have "os_active_TCB s' ! j \<noteq> Some n" if "j < length (os_active_TCB s')" for j
  proof
    assume a: "os_active_TCB s' ! j = Some n"
    then have "unat (task_id (tcbs s' n)) = j + 1"
      using kinvD(6) [OF s'(2)] that unfolding act_ok_def by blast
    then show False
      using a that F by simp
  qed
  then have "fresh X n s'"
    using n(2) s'(3) by (auto simp: fresh_def in_set_conv_nth)
  moreover have "releases n s'"
    using r F by (simp add: releases_def owns_nothing_def)
  ultimately have "kinv (insert n X) q' d' n' s'"
    by (rule kinv_bury [OF s'(2)])
  with s'(1) show ?thesis
    by (rule servesI)
qed

lemma rt_init_context_frame [simp]:
  "scbs (rt_init_context s t p) = scbs s" "mcbs (rt_init_context s t p) = mcbs s"
  "mucbs (rt_init_context s t p) = mucbs s" "run (rt_init_context s t p) = run s"
  "os_psq (rt_init_context s t p) = os_psq s" "os_active_TCB (rt_init_context s t p) = os_active_TCB s"
  "task_id (tcbs (rt_init_context s t p) u) = task_id (tcbs s u)"
  "prio_of (rt_init_context s t p) u = (if u = t then p else prio_of s u)"
  by (simp_all add: rt_init_context_def)

lemma k_init_context:
  assumes k: "krun X q d (Some n) s" and t: "fresh X t s"
  shows "krun (X - {t}) q d (Some n) (set_state t INACTIVE (rt_init_context s t p))"
    (is "krun _ _ _ _ ?s")
proof -
  note D = krunD [OF k] and T = fresh_unqueued [OF k t]
  have cb: "cb_type ?s = cb_type s"
    using lists_invD(1) [OF D(1)] by (auto simp: rt_init_context_def cb_ok_def)
  then have lv: "live ?s = live s"
    by (simp add: live_def fun_eq_iff)
  have nt: "live s h \<Longrightarrow> t \<notin> set (q h) \<and> Task t \<noteq> h" for h
    using T(1) cb_ok_hdr [OF lists_invD(1) [OF D(1)]] by (auto simp: unqueued_def)
  have lists: "lists_inv (X - {t}) q ?s"
  proof -
    have "chain (p_lnk ?s) h (q h) = chain (p_lnk s) h (q h)" if "live s h" for h
      using nt [OF that] by (simp add: rt_init_context_def)
    moreover have "rchain (p_rlnk ?s) h (q h) = rchain (p_rlnk s) h (q h)" if "sem_mbx (cb_type s h)" for h
      using nt [OF live_sem_mbx [OF that]] by (simp add: rt_init_context_def)
    moreover have "p_rlnk ?s (Task u) = (if u = t then None else p_rlnk s (Task u))" for u
      by (simp add: rt_init_context_def)
    moreover have "cb_ok ?s = cb_ok s"
      by (simp add: cb_ok_def cb)
    ultimately show ?thesis
      using D(1) unfolding lists_inv_def lv cb by auto
  qed
  have dly: "dly_inv d ?s"
  proof -
    have "t \<notin> set (map fst d)"
      using T(2) by simp
    moreover have "d \<noteq> [] \<Longrightarrow> fst (last d) \<noteq> t"
      using T(2) last_in_set by fastforce
    ultimately show ?thesis
      using D(2) T(2) unfolding dly_inv_def by (auto simp: rt_init_context_def)
  qed
  have st: "state_of ?s u = (if u = t then INACTIVE else state_of s u)"
    and pr: "prio_of ?s u = (if u = t then p else prio_of s u)" for u
    by (simp_all add: rt_init_context_def)
  show ?thesis
  proof (rule krunI, goal_cases)
    case (4 h)
    then have h: "live s h"
      by (simp add: lv)
    have "prio_sorted (prio_of ?s) (q h) = prio_sorted (prio_of s) (q h)"
      using nt [OF h] by (intro prio_sorted_cong) (auto simp: pr)
    then show ?case
      using D(4) [OF h] by simp
  next
    case (5 h u)
    then show ?case
      unfolding st lv using D(5) [of h u] nt [of h] by auto
  next
    case (6 h u)
    then show ?case
      unfolding lv using D(6) [of h u] by auto
  next
    case (7 u)
    then show ?case
      unfolding st using D(7) [of u] by (auto split: if_splits)
  next
    case (8 u)
    then show ?case
      unfolding st using D(8) [of u] T(2) by auto
  next
    case (10 u)
    then show ?case
      unfolding st using D(10) [of u] T(3) by auto
  next
    case (11 m)
    then show ?case
      using D(11,12) by (simp add: rt_init_context_def)
  qed (use lists dly D(3,9,13) in auto)
qed

lemma get_tid_from_bound:
  "i + length xs < 2 ^ 32 \<Longrightarrow> get_tid_from i xs \<noteq> 0 \<Longrightarrow>
    i < unat (get_tid_from i xs) \<and> unat (get_tid_from i xs) \<le> i + length xs \<and>
    xs ! (unat (get_tid_from i xs) - 1 - i) = None"
proof (induction i xs rule: get_tid_from.induct)
  case (2 i x xs)
  show ?case
  proof (cases "x = None")
    case True
    then have "unat (get_tid_from i (x # xs)) = Suc i"
      using 2(2) by (simp add: unat_of_nat_u32 del: of_nat_Suc)
    with True show ?thesis
      by simp
  next
    case False
    with 2 have IH: "Suc i < unat (get_tid_from (Suc i) xs)" "unat (get_tid_from (Suc i) xs) \<le> Suc i + length xs"
      "xs ! (unat (get_tid_from (Suc i) xs) - 1 - Suc i) = None"
      by auto
    then have "unat (get_tid_from (Suc i) xs) - 1 - i = Suc (unat (get_tid_from (Suc i) xs) - 1 - Suc i)"
      by arith
    with False IH show ?thesis
      by auto
  qed
qed simp

lemma rt_get_TID_free:
  assumes "length (os_active_TCB s) < 255" and "rt_get_TID s \<noteq> 0"
  shows "0 < unat (rt_get_TID s)" "unat (rt_get_TID s) \<le> length (os_active_TCB s)"
    and "os_active_TCB s ! (unat (rt_get_TID s) - 1) = None"
  using get_tid_from_bound [of 0 "os_active_TCB s"] assms by (auto simp: rt_get_TID_def)

definition thread_def_ok :: "thread_def \<Rightarrow> bool" where
  "thread_def_ok td \<longleftrightarrow> pthread td \<noteq> 0 \<and> osPriorityIdle \<le> tpriority td \<and> tpriority td \<le> osPriorityRealtime \<and>
     stacksize td \<noteq> 0 \<and> stack_pointer td \<noteq> 0"

text \<open>A new thread is registered and ready, or runs at once if its priority is above the caller's.\<close>

lemma svcThreadCreate_kinv:
  assumes k: "kinv X q d n s" and n: "run s = Some n" and td: "thread_def_ok td" and tid: "rt_get_TID s \<noteq> 0"
    and t: "fresh X (td_tcb td) s"
  shows "\<exists>s' q' n'. svcThreadCreate s (Some td) arg = Some (Some (td_tcb td), s') \<and>
    kinv (X - {td_tcb td}) q' d n' s' \<and>
    insert n' (set (q' Rdy)) = insert n (insert (td_tcb td) (set (q Rdy))) \<and>
    prio_of s' (td_tcb td) = of_int (tpriority td - osPriorityIdle + 1)"
proof -
  let ?t = "td_tcb td" and ?tsk = "rt_get_TID s" and ?p = "of_int (tpriority td - osPriorityIdle + 1)"
  let ?s1 = "upd_tcb ?t (\<lambda>tc. tc\<lparr>task_id := ucast ?tsk, msg := arg\<rparr>)
      (s\<lparr>os_active_TCB := (os_active_TCB s)[unat ?tsk - 1 := Some ?t]\<rparr>)"
  let ?s2 = "rt_init_context ?s1 ?t ?p"
  let ?s3 = "set_state ?t INACTIVE ?s2"
  have len: "length (os_active_TCB s) < 255"
    using kinvD(6) [OF k] by (simp add: act_ok_def)
  note T = rt_get_TID_free [OF len tid]
  have k1: "krun X q d (Some n) ?s1"
    using kinvD(2) [OF k] by (simp add: krun_tcbs)
  have t1: "fresh X ?t (?s1\<lparr>os_active_TCB := os_active_TCB s\<rparr>)"
    using t by (simp add: fresh_def)
  have k1': "krun X q d (Some n) (?s1\<lparr>os_active_TCB := os_active_TCB s\<rparr>)"
    using k1 unfolding krun_update_simps .
  note U = fresh_unqueued [OF k1' t1]
  have "krun (X - {?t}) q d (Some n) (set_state ?t INACTIVE (rt_init_context (?s1\<lparr>os_active_TCB := os_active_TCB s\<rparr>) ?t ?p))"
    by (rule k_init_context [OF k1' t1])
  moreover have "set_state ?t INACTIVE (rt_init_context (?s1\<lparr>os_active_TCB := os_active_TCB s\<rparr>) ?t ?p) =
      ?s3\<lparr>os_active_TCB := os_active_TCB s\<rparr>"
    by (simp add: rt_init_context_def)
  ultimately have k3: "krun (X - {?t}) q d (Some n) ?s3"
    by simp
  have r: "run ?s2 = Some n" "run ?s3 = Some n"
    using n by simp_all
  have pr3: "prio_of ?s3 u = (if u = ?t then ?p else prio_of s u)" for u
    by simp
  have lv: "live ?s3 = live s"
    using lists_invD(1) [OF krunD(1) [OF kinvD(2) [OF k]]]
    by (auto simp: live_def fun_eq_iff rt_init_context_def cb_ok_def)
  have U1: "?t \<notin> set (q Rdy)"
    using U(1) by (simp add: unqueued_def live_def)
  have U3: "unqueued q ?s3 ?t"
    using U(1) unfolding unqueued_def lv by (simp add: live_def)
  have top: "top_prio q n ?s3"
    using kinvD(3) [OF k] U1 U(3) unfolding top_prio_def pr3 by auto
  from k_dispatch_some [OF k3 top r(2) U3 U(2) _ U(3)] obtain s' where
    op: "rt_dispatch ?s3 (Some ?t) = Some s'"
    and s': "krun (X - {?t}) (disp_q (prio_of ?s3) n ?t q) d (Some (disp_run (prio_of ?s3) n ?t)) s'"
      "top_prio (disp_q (prio_of ?s3) n ?t q) (disp_run (prio_of ?s3) n ?t) s'"
    and f: "kframe ?s3 s'"
    by auto
  let ?q' = "disp_q (prio_of ?s3) n ?t q" and ?n' = "disp_run (prio_of ?s3) n ?t"
  note F = kframeD [OF f]
  have cb: "cb_type s' = cb_type s"
    using F(4) lists_invD(1) [OF krunD(1) [OF kinvD(2) [OF k]]] by (auto simp: rt_init_context_def cb_ok_def)
  have act: "os_active_TCB s' = (os_active_TCB s)[unat ?tsk - 1 := Some ?t]"
    using F(6) by simp
  have op': "svcThreadCreate s (Some td) arg = Some (Some ?t, s')"
  proof -
    have "rt_dispatch ?s2 (Some ?t) = Some s'"
      using rt_dispatch_set_state [OF r(1) U(3), of INACTIVE] op by simp
    moreover have "os_active_TCB s' ! (unat ?tsk - 1) = Some ?t"
      using act T(1,2) by simp
    ultimately show ?thesis
      using td tid unfolding svcThreadCreate_def thread_def_ok_def by (simp add: Let_def)
  qed
  have "obj_ok (X - {?t}) ?q' s' h" for h
  proof (cases "h = Rdy")
    case False
    show ?thesis
      by (rule obj_ok_mono [OF kinvD(4) [OF k]])
        (use False F cb in \<open>auto simp: obj_same_def disp_q_def split: ptr.split\<close>)
  qed (simp add: obj_ok_simps)
  moreover have "psq_ok (X - {?t}) s'"
    by (rule psq_ok_cong [OF kinvD(5) [OF k]]) (use F(11) cb in auto)
  moreover have "act_ok (X - {?t}) s'"
  proof -
    have "u \<notin> X - {?t} \<and> u \<noteq> idle_TCB \<and> unat (task_id (tcbs s' u)) = j + 1"
      if j: "j < length (os_active_TCB s)" "(os_active_TCB s)[unat ?tsk - 1 := Some ?t] ! j = Some u" for j u
    proof (cases "j = unat ?tsk - 1")
      case True
      then have "u = ?t"
        using j by simp
      moreover have "unat (ucast ?tsk :: u8) = unat ?tsk"
        using T(2) len by (simp add: unat_ucast_u32_u8)
      ultimately show ?thesis
        using True T(1) F(14) [of ?t] t by (simp add: fresh_def)
    next
      case False
      then have "os_active_TCB s ! j = Some u"
        using j by simp
      moreover from this have "u \<noteq> ?t"
        using t nth_mem [OF j(1)] by (auto simp: fresh_def)
      ultimately show ?thesis
        using kinvD(6) [OF k] j(1) F(14) [of u] unfolding act_ok_def by auto
    qed
    then show ?thesis
      using len unfolding act_ok_def act by simp
  qed
  moreover have "sched (X - {?t}) ?q' d ?n' s'"
    using s' by (simp add: sched_def)
  ultimately have "kinv (X - {?t}) ?q' d ?n' s'"
    using kframe_prio [OF f, of idle_TCB] F(14) [of idle_TCB] kinvD(7,8) [OF k] t
    by (simp add: kinv_def fresh_def)
  moreover have "insert ?n' (set (?q' Rdy)) = insert n (insert ?t (set (q Rdy)))"
    by (auto simp: disp_q_def disp_run_def)
  moreover have "prio_of s' ?t = ?p"
    using kframe_prio [OF f, of ?t] by simp
  ultimately show ?thesis
    using op' by blast
qed

section \<open>Mailboxes\<close>

lemma mbx_init_serves:
  assumes k: "kinv X q d n s" and i: "cb_type s (Mbx i) = TCB" and sz: "0 < unat (m_size (mcbs (rt_mbx_init s i sz) i))"
  shows "\<exists>q'. kinv X q' d n (rt_mbx_init s i sz)"
proof -
  let ?s = "rt_mbx_init s i sz" and ?q = "q(Mbx i := [])"
  have nl: "\<not> live s (Mbx i)"
    using i by (simp add: live_def)
  have s': "sched X ?q d n ?s"
    by (rule rt_mbx_init_sched [OF kinvD(1) [OF k] nl])
  have "mbx_wf (Mbx i) ?q (mcbs ?s i)"
    by (rule rt_mbx_init_wf(1) [OF sz]) simp
  then have "obj_ok X ?q ?s (Mbx i)"
    by (simp add: obj_ok_simps) (simp add: rt_mbx_init_def)
  moreover have "obj_ok X ?q ?s h" if "h \<noteq> Mbx i" for h
    by (rule obj_ok_mono [OF kinvD(4) [OF k]])
      (use that in \<open>auto simp: obj_same_def rt_mbx_init_def split: ptr.split\<close>)
  ultimately have "obj_ok X ?q ?s h" for h
    by (cases "h = Mbx i") auto
  moreover have "post_ok X s e \<Longrightarrow> post_ok X ?s e" for e
    by (cases "(X, s, e)" rule: post_ok.cases) (auto simp: rt_mbx_init_def)
  then have "psq_ok X ?s"
    using kinvD(5) [OF k] by (auto simp: psq_ok_def rt_mbx_init_def)
  moreover have "act_ok X ?s"
    by (rule act_ok_cong [OF kinvD(6) [OF k]]) (simp_all add: rt_mbx_init_def)
  ultimately have "kinv X ?q d n ?s"
    using s' kinvD(7,8) [OF k] by (simp add: kinv_def rt_mbx_init_def)
  then show ?thesis
    by blast
qed

lemma mbx_obj:
  assumes k: "kinv X q d n s" and i: "cb_type s (Mbx i) = MCB"
  shows "mbx_wf (Mbx i) q (mcbs s i)"
    and "q (Mbx i) \<noteq> [] \<Longrightarrow> (mb_state (mcbs s i) = 1 \<and> m_count (mcbs s i) = 0 \<or>
      mb_state (mcbs s i) = 2 \<and> m_count (mcbs s i) = m_size (mcbs s i)) \<and> 0 < unat (m_size (mcbs s i))"
    and "p_lnk s (Mbx i) = None \<longleftrightarrow> q (Mbx i) = []"
proof -
  show wf: "mbx_wf (Mbx i) q (mcbs s i)"
    using kinvD(4) [OF k, of "Mbx i"] i by (simp add: obj_ok_simps)
  show "q (Mbx i) \<noteq> [] \<Longrightarrow> (mb_state (mcbs s i) = 1 \<and> m_count (mcbs s i) = 0 \<or>
      mb_state (mcbs s i) = 2 \<and> m_count (mcbs s i) = m_size (mcbs s i)) \<and> 0 < unat (m_size (mcbs s i))"
    using kinvD(4) [OF k, of "Mbx i"] i mbx_wfD(2) [OF wf] by (auto simp: obj_ok_simps mbx_wf_def)
  show "p_lnk s (Mbx i) = None \<longleftrightarrow> q (Mbx i) = []"
    by (rule mbx_lnk' [OF kinvD(2) [OF k] i])
qed

lemma mbx_send_serves:
  assumes k: "kinv X q d n s" and i: "cb_type s (Mbx i) = MCB" and n: "run s = Some n" "n \<noteq> idle_TCB"
  shows "serves X (rt_mbx_send s i m timeout)"
proof -
  note M = mbx_obj [OF k i] and S = kinvD(1) [OF k]
  have li: "live s (Mbx i)"
    using i by (simp add: live_def)
  consider t ts where "q (Mbx i) = t # ts" "mb_state (mcbs s i) = 1"
    | "q (Mbx i) = [] \<or> mb_state (mcbs s i) = 2" "m_count (mcbs s i) = m_size (mcbs s i)" "timeout = 0"
    | "q (Mbx i) = [] \<or> mb_state (mcbs s i) = 2" "m_count (mcbs s i) = m_size (mcbs s i)" "timeout \<noteq> 0"
    | "q (Mbx i) = []" "m_count (mcbs s i) \<noteq> m_size (mcbs s i)"
    using M(2) by (cases "q (Mbx i)") auto
  then show ?thesis
  proof cases
    case 1
    from rt_mbx_send_receiver [OF S i 1 n(1)] obtain s' where op: "rt_mbx_send s i m timeout = Some (OS_R_OK, s')"
      and s': "sched X (disp_q (prio_of s) n t (q(Mbx i := ts))) (rmv_dly t d) (disp_run (prio_of s) n t) s'"
      and f: "kframe (rt_ret_val2 t 0x10 m s) s'"
      by blast
    have "kinv X (disp_q (prio_of s) n t (q(Mbx i := ts))) (rmv_dly t d) (disp_run (prio_of s) n t) s'"
    proof (rule kinv_frame [OF k s'])
      show "oframe s s'"
        using kframe_oframe [OF f] by (simp add: oframe_def rt_ret_val2_def)
    qed (use kframeD(4) [OF f] kframe_prio [OF f] kinvD(7) [OF k] 1(1) in \<open>auto simp: rt_ret_val2_def disp_q_def\<close>)
    with op show ?thesis
      by (rule servesI)
  next
    case 2
    then have "rt_mbx_send s i m timeout = Some (OS_R_TMO, s)"
      using M(3) by (auto simp: rt_mbx_send_def)
    from this k show ?thesis
      by (rule servesI)
  next
    case 3
    have st: "q (Mbx i) \<noteq> [] \<Longrightarrow> mb_state (mcbs s i) = 2"
      using 3(1) by auto
    let ?F = "\<lambda>s. upd_tcb n (msg_update (\<lambda>_. m)) (upd_mbx i (mb_state_update (\<lambda>_. 2)) s)"
    from rt_mbx_send_block [OF S i 3(2) st n 3(3)] obtain s' where op: "rt_mbx_send s i m timeout = Some (OS_R_TMO, s')"
      and s': "sched X (q(Mbx i := ins_prio (prio_of s) n (q (Mbx i)), Rdy := tl (q Rdy)))
        (dly_wait n timeout d) (hd (q Rdy)) s'"
      and f: "kframe (?F s) s'"
      by blast
    have "kinv X (q(Mbx i := ins_prio (prio_of s) n (q (Mbx i)), Rdy := tl (q Rdy))) (dly_wait n timeout d) (hd (q Rdy)) s'"
      by (rule kinv_step [where F = ?F and g = "Mbx i", OF k s' kframe_oframe [OF f]])
        (use 3(2) i M(1) kframeD [OF f] kframe_prio [OF f] kinvD(7) [OF k] in
          \<open>auto simp: obj_same_def obj_ok_simps mbx_wf_def mbring.wf_def split: ptr.split\<close>)
    with op show ?thesis
      by (rule servesI)
  next
    case 4
    have "p_lnk s (Mbx i) = None \<or> mb_state (mcbs s i) \<noteq> 1"
      using M(3) 4(1) by simp
    note op = rt_mbx_send_store(1,2) [OF M(1) 4(2) this, of m]
    have "kinv X q d n (upd_mbx i (\<lambda>b. mb_put b m) s)"
      by (rule kinv_step [where F = "upd_mbx i (\<lambda>b. mb_put b m)" and g = "Mbx i", OF k])
        (use 4 i op(2) kinvD(1,7) [OF k] in \<open>auto simp: obj_same_def obj_ok_simps mbx_wf_def sched_def split: ptr.split\<close>)
    with op(1) show ?thesis
      by (rule servesI)
  qed
qed

lemma mbx_wait_serves:
  assumes k: "kinv X q d n s" and i: "cb_type s (Mbx i) = MCB" and n: "run s = Some n" "n \<noteq> idle_TCB"
  shows "\<exists>res v s' q' d' n'. rt_mbx_wait s i timeout = Some (res, v, s') \<and> kinv X q' d' n' s'"
proof -
  note M = mbx_obj [OF k i] and S = kinvD(1) [OF k]
  consider t ts where "q (Mbx i) = t # ts" "mb_state (mcbs s i) = 2"
    | "q (Mbx i) = []" "m_count (mcbs s i) \<noteq> 0"
    | "m_count (mcbs s i) = 0" "timeout = 0"
    | "m_count (mcbs s i) = 0" "q (Mbx i) \<noteq> [] \<Longrightarrow> mb_state (mcbs s i) = 1" "timeout \<noteq> 0"
    using M(2) by (cases "q (Mbx i)") auto
  then show ?thesis
  proof cases
    case 1
    let ?F = "\<lambda>s. upd_mbx i (\<lambda>b. mb_put (mb_drop b) (msg (tcbs s t))) (rt_ret_val t 0 s)"
    note W = rt_mbx_wait_sender [OF S i M(1) 1 n(1)]
    from W(1) [of timeout] obtain s' where op: "rt_mbx_wait s i timeout = Some (OS_R_OK, Some (hd (msgs s i)), s')"
      and s': "sched X (disp_q (prio_of s) n t (q(Mbx i := ts))) (rmv_dly t d) (disp_run (prio_of s) n t) s'"
      and f: "kframe (?F s) s'"
      by blast
    have full: "m_count (mcbs s i) = m_size (mcbs s i)"
      using M(2) 1 by auto
    have "kinv X (disp_q (prio_of s) n t (q(Mbx i := ts))) (rmv_dly t d) (disp_run (prio_of s) n t) s'"
      by (rule kinv_step [where F = ?F and g = "Mbx i", OF k s' kframe_oframe [OF f]])
        (use 1 i full W(2) [of "msg (tcbs s t)"] kframeD [OF f] kframe_prio [OF f] kinvD(7) [OF k] in
          \<open>auto simp: obj_same_def obj_ok_simps mbx_wf_def disp_q_def rt_ret_val_def mb_put_def mb_drop_def
            mb_store_def mb_take_def Let_def split: ptr.split\<close>)
    with op show ?thesis
      by blast
  next
    case 2
    have "p_lnk s (Mbx i) = None \<or> mb_state (mcbs s i) \<noteq> 2"
      using M(3) 2(1) by simp
    note op = rt_mbx_wait_message(1,2) [OF M(1) 2(2) this]
    have "kinv X q d n (upd_mbx i mb_drop s)"
      by (rule kinv_step [where F = "upd_mbx i mb_drop" and g = "Mbx i", OF k])
        (use 2 i op(2) kinvD(1,7) [OF k] in \<open>auto simp: obj_same_def obj_ok_simps mbx_wf_def sched_def split: ptr.split\<close>)
    with op(1) show ?thesis
      by blast
  next
    case 3
    then show ?thesis
      using rt_mbx_wait_empty [OF 3(1)] k by blast
  next
    case 4
    let ?F = "upd_mbx i (mb_state_update (\<lambda>_. 1))"
    from rt_mbx_wait_block [OF S i 4(1,2) n 4(3)] obtain s' where op: "rt_mbx_wait s i timeout = Some (OS_R_TMO, None, s')"
      and s': "sched X (q(Mbx i := ins_prio (prio_of s) n (q (Mbx i)), Rdy := tl (q Rdy)))
        (dly_wait n timeout d) (hd (q Rdy)) s'"
      and f: "kframe (?F s) s'"
      by blast
    have "kinv X (q(Mbx i := ins_prio (prio_of s) n (q (Mbx i)), Rdy := tl (q Rdy))) (dly_wait n timeout d) (hd (q Rdy)) s'"
      by (rule kinv_step [where F = ?F and g = "Mbx i", OF k s' kframe_oframe [OF f]])
        (use 4(1) i M(1) kframeD [OF f] kframe_prio [OF f] kinvD(7) [OF k] in
          \<open>auto simp: obj_same_def obj_ok_simps mbx_wf_def mbring.wf_def split: ptr.split\<close>)
    with op show ?thesis
      by blast
  qed
qed

section \<open>Interrupts\<close>

text \<open>The tick without user timers.\<close>

lemma systick_serves:
  assumes k: "kinv X q d n s" and n: "run s = Some n" and ts: "tmr_head ts = None"
  shows "\<exists>s' q' n'. rt_systick addr tq ts s = Some (ts, s') \<and> kinv X q' (tick_dly d) n' s' \<and> os_time s' = os_time s + 1 \<and>
    run s' = run s"
proof -
  have "tmr_ok [] ts"
    using ts by (simp add: tmr_ok_def tmr_inv_def)
  from rt_systick_sched [OF kinvD(1) [OF k] n this, of addr tq] obtain ts' s' q' n' where
    op: "rt_systick addr tq ts s = Some (ts', s')" and s': "sched X q' (tick_dly d) n' s'"
    and q': "\<forall>h. live s h \<longrightarrow> h \<noteq> Rdy \<longrightarrow> set (q' h) = set (q h) - set (expired d)"
    and tm: "os_time s' = os_time s + 1" and psq: "os_psq s' = os_psq s" and f: "tick_frame s s'"
    by (auto simp: expired_def)
  have ts': "ts' = ts"
    using op ts by (auto simp: rt_systick_def sysTimerTick_def elim!: bind_SomeE split: Option.bind_splits)
  have fr: "kframe (s\<lparr>os_time := os_time s', robin_task := robin_task s', robin_time := robin_time s', os_psq := os_psq s'\<rparr>) s'"
    using f by (simp add: tick_frame_def)
  have "kinv X q' (tick_dly d) n' s'"
  proof (rule kinv_frame [OF k s'])
    show "oframe s s'"
      using kframe_oframe [OF fr] psq by (simp add: oframe_def)
  qed (use kframeD(4) [OF fr] kframe_prio [OF fr] kinvD(7) [OF k] q' in auto)
  with op tm ts' tick_frameD(5) [OF f] show ?thesis
    by blast
qed

lemma kinv_psq:
  assumes k: "kinv X q d n s" and s': "s' = s\<lparr>os_psq := b\<rparr>" and ok: "psq_ok X s'"
  shows "kinv X q d n s'"
proof -
  have "obj_ok X q s' h" for h
    by (rule obj_ok_mono [OF kinvD(4) [OF k]]) (auto simp: s' obj_same_def split: ptr.split)
  moreover have "act_ok X s'"
    by (rule act_ok_cong [OF kinvD(6) [OF k]]) (simp_all add: s')
  ultimately show ?thesis
    using k ok by (simp add: kinv_def s' sched_def)
qed

text \<open>An interrupt's post is queued, or the queue is full and the error handler is called.\<close>

lemma psq_enq_serves:
  assumes k: "kinv X q d n s" and e: "post_ok X s (p, a)" "post_plain (p, a)"
    and nf: "q_count (os_psq s) \<noteq> q_size (os_psq s)"
  shows "\<exists>s'. rt_psq_enq s p a = Some s' \<and> kinv X q d n s' \<and> run s' = run s \<and> posts s' = posts s @ [(p, a)]"
proof -
  have wf: "psring.wf (os_psq s)"
    using kinvD(5) [OF k] by (simp add: psq_ok_def)
  from rt_psq_enq_posts [OF wf nf, of p a] obtain s' where op: "rt_psq_enq s p a = Some s'"
    and s': "s' = s\<lparr>os_psq := os_psq s'\<rparr>" and wf': "psring.wf (os_psq s')" and ps: "posts s' = posts s @ [(p, a)]"
    by blast
  have cb: "cb_type s' = cb_type s" "run s' = run s"
    by (subst s', simp)+
  have "psq_ok X s'"
    using kinvD(5) [OF k] e wf' ps post_ok_cong [OF cb(1)] by (auto simp: psq_ok_def)
  then have "kinv X q d n s'"
    by (rule kinv_psq [OF k s'])
  with op cb(2) ps show ?thesis
    by blast
qed

lemma pop_req_ends:
  assumes k: "kinv X q d n s" and n: "run s = Some n"
  shows "ends X (rt_pop_req s)" and "rt_pop_req s = Some s' \<Longrightarrow> posts s' = []"
proof -
  note S = kinvD(1) [OF k]
  have wf: "psring.wf (os_psq s)" and ok: "\<forall>e \<in> set (posts s). post_ok X s e"
    and plain: "\<forall>e \<in> set (posts s). post_plain e"
    using kinvD(5) [OF k] by (auto simp: psq_ok_def)
  from rt_pop_req_sched(2) [OF S n wf ok plain] obtain s1 where op: "rt_pop_req s = Some s1"
    by blast
  from rt_pop_req_sched(1) [OF S n wf ok op] obtain q' d' n' where s': "sched X q' d' n' s1"
    and f: "pop_effect q n s q' n' s1"
    by blast
  note F = f [unfolded pop_effect_def]
  have sub: "h \<noteq> Rdy \<Longrightarrow> set (q' h) \<subseteq> set (q h)" for h
    using F by blast
  have nil: "h \<noteq> Rdy \<Longrightarrow> q h = [] \<Longrightarrow> q' h = []" for h
    using sub [of h] by simp
  have sem: "sem_ok q' s1"
  proof -
    have "sem_ok q s"
      unfolding sem_ok_def using kinvD(4) [OF k, of "Sem _", unfolded obj_ok_simps] by blast
    then show ?thesis
      using F by blast
  qed
  have eqs: "cb_type s1 = cb_type s" "mucbs s1 = mucbs s" "mcbs s1 = mcbs s" "os_active_TCB s1 = os_active_TCB s"
    "\<And>t. task_id (tcbs s1 t) = task_id (tcbs s t)" "prio_of s1 = prio_of s" "psring.wf (os_psq s1)" "posts s1 = []"
    using F plain by blast+
  have "obj_ok X q' s1 h" for h
  proof (cases h)
    case (Sem i)
    then show ?thesis
      using sem kinvD(4) [OF k, of h] eqs(1) by (auto simp: obj_ok_simps sem_ok_def)
  next
    case (Mbx i)
    show ?thesis
      by (rule obj_ok_mono [OF kinvD(4) [OF k] _ sub subset_refl])
        (use Mbx eqs in \<open>auto simp: obj_same_def\<close>)
  next
    case (Mut i)
    show ?thesis
      by (rule obj_ok_mono [OF kinvD(4) [OF k] _ sub subset_refl])
        (use Mut eqs in \<open>auto simp: obj_same_def\<close>)
  qed (simp_all add: obj_ok_simps)
  moreover have "act_ok X s1"
    by (rule act_ok_cong [OF kinvD(6) [OF k] eqs(4,5) subset_refl])
  moreover have "psq_ok X s1"
    using eqs(7,8) by (simp add: psq_ok_def)
  moreover have "prio_of s1 idle_TCB = 0" "task_id (tcbs s1 idle_TCB) = 255"
    using fun_cong [OF eqs(6)] eqs(5) kinvD(7,8) [OF k] by simp_all
  ultimately have "kinv X q' d' n' s1"
    using s' by (simp add: kinv_def)
  with op show "ends X (rt_pop_req s)"
    by (rule endsI)
  show "rt_pop_req s = Some s' \<Longrightarrow> posts s' = []"
    using op eqs(8) by simp
qed

end
