(* ===== verification/Rtx_Kernel.thy ===== *)
theory Rtx_Kernel
  imports Rtx_Service
begin

text \<open>
  The kernel as a transition system: a running thread makes a service call, an interrupt handler
  posts, the post service handler runs, the tick comes. Each step that ends in the scheduler is
  followed by the context switch of the exception handlers of \<open>HAL_CM4.c\<close>. \<open>X\<close> is a ghost: the
  control blocks of the terminated threads (\<open>dead_after\<close> says which are counted).

  Not part of these steps: user timers, mail queues, and messages put or taken by interrupts (\<open>isrMessagePut\<close>,
  \<open>isrMessageGet\<close>), whose posts do not keep the invariant of the mailbox.
\<close>

section \<open>The steps\<close>

definition ctx_switch :: "kernel \<Rightarrow> kernel" where
  "ctx_switch s = s\<lparr>run := new_tsk s\<rparr>"

datatype call =
    ThreadCreate thread_def u32 | ThreadTerminate nat | ThreadYield | ThreadSetPriority nat int
  | Delay u32
  | SignalSet nat u32 | SignalClear nat u32 | SignalWait u32 u32
  | MutexCreate nat | MutexWait nat u32 | MutexRelease nat | MutexDelete nat
  | SemaphoreCreate nat u32 | SemaphoreWait nat u32 | SemaphoreRelease nat | SemaphoreDelete nat
  | MessageCreate u32 nat | MessagePut nat u32 u32 | MessageGet nat u32

fun exec :: "u32 \<Rightarrow> call \<Rightarrow> kernel \<Rightarrow> kernel option" where
  "exec clk (ThreadCreate td arg) s = map_option snd (svcThreadCreate s (Some td) arg)"
| "exec clk (ThreadTerminate t) s = map_option snd (svcThreadTerminate s (Some t))"
| "exec clk ThreadYield s = map_option snd (svcThreadYield s)"
| "exec clk (ThreadSetPriority t p) s = map_option snd (svcThreadSetPriority s (Some t) p)"
| "exec clk (Delay ms) s = map_option snd (svcDelay clk s ms)"
| "exec clk (SignalSet t sig) s = map_option snd (svcSignalSet s (Some t) sig)"
| "exec clk (SignalClear t sig) s = map_option snd (svcSignalClear s (Some t) sig)"
| "exec clk (SignalWait sig ms) s = map_option snd (svcSignalWait clk s sig ms)"
| "exec clk (MutexCreate i) s = map_option snd (svcMutexCreate s (Some (Some i)))"
| "exec clk (MutexWait i ms) s = map_option snd (svcMutexWait clk s (Some i) ms)"
| "exec clk (MutexRelease i) s = map_option snd (svcMutexRelease s (Some i))"
| "exec clk (MutexDelete i) s = map_option snd (svcMutexDelete s (Some i))"
| "exec clk (SemaphoreCreate i c) s = map_option snd (svcSemaphoreCreate s (Some (Some i)) c)"
| "exec clk (SemaphoreWait i ms) s = map_option snd (svcSemaphoreWait clk s (Some i) ms)"
| "exec clk (SemaphoreRelease i) s = map_option snd (svcSemaphoreRelease s (Some i))"
| "exec clk (SemaphoreDelete i) s = map_option snd (svcSemaphoreDelete s (Some i))"
| "exec clk (MessageCreate sz i) s = map_option snd (svcMessageCreate s (Some (sz, Some i)))"
| "exec clk (MessagePut i m ms) s = map_option snd (svcMessagePut clk s (Some i) m ms)"
| "exec clk (MessageGet i ms) s = map_option snd (svcMessageGet clk s (Some i) ms)"

text \<open>A thread that is registered in the table of active tasks under its number.\<close>

definition registered :: "kernel \<Rightarrow> nat \<Rightarrow> bool" where
  "registered s t \<longleftrightarrow> active_slot s (ucast (task_id (tcbs s t))) = Some (Some t)"

text \<open>
  What the kernel relies on the callers for, and does not check: a control block is not used for
  two threads, a terminated thread is still registered and owns no mutex, no post is pending for
  an object or thread that goes, the 16-bit nesting count of a mutex does not overflow.
\<close>

fun allowed :: "nat set \<Rightarrow> call \<Rightarrow> nat \<Rightarrow> kernel \<Rightarrow> bool" where
  "allowed X (ThreadCreate td arg) n s = fresh X (td_tcb td) s"
| "allowed X (ThreadTerminate t) n s =
     (registered s t \<and> (t \<noteq> n \<longrightarrow> releases t s \<and> task_id (tcbs s t) \<noteq> task_id (tcbs s n)))"
| "allowed X ThreadYield n s = (prio_of s n \<noteq> 0)"
| "allowed X (ThreadSetPriority t p) n s = registered s t"
| "allowed X (SignalSet t sig) n s = registered s t"
| "allowed X (SignalClear t sig) n s = registered s t"
| "allowed X (MutexWait i ms) n s =
     (mu_owner (mucbs s i) = Some n \<longrightarrow> mu_level (mucbs s i) + 1 \<noteq> 0)"
| "allowed X (SemaphoreDelete i) n s = (\<forall>e \<in> set (posts s). fst e \<noteq> Sem i)"
| "allowed X (MessageCreate sz i) n s = (sz < 16380)"
| "allowed X _ n s = True"

text \<open>
  The terminated threads after a call. A thread that terminates itself while it owns a mutex or a post is pending for it is
  not counted: its mutex stays locked, and its post is still delivered.
\<close>

fun dead_after :: "nat set \<Rightarrow> call \<Rightarrow> nat \<Rightarrow> kernel \<Rightarrow> nat set" where
  "dead_after X (ThreadCreate td arg) n s = X - {td_tcb td}"
| "dead_after X (ThreadTerminate t) n s = (if t = n \<and> \<not> releases t s then X else insert t X)"
| "dead_after X _ n s = X"

inductive kstep :: "u32 \<Rightarrow> nat set \<times> kernel \<Rightarrow> nat set \<times> kernel \<Rightarrow> bool" where
  svc: "run s = Some n \<Longrightarrow> n \<noteq> idle_TCB \<Longrightarrow> allowed X c n s \<Longrightarrow> exec clk c s = Some s' \<Longrightarrow>
    kstep clk (X, s) (dead_after X c n s, ctx_switch s')"
| isr_semaphore: "isrSemaphoreRelease s (Some i) = Some (r, s') \<Longrightarrow> kstep clk (X, s) (X, s')"
| isr_signal: "registered s t \<Longrightarrow> isrSignalSet s (Some t) sig = Some (v, s') \<Longrightarrow> kstep clk (X, s) (X, s')"
| pend_sv: "rt_pop_req s = Some s' \<Longrightarrow> kstep clk (X, s) (X, ctx_switch s')"
| sys_tick: "tmr_head ts = None \<Longrightarrow> rt_systick addr tq ts s = Some (ts', s') \<Longrightarrow>
    kstep clk (X, s) (X, ctx_switch s')"

inductive reach :: "u32 \<Rightarrow> nat set \<times> kernel \<Rightarrow> nat set \<times> kernel \<Rightarrow> bool" for clk x0 where
  start: "reach clk x0 x0"
| step: "reach clk x0 x \<Longrightarrow> kstep clk x y \<Longrightarrow> reach clk x0 y"

inductive_cases kstep_cases: "kstep clk (X, s) (X', s')"

section \<open>The invariant\<close>

definition sys_ok :: "nat set \<times> kernel \<Rightarrow> bool" where
  "sys_ok x \<longleftrightarrow> (\<exists>q d n. kinv (fst x) q d n (snd x) \<and> run (snd x) = Some n)"

lemma sys_ok_switch: "kinv X q d n s \<Longrightarrow> sys_ok (X, ctx_switch s)"
proof -
  assume k: "kinv X q d n s"
  have "new_tsk s = Some n"
    using krunD(12) [OF kinvD(2) [OF k]] by simp
  moreover have "kinv X q d n (s\<lparr>run := r\<rparr>)" for r
  proof -
    have "obj_ok X q (s\<lparr>run := r\<rparr>) h" for h
      by (rule obj_ok_mono [OF kinvD(4) [OF k]]) (auto simp: obj_same_def split: ptr.split)
    moreover have "psq_ok X (s\<lparr>run := r\<rparr>)" "act_ok X (s\<lparr>run := r\<rparr>)"
      using psq_ok_cong [OF kinvD(5) [OF k]] act_ok_cong [OF kinvD(6) [OF k]] by simp_all
    ultimately show ?thesis
      using k by (simp add: kinv_def sched_def)
  qed
  ultimately show ?thesis
    unfolding sys_ok_def ctx_switch_def by (intro exI [of _ q] exI [of _ d] exI [of _ n]) simp
qed

text \<open>The calls, one lemma for all: no fault, and the invariant holds after the context switch.\<close>

fun call_valid :: "call \<Rightarrow> kernel \<Rightarrow> bool" where
  "call_valid (ThreadCreate td arg) s = (thread_def_ok td \<and> rt_get_TID s \<noteq> 0)"
| "call_valid (MutexCreate i) s = (cb_type s (Mut i) = TCB)"
| "call_valid (SemaphoreCreate i c) s = (cb_type s (Sem i) = TCB \<and> sint c \<le> 65535)"
| "call_valid (MessageCreate sz i) s = (cb_type s (Mbx i) = TCB \<and> sz \<noteq> 0)"
| "call_valid _ s = True"

definition steps_ok :: "nat set \<Rightarrow> kernel option \<Rightarrow> bool" where
  "steps_ok X r \<longleftrightarrow> (\<exists>s'. r = Some s' \<and> sys_ok (X, ctx_switch s'))"

lemma steps_okI: "r = Some s' \<Longrightarrow> kinv X q d n s' \<Longrightarrow> steps_ok X r"
  using sys_ok_switch by (auto simp: steps_ok_def)

lemma steps_serves: "serves X r \<Longrightarrow> steps_ok X (map_option snd r)"
  unfolding serves_def by (auto intro: steps_okI)

lemma steps_same:
  assumes k: "kinv X q d n s"
  shows "steps_ok X (map_option snd (Some (v, s)))"
  by (rule steps_okI [OF _ k]) simp

lemma steps_ends: "ends X r \<Longrightarrow> steps_ok X (map_option (\<lambda>s'. s') r)"
  unfolding ends_def by (auto intro: steps_okI)

text \<open>A call that passes a kernel service's result on.\<close>

lemma serves_steps: "serves X r \<Longrightarrow> (\<And>v s'. map_option snd (f (v, s')) = Some s') \<Longrightarrow>
    steps_ok X (map_option snd (Option.bind r f))"
  unfolding serves_def by (force intro: steps_okI)

lemma serves_steps_map: "serves X r \<Longrightarrow> steps_ok X (map_option snd (map_option (\<lambda>(v, s'). (g v, s')) r))"
  by (rule steps_serves) (rule serves_map)

lemma ends_steps_map: "ends X r \<Longrightarrow> steps_ok X (map_option snd (map_option (\<lambda>s'. (g, s')) r))"
  by (rule steps_serves) (rule serves_ends)

lemma registered_task:
  assumes k: "kinv X q d n s" and t: "registered s t"
  shows "t \<notin> X" "t \<noteq> idle_TCB" "prio_target s (ucast (task_id (tcbs s t))) = Some t" "rt_tid2ptcb s (Some t) = Some t"
proof -
  note a = active_slot_ok [OF kinvD(6) [OF k] t [unfolded registered_def]]
  show "t \<notin> X" "t \<noteq> idle_TCB"
    using a by simp_all
  show "prio_target s (ucast (task_id (tcbs s t))) = Some t"
    using a(4) a(6) by (metis less_irrefl prio_target_def unat_0)
  have "cb_type s (Task t) = TCB"
    using lists_invD(1) [OF krunD(1) [OF kinvD(2) [OF k]]] by (simp add: cb_ok_def)
  then show "rt_tid2ptcb s (Some t) = Some t"
    by (simp add: rt_tid2ptcb_def)
qed

definition call_ok :: "u32 \<Rightarrow> nat set \<Rightarrow> call \<Rightarrow> nat \<Rightarrow> kernel \<Rightarrow> bool" where
  "call_ok clk X c n s \<longleftrightarrow>
     steps_ok (dead_after X c n s) (exec clk c s) \<or> \<not> call_valid c s \<and> exec clk c s = None"

lemma call_okI:
  "steps_ok (dead_after X c n s) r \<Longrightarrow> exec clk c s = r \<Longrightarrow> call_ok clk X c n s"
  by (simp add: call_ok_def)

lemma ucast_8_32: "(ucast (x :: u8) :: u32) = ucast y \<Longrightarrow> x = y"
  by (metis unat_ucast_u8_u32 word_unat_eq_iff)

lemma create_call:
  assumes k: "kinv X q d n s" and n: "run s = Some n" "n \<noteq> idle_TCB"
    and t: "fresh X (td_tcb td) s"
  shows "call_ok clk X (ThreadCreate td arg) n s"
proof (cases "call_valid (ThreadCreate td arg) s")
  case True
  then obtain s' q' n' where "svcThreadCreate s (Some td) arg = Some (Some (td_tcb td), s')"
      "kinv (X - {td_tcb td}) q' d n' s'"
    using svcThreadCreate_kinv [OF k n(1) _ _ t, of arg] by (metis call_valid.simps(1))
  then show ?thesis
    by (auto simp: call_ok_def intro: steps_okI)
next
  case False
  then show ?thesis
    by (auto simp: call_ok_def svcThreadCreate_def thread_def_ok_def Let_def)
qed

lemma terminate_call:
  assumes k: "kinv X q d n s" and n: "run s = Some n" "n \<noteq> idle_TCB"
    and t: "registered s t" and o: "t \<noteq> n \<longrightarrow> releases t s \<and> task_id (tcbs s t) \<noteq> task_id (tcbs s n)"
  shows "call_ok clk X (ThreadTerminate t) n s"
proof -
  let ?tid = "ucast (task_id (tcbs s t)) :: u32"
  have "serves (if t = n \<and> \<not> releases t s then X else insert t X) (rt_tsk_delete s ?tid)"
  proof (cases "t = n")
    case True
    with tsk_delete_self_serves [OF k n, of ?tid] tsk_delete_self_gone [OF k n, of ?tid] show ?thesis
      by simp
  next
    case False
    with o have "?tid \<noteq> ucast (task_id (tcbs s n))"
      using ucast_8_32 by metis
    with False o tsk_delete_other_serves [OF k n(1) t [unfolded registered_def]] show ?thesis
      by simp
  qed
  then show ?thesis
    unfolding call_ok_def exec.simps svcThreadTerminate_def registered_task(4) [OF k t] option.case dead_after.simps
    by (intro disjI1 serves_steps) auto
qed

lemma delay_call:
  assumes k: "kinv X q d n s" and n: "run s = Some n" "n \<noteq> idle_TCB"
  shows "call_ok clk X (Delay ms) n s"
proof (cases "ms = 0")
  case True
  with steps_same [OF k] show ?thesis
    by (simp add: call_ok_def svcDelay_def)
next
  case False
  have "exec clk (Delay ms) s = map_option snd (map_option (\<lambda>s1. (osEventTimeout, s1)) (rt_dly_wait s (ticks clk ms)))"
    using False by (simp add: svcDelay_def)
  from call_okI [OF _ this] ends_steps_map [OF dly_wait_ends [OF k n]] show ?thesis
    by (metis dead_after.simps(5))
qed

lemma yield_call:
  assumes k: "kinv X q d n s" and n: "run s = Some n" "n \<noteq> idle_TCB"
    and p: "prio_of s n \<noteq> 0"
  shows "call_ok clk X ThreadYield n s"
proof -
  have "exec clk ThreadYield s = map_option snd (map_option (\<lambda>s1. (osOK, s1)) (rt_tsk_pass s))"
    by (simp add: svcThreadYield_def)
  from call_okI [OF _ this] ends_steps_map [OF tsk_pass_ends [OF k n p]] show ?thesis
    by (metis dead_after.simps(3))
qed

lemma set_priority_call:
  assumes k: "kinv X q d n s" and n: "run s = Some n" "n \<noteq> idle_TCB"
    and t: "registered s t"
  shows "call_ok clk X (ThreadSetPriority t p) n s"
proof -
  note r = registered_task [OF k t]
  show ?thesis
  proof (cases "p < osPriorityIdle \<or> osPriorityRealtime < p")
    case True
    then show ?thesis
      using steps_same [OF k] by (simp add: call_ok_def svcThreadSetPriority_def r)
  next
    case False
    then have "p \<in> {-3, -2, -1, 0, 1, 2, 3}"
      by (auto simp: osPriorityIdle_def osPriorityRealtime_def)
    then have "(of_int (p - osPriorityIdle + 1) :: u8) \<noteq> 0"
      by (auto simp: osPriorityIdle_def)
    from tsk_prio_serves [OF k n r(3,1,2) this] False show ?thesis
      unfolding call_ok_def exec.simps svcThreadSetPriority_def r(4) option.case dead_after.simps
      by (auto intro!: disjI1 serves_steps)
  qed
qed

lemma mutex_calls:
  assumes k: "kinv X q d n s" and n: "run s = Some n" "n \<noteq> idle_TCB"
  shows "call_ok clk X (MutexCreate i) n s"
    and "(mu_owner (mucbs s i) = Some n \<Longrightarrow> mu_level (mucbs s i) + 1 \<noteq> 0) \<Longrightarrow> call_ok clk X (MutexWait i ms) n s"
    and "call_ok clk X (MutexRelease i) n s" and "call_ok clk X (MutexDelete i) n s"
proof -
  show "call_ok clk X (MutexCreate i) n s"
    using mut_init_serves [OF k, of i] by (auto simp: call_ok_def svcMutexCreate_def intro: steps_okI)
  show "call_ok clk X (MutexWait i ms) n s"
    if "mu_owner (mucbs s i) = Some n \<Longrightarrow> mu_level (mucbs s i) + 1 \<noteq> 0"
  proof (cases "cb_type s (Mut i) = MUCB")
    case True
    from mut_wait_serves [OF k True n that] True show ?thesis
      unfolding call_ok_def exec.simps svcMutexWait_def option.case dead_after.simps
      by (auto intro!: disjI1 serves_steps)
  qed (use steps_same [OF k] in \<open>simp add: call_ok_def svcMutexWait_def\<close>)
  show "call_ok clk X (MutexRelease i) n s"
  proof (cases "cb_type s (Mut i) = MUCB")
    case True
    from mut_release_serves [OF k True n] True show ?thesis
      unfolding call_ok_def exec.simps svcMutexRelease_def option.case dead_after.simps
      by (auto intro!: disjI1 serves_steps)
  qed (use steps_same [OF k] in \<open>simp add: call_ok_def svcMutexRelease_def\<close>)
  show "call_ok clk X (MutexDelete i) n s"
  proof (cases "cb_type s (Mut i) = MUCB")
    case True
    from serves_steps_map [OF mut_delete_serves [OF k True n(1)], of "\<lambda>_. osOK"] True show ?thesis
      by (simp add: call_ok_def svcMutexDelete_def)
  qed (use steps_same [OF k] in \<open>simp add: call_ok_def svcMutexDelete_def\<close>)
qed

lemma semaphore_calls:
  assumes k: "kinv X q d n s" and n: "run s = Some n" "n \<noteq> idle_TCB"
  shows "call_ok clk X (SemaphoreCreate i c) n s" and "call_ok clk X (SemaphoreWait i ms) n s"
    and "call_ok clk X (SemaphoreRelease i) n s"
    and "\<forall>e \<in> set (posts s). fst e \<noteq> Sem i \<Longrightarrow> call_ok clk X (SemaphoreDelete i) n s"
proof -
  show "call_ok clk X (SemaphoreCreate i c) n s"
    using sem_init_serves [OF k, of i] by (auto simp: call_ok_def svcSemaphoreCreate_def osFeature_Semaphore_def intro: steps_okI)
  show "call_ok clk X (SemaphoreWait i ms) n s"
  proof (cases "cb_type s (Sem i) = SCB")
    case True
    from sem_wait_serves [OF k True n] True show ?thesis
      unfolding call_ok_def exec.simps svcSemaphoreWait_def option.case dead_after.simps
      by (auto intro!: disjI1 serves_steps)
  qed (use steps_same [OF k] in \<open>simp add: call_ok_def svcSemaphoreWait_def\<close>)
  show "call_ok clk X (SemaphoreRelease i) n s"
  proof (cases "cb_type s (Sem i) = SCB \<and> ucast (tokens (scbs s i)) \<noteq> osFeature_Semaphore")
    case True
    with serves_steps_map [OF sem_send_serves [OF k _ n(1)], of i "\<lambda>_. osOK"] show ?thesis
      by (simp add: call_ok_def svcSemaphoreRelease_def)
  qed (use steps_same [OF k] in \<open>auto simp: call_ok_def svcSemaphoreRelease_def\<close>)
  show "call_ok clk X (SemaphoreDelete i) n s" if p: "\<forall>e \<in> set (posts s). fst e \<noteq> Sem i"
  proof (cases "cb_type s (Sem i) = SCB")
    case True
    from serves_steps_map [OF sem_delete_serves [OF k True n(1) p], of "\<lambda>_. osOK"] True show ?thesis
      by (simp add: call_ok_def svcSemaphoreDelete_def)
  qed (use steps_same [OF k] in \<open>simp add: call_ok_def svcSemaphoreDelete_def\<close>)
qed

lemma evt_wait_run: "rt_evt_wait s f w a = Some (OS_R_EVT, s') \<Longrightarrow> run s' = run s"
  by (auto simp: rt_evt_wait_def Let_def split: if_splits bind_splits)

lemma evt_wait_steps:
  assumes k: "kinv X q d n s" and n: "run s = Some n" "n \<noteq> idle_TCB"
  shows "steps_ok X (map_option snd (do {
    (res, s1) \<leftarrow> rt_evt_wait s f timeout a;
    if res = OS_R_EVT then do { w \<leftarrow> rt_evt_get s1; Some (g w, s1) } else Some (v, s1) }))"
proof -
  from evt_wait_serves [OF k n] obtain res s1 q1 d1 n1
    where op: "rt_evt_wait s f timeout a = Some (res, s1)" and k1: "kinv X q1 d1 n1 s1"
    unfolding serves_def by blast
  have "res = OS_R_EVT \<Longrightarrow> rt_evt_get s1 = Some (waits (tcbs s1 n))"
    using evt_wait_run op n(1) by (auto simp: rt_evt_get_def)
  then show ?thesis
    using op by (intro steps_okI [OF _ k1]) auto
qed

lemma signal_calls:
  assumes k: "kinv X q d n s" and n: "run s = Some n" "n \<noteq> idle_TCB"
  shows "registered s t \<Longrightarrow> call_ok clk X (SignalSet t sig) n s"
    and "registered s t \<Longrightarrow> call_ok clk X (SignalClear t sig) n s"
    and "call_ok clk X (SignalWait sig ms) n s"
proof -
  show "call_ok clk X (SignalSet t sig) n s" if t: "registered s t"
  proof (cases "bad_signals sig")
    case False
    have "active_slot s (ucast (task_id (tcbs s t))) \<noteq> None"
      using t by (simp add: registered_def)
    from ends_steps_map [OF evt_set_ends [OF k n(1) this]] False show ?thesis
      by (auto simp: call_ok_def svcSignalSet_def registered_task [OF k t])
  qed (use steps_same [OF k] in \<open>simp add: call_ok_def svcSignalSet_def registered_task [OF k t]\<close>)
  show "call_ok clk X (SignalClear t sig) n s" if t: "registered s t"
  proof (cases "bad_signals sig")
    case False
    have "active_slot s (ucast (task_id (tcbs s t))) \<noteq> None"
      using t by (simp add: registered_def)
    from ends_steps_map [OF evt_clr_ends [OF k this]] False show ?thesis
      by (auto simp: call_ok_def svcSignalClear_def registered_task [OF k t])
  qed (use steps_same [OF k] in \<open>simp add: call_ok_def svcSignalClear_def registered_task [OF k t]\<close>)
  show "call_ok clk X (SignalWait sig ms) n s"
  proof (cases "bad_signals sig")
    case False
    show ?thesis
      using False evt_wait_steps [OF k n, where f = "ucast sig" and a = True and g = "\<lambda>w. \<lparr>ev_status = osEventSignal, ev_value = Some (if sig \<noteq> 0 then sig else ucast w)\<rparr>"]
        evt_wait_steps [OF k n, where f = "0xFFFF" and a = False and g = "\<lambda>w. \<lparr>ev_status = osEventSignal, ev_value = Some (if sig \<noteq> 0 then sig else ucast w)\<rparr>"]
      by (auto simp: call_ok_def svcSignalWait_def)
  qed (use steps_same [OF k] in \<open>simp add: call_ok_def svcSignalWait_def\<close>)
qed

lemma ucast_u32_u16_nat: "(ucast (x :: u32) :: u16) = of_nat (unat x)"
  by (simp add: word_unat_eq_iff unat_ucast_u32_u16 unat_of_nat)

lemma message_queue_size:
  fixes sz :: u32
  assumes "sz < 16380" and "sz \<noteq> 0"
  shows "unat (m_size (mcbs (rt_mbx_init s i (ucast (4 * (sz + 4)))) i)) = unat sz"
proof -
  have u: "unat sz < 16380" "0 < unat sz"
    using assms by (auto simp: word_less_nat_alt unat_gt_0)
  have "unat (4 * (sz + 4)) = 4 * (unat sz + 4)"
    using u by (simp add: unat_word_ariths)
  then have "(ucast (4 * (sz + 4)) :: u16) = of_nat (4 * (unat sz + 4))"
    by (simp only: ucast_u32_u16_nat)
  with rt_mbx_init_size [OF u(2,1)] show ?thesis
    by simp
qed

lemma message_calls:
  assumes k: "kinv X q d n s" and n: "run s = Some n" "n \<noteq> idle_TCB"
  shows "sz < 16380 \<Longrightarrow> call_ok clk X (MessageCreate sz i) n s"
    and "call_ok clk X (MessagePut i m ms) n s" and "call_ok clk X (MessageGet i ms) n s"
proof -
  show "call_ok clk X (MessageCreate sz i) n s" if sz: "sz < 16380"
  proof (cases "call_valid (MessageCreate sz i) s")
    case True
    with message_queue_size [OF sz] have "0 < unat (m_size (mcbs (rt_mbx_init s i (ucast (4 * (sz + 4)))) i))"
      by (simp add: unat_gt_0)
    from mbx_init_serves [OF k _ this] True show ?thesis
      by (auto simp: call_ok_def svcMessageCreate_def intro: steps_okI)
  next
    case False
    then show ?thesis
      by (auto simp: call_ok_def svcMessageCreate_def)
  qed
  show "call_ok clk X (MessagePut i m ms) n s"
  proof (cases "cb_type s (Mbx i) = MCB")
    case True
    from mbx_send_serves [OF k True n] True show ?thesis
      unfolding call_ok_def exec.simps svcMessagePut_def option.case dead_after.simps
      by (auto intro!: disjI1 serves_steps)
  qed (use steps_same [OF k] in \<open>simp add: call_ok_def svcMessagePut_def\<close>)
  show "call_ok clk X (MessageGet i ms) n s"
  proof (cases "cb_type s (Mbx i) = MCB")
    case True
    from mbx_wait_serves [OF k True n, of "ticks clk ms"] True show ?thesis
      by (auto simp: call_ok_def svcMessageGet_def intro: steps_okI)
  qed (use steps_same [OF k] in \<open>simp add: call_ok_def svcMessageGet_def\<close>)
qed

lemma allowed_call_ok:
  assumes k: "kinv X q d n s" and n: "run s = Some n" "n \<noteq> idle_TCB" and a: "allowed X c n s"
  shows "call_ok clk X c n s"
  using a
  by (cases c)
    (simp_all add: create_call [OF k n] terminate_call [OF k n] delay_call [OF k n] yield_call [OF k n]
      set_priority_call [OF k n] mutex_calls [OF k n] semaphore_calls [OF k n] signal_calls [OF k n]
      message_calls [OF k n])

section \<open>Interrupts\<close>

lemma psq_enq_kinv:
  assumes k: "kinv X q d n s" and e: "post_ok X s (p, a)" "post_plain (p, a)" and op: "rt_psq_enq s p a = Some s'"
  shows "kinv X q d n s' \<and> run s' = run s"
proof -
  have "q_count (os_psq s) \<noteq> q_size (os_psq s)"
    using op by (auto simp: rt_psq_enq_def rt_inc_qi_def Let_def split: if_splits)
  from psq_enq_serves [OF k e this] op show ?thesis
    by auto
qed

lemma isr_semaphore_kinv:
  assumes k: "kinv X q d n s" and op: "isrSemaphoreRelease s (Some i) = Some (r, s')"
  shows "kinv X q d n s' \<and> run s' = run s"
  using op k psq_enq_kinv [OF k, of "Sem i" 0]
  by (auto simp: isrSemaphoreRelease_def isr_sem_send_def split: if_splits)

lemma isr_signal_kinv:
  assumes k: "kinv X q d n s" and t: "registered s t" and op: "isrSignalSet s (Some t) sig = Some (v, s')"
  shows "kinv X q d n s' \<and> run s' = run s"
  using op k t psq_enq_kinv [OF k, of "Task t"] registered_task [OF k t]
  by (auto simp: isrSignalSet_def isr_evt_set_def registered_def split: if_splits)

theorem kstep_ok:
  assumes "kstep clk x y" and "sys_ok x"
  shows "sys_ok y"
  using assms
proof (induction rule: kstep.induct)
  case (svc s n X c clk s')
  then obtain q d where "kinv X q d n s"
    by (auto simp: sys_ok_def)
  from allowed_call_ok [OF this svc(1-3), of clk] svc(4) show ?case
    by (auto simp: call_ok_def steps_ok_def)
next
  case (isr_semaphore s i r s' clk X)
  then show ?case
    using isr_semaphore_kinv by (fastforce simp: sys_ok_def)
next
  case (isr_signal s t sig v s' clk X)
  then show ?case
    using isr_signal_kinv by (fastforce simp: sys_ok_def)
next
  case (pend_sv s s' clk X)
  then obtain q d n where "kinv X q d n s" "run s = Some n"
    by (auto simp: sys_ok_def)
  from pop_req_ends(1) [OF this] pend_sv(1) sys_ok_switch show ?case
    by (auto simp: ends_def)
next
  case (sys_tick ts addr tq s ts' s' clk X)
  then obtain q d n where "kinv X q d n s" "run s = Some n"
    by (auto simp: sys_ok_def)
  from systick_serves [OF this sys_tick(1), of addr tq] sys_tick(2) sys_ok_switch show ?case
    by auto
qed

lemma reach_sys_ok: "reach clk x0 x \<Longrightarrow> sys_ok x0 \<Longrightarrow> sys_ok x"
  by (induction rule: reach.induct) (auto intro: kstep_ok)

end
