(* ===== verification/Rtx_Boot.thy ===== *)
theory Rtx_Boot
  imports Rtx_Kernel
begin

text \<open>
  The start of the kernel: from cleared memory \<open>svcKernelInitialize\<close> and \<open>svcKernelStart\<close> reach a
  state in which the first context switch establishes the system invariant.
\<close>

definition cleared :: "kernel \<Rightarrow> bool" where
  "cleared s \<longleftrightarrow> (\<forall>h. cb_type s h = TCB) \<and> (\<forall>t. state_of s t = INACTIVE) \<and>
     (\<forall>t. p_rlnk s (Task t) = None) \<and> (\<forall>t. p_blnk s (Task t) = None) \<and> q_count (os_psq s) = 0 \<and>
     0 < length (os_active_TCB s) \<and> length (os_active_TCB s) < 255"

definition conf_ok :: "os_conf \<Rightarrow> bool" where
  "conf_ok cf \<longleftrightarrow> 0 < cf_fifo_size cf \<and>
     (\<exists>sz i. cf_timer_queue cf = Some (sz, Some i) \<and> 0 < sz \<and> sz < 16380) \<and>
     (\<exists>td. cf_timer_thread cf = Some td \<and> thread_def_ok td \<and> td_tcb td \<noteq> idle_TCB)"

lemma rt_put_prio_empty:
  "p_lnk s Rdy = None \<Longrightarrow> \<not> sem_mbx (cb_type s Rdy) \<Longrightarrow>
    rt_put_prio s Rdy t = Some (set_rlnk (Task t) None (set_lnk Rdy (Some t) (set_lnk (Task t) None s)))"
  by (simp add: rt_put_prio_def find_prio.simps)

lemma rt_put_prio_behind:
  "p_lnk s Rdy = Some u \<Longrightarrow> p_lnk s (Task u) = None \<Longrightarrow> prio_of s t \<le> prio_of s u \<Longrightarrow> \<not> sem_mbx (cb_type s Rdy) \<Longrightarrow>
    rt_put_prio s Rdy t = Some (set_rlnk (Task t) None (set_lnk (Task u) (Some t) (set_lnk (Task t) None s)))"
  by (simp add: rt_put_prio_def find_prio.simps)

text \<open>What holds of the kernel when \<open>svcKernelStart\<close> returns; \<open>t\<close> is the thread of the timers.\<close>

definition started :: "u8 \<Rightarrow> nat \<Rightarrow> u16 \<Rightarrow> nat \<Rightarrow> u8 \<Rightarrow> kernel \<Rightarrow> kernel \<Rightarrow> bool" where
  "started fifo i sz t p s k \<longleftrightarrow>
     (\<forall>h. cb_type k h = (if h = Rdy \<or> h = Dly then HCB else if h = Mbx i then MCB else TCB)) \<and>
     p_lnk k Rdy = Some idle_TCB \<and> p_lnk k (Task idle_TCB) = None \<and> p_lnk k (Mbx i) = None \<and>
     (\<forall>u. p_rlnk k (Task u) = None \<and> p_blnk k (Task u) = None) \<and> p_dlnk k Dly = None \<and> delta_time k Dly = 0 \<and>
     (\<forall>u. state_of k u = (if u = t then RUNNING else if u = idle_TCB then READY else INACTIVE)) \<and>
     prio_of k t = p \<and> prio_of k idle_TCB = 0 \<and> task_id (tcbs k t) = 1 \<and> task_id (tcbs k idle_TCB) = 255 \<and>
     mcbs k i = mcbs (rt_mbx_init s i sz) i \<and>
     os_active_TCB k = Some t # replicate (length (os_active_TCB s) - 1) None \<and> new_tsk k = Some t \<and>
     os_psq k = (os_psq s)\<lparr>q_first := 0, q_last := 0, q_size := fifo\<rparr>"

lemma boot_runs:
  assumes c: "cleared s" and td: "thread_def_ok td" "td_tcb td \<noteq> idle_TCB"
    and cf: "cf_timer_queue cf = Some (sz, Some i)" "0 < sz" "cf_timer_thread cf = Some td"
    and o: "\<not> os_initialized o1" "\<not> os_running o1" "kern o1 = s"
  shows "\<exists>o2 o3. svcKernelInitialize cf o1 = Some (osOK, o2) \<and> svcKernelStart cf o2 = Some (osOK, o3) \<and>
    os_running o3 \<and> timer_thread o3 = Some (td_tcb td) \<and> timer_queue o3 = Some i \<and> started (cf_fifo_size cf) i (ucast (4 * (sz + 4))) (td_tcb td) (of_int (tpriority td - osPriorityIdle + 1)) s (kern o3)"
proof -
  define p :: u8 where "p = of_int (tpriority td - osPriorityIdle + 1)"
  have "tpriority td \<in> {-3, -2, -1, 0, 1, 2, 3}"
    using td(1) by (auto simp: thread_def_ok_def osPriorityIdle_def osPriorityRealtime_def)
  then have p: "p \<in> {1, 2, 3, 4, 5, 6, 7}"
    by (auto simp: p_def osPriorityIdle_def)
  define k1 where "k1 = set_prio idle_TCB 255 (rt_sys_init (cf_fifo_size cf) (cf_rrobin cf) s)"
  define o2 where "o2 = o1\<lparr>kern := k1, os_initialized := True\<rparr>"
  have i1: "svcKernelInitialize cf o1 = Some (osOK, o2)"
    using o by (simp add: svcKernelInitialize_def k1_def o2_def rt_sys_init_def rt_init_robin_def Let_def)
  define k2 where "k2 = rt_mbx_init k1 i (ucast (4 * (sz + 4)))"
  have i2: "svcMessageCreate k1 (Some (sz, Some i)) = Some (i, k2)"
    using cf(2) c by (simp add: svcMessageCreate_def k2_def k1_def rt_sys_init_def rt_init_robin_def Let_def
      cleared_def rt_init_context_def)
  obtain N where N: "length (os_active_TCB s) = Suc N"
    using c by (cases "length (os_active_TCB s)") (auto simp: cleared_def)
  have tid: "rt_get_TID k2 = 1" and act: "os_active_TCB k2 = replicate (Suc N) None"
    using N by (simp_all add: rt_get_TID_def k2_def rt_mbx_init_def k1_def rt_sys_init_def rt_init_robin_def
      Let_def rt_init_context_def)
  define t where "t = td_tcb td"
  define k3 where "k3 = rt_init_context (upd_tcb t (\<lambda>tc. tc\<lparr>task_id := 1, msg := 0\<rparr>)
    (k2\<lparr>os_active_TCB := (os_active_TCB k2)[0 := Some t]\<rparr>)) t p"
  define k4 where "k4 = set_rlnk (Task t) None (set_lnk Rdy (Some t) (set_lnk (Task t) None (set_state t READY k3)))"
  note defs = k3_def k2_def k1_def rt_mbx_init_def rt_sys_init_def rt_init_robin_def Let_def rt_init_context_def
  have t: "t \<noteq> idle_TCB"
    using td(2) by (simp add: t_def)
  have k3: "p_lnk k3 Rdy = None" "cb_type k3 Rdy = HCB" "run k3 = Some idle_TCB" "prio_of k3 idle_TCB = 255"
    "prio_of k3 t = p" "os_active_TCB k3 = Some t # replicate N None"
    using t act by (simp_all add: defs)
  have "rt_dispatch k3 (Some t) = Some k4"
  proof -
    have "\<not> 255 < p"
      using p by auto
    then have "rt_dispatch k3 (Some t) = rt_put_prio (set_state t READY k3) Rdy t"
      by (simp add: rt_dispatch_def k3)
    then show ?thesis
      by (subst (asm) rt_put_prio_empty) (simp_all add: k3 k4_def)
  qed
  moreover have "os_active_TCB k4 ! 0 = Some t"
    by (simp add: k4_def k3)
  ultimately have i3: "svcThreadCreate k2 (Some td) 0 = Some (Some t, k4)"
    using td(1) by (auto simp: svcThreadCreate_def thread_def_ok_def tid Let_def k3_def t_def p_def)
  define k5 where "k5 = set_rlnk (Task idle_TCB) None (set_lnk (Task t) (Some idle_TCB) (set_lnk (Task idle_TCB) None
    (set_prio idle_TCB 0 k4)))"
  define k6 where "k6 = rt_switch_req (set_lnk (Task t) None (set_lnk Rdy (Some idle_TCB) (set_state idle_TCB READY k5))) t"
  have k4: "p_lnk k4 Rdy = Some t" "p_lnk k4 (Task t) = None" "cb_type k4 Rdy = HCB" "run k4 = Some idle_TCB" "prio_of k4 t = p"
    using t k3 by (simp_all add: k4_def)
  have "rt_put_prio (set_prio idle_TCB 0 k4) Rdy idle_TCB = Some k5"
    unfolding k5_def using k4 t by (subst rt_put_prio_behind [of _ t]) simp_all
  moreover have "0 < p"
    using p by auto
  moreover have "rt_dispatch (set_state idle_TCB READY k5) None =
      Some k6"
    using k4 t by (simp add: rt_dispatch_def rt_get_first_def k5_def k6_def)
  ultimately have i4: "rt_tsk_prio k4 0 0 = Some (OS_R_OK, k6)"
    using k4 t by (simp add: rt_tsk_prio_def tsk_prio_run_def rt_rdy_prio_def give_way_def)
  have K1: "cb_type k1 h = (if h = Rdy \<or> h = Dly then HCB else TCB)" "p_rlnk k1 (Task u) = None"
      "p_blnk k1 (Task u) = None" "p_dlnk k1 Dly = None" "delta_time k1 Dly = 0" "u \<noteq> idle_TCB \<Longrightarrow> state_of k1 u = INACTIVE"
      "task_id (tcbs k1 idle_TCB) = 255" "mcbs k1 = mcbs s" "os_active_TCB k1 = replicate (length (os_active_TCB s)) None"
      "os_psq k1 = (os_psq s)\<lparr>q_first := 0, q_last := 0, q_size := cf_fifo_size cf\<rparr>" for h u
    using c by (auto simp: k1_def rt_sys_init_def rt_init_robin_def Let_def rt_init_context_def cleared_def)
  have K3: "cb_type k3 h = (if h = Rdy \<or> h = Dly then HCB else if h = Mbx i then MCB else TCB)" "p_rlnk k3 (Task u) = None"
      "p_blnk k3 (Task u) = None" "p_dlnk k3 Dly = None" "delta_time k3 Dly = 0" "p_lnk k3 (Mbx i) = None"
      "u \<noteq> idle_TCB \<Longrightarrow> u \<noteq> t \<Longrightarrow> state_of k3 u = INACTIVE"
      "task_id (tcbs k3 idle_TCB) = 255" "task_id (tcbs k3 t) = 1" "mcbs k3 i = mcbs (rt_mbx_init s i (ucast (4 * (sz + 4)))) i"
      "os_psq k3 = (os_psq s)\<lparr>q_first := 0, q_last := 0, q_size := cf_fifo_size cf\<rparr>" for h u
    using t K1 by (auto simp: k3_def k2_def rt_mbx_init_def rt_init_context_def)
  have K4: "cb_type k4 = cb_type k3" "p_rlnk k4 (Task u) = None" "p_blnk k4 = p_blnk k3" "p_dlnk k4 = p_dlnk k3"
      "delta_time k4 = delta_time k3" "p_lnk k4 (Mbx i) = None" "mcbs k4 = mcbs k3" "os_psq k4 = os_psq k3"
      "u \<noteq> t \<Longrightarrow> tcbs k4 u = tcbs k3 u" "task_id (tcbs k4 t) = 1" "os_active_TCB k4 = os_active_TCB k3" for u
    using t K3 by (auto simp: k4_def)
  have K5: "cb_type k5 = cb_type k3" "p_rlnk k5 (Task u) = None" "p_blnk k5 = p_blnk k3" "p_dlnk k5 = p_dlnk k3"
      "delta_time k5 = delta_time k3" "p_lnk k5 (Mbx i) = None" "mcbs k5 = mcbs k3" "os_psq k5 = os_psq k3"
      "u \<noteq> idle_TCB \<Longrightarrow> tcbs k5 u = tcbs k4 u" "task_id (tcbs k5 idle_TCB) = 255" "prio_of k5 idle_TCB = 0"
      "os_active_TCB k5 = os_active_TCB k3" "p_lnk k5 (Task idle_TCB) = None" for u
    using t K3 K4 by (auto simp: k5_def)
  have ST: "started (cf_fifo_size cf) i (ucast (4 * (sz + 4))) t p s k6"
    using t K3 K4 K5 k3 k4 N by (auto simp: started_def k6_def rt_switch_req_def)
  define o3 where "o3 = o2\<lparr>kern := k6\<lparr>run := None\<rparr>,
    timer_queue := Some i, timer_thread := Some t, os_running := True\<rparr>"
  have "svcKernelStart cf o2 = Some (osOK, o3)"
    using o i2 i3 i4 cf by (simp add: svcKernelStart_def o2_def o3_def)
  moreover have "started (cf_fifo_size cf) i (ucast (4 * (sz + 4))) t p s (kern o3)"
    using ST by (simp add: o3_def started_def)
  ultimately show ?thesis
    using i1 by (auto simp: o3_def t_def p_def)
qed

lemma started_kinv:
  assumes st: "started fifo i sz t p s k" and c: "cleared s" and t: "t \<noteq> idle_TCB" and fifo: "0 < fifo"
    and sz: "0 < unat (m_size (mcbs (rt_mbx_init s i sz) i))"
  shows "kinv {} (\<lambda>h. if h = Rdy then [idle_TCB] else []) [] t k"
proof -
  let ?q = "\<lambda>h. if h = Rdy then [idle_TCB] else []"
  note ST = st [unfolded started_def]
  have cb: "cb_ok k"
    using ST by (simp add: cb_ok_def)
  have live: "live k h \<longleftrightarrow> h = Rdy \<or> h = Mbx i" for h
    using ST by (auto simp: live_def)
  have lists: "lists_inv {} ?q k"
    using ST cb by (auto simp: lists_inv_def live chain_def split: if_splits)
  have "dly_inv [] k"
    using ST by (simp add: dly_inv_def chain_def)
  then have base: "kbase {} ?q [] k"
    using lists ST t by (auto simp: kbase_def live prio_sorted_def split: if_splits)
  have krun: "krun {} ?q [] (Some t) k"
    using base ST by (auto simp: krun_def split: if_splits)
  have "mbx_wf (Mbx i) ?q (mcbs k i)"
    using rt_mbx_init_wf(1) [OF sz, of ?q] ST by simp
  then have obj: "obj_ok {} ?q k h" for h
    using ST by (cases h) (auto simp: obj_ok_simps)
  have psq: "psq_ok {} k"
    using ST c fifo by (simp add: psq_ok_def cleared_def psring.wf_def psring.items_def word_less_nat_alt)
  have "act_ok {} k"
    using ST c t by (auto simp: act_ok_def cleared_def nth_Cons split: nat.splits)
  then show ?thesis
    using krun obj psq ST by (simp add: kinv_def sched_def top_prio_def)
qed

lemma boot_sys_ok:
  assumes c: "cleared (kern o1)" and cf: "conf_ok cf" and o: "\<not> os_initialized o1" "\<not> os_running o1"
  shows "\<exists>o2 o3 td. cf_timer_thread cf = Some td \<and>
    svcKernelInitialize cf o1 = Some (osOK, o2) \<and> svcKernelStart cf o2 = Some (osOK, o3) \<and> os_running o3 \<and>
    timer_thread o3 = Some (td_tcb td) \<and> run (ctx_switch (kern o3)) = Some (td_tcb td) \<and>
    state_of (ctx_switch (kern o3)) (td_tcb td) = RUNNING \<and> sys_ok ({}, ctx_switch (kern o3))"
proof -
  from cf obtain sz i td where q: "cf_timer_queue cf = Some (sz, Some i)" "0 < sz" "sz < 16380"
    and td: "cf_timer_thread cf = Some td" "thread_def_ok td" "td_tcb td \<noteq> idle_TCB" and fifo: "0 < cf_fifo_size cf"
    unfolding conf_ok_def by blast
  from boot_runs [OF c td(2,3) q(1,2) td(1) o refl] obtain o2 o3 where
    i: "svcKernelInitialize cf o1 = Some (osOK, o2)" "svcKernelStart cf o2 = Some (osOK, o3)" "os_running o3"
      "timer_thread o3 = Some (td_tcb td)"
    and st: "started (cf_fifo_size cf) i (ucast (4 * (sz + 4))) (td_tcb td)
      (of_int (tpriority td - osPriorityIdle + 1)) (kern o1) (kern o3)"
    by blast
  have "0 < unat (m_size (mcbs (rt_mbx_init (kern o1) i (ucast (4 * (sz + 4)))) i))"
    using message_queue_size [OF q(3), of "kern o1" i] q(2) by (simp add: unat_gt_0)
  from sys_ok_switch [OF started_kinv [OF st c td(3) fifo this]] have "sys_ok ({}, ctx_switch (kern o3))" .
  moreover have "run (ctx_switch (kern o3)) = Some (td_tcb td)" "state_of (ctx_switch (kern o3)) (td_tcb td) = RUNNING"
    using st by (simp_all add: started_def ctx_switch_def)
  ultimately show ?thesis
    using i td(1) by blast
qed

text \<open>The system after its start, and the facts of the invariant in terms of the kernel's own fields.\<close>

definition booted :: "nat set \<times> kernel \<Rightarrow> bool" where
  "booted x \<longleftrightarrow> (\<exists>cf o1 r1 o2 r2 o3. cleared (kern o1) \<and> conf_ok cf \<and> \<not> os_initialized o1 \<and> \<not> os_running o1 \<and>
     svcKernelInitialize cf o1 = Some (r1, o2) \<and> svcKernelStart cf o2 = Some (r2, o3) \<and>
     x = ({}, ctx_switch (kern o3)))"

lemma booted_sys_ok: "booted x \<Longrightarrow> sys_ok x"
  unfolding booted_def using boot_sys_ok by fastforce

lemma booted_reach: "booted x0 \<Longrightarrow> reach clk x0 (X, s) \<Longrightarrow> \<exists>q d n. kinv X q d n s \<and> run s = Some n"
  using reach_sys_ok [OF _ booted_sys_ok] by (fastforce simp: sys_ok_def)

definition boot_kernel :: kernel where
  "boot_kernel = \<lparr>
     p_lnk = \<lambda>_. None, p_rlnk = \<lambda>_. None, p_dlnk = \<lambda>_. None, p_blnk = \<lambda>_. None, delta_time = \<lambda>_. 0,
     cb_type = \<lambda>_. TCB,
     tcbs = \<lambda>_. \<lparr>t_state = INACTIVE, prio = 0, task_id = 0, interval_time = 0, events = 0, waits = 0, msg = 0,
       ret0 = 0, ret1 = 0\<rparr>,
     scbs = \<lambda>_. \<lparr>tokens = 0\<rparr>,
     mcbs = \<lambda>_. \<lparr>mb_state = 0, m_first = 0, m_last = 0, m_count = 0, m_size = 0, m_msg = \<lambda>_. 0\<rparr>,
     mucbs = \<lambda>_. \<lparr>mu_prio = 0, mu_level = 0, mu_owner = None\<rparr>,
     run = None, new_tsk = None, os_active_TCB = replicate 8 None, os_time = 0, robin_task = None,
     robin_time = 0, robin_tout = 0,
     os_psq = \<lparr>q_first = 0, q_last = 0, q_count = 0, q_size = 0, q_ent = \<lambda>_. (Rdy, 0)\<rparr>, mem = \<lambda>_. 0\<rparr>"

definition boot_os :: os where
  "boot_os = \<lparr>kern = boot_kernel, os_initialized = False, os_running = False, timer_queue = None, timer_thread = None\<rparr>"

definition boot_conf :: os_conf where
  "boot_conf = \<lparr>cf_fifo_size = 16, cf_rrobin = 5, cf_timer_queue = Some (4, Some 0),
     cf_timer_thread = Some \<lparr>pthread = 1, tpriority = 2, stacksize = 200, stack_pointer = 1, td_tcb = 1\<rparr>\<rparr>"

lemma boot_example: "cleared (kern boot_os)" "conf_ok boot_conf" "\<not> os_initialized boot_os" "\<not> os_running boot_os"
  by (simp_all add: cleared_def boot_os_def boot_kernel_def conf_ok_def boot_conf_def thread_def_ok_def
    osPriorityIdle_def osPriorityRealtime_def idle_TCB_def)

lemma booted_example: "\<exists>s. booted ({}, s) \<and> run s = Some 1"
proof -
  from boot_sys_ok [OF boot_example] obtain o2 o3 where
    "svcKernelInitialize boot_conf boot_os = Some (osOK, o2)" "svcKernelStart boot_conf o2 = Some (osOK, o3)"
    "run (ctx_switch (kern o3)) = Some 1"
    by (auto simp: boot_conf_def)
  then show ?thesis
    unfolding booted_def using boot_example by blast
qed

text \<open>A step after the start: the thread of the timers delays itself.\<close>

lemma reach_example: "\<exists>x0 s s'. booted x0 \<and> exec 1000 (Delay 5) s = Some s' \<and> reach 1000 x0 ({}, ctx_switch s')"
proof -
  from booted_example obtain s where s: "booted ({}, s)" "run s = Some 1"
    by blast
  then obtain q d where k: "kinv {} q d 1 s"
    using booted_sys_ok by (fastforce simp: sys_ok_def)
  have n: "(1::nat) \<noteq> idle_TCB"
    by (simp add: idle_TCB_def)
  from allowed_call_ok [OF k s(2) n, of "Delay 5" 1000] obtain s' where e: "exec 1000 (Delay 5) s = Some s'"
    by (auto simp: call_ok_def steps_ok_def)
  have "kstep 1000 ({}, s) (dead_after {} (Delay 5) 1 s, ctx_switch s')"
    by (rule kstep.svc [OF s(2) n _ e]) simp
  then have "reach 1000 ({}, s) ({}, ctx_switch s')"
    using reach.step [OF reach.start] by simp
  with s(1) e show ?thesis
    by blast
qed

end
