(* ===== verification/Rtx_Example.thy ===== *)
theory Rtx_Example
  imports Rtx_Boot
begin

text \<open>
  A kernel state with a task in every kind of list, at which the properties of the kernel are
  instantiated: task 1 runs and owns mutex 1, tasks 8 and 2, which owns mutex 0, and the idle demon
  are ready, task 3 waits for semaphore 0 for at most ten ticks, task 4 for mutex 0, task 6 for mutex 1,
  and task 5 is delayed for four ticks. Semaphore 1 has two tokens, mutex 2 is free, mailbox 0 is
  empty, mailbox 1 holds one message, and task 7 waits to send to the full mailbox 2.
\<close>

definition ex_task :: "tstate \<Rightarrow> u8 \<Rightarrow> u8 \<Rightarrow> tcb" where
  "ex_task st p i = \<lparr>t_state = st, prio = p, task_id = i, interval_time = 0, events = 0, waits = 0,
     msg = 0, ret0 = 0, ret1 = 0\<rparr>"

definition ex_mbx :: "u16 \<Rightarrow> mcb" where
  "ex_mbx c = \<lparr>mb_state = 0, m_first = (if c = 2 then 0 else c), m_last = 0, m_count = c, m_size = 2, m_msg = \<lambda>_. 7\<rparr>"

definition ex_kernel :: kernel where
  "ex_kernel = \<lparr>
     p_lnk = (\<lambda>_. None)(Rdy := Some 8, Task 8 := Some 2, Task 2 := Some idle_TCB, Sem 0 := Some 3, Mut 0 := Some 4, Mut 1 := Some 6, Mbx 2 := Some 7),
     p_rlnk = (\<lambda>_. None)(Task 3 := Some (Sem 0), Task 4 := Some (Mut 0), Task 6 := Some (Mut 1), Task 7 := Some (Mbx 2)),
     p_dlnk = (\<lambda>_. None)(Dly := Some 5, Task 5 := Some 3),
     p_blnk = (\<lambda>_. None)(Task 5 := Some Dly, Task 3 := Some (Task 5)),
     delta_time = (\<lambda>_. 0)(Dly := 4, Task 5 := 6),
     cb_type = (\<lambda>_. TCB)(Rdy := HCB, Dly := HCB, Sem 0 := SCB, Sem 1 := SCB, Mut 0 := MUCB, Mut 1 := MUCB, Mut 2 := MUCB,
       Mbx 0 := MCB, Mbx 1 := MCB, Mbx 2 := MCB),
     tcbs = (\<lambda>_. ex_task INACTIVE 0 0)(idle_TCB := ex_task READY 0 255, 1 := ex_task RUNNING 4 1, 2 := ex_task READY 3 2,
       3 := ex_task WAIT_SEM 5 3, 4 := ex_task WAIT_MUT 2 4, 5 := ex_task WAIT_DLY 6 5, 6 := ex_task WAIT_MUT 3 6, 7 := (ex_task WAIT_MBX 1 7)\<lparr>msg := 9\<rparr>, 8 := ex_task READY 4 8),
     scbs = (\<lambda>_. \<lparr>tokens = 0\<rparr>)(1 := \<lparr>tokens = 2\<rparr>),
     mcbs = (\<lambda>_. ex_mbx 0)(1 := ex_mbx 1, 2 := (ex_mbx 2)\<lparr>mb_state := 2\<rparr>),
     mucbs = (\<lambda>_. \<lparr>mu_prio = 0, mu_level = 0, mu_owner = None\<rparr>)(0 := \<lparr>mu_prio = 3, mu_level = 1, mu_owner = Some 2\<rparr>, 1 := \<lparr>mu_prio = 4, mu_level = 1, mu_owner = Some 1\<rparr>),
     run = Some 1, new_tsk = Some 1,
     os_active_TCB = [Some 1, Some 2, Some 3, Some 4, Some 5, Some 6, Some 7, Some 8, None],
     os_time = 100, robin_task = None, robin_time = 0, robin_tout = 5,
     os_psq = \<lparr>q_first = 1, q_last = 0, q_count = 1, q_size = 4, q_ent = \<lambda>_. (Sem 0, 0)\<rparr>,
     mem = \<lambda>_. 0\<rparr>"

definition ex_lists :: "ptr \<Rightarrow> nat list" where
  "ex_lists = (\<lambda>_. [])(Rdy := [8, 2, idle_TCB], Sem 0 := [3], Mut 0 := [4], Mut 1 := [6], Mbx 2 := [7])"

definition ex_delays :: "(nat \<times> nat) list" where
  "ex_delays = [(5, 4), (3, 10)]"

lemma ex_sel [simp]:
  "p_lnk ex_kernel = (\<lambda>_. None)(Rdy := Some 8, Task 8 := Some 2, Task 2 := Some idle_TCB, Sem 0 := Some 3, Mut 0 := Some 4, Mut 1 := Some 6, Mbx 2 := Some 7)"
  "p_rlnk ex_kernel = (\<lambda>_. None)(Task 3 := Some (Sem 0), Task 4 := Some (Mut 0), Task 6 := Some (Mut 1), Task 7 := Some (Mbx 2))"
  "p_dlnk ex_kernel = (\<lambda>_. None)(Dly := Some 5, Task 5 := Some 3)"
  "p_blnk ex_kernel = (\<lambda>_. None)(Task 5 := Some Dly, Task 3 := Some (Task 5))"
  "delta_time ex_kernel = (\<lambda>_. 0)(Dly := 4, Task 5 := 6)"
  "cb_type ex_kernel = (\<lambda>_. TCB)(Rdy := HCB, Dly := HCB, Sem 0 := SCB, Sem 1 := SCB, Mut 0 := MUCB, Mut 1 := MUCB, Mut 2 := MUCB, Mbx 0 := MCB, Mbx 1 := MCB, Mbx 2 := MCB)"
  "tcbs ex_kernel = (\<lambda>_. ex_task INACTIVE 0 0)(idle_TCB := ex_task READY 0 255, 1 := ex_task RUNNING 4 1, 2 := ex_task READY 3 2, 3 := ex_task WAIT_SEM 5 3, 4 := ex_task WAIT_MUT 2 4, 5 := ex_task WAIT_DLY 6 5, 6 := ex_task WAIT_MUT 3 6, 7 := (ex_task WAIT_MBX 1 7)\<lparr>msg := 9\<rparr>, 8 := ex_task READY 4 8)"
  "scbs ex_kernel = (\<lambda>_. \<lparr>tokens = 0\<rparr>)(1 := \<lparr>tokens = 2\<rparr>)"
  "mcbs ex_kernel = (\<lambda>_. ex_mbx 0)(1 := ex_mbx 1, 2 := (ex_mbx 2)\<lparr>mb_state := 2\<rparr>)"
  "mucbs ex_kernel = (\<lambda>_. \<lparr>mu_prio = 0, mu_level = 0, mu_owner = None\<rparr>)(0 := \<lparr>mu_prio = 3, mu_level = 1, mu_owner = Some 2\<rparr>, 1 := \<lparr>mu_prio = 4, mu_level = 1, mu_owner = Some 1\<rparr>)"
  "run ex_kernel = Some 1"
  "new_tsk ex_kernel = Some 1"
  "os_active_TCB ex_kernel = [Some 1, Some 2, Some 3, Some 4, Some 5, Some 6, Some 7, Some 8, None]"
  "os_time ex_kernel = 100"
  "robin_task ex_kernel = None"
  "robin_time ex_kernel = 0"
  "robin_tout ex_kernel = 5"
  "os_psq ex_kernel = \<lparr>q_first = 1, q_last = 0, q_count = 1, q_size = 4, q_ent = \<lambda>_. (Sem 0, 0)\<rparr>"
  "mem ex_kernel = (\<lambda>_. 0)"
  by (simp_all add: ex_kernel_def)

lemma ex_live: "live ex_kernel h \<longleftrightarrow> h \<in> {Rdy, Sem 0, Sem 1, Mut 0, Mut 1, Mut 2, Mbx 0, Mbx 1, Mbx 2}"
  by (auto simp: live_def)

lemma ex_lists_inv: "lists_inv {} ex_lists ex_kernel"
proof -
  have sem_mbx: "sem_mbx (cb_type ex_kernel h) \<longleftrightarrow> h \<in> {Sem 0, Sem 1, Mut 0, Mut 1, Mut 2, Mbx 0, Mbx 1, Mbx 2}" for h
    by auto
  have "cb_ok ex_kernel"
    by (simp add: cb_ok_def)
  moreover have "live ex_kernel h \<Longrightarrow> chain (p_lnk ex_kernel) h (ex_lists h)" for h
    unfolding ex_live by (auto simp: ex_lists_def chain_def idle_TCB_def)
  moreover have "sem_mbx (cb_type ex_kernel h) \<Longrightarrow> rchain (p_rlnk ex_kernel) h (ex_lists h)" for h
    unfolding sem_mbx by (auto simp: ex_lists_def)
  moreover have "(\<And>h. sem_mbx (cb_type ex_kernel h) \<Longrightarrow> t \<notin> set (ex_lists h)) \<Longrightarrow> p_rlnk ex_kernel (Task t) = None" for t
  proof -
    assume "\<And>h. sem_mbx (cb_type ex_kernel h) \<Longrightarrow> t \<notin> set (ex_lists h)"
    from this [of "Sem 0"] this [of "Mut 0"] this [of "Mut 1"] this [of "Mbx 2"] show ?thesis
      by (simp add: ex_lists_def)
  qed
  moreover have "h \<noteq> h' \<Longrightarrow> set (ex_lists h) \<inter> set (ex_lists h') = {}" for h h'
    by (auto simp: ex_lists_def idle_TCB_def)
  ultimately show ?thesis
    unfolding lists_inv_def by blast
qed

lemma ex_kinv: "kinv {} ex_lists ex_delays 1 ex_kernel"
proof -
  have "dly_inv ex_delays ex_kernel"
    by (auto simp: dly_inv_def chain_def ex_delays_def)
  moreover have "live ex_kernel h \<Longrightarrow> prio_sorted (prio_of ex_kernel) (ex_lists h)" for h
    unfolding ex_live by (auto simp: ex_lists_def ex_task_def idle_TCB_def prio_sorted_def)
  moreover have "t \<in> set (ex_lists h) \<Longrightarrow> state_of ex_kernel t = qstate h" for h t
    by (auto simp: ex_lists_def ex_task_def idle_TCB_def split: if_splits)
  moreover have "state_of ex_kernel t = READY \<Longrightarrow> t \<in> set (ex_lists Rdy)" for t
    by (auto simp: ex_lists_def ex_task_def idle_TCB_def split: if_splits)
  moreover have "t \<in> fst ` set ex_delays \<Longrightarrow> state_of ex_kernel t \<notin> {READY, RUNNING, INACTIVE}" for t
    by (auto simp: ex_delays_def ex_task_def idle_TCB_def)
  ultimately have base: "kbase {} ex_lists ex_delays ex_kernel"
    using ex_lists_inv by (auto simp: kbase_def) (auto simp: ex_delays_def)
  have "krun {} ex_lists ex_delays (Some 1) ex_kernel"
    using base by (auto simp: krun_def ex_task_def ex_lists_def idle_TCB_def split: if_splits)
  moreover have "obj_ok {} ex_lists ex_kernel h" for h
    by (cases h) (auto simp: obj_ok_simps ex_lists_def mbx_wf_def mbring.wf_def ex_mbx_def idle_TCB_def)
  moreover have "psq_ok {} ex_kernel"
    by (simp add: psq_ok_def psring.wf_def psring.items_def)
  moreover have "act_ok {} ex_kernel"
  proof -
    have six: "k < Suc (Suc (Suc (Suc (Suc (Suc (Suc (Suc (Suc 0)))))))) \<Longrightarrow> k = 0 \<or> k = 1 \<or> k = 2 \<or> k = 3 \<or> k = 4 \<or> k = 5 \<or> k = 6 \<or> k = 7 \<or> k = (8::nat)" for k
      by linarith
    then show ?thesis
      by (auto simp: act_ok_def ex_task_def idle_TCB_def dest!: six)
  qed
  ultimately show ?thesis
    by (simp add: kinv_def sched_def top_prio_def) (simp add: ex_lists_def ex_task_def idle_TCB_def)
qed

lemma ex_run: "run ex_kernel = Some 1" "(1::nat) \<noteq> idle_TCB"
  by (simp_all add: idle_TCB_def)

end
