(* ===== verification/Rtx_Properties.thy ===== *)
theory Rtx_Properties
  imports Rtx_Example
begin

text \<open>
  What the parts of the kernel promise, each property with an instance at the kernel state of
  \<open>Rtx_Example\<close>. \<open>lists_inv X q s\<close> and \<open>dly_inv d s\<close> read: the list of the block \<open>h\<close> holds the tasks
  \<open>q h\<close>, the delay list holds the tasks of \<open>d\<close> with the ticks they have left; \<open>sched X q d n s\<close> and
  \<open>kinv X q d n s\<close> add that \<open>n\<close> is the running task and the invariants of the scheduler and of the
  objects hold.
\<close>

lemmas ex_simps = ex_lists_def ex_delays_def ex_task_def ex_mbx_def idle_TCB_def

lemma ex_lists_vals: "ex_lists Rdy = [8, 2, idle_TCB]" "ex_lists (Sem 0) = [3]" "ex_lists (Sem (Suc 0)) = []" "ex_lists (Mut 0) = [4]"
  "ex_lists (Mut (Suc 0)) = [6]" "ex_lists (Mut 2) = []" "ex_lists (Mbx 0) = []" "ex_lists (Mbx (Suc 0)) = []" "ex_lists (Mbx 2) = [7]"
  by (simp_all add: ex_lists_def)

lemmas ex_vals = ex_lists_vals ex_task_def ex_mbx_def idle_TCB_def

lemma ex_sched: "sched {} ex_lists ex_delays 1 ex_kernel"
  by (rule kinvD(1) [OF ex_kinv])

lemma ex_inv: "dly_inv ex_delays ex_kernel" "krun {} ex_lists ex_delays (Some 1) ex_kernel"
  "unqueued ex_lists ex_kernel 5" "live ex_kernel (Sem 0)" "live ex_kernel Rdy"
  using krunD(2) [OF kinvD(2) [OF ex_kinv]] kinvD(2) [OF ex_kinv]
  by (auto simp: unqueued_def ex_live ex_simps)

section \<open>The lists\<close>

lemma ins_prio_split:
  "prio_sorted pr us \<Longrightarrow> ins_prio pr t us = filter (\<lambda>u. pr t \<le> pr u) us @ t # filter (\<lambda>u. pr u < pr t) us"
proof (induction us)
  case (Cons u us)
  show ?case
  proof (cases "pr t \<le> pr u")
    case False
    have "\<forall>w \<in> set us. pr w \<le> pr u"
      using Cons.prems by (auto simp: prio_sorted_def)
    with False have "filter (\<lambda>w. pr t \<le> pr w) us = []" "filter (\<lambda>w. pr w < pr t) us = us"
      by (auto simp: filter_empty_conv filter_id_conv)
    with False show ?thesis
      by simp
  next
    case True
    with Cons show ?thesis
      by (simp add: prio_sorted_def)
  qed
qed simp

text \<open>
  \<open>rt_put_prio\<close> terminates and inserts a task into a list behind every task of at least its
  priority and before the others, keeping their order; the control blocks are not changed otherwise.
\<close>

lemma put_prio_inserts:
  assumes "lists_inv X q s" and "live s h" and "unqueued q s t" and "prio_sorted (prio_of s) (q h)"
  shows "\<exists>s'. rt_put_prio s h t = Some s' \<and> tcbs s' = tcbs s \<and>
    lists_inv (X - {t}) (q(h := filter (\<lambda>u. prio_of s t \<le> prio_of s u) (q h) @
      t # filter (\<lambda>u. prio_of s u < prio_of s t) (q h))) s'"
  using rt_put_prio_refines [OF assms(1-3)] ins_prio_split [OF assms(4)] by auto

lemma put_prio_inserts_witness:
  "\<exists>s'. rt_put_prio ex_kernel (Sem 0) 5 = Some s' \<and> lists_inv {} (ex_lists(Sem 0 := [5, 3])) s'"
proof -
  have "prio_sorted (prio_of ex_kernel) (ex_lists (Sem 0))"
    by (simp add: ex_simps)
  from put_prio_inserts [OF ex_lists_inv ex_inv(4,3) this] show ?thesis
    by (auto simp: ex_vals)
qed

text \<open>
  C18: \<open>rt_put_dly\<close> terminates and puts a task into the delay list at its place in the order of the
  expiry times, before the tasks that expire in the same tick, with the differences of the
  neighbours adjusted: the ticks left of all other tasks are unchanged.
\<close>

lemma put_dly_inserts:
  assumes "dly_inv d s" and "t \<notin> fst ` set d"
  shows "\<exists>s' d1 d2. d = d1 @ d2 \<and> (\<forall>x \<in> set d1. snd x < unat delay) \<and> (\<forall>x \<in> set d2. unat delay \<le> snd x) \<and>
    rt_put_dly s t delay = Some s' \<and> dly_inv (d1 @ (t, unat delay) # d2) s' \<and> tcbs s' = tcbs s"
proof -
  have sorted: "sorted (map snd d)"
    using dly_invD [OF assms(1)] dpath_sorted by blast
  have "\<exists>d1 d2. d = d1 @ d2 \<and> (\<forall>x \<in> set d1. snd x < a) \<and> (\<forall>x \<in> set d2. a \<le> snd x) \<and>
      ins_dly t a d = d1 @ (t, a) # d2" for a
    using sorted
  proof (induction d)
    case (Cons x d)
    show ?case
    proof (cases "snd x < a")
      case True
      from Cons obtain d1 d2 where "d = d1 @ d2" "\<forall>x \<in> set d1. snd x < a" "\<forall>x \<in> set d2. a \<le> snd x"
        "ins_dly t a d = d1 @ (t, a) # d2"
        by auto
      with True show ?thesis
        by (intro exI [of _ "x # d1"] exI [of _ d2]) (cases x, auto)
    next
      case False
      with Cons.prems show ?thesis
        by (intro exI [of _ "[]"] exI [of _ "x # d"]) (cases x, auto)
    qed
  qed simp
  then show ?thesis
    using rt_put_dly_refines [OF assms, of delay] by fastforce
qed

lemma put_dly_inserts_witness:
  "\<exists>s' d1 d2. ex_delays = d1 @ d2 \<and> rt_put_dly ex_kernel 2 7 = Some s' \<and> dly_inv (d1 @ (2, 7) # d2) s'"
proof -
  have "2 \<notin> fst ` set ex_delays"
    by (simp add: ex_simps)
  from put_dly_inserts [OF ex_inv(1) this, of 7] show ?thesis
    by fastforce
qed

text \<open>
  C17: a tick moves exactly the tasks whose time is up from the delay list and from the list of the
  object they wait for to the ready list, and takes one tick off all others; the loop of
  \<open>rt_dec_dly\<close> ends.
\<close>

lemma dec_dly_tick:
  assumes "krun X q d (Some n) s"
  shows "\<exists>s' q'. rt_dec_dly s = Some s' \<and> lists_inv X q' s' \<and>
    dly_inv (map (\<lambda>(t, a). (t, a - 1)) (filter (\<lambda>(t, a). 1 < a) d)) s' \<and>
    set (q' Rdy) = set (q Rdy) \<union> {t. (t, 1) \<in> set d} \<and>
    (\<forall>h. live s h \<longrightarrow> h \<noteq> Rdy \<longrightarrow> set (q' h) = set (q h) - {t. (t, 1) \<in> set d}) \<and>
    (\<forall>t. state_of s' t = (if (t, 1) \<in> set d then READY else state_of s t))"
proof -
  note D = krunD [OF assms]
  have fresh: "fst ` set d \<inter> (X \<union> set (q Rdy)) = {}"
    using D(8,9) D(5) [OF live_Rdy] by fastforce
  have exp: "set (expired d) = {t. (t, 1) \<in> set d}"
  proof -
    have "a \<le> 1 \<longleftrightarrow> a = 1" if "(t, a) \<in> set d" for t a
      using D(3) that by fastforce
    then show ?thesis
      by (auto simp: expired_def image_iff)
  qed
  have oth: "live s h \<Longrightarrow> h \<noteq> Rdy \<Longrightarrow> set (wake_all (prio_of s) (expired d) q h) = set (q h) - set (expired d)" for h
    using wake_all_other lists_invD(4) [OF D(1)] by metis
  from rt_dec_dly_refines [OF D(1,2,3) fresh] obtain l r dl bl de where
    op: "rt_dec_dly s = Some (s\<lparr>p_lnk := l, p_rlnk := r, p_dlnk := dl, p_blnk := bl, delta_time := de,
      tcbs := ready_all (expired d) (tcbs s)\<rparr>)" (is "_ = Some ?s") and
    inv: "lists_inv X (wake_all (prio_of s) (expired d) q) (s\<lparr>p_lnk := l, p_rlnk := r\<rparr>)" and
    dly: "dly_inv (tick_dly d) (s\<lparr>p_dlnk := dl, p_blnk := bl, delta_time := de\<rparr>)"
    by blast
  show ?thesis
  proof (intro exI conjI)
    show "rt_dec_dly s = Some ?s" by (rule op)
    show "lists_inv X (wake_all (prio_of s) (expired d) q) ?s"
      using inv by simp
    show "dly_inv (map (\<lambda>(t, a). (t, a - 1)) (filter (\<lambda>(t, a). 1 < a) d)) ?s"
    proof -
      have "dly_inv e (s\<lparr>p_dlnk := dl, p_blnk := bl, delta_time := de\<rparr>) \<Longrightarrow> dly_inv e ?s" for e
        by (simp add: dly_inv_def)
      then show ?thesis
        using dly by (simp only: tick_dly_def)
    qed
  qed (use oth in \<open>auto simp: exp ready_all_def\<close>)
qed

lemma dec_dly_tick_witness:
  "\<exists>s' q'. rt_dec_dly ex_kernel = Some s' \<and> lists_inv {} q' s' \<and> dly_inv [(5, 3), (3, 9)] s'"
  using dec_dly_tick [OF ex_inv(2)] by (auto simp: ex_delays_def)

section \<open>Semaphores\<close>

lemma u16_less_max: "(x :: u16) < 0xFFFF \<longleftrightarrow> x \<noteq> 0xFFFF"
  using unat_u16_less [of x] by (auto simp: word_less_nat_alt word_unat_eq_iff)

text \<open>
  \<open>rt_sem_send\<close> with a waiting task passes the token on: the count is unchanged, the first of the
  waiting tasks, which has the highest priority among them, leaves the waiting list and the delay
  list, gets the return value 1, and the task with the highest priority among the ready ones and
  it is the running task afterwards.
\<close>

lemma sem_send_wakes:
  assumes k: "kinv X q d n s" and i: "cb_type s (Sem i) = SCB" and q: "q (Sem i) = t # ts" and n: "run s = Some n"
  shows "(\<forall>u \<in> set ts. prio_of s u \<le> prio_of s t) \<and> (\<exists>s' q'. rt_sem_send s i = Some (OS_R_OK, s') \<and>
    q' (Sem i) = ts \<and> scbs s' = scbs s \<and> ret0 (tcbs s' t) = 1 \<and>
    sched X q' (rmv_dly t d) (if prio_of s n < prio_of s t then t else n) s')"
proof -
  have "prio_sorted (prio_of s) (q (Sem i))"
    using krunD(4) [OF kinvD(2) [OF k]] i by (simp add: live_def)
  then have top: "\<forall>u \<in> set ts. prio_of s u \<le> prio_of s t"
    by (auto simp: q prio_sorted_def)
  from rt_sem_send_waiting [OF kinvD(1) [OF k] i q n] obtain s' where
    s': "rt_sem_send s i = Some (OS_R_OK, s')"
      "sched X (disp_q (prio_of s) n t (q(Sem i := ts))) (rmv_dly t d) (disp_run (prio_of s) n t) s'"
    and f: "kframe (rt_ret_val t 1 s) s'"
    by blast
  have "tcbs s' t\<lparr>t_state := INACTIVE\<rparr> = tcbs (rt_ret_val t 1 s) t\<lparr>t_state := INACTIVE\<rparr>" "scbs s' = scbs s"
    using f by (simp_all add: kframe_def rt_ret_val_def)
  then have "ret0 (tcbs s' t\<lparr>t_state := INACTIVE\<rparr>) = 1" "scbs s' = scbs s"
    by (simp_all only:) (simp add: rt_ret_val_def)
  with top s' show ?thesis
    by (intro conjI exI [of _ s'] exI [of _ "disp_q (prio_of s) n t (q(Sem i := ts))"])
      (simp_all add: disp_q_def disp_run_def)
qed

lemma sem_send_wakes_witness:
  "\<exists>s' q'. rt_sem_send ex_kernel 0 = Some (OS_R_OK, s') \<and> ret0 (tcbs s' 3) = 1 \<and> sched {} q' [(5, 4)] 3 s'"
proof -
  have "cb_type ex_kernel (Sem 0) = SCB" "ex_lists (Sem 0) = 3 # []"
    by (simp_all add: ex_vals)
  from sem_send_wakes [OF ex_kinv this ex_run(1)] show ?thesis
    by (auto simp: ex_vals ex_delays_def rmv_dly_def)
qed

text \<open>
  \<open>rt_sem_wait\<close> takes a token when there is one; otherwise it fails without an effect when the
  timeout is 0, and blocks the caller in the waiting list behind the tasks of at least its priority
  when it is not, in the delay list too unless the wait is unlimited.
\<close>

lemma sem_wait_cases:
  assumes k: "kinv X q d n s" and i: "cb_type s (Sem i) = SCB" and n: "run s = Some n" "n \<noteq> idle_TCB"
  shows "if tokens (scbs s i) \<noteq> 0
    then \<exists>s'. rt_sem_wait s i timeout = Some (OS_R_OK, s') \<and>
      tokens (scbs s' i) = tokens (scbs s i) - 1 \<and> sched X q d n s'
    else if timeout = 0 then rt_sem_wait s i timeout = Some (OS_R_TMO, s)
    else \<exists>s' q'. rt_sem_wait s i timeout = Some (OS_R_TMO, s') \<and>
      q' (Sem i) = filter (\<lambda>u. prio_of s n \<le> prio_of s u) (q (Sem i)) @
        n # filter (\<lambda>u. prio_of s u < prio_of s n) (q (Sem i)) \<and>
      sched X q' (if timeout = 0xffff then d else ins_dly n (unat timeout) d) (hd (q Rdy)) s'"
proof -
  have token: "\<exists>s'. rt_sem_wait s i timeout = Some (OS_R_OK, s') \<and>
      tokens (scbs s' i) = tokens (scbs s i) - 1 \<and> sched X q d n s'" if "tokens (scbs s i) \<noteq> 0"
    using rt_sem_wait_token [OF that] kinvD(1) [OF k] by simp
  have fail: "rt_sem_wait s i timeout = Some (OS_R_TMO, s)" if "tokens (scbs s i) = 0" "timeout = 0"
    using that n by (simp add: rt_sem_wait_def)
  have "prio_sorted (prio_of s) (q (Sem i))"
    using krunD(4) [OF kinvD(2) [OF k]] i by (simp add: live_def)
  then have ins: "ins_prio (prio_of s) n (q (Sem i)) = filter (\<lambda>u. prio_of s n \<le> prio_of s u) (q (Sem i)) @
      n # filter (\<lambda>u. prio_of s u < prio_of s n) (q (Sem i))"
    by (rule ins_prio_split)
  have block: "\<exists>s' q'. rt_sem_wait s i timeout = Some (OS_R_TMO, s') \<and>
      q' (Sem i) = filter (\<lambda>u. prio_of s n \<le> prio_of s u) (q (Sem i)) @
        n # filter (\<lambda>u. prio_of s u < prio_of s n) (q (Sem i)) \<and>
      sched X q' (if timeout = 0xffff then d else ins_dly n (unat timeout) d) (hd (q Rdy)) s'"
    if t: "tokens (scbs s i) = 0" "timeout \<noteq> 0"
  proof -
    have "dly_wait n timeout d = (if timeout = 0xffff then d else ins_dly n (unat timeout) d)"
      by (simp add: dly_wait_def u16_less_max)
    moreover from rt_sem_wait_block [OF kinvD(1) [OF k] i t(1) n t(2)] obtain s' where
      "rt_sem_wait s i timeout = Some (OS_R_TMO, s')"
      "sched X (q(Sem i := ins_prio (prio_of s) n (q (Sem i)), Rdy := tl (q Rdy)))
        (dly_wait n timeout d) (hd (q Rdy)) s'"
      by blast
    ultimately show ?thesis
      by (intro exI [of _ s'] exI [of _ "q(Sem i := ins_prio (prio_of s) n (q (Sem i)), Rdy := tl (q Rdy))"])
        (simp add: ins)
  qed
  from token fail block show ?thesis
    by (cases "tokens (scbs s i) = 0"; cases "timeout = 0") (simp_all only: if_True if_False simp_thms)
qed

lemma sem_wait_cases_witness:
  "(\<exists>s'. rt_sem_wait ex_kernel 1 5 = Some (OS_R_OK, s') \<and> tokens (scbs s' 1) = 1) \<and>
   rt_sem_wait ex_kernel 0 0 = Some (OS_R_TMO, ex_kernel) \<and>
   (\<exists>s' q'. rt_sem_wait ex_kernel 0 5 = Some (OS_R_TMO, s') \<and> q' (Sem 0) = [3, 1] \<and>
     sched {} q' [(5, 4), (1, 5), (3, 10)] 8 s')"
proof -
  have i: "cb_type ex_kernel (Sem 0) = SCB" "cb_type ex_kernel (Sem 1) = SCB" "tokens (scbs ex_kernel 0) = 0"
    "tokens (scbs ex_kernel 1) = 2"
    by simp_all
  have "\<exists>s'. rt_sem_wait ex_kernel 1 5 = Some (OS_R_OK, s') \<and> tokens (scbs s' 1) = 1"
    using sem_wait_cases [OF ex_kinv i(2) ex_run, of 5] i by auto
  moreover have "rt_sem_wait ex_kernel 0 0 = Some (OS_R_TMO, ex_kernel)"
    using sem_wait_cases [OF ex_kinv i(1) ex_run, of 0] i by simp
  moreover have "\<exists>s' q'. rt_sem_wait ex_kernel 0 5 = Some (OS_R_TMO, s') \<and> q' (Sem 0) = [3, 1] \<and>
     sched {} q' [(5, 4), (1, 5), (3, 10)] 8 s'"
    using sem_wait_cases [OF ex_kinv i(1) ex_run, of 5] i(3) by (auto simp: ex_vals ex_delays_def)
  ultimately show ?thesis
    by blast
qed

section \<open>Mutexes\<close>

text \<open>
  A task that finds a mutex taken by another task and waits for it leaves the owner at least at
  its own priority if that is above the priority the mutex recorded (priority inheritance), at its
  place in the lists by that priority; no other priority changes, the caller is queued for the mutex, and the
  running task still has the highest priority.
\<close>

lemma mut_wait_inherits:
  assumes k: "kinv X q d n s" and i: "cb_type s (Mut i) = MUCB" and n: "run s = Some n" "n \<noteq> idle_TCB"
    and taken: "mu_level (mucbs s i) \<noteq> 0" "mu_owner (mucbs s i) = Some ow" "ow \<noteq> n" and timeout: "timeout \<noteq> 0"
  shows "\<exists>s' q' n'. rt_mut_wait s i timeout = Some (OS_R_TMO, s') \<and> sched X q' (dly_wait n timeout d) n' s' \<and>
    n \<in> set (q' (Mut i)) \<and> mucbs s' = mucbs s \<and> state_of s' n = WAIT_MUT \<and>
    (mu_prio (mucbs s i) < prio_of s n \<longrightarrow> prio_of s' ow = prio_of s n) \<and>
    (\<forall>t. t \<noteq> ow \<or> \<not> mu_prio (mucbs s i) < prio_of s n \<longrightarrow> prio_of s' t = prio_of s t)"
proof -
  have "ow \<notin> X"
    using kinvD(4) [OF k, of "Mut i"] i taken(1,2) by (auto simp: obj_ok_simps split: if_splits)
  from rt_mut_wait_block [OF kinvD(1) [OF k] i taken this n timeout, unfolded Let_def] obtain s' where
    op: "rt_mut_wait s i timeout = Some (OS_R_TMO, s')" and
    s': "sched X ((inherit_q s i ow n q)(Mut i := ins_prio (inherit s i ow n) n (inherit_q s i ow n q (Mut i)),
      Rdy := tl (inherit_q s i ow n q Rdy))) (dly_wait n timeout d) (hd (inherit_q s i ow n q Rdy)) s'"
      (is "sched X ?q' _ ?n' s'") and
    f: "kframe (set_prio ow (inherit s i ow n ow) s) s'"
    by blast
  have "prio_of s' t = (if t = ow then inherit s i ow n ow else prio_of s t)" for t
    using kframe_prio [OF f, of t] by simp
  then have pr: "mu_prio (mucbs s i) < prio_of s n \<longrightarrow> prio_of s' ow = prio_of s n"
    "\<forall>t. t \<noteq> ow \<or> \<not> mu_prio (mucbs s i) < prio_of s n \<longrightarrow> prio_of s' t = prio_of s t"
    by (auto simp: inherit_def)
  have m: "mucbs s' = mucbs s" "cb_type s' = cb_type s"
    using f by (simp_all add: kframe_def)
  have q: "n \<in> set (?q' (Mut i))"
    by simp
  then have "state_of s' n = WAIT_MUT"
    using krunD(5) [of X ?q' _ "Some ?n'" s' "Mut i" n] s' m i by (auto simp: sched_def live_def)
  with op s' q m pr show ?thesis
    by blast
qed

lemma mut_wait_inherits_witness:
  "\<exists>s' q' n'. rt_mut_wait ex_kernel 0 7 = Some (OS_R_TMO, s') \<and> prio_of s' 2 = 4 \<and> 1 \<in> set (q' (Mut 0)) \<and>
    sched {} q' [(5, 4), (1, 7), (3, 10)] n' s'"
proof -
  have i: "cb_type ex_kernel (Mut 0) = MUCB" "mu_level (mucbs ex_kernel 0) \<noteq> 0" "mu_owner (mucbs ex_kernel 0) = Some 2"
    "(2::nat) \<noteq> 1" "(7::u16) \<noteq> 0"
    by simp_all
  have "mu_prio (mucbs ex_kernel 0) < prio_of ex_kernel 1" "prio_of ex_kernel 1 = 4" "dly_wait 1 7 ex_delays = [(5, 4), (1, 7), (3, 10)]"
    by (simp_all add: ex_vals ex_delays_def dly_wait_def)
  with mut_wait_inherits [OF ex_kinv i(1) ex_run i(2-5)] show ?thesis
    by metis
qed

text \<open>
  When the owner releases a mutex for the last time and tasks wait for it, the first waiting task,
  one of the highest priority, owns it with level 1 and its current priority recorded, the
  releasing task has the priority recorded for the mutex again, and the scheduler's invariant holds.
\<close>

lemma mut_release_hands_over:
  assumes k: "kinv X q d n s" and i: "cb_type s (Mut i) = MUCB" "q (Mut i) = t # ts"
    and ow: "mu_level (mucbs s i) = 1" "mu_owner (mucbs s i) = Some n" and n: "run s = Some n" "n \<noteq> idle_TCB"
  shows "(\<forall>u \<in> set ts. prio_of s u \<le> prio_of s t) \<and>
    (\<exists>s' q' n'. rt_mut_release s i = Some (OS_R_OK, s') \<and> sched X q' (rmv_dly t d) n' s' \<and> q' (Mut i) = ts \<and>
      mucbs s' i = (mucbs s i)\<lparr>mu_level := 1, mu_owner := Some t, mu_prio := prio_of s t\<rparr> \<and>
      prio_of s' n = mu_prio (mucbs s i) \<and> (\<forall>u. u \<noteq> n \<longrightarrow> prio_of s' u = prio_of s u))"
proof -
  have l: "live s (Mut i)"
    using i by (simp add: live_def)
  have top: "\<forall>u \<in> set ts. prio_of s u \<le> prio_of s t"
    using krunD(4) [OF kinvD(2) [OF k] l] by (auto simp: i(2) prio_sorted_def)
  have "state_of s t = WAIT_MUT"
    using krunD(5) [OF kinvD(2) [OF k] l, of t] i(2) by simp
  then have tn: "t \<noteq> n"
    using krunD(10) [OF kinvD(2) [OF k], of n] krunD(11) [OF kinvD(2) [OF k]] by auto
  let ?pr = "(prio_of s)(n := mu_prio (mucbs s i))"
  from rt_mut_release_waiting [OF kinvD(2) [OF k] i ow n] obtain s' where
    op: "rt_mut_release s i = Some (OS_R_OK, s')" and
    s': "sched X (hand_q ?pr n t (q(Mut i := ts))) (rmv_dly t d) (hand_run ?pr n t (q(Mut i := ts))) s'" and
    f: "kframe (upd_mut i (\<lambda>m. m\<lparr>mu_level := 1, mu_owner := Some t, mu_prio := prio_of s t\<rparr>)
      (rt_ret_val t 0 (mut_freed s i n))) s'"
    by blast
  have "prio_of s' u = (if u = n then mu_prio (mucbs s i) else prio_of s u)" for u
    using kframe_prio [OF f, of u] tn by (simp add: mut_freed_def rt_ret_val_def)
  moreover have "mucbs s' i = (mucbs s i)\<lparr>mu_level := 1, mu_owner := Some t, mu_prio := prio_of s t\<rparr>"
    using f by (simp add: kframe_def mut_freed_def rt_ret_val_def)
  moreover have "hand_q ?pr n t (q(Mut i := ts)) (Mut i) = ts"
    by (subst hand_q_other) simp_all
  ultimately show ?thesis
    using top op s' by auto
qed

lemma mut_release_hands_over_witness:
  "\<exists>s' q' n'. rt_mut_release ex_kernel 1 = Some (OS_R_OK, s') \<and> sched {} q' ex_delays n' s' \<and>
    mu_owner (mucbs s' 1) = Some 6 \<and> prio_of s' 1 = 4"
proof -
  have i: "cb_type ex_kernel (Mut 1) = MUCB" "ex_lists (Mut 1) = 6 # []" "mu_level (mucbs ex_kernel 1) = 1"
    "mu_owner (mucbs ex_kernel 1) = Some 1" "mu_prio (mucbs ex_kernel 1) = 4" "rmv_dly 6 ex_delays = ex_delays"
    by (simp_all add: ex_vals rmv_dly_def ex_delays_def)
  from mut_release_hands_over [OF ex_kinv i(1-4) ex_run] show ?thesis
    unfolding i(5,6) by fastforce
qed

section \<open>Mailboxes\<close>

text \<open>
  Sends (\<open>Some m\<close>) and receives (\<open>None\<close>) with timeout 0, in any order: the messages that were accepted, those that were
  received, and the kernel afterwards. A bounded queue says what they should be.
\<close>

fun run_box :: "kernel \<Rightarrow> nat \<Rightarrow> u32 option list \<Rightarrow> (u32 list \<times> u32 list \<times> kernel) option" where
  "run_box s i [] = Some ([], [], s)"
| "run_box s i (Some m # ops) = do {
     (r, s1) \<leftarrow> rt_mbx_send s i m 0;
     (acc, got, s2) \<leftarrow> run_box s1 i ops;
     Some (if r = OS_R_OK then m # acc else acc, got, s2)
   }"
| "run_box s i (None # ops) = do {
     (r, m, s1) \<leftarrow> rt_mbx_wait s i 0;
     (acc, got, s2) \<leftarrow> run_box s1 i ops;
     Some (acc, if r = OS_R_OK then the m # got else got, s2)
   }"

fun bounded_queue :: "nat \<Rightarrow> 'a list \<Rightarrow> 'a option list \<Rightarrow> 'a list \<times> 'a list \<times> 'a list" where
  "bounded_queue n xs [] = ([], [], xs)"
| "bounded_queue n xs (Some m # ops) =
     (if length xs < n then let (acc, got, ys) = bounded_queue n (xs @ [m]) ops in (m # acc, got, ys) else bounded_queue n xs ops)"
| "bounded_queue n xs (None # ops) =
     (case xs of [] \<Rightarrow> bounded_queue n xs ops | x # xs \<Rightarrow> let (acc, got, ys) = bounded_queue n xs ops in (acc, x # got, ys))"

text \<open>What goes in comes out or stays, in this order.\<close>

lemma bounded_queue_fifo: "bounded_queue n xs ops = (acc, got, ys) \<Longrightarrow> xs @ acc = got @ ys"
  by (induction n xs ops arbitrary: acc got ys rule: bounded_queue.induct)
    (auto simp: Let_def split: if_splits list.splits prod.splits)

definition mbx_idle :: "kernel \<Rightarrow> nat \<Rightarrow> bool" where
  "mbx_idle s i \<longleftrightarrow> p_lnk s (Mbx i) = None \<and> mbring.wf (mcbs s i)"

lemma mbx_idle_wf: "mbx_idle s i \<Longrightarrow> mbx_wf (Mbx i) (\<lambda>_. []) (mcbs s i)"
  by (simp add: mbx_idle_def mbx_wf_def)

lemma length_msgs: "length (msgs s i) = unat (m_count (mcbs s i))"
  by simp

lemma mbx_idle_put:
  assumes "mbx_idle s i" and "length (msgs s i) < unat (m_size (mcbs s i))"
  shows "rt_mbx_send s i m 0 = Some (OS_R_OK, upd_mbx i (\<lambda>b. mb_put b m) s)" "mbx_idle (upd_mbx i (\<lambda>b. mb_put b m) s) i"
    "msgs (upd_mbx i (\<lambda>b. mb_put b m) s) i = msgs s i @ [m]"
    "m_size (mcbs (upd_mbx i (\<lambda>b. mb_put b m) s) i) = m_size (mcbs s i)"
proof -
  have "m_count (mcbs s i) \<noteq> m_size (mcbs s i)" "p_lnk s (Mbx i) = None \<or> mb_state (mcbs s i) \<noteq> 1"
    using assms by (auto simp: mbx_idle_def)
  note st = rt_mbx_send_store [OF mbx_idle_wf [OF assms(1)] this]
  show "rt_mbx_send s i m 0 = Some (OS_R_OK, upd_mbx i (\<lambda>b. mb_put b m) s)" "mbx_idle (upd_mbx i (\<lambda>b. mb_put b m) s) i"
    "msgs (upd_mbx i (\<lambda>b. mb_put b m) s) i = msgs s i @ [m]"
    using st assms(1) by (simp_all add: mbx_idle_def)
  show "m_size (mcbs (upd_mbx i (\<lambda>b. mb_put b m) s) i) = m_size (mcbs s i)"
    by (simp add: mb_put_def mb_store_def Let_def)
qed

lemma mbx_idle_take:
  assumes "mbx_idle s i" and "msgs s i = x # xs"
  shows "rt_mbx_wait s i 0 = Some (OS_R_OK, Some x, upd_mbx i mb_drop s)" "mbx_idle (upd_mbx i mb_drop s) i"
    "msgs (upd_mbx i mb_drop s) i = xs" "m_size (mcbs (upd_mbx i mb_drop s) i) = m_size (mcbs s i)"
proof -
  have "m_count (mcbs s i) \<noteq> 0" "p_lnk s (Mbx i) = None \<or> mb_state (mcbs s i) \<noteq> 2"
    using assms length_msgs [of s i] by (auto simp: mbx_idle_def)
  note st = rt_mbx_wait_message [OF mbx_idle_wf [OF assms(1)] this]
  show "rt_mbx_wait s i 0 = Some (OS_R_OK, Some x, upd_mbx i mb_drop s)" "mbx_idle (upd_mbx i mb_drop s) i"
    "msgs (upd_mbx i mb_drop s) i = xs"
    using st assms by (simp_all add: mbx_idle_def)
  show "m_size (mcbs (upd_mbx i mb_drop s) i) = m_size (mcbs s i)"
    by (simp add: mb_drop_def mb_take_def Let_def)
qed

lemma run_box_queue:
  "mbx_idle s i \<Longrightarrow> bounded_queue (unat (m_size (mcbs s i))) (msgs s i) ops = (acc, got, ys) \<Longrightarrow>
    \<exists>s'. run_box s i ops = Some (acc, got, s') \<and> mbx_idle s' i \<and> msgs s' i = ys"
proof (induction s i ops arbitrary: acc got ys rule: run_box.induct)
  case (2 s i m ops)
  show ?case
  proof (cases "length (msgs s i) < unat (m_size (mcbs s i))")
    case True
    note put = mbx_idle_put [OF "2.prems"(1) True, of m]
    with True "2.prems"(2) obtain acc' where "acc = m # acc'"
      "bounded_queue (unat (m_size (mcbs (upd_mbx i (\<lambda>b. mb_put b m) s) i))) (msgs (upd_mbx i (\<lambda>b. mb_put b m) s) i) ops = (acc', got, ys)"
      by (auto simp: Let_def split: prod.splits simp del: mbring.length_items)
    with "2.IH" [OF put(1) refl put(2)] put(1) show ?thesis
      by auto
  next
    case False
    then have "m_count (mcbs s i) = m_size (mcbs s i)"
      using mbx_wfD(3) [OF mbx_idle_wf [OF "2.prems"(1)]] by (simp add: word_unat_eq_iff)
    then have send: "rt_mbx_send s i m 0 = Some (OS_R_TMO, s)"
      using "2.prems"(1) by (intro rt_mbx_send_full) (auto simp: mbx_idle_def)
    with "2.IH" [OF send refl "2.prems"(1)] "2.prems"(2) False show ?thesis
      by auto
  qed
next
  case (3 s i ops)
  show ?case
  proof (cases "msgs s i")
    case Nil
    then have wait: "rt_mbx_wait s i 0 = Some (OS_R_TMO, None, s)"
      using length_msgs [of s i] by (intro rt_mbx_wait_empty) (simp add: unat_eq_0)
    with "3.IH" [OF wait refl refl "3.prems"(1)] "3.prems"(2) Nil show ?thesis
      by auto
  next
    case (Cons x xs)
    note take = mbx_idle_take [OF "3.prems"(1) Cons]
    with Cons "3.prems"(2) obtain got' where "got = x # got'"
      "bounded_queue (unat (m_size (mcbs (upd_mbx i mb_drop s) i))) (msgs (upd_mbx i mb_drop s) i) ops = (acc, got', ys)"
      by (auto simp: Let_def split: prod.splits simp del: mbring.length_items)
    with "3.IH" [OF take(1) refl refl take(2)] take(1) show ?thesis
      by auto
  qed
qed auto

text \<open>
  C19: a mailbox for which no task waits is a bounded queue. Whatever it holds, and in whatever order messages are sent to it
  and received from it without waiting, the calls return, a message is accepted if and only if there is room, a receive fails
  if and only if the mailbox is empty, and the messages come out in the order in which they went in: what it held
  followed by what was accepted is what was received followed by what it holds.
\<close>

lemma mbx_roundtrip:
  assumes "p_lnk s (Mbx i) = None" and "mbring.wf (mcbs s i)"
  shows "\<exists>acc got s'. run_box s i ops = Some (acc, got, s') \<and> p_lnk s' (Mbx i) = None \<and>
    bounded_queue (unat (m_size (mcbs s i))) (msgs s i) ops = (acc, got, msgs s' i) \<and> msgs s i @ acc = got @ msgs s' i"
proof -
  obtain acc got ys where q: "bounded_queue (unat (m_size (mcbs s i))) (msgs s i) ops = (acc, got, ys)"
    by (metis prod.collapse)
  have "mbx_idle s i"
    using assms by (simp add: mbx_idle_def)
  from run_box_queue [OF this q] bounded_queue_fifo [OF q] q show ?thesis
    by (auto simp: mbx_idle_def)
qed

lemma mbx_roundtrip_witness:
  "\<exists>s'. run_box ex_kernel 0 [None, Some 8, Some 9, None] = Some ([8, 9], [8], s') \<and> msgs s' 0 = [9]"
proof -
  have "p_lnk ex_kernel (Mbx 0) = None" "mbring.wf (mcbs ex_kernel 0)" "m_count (mcbs ex_kernel 0) = 0"
    "2 \<le> unat (m_size (mcbs ex_kernel 0))"
    by (simp_all add: ex_vals mbring.wf_def)
  moreover from this have "msgs ex_kernel 0 = []"
    by (simp flip: length_0_conv)
  ultimately show ?thesis
    using mbx_roundtrip [of ex_kernel 0 "[None, Some 8, Some 9, None]"] by auto
qed

text \<open>
  A message sent to a full mailbox by a task that then waits is not lost: the next receiver gets the
  oldest message, the waiting sender's message is appended, the sender is released with the first
  of the waiting senders' priorities, and the number of stored messages stays at the size of the mailbox.
\<close>

lemma mbx_wait_full:
  assumes k: "kinv X q d n s" and i: "cb_type s (Mbx i) = MCB" and q: "q (Mbx i) = t # ts"
    and st: "mb_state (mcbs s i) = 2" and n: "run s = Some n"
  shows "\<exists>s' q'. rt_mbx_wait s i timeout = Some (OS_R_OK, Some (hd (msgs s i)), s') \<and>
    msgs s' i = tl (msgs s i) @ [msg (tcbs s t)] \<and> m_count (mcbs s' i) = m_size (mcbs s' i) \<and> q' (Mbx i) = ts \<and>
    sched X q' (rmv_dly t d) (if prio_of s n < prio_of s t then t else n) s'"
proof -
  note o = mbx_obj [OF k i]
  from rt_mbx_wait_sender(1) [OF kinvD(1) [OF k] i o(1) q st n] obtain s' where
    s': "rt_mbx_wait s i timeout = Some (OS_R_OK, Some (hd (msgs s i)), s')"
      "sched X (disp_q (prio_of s) n t (q(Mbx i := ts))) (rmv_dly t d) (disp_run (prio_of s) n t) s'"
    and f: "kframe (upd_mbx i (\<lambda>b. mb_put (mb_drop b) (msg (tcbs s t))) (rt_ret_val t 0 s)) s'"
    by blast
  have m: "mcbs s' i = mb_put (mb_drop (mcbs s i)) (msg (tcbs s t))"
    using f by (simp add: kframe_def rt_ret_val_def)
  have "m_count (mcbs s i) = m_size (mcbs s i)"
    using o(2) q st by auto
  then have "m_count (mcbs s' i) = m_size (mcbs s' i)"
    by (simp add: m mb_put_def mb_store_def mb_drop_def mb_take_def Let_def)
  moreover have "msgs s' i = tl (msgs s i) @ [msg (tcbs s t)]"
    using rt_mbx_wait_sender(3) [OF kinvD(1) [OF k] i o(1) q st n] by (simp only: m)
  ultimately show ?thesis
    using s' by (intro exI [of _ s'] exI [of _ "disp_q (prio_of s) n t (q(Mbx i := ts))"])
      (simp add: disp_q_def disp_run_def)
qed

lemma mbx_wait_full_witness:
  "\<exists>s' q'. rt_mbx_wait ex_kernel 2 0 = Some (OS_R_OK, Some 7, s') \<and> msgs s' 2 = [7, 9] \<and> sched {} q' ex_delays 1 s'"
proof -
  have i: "cb_type ex_kernel (Mbx 2) = MCB" "ex_lists (Mbx 2) = 7 # []" "mb_state (mcbs ex_kernel 2) = 2"
    by (simp_all add: ex_vals)
  have v: "msgs ex_kernel 2 = [7, 7]" "msg (tcbs ex_kernel 7) = 9" "rmv_dly 7 ex_delays = ex_delays"
    "\<not> prio_of ex_kernel 1 < prio_of ex_kernel 7"
    by (simp_all add: ex_vals mbring.items_def rmv_dly_def ex_delays_def upt_rec)
  from mbx_wait_full [OF ex_kinv i ex_run(1), of 0] v show ?thesis
    by auto
qed

section \<open>Memory pools\<close>

text \<open>
  C20: \<open>_init_box\<close> cuts a box of memory into as many free blocks of the rounded size as fit behind the
  header; the blocks are distinct, lie inside the box and do not overlap one another or the header.
\<close>

lemma init_box_blocks:
  assumes "box_layout blk_size0 = (sz, hd_size)" and "sz \<noteq> 0"
    and "unat sz + unat hd_size < 2 ^ 32" and "unat sz + unat hd_size \<le> unat box_size"
    and "unat b + unat box_size < 2 ^ 32"
  shows "\<exists>m' bs. init_box m b box_size blk_size0 = Some (0, m') \<and> pool m' b bs \<and>
    length bs = (unat box_size - unat hd_size) div unat sz \<and> 0 < length bs \<and>
    (\<forall>p \<in> set bs. unat b + unat hd_size \<le> unat p \<and> unat p + unat sz \<le> unat b + unat box_size) \<and>
    (\<forall>j < length bs. \<forall>k < length bs. j < k \<longrightarrow> unat (bs ! j) + unat sz \<le> unat (bs ! k))"
proof -
  define n where "n = (unat box_size - unat hd_size) div unat sz"
  let ?bs = "blocks (b + hd_size) sz n"
  from init_box_pool [OF assms n_def] obtain m' where
    m': "init_box m b box_size blk_size0 = Some (0, m')" "pool m' b ?bs" "0 < n"
    by blast
  have hd: "unat (b + hd_size) = unat b + unat hd_size"
    using assms(4,5) by (intro unat_add_u32) simp
  have le: "n * unat sz \<le> unat box_size - unat hd_size"
    by (simp add: n_def)
  have fit: "unat (b + hd_size) + n * unat sz < 2 ^ 32"
    using le hd assms(4,5) by simp
  have at: "unat (?bs ! k) = unat b + unat hd_size + k * unat sz" if "k < n" for k
    using unat_block_less [OF fit that] that by (simp add: blocks_def hd)
  have step: "k < n \<Longrightarrow> k * unat sz + unat sz \<le> n * unat sz" for k
    using mult_le_mono1 [of "Suc k" n "unat sz"] by simp
  have "\<forall>p \<in> set ?bs. unat b + unat hd_size \<le> unat p \<and> unat p + unat sz \<le> unat b + unat box_size"
  proof
    fix p
    assume "p \<in> set ?bs"
    then obtain k where "k < n" "p = ?bs ! k"
      by (auto simp: in_set_conv_nth blocks_def)
    with at [of k] step [of k] le assms(4) show "unat b + unat hd_size \<le> unat p \<and> unat p + unat sz \<le> unat b + unat box_size"
      by simp
  qed
  moreover have "\<forall>j < n. \<forall>k < n. j < k \<longrightarrow> unat (?bs ! j) + unat sz \<le> unat (?bs ! k)"
  proof (intro allI impI)
    fix j k :: nat
    assume "j < n" "k < n" "j < k"
    with mult_le_mono1 [of "Suc j" k "unat sz"] show "unat (?bs ! j) + unat sz \<le> unat (?bs ! k)"
      by (simp add: at)
  qed
  ultimately show ?thesis
    using m' by (intro exI [of _ m'] exI [of _ ?bs]) (simp add: blocks_def n_def)
qed

lemma init_box_blocks_witness:
  "\<exists>m' bs. init_box (\<lambda>_. 0) 1000 45 10 = Some (0, m') \<and> pool m' 1000 bs \<and> length bs = 2"
proof -
  have "box_layout 10 = (12, 12)" "(12::u32) \<noteq> 0" "unat (12::u32) + unat (12::u32) < 2 ^ 32"
    "unat (12::u32) + unat (12::u32) \<le> unat (45::u32)" "unat (1000::u32) + unat (45::u32) < 2 ^ 32"
    by (simp_all add: box_layout_def BOX_ALIGN_8_def)
  from init_box_blocks [OF this, of "\<lambda>_. 0"] show ?thesis
    by auto
qed

text \<open>Allocating \<open>c\<close> blocks, and freeing blocks, one by one.\<close>

fun alloc_all :: "memory \<Rightarrow> u32 \<Rightarrow> nat \<Rightarrow> u32 list \<times> memory" where
  "alloc_all m b 0 = ([], m)"
| "alloc_all m b (Suc c) = (let (p, m1) = rt_alloc_box m b; (ps, m2) = alloc_all m1 b c in (p # ps, m2))"

fun free_all :: "memory \<Rightarrow> u32 \<Rightarrow> u32 list \<Rightarrow> u32 list \<times> memory" where
  "free_all m b [] = ([], m)"
| "free_all m b (p # ps) = (let (r, m1) = rt_free_box m b p; (rs, m2) = free_all m1 b ps in (r # rs, m2))"

text \<open>
  \<open>rt_alloc_box\<close> hands out every free block of a pool once and then 0; when the blocks are freed
  again, \<open>rt_free_box\<close> accepts each of them and all of them are free.
\<close>

lemma alloc_free_all:
  assumes "pool m b ps" and "\<forall>p \<in> set ps. b \<le> p \<and> p < m (b + 4) \<and> p \<noteq> 0"
  shows "\<exists>m1 m2. alloc_all m b (length ps) = (ps, m1) \<and> rt_alloc_box m1 b = (0, m1) \<and>
    free_all m1 b ps = (replicate (length ps) 0, m2) \<and> pool m2 b (rev ps)"
proof -
  have alloc: "\<exists>m1. alloc_all m b (length ps) = (ps, m1) \<and> pool m1 b [] \<and> m1 (b + 4) = m (b + 4)"
    using assms(1)
  proof (induction ps arbitrary: m)
    case (Cons p ps)
    note a = rt_alloc_box_pool [OF Cons.prems]
    from Cons.IH [OF a(2)] a(1,3) show ?case
      by (auto simp del: fun_upd_apply)
  qed simp
  have free: "pool m b qs \<Longrightarrow> distinct (ps @ qs) \<Longrightarrow> set ps \<inter> {b, b + 4, b + 8} = {} \<Longrightarrow>
      \<forall>p \<in> set ps. b \<le> p \<and> p < m (b + 4) \<and> p \<noteq> 0 \<Longrightarrow>
      \<exists>m2. free_all m b ps = (replicate (length ps) 0, m2) \<and> pool m2 b (rev ps @ qs)" for m qs
  proof (induction ps arbitrary: m qs)
    case (Cons p ps)
    have p: "b \<le> p" "p < m (b + 4)" "p \<noteq> 0" "p \<notin> set qs" "p \<notin> {b, b + 4, b + 8}"
      using Cons.prems by auto
    obtain m1 where m1: "rt_free_box m b p = (0, m1)" "pool m1 b (p # qs)"
      using rt_free_box_pool [OF Cons.prems(1) p] by (cases "rt_free_box m b p") auto
    have "m1 (b + 4) = m (b + 4)"
      using m1(1) p by (auto simp: rt_free_box_def Let_def split: if_splits)
    with Cons.IH [OF m1(2)] Cons.prems m1(1) show ?case
      by auto
  qed simp
  from alloc obtain m1 where m1: "alloc_all m b (length ps) = (ps, m1)" "pool m1 b []" "m1 (b + 4) = m (b + 4)"
    by blast
  from free [OF m1(2)] assms m1(3) have "\<exists>m2. free_all m1 b ps = (replicate (length ps) 0, m2) \<and> pool m2 b (rev ps)"
    by (auto simp: pool_def)
  with m1 rt_alloc_box_empty show ?thesis
    by blast
qed

lemma alloc_free_all_witness:
  "\<exists>m1 m2. alloc_all ((\<lambda>_. 0)(16 := 28, 20 := 100, 24 := 12, 28 := 40)) (16 :: u32) 2 = ([28, 40], m1) \<and>
    rt_alloc_box m1 16 = (0, m1) \<and> free_all m1 16 [28, 40] = ([0, 0], m2) \<and> pool m2 16 [40, 28]"
proof -
  have "pool ((\<lambda>_. 0)((16 :: u32) := 28, 20 := 100, 24 := 12, 28 := 40)) 16 [28, 40]"
    "\<forall>p \<in> set [28, 40]. 16 \<le> p \<and> p < ((\<lambda>_. 0)((16 :: u32) := 28, 20 := 100, 24 := 12, 28 := 40)) (16 + 4) \<and> p \<noteq> (0 :: u32)"
    by (simp_all add: pool_def)
  from alloc_free_all [OF this] show ?thesis
    by (simp add: numeral_2_eq_2 del: fun_upd_apply alloc_all.simps free_all.simps)
qed

section \<open>Time\<close>

text \<open>
  The conversion of milliseconds to ticks rounds up: with a clock of \<open>clk\<close> microseconds per tick a
  delay is never shorter than asked for and less than one tick longer, as long as it stays below the
  largest finite timeout of 65534 ticks; beyond it the delay is cut to that.
\<close>

lemma ms2tick_rounds_up:
  assumes "millisec \<noteq> osWaitForever" and "unat millisec \<le> 4000000" and "0 < unat clk" and "unat clk \<le> 200000000"
  shows "unat (rt_ms2tick clk millisec) \<le> 65534 \<and>
    (unat (rt_ms2tick clk millisec) < 65534 \<longrightarrow>
      1000 * unat millisec \<le> unat (rt_ms2tick clk millisec) * unat clk \<and>
      unat (rt_ms2tick clk millisec) * unat clk < 1000 * unat millisec + unat clk)"
proof -
  note x = rt_ms2tick_exact [OF assms]
  have up: "a \<le> (a + c - 1) div c * c \<and> (a + c - 1) div c * c < a + c" if "0 < c" for a c :: nat
    using that dividend_less_div_times [of c "a + c - 1"] div_times_less_eq_dividend [of "a + c - 1" c] by linarith
  show ?thesis
    using up [OF assms(3), of "1000 * unat millisec"] by (simp add: x split: if_splits)
qed

lemma ms2tick_rounds_up_witness: "unat (rt_ms2tick 1500 10) = 7 \<and> 1000 * 10 \<le> 7 * (1500::nat)"
proof -
  have "(10::u32) \<noteq> osWaitForever" "unat (10::u32) \<le> 4000000" "0 < unat (1500::u32)" "unat (1500::u32) \<le> 200000000"
    by (simp_all add: osWaitForever_def)
  note h = ms2tick_rounds_up [OF this] rt_ms2tick_exact [OF this]
  show ?thesis
    using h by simp
qed

text \<open>
  C21: in a tick exactly the timers whose time is up are served, in the order of their expiry: a periodic timer is
  put back into the list with its interval, a one-shot timer is stopped, and all others have one
  tick less to go.
\<close>

lemma timer_tick:
  assumes "tmr_ok xs ts"
  shows "\<exists>ts'. (\<forall>s. sysTimerTick addr tq ts s = map_option (\<lambda>s'. (ts', s')) (put_all addr tq (expired xs) s)) \<and>
    tmr_ok (restart (periodic ts) (icnt ts) (expired xs) (tick_dly xs)) ts' \<and>
    (\<forall>t. tm_state (tmrs ts' t) =
      (if t \<in> set (expired xs) \<and> \<not> periodic ts t then osTimerStopped else tm_state (tmrs ts t)))"
  using sysTimerTick_refines [OF assms, of addr tq] by blast

definition ex_tmr :: "nat option \<Rightarrow> u8 \<Rightarrow> u16 \<Rightarrow> tmr" where
  "ex_tmr nx ty c = \<lparr>tm_next = nx, tm_state = osTimerRunning, tm_type = ty, tm_tcnt = c, tm_icnt = 5, tm_arg = 0, tm_fp = 1\<rparr>"

definition ex_timers :: timers where
  "ex_timers = \<lparr>tmr_head = Some 1, tmrs = (\<lambda>_. ex_tmr None osTimerOnce 3)(1 := ex_tmr (Some 2) osTimerPeriodic 1)\<rparr>"

lemma ex_tmr_ok: "tmr_ok [(1, 1), (2, 4)] ex_timers"
  by (simp add: tmr_ok_def tmr_inv_def ex_timers_def ex_tmr_def)

lemma timer_tick_witness:
  "\<forall>addr tq. \<exists>ts'. tmr_ok [(2, 3), (1, 5)] ts' \<and> (\<forall>s. sysTimerTick addr tq ex_timers s =
     map_option (\<lambda>s'. (ts', s')) (put_all addr tq [1] s))"
proof (intro allI)
  fix addr tq
  have v: "expired [(1, 1), (2, 4)] = [1::nat]" "tick_dly [(1, 1), (2, 4)] = [(2::nat, 3)]" "periodic ex_timers 1" "icnt ex_timers 1 = 5"
    by (simp_all add: expired_def tick_dly_def ex_timers_def ex_tmr_def)
  then have "restart (periodic ex_timers) (icnt ex_timers) [1] [(2, 3)] = [(2, 3), (1, 5)]"
    by simp
  with timer_tick [OF ex_tmr_ok, of addr tq] v(1,2) show "\<exists>ts'. tmr_ok [(2, 3), (1, 5)] ts' \<and> (\<forall>s. sysTimerTick addr tq ex_timers s =
     map_option (\<lambda>s'. (ts', s')) (put_all addr tq [1] s))"
    by auto
qed

text \<open>
  The system tick: the time advances by one, the tasks whose wait ends join the ready ones, the
  timers' messages are posted, and the task with the highest priority among the ready ones and
  the running one runs next, the tick itself never failing when the timers' messages can be posted.
\<close>

lemma systick_schedules:
  assumes k: "kinv X q d n s" and n: "run s = Some n" and "tmr_ok xs ts" and "put_all addr tq (expired xs) s = Some p"
  shows "\<exists>ts' s' q' n'. rt_systick addr tq ts s = Some (ts', s') \<and> os_time s' = os_time s + 1 \<and> posts s' = posts p \<and>
    sched X q' (tick_dly d) n' s' \<and> (\<forall>t \<in> set (q' Rdy). prio_of s' t \<le> prio_of s' n') \<and>
    insert n' (set (q' Rdy)) = insert n (set (q Rdy) \<union> set (expired d)) \<and>
    tmr_ok (restart (periodic ts) (icnt ts) (expired xs) (tick_dly xs)) ts'"
proof -
  from rt_systick_sched [OF kinvD(1) [OF k] n assms(3), of addr tq, unfolded assms(4) option.case] obtain ts' s' q' n'
    where "rt_systick addr tq ts s = Some (ts', s')" "sched X q' (tick_dly d) n' s'"
      "insert n' (set (q' Rdy)) = insert n (set (q Rdy) \<union> set (expired d))" "os_time s' = os_time s + 1" "os_psq s' = os_psq p"
      "tmr_ok (restart (periodic ts) (icnt ts) (expired xs) (tick_dly xs)) ts'"
    by blast
  moreover have "\<forall>t \<in> set (q' Rdy). prio_of s' t \<le> prio_of s' n'"
    using calculation(2) by (simp add: sched_def top_prio_def)
  ultimately show ?thesis
    by (intro exI [of _ ts'] exI [of _ s'] exI [of _ q'] exI [of _ n']) simp
qed

lemma systick_schedules_witness:
  "\<exists>ts' s' q' n'. rt_systick (\<lambda>_. 0) (Some 0) (ex_timers\<lparr>tmr_head := None\<rparr>) ex_kernel = Some (ts', s') \<and>
    os_time s' = 101 \<and> sched {} q' [(5, 3), (3, 9)] n' s'"
proof -
  have "tmr_ok [] (ex_timers\<lparr>tmr_head := None\<rparr>)"
    by (simp add: tmr_ok_def tmr_inv_def)
  from systick_schedules [OF ex_kinv ex_run(1) this, of "\<lambda>_. 0" "Some 0" ex_kernel]
  have "\<exists>ts' s' q' n'. rt_systick (\<lambda>_. 0) (Some 0) (ex_timers\<lparr>tmr_head := None\<rparr>) ex_kernel = Some (ts', s') \<and>
    os_time s' = os_time ex_kernel + 1 \<and> sched {} q' (tick_dly ex_delays) n' s'"
    by (force simp: expired_def)
  then show ?thesis
    by (simp add: tick_dly_def ex_delays_def)
qed

text \<open>
  Waking up from the tick-less sleep equals the ticks slept: after \<open>rt_resume\<close> of \<open>k\<close> ticks the delay list is that after \<open>k\<close>
  ticks, the tasks with a delay of at most \<open>k\<close> are ready, and the scheduler's invariant holds; the
  system time advances by \<open>k\<close>, or only up to the tick after the last delay when the list empties.
\<close>

lemma resume_equals_ticks:
  assumes k: "kinv X q d n s" and n: "run s = Some n"
  shows "\<exists>s' q' n'. rt_resume s sleep = Some s' \<and> sched X q' ((tick_dly ^^ unat sleep) d) n' s' \<and>
    insert n' (set (q' Rdy)) = insert n (set (q Rdy) \<union> {t. \<exists>a \<le> unat sleep. (t, a) \<in> set d}) \<and>
    os_time s' = os_time s + of_nat (if d = [] then unat sleep else min (unat sleep) (snd (last d) + 1))"
proof -
  have pos: "\<forall>(t, a) \<in> set d. 0 < a"
    by (rule krunD(3) [OF kinvD(2) [OF k]])
  have "adv k d = (tick_dly ^^ k) d" for k
  proof (induction k)
    case 0
    then show ?case
      using pos by (simp add: adv_def)
  next
    case (Suc k)
    have "tick_dly (adv k d) = adv (Suc k) d"
      by (induction d) (auto simp: adv_def tick_dly_def)
    with Suc show ?case
      by simp
  qed
  moreover have "woken k d = {t. \<exists>a \<le> k. (t, a) \<in> set d}" for k
    by (force simp: woken_def)
  ultimately show ?thesis
    using rt_resume_sched [OF kinvD(1) [OF k] n, of sleep] unfolding resume_time_def by metis
qed

lemma resume_equals_ticks_witness:
  "\<exists>s' q' n'. rt_resume ex_kernel 4 = Some s' \<and> sched {} q' [(3, 6)] n' s' \<and> os_time s' = 104 \<and>
    insert n' (set (q' Rdy)) = {1, 5, 8, 2, idle_TCB}"
proof -
  have "(tick_dly ^^ 4) ex_delays = [(3, 6)]"
    by (simp add: ex_delays_def tick_dly_def numeral_eq_Suc)
  moreover have "{t. \<exists>a \<le> 4. (t, a) \<in> set ex_delays} = {5}"
    by (auto simp: ex_delays_def)
  ultimately show ?thesis
    using resume_equals_ticks [OF ex_kinv ex_run(1), of 4] by (auto simp: ex_lists_vals ex_delays_def)
qed

section \<open>Posts of interrupt handlers\<close>

text \<open>
  What an interrupt handler posts is handled in the order of the posts and exactly once: the post goes to the end of the queue, a post to a full
  queue is the fatal error, and the post service handler empties the queue, wakes tasks only, and
  leaves the task of the highest priority running.
\<close>

lemma posts_are_served:
  assumes k: "kinv X q d n s" and n: "run s = Some n"
  shows "(if q_count (os_psq s) = q_size (os_psq s) then rt_psq_enq s p a = None
      else \<exists>s'. rt_psq_enq s p a = Some s' \<and> posts s' = posts s @ [(p, a)]) \<and>
    (\<exists>s' q' d' n'. rt_pop_req s = Some s' \<and> posts s' = [] \<and> sched X q' d' n' s' \<and>
      (\<forall>t \<in> set (q' Rdy). prio_of s' t \<le> prio_of s' n') \<and> (\<forall>h. h \<noteq> Rdy \<longrightarrow> set (q' h) \<subseteq> set (q h)))"
proof -
  have wf: "psring.wf (os_psq s)" and ok: "\<forall>e \<in> set (posts s). post_ok X s e" "\<forall>e \<in> set (posts s). post_plain e"
    using kinvD(5) [OF k] by (auto simp: psq_ok_def)
  have enq: "if q_count (os_psq s) = q_size (os_psq s) then rt_psq_enq s p a = None
      else \<exists>s'. rt_psq_enq s p a = Some s' \<and> posts s' = posts s @ [(p, a)]"
    using rt_psq_enq_full rt_psq_enq_posts [OF wf] by (simp split: if_split) blast
  from rt_pop_req_sched(2) [OF kinvD(1) [OF k] n wf ok] obtain s' where op: "rt_pop_req s = Some s'"
    by blast
  from rt_pop_req_sched(1) [OF kinvD(1) [OF k] n wf ok(1) op] obtain q' d' n' where
    "sched X q' d' n' s'" "pop_effect q n s q' n' s'"
    by blast
  with op have "\<exists>s' q' d' n'. rt_pop_req s = Some s' \<and> posts s' = [] \<and> sched X q' d' n' s' \<and>
      (\<forall>t \<in> set (q' Rdy). prio_of s' t \<le> prio_of s' n') \<and> (\<forall>h. h \<noteq> Rdy \<longrightarrow> set (q' h) \<subseteq> set (q h))"
    by (intro exI [of _ s'] exI [of _ q'] exI [of _ d'] exI [of _ n']) (simp add: pop_effect_def sched_def top_prio_def)
  with enq show ?thesis
    by blast
qed

lemma posts_are_served_witness:
  "posts ex_kernel = [(Sem 0, 0)] \<and> (\<exists>s'. rt_psq_enq ex_kernel (Task 2) 8 = Some s' \<and> posts s' = [(Sem 0, 0), (Task 2, 8)]) \<and>
   (\<exists>s'. rt_pop_req ex_kernel = Some s' \<and> posts s' = []) \<and>
   rt_psq_enq (ex_kernel\<lparr>os_psq := \<lparr>q_first = 0, q_last = 0, q_count = 4, q_size = 4, q_ent = \<lambda>_. (Sem 0, 0)\<rparr>\<rparr>) (Sem 0) 0 = None"
proof -
  have p: "posts ex_kernel = [(Sem 0, 0)]"
    by (simp add: psring.items_def)
  have "q_count (os_psq ex_kernel) \<noteq> q_size (os_psq ex_kernel)"
    by simp
  with posts_are_served [OF ex_kinv ex_run(1), of "Task 2" 8] p
  have "\<exists>s'. rt_psq_enq ex_kernel (Task 2) 8 = Some s' \<and> posts s' = [(Sem 0, 0), (Task 2, 8)]"
    "\<exists>s'. rt_pop_req ex_kernel = Some s' \<and> posts s' = []"
    by auto
  moreover let ?b = "\<lparr>q_first = 0, q_last = 0, q_count = 4, q_size = 4, q_ent = \<lambda>_. (Sem 0, 0)\<rparr>"
  have "psq_ok {} (ex_kernel\<lparr>os_psq := ?b\<rparr>)"
    by (simp add: psq_ok_def psring.wf_def psring.items_def)
  from posts_are_served [OF kinv_psq [OF ex_kinv refl this], of "Sem 0" 0] ex_run(1)
  have "rt_psq_enq (ex_kernel\<lparr>os_psq := ?b\<rparr>) (Sem 0) 0 = None"
    by simp
  ultimately show ?thesis
    using p by blast
qed

section \<open>Threads\<close>

text \<open>
  \<open>svcThreadCreate\<close> with a valid definition, a free entry in the table of tasks and an unused
  control block registers the thread, gives it the priority asked for, and makes it the running task if that is
  above the caller's, a ready task otherwise; the kernel's invariant holds.
\<close>

lemma thread_create:
  assumes k: "kinv X q d n s" and n: "run s = Some n" and td: "thread_def_ok td" and tid: "rt_get_TID s \<noteq> 0"
    and t: "fresh X (td_tcb td) s"
  shows "\<exists>s' q' n'. svcThreadCreate s (Some td) arg = Some (Some (td_tcb td), s') \<and>
    kinv (X - {td_tcb td}) q' d n' s' \<and> prio_of s' (td_tcb td) = of_int (tpriority td + 4) \<and>
    insert n' (set (q' Rdy)) = insert n (insert (td_tcb td) (set (q Rdy)))"
proof -
  have "tpriority td - osPriorityIdle + 1 = tpriority td + 4"
    by (simp add: osPriorityIdle_def)
  with svcThreadCreate_kinv [OF assms, of arg] show ?thesis
    by (metis (no_types))
qed

lemma thread_create_witness:
  "\<exists>s' q' n'. svcThreadCreate ex_kernel (Some \<lparr>pthread = 1, tpriority = 3, stacksize = 200, stack_pointer = 1, td_tcb = 9\<rparr>) 0 =
    Some (Some 9, s') \<and> kinv {} q' ex_delays n' s' \<and> prio_of s' 9 = 7"
proof -
  let ?td = "\<lparr>pthread = 1, tpriority = 3, stacksize = 200, stack_pointer = 1, td_tcb = 9\<rparr>"
  have "thread_def_ok ?td" "rt_get_TID ex_kernel \<noteq> 0" "fresh {} (td_tcb ?td) ex_kernel"
    by (simp_all add: thread_def_ok_def osPriorityIdle_def osPriorityRealtime_def rt_get_TID_def fresh_def ex_vals)
  from thread_create [OF ex_kinv ex_run(1) this, of 0] show ?thesis
    by auto
qed

text \<open>
  Round robin among equals: a task that yields goes behind the ready tasks of its priority and the first of them
  runs, with all lists and priorities otherwise unchanged; without a ready task of its priority
  it keeps running.
\<close>

lemma yield_rotates:
  assumes k: "kinv X q d n s" and n: "run s = Some n" and q: "q Rdy = t # ts" and t: "t \<noteq> idle_TCB"
  shows "if prio_of s t = prio_of s n
    then \<exists>s' q'. svcThreadYield s = Some (osOK, s') \<and> sched X q' d t s' \<and>
      q' Rdy = filter (\<lambda>u. prio_of s n \<le> prio_of s u) ts @ n # filter (\<lambda>u. prio_of s u < prio_of s n) ts \<and>
      (\<forall>h. h \<noteq> Rdy \<longrightarrow> q' h = q h)
    else svcThreadYield s = Some (osOK, s)"
proof (cases "prio_of s t = prio_of s n")
  case True
  have "prio_sorted (prio_of s) ts"
    using krunD(4) [OF kinvD(2) [OF k] live_Rdy] by (simp add: q prio_sorted_def)
  note ins = ins_prio_split [OF this]
  from rt_tsk_pass_same [OF kinvD(1) [OF k] n q True t] obtain s' where
    "rt_tsk_pass s = Some s'" "sched X (q(Rdy := ins_prio (prio_of s) n ts)) d t s'"
    by blast
  with True show ?thesis
    by (intro if_P [THEN iffD2] exI [of _ s'] exI [of _ "q(Rdy := ins_prio (prio_of s) n ts)"])
      (simp_all add: svcThreadYield_def ins)
next
  case False
  then show ?thesis
    using rt_tsk_pass_other [OF kinvD(1) [OF k] n q] by (simp add: svcThreadYield_def)
qed

lemma yield_rotates_witness:
  "\<exists>s' q'. svcThreadYield ex_kernel = Some (osOK, s') \<and> sched {} q' ex_delays 8 s' \<and> q' Rdy = [1, 2, idle_TCB]"
proof -
  have v: "ex_lists Rdy = 8 # [2, idle_TCB]" "(8::nat) \<noteq> idle_TCB" "prio_of ex_kernel 8 = prio_of ex_kernel 1"
    and f: "filter (\<lambda>u. prio_of ex_kernel 1 \<le> prio_of ex_kernel u) [2, idle_TCB] = []"
      "filter (\<lambda>u. prio_of ex_kernel u < prio_of ex_kernel 1) [2, idle_TCB] = [2, idle_TCB]"
    by (simp_all add: ex_vals)
  from yield_rotates [OF ex_kinv ex_run(1) v(1,2), unfolded f if_P [OF v(3)]] show ?thesis
    by auto
qed

text \<open>
  After a change of a task's priority no ready task has a priority above that of the running task, and the
  sets of waiting and of ready or running tasks are as before.
\<close>

lemma set_priority_schedules:
  assumes k: "kinv X q d n s" and n: "run s = Some n" "n \<noteq> idle_TCB"
    and t: "prio_target s tid = Some t" "t \<notin> X" "t \<noteq> idle_TCB" and p: "p \<noteq> 0"
  shows "\<exists>s' q' n'. rt_tsk_prio s tid p = Some (OS_R_OK, s') \<and> sched X q' d n' s' \<and>
    (\<forall>u. prio_of s' u = (if u = t then p else prio_of s u)) \<and> (\<forall>u \<in> set (q' Rdy). prio_of s' u \<le> prio_of s' n') \<and>
    insert n' (set (q' Rdy)) = insert n (set (q Rdy)) \<and> (\<forall>h. live s h \<longrightarrow> h \<noteq> Rdy \<longrightarrow> set (q' h) = set (q h))"
proof -
  have "prio_of s idle_TCB < p"
    using kinvD(7) [OF k] p by (simp add: word_gt_0)
  from rt_tsk_prio_sched [OF kinvD(1) [OF k] n t this] obtain s' q' n' where
    r: "rt_tsk_prio s tid p = Some (OS_R_OK, s')" "sched X q' d n' s'" "kframe (set_prio t p s) s'" "same_tasks s n q n' q'"
    by blast
  have "prio_of s' u = (if u = t then p else prio_of s u)" for u
    using kframe_prio [OF r(3), of u] by simp
  with r show ?thesis
    by (intro exI [of _ s'] exI [of _ q'] exI [of _ n']) (auto simp: sched_def top_prio_def same_tasks_def)
qed

lemma set_priority_schedules_witness:
  "\<exists>s' q' n'. rt_tsk_prio ex_kernel 2 6 = Some (OS_R_OK, s') \<and> sched {} q' ex_delays n' s' \<and> prio_of s' 2 = 6"
proof -
  have "prio_target ex_kernel 2 = Some 2" "(2::nat) \<notin> {}" "(2::nat) \<noteq> idle_TCB" "(6::u8) \<noteq> 0"
    by (simp_all add: prio_target_def lookup_tid_def ex_vals)
  from set_priority_schedules [OF ex_kinv ex_run this] show ?thesis
    by metis
qed

end
