(* ===== verification/Lwip_Def.thy ===== *)
theory Lwip_Def
  imports Prelude
begin

text \<open>
  Byte order (\<open>lwip/core/def.c\<close>), on a little-endian target: the conversions between host and network
  order as the code computes them, their meaning in bytes, and that they are involutions.
\<close>

unbundle bit_operations_syntax

definition lwip_htons :: "u16 \<Rightarrow> u16" where
  "lwip_htons n = push_bit 8 (n AND 0xff) OR drop_bit 8 (n AND 0xff00)"

definition lwip_ntohs :: "u16 \<Rightarrow> u16" where
  "lwip_ntohs n = lwip_htons n"

definition lwip_htonl :: "u32 \<Rightarrow> u32" where
  "lwip_htonl n = push_bit 24 (n AND 0xff) OR push_bit 8 (n AND 0xff00) OR
     drop_bit 8 (n AND 0xff0000) OR drop_bit 24 (n AND 0xff000000)"

definition lwip_ntohl :: "u32 \<Rightarrow> u32" where
  "lwip_ntohl n = lwip_htonl n"

text \<open>The 16-bit word at an address holding the bytes \<open>a\<close>, \<open>b\<close>, and the bytes of a word.\<close>

definition le16 :: "u8 \<Rightarrow> u8 \<Rightarrow> u16" where
  "le16 a b = ucast a OR push_bit 8 (ucast b)"

definition be16 :: "u8 \<Rightarrow> u8 \<Rightarrow> u16" where
  "be16 a b = push_bit 8 (ucast a) OR ucast b"

definition lo8 :: "u16 \<Rightarrow> u8" where
  "lo8 n = ucast n"

definition hi8 :: "u16 \<Rightarrow> u8" where
  "hi8 n = ucast (drop_bit 8 n)"

lemma le16_bytes [simp]: "le16 (lo8 n) (hi8 n) = n"
  by (rule bit_word_eqI) (auto simp: le16_def lo8_def hi8_def bit_simps)

lemma lo8_le16 [simp]: "lo8 (le16 a b) = a"
  by (rule bit_word_eqI) (auto simp: le16_def lo8_def bit_simps)

lemma hi8_le16 [simp]: "hi8 (le16 a b) = b"
  by (rule bit_word_eqI) (auto simp: le16_def hi8_def bit_simps dest: bit_imp_le_length)

text \<open>The masks of the byte swaps, bit by bit.\<close>

lemma byte_masks:
  "(0xff :: u16) = mask 8" "(0xff00 :: u16) = push_bit 8 (mask 8)"
  "(0xff :: u32) = mask 8" "(0xff00 :: u32) = push_bit 8 (mask 8)"
  "(0xff0000 :: u32) = push_bit 16 (mask 8)" "(0xff000000 :: u32) = push_bit 24 (mask 8)"
  "(0xffff :: u32) = mask 16"
  by (simp_all add: mask_eq_exp_minus_1 push_bit_eq_mult)

lemma bit_u8_less: "bit (x :: u8) n \<Longrightarrow> n < 8"
  using bit_imp_le_length [of x n] by simp

lemma bit_u16_less: "bit (x :: u16) n \<Longrightarrow> n < 16"
  using bit_imp_le_length [of x n] by simp

lemma lwip_htons_le16: "lwip_htons (le16 a b) = be16 a b"
  by (rule bit_word_eqI)
    (auto simp: lwip_htons_def le16_def be16_def byte_masks bit_simps dest: bit_u8_less)

lemma or_add_disjoint: "(x :: 'a :: len word) AND y = 0 \<Longrightarrow> x OR y = x + y"
  by (simp add: disjunctive_add_eq_or)

lemma unat_le16: "unat (le16 a b) = unat a + 256 * unat b"
proof -
  have "ucast a AND push_bit 8 (ucast b :: u16) = 0"
    by (rule bit_word_eqI) (auto simp: bit_simps dest: bit_u8_less)
  then have "le16 a b = ucast a + push_bit 8 (ucast b)"
    by (simp add: le16_def or_add_disjoint)
  then show ?thesis
    using unat_u8_less [of a] unat_u8_less [of b]
    by (simp add: push_bit_eq_mult unat_word_ariths)
qed

lemma be16_le16: "be16 a b = le16 b a"
  by (simp add: be16_def le16_def or.commute)

lemma unat_htons: "unat (lwip_htons n) = 256 * (unat n mod 256) + unat n div 256"
proof -
  have "lwip_htons n = le16 (hi8 n) (lo8 n)"
    using lwip_htons_le16 [of "lo8 n" "hi8 n"] by (simp add: be16_le16)
  moreover have "unat n = unat (lo8 n) + 256 * unat (hi8 n)"
    using unat_le16 [of "lo8 n" "hi8 n"] by simp
  ultimately show ?thesis
    using unat_u8_less [of "lo8 n"] by (simp add: unat_le16)
qed

text \<open>Both conversions are their own inverses.\<close>

lemma lwip_htons_invol [simp]: "lwip_ntohs (lwip_htons n) = n"
  using lwip_htons_le16 [of "lo8 n" "hi8 n"] lwip_htons_le16 [of "hi8 n" "lo8 n"]
  by (simp add: lwip_ntohs_def be16_le16)

lemma octets: "n < 32 \<Longrightarrow> \<exists>k < 8. n = k \<or> n = 8 + k \<or> n = 16 + k \<or> n = (24 + k :: nat)"
  by presburger

lemma bit_htonl:
  assumes "k < 8"
  shows "bit (lwip_htonl x) k = bit x (24 + k)" "bit (lwip_htonl x) (8 + k) = bit x (16 + k)"
    "bit (lwip_htonl x) (16 + k) = bit x (8 + k)" "bit (lwip_htonl x) (24 + k) = bit x k"
  using assms by (simp_all add: lwip_htonl_def byte_masks bit_simps ac_simps)

lemma lwip_htonl_invol [simp]: "lwip_ntohl (lwip_htonl x) = x"
proof (rule bit_word_eqI)
  fix n
  assume "n < LENGTH(32)"
  then obtain k where "k < 8" "n = k \<or> n = 8 + k \<or> n = 16 + k \<or> n = 24 + k"
    using octets by auto
  then show "bit (lwip_ntohl (lwip_htonl x)) n = bit x n"
    by (auto simp: lwip_ntohl_def bit_htonl)
qed

end
