(* ===== verification/Lwip_Chksum.thy ===== *)
theory Lwip_Chksum
  imports Lwip_Def
begin

text \<open>
  The Internet checksum (\<open>lwip/core/ipv4/inet_chksum.c\<close>): the three portable implementations of the sum
  over a buffer, which the port selects by \<open>LWIP_CHKSUM_ALGORITHM\<close>, and the checksums of headers, of
  chains of buffers and with the pseudo header, which call the selected one.

  A buffer is its address and its bytes. The locale \<open>chksum_impl\<close> is the contract of the sum; all three
  implementations are interpretations, and the functions that call it take it as an argument.
\<close>

section \<open>The sums\<close>

definition FOLD_U32T :: "u32 \<Rightarrow> u32" where
  "FOLD_U32T u = drop_bit 16 u + (u AND 0xffff)"

definition SWAP_BYTES_IN_WORD :: "u32 \<Rightarrow> u32" where
  "SWAP_BYTES_IN_WORD w = push_bit 8 (w AND 0xff) OR drop_bit 8 (w AND 0xff00)"

text \<open>Version 1: most significant octet first.\<close>

fun chksum1_loop :: "u32 \<Rightarrow> u8 list \<Rightarrow> u32" where
  "chksum1_loop acc (a # b # bs) = chksum1_loop (acc + ucast (be16 a b)) bs"
| "chksum1_loop acc [a] = acc + ucast (push_bit 8 (ucast a :: u16))"
| "chksum1_loop acc [] = acc"

definition lwip_standard_chksum1 :: "u32 \<Rightarrow> u8 list \<Rightarrow> u16" where
  "lwip_standard_chksum1 addr bs =
     (let acc = FOLD_U32T (chksum1_loop 0 bs);
          acc = (if acc AND 0xffff0000 \<noteq> 0 then FOLD_U32T acc else acc)
      in lwip_htons (ucast acc))"

text \<open>The loops of versions 2 and 3 over aligned 16-bit words; the rest is at most one byte.\<close>

fun chksum_words :: "u32 \<Rightarrow> u8 list \<Rightarrow> u32 \<times> u8 list" where
  "chksum_words s32 (a # b # bs) = chksum_words (s32 + ucast (le16 a b)) bs"
| "chksum_words s32 bs = (s32, bs)"

text \<open>\<open>t\<close> is the word of the end bytes: its high byte is the first byte at an odd address.\<close>

definition chksum_odd :: "u32 \<Rightarrow> u8 list \<Rightarrow> u8 \<times> u8 list" where
  "chksum_odd addr bs = (if addr AND 1 \<noteq> 0 \<and> bs \<noteq> [] then (hd bs, tl bs) else (0, bs))"

definition chksum_end :: "u32 \<Rightarrow> u8 \<Rightarrow> u32 \<times> u8 list \<Rightarrow> u16" where
  "chksum_end addr t1 r =
     (let (s32, rest) = r;
          t0 = (case rest of [] \<Rightarrow> 0 | c # cs \<Rightarrow> c);
          s32 = s32 + ucast (le16 t0 t1);
          s32 = FOLD_U32T (FOLD_U32T s32);
          s32 = (if addr AND 1 \<noteq> 0 then SWAP_BYTES_IN_WORD s32 else s32)
      in ucast s32)"

definition lwip_standard_chksum2 :: "u32 \<Rightarrow> u8 list \<Rightarrow> u16" where
  "lwip_standard_chksum2 addr bs =
     (let (t1, bs1) = chksum_odd addr bs in chksum_end addr t1 (chksum_words 0 bs1))"

text \<open>Version 3 adds 32-bit words with the carry added back, eight bytes in a round.\<close>

definition le32 :: "u8 \<Rightarrow> u8 \<Rightarrow> u8 \<Rightarrow> u8 \<Rightarrow> u32" where
  "le32 a b c d = ucast (le16 a b) OR push_bit 16 (ucast (le16 c d))"

definition add_carry :: "u32 \<Rightarrow> u32 \<Rightarrow> u32" where
  "add_carry s32 x = (let tmp = s32 + x in if tmp < s32 then tmp + 1 else tmp)"

fun chksum3_loop :: "u32 \<Rightarrow> u8 list \<Rightarrow> u32 \<times> u8 list" where
  "chksum3_loop s32 (a # b # c # d # e # f # g # h # bs) =
     chksum3_loop (add_carry (add_carry s32 (le32 a b c d)) (le32 e f g h)) bs"
| "chksum3_loop s32 bs = (s32, bs)"

definition lwip_standard_chksum3 :: "u32 \<Rightarrow> u8 list \<Rightarrow> u16" where
  "lwip_standard_chksum3 addr bs =
     (let (t1, bs1) = chksum_odd addr bs;
          ps = (if length bs1 < length bs then addr + 1 else addr);
          (s32, bs2) = (if ps AND 3 \<noteq> 0 \<and> 1 < length bs1
                        then (ucast (le16 (bs1 ! 0) (bs1 ! 1)), drop 2 bs1) else (0, bs1));
          (s32, bs3) = chksum3_loop s32 bs2
      in chksum_end addr t1 (chksum_words (FOLD_U32T s32) bs3))"

section \<open>The users\<close>

type_synonym buf = "u32 \<times> u8 list"

definition inet_chksum :: "(u32 \<Rightarrow> u8 list \<Rightarrow> u16) \<Rightarrow> u32 \<Rightarrow> u8 list \<Rightarrow> u16" where
  "inet_chksum chk addr bs = NOT (chk addr bs)"

text \<open>The loops over a chain of buffers; the flag is \<open>swapped\<close>.\<close>

fun chksum_chain :: "(u32 \<Rightarrow> u8 list \<Rightarrow> u16) \<Rightarrow> u32 \<times> bool \<Rightarrow> buf list \<Rightarrow> u32 \<times> bool" where
  "chksum_chain chk (acc, swapped) [] = (acc, swapped)"
| "chksum_chain chk (acc, swapped) ((addr, bs) # q) =
     (let acc = FOLD_U32T (acc + ucast (chk addr bs))
      in if odd (length bs) then chksum_chain chk (SWAP_BYTES_IN_WORD acc, \<not> swapped) q
         else chksum_chain chk (acc, swapped) q)"

definition chain_sum :: "u32 \<times> bool \<Rightarrow> u32" where
  "chain_sum r = (if snd r then SWAP_BYTES_IN_WORD (fst r) else fst r)"

definition inet_chksum_pbuf :: "(u32 \<Rightarrow> u8 list \<Rightarrow> u16) \<Rightarrow> buf list \<Rightarrow> u16" where
  "inet_chksum_pbuf chk p = ucast (NOT (chain_sum (chksum_chain chk (0, False) p) AND 0xffff))"

definition pseudo_end :: "u32 \<Rightarrow> u32 \<Rightarrow> u32 \<Rightarrow> u8 \<Rightarrow> u16 \<Rightarrow> u16" where
  "pseudo_end acc src dest proto proto_len =
     (let acc = acc + (src AND 0xffff) + (drop_bit 16 src AND 0xffff);
          acc = acc + (dest AND 0xffff) + (drop_bit 16 dest AND 0xffff);
          acc = acc + ucast (lwip_htons (ucast proto)) + ucast (lwip_htons proto_len)
      in ucast (NOT (FOLD_U32T (FOLD_U32T acc) AND 0xffff)))"

definition inet_chksum_pseudo ::
    "(u32 \<Rightarrow> u8 list \<Rightarrow> u16) \<Rightarrow> buf list \<Rightarrow> u32 \<Rightarrow> u32 \<Rightarrow> u8 \<Rightarrow> u16 \<Rightarrow> u16" where
  "inet_chksum_pseudo chk p src dest proto proto_len =
     pseudo_end (chain_sum (chksum_chain chk (0, False) p)) src dest proto proto_len"

text \<open>
  The loop of the partial checksum stops after \<open>chksum_len\<close> bytes; whether the bytes are swapped depends
  on the length of the whole buffer.
\<close>

fun chksum_chain_partial ::
    "(u32 \<Rightarrow> u8 list \<Rightarrow> u16) \<Rightarrow> u32 \<times> bool \<Rightarrow> nat \<Rightarrow> buf list \<Rightarrow> u32 \<times> bool" where
  "chksum_chain_partial chk (acc, swapped) n [] = (acc, swapped)"
| "chksum_chain_partial chk (acc, swapped) n ((addr, bs) # q) =
     (if n = 0 then (acc, swapped)
      else
        let chklen = min (length bs) n;
            acc = FOLD_U32T (acc + ucast (chk addr (take chklen bs)))
        in if odd (length bs) then chksum_chain_partial chk (SWAP_BYTES_IN_WORD acc, \<not> swapped) (n - chklen) q
           else chksum_chain_partial chk (acc, swapped) (n - chklen) q)"

definition inet_chksum_pseudo_partial ::
    "(u32 \<Rightarrow> u8 list \<Rightarrow> u16) \<Rightarrow> buf list \<Rightarrow> u32 \<Rightarrow> u32 \<Rightarrow> u8 \<Rightarrow> u16 \<Rightarrow> u16 \<Rightarrow> u16" where
  "inet_chksum_pseudo_partial chk p src dest proto proto_len chksum_len =
     pseudo_end (chain_sum (chksum_chain_partial chk (0, False) (unat chksum_len) p)) src dest proto proto_len"

section \<open>Sums modulo 65535\<close>

text \<open>
  A machine word \<open>x\<close> stands for the sum \<open>n\<close>: they agree modulo 65535, and only the empty sum is zero.
  Folding and adding with the carry keep this, swapping the bytes multiplies the sum by 256.
\<close>

definition ones :: "nat \<Rightarrow> nat \<Rightarrow> bool" where
  "ones x n \<longleftrightarrow> x mod 65535 = n mod 65535 \<and> (x = 0 \<longleftrightarrow> n = 0)"

definition fold16 :: "nat \<Rightarrow> nat" where
  "fold16 n = (if n = 0 then 0 else (n - 1) mod 65535 + 1)"

fun lesum :: "u8 list \<Rightarrow> nat" and besum :: "u8 list \<Rightarrow> nat" where
  "lesum [] = 0"
| "lesum (a # bs) = unat a + besum bs"
| "besum [] = 0"
| "besum (a # bs) = 256 * unat a + lesum bs"

lemma ones_refl [simp]: "ones n n"
  by (simp add: ones_def)

lemma ones_trans: "ones x n \<Longrightarrow> ones n m \<Longrightarrow> ones x m"
  by (simp add: ones_def)

lemma ones_sym: "ones x n \<Longrightarrow> ones n x"
  by (simp add: ones_def)

lemma ones_add: "ones x n \<Longrightarrow> ones y m \<Longrightarrow> ones (x + y) (n + m)"
  by (auto simp: ones_def intro: mod_add_cong)

lemma ones_mult: "ones x n \<Longrightarrow> ones (256 * x) (256 * n)"
  by (auto simp: ones_def intro: mod_mult_cong)

lemma ones_65536: "ones n (65536 * n)"
proof -
  have "65536 * n = n + n * 65535"
    by simp
  then show ?thesis
    by (simp only: ones_def mod_mult_self1) simp
qed

lemma ones_fold: "ones x n \<Longrightarrow> ones (x div 65536 + x mod 65536) n"
proof -
  assume "ones x n"
  moreover have "ones (x div 65536 + x mod 65536) x"
    using ones_add [OF ones_65536 [of "x div 65536"] ones_refl [of "x mod 65536"]] by simp
  ultimately show ?thesis
    using ones_trans by blast
qed

lemma ones_swap: "x < 65536 \<Longrightarrow> ones x n \<Longrightarrow> ones (256 * (x mod 256) + x div 256) (256 * n)"
proof -
  assume x: "x < 65536" "ones x n"
  have "256 * x = 65536 * (x div 256) + 256 * (x mod 256)"
    using mult_div_mod_eq [of 256 x] by linarith
  moreover have "ones (x div 256 + 256 * (x mod 256)) (65536 * (x div 256) + 256 * (x mod 256))"
    by (intro ones_add ones_65536 ones_refl)
  ultimately show ?thesis
    using ones_trans [OF _ ones_mult [OF x(2)]] by (simp add: add.commute)
qed

lemma ones_fold16: "ones (fold16 n) n"
proof (cases n)
  case (Suc m)
  then show ?thesis
    by (simp add: ones_def fold16_def mod_Suc_eq)
qed (simp add: fold16_def)

lemma ones_unique:
  assumes "x < 65536" and "ones x n"
  shows "x = fold16 n"
proof -
  have u: "x = y" if "x < 65536" "y < 65536" "x mod 65535 = y mod 65535" "x = 0 \<longleftrightarrow> y = 0" for x y :: nat
  proof -
    have m: "z = z mod 65535 \<or> z = 65535" if "z < 65536" for z :: nat
      using that by (cases "z = 65535") simp_all
    note m [OF that(1)] m [OF that(2)]
    with that show ?thesis
      by auto
  qed
  have "fold16 n < 65536"
    using mod_less_divisor [of 65535 "n - 1"] by (simp add: fold16_def)
  with u [OF assms(1) this] assms(2) ones_fold16 [of n] show ?thesis
    by (auto simp: ones_def)
qed

lemma ones_fold16_eq: "ones n m \<Longrightarrow> fold16 n = fold16 m"
  using ones_unique [of "fold16 n" m] ones_trans [OF ones_fold16] mod_less_divisor [of 65535 "n - 1"]
  by (simp add: fold16_def)

lemma ones_swapped_sums: "ones (256 * lesum bs) (besum bs) \<and> ones (256 * besum bs) (lesum bs)"
proof (induction bs)
  case (Cons a bs)
  have "ones (256 * (256 * unat a)) (unat a)"
    using ones_65536 [of "unat a"] by (simp add: ones_def)
  with Cons show ?case
    by (auto simp: distrib_left intro!: ones_add)
qed simp

lemma lesum_append:
  "lesum (xs @ ys) = lesum xs + (if even (length xs) then lesum ys else besum ys)"
  "besum (xs @ ys) = besum xs + (if even (length xs) then besum ys else lesum ys)"
  by (induction xs) auto

lemma sums_bound: "lesum bs \<le> 65535 * ((length bs + 1) div 2) \<and> besum bs \<le> 65535 * ((length bs + 1) div 2)"
proof (induction bs rule: induct_list012)
  case (2 a)
  then show ?case
    using unat_u8_less [of a] by simp
next
  case (3 a b bs)
  then show ?case
    using unat_u8_less [of a] unat_u8_less [of b] by simp
qed simp

section \<open>The machine operations\<close>

lemma unat_u32_less: "unat (x :: u32) < 4294967296"
  using unsigned_less [of x] by simp

lemma unat_u32_div: "unat (x :: u32) div 65536 < 65536"
  using unat_u32_less [of x] by (simp add: less_mult_imp_div_less)

lemma unat_FOLD: "unat (FOLD_U32T u) = unat u div 65536 + unat u mod 65536"
proof -
  have "unat (drop_bit 16 u) = unat u div 65536" "unat (u AND 0xffff) = unat u mod 65536"
    by (simp_all add: unat_drop_bit_eq drop_bit_eq_div byte_masks unat_div unat_mod unsigned_take_bit_eq take_bit_eq_mod
      flip: take_bit_eq_mask)
  moreover have "unat u div 65536 + unat u mod 65536 < 4294967296"
    using unat_u32_div [of u] mod_less_divisor [of 65536 "unat u"] by linarith
  ultimately show ?thesis
    by (simp add: FOLD_U32T_def unat_word_ariths)
qed

lemma FOLD_less: "unat (FOLD_U32T (FOLD_U32T u)) < 65536"
proof -
  let ?x = "unat (FOLD_U32T u)"
  have "unat u div 65536 < 65536"
    by (rule unat_u32_div)
  then have "?x \<le> 131070"
    using mod_less_divisor [of 65536 "unat u"] unfolding unat_FOLD by linarith
  moreover have "unat (FOLD_U32T (FOLD_U32T u)) = ?x div 65536 + ?x mod 65536"
    by (rule unat_FOLD)
  moreover have "x div 65536 + x mod 65536 < 65536" if "x \<le> 131070" for x :: nat
    using that by (cases "x < 65536") (simp_all add: le_mod_geq le_div_geq)
  ultimately show ?thesis
    by simp
qed

lemma FOLD_small: "unat u \<le> 131070 \<Longrightarrow> unat (FOLD_U32T u) < 65536"
  unfolding unat_FOLD by (cases "unat u < 65536") (simp_all add: le_mod_geq le_div_geq)

lemma ones_FOLD: "ones (unat u) n \<Longrightarrow> ones (unat (FOLD_U32T u)) n"
  by (simp add: unat_FOLD ones_fold)

lemma SWAP_htons: "SWAP_BYTES_IN_WORD w = ucast (lwip_htons (ucast w))"
  by (rule bit_word_eqI)
    (auto simp: SWAP_BYTES_IN_WORD_def lwip_htons_def byte_masks bit_simps)

lemma unat_SWAP:
  assumes "unat w < 65536"
  shows "unat (SWAP_BYTES_IN_WORD w) = 256 * (unat w mod 256) + unat w div 256"
  using assms by (simp add: SWAP_htons unat_htons unat_ucast_u32_u16)

lemma ones_SWAP: "unat w < 65536 \<Longrightarrow> ones (unat w) n \<Longrightarrow> ones (unat (SWAP_BYTES_IN_WORD w)) (256 * n)"
  by (simp add: unat_SWAP ones_swap)

lemma SWAP_less: "unat (SWAP_BYTES_IN_WORD w) < 65536"
  using unat_u16_less by (simp add: SWAP_htons)

lemma SWAP_SWAP: "unat w < 65536 \<Longrightarrow> SWAP_BYTES_IN_WORD (SWAP_BYTES_IN_WORD w) = w"
proof -
  assume "unat w < 65536"
  then have "w = ucast (ucast w :: u16)"
    by (simp add: word_unat_eq_iff unat_ucast_u32_u16)
  then obtain v :: u16 where w: "w = ucast v"
    by blast
  have "lwip_htons (lwip_htons v) = v"
    using lwip_htons_invol [of v] by (simp add: lwip_ntohs_def)
  moreover have "(ucast (ucast (x :: u16) :: u32) :: u16) = x" for x
    using unat_u16_less [of x] by (simp add: word_unat_eq_iff unat_ucast_u32_u16)
  ultimately show ?thesis
    by (simp add: SWAP_htons w)
qed

lemma unat_le32: "unat (le32 a b c d) = unat (le16 a b) + 65536 * unat (le16 c d)"
proof -
  have "ucast (le16 a b) AND push_bit 16 (ucast (le16 c d) :: u32) = 0"
    by (rule bit_word_eqI) (auto simp: bit_simps dest: bit_u16_less)
  then have "le32 a b c d = ucast (le16 a b) + push_bit 16 (ucast (le16 c d))"
    by (simp add: le32_def or_add_disjoint)
  then show ?thesis
    using unat_u16_less [of "le16 a b"] unat_u16_less [of "le16 c d"]
    by (simp add: push_bit_eq_mult unat_word_ariths)
qed

lemma ones_add_carry: "ones (unat s) n \<Longrightarrow> ones (unat (add_carry s x)) (n + unat x)"
proof -
  assume s: "ones (unat s) n"
  have x: "unat x < 4294967296" "unat s < 4294967296"
    by (rule unat_u32_less)+
  show ?thesis
  proof (cases "unat s + unat x < 4294967296")
    case True
    then have "unat (s + x) = unat s + unat x"
      by (simp add: unat_word_ariths)
    moreover from this have "\<not> s + x < s"
      by (simp add: word_less_nat_alt)
    ultimately show ?thesis
      using ones_add [OF s ones_refl [of "unat x"]] by (simp add: add_carry_def)
  next
    case False
    then have u: "unat (s + x) = unat s + unat x - 4294967296"
      using x by (simp add: unat_word_ariths mod_if)
    then have "s + x < s"
      using False x by (simp add: word_less_nat_alt)
    moreover have "unat (s + x + 1) = unat s + unat x - 4294967295"
      using u x False by (simp add: unat_word_ariths)
    moreover have "ones (unat s + unat x - 4294967295) (unat s + unat x)"
    proof -
      have "unat s + unat x = (unat s + unat x - 4294967295) + 65537 * 65535"
        using False by simp
      then have "(unat s + unat x) mod 65535 = (unat s + unat x - 4294967295) mod 65535"
        by (metis mod_mult_self1)
      moreover have "unat s + unat x \<noteq> 0" "unat s + unat x - 4294967295 \<noteq> 0"
        using False by linarith+
      ultimately show ?thesis
        by (simp only: ones_def)
    qed
    ultimately show ?thesis
      using ones_trans [OF _ ones_add [OF s ones_refl [of "unat x"]]] by (simp add: add_carry_def Let_def)
  qed
qed

section \<open>The loops\<close>

lemma unat_be16: "unat (be16 a b) = 256 * unat a + unat b"
  by (simp add: be16_le16 unat_le16)

lemma chksum1_loop_sum:
  "unat acc + besum bs < 4294967296 \<Longrightarrow> unat (chksum1_loop acc bs) = unat acc + besum bs"
proof (induction acc bs rule: chksum1_loop.induct)
  case (1 acc a b bs)
  have "unat (acc + ucast (be16 a b)) = unat acc + 256 * unat a + unat b"
    using "1.prems" by (simp add: unat_word_ariths unat_be16)
  with 1 show ?case
    by simp
next
  case (2 acc a)
  have "(push_bit 8 (ucast a) :: u16) = be16 a 0"
    by (simp add: be16_def)
  with 2 show ?case
    by (simp add: unat_word_ariths unat_be16)
qed simp

lemma chksum_words_sum:
  "unat s + lesum bs < 4294967296 \<Longrightarrow> \<exists>s' rest. chksum_words s bs = (s', rest) \<and> (rest = [] \<or> (\<exists>c. rest = [c])) \<and>
    unat s' + lesum rest = unat s + lesum bs"
proof (induction s bs rule: chksum_words.induct)
  case (1 s a b bs)
  have "unat (s + ucast (le16 a b)) = unat s + unat a + 256 * unat b"
    using "1.prems" by (simp add: unat_word_ariths unat_le16)
  with 1 show ?case
    by (simp add: add.assoc)
qed auto

lemma chksum_end_sum:
  assumes rest: "rest = [] \<or> (\<exists>c. rest = [c])" and V: "ones (unat s + lesum rest + 256 * unat t1) n"
    and b: "unat s + lesum rest + 256 * unat t1 < 4294967296"
  shows "unat (chksum_end addr t1 (s, rest)) = fold16 (if addr AND 1 \<noteq> 0 then 256 * n else n)"
proof -
  define t0 where "t0 = (case rest of [] \<Rightarrow> 0 | c # cs \<Rightarrow> c)"
  have "unat (s + ucast (le16 t0 t1)) = unat s + lesum rest + 256 * unat t1"
    using rest b by (auto simp: t0_def unat_word_ariths unat_le16)
  with V have o: "ones (unat (FOLD_U32T (FOLD_U32T (s + ucast (le16 t0 t1))))) n" (is "ones (unat ?x) n")
    by (simp add: ones_FOLD)
  have l: "unat ?x < 65536"
    by (rule FOLD_less)
  show ?thesis
  proof (cases "addr AND 1 = 0")
    case True
    then show ?thesis
      using ones_unique [OF l o] l by (simp add: chksum_end_def t0_def [symmetric] Let_def unat_ucast_u32_u16)
  next
    case False
    then show ?thesis
      using ones_unique [OF SWAP_less ones_SWAP [OF l o]] SWAP_less [of ?x]
      by (simp add: chksum_end_def t0_def [symmetric] Let_def unat_ucast_u32_u16)
  qed
qed

lemma ones_le32: "ones (unat (le32 a b c d)) (lesum [a, b, c, d])"
proof -
  have "ones (65536 * unat (le16 c d)) (unat (le16 c d))"
    using ones_65536 [of "unat (le16 c d)"] by (simp add: ones_def)
  from ones_add [OF ones_refl [of "unat (le16 a b)"] this] show ?thesis
    by (simp add: unat_le32 unat_le16 algebra_simps)
qed

lemma chksum3_loop_sum:
  "ones (unat s) n \<Longrightarrow> \<exists>s' rest. chksum3_loop s bs = (s', rest) \<and> length rest < 8 \<and>
    ones (unat s' + lesum rest) (n + lesum bs)"
proof (induction s bs arbitrary: n rule: chksum3_loop.induct)
  case (1 s a b c d e f g h bs)
  have "ones (unat (add_carry (add_carry s (le32 a b c d)) (le32 e f g h)))
      (n + lesum [a, b, c, d] + lesum [e, f, g, h])"
    using ones_add_carry [OF ones_add_carry [OF "1.prems"]]
    by (rule ones_trans) (intro ones_add ones_refl ones_le32)
  from "1.IH" [OF this] show ?case
    by (simp add: add.assoc)
qed (auto intro: ones_add)

lemma unat_not_u16: "unat (NOT (x :: u16)) = 65535 - unat x"
proof -
  have "NOT x = 65535 - x"
    by (simp add: not_eq_complement)
  moreover have "x \<le> 65535"
    using unat_u16_less [of x] by (simp add: word_le_nat_alt)
  ultimately show ?thesis
    by (simp add: unat_sub)
qed

lemma ucast_not_low: "(ucast (NOT (x AND 0xffff) :: u32) :: u16) = NOT (ucast x)"
  by (rule bit_word_eqI) (auto simp: byte_masks bit_simps)

text \<open>The pseudo header in memory: the addresses are in network order.\<close>

definition addr_bytes :: "u32 \<Rightarrow> u8 list" where
  "addr_bytes a = [lo8 (ucast a), hi8 (ucast a), lo8 (ucast (drop_bit 16 a)), hi8 (ucast (drop_bit 16 a))]"

definition pseudo_header :: "u32 \<Rightarrow> u32 \<Rightarrow> u8 \<Rightarrow> u16 \<Rightarrow> u8 list" where
  "pseudo_header src dest proto len = addr_bytes src @ addr_bytes dest @ [0, proto, hi8 len, lo8 len]"

lemma length_addr_bytes [simp]: "length (addr_bytes a) = 4"
  by (simp add: addr_bytes_def)

lemma lesum_addr:
  "lesum (addr_bytes a) = unat (a AND 0xffff) + unat (drop_bit 16 a AND 0xffff)"
proof -
  have "lesum [lo8 x, hi8 x, lo8 y, hi8 y] = unat x + unat y" for x y
    using unat_le16 [of "lo8 x" "hi8 x"] unat_le16 [of "lo8 y" "hi8 y"] by simp
  moreover have "unat (x AND 0xffff) = unat (ucast x :: u16)" for x :: u32
    by (simp add: byte_masks unat_ucast_u32_u16 unat_mod unsigned_take_bit_eq take_bit_eq_mod flip: take_bit_eq_mask)
  ultimately show ?thesis
    by (simp only: addr_bytes_def)
qed

lemma pseudo_end_sum:
  assumes acc: "unat acc < 65536" "ones (unat acc) (lesum bs)"
  shows "unat (pseudo_end acc src dest proto len) = 65535 - fold16 (lesum (pseudo_header src dest proto len @ bs))"
proof -
  define w1 w2 w3 w4 where w: "w1 = src AND 0xffff" "w2 = drop_bit 16 src AND 0xffff" "w3 = dest AND 0xffff"
    "w4 = drop_bit 16 dest AND 0xffff"
  have b: "unat (x AND 0xffff) < 65536" for x :: u32
    by (simp add: byte_masks unat_mod unsigned_take_bit_eq take_bit_eq_mod flip: take_bit_eq_mask)
  let ?p = "lwip_htons (ucast proto)" and ?l = "lwip_htons len"
  define v where "v = acc + w1 + w2 + (w3 + w4) + (ucast ?p + ucast ?l)"
  have "unat v = unat acc + unat w1 + unat w2 + (unat w3 + unat w4) + (unat ?p + unat ?l)"
    unfolding v_def using acc(1) b [of src] b [of "drop_bit 16 src"] b [of dest] b [of "drop_bit 16 dest"]
      unat_u16_less [of ?p] unat_u16_less [of ?l]
    by (simp add: w unat_word_ariths)
  moreover have "unat ?p + unat ?l = lesum [0, proto, hi8 len, lo8 len]"
  proof -
    have "?p = le16 0 proto" "?l = le16 (hi8 len) (lo8 len)"
      using lwip_htons_le16 [of proto 0] lwip_htons_le16 [of "lo8 len" "hi8 len"]
      by (simp_all add: be16_le16 le16_def [of proto 0])
    then show ?thesis
      by (simp add: unat_le16)
  qed
  ultimately have "unat v = unat acc + lesum (pseudo_header src dest proto len)"
    by (simp add: pseudo_header_def lesum_append lesum_addr w)
  then have "ones (unat v) (lesum bs + lesum (pseudo_header src dest proto len))"
    using ones_add [OF acc(2) ones_refl] by simp
  then have "ones (unat v) (lesum (pseudo_header src dest proto len @ bs))"
    by (simp add: lesum_append pseudo_header_def ac_simps)
  then have o: "ones (unat (FOLD_U32T (FOLD_U32T v))) (lesum (pseudo_header src dest proto len @ bs))"
    by (simp add: ones_FOLD)
  have "pseudo_end acc src dest proto len = NOT (ucast (FOLD_U32T (FOLD_U32T v)))"
    unfolding pseudo_end_def Let_def ucast_not_low by (simp add: v_def w add.assoc)
  then show ?thesis
    using ones_unique [OF FOLD_less o] FOLD_less [of v] by (simp add: unat_not_u16 unat_ucast_u32_u16)
qed

section \<open>The contract of the sum\<close>

locale chksum_impl =
  fixes chk :: "u32 \<Rightarrow> u8 list \<Rightarrow> u16"
  assumes chk: "length bs < 65536 \<Longrightarrow> unat (chk addr bs) = fold16 (lesum bs)"
begin

lemma ones_chk: "length bs < 65536 \<Longrightarrow> ones (unat (chk addr bs)) (lesum bs)"
  by (simp add: chk ones_fold16)

text \<open>The state of the loop over a chain after the bytes \<open>ps\<close>.\<close>

definition chain_inv :: "u8 list \<Rightarrow> u32 \<times> bool \<Rightarrow> bool" where
  "chain_inv ps r \<longleftrightarrow> unat (fst r) < 65536 \<and> snd r = odd (length ps) \<and>
     ones (unat (fst r)) (if odd (length ps) then 256 * lesum ps else lesum ps)"

lemma ones_256_256: "ones (256 * (256 * n)) n"
  using ones_65536 [of n] by (simp add: ones_def)

lemma chain_inv_step:
  assumes inv: "chain_inv ps (acc, sw)" and len: "length bs < 65536"
    and acc': "acc' = FOLD_U32T (acc + ucast (chk addr bs))"
  shows "chain_inv (ps @ bs) (if odd (length bs) then (SWAP_BYTES_IN_WORD acc', \<not> sw) else (acc', sw))"
proof -
  have a: "unat acc < 65536" "sw = odd (length ps)"
    "ones (unat acc) (if odd (length ps) then 256 * lesum ps else lesum ps)"
    using inv by (simp_all add: chain_inv_def)
  have u: "unat (acc + ucast (chk addr bs)) = unat acc + unat (chk addr bs)"
    using a(1) unat_u16_less [of "chk addr bs"] by (simp add: unat_word_ariths)
  then have l: "unat acc' < 65536"
    using a(1) unat_u16_less [of "chk addr bs"] FOLD_small by (simp add: acc')
  have "ones (unat acc + unat (chk addr bs)) (if odd (length ps) then 256 * lesum (ps @ bs) else lesum (ps @ bs))"
  proof (cases "odd (length ps)")
    case True
    have "ones (lesum bs) (256 * besum bs)"
      using ones_swapped_sums [of bs] ones_sym by blast
    then have "ones (unat acc + unat (chk addr bs)) (256 * lesum ps + 256 * besum bs)"
      using a(3) True by (intro ones_add ones_trans [OF ones_chk [OF len]]) simp_all
    with True show ?thesis
      by (simp add: lesum_append distrib_left)
  next
    case False
    have "ones (unat acc + unat (chk addr bs)) (lesum ps + lesum bs)"
      using a(3) False by (intro ones_add ones_chk [OF len]) simp
    with False show ?thesis
      by (simp add: lesum_append)
  qed
  then have o: "ones (unat acc') (if odd (length ps) then 256 * lesum (ps @ bs) else lesum (ps @ bs))"
    unfolding acc' by (intro ones_FOLD) (simp only: u)
  show ?thesis
  proof (cases "odd (length bs)")
    case True
    from ones_SWAP [OF l o] have "ones (unat (SWAP_BYTES_IN_WORD acc'))
        (if odd (length (ps @ bs)) then 256 * lesum (ps @ bs) else lesum (ps @ bs))"
      using True ones_trans [OF _ ones_256_256] by (cases "odd (length ps)") simp_all
    with True a(2) SWAP_less show ?thesis
      by (simp add: chain_inv_def)
  next
    case False
    with a(2) l o show ?thesis
      by (simp add: chain_inv_def)
  qed
qed

lemma chain_inv_loop:
  "chain_inv ps r \<Longrightarrow> \<forall>b \<in> set p. length (snd b) < 65536 \<Longrightarrow>
    chain_inv (ps @ concat (map snd p)) (chksum_chain chk r p)"
proof (induction p arbitrary: ps r)
  case Nil
  then show ?case
    by (cases r) simp
next
  case (Cons b q)
  obtain acc sw addr bs where r: "r = (acc, sw)" "b = (addr, bs)"
    by (cases r, cases b)
  let ?acc = "FOLD_U32T (acc + ucast (chk addr bs))"
  have "chain_inv (ps @ bs) (if odd (length bs) then (SWAP_BYTES_IN_WORD ?acc, \<not> sw) else (?acc, sw))"
    using Cons.prems r by (intro chain_inv_step) auto
  from Cons.IH [OF this] Cons.prems(2) show ?case
    unfolding r by (cases "odd (length bs)") (simp_all add: Let_def)
qed

lemma chain_sum_ones:
  assumes "chain_inv ps r"
  shows "unat (chain_sum r) < 65536" and "ones (unat (chain_sum r)) (lesum ps)"
proof -
  have a: "unat (fst r) < 65536" "snd r = odd (length ps)"
    "ones (unat (fst r)) (if odd (length ps) then 256 * lesum ps else lesum ps)"
    using assms by (simp_all add: chain_inv_def)
  show "unat (chain_sum r) < 65536"
    using a(1) SWAP_less by (simp add: chain_sum_def)
  show "ones (unat (chain_sum r)) (lesum ps)"
  proof (cases "snd r")
    case True
    with ones_SWAP [OF a(1,3)] a(2) show ?thesis
      using ones_trans [OF _ ones_256_256] by (simp add: chain_sum_def)
  next
    case False
    with a show ?thesis
      by (simp add: chain_sum_def)
  qed
qed

lemma chain_inv_start: "chain_inv [] (0, False)"
  by (simp add: chain_inv_def)

lemma chksum_chain_ones:
  assumes "\<forall>b \<in> set p. length (snd b) < 65536"
  shows "unat (chain_sum (chksum_chain chk (0, False) p)) < 65536"
    and "ones (unat (chain_sum (chksum_chain chk (0, False) p))) (lesum (concat (map snd p)))"
  using chain_sum_ones [OF chain_inv_loop [OF chain_inv_start assms]] by simp_all

lemma chain_inv_sum:
  assumes inv: "chain_inv ps (acc, sw)" and len: "length bs < 65536"
    and acc': "acc' = FOLD_U32T (acc + ucast (chk addr bs))"
  shows "unat (chain_sum (acc', sw)) < 65536" and "ones (unat (chain_sum (acc', sw))) (lesum (ps @ bs))"
    and "chain_sum (SWAP_BYTES_IN_WORD acc', \<not> sw) = chain_sum (acc', sw)"
proof -
  have "unat (acc + ucast (chk addr bs)) = unat acc + unat (chk addr bs)"
    using inv unat_u16_less [of "chk addr bs"] by (simp add: chain_inv_def unat_word_ariths)
  then have "unat acc' < 65536"
    using inv unat_u16_less [of "chk addr bs"] FOLD_small by (simp add: acc' chain_inv_def)
  then show eq: "chain_sum (SWAP_BYTES_IN_WORD acc', \<not> sw) = chain_sum (acc', sw)"
    by (simp add: chain_sum_def SWAP_SWAP)
  note i = chain_sum_ones [OF chain_inv_step [OF inv len acc']]
  show "unat (chain_sum (acc', sw)) < 65536"
    using i(1) eq by (auto split: if_splits)
  show "ones (unat (chain_sum (acc', sw))) (lesum (ps @ bs))"
    using i(2) eq by (auto split: if_splits)
qed

lemma chksum_partial_ones:
  "chain_inv ps r \<Longrightarrow> \<forall>b \<in> set p. length (snd b) < 65536 \<Longrightarrow>
    unat (chain_sum (chksum_chain_partial chk r n p)) < 65536 \<and>
    ones (unat (chain_sum (chksum_chain_partial chk r n p))) (lesum (ps @ take n (concat (map snd p))))"
proof (induction p arbitrary: ps r n)
  case Nil
  then show ?case
    using chain_sum_ones [OF Nil.prems(1)] by (cases r) simp
next
  case (Cons b q)
  obtain acc sw addr bs where r: "r = (acc, sw)" "b = (addr, bs)"
    by (cases r, cases b)
  have len: "length bs < 65536"
    using Cons.prems(2) r by simp
  show ?case
  proof (cases "n < length bs")
    case True
    let ?acc = "FOLD_U32T (acc + ucast (chk addr (take n bs)))"
    have nil: "chksum_chain_partial chk x 0 q = x" for x
      by (cases x; cases q) auto
    have "length (take n bs) < 65536"
      using len by simp
    note i = chain_inv_sum [OF Cons.prems(1) [unfolded r] this refl]
    show ?thesis
    proof (cases "n = 0")
      case True
      then show ?thesis
        using chain_sum_ones [OF Cons.prems(1)] by (simp add: r)
    next
      case False
      then have "chain_sum (chksum_chain_partial chk r n (b # q)) = chain_sum (?acc, sw)"
        using True i(3) by (simp add: r nil Let_def)
      with i(1,2) True show ?thesis
        by (simp add: r)
    qed
  next
    case False
    let ?acc = "FOLD_U32T (acc + ucast (chk addr bs))"
    let ?r = "if odd (length bs) then (SWAP_BYTES_IN_WORD ?acc, \<not> sw) else (?acc, sw)"
    show ?thesis
    proof (cases "n = 0")
      case True
      then show ?thesis
        using chain_sum_ones [OF Cons.prems(1)] by (simp add: r)
    next
      case n: False
      have "chain_inv (ps @ bs) ?r"
        using Cons.prems(1) len r by (intro chain_inv_step) auto
      from Cons.IH [OF this] Cons.prems(2)
      have "unat (chain_sum (chksum_chain_partial chk ?r (n - length bs) q)) < 65536 \<and>
          ones (unat (chain_sum (chksum_chain_partial chk ?r (n - length bs) q)))
            (lesum ((ps @ bs) @ take (n - length bs) (concat (map snd q))))"
        by simp
      moreover have "chksum_chain_partial chk r n (b # q) = chksum_chain_partial chk ?r (n - length bs) q"
        using False n by (simp add: r Let_def)
      ultimately show ?thesis
        using False by (simp add: r)
    qed
  qed
qed

lemma inet_chksum_pseudo_partial_sum:
  assumes "\<forall>b \<in> set p. length (snd b) < 65536"
  shows "unat (inet_chksum_pseudo_partial chk p src dest proto len n) =
    65535 - fold16 (lesum (pseudo_header src dest proto len @ take (unat n) (concat (map snd p))))"
  unfolding inet_chksum_pseudo_partial_def
  using chksum_partial_ones [OF chain_inv_start assms, of "unat n"] by (intro pseudo_end_sum) simp_all

lemma inet_chksum_sum:
  "length bs < 65536 \<Longrightarrow> unat (inet_chksum chk addr bs) = 65535 - fold16 (lesum bs)"
  by (simp add: inet_chksum_def unat_not_u16 chk)

lemma inet_chksum_pbuf_sum:
  assumes "\<forall>b \<in> set p. length (snd b) < 65536"
  shows "unat (inet_chksum_pbuf chk p) = 65535 - fold16 (lesum (concat (map snd p)))"
  unfolding inet_chksum_pbuf_def ucast_not_low
  using chksum_chain_ones(1) [OF assms] ones_unique [OF chksum_chain_ones [OF assms]]
  by (simp add: unat_not_u16 unat_ucast_u32_u16)

lemma inet_chksum_pseudo_sum:
  assumes "\<forall>b \<in> set p. length (snd b) < 65536"
  shows "unat (inet_chksum_pseudo chk p src dest proto len) =
    65535 - fold16 (lesum (pseudo_header src dest proto len @ concat (map snd p)))"
  unfolding inet_chksum_pseudo_def using chksum_chain_ones [OF assms] by (rule pseudo_end_sum)

end

section \<open>The implementations keep the contract\<close>

lemma sums_less: "length bs < 65536 \<Longrightarrow> lesum bs < 4294967296 \<and> besum bs < 4294967296"
  using sums_bound [of bs] by (auto dest: order_le_less_trans)

lemma unat_take16: "unat (take_bit 16 (x :: u32)) = unat x mod 65536"
  by (simp add: unsigned_take_bit_eq take_bit_eq_mod unat_mod)

lemma no_high_half: "x AND 0xffff0000 = 0 \<Longrightarrow> unat (x :: u32) < 65536"
proof -
  assume a: "x AND 0xffff0000 = 0"
  have m: "(0xffff0000 :: u32) = push_bit 16 (mask 16)"
    by (simp add: mask_eq_exp_minus_1 push_bit_eq_mult)
  have "\<not> bit x n" if "16 \<le> n" "n < 32" for n
  proof -
    have "n - 16 < 16"
      using that by linarith
    with arg_cong [OF a, of "\<lambda>y. bit y n"] that show ?thesis
      by (simp add: m bit_simps)
  qed
  then have "take_bit 16 x = x"
    by (intro bit_word_eqI) (auto simp: bit_simps not_less [symmetric])
  then have "unat x = unat x mod 65536"
    by (metis unat_take16)
  then show ?thesis
    using mod_less_divisor [of 65536 "unat x"] by linarith
qed

lemma chksum1_contract:
  assumes "length bs < 65536"
  shows "unat (lwip_standard_chksum1 addr bs) = fold16 (lesum bs)"
proof -
  define x where "x = FOLD_U32T (chksum1_loop 0 bs)"
  define y where "y = (if x AND 0xffff0000 \<noteq> 0 then FOLD_U32T x else x)"
  have l: "unat (chksum1_loop 0 bs) = besum bs"
    using chksum1_loop_sum [of 0 bs] sums_less [OF assms] by simp
  then have "ones (unat x) (besum bs)"
    unfolding x_def by (intro ones_FOLD) simp
  then have o: "ones (unat y) (besum bs)"
    by (simp add: y_def ones_FOLD)
  have y: "unat y < 65536"
    using FOLD_less [of "chksum1_loop 0 bs"] no_high_half [of x] by (simp add: y_def x_def)
  have "lwip_standard_chksum1 addr bs = lwip_htons (ucast y)"
    by (simp add: lwip_standard_chksum1_def x_def y_def Let_def)
  then have u: "unat (lwip_standard_chksum1 addr bs) = unat (SWAP_BYTES_IN_WORD y)"
    by (simp add: SWAP_htons)
  have "ones (unat (SWAP_BYTES_IN_WORD y)) (lesum bs)"
    using ones_trans [OF ones_SWAP [OF y o]] ones_swapped_sums [of bs] by blast
  then show ?thesis
    unfolding u using SWAP_less by (intro ones_unique)
qed

text \<open>The end of versions 2 and 3, from an odd or an even address.\<close>

lemma chksum_odd_sum:
  assumes "chksum_odd addr bs = (t1, bs1)"
  shows "fold16 (if addr AND 1 \<noteq> 0 then 256 * (256 * unat t1 + lesum bs1) else 256 * unat t1 + lesum bs1) = fold16 (lesum bs)"
    and "256 * unat t1 + lesum bs1 \<le> max (lesum bs) (besum bs)"
proof -
  show "fold16 (if addr AND 1 \<noteq> 0 then 256 * (256 * unat t1 + lesum bs1) else 256 * unat t1 + lesum bs1) = fold16 (lesum bs)"
  proof (cases "addr AND 1 \<noteq> 0 \<and> bs \<noteq> []")
    case True
    with assms have "256 * unat t1 + lesum bs1 = besum bs"
      by (cases bs) (auto simp: chksum_odd_def)
    with True show ?thesis
      using ones_fold16_eq ones_swapped_sums [of bs] by simp
  next
    case False
    with assms show ?thesis
      by (auto simp: chksum_odd_def)
  qed
  show "256 * unat t1 + lesum bs1 \<le> max (lesum bs) (besum bs)"
    using assms by (cases bs) (auto simp: chksum_odd_def split: if_splits)
qed

lemma chksum2_contract:
  assumes "length bs < 65536"
  shows "unat (lwip_standard_chksum2 addr bs) = fold16 (lesum bs)"
proof -
  obtain t1 bs1 where o: "chksum_odd addr bs = (t1, bs1)"
    by fastforce
  note O = chksum_odd_sum [OF o]
  have b: "256 * unat t1 + lesum bs1 < 4294967296"
    using O(2) sums_less [OF assms] by (simp add: max_def split: if_splits)
  then obtain s' rest where w: "chksum_words 0 bs1 = (s', rest)" "rest = [] \<or> (\<exists>c. rest = [c])"
      "unat s' + lesum rest = lesum bs1"
    using chksum_words_sum [of 0 bs1] by auto
  have "ones (unat s' + lesum rest + 256 * unat t1) (256 * unat t1 + lesum bs1)"
    using w(3) by (simp add: add.commute)
  from chksum_end_sum [OF w(2) this] w b O(1) show ?thesis
    by (simp add: lwip_standard_chksum2_def o)
qed

lemma chksum3_contract:
  assumes "length bs < 65536"
  shows "unat (lwip_standard_chksum3 addr bs) = fold16 (lesum bs)"
proof -
  obtain t1 bs1 where o: "chksum_odd addr bs = (t1, bs1)"
    by fastforce
  define ps where "ps = (if length bs1 < length bs then addr + 1 else addr)"
  obtain s bs2 where h: "(if ps AND 3 \<noteq> 0 \<and> 1 < length bs1
      then (ucast (le16 (bs1 ! 0) (bs1 ! 1)) :: u32, drop 2 bs1) else (0, bs1)) = (s, bs2)" (is "?h = _")
    by fastforce
  have s: "unat s + lesum bs2 = lesum bs1"
  proof (cases "ps AND 3 \<noteq> 0 \<and> 1 < length bs1")
    case True
    then obtain a b cs where "bs1 = a # b # cs"
      by (cases bs1; cases "tl bs1") auto
    with h True show ?thesis
      by (auto simp: unat_le16)
  qed (use h in auto)
  from chksum3_loop_sum [OF ones_refl [of "unat s"], of bs2] obtain s3 bs3 where
    l: "chksum3_loop s bs2 = (s3, bs3)" "length bs3 < 8" "ones (unat s3 + lesum bs3) (lesum bs1)"
    using s by auto
  have f: "unat (FOLD_U32T s3) \<le> 131070"
    using unat_u32_div [of s3] mod_less_divisor [of 65536 "unat s3"] unfolding unat_FOLD by linarith
  have b3: "lesum bs3 \<le> 262140"
    using conjunct1 [OF sums_bound [of bs3]] l(2) by linarith
  then obtain s4 rest where w: "chksum_words (FOLD_U32T s3) bs3 = (s4, rest)" "rest = [] \<or> (\<exists>c. rest = [c])"
      "unat s4 + lesum rest = unat (FOLD_U32T s3) + lesum bs3"
    using chksum_words_sum [of "FOLD_U32T s3" bs3] f by auto
  have "ones (unat s4 + lesum rest + 256 * unat t1) (256 * unat t1 + lesum bs1)"
  proof -
    have "ones (unat (FOLD_U32T s3) + lesum bs3) (lesum bs1)"
      using ones_trans [OF ones_add [OF ones_FOLD [OF ones_refl] ones_refl] l(3)] .
    from ones_add [OF this ones_refl [of "256 * unat t1"]] show ?thesis
      unfolding w(3) by (simp add: add.commute)
  qed
  from chksum_end_sum [OF w(2) this] w(3) f b3 unat_u8_less [of t1] chksum_odd_sum(1) [OF o]
  have "unat (chksum_end addr t1 (s4, rest)) = fold16 (lesum bs)"
    by simp
  moreover have "lwip_standard_chksum3 addr bs = chksum_end addr t1 (s4, rest)"
    unfolding lwip_standard_chksum3_def Let_def o prod.case ps_def [symmetric] h l(1) w(1) ..
  ultimately show ?thesis
    by simp
qed

interpretation chksum1: chksum_impl lwip_standard_chksum1
  by unfold_locales (rule chksum1_contract)

interpretation chksum2: chksum_impl lwip_standard_chksum2
  by unfold_locales (rule chksum2_contract)

interpretation chksum3: chksum_impl lwip_standard_chksum3
  by unfold_locales (rule chksum3_contract)

end
