(* ===== verification/Lwip_Ip.thy ===== *)
theory Lwip_Ip
  imports Lwip_Def
begin

text \<open>
  Internet addresses (\<open>lwip/core/ipv4/ip_addr.c\<close>): broadcast addresses, the check of network masks, and the
  conversion between addresses and their text. An address is the word in memory, in network byte order. A C
  string is the list of its bytes before the terminating zero.
\<close>

unbundle bit_operations_syntax

definition IPADDR_ANY :: u32 where
  "IPADDR_ANY = 0"

definition IPADDR_BROADCAST :: u32 where
  "IPADDR_BROADCAST = 0xffffffff"

definition IPADDR_NONE :: u32 where
  "IPADDR_NONE = 0xffffffff"

definition NETIF_FLAG_BROADCAST :: u8 where
  "NETIF_FLAG_BROADCAST = 2"

record netif =
  ni_ip_addr :: u32
  ni_netmask :: u32
  ni_flags :: u8

section \<open>Broadcast addresses and masks\<close>

definition ip_addr_netcmp :: "u32 \<Rightarrow> u32 \<Rightarrow> u32 \<Rightarrow> bool" where
  "ip_addr_netcmp addr1 addr2 m \<longleftrightarrow> addr1 AND m = addr2 AND m"

definition ip4_addr_isbroadcast :: "u32 \<Rightarrow> netif \<Rightarrow> u8" where
  "ip4_addr_isbroadcast addr netif =
     (if NOT addr = IPADDR_ANY \<or> addr = IPADDR_ANY then 1
      else if ni_flags netif AND NETIF_FLAG_BROADCAST = 0 then 0
      else if addr = ni_ip_addr netif then 0
      else if ip_addr_netcmp addr (ni_ip_addr netif) (ni_netmask netif) \<and>
        addr AND NOT (ni_netmask netif) = IPADDR_BROADCAST AND NOT (ni_netmask netif) then 1
      else 0)"

text \<open>The two loops of the mask check; \<open>m\<close> is the bit they look at.\<close>

lemma shift_mask_less: "(m :: u32) \<noteq> 0 \<Longrightarrow> unat (drop_bit (Suc 0) m) < unat m"
  by (simp add: unat_drop_bit_eq unat_gt_0 drop_bit_Suc unat_div)

function first_zero :: "u32 \<Rightarrow> u32 \<Rightarrow> u32" where
  "first_zero nm m = (if m \<noteq> 0 \<and> nm AND m \<noteq> 0 then first_zero nm (drop_bit 1 m) else m)"
  by auto

termination first_zero
  by (relation "measure (\<lambda>(nm, m). unat m)") (auto simp: shift_mask_less)

function no_ones :: "u32 \<Rightarrow> u32 \<Rightarrow> bool" where
  "no_ones nm m \<longleftrightarrow> (if m = 0 then True else if nm AND m \<noteq> 0 then False else no_ones nm (drop_bit 1 m))"
  by auto

termination no_ones
  by (relation "measure (\<lambda>(nm, m). unat m)") (auto simp: shift_mask_less)

declare first_zero.simps [simp del] no_ones.simps [simp del]

definition ip4_addr_netmask_valid :: "u32 \<Rightarrow> u8" where
  "ip4_addr_netmask_valid netmask =
     (let nm_hostorder = lwip_htonl netmask
      in if no_ones nm_hostorder (first_zero nm_hostorder (push_bit 31 1)) then 1 else 0)"

section \<open>From text to addresses\<close>

definition in_range :: "u8 \<Rightarrow> u8 \<Rightarrow> u8 \<Rightarrow> bool" where
  "in_range c lo up \<longleftrightarrow> lo \<le> c \<and> c \<le> up"

definition isdigit :: "u8 \<Rightarrow> bool" where
  "isdigit c \<longleftrightarrow> in_range c 48 57"

definition isxdigit :: "u8 \<Rightarrow> bool" where
  "isxdigit c \<longleftrightarrow> isdigit c \<or> in_range c 97 102 \<or> in_range c 65 70"

definition islower :: "u8 \<Rightarrow> bool" where
  "islower c \<longleftrightarrow> in_range c 97 122"

definition isspace :: "u8 \<Rightarrow> bool" where
  "isspace c \<longleftrightarrow> c = 32 \<or> c = 12 \<or> c = 10 \<or> c = 13 \<or> c = 9 \<or> c = 11"

text \<open>The character at the pointer: the terminator at the end of the string.\<close>

fun char_at :: "u8 list \<Rightarrow> u8" where
  "char_at [] = 0"
| "char_at (c # cp) = c"

fun aton_digits :: "u32 \<Rightarrow> u32 \<Rightarrow> u8 list \<Rightarrow> u32 \<times> u8 list" where
  "aton_digits base val [] = (val, [])"
| "aton_digits base val (c # cp) =
     (if isdigit c then aton_digits base (val * base + ucast (c - 48)) cp
      else if base = 16 \<and> isxdigit c
      then aton_digits base (push_bit 4 val OR ucast (c + 10 - (if islower c then 97 else 65))) cp
      else (val, c # cp))"

definition aton_number :: "u8 list \<Rightarrow> u32 \<times> u8 list" where
  "aton_number cp =
     (if char_at cp = 48
      then let cp = tl cp in
        if char_at cp = 120 \<or> char_at cp = 88 then aton_digits 16 0 (tl cp) else aton_digits 8 0 cp
      else aton_digits 10 0 cp)"

text \<open>The outer loop: the parts before a dot, the last value and the rest of the text.\<close>

function aton_parts :: "u32 list \<Rightarrow> u8 list \<Rightarrow> (u32 list \<times> u32 \<times> u8 list) option" where
  "aton_parts parts cp =
     (if \<not> isdigit (char_at cp) then None
      else let (val, cp) = aton_number cp in
        if char_at cp = 46
        then if 3 \<le> length parts then None else aton_parts (parts @ [val]) (tl cp)
        else Some (parts, val, cp))"
  by auto

termination aton_parts
  by (relation "measure (\<lambda>(parts, cp). 3 - length parts)") auto

declare aton_parts.simps [simp del]

definition aton_concoct :: "u32 list \<Rightarrow> u32 \<Rightarrow> u32 option" where
  "aton_concoct parts val =
     (if length parts = 0 then Some val
      else if length parts = 1
      then if 0xffffff < val then None else Some (val OR push_bit 24 (parts ! 0))
      else if length parts = 2
      then if 0xffff < val then None
        else Some (val OR (push_bit 24 (parts ! 0) OR push_bit 16 (parts ! 1)))
      else if 0xff < val then None
        else Some (val OR (push_bit 24 (parts ! 0) OR push_bit 16 (parts ! 1) OR push_bit 8 (parts ! 2))))"

definition ipaddr_aton :: "u8 list \<Rightarrow> u32 option" where
  "ipaddr_aton cp =
     (case aton_parts [] cp of
        None \<Rightarrow> None
      | Some (parts, val, cp) \<Rightarrow>
          if char_at cp \<noteq> 0 \<and> \<not> isspace (char_at cp) then None
          else map_option lwip_htonl (aton_concoct parts val))"

definition ipaddr_addr :: "u8 list \<Rightarrow> u32" where
  "ipaddr_addr cp = (case ipaddr_aton cp of Some val \<Rightarrow> val | None \<Rightarrow> IPADDR_NONE)"

section \<open>From addresses to text\<close>

text \<open>The digits of a byte, last digit first, as in \<open>inv\<close>.\<close>

function dec_inv :: "u8 \<Rightarrow> u8 list" where
  "dec_inv b = (48 + b mod 10) # (if b div 10 = 0 then [] else dec_inv (b div 10))"
  by auto

termination dec_inv
proof (relation "measure unat")
  fix b :: u8
  assume "b div 10 \<noteq> 0"
  then have "unat b div 10 \<noteq> 0"
    by (simp add: word_unat_eq_iff unat_div)
  then show "(b div 10, b) \<in> measure unat"
    by (simp add: unat_div)
qed simp

declare dec_inv.simps [simp del]

fun ntoa_put :: "int \<Rightarrow> u8 list \<Rightarrow> u8 list \<Rightarrow> u8 list option" where
  "ntoa_put buflen out [] = Some out"
| "ntoa_put buflen out (c # cs) = (if buflen \<le> int (length out) then None else ntoa_put buflen (out @ [c]) cs)"

fun ntoa_bytes :: "int \<Rightarrow> u8 list \<Rightarrow> u8 list \<Rightarrow> u8 list option" where
  "ntoa_bytes buflen out [] = Some out"
| "ntoa_bytes buflen out (a # ap) =
     (case ntoa_put buflen out (rev (dec_inv a) @ [46]) of
        None \<Rightarrow> None
      | Some out \<Rightarrow> ntoa_bytes buflen out ap)"

definition addr_octets :: "u32 \<Rightarrow> u8 list" where
  "addr_octets a = [ucast a, ucast (drop_bit 8 a), ucast (drop_bit 16 a), ucast (drop_bit 24 a)]"

text \<open>The terminator overwrites the last dot.\<close>

definition ipaddr_ntoa_r :: "u32 \<Rightarrow> int \<Rightarrow> u8 list option" where
  "ipaddr_ntoa_r addr buflen = map_option butlast (ntoa_bytes buflen [] (addr_octets addr))"

definition ipaddr_ntoa :: "u32 \<Rightarrow> u8 list option" where
  "ipaddr_ntoa addr = ipaddr_ntoa_r addr 16"

section \<open>The mask check\<close>

lemma bit_one: "bit (push_bit i (1 :: u32)) n \<longleftrightarrow> n = i \<and> i < 32"
  by (simp only: bit_push_bit_iff bit_1_iff possible_bit_word) auto

lemma and_bit: "(nm :: u32) AND push_bit i 1 \<noteq> 0 \<longleftrightarrow> bit nm i"
proof
  assume "bit nm i"
  moreover from this have "i < 32"
    using bit_imp_le_length [of nm i] by simp
  ultimately have "bit (nm AND push_bit i 1) i"
    by (simp only: bit_and_iff bit_one)
  then show "nm AND push_bit i 1 \<noteq> 0"
    by (metis bit_0_eq bot_apply bot_bool_def)
next
  assume a: "nm AND push_bit i 1 \<noteq> 0"
  show "bit nm i"
  proof (rule ccontr)
    assume "\<not> bit nm i"
    then have "nm AND push_bit i 1 = 0"
      by (intro bit_word_eqI) (auto simp: bit_and_iff bit_one simp del: push_bit_of_1)
    with a show False
      by simp
  qed
qed

lemma push_one_nonzero: "i < 32 \<Longrightarrow> push_bit i (1 :: u32) \<noteq> 0"
proof
  assume i: "i < 32" and z: "push_bit i (1 :: u32) = 0"
  have "bit (push_bit i (1 :: u32)) i"
    using i by (simp only: bit_one)
  then show False
    unfolding z by simp
qed

lemma next_bit: "Suc i < 32 \<Longrightarrow> drop_bit 1 (push_bit (Suc i) (1 :: u32)) = push_bit i 1"
  by (intro bit_word_eqI) (auto simp: bit_drop_bit_eq bit_one simp del: push_bit_of_1 push_bit_Suc drop_bit_Suc)

lemma no_ones_zero [simp]: "no_ones nm 0" "first_zero nm 0 = 0"
  by (subst no_ones.simps, simp) (subst first_zero.simps, simp)

lemma no_ones_bits: "i < 32 \<Longrightarrow> no_ones nm (push_bit i 1) \<longleftrightarrow> (\<forall>k \<le> i. \<not> bit nm k)"
proof (induction i)
  case 0
  then show ?case
    by (subst no_ones.simps, unfold and_bit) (simp add: drop_bit_Suc)
next
  case (Suc i)
  have "no_ones nm (push_bit (Suc i) 1) \<longleftrightarrow> \<not> bit nm (Suc i) \<and> no_ones nm (push_bit i 1)"
    by (subst no_ones.simps, unfold and_bit next_bit [OF Suc.prems]) (use Suc.prems push_one_nonzero [OF Suc.prems] in \<open>simp del: push_bit_of_1\<close>)
  with Suc show ?case
    by (auto simp: le_Suc_eq)
qed

lemma first_zero_bits:
  "i < 32 \<Longrightarrow> (\<forall>k \<le> i. bit nm k) \<and> first_zero nm (push_bit i 1) = 0 \<or>
    (\<exists>j \<le> i. \<not> bit nm j \<and> (\<forall>k. j < k \<and> k \<le> i \<longrightarrow> bit nm k) \<and> first_zero nm (push_bit i 1) = push_bit j 1)"
proof (induction i)
  case 0
  then show ?case
    by (subst (1 2) first_zero.simps, unfold and_bit) (simp add: drop_bit_Suc)
next
  case (Suc i)
  have s: "first_zero nm (push_bit (Suc i) 1) =
      (if bit nm (Suc i) then first_zero nm (push_bit i 1) else push_bit (Suc i) 1)"
    by (subst first_zero.simps, unfold and_bit next_bit [OF Suc.prems]) (use Suc.prems push_one_nonzero [OF Suc.prems] in \<open>simp del: push_bit_of_1\<close>)
  show ?case
  proof (cases "bit nm (Suc i)")
    case True
    from Suc.IH Suc.prems consider
        "\<forall>k \<le> i. bit nm k" "first_zero nm (push_bit i 1) = 0"
      | j where "j \<le> i" "\<not> bit nm j" "\<forall>k. j < k \<and> k \<le> i \<longrightarrow> bit nm k" "first_zero nm (push_bit i 1) = push_bit j 1"
      by auto
    then show ?thesis
    proof cases
      case 1
      with True s show ?thesis
        by (auto simp: le_Suc_eq)
    next
      case (2 j)
      with True s show ?thesis
        by (intro disjI2 exI [of _ j]) (auto simp: le_Suc_eq)
    qed
  next
    case False
    then show ?thesis
      by (intro disjI2 exI [of _ "Suc i"]) (use s False in \<open>auto simp del: push_bit_of_1 push_bit_Suc\<close>)
  qed
qed

lemma ones_then_zeros:
  "no_ones nm (first_zero nm (push_bit 31 1)) \<longleftrightarrow> (\<exists>j \<le> 32. \<forall>k < 32. bit nm k \<longleftrightarrow> j \<le> k)"
proof -
  consider "\<forall>k \<le> 31. bit nm k" "first_zero nm (push_bit 31 1) = 0"
    | j where "j \<le> 31" "\<not> bit nm j" "\<forall>k. j < k \<and> k \<le> 31 \<longrightarrow> bit nm k" "first_zero nm (push_bit 31 1) = push_bit j 1"
    using first_zero_bits [of 31 nm] by auto
  then show ?thesis
  proof cases
    case 1
    then show ?thesis
      by (auto intro!: exI [of _ 0])
  next
    case (2 j)
    then have n: "no_ones nm (first_zero nm (push_bit 31 1)) \<longleftrightarrow> (\<forall>k \<le> j. \<not> bit nm k)"
      using no_ones_bits [of j nm] by simp
    show ?thesis
    proof
      assume "no_ones nm (first_zero nm (push_bit 31 1))"
      with 2 n show "\<exists>j \<le> 32. \<forall>k < 32. bit nm k \<longleftrightarrow> j \<le> k"
        by (intro exI [of _ "Suc j"]) (auto simp: not_le less_Suc_eq_le)
    next
      assume "\<exists>j \<le> 32. \<forall>k < 32. bit nm k \<longleftrightarrow> j \<le> k"
      then obtain i where i: "\<forall>k < 32. bit nm k \<longleftrightarrow> i \<le> k"
        by blast
      then have "j < i"
        using 2(1,2) by (simp add: not_le [symmetric])
      then show "no_ones nm (first_zero nm (push_bit 31 1))"
        using i 2(1) n by (auto simp: not_le)
    qed
  qed
qed

lemma not_mask_bits: "j \<le> 32 \<Longrightarrow> (nm :: u32) = NOT (mask j) \<longleftrightarrow> (\<forall>k < 32. bit nm k \<longleftrightarrow> j \<le> k)"
  by (auto simp: bit_simps not_less intro!: bit_word_eqI)

section \<open>Text and back\<close>

lemma digit_arith:
  assumes "n < 10"
  shows "isdigit (48 + of_nat n)" and "unat (48 + of_nat n :: u8) = 48 + n" and "unat (48 + of_nat n - 48 :: u8) = n"
  using assms by (simp_all add: isdigit_def in_range_def word_le_nat_alt unat_word_ariths unat_of_nat)

text \<open>The digits of a number below 256, first digit first.\<close>

definition dec_digits :: "nat \<Rightarrow> nat list" where
  "dec_digits n = (if n < 10 then [n] else if n < 100 then [n div 10, n mod 10] else [n div 100, n div 10 mod 10, n mod 10])"

lemma dec_digits_less: "n < 256 \<Longrightarrow> \<forall>d \<in> set (dec_digits n). d < 10"
  by (auto simp: dec_digits_def)

lemma dec_digits_value: "n < 256 \<Longrightarrow> foldl (\<lambda>v d. v * 10 + d) 0 (dec_digits n) = n"
proof -
  assume "n < 256"
  have "n div 100 * 10 + n div 10 mod 10 = n div 10"
    using div_mult_mod_eq [of "n div 10" 10] by (simp add: div_mult2_eq [symmetric])
  then show ?thesis
    by (auto simp: dec_digits_def)
qed

lemma dec_digits_lead: "hd (dec_digits n) = 0 \<longleftrightarrow> n = 0"
  by (auto simp: dec_digits_def div_eq_0_iff)

lemma dec_digits_length: "0 < length (dec_digits n) \<and> length (dec_digits n) \<le> 3"
  by (simp add: dec_digits_def)

lemma dec_inv_digits: "rev (dec_inv b) = map (\<lambda>d. 48 + of_nat d) (dec_digits (unat b))"
proof -
  have step: "dec_inv c = (48 + of_nat (unat c mod 10)) # (if unat c < 10 then [] else dec_inv (of_nat (unat c div 10)))" for c
  proof -
    have "c div 10 = 0 \<longleftrightarrow> unat c < 10"
      by (simp add: word_unat_eq_iff unat_div div_eq_0_iff)
    moreover have "c mod 10 = of_nat (unat c mod 10)" "c div 10 = of_nat (unat c div 10)"
      using unat_u8_less [of c] by (simp_all add: word_unat_eq_iff unat_mod unat_div unat_of_nat)
    ultimately show ?thesis
      by (subst dec_inv.simps) simp
  qed
  have u: "unat (of_nat (unat b div 10) :: u8) = unat b div 10" "unat (of_nat (unat b div 10 div 10) :: u8) = unat b div 100"
    using unat_u8_less [of b] by (simp_all add: unat_of_nat div_mult2_eq [symmetric])
  show ?thesis
  proof (cases "unat b < 10")
    case True
    then show ?thesis
      by (simp add: step [of b] dec_digits_def)
  next
    case False
    show ?thesis
    proof (cases "unat b < 100")
      case True
      then have "unat b div 10 < 10"
        by simp
      with False True show ?thesis
        by (simp add: step [of b] step [of "of_nat (unat b div 10)"] u dec_digits_def)
    next
      case l: False
      have "unat b div 100 < 10" "10 \<le> unat b div 10"
        using l unat_u8_less [of b] by simp_all
      with False l show ?thesis
        by (simp add: step [of b] step [of "of_nat (unat b div 10)"] step [of "of_nat (unat b div 10 div 10)"] u dec_digits_def)
    qed
  qed
qed

lemma aton_digits_dec:
  "\<forall>d \<in> set ds. d < 10 \<Longrightarrow> \<not> isdigit (char_at cp) \<Longrightarrow> base \<noteq> 16 \<Longrightarrow>
    aton_digits base (of_nat v) (map (\<lambda>d. 48 + of_nat d) ds @ cp) =
      (of_nat (foldl (\<lambda>v d. v * unat base + d) v ds), cp)"
proof (induction ds arbitrary: v)
  case Nil
  then show ?case
    by (cases cp) auto
next
  case (Cons d ds)
  have "isdigit (48 + of_nat d)" "(ucast (48 + of_nat d - 48 :: u8) :: u32) = of_nat d"
    using digit_arith [of d] Cons.prems(1) by (simp_all add: word_unat_eq_iff unsigned_ucast_eq unat_of_nat)
  moreover have "of_nat v * base + of_nat d = of_nat (v * unat base + d)"
    by simp
  ultimately show ?case
    using Cons.IH [of "v * unat base + d"] Cons.prems by simp
qed

lemma aton_number_octet:
  assumes "\<not> isdigit (char_at cp)" and "char_at cp \<noteq> 120" and "char_at cp \<noteq> 88"
  shows "aton_number (rev (dec_inv b) @ cp) = (ucast b, cp)"
    and "isdigit (char_at (rev (dec_inv b) @ cp))"
proof -
  let ?n = "unat b"
  obtain d ds where ds: "dec_digits ?n = d # ds"
    using dec_digits_length [of ?n] by (cases "dec_digits ?n") auto
  have l: "\<forall>d \<in> set (dec_digits ?n). d < 10"
    using dec_digits_less [OF unat_u8_less [of b]] .
  then show "isdigit (char_at (rev (dec_inv b) @ cp))"
    using digit_arith(1) [of d] by (simp add: dec_inv_digits ds)
  have v: "(of_nat ?n :: u32) = ucast b"
    by (simp add: word_unat_eq_iff unat_of_nat unsigned_ucast_eq)
  show "aton_number (rev (dec_inv b) @ cp) = (ucast b, cp)"
  proof (cases "?n = 0")
    case True
    then have "dec_digits ?n = [0]"
      by (simp add: dec_digits_def)
    moreover have "aton_digits 8 0 cp = (0, cp)"
      using assms(1) by (cases cp) auto
    moreover have "ucast b = (0 :: u32)"
      using v True by simp
    ultimately show ?thesis
      using assms(2,3) by (simp add: aton_number_def dec_inv_digits)
  next
    case False
    then have "d \<noteq> 0" "d < 10"
      using dec_digits_lead [of ?n] l ds by auto
    then have "char_at (rev (dec_inv b) @ cp) \<noteq> 48"
      using digit_arith(2) [of d] by (auto simp: dec_inv_digits ds word_unat_eq_iff)
    then have "aton_number (rev (dec_inv b) @ cp) = aton_digits 10 0 (rev (dec_inv b) @ cp)"
      by (simp add: aton_number_def)
    also have "\<dots> = (of_nat ?n, cp)"
      using aton_digits_dec [OF l assms(1), of 10 0] dec_digits_value [OF unat_u8_less [of b]]
      by (simp add: dec_inv_digits)
    finally show ?thesis
      unfolding v .
  qed
qed

lemma ntoa_put_append:
  "int (length out) \<le> buflen \<Longrightarrow> ntoa_put buflen out cs = (if int (length out + length cs) \<le> buflen then Some (out @ cs) else None)"
  by (induction cs arbitrary: out) auto

definition octet_text :: "u8 \<Rightarrow> u8 list" where
  "octet_text b = rev (dec_inv b) @ [46]"

lemma octet_text_length: "length (octet_text b) \<le> 4"
proof -
  have "length (rev (dec_inv b)) \<le> 3"
    unfolding dec_inv_digits using dec_digits_length [of "unat b"] by simp
  then show ?thesis
    by (simp add: octet_text_def)
qed

lemma ntoa_bytes_append:
  "int (length out) \<le> buflen \<Longrightarrow> ntoa_bytes buflen out bs =
    (if int (length (out @ concat (map octet_text bs))) \<le> buflen then Some (out @ concat (map octet_text bs)) else None)"
proof (induction bs arbitrary: out)
  case (Cons b bs)
  have "ntoa_put buflen out (octet_text b) =
      (if int (length out + length (octet_text b)) \<le> buflen then Some (out @ octet_text b) else None)"
    by (rule ntoa_put_append [OF Cons.prems])
  then show ?case
    using Cons.IH [of "out @ octet_text b"] by (simp add: octet_text_def [symmetric])
qed simp

lemma ntoa_r_text:
  assumes "0 \<le> buflen"
  shows "ipaddr_ntoa_r a buflen = (let text = concat (map octet_text (addr_octets a))
    in if int (length text) \<le> buflen then Some (butlast text) else None)"
  using ntoa_bytes_append [of "[]" buflen "addr_octets a"] assms by (simp add: ipaddr_ntoa_r_def Let_def)

lemma text_length: "length (concat (map octet_text (addr_octets a))) \<le> 16"
  using octet_text_length [of "ucast a"] octet_text_length [of "ucast (drop_bit 8 a)"]
    octet_text_length [of "ucast (drop_bit 16 a)"] octet_text_length [of "ucast (drop_bit 24 a)"]
  by (simp add: addr_octets_def)

lemma aton_parts_octet:
  assumes "length ps < 3"
  shows "aton_parts ps (octet_text b @ cp) = aton_parts (ps @ [ucast b]) cp"
proof -
  have "\<not> isdigit (char_at (46 # cp))"
    by (simp add: isdigit_def in_range_def)
  note n = aton_number_octet [of "46 # cp" b, OF this]
  show ?thesis
    by (subst aton_parts.simps) (use assms n in \<open>simp add: octet_text_def Let_def\<close>)
qed

lemma aton_parts_last: "aton_parts ps (rev (dec_inv b)) = Some (ps, ucast b, [])"
proof -
  have "\<not> isdigit (char_at [])"
    by (simp add: isdigit_def in_range_def)
  note n = aton_number_octet [of "[]" b, OF this]
  show ?thesis
    by (subst aton_parts.simps) (use n in \<open>simp add: Let_def\<close>)
qed

lemma octets_value:
  "lwip_htonl (ucast (ucast (drop_bit 24 a) :: u8) OR (push_bit 24 (ucast (ucast a :: u8)) OR
     push_bit 16 (ucast (ucast (drop_bit 8 a) :: u8)) OR push_bit 8 (ucast (ucast (drop_bit 16 a) :: u8)))) = a"
proof (rule bit_word_eqI)
  fix n
  assume "n < LENGTH(32)"
  then obtain k where "k < 8" "n = k \<or> n = 8 + k \<or> n = 16 + k \<or> n = 24 + k"
    using octets by auto
  then show "bit (lwip_htonl (ucast (ucast (drop_bit 24 a) :: u8) OR (push_bit 24 (ucast (ucast a :: u8)) OR
     push_bit 16 (ucast (ucast (drop_bit 8 a) :: u8)) OR push_bit 8 (ucast (ucast (drop_bit 16 a) :: u8))))) n = bit a n"
    by (elim disjE) (simp_all add: bit_htonl, simp_all add: bit_simps)
qed

lemma u8_in_u32: "ucast (x :: u8) \<le> (0xff :: u32)"
  using unat_u8_less [of x] by (simp add: word_le_nat_alt unsigned_ucast_eq)

lemma aton_ntoa_text: "ipaddr_aton (butlast (concat (map octet_text (addr_octets a)))) = Some a"
proof -
  have "butlast (concat (map octet_text (addr_octets a))) =
      octet_text (ucast a) @ octet_text (ucast (drop_bit 8 a)) @ octet_text (ucast (drop_bit 16 a)) @
      rev (dec_inv (ucast (drop_bit 24 a)))"
    by (simp add: addr_octets_def butlast_append octet_text_def)
  then show ?thesis
    using octets_value [of a] u8_in_u32 [of "ucast (drop_bit 24 a)"]
    by (simp add: ipaddr_aton_def aton_parts_octet aton_parts_last aton_concoct_def not_less)
qed

text \<open>The parts before the last one are not checked: an octet above 255 spills into the one before.\<close>

lemma aton_unchecked: "ipaddr_aton [49, 46, 50, 53, 54, 46, 48, 46, 49] = ipaddr_aton [49, 46, 48, 46, 48, 46, 49]"
  by (simp add: ipaddr_aton_def aton_parts.simps aton_number_def aton_concoct_def isdigit_def in_range_def
      Let_def lwip_htonl_def)

end
