(* ===== verification/Lwip_Properties.thy ===== *)
theory Lwip_Properties
  imports Lwip_Chksum Lwip_Ip
begin

text \<open>What the parts of the network stack promise, each with a concrete instance.\<close>

section \<open>The Internet checksum\<close>

text \<open>
  C35: the three implementations of the Internet sum agree, from any address, odd or even, on every
  buffer of less than 64k bytes, with the sum of the buffer's little-endian 16-bit words modulo
  65535 that is zero only for a buffer of zeros.
\<close>

lemma chksum_algorithms_agree:
  assumes "length bs < 65536"
  shows "lwip_standard_chksum1 a bs = lwip_standard_chksum2 b bs \<and>
    lwip_standard_chksum2 b bs = lwip_standard_chksum3 c bs \<and>
    unat (lwip_standard_chksum1 a bs) = (if lesum bs = 0 then 0 else (lesum bs - 1) mod 65535 + 1)"
  using chksum1.chk [OF assms] chksum2.chk [OF assms] chksum3.chk [OF assms]
  by (simp add: word_unat_eq_iff fold16_def)

lemma chksum_algorithms_agree_witness:
  "lwip_standard_chksum3 2 [1, 2, 3, 4, 5, 6, 7, 8, 9] = lwip_standard_chksum2 1 [1, 2, 3, 4, 5, 6, 7, 8, 9] \<and>
   unat (lwip_standard_chksum1 0 [1, 2, 3, 4, 5, 6, 7, 8, 9]) = 5145"
proof -
  have "length [1, 2, 3, 4, 5, 6, 7, 8, 9 :: u8] < 65536" "lesum [1, 2, 3, 4, 5, 6, 7, 8, 9] = 5145"
    by simp_all
  with chksum_algorithms_agree [OF this(1), of 0 1 2] show ?thesis
    by (elim conjE, intro conjI) (erule sym, simp only:, simp)
qed

lemma lesum_replace:
  assumes "even (length pre)"
  shows "lesum (pre @ [lo8 x, hi8 x] @ post) = lesum (pre @ [0, 0] @ post) + unat x"
  using assms unat_le16 [of "lo8 x" "hi8 x"] by (simp add: lesum_append)

text \<open>
  A packet with its checksum in place verifies: when the checksum is computed over a packet whose
  checksum field, at an even offset, is zero, and stored in that field, the checksum over the packet is zero.
\<close>

lemma inet_chksum_verifies:
  assumes "even (length pre)" and "length (pre @ [0, 0] @ post) < 65536"
    and "x = inet_chksum lwip_standard_chksum1 a (pre @ [0, 0] @ post)"
  shows "inet_chksum lwip_standard_chksum1 b (pre @ [lo8 x, hi8 x] @ post) = 0"
proof -
  let ?n = "lesum (pre @ [0, 0] @ post)"
  have x: "unat x = 65535 - fold16 ?n"
    unfolding assms(3) by (rule chksum1.inet_chksum_sum [OF assms(2)])
  have "fold16 ?n \<le> 65535"
    using mod_less_divisor [of 65535 "?n - 1"] by (simp add: fold16_def Suc_le_eq)
  then have "fold16 ?n + unat x = 65535"
    using x by simp
  with ones_add [OF ones_fold16 [of ?n] ones_refl [of "unat x"]] have "ones 65535 (?n + unat x)"
    by simp
  then have "fold16 (?n + unat x) = 65535"
    using ones_unique [of 65535 "?n + unat x"] by simp
  moreover have "length (pre @ [lo8 x, hi8 x] @ post) < 65536"
    using assms(2) by simp
  ultimately have "unat (inet_chksum lwip_standard_chksum1 b (pre @ [lo8 x, hi8 x] @ post)) = 0"
    using chksum1.inet_chksum_sum lesum_replace [OF assms(1), of x post] by simp
  then show ?thesis
    by (simp add: unat_eq_0)
qed

lemma inet_chksum_verifies_witness:
  "let x = inet_chksum lwip_standard_chksum1 0 [69, 0, 0, 0, 17]
   in inet_chksum lwip_standard_chksum1 5 [69, 0, lo8 x, hi8 x, 17] = 0"
proof -
  have "even (length [69, 0 :: u8])" "length ([69, 0] @ [0, 0] @ [17 :: u8]) < 65536"
    by simp_all
  from inet_chksum_verifies [OF this refl, of 5 0] show ?thesis
    by (simp add: Let_def)
qed

lemma lesum_update:
  "i < length bs \<Longrightarrow> lesum (bs[i := v]) + (if even i then 1 else 256) * unat (bs ! i) =
     lesum bs + (if even i then 1 else 256) * unat v"
  "i < length bs \<Longrightarrow> besum (bs[i := v]) + (if even i then 256 else 1) * unat (bs ! i) =
     besum bs + (if even i then 256 else 1) * unat v"
proof (induction bs arbitrary: i)
  case (Cons b bs)
  { case 1
    then show ?case
      using Cons.IH(2) [of "i - 1"] by (cases i) (auto split: if_splits) }
  { case 2
    then show ?case
      using Cons.IH(1) [of "i - 1"] by (cases i) (auto split: if_splits) }
qed simp_all

lemma weighted_byte: "\<bar>d\<bar> \<le> 255 \<Longrightarrow> w = 1 \<or> w = 256 \<Longrightarrow> \<bar>w * d\<bar> < (65535 :: int)"
  by (auto simp: abs_mult)

lemma small_multiple: "65535 dvd (x :: int) \<Longrightarrow> \<bar>x\<bar> < 65535 \<Longrightarrow> x = 0"
  using dvd_imp_le_int [of x 65535] by fastforce

text \<open>
  The checksum detects every change of a single byte of a packet.
\<close>

lemma inet_chksum_detects:
  assumes "length bs < 65536" and "i < length bs" and "v \<noteq> bs ! i"
  shows "inet_chksum lwip_standard_chksum1 a (bs[i := v]) \<noteq> inet_chksum lwip_standard_chksum1 b bs"
proof
  assume "inet_chksum lwip_standard_chksum1 a (bs[i := v]) = inet_chksum lwip_standard_chksum1 b bs"
  then have "lwip_standard_chksum1 a (bs[i := v]) = lwip_standard_chksum1 b bs"
    unfolding inet_chksum_def by (metis bit.double_compl)
  moreover have "length (bs[i := v]) < 65536"
    using assms(1) by simp
  ultimately have "fold16 (lesum (bs[i := v])) = fold16 (lesum bs)"
    using chksum1.chk [OF assms(1)] chksum1.chk by metis
  then have "lesum (bs[i := v]) mod 65535 = lesum bs mod 65535"
    using ones_fold16 [of "lesum (bs[i := v])"] ones_fold16 [of "lesum bs"] by (simp add: ones_def)
  then have "int (lesum (bs[i := v])) mod 65535 = int (lesum bs) mod 65535"
    by (metis of_nat_mod of_nat_numeral)
  then have "65535 dvd int (lesum (bs[i := v])) - int (lesum bs)"
    by (simp add: mod_eq_dvd_iff)
  moreover define w :: int where "w = (if even i then 1 else 256)"
  have "int (lesum (bs[i := v])) - int (lesum bs) = w * (int (unat v) - int (unat (bs ! i)))"
    using arg_cong [OF lesum_update(1) [OF assms(2), of v], of int] by (auto simp: w_def algebra_simps)
  moreover have "\<bar>w * (int (unat v) - int (unat (bs ! i)))\<bar> < 65535"
  proof -
    have "\<bar>int (unat v) - int (unat (bs ! i))\<bar> \<le> 255"
      using unat_u8_less [of v] unat_u8_less [of "bs ! i"] by linarith
    moreover have "w = 1 \<or> w = 256"
      by (simp only: w_def split: if_splits) simp
    ultimately show ?thesis
      by (rule weighted_byte)
  qed
  ultimately have "w * (int (unat v) - int (unat (bs ! i))) = 0"
    using small_multiple by metis
  then have "uint v = uint (bs ! i)"
    by (auto simp: w_def split: if_splits)
  with assms(3) show False
    using word_uint_eqI by blast
qed

lemma inet_chksum_detects_witness:
  "inet_chksum lwip_standard_chksum1 0 [69, 0, 255] \<noteq> inet_chksum lwip_standard_chksum1 0 [69, 0, 0]"
  using inet_chksum_detects [of "[69, 0, 0]" 2 255 0 0] by simp

text \<open>
  The checksum of a chain of buffers with the pseudo header does not depend on how the packet is
  split: it is that of the pseudo header of the protocol followed by the data in one piece.
\<close>

lemma pseudo_chksum_of_chain:
  assumes "\<forall>b \<in> set p. length (snd b) < 65536" and "length (concat (map snd p)) < 65000"
  shows "inet_chksum_pseudo lwip_standard_chksum1 p src dest proto len =
    inet_chksum lwip_standard_chksum1 0 (pseudo_header src dest proto len @ concat (map snd p))"
  using chksum1.inet_chksum_pseudo_sum [OF assms(1), of src dest proto len] assms(2)
    chksum1.inet_chksum_sum [of "pseudo_header src dest proto len @ concat (map snd p)" 0]
  by (simp add: word_unat_eq_iff pseudo_header_def)

lemma pseudo_chksum_of_chain_witness:
  "inet_chksum_pseudo lwip_standard_chksum1 [(4, [1, 2, 3]), (9, [4]), (0, [5, 6, 7])] 0x0101A8C0 0x0201A8C0 17 7 =
   inet_chksum lwip_standard_chksum1 0 (pseudo_header 0x0101A8C0 0x0201A8C0 17 7 @ [1, 2, 3, 4, 5, 6, 7])"
  using pseudo_chksum_of_chain [of "[(4, [1, 2, 3]), (9, [4]), (0, [5, 6, 7])]" "0x0101A8C0" "0x0201A8C0" 17 7] by simp

text \<open>
  The partial checksum covers exactly the first \<open>chksum_len\<close> bytes of the chain, wherever they end
  in a buffer.
\<close>

lemma partial_chksum:
  assumes "\<forall>b \<in> set p. length (snd b) < 65536" and "unat n < 65000"
  shows "inet_chksum_pseudo_partial lwip_standard_chksum1 p src dest proto len n =
    inet_chksum lwip_standard_chksum1 0 (pseudo_header src dest proto len @ take (unat n) (concat (map snd p)))"
  using chksum1.inet_chksum_pseudo_partial_sum [OF assms(1), of src dest proto len n] assms(2)
    chksum1.inet_chksum_sum [of "pseudo_header src dest proto len @ take (unat n) (concat (map snd p))" 0]
  by (simp add: word_unat_eq_iff pseudo_header_def min_def)

lemma partial_chksum_witness:
  "inet_chksum_pseudo_partial lwip_standard_chksum1 [(4, [1, 2, 3]), (9, [4, 5, 6])] 1 2 136 12 4 =
   inet_chksum lwip_standard_chksum1 0 (pseudo_header 1 2 136 12 @ [1, 2, 3, 4])"
  using partial_chksum [of "[(4, [1, 2, 3]), (9, [4, 5, 6])]" 4 1 2 136 12] by simp

section \<open>Addresses\<close>

text \<open>
  A network mask is valid exactly when, in host order, it is a number of ones followed by zeros.
\<close>

lemma netmask_valid_prefix:
  "ip4_addr_netmask_valid m = (if \<exists>n \<le> 32. lwip_ntohl m = NOT (mask (32 - n)) then 1 else 0)"
proof -
  have "(\<exists>n \<le> 32. lwip_ntohl m = NOT (mask (32 - n))) \<longleftrightarrow> (\<exists>j \<le> 32. lwip_ntohl m = NOT (mask j))"
    by (metis diff_diff_cancel diff_le_self)
  also have "\<dots> \<longleftrightarrow> (\<exists>j \<le> 32. \<forall>k < 32. bit (lwip_ntohl m) k \<longleftrightarrow> j \<le> k)"
    using not_mask_bits by blast
  finally show ?thesis
    by (simp only: ip4_addr_netmask_valid_def Let_def ones_then_zeros lwip_ntohl_def)
qed

text \<open>
  The text of an address fits the buffer with its terminator and is read back as the same address;
  a buffer of 16 bytes is always enough.
\<close>

lemma address_text_roundtrip:
  assumes "0 \<le> buflen"
  shows "case ipaddr_ntoa_r a buflen of None \<Rightarrow> buflen < 16 | Some s \<Rightarrow> int (length s) < buflen \<and> ipaddr_aton s = Some a"
  using text_length [of a] aton_ntoa_text [of a]
  by (auto simp: ntoa_r_text [OF assms] Let_def octet_text_def addr_octets_def)

lemma address_text_roundtrip_witness:
  "\<exists>s. ipaddr_ntoa_r 0x0100A8C0 16 = Some s \<and> ipaddr_aton s = Some 0x0100A8C0"
  using address_text_roundtrip [of 16 "0x0100A8C0"] by (simp split: option.splits)

end
