(* ===== verification/Bytes.thy ===== *)
theory Bytes
  imports Prelude
begin

text \<open>
  Blocks of memory as lists of bytes: copying into a block (\<open>memcpy\<close> of the C library), and moving the bytes of a
  block up or down one by one.
\<close>

definition memcpy :: "nat \<Rightarrow> u8 list \<Rightarrow> u8 list \<Rightarrow> u8 list" where
  "memcpy off bs mem = take off mem @ bs @ drop (off + length bs) mem"

lemma length_memcpy: "off + length bs \<le> length mem \<Longrightarrow> length (memcpy off bs mem) = length mem"
  by (simp add: memcpy_def)

lemma memcpy_mid: "length xs = off \<Longrightarrow> length ys = length bs \<Longrightarrow> memcpy off bs (xs @ ys @ zs) = xs @ bs @ zs"
  by (simp add: memcpy_def)

lemma memcpy_front: "length bs = length xs \<Longrightarrow> memcpy 0 bs (xs @ zs) = bs @ zs"
  by (simp add: memcpy_def)

lemma nth_memcpy: "off + length bs \<le> length mem \<Longrightarrow> i < length mem \<Longrightarrow>
    memcpy off bs mem ! i = (if i < off then mem ! i else if i < off + length bs then bs ! (i - off) else mem ! i)"
  by (auto simp: memcpy_def nth_append min_def)

lemma memcpy_at: "off = length xs \<Longrightarrow> memcpy off bs (xs @ zs) = xs @ bs @ drop (length bs) zs"
  by (simp add: memcpy_def)

lemma take_memcpy_before: "n \<le> off \<Longrightarrow> off \<le> length mem \<Longrightarrow> take n (memcpy off bs mem) = take n mem"
  by (simp add: memcpy_def)

end
