(* ===== verification/Lwip_Mem.thy ===== *)
theory Lwip_Mem
  imports Lwip_Def Bytes "HOL-Library.Monad_Syntax"
begin

text \<open>
  The heap of lwIP (\<open>lwip/core/mem.c\<close>): \<open>mem_init\<close>, \<open>mem_malloc\<close>, \<open>mem_free\<close>, \<open>mem_trim\<close> and \<open>mem_calloc\<close>, with the options of
  \<open>lwipopts.h\<close> and the defaults of \<open>opt.h\<close>: 1600 bytes, an alignment of four, no assertions, no statistics, and protection by
  a mutex, which is left out.

  The memory from the aligned pointer \<open>ram\<close> on is a list of bytes, in which the headers of the blocks lie between the data
  of the users. Pointers are offsets into it; \<open>None\<close> as an argument or result is the null pointer, and the outer \<open>None\<close> of
  an operation an access outside the memory or a loop that does not end. Loops are partial functions into the options.
\<close>

section \<open>Headers\<close>

definition MEM_SIZE_ALIGNED :: nat where "MEM_SIZE_ALIGNED = 1600"
definition SIZEOF_STRUCT_MEM :: nat where "SIZEOF_STRUCT_MEM = 8"
definition MIN_SIZE_ALIGNED :: nat where "MIN_SIZE_ALIGNED = 12"

record mem_block =
  next_off :: u16
  prev_off :: u16
  in_use :: u8

record mem_heap =
  ram :: "u8 list"
  lfree :: u16

text \<open>Rounding up to the alignment, in an \<open>int\<close>, and assigned to a variable of 16 bits.\<close>

definition LWIP_MEM_ALIGN_SIZE :: "u16 \<Rightarrow> u16" where
  "LWIP_MEM_ALIGN_SIZE n = word_of_int ((uint n + 3) div 4 * 4)"

definition block_at :: "mem_heap \<Rightarrow> nat \<Rightarrow> mem_block" where
  "block_at h i = \<lparr>next_off = le16 (ram h ! i) (ram h ! (i + 1)), prev_off = le16 (ram h ! (i + 2)) (ram h ! (i + 3)), in_use = ram h ! (i + 4)\<rparr>"

definition header_bytes :: "mem_block \<Rightarrow> u8 list" where
  "header_bytes m = [lo8 (next_off m), hi8 (next_off m), lo8 (prev_off m), hi8 (prev_off m), in_use m]"

definition rd_mem :: "nat \<Rightarrow> mem_heap \<Rightarrow> mem_block option" where
  "rd_mem i h = (if i + 5 \<le> length (ram h) then Some (block_at h i) else None)"

definition wr_mem :: "nat \<Rightarrow> (mem_block \<Rightarrow> mem_block) \<Rightarrow> mem_heap \<Rightarrow> mem_heap option" where
  "wr_mem i f h = do { m \<leftarrow> rd_mem i h; Some (h\<lparr>ram := memcpy i (header_bytes (f m)) (ram h)\<rparr>) }"

section \<open>Operations\<close>

definition mem_init :: "u8 list \<Rightarrow> mem_heap option" where
  "mem_init bytes =
     do { let h = \<lparr>ram = bytes, lfree = 0\<rparr>;
          h \<leftarrow> wr_mem 0 (\<lambda>m. m\<lparr>next_off := of_nat MEM_SIZE_ALIGNED, prev_off := 0, in_use := 0\<rparr>) h;
          wr_mem MEM_SIZE_ALIGNED (\<lambda>m. m\<lparr>in_use := 1, next_off := of_nat MEM_SIZE_ALIGNED, prev_off := of_nat MEM_SIZE_ALIGNED\<rparr>) h }"

text \<open>Combining a block that has just been freed with free neighbours.\<close>

definition plug_forward :: "u16 \<Rightarrow> mem_heap \<Rightarrow> mem_heap option" where
  "plug_forward mem h =
     do { m \<leftarrow> rd_mem (unat mem) h;
          let nmem = next_off m;
          n \<leftarrow> rd_mem (unat nmem) h;
          if mem \<noteq> nmem \<and> in_use n = 0 \<and> unat nmem \<noteq> MEM_SIZE_ALIGNED
          then do {
            let h = (if lfree h = nmem then h\<lparr>lfree := mem\<rparr> else h);
            h \<leftarrow> wr_mem (unat mem) (\<lambda>m. m\<lparr>next_off := next_off n\<rparr>) h;
            n \<leftarrow> rd_mem (unat nmem) h;
            wr_mem (unat (next_off n)) (\<lambda>x. x\<lparr>prev_off := mem\<rparr>) h }
          else Some h }"

definition plug_backward :: "u16 \<Rightarrow> mem_heap \<Rightarrow> mem_heap option" where
  "plug_backward mem h =
     do { m \<leftarrow> rd_mem (unat mem) h;
          let pmem = prev_off m;
          p \<leftarrow> rd_mem (unat pmem) h;
          if pmem \<noteq> mem \<and> in_use p = 0
          then do {
            let h = (if lfree h = mem then h\<lparr>lfree := pmem\<rparr> else h);
            h \<leftarrow> wr_mem (unat pmem) (\<lambda>p. p\<lparr>next_off := next_off m\<rparr>) h;
            m \<leftarrow> rd_mem (unat mem) h;
            wr_mem (unat (next_off m)) (\<lambda>x. x\<lparr>prev_off := pmem\<rparr>) h }
          else Some h }"

definition plug_holes :: "u16 \<Rightarrow> mem_heap \<Rightarrow> mem_heap option" where
  "plug_holes mem h = do { h \<leftarrow> plug_forward mem h; plug_backward mem h }"

definition mem_free :: "int option \<Rightarrow> mem_heap \<Rightarrow> mem_heap option" where
  "mem_free rmem h =
     (case rmem of
        None \<Rightarrow> Some h
      | Some i \<Rightarrow>
          if i < 0 \<or> int MEM_SIZE_ALIGNED \<le> i then Some h
          else if i < int SIZEOF_STRUCT_MEM then None
          else
            let mem = word_of_int (i - int SIZEOF_STRUCT_MEM)
            in do { h \<leftarrow> wr_mem (unat mem) (\<lambda>m. m\<lparr>in_use := 0\<rparr>) h;
                    let h = (if mem < lfree h then h\<lparr>lfree := mem\<rparr> else h);
                    plug_holes mem h })"

text \<open>The room for data in a block at \<open>ptr\<close>, an unsigned number of 32 bits.\<close>

definition room_at :: "mem_block \<Rightarrow> u16 \<Rightarrow> u32" where
  "room_at m ptr = ucast (next_off m) - (ucast ptr + of_nat SIZEOF_STRUCT_MEM)"

text \<open>The first free block with enough room, from a block on.\<close>

partial_function (option) find_block :: "u16 \<Rightarrow> u16 \<Rightarrow> mem_heap \<Rightarrow> u16 option option" where
  "find_block n ptr h =
     (if int (unat ptr) < int MEM_SIZE_ALIGNED - int (unat n)
      then do {
        m \<leftarrow> rd_mem (unat ptr) h;
        if in_use m = 0 \<and> ucast n \<le> room_at m ptr then Some (Some ptr)
        else find_block n (next_off m) h }
      else Some None)"

text \<open>Splitting the block, if another one with some data fits into the rest, and marking it as used.\<close>

definition take_block :: "u16 \<Rightarrow> u16 \<Rightarrow> mem_heap \<Rightarrow> mem_heap option" where
  "take_block n ptr h =
     do { m \<leftarrow> rd_mem (unat ptr) h;
          if ucast n + of_nat SIZEOF_STRUCT_MEM + of_nat MIN_SIZE_ALIGNED \<le> room_at m ptr
          then do {
            let ptr2 = ptr + of_nat SIZEOF_STRUCT_MEM + n;
            h \<leftarrow> wr_mem (unat ptr2) (\<lambda>x. x\<lparr>in_use := 0, next_off := next_off m, prev_off := ptr\<rparr>) h;
            h \<leftarrow> wr_mem (unat ptr) (\<lambda>x. x\<lparr>next_off := ptr2, in_use := 1\<rparr>) h;
            m2 \<leftarrow> rd_mem (unat ptr2) h;
            if unat (next_off m2) \<noteq> MEM_SIZE_ALIGNED
            then wr_mem (unat (next_off m2)) (\<lambda>x. x\<lparr>prev_off := ptr2\<rparr>) h
            else Some h }
          else wr_mem (unat ptr) (\<lambda>x. x\<lparr>in_use := 1\<rparr>) h }"

partial_function (option) next_free :: "u16 \<Rightarrow> mem_heap \<Rightarrow> u16 option" where
  "next_free ptr h =
     do { m \<leftarrow> rd_mem (unat ptr) h;
          if in_use m \<noteq> 0 \<and> unat ptr \<noteq> MEM_SIZE_ALIGNED then next_free (next_off m) h else Some ptr }"

definition request_size :: "u16 \<Rightarrow> u16" where
  "request_size n = (let n = LWIP_MEM_ALIGN_SIZE n in if unat n < MIN_SIZE_ALIGNED then of_nat MIN_SIZE_ALIGNED else n)"

definition mem_malloc :: "u16 \<Rightarrow> mem_heap \<Rightarrow> (int option \<times> mem_heap) option" where
  "mem_malloc n h =
     (if n = 0 then Some (None, h)
      else
        let n = request_size n
        in if MEM_SIZE_ALIGNED < unat n then Some (None, h)
           else do {
             r \<leftarrow> find_block n (lfree h) h;
             case r of
               None \<Rightarrow> Some (None, h)
             | Some ptr \<Rightarrow> do {
                 h \<leftarrow> take_block n ptr h;
                 h \<leftarrow> (if ptr = lfree h then do { l \<leftarrow> next_free (lfree h) h; Some (h\<lparr>lfree := l\<rparr>) } else Some h);
                 Some (Some (int (unat ptr) + int SIZEOF_STRUCT_MEM), h) } })"

text \<open>Shrinking a block. Twice a header is written in the middle of its data.\<close>

definition split_off :: "u16 \<Rightarrow> u16 \<Rightarrow> u16 \<Rightarrow> mem_heap \<Rightarrow> mem_heap option" where
  "split_off ptr ptr2 nxt h =
     do { h \<leftarrow> wr_mem (unat ptr2) (\<lambda>x. x\<lparr>in_use := 0, next_off := nxt, prev_off := ptr\<rparr>) h;
          h \<leftarrow> wr_mem (unat ptr) (\<lambda>x. x\<lparr>next_off := ptr2\<rparr>) h;
          m2 \<leftarrow> rd_mem (unat ptr2) h;
          if unat (next_off m2) \<noteq> MEM_SIZE_ALIGNED
          then wr_mem (unat (next_off m2)) (\<lambda>x. x\<lparr>prev_off := ptr2\<rparr>) h
          else Some h }"

definition mem_trim :: "int \<Rightarrow> u16 \<Rightarrow> mem_heap \<Rightarrow> (int option \<times> mem_heap) option" where
  "mem_trim i newsize h =
     (let newsize = request_size newsize
      in if MEM_SIZE_ALIGNED < unat newsize then Some (None, h)
         else if i < 0 \<or> int MEM_SIZE_ALIGNED \<le> i then Some (Some i, h)
         else if i < int SIZEOF_STRUCT_MEM then None
         else
           let ptr = word_of_int (i - int SIZEOF_STRUCT_MEM)
           in do { m \<leftarrow> rd_mem (unat ptr) h;
                   let osize = next_off m - ptr - of_nat SIZEOF_STRUCT_MEM;
                   if osize < newsize then Some (None, h)
                   else if newsize = osize then Some (Some i, h)
                   else do {
                     m2 \<leftarrow> rd_mem (unat (next_off m)) h;
                     let ptr2 = ptr + of_nat SIZEOF_STRUCT_MEM + newsize;
                     if in_use m2 = 0
                     then do {
                       let h = (if lfree h = next_off m then h\<lparr>lfree := ptr2\<rparr> else h);
                       h \<leftarrow> split_off ptr ptr2 (next_off m2) h;
                       Some (Some i, h) }
                     else if unat newsize + SIZEOF_STRUCT_MEM + MIN_SIZE_ALIGNED \<le> unat osize
                     then do {
                       let h = (if ptr2 < lfree h then h\<lparr>lfree := ptr2\<rparr> else h);
                       h \<leftarrow> split_off ptr ptr2 (next_off m) h;
                       Some (Some i, h) }
                     else Some (Some i, h) } })"

text \<open>The product is cut to 16 bits for the allocation, but not for the zeros; beyond an \<open>int\<close> it is undefined.\<close>

definition mem_calloc :: "u16 \<Rightarrow> u16 \<Rightarrow> mem_heap \<Rightarrow> (int option \<times> mem_heap) option" where
  "mem_calloc count n h =
     (if 2 ^ 31 \<le> uint count * uint n then None
      else do {
        (p, h) \<leftarrow> mem_malloc (count * n) h;
        case p of
          None \<Rightarrow> Some (None, h)
        | Some i \<Rightarrow>
            let k = unat count * unat n
            in if nat i + k \<le> length (ram h) then Some (Some i, h\<lparr>ram := memcpy (nat i) (replicate k 0) (ram h)\<rparr>) else None })"

end
