(* ===== verification/Lwip_Heap.thy ===== *)
theory Lwip_Heap
  imports Lwip_Mem
begin

text \<open>
  The heap of lwIP as a list of blocks. A list of pairs, the length of a block with its header and whether it is in use, stands
  for the memory when the headers at the ends of the blocks describe it: each names the next and the previous block, every
  block has room for a header and twelve bytes, the entry behind the last block is in use, no two free blocks touch, and
  \<open>lfree\<close> is the lowest free one. On these lists the operations are a few lines: taking the first block that fits, freeing with
  the merging of free neighbours, shrinking.
\<close>

section \<open>Reading and writing headers\<close>

definition put_header :: "nat \<Rightarrow> mem_block \<Rightarrow> mem_heap \<Rightarrow> mem_heap" where
  "put_header i m h = h\<lparr>ram := memcpy i (header_bytes m) (ram h)\<rparr>"

lemma length_header_bytes [simp]: "length (header_bytes m) = 5"
  by (simp add: header_bytes_def)

lemma wr_mem_put: "i + 5 \<le> length (ram h) \<Longrightarrow> wr_mem i f h = Some (put_header i (f (block_at h i)) h)"
  by (simp add: wr_mem_def rd_mem_def put_header_def)

lemma rd_mem_block: "i + 5 \<le> length (ram h) \<Longrightarrow> rd_mem i h = Some (block_at h i)"
  by (simp add: rd_mem_def)

lemma lfree_put [simp]: "lfree (put_header i m h) = lfree h"
  by (simp add: put_header_def)

lemma length_put_header [simp]: "i + 5 \<le> length (ram h) \<Longrightarrow> length (ram (put_header i m h)) = length (ram h)"
  by (simp add: put_header_def length_memcpy)

lemma put_lfree: "put_header i m (h\<lparr>lfree := l\<rparr>) = (put_header i m h)\<lparr>lfree := l\<rparr>"
  by (simp add: put_header_def)

lemma nth_put: "i + 5 \<le> length (ram h) \<Longrightarrow> j < i \<or> i + 5 \<le> j \<Longrightarrow> ram (put_header i m h) ! j = ram h ! j"
  by (cases "j < length (ram h)") (auto simp: put_header_def nth_memcpy memcpy_def nth_append min_def)

lemma block_at_lfree [simp]: "block_at (h\<lparr>lfree := l\<rparr>) = block_at h"
  by (simp add: block_at_def fun_eq_iff)

lemma block_at_put [simp]: "i + 5 \<le> length (ram h) \<Longrightarrow> block_at (put_header i m h) i = m"
  by (simp add: block_at_def put_header_def nth_memcpy header_bytes_def)

lemma block_at_other: "i + 5 \<le> length (ram h) \<Longrightarrow> j + 5 \<le> i \<or> i + 5 \<le> j \<Longrightarrow> block_at (put_header i m h) j = block_at h j"
  by (auto simp: block_at_def nth_put)

section \<open>Chains of blocks\<close>

type_synonym heap_blocks = "(nat \<times> bool) list"

definition span :: "heap_blocks \<Rightarrow> nat" where
  "span bs = sum_list (map fst bs)"

definition blk :: "nat \<Rightarrow> nat \<Rightarrow> bool \<Rightarrow> mem_block" where
  "blk n p u = \<lparr>next_off = of_nat n, prev_off = of_nat p, in_use = of_bool u\<rparr>"

fun seg :: "mem_heap \<Rightarrow> nat \<Rightarrow> nat \<Rightarrow> heap_blocks \<Rightarrow> bool" where
  "seg h p a [] \<longleftrightarrow> True"
| "seg h p a ((k, u) # bs) \<longleftrightarrow> block_at h a = blk (a + k) p u \<and> 20 \<le> k \<and> 4 dvd k \<and> seg h a (a + k) bs"

fun linked :: "mem_heap \<Rightarrow> nat \<Rightarrow> nat \<Rightarrow> heap_blocks \<Rightarrow> bool" where
  "linked h p a [] \<longleftrightarrow> a = MEM_SIZE_ALIGNED \<and> in_use (block_at h a) \<noteq> 0"
| "linked h p a ((k, u) # bs) \<longleftrightarrow> block_at h a = blk (a + k) p u \<and> 20 \<le> k \<and> 4 dvd k \<and> linked h a (a + k) bs"

fun before :: "nat \<Rightarrow> nat \<Rightarrow> heap_blocks \<Rightarrow> nat" where
  "before p a [] = p"
| "before p a ((k, u) # bs) = before a (a + k) bs"

fun apart :: "heap_blocks \<Rightarrow> bool" where
  "apart ((k, u) # (l, v) # bs) \<longleftrightarrow> (u \<or> v) \<and> apart ((l, v) # bs)"
| "apart bs \<longleftrightarrow> True"

fun low :: "nat \<Rightarrow> heap_blocks \<Rightarrow> nat" where
  "low a [] = a"
| "low a ((k, u) # bs) = (if u then low (a + k) bs else a)"

definition heap_of :: "mem_heap \<Rightarrow> heap_blocks \<Rightarrow> bool" where
  "heap_of h bs \<longleftrightarrow> 1608 \<le> length (ram h) \<and> linked h 0 0 bs \<and> apart bs \<and> lfree h = of_nat (low 0 bs)"

text \<open>The positions of the data of the blocks in use.\<close>

fun in_data :: "nat \<Rightarrow> heap_blocks \<Rightarrow> nat \<Rightarrow> bool" where
  "in_data a [] j \<longleftrightarrow> False"
| "in_data a ((k, u) # bs) j \<longleftrightarrow> u \<and> a + 8 \<le> j \<and> j < a + k \<or> in_data (a + k) bs j"

lemma span_simps [simp]: "span [] = 0" "span ((k, u) # bs) = k + span bs" "span (xs @ ys) = span xs + span ys"
  by (simp_all add: span_def)

lemma next_blk [simp]: "next_off (blk n p u) = of_nat n" "prev_off (blk n p u) = of_nat p" "in_use (blk n p u) = of_bool u"
  by (simp_all add: blk_def)

lemma blk_upd [simp]:
  "(blk n p u)\<lparr>next_off := of_nat m\<rparr> = blk m p u"
  "(blk n p u)\<lparr>prev_off := of_nat q\<rparr> = blk n q u"
  "(blk n p u)\<lparr>in_use := 0\<rparr> = blk n p False"
  "(blk n p u)\<lparr>in_use := 1\<rparr> = blk n p True"
  "x\<lparr>in_use := 0, next_off := of_nat m, prev_off := of_nat q\<rparr> = blk m q False"
  "(blk n p u)\<lparr>next_off := of_nat m, in_use := 1\<rparr> = blk m p True"
  by (simp_all add: blk_def)

lemma linked_append: "linked h p a (xs @ ys) \<longleftrightarrow> seg h p a xs \<and> linked h (before p a xs) (a + span xs) ys"
  by (induction xs arbitrary: p a) (auto simp: add.assoc)

lemma seg_append: "seg h p a (xs @ ys) \<longleftrightarrow> seg h p a xs \<and> seg h (before p a xs) (a + span xs) ys"
  by (induction xs arbitrary: p a) (auto simp: add.assoc)

lemma before_append [simp]: "before p a (xs @ ys) = before (before p a xs) (a + span xs) ys"
  by (induction xs arbitrary: p a) (auto simp: add.assoc)

lemma before_less: "seg h p a xs \<Longrightarrow> xs \<noteq> [] \<Longrightarrow> before p a xs + 20 \<le> a + span xs"
proof (induction xs arbitrary: p a)
  case (Cons x xs)
  obtain k u where x: "x = (k, u)" by (cases x)
  show ?case using Cons.prems Cons.IH [of a "a + k"] by (cases "xs = []") (auto simp: x add.assoc)
qed simp

lemma chain_span: "linked h p a bs \<Longrightarrow> a + span bs = 1600"
  by (induction bs arbitrary: p a) (fastforce simp: MEM_SIZE_ALIGNED_def simp flip: add.assoc)+

lemma low_append: "low a (xs @ ys) = (if \<forall>x \<in> set xs. snd x then low (a + span xs) ys else low a xs)"
  by (induction xs arbitrary: a) (fastforce simp flip: add.assoc)+

lemma low_range: "a \<le> low a bs \<and> low a bs \<le> a + span bs"
proof (induction bs arbitrary: a)
  case (Cons x xs)
  obtain k u where x: "x = (k, u)" by (cases x)
  show ?case using Cons [of "a + k"] by (auto simp: x)
qed simp

lemma low_free: "\<not> (\<forall>x \<in> set xs. snd x) \<Longrightarrow> seg h p a xs \<Longrightarrow> low a xs + 20 \<le> a + span xs"
proof (induction xs arbitrary: p a)
  case (Cons x xs)
  obtain k u where x: "x = (k, u)" by (cases x)
  show ?case using Cons.prems Cons.IH [of a "a + k"] by (cases u) (auto simp: x add.assoc)
qed simp

lemma in_data_append: "in_data a (xs @ ys) j \<longleftrightarrow> in_data a xs j \<or> in_data (a + span xs) ys j"
  by (induction xs arbitrary: a) (auto simp: add.assoc)

lemma in_data_range: "in_data a bs j \<Longrightarrow> a + 8 \<le> j \<and> j < a + span bs"
  by (induction bs arbitrary: a) (fastforce simp: add.assoc)+

section \<open>Frames\<close>

lemma seg_frame: "seg h p a xs \<Longrightarrow> (\<And>j. a \<le> j \<Longrightarrow> j + 20 \<le> a + span xs \<Longrightarrow> block_at h' j = block_at h j) \<Longrightarrow> seg h' p a xs"
proof (induction xs arbitrary: p a)
  case (Cons x xs)
  obtain k u where x: "x = (k, u)" by (cases x)
  have "seg h' a (a + k) xs" using Cons.prems by (intro Cons.IH) (auto simp: x)
  then show ?case using Cons.prems(1) Cons.prems(2) [of a] by (simp add: x)
qed simp

lemma chain_frame: "linked h p a bs \<Longrightarrow> (\<And>j. a \<le> j \<Longrightarrow> j \<le> 1600 \<Longrightarrow> block_at h' j = block_at h j) \<Longrightarrow> linked h' p a bs"
proof (induction bs arbitrary: p a)
  case Nil
  then show ?case using Nil.prems(2) [of a] by (auto simp: MEM_SIZE_ALIGNED_def)
next
  case (Cons x xs)
  obtain k u where x: "x = (k, u)" by (cases x)
  have "linked h' a (a + k) xs" using Cons.prems by (intro Cons.IH) (auto simp: x)
  moreover have "a \<le> 1600" using chain_span [OF Cons.prems(1)] by simp
  ultimately show ?case using Cons.prems(1) Cons.prems(2) [of a] by (simp add: x)
qed

lemma chain_put_before: "linked h p a bs \<Longrightarrow> 1608 \<le> length (ram h) \<Longrightarrow> i + 5 \<le> a \<Longrightarrow> linked (put_header i m h) p a bs"
  by (frule chain_span) (erule chain_frame, simp add: block_at_other)

lemma seg_put_after: "seg h p a xs \<Longrightarrow> i + 5 \<le> length (ram h) \<Longrightarrow> a + span xs \<le> i \<Longrightarrow> seg (put_header i m h) p a xs"
  by (rule seg_frame) (simp_all add: block_at_other)

lemma chain_relink: "linked h p a bs \<Longrightarrow> 1608 \<le> length (ram h) \<Longrightarrow> linked (put_header a ((block_at h a)\<lparr>prev_off := of_nat q\<rparr>) h) q a bs"
  using chain_span [of h p a bs] chain_put_before [of h a "a + fst (hd bs)" "tl bs" a]
  by (cases bs) (auto simp: MEM_SIZE_ALIGNED_def)

lemma chain_end: "linked h p 1600 bs \<Longrightarrow> bs = []"
  using chain_span [of h p 1600 bs] by (cases bs) auto

lemma chain_relink_inner: "linked h p a bs \<Longrightarrow> 1608 \<le> length (ram h) \<Longrightarrow>
    linked (if a = 1600 then h else put_header a ((block_at h a)\<lparr>prev_off := of_nat q\<rparr>) h) q a bs"
  using chain_relink [of h p a bs q] chain_end [of h p bs] by (cases "a = 1600") auto

lemma chain_lfree [simp]: "linked (h\<lparr>lfree := l\<rparr>) p a bs = linked h p a bs"
  by (induction bs arbitrary: p a) auto

lemma seg_lfree [simp]: "seg (h\<lparr>lfree := l\<rparr>) p a bs = seg h p a bs"
  by (induction bs arbitrary: p a) auto

lemma unat_offset [simp]: "n \<le> 1600 \<Longrightarrow> unat (of_nat n :: u16) = n"
  by (simp add: unat_of_nat take_bit_nat_eq_self)

lemma uint_offset [simp]: "n \<le> 1600 \<Longrightarrow> uint (of_nat n :: u16) = int n"
  by (metis unat_offset uint_nat)

lemma of_nat_offset: "m \<le> 1600 \<Longrightarrow> n \<le> 1600 \<Longrightarrow> (of_nat m = (of_nat n :: u16)) \<longleftrightarrow> m = n"
  by (metis unat_offset)

section \<open>The operations on lists of blocks\<close>

fun fit :: "nat \<Rightarrow> nat \<Rightarrow> heap_blocks \<Rightarrow> nat option" where
  "fit n a [] = None"
| "fit n a ((k, u) # bs) = (if \<not> u \<and> n + 8 \<le> k then Some a else fit n (a + k) bs)"

fun take_first :: "nat \<Rightarrow> heap_blocks \<Rightarrow> heap_blocks" where
  "take_first n [] = []"
| "take_first n ((k, u) # bs) =
     (if \<not> u \<and> n + 8 \<le> k
      then if n + 28 \<le> k then (n + 8, True) # (k - (n + 8), False) # bs else (k, True) # bs
      else (k, u) # take_first n bs)"

fun coalesce :: "heap_blocks \<Rightarrow> heap_blocks" where
  "coalesce ((k, u) # (l, v) # bs) =
     (if u \<or> v then (k, u) # coalesce ((l, v) # bs) else coalesce ((k + l, False) # bs))"
| "coalesce bs = bs"

text \<open>The block at an offset marked as free, and cut to a smaller size if the rest can be a free block.\<close>

fun mark_free :: "nat \<Rightarrow> nat \<Rightarrow> heap_blocks \<Rightarrow> heap_blocks" where
  "mark_free i a [] = []"
| "mark_free i a ((k, u) # bs) = (if a = i then (k, False) # bs else (k, u) # mark_free i (a + k) bs)"

fun cut :: "nat \<Rightarrow> nat \<Rightarrow> nat \<Rightarrow> heap_blocks \<Rightarrow> heap_blocks" where
  "cut i n a [] = []"
| "cut i n a ((k, u) # bs) =
     (if a = i
      then if n + 8 < k \<and> (n + 28 \<le> k \<or> bs \<noteq> [] \<and> \<not> snd (hd bs)) then (n + 8, u) # (k - (n + 8), False) # bs else (k, u) # bs
      else (k, u) # cut i n (a + k) bs)"

fun block_in :: "nat \<Rightarrow> nat \<Rightarrow> heap_blocks \<Rightarrow> nat option" where
  "block_in i a [] = None"
| "block_in i a ((k, u) # bs) = (if a = i then if u then Some k else None else block_in i (a + k) bs)"

lemma apart_append: "apart (xs @ (k, u) # ys) \<longleftrightarrow> apart (xs @ [(k, u)]) \<and> apart ((k, u) # ys)"
  by (induction xs rule: apart.induct) (cases ys; auto)+

lemma coalesce_apart [simp]: "apart bs \<Longrightarrow> coalesce bs = bs"
  by (induction bs rule: coalesce.induct) auto

lemma coalesce_used [simp]: "coalesce ((k, True) # bs) = (k, True) # coalesce bs"
  by (cases bs) auto

lemma apart_used [simp]: "apart ((k, True) # bs) = apart bs"
  by (cases bs) auto

lemma apart_coalesce [simp]: "apart (coalesce bs)"
proof (induction bs rule: coalesce.induct)
  case (1 k u l v bs)
  then show ?case by (cases u; cases v) auto
qed auto

section \<open>Allocation\<close>

lemma chain_range: "linked h p a bs \<Longrightarrow> a \<le> 1600"
  using chain_span [of h p a bs] by simp

lemma ucast_offset: "n \<le> 1600 \<Longrightarrow> (ucast (of_nat n :: u16) :: u32) = of_nat n"
  by (simp add: unsigned_of_nat take_bit_nat_eq_self)

lemma room_blk: "a + k \<le> 1600 \<Longrightarrow> 20 \<le> k \<Longrightarrow> room_at (blk (a + k) p u) (of_nat a) = of_nat (k - 8)"
proof -
  assume k: "a + k \<le> 1600" "20 \<le> k"
  have "room_at (blk (a + k) p u) (of_nat a) = ucast (of_nat (a + k) :: u16) - (ucast (of_nat a :: u16) + 8)"
    by (simp add: room_at_def SIZEOF_STRUCT_MEM_def)
  also have "\<dots> = of_nat (a + k) - (of_nat a + 8)" using k by (simp only: ucast_offset)
  also have "\<dots> = of_nat (k - 8)" using k by (simp add: of_nat_diff)
  finally show ?thesis .
qed

lemma word_le_small: "m \<le> 2000 \<Longrightarrow> n \<le> 2000 \<Longrightarrow> (of_nat m \<le> (of_nat n :: u32)) \<longleftrightarrow> m \<le> n"
  by (simp add: word_le_nat_alt unat_of_nat take_bit_nat_eq_self)

lemma fits_room:
  assumes "a + k \<le> 1600" "20 \<le> k" "n \<le> 1600"
  shows "ucast (of_nat n :: u16) \<le> room_at (blk (a + k) p u) (of_nat a) \<longleftrightarrow> n + 8 \<le> k"
  using assms word_le_small [of n "k - 8"] by (auto simp: room_blk ucast_offset)

lemma splits_room:
  assumes "a + k \<le> 1600" "20 \<le> k" "n \<le> 1600"
  shows "ucast (of_nat n :: u16) + 8 + 12 \<le> room_at (blk (a + k) p u) (of_nat a) \<longleftrightarrow> n + 28 \<le> k"
  using assms word_le_small [of "n + 20" "k - 8"] by (auto simp: room_blk ucast_offset algebra_simps)

lemma fit_none: "a + span bs = 1600 \<Longrightarrow> 1600 \<le> a + n \<Longrightarrow> fit n a bs = None"
  by (induction bs arbitrary: a) auto

lemma find_block_chain:
  "linked h p a bs \<Longrightarrow> 1608 \<le> length (ram h) \<Longrightarrow> n \<le> 1600 \<Longrightarrow>
    find_block (of_nat n) (of_nat a) h = Some (map_option of_nat (fit n a bs))"
proof (induction bs arbitrary: p a)
  case Nil
  then show ?case by (subst find_block.simps) (simp add: MEM_SIZE_ALIGNED_def)
next
  case (Cons x bs)
  obtain k u where x: "x = (k, u)" by (cases x)
  have at: "block_at h a = blk (a + k) p u" "20 \<le> k" "linked h a (a + k) bs" using Cons.prems by (auto simp: x)
  have sp: "a + k + span bs = 1600" using chain_span [OF Cons.prems(1)] by (simp add: x)
  have IH: "find_block (of_nat n) (of_nat a + of_nat k) h = Some (map_option of_nat (fit n (a + k) bs))"
    using Cons.IH [OF at(3)] Cons.prems by simp
  show ?case
  proof (cases "a + n < 1600")
    case True
    then have "int a < 1600 - int n" by simp
    moreover have "rd_mem a h = Some (blk (a + k) p u)" using at sp Cons.prems(2) by (simp add: rd_mem_block)
    ultimately show ?thesis using at sp Cons.prems IH fits_room [of a k n p u]
      by (subst find_block.simps) (simp add: MEM_SIZE_ALIGNED_def x)
  next
    case False
    then have "fit n a (x # bs) = None" using sp by (intro fit_none) (auto simp: x)
    then show ?thesis using False sp Cons.prems(3) by (subst find_block.simps) (simp add: MEM_SIZE_ALIGNED_def)
  qed
qed

lemma find_block_low:
  "linked h p a bs \<Longrightarrow> 1608 \<le> length (ram h) \<Longrightarrow> n \<le> 1600 \<Longrightarrow>
    find_block (of_nat n) (of_nat (low a bs)) h = Some (map_option of_nat (fit n a bs))"
proof (induction bs arbitrary: p a)
  case Nil
  then show ?case using find_block_chain [of h p a "[]" n] by (auto simp del: linked.simps)
next
  case (Cons x bs)
  obtain k u where x: "x = (k, u)" by (cases x)
  show ?case using Cons.IH [of a "a + k"] find_block_chain [of h p a "x # bs" n] Cons.prems by (cases u) (auto simp: x)
qed

lemma next_free_chain: "linked h p a bs \<Longrightarrow> 1608 \<le> length (ram h) \<Longrightarrow> next_free (of_nat a) h = Some (of_nat (low a bs))"
proof (induction bs arbitrary: p a)
  case Nil
  then show ?case by (subst next_free.simps) (simp add: rd_mem_block MEM_SIZE_ALIGNED_def)
next
  case (Cons x bs)
  obtain k u where x: "x = (k, u)" by (cases x)
  have at: "block_at h a = blk (a + k) p u" "20 \<le> k" "linked h a (a + k) bs" using Cons.prems by (auto simp: x)
  have sp: "a + k + span bs = 1600" using chain_span [OF Cons.prems(1)] by (simp add: x)
  show ?case using at sp Cons.prems Cons.IH [OF at(3)]
    by (subst next_free.simps) (auto simp: rd_mem_block MEM_SIZE_ALIGNED_def x)
qed

lemma fit_split: "fit n a bs = Some i \<Longrightarrow> \<exists>xs k ys. bs = xs @ (k, False) # ys \<and> i = a + span xs \<and> n + 8 \<le> k \<and>
    take_first n bs = xs @ (if n + 28 \<le> k then [(n + 8, True), (k - (n + 8), False)] else [(k, True)]) @ ys"
proof (induction bs arbitrary: a)
  case (Cons x bs)
  obtain k u where x: "x = (k, u)" by (cases x)
  show ?case
  proof (cases "\<not> u \<and> n + 8 \<le> k")
    case True
    then show ?thesis using Cons.prems by (intro exI [of _ "[]"]) (auto simp: x)
  next
    case False
    then have "fit n (a + k) bs = Some i" using Cons.prems by (auto simp: x)
    then obtain xs l ys where "bs = xs @ (l, False) # ys" "i = a + k + span xs" "n + 8 \<le> l"
      "take_first n bs = xs @ (if n + 28 \<le> l then [(n + 8, True), (l - (n + 8), False)] else [(l, True)]) @ ys"
      using Cons.IH by metis
    then show ?thesis using False by (intro exI [of _ "x # xs"] exI [of _ l] exI [of _ ys]) (auto simp: x)
  qed
qed simp

text \<open>A heap after an operation: its blocks, and the data of the blocks in use as they were.\<close>

definition becomes :: "mem_heap \<Rightarrow> mem_heap \<Rightarrow> heap_blocks \<Rightarrow> bool" where
  "becomes h h' bs \<longleftrightarrow> heap_of h' bs \<and> length (ram h') = length (ram h) \<and> (\<forall>j. in_data 0 bs j \<longrightarrow> ram h' ! j = ram h ! j)"

text \<open>A used block, a free one behind it, and the link back from the block that follows.\<close>

definition split_at :: "heap_blocks \<Rightarrow> nat \<Rightarrow> nat \<Rightarrow> mem_heap \<Rightarrow> mem_heap" where
  "split_at xs b e h =
     (let h = put_header (span xs) (blk b (before 0 0 xs) True) (put_header b (blk e (span xs) False) h)
      in if e = 1600 then h else put_header e ((block_at h e)\<lparr>prev_off := of_nat b\<rparr>) h)"

lemma split_at_chain:
  assumes seg: "seg h 0 0 xs" and at: "linked h q e zs" and mem: "1608 \<le> length (ram h)"
    and n: "12 \<le> n" "4 dvd n" and b: "b = span xs + (n + 8)" "b + 20 \<le> e" "4 dvd e - b"
    and new: "new = xs @ [(n + 8, True), (e - b, False)] @ zs"
  shows "linked (split_at xs b e h) 0 0 new \<and> lfree (split_at xs b e h) = lfree h \<and>
    length (ram (split_at xs b e h)) = length (ram h) \<and> (\<forall>j. in_data 0 new j \<longrightarrow> ram (split_at xs b e h) ! j = ram h ! j)"
proof -
  let ?a = "span xs"
  let ?h1 = "put_header b (blk e ?a False) h"
  let ?h2 = "put_header ?a (blk b (before 0 0 xs) True) ?h1"
  let ?h3 = "if e = 1600 then ?h2 else put_header e ((block_at ?h2 e)\<lparr>prev_off := of_nat b\<rparr>) ?h2"
  have h3: "split_at xs b e h = ?h3" by (simp add: split_at_def Let_def)
  have sp: "e + span zs = 1600" using chain_span [OF at] by simp
  have c2: "linked ?h2 q e zs" using at b sp mem by (intro chain_put_before) auto
  have "1608 \<le> length (ram ?h2)" using b sp mem by simp
  then have c3: "linked ?h3 b e zs" by (rule chain_relink_inner [OF c2])
  have "seg ?h3 0 0 xs" using seg b sp mem by (auto intro!: seg_put_after)
  moreover have "block_at ?h3 ?a = blk b (before 0 0 xs) True" "block_at ?h3 b = blk e ?a False"
    using b sp mem n by (auto simp: block_at_other)
  ultimately have "linked ?h3 0 0 new" using c3 b n by (simp add: new linked_append)
  moreover have "in_data 0 new j \<Longrightarrow> ram ?h3 ! j = ram h ! j" for j
    using b sp mem in_data_range [of 0 xs j] in_data_range [of e zs j]
    by (auto simp: new in_data_append nth_put)
  moreover have "lfree ?h3 = lfree h" "length (ram ?h3) = length (ram h)" using b sp mem by auto
  ultimately show ?thesis unfolding h3 by blast
qed

lemma take_block_chain:
  assumes seg: "seg h 0 0 xs" and at: "linked h (before 0 0 xs) (span xs) ((k, False) # ys)"
    and mem: "1608 \<le> length (ram h)" and n: "12 \<le> n" "4 dvd n" "n + 8 \<le> k"
    and new: "new = xs @ (if n + 28 \<le> k then [(n + 8, True), (k - (n + 8), False)] else [(k, True)]) @ ys"
  shows "\<exists>h'. take_block (of_nat n) (of_nat (span xs)) h = Some h' \<and> linked h' 0 0 new \<and> lfree h' = lfree h \<and>
    length (ram h') = length (ram h) \<and> (\<forall>j. in_data 0 new j \<longrightarrow> ram h' ! j = ram h ! j)"
proof -
  let ?a = "span xs"
  have k: "block_at h ?a = blk (?a + k) (before 0 0 xs) False" "20 \<le> k" "4 dvd k" "linked h ?a (?a + k) ys"
    using at by auto
  have sp: "?a + k + span ys = 1600" using chain_span [OF at] by simp
  have rd: "rd_mem ?a h = Some (blk (?a + k) (before 0 0 xs) False)" using k sp mem by (simp add: rd_mem_block)
  show ?thesis
  proof (cases "n + 28 \<le> k")
    case False
    let ?h = "put_header ?a (blk (?a + k) (before 0 0 xs) True) h"
    have "take_block (of_nat n) (of_nat ?a) h = Some ?h"
      using rd False sp k mem n splits_room [of ?a k n "before 0 0 xs" False]
      by (simp add: take_block_def wr_mem_put SIZEOF_STRUCT_MEM_def MIN_SIZE_ALIGNED_def)
    moreover have "linked ?h 0 0 new"
      using seg k sp mem False by (auto simp: new linked_append intro!: seg_put_after chain_put_before)
    moreover have "in_data 0 new j \<Longrightarrow> ram ?h ! j = ram h ! j" for j
      using False sp mem k in_data_range [of 0 xs j] in_data_range [of "?a + k" ys j]
      by (intro nth_put) (auto simp: new in_data_append)
    ultimately show ?thesis using mem sp k by auto
  next
    case True
    let ?b = "?a + (n + 8)"
    have b: "of_nat ?a + 8 + of_nat n = (of_nat ?b :: u16)" by simp
    have t: "take_block (of_nat n) (of_nat ?a) h = Some (split_at xs ?b (?a + k) h)"
      using rd True sp k mem n splits_room [of ?a k n "before 0 0 xs" False]
      by (simp add: take_block_def wr_mem_put rd_mem_block SIZEOF_STRUCT_MEM_def MIN_SIZE_ALIGNED_def MEM_SIZE_ALIGNED_def
          block_at_other b split_at_def Let_def del: of_nat_add)
    have "4 dvd ?a + k - ?b" using True k n by simp
    then show ?thesis using split_at_chain [OF seg k(4) mem n(1,2) refl, of new] True t by (simp add: new)
  qed
qed

text \<open>The size a request is rounded to.\<close>

definition ask :: "u16 \<Rightarrow> nat" where
  "ask n = max 12 ((unat n + 3) div 4 * 4)"

lemma ask_bounds: "12 \<le> ask n" "4 dvd ask n" "unat n \<le> ask n"
  by (auto simp: ask_def max_def)

lemma request_size_ask: "unat n \<le> 65532 \<Longrightarrow> request_size n = of_nat (ask n) \<and> unat (request_size n) = ask n"
proof -
  assume n: "unat n \<le> 65532"
  define m where "m = (unat n + 3) div 4 * 4"
  have m: "m \<le> 65532" using n by (simp add: m_def)
  have "(uint n + 3) div 4 * 4 = int m" by (simp add: m_def zdiv_int)
  then have "LWIP_MEM_ALIGN_SIZE n = of_nat m" by (simp only: LWIP_MEM_ALIGN_SIZE_def) simp
  moreover have "unat (of_nat m :: u16) = m" using m by (simp add: unat_of_nat take_bit_nat_eq_self)
  ultimately show ?thesis by (auto simp: request_size_def MIN_SIZE_ALIGNED_def ask_def m_def [symmetric] max_def)
qed

lemma apart_snoc_used: "apart (xs @ [(k, u)]) \<Longrightarrow> apart (xs @ [(l, True)])"
  by (induction xs rule: apart.induct) auto

lemma apart_take_first: "apart bs \<Longrightarrow> apart (take_first n bs)"
proof (induction bs rule: apart.induct)
  case (1 k u l v bs)
  then show ?case by (cases u; cases v; cases "take_first n bs"; cases bs) (auto split: if_splits)
qed auto

lemma take_first_none: "fit n a bs = None \<Longrightarrow> take_first n bs = bs"
  by (induction bs arbitrary: a) (auto split: if_splits)

lemma becomes_refl: "heap_of h bs \<Longrightarrow> becomes h h bs"
  by (simp add: becomes_def)

lemma low_take:
  assumes "seg h 0 0 xs"
  shows "low 0 (xs @ (k, False) # ys) = span xs \<longleftrightarrow> (\<forall>x \<in> set xs. snd x)"
  using low_free [of xs h 0 0] assms by (cases "\<forall>x \<in> set xs. snd x") (simp_all add: low_append)

lemma mem_malloc_heap:
  assumes h: "heap_of h bs" and n: "0 < n" "unat n \<le> 65532"
  shows "\<exists>h'. mem_malloc n h = Some (map_option (\<lambda>i. int i + 8) (fit (ask n) 0 bs), h') \<and> becomes h h' (take_first (ask n) bs) \<and>
    (fit (ask n) 0 bs = None \<longrightarrow> h' = h)"
proof -
  note d = h [unfolded heap_of_def]
  have r: "request_size n = of_nat (ask n)" "unat (request_size n) = ask n" using request_size_ask [OF n(2)] by auto
  have sp: "span bs = 1600" using chain_span [of h 0 0 bs] d by simp
  show ?thesis
  proof (cases "fit (ask n) 0 bs")
    case None
    have "mem_malloc n h = Some (None, h)"
      using find_block_low [of h 0 0 bs "ask n"] d n r None
      by (cases "ask n \<le> 1600") (auto simp: mem_malloc_def MEM_SIZE_ALIGNED_def Let_def)
    then show ?thesis using None take_first_none [OF None] becomes_refl [OF h] by simp
  next
    case (Some i)
    let ?new = "take_first (ask n) bs"
    obtain xs k ys where bs: "bs = xs @ (k, False) # ys" and i: "i = span xs" and k: "ask n + 8 \<le> k"
      and new: "?new = xs @ (if ask n + 28 \<le> k then [(ask n + 8, True), (k - (ask n + 8), False)] else [(k, True)]) @ ys"
      using fit_split [OF Some] by auto
    obtain zs where zs: "?new = xs @ zs" using new by auto
    have fits: "ask n \<le> 1600" using k sp by (simp add: bs)
    have seg: "seg h 0 0 xs" "linked h (before 0 0 xs) (span xs) ((k, False) # ys)"
      using d by (auto simp: bs linked_append)
    obtain h1 where t: "take_block (of_nat (ask n)) (of_nat i) h = Some h1" "linked h1 0 0 ?new" "lfree h1 = lfree h"
        "length (ram h1) = length (ram h)" "\<forall>j. in_data 0 ?new j \<longrightarrow> ram h1 ! j = ram h ! j"
      using take_block_chain [OF seg _ ask_bounds(1) ask_bounds(2) k new] d i by auto
    let ?h = "h1\<lparr>lfree := of_nat (low 0 ?new)\<rparr>"
    have i': "i \<le> 1600" using sp by (simp add: bs i)
    have lo: "low 0 bs \<le> 1600" using low_range [of 0 bs] sp by simp
    have "(if (of_nat i :: u16) = lfree h1 then do { l \<leftarrow> next_free (lfree h1) h1; Some (h1\<lparr>lfree := l\<rparr>) } else Some h1) = Some ?h"
    proof (cases "\<forall>x \<in> set xs. snd x")
      case True
      have "next_free (of_nat (span xs)) h1 = Some (of_nat (low 0 ?new))"
        using next_free_chain [of h1 "before 0 0 xs" "span xs" zs] t(2,4) d True zs by (simp add: linked_append low_append)
      moreover have "low 0 bs = i" using low_take [OF seg(1)] True by (simp add: bs i)
      ultimately show ?thesis using d t(3) i by simp
    next
      case False
      then have "low 0 bs \<noteq> i" using low_take [OF seg(1)] by (simp add: bs i)
      moreover have "low 0 ?new = low 0 xs" "low 0 bs = low 0 xs" using False by (simp_all only: zs low_append if_False) (simp only: bs low_append if_False)
      ultimately show ?thesis using d t(3) of_nat_offset [OF i' lo] by (cases h1) auto
    qed
    then have "mem_malloc n h = Some (Some (int i + 8), ?h)"
      using find_block_low [of h 0 0 bs "ask n"] d n r Some fits t i'
      by (auto simp: mem_malloc_def MEM_SIZE_ALIGNED_def SIZEOF_STRUCT_MEM_def)
    moreover have "becomes h ?h ?new" using t d apart_take_first [of bs "ask n"] by (simp add: becomes_def heap_of_def)
    ultimately show ?thesis using Some by auto
  qed
qed

section \<open>Freeing\<close>

lemma block_in_split: "block_in i a bs = Some k \<Longrightarrow> \<exists>xs ys. bs = xs @ (k, True) # ys \<and> i = a + span xs \<and>
    mark_free i a bs = xs @ (k, False) # ys \<and> (\<forall>n. cut i n a bs =
      xs @ (if n + 8 < k \<and> (n + 28 \<le> k \<or> ys \<noteq> [] \<and> \<not> snd (hd ys)) then [(n + 8, True), (k - (n + 8), False)] else [(k, True)]) @ ys)"
proof (induction bs arbitrary: a)
  case (Cons x bs)
  obtain l u where x: "x = (l, u)" by (cases x)
  show ?case
  proof (cases "a = i")
    case True
    then show ?thesis using Cons.prems by (intro exI [of _ "[]"] exI [of _ bs]) (auto simp: x split: if_splits)
  next
    case False
    then have "block_in i (a + l) bs = Some k" using Cons.prems by (simp add: x)
    from Cons.IH [OF this] obtain xs ys where "bs = xs @ (k, True) # ys" "i = a + l + span xs"
      "mark_free i (a + l) bs = xs @ (k, False) # ys" "\<forall>n. cut i n (a + l) bs =
      xs @ (if n + 8 < k \<and> (n + 28 \<le> k \<or> ys \<noteq> [] \<and> \<not> snd (hd ys)) then [(n + 8, True), (k - (n + 8), False)] else [(k, True)]) @ ys"
      by blast
    then show ?thesis using False by - (rule exI [of _ "x # xs"], rule exI [of _ ys], auto simp: x)
  qed
qed simp

definition joined :: "nat \<Rightarrow> heap_blocks \<Rightarrow> heap_blocks" where
  "joined k ys = (if ys \<noteq> [] \<and> \<not> snd (hd ys) then (k + fst (hd ys), False) # tl ys else (k, False) # ys)"

definition join_back :: "heap_blocks \<Rightarrow> nat \<Rightarrow> heap_blocks \<Rightarrow> heap_blocks" where
  "join_back xs k zs =
     (if xs \<noteq> [] \<and> \<not> snd (last xs) then butlast xs @ (fst (last xs) + k, False) # zs else xs @ (k, False) # zs)"

lemma low_coalesce [simp]: "low a (coalesce bs) = low a bs"
  by (induction bs arbitrary: a rule: coalesce.induct) auto

lemma coalesce_append: "apart xs \<Longrightarrow> xs = [] \<or> snd (last xs) \<Longrightarrow> coalesce (xs @ ys) = xs @ coalesce ys"
  by (induction xs rule: apart.induct) auto

lemma coalesce_joined: "apart ys \<Longrightarrow> coalesce ((k, False) # ys) = joined k ys"
proof (cases ys)
  case (Cons x zs)
  moreover obtain m v where "x = (m, v)" by (cases x)
  moreover assume "apart ys"
  moreover have "apart ((m, False) # zs) \<Longrightarrow> apart ((k + m, False) # zs)" by (cases zs) auto
  ultimately show ?thesis by (cases v) (auto simp: joined_def)
qed (simp add: joined_def)

lemma coalesce_back:
  assumes "apart (xs @ (k, True) # ys)"
  shows "coalesce (xs @ (k, False) # ys) = join_back xs (fst (hd (joined k ys))) (tl (joined k ys))"
proof -
  have ys: "apart ys" "apart (xs @ [(k, True)])" using assms apart_append [of xs k True ys] by auto
  show ?thesis
  proof (cases xs rule: rev_cases)
    case Nil
    then show ?thesis using coalesce_joined [OF ys(1), of k] by (simp add: join_back_def joined_def)
  next
    case (snoc ws x)
    obtain l v where x: "x = (l, v)" by (cases x)
    have ws: "apart (ws @ [(l, v)])" using ys(2) apart_append [of ws l v "[(k, True)]"] by (simp add: snoc x)
    show ?thesis
    proof (cases v)
      case True
      then have "coalesce (xs @ (k, False) # ys) = xs @ coalesce ((k, False) # ys)"
        using ws by (intro coalesce_append) (auto simp: snoc x)
      then show ?thesis using True coalesce_joined [OF ys(1), of k] by (simp add: join_back_def joined_def snoc x)
    next
      case False
      then have "apart ws \<and> (ws = [] \<or> snd (last ws))" using ws by (induction ws rule: apart.induct) auto
      then have "coalesce (xs @ (k, False) # ys) = ws @ coalesce ((l, False) # (k, False) # ys)"
        using coalesce_append [of ws "(l, False) # (k, False) # ys"] False by (simp add: snoc x)
      then show ?thesis using False coalesce_joined [OF ys(1), of "l + k"] by (simp add: join_back_def joined_def snoc x)
    qed
  qed
qed

lemma joined_cell: "\<exists>m zs. joined k ys = (m, False) # zs"
  by (simp add: joined_def)

lemma plug_forward_chain:
  assumes seg: "seg h 0 0 xs" and at: "linked h (before 0 0 xs) (span xs) ((k, False) # ys)"
    and mem: "1608 \<le> length (ram h)" and l: "lfree h = of_nat l" "l \<le> span xs"
  shows "\<exists>h'. plug_forward (of_nat (span xs)) h = Some h' \<and> linked h' 0 0 (xs @ joined k ys) \<and> lfree h' = lfree h \<and>
    length (ram h') = length (ram h) \<and> (\<forall>j. in_data 0 (xs @ joined k ys) j \<longrightarrow> ram h' ! j = ram h ! j)"
proof -
  let ?a = "span xs"
  have k: "block_at h ?a = blk (?a + k) (before 0 0 xs) False" "20 \<le> k" "4 dvd k" "linked h ?a (?a + k) ys"
    using at by auto
  have sp: "?a + k + span ys = 1600" using chain_span [OF at] by simp
  have ne: "(of_nat ?a :: u16) \<noteq> of_nat (?a + k)" "lfree h \<noteq> of_nat (?a + k)"
    using sp k l of_nat_offset [of ?a "?a + k"] of_nat_offset [of l "?a + k"] by auto
  have rd: "rd_mem ?a h = Some (blk (?a + k) (before 0 0 xs) False)" "rd_mem (?a + k) h = Some (block_at h (?a + k))"
    using k sp mem by (simp_all add: rd_mem_block)
  have un: "unat (of_nat ?a :: u16) = ?a" "unat (of_nat (?a + k) :: u16) = ?a + k" using sp unat_offset by (metis le_add1 add.assoc)+
  show ?thesis
  proof (cases "ys \<noteq> [] \<and> \<not> snd (hd ys)")
    case False
    have "in_use (block_at h (?a + k)) \<noteq> 0 \<or> ?a + k = 1600" using False k sp by (cases ys) auto
    then have "plug_forward (of_nat ?a) h = Some h"
      using rd ne by (auto simp: plug_forward_def un MEM_SIZE_ALIGNED_def simp del: of_nat_add)
    moreover have "joined k ys = (k, False) # ys" using False by (auto simp: joined_def)
    ultimately show ?thesis using seg at by (simp add: linked_append)
  next
    case True
    then obtain m zs where ys: "ys = (m, False) # zs" by (cases ys) auto
    have m: "block_at h (?a + k) = blk (?a + k + m) ?a False" "20 \<le> m" "4 dvd m" "linked h (?a + k) (?a + k + m) zs"
      using k(4) by (auto simp: ys)
    let ?h1 = "put_header ?a (blk (?a + k + m) (before 0 0 xs) False) h"
    let ?h2 = "put_header (?a + k + m) ((block_at ?h1 (?a + k + m))\<lparr>prev_off := of_nat ?a\<rparr>) ?h1"
    have un2: "unat (of_nat (?a + k + m) :: u16) = ?a + k + m" using sp by (intro unat_offset) (simp add: ys)
    have inner: "?a + k \<noteq> 1600" using sp m by (simp add: ys)
    have b1: "block_at ?h1 (?a + k) = blk (?a + k + m) ?a False" using k m sp mem by (simp add: ys block_at_other)
    have t: "plug_forward (of_nat ?a) h = Some ?h2"
      using rd ne m b1 inner sp mem
      by (simp add: plug_forward_def un un2 MEM_SIZE_ALIGNED_def wr_mem_put rd_mem_block ys k(1) del: of_nat_add)
    have c1: "linked ?h1 (?a + k) (?a + k + m) zs" using m k sp mem by (intro chain_put_before) auto
    have c2: "linked ?h2 ?a (?a + k + m) zs" using mem sp by (intro chain_relink [OF c1]) simp
    have "seg ?h2 0 0 xs" using seg mem sp k by (auto simp: ys intro!: seg_put_after)
    moreover have "block_at ?h2 ?a = blk (?a + k + m) (before 0 0 xs) False"
      using mem sp k m by (simp add: block_at_other ys)
    ultimately have "linked ?h2 0 0 (xs @ joined k ys)"
      using c2 k m by (simp add: linked_append joined_def ys add.assoc)
    moreover have "in_data 0 (xs @ joined k ys) j \<Longrightarrow> ram ?h2 ! j = ram h ! j" for j
      using mem sp k m in_data_range [of 0 xs j] in_data_range [of "?a + k + m" zs j]
      by (auto simp: ys joined_def in_data_append nth_put add.assoc)
    moreover have "lfree ?h2 = lfree h" "length (ram ?h2) = length (ram h)" using sp mem by (simp_all add: ys)
    ultimately show ?thesis using t by blast
  qed
qed

lemma plug_backward_chain:
  assumes seg: "seg h 0 0 xs" and at: "linked h (before 0 0 xs) (span xs) ((k, False) # ys)"
    and mem: "1608 \<le> length (ram h)" and l: "lfree h = of_nat (low 0 (xs @ (k, False) # ys))"
  shows "\<exists>h'. plug_backward (of_nat (span xs)) h = Some h' \<and> linked h' 0 0 (join_back xs k ys) \<and> lfree h' = lfree h \<and>
    length (ram h') = length (ram h) \<and> (\<forall>j. in_data 0 (join_back xs k ys) j \<longrightarrow> ram h' ! j = ram h ! j)"
proof -
  let ?a = "span xs"
  have k: "block_at h ?a = blk (?a + k) (before 0 0 xs) False" "20 \<le> k" "4 dvd k" "linked h ?a (?a + k) ys"
    using at by auto
  have sp: "?a + k + span ys = 1600" using chain_span [OF at] by simp
  have un: "unat (of_nat ?a :: u16) = ?a" "unat (of_nat (?a + k) :: u16) = ?a + k" using sp unat_offset by (metis le_add1 add.assoc)+
  have rd: "rd_mem ?a h = Some (blk (?a + k) (before 0 0 xs) False)" using k sp mem by (simp add: rd_mem_block)
  show ?thesis
  proof (cases xs rule: rev_cases)
    case Nil
    have "plug_backward (of_nat ?a) h = Some h" using rd by (simp add: plug_backward_def Nil)
    then show ?thesis using seg at by (simp add: linked_append join_back_def Nil)
  next
    case (snoc ws x)
    obtain m v where x: "x = (m, v)" by (cases x)
    let ?b = "span ws"
    have a: "?a = ?b + m" by (simp add: snoc x)
    have b: "block_at h ?b = blk ?a (before 0 0 ws) v" "20 \<le> m" "4 dvd m" "seg h 0 0 ws" "before 0 0 xs = ?b"
      using seg by (auto simp: snoc x seg_append)
    have unb: "unat (of_nat ?b :: u16) = ?b" using sp a by (intro unat_offset) simp
    have ne: "(of_nat ?b :: u16) \<noteq> of_nat ?a" using sp a b of_nat_offset [of ?b ?a] by simp
    have rdb: "rd_mem ?b h = Some (blk ?a (before 0 0 ws) v)" using b sp mem a by (simp add: rd_mem_block)
    show ?thesis
    proof (cases v)
      case True
      have "plug_backward (of_nat ?a) h = Some h" using rd rdb True by (simp add: plug_backward_def un unb b(5))
      then show ?thesis using seg at True by (simp add: linked_append seg_append join_back_def snoc x)
    next
      case False
      have "low 0 (xs @ (k, False) # ys) \<le> ?b" using low_range [of 0 ws] by (auto simp: snoc x False low_append)
      then have lf: "lfree h \<noteq> of_nat ?a"
        using l sp a b of_nat_offset [of "low 0 (xs @ (k, False) # ys)" ?a] by simp
      let ?h1 = "put_header ?b (blk (?a + k) (before 0 0 ws) False) h"
      let ?h2 = "put_header (?a + k) ((block_at ?h1 (?a + k))\<lparr>prev_off := of_nat ?b\<rparr>) ?h1"
      have b1: "block_at ?h1 ?a = blk (?a + k) ?b False" using k b sp mem a by (simp add: block_at_other)
      have t: "plug_backward (of_nat ?a) h = Some ?h2"
        using rd rdb ne b1 lf sp mem False a b(1,5)
        by (simp add: plug_backward_def un unb wr_mem_put rd_mem_block del: of_nat_add)
      have c1: "linked ?h1 ?a (?a + k) ys" using b k sp mem a by (intro chain_put_before) auto
      have c2: "linked ?h2 ?b (?a + k) ys" using mem sp a by (intro chain_relink [OF c1]) simp
      have "seg ?h2 0 0 ws" using b(4) mem sp k a by (auto intro!: seg_put_after)
      moreover have "block_at ?h2 ?b = blk (?a + k) (before 0 0 ws) False"
        using mem sp k b a by (simp add: block_at_other)
      ultimately have "linked ?h2 0 0 (join_back xs k ys)"
        using c2 k b by (simp add: linked_append join_back_def snoc x False add.assoc)
      moreover have "in_data 0 (join_back xs k ys) j \<Longrightarrow> ram ?h2 ! j = ram h ! j" for j
        using mem sp k b in_data_range [of 0 ws j] in_data_range [of "?a + k" ys j]
        by (auto simp: snoc x False join_back_def in_data_append nth_put add.assoc)
      moreover have "lfree ?h2 = lfree h" "length (ram ?h2) = length (ram h)" using sp mem a by simp_all
      ultimately show ?thesis using t by blast
    qed
  qed
qed

lemma in_data_coalesce: "in_data a (coalesce bs) j = in_data a bs j"
  by (induction bs arbitrary: a rule: coalesce.induct) (auto simp: add.assoc)

lemma mem_free_heap:
  assumes h: "heap_of h bs" and i: "block_in i 0 bs = Some k"
  shows "\<exists>h'. mem_free (Some (int i + 8)) h = Some h' \<and> becomes h h' (coalesce (mark_free i 0 bs))"
proof -
  note d = h [unfolded heap_of_def]
  obtain xs ys where bs: "bs = xs @ (k, True) # ys" and ixs: "i = span xs" and mk: "mark_free i 0 bs = xs @ (k, False) # ys"
    using block_in_split [OF i] by auto
  let ?mk = "xs @ (k, False) # ys"
  let ?m = "fst (hd (joined k ys))" and ?zs = "tl (joined k ys)"
  have j: "joined k ys = (?m, False) # ?zs" using joined_cell [of k ys] by auto
  have at: "seg h 0 0 xs" "block_at h i = blk (i + k) (before 0 0 xs) True" "20 \<le> k" "4 dvd k" "linked h i (i + k) ys"
    using d by (auto simp: bs linked_append ixs)
  have sp: "i + k + span ys = 1600" using chain_span [of h 0 0 bs] d by (simp add: bs ixs)
  let ?h1 = "put_header i (blk (i + k) (before 0 0 xs) False) h"
  let ?h2 = "?h1\<lparr>lfree := of_nat (low 0 ?mk)\<rparr>"
  have lo: "low 0 bs \<le> 1600" "low 0 ?mk \<le> i" using low_range [of 0 bs] low_range [of 0 xs] sp
    by (auto simp: bs ixs low_append)
  have upd: "(if (of_nat i :: u16) < lfree ?h1 then ?h1\<lparr>lfree := of_nat i\<rparr> else ?h1) = ?h2"
  proof (cases "\<forall>x \<in> set xs. snd x")
    case True
    then have "low 0 bs = low (i + k) ys" "low 0 ?mk = i" by (simp_all add: bs ixs low_append)
    then have "i < low 0 bs" using low_range [of "i + k" ys] at(3) by simp
    then show ?thesis using d lo \<open>low 0 ?mk = i\<close> by (simp add: word_less_nat_alt)
  next
    case False
    then have "low 0 bs = low 0 xs" "low 0 ?mk = low 0 xs" by (simp_all only: bs low_append if_False)
    then show ?thesis using d lo sp by (simp add: word_less_nat_alt put_header_def)
  qed
  have c: "seg ?h2 0 0 xs" "linked ?h2 (before 0 0 xs) (span xs) ((k, False) # ys)" "1608 \<le> length (ram ?h2)"
    using at sp d by (auto simp: ixs intro!: seg_put_after chain_put_before)
  obtain h3 where h3: "plug_forward (of_nat i) ?h2 = Some h3" "linked h3 0 0 (xs @ joined k ys)" "lfree h3 = lfree ?h2"
      "length (ram h3) = length (ram ?h2)" "\<forall>j. in_data 0 (xs @ joined k ys) j \<longrightarrow> ram h3 ! j = ram ?h2 ! j"
    using plug_forward_chain [OF c, of "low 0 ?mk"] lo ixs by auto
  have lj: "low 0 (xs @ joined k ys) = low 0 ?mk" by (simp add: low_append joined_def)
  obtain h4 where h4: "plug_backward (of_nat i) h3 = Some h4" "linked h4 0 0 (join_back xs ?m ?zs)" "lfree h4 = lfree h3"
      "length (ram h4) = length (ram h3)" "\<forall>j. in_data 0 (join_back xs ?m ?zs) j \<longrightarrow> ram h4 ! j = ram h3 ! j"
    using plug_backward_chain [of h3 xs ?m ?zs] h3 c(3) lj j ixs by (auto simp: linked_append)
  have res: "coalesce (mark_free i 0 bs) = join_back xs ?m ?zs" using coalesce_back [of xs k ys] d mk by (simp add: bs)
  have "mem_free (Some (int i + 8)) h = Some h4"
    using h3(1) h4(1) sp at upd d
    by (simp add: mem_free_def MEM_SIZE_ALIGNED_def SIZEOF_STRUCT_MEM_def plug_holes_def wr_mem_put)
  moreover have "ram h4 ! j = ram h ! j" if "in_data 0 (join_back xs ?m ?zs) j" for j
  proof -
    have "in_data 0 (coalesce ?mk) j" using that res mk by simp
    then have mk': "in_data 0 ?mk j" by (simp add: in_data_coalesce)
    have "in_data 0 (xs @ joined k ys) j" using mk' by (cases ys) (auto simp: in_data_append joined_def add.assoc)
    moreover have "j < i \<or> i + 5 \<le> j"
      using mk' in_data_range [of 0 xs j] in_data_range [of "i + k" ys j] at(3) by (auto simp: in_data_append ixs)
    ultimately show ?thesis using that h4(5) h3(5) sp d by (simp add: nth_put)
  qed
  moreover have "lfree h4 = of_nat (low 0 (join_back xs ?m ?zs))"
    using h4(3) h3(3) arg_cong [OF res, of "low 0"] mk by simp
  ultimately show ?thesis using h4 h3 c(3) sp d res mk apart_coalesce [of ?mk] by (auto simp: becomes_def heap_of_def)
qed

section \<open>Shrinking\<close>

lemma split_off_chain:
  assumes seg: "seg h 0 0 xs" and i: "block_at h (span xs) = blk (span xs + k) (before 0 0 xs) True"
    and at: "linked h q e zs" and mem: "1608 \<le> length (ram h)" and b: "b = span xs + (n + 8)" "b + 20 \<le> e"
  shows "split_off (of_nat (span xs)) (of_nat b) (of_nat e) h = Some (split_at xs b e h)"
proof -
  have sp: "e \<le> 1600" using chain_span [OF at] by simp
  then have un: "unat (of_nat (span xs) :: u16) = span xs" "unat (of_nat b :: u16) = b" "unat (of_nat e :: u16) = e"
    using b by (intro unat_offset; simp)+
  show ?thesis
    using i sp mem b(2) b(1)
    by (simp add: split_off_def un wr_mem_put rd_mem_block MEM_SIZE_ALIGNED_def block_at_other split_at_def Let_def del: of_nat_add)
qed

lemma apart_cut: "apart (xs @ (k, True) # ys) \<Longrightarrow> ys = [] \<or> snd (hd ys) \<Longrightarrow> apart (xs @ [(l, True), (m, False)] @ ys)"
  using apart_append [of xs k True ys] apart_append [of xs l True "(m, False) # ys"] apart_snoc_used [of xs k True l]
  by (cases ys) auto

lemma mem_trim_at:
  assumes m: "block_at h i = blk (i + k) p True" and k: "20 \<le> k" "i + k \<le> 1600" and mem: "1608 \<le> length (ram h)" and n: "unat n \<le> 65532"
  shows "mem_trim (int i + 8) n h =
    (if k < ask n + 8 then Some (None, h)
     else if ask n + 8 = k then Some (Some (int i + 8), h)
     else if in_use (block_at h (i + k)) = 0
     then do {
       h' \<leftarrow> split_off (of_nat i) (of_nat (i + (ask n + 8))) (next_off (block_at h (i + k)))
              (if lfree h = of_nat (i + k) then h\<lparr>lfree := of_nat (i + (ask n + 8))\<rparr> else h);
       Some (Some (int i + 8), h') }
     else if ask n + 28 \<le> k
     then do {
       h' \<leftarrow> split_off (of_nat i) (of_nat (i + (ask n + 8))) (of_nat (i + k))
              (if of_nat (i + (ask n + 8)) < lfree h then h\<lparr>lfree := of_nat (i + (ask n + 8))\<rparr> else h);
       Some (Some (int i + 8), h') }
     else Some (Some (int i + 8), h))"
proof -
  have ask: "12 \<le> ask n" "request_size n = of_nat (ask n)" "unat (request_size n) = ask n"
    using ask_bounds(1) request_size_ask [OF n] by blast+
  have os: "of_nat (i + k) - of_nat i - 8 = (of_nat (k - 8) :: u16)" using k(1) by (simp add: of_nat_diff)
  have uos: "unat (of_nat (k - 8) :: u16) = k - 8" using k by (intro unat_offset) simp
  have un: "unat (of_nat i :: u16) = i" "unat (of_nat (i + k) :: u16) = i + k" using k by (intro unat_offset; simp)+
  have rd: "rd_mem i h = Some (blk (i + k) p True)" "rd_mem (i + k) h = Some (block_at h (i + k))"
    using m k mem by (simp_all add: rd_mem_block)
  have p2: "of_nat i + 8 + of_nat (ask n) = (of_nat (i + (ask n + 8)) :: u16)" by simp
  have ii: "word_of_int (int i + 8 - 8) = (of_nat i :: u16)" "\<not> int i + 8 < 0" "\<not> int i + 8 < 8" by simp_all
  show ?thesis
  proof (cases "ask n \<le> 1600")
    case True
    then have rs: "request_size n = of_nat (ask n)" "unat (of_nat (ask n) :: u16) = ask n" using ask by simp_all
    have cmp: "(of_nat (k - 8) :: u16) < of_nat (ask n) \<longleftrightarrow> k < ask n + 8" "of_nat (ask n) = (of_nat (k - 8) :: u16) \<longleftrightarrow> ask n + 8 = k"
      using rs uos k True of_nat_offset [of "ask n" "k - 8"] by (auto simp: word_less_nat_alt)
    have ir: "\<not> 1600 \<le> int i + 8" using k by simp
    have "of_nat 8 = (8 :: u16)" "int 8 = 8" "int 1600 = 1600" by simp_all
    then show ?thesis
      unfolding mem_trim_def MEM_SIZE_ALIGNED_def SIZEOF_STRUCT_MEM_def MIN_SIZE_ALIGNED_def rs Let_def
      using True rd k(1) ir cmp uos
      by (simp only: ii un rd rs Option.bind.bind_lunit next_blk os p2 cmp uos)
         (auto simp del: of_nat_add)
  next
    case False
    then have "k < ask n + 8" using k by simp
    moreover have "MEM_SIZE_ALIGNED < unat (request_size n)" using ask(3) False by (simp only: MEM_SIZE_ALIGNED_def)
    ultimately show ?thesis by (simp add: mem_trim_def Let_def)
  qed
qed

lemma mem_trim_heap:
  assumes h: "heap_of h bs" and i: "block_in i 0 bs = Some k" and n: "unat n \<le> 65532"
  shows "\<exists>h'. mem_trim (int i + 8) n h = Some (if ask n + 8 \<le> k then Some (int i + 8) else None, h') \<and>
    becomes h h' (coalesce (cut i (ask n) 0 bs))"
proof -
  note d = h [unfolded heap_of_def]
  let ?n = "ask n"
  obtain xs ys where bs: "bs = xs @ (k, True) # ys" and ixs: "i = span xs" and ct: "cut i ?n 0 bs =
      xs @ (if ?n + 8 < k \<and> (?n + 28 \<le> k \<or> ys \<noteq> [] \<and> \<not> snd (hd ys)) then [(?n + 8, True), (k - (?n + 8), False)] else [(k, True)]) @ ys"
    using block_in_split [OF i] by auto
  have at: "seg h 0 0 xs" "block_at h i = blk (i + k) (before 0 0 xs) True" "20 \<le> k" "4 dvd k" "linked h i (i + k) ys"
    using d by (auto simp: bs linked_append ixs)
  have sp: "i + k + span ys = 1600" using chain_span [of h 0 0 bs] d by (simp add: bs ixs)
  note at' = mem_trim_at [OF at(2,3) _ _ n]
  have lo: "low 0 bs \<le> 1600" using low_range [of 0 bs] sp by (simp add: bs ixs)
  have lb: "(\<forall>x \<in> set xs. snd x) \<Longrightarrow> low 0 bs = low (i + k) ys" "\<not> (\<forall>x \<in> set xs. snd x) \<Longrightarrow> low 0 bs + 20 \<le> i"
    using low_free [of xs h 0 0] at(1) by (auto simp: bs ixs low_append)
  have keep: "mem_trim (int i + 8) n h = Some (r, h) \<Longrightarrow> r = (if ?n + 8 \<le> k then Some (int i + 8) else None) \<Longrightarrow>
      cut i ?n 0 bs = bs \<Longrightarrow> ?thesis" for r
    using becomes_refl [OF h] d by auto
  let ?b = "i + (?n + 8)"
  have fin: ?thesis
    if c: "linked h q e zs" "?b + 20 \<le> e" "4 dvd e - ?b"
      and new: "coalesce (cut i ?n 0 bs) = xs @ [(?n + 8, True), (e - ?b, False)] @ zs" and k: "?n + 8 \<le> k"
      and run: "mem_trim (int i + 8) n h =
        do { h' \<leftarrow> split_off (of_nat i) (of_nat ?b) (of_nat e) (if P then h\<lparr>lfree := of_nat ?b\<rparr> else h); Some (Some (int i + 8), h') }"
      and P: "P \<longleftrightarrow> (\<forall>x \<in> set xs. snd x)" for q e zs P
  proof -
    let ?new = "xs @ [(?n + 8, True), (e - ?b, False)] @ zs"
    let ?g = "if P then h\<lparr>lfree := of_nat ?b\<rparr> else h"
    have g: "seg ?g 0 0 xs" "linked ?g q e zs" "block_at ?g i = blk (i + k) (before 0 0 xs) True" "1608 \<le> length (ram ?g)" "ram ?g = ram h"
      using at(1,2) c(1) d by auto
    have "lfree ?g = of_nat (low 0 ?new)" using d P by (simp add: ixs low_append) (simp add: bs low_append)
    moreover have "split_off (of_nat i) (of_nat ?b) (of_nat e) ?g = Some (split_at xs ?b e ?g)"
      using split_off_chain [of ?g xs k q e zs ?b ?n] g c by (simp add: ixs)
    moreover have "apart ?new" using apart_coalesce [of "cut i ?n 0 bs"] new by simp
    moreover note split_at_chain [of ?g xs q e zs ?n ?b ?new]
    ultimately have "becomes h (split_at xs ?b e ?g) ?new"
      using g c ask_bounds [of n] by (simp add: becomes_def heap_of_def ixs)
    then show ?thesis using run k new \<open>split_off _ _ _ ?g = _\<close> by simp
  qed
  consider (big) "k \<le> ?n + 8" | (free) "?n + 8 < k" "ys \<noteq> [] \<and> \<not> snd (hd ys)"
    | (split) "?n + 28 \<le> k" "ys = [] \<or> snd (hd ys)" | (rest) "?n + 8 < k" "k < ?n + 28" "ys = [] \<or> snd (hd ys)"
    by linarith
  then show ?thesis
  proof cases
    case big
    then show ?thesis using at' sp d ct by (intro keep) (auto simp: bs)
  next
    case rest
    have "in_use (block_at h (i + k)) \<noteq> 0" using rest(3) at(5) by (cases ys) auto
    then show ?thesis using rest at' sp d ct by (intro keep) (auto simp: bs)
  next
    case free
    then obtain m zs where ys: "ys = (m, False) # zs" by (cases ys) auto
    have m: "block_at h (i + k) = blk (i + k + m) i False" "20 \<le> m" "4 dvd m" "linked h (i + k) (i + k + m) zs"
      using at(5) by (auto simp: ys)
    have "apart ys" "apart (xs @ [(?n + 8, True)])"
      using d apart_append [of xs k True ys] apart_snoc_used [of xs k True "?n + 8"] by (auto simp: bs)
    then have "coalesce (cut i ?n 0 bs) = (xs @ [(?n + 8, True)]) @ coalesce ((k - (?n + 8), False) # ys)"
      using free ct coalesce_append [of "xs @ [(?n + 8, True)]" "(k - (?n + 8), False) # ys"] by simp
    also have "\<dots> = xs @ [(?n + 8, True), (i + k + m - ?b, False)] @ zs"
      using coalesce_joined [OF \<open>apart ys\<close>, of "k - (?n + 8)"] free(1) by (simp add: joined_def ys)
    moreover have "lfree h = of_nat (i + k) \<longleftrightarrow> (\<forall>x \<in> set xs. snd x)"
      using d lb lo sp of_nat_offset [of "low 0 bs" "i + k"] by (cases "\<forall>x \<in> set xs. snd x") (simp_all add: ys)
    ultimately show ?thesis
      using free(1) at' sp d m ask_bounds [of n] at(4)
      by (intro fin [OF m(4), of "lfree h = of_nat (i + k)"]) (auto simp: ys)
  next
    case split
    have "in_use (block_at h (i + k)) \<noteq> 0" using split(2) at(5) by (cases ys) auto
    moreover have "coalesce (cut i ?n 0 bs) = xs @ [(?n + 8, True), (i + k - ?b, False)] @ ys"
      using split ct d apart_cut [of xs k ys] by (simp add: bs)
    moreover have "of_nat ?b < lfree h \<longleftrightarrow> (\<forall>x \<in> set xs. snd x)"
    proof -
      have "i + k \<le> low (i + k) ys" using low_range by blast
      moreover have "unat (of_nat ?b :: u16) = ?b" "unat (lfree h) = low 0 bs"
        using d lo sp split(1) unat_offset [of ?b] by simp_all
      ultimately show ?thesis using lb split(1) by (cases "\<forall>x \<in> set xs. snd x") (simp_all only: word_less_nat_alt, simp_all)
    qed
    ultimately show ?thesis
      using split at' sp d at(4) ask_bounds [of n]
      by (intro fin [OF at(5), of "of_nat ?b < lfree h"]) auto
  qed
qed

end
