(* ===== verification/Lwip_Heap_Properties.thy ===== *)
theory Lwip_Heap_Properties
  imports Lwip_Heap
begin

text \<open>
  The promises of lwIP's heap to its users. A user keeps, for every address it was given, the bytes it expects there; a history
  is a list of requests, releases, shrinkings and writes within what it owns. Whatever the history, every operation is
  defined, the areas owned are aligned, within the heap and apart from one another and from the headers, and hold what was
  last written into them; when everything has been returned, the heap is one free block again. Requests whose size exceeds the
  16 bits of the code are what these statements exclude, and two further theorems show what happens to them.
\<close>

section \<open>The blocks in use\<close>

fun used_at :: "nat \<Rightarrow> heap_blocks \<Rightarrow> (nat \<times> nat) set" where
  "used_at a [] = {}"
| "used_at a ((k, u) # bs) = (if u then {(a, k)} else {}) \<union> used_at (a + k) bs"

lemma used_at_append [simp]: "used_at a (xs @ ys) = used_at a xs \<union> used_at (a + span xs) ys"
  by (induction xs arbitrary: a) (auto simp: add.assoc)

lemma used_at_coalesce [simp]: "used_at a (coalesce bs) = used_at a bs"
proof (induction bs arbitrary: a rule: coalesce.induct)
  case (1 k u l v bs)
  show ?case
  proof (cases "u \<or> v")
    case True
    then show ?thesis using 1(1) [OF True, of "a + k"] by (simp only: coalesce.simps used_at.simps if_True)
  next
    case False
    then show ?thesis using 1(2) [OF False, of a] by (simp add: add.assoc)
  qed
qed simp_all

lemma used_at_range: "(i, k) \<in> used_at a bs \<Longrightarrow> a \<le> i \<and> i + k \<le> a + span bs"
  by (induction bs arbitrary: a) (fastforce split: if_splits)+

lemma in_data_used: "in_data a bs j \<longleftrightarrow> (\<exists>i k. (i, k) \<in> used_at a bs \<and> i + 8 \<le> j \<and> j < i + k)"
proof (induction bs arbitrary: a)
  case (Cons x bs)
  obtain l u where x: "x = (l, u)" by (cases x)
  show ?case using Cons [of "a + l"] by (cases u) (auto simp: x)
qed simp

lemma chain_sizes: "linked h p a bs \<Longrightarrow> x \<in> set bs \<Longrightarrow> 20 \<le> fst x \<and> 4 dvd fst x"
  by (induction bs arbitrary: p a) auto

lemma used_size: "\<forall>x \<in> set bs. 20 \<le> fst x \<and> 4 dvd fst x \<Longrightarrow> 4 dvd a \<Longrightarrow> (i, k) \<in> used_at a bs \<Longrightarrow> 20 \<le> k \<and> 4 dvd k \<and> 4 dvd i"
proof (induction bs arbitrary: a)
  case (Cons x bs)
  obtain l u where x: "x = (l, u)" by (cases x)
  show ?case using Cons.prems Cons.IH [of "a + l"] by (auto simp: x split: if_splits)
qed simp

lemma block_in_used: "\<forall>x \<in> set bs. 20 \<le> fst x \<Longrightarrow> (i, k) \<in> used_at a bs \<Longrightarrow> block_in i a bs = Some k"
proof (induction bs arbitrary: a)
  case (Cons x bs)
  obtain l u where x: "x = (l, u)" by (cases x)
  show ?case using Cons used_at_range [of i k "a + l" bs] by (auto simp: x split: if_splits)
qed simp

lemma used_apart:
  "\<forall>x \<in> set bs. 20 \<le> fst x \<Longrightarrow> (i, k) \<in> used_at a bs \<Longrightarrow> (j, l) \<in> used_at a bs \<Longrightarrow> i \<noteq> j \<Longrightarrow> i + k \<le> j \<or> j + l \<le> i"
proof (induction bs arbitrary: a)
  case (Cons x bs)
  obtain m u where x: "x = (m, u)" by (cases x)
  show ?case using Cons.prems Cons.IH [of "a + m"] used_at_range [of i k "a + m" bs] used_at_range [of j l "a + m" bs]
    by (auto simp: x split: if_splits)
qed simp

lemma used_same: "\<forall>x \<in> set bs. 20 \<le> fst x \<Longrightarrow> (i, k) \<in> used_at a bs \<Longrightarrow> (i, l) \<in> used_at a bs \<Longrightarrow> k = l"
  using block_in_used [of bs i k a] block_in_used [of bs i l a] by simp

lemma used_take: "fit n 0 bs = Some i \<Longrightarrow> \<exists>k. n + 8 \<le> k \<and> used_at 0 (take_first n bs) = insert (i, k) (used_at 0 bs)"
  using fit_split [of n 0 bs i] by (fastforce simp: add.assoc)

lemma used_mark:
  assumes "\<forall>x \<in> set bs. 20 \<le> fst x" "block_in i 0 bs = Some k"
  shows "used_at 0 (mark_free i 0 bs) = used_at 0 bs - {(i, k)}"
proof -
  obtain xs ys where bs: "bs = xs @ (k, True) # ys" "i = span xs" "mark_free i 0 bs = xs @ (k, False) # ys"
    using block_in_split [OF assms(2)] by auto
  have "(i, k) \<notin> used_at 0 xs" "(i, k) \<notin> used_at (span xs + k) ys"
    using used_at_range [of i k 0 xs] used_at_range [of i k "span xs + k" ys] assms(1) bs by auto
  then show ?thesis using bs by auto
qed

lemma used_cut:
  assumes "\<forall>x \<in> set bs. 20 \<le> fst x" "block_in i 0 bs = Some k" "n + 8 \<le> k"
  shows "\<exists>l. n + 8 \<le> l \<and> l \<le> k \<and> used_at 0 (cut i n 0 bs) = insert (i, l) (used_at 0 bs - {(i, k)})"
proof -
  obtain xs ys where bs: "bs = xs @ (k, True) # ys" "i = span xs" and c: "cut i n 0 bs =
      xs @ (if n + 8 < k \<and> (n + 28 \<le> k \<or> ys \<noteq> [] \<and> \<not> snd (hd ys)) then [(n + 8, True), (k - (n + 8), False)] else [(k, True)]) @ ys"
    using block_in_split [OF assms(2)] by auto
  have "(i, k) \<notin> used_at 0 xs" "(i, k) \<notin> used_at (span xs + k) ys"
    using used_at_range [of i k 0 xs] used_at_range [of i k "span xs + k" ys] assms(1) bs by auto
  then have "used_at 0 bs - {(i, k)} = used_at 0 xs \<union> used_at (span xs + k) ys" using bs by auto
  then show ?thesis using assms(3) unfolding c
    by (intro exI [of _ "if n + 8 < k \<and> (n + 28 \<le> k \<or> ys \<noteq> [] \<and> \<not> snd (hd ys)) then n + 8 else k"])
      (auto simp: bs(2) add.assoc)
qed

text \<open>With nothing in use there is one free block.\<close>

lemma all_free: "apart bs \<Longrightarrow> used_at a bs = {} \<Longrightarrow> bs \<noteq> [] \<Longrightarrow> \<exists>k. bs = [(k, False)]"
  by (induction bs rule: apart.induct) (auto split: if_splits)

section \<open>Writing into data\<close>

lemma chain_writes: "linked h p a bs \<Longrightarrow> (\<And>j. a \<le> j \<Longrightarrow> \<not> in_data a bs j \<Longrightarrow> ram h' ! j = ram h ! j) \<Longrightarrow> linked h' p a bs"
proof (induction bs arbitrary: p a)
  case Nil
  then have "block_at h' a = block_at h a" by (simp add: block_at_def)
  then show ?case using Nil.prems(1) by auto
next
  case (Cons x bs)
  obtain k u where x: "x = (k, u)" by (cases x)
  have "\<not> in_data a (x # bs) j" if "j < a + 8" for j
    using that Cons.prems(1) in_data_range [of "a + k" bs j] by (auto simp: x)
  then have "block_at h' a = block_at h a" using Cons.prems(2) by (simp add: block_at_def)
  moreover have "linked h' a (a + k) bs"
  proof (rule Cons.IH)
    show "linked h a (a + k) bs" using Cons.prems(1) by (simp add: x)
    show "ram h' ! j = ram h ! j" if "a + k \<le> j" "\<not> in_data (a + k) bs j" for j
      using that by (intro Cons.prems(2)) (auto simp: x)
  qed
  ultimately show ?case using Cons.prems(1) by (simp add: x)
qed

lemma heap_writes:
  "heap_of h bs \<Longrightarrow> length (ram h') = length (ram h) \<Longrightarrow> lfree h' = lfree h \<Longrightarrow>
    (\<And>j. \<not> in_data 0 bs j \<Longrightarrow> ram h' ! j = ram h ! j) \<Longrightarrow> heap_of h' bs"
  by (auto simp: heap_of_def intro: chain_writes)

lemma mem_init_heap:
  assumes "1608 \<le> length bytes"
  shows "\<exists>h. mem_init bytes = Some h \<and> heap_of h [(1600, False)]"
proof -
  let ?h = "\<lparr>ram = bytes, lfree = 0\<rparr>"
  let ?h1 = "put_header 0 (blk 1600 0 False) ?h"
  let ?h2 = "put_header 1600 (blk 1600 1600 True) ?h1"
  have all: "m\<lparr>next_off := a, prev_off := b, in_use := c\<rparr> = \<lparr>next_off = a, prev_off = b, in_use = c\<rparr>"
    "m\<lparr>in_use := c, next_off := a, prev_off := b\<rparr> = \<lparr>next_off = a, prev_off = b, in_use = c\<rparr>" for m a b c
    by (cases m; simp)+
  have "mem_init bytes = Some ?h2"
    using assms by (simp add: mem_init_def wr_mem_put MEM_SIZE_ALIGNED_def blk_def all)
  moreover have "heap_of ?h2 [(1600, False)]"
    using assms by (simp add: heap_of_def MEM_SIZE_ALIGNED_def block_at_other)
  ultimately show ?thesis by blast
qed

section \<open>Users\<close>

datatype heap_op = Alloc u16 | Zalloc u16 u16 | Release nat | Shrink nat u16 | Put nat nat u8

type_synonym owned = "nat \<rightharpoonup> u8 list"

definition granted :: "nat \<Rightarrow> int option \<times> mem_heap \<Rightarrow> owned \<Rightarrow> mem_heap \<times> owned" where
  "granted n r own = (case r of
     (None, h) \<Rightarrow> (h, own)
   | (Some i, h) \<Rightarrow> (h, own(nat i \<mapsto> take n (drop (nat i) (ram h)))))"

fun heap_step :: "heap_op \<Rightarrow> mem_heap \<times> owned \<Rightarrow> (mem_heap \<times> owned) option" where
  "heap_step (Alloc n) (h, own) = do { r \<leftarrow> mem_malloc n h; Some (granted (unat n) r own) }"
| "heap_step (Zalloc c n) (h, own) = do { r \<leftarrow> mem_calloc c n h; Some (granted (unat c * unat n) r own) }"
| "heap_step (Release p) (h, own) =
     (case own p of
        None \<Rightarrow> Some (h, own)
      | Some c \<Rightarrow> do { h \<leftarrow> mem_free (Some (int p)) h; Some (h, own(p := None)) })"
| "heap_step (Shrink p n) (h, own) =
     (case own p of
        None \<Rightarrow> Some (h, own)
      | Some c \<Rightarrow>
          if unat n \<le> length c
          then do { (r, h) \<leftarrow> mem_trim (int p) n h; Some (h, if r = None then own else own(p \<mapsto> take (unat n) c)) }
          else Some (h, own))"
| "heap_step (Put p i v) (h, own) =
     (case own p of
        None \<Rightarrow> Some (h, own)
      | Some c \<Rightarrow>
          if i < length c then Some (h\<lparr>ram := (ram h)[p + i := v]\<rparr>, own(p \<mapsto> c[i := v])) else Some (h, own))"

fun heap_run :: "heap_op list \<Rightarrow> mem_heap \<times> owned \<Rightarrow> (mem_heap \<times> owned) option" where
  "heap_run [] s = Some s"
| "heap_run (x # xs) s = do { s \<leftarrow> heap_step x s; heap_run xs s }"

fun representable :: "heap_op \<Rightarrow> bool" where
  "representable (Alloc n) \<longleftrightarrow> unat n \<le> 65532"
| "representable (Zalloc c n) \<longleftrightarrow> unat c * unat n \<le> 65532"
| "representable _ \<longleftrightarrow> True"

definition owns :: "mem_heap \<Rightarrow> heap_blocks \<Rightarrow> owned \<Rightarrow> bool" where
  "owns h bs own \<longleftrightarrow>
     (\<forall>p c. own p = Some c \<longrightarrow> 8 \<le> p \<and> (\<exists>k. (p - 8, k) \<in> used_at 0 bs \<and> length c + 8 \<le> k) \<and> take (length c) (drop p (ram h)) = c) \<and>
     (\<forall>i k. (i, k) \<in> used_at 0 bs \<longrightarrow> own (i + 8) \<noteq> None)"

definition sound :: "mem_heap \<times> owned \<Rightarrow> bool" where
  "sound s \<longleftrightarrow> (\<exists>bs. heap_of (fst s) bs \<and> owns (fst s) bs (snd s))"

lemma heap_sizes: "heap_of h bs \<Longrightarrow> \<forall>x \<in> set bs. 20 \<le> fst x \<and> 4 dvd fst x"
  using chain_sizes [of h 0 0 bs] by (auto simp: heap_of_def)

lemma heap_span: "heap_of h bs \<Longrightarrow> span bs = 1600"
  using chain_span [of h 0 0 bs] by (simp add: heap_of_def)

text \<open>The bytes of an area the user owns are data of its block.\<close>

lemma same_data:
  assumes bs: "\<forall>j. in_data 0 bs j \<longrightarrow> ram h' ! j = ram h ! j" "(p - 8, k) \<in> used_at 0 bs" "8 \<le> p" "n + 8 \<le> k"
    and len: "length (ram h') = length (ram h)"
  shows "take n (drop p (ram h')) = take n (drop p (ram h))"
proof (rule nth_equalityI)
  fix i assume "i < length (take n (drop p (ram h')))"
  then have "in_data 0 bs (p + i)" unfolding in_data_used
    using bs by (intro exI [of _ "p - 8"] exI [of _ k]) auto
  then show "take n (drop p (ram h')) ! i = take n (drop p (ram h)) ! i"
    using bs(1) \<open>i < _\<close> len nth_drop [of p "ram h" i] nth_drop [of p "ram h'" i] by (cases "p \<le> length (ram h)") simp_all
qed (simp add: len)

lemma ownsD:
  "owns h bs own \<Longrightarrow> own p = Some c \<Longrightarrow>
    \<exists>k. 8 \<le> p \<and> (p - 8, k) \<in> used_at 0 bs \<and> length c + 8 \<le> k \<and> take (length c) (drop p (ram h)) = c"
  unfolding owns_def by meson

definition area :: "mem_heap \<Rightarrow> heap_blocks \<Rightarrow> nat \<Rightarrow> u8 list \<Rightarrow> bool" where
  "area h bs p c \<longleftrightarrow> (\<exists>k. 8 \<le> p \<and> (p - 8, k) \<in> used_at 0 bs \<and> length c + 8 \<le> k \<and> take (length c) (drop p (ram h)) = c)"

lemma owns_holds: "owns h bs own \<longleftrightarrow>
    (\<forall>p c. own p = Some c \<longrightarrow> area h bs p c) \<and> (\<forall>i k. (i, k) \<in> used_at 0 bs \<longrightarrow> own (i + 8) \<noteq> None)"
  unfolding owns_def area_def by meson

lemma take_length_take [simp]: "take (length (take n ys)) ys = take n ys"
  by (cases "length ys \<le> n") simp_all

lemma owns_update:
  assumes "\<And>q d. own q = Some d \<Longrightarrow> q \<noteq> p \<Longrightarrow> area h bs q d" "area h bs p c"
    "\<And>i k. (i, k) \<in> used_at 0 bs \<Longrightarrow> i + 8 \<noteq> p \<Longrightarrow> own (i + 8) \<noteq> None"
  shows "owns h bs (own(p \<mapsto> c))"
  unfolding owns_holds
proof (intro conjI allI impI)
  show "area h bs q d" if "(own(p \<mapsto> c)) q = Some d" for q d
    using that assms(1) [of q d] assms(2) by (cases "q = p") auto
  show "(own(p \<mapsto> c)) (i + 8) \<noteq> None" if "(i, k) \<in> used_at 0 bs" for i k
    using that assms(3) [of i k] by (cases "i + 8 = p") auto
qed

lemma holds_becomes:
  assumes "area h bs p c" and h': "becomes h h' bs'" and sub: "\<And>k. (p - 8, k) \<in> used_at 0 bs \<Longrightarrow> (p - 8, k) \<in> used_at 0 bs'"
  shows "area h' bs' p c"
proof -
  obtain k where k: "8 \<le> p" "(p - 8, k) \<in> used_at 0 bs" "length c + 8 \<le> k" "take (length c) (drop p (ram h)) = c"
    using assms(1) unfolding area_def by blast
  have "take (length c) (drop p (ram h')) = take (length c) (drop p (ram h))"
    using h' sub k by (intro same_data [of bs' h' h p k]) (auto simp: becomes_def)
  then show ?thesis unfolding area_def using k sub by (intro exI [of _ k]) simp
qed

lemma holds_memory: "8 \<le> p \<Longrightarrow> (p - 8, k) \<in> used_at 0 bs \<Longrightarrow> n + 8 \<le> k \<Longrightarrow> area h bs p (take n (drop p (ram h)))"
proof -
  have "length (take n (drop p (ram h))) \<le> n" by simp
  then show "8 \<le> p \<Longrightarrow> (p - 8, k) \<in> used_at 0 bs \<Longrightarrow> n + 8 \<le> k \<Longrightarrow> ?thesis"
    unfolding area_def by (intro exI [of _ k]) (simp del: length_take)
qed

lemma owns_insert:
  assumes own: "owns h bs own" and h': "becomes h h' bs'" and u: "used_at 0 bs' = insert (i, k) (used_at 0 bs)" and n: "n + 8 \<le> k"
  shows "owns h' bs' (own(i + 8 \<mapsto> take n (drop (i + 8) (ram h'))))"
proof (rule owns_update)
  show "area h' bs' q d" if "own q = Some d" for q d
    using own that u by (intro holds_becomes [OF _ h']) (auto simp: owns_holds)
  show "area h' bs' (i + 8) (take n (drop (i + 8) (ram h')))"
    using u n by (intro holds_memory) auto
  show "own (j + 8) \<noteq> None" if "(j, l) \<in> used_at 0 bs'" "j + 8 \<noteq> i + 8" for j l
    using that own u unfolding owns_holds by auto
qed

lemma owns_remove:
  assumes own: "owns h bs own" and h': "becomes h h' bs'" and u: "used_at 0 bs' = used_at 0 bs - {(i, k)}"
    and bs: "\<forall>x \<in> set bs. 20 \<le> fst x" "(i, k) \<in> used_at 0 bs"
  shows "owns h' bs' (own(i + 8 := None))"
proof -
  have "area h' bs' p c" if "own p = Some c" "p \<noteq> i + 8" for p c
  proof -
    have c: "area h bs p c" using own that(1) by (simp add: owns_holds)
    then have "p - 8 \<noteq> i" using that(2) unfolding area_def by arith
    then show ?thesis using u by (intro holds_becomes [OF c h']) simp
  qed
  moreover have "j \<noteq> i" if "(j, l) \<in> used_at 0 bs'" for j l
    using that u used_same [OF bs(1,2), of l] by auto
  ultimately show ?thesis using own u unfolding owns_holds by (auto split: if_splits)
qed

lemma owns_cut:
  assumes own: "owns h bs own" "own (i + 8) = Some c" and h': "becomes h h' bs'"
    and u: "used_at 0 bs' = insert (i, l) (used_at 0 bs - {(i, k)})" "m + 8 \<le> l" "m \<le> length c"
  shows "owns h' bs' (own(i + 8 \<mapsto> take m c))"
proof (rule owns_update)
  show "area h' bs' q d" if "own q = Some d" "q \<noteq> i + 8" for q d
  proof -
    have d: "area h bs q d" using own(1) that(1) by (simp add: owns_holds)
    then have "q - 8 \<noteq> i" using that(2) unfolding area_def by arith
    then show ?thesis using u(1) by (intro holds_becomes [OF d h']) simp
  qed
  have "take (length c) (drop (i + 8) (ram h)) = c" using ownsD [OF own] by blast
  then have "take m (drop (i + 8) (ram h)) = take m c" using u(3) by (metis min.absorb1 take_take)
  then have "take m (drop (i + 8) (ram h')) = take m c"
    using same_data [of bs' h' h "i + 8" l m] h' u by (simp add: becomes_def)
  then show "area h' bs' (i + 8) (take m c)" unfolding area_def using u by (intro exI [of _ l]) simp
  show "own (j + 8) \<noteq> None" if "(j, n) \<in> used_at 0 bs'" "j + 8 \<noteq> i + 8" for j n
    using that own u(1) unfolding owns_holds by auto
qed

lemma owns_write:
  assumes h: "heap_of h bs" and own: "owns h bs own" "own p = Some c" and len: "length (ram h') = length (ram h)" "lfree h' = lfree h"
    and out: "\<And>j. j < p \<or> p + length c \<le> j \<Longrightarrow> ram h' ! j = ram h ! j"
  shows "heap_of h' bs \<and> owns h' bs (own(p \<mapsto> take (length c) (drop p (ram h'))))"
proof
  obtain k where k: "8 \<le> p" "(p - 8, k) \<in> used_at 0 bs" "length c + 8 \<le> k" using ownsD [OF own] by blast
  have sz: "\<forall>x \<in> set bs. 20 \<le> fst x" using heap_sizes [OF h] by auto
  have "in_data 0 bs j" if "p \<le> j" "j < p + length c" for j
    using that k unfolding in_data_used by (intro exI [of _ "p - 8"] exI [of _ k]) auto
  then have "ram h' ! j = ram h ! j" if "\<not> in_data 0 bs j" for j
    using that out [of j] by (meson not_le)
  then show "heap_of h' bs" using heap_writes [OF h len] by blast
  show "owns h' bs (own(p \<mapsto> take (length c) (drop p (ram h'))))"
  proof (rule owns_update)
    show "area h' bs q d" if q: "own q = Some d" "q \<noteq> p" for q d
    proof -
      obtain l where l: "8 \<le> q" "(q - 8, l) \<in> used_at 0 bs" "length d + 8 \<le> l" "take (length d) (drop q (ram h)) = d"
        using ownsD [OF own(1) q(1)] by blast
      have "p - 8 \<noteq> q - 8" using k(1) l(1) q(2) by arith
      then have "p - 8 + k \<le> q - 8 \<or> q - 8 + l \<le> p - 8" using used_apart [OF sz k(2) l(2)] by blast
      then have "p + length c \<le> q \<or> q + length d \<le> p" using k(1,3) l(1,3) by arith
      then have "take (length d) (drop q (ram h')) = take (length d) (drop q (ram h))"
        using len(1) out by (intro nth_equalityI) auto
      then show ?thesis using l unfolding area_def by (intro exI [of _ l]) simp
    qed
    show "area h' bs p (take (length c) (drop p (ram h')))"
      using k by (intro holds_memory)
    show "own (i + 8) \<noteq> None" if "(i, n) \<in> used_at 0 bs" for i n
      using that own(1) unfolding owns_holds by blast
  qed
qed

lemma malloc_sound:
  assumes h: "heap_of h bs" "owns h bs own" and n: "unat n \<le> 65532"
  shows "\<exists>r. mem_malloc n h = Some r \<and>
    (case r of (None, h') \<Rightarrow> h' = h
     | (Some i, h') \<Rightarrow> \<exists>bs' k. heap_of h' bs' \<and> 8 \<le> i \<and> (nat i - 8, k) \<in> used_at 0 bs' \<and> unat n + 8 \<le> k \<and>
         owns h' bs' (own(nat i \<mapsto> take (unat n) (drop (nat i) (ram h')))))"
proof (cases "n = 0")
  case True
  then show ?thesis by (simp add: mem_malloc_def)
next
  case False
  then have "0 < n" by (simp add: word_gt_0)
  then obtain h' where m: "mem_malloc n h = Some (map_option (\<lambda>i. int i + 8) (fit (ask n) 0 bs), h')"
      "becomes h h' (take_first (ask n) bs)" "fit (ask n) 0 bs = None \<longrightarrow> h' = h"
    using mem_malloc_heap [OF h(1) \<open>0 < n\<close> n] by (elim exE conjE) (rule that)
  show ?thesis
  proof (cases "fit (ask n) 0 bs")
    case None
    then show ?thesis using m by simp
  next
    case (Some i)
    obtain k where k: "ask n + 8 \<le> k" "used_at 0 (take_first (ask n) bs) = insert (i, k) (used_at 0 bs)"
      using used_take [OF Some] by blast
    have "unat n + 8 \<le> k" using k(1) ask_bounds(3) [of n] by simp
    moreover have "nat (int i + 8) = i + 8" by simp
    ultimately show ?thesis
      using m Some k(2) owns_insert [OF h(2) m(2) k(2), of "unat n"]
      by (auto simp: becomes_def)
  qed
qed

lemma calloc_sound:
  assumes h: "heap_of h bs" "owns h bs own" and n: "unat c * unat n \<le> 65532"
  shows "\<exists>r. mem_calloc c n h = Some r \<and> sound (granted (unat c * unat n) r own) \<and>
    (\<forall>i. fst r = Some i \<longrightarrow> snd (granted (unat c * unat n) r own) (nat i) = Some (replicate (unat c * unat n) 0))"
proof -
  let ?n = "unat c * unat n"
  have un: "unat (c * n) = ?n" using n by (simp add: unat_word_ariths)
  have "int ?n \<le> 65532" using n by linarith
  then have small: "\<not> 2 ^ 31 \<le> uint c * uint n" by simp
  obtain r where r: "mem_malloc (c * n) h = Some r"
    "case r of (None, h') \<Rightarrow> h' = h
     | (Some i, h') \<Rightarrow> \<exists>bs' k. heap_of h' bs' \<and> 8 \<le> i \<and> (nat i - 8, k) \<in> used_at 0 bs' \<and> ?n + 8 \<le> k \<and>
         owns h' bs' (own(nat i \<mapsto> take ?n (drop (nat i) (ram h'))))"
    using malloc_sound [OF h, of "c * n", unfolded un, OF n] by (elim exE conjE) (rule that)
  obtain p h1 where rr: "r = (p, h1)" by (cases r)
  show ?thesis
  proof (cases p)
    case None
    then have "mem_calloc c n h = Some (None, h)" using r small by (simp add: mem_calloc_def rr)
    then show ?thesis using h by (auto simp: granted_def sound_def)
  next
    case (Some i)
    then obtain bs' k where k: "heap_of h1 bs'" "8 \<le> i" "(nat i - 8, k) \<in> used_at 0 bs'" "?n + 8 \<le> k"
        "owns h1 bs' (own(nat i \<mapsto> take ?n (drop (nat i) (ram h1))))"
      using r(2) by (auto simp: rr)
    have "nat i - 8 + k \<le> 1600" using used_at_range [OF k(3)] heap_span [OF k(1)] by simp
    then have fits: "nat i + ?n \<le> length (ram h1)" using k by (auto simp: heap_of_def)
    let ?h = "h1\<lparr>ram := memcpy (nat i) (replicate ?n 0) (ram h1)\<rparr>"
    have "heap_of ?h bs' \<and> owns ?h bs' (own(nat i \<mapsto> take ?n (drop (nat i) (ram h1)), nat i \<mapsto> take (length (take ?n (drop (nat i) (ram h1)))) (drop (nat i) (ram ?h))))"
      by (rule owns_write [OF k(1,5)]) (use fits in \<open>auto simp: length_memcpy memcpy_def nth_append\<close>)
    moreover have z: "take ?n (drop (nat i) (ram ?h)) = replicate ?n 0" using fits by (simp add: memcpy_def)
    moreover have "length (take ?n (drop (nat i) (ram h1))) = ?n" using fits by simp
    ultimately have "sound (granted ?n (Some i, ?h) own)" by (auto simp: sound_def granted_def)
    moreover have "mem_calloc c n h = Some (Some i, ?h)" using r small fits by (simp add: mem_calloc_def rr Some)
    ultimately show ?thesis using z by (simp add: granted_def)
  qed
qed

lemma free_sound:
  assumes h: "heap_of h bs" "owns h bs own" and p: "own p = Some c"
  shows "\<exists>h'. mem_free (Some (int p)) h = Some h' \<and> sound (h', own(p := None))"
proof -
  obtain k where k: "8 \<le> p" "(p - 8, k) \<in> used_at 0 bs" using ownsD [OF h(2) p] by blast
  have sz: "\<forall>x \<in> set bs. 20 \<le> fst x" using heap_sizes [OF h(1)] by auto
  have b: "block_in (p - 8) 0 bs = Some k" using block_in_used [OF sz k(2)] .
  have ip: "int (p - 8) + 8 = int p" "p - 8 + 8 = p" using k(1) by simp_all
  obtain h' where h': "mem_free (Some (int p)) h = Some h'" "becomes h h' (coalesce (mark_free (p - 8) 0 bs))"
    using mem_free_heap [OF h(1) b] unfolding ip by blast
  have "owns h' (coalesce (mark_free (p - 8) 0 bs)) (own(p - 8 + 8 := None))"
    by (rule owns_remove [OF h(2) h'(2) _ sz k(2)]) (simp add: used_mark [OF sz b])
  then show ?thesis using h' unfolding ip by (auto simp: sound_def becomes_def)
qed

lemma trim_sound:
  assumes h: "heap_of h bs" "owns h bs own" and p: "own p = Some c" and n: "unat n \<le> length c"
  shows "\<exists>h'. mem_trim (int p) n h = Some (Some (int p), h') \<and> sound (h', own(p \<mapsto> take (unat n) c))"
proof -
  obtain k where k: "8 \<le> p" "(p - 8, k) \<in> used_at 0 bs" "length c + 8 \<le> k" using ownsD [OF h(2) p] by blast
  have sz: "\<forall>x \<in> set bs. 20 \<le> fst x" using heap_sizes [OF h(1)] by auto
  have b: "block_in (p - 8) 0 bs = Some k" using block_in_used [OF sz k(2)] .
  have ip: "int (p - 8) + 8 = int p" "p - 8 + 8 = p" using k(1) by simp_all
  have kk: "20 \<le> k" "4 dvd k" "p - 8 + k \<le> 1600"
    using used_size [OF heap_sizes [OF h(1)] _ k(2)] used_at_range [OF k(2)] heap_span [OF h(1)] by auto
  then obtain q where q: "k = 4 * q" by blast
  have "(m + 3) div 4 * 4 + 8 \<le> 4 * q" if "m + 8 \<le> 4 * q" for m :: nat using that by presburger
  from this [of "unat n"] have "(unat n + 3) div 4 * 4 + 8 \<le> k" using n k(3) by (simp add: q)
  then have a: "ask n + 8 \<le> k" using kk(1) by (simp add: ask_def)
  have small: "unat n \<le> 65532" using n k(3) kk(3) by simp
  obtain h' where h': "mem_trim (int p) n h = Some (Some (int p), h')" "becomes h h' (coalesce (cut (p - 8) (ask n) 0 bs))"
    using mem_trim_heap [OF h(1) b small] a unfolding ip by auto
  obtain l where l: "ask n + 8 \<le> l" "used_at 0 (cut (p - 8) (ask n) 0 bs) = insert (p - 8, l) (used_at 0 bs - {(p - 8, k)})"
    using used_cut [OF sz b a] by blast
  have "owns h' (coalesce (cut (p - 8) (ask n) 0 bs)) (own(p - 8 + 8 \<mapsto> take (unat n) c))"
    by (rule owns_cut [OF h(2) _ h'(2), where l = l and k = k]) (use l n p ip ask_bounds(3) [of n] in auto)
  then show ?thesis using h' unfolding ip by (auto simp: sound_def becomes_def)
qed

lemma step_sound:
  assumes "sound (h, own)" "representable x"
  shows "\<exists>s. heap_step x (h, own) = Some s \<and> sound s"
proof -
  obtain bs where h: "heap_of h bs" "owns h bs own" using assms(1) by (auto simp: sound_def)
  show ?thesis
  proof (cases x)
    case (Alloc n)
    then obtain r where r: "mem_malloc n h = Some r" "case r of (None, h') \<Rightarrow> h' = h
     | (Some i, h') \<Rightarrow> \<exists>bs' k. heap_of h' bs' \<and> 8 \<le> i \<and> (nat i - 8, k) \<in> used_at 0 bs' \<and> unat n + 8 \<le> k \<and>
         owns h' bs' (own(nat i \<mapsto> take (unat n) (drop (nat i) (ram h'))))"
      using malloc_sound [OF h, of n] assms(2) by (auto simp del: split_paired_Ex)
    then have "sound (granted (unat n) r own)"
      using h by (auto simp: granted_def sound_def split: prod.splits option.splits)
    then show ?thesis using r by (simp add: Alloc)
  next
    case (Zalloc c n)
    then show ?thesis using calloc_sound [OF h, of c n] assms(2) by (auto simp del: split_paired_Ex)
  next
    case (Release p)
    then show ?thesis using free_sound [OF h, of p] assms(1) by (auto split: option.splits)
  next
    case (Shrink p n)
    then show ?thesis using trim_sound [OF h, of p _ n] assms(1) by (fastforce split: option.splits)
  next
    case (Put p i v)
    show ?thesis
    proof (cases "own p")
      case None
      then show ?thesis using assms(1) by (simp add: Put)
    next
      case (Some c)
      show ?thesis
      proof (cases "i < length c")
        case True
        let ?h = "h\<lparr>ram := (ram h)[p + i := v]\<rparr>"
        have "heap_of ?h bs \<and> owns ?h bs (own(p \<mapsto> take (length c) (drop p (ram ?h))))"
          by (rule owns_write [OF h Some]) (use True in auto)
        moreover have "take (length c) (drop p (ram ?h)) = c[i := v]"
          using ownsD [OF h(2) Some] by (auto simp: drop_update_swap take_update_swap)
        ultimately show ?thesis using True Some by (auto simp: Put sound_def)
      qed (use assms(1) Some in \<open>simp add: Put\<close>)
    qed
  qed
qed

lemma run_sound: "sound s \<Longrightarrow> \<forall>x \<in> set xs. representable x \<Longrightarrow> \<exists>s'. heap_run xs s = Some s' \<and> sound s'"
proof (induction xs arbitrary: s)
  case (Cons x xs)
  obtain s1 where "heap_step x s = Some s1" "sound s1" using step_sound [of "fst s" "snd s" x] Cons.prems by auto
  then show ?case using Cons by auto
qed simp

section \<open>The promises\<close>

lemma sound_init:
  assumes "1608 \<le> length bytes"
  shows "\<exists>h. mem_init bytes = Some h \<and> sound (h, Map.empty)"
  using mem_init_heap [OF assms] by (fastforce simp: sound_def owns_def)

text \<open>
  C14: Safety of the heap. From any memory of sufficient size, any history of requests, requests for zeroed memory, releases,
  shrinkings and writes runs without an access outside the memory and without an endless loop. Every area that is then
  owned is aligned to four bytes, lies within the heap and holds exactly what its owner last wrote or kept, and between two
  areas there is always room for the header of the second.
\<close>

theorem heap_sound:
  assumes "1608 \<le> length bytes" "\<forall>x \<in> set xs. representable x"
  shows "\<exists>h h' own. mem_init bytes = Some h \<and> heap_run xs (h, Map.empty) = Some (h', own) \<and>
    (\<forall>p c. own p = Some c \<longrightarrow> 8 \<le> p \<and> 4 dvd p \<and> p + length c \<le> 1600 \<and> take (length c) (drop p (ram h')) = c) \<and>
    (\<forall>p c q d. own p = Some c \<and> own q = Some d \<and> p < q \<longrightarrow> p + length c + 8 \<le> q)"
proof -
  obtain h where h: "mem_init bytes = Some h" "sound (h, Map.empty)" using sound_init [OF assms(1)] by blast
  obtain h' own where s: "heap_run xs (h, Map.empty) = Some (h', own)" "sound (h', own)"
    using run_sound [OF h(2) assms(2)] by auto
  then obtain bs where bs: "heap_of h' bs" "owns h' bs own" by (auto simp: sound_def)
  have sz: "\<forall>x \<in> set bs. 20 \<le> fst x" using heap_sizes [OF bs(1)] by auto
  have "8 \<le> p \<and> 4 dvd p \<and> p + length c \<le> 1600 \<and> take (length c) (drop p (ram h')) = c" if p: "own p = Some c" for p c
  proof -
    obtain k where k: "8 \<le> p" "(p - 8, k) \<in> used_at 0 bs" "length c + 8 \<le> k" "take (length c) (drop p (ram h')) = c"
      using ownsD [OF bs(2) p] by blast
    have "4 dvd p - 8" using used_size [OF heap_sizes [OF bs(1)] _ k(2)] by simp
    then have "4 dvd p - 8 + 8" by simp
    then show ?thesis using k used_at_range [OF k(2)] heap_span [OF bs(1)] by auto
  qed
  moreover have "p + length c + 8 \<le> q" if pq: "own p = Some c" "own q = Some d" "p < q" for p c q d
  proof -
    obtain k l where k: "8 \<le> p" "(p - 8, k) \<in> used_at 0 bs" "length c + 8 \<le> k"
        and l: "8 \<le> q" "(q - 8, l) \<in> used_at 0 bs" "length d + 8 \<le> l"
      using ownsD [OF bs(2) pq(1)] ownsD [OF bs(2) pq(2)] by blast
    have "p - 8 \<noteq> q - 8" using k(1) pq(3) by arith
    then have "p - 8 + k \<le> q - 8 \<or> q - 8 + l \<le> p - 8" using used_apart [OF sz k(2) l(2)] by blast
    then show ?thesis using k(1,3) l(1,3) pq(3) by arith
  qed
  ultimately show ?thesis using h(1) s(1) by blast
qed

lemma heap_sound_witness:
  "\<exists>h h' own. mem_init (replicate 1608 0) = Some h \<and>
    heap_run [Alloc 100, Put 8 3 7, Zalloc 5 9, Shrink 8 20, Release 116, Alloc 30] (h, Map.empty) = Some (h', own) \<and>
    (\<forall>p c. own p = Some c \<longrightarrow> 8 \<le> p \<and> 4 dvd p \<and> p + length c \<le> 1600 \<and> take (length c) (drop p (ram h')) = c) \<and>
    (\<forall>p c q d. own p = Some c \<and> own q = Some d \<and> p < q \<longrightarrow> p + length c + 8 \<le> q)"
  by (rule heap_sound) simp_all

text \<open>
  C15: The operations refine those on lists of blocks: a request takes the first free block that is large enough, splits it when
  the rest can be a block of its own, and fails only when there is none; releasing a block leaves it free and merged with
  its free neighbours; shrinking one gives back the rest when that can be a free block or be added to one, and fails only
  when the new size does not fit. No byte of a block in use is changed.
\<close>

theorem heap_refines:
  assumes "heap_of h bs" "0 < n" "unat n \<le> 65532"
  shows "(\<exists>h'. mem_malloc n h = Some (map_option (\<lambda>i. int i + 8) (fit (ask n) 0 bs), h') \<and> becomes h h' (take_first (ask n) bs)) \<and>
    (\<forall>i k. block_in i 0 bs = Some k \<longrightarrow>
      (\<exists>h'. mem_free (Some (int i + 8)) h = Some h' \<and> becomes h h' (coalesce (mark_free i 0 bs))) \<and>
      (\<exists>h'. mem_trim (int i + 8) n h = Some (if ask n + 8 \<le> k then Some (int i + 8) else None, h') \<and>
        becomes h h' (coalesce (cut i (ask n) 0 bs))))"
  using mem_malloc_heap [OF assms] mem_free_heap [OF assms(1)] mem_trim_heap [OF assms(1) _ assms(3)] by blast

lemma heap_example: "\<exists>h h'. mem_init (replicate 1608 0) = Some h \<and> mem_malloc 100 h = Some (Some 8, h') \<and> heap_of h' [(108, True), (1492, False)]"
proof -
  obtain h where h: "mem_init (replicate 1608 0) = Some h" "heap_of h [(1600, False)]"
    using mem_init_heap [of "replicate 1608 0"] by auto
  have "ask 100 = 100" by (simp add: ask_def)
  then show ?thesis using mem_malloc_heap [OF h(2), of 100] h(1) by (auto simp: becomes_def)
qed

lemma heap_refines_witness:
  "\<exists>h h' h2 h3. mem_init (replicate 1608 0) = Some h \<and> mem_malloc 100 h = Some (Some 8, h') \<and>
    mem_free (Some 8) h' = Some h2 \<and> becomes h' h2 [(1600, False)] \<and>
    mem_trim 8 20 h' = Some (Some 8, h3) \<and> becomes h' h3 [(28, True), (1572, False)]"
proof -
  obtain h h' where h: "mem_init (replicate 1608 0) = Some h" "mem_malloc 100 h = Some (Some 8, h')"
      "heap_of h' [(108, True), (1492, False)]"
    using heap_example by blast
  have n: "0 < (20 :: u16)" "unat (20 :: u16) \<le> 65532" "ask 20 = 20" by (simp_all add: ask_def)
  have "(\<exists>h2. mem_free (Some 8) h' = Some h2 \<and> becomes h' h2 [(1600, False)]) \<and>
      (\<exists>h3. mem_trim 8 20 h' = Some (Some 8, h3) \<and> becomes h' h3 [(28, True), (1572, False)])"
    using conjunct2 [OF heap_refines [OF h(3) n(1,2)], rule_format, of 0 108] n(3) by simp
  then show ?thesis using h(1,2) by blast
qed

text \<open>
  C16: Nothing is lost and nothing stays fragmented: after any history at whose end everything that was granted has been
  released, any request of up to 1592 bytes, all there is behind the first header, is granted at the start of the heap.
\<close>

theorem heap_recovers:
  assumes "1608 \<le> length bytes" "mem_init bytes = Some h" "\<forall>x \<in> set xs. representable x"
    and "heap_run xs (h, Map.empty) = Some (h', Map.empty)" "0 < n" "unat n \<le> 1592"
  shows "\<exists>h2. mem_malloc n h' = Some (Some 8, h2)"
proof -
  have "sound (h, Map.empty)" using sound_init [OF assms(1)] assms(2) by auto
  then obtain bs where bs: "heap_of h' bs" "owns h' bs Map.empty"
    using run_sound [OF _ assms(3)] assms(4) by (fastforce simp: sound_def)
  have "used_at 0 bs = {}" using bs(2) by (auto simp: owns_def)
  moreover have "bs \<noteq> []" using heap_span [OF bs(1)] by auto
  ultimately obtain k where "bs = [(k, False)]" using all_free [of bs 0] bs(1) by (auto simp: heap_of_def)
  then have "bs = [(1600, False)]" using heap_span [OF bs(1)] by simp
  moreover have "ask n \<le> 1592" using assms(6) by (simp add: ask_def)
  ultimately have "fit (ask n) 0 bs = Some 0" by simp
  then show ?thesis using mem_malloc_heap [OF bs(1) assms(5)] assms(6) by auto
qed

lemma heap_recovers_witness:
  "\<exists>h h' h2. mem_init (replicate 1608 0) = Some h \<and> heap_run [Alloc 100, Put 8 0 1, Release 8] (h, Map.empty) = Some (h', Map.empty) \<and>
    mem_malloc 1592 h' = Some (Some 8, h2)"
proof -
  obtain h h1 where h: "mem_init (replicate 1608 0) = Some h" "mem_malloc 100 h = Some (Some 8, h1)"
      "heap_of h1 [(108, True), (1492, False)]"
    using heap_example by blast
  let ?h2 = "h1\<lparr>ram := (ram h1)[8 := 1]\<rparr>"
  have w: "heap_of ?h2 [(108, True), (1492, False)]" by (rule heap_writes [OF h(3)]) auto
  obtain h3 where "mem_free (Some 8) ?h2 = Some h3" using mem_free_heap [OF w, of 0 108] by auto
  moreover have "8 < length (ram h1)" using h(3) by (simp add: heap_of_def)
  ultimately have run: "heap_run [Alloc 100, Put 8 0 1, Release 8] (h, Map.empty) = Some (h3, Map.empty)"
    using h(2) by (simp add: granted_def)
  have "\<exists>h2. mem_malloc 1592 h3 = Some (Some 8, h2)" by (rule heap_recovers [OF _ h(1) _ run]) simp_all
  then show ?thesis using h(1) run by blast
qed

text \<open>
  The last three sizes a request can have are rounded up to nothing: instead of failing, the request is answered with the
  smallest block, of twelve bytes.
\<close>

theorem malloc_wraps:
  assumes "65533 \<le> unat n"
  shows "mem_malloc n h = mem_malloc 12 h"
proof -
  have "unat n < 65536" using unsigned_less [of n] by simp
  then consider "unat n = 65533" | "unat n = 65534" | "unat n = 65535" using assms by linarith
  then have "n = 65533 \<or> n = 65534 \<or> n = 65535"
    by cases (simp_all add: word_unat_eq_iff)
  then show ?thesis by (auto simp: mem_malloc_def request_size_def LWIP_MEM_ALIGN_SIZE_def MIN_SIZE_ALIGNED_def)
qed

lemma malloc_wraps_witness:
  "\<exists>h h'. mem_init (replicate 1608 0) = Some h \<and> mem_malloc 65535 h = Some (Some 8, h') \<and> heap_of h' [(20, True), (1580, False)]"
proof -
  obtain h where h: "mem_init (replicate 1608 0) = Some h" "heap_of h [(1600, False)]"
    using mem_init_heap [of "replicate 1608 0"] by auto
  have "mem_malloc 65535 h = mem_malloc 12 h" by (rule malloc_wraps) simp
  moreover have "ask 12 = 12" by (simp add: ask_def)
  ultimately show ?thesis using mem_malloc_heap [OF h(2), of 12] h(1) by (auto simp: becomes_def)
qed

text \<open>Zeroed memory: the product is cut to 16 bits for the request and not for the zeros, which then run out of the heap.\<close>

lemma calloc_overrun:
  assumes "65536 \<le> unat c * unat n" "length (ram h') \<le> 65536" "mem_malloc (c * n) h = Some (Some i, h')" "0 < i"
  shows "mem_calloc c n h = None"
proof -
  have "\<not> nat i + unat c * unat n \<le> length (ram h')" using assms by linarith
  then show ?thesis using assms(3) by (simp add: mem_calloc_def Let_def)
qed

lemma calloc_overrun_witness:
  "\<exists>h. mem_init (replicate 1608 0) = Some h \<and> mem_calloc 4 16385 h = None"
proof -
  obtain h where h: "mem_init (replicate 1608 0) = Some h" "heap_of h [(1600, False)]"
    using mem_init_heap [of "replicate 1608 0"] by auto
  have "ask 4 = 12" by (simp add: ask_def)
  then obtain h' where "mem_malloc 4 h = Some (Some 8, h')" "length (ram h') = length (ram h)"
    using mem_malloc_heap [OF h(2), of 4] by (auto simp: becomes_def)
  moreover have "length (ram h) = 1608" using h(1) by (auto simp: mem_init_def wr_mem_put MEM_SIZE_ALIGNED_def)
  moreover have "4 * 16385 = (4 :: u16)" by simp
  ultimately have "mem_calloc 4 16385 h = None"
    by (intro calloc_overrun [of 4 16385 h' h 8]) (simp_all only: , simp_all)
  then show ?thesis using h(1) by blast
qed

end
