(* ===== verification/Ppp_Frame.thy ===== *)
theory Ppp_Frame
  imports Lwip_Def
begin

text \<open>
  Sending PPP frames over the serial line (\<open>lwip/netif/ppp/ppp.c\<close>): the frame check sequence, the
  escaping of control characters into chains of pool buffers, the writing of control packets (\<open>pppWrite\<close>)
  and of Internet packets (\<open>pppifOutput\<close>), and the configuration of the two character maps.

  Statistics counters are compiled out and not modelled. A chain of buffers is the list of their
  contents, \<open>o_pool\<close> the number of free buffers of the pool. The serial device is the argument \<open>dev\<close>: for
  the bytes already sent and a buffer it says whether the buffer is sent without error, and which bytes
  go to the line.
\<close>

unbundle bit_operations_syntax

section \<open>Constants\<close>

definition PPP_ALLSTATIONS :: u8 where "PPP_ALLSTATIONS = 0xff"
definition PPP_UI :: u8 where "PPP_UI = 0x03"
definition PPP_FLAG :: u8 where "PPP_FLAG = 0x7e"
definition PPP_ESCAPE :: u8 where "PPP_ESCAPE = 0x7d"
definition PPP_TRANS :: u8 where "PPP_TRANS = 0x20"
definition PPP_IP :: u16 where "PPP_IP = 0x21"
definition PPP_MAXIDLEFLAG :: u32 where "PPP_MAXIDLEFLAG = 100"
definition PBUF_POOL_BUFSIZE :: nat where "PBUF_POOL_BUFSIZE = 592"
definition PPP_INITFCS :: u16 where "PPP_INITFCS = 0xffff"
definition PPP_GOODFCS :: u16 where "PPP_GOODFCS = 0xf0b8"
definition PPPERR_NONE :: int where "PPPERR_NONE = 0"
definition PPPERR_ALLOC :: int where "PPPERR_ALLOC = -4"
definition ERR_OK :: int where "ERR_OK = 0"
definition ERR_MEM :: int where "ERR_MEM = -1"
definition ERR_RTE :: int where "ERR_RTE = -4"
definition ERR_ARG :: int where "ERR_ARG = -14"

text \<open>The phases of the link.\<close>

datatype phase = PHASE_DEAD | PHASE_INITIALIZE | PHASE_ESTABLISH | PHASE_AUTHENTICATE | PHASE_CALLBACK
  | PHASE_NETWORK | PHASE_TERMINATE

section \<open>The frame check sequence\<close>

definition fcstab :: "u16 list" where
  "fcstab =
    [0x0000, 0x1189, 0x2312, 0x329b, 0x4624, 0x57ad, 0x6536, 0x74bf,
     0x8c48, 0x9dc1, 0xaf5a, 0xbed3, 0xca6c, 0xdbe5, 0xe97e, 0xf8f7,
     0x1081, 0x0108, 0x3393, 0x221a, 0x56a5, 0x472c, 0x75b7, 0x643e,
     0x9cc9, 0x8d40, 0xbfdb, 0xae52, 0xdaed, 0xcb64, 0xf9ff, 0xe876,
     0x2102, 0x308b, 0x0210, 0x1399, 0x6726, 0x76af, 0x4434, 0x55bd,
     0xad4a, 0xbcc3, 0x8e58, 0x9fd1, 0xeb6e, 0xfae7, 0xc87c, 0xd9f5,
     0x3183, 0x200a, 0x1291, 0x0318, 0x77a7, 0x662e, 0x54b5, 0x453c,
     0xbdcb, 0xac42, 0x9ed9, 0x8f50, 0xfbef, 0xea66, 0xd8fd, 0xc974,
     0x4204, 0x538d, 0x6116, 0x709f, 0x0420, 0x15a9, 0x2732, 0x36bb,
     0xce4c, 0xdfc5, 0xed5e, 0xfcd7, 0x8868, 0x99e1, 0xab7a, 0xbaf3,
     0x5285, 0x430c, 0x7197, 0x601e, 0x14a1, 0x0528, 0x37b3, 0x263a,
     0xdecd, 0xcf44, 0xfddf, 0xec56, 0x98e9, 0x8960, 0xbbfb, 0xaa72,
     0x6306, 0x728f, 0x4014, 0x519d, 0x2522, 0x34ab, 0x0630, 0x17b9,
     0xef4e, 0xfec7, 0xcc5c, 0xddd5, 0xa96a, 0xb8e3, 0x8a78, 0x9bf1,
     0x7387, 0x620e, 0x5095, 0x411c, 0x35a3, 0x242a, 0x16b1, 0x0738,
     0xffcf, 0xee46, 0xdcdd, 0xcd54, 0xb9eb, 0xa862, 0x9af9, 0x8b70,
     0x8408, 0x9581, 0xa71a, 0xb693, 0xc22c, 0xd3a5, 0xe13e, 0xf0b7,
     0x0840, 0x19c9, 0x2b52, 0x3adb, 0x4e64, 0x5fed, 0x6d76, 0x7cff,
     0x9489, 0x8500, 0xb79b, 0xa612, 0xd2ad, 0xc324, 0xf1bf, 0xe036,
     0x18c1, 0x0948, 0x3bd3, 0x2a5a, 0x5ee5, 0x4f6c, 0x7df7, 0x6c7e,
     0xa50a, 0xb483, 0x8618, 0x9791, 0xe32e, 0xf2a7, 0xc03c, 0xd1b5,
     0x2942, 0x38cb, 0x0a50, 0x1bd9, 0x6f66, 0x7eef, 0x4c74, 0x5dfd,
     0xb58b, 0xa402, 0x9699, 0x8710, 0xf3af, 0xe226, 0xd0bd, 0xc134,
     0x39c3, 0x284a, 0x1ad1, 0x0b58, 0x7fe7, 0x6e6e, 0x5cf5, 0x4d7c,
     0xc60c, 0xd785, 0xe51e, 0xf497, 0x8028, 0x91a1, 0xa33a, 0xb2b3,
     0x4a44, 0x5bcd, 0x6956, 0x78df, 0x0c60, 0x1de9, 0x2f72, 0x3efb,
     0xd68d, 0xc704, 0xf59f, 0xe416, 0x90a9, 0x8120, 0xb3bb, 0xa232,
     0x5ac5, 0x4b4c, 0x79d7, 0x685e, 0x1ce1, 0x0d68, 0x3ff3, 0x2e7a,
     0xe70e, 0xf687, 0xc41c, 0xd595, 0xa12a, 0xb0a3, 0x8238, 0x93b1,
     0x6b46, 0x7acf, 0x4854, 0x59dd, 0x2d62, 0x3ceb, 0x0e70, 0x1ff9,
     0xf78f, 0xe606, 0xd49d, 0xc514, 0xb1ab, 0xa022, 0x92b9, 0x8330,
     0x7bc7, 0x6a4e, 0x58d5, 0x495c, 0x3de3, 0x2c6a, 0x1ef1, 0x0f78]"

definition PPP_FCS :: "u32 \<Rightarrow> u8 \<Rightarrow> u32" where
  "PPP_FCS fcs c = drop_bit 8 fcs XOR ucast (fcstab ! unat ((fcs XOR ucast c) AND 0xff))"

section \<open>The character maps\<close>

text \<open>One bit for each of the 256 characters.\<close>

type_synonym ext_accm = "u8 list"

definition pppACCMMask :: "u8 list" where
  "pppACCMMask = [0x01, 0x02, 0x04, 0x08, 0x10, 0x20, 0x40, 0x80]"

definition ESCAPE_P :: "ext_accm \<Rightarrow> u8 \<Rightarrow> bool" where
  "ESCAPE_P accm c \<longleftrightarrow> accm ! unat (drop_bit 3 c) AND pppACCMMask ! unat (c AND 7) \<noteq> 0"

record PPPControl =
  openFlag :: bool
  mtu :: u16
  pcomp :: bool
  accomp :: bool
  lastXMit :: u32
  outACCM :: ext_accm

text \<open>The map loaded with the bits for the 32 control codes.\<close>

definition load_accm :: "u32 \<Rightarrow> ext_accm \<Rightarrow> ext_accm" where
  "load_accm asyncmap accm = map (\<lambda>i. ucast (drop_bit (8 * i) asyncmap AND 0xff)) [0 ..< 4] @ drop 4 accm"

definition ppp_send_config :: "u16 \<Rightarrow> u32 \<Rightarrow> bool \<Rightarrow> bool \<Rightarrow> PPPControl \<Rightarrow> PPPControl" where
  "ppp_send_config m asyncmap pc ac c =
     c\<lparr>mtu := m, pcomp := pc, accomp := ac, outACCM := load_accm asyncmap (outACCM c)\<rparr>"

definition ppp_set_xaccm :: "ext_accm \<Rightarrow> PPPControl \<Rightarrow> PPPControl" where
  "ppp_set_xaccm accm c = c\<lparr>outACCM := accm\<rparr>"

text \<open>The maps of a newly opened connection: the escape and the flag character.\<close>

definition init_accm :: ext_accm where
  "init_accm = (replicate 32 0)[15 := 0x60]"

section \<open>Building a frame\<close>

text \<open>
  The number of free buffers, the chain from its head, and whether the pointer to the current last
  buffer is not NULL.
\<close>

type_synonym outq = "nat \<times> u8 list list \<times> bool"

definition append_tail :: "u8 list list \<Rightarrow> u8 list \<Rightarrow> u8 list list" where
  "append_tail ch xs = butlast ch @ [last ch @ xs]"

definition pppAppend :: "u8 \<Rightarrow> outq \<Rightarrow> ext_accm option \<Rightarrow> outq" where
  "pppAppend c nb accm =
     (let (pool, ch, ok) =
        (case nb of (pool, ch, ok) \<Rightarrow>
          if ok \<and> PBUF_POOL_BUFSIZE - length (last ch) < 2
          then if pool = 0 then (pool, ch, False) else (pool - 1, ch @ [[]], True)
          else (pool, ch, ok))
      in if ok
         then (pool, append_tail ch
            (if accm \<noteq> None \<and> ESCAPE_P (the accm) c then [PPP_ESCAPE, c XOR PPP_TRANS] else [c]), True)
         else (pool, ch, False))"

text \<open>The loop over the bytes of a packet.\<close>

fun put_bytes :: "ext_accm \<Rightarrow> u32 \<times> outq \<Rightarrow> u8 list \<Rightarrow> u32 \<times> outq" where
  "put_bytes accm (fcsOut, tailMB) [] = (fcsOut, tailMB)"
| "put_bytes accm (fcsOut, tailMB) (c # s) = put_bytes accm (PPP_FCS fcsOut c, pppAppend c tailMB (Some accm)) s"

definition put_trailer :: "ext_accm \<Rightarrow> u32 \<times> outq \<Rightarrow> outq" where
  "put_trailer accm q =
     (let tailMB = pppAppend (ucast (NOT (fst q) AND 0xff)) (snd q) (Some accm);
          tailMB = pppAppend (ucast (drop_bit 8 (NOT (fst q)) AND 0xff)) tailMB (Some accm)
      in pppAppend PPP_FLAG tailMB None)"

section \<open>Writing to the line\<close>

record ppp_env =
  o_pool :: nat
  line_out :: "u8 list"
  streamAvail :: bool

type_synonym serial = "u8 list \<Rightarrow> u8 list \<Rightarrow> bool \<times> u8 list"

text \<open>The number of bytes written, and the bytes on the line.\<close>

definition sio_write :: "serial \<Rightarrow> bool \<Rightarrow> u8 list \<Rightarrow> u8 list \<Rightarrow> nat \<times> u8 list" where
  "sio_write dev avail line data =
     (if \<not> avail then (0, line)
      else let (ok, sent) = dev line data in (if ok then length data else 0, line @ sent))"

fun nPut_loop :: "serial \<Rightarrow> bool \<Rightarrow> u8 list \<Rightarrow> u8 list list \<Rightarrow> bool \<times> u8 list" where
  "nPut_loop dev avail line [] = (True, line)"
| "nPut_loop dev avail line (b # nb) =
     (let (c, line) = sio_write dev avail line b
      in if c \<noteq> length b then (False, line) else nPut_loop dev avail line nb)"

definition nPut :: "serial \<Rightarrow> PPPControl \<Rightarrow> ppp_env \<Rightarrow> u8 list list \<Rightarrow> PPPControl \<times> ppp_env" where
  "nPut dev pc e nb =
     (let (ok, line) = nPut_loop dev (streamAvail e) (line_out e) nb
      in (if ok then pc else pc\<lparr>lastXMit := 0\<rparr>, e\<lparr>line_out := line, o_pool := o_pool e + length nb\<rparr>))"

text \<open>
  The two functions that send; \<open>t0\<close> and \<open>t1\<close> are the two readings of the time.
\<close>

definition pppWrite :: "serial \<Rightarrow> u32 \<Rightarrow> u32 \<Rightarrow> PPPControl \<Rightarrow> ppp_env \<Rightarrow> u8 list \<Rightarrow> int \<times> PPPControl \<times> ppp_env" where
  "pppWrite dev t0 t1 pc e s =
     (if o_pool e = 0 then (PPPERR_ALLOC, pc, e)
      else
        let tailMB = (o_pool e - 1, [[]], True);
            tailMB = (if PPP_MAXIDLEFLAG \<le> t0 - lastXMit pc then pppAppend PPP_FLAG tailMB None else tailMB);
            pc = pc\<lparr>lastXMit := t1\<rparr>;
            (pool, headMB, ok) = put_trailer (outACCM pc) (put_bytes (outACCM pc) (ucast PPP_INITFCS, tailMB) s)
        in if \<not> ok then (PPPERR_ALLOC, pc, e\<lparr>o_pool := pool + length headMB\<rparr>)
           else (PPPERR_NONE, nPut dev pc (e\<lparr>o_pool := pool\<rparr>) headMB))"

text \<open>The header of an Internet packet, as the peer accepts it to be compressed.\<close>

definition ip_header :: "PPPControl \<Rightarrow> u8 list" where
  "ip_header pc =
     (if accomp pc then [] else [PPP_ALLSTATIONS, PPP_UI]) @
     (if \<not> pcomp pc \<or> 0xff < PPP_IP then [ucast (drop_bit 8 PPP_IP AND 0xff)] else []) @
     [ucast (PPP_IP AND 0xff)]"

definition pppifOutput ::
    "serial \<Rightarrow> u32 \<Rightarrow> u32 \<Rightarrow> phase \<Rightarrow> PPPControl \<Rightarrow> ppp_env \<Rightarrow> u8 list list option \<Rightarrow> int \<times> PPPControl \<times> ppp_env" where
  "pppifOutput dev t0 t1 lcp_phase pc e pb =
     (case pb of
        None \<Rightarrow> (ERR_ARG, pc, e)
      | Some pb \<Rightarrow>
        if \<not> openFlag pc then (ERR_ARG, pc, e)
        else if lcp_phase = PHASE_DEAD then (ERR_RTE, pc, e)
        else if o_pool e = 0 then (ERR_MEM, pc, e)
        else
          let tailMB = (o_pool e - 1, [[]], True);
              tailMB = (if PPP_MAXIDLEFLAG \<le> t0 - lastXMit pc then pppAppend PPP_FLAG tailMB None else tailMB);
              pc = pc\<lparr>lastXMit := t1\<rparr>;
              q = put_bytes (outACCM pc) (ucast PPP_INITFCS, tailMB) (ip_header pc);
              q = foldl (put_bytes (outACCM pc)) q pb;
              (pool, headMB, ok) = put_trailer (outACCM pc) q
          in if \<not> ok then (ERR_MEM, pc, e\<lparr>o_pool := pool + length headMB\<rparr>)
             else (ERR_OK, nPut dev pc (e\<lparr>o_pool := pool\<rparr>) headMB))"

section \<open>What is sent\<close>

text \<open>A frame: the bytes and their check sequence, escaped, and the closing flag.\<close>

definition escape :: "ext_accm \<Rightarrow> u8 list \<Rightarrow> u8 list" where
  "escape accm s = concat (map (\<lambda>c. if ESCAPE_P accm c then [PPP_ESCAPE, c XOR PPP_TRANS] else [c]) s)"

definition fcs_of :: "u8 list \<Rightarrow> u32" where
  "fcs_of s = foldl PPP_FCS (ucast PPP_INITFCS) s"

definition fcs_bytes :: "u32 \<Rightarrow> u8 list" where
  "fcs_bytes f = [ucast (NOT f AND 0xff), ucast (drop_bit 8 (NOT f) AND 0xff)]"

definition frame :: "ext_accm \<Rightarrow> u8 list \<Rightarrow> u8 list" where
  "frame accm s = escape accm (s @ fcs_bytes (fcs_of s)) @ [PPP_FLAG]"

definition idle_flag :: "u32 \<Rightarrow> PPPControl \<Rightarrow> u8 list" where
  "idle_flag t0 pc = (if PPP_MAXIDLEFLAG \<le> t0 - lastXMit pc then [PPP_FLAG] else [])"

lemma escape_simps [simp]:
  "escape accm [] = []"
  "escape accm (c # s) = (if ESCAPE_P accm c then [PPP_ESCAPE, c XOR PPP_TRANS] else [c]) @ escape accm s"
  "escape accm (s @ s') = escape accm s @ escape accm s'"
  by (simp_all add: escape_def)

lemma escape_length: "length (escape accm s) \<le> 2 * length s"
  by (induction s) simp_all

text \<open>
  The chain while a frame is built: every buffer but the last is full up to one byte, so that the chain
  has room for \<open>591\<close> bytes in every buffer it uses or can still get.
\<close>

definition outq_ok :: "outq \<Rightarrow> nat \<Rightarrow> u8 list \<Rightarrow> bool" where
  "outq_ok q n out \<longleftrightarrow> (case q of (pool, ch, ok) \<Rightarrow>
     ok \<and> pool + length ch = n \<and> ch \<noteq> [] \<and> concat ch = out \<and>
     (\<forall>b \<in> set (butlast ch). PBUF_POOL_BUFSIZE - 1 \<le> length b))"

lemma full_length: "\<forall>b \<in> set bs. k \<le> length b \<Longrightarrow> k * length bs \<le> length (concat bs)"
  by (induction bs) auto

lemma concat_append_tail: "ch \<noteq> [] \<Longrightarrow> concat (append_tail ch xs) = concat ch @ xs"
  unfolding append_tail_def by (induction ch rule: rev_induct) auto

lemma pppAppend_ok:
  assumes "outq_ok q n out" and "length out + 2 \<le> 591 * n"
  shows "outq_ok (pppAppend c q accm) n
    (out @ (if accm \<noteq> None \<and> ESCAPE_P (the accm) c then [PPP_ESCAPE, c XOR PPP_TRANS] else [c]))"
    (is "outq_ok _ _ (out @ ?xs)")
proof -
  obtain pool ch where q: "q = (pool, ch, True)"
    using assms(1) by (auto simp: outq_ok_def split: prod.splits)
  have h: "pool + length ch = n" "ch \<noteq> []" "concat ch = out" "\<forall>b \<in> set (butlast ch). 591 \<le> length b"
    using assms(1) by (auto simp: q outq_ok_def PBUF_POOL_BUFSIZE_def)
  show ?thesis
  proof (cases "PBUF_POOL_BUFSIZE - length (last ch) < 2")
    case True
    then have "591 \<le> length (last ch)"
      by (simp add: PBUF_POOL_BUFSIZE_def)
    moreover have "set ch = insert (last ch) (set (butlast ch))"
      using arg_cong [OF append_butlast_last_id [OF h(2)], of set] by auto
    ultimately have full: "\<forall>b \<in> set ch. 591 \<le> length b"
      using h(4) by auto
    then have "591 * length ch \<le> length out"
      using full_length [of ch 591] h(3) by simp
    then have "pool \<noteq> 0"
      using assms(2) h(1) by auto
    then have "pppAppend c q accm = (pool - 1, ch @ [?xs], True)"
      using True by (simp add: pppAppend_def q append_tail_def)
    moreover have "\<forall>b \<in> set (butlast (ch @ [?xs])). 591 \<le> length b"
      using full by simp
    ultimately show ?thesis
      using h \<open>pool \<noteq> 0\<close> by (simp add: outq_ok_def PBUF_POOL_BUFSIZE_def)
  next
    case False
    then have "pppAppend c q accm = (pool, append_tail ch ?xs, True)"
      by (simp add: pppAppend_def q)
    then show ?thesis
      using h concat_append_tail [OF h(2), of ?xs] by (simp add: outq_ok_def append_tail_def PBUF_POOL_BUFSIZE_def)
  qed
qed

lemma put_bytes_ok:
  "outq_ok q n out \<Longrightarrow> length out + length (escape accm s) + 2 \<le> 591 * n \<Longrightarrow>
    \<exists>q'. put_bytes accm (f, q) s = (foldl PPP_FCS f s, q') \<and> outq_ok q' n (out @ escape accm s)"
proof (induction s arbitrary: f q out)
  case (Cons c s)
  have "outq_ok (pppAppend c q (Some accm)) n (out @ (if ESCAPE_P accm c then [PPP_ESCAPE, c XOR PPP_TRANS] else [c]))"
    using pppAppend_ok [OF Cons.prems(1), of c "Some accm"] Cons.prems(2) by simp
  from Cons.IH [OF this, of "PPP_FCS f c"] Cons.prems(2) show ?case
    by simp
qed simp

lemma put_trailer_ok:
  assumes "outq_ok q n out" and "length out + 7 \<le> 591 * n"
  shows "outq_ok (put_trailer accm (f, q)) n (out @ escape accm (fcs_bytes f) @ [PPP_FLAG])"
proof -
  let ?a = "ucast (NOT f AND 0xff) :: u8" and ?b = "ucast (drop_bit 8 (NOT f) AND 0xff) :: u8"
  have e: "length (escape accm [?a]) \<le> 2" "length (escape accm [?b]) \<le> 2"
    using escape_length [of accm "[?a]"] escape_length [of accm "[?b]"] by simp_all
  have q1: "outq_ok (pppAppend ?a q (Some accm)) n (out @ escape accm [?a])"
    using pppAppend_ok [OF assms(1), of ?a "Some accm"] assms(2) by simp
  have q2: "outq_ok (pppAppend ?b (pppAppend ?a q (Some accm)) (Some accm)) n ((out @ escape accm [?a]) @ escape accm [?b])"
    using pppAppend_ok [OF q1, of ?b "Some accm"] assms(2) e(1) by simp
  show ?thesis
    using pppAppend_ok [OF q2, of PPP_FLAG None] assms(2) e by (simp add: put_trailer_def fcs_bytes_def)
qed

text \<open>A device that sends everything.\<close>

definition perfect :: "serial \<Rightarrow> bool" where
  "perfect dev \<longleftrightarrow> (\<forall>line data. dev line data = (True, data))"

lemma nPut_perfect:
  "perfect dev \<Longrightarrow> nPut_loop dev True line nb = (True, line @ concat nb)"
  by (induction nb arbitrary: line) (simp_all add: sio_write_def perfect_def)

lemma start_ok:
  assumes "0 < pool"
  shows "outq_ok (if b then pppAppend PPP_FLAG (pool - 1, [[]], True) None else (pool - 1, [[]], True)) pool
    (if b then [PPP_FLAG] else [])"
proof -
  have "outq_ok (pool - 1, [[]], True) pool []"
    using assms by (simp add: outq_ok_def)
  moreover from this have "outq_ok (pppAppend PPP_FLAG (pool - 1, [[]], True) None) pool [PPP_FLAG]"
    using pppAppend_ok [of "(pool - 1, [[]], True)" pool "[]" PPP_FLAG None] assms by simp
  ultimately show ?thesis
    by simp
qed

lemma frame_of_outq:
  assumes "outq_ok q n pre" and "length pre + length (frame accm s) + 9 \<le> 591 * n"
  shows "\<exists>pool ch. put_trailer accm (put_bytes accm (ucast PPP_INITFCS, q) s) = (pool, ch, True) \<and>
    pool + length ch = n \<and> concat ch = pre @ frame accm s"
proof -
  have l: "length (frame accm s) \<ge> length (escape accm s) + 1"
    by (simp add: frame_def)
  from put_bytes_ok [OF assms(1), of accm s "ucast PPP_INITFCS"] assms(2) l obtain q' where
    q': "put_bytes accm (ucast PPP_INITFCS, q) s = (fcs_of s, q')" "outq_ok q' n (pre @ escape accm s)"
    by (auto simp: fcs_of_def)
  have "outq_ok (put_trailer accm (fcs_of s, q')) n ((pre @ escape accm s) @ escape accm (fcs_bytes (fcs_of s)) @ [PPP_FLAG])"
    using put_trailer_ok [OF q'(2)] assms(2) l by simp
  then show ?thesis
    by (auto simp: q' outq_ok_def frame_def)
qed

lemma put_bytes_append: "put_bytes accm q (s @ s') = put_bytes accm (put_bytes accm q s) s'"
  by (induction accm q s rule: put_bytes.induct) simp_all

lemma put_bytes_concat: "foldl (put_bytes accm) q pb = put_bytes accm q (concat pb)"
proof (induction pb arbitrary: q)
  case Nil
  then show ?case
    by (cases q) simp
qed (simp add: put_bytes_append)

lemma pppWrite_sends:
  assumes "perfect dev" and "streamAvail e" and "length (frame (outACCM pc) s) + 10 \<le> 591 * o_pool e"
  shows "pppWrite dev t0 t1 pc e s = (PPPERR_NONE, pc\<lparr>lastXMit := t1\<rparr>,
    e\<lparr>line_out := line_out e @ idle_flag t0 pc @ frame (outACCM pc) s\<rparr>)"
proof -
  have p: "0 < o_pool e"
    using assms(3) by (cases "o_pool e") simp_all
  let ?b = "PPP_MAXIDLEFLAG \<le> t0 - lastXMit pc"
  note s = start_ok [OF p, of ?b]
  have "length (if ?b then [PPP_FLAG] else []) + length (frame (outACCM pc) s) + 9 \<le> 591 * o_pool e"
    using assms(3) by simp
  from frame_of_outq [OF s this] obtain pool ch where
    "put_trailer (outACCM pc) (put_bytes (outACCM pc) (ucast PPP_INITFCS,
      if ?b then pppAppend PPP_FLAG (o_pool e - 1, [[]], True) None else (o_pool e - 1, [[]], True)) s) = (pool, ch, True)"
    "pool + length ch = o_pool e" "concat ch = idle_flag t0 pc @ frame (outACCM pc) s"
    unfolding idle_flag_def by blast
  then show ?thesis
    using p assms(2) by (cases ?b) (simp_all add: pppWrite_def Let_def nPut_def nPut_perfect [OF assms(1)])
qed

lemma pppifOutput_sends:
  assumes "perfect dev" and "streamAvail e" and "openFlag pc" and "phase \<noteq> PHASE_DEAD"
    and "length (frame (outACCM pc) (ip_header pc @ concat pb)) + 10 \<le> 591 * o_pool e"
  shows "pppifOutput dev t0 t1 phase pc e (Some pb) = (ERR_OK, pc\<lparr>lastXMit := t1\<rparr>,
    e\<lparr>line_out := line_out e @ idle_flag t0 pc @ frame (outACCM pc) (ip_header pc @ concat pb)\<rparr>)"
proof -
  have p: "0 < o_pool e"
    using assms(5) by (cases "o_pool e") simp_all
  let ?b = "PPP_MAXIDLEFLAG \<le> t0 - lastXMit pc"
  note s = start_ok [OF p, of ?b]
  have h: "ip_header (pc\<lparr>lastXMit := t1\<rparr>) = ip_header pc"
    by (simp add: ip_header_def)
  have "length (if ?b then [PPP_FLAG] else []) + length (frame (outACCM pc) (ip_header pc @ concat pb)) + 9 \<le> 591 * o_pool e"
    using assms(5) by simp
  from frame_of_outq [OF s this] obtain pool ch where
    "put_trailer (outACCM pc) (put_bytes (outACCM pc) (ucast PPP_INITFCS,
      if ?b then pppAppend PPP_FLAG (o_pool e - 1, [[]], True) None else (o_pool e - 1, [[]], True)) (ip_header pc @ concat pb)) =
      (pool, ch, True)"
    "pool + length ch = o_pool e" "concat ch = idle_flag t0 pc @ frame (outACCM pc) (ip_header pc @ concat pb)"
    unfolding idle_flag_def by blast
  then show ?thesis
    using p assms(2-4)
    by (cases ?b) (simp_all add: pppifOutput_def Let_def nPut_def nPut_perfect [OF assms(1)] put_bytes_concat put_bytes_append [symmetric] h)
qed

section \<open>The character maps, bit by bit\<close>

lemma mask_nth: "k < 8 \<Longrightarrow> pppACCMMask ! k = push_bit k 1"
  by (auto simp: pppACCMMask_def less_Suc_eq numeral_eq_Suc)

lemma and_push_one: "(x :: u8) AND push_bit k 1 \<noteq> 0 \<longleftrightarrow> bit x k"
proof
  assume a: "x AND push_bit k 1 \<noteq> 0"
  show "bit x k"
  proof (rule ccontr)
    assume "\<not> bit x k"
    then have "x AND push_bit k 1 = 0"
      by (intro bit_word_eqI) (auto simp: bit_and_iff bit_push_bit_iff bit_1_iff le_antisym simp del: push_bit_of_1)
    with a show False
      by simp
  qed
next
  assume b: "bit x k"
  then have "bit (x AND push_bit k 1) k"
    using bit_u8_less [OF b] by (simp only: bit_and_iff bit_push_bit_iff bit_1_iff possible_bit_word) simp
  then show "x AND push_bit k 1 \<noteq> 0"
    by (metis bit_0_eq bot_apply bot_bool_def)
qed

lemma ESCAPE_P_bit: "ESCAPE_P accm c \<longleftrightarrow> bit (accm ! (unat c div 8)) (unat c mod 8)"
proof -
  have "unat (drop_bit 3 c) = unat c div 8" "unat (c AND 7) = unat c mod 8"
    by (simp_all add: unat_div unat_mod drop_bit_eq_div take_bit_eq_mod
      flip: take_bit_eq_mask [of 3 c, simplified mask_eq_exp_minus_1, simplified])
  moreover have "pppACCMMask ! (unat c mod 8) = push_bit (unat c mod 8) 1"
    by (rule mask_nth) simp
  ultimately show ?thesis
    by (simp only: ESCAPE_P_def and_push_one)
qed

lemma init_accm_bit: "i < 32 \<Longrightarrow> bit (init_accm ! i) k \<longleftrightarrow> i = 15 \<and> (k = 5 \<or> k = 6)"
proof -
  assume i: "i < 32"
  have "bit (0x60 :: u8) k \<longleftrightarrow> k = 5 \<or> k = 6"
    by (cases k; cases "k - 1"; cases "k - 2"; cases "k - 3"; cases "k - 4"; cases "k - 5"; cases "k - 6")
      (auto simp: bit_simps)
  with i show ?thesis
    by (simp add: init_accm_def nth_list_update)
qed

lemma u8_index: "unat (c :: u8) div 8 < 32"
  using unat_u8_less [of c] by (simp add: less_mult_imp_div_less)

lemma special_index: "unat (c :: u8) div 8 = 15 \<and> (unat c mod 8 = 5 \<or> unat c mod 8 = 6) \<longleftrightarrow> c = PPP_ESCAPE \<or> c = PPP_FLAG"
proof -
  have "unat c div 8 = 15 \<and> (unat c mod 8 = 5 \<or> unat c mod 8 = 6) \<longleftrightarrow> unat c = 125 \<or> unat c = 126"
    by presburger
  then show ?thesis
    by (simp add: PPP_ESCAPE_def PPP_FLAG_def word_unat_eq_iff)
qed

lemma ESCAPE_P_load:
  assumes "\<forall>i < 4. \<forall>k < 8. bit (f i) k \<longleftrightarrow> bit m (8 * i + k)"
  shows "ESCAPE_P (map f [0 ..< 4] @ drop 4 init_accm) c \<longleftrightarrow>
    (unat c < 32 \<and> bit (m :: u32) (unat c)) \<or> c = PPP_ESCAPE \<or> c = PPP_FLAG"
proof (cases "unat c < 32")
  case True
  then have i: "unat c div 8 < 4" "8 * (unat c div 8) + unat c mod 8 = unat c"
    by simp_all
  have "c \<noteq> PPP_ESCAPE" "c \<noteq> PPP_FLAG"
    using True by (auto simp: PPP_ESCAPE_def PPP_FLAG_def)
  moreover have "(map f [0 ..< 4] @ drop 4 init_accm) ! (unat c div 8) = f (unat c div 8)"
    using i(1) by (simp only: nth_append length_map length_upt nth_map_upt) simp
  moreover have "bit (f (unat c div 8)) (unat c mod 8) \<longleftrightarrow> bit m (8 * (unat c div 8) + unat c mod 8)"
    using assms i(1) by simp
  ultimately show ?thesis
    using True by (simp only: ESCAPE_P_bit i(2)) simp
next
  case False
  then have i: "\<not> unat c div 8 < 4"
    by simp
  have "(map f [0 ..< 4] @ drop 4 init_accm) ! (unat c div 8) = drop 4 init_accm ! (unat c div 8 - 4)"
    using i by (simp only: nth_append length_map length_upt) simp
  also have "\<dots> = init_accm ! (unat c div 8)"
    using i u8_index [of c] by (subst nth_drop) (simp_all add: init_accm_def)
  finally show ?thesis
    using False special_index [of c] by (simp only: ESCAPE_P_bit init_accm_bit [OF u8_index]) simp
qed

lemma ESCAPE_P_send: "ESCAPE_P (load_accm m init_accm) c \<longleftrightarrow> (unat c < 32 \<and> bit m (unat c)) \<or> c = PPP_ESCAPE \<or> c = PPP_FLAG"
  unfolding load_accm_def by (rule ESCAPE_P_load) (auto simp: bit_simps byte_masks)

text \<open>
  The map of a receiver is compatible with that of the sender: the sender escapes every character the
  receiver does not take as it is, and an escaped character is one the receiver takes.
\<close>

definition accm_ok :: "ext_accm \<Rightarrow> ext_accm \<Rightarrow> bool" where
  "accm_ok out inn \<longleftrightarrow> (\<forall>c. ESCAPE_P inn c \<longrightarrow> ESCAPE_P out c) \<and>
     (\<forall>c. ESCAPE_P out c \<longrightarrow> \<not> ESCAPE_P inn (c XOR PPP_TRANS)) \<and> ESCAPE_P inn PPP_ESCAPE \<and> ESCAPE_P inn PPP_FLAG"

lemma trans_control:
  assumes "unat (c :: u8) < 32"
  shows "unat (c XOR PPP_TRANS) = unat c + 32"
proof -
  have "c AND PPP_TRANS = 0"
  proof (rule bit_word_eqI)
    fix n
    have "\<not> bit c 5"
    proof
      assume "bit c 5"
      then have "take_bit 5 c \<noteq> c"
        by (metis bit_take_bit_iff less_irrefl)
      moreover have "take_bit 5 c = c"
        using assms by (simp add: word_unat_eq_iff unat_mod take_bit_eq_mod)
      ultimately show False
        by simp
    qed
    moreover have "bit (0x20 :: u8) n \<longleftrightarrow> n = 5"
      by (cases n; cases "n - 1"; cases "n - 2"; cases "n - 3"; cases "n - 4"; cases "n - 5") (auto simp: bit_simps)
    ultimately show "bit (c AND PPP_TRANS) n \<longleftrightarrow> bit 0 n"
      by (auto simp: PPP_TRANS_def bit_and_iff)
  qed
  then have "c XOR PPP_TRANS = c + PPP_TRANS"
    by (simp add: disjunctive_add_eq_xor)
  then show ?thesis
    using assms by (simp add: PPP_TRANS_def unat_word_ariths)
qed

lemma accm_ok_configured:
  assumes "\<forall>c. ESCAPE_P inn c \<longleftrightarrow> (unat c < 32 \<and> bit b (unat c)) \<or> c = PPP_ESCAPE \<or> c = PPP_FLAG" and "b AND NOT a = 0"
  shows "accm_ok (load_accm a init_accm) inn"
proof -
  have sub: "bit a n" if "bit (b :: u32) n" for n
    using arg_cong [OF assms(2), of "\<lambda>x. bit x n"] that bit_imp_le_length [OF that] by (simp add: bit_simps)
  have "\<not> ESCAPE_P inn (c XOR PPP_TRANS)" if c: "ESCAPE_P (load_accm a init_accm) c" for c
  proof -
    have "unat (c XOR PPP_TRANS) = unat c + 32 \<and> unat c < 32 \<or> unat (c XOR PPP_TRANS) = 93 \<or> unat (c XOR PPP_TRANS) = 94"
      using c trans_control [of c] by (auto simp: ESCAPE_P_send PPP_ESCAPE_def PPP_FLAG_def PPP_TRANS_def)
    then show ?thesis
      using assms(1) by (auto simp: PPP_ESCAPE_def PPP_FLAG_def word_unat_eq_iff)
  qed
  then show ?thesis
    using assms(1) sub by (auto simp: accm_ok_def ESCAPE_P_send)
qed

section \<open>The check sequence detects the change of a byte\<close>

lemma fcstab_high_distinct: "distinct (map (\<lambda>x. unat (drop_bit 8 x)) fcstab)"
  unfolding fcstab_def by (simp only: list.map) simp

lemma fcs_index: "unat ((f XOR ucast (c :: u8)) AND 0xff :: u32) < length fcstab"
proof -
  have "unat ((f XOR ucast c) AND 0xff :: u32) < 256"
    using unat_u8_less [of "ucast ((f XOR ucast c) AND 0xff)"]
    by (simp add: byte_masks take_bit_eq_mod unat_mod flip: take_bit_eq_mask)
  then show ?thesis
    by (simp add: fcstab_def)
qed

lemma low_high_eq: "f AND 0xff = g AND 0xff \<Longrightarrow> drop_bit 8 f = drop_bit 8 g \<Longrightarrow> f = (g :: u32)"
proof (rule bit_word_eqI)
  fix n
  assume l: "f AND 0xff = g AND 0xff" and h: "drop_bit 8 f = drop_bit 8 g"
  have ff: "bit (0xff :: u32) k \<longleftrightarrow> k < 8" for k
    by (simp only: byte_masks(3) bit_mask_iff possible_bit_word) auto
  show "bit f n \<longleftrightarrow> bit g n"
  proof (cases "n < 8")
    case True
    with arg_cong [OF l, of "\<lambda>x. bit x n"] show ?thesis
      by (simp add: bit_and_iff ff del: bit_numeral_word_iff)
  next
    case False
    with arg_cong [OF h, of "\<lambda>x. bit x (n - 8)"] show ?thesis
      by (simp add: bit_drop_bit_eq)
  qed
qed

lemma xor_cancel: "a XOR t = b XOR t \<Longrightarrow> a = (b :: u32)"
proof -
  assume "a XOR t = b XOR t"
  then have "(a XOR t) XOR t = (b XOR t) XOR t"
    by (rule arg_cong)
  then show ?thesis
    by (simp add: xor.assoc)
qed

lemma PPP_FCS_index:
  assumes "drop_bit 16 f = 0" and "drop_bit 16 g = 0" and "PPP_FCS f c = PPP_FCS g d"
  shows "drop_bit 8 f = drop_bit 8 g \<and> (f XOR ucast c) AND 0xff = (g XOR ucast d) AND 0xff"
proof -
  let ?i = "\<lambda>f c. unat ((f XOR ucast (c :: u8)) AND 0xff :: u32)"
  have h: "drop_bit 8 (PPP_FCS f c) = ucast (drop_bit 8 (fcstab ! ?i f c))" if "drop_bit 16 f = 0" for f c
  proof -
    have "drop_bit 8 (drop_bit 8 f) = 0"
      using that by (simp add: drop_bit_drop_bit)
    then have "drop_bit 8 (PPP_FCS f c) = drop_bit 8 (ucast (fcstab ! ?i f c))"
      by (simp add: PPP_FCS_def drop_bit_xor)
    also have "\<dots> = ucast (drop_bit 8 (fcstab ! ?i f c))"
      by (rule bit_word_eqI) (auto simp: bit_drop_bit_eq bit_ucast_iff dest: bit_u16_less)
    finally show ?thesis .
  qed
  have "ucast (drop_bit 8 (fcstab ! ?i f c)) = (ucast (drop_bit 8 (fcstab ! ?i g d)) :: u32)"
    using h [OF assms(1), of c] h [OF assms(2), of d] assms(3) by simp
  then have "unat (drop_bit 8 (fcstab ! ?i f c)) = unat (drop_bit 8 (fcstab ! ?i g d))"
    by (metis unat_ucast_u16_u32)
  then have "map (\<lambda>x. unat (drop_bit 8 x)) fcstab ! ?i f c = map (\<lambda>x. unat (drop_bit 8 x)) fcstab ! ?i g d"
    using fcs_index by simp
  then have i: "?i f c = ?i g d"
    using nth_eq_iff_index_eq [OF fcstab_high_distinct, unfolded length_map, OF fcs_index fcs_index] by blast
  have "drop_bit 8 f = drop_bit 8 g"
    using assms(3) unfolding PPP_FCS_def i by (rule xor_cancel)
  with i show ?thesis
    by (simp only: unsigned_word_eqI [of "(f XOR ucast c) AND 0xff" "(g XOR ucast d) AND 0xff"])
qed

lemma PPP_FCS_inj_fcs:
  assumes "drop_bit 16 f = 0" and "drop_bit 16 g = 0" and "PPP_FCS f c = PPP_FCS g c"
  shows "f = g"
proof -
  note i = PPP_FCS_index [OF assms]
  then have "((f XOR ucast c) AND 0xff) XOR (ucast c AND 0xff) = ((g XOR ucast c) AND 0xff) XOR (ucast c AND 0xff)"
    by simp
  then have "f AND 0xff = g AND 0xff"
    by (simp only: bit.conj_xor_distrib2 [symmetric] xor.assoc) simp
  with i show ?thesis
    using low_high_eq by blast
qed

lemma PPP_FCS_inj_char:
  assumes "drop_bit 16 f = 0" and "PPP_FCS f c = PPP_FCS f d"
  shows "c = d"
proof -
  have "(f AND 0xff) XOR ((f XOR ucast c) AND 0xff) = (f AND 0xff) XOR ((f XOR ucast d) AND 0xff)"
    using PPP_FCS_index [OF assms(1,1,2)] by simp
  then have "ucast c AND (0xff :: u32) = ucast d AND 0xff"
    by (simp only: bit.conj_xor_distrib2 [symmetric] xor.assoc [symmetric]) simp
  moreover have "ucast (x :: u8) AND (0xff :: u32) = ucast x" for x
    by (rule bit_word_eqI) (auto simp: bit_and_iff bit_ucast_iff byte_masks(3) bit_mask_iff dest: bit_u8_less)
  ultimately have "ucast c = (ucast d :: u32)"
    by simp
  then show ?thesis
    by (metis unat_ucast_u8_u32 word_unat_eq_iff)
qed

lemma PPP_FCS_small: "drop_bit 16 f = 0 \<Longrightarrow> drop_bit 16 (PPP_FCS f c) = 0"
  unfolding PPP_FCS_def
proof (rule bit_word_eqI)
  fix n
  assume f: "drop_bit 16 f = 0"
  have b: "\<not> bit f (k + 16)" for k
    using arg_cong [OF f, of "\<lambda>x. bit x k"] by (simp add: bit_drop_bit_eq add.commute)
  have "\<not> bit (fcstab ! i) (16 + n)" for i
    using bit_u16_less [of "fcstab ! i" "16 + n"] by auto
  then show "bit (drop_bit 16 (drop_bit 8 f XOR ucast (fcstab ! unat ((f XOR ucast c) AND 0xff)))) n \<longleftrightarrow> bit 0 n"
    using b [of "n + 8"] by (simp add: bit_drop_bit_eq bit_xor_iff bit_ucast_iff algebra_simps)
qed

lemma FCS_fold_small: "drop_bit 16 f = 0 \<Longrightarrow> drop_bit 16 (foldl PPP_FCS f s) = 0"
  by (induction s arbitrary: f) (simp_all add: PPP_FCS_small)

lemma FCS_fold_inj:
  "drop_bit 16 f = 0 \<Longrightarrow> drop_bit 16 g = 0 \<Longrightarrow> foldl PPP_FCS f s = foldl PPP_FCS g s \<Longrightarrow> f = g"
proof (induction s arbitrary: f g)
  case (Cons c s)
  then have "PPP_FCS f c = PPP_FCS g c"
    by (simp add: PPP_FCS_small)
  with Cons.prems(1,2) show ?case
    by (rule PPP_FCS_inj_fcs)
qed simp

lemma FCS_fold_update:
  assumes "drop_bit 16 f = 0" and "i < length s" and "v \<noteq> s ! i"
  shows "foldl PPP_FCS f (s[i := v]) \<noteq> foldl PPP_FCS f s"
proof
  assume a: "foldl PPP_FCS f (s[i := v]) = foldl PPP_FCS f s"
  define g where "g = foldl PPP_FCS f (take i s)"
  have g: "drop_bit 16 g = 0"
    unfolding g_def by (rule FCS_fold_small [OF assms(1)])
  have "s[i := v] = take i s @ v # drop (Suc i) s" "s = take i s @ s ! i # drop (Suc i) s"
    using assms(2) by (simp_all add: upd_conv_take_nth_drop id_take_nth_drop)
  with a have "foldl PPP_FCS (PPP_FCS g v) (drop (Suc i) s) = foldl PPP_FCS (PPP_FCS g (s ! i)) (drop (Suc i) s)"
    by (metis foldl_append foldl_Cons g_def)
  then have "PPP_FCS g v = PPP_FCS g (s ! i)"
    using FCS_fold_inj PPP_FCS_small [OF g] by blast
  then show False
    using PPP_FCS_inj_char [OF g] assms(3) by blast
qed

end
