(* ===== verification/Ppp_Input.thy ===== *)
theory Ppp_Input
  imports Ppp_Frame
begin

text \<open>
  Receiving PPP frames from the serial line (\<open>lwip/netif/ppp/ppp.c\<close>): the state machine \<open>pppInProc\<close> that
  decodes the bytes into chains of pool buffers, and \<open>pppInput\<close>, which hands a packet to its protocol.

  The record \<open>PPPControlRx\<close> has the fields of the C structure; \<open>rx_pool\<close> is the number of free pool
  buffers and \<open>rx_posted\<close> the packets handed to the network thread. \<open>None\<close> is a dereferenced null pointer.
  The argument \<open>post\<close> says whether the network thread's queue takes a packet after those posted so far.
\<close>

unbundle bit_operations_syntax

datatype PPPDevStates = PDIDLE | PDSTART | PDADDRESS | PDCONTROL | PDPROTOCOL1 | PDPROTOCOL2 | PDDATA

fun pd_num :: "PPPDevStates \<Rightarrow> nat" where
  "pd_num PDIDLE = 0"
| "pd_num PDSTART = 1"
| "pd_num PDADDRESS = 2"
| "pd_num PDCONTROL = 3"
| "pd_num PDPROTOCOL1 = 4"
| "pd_num PDPROTOCOL2 = 5"
| "pd_num PDDATA = 6"

text \<open>
  A buffer: its length, the input header (unit and protocol) at the start of the first buffer of a
  packet, and the characters stored after it. The total lengths of a chain are the sums of the lengths.
\<close>

record pbuf =
  pb_len :: nat
  pb_hdr :: "(int \<times> u16) option"
  pb_data :: "u8 list"

definition INPUT_HEADER :: nat where
  "INPUT_HEADER = 8"

definition tot_len :: "pbuf list \<Rightarrow> nat" where
  "tot_len p = sum_list (map pb_len p)"

text \<open>The pointer \<open>inTail\<close>: null, the buffer \<open>inHead\<close> points to, or a buffer not yet in the chain.\<close>

datatype intail = NoTail | HeadTail | OwnTail pbuf

record PPPControlRx =
  rx_pd :: int
  inHead :: "pbuf list"
  inTail :: intail
  inProtocol :: u16
  inFCS :: u16
  inState :: PPPDevStates
  inEscaped :: bool
  inACCM :: ext_accm
  rx_pool :: nat
  rx_posted :: "pbuf list list"

definition ppp_recv_config :: "u32 \<Rightarrow> PPPControlRx \<Rightarrow> PPPControlRx" where
  "ppp_recv_config asyncmap rx =
     rx\<lparr>inACCM := map (\<lambda>i. ucast (drop_bit (8 * i) asyncmap)) [0 ..< 4] @ drop 4 (inACCM rx)\<rparr>"

section \<open>The state machine\<close>

definition pppDrop :: "PPPControlRx \<Rightarrow> PPPControlRx" where
  "pppDrop rx =
     (if inHead rx = [] then rx
      else
        let n = (case inTail rx of OwnTail t \<Rightarrow> 1 | _ \<Rightarrow> 0)
        in rx\<lparr>rx_pool := rx_pool rx + n + length (inHead rx), inHead := [], inTail := NoTail\<rparr>)"

text \<open>Shrinking a chain; the second component is the number of buffers freed.\<close>

fun realloc_loop :: "pbuf list \<Rightarrow> nat \<Rightarrow> pbuf list \<times> nat" where
  "realloc_loop [] rem_len = ([], 0)"
| "realloc_loop (q # p) rem_len =
     (if pb_len q < rem_len
      then let (p', n) = realloc_loop p (rem_len - pb_len q) in (q # p', n)
      else ([q\<lparr>pb_len := rem_len\<rparr>], length p))"

definition pbuf_realloc :: "pbuf list \<Rightarrow> nat \<Rightarrow> pbuf list \<times> nat" where
  "pbuf_realloc p new_len = (if tot_len p \<le> new_len then (p, 0) else realloc_loop p new_len)"

definition shrink2 :: "pbuf \<Rightarrow> pbuf" where
  "shrink2 b = b\<lparr>pb_len := pb_len b - 2\<rparr>"

text \<open>Taking the check sequence off a good packet: the chain and the number of buffers freed.\<close>

definition trim_fcs :: "PPPControlRx \<Rightarrow> (pbuf list \<times> nat) option" where
  "trim_fcs rx =
     (case inTail rx of
        NoTail \<Rightarrow> None
      | HeadTail \<Rightarrow>
          (case inHead rx of
             [] \<Rightarrow> None
           | b # bs \<Rightarrow>
               if 2 \<le> pb_len b then Some (shrink2 b # bs, 0)
               else Some (pbuf_realloc (b # bs) ((tot_len (b # bs) + 65534) mod 65536)))
      | OwnTail t \<Rightarrow>
          if 2 \<le> pb_len t then Some (inHead rx @ [shrink2 t], 0)
          else let p = inHead rx @ [t] in Some (pbuf_realloc p ((tot_len p + 65534) mod 65536)))"

text \<open>A flag character that ends a frame or is an extra one.\<close>

definition rx_flag :: "(pbuf list list \<Rightarrow> bool) \<Rightarrow> PPPControlRx \<Rightarrow> PPPControlRx option" where
  "rx_flag post rx =
     (let done = (\<lambda>rx. rx\<lparr>inFCS := PPP_INITFCS, inState := PDADDRESS, inEscaped := False\<rparr>)
      in if pd_num (inState rx) \<le> pd_num PDADDRESS then Some (done rx)
         else if pd_num (inState rx) < pd_num PDDATA then Some (done (pppDrop rx))
         else if inFCS rx \<noteq> PPP_GOODFCS then Some (done (pppDrop rx))
         else
           (case trim_fcs rx of
              None \<Rightarrow> None
            | Some (inp, freed) \<Rightarrow>
                let rx = rx\<lparr>inHead := [], inTail := NoTail, rx_pool := rx_pool rx + freed\<rparr>
                in if post (rx_posted rx) then Some (done (rx\<lparr>rx_posted := rx_posted rx @ [inp]\<rparr>))
                   else Some (done (rx\<lparr>rx_pool := rx_pool rx + length inp\<rparr>))))"

text \<open>Storing a data byte.\<close>

definition store :: "u8 \<Rightarrow> pbuf \<Rightarrow> pbuf" where
  "store c b = b\<lparr>pb_len := pb_len b + 1, pb_data := pb_data b @ [c]\<rparr>"

definition tail_len :: "PPPControlRx \<Rightarrow> nat" where
  "tail_len rx = (case inTail rx of NoTail \<Rightarrow> 0 | HeadTail \<Rightarrow> pb_len (hd (inHead rx)) | OwnTail t \<Rightarrow> pb_len t)"

definition load_char :: "u8 \<Rightarrow> PPPControlRx \<Rightarrow> PPPControlRx" where
  "load_char c rx =
     (case inTail rx of
        NoTail \<Rightarrow> rx
      | HeadTail \<Rightarrow> rx\<lparr>inHead := store c (hd (inHead rx)) # tl (inHead rx)\<rparr>
      | OwnTail t \<Rightarrow> rx\<lparr>inTail := OwnTail (store c t)\<rparr>)"

definition new_tail :: "PPPControlRx \<Rightarrow> PPPControlRx" where
  "new_tail rx =
     (if inHead rx = []
      then rx\<lparr>inHead := [\<lparr>pb_len = INPUT_HEADER, pb_hdr = Some (rx_pd rx, inProtocol rx), pb_data = []\<rparr>], inTail := HeadTail\<rparr>
      else rx\<lparr>inTail := OwnTail \<lparr>pb_len = 0, pb_hdr = None, pb_data = []\<rparr>\<rparr>)"

definition rx_data :: "u8 \<Rightarrow> PPPControlRx \<Rightarrow> PPPControlRx" where
  "rx_data c rx =
     (if inTail rx = NoTail \<or> tail_len rx = PBUF_POOL_BUFSIZE
      then
        let rx = (case inTail rx of OwnTail t \<Rightarrow> rx\<lparr>inHead := inHead rx @ [t], inTail := NoTail\<rparr> | _ \<Rightarrow> rx)
        in if rx_pool rx = 0 then (pppDrop rx)\<lparr>inState := PDSTART\<rparr>
           else load_char c (new_tail (rx\<lparr>rx_pool := rx_pool rx - 1\<rparr>))
      else load_char c rx)"

text \<open>The cases of the switch, with their falling through.\<close>

definition rx_protocol1 :: "u8 \<Rightarrow> PPPControlRx \<Rightarrow> PPPControlRx" where
  "rx_protocol1 c rx =
     (if c AND 1 \<noteq> 0 then rx\<lparr>inProtocol := ucast c, inState := PDDATA\<rparr>
      else rx\<lparr>inProtocol := push_bit 8 (ucast c), inState := PDPROTOCOL2\<rparr>)"

definition rx_control :: "u8 \<Rightarrow> PPPControlRx \<Rightarrow> PPPControlRx" where
  "rx_control c rx = (if c = PPP_UI then rx\<lparr>inState := PDPROTOCOL1\<rparr> else rx_protocol1 c rx)"

definition rx_address :: "u8 \<Rightarrow> PPPControlRx \<Rightarrow> PPPControlRx" where
  "rx_address c rx = (if c = PPP_ALLSTATIONS then rx\<lparr>inState := PDCONTROL\<rparr> else rx_control c rx)"

fun rx_switch :: "PPPDevStates \<Rightarrow> u8 \<Rightarrow> PPPControlRx \<Rightarrow> PPPControlRx" where
  "rx_switch PDIDLE c rx = (if c \<noteq> PPP_ALLSTATIONS then rx else rx_address c (rx\<lparr>inFCS := PPP_INITFCS\<rparr>))"
| "rx_switch PDSTART c rx = rx_address c (rx\<lparr>inFCS := PPP_INITFCS\<rparr>)"
| "rx_switch PDADDRESS c rx = rx_address c rx"
| "rx_switch PDCONTROL c rx = rx_control c rx"
| "rx_switch PDPROTOCOL1 c rx = rx_protocol1 c rx"
| "rx_switch PDPROTOCOL2 c rx = rx\<lparr>inProtocol := inProtocol rx OR ucast c, inState := PDDATA\<rparr>"
| "rx_switch PDDATA c rx = rx_data c rx"

definition rx_byte :: "u8 \<Rightarrow> PPPControlRx \<Rightarrow> PPPControlRx" where
  "rx_byte c rx =
     (let rx = rx_switch (inState rx) c rx
      in rx\<lparr>inFCS := ucast (PPP_FCS (ucast (inFCS rx)) c)\<rparr>)"

definition rx_char :: "(pbuf list list \<Rightarrow> bool) \<Rightarrow> u8 \<Rightarrow> PPPControlRx \<Rightarrow> PPPControlRx option" where
  "rx_char post c rx =
     (if ESCAPE_P (inACCM rx) c
      then if c = PPP_ESCAPE then Some (rx\<lparr>inEscaped := True\<rparr>)
        else if c = PPP_FLAG then rx_flag post rx
        else Some rx
      else if inEscaped rx then Some (rx_byte (c XOR PPP_TRANS) (rx\<lparr>inEscaped := False\<rparr>))
      else Some (rx_byte c rx))"

fun pppInProc :: "(pbuf list list \<Rightarrow> bool) \<Rightarrow> PPPControlRx \<Rightarrow> u8 list \<Rightarrow> PPPControlRx option" where
  "pppInProc post rx [] = Some rx"
| "pppInProc post rx (c # s) = (case rx_char post c rx of None \<Rightarrow> None | Some rx \<Rightarrow> pppInProc post rx s)"

section \<open>The check sequence of a good frame\<close>

lemma small_ucast: "drop_bit 16 (f :: u32) = 0 \<Longrightarrow> ucast (ucast f :: u16) = f"
proof (rule bit_word_eqI)
  fix n
  assume f: "drop_bit 16 f = 0"
  have b: "\<not> bit f (k + 16)" for k
    using arg_cong [OF f, of "\<lambda>x. bit x k"] by (simp add: bit_drop_bit_eq add.commute)
  then have "bit f n \<Longrightarrow> n < 16"
    using le_Suc_ex [of 16 n] by (metis add.commute not_less)
  then show "bit (ucast (ucast f :: u16) :: u32) n \<longleftrightarrow> bit f n"
    using bit_imp_le_length [of f n] by (auto simp: bit_ucast_iff)
qed

lemma INITFCS_small: "drop_bit 16 (ucast PPP_INITFCS :: u32) = 0"
  by (simp add: PPP_INITFCS_def)

lemma fcs_of_small: "drop_bit 16 (fcs_of s) = 0"
  unfolding fcs_of_def by (rule FCS_fold_small [OF INITFCS_small])

lemma good_fcs:
  assumes "drop_bit 16 f = 0"
  shows "foldl PPP_FCS f (fcs_bytes f) = ucast PPP_GOODFCS"
proof -
  have b: "\<not> bit f (k + 16)" for k
    using arg_cong [OF assms, of "\<lambda>x. bit x k"] by (simp add: bit_drop_bit_eq add.commute)
  have ff: "bit (0xff :: u32) n \<longleftrightarrow> n < 8" for n
    by (simp only: byte_masks(3) bit_mask_iff possible_bit_word) auto
  have "(f XOR ucast (ucast (NOT f AND 0xff) :: u8)) AND 0xff = 0xff"
    by (rule bit_word_eqI) (auto simp: bit_and_iff bit_xor_iff bit_not_iff bit_ucast_iff bit_drop_bit_eq ff simp del: bit_numeral_word_iff)
  then have 1: "PPP_FCS f (ucast (NOT f AND 0xff)) = drop_bit 8 f XOR 0x0f78"
    by (simp add: PPP_FCS_def fcstab_def)
  have low: "((drop_bit 8 f XOR k) XOR ucast (ucast (drop_bit 8 (NOT f) AND 0xff) :: u8)) AND 0xff = (k XOR 0xff) AND (0xff :: u32)" for k
    by (rule bit_word_eqI) (auto simp: bit_and_iff bit_xor_iff bit_not_iff bit_ucast_iff bit_drop_bit_eq ff simp del: bit_numeral_word_iff)
  have "((drop_bit 8 f XOR 0x0f78) XOR ucast (ucast (drop_bit 8 (NOT f) AND 0xff) :: u8)) AND 0xff = 0x87"
    unfolding low by simp
  then have "PPP_FCS (drop_bit 8 f XOR 0x0f78) (ucast (drop_bit 8 (NOT f) AND 0xff)) =
      drop_bit 8 (drop_bit 8 f XOR 0x0f78) XOR 0xf0b7"
    by (simp add: PPP_FCS_def fcstab_def)
  also have "drop_bit 8 (drop_bit 8 f XOR 0x0f78) = 0x0f"
  proof -
    have "drop_bit 8 (drop_bit 8 f) = drop_bit 16 f"
      by (simp add: drop_bit_drop_bit)
    then show ?thesis
      using assms by (simp only: drop_bit_xor) simp
  qed
  finally show ?thesis
    by (simp add: fcs_bytes_def 1 PPP_GOODFCS_def)
qed

section \<open>The buffers of a packet\<close>

definition hdr_len :: "pbuf \<Rightarrow> nat" where
  "hdr_len b = (if pb_hdr b = None then 0 else INPUT_HEADER)"

definition wf_pbuf :: "pbuf \<Rightarrow> bool" where
  "wf_pbuf b \<longleftrightarrow> pb_len b = hdr_len b + length (pb_data b) \<and> pb_data b \<noteq> [] \<and> pb_len b \<le> PBUF_POOL_BUFSIZE"

text \<open>
  The buffers \<open>bs @ [l]\<close> hold the data of a packet with the header \<open>h\<close>: the header is in the first
  buffer, and all but the last are full.
\<close>

definition chain_ok :: "int \<times> u16 \<Rightarrow> pbuf list \<Rightarrow> pbuf \<Rightarrow> u8 list \<Rightarrow> bool" where
  "chain_ok h bs l data \<longleftrightarrow> (\<forall>b \<in> set (bs @ [l]). wf_pbuf b) \<and> (\<forall>b \<in> set bs. pb_len b = PBUF_POOL_BUFSIZE) \<and>
     map pb_hdr (bs @ [l]) = Some h # replicate (length bs) None \<and> concat (map pb_data (bs @ [l])) = data"

definition rx_inv :: "PPPControlRx \<Rightarrow> int \<times> u16 \<Rightarrow> u8 list \<Rightarrow> bool" where
  "rx_inv rx h data \<longleftrightarrow>
     (case inTail rx of
        NoTail \<Rightarrow> inHead rx = [] \<and> data = []
      | HeadTail \<Rightarrow> (\<exists>l. inHead rx = [l] \<and> chain_ok h [] l data)
      | OwnTail l \<Rightarrow> inHead rx \<noteq> [] \<and> chain_ok h (inHead rx) l data)"

text \<open>The buffers the receiver holds or can get.\<close>

definition rx_bufs :: "PPPControlRx \<Rightarrow> nat" where
  "rx_bufs rx = rx_pool rx + length (inHead rx) + (case inTail rx of OwnTail t \<Rightarrow> 1 | _ \<Rightarrow> 0)"

lemma store_wf:
  assumes "wf_pbuf b" and "pb_len b \<noteq> PBUF_POOL_BUFSIZE"
  shows "wf_pbuf (store c b)"
  using assms by (auto simp: wf_pbuf_def store_def hdr_len_def)

lemma chain_ok_store:
  assumes "chain_ok h bs l data" and "pb_len l \<noteq> PBUF_POOL_BUFSIZE"
  shows "chain_ok h bs (store c l) (data @ [c])"
  using assms store_wf [of l c] by (auto simp: chain_ok_def store_def)

lemma chain_ok_next:
  assumes "chain_ok h bs l data" and "pb_len l = PBUF_POOL_BUFSIZE"
  shows "chain_ok h (bs @ [l]) (store c \<lparr>pb_len = 0, pb_hdr = None, pb_data = []\<rparr>) (data @ [c])"
proof -
  have "map pb_hdr (bs @ [l]) @ [None] = Some h # replicate (length bs) None @ [None]"
    using assms(1) by (simp only: chain_ok_def append_Cons)
  then have "map pb_hdr bs @ [pb_hdr l, None] = Some h # None # replicate (length bs) None"
    by (simp add: replicate_append_same)
  then show ?thesis
    using assms by (auto simp: chain_ok_def wf_pbuf_def store_def hdr_len_def PBUF_POOL_BUFSIZE_def)
qed

lemma chain_ok_first:
  "chain_ok h [] (store c \<lparr>pb_len = INPUT_HEADER, pb_hdr = Some h, pb_data = []\<rparr>) [c]"
  by (simp add: chain_ok_def wf_pbuf_def store_def hdr_len_def PBUF_POOL_BUFSIZE_def INPUT_HEADER_def)

text \<open>The bytes in a chain fill all its buffers but the last.\<close>

lemma sum_list_same: "\<forall>x \<in> set xs. f x = (k :: nat) \<Longrightarrow> sum_list (map f xs) = k * length xs"
  by (induction xs) auto

lemma chain_ok_tot:
  assumes "chain_ok h bs l data"
  shows "tot_len (bs @ [l]) = INPUT_HEADER + length data" and "tot_len bs = PBUF_POOL_BUFSIZE * length bs"
proof -
  have t: "(\<forall>b \<in> set bs. wf_pbuf b) \<longrightarrow> tot_len bs = sum_list (map hdr_len bs) + length (concat (map pb_data bs))" for bs
    unfolding tot_len_def by (induction bs) (simp_all, simp add: wf_pbuf_def)
  have "sum_list (map hdr_len (bs @ [l])) = sum_list (map (\<lambda>x. if x = None then 0 else INPUT_HEADER) (map pb_hdr (bs @ [l])))"
    by (rule arg_cong [of _ _ sum_list]) (simp add: hdr_len_def)
  also have "\<dots> = INPUT_HEADER"
    using assms by (simp only: chain_ok_def) (simp add: sum_list_replicate)
  finally show "tot_len (bs @ [l]) = INPUT_HEADER + length data"
    using t [of "bs @ [l]"] assms unfolding chain_ok_def by argo
  show "tot_len bs = PBUF_POOL_BUFSIZE * length bs"
    using assms sum_list_same [of bs pb_len PBUF_POOL_BUFSIZE] by (simp add: tot_len_def chain_ok_def)
qed

text \<open>Two states that differ in the buffers only.\<close>

definition same_ctl :: "PPPControlRx \<Rightarrow> PPPControlRx \<Rightarrow> bool" where
  "same_ctl rx rx' \<longleftrightarrow> rx_pd rx' = rx_pd rx \<and> inProtocol rx' = inProtocol rx \<and> inFCS rx' = inFCS rx \<and>
     inState rx' = inState rx \<and> inEscaped rx' = inEscaped rx \<and> inACCM rx' = inACCM rx \<and> rx_posted rx' = rx_posted rx"

text \<open>A data byte is stored when a buffer is available; else the packet is dropped.\<close>

lemma rx_data_room:
  assumes inv: "rx_inv rx (rx_pd rx, inProtocol rx) data" and room: "INPUT_HEADER + length data < PBUF_POOL_BUFSIZE * rx_bufs rx"
  shows "same_ctl rx (rx_data c rx) \<and>
    rx_inv (rx_data c rx) (rx_pd rx, inProtocol rx) (data @ [c]) \<and> rx_bufs (rx_data c rx) = rx_bufs rx"
proof (cases "inTail rx")
  case NoTail
  then have "inHead rx = []" "data = []"
    using inv by (simp_all add: rx_inv_def)
  moreover from this have "rx_pool rx \<noteq> 0"
    using room NoTail by (cases "rx_pool rx") (simp_all add: rx_bufs_def)
  ultimately show ?thesis
    using NoTail chain_ok_first [of "(rx_pd rx, inProtocol rx)" c]
    by (auto simp: rx_data_def new_tail_def load_char_def rx_inv_def rx_bufs_def same_ctl_def)
next
  case HeadTail
  then obtain l where l: "inHead rx = [l]" "chain_ok (rx_pd rx, inProtocol rx) [] l data"
    using inv by (auto simp: rx_inv_def)
  show ?thesis
  proof (cases "pb_len l = PBUF_POOL_BUFSIZE")
    case True
    then have "INPUT_HEADER + length data = PBUF_POOL_BUFSIZE"
      using chain_ok_tot(1) [OF l(2)] by (simp add: tot_len_def)
    then have "rx_pool rx \<noteq> 0"
      using room HeadTail l(1) by (auto simp: rx_bufs_def)
    then show ?thesis
      using HeadTail l True chain_ok_next [OF l(2) True, of c]
      by (auto simp: rx_data_def tail_len_def new_tail_def load_char_def rx_inv_def rx_bufs_def same_ctl_def)
  next
    case False
    then show ?thesis
      using HeadTail l chain_ok_store [OF l(2) False, of c]
      by (simp add: rx_data_def tail_len_def load_char_def rx_inv_def rx_bufs_def same_ctl_def)
  qed
next
  case (OwnTail l)
  then have l: "inHead rx \<noteq> []" "chain_ok (rx_pd rx, inProtocol rx) (inHead rx) l data"
    using inv by (auto simp: rx_inv_def)
  show ?thesis
  proof (cases "pb_len l = PBUF_POOL_BUFSIZE")
    case True
    then have "INPUT_HEADER + length data = PBUF_POOL_BUFSIZE * (length (inHead rx) + 1)"
      using chain_ok_tot [OF l(2)] by (simp add: tot_len_def)
    then have "rx_pool rx \<noteq> 0"
      using room OwnTail by (auto simp: rx_bufs_def)
    then show ?thesis
      using OwnTail l True chain_ok_next [OF l(2) True, of c]
      by (auto simp: rx_data_def tail_len_def new_tail_def load_char_def rx_inv_def rx_bufs_def same_ctl_def)
  next
    case False
    then show ?thesis
      using OwnTail l chain_ok_store [OF l(2) False, of c]
      by (simp add: rx_data_def tail_len_def load_char_def rx_inv_def rx_bufs_def same_ctl_def)
  qed
qed

section \<open>A packet passed on\<close>

text \<open>The bytes of a packet after the input header, and its header.\<close>

definition pbuf_bytes :: "pbuf \<Rightarrow> u8 list" where
  "pbuf_bytes b = take (pb_len b - hdr_len b) (pb_data b)"

definition packet_is :: "pbuf list \<Rightarrow> int \<times> u16 \<Rightarrow> u8 list \<Rightarrow> bool" where
  "packet_is p h data \<longleftrightarrow> p \<noteq> [] \<and> pb_hdr (hd p) = Some h \<and> INPUT_HEADER \<le> pb_len (hd p) \<and> concat (map pbuf_bytes p) = data"

lemma wf_bytes: "wf_pbuf b \<Longrightarrow> pbuf_bytes b = pb_data b"
  by (simp add: pbuf_bytes_def wf_pbuf_def)

lemma chain_bytes: "\<forall>b \<in> set bs. wf_pbuf b \<Longrightarrow> concat (map pbuf_bytes bs) = concat (map pb_data bs)"
  by (induction bs) (simp_all add: wf_bytes)

lemma chain_hd: "chain_ok h bs l data \<Longrightarrow> pb_hdr (hd (bs @ [l])) = Some h"
  by (cases bs) (auto simp: chain_ok_def)

lemma pb_hdr_shrink: "pb_hdr (b\<lparr>pb_len := k\<rparr>) = pb_hdr b" "hdr_len (b\<lparr>pb_len := k\<rparr>) = hdr_len b"
  by (simp_all add: hdr_len_def)

lemma bytes_shrink:
  assumes "wf_pbuf b" and "k \<le> length (pb_data b)"
  shows "pbuf_bytes (b\<lparr>pb_len := pb_len b - k\<rparr>) = take (length (pb_data b) - k) (pb_data b)"
  using assms by (simp add: pbuf_bytes_def wf_pbuf_def hdr_len_def)

lemma realloc_full:
  "\<forall>b \<in> set bs. pb_len b = PBUF_POOL_BUFSIZE \<Longrightarrow> 0 < k \<Longrightarrow> k \<le> pb_len l \<Longrightarrow>
    realloc_loop (bs @ l # r) (PBUF_POOL_BUFSIZE * length bs + k) = (bs @ [l\<lparr>pb_len := k\<rparr>], length r)"
  by (induction bs) auto

lemma packet_shrink:
  assumes c: "chain_ok h bs l (data @ s)" and s: "length s \<le> length (pb_data l)"
  shows "packet_is (bs @ [l\<lparr>pb_len := pb_len l - length s\<rparr>]) h data"
proof -
  have w: "\<forall>b \<in> set bs. wf_pbuf b" "wf_pbuf l" "concat (map pb_data bs) @ pb_data l = data @ s"
    using c by (auto simp: chain_ok_def)
  have "concat (map pbuf_bytes (bs @ [l\<lparr>pb_len := pb_len l - length s\<rparr>])) =
      concat (map pb_data bs) @ take (length (pb_data l) - length s) (pb_data l)"
    using chain_bytes [OF w(1)] bytes_shrink [OF w(2) s] by simp
  also have "\<dots> = take (length (concat (map pb_data bs) @ pb_data l) - length s) (concat (map pb_data bs) @ pb_data l)"
    using s by simp
  finally have b: "concat (map pbuf_bytes (bs @ [l\<lparr>pb_len := pb_len l - length s\<rparr>])) = data"
    by (simp only: w(3)) simp
  have h: "pb_hdr (hd (bs @ [l\<lparr>pb_len := pb_len l - length s\<rparr>])) = Some h"
    using chain_hd [OF c] by (cases bs) simp_all
  have "INPUT_HEADER \<le> pb_len (hd (bs @ [l\<lparr>pb_len := pb_len l - length s\<rparr>]))"
  proof (cases bs)
    case Nil
    then have "pb_hdr l = Some h"
      using chain_hd [OF c] by simp
    then show ?thesis
      using Nil w(2) s by (simp add: wf_pbuf_def hdr_len_def)
  next
    case (Cons b bs')
    then have "pb_len b = PBUF_POOL_BUFSIZE"
      using c by (simp add: chain_ok_def)
    with Cons show ?thesis
      by (simp add: PBUF_POOL_BUFSIZE_def INPUT_HEADER_def)
  qed
  with b h show ?thesis
    by (simp add: packet_is_def)
qed

lemma chain_ok_butlast:
  assumes "chain_ok h (bs @ [m]) l (data @ s)" and "length (pb_data l) \<le> length s"
  shows "chain_ok h bs m (data @ take (length s - length (pb_data l)) s)"
proof -
  have "concat (map pb_data bs) @ pb_data m = take (length (data @ s) - length (pb_data l)) (data @ s)"
  proof -
    have "(concat (map pb_data bs) @ pb_data m) @ pb_data l = data @ s"
      using assms(1) by (simp add: chain_ok_def)
    then show ?thesis
      by (metis append_eq_conv_conj length_append add_diff_cancel_right')
  qed
  moreover have "map pb_hdr (bs @ [m]) = Some h # replicate (length bs) None"
  proof -
    have "map pb_hdr (bs @ [m]) @ [pb_hdr l] = (Some h # replicate (length bs) None) @ [None]"
      using assms(1) by (simp add: chain_ok_def replicate_append_same)
    then show ?thesis
      by (simp only: append1_eq_conv)
  qed
  ultimately show ?thesis
    using assms by (auto simp: chain_ok_def)
qed

text \<open>The check sequence is taken off the end of the data, also when it spans two buffers.\<close>

lemma trim_good:
  assumes inv: "rx_inv rx h (data @ [x, y])" and n: "rx_bufs rx \<le> 110"
  shows "\<exists>inp freed. trim_fcs rx = Some (inp, freed) \<and> packet_is inp h data \<and> rx_pool rx + freed + length inp = rx_bufs rx"
proof (cases "inTail rx")
  case NoTail
  then show ?thesis
    using inv by (simp add: rx_inv_def)
next
  case HeadTail
  then obtain l where l: "inHead rx = [l]" "chain_ok h [] l (data @ [x, y])"
    using inv by (auto simp: rx_inv_def)
  then have "length [x, y] \<le> length (pb_data l)" "2 \<le> pb_len l"
    by (auto simp: chain_ok_def wf_pbuf_def)
  with packet_shrink [OF l(2)] l(1) HeadTail show ?thesis
    by (simp add: trim_fcs_def shrink2_def rx_bufs_def numeral_2_eq_2)
next
  case (OwnTail l)
  then have l: "inHead rx \<noteq> []" "chain_ok h (inHead rx) l (data @ [x, y])"
    using inv by (auto simp: rx_inv_def)
  have "pb_hdr l = None"
    using l by (cases "inHead rx" rule: rev_cases) (auto simp: chain_ok_def replicate_append_same [symmetric])
  then have len: "pb_len l = length (pb_data l)" "0 < pb_len l"
    using l(2) by (auto simp: chain_ok_def wf_pbuf_def hdr_len_def)
  show ?thesis
  proof (cases "2 \<le> pb_len l")
    case True
    with packet_shrink [OF l(2)] len OwnTail show ?thesis
      by (simp add: trim_fcs_def shrink2_def rx_bufs_def numeral_2_eq_2)
  next
    case False
    then have one: "pb_len l = 1" "length (pb_data l) = 1"
      using len by linarith+
    obtain bs m where b: "inHead rx = bs @ [m]"
      using l(1) by (cases "inHead rx" rule: rev_cases) auto
    have m: "pb_len m = PBUF_POOL_BUFSIZE" "\<forall>b \<in> set bs. pb_len b = PBUF_POOL_BUFSIZE" "wf_pbuf m"
      using l(2) b by (auto simp: chain_ok_def)
    have t: "tot_len (inHead rx @ [l]) = PBUF_POOL_BUFSIZE * length bs + (PBUF_POOL_BUFSIZE + 1)"
      using chain_ok_tot(2) [OF l(2)] one b by (simp add: tot_len_def)
    have "length bs < 110"
      using n OwnTail b by (simp add: rx_bufs_def)
    then have "(tot_len (inHead rx @ [l]) + 65534) mod 65536 = PBUF_POOL_BUFSIZE * length bs + (PBUF_POOL_BUFSIZE - 1)"
      unfolding t by (simp add: PBUF_POOL_BUFSIZE_def mod_if)
    moreover have "realloc_loop (inHead rx @ [l]) (PBUF_POOL_BUFSIZE * length bs + (PBUF_POOL_BUFSIZE - 1)) =
        (bs @ [m\<lparr>pb_len := PBUF_POOL_BUFSIZE - 1\<rparr>], 1)"
      using realloc_full [OF m(2), of "PBUF_POOL_BUFSIZE - 1" m "[l]"] m(1) b by (simp add: PBUF_POOL_BUFSIZE_def)
    ultimately have "trim_fcs rx = Some (bs @ [m\<lparr>pb_len := PBUF_POOL_BUFSIZE - 1\<rparr>], 1)"
      using OwnTail one(1) t by (simp add: trim_fcs_def pbuf_realloc_def PBUF_POOL_BUFSIZE_def)
    moreover have "packet_is (bs @ [m\<lparr>pb_len := pb_len m - length [x]\<rparr>]) h data"
    proof (rule packet_shrink)
      show "chain_ok h bs m (data @ [x])"
        using chain_ok_butlast [OF l(2) [unfolded b]] one(2) by simp
      show "length [x] \<le> length (pb_data m)"
        using m(3) by (cases "pb_data m") (auto simp: wf_pbuf_def)
    qed
    ultimately show ?thesis
      using OwnTail b m(1) by (simp add: rx_bufs_def)
  qed
qed

section \<open>A frame is received\<close>

text \<open>The unescaped bytes, as the state machine sees them.\<close>

lemma rx_char_escape:
  assumes "accm_ok out (inACCM rx)" and "\<not> inEscaped rx"
  shows "pppInProc post rx (escape out [c] @ s) = pppInProc post (rx_byte c rx) s"
proof (cases "ESCAPE_P out c")
  case True
  have e: "ESCAPE_P (inACCM rx) PPP_ESCAPE" "\<not> ESCAPE_P (inACCM rx) (c XOR PPP_TRANS)"
    using assms(1) True by (simp_all add: accm_ok_def)
  have "(c XOR PPP_TRANS) XOR PPP_TRANS = c"
    by (simp add: xor.assoc)
  moreover have "rx_byte c (rx\<lparr>inEscaped := False\<rparr>) = rx_byte c rx"
    by (rule arg_cong [of _ _ "rx_byte c"]) (use assms(2) in \<open>cases rx, simp\<close>)
  ultimately have "rx_char post (c XOR PPP_TRANS) (rx\<lparr>inEscaped := True\<rparr>) = Some (rx_byte c rx)"
    using assms(2) e(2) by (simp add: rx_char_def)
  with True e(1) show ?thesis
    by (simp add: rx_char_def)
next
  case False
  then have "\<not> ESCAPE_P (inACCM rx) c"
    using assms(1) by (auto simp: accm_ok_def)
  with False assms(2) show ?thesis
    by (simp add: rx_char_def)
qed

lemma rx_switch_ctl:
  "inACCM (rx_switch st c rx) = inACCM rx \<and> inEscaped (rx_switch st c rx) = inEscaped rx \<and>
   rx_posted (rx_switch st c rx) = rx_posted rx \<and> rx_pd (rx_switch st c rx) = rx_pd rx"
  by (cases st) (auto simp: rx_address_def rx_control_def rx_protocol1_def rx_data_def load_char_def new_tail_def pppDrop_def
      Let_def split: intail.splits)

lemma rx_byte_ctl [simp]:
  "inACCM (rx_byte c rx) = inACCM rx" "inEscaped (rx_byte c rx) = inEscaped rx"
  "rx_posted (rx_byte c rx) = rx_posted rx" "rx_pd (rx_byte c rx) = rx_pd rx"
  by (simp_all add: rx_byte_def Let_def rx_switch_ctl)

abbreviation rx_bytes :: "u8 list \<Rightarrow> PPPControlRx \<Rightarrow> PPPControlRx" where
  "rx_bytes s rx \<equiv> fold rx_byte s rx"

lemma rx_bytes_escape:
  "accm_ok out (inACCM rx) \<Longrightarrow> \<not> inEscaped rx \<Longrightarrow> pppInProc post rx (escape out s @ r) = pppInProc post (rx_bytes s rx) r"
proof (induction s arbitrary: rx)
  case (Cons c s)
  have "pppInProc post rx (escape out (c # s) @ r) = pppInProc post rx (escape out [c] @ (escape out s @ r))"
    by simp
  also have "\<dots> = pppInProc post (rx_byte c rx) (escape out s @ r)"
    by (rule rx_char_escape [OF Cons.prems])
  also have "\<dots> = pppInProc post (rx_bytes (c # s) rx) r"
    using Cons.IH [of "rx_byte c rx"] Cons.prems by simp
  finally show ?case .
qed simp

text \<open>In the data part every byte is stored, as long as the buffers last.\<close>

lemma rx_byte_data:
  assumes "inState rx = PDDATA" and "rx_inv rx (rx_pd rx, inProtocol rx) data"
    and "INPUT_HEADER + length data < PBUF_POOL_BUFSIZE * rx_bufs rx"
  shows "inState (rx_byte c rx) = PDDATA" and "rx_inv (rx_byte c rx) (rx_pd rx, inProtocol rx) (data @ [c])"
    and "rx_bufs (rx_byte c rx) = rx_bufs rx" and "inProtocol (rx_byte c rx) = inProtocol rx"
    and "inFCS (rx_byte c rx) = ucast (PPP_FCS (ucast (inFCS rx)) c)"
  using rx_data_room [OF assms(2,3), of c] assms(1)
  by (simp_all add: rx_byte_def Let_def same_ctl_def) (simp_all add: rx_inv_def rx_bufs_def cong: intail.case_cong)

definition fcs_fold :: "u16 \<Rightarrow> u8 list \<Rightarrow> u16" where
  "fcs_fold f s = ucast (foldl PPP_FCS (ucast f) s)"

lemma ucast_u16_small: "drop_bit 16 (ucast (f :: u16) :: u32) = 0"
  by (rule bit_word_eqI) (auto simp: bit_drop_bit_eq bit_ucast_iff dest: bit_u16_less)

lemma ucast_up_down: "ucast (ucast (f :: u16) :: u32) = f"
  by (rule bit_word_eqI) (auto simp: bit_ucast_iff)

lemma fcs_fold_simps [simp]:
  "fcs_fold f [] = f"
  "fcs_fold f (c # s) = fcs_fold (ucast (PPP_FCS (ucast f) c)) s"
  by (simp_all add: fcs_fold_def ucast_up_down small_ucast [OF PPP_FCS_small [OF ucast_u16_small]])

lemma rx_bytes_data:
  "inState rx = PDDATA \<Longrightarrow> rx_inv rx (rx_pd rx, inProtocol rx) data \<Longrightarrow>
    INPUT_HEADER + length data + length s \<le> PBUF_POOL_BUFSIZE * rx_bufs rx \<Longrightarrow>
    inState (rx_bytes s rx) = PDDATA \<and> rx_inv (rx_bytes s rx) (rx_pd rx, inProtocol rx) (data @ s) \<and>
    rx_bufs (rx_bytes s rx) = rx_bufs rx \<and> inProtocol (rx_bytes s rx) = inProtocol rx \<and>
    inFCS (rx_bytes s rx) = fcs_fold (inFCS rx) s"
proof (induction s arbitrary: rx data)
  case (Cons c s)
  have room: "INPUT_HEADER + length data < PBUF_POOL_BUFSIZE * rx_bufs rx"
    using Cons.prems(3) by simp
  note b = rx_byte_data [OF Cons.prems(1,2) room, of c]
  show ?case
    using Cons.IH [of "rx_byte c rx" "data @ [c]"] b Cons.prems(3) by simp
qed simp

lemma rx_bytes_ctl [simp]:
  "inACCM (rx_bytes s rx) = inACCM rx" "inEscaped (rx_bytes s rx) = inEscaped rx"
  "rx_posted (rx_bytes s rx) = rx_posted rx" "rx_pd (rx_bytes s rx) = rx_pd rx"
  by (induction s arbitrary: rx) simp_all

definition rx_ready :: "PPPControlRx \<Rightarrow> bool" where
  "rx_ready rx \<longleftrightarrow> inState rx = PDADDRESS \<and> inFCS rx = PPP_INITFCS \<and> \<not> inEscaped rx \<and> inHead rx = [] \<and> inTail rx = NoTail"

text \<open>The headers of frames, with and without compressed address and protocol fields.\<close>

definition frame_header :: "u8 list \<Rightarrow> u16 \<Rightarrow> bool" where
  "frame_header hs proto \<longleftrightarrow>
     (\<exists>p. p AND 1 \<noteq> 0 \<and> proto = ucast p \<and>
        (hs = [PPP_ALLSTATIONS, PPP_UI, p] \<or> (hs = [p] \<and> p \<noteq> PPP_ALLSTATIONS \<and> p \<noteq> PPP_UI))) \<or>
     (\<exists>p1 p2. p1 AND 1 = 0 \<and> proto = be16 p1 p2 \<and> (hs = [PPP_ALLSTATIONS, PPP_UI, p1, p2] \<or> hs = [p1, p2]))"

lemma PPP_constants_odd: "PPP_ALLSTATIONS AND 1 \<noteq> 0" "PPP_UI AND 1 \<noteq> 0"
  by (simp_all add: PPP_ALLSTATIONS_def PPP_UI_def)

lemma rx_header:
  assumes "rx_ready rx" and "frame_header hs proto"
  shows "inState (rx_bytes hs rx) = PDDATA" and "inProtocol (rx_bytes hs rx) = proto"
    and "rx_inv (rx_bytes hs rx) (rx_pd rx, proto) []" and "rx_bufs (rx_bytes hs rx) = rx_pool rx"
    and "inFCS (rx_bytes hs rx) = fcs_fold PPP_INITFCS hs"
proof -
  have r: "inState rx = PDADDRESS" "inFCS rx = PPP_INITFCS" "inHead rx = []" "inTail rx = NoTail"
    using assms(1) by (simp_all add: rx_ready_def)
  have ne: "PPP_ALLSTATIONS \<noteq> PPP_UI" "p1 AND 1 = 0 \<Longrightarrow> p1 \<noteq> PPP_ALLSTATIONS" "p1 AND 1 = 0 \<Longrightarrow> p1 \<noteq> PPP_UI" for p1
    using PPP_constants_odd by (auto simp: PPP_ALLSTATIONS_def PPP_UI_def)
  have "inState (rx_bytes hs rx) = PDDATA \<and> inProtocol (rx_bytes hs rx) = proto \<and>
    inHead (rx_bytes hs rx) = [] \<and> inTail (rx_bytes hs rx) = NoTail \<and> rx_pool (rx_bytes hs rx) = rx_pool rx \<and>
    inFCS (rx_bytes hs rx) = fcs_fold PPP_INITFCS hs"
    using assms(2) unfolding frame_header_def
    by (elim disjE exE conjE)
      (simp_all add: r ne rx_byte_def rx_address_def rx_control_def rx_protocol1_def Let_def be16_def)
  then show "inState (rx_bytes hs rx) = PDDATA" "inProtocol (rx_bytes hs rx) = proto"
    "rx_inv (rx_bytes hs rx) (rx_pd rx, proto) []" "rx_bufs (rx_bytes hs rx) = rx_pool rx"
    "inFCS (rx_bytes hs rx) = fcs_fold PPP_INITFCS hs"
    by (simp_all add: rx_inv_def rx_bufs_def)
qed

lemma fcs_fold_good: "fcs_fold PPP_INITFCS (s @ fcs_bytes (fcs_of s)) = PPP_GOODFCS"
proof -
  have "foldl PPP_FCS (ucast PPP_INITFCS) (s @ fcs_bytes (fcs_of s)) = ucast PPP_GOODFCS"
    using good_fcs [OF fcs_of_small [of s]] by (simp add: fcs_of_def)
  then show ?thesis
    by (simp only: fcs_fold_def ucast_up_down)
qed

lemma fcs_fold_append: "fcs_fold f (s @ s') = fcs_fold (fcs_fold f s) s'"
  by (induction s arbitrary: f) simp_all

lemma receive_frame:
  assumes rx: "rx_ready rx" "accm_ok out (inACCM rx)" and h: "frame_header hs proto"
    and room: "INPUT_HEADER + length data + 2 \<le> PBUF_POOL_BUFSIZE * rx_pool rx" "rx_pool rx \<le> 110"
    and post: "post (rx_posted rx)"
  shows "\<exists>inp. pppInProc post rx (frame out (hs @ data)) =
      Some (rx\<lparr>inProtocol := proto, rx_pool := rx_pool rx - length inp, rx_posted := rx_posted rx @ [inp]\<rparr>) \<and>
    packet_is inp (rx_pd rx, proto) data \<and> length inp \<le> rx_pool rx"
proof -
  obtain x y where xy: "fcs_bytes (fcs_of (hs @ data)) = [x, y]"
    by (auto simp: fcs_bytes_def)
  define rx1 where "rx1 = rx_bytes hs rx"
  define rx2 where "rx2 = rx_bytes (data @ [x, y]) rx1"
  note 1 = rx_header [OF rx(1) h, folded rx1_def]
  have 2: "inState rx2 = PDDATA" "rx_inv rx2 (rx_pd rx, proto) (data @ [x, y])" "rx_bufs rx2 = rx_pool rx"
      "inProtocol rx2 = proto" "inFCS rx2 = fcs_fold (fcs_fold PPP_INITFCS hs) (data @ [x, y])"
    using rx_bytes_data [of rx1 "[]" "data @ [x, y]"] 1 room(1) by (simp_all add: rx2_def rx1_def)
  have good: "inFCS rx2 = PPP_GOODFCS"
    using fcs_fold_good [of "hs @ data"] unfolding xy 2(5) by (simp add: fcs_fold_append)
  have run: "pppInProc post rx (frame out (hs @ data)) = pppInProc post rx2 [PPP_FLAG]"
    using rx_bytes_escape [OF rx(2), of post "hs @ data @ [x, y]" "[PPP_FLAG]"] rx(1)
    by (simp add: frame_def xy rx1_def rx2_def rx_ready_def)
  have e: "ESCAPE_P (inACCM rx2) PPP_FLAG" "PPP_FLAG \<noteq> PPP_ESCAPE"
    using rx(2) by (simp_all add: rx1_def rx2_def accm_ok_def PPP_FLAG_def PPP_ESCAPE_def)
  have "rx_bufs rx2 \<le> 110"
    using 2(3) room(2) by simp
  from trim_good [OF 2(2) this] obtain inp freed where
    t: "trim_fcs rx2 = Some (inp, freed)" "packet_is inp (rx_pd rx, proto) data" "rx_pool rx2 + freed + length inp = rx_pool rx"
    using 2(3) by auto
  have "pppInProc post rx2 [PPP_FLAG] =
      Some (rx\<lparr>inProtocol := proto, rx_pool := rx_pool rx - length inp, rx_posted := rx_posted rx @ [inp]\<rparr>)"
    using e t rx(1) post 2(1,4) good
    by (simp add: rx_char_def rx_flag_def Let_def)
      (simp add: rx2_def rx1_def rx_ready_def)
  with run t show ?thesis
    by (intro exI [of _ inp]) simp
qed

section \<open>Any input\<close>

text \<open>
  Between two characters the receiver holds buffers only in the data part of a frame. Whatever it
  receives, every buffer of the pool is free, in the packet under construction or in a packet passed on.
\<close>

definition rx_safe :: "PPPControlRx \<Rightarrow> bool" where
  "rx_safe rx \<longleftrightarrow> (if inState rx = PDDATA then \<exists>data. rx_inv rx (rx_pd rx, inProtocol rx) data
     else inHead rx = [] \<and> inTail rx = NoTail)"

definition rx_total :: "PPPControlRx \<Rightarrow> nat" where
  "rx_total rx = rx_bufs rx + sum_list (map length (rx_posted rx))"

lemma pppDrop_all: "rx_inv rx h data \<Longrightarrow> inHead (pppDrop rx) = [] \<and> inTail (pppDrop rx) = NoTail \<and> rx_bufs (pppDrop rx) = rx_bufs rx \<and>
    rx_posted (pppDrop rx) = rx_posted rx"
  by (auto simp: pppDrop_def rx_inv_def rx_bufs_def split: intail.splits)

lemma chain_ok_last: "chain_ok h bs l data \<Longrightarrow> pb_len l \<le> PBUF_POOL_BUFSIZE"
  unfolding chain_ok_def wf_pbuf_def by auto

lemma rx_data_no_room:
  assumes inv: "rx_inv rx (rx_pd rx, inProtocol rx) data" and room: "PBUF_POOL_BUFSIZE * rx_bufs rx \<le> INPUT_HEADER + length data"
  shows "inState (rx_data c rx) = PDSTART \<and> inHead (rx_data c rx) = [] \<and> inTail (rx_data c rx) = NoTail \<and>
    rx_bufs (rx_data c rx) = rx_bufs rx"
proof (cases "inTail rx")
  case NoTail
  then have "inHead rx = []" "data = []"
    using inv by (simp_all add: rx_inv_def)
  moreover from this have "rx_pool rx = 0"
    using room NoTail by (simp add: rx_bufs_def PBUF_POOL_BUFSIZE_def INPUT_HEADER_def)
  ultimately show ?thesis
    using NoTail by (simp add: rx_data_def pppDrop_def rx_bufs_def)
next
  case HeadTail
  then obtain l where l: "inHead rx = [l]" "chain_ok (rx_pd rx, inProtocol rx) [] l data"
    using inv by (auto simp: rx_inv_def)
  have "pb_len l = INPUT_HEADER + length data"
    using chain_ok_tot(1) [OF l(2)] by (simp add: tot_len_def)
  moreover have "pb_len l \<le> PBUF_POOL_BUFSIZE"
    by (rule chain_ok_last [OF l(2)])
  ultimately have "pb_len l = PBUF_POOL_BUFSIZE" "rx_pool rx = 0"
    using room HeadTail l(1) by (simp_all add: rx_bufs_def PBUF_POOL_BUFSIZE_def)
  then show ?thesis
    using HeadTail l by (simp add: rx_data_def tail_len_def pppDrop_def rx_bufs_def)
next
  case (OwnTail l)
  then have l: "inHead rx \<noteq> []" "chain_ok (rx_pd rx, inProtocol rx) (inHead rx) l data"
    using inv by (auto simp: rx_inv_def)
  have "PBUF_POOL_BUFSIZE * length (inHead rx) + pb_len l = INPUT_HEADER + length data"
    using chain_ok_tot [OF l(2)] by (simp add: tot_len_def)
  moreover have "pb_len l \<le> PBUF_POOL_BUFSIZE"
    by (rule chain_ok_last [OF l(2)])
  ultimately have "pb_len l = PBUF_POOL_BUFSIZE" "rx_pool rx = 0"
    using room OwnTail by (simp_all add: rx_bufs_def PBUF_POOL_BUFSIZE_def)
  then show ?thesis
    using OwnTail l by (simp add: rx_data_def tail_len_def pppDrop_def rx_bufs_def)
qed

lemma rx_byte_safe:
  assumes "rx_safe rx"
  shows "rx_safe (rx_byte c rx) \<and> rx_total (rx_byte c rx) = rx_total rx"
proof (cases "inState rx = PDDATA")
  case True
  then obtain data where inv: "rx_inv rx (rx_pd rx, inProtocol rx) data"
    using assms by (auto simp: rx_safe_def)
  show ?thesis
  proof (cases "INPUT_HEADER + length data < PBUF_POOL_BUFSIZE * rx_bufs rx")
    case room: True
    show ?thesis
      using rx_byte_data [OF True inv room, of c] by (auto simp: rx_safe_def rx_total_def)
  next
    case False
    with rx_data_no_room [OF inv, of c] True show ?thesis
      by (auto simp: rx_byte_def Let_def rx_safe_def rx_total_def rx_bufs_def rx_switch_ctl [of PDDATA, simplified])
  qed
next
  case False
  then have r: "inHead rx = []" "inTail rx = NoTail"
    using assms by (simp_all add: rx_safe_def)
  have "inHead (rx_byte c rx) = []" "inTail (rx_byte c rx) = NoTail" "rx_pool (rx_byte c rx) = rx_pool rx"
    using r False by (cases "inState rx"; simp add: rx_byte_def Let_def rx_address_def rx_control_def rx_protocol1_def)+
  with r show ?thesis
    by (auto simp: rx_safe_def rx_total_def rx_bufs_def rx_inv_def intro!: exI [of _ "[]"])
qed

lemma realloc_length: "realloc_loop p n = (p', k) \<Longrightarrow> length p' + k = length p"
  by (induction p n arbitrary: p' k rule: realloc_loop.induct) (auto split: if_splits prod.splits)

lemma pbuf_realloc_length: "pbuf_realloc p n = (p', k) \<Longrightarrow> length p' + k = length p"
  by (auto simp: pbuf_realloc_def dest!: realloc_length split: if_splits)

lemma trim_conserves: "trim_fcs rx = Some (inp, freed) \<Longrightarrow> rx_pool rx + freed + length inp = rx_bufs rx"
  by (auto simp: trim_fcs_def rx_bufs_def Let_def split: intail.splits list.splits if_splits dest!: pbuf_realloc_length)

text \<open>The only way to fail: the flag after a header with a good check sequence and no data.\<close>

definition empty_good_frame :: "PPPControlRx \<Rightarrow> u8 \<Rightarrow> bool" where
  "empty_good_frame rx c \<longleftrightarrow> c = PPP_FLAG \<and> ESCAPE_P (inACCM rx) c \<and> inState rx = PDDATA \<and> inFCS rx = PPP_GOODFCS \<and> inTail rx = NoTail"

lemma rx_flag_safe:
  assumes "rx_safe rx" and "\<not> (inState rx = PDDATA \<and> inFCS rx = PPP_GOODFCS \<and> inTail rx = NoTail)"
  shows "\<exists>rx'. rx_flag post rx = Some rx' \<and> rx_safe rx' \<and> rx_total rx' = rx_total rx"
proof (cases "inState rx = PDDATA")
  case True
  then obtain data where inv: "rx_inv rx (rx_pd rx, inProtocol rx) data"
    using assms(1) by (auto simp: rx_safe_def)
  show ?thesis
  proof (cases "inFCS rx = PPP_GOODFCS")
    case good: True
    then have "inTail rx \<noteq> NoTail"
      using assms(2) True by simp
    then have "trim_fcs rx \<noteq> None"
      using inv by (auto simp: trim_fcs_def rx_inv_def Let_def split: intail.splits)
    then obtain inp freed where t: "trim_fcs rx = Some (inp, freed)"
      by auto
    show ?thesis
      using True good t trim_conserves [OF t]
      by (auto simp: rx_flag_def Let_def rx_safe_def rx_total_def rx_bufs_def)
  next
    case False
    with True pppDrop_all [OF inv] show ?thesis
      by (auto simp: rx_flag_def Let_def rx_safe_def rx_total_def rx_bufs_def)
  qed
next
  case False
  then have r: "inHead rx = []" "inTail rx = NoTail"
    using assms(1) by (simp_all add: rx_safe_def)
  with False show ?thesis
    by (cases "inState rx") (simp_all add: rx_flag_def Let_def rx_safe_def rx_total_def rx_bufs_def pppDrop_def)
qed

lemma rx_char_safe:
  assumes "rx_safe rx"
  shows "if empty_good_frame rx c then rx_char post c rx = None
    else \<exists>rx'. rx_char post c rx = Some rx' \<and> rx_safe rx' \<and> rx_total rx' = rx_total rx"
proof -
  have "rx_inv (rx\<lparr>inEscaped := b\<rparr>) = rx_inv rx" for b
    by (intro ext) (simp add: rx_inv_def split: intail.splits)
  then have upd: "rx_safe (rx\<lparr>inEscaped := b\<rparr>) = rx_safe rx" "rx_total (rx\<lparr>inEscaped := b\<rparr>) = rx_total rx" for b
    by (simp_all add: rx_safe_def rx_total_def rx_bufs_def)
  show ?thesis
  proof (cases "empty_good_frame rx c")
    case True
    then show ?thesis
      by (auto simp: empty_good_frame_def rx_char_def rx_flag_def trim_fcs_def PPP_FLAG_def PPP_ESCAPE_def)
  next
    case False
    with assms show ?thesis
      using rx_flag_safe [OF assms] rx_byte_safe [of "rx\<lparr>inEscaped := False\<rparr>" "c XOR PPP_TRANS"] rx_byte_safe [OF assms, of c]
      by (auto simp: rx_char_def upd empty_good_frame_def)
  qed
qed

lemma pppInProc_safe:
  "rx_safe rx \<Longrightarrow> pppInProc post rx s = Some rx' \<Longrightarrow> rx_safe rx' \<and> rx_total rx' = rx_total rx"
proof (induction s arbitrary: rx)
  case (Cons c s)
  have "\<not> empty_good_frame rx c"
    using rx_char_safe [OF Cons.prems(1), of c post] Cons.prems(2) by auto
  then obtain rx1 where "rx_char post c rx = Some rx1" "rx_safe rx1" "rx_total rx1 = rx_total rx"
    using rx_char_safe [OF Cons.prems(1), of c post] by auto
  with Cons.IH [of rx1] Cons.prems(2) show ?case
    by simp
qed simp

lemma pppInProc_None:
  "rx_safe rx \<Longrightarrow> pppInProc post rx s = None \<longleftrightarrow>
    (\<exists>s1 c s2 rx1. s = s1 @ c # s2 \<and> pppInProc post rx s1 = Some rx1 \<and> empty_good_frame rx1 c)"
proof (induction s arbitrary: rx)
  case (Cons c s)
  show ?case
  proof (cases "empty_good_frame rx c")
    case True
    with rx_char_safe [OF Cons.prems, of c post] show ?thesis
      by (auto intro!: exI [of _ "[]"])
  next
    case False
    then obtain rx1 where rx1: "rx_char post c rx = Some rx1" "rx_safe rx1"
      using rx_char_safe [OF Cons.prems, of c post] by auto
    have "(\<exists>s1 d s2 r. c # s = s1 @ d # s2 \<and> pppInProc post rx s1 = Some r \<and> empty_good_frame r d) \<longleftrightarrow>
        (\<exists>s1 d s2 r. s = s1 @ d # s2 \<and> pppInProc post rx1 s1 = Some r \<and> empty_good_frame r d)" (is "?l \<longleftrightarrow> ?r")
    proof
      assume ?l
      then obtain s1 d s2 r where "c # s = s1 @ d # s2" "pppInProc post rx s1 = Some r" "empty_good_frame r d"
        by blast
      with False rx1 show ?r
        by (cases s1) auto
    next
      assume ?r
      then obtain s1 d s2 r where "s = s1 @ d # s2" "pppInProc post rx1 s1 = Some r" "empty_good_frame r d"
        by blast
      with rx1 show ?l
        by (intro exI [of _ "c # s1"] exI [of _ d] exI [of _ s2] exI [of _ r]) simp
    qed
    with Cons.IH [OF rx1(2)] rx1(1) show ?thesis
      by simp
  qed
qed simp

section \<open>Handing a packet to its protocol\<close>

datatype ppp_action =
    Dropped
  | IpInput "u8 list"
  | ProtoInput u16 "u8 list"
  | ProtoReject "u8 list"

definition PPP_LCP :: u16 where "PPP_LCP = 0xc021"
definition PPP_PAP :: u16 where "PPP_PAP = 0xc023"
definition PPP_LQR :: u16 where "PPP_LQR = 0xc025"
definition PPP_CHAP :: u16 where "PPP_CHAP = 0xc223"
definition PPP_IPCP :: u16 where "PPP_IPCP = 0x8021"
definition PPP_VJC_COMP :: u16 where "PPP_VJC_COMP = 0x2d"
definition PPP_VJC_UNCOMP :: u16 where "PPP_VJC_UNCOMP = 0x2f"

definition ppp_protocols :: "u16 list" where
  "ppp_protocols = [PPP_LCP, PPP_PAP, PPP_CHAP, PPP_IPCP]"

fun phase_num :: "phase \<Rightarrow> nat" where
  "phase_num PHASE_DEAD = 0"
| "phase_num PHASE_INITIALIZE = 1"
| "phase_num PHASE_ESTABLISH = 2"
| "phase_num PHASE_AUTHENTICATE = 3"
| "phase_num PHASE_CALLBACK = 4"
| "phase_num PHASE_NETWORK = 5"
| "phase_num PHASE_TERMINATE = 6"

text \<open>Copying a chain into one buffer; without memory only the first buffer is used.\<close>

definition pppSingleBuf :: "bool \<Rightarrow> u8 list list \<Rightarrow> u8 list" where
  "pppSingleBuf mem p = (if length (concat p) = length (hd p) then hd p else if mem then concat p else hd p)"

text \<open>
  The packet without its input header: the contents of its buffers. \<open>None\<close> where the first buffer does
  not hold the header.
\<close>

definition strip_input_header :: "pbuf list \<Rightarrow> (u16 \<times> u8 list list option) option" where
  "strip_input_header nb =
     (case nb of
        [] \<Rightarrow> None
      | b # bs \<Rightarrow>
          (case pb_hdr b of
             None \<Rightarrow> None
           | Some (pd, protocol) \<Rightarrow>
               Some (protocol, if pb_len b < INPUT_HEADER then None else Some (map pbuf_bytes (b # bs)))))"

text \<open>
  \<open>mem\<close> says whether memory for a single buffer is available, \<open>netif_input\<close> whether the interface has an
  input function.
\<close>

definition pppInput :: "bool \<Rightarrow> bool \<Rightarrow> phase \<Rightarrow> pbuf list \<Rightarrow> ppp_action option" where
  "pppInput mem netif_input lcp_phase nb =
     (case strip_input_header nb of
        None \<Rightarrow> None
      | Some (protocol, None) \<Rightarrow> Some Dropped
      | Some (protocol, Some data) \<Rightarrow>
          if phase_num lcp_phase \<le> phase_num PHASE_AUTHENTICATE \<and> protocol \<noteq> PPP_LCP \<and>
            (\<not> (protocol = PPP_LQR \<or> protocol = PPP_PAP \<or> protocol = PPP_CHAP) \<or> lcp_phase \<noteq> PHASE_AUTHENTICATE)
          then Some Dropped
          else if protocol = PPP_VJC_COMP \<or> protocol = PPP_VJC_UNCOMP then Some Dropped
          else if protocol = PPP_IP then Some (if netif_input then IpInput (concat data) else Dropped)
          else if protocol \<in> set ppp_protocols then Some (ProtoInput protocol (pppSingleBuf mem data))
          else Some (ProtoReject (lo8 (lwip_htons protocol) # hi8 (lwip_htons protocol) # hd data)))"

lemma packet_strip:
  assumes "packet_is p (pd, proto) data"
  shows "\<exists>bs. strip_input_header p = Some (proto, Some bs) \<and> concat bs = data"
proof -
  obtain b bs where "p = b # bs"
    using assms by (cases p) (auto simp: packet_is_def)
  with assms show ?thesis
    by (intro exI [of _ "map pbuf_bytes p"]) (auto simp: packet_is_def strip_input_header_def)
qed

text \<open>Two zero bytes between flags are a frame with a good check sequence and without data.\<close>

lemma empty_frame_fails:
  assumes "rx_ready rx" and "ESCAPE_P (inACCM rx) PPP_FLAG" and "\<not> ESCAPE_P (inACCM rx) 0"
  shows "pppInProc post rx [0, 0, PPP_FLAG] = None"
proof -
  have r: "inState rx = PDADDRESS" "inFCS rx = PPP_INITFCS" "\<not> inEscaped rx" "inTail rx = NoTail"
    using assms(1) by (simp_all add: rx_ready_def)
  have f: "ucast (PPP_FCS (ucast (ucast (PPP_FCS (ucast PPP_INITFCS) 0) :: u16)) 0) = PPP_GOODFCS"
    by (simp add: PPP_FCS_def PPP_INITFCS_def PPP_GOODFCS_def fcstab_def)
  have "rx_byte 0 rx = rx\<lparr>inProtocol := 0, inState := PDPROTOCOL2, inFCS := ucast (PPP_FCS (ucast PPP_INITFCS) 0)\<rparr>"
    using r by (simp add: rx_byte_def rx_address_def rx_control_def rx_protocol1_def PPP_ALLSTATIONS_def PPP_UI_def)
  then have "rx_byte 0 (rx_byte 0 rx) = rx\<lparr>inProtocol := 0, inState := PDDATA, inFCS := PPP_GOODFCS\<rparr>"
    using f by (simp add: rx_byte_def)
  with assms(2,3) r show ?thesis
    by (simp add: rx_char_def rx_flag_def trim_fcs_def PPP_FLAG_def PPP_ESCAPE_def)
qed

end
