(* ===== verification/Ppp_Properties.thy ===== *)
theory Ppp_Properties
  imports Ppp_Input
begin

text \<open>What the PPP link promises, from the sending interface to the receiving one.\<close>

unbundle bit_operations_syntax

section \<open>Frames\<close>

lemma ip_header_frame: "frame_header (ip_header pc) PPP_IP"
proof -
  have v: "(ucast (drop_bit 8 PPP_IP AND 0xff) :: u8) = 0" "(ucast (PPP_IP AND 0xff) :: u8) = 0x21"
    by (simp_all add: PPP_IP_def)
  have b: "be16 0 0x21 = PPP_IP" "ucast (0x21 :: u8) = PPP_IP"
    by (simp_all add: be16_def PPP_IP_def)
  show ?thesis
  proof (cases "pcomp pc")
    case True
    then have h: "ip_header pc = (if accomp pc then [] else [PPP_ALLSTATIONS, PPP_UI]) @ [0x21]"
      unfolding ip_header_def v by (simp add: PPP_IP_def)
    show ?thesis
      unfolding frame_header_def h
      by (intro disjI1 exI [of _ "0x21"]) (simp add: PPP_IP_def PPP_ALLSTATIONS_def PPP_UI_def)
  next
    case False
    then have h: "ip_header pc = (if accomp pc then [] else [PPP_ALLSTATIONS, PPP_UI]) @ [0, 0x21]"
      unfolding ip_header_def v by simp
    show ?thesis
      unfolding frame_header_def h
      by (intro disjI2 exI [of _ 0] exI [of _ "0x21"]) (simp add: b)
  qed
qed

lemma rx_idle_flag:
  assumes "rx_ready rx" and "ESCAPE_P (inACCM rx) PPP_FLAG"
  shows "pppInProc post rx (idle_flag t0 pc @ s) = pppInProc post rx s"
proof -
  have "rx\<lparr>inFCS := PPP_INITFCS, inState := PDADDRESS, inEscaped := False\<rparr> = rx"
    using assms(1) by (cases rx) (simp add: rx_ready_def)
  then have "rx_flag post rx = Some rx"
    using assms(1) by (simp add: rx_flag_def rx_ready_def)
  then have "rx_char post PPP_FLAG rx = Some rx"
    using assms(2) by (simp add: rx_char_def PPP_FLAG_def PPP_ESCAPE_def)
  then show ?thesis
    by (simp add: idle_flag_def)
qed

lemma recv_map:
  "ESCAPE_P (inACCM (ppp_recv_config b (rx\<lparr>inACCM := init_accm\<rparr>))) c \<longleftrightarrow>
     (unat c < 32 \<and> bit b (unat c)) \<or> c = PPP_ESCAPE \<or> c = PPP_FLAG"
  unfolding ppp_recv_config_def by simp (rule ESCAPE_P_load, auto simp: bit_simps)

text \<open>The sender and the receiver with their negotiated maps, and enough buffers for \<open>n\<close> bytes.\<close>

definition link_sender :: "u32 \<Rightarrow> nat \<Rightarrow> PPPControl \<Rightarrow> ppp_env \<Rightarrow> bool" where
  "link_sender a n pc e \<longleftrightarrow> openFlag pc \<and> streamAvail e \<and> outACCM pc = load_accm a init_accm \<and> 2 * n + 23 \<le> 591 * o_pool e"

definition link_receiver :: "u32 \<Rightarrow> nat \<Rightarrow> PPPControlRx \<Rightarrow> bool" where
  "link_receiver b n rx \<longleftrightarrow> rx_ready rx \<and> inACCM rx = inACCM (ppp_recv_config b (rx\<lparr>inACCM := init_accm\<rparr>)) \<and>
     INPUT_HEADER + n + 2 \<le> PBUF_POOL_BUFSIZE * rx_pool rx \<and> rx_pool rx \<le> 110"

lemma link_maps:
  assumes "link_sender a n pc e" and "link_receiver b m rx" and "b AND NOT a = 0"
  shows "accm_ok (outACCM pc) (inACCM rx)"
proof -
  have "inACCM rx = inACCM (ppp_recv_config b (rx\<lparr>inACCM := init_accm\<rparr>))"
    using assms(2) by (simp add: link_receiver_def)
  then have "\<forall>c. ESCAPE_P (inACCM rx) c \<longleftrightarrow> (unat c < 32 \<and> bit b (unat c)) \<or> c = PPP_ESCAPE \<or> c = PPP_FLAG"
    using recv_map by metis
  from accm_ok_configured [OF this assms(3)] assms(1) show ?thesis
    by (simp add: link_sender_def)
qed

lemma frame_length: "length (frame accm s) \<le> 2 * length s + 5"
  using escape_length [of accm "s @ fcs_bytes (fcs_of s)"] by (simp add: frame_def fcs_bytes_def)

lemma ip_header_length: "length (ip_header pc) \<le> 4"
  by (simp add: ip_header_def)

text \<open>
  C7: an Internet packet sent over the link arrives: the bytes the sending interface puts on the line make
  the receiver pass on one packet, which holds the data of the packet and goes to the Internet layer,
  whatever control characters it contains and whether the header is compressed or not.
\<close>

lemma link_roundtrip:
  assumes tx: "link_sender a (length (concat pb)) pc e" and rx: "link_receiver b (length (concat pb)) rx"
    and maps: "b AND NOT a = 0" and dev: "perfect dev" and up: "phase \<noteq> PHASE_DEAD" and post: "post (rx_posted rx)"
  shows "\<exists>pc' e' s rx' p. pppifOutput dev t0 t1 phase pc e (Some pb) = (ERR_OK, pc', e') \<and> o_pool e' = o_pool e \<and>
    line_out e' = line_out e @ s \<and> pppInProc post rx s = Some rx' \<and> rx_ready rx' \<and>
    rx_posted rx' = rx_posted rx @ [p] \<and> pppInput mem True PHASE_NETWORK p = Some (IpInput (concat pb))"
proof -
  have l: "length (frame (outACCM pc) (ip_header pc @ concat pb)) + 10 \<le> 591 * o_pool e"
    using frame_length [of "outACCM pc" "ip_header pc @ concat pb"] ip_header_length [of pc] tx
    by (simp add: link_sender_def)
  have o: "openFlag pc" "streamAvail e"
    using tx by (simp_all add: link_sender_def)
  note sent = pppifOutput_sends [OF dev o(2,1) up l, of t0 t1]
  have r: "rx_ready rx" "INPUT_HEADER + length (concat pb) + 2 \<le> PBUF_POOL_BUFSIZE * rx_pool rx" "rx_pool rx \<le> 110"
    using rx by (simp_all add: link_receiver_def)
  note maps = link_maps [OF tx rx maps]
  obtain p where p: "pppInProc post rx (frame (outACCM pc) (ip_header pc @ concat pb)) =
      Some (rx\<lparr>inProtocol := PPP_IP, rx_pool := rx_pool rx - length p, rx_posted := rx_posted rx @ [p]\<rparr>)"
      "packet_is p (rx_pd rx, PPP_IP) (concat pb)"
    using receive_frame [where post = post, OF r(1) maps ip_header_frame [of pc] r(2,3) post] by blast
  have "ESCAPE_P (inACCM rx) PPP_FLAG"
    using maps by (simp add: accm_ok_def)
  note run = rx_idle_flag [OF r(1) this, of post t0 pc "frame (outACCM pc) (ip_header pc @ concat pb)", unfolded p(1)]
  obtain bs where bs: "strip_input_header p = Some (PPP_IP, Some bs)" "concat bs = concat pb"
    using packet_strip [OF p(2)] by blast
  have "pppInput mem True PHASE_NETWORK p = Some (IpInput (concat pb))"
    using bs by (simp add: pppInput_def PPP_IP_def PPP_VJC_COMP_def PPP_VJC_UNCOMP_def)
  moreover have "rx_ready (rx\<lparr>inProtocol := PPP_IP, rx_pool := rx_pool rx - length p, rx_posted := rx_posted rx @ [p]\<rparr>)"
    using r(1) by (simp add: rx_ready_def)
  ultimately show ?thesis
    using sent run by (intro exI conjI) (assumption | rule refl | simp)+
qed

definition ex_sender :: PPPControl where
  "ex_sender = \<lparr>openFlag = True, mtu = 1500, pcomp = False, accomp = True, lastXMit = 0, outACCM = load_accm 0x000A0000 init_accm\<rparr>"

definition ex_env :: ppp_env where
  "ex_env = \<lparr>o_pool = 5, line_out = [], streamAvail = True\<rparr>"

definition ex_receiver :: PPPControlRx where
  "ex_receiver = \<lparr>rx_pd = 0, inHead = [], inTail = NoTail, inProtocol = 0, inFCS = PPP_INITFCS, inState = PDADDRESS,
     inEscaped = False, inACCM = map (\<lambda>i. ucast (drop_bit (8 * i) (0x00020000 :: u32))) [0 ..< 4] @ drop 4 init_accm,
     rx_pool = 5, rx_posted = []\<rparr>"

lemma ex_link: "n \<le> 1000 \<Longrightarrow> link_sender 0x000A0000 n ex_sender ex_env \<and> link_receiver 0x00020000 n ex_receiver"
  by (simp add: link_sender_def link_receiver_def ex_sender_def ex_env_def ex_receiver_def rx_ready_def
      ppp_recv_config_def INPUT_HEADER_def PBUF_POOL_BUFSIZE_def)

lemma link_roundtrip_witness:
  "\<exists>pc' e' s rx' p. pppifOutput (\<lambda>line data. (True, data)) 500 500 PHASE_NETWORK ex_sender ex_env (Some [[0x7e, 0x11], [3]]) = (ERR_OK, pc', e') \<and>
    line_out e' = s \<and> pppInProc (\<lambda>_. True) ex_receiver s = Some rx' \<and> rx_posted rx' = [p] \<and>
    pppInput True True PHASE_NETWORK p = Some (IpInput [0x7e, 0x11, 3])"
proof -
  have l: "link_sender 0x000A0000 (length (concat [[0x7e, 0x11 :: u8], [3]])) ex_sender ex_env"
    "link_receiver 0x00020000 (length (concat [[0x7e, 0x11 :: u8], [3]])) ex_receiver"
    using ex_link [of 3] by (simp_all add: numeral_3_eq_3)
  have m: "0x00020000 AND NOT 0x000A0000 = (0 :: u32)"
    by simp
  have p: "perfect (\<lambda>line data. (True, data))"
    by (simp add: perfect_def)
  obtain pc' e' s rx' pk where r: "pppifOutput (\<lambda>line data. (True, data)) 500 500 PHASE_NETWORK ex_sender ex_env (Some [[0x7e, 0x11], [3]]) = (ERR_OK, pc', e')"
      "line_out e' = line_out ex_env @ s" "pppInProc (\<lambda>_. True) ex_receiver s = Some rx'"
      "rx_posted rx' = rx_posted ex_receiver @ [pk]" "pppInput True True PHASE_NETWORK pk = Some (IpInput (concat [[0x7e, 0x11], [3]]))"
    using link_roundtrip [OF l m p, of PHASE_NETWORK "\<lambda>_. True" 500 500 True] by auto
  then have "line_out e' = s" "rx_posted rx' = [pk]"
    by (simp_all add: ex_env_def ex_receiver_def)
  with r show ?thesis
    by auto
qed

text \<open>
  The receiver in the middle of a frame that began with the bytes \<open>t\<close>, whatever they are: as long as there is room, the
  check sequence covers all of them and no buffer is lost.
\<close>

definition in_frame :: "nat \<Rightarrow> u8 list \<Rightarrow> PPPControlRx \<Rightarrow> bool" where
  "in_frame n t r \<longleftrightarrow> inFCS r = fcs_fold PPP_INITFCS t \<and> rx_bufs r = n \<and>
     (inState r \<in> {PDADDRESS, PDCONTROL, PDPROTOCOL1, PDPROTOCOL2} \<and> inHead r = [] \<and> inTail r = NoTail \<or>
      inState r = PDDATA \<and> (\<exists>d. length d \<le> length t \<and> rx_inv r (rx_pd r, inProtocol r) d))"

lemma in_frame_byte:
  assumes r: "in_frame n t r" and room: "INPUT_HEADER + length t < PBUF_POOL_BUFSIZE * n"
  shows "in_frame n (t @ [c]) (rx_byte c r)"
proof -
  have fcs: "fcs_fold PPP_INITFCS (t @ [c]) = ucast (PPP_FCS (ucast (inFCS r)) c)" and n: "rx_bufs r = n"
    using r by (simp_all add: in_frame_def fcs_fold_append)
  consider "inState r \<in> {PDADDRESS, PDCONTROL, PDPROTOCOL1, PDPROTOCOL2}" "inHead r = []" "inTail r = NoTail" |
      d where "inState r = PDDATA" "length d \<le> length t" "rx_inv r (rx_pd r, inProtocol r) d"
    using r by (auto simp: in_frame_def)
  then show ?thesis
  proof cases
    case 1
    let ?r = "rx_switch (inState r) c r"
    have "inState ?r \<in> {PDADDRESS, PDCONTROL, PDPROTOCOL1, PDPROTOCOL2, PDDATA} \<and> inHead ?r = [] \<and> inTail ?r = NoTail \<and>
        rx_pool ?r = rx_pool r \<and> inFCS ?r = inFCS r"
      using 1 by (auto simp: rx_address_def rx_control_def rx_protocol1_def split: if_splits)
    moreover from this have "rx_inv (?r\<lparr>inFCS := x\<rparr>) h []" for h x
      by (simp add: rx_inv_def)
    ultimately show ?thesis
      using n 1 unfolding in_frame_def fcs rx_byte_def Let_def by (auto simp: rx_bufs_def intro!: exI [of _ "[]"])
  next
    case (2 d)
    then have "INPUT_HEADER + length d < PBUF_POOL_BUFSIZE * rx_bufs r"
      using room n by simp
    with rx_byte_data [OF 2(1,3), of c] 2(2) n show ?thesis
      unfolding in_frame_def fcs by (intro conjI disjI2 exI [of _ "d @ [c]"]) simp_all
  qed
qed

lemma in_frame_bytes:
  assumes "rx_ready rx"
  shows "INPUT_HEADER + length t \<le> PBUF_POOL_BUFSIZE * rx_pool rx \<Longrightarrow> in_frame (rx_pool rx) t (rx_bytes t rx)"
proof (induction t rule: rev_induct)
  case Nil
  then show ?case
    using assms by (simp add: in_frame_def rx_ready_def rx_bufs_def)
next
  case (snoc c t)
  then show ?case
    using in_frame_byte [of "rx_pool rx" t "rx_bytes t rx" c] by simp
qed

lemma bad_frame_dropped:
  assumes rx: "rx_ready rx" "accm_ok out (inACCM rx)" and bad: "fcs_fold PPP_INITFCS t \<noteq> PPP_GOODFCS"
    and room: "INPUT_HEADER + length t \<le> PBUF_POOL_BUFSIZE * rx_pool rx"
  shows "\<exists>rx'. pppInProc post rx (escape out t @ [PPP_FLAG]) = Some rx' \<and> rx_ready rx' \<and>
    rx_posted rx' = rx_posted rx \<and> rx_pool rx' = rx_pool rx"
proof -
  define r where "r = rx_bytes t rx"
  have run: "pppInProc post rx (escape out t @ [PPP_FLAG]) = pppInProc post r [PPP_FLAG]"
    using rx_bytes_escape [OF rx(2), of post t "[PPP_FLAG]"] rx(1) by (simp add: r_def rx_ready_def)
  have e: "ESCAPE_P (inACCM r) PPP_FLAG" "PPP_FLAG \<noteq> PPP_ESCAPE" "rx_posted r = rx_posted rx"
    using rx(2) by (simp_all add: r_def accm_ok_def PPP_FLAG_def PPP_ESCAPE_def)
  note a = in_frame_bytes [OF rx(1) room, folded r_def, unfolded in_frame_def]
  then have fcs: "inFCS r \<noteq> PPP_GOODFCS"
    using bad by simp
  have "pppDrop r = r \<and> inHead r = [] \<and> inTail r = NoTail \<or> (\<exists>h d. rx_inv r h d)"
    using a by (auto simp: pppDrop_def)
  then have "inHead (pppDrop r) = [] \<and> inTail (pppDrop r) = NoTail \<and> rx_bufs (pppDrop r) = rx_bufs r \<and> rx_posted (pppDrop r) = rx_posted r"
    using pppDrop_all by metis
  with a have d: "inHead (pppDrop r) = []" "inTail (pppDrop r) = NoTail" "rx_pool (pppDrop r) = rx_pool rx" "rx_posted (pppDrop r) = rx_posted rx"
    using e(3) by (auto simp: rx_bufs_def)
  from a have "inState r = PDADDRESS \<and> inHead r = [] \<and> inTail r = NoTail \<and> rx_pool r = rx_pool rx \<or> inState r \<in> {PDCONTROL, PDPROTOCOL1, PDPROTOCOL2} \<or> inState r = PDDATA"
    by (auto simp: rx_bufs_def)
  with run e fcs d show ?thesis
    by (auto simp: rx_char_def rx_flag_def Let_def rx_ready_def)
qed

text \<open>
  C26: a frame in which one byte has been changed is dropped, wherever the byte is in the header, the data or the check
  sequence, and the receiver is ready for the next one, with all its buffers free. The byte is one of the frame, before
  control characters are escaped: a change on the line that makes or removes a flag or an escape is not covered.
\<close>

lemma corrupted_frame_dropped:
  assumes rx: "rx_ready rx" "accm_ok out (inACCM rx)" and s: "s = pkt @ fcs_bytes (fcs_of pkt)" and c: "i < length s" "v \<noteq> s ! i"
    and room: "INPUT_HEADER + length s \<le> PBUF_POOL_BUFSIZE * rx_pool rx"
  shows "frame out pkt = escape out s @ [PPP_FLAG] \<and>
    (\<exists>rx'. pppInProc post rx (escape out (s[i := v]) @ [PPP_FLAG]) = Some rx' \<and> rx_ready rx' \<and>
      rx_posted rx' = rx_posted rx \<and> rx_pool rx' = rx_pool rx)"
proof -
  from FCS_fold_update [OF INITFCS_small c] have "fcs_fold PPP_INITFCS (s[i := v]) \<noteq> fcs_fold PPP_INITFCS s"
    unfolding fcs_fold_def by (metis small_ucast FCS_fold_small INITFCS_small)
  moreover have "fcs_fold PPP_INITFCS s = PPP_GOODFCS"
    using fcs_fold_good [of pkt] by (simp add: s)
  ultimately have "fcs_fold PPP_INITFCS (s[i := v]) \<noteq> PPP_GOODFCS"
    by simp
  from bad_frame_dropped [OF rx this] room show ?thesis
    by (simp add: s frame_def)
qed

lemma ex_maps: "accm_ok (load_accm 0x000A0000 init_accm) (inACCM ex_receiver)"
  using link_maps [OF conjunct1 [OF ex_link [of 0]] conjunct2 [OF ex_link [of 0]]] by (simp add: ex_sender_def)

lemma ex_escape:
  "ESCAPE_P (inACCM ex_receiver) c \<longleftrightarrow> (unat c < 32 \<and> bit (0x00020000 :: u32) (unat c)) \<or> c = PPP_ESCAPE \<or> c = PPP_FLAG"
proof -
  have "inACCM ex_receiver = inACCM (ppp_recv_config 0x00020000 (ex_receiver\<lparr>inACCM := init_accm\<rparr>))"
    by (simp add: ex_receiver_def ppp_recv_config_def)
  then show ?thesis
    by (simp only: recv_map)
qed

lemma ex_ready: "rx_ready ex_receiver"
  by (simp add: ex_receiver_def rx_ready_def)

text \<open>The address byte is hit.\<close>

lemma corrupted_frame_dropped_witness:
  "\<exists>rx'. pppInProc (\<lambda>_. True) ex_receiver (escape (load_accm 0x000A0000 init_accm)
      (([0xff, 3, 0, 0x21, 1, 2] @ fcs_bytes (fcs_of [0xff, 3, 0, 0x21, 1, 2])) [0 := 7]) @ [PPP_FLAG]) = Some rx' \<and> rx_posted rx' = []"
proof -
  define s where "s = [0xff, 3, 0, 0x21, 1, 2] @ fcs_bytes (fcs_of [0xff, 3, 0, 0x21, 1, 2])"
  have c: "0 < length s" "7 \<noteq> s ! 0"
    by (simp_all add: s_def)
  have room: "INPUT_HEADER + length s \<le> PBUF_POOL_BUFSIZE * rx_pool ex_receiver"
    by (simp add: s_def fcs_bytes_def INPUT_HEADER_def PBUF_POOL_BUFSIZE_def ex_receiver_def)
  have "rx_posted ex_receiver = []"
    by (simp add: ex_receiver_def)
  with corrupted_frame_dropped [where post = "\<lambda>_. True", OF ex_ready ex_maps s_def c room] show ?thesis
    unfolding s_def by metis
qed

text \<open>
  C27: whatever bytes arrive, no buffer is lost or used twice: each is free, part of the packet being
  received, or part of a packet passed on.
\<close>

lemma receiver_conserves_buffers:
  assumes "rx_safe rx" and "pppInProc post rx s = Some rx'"
  shows "rx_safe rx' \<and> rx_pool rx' + length (inHead rx') + (case inTail rx' of OwnTail t \<Rightarrow> 1 | _ \<Rightarrow> 0) +
    sum_list (map length (rx_posted rx')) = rx_total rx"
  using pppInProc_safe [OF assms] by (simp add: rx_total_def rx_bufs_def)

lemma ex_safe: "rx_safe ex_receiver"
  by (simp add: ex_receiver_def rx_safe_def)

lemma receiver_conserves_buffers_witness:
  "\<exists>rx'. pppInProc (\<lambda>_. True) ex_receiver [0x21, 1, 2, 3] = Some rx' \<and> rx_pool rx' + length (inHead rx') +
    (case inTail rx' of OwnTail t \<Rightarrow> 1 | _ \<Rightarrow> 0) + sum_list (map length (rx_posted rx')) = 5"
proof -
  have "\<not> ESCAPE_P (inACCM ex_receiver) c" if "unat c \<in> {1, 2, 3, 33}" for c
    using that by (auto simp: ex_escape PPP_ESCAPE_def PPP_FLAG_def bit_simps)
  then have "pppInProc (\<lambda>_. True) ex_receiver [0x21, 1, 2, 3] =
      Some (rx_byte 3 (rx_byte 2 (rx_byte 1 (rx_byte 0x21 ex_receiver))))"
    by (simp add: rx_char_def) (simp add: ex_receiver_def)
  moreover have "rx_total ex_receiver = 5"
    by (simp add: rx_total_def rx_bufs_def ex_receiver_def)
  ultimately show ?thesis
    using receiver_conserves_buffers [OF ex_safe] by fastforce
qed

text \<open>
  The receiver fails in one case only: at the flag that ends a frame whose header is complete,
  whose check sequence is good and which holds no data; its last buffer is then a null pointer.
\<close>

lemma receiver_failure:
  assumes "rx_safe rx"
  shows "pppInProc post rx s = None \<longleftrightarrow> (\<exists>s1 s2 rx1. s = s1 @ PPP_FLAG # s2 \<and> pppInProc post rx s1 = Some rx1 \<and>
    ESCAPE_P (inACCM rx1) PPP_FLAG \<and> inState rx1 = PDDATA \<and> inFCS rx1 = PPP_GOODFCS \<and> inTail rx1 = NoTail)"
  unfolding pppInProc_None [OF assms, of post s] empty_good_frame_def by blast

lemma receiver_failure_witness: "pppInProc (\<lambda>_. True) ex_receiver [0, 0, PPP_FLAG] = None"
proof -
  have f: "ESCAPE_P (inACCM ex_receiver) PPP_FLAG" "\<not> ESCAPE_P (inACCM ex_receiver) 0"
    by (simp_all add: ex_escape PPP_ESCAPE_def PPP_FLAG_def bit_simps)
  let ?rx = "ex_receiver\<lparr>inState := PDDATA, inFCS := PPP_GOODFCS\<rparr>"
  have fcs: "ucast (PPP_FCS (ucast (ucast (PPP_FCS (ucast PPP_INITFCS) 0) :: u16)) 0) = PPP_GOODFCS"
    by (simp add: PPP_FCS_def PPP_INITFCS_def PPP_GOODFCS_def fcstab_def)
  have "rx_byte 0 (rx_byte 0 ex_receiver) = ?rx"
    by (simp add: rx_byte_def rx_address_def rx_control_def rx_protocol1_def ex_receiver_def fcs PPP_ALLSTATIONS_def PPP_UI_def)
  then have "pppInProc (\<lambda>_. True) ex_receiver [0, 0] = Some ?rx"
    using f(2) by (simp add: rx_char_def) (simp add: ex_receiver_def)
  moreover have "[0, 0, PPP_FLAG] = [0, 0] @ PPP_FLAG # []"
    by simp
  moreover have "ESCAPE_P (inACCM ?rx) PPP_FLAG \<and> inState ?rx = PDDATA \<and> inFCS ?rx = PPP_GOODFCS \<and> inTail ?rx = NoTail"
    using f(1) by (simp add: ex_receiver_def)
  ultimately show ?thesis
    using receiver_failure [OF ex_safe, of "\<lambda>_. True" "[0, 0, PPP_FLAG]"] by blast
qed

end
