(* ===== verification/Ppp_Fsm.thy ===== *)
theory Ppp_Fsm
  imports Lwip_Def
begin

text \<open>
  The option negotiation automaton of PPP (\<open>lwip/netif/ppp/fsm.c\<close>), which LCP and IPCP run.

  The record \<open>fsm\<close> has the fields of the C structure, and two for what the functions do outside it:
  \<open>timer\<close> counts the pending timeouts of the automaton, and \<open>sent\<close> lists the packets handed to
  \<open>pppWrite\<close>. The record is extensible: a protocol adds its own state, and its callbacks work on the whole.
  The callbacks are an argument; a missing callback is \<open>None\<close>.
\<close>

unbundle bit_operations_syntax

section \<open>State\<close>

datatype ls = LS_INITIAL | LS_STARTING | LS_CLOSED | LS_STOPPED | LS_CLOSING | LS_STOPPING
  | LS_REQSENT | LS_ACKRCVD | LS_ACKSENT | LS_OPENED

definition CONFREQ :: u8 where "CONFREQ = 1"
definition CONFACK :: u8 where "CONFACK = 2"
definition CONFNAK :: u8 where "CONFNAK = 3"
definition CONFREJ :: u8 where "CONFREJ = 4"
definition TERMREQ :: u8 where "TERMREQ = 5"
definition TERMACK :: u8 where "TERMACK = 6"
definition CODEREJ :: u8 where "CODEREJ = 7"
definition HEADERLEN :: int where "HEADERLEN = 4"
definition FSM_DEFTIMEOUT :: int where "FSM_DEFTIMEOUT = 6"
definition FSM_DEFMAXTERMREQS :: int where "FSM_DEFMAXTERMREQS = 2"
definition FSM_DEFMAXCONFREQS :: int where "FSM_DEFMAXCONFREQS = 10"
definition FSM_DEFMAXNAKLOOPS :: int where "FSM_DEFMAXNAKLOOPS = 5"

record fsm =
  protocol :: u16
  st :: ls
  opt_passive :: bool
  opt_restart :: bool
  opt_silent :: bool
  f_id :: u8
  reqid :: u8
  seen_ack :: bool
  timeouttime :: int
  maxconfreqtransmits :: int
  retransmits :: int
  maxtermtransmits :: int
  nakloops :: int
  maxnakloops :: int
  term_reason :: "u8 list"
  peer_mru :: int
  timer :: nat
  sent :: "u8 list list"

type_synonym 'a cb = "'a fsm_scheme \<Rightarrow> 'a fsm_scheme"

record 'a fsm_callbacks =
  resetci :: "'a cb option"
  cilen :: "('a fsm_scheme \<Rightarrow> int) option"
  addci :: "('a fsm_scheme \<Rightarrow> int \<Rightarrow> u8 list \<times> 'a fsm_scheme) option"
  ackci :: "('a fsm_scheme \<Rightarrow> u8 list \<Rightarrow> bool \<times> 'a fsm_scheme) option"
  nakci :: "('a fsm_scheme \<Rightarrow> u8 list \<Rightarrow> int \<times> 'a fsm_scheme) option"
  rejci :: "('a fsm_scheme \<Rightarrow> u8 list \<Rightarrow> int \<times> 'a fsm_scheme) option"
  reqci :: "('a fsm_scheme \<Rightarrow> u8 list \<Rightarrow> bool \<Rightarrow> u8 \<times> u8 list \<times> 'a fsm_scheme) option"
  cb_up :: "'a cb option"
  cb_down :: "'a cb option"
  cb_starting :: "'a cb option"
  cb_finished :: "'a cb option"
  cb_retransmit :: "'a cb option"
  cb_extcode :: "('a fsm_scheme \<Rightarrow> u8 \<Rightarrow> u8 \<Rightarrow> u8 list \<Rightarrow> bool \<times> 'a fsm_scheme) option"

definition call :: "'a cb option \<Rightarrow> 'a fsm_scheme \<Rightarrow> 'a fsm_scheme" where
  "call cb f = (case cb of None \<Rightarrow> f | Some g \<Rightarrow> g f)"

text \<open>
  A pending timeout is removed before a new one is set. Setting one always succeeds here; in the code \<open>sys_timeout\<close> takes an
  entry of a pool, which other protocols share.
\<close>

definition UNTIMEOUT :: "'a fsm_scheme \<Rightarrow> 'a fsm_scheme" where
  "UNTIMEOUT f = f\<lparr>timer := timer f - 1\<rparr>"

definition TIMEOUT :: "'a fsm_scheme \<Rightarrow> 'a fsm_scheme" where
  "TIMEOUT f = (let f = UNTIMEOUT f in f\<lparr>timer := timer f + 1\<rparr>)"

section \<open>Sending\<close>

text \<open>The packet: the link header, code, identifier and length, and the data cut to the peer's size.\<close>

definition fsm_packet :: "u16 \<Rightarrow> u8 \<Rightarrow> u8 \<Rightarrow> u8 list \<Rightarrow> u8 list" where
  "fsm_packet proto code i data =
     (let outlen = word_of_int (int (length data) + HEADERLEN) :: u16
      in [0xff, 0x03, hi8 proto, lo8 proto, code, i, hi8 outlen, lo8 outlen] @ data)"

definition fsm_sdata :: "u8 \<Rightarrow> u8 \<Rightarrow> u8 list \<Rightarrow> 'a fsm_scheme \<Rightarrow> 'a fsm_scheme" where
  "fsm_sdata code i data f =
     (let datalen = (if peer_mru f - HEADERLEN < int (length data) then peer_mru f - HEADERLEN else int (length data))
      in f\<lparr>sent := sent f @ [fsm_packet (protocol f) code i (take (nat datalen) data)]\<rparr>)"

text \<open>The options of a request, cut to the peer's size.\<close>

definition request_ci :: "'a fsm_callbacks \<Rightarrow> 'a fsm_scheme \<Rightarrow> u8 list \<times> 'a fsm_scheme" where
  "request_ci cbs f =
     (case (cilen cbs, addci cbs) of
        (Some len, Some add) \<Rightarrow> add f (if peer_mru f - HEADERLEN < len f then peer_mru f - HEADERLEN else len f)
      | _ \<Rightarrow> ([], f))"

definition fsm_sconfreq :: "'a fsm_callbacks \<Rightarrow> bool \<Rightarrow> 'a fsm_scheme \<Rightarrow> 'a fsm_scheme" where
  "fsm_sconfreq cbs retransmit f =
     (let f = (if st f \<noteq> LS_REQSENT \<and> st f \<noteq> LS_ACKRCVD \<and> st f \<noteq> LS_ACKSENT
               then (call (resetci cbs) f)\<lparr>nakloops := 0\<rparr> else f);
          f = (if \<not> retransmit
               then f\<lparr>retransmits := maxconfreqtransmits f, f_id := f_id f + 1, reqid := f_id f + 1\<rparr> else f);
          f = f\<lparr>seen_ack := False\<rparr>;
          (ci, f) = request_ci cbs f;
          f = fsm_sdata CONFREQ (reqid f) ci f;
          f = f\<lparr>retransmits := retransmits f - 1\<rparr>
      in TIMEOUT f)"

definition send_termreq :: "'a fsm_scheme \<Rightarrow> 'a fsm_scheme" where
  "send_termreq f =
     (let f = f\<lparr>f_id := f_id f + 1, reqid := f_id f + 1\<rparr>;
          f = TIMEOUT (fsm_sdata TERMREQ (reqid f) (term_reason f) f)
      in f\<lparr>retransmits := retransmits f - 1\<rparr>)"

section \<open>Events from below and above\<close>

definition fsm_init :: "'a fsm_scheme \<Rightarrow> 'a fsm_scheme" where
  "fsm_init f = f\<lparr>st := LS_INITIAL, opt_passive := False, opt_restart := False, opt_silent := False, f_id := 0,
     timeouttime := FSM_DEFTIMEOUT, maxconfreqtransmits := FSM_DEFMAXCONFREQS, maxtermtransmits := FSM_DEFMAXTERMREQS,
     maxnakloops := FSM_DEFMAXNAKLOOPS, term_reason := []\<rparr>"

definition fsm_lowerup :: "'a fsm_callbacks \<Rightarrow> 'a fsm_scheme \<Rightarrow> 'a fsm_scheme" where
  "fsm_lowerup cbs f =
     (case st f of
        LS_INITIAL \<Rightarrow> f\<lparr>st := LS_CLOSED\<rparr>
      | LS_STARTING \<Rightarrow>
          if opt_silent f then f\<lparr>st := LS_STOPPED\<rparr> else (fsm_sconfreq cbs False f)\<lparr>st := LS_REQSENT\<rparr>
      | _ \<Rightarrow> f)"

definition fsm_lowerdown :: "'a fsm_callbacks \<Rightarrow> 'a fsm_scheme \<Rightarrow> 'a fsm_scheme" where
  "fsm_lowerdown cbs f =
     (case st f of
        LS_CLOSED \<Rightarrow> f\<lparr>st := LS_INITIAL\<rparr>
      | LS_STOPPED \<Rightarrow> call (cb_starting cbs) (f\<lparr>st := LS_STARTING\<rparr>)
      | LS_CLOSING \<Rightarrow> UNTIMEOUT (f\<lparr>st := LS_INITIAL\<rparr>)
      | LS_STOPPING \<Rightarrow> UNTIMEOUT (f\<lparr>st := LS_STARTING\<rparr>)
      | LS_REQSENT \<Rightarrow> UNTIMEOUT (f\<lparr>st := LS_STARTING\<rparr>)
      | LS_ACKRCVD \<Rightarrow> UNTIMEOUT (f\<lparr>st := LS_STARTING\<rparr>)
      | LS_ACKSENT \<Rightarrow> UNTIMEOUT (f\<lparr>st := LS_STARTING\<rparr>)
      | LS_OPENED \<Rightarrow> (call (cb_down cbs) f)\<lparr>st := LS_STARTING\<rparr>
      | _ \<Rightarrow> f)"

definition fsm_open :: "'a fsm_callbacks \<Rightarrow> 'a fsm_scheme \<Rightarrow> 'a fsm_scheme" where
  "fsm_open cbs f =
     (let restart = (\<lambda>f. if opt_restart f then fsm_lowerup cbs (fsm_lowerdown cbs f) else f)
      in case st f of
        LS_INITIAL \<Rightarrow> call (cb_starting cbs) (f\<lparr>st := LS_STARTING\<rparr>)
      | LS_CLOSED \<Rightarrow>
          if opt_silent f then f\<lparr>st := LS_STOPPED\<rparr> else (fsm_sconfreq cbs False f)\<lparr>st := LS_REQSENT\<rparr>
      | LS_CLOSING \<Rightarrow> restart (f\<lparr>st := LS_STOPPING\<rparr>)
      | LS_STOPPED \<Rightarrow> restart f
      | LS_OPENED \<Rightarrow> restart f
      | _ \<Rightarrow> f)"

definition fsm_close :: "'a fsm_callbacks \<Rightarrow> u8 list \<Rightarrow> 'a fsm_scheme \<Rightarrow> 'a fsm_scheme" where
  "fsm_close cbs reason f0 =
     (let f = f0\<lparr>term_reason := reason\<rparr>;
          terminate = (\<lambda>f. (send_termreq (f\<lparr>retransmits := maxtermtransmits f\<rparr>))\<lparr>st := LS_CLOSING\<rparr>)
      in case st f of
        LS_STARTING \<Rightarrow> f\<lparr>st := LS_INITIAL\<rparr>
      | LS_STOPPED \<Rightarrow> f\<lparr>st := LS_CLOSED\<rparr>
      | LS_STOPPING \<Rightarrow> f\<lparr>st := LS_CLOSING\<rparr>
      | LS_REQSENT \<Rightarrow> terminate (UNTIMEOUT f)
      | LS_ACKRCVD \<Rightarrow> terminate (UNTIMEOUT f)
      | LS_ACKSENT \<Rightarrow> terminate (UNTIMEOUT f)
      | LS_OPENED \<Rightarrow> terminate (call (cb_down cbs) f)
      | _ \<Rightarrow> f)"

definition fsm_timeout :: "'a fsm_callbacks \<Rightarrow> 'a fsm_scheme \<Rightarrow> 'a fsm_scheme" where
  "fsm_timeout cbs f =
     (let stop = (\<lambda>f. if retransmits f \<le> 0
                      then call (cb_finished cbs) (f\<lparr>st := (if st f = LS_CLOSING then LS_CLOSED else LS_STOPPED)\<rparr>)
                      else send_termreq f);
          req = (\<lambda>f. if retransmits f \<le> 0
                     then let f = f\<lparr>st := LS_STOPPED\<rparr> in if \<not> opt_passive f then call (cb_finished cbs) f else f
                     else let f = fsm_sconfreq cbs True (call (cb_retransmit cbs) f)
                       in if st f = LS_ACKRCVD then f\<lparr>st := LS_REQSENT\<rparr> else f)
      in case st f of
        LS_CLOSING \<Rightarrow> stop f
      | LS_STOPPING \<Rightarrow> stop f
      | LS_REQSENT \<Rightarrow> req f
      | LS_ACKRCVD \<Rightarrow> req f
      | LS_ACKSENT \<Rightarrow> req f
      | _ \<Rightarrow> f)"

section \<open>Packets received\<close>

text \<open>The verdict on the requested options: the callback's, or all rejected, or an empty request accepted.\<close>

definition check_ci :: "'a fsm_callbacks \<Rightarrow> u8 list \<Rightarrow> 'a fsm_scheme \<Rightarrow> u8 \<times> u8 list \<times> 'a fsm_scheme" where
  "check_ci cbs inp f =
     (case reqci cbs of
        Some g \<Rightarrow> g f inp (maxnakloops f \<le> nakloops f)
      | None \<Rightarrow> (if inp \<noteq> [] then (CONFREJ, inp, f) else (CONFACK, inp, f)))"

definition fsm_rconfreq :: "'a fsm_callbacks \<Rightarrow> u8 \<Rightarrow> u8 list \<Rightarrow> 'a fsm_scheme \<Rightarrow> 'a fsm_scheme" where
  "fsm_rconfreq cbs i inp f =
     (let reply = (\<lambda>f.
        let (code, inp, f) = check_ci cbs inp f;
            f = fsm_sdata code i inp f
        in if code = CONFACK
           then
             let f = (if st f = LS_ACKRCVD then call (cb_up cbs) ((UNTIMEOUT f)\<lparr>st := LS_OPENED\<rparr>)
                      else f\<lparr>st := LS_ACKSENT\<rparr>)
             in f\<lparr>nakloops := 0\<rparr>
           else
             let f = (if st f \<noteq> LS_ACKRCVD then f\<lparr>st := LS_REQSENT\<rparr> else f)
             in if code = CONFNAK then f\<lparr>nakloops := nakloops f + 1\<rparr> else f)
      in case st f of
        LS_CLOSED \<Rightarrow> fsm_sdata TERMACK i [] f
      | LS_CLOSING \<Rightarrow> f
      | LS_STOPPING \<Rightarrow> f
      | LS_OPENED \<Rightarrow> reply (fsm_sconfreq cbs False (call (cb_down cbs) f))
      | LS_STOPPED \<Rightarrow> reply ((fsm_sconfreq cbs False f)\<lparr>st := LS_REQSENT\<rparr>)
      | _ \<Rightarrow> reply f)"

text \<open>Whether the acknowledged options are the requested ones; without a callback, an empty list.\<close>

definition check_ack :: "'a fsm_callbacks \<Rightarrow> u8 list \<Rightarrow> 'a fsm_scheme \<Rightarrow> bool \<times> 'a fsm_scheme" where
  "check_ack cbs inp f = (case ackci cbs of Some g \<Rightarrow> g f inp | None \<Rightarrow> (inp = [], f))"

definition fsm_rconfack :: "'a fsm_callbacks \<Rightarrow> u8 \<Rightarrow> u8 list \<Rightarrow> 'a fsm_scheme \<Rightarrow> 'a fsm_scheme" where
  "fsm_rconfack cbs i inp f =
     (if i \<noteq> reqid f \<or> seen_ack f then f
      else
        let (ok, f) = check_ack cbs inp f
        in if \<not> ok then f
           else
             let f = f\<lparr>seen_ack := True\<rparr>
             in case st f of
               LS_CLOSED \<Rightarrow> fsm_sdata TERMACK i [] f
             | LS_STOPPED \<Rightarrow> fsm_sdata TERMACK i [] f
             | LS_REQSENT \<Rightarrow> f\<lparr>st := LS_ACKRCVD, retransmits := maxconfreqtransmits f\<rparr>
             | LS_ACKRCVD \<Rightarrow> (fsm_sconfreq cbs False (UNTIMEOUT f))\<lparr>st := LS_REQSENT\<rparr>
             | LS_ACKSENT \<Rightarrow> call (cb_up cbs) ((UNTIMEOUT f)\<lparr>st := LS_OPENED, retransmits := maxconfreqtransmits f\<rparr>)
             | LS_OPENED \<Rightarrow> (fsm_sconfreq cbs False (call (cb_down cbs) f))\<lparr>st := LS_REQSENT\<rparr>
             | _ \<Rightarrow> f)"

definition fsm_rconfnakrej :: "'a fsm_callbacks \<Rightarrow> u8 \<Rightarrow> u8 \<Rightarrow> u8 list \<Rightarrow> 'a fsm_scheme \<Rightarrow> 'a fsm_scheme" where
  "fsm_rconfnakrej cbs code i inp f =
     (if i \<noteq> reqid f \<or> seen_ack f then f
      else
        let (ret, f) = (case (if code = CONFNAK then nakci cbs else rejci cbs) of Some proc \<Rightarrow> proc f inp | None \<Rightarrow> (0, f))
        in if ret = 0 then f
           else
             let f = f\<lparr>seen_ack := True\<rparr>;
                 again = (\<lambda>f. if ret < 0 then (UNTIMEOUT f)\<lparr>st := LS_STOPPED\<rparr> else fsm_sconfreq cbs False (UNTIMEOUT f))
             in case st f of
               LS_CLOSED \<Rightarrow> fsm_sdata TERMACK i [] f
             | LS_STOPPED \<Rightarrow> fsm_sdata TERMACK i [] f
             | LS_REQSENT \<Rightarrow> again f
             | LS_ACKSENT \<Rightarrow> again f
             | LS_ACKRCVD \<Rightarrow> (fsm_sconfreq cbs False (UNTIMEOUT f))\<lparr>st := LS_REQSENT\<rparr>
             | LS_OPENED \<Rightarrow> (fsm_sconfreq cbs False (call (cb_down cbs) f))\<lparr>st := LS_REQSENT\<rparr>
             | _ \<Rightarrow> f)"

definition fsm_rtermreq :: "'a fsm_callbacks \<Rightarrow> u8 \<Rightarrow> 'a fsm_scheme \<Rightarrow> 'a fsm_scheme" where
  "fsm_rtermreq cbs i f =
     fsm_sdata TERMACK i []
       (case st f of
          LS_ACKRCVD \<Rightarrow> f\<lparr>st := LS_REQSENT\<rparr>
        | LS_ACKSENT \<Rightarrow> f\<lparr>st := LS_REQSENT\<rparr>
        | LS_OPENED \<Rightarrow> TIMEOUT ((call (cb_down cbs) f)\<lparr>retransmits := 0, st := LS_STOPPING\<rparr>)
        | _ \<Rightarrow> f)"

definition fsm_rtermack :: "'a fsm_callbacks \<Rightarrow> 'a fsm_scheme \<Rightarrow> 'a fsm_scheme" where
  "fsm_rtermack cbs f =
     (case st f of
        LS_CLOSING \<Rightarrow> call (cb_finished cbs) ((UNTIMEOUT f)\<lparr>st := LS_CLOSED\<rparr>)
      | LS_STOPPING \<Rightarrow> call (cb_finished cbs) ((UNTIMEOUT f)\<lparr>st := LS_STOPPED\<rparr>)
      | LS_ACKRCVD \<Rightarrow> f\<lparr>st := LS_REQSENT\<rparr>
      | LS_OPENED \<Rightarrow> fsm_sconfreq cbs False (call (cb_down cbs) f)
      | _ \<Rightarrow> f)"

definition fsm_rcoderej :: "u8 list \<Rightarrow> 'a fsm_scheme \<Rightarrow> 'a fsm_scheme" where
  "fsm_rcoderej inp f =
     (if int (length inp) < HEADERLEN then f
      else if st f = LS_ACKRCVD then f\<lparr>st := LS_REQSENT\<rparr> else f)"

text \<open>The packet is the bytes after the protocol field; its length field may be smaller than the bytes received.\<close>

definition fsm_input :: "'a fsm_callbacks \<Rightarrow> u8 list \<Rightarrow> 'a fsm_scheme \<Rightarrow> 'a fsm_scheme" where
  "fsm_input cbs inpacket f =
     (if int (length inpacket) < HEADERLEN then f
      else
        let code = inpacket ! 0; i = inpacket ! 1;
            len = int (unat (be16 (inpacket ! 2) (inpacket ! 3)))
        in if len < HEADERLEN then f
           else if int (length inpacket) < len then f
           else
             let inp = take (nat (len - HEADERLEN)) (drop 4 inpacket)
             in if st f = LS_INITIAL \<or> st f = LS_STARTING then f
                else if code = CONFREQ then fsm_rconfreq cbs i inp f
                else if code = CONFACK then fsm_rconfack cbs i inp f
                else if code = CONFNAK \<or> code = CONFREJ then fsm_rconfnakrej cbs code i inp f
                else if code = TERMREQ then fsm_rtermreq cbs i f
                else if code = TERMACK then fsm_rtermack cbs f
                else if code = CODEREJ then fsm_rcoderej inp f
                else
                  let (ok, f) = (case cb_extcode cbs of Some g \<Rightarrow> g f code i inp | None \<Rightarrow> (False, f))
                  in if ok then f
                     else let f = f\<lparr>f_id := f_id f + 1\<rparr> in fsm_sdata CODEREJ (f_id f) (take (nat len) inpacket) f)"

definition fsm_protreject :: "'a fsm_callbacks \<Rightarrow> 'a fsm_scheme \<Rightarrow> 'a fsm_scheme" where
  "fsm_protreject cbs f =
     (let stop = (\<lambda>f. call (cb_finished cbs) (f\<lparr>st := LS_STOPPED\<rparr>))
      in case st f of
        LS_CLOSING \<Rightarrow> call (cb_finished cbs) ((UNTIMEOUT f)\<lparr>st := LS_CLOSED\<rparr>)
      | LS_CLOSED \<Rightarrow> call (cb_finished cbs) (f\<lparr>st := LS_CLOSED\<rparr>)
      | LS_STOPPING \<Rightarrow> stop (UNTIMEOUT f)
      | LS_REQSENT \<Rightarrow> stop (UNTIMEOUT f)
      | LS_ACKRCVD \<Rightarrow> stop (UNTIMEOUT f)
      | LS_ACKSENT \<Rightarrow> stop (UNTIMEOUT f)
      | LS_STOPPED \<Rightarrow> stop f
      | LS_OPENED \<Rightarrow>
          let f = call (cb_down cbs) f
          in (send_termreq (f\<lparr>retransmits := maxtermtransmits f\<rparr>))\<lparr>st := LS_STOPPING\<rparr>
      | _ \<Rightarrow> f)"

section \<open>The automaton\<close>

datatype event = LowerUp | LowerDown | Open | Close "u8 list" | Timeout | Input "u8 list" | ProtReject

text \<open>A timeout that expires is no longer pending when its handler runs.\<close>

definition fsm_event :: "'a fsm_callbacks \<Rightarrow> event \<Rightarrow> 'a fsm_scheme \<Rightarrow> 'a fsm_scheme" where
  "fsm_event cbs e f =
     (case e of
        LowerUp \<Rightarrow> fsm_lowerup cbs f
      | LowerDown \<Rightarrow> fsm_lowerdown cbs f
      | Open \<Rightarrow> fsm_open cbs f
      | Close reason \<Rightarrow> fsm_close cbs reason f
      | Timeout \<Rightarrow> if 0 < timer f then fsm_timeout cbs (f\<lparr>timer := timer f - 1\<rparr>) else f
      | Input p \<Rightarrow> fsm_input cbs p f
      | ProtReject \<Rightarrow> fsm_protreject cbs f)"

definition fsm_run :: "'a fsm_callbacks \<Rightarrow> event list \<Rightarrow> 'a fsm_scheme \<Rightarrow> 'a fsm_scheme" where
  "fsm_run cbs es f = fold (fsm_event cbs) es f"

section \<open>The automaton never waits without a timeout\<close>

fun waiting :: "ls \<Rightarrow> bool" where
  "waiting LS_CLOSING = True"
| "waiting LS_STOPPING = True"
| "waiting LS_REQSENT = True"
| "waiting LS_ACKRCVD = True"
| "waiting LS_ACKSENT = True"
| "waiting _ = False"

definition fsm_inv :: "'a fsm_scheme \<Rightarrow> bool" where
  "fsm_inv f \<longleftrightarrow> maxconfreqtransmits f = FSM_DEFMAXCONFREQS \<and> maxtermtransmits f = FSM_DEFMAXTERMREQS \<and>
     (waiting (st f) \<longrightarrow> 0 < timer f \<and> 0 \<le> retransmits f \<and> retransmits f \<le> FSM_DEFMAXCONFREQS)"

section \<open>Well-behaved callbacks\<close>

text \<open>
  Two states with the same automaton: a protocol may have sent packets, changed its own state and the size of the
  peer's packets.
\<close>

definition same_core :: "'a fsm_scheme \<Rightarrow> 'a fsm_scheme \<Rightarrow> bool" where
  "same_core f g \<longleftrightarrow> st g = st f \<and> opt_passive g = opt_passive f \<and> opt_restart g = opt_restart f \<and> opt_silent g = opt_silent f \<and>
     f_id g = f_id f \<and> reqid g = reqid f \<and> seen_ack g = seen_ack f \<and> maxconfreqtransmits g = maxconfreqtransmits f \<and>
     retransmits g = retransmits f \<and> maxtermtransmits g = maxtermtransmits f \<and> nakloops g = nakloops f \<and>
     maxnakloops g = maxnakloops f \<and> protocol g = protocol f \<and> timer g = timer f"

definition keeps :: "'a cb option \<Rightarrow> bool" where
  "keeps cb \<longleftrightarrow> (\<forall>f. same_core f (call cb f))"

text \<open>
  A callback for a Nak, a Reject or a code of the protocol may also take the automaton down, as LCP does when the line
  is looped back.
\<close>

definition left :: "'a fsm_scheme \<Rightarrow> 'a fsm_scheme \<Rightarrow> bool" where
  "left f g \<longleftrightarrow> same_core f g \<or> st g \<in> {LS_INITIAL, LS_CLOSED, LS_CLOSING, LS_STOPPING} \<and> (fsm_inv f \<longrightarrow> fsm_inv g)"

definition callbacks_ok :: "'a fsm_callbacks \<Rightarrow> bool" where
  "callbacks_ok cbs \<longleftrightarrow> keeps (resetci cbs) \<and> keeps (cb_up cbs) \<and> keeps (cb_down cbs) \<and> keeps (cb_starting cbs) \<and>
     keeps (cb_finished cbs) \<and> keeps (cb_retransmit cbs) \<and>
     (\<forall>g f n. addci cbs = Some g \<longrightarrow> same_core f (snd (g f n))) \<and>
     (\<forall>g f p. ackci cbs = Some g \<longrightarrow> same_core f (snd (g f p))) \<and>
     (\<forall>g f p. nakci cbs = Some g \<longrightarrow> left f (snd (g f p))) \<and>
     (\<forall>g f p. rejci cbs = Some g \<longrightarrow> left f (snd (g f p))) \<and>
     (\<forall>g f p b. reqci cbs = Some g \<longrightarrow> same_core f (snd (snd (g f p b)))) \<and>
     (\<forall>g f c i p. cb_extcode cbs = Some g \<longrightarrow> left f (snd (g f c i p)))"

lemma same_core_refl [simp]: "same_core f f"
  by (simp add: same_core_def)

lemma keeps_core:
  assumes "callbacks_ok cbs"
  shows "same_core f (call (resetci cbs) f)" "same_core f (call (cb_up cbs) f)" "same_core f (call (cb_down cbs) f)"
    "same_core f (call (cb_starting cbs) f)" "same_core f (call (cb_finished cbs) f)" "same_core f (call (cb_retransmit cbs) f)"
  using assms by (simp_all add: callbacks_ok_def keeps_def)

lemmas core_simps = keeps_core [unfolded same_core_def]

lemma sdata_core [simp]: "same_core f (fsm_sdata c i d f)"
  by (simp add: fsm_sdata_def same_core_def Let_def)

lemmas sdata_simps [simp] = sdata_core [unfolded same_core_def]

lemma request_ci_core:
  assumes "callbacks_ok cbs" and "request_ci cbs f = (ci, g)"
  shows "same_core f g"
proof -
  have "same_core f (snd (request_ci cbs f))"
    using assms(1) by (auto simp: callbacks_ok_def request_ci_def split: option.split)
  with assms(2) show ?thesis
    by simp
qed

text \<open>A new request restarts the counter and the timer; the state is the caller's to set.\<close>

lemma sconfreq_simps:
  assumes "callbacks_ok cbs"
  shows "st (fsm_sconfreq cbs r f) = st f" "timer (fsm_sconfreq cbs r f) = timer f - 1 + 1"
    "retransmits (fsm_sconfreq cbs r f) = (if r then retransmits f else maxconfreqtransmits f) - 1"
    "maxconfreqtransmits (fsm_sconfreq cbs r f) = maxconfreqtransmits f"
    "maxtermtransmits (fsm_sconfreq cbs r f) = maxtermtransmits f"
    "opt_restart (fsm_sconfreq cbs r f) = opt_restart f" "opt_silent (fsm_sconfreq cbs r f) = opt_silent f"
    "opt_passive (fsm_sconfreq cbs r f) = opt_passive f"
    "\<not> seen_ack (fsm_sconfreq cbs r f)" "reqid (fsm_sconfreq cbs r f) = (if r then reqid f else f_id f + 1)"
proof -
  note q = request_ci_core [OF assms]
  define f1 where "f1 = (if st f \<noteq> LS_REQSENT \<and> st f \<noteq> LS_ACKRCVD \<and> st f \<noteq> LS_ACKSENT
               then (call (resetci cbs) f)\<lparr>nakloops := 0\<rparr> else f)"
  define f2 where "f2 = (if \<not> r
               then f1\<lparr>retransmits := maxconfreqtransmits f1, f_id := f_id f1 + 1, reqid := f_id f1 + 1\<rparr> else f1)"
  obtain ci g where g: "request_ci cbs (f2\<lparr>seen_ack := False\<rparr>) = (ci, g)"
    by fastforce
  have f1: "st f1 = st f" "maxconfreqtransmits f1 = maxconfreqtransmits f" "maxtermtransmits f1 = maxtermtransmits f"
      "retransmits f1 = retransmits f" "f_id f1 = f_id f" "reqid f1 = reqid f"
      "opt_restart f1 = opt_restart f" "opt_silent f1 = opt_silent f" "opt_passive f1 = opt_passive f" "timer f1 = timer f"
    by (simp_all add: f1_def core_simps [OF assms])
  have s: "fsm_sconfreq cbs r f = TIMEOUT ((fsm_sdata CONFREQ (reqid g) ci g)\<lparr>retransmits := retransmits g - 1\<rparr>)"
    by (simp add: fsm_sconfreq_def Let_def f1_def [symmetric] f2_def [symmetric] g)
  note c = q [OF g, unfolded same_core_def]
  show "st (fsm_sconfreq cbs r f) = st f" "timer (fsm_sconfreq cbs r f) = timer f - 1 + 1"
    "retransmits (fsm_sconfreq cbs r f) = (if r then retransmits f else maxconfreqtransmits f) - 1"
    "maxconfreqtransmits (fsm_sconfreq cbs r f) = maxconfreqtransmits f"
    "maxtermtransmits (fsm_sconfreq cbs r f) = maxtermtransmits f"
    "opt_restart (fsm_sconfreq cbs r f) = opt_restart f" "opt_silent (fsm_sconfreq cbs r f) = opt_silent f"
    "opt_passive (fsm_sconfreq cbs r f) = opt_passive f"
    "\<not> seen_ack (fsm_sconfreq cbs r f)" "reqid (fsm_sconfreq cbs r f) = (if r then reqid f else f_id f + 1)"
    unfolding s TIMEOUT_def UNTIMEOUT_def Let_def using c f1 by (simp_all add: f2_def)
qed

lemma send_termreq_simps [simp]:
  "st (send_termreq f) = st f" "timer (send_termreq f) = timer f - 1 + 1" "retransmits (send_termreq f) = retransmits f - 1"
  "maxconfreqtransmits (send_termreq f) = maxconfreqtransmits f" "maxtermtransmits (send_termreq f) = maxtermtransmits f"
  by (simp_all add: send_termreq_def Let_def TIMEOUT_def UNTIMEOUT_def)

lemmas fsm_defaults = FSM_DEFMAXCONFREQS_def FSM_DEFMAXTERMREQS_def

lemma fsm_inv_core: "same_core f g \<Longrightarrow> fsm_inv g = fsm_inv f"
  by (simp add: same_core_def fsm_inv_def)

lemma left_refl [simp]: "left f f"
  by (simp add: left_def)

lemma fsm_inv_left: "left f g \<Longrightarrow> fsm_inv f \<Longrightarrow> fsm_inv g"
  by (auto simp: left_def fsm_inv_core)

lemma left_opened: "left f g \<Longrightarrow> st f \<noteq> LS_OPENED \<Longrightarrow> st g \<noteq> LS_OPENED"
  by (auto simp: left_def same_core_def)

lemma fsm_inv_sdata [simp]: "fsm_inv (fsm_sdata c i d f) = fsm_inv f"
  by (rule fsm_inv_core) simp

lemma lowerup_inv: "callbacks_ok cbs \<Longrightarrow> fsm_inv f \<Longrightarrow> fsm_inv (fsm_lowerup cbs f)"
  by (cases "st f") (auto simp: fsm_lowerup_def fsm_inv_def fsm_defaults sconfreq_simps)

lemma lowerdown_inv: "callbacks_ok cbs \<Longrightarrow> fsm_inv f \<Longrightarrow> fsm_inv (fsm_lowerdown cbs f)"
  by (cases "st f") (auto simp: fsm_lowerdown_def fsm_inv_def UNTIMEOUT_def core_simps)

lemma open_inv: "callbacks_ok cbs \<Longrightarrow> fsm_inv f \<Longrightarrow> fsm_inv (fsm_open cbs f)"
proof -
  assume ok: "callbacks_ok cbs" and inv: "fsm_inv f"
  note restart = lowerup_inv [OF ok lowerdown_inv [OF ok]]
  show ?thesis
  proof (cases "st f")
    case LS_CLOSING
    then have "fsm_inv (f\<lparr>st := LS_STOPPING\<rparr>)"
      using inv by (simp add: fsm_inv_def)
    with LS_CLOSING restart show ?thesis
      by (simp add: fsm_open_def)
  qed (use inv restart [OF inv] ok in \<open>auto simp: fsm_open_def fsm_inv_def fsm_defaults sconfreq_simps core_simps\<close>)
qed

lemma close_inv: "callbacks_ok cbs \<Longrightarrow> fsm_inv f \<Longrightarrow> fsm_inv (fsm_close cbs reason f)"
  by (cases "st f") (auto simp: fsm_close_def fsm_inv_def fsm_defaults UNTIMEOUT_def core_simps)

lemma timeout_inv:
  assumes "callbacks_ok cbs" and "fsm_inv f"
  shows "fsm_inv (fsm_timeout cbs (f\<lparr>timer := n\<rparr>))"
  using assms
  by (cases "st f") (auto simp: fsm_timeout_def Let_def fsm_inv_def fsm_defaults core_simps sconfreq_simps)

lemma check_ci_core:
  assumes "callbacks_ok cbs" and "check_ci cbs inp f = (code, inp', g)"
  shows "same_core f g"
proof -
  have "same_core f (snd (snd (check_ci cbs inp f)))"
    using assms(1) by (auto simp: callbacks_ok_def check_ci_def split: option.split)
  with assms(2) show ?thesis
    by simp
qed

text \<open>The answer to a request: the verdict decides the next state.\<close>

definition rconf_reply :: "'a fsm_callbacks \<Rightarrow> u8 \<Rightarrow> u8 list \<Rightarrow> 'a fsm_scheme \<Rightarrow> 'a fsm_scheme" where
  "rconf_reply cbs i inp f =
     (let (code, inp, f) = check_ci cbs inp f;
          f = fsm_sdata code i inp f
      in if code = CONFACK
         then
           let f = (if st f = LS_ACKRCVD then call (cb_up cbs) ((UNTIMEOUT f)\<lparr>st := LS_OPENED\<rparr>)
                    else f\<lparr>st := LS_ACKSENT\<rparr>)
           in f\<lparr>nakloops := 0\<rparr>
         else
           let f = (if st f \<noteq> LS_ACKRCVD then f\<lparr>st := LS_REQSENT\<rparr> else f)
           in if code = CONFNAK then f\<lparr>nakloops := nakloops f + 1\<rparr> else f)"

lemma rconfreq_reply:
  "fsm_rconfreq cbs i inp f =
     (case st f of
        LS_CLOSED \<Rightarrow> fsm_sdata TERMACK i [] f
      | LS_CLOSING \<Rightarrow> f
      | LS_STOPPING \<Rightarrow> f
      | LS_OPENED \<Rightarrow> rconf_reply cbs i inp (fsm_sconfreq cbs False (call (cb_down cbs) f))
      | LS_STOPPED \<Rightarrow> rconf_reply cbs i inp ((fsm_sconfreq cbs False f)\<lparr>st := LS_REQSENT\<rparr>)
      | _ \<Rightarrow> rconf_reply cbs i inp f)"
  by (simp only: fsm_rconfreq_def rconf_reply_def Let_def)

lemma reply_state:
  assumes "callbacks_ok cbs" and "check_ci cbs inp f = (code, inp', g)"
  shows "st (rconf_reply cbs i inp f) = (if code = CONFACK then if st f = LS_ACKRCVD then LS_OPENED else LS_ACKSENT
      else if st f = LS_ACKRCVD then LS_ACKRCVD else LS_REQSENT)"
    and "retransmits (rconf_reply cbs i inp f) = retransmits f"
    and "maxconfreqtransmits (rconf_reply cbs i inp f) = maxconfreqtransmits f"
    and "maxtermtransmits (rconf_reply cbs i inp f) = maxtermtransmits f"
    and "timer (rconf_reply cbs i inp f) = (if code = CONFACK \<and> st f = LS_ACKRCVD then timer f - 1 else timer f)"
  using check_ci_core [OF assms, unfolded same_core_def]
  by (simp_all add: rconf_reply_def assms(2) Let_def UNTIMEOUT_def core_simps [OF assms(1)])

lemma reply_inv:
  assumes ok: "callbacks_ok cbs" and m: "maxconfreqtransmits f = FSM_DEFMAXCONFREQS" "maxtermtransmits f = FSM_DEFMAXTERMREQS"
    and t: "0 < timer f" "0 \<le> retransmits f" "retransmits f \<le> FSM_DEFMAXCONFREQS"
  shows "fsm_inv (rconf_reply cbs i inp f)"
proof -
  obtain code inp' g where "check_ci cbs inp f = (code, inp', g)"
    by (cases "check_ci cbs inp f")
  from reply_state [OF ok this] m t show ?thesis
    by (simp add: fsm_inv_def)
qed

text \<open>A packet that arrives in the states the automaton accepts packets in.\<close>

lemma rconfreq_inv:
  assumes ok: "callbacks_ok cbs" and inv: "fsm_inv f" and s: "st f \<noteq> LS_INITIAL" "st f \<noteq> LS_STARTING"
  shows "fsm_inv (fsm_rconfreq cbs i inp f)"
proof -
  have m: "maxconfreqtransmits f = FSM_DEFMAXCONFREQS" "maxtermtransmits f = FSM_DEFMAXTERMREQS"
    and t: "waiting (st f) \<Longrightarrow> 0 < timer f \<and> 0 \<le> retransmits f \<and>
      retransmits f \<le> FSM_DEFMAXCONFREQS"
    using inv by (auto simp: fsm_inv_def)
  note r = reply_inv [OF ok]
  show ?thesis
    using inv s m t unfolding rconfreq_reply
    by (cases "st f") (simp_all add: r fsm_defaults sconfreq_simps [OF ok] core_simps [OF ok])
qed

lemma check_ack_core:
  assumes "callbacks_ok cbs" and "check_ack cbs inp f = (ok, g)"
  shows "same_core f g"
proof -
  have "same_core f (snd (check_ack cbs inp f))"
    using assms(1) by (auto simp: callbacks_ok_def check_ack_def split: option.split)
  with assms(2) show ?thesis
    by simp
qed

lemma rconfack_inv:
  assumes ok: "callbacks_ok cbs" and inv: "fsm_inv f"
  shows "fsm_inv (fsm_rconfack cbs i inp f)"
proof -
  obtain a g where g: "check_ack cbs inp f = (a, g)"
    by fastforce
  then have "same_core f g"
    by (rule check_ack_core [OF ok])
  then have "fsm_inv g"
    using inv fsm_inv_core by blast
  then show ?thesis
    using inv by (cases "st g") (auto simp: fsm_rconfack_def g Let_def fsm_inv_def fsm_defaults UNTIMEOUT_def sconfreq_simps [OF ok] core_simps [OF ok])
qed

lemma rconfnakrej_inv:
  assumes ok: "callbacks_ok cbs" and inv: "fsm_inv f"
  shows "fsm_inv (fsm_rconfnakrej cbs code i inp f)"
proof -
  let ?r = "case (if code = CONFNAK then nakci cbs else rejci cbs) of Some proc \<Rightarrow> proc f inp | None \<Rightarrow> (0, f)"
  obtain a g where g: "?r = (a, g)"
    by fastforce
  have "left f (snd ?r)"
    using ok by (auto simp: callbacks_ok_def split: option.split)
  then have "left f g"
    by (simp add: g)
  then have "fsm_inv g"
    using inv fsm_inv_left by blast
  then show ?thesis
    using inv by (cases "st g") (auto simp: fsm_rconfnakrej_def g Let_def fsm_inv_def fsm_defaults UNTIMEOUT_def sconfreq_simps [OF ok] core_simps [OF ok])
qed

lemma rterm_inv:
  assumes ok: "callbacks_ok cbs" and inv: "fsm_inv f"
  shows "fsm_inv (fsm_rtermreq cbs i f)" and "fsm_inv (fsm_rtermack cbs f)" and "fsm_inv (fsm_rcoderej inp f)"
    and "fsm_inv (fsm_protreject cbs f)"
  using inv
  by (cases "st f"; auto simp: fsm_rtermreq_def fsm_rtermack_def fsm_rcoderej_def fsm_protreject_def Let_def fsm_inv_def fsm_defaults
      TIMEOUT_def UNTIMEOUT_def sconfreq_simps [OF ok] core_simps [OF ok])+

lemma input_inv:
  assumes ok: "callbacks_ok cbs" and inv: "fsm_inv f"
  shows "fsm_inv (fsm_input cbs p f)"
proof -
  note h = rconfreq_inv [OF ok inv] rconfack_inv [OF ok inv] rconfnakrej_inv [OF ok inv] rterm_inv [OF ok inv]
  have x: "fsm_inv (snd (case cb_extcode cbs of Some g \<Rightarrow> g f c i q | None \<Rightarrow> (False, f)))" for c i q
  proof (cases "cb_extcode cbs")
    case (Some g)
    then have "left f (snd (g f c i q))"
      using ok unfolding callbacks_ok_def by blast
    with Some inv show ?thesis
      by (simp add: fsm_inv_left)
  qed (simp add: inv)
  then have y: "fsm_inv g"
    if "(case cb_extcode cbs of Some g \<Rightarrow> g f c i q | None \<Rightarrow> (False, f)) = (b, g)" for c i q b g
    using that by (metis snd_conv)
  have "fsm_inv g \<Longrightarrow> fsm_inv (g\<lparr>f_id := n\<rparr>)" for g :: "'a fsm_scheme" and n
    by (simp add: fsm_inv_def)
  then show ?thesis
    using inv h by (auto simp: fsm_input_def Let_def split: prod.split dest: y)
qed

theorem event_inv:
  assumes "callbacks_ok cbs" and "fsm_inv f"
  shows "fsm_inv (fsm_event cbs e f)"
  using assms lowerup_inv lowerdown_inv open_inv close_inv timeout_inv input_inv rterm_inv(4)
  by (cases e) (auto simp: fsm_event_def)

lemma run_inv: "callbacks_ok cbs \<Longrightarrow> fsm_inv f \<Longrightarrow> fsm_inv (fsm_run cbs es f)"
  unfolding fsm_run_def by (induction es arbitrary: f) (simp_all add: event_inv)

end
