(* ===== verification/Ppp_Lcp.thy ===== *)
theory Ppp_Lcp
  imports Ppp_Fsm Ppp_Input
begin

text \<open>
  The link control protocol of PPP (\<open>lwip/netif/ppp/lcp.c\<close>): the callbacks that the negotiation automaton of
  \<open>Ppp_Fsm\<close> is run with, and the entry points.

  The record extends the automaton by the four sets of options and by what LCP configures. \<open>upcalls\<close> lists the calls
  of the authentication module (\<open>auth.c\<close>) and of the rejected protocols; what that module does in turn comes back as
  an event. The variable \<open>lcp_phase\<close>, which only that module and \<open>pppInput\<close> read, is left out. Random numbers
  (\<open>magic\<close>, \<open>randm.c\<close>) are an arbitrary sequence \<open>rnd\<close>, of which \<open>rnd_pos\<close> have been used. \<open>nak_overrun\<close> records that
  \<open>lcp_reqci\<close> has written beyond its buffer; what the program does after that is not meaningful. Echo requests are
  not sent: their interval \<open>LCP_ECHOINTERVAL\<close> is zero.
\<close>

section \<open>Constants\<close>

definition CI_MRU :: u8 where "CI_MRU = 1"
definition CI_ASYNCMAP :: u8 where "CI_ASYNCMAP = 2"
definition CI_AUTHTYPE :: u8 where "CI_AUTHTYPE = 3"
definition CI_QUALITY :: u8 where "CI_QUALITY = 4"
definition CI_MAGICNUMBER :: u8 where "CI_MAGICNUMBER = 5"
definition CI_PCOMPRESSION :: u8 where "CI_PCOMPRESSION = 7"
definition CI_ACCOMPRESSION :: u8 where "CI_ACCOMPRESSION = 8"
definition CI_CALLBACK :: u8 where "CI_CALLBACK = 13"
definition PROTREJ :: u8 where "PROTREJ = 8"
definition ECHOREQ :: u8 where "ECHOREQ = 9"
definition ECHOREP :: u8 where "ECHOREP = 10"
definition DISCREQ :: u8 where "DISCREQ = 11"
definition CBCP_OPT :: u8 where "CBCP_OPT = 6"
definition CILEN_VOID :: nat where "CILEN_VOID = 2"
definition CILEN_CHAR :: nat where "CILEN_CHAR = 3"
definition CILEN_SHORT :: nat where "CILEN_SHORT = 4"
definition CILEN_CHAP :: nat where "CILEN_CHAP = 5"
definition CILEN_LONG :: nat where "CILEN_LONG = 6"
definition CILEN_LQR :: nat where "CILEN_LQR = 8"
definition CILEN_CBCP :: nat where "CILEN_CBCP = 3"
definition CHAP_DIGEST_MD5 :: u8 where "CHAP_DIGEST_MD5 = 5"
definition PPP_DEFMRU :: u16 where "PPP_DEFMRU = 296"
definition PPP_MINMRU :: u16 where "PPP_MINMRU = 128"
definition PPP_MAXMRU :: u16 where "PPP_MAXMRU = 1500"
definition PPP_MRU :: u16 where "PPP_MRU = 1500"
definition DEFLOOPBACKFAIL :: int where "DEFLOOPBACKFAIL = 10"

section \<open>State\<close>

record lcp_options =
  want_passive :: bool
  want_silent :: bool
  restart :: bool
  neg_mru :: bool
  neg_asyncmap :: bool
  neg_upap :: bool
  neg_chap :: bool
  neg_magicnumber :: bool
  neg_pcompression :: bool
  neg_accompression :: bool
  neg_lqr :: bool
  neg_cbcp :: bool
  mru :: u16
  chap_mdtype :: u8
  asyncmap :: u32
  magicnumber :: u32
  numloops :: int
  lqr_period :: u32

datatype auth_call = Auth_reset | Link_established | Link_down | Link_required | Link_terminated | Protrej u16

record lcp = fsm +
  lcp_wantoptions :: lcp_options
  lcp_gotoptions :: lcp_options
  lcp_allowoptions :: lcp_options
  lcp_hisoptions :: lcp_options
  xmit_accm :: ext_accm
  tx :: PPPControl
  rx :: PPPControlRx
  echos_pending :: u32
  rnd :: "nat \<Rightarrow> u32"
  rnd_pos :: nat
  nak_overrun :: bool
  upcalls :: "auth_call list"

definition no_options :: lcp_options where
  "no_options = \<lparr>want_passive = False, want_silent = False, restart = False, neg_mru = False, neg_asyncmap = False, neg_upap = False,
     neg_chap = False, neg_magicnumber = False, neg_pcompression = False, neg_accompression = False, neg_lqr = False,
     neg_cbcp = False, mru = 0, chap_mdtype = 0, asyncmap = 0, magicnumber = 0, numloops = 0, lqr_period = 0\<rparr>"

definition upcall :: "auth_call \<Rightarrow> 'a lcp_scheme \<Rightarrow> 'a lcp_scheme" where
  "upcall c f = f\<lparr>upcalls := upcalls f @ [c]\<rparr>"

definition magic :: "'a lcp_scheme \<Rightarrow> u32 \<times> 'a lcp_scheme" where
  "magic f = (rnd f (rnd_pos f), f\<lparr>rnd_pos := rnd_pos f + 1\<rparr>)"

section \<open>Numbers in packets\<close>

definition PUTSHORT :: "u16 \<Rightarrow> u8 list" where
  "PUTSHORT s = [hi8 s, lo8 s]"

definition PUTLONG :: "u32 \<Rightarrow> u8 list" where
  "PUTLONG l = [ucast (drop_bit 24 l), ucast (drop_bit 16 l), ucast (drop_bit 8 l), ucast l]"

definition GETSHORT :: "u8 list \<Rightarrow> u16" where
  "GETSHORT p = be16 (p ! 0) (p ! 1)"

definition GETLONG :: "u8 list \<Rightarrow> u32" where
  "GETLONG p = push_bit 8 (push_bit 8 (push_bit 8 (ucast (p ! 0)) OR ucast (p ! 1)) OR ucast (p ! 2)) OR ucast (p ! 3)"

section \<open>Our options\<close>

text \<open>
  The options that are asked for: a condition, the type and the bytes of the value. \<open>lcp_addci\<close> and \<open>lcp_ackci\<close> have a list of
  macro calls each; the two lists agree and are this one table.
\<close>

definition lcp_cis :: "lcp_options \<Rightarrow> (bool \<times> u8 \<times> u8 list) list" where
  "lcp_cis go =
     [(neg_mru go \<and> mru go \<noteq> PPP_DEFMRU, CI_MRU, PUTSHORT (mru go)),
      (neg_asyncmap go \<and> asyncmap go \<noteq> 0xFFFFFFFF, CI_ASYNCMAP, PUTLONG (asyncmap go)),
      (neg_chap go, CI_AUTHTYPE, PUTSHORT PPP_CHAP @ [chap_mdtype go]),
      (\<not> neg_chap go \<and> neg_upap go, CI_AUTHTYPE, PUTSHORT PPP_PAP),
      (neg_lqr go, CI_QUALITY, PUTSHORT PPP_LQR @ PUTLONG (lqr_period go)),
      (neg_cbcp go, CI_CALLBACK, [CBCP_OPT]),
      (neg_magicnumber go, CI_MAGICNUMBER, PUTLONG (magicnumber go)),
      (neg_pcompression go, CI_PCOMPRESSION, []),
      (neg_accompression go, CI_ACCOMPRESSION, [])]"

definition lcp_cilen :: "'a lcp_scheme \<Rightarrow> int" where
  "lcp_cilen f =
     (let go = lcp_gotoptions f
      in int ((if neg_mru go \<and> mru go \<noteq> PPP_DEFMRU then CILEN_SHORT else 0) +
        (if neg_asyncmap go \<and> asyncmap go \<noteq> 0xFFFFFFFF then CILEN_LONG else 0) +
        (if neg_chap go then CILEN_CHAP else 0) +
        (if \<not> neg_chap go \<and> neg_upap go then CILEN_SHORT else 0) +
        (if neg_lqr go then CILEN_LQR else 0) +
        (if neg_cbcp go then CILEN_CBCP else 0) +
        (if neg_magicnumber go then CILEN_LONG else 0) +
        (if neg_pcompression go then CILEN_VOID else 0) +
        (if neg_accompression go then CILEN_VOID else 0)))"

text \<open>An option in a packet: type, length, value (\<open>ADDCIVOID\<close>, \<open>ADDCISHORT\<close> and the other macros).\<close>

definition ci_bytes :: "u8 \<Rightarrow> u8 list \<Rightarrow> u8 list" where
  "ci_bytes opt val = [opt, of_nat (2 + length val)] @ val"

definition lcp_addci :: "'a lcp_scheme \<Rightarrow> int \<Rightarrow> u8 list \<times> 'a lcp_scheme" where
  "lcp_addci f lenp = (concat (map (\<lambda>(neg, opt, val). if neg then ci_bytes opt val else []) (lcp_cis (lcp_gotoptions f))), f)"

text \<open>
  The options of an Ack have to be exactly those of the request. The bytes that are left, or \<open>None\<close> for a bad packet
  (\<open>ACKCIVOID\<close> and the other macros).
\<close>

definition ACKCI :: "bool \<times> u8 \<times> u8 list \<Rightarrow> u8 list \<Rightarrow> u8 list option" where
  "ACKCI = (\<lambda>(neg, opt, val) p.
     if neg
     then if length p < 2 + length val then None
          else if p ! 1 \<noteq> of_nat (2 + length val) \<or> p ! 0 \<noteq> opt then None
          else if take (length val) (drop 2 p) \<noteq> val then None
          else Some (drop (2 + length val) p)
     else Some p)"

fun ack_all :: "(bool \<times> u8 \<times> u8 list) list \<Rightarrow> u8 list \<Rightarrow> u8 list option" where
  "ack_all [] p = Some p"
| "ack_all (c # cs) p = do { p \<leftarrow> ACKCI c p; ack_all cs p }"

definition lcp_ackci :: "'a lcp_scheme \<Rightarrow> u8 list \<Rightarrow> bool \<times> 'a lcp_scheme" where
  "lcp_ackci f p = (ack_all (lcp_cis (lcp_gotoptions f)) p = Some [], f)"

section \<open>A Nak or a Reject of our options\<close>

text \<open>If the packet begins with the option, its value and the rest of the packet (\<open>NAKCIVOID\<close> and the other macros).\<close>

definition NAKCI :: "u8 \<Rightarrow> nat \<Rightarrow> bool \<Rightarrow> u8 list \<Rightarrow> u8 list option \<times> u8 list" where
  "NAKCI opt len neg p =
     (if neg \<and> len \<le> length p \<and> p ! 1 = of_nat len \<and> p ! 0 = opt
      then (Some (take (len - 2) (drop 2 p)), drop len p) else (None, p))"

text \<open>The authentication type that the peer proposes instead: the new options, and the rest; \<open>None\<close> for a bad Nak.\<close>

definition nak_auth :: "lcp_options \<Rightarrow> lcp_options \<Rightarrow> u8 list \<Rightarrow> (lcp_options \<times> bool \<times> u8 list) option" where
  "nak_auth go tr p =
     (if (neg_chap go \<or> neg_upap go) \<and> CILEN_SHORT \<le> length p \<and> p ! 0 = CI_AUTHTYPE \<and>
         CILEN_SHORT \<le> unat (p ! 1) \<and> unat (p ! 1) \<le> length p
      then
        let cilen = unat (p ! 1); cishort = GETSHORT (drop 2 p); rest = drop cilen p
        in if cishort = PPP_PAP \<and> cilen = CILEN_SHORT
           then if \<not> neg_chap go then None else Some (tr\<lparr>neg_chap := False\<rparr>, True, rest)
           else if cishort = PPP_CHAP \<and> cilen = CILEN_CHAP
           then if neg_chap go
                then Some (if p ! 4 \<noteq> chap_mdtype go then tr\<lparr>neg_chap := False\<rparr> else tr, True, rest)
                else Some (tr\<lparr>neg_upap := False\<rparr>, True, rest)
           else Some (if neg_chap go then tr\<lparr>neg_chap := False\<rparr> else tr\<lparr>neg_upap := False\<rparr>, True, rest)
      else Some (tr, False, p))"

text \<open>
  The options at the end that were not asked for. \<open>no\<close> has those for which a Nak has been seen.
\<close>

function nak_rest :: "lcp_options \<Rightarrow> lcp_options \<Rightarrow> lcp_options \<Rightarrow> u8 list \<Rightarrow> lcp_options option" where
  "nak_rest go no tr p =
     (if length p \<le> CILEN_VOID then (if p = [] then Some tr else None)
      else
        let citype = p ! 0; cilen = unat (p ! 1); rest = drop cilen p
        in if cilen < CILEN_VOID \<or> length p < cilen then None
           else if citype = CI_MRU
           then if neg_mru go \<and> mru go \<noteq> PPP_DEFMRU \<or> neg_mru no \<or> cilen \<noteq> CILEN_SHORT then None
                else let cishort = GETSHORT (drop 2 p)
                  in nak_rest go no (if cishort < PPP_DEFMRU then tr\<lparr>mru := cishort\<rparr> else tr) rest
           else if citype = CI_ASYNCMAP \<and> (neg_asyncmap go \<and> asyncmap go \<noteq> 0xFFFFFFFF \<or> neg_asyncmap no \<or> cilen \<noteq> CILEN_LONG) then None
           else if citype = CI_AUTHTYPE \<and> (neg_chap go \<or> neg_chap no \<or> neg_upap go \<or> neg_upap no) then None
           else if citype = CI_MAGICNUMBER \<and> (neg_magicnumber go \<or> neg_magicnumber no \<or> cilen \<noteq> CILEN_LONG) then None
           else if citype = CI_PCOMPRESSION \<and> (neg_pcompression go \<or> neg_pcompression no \<or> cilen \<noteq> CILEN_VOID) then None
           else if citype = CI_ACCOMPRESSION \<and> (neg_accompression go \<or> neg_accompression no \<or> cilen \<noteq> CILEN_VOID) then None
           else if citype = CI_QUALITY \<and> (neg_lqr go \<or> neg_lqr no \<or> cilen \<noteq> CILEN_LQR) then None
           else nak_rest go no tr rest)"
  by pat_completeness auto
termination
  by (relation "measure (\<lambda>(_, _, _, p). length p)") (auto simp: CILEN_VOID_def)

declare nak_rest.simps [simp del]

text \<open>
  What is requested next, and whether the line is looped back: the peer has sent us our own magic number. The new number
  is drawn as soon as that option is read, also if the rest of the Nak is bad.
\<close>

definition nak_options :: "lcp_options \<Rightarrow> lcp_options \<Rightarrow> u32 \<Rightarrow> u8 list \<Rightarrow> bool \<times> (lcp_options option)" where
  "nak_options wo go m p =
     (let no = no_options;
          tr = go;
          (v, p) = (if neg_mru go \<and> mru go \<noteq> PPP_DEFMRU then NAKCI CI_MRU CILEN_SHORT (neg_mru go) p else (None, p));
          (no, tr) = (case v of None \<Rightarrow> (no, tr)
            | Some b \<Rightarrow> (no\<lparr>neg_mru := True\<rparr>,
                if GETSHORT b \<le> mru wo \<or> GETSHORT b < PPP_DEFMRU then tr\<lparr>mru := GETSHORT b\<rparr> else tr));
          (v, p) = (if neg_asyncmap go \<and> asyncmap go \<noteq> 0xFFFFFFFF then NAKCI CI_ASYNCMAP CILEN_LONG (neg_asyncmap go) p else (None, p));
          (no, tr) = (case v of None \<Rightarrow> (no, tr)
            | Some b \<Rightarrow> (no\<lparr>neg_asyncmap := True\<rparr>, tr\<lparr>asyncmap := asyncmap go OR GETLONG b\<rparr>))
      in case nak_auth go tr p of
           None \<Rightarrow> (False, None)
         | Some (tr, auth, p) \<Rightarrow>
             let no = (if auth then no\<lparr>neg_chap := neg_chap go, neg_upap := neg_upap go\<rparr> else no);
                 (v, p) = NAKCI CI_QUALITY CILEN_LQR (neg_lqr go) p;
                 (no, tr) = (case v of None \<Rightarrow> (no, tr)
                   | Some b \<Rightarrow> (no\<lparr>neg_lqr := True\<rparr>,
                       if GETSHORT b \<noteq> PPP_LQR then tr\<lparr>neg_lqr := False\<rparr> else tr\<lparr>lqr_period := GETLONG (drop 2 b)\<rparr>));
                 (v, p) = NAKCI CI_CALLBACK CILEN_CHAR (neg_cbcp go) p;
                 (no, tr) = (case v of None \<Rightarrow> (no, tr) | Some b \<Rightarrow> (no\<lparr>neg_cbcp := True\<rparr>, tr\<lparr>neg_cbcp := False\<rparr>));
                 (loop, p) = NAKCI CI_MAGICNUMBER CILEN_LONG (neg_magicnumber go) p;
                 (no, tr) = (case loop of None \<Rightarrow> (no, tr) | Some b \<Rightarrow> (no\<lparr>neg_magicnumber := True\<rparr>, tr\<lparr>magicnumber := m\<rparr>));
                 (v, p) = NAKCI CI_PCOMPRESSION CILEN_VOID (neg_pcompression go) p;
                 (no, tr) = (case v of None \<Rightarrow> (no, tr) | Some b \<Rightarrow> (no\<lparr>neg_pcompression := True\<rparr>, tr\<lparr>neg_pcompression := False\<rparr>));
                 (v, p) = NAKCI CI_ACCOMPRESSION CILEN_VOID (neg_accompression go) p;
                 (no, tr) = (case v of None \<Rightarrow> (no, tr) | Some b \<Rightarrow> (no\<lparr>neg_accompression := True\<rparr>, tr\<lparr>neg_accompression := False\<rparr>))
             in (loop \<noteq> None, nak_rest go no tr p))"

text \<open>
  Rejected options are not asked for again (\<open>REJCIVOID\<close> and the other macros); a rejected value has to be ours.
\<close>

definition REJCI :: "u8 \<Rightarrow> u8 list \<Rightarrow> bool \<Rightarrow> u8 list \<Rightarrow> (bool \<times> u8 list) option" where
  "REJCI opt val neg p =
     (if neg \<and> 2 + length val \<le> length p \<and> p ! 1 = of_nat (2 + length val) \<and> p ! 0 = opt
      then if take (length val) (drop 2 p) \<noteq> val then None else Some (True, drop (2 + length val) p)
      else Some (False, p))"

definition rej_options :: "lcp_options \<Rightarrow> u8 list \<Rightarrow> lcp_options option" where
  "rej_options go p =
     do { let tr = go;
          (b, p) \<leftarrow> REJCI CI_MRU (PUTSHORT (mru go)) (neg_mru go) p;
          let tr = (if b then tr\<lparr>neg_mru := False\<rparr> else tr);
          (b, p) \<leftarrow> REJCI CI_ASYNCMAP (PUTLONG (asyncmap go)) (neg_asyncmap go) p;
          let tr = (if b then tr\<lparr>neg_asyncmap := False\<rparr> else tr);
          (b, p) \<leftarrow> REJCI CI_AUTHTYPE (PUTSHORT PPP_CHAP @ [chap_mdtype go]) (neg_chap go) p;
          let tr = (if b then tr\<lparr>neg_chap := False, neg_upap := False\<rparr> else tr);
          (b, p) \<leftarrow> (if \<not> neg_chap go then REJCI CI_AUTHTYPE (PUTSHORT PPP_PAP) (neg_upap go) p else Some (False, p));
          let tr = (if b then tr\<lparr>neg_upap := False\<rparr> else tr);
          (b, p) \<leftarrow> REJCI CI_QUALITY (PUTSHORT PPP_LQR @ PUTLONG (lqr_period go)) (neg_lqr go) p;
          let tr = (if b then tr\<lparr>neg_lqr := False\<rparr> else tr);
          (b, p) \<leftarrow> REJCI CI_CALLBACK [CBCP_OPT] (neg_cbcp go) p;
          let tr = (if b then tr\<lparr>neg_cbcp := False\<rparr> else tr);
          (b, p) \<leftarrow> REJCI CI_MAGICNUMBER (PUTLONG (magicnumber go)) (neg_magicnumber go) p;
          let tr = (if b then tr\<lparr>neg_magicnumber := False\<rparr> else tr);
          (b, p) \<leftarrow> REJCI CI_PCOMPRESSION [] (neg_pcompression go) p;
          let tr = (if b then tr\<lparr>neg_pcompression := False\<rparr> else tr);
          (b, p) \<leftarrow> REJCI CI_ACCOMPRESSION [] (neg_accompression go) p;
          let tr = (if b then tr\<lparr>neg_accompression := False\<rparr> else tr);
          if p = [] then Some tr else None }"

definition lcp_rejci :: "'a lcp_scheme \<Rightarrow> u8 list \<Rightarrow> int \<times> 'a lcp_scheme" where
  "lcp_rejci f p =
     (case rej_options (lcp_gotoptions f) p of
        None \<Rightarrow> (0, f)
      | Some tr \<Rightarrow> (1, if st f \<noteq> LS_OPENED then f\<lparr>lcp_gotoptions := tr\<rparr> else f))"

section \<open>The peer's options\<close>

text \<open>
  The verdict on one option, the counterproposal that goes to \<open>nak_buffer\<close>, and what is remembered of it. The bytes begin
  with the type and the length, which is that of the list.
\<close>

definition reqci_mru :: "u8 list \<Rightarrow> 'a lcp_scheme \<Rightarrow> u8 \<times> u8 list \<times> 'a lcp_scheme" where
  "reqci_mru p f =
     (if \<not> neg_mru (lcp_allowoptions f) then (CONFREJ, [], f)
      else if length p \<noteq> CILEN_SHORT then (CONFREJ, [], f)
      else
        let cishort = GETSHORT (drop 2 p)
        in if cishort < PPP_MINMRU then (CONFNAK, [CI_MRU, of_nat CILEN_SHORT] @ PUTSHORT PPP_MINMRU, f)
           else (CONFACK, [], f\<lparr>lcp_hisoptions := (lcp_hisoptions f)\<lparr>neg_mru := True, mru := cishort\<rparr>\<rparr>))"

definition reqci_asyncmap :: "u8 list \<Rightarrow> 'a lcp_scheme \<Rightarrow> u8 \<times> u8 list \<times> 'a lcp_scheme" where
  "reqci_asyncmap p f =
     (let ao = lcp_allowoptions f
      in if \<not> neg_asyncmap ao then (CONFREJ, [], f)
         else if length p \<noteq> CILEN_LONG then (CONFREJ, [], f)
         else
           let cilong = GETLONG (drop 2 p)
           in if asyncmap ao AND NOT cilong \<noteq> 0
              then (CONFNAK, [CI_ASYNCMAP, of_nat CILEN_LONG] @ PUTLONG (asyncmap ao OR cilong), f)
              else (CONFACK, [], f\<lparr>lcp_hisoptions := (lcp_hisoptions f)\<lparr>neg_asyncmap := True, asyncmap := cilong\<rparr>\<rparr>))"

definition reqci_auth :: "u8 list \<Rightarrow> 'a lcp_scheme \<Rightarrow> u8 \<times> u8 list \<times> 'a lcp_scheme" where
  "reqci_auth p f =
     (let ao = lcp_allowoptions f; ho = lcp_hisoptions f;
          chap = [CI_AUTHTYPE, of_nat CILEN_CHAP] @ PUTSHORT PPP_CHAP @ [chap_mdtype ao];
          pap = [CI_AUTHTYPE, of_nat CILEN_SHORT] @ PUTSHORT PPP_PAP
      in if length p < CILEN_SHORT then (CONFREJ, [], f)
         else if \<not> (neg_upap ao \<or> neg_chap ao) then (CONFREJ, [], f)
         else
           let cishort = GETSHORT (drop 2 p)
           in if cishort = PPP_PAP
              then if neg_chap ho then (CONFREJ, [], f)
                   else if length p \<noteq> CILEN_SHORT then (CONFREJ, [], f)
                   else if \<not> neg_upap ao then (CONFNAK, chap, f)
                   else (CONFACK, [], f\<lparr>lcp_hisoptions := ho\<lparr>neg_upap := True\<rparr>\<rparr>)
              else if cishort = PPP_CHAP
              then if neg_upap ho then (CONFREJ, [], f)
                   else if length p \<noteq> CILEN_CHAP then (CONFREJ, [], f)
                   else if \<not> neg_chap ao then (CONFNAK, pap, f)
                   else if p ! 4 \<noteq> CHAP_DIGEST_MD5 then (CONFNAK, chap, f)
                   else (CONFACK, [], f\<lparr>lcp_hisoptions := ho\<lparr>chap_mdtype := p ! 4, neg_chap := True\<rparr>\<rparr>)
              else (CONFNAK, if neg_chap ao then chap else pap, f))"

text \<open>The values are read before the length is checked, possibly beyond the packet, but used only after it.\<close>

definition reqci_quality :: "u8 list \<Rightarrow> 'a lcp_scheme \<Rightarrow> u8 \<times> u8 list \<times> 'a lcp_scheme" where
  "reqci_quality p f =
     (let ao = lcp_allowoptions f
      in if \<not> neg_lqr ao \<or> length p \<noteq> CILEN_LQR then (CONFREJ, [], f)
         else if GETSHORT (drop 2 p) \<noteq> PPP_LQR
         then (CONFNAK, [CI_QUALITY, of_nat CILEN_LQR] @ PUTSHORT PPP_LQR @ PUTLONG (lqr_period ao), f)
         else (CONFACK, [], f))"

definition reqci_magic :: "u8 list \<Rightarrow> 'a lcp_scheme \<Rightarrow> u8 \<times> u8 list \<times> 'a lcp_scheme" where
  "reqci_magic p f =
     (let go = lcp_gotoptions f
      in if \<not> (neg_magicnumber (lcp_allowoptions f) \<or> neg_magicnumber go) \<or> length p \<noteq> CILEN_LONG then (CONFREJ, [], f)
         else
           let cilong = GETLONG (drop 2 p)
           in if neg_magicnumber go \<and> cilong = magicnumber go
              then let (m, f) = magic f in (CONFNAK, [CI_MAGICNUMBER, of_nat CILEN_LONG] @ PUTLONG m, f)
              else (CONFACK, [], f\<lparr>lcp_hisoptions := (lcp_hisoptions f)\<lparr>neg_magicnumber := True, magicnumber := cilong\<rparr>\<rparr>))"

definition reqci_option :: "u8 list \<Rightarrow> 'a lcp_scheme \<Rightarrow> u8 \<times> u8 list \<times> 'a lcp_scheme" where
  "reqci_option p f =
     (let citype = p ! 0
      in if citype = CI_MRU then reqci_mru p f
         else if citype = CI_ASYNCMAP then reqci_asyncmap p f
         else if citype = CI_AUTHTYPE then reqci_auth p f
         else if citype = CI_QUALITY then reqci_quality p f
         else if citype = CI_MAGICNUMBER then reqci_magic p f
         else if citype = CI_PCOMPRESSION
         then if \<not> neg_pcompression (lcp_allowoptions f) \<or> length p \<noteq> CILEN_VOID then (CONFREJ, [], f)
              else (CONFACK, [], f\<lparr>lcp_hisoptions := (lcp_hisoptions f)\<lparr>neg_pcompression := True\<rparr>\<rparr>)
         else if citype = CI_ACCOMPRESSION
         then if \<not> neg_accompression (lcp_allowoptions f) \<or> length p \<noteq> CILEN_VOID then (CONFREJ, [], f)
              else (CONFACK, [], f\<lparr>lcp_hisoptions := (lcp_hisoptions f)\<lparr>neg_accompression := True\<rparr>\<rparr>)
         else (CONFREJ, [], f))"

text \<open>
  The verdict on the options so far and the rejected ones, which are moved to the front of the packet, after one more
  option: its type, its bytes and its verdict.
\<close>

definition reqci_verdict :: "bool \<Rightarrow> u8 \<Rightarrow> u8 list \<Rightarrow> u8 \<Rightarrow> u8 \<times> u8 list \<Rightarrow> u8 \<times> u8 list" where
  "reqci_verdict reject_if_disagree citype cip orc acc =
     (let (rc, rej) = acc
      in if orc = CONFACK \<and> rc \<noteq> CONFACK then (rc, rej)
         else
           let orc' = (if orc = CONFNAK \<and> reject_if_disagree \<and> citype \<noteq> CI_MAGICNUMBER then CONFREJ else orc)
           in if orc' = CONFNAK then if rc = CONFREJ then (rc, rej) else (CONFNAK, rej)
              else if orc' = CONFREJ then (CONFREJ, rej @ cip)
              else (rc, rej))"

text \<open>The loop over the options; the counterproposals are collected even if they are not sent.\<close>

function reqci_loop :: "bool \<Rightarrow> u8 list \<Rightarrow> u8 \<times> u8 list \<Rightarrow> u8 list \<Rightarrow> 'a lcp_scheme \<Rightarrow> (u8 \<times> u8 list) \<times> u8 list \<times> 'a lcp_scheme" where
  "reqci_loop reject_if_disagree p acc nak f =
     (if p = [] then (acc, nak, f)
      else if length p < 2 \<or> unat (p ! 1) < 2 \<or> length p < unat (p ! 1)
      then (reqci_verdict reject_if_disagree 0 p CONFREJ acc, nak, f)
      else
        let cilen = unat (p ! 1); (orc, nb, f) = reqci_option (take cilen p) f
        in reqci_loop reject_if_disagree (drop cilen p) (reqci_verdict reject_if_disagree (p ! 0) (take cilen p) orc acc) (nak @ nb) f)"
  by pat_completeness auto
termination
  by (relation "measure (\<lambda>(_, p, _, _, _). length p)") auto

declare reqci_loop.simps [simp del]

definition lcp_reqci :: "'a lcp_scheme \<Rightarrow> u8 list \<Rightarrow> bool \<Rightarrow> u8 \<times> u8 list \<times> 'a lcp_scheme" where
  "lcp_reqci f inp reject_if_disagree =
     (let ((rc, rej), nak, f) = reqci_loop reject_if_disagree inp (CONFACK, []) [] (f\<lparr>lcp_hisoptions := no_options\<rparr>);
          f = f\<lparr>nak_overrun := nak_overrun f \<or> unat PPP_MRU < length nak\<rparr>
      in (rc, if rc = CONFACK then inp else if rc = CONFNAK then nak else rej, f))"

section \<open>Up and down\<close>

definition lcp_resetci :: "'a lcp_scheme \<Rightarrow> 'a lcp_scheme" where
  "lcp_resetci f =
     (let (m, f) = magic f;
          f = f\<lparr>lcp_wantoptions := (lcp_wantoptions f)\<lparr>magicnumber := m, numloops := 0\<rparr>\<rparr>;
          f = f\<lparr>lcp_gotoptions := lcp_wantoptions f, peer_mru := int (unat PPP_MRU)\<rparr>
      in upcall Auth_reset f)"

definition lcp_up :: "'a lcp_scheme \<Rightarrow> 'a lcp_scheme" where
  "lcp_up f =
     (let f = (if \<not> neg_magicnumber (lcp_gotoptions f)
               then f\<lparr>lcp_gotoptions := (lcp_gotoptions f)\<lparr>magicnumber := 0\<rparr>\<rparr> else f);
          f = (if \<not> neg_magicnumber (lcp_hisoptions f)
               then f\<lparr>lcp_hisoptions := (lcp_hisoptions f)\<lparr>magicnumber := 0\<rparr>\<rparr> else f);
          wo = lcp_wantoptions f; ho = lcp_hisoptions f; go = lcp_gotoptions f; ao = lcp_allowoptions f;
          f = f\<lparr>tx := ppp_send_config (min (mru ao) (if neg_mru ho then mru ho else PPP_MRU))
            (if neg_asyncmap ho then asyncmap ho else 0xffffffff) (neg_pcompression ho) (neg_accompression ho) (tx f),
            rx := ppp_recv_config (if neg_asyncmap go then asyncmap go else 0) (rx f)\<rparr>;
          f = (if neg_mru ho then f\<lparr>peer_mru := int (unat (mru ho))\<rparr> else f);
          f = f\<lparr>echos_pending := 0\<rparr>
      in upcall Link_established f)"

definition lcp_down :: "'a lcp_scheme \<Rightarrow> 'a lcp_scheme" where
  "lcp_down f =
     (let go = lcp_gotoptions f; f = upcall Link_down f
      in f\<lparr>tx := ppp_send_config PPP_MRU 0xffffffff False False (tx f),
         rx := ppp_recv_config (if neg_asyncmap go then asyncmap go else 0) (rx f), peer_mru := int (unat PPP_MRU)\<rparr>)"

definition lcp_starting :: "'a lcp_scheme \<Rightarrow> 'a lcp_scheme" where
  "lcp_starting f = upcall Link_required f"

definition lcp_finished :: "'a lcp_scheme \<Rightarrow> 'a lcp_scheme" where
  "lcp_finished f = upcall Link_terminated f"

text \<open>
  The callbacks that the automaton needs to close and on a rejected protocol; those that work on packets, of which some
  close the automaton themselves, are added below.
\<close>

definition lcp_base :: "(\<lparr>lcp_wantoptions :: lcp_options, lcp_gotoptions :: lcp_options, lcp_allowoptions :: lcp_options,
    lcp_hisoptions :: lcp_options, xmit_accm :: ext_accm, tx :: PPPControl, rx :: PPPControlRx, echos_pending :: u32,
    rnd :: nat \<Rightarrow> u32, rnd_pos :: nat, nak_overrun :: bool, upcalls :: auth_call list, \<dots> :: 'a\<rparr>) fsm_callbacks" where
  "lcp_base = \<lparr>resetci = Some lcp_resetci, cilen = Some lcp_cilen, addci = Some lcp_addci, ackci = Some lcp_ackci, nakci = None,
     rejci = Some lcp_rejci, reqci = Some lcp_reqci, cb_up = Some lcp_up, cb_down = Some lcp_down,
     cb_starting = Some lcp_starting, cb_finished = Some lcp_finished, cb_retransmit = None, cb_extcode = None\<rparr>"

definition lcp_close :: "u8 list \<Rightarrow> 'a lcp_scheme \<Rightarrow> 'a lcp_scheme" where
  "lcp_close reason f =
     (if st f = LS_STOPPED \<and> (opt_passive f \<or> opt_silent f) then lcp_finished (f\<lparr>st := LS_CLOSED\<rparr>)
      else fsm_close lcp_base reason f)"

definition lcp_protrej :: "'a lcp_scheme \<Rightarrow> 'a lcp_scheme" where
  "lcp_protrej f = fsm_protreject lcp_base f"

definition lcp_nakci :: "'a lcp_scheme \<Rightarrow> u8 list \<Rightarrow> int \<times> 'a lcp_scheme" where
  "lcp_nakci f p =
     (let (looped_back, r) = nak_options (lcp_wantoptions f) (lcp_gotoptions f) (fst (magic f)) p;
          f = (if looped_back then snd (magic f) else f)
      in case r of
           None \<Rightarrow> (0, f)
         | Some tr \<Rightarrow>
             (1, if st f \<noteq> LS_OPENED
                 then if looped_back
                      then let tr = tr\<lparr>numloops := numloops tr + 1\<rparr>;
                               f = (if DEFLOOPBACKFAIL \<le> numloops tr then lcp_close (map of_char ''Loopback detected'') f else f)
                        in f\<lparr>lcp_gotoptions := tr\<rparr>
                      else f\<lparr>lcp_gotoptions := tr\<lparr>numloops := 0\<rparr>\<rparr>
                 else f))"

text \<open>A protocol that the peer rejects; the protocols are those of \<open>ppp_protocols\<close>, all enabled.\<close>

definition lcp_rprotrej :: "u8 list \<Rightarrow> 'a lcp_scheme \<Rightarrow> 'a lcp_scheme" where
  "lcp_rprotrej inp f =
     (if length inp < 2 then f
      else if st f \<noteq> LS_OPENED then f
      else
        let prot = GETSHORT inp
        in if prot \<notin> set ppp_protocols then f
           else if prot = PPP_LCP then lcp_protrej f
           else upcall (Protrej prot) f)"

definition lcp_received_echo_reply :: "u8 list \<Rightarrow> 'a lcp_scheme \<Rightarrow> 'a lcp_scheme" where
  "lcp_received_echo_reply inp f =
     (if length inp < 4 then f
      else if neg_magicnumber (lcp_gotoptions f) \<and> GETLONG inp = magicnumber (lcp_gotoptions f) then f
      else f\<lparr>echos_pending := 0\<rparr>)"

text \<open>The magic number is written over the first four bytes of the request, also if it is shorter.\<close>

definition lcp_extcode :: "'a lcp_scheme \<Rightarrow> u8 \<Rightarrow> u8 \<Rightarrow> u8 list \<Rightarrow> bool \<times> 'a lcp_scheme" where
  "lcp_extcode f code i inp =
     (if code = PROTREJ then (True, lcp_rprotrej inp f)
      else if code = ECHOREQ
      then (True, if st f \<noteq> LS_OPENED then f
                  else fsm_sdata ECHOREP i (take (length inp) (PUTLONG (magicnumber (lcp_gotoptions f)) @ drop 4 inp)) f)
      else if code = ECHOREP then (True, lcp_received_echo_reply inp f)
      else if code = DISCREQ then (True, f)
      else (False, f))"

definition lcp_callbacks :: "(\<lparr>lcp_wantoptions :: lcp_options, lcp_gotoptions :: lcp_options, lcp_allowoptions :: lcp_options,
    lcp_hisoptions :: lcp_options, xmit_accm :: ext_accm, tx :: PPPControl, rx :: PPPControlRx, echos_pending :: u32,
    rnd :: nat \<Rightarrow> u32, rnd_pos :: nat, nak_overrun :: bool, upcalls :: auth_call list, \<dots> :: 'a\<rparr>) fsm_callbacks" where
  "lcp_callbacks = lcp_base\<lparr>nakci := Some lcp_nakci, cb_extcode := Some lcp_extcode\<rparr>"

section \<open>Entry points\<close>

definition lcp_want_defaults :: "lcp_options \<Rightarrow> lcp_options" where
  "lcp_want_defaults wo = wo\<lparr>want_passive := False, want_silent := False, restart := False, neg_mru := True, mru := PPP_DEFMRU,
     neg_asyncmap := True, asyncmap := 0, neg_chap := False, neg_upap := False, chap_mdtype := CHAP_DIGEST_MD5,
     neg_magicnumber := True, neg_pcompression := True, neg_accompression := True, neg_lqr := False, neg_cbcp := False\<rparr>"

definition lcp_allow_defaults :: "lcp_options \<Rightarrow> lcp_options" where
  "lcp_allow_defaults ao = ao\<lparr>neg_mru := True, mru := PPP_MAXMRU, neg_asyncmap := True, asyncmap := 0, neg_chap := True,
     chap_mdtype := CHAP_DIGEST_MD5, neg_upap := True, neg_magicnumber := True, neg_pcompression := True,
     neg_accompression := True, neg_lqr := False, neg_cbcp := False\<rparr>"

definition lcp_init :: "'a lcp_scheme \<Rightarrow> 'a lcp_scheme" where
  "lcp_init f =
     (let f = fsm_init (f\<lparr>protocol := PPP_LCP\<rparr>);
          f = f\<lparr>lcp_wantoptions := lcp_want_defaults (lcp_wantoptions f), lcp_allowoptions := lcp_allow_defaults (lcp_allowoptions f)\<rparr>
      in f\<lparr>xmit_accm := load_accm (asyncmap (lcp_allowoptions f)) init_accm\<rparr>)"

definition lcp_open :: "'a lcp_scheme \<Rightarrow> 'a lcp_scheme" where
  "lcp_open f = fsm_open lcp_callbacks (f\<lparr>opt_passive := want_passive (lcp_wantoptions f), opt_restart := False,
     opt_silent := want_silent (lcp_wantoptions f)\<rparr>)"

definition lcp_lowerup :: "'a lcp_scheme \<Rightarrow> 'a lcp_scheme" where
  "lcp_lowerup f =
     (let x = xmit_accm f;
          f = f\<lparr>tx := ppp_send_config PPP_MRU 0xffffffff False False (ppp_set_xaccm x (tx f)),
            rx := ppp_recv_config 0 (rx f), peer_mru := int (unat PPP_MRU),
            lcp_allowoptions := (lcp_allowoptions f)\<lparr>asyncmap :=
              ucast (x ! 0) OR push_bit 8 (ucast (x ! 1)) OR push_bit 16 (ucast (x ! 2)) OR push_bit 24 (ucast (x ! 3))\<rparr>\<rparr>
      in fsm_lowerup lcp_callbacks f)"

definition lcp_lowerdown :: "'a lcp_scheme \<Rightarrow> 'a lcp_scheme" where
  "lcp_lowerdown f = fsm_lowerdown lcp_callbacks f"

definition lcp_input :: "u8 list \<Rightarrow> 'a lcp_scheme \<Rightarrow> 'a lcp_scheme" where
  "lcp_input p f = fsm_input lcp_callbacks p f"

definition lcp_sprotrej :: "u8 list \<Rightarrow> 'a lcp_scheme \<Rightarrow> 'a lcp_scheme" where
  "lcp_sprotrej p f = (let f = f\<lparr>f_id := f_id f + 1\<rparr> in fsm_sdata PROTREJ (f_id f) p f)"

text \<open>The events of the automaton, each through its entry point.\<close>

definition lcp_event :: "event \<Rightarrow> 'a lcp_scheme \<Rightarrow> 'a lcp_scheme" where
  "lcp_event e f =
     (case e of
        LowerUp \<Rightarrow> lcp_lowerup f
      | LowerDown \<Rightarrow> lcp_lowerdown f
      | Open \<Rightarrow> lcp_open f
      | Close reason \<Rightarrow> lcp_close reason f
      | Input p \<Rightarrow> lcp_input p f
      | ProtReject \<Rightarrow> lcp_protrej f
      | Timeout \<Rightarrow> fsm_event lcp_callbacks Timeout f)"

end
