(* ===== verification/Ppp_Link.thy ===== *)
theory Ppp_Link
  imports Ppp_Fsm
begin

text \<open>
  Two option negotiation automata at the two ends of a link. The packets an automaton has sent are the queue its
  peer reads from, in order; \<open>lseen\<close> and \<open>rseen\<close> count the packets each end has read.
\<close>

section \<open>A packet sent is the packet read\<close>

lemma be16_bytes [simp]: "be16 (hi8 n) (lo8 n) = n"
  by (simp add: be16_le16)

lemma input_packet:
  assumes "length data + 4 < 65536" and "st f \<noteq> LS_INITIAL" "st f \<noteq> LS_STARTING"
  shows "code = CONFREQ \<Longrightarrow> fsm_input cbs (drop 4 (fsm_packet proto code i data)) f = fsm_rconfreq cbs i data f"
    and "code = CONFACK \<Longrightarrow> fsm_input cbs (drop 4 (fsm_packet proto code i data)) f = fsm_rconfack cbs i data f"
proof -
  define w :: u16 where "w = word_of_int (int (length data) + HEADERLEN)"
  have "w = word_of_nat (length data + 4)"
    by (simp add: w_def HEADERLEN_def)
  then have "unat w = length data + 4"
    using assms(1) by (simp only: unsigned_of_nat) (simp add: take_bit_nat_eq_self)
  then have u: "int (unat w) = int (length data) + 4"
    by simp
  have d: "drop 4 (fsm_packet proto code i data) = [code, i, hi8 w, lo8 w] @ data"
    by (simp add: fsm_packet_def Let_def w_def)
  show "code = CONFREQ \<Longrightarrow> fsm_input cbs (drop 4 (fsm_packet proto code i data)) f = fsm_rconfreq cbs i data f"
    and "code = CONFACK \<Longrightarrow> fsm_input cbs (drop 4 (fsm_packet proto code i data)) f = fsm_rconfack cbs i data f"
    unfolding d fsm_input_def Let_def using assms(2,3)
    by (simp_all add: u HEADERLEN_def CONFREQ_def CONFACK_def numeral_2_eq_2 numeral_3_eq_3 del: int_nat_eq of_nat_unat)
qed

section \<open>Protocols that agree\<close>

text \<open>
  A protocol that has read no packet of its peer, one packet or two is in the states \<open>P 0\<close>, \<open>P 1\<close> and \<open>P 2\<close>. The first two
  depend only on its own data and on the size of the peer's packets. It accepts the peer's request \<open>ci'\<close> as it is, and
  the echo of its own, \<open>ci\<close>; its callbacks send nothing themselves.
\<close>

definition negotiates :: "nat \<Rightarrow> (nat \<Rightarrow> 'a fsm_scheme \<Rightarrow> bool) \<Rightarrow> 'a fsm_callbacks \<Rightarrow> u8 list \<Rightarrow> u8 list \<Rightarrow> bool" where
  "negotiates n P cbs ci ci' \<longleftrightarrow>
     (\<forall>k f g. k < 2 \<longrightarrow> P k f \<longrightarrow> fsm.more g = fsm.more f \<longrightarrow> peer_mru g = peer_mru f \<longrightarrow> P k g) \<and>
     (\<forall>k f. k < 2 \<longrightarrow> P k f \<longrightarrow> int n + HEADERLEN \<le> peer_mru f) \<and>
     (\<forall>f. P 0 f \<longrightarrow> (\<exists>g. check_ci cbs ci' f = (CONFACK, ci', g) \<and> P 1 g \<and> sent g = sent f)) \<and>
     (\<forall>f. P 1 f \<longrightarrow> (\<exists>g. check_ack cbs ci f = (True, g) \<and> P 1 g \<and> sent g = sent f)) \<and>
     (\<forall>f. P 1 f \<longrightarrow> P 2 (call (cb_up cbs) f) \<and> sent (call (cb_up cbs) f) = sent f) \<and> length ci \<le> n \<and> length ci' \<le> n"

lemma negotiatesD:
  assumes "negotiates n P cbs ci ci'"
  shows "k < 2 \<Longrightarrow> P k f \<Longrightarrow> fsm.more g = fsm.more f \<Longrightarrow> peer_mru g = peer_mru f \<Longrightarrow> P k g"
    "k < 2 \<Longrightarrow> P k f \<Longrightarrow> int n + HEADERLEN \<le> peer_mru f"
    "P 0 f \<Longrightarrow> \<exists>g. check_ci cbs ci' f = (CONFACK, ci', g) \<and> P 1 g \<and> sent g = sent f"
    "P 1 f \<Longrightarrow> \<exists>g. check_ack cbs ci f = (True, g) \<and> P 1 g \<and> sent g = sent f"
    "P 1 f \<Longrightarrow> P 2 (call (cb_up cbs) f) \<and> sent (call (cb_up cbs) f) = sent f" "length ci \<le> n" "length ci' \<le> n"
  using assms unfolding negotiates_def by blast+

text \<open>The request with which an automaton that was closed opens.\<close>

definition first_request :: "'a fsm_callbacks \<Rightarrow> 'a fsm_scheme \<Rightarrow> u8 list \<times> 'a fsm_scheme" where
  "first_request cbs f =
     (let f = (call (resetci cbs) f)\<lparr>nakloops := 0\<rparr>
      in request_ci cbs (f\<lparr>retransmits := maxconfreqtransmits f, f_id := f_id f + 1, reqid := f_id f + 1, seen_ack := False\<rparr>))"

section \<open>One end\<close>

text \<open>
  An end of the link that has read \<open>k\<close> packets of its peer: its request is \<open>i\<close> with options \<open>ci\<close>, the peer's is
  \<open>i'\<close> with options \<open>ci'\<close>.
\<close>

definition party :: "(nat \<Rightarrow> 'a fsm_scheme \<Rightarrow> bool) \<Rightarrow> u16 \<Rightarrow> u8 \<Rightarrow> u8 list \<Rightarrow> u8 \<Rightarrow> u8 list \<Rightarrow> nat \<Rightarrow> 'a fsm_scheme \<Rightarrow> bool" where
  "party P proto i ci i' ci' k f \<longleftrightarrow> reqid f = i \<and> protocol f = proto \<and> P k f \<and>
     (k = 0 \<and> st f = LS_REQSENT \<and> \<not> seen_ack f \<and> sent f = [fsm_packet proto CONFREQ i ci] \<or>
      k = 1 \<and> st f = LS_ACKSENT \<and> \<not> seen_ack f \<and> sent f = [fsm_packet proto CONFREQ i ci, fsm_packet proto CONFACK i' ci'] \<or>
      k = 2 \<and> st f = LS_OPENED \<and> sent f = [fsm_packet proto CONFREQ i ci, fsm_packet proto CONFACK i' ci'])"

lemma party_request:
  assumes ok: "callbacks_ok cbs" and ng: "negotiates n P cbs ci ci'" and l: "n + 4 < 65536" and p: "party P proto i ci i' ci' 0 f"
  shows "party P proto i ci i' ci' 1 (fsm_input cbs (drop 4 (fsm_packet proto CONFREQ i' ci')) f)"
proof -
  note N = negotiatesD [OF ng]
  have P: "P 0 f"
    using p by (simp add: party_def)
  obtain g where g: "check_ci cbs ci' f = (CONFACK, ci', g)" "P 1 g" "sent g = sent f"
    using N(3) [OF P] by blast
  have c: "same_core f g"
    by (rule check_ci_core [OF ok g(1)])
  have i: "fsm_input cbs (drop 4 (fsm_packet proto CONFREQ i' ci')) f = rconf_reply cbs i' ci' f"
    using p l N(7) by (subst input_packet(1)) (auto simp: party_def rconfreq_reply)
  have m: "int (length ci') \<le> peer_mru g - HEADERLEN"
    using N(2) [OF _ g(2)] N(7) by simp
  have "P 1 (rconf_reply cbs i' ci' f)"
    using p c by (intro N(1) [OF _ g(2)]) (simp_all add: party_def rconf_reply_def g Let_def same_core_def fsm_sdata_def)
  then show ?thesis
    unfolding i using p c g(3) m
    by (simp add: party_def rconf_reply_def g(1) Let_def same_core_def fsm_sdata_def)
qed

lemma party_ack:
  assumes ok: "callbacks_ok cbs" and ng: "negotiates n P cbs ci ci'" and l: "n + 4 < 65536" and p: "party P proto i ci i' ci' 1 f"
  shows "party P proto i ci i' ci' 2 (fsm_input cbs (drop 4 (fsm_packet proto CONFACK i ci)) f)"
proof -
  note N = negotiatesD [OF ng]
  have P: "P 1 f"
    using p by (simp add: party_def)
  obtain g where g: "check_ack cbs ci f = (True, g)" "P 1 g" "sent g = sent f"
    using N(4) [OF P] by blast
  have c: "same_core f g"
    by (rule check_ack_core [OF ok g(1)])
  have i: "fsm_input cbs (drop 4 (fsm_packet proto CONFACK i ci)) f = fsm_rconfack cbs i ci f"
    using p l N(6) by (subst input_packet(2)) (auto simp: party_def)
  let ?h = "(UNTIMEOUT (g\<lparr>seen_ack := True\<rparr>))\<lparr>st := LS_OPENED, retransmits := maxconfreqtransmits g\<rparr>"
  have "P 1 ?h"
    by (rule N(1) [OF _ g(2)]) (simp_all add: UNTIMEOUT_def)
  note up = N(5) [OF this]
  have "fsm_rconfack cbs i ci f = call (cb_up cbs) ?h"
    using p c by (simp add: party_def fsm_rconfack_def g(1) Let_def same_core_def UNTIMEOUT_def)
  then show ?thesis
    unfolding i using p c g(3) up
    by (simp add: party_def same_core_def UNTIMEOUT_def core_simps [OF ok])
qed

lemma party_start:
  assumes ok: "callbacks_ok cbs" and ng: "negotiates n P cbs ci ci'"
    and f: "st f = LS_CLOSED" "\<not> opt_silent f" "first_request cbs f = (ci, g)" "P 0 g" "sent g = []"
  shows "party P (protocol f) (f_id f + 1) ci i' ci' 0 (fsm_open cbs f)"
proof -
  note N = negotiatesD [OF ng]
  define f2 where "f2 = (call (resetci cbs) f)\<lparr>nakloops := 0, retransmits := maxconfreqtransmits f, f_id := f_id f + 1,
    reqid := f_id f + 1, seen_ack := False\<rparr>"
  have g: "request_ci cbs f2 = (ci, g)"
    using f(3) by (simp add: first_request_def Let_def f2_def core_simps [OF ok])
  have c: "same_core f2 g"
    using request_ci_core [OF ok g] .
  have s: "fsm_sconfreq cbs False f = TIMEOUT ((fsm_sdata CONFREQ (reqid g) ci g)\<lparr>retransmits := retransmits g - 1\<rparr>)"
    using g f(1) by (simp add: fsm_sconfreq_def Let_def f2_def core_simps [OF ok])
  have l: "int (length ci) \<le> peer_mru g - HEADERLEN"
    using N(2) [OF _ f(4)] N(6) by simp
  have "P 0 ((fsm_sconfreq cbs False f)\<lparr>st := LS_REQSENT\<rparr>)"
    by (rule N(1) [OF _ f(4)]) (simp_all add: s TIMEOUT_def UNTIMEOUT_def fsm_sdata_def Let_def)
  then show ?thesis
    using f c l by (simp add: fsm_open_def party_def sconfreq_simps [OF ok])
      (simp add: s TIMEOUT_def UNTIMEOUT_def fsm_sdata_def Let_def same_core_def f2_def core_simps [OF ok])
qed

section \<open>The link\<close>

record ('a, 'b) link =
  lft :: "'a fsm_scheme"
  rgt :: "'b fsm_scheme"
  lseen :: nat
  rseen :: nat

text \<open>The packet an end reads next is the oldest one of its peer it has not read; the link header is removed.\<close>

inductive link_step :: "'a fsm_callbacks \<Rightarrow> 'b fsm_callbacks \<Rightarrow> ('a, 'b) link \<Rightarrow> ('a, 'b) link \<Rightarrow> bool"
  for ca :: "'a fsm_callbacks" and cb :: "'b fsm_callbacks" where
  to_right: "rseen l < length (sent (lft l)) \<Longrightarrow>
    link_step ca cb l (l\<lparr>rgt := fsm_input cb (drop 4 (sent (lft l) ! rseen l)) (rgt l), rseen := rseen l + 1\<rparr>)"
| to_left: "lseen l < length (sent (rgt l)) \<Longrightarrow>
    link_step ca cb l (l\<lparr>lft := fsm_input ca (drop 4 (sent (rgt l) ! lseen l)) (lft l), lseen := lseen l + 1\<rparr>)"

inductive link_reach :: "'a fsm_callbacks \<Rightarrow> 'b fsm_callbacks \<Rightarrow> ('a, 'b) link \<Rightarrow> nat \<Rightarrow> ('a, 'b) link \<Rightarrow> bool"
  for ca :: "'a fsm_callbacks" and cb :: "'b fsm_callbacks" and l0 :: "('a, 'b) link" where
  start: "link_reach ca cb l0 0 l0"
| step: "link_reach ca cb l0 k l \<Longrightarrow> link_step ca cb l l' \<Longrightarrow> link_reach ca cb l0 (Suc k) l'"

definition link_open :: "'a fsm_callbacks \<Rightarrow> 'b fsm_callbacks \<Rightarrow> 'a fsm_scheme \<Rightarrow> 'b fsm_scheme \<Rightarrow> ('a, 'b) link" where
  "link_open ca cb a b = \<lparr>lft = fsm_open ca a, rgt = fsm_open cb b, lseen = 0, rseen = 0\<rparr>"

definition link_inv :: "(nat \<Rightarrow> 'a fsm_scheme \<Rightarrow> bool) \<Rightarrow> (nat \<Rightarrow> 'b fsm_scheme \<Rightarrow> bool) \<Rightarrow> u16 \<Rightarrow> u8 \<Rightarrow> u8 list \<Rightarrow> u8 \<Rightarrow> u8 list \<Rightarrow> nat \<Rightarrow>
  ('a, 'b) link \<Rightarrow> bool" where
  "link_inv P Q proto i ci i' ci' k l \<longleftrightarrow> k = lseen l + rseen l \<and> party P proto i ci i' ci' (lseen l) (lft l) \<and>
     party Q proto i' ci' i ci (rseen l) (rgt l) \<and> lseen l \<le> length (sent (rgt l)) \<and> rseen l \<le> length (sent (lft l))"

text \<open>The packet an end reads next is the peer's request, or the peer's acknowledgement of its own.\<close>

lemma party_next:
  assumes "party P proto i ci i' ci' k f" and "j < length (sent f)"
  shows "j = 0 \<and> sent f ! j = fsm_packet proto CONFREQ i ci \<or> j = 1 \<and> sent f ! j = fsm_packet proto CONFACK i' ci'"
  using assms by (auto simp: party_def less_Suc_eq)

lemma party_sent: "party P proto i ci i' ci' k f \<Longrightarrow> length (sent f) = (if k = 0 then 1 else 2)"
  by (auto simp: party_def)

lemma party_read:
  assumes ok: "callbacks_ok cbs" and ng: "negotiates n P cbs ci ci'" and n: "n + 4 < 65536"
    and f: "party P proto i ci i' ci' k f" and g: "party Q proto i' ci' i ci k' g" and k: "k < length (sent g)"
  shows "party P proto i ci i' ci' (k + 1) (fsm_input cbs (drop 4 (sent g ! k)) f)"
  using party_next [OF g k]
proof (elim disjE conjE)
  assume "k = 0" "sent g ! k = fsm_packet proto CONFREQ i' ci'"
  with f party_request [OF ok ng n] show ?thesis
    by (metis add_0)
next
  assume "k = 1" "sent g ! k = fsm_packet proto CONFACK i ci"
  with f party_ack [OF ok ng n] show ?thesis
    by (metis one_add_one)
qed

lemma link_step_inv:
  assumes ca: "callbacks_ok ca" "negotiates n P ca ci ci'" and cb: "callbacks_ok cb" "negotiates n Q cb ci' ci" and n: "n + 4 < 65536"
    and s: "link_step ca cb x y" and inv: "link_inv P Q proto i ci i' ci' k x"
  shows "link_inv P Q proto i ci i' ci' (Suc k) y"
proof -
  have p: "party P proto i ci i' ci' (lseen x) (lft x)" and q: "party Q proto i' ci' i ci (rseen x) (rgt x)"
    using inv by (simp_all add: link_inv_def)
  from s show ?thesis
  proof cases
    case to_right
    have r: "party Q proto i' ci' i ci (rseen x + 1) (rgt y)"
      using party_read [OF cb n q p to_right(2)] to_right(1) by simp
    with inv to_right party_sent [OF r] party_sent [OF q] show ?thesis
      by (auto simp: link_inv_def split: if_splits)
  next
    case to_left
    have r: "party P proto i ci i' ci' (lseen x + 1) (lft y)"
      using party_read [OF ca n p q to_left(2)] to_left(1) by simp
    with inv to_left party_sent [OF r] party_sent [OF p] show ?thesis
      by (auto simp: link_inv_def split: if_splits)
  qed
qed

lemma link_reach_inv:
  assumes "link_reach ca cb l0 k l" and "link_inv P Q proto i ci i' ci' 0 l0"
    and "callbacks_ok ca" "negotiates n P ca ci ci'" "callbacks_ok cb" "negotiates n Q cb ci' ci" "n + 4 < 65536"
  shows "link_inv P Q proto i ci i' ci' k l"
  using assms(1)
proof induction
  case start
  show ?case
    by (rule assms(2))
next
  case (step k l l')
  from link_step_inv [OF assms(3-7) step(2,3)] show ?case .
qed

text \<open>Nothing left to read means that both ends have read two packets.\<close>

lemma link_inv_outcome:
  assumes "link_inv P Q proto i ci i' ci' k l"
  shows "k \<le> 4 \<and> (k < 4 \<longrightarrow> (\<exists>l'. link_step ca cb l l')) \<and> 
    (k = 4 \<longrightarrow> st (lft l) = LS_OPENED \<and> st (rgt l) = LS_OPENED \<and> P 2 (lft l) \<and> Q 2 (rgt l))"
proof -
  have p: "party P proto i ci i' ci' (lseen l) (lft l)" and q: "party Q proto i' ci' i ci (rseen l) (rgt l)"
    and k: "k = lseen l + rseen l" and b: "lseen l \<le> length (sent (rgt l))" "rseen l \<le> length (sent (lft l))"
    using assms by (simp_all add: link_inv_def)
  have two: "lseen l \<le> 2" "rseen l \<le> 2"
    using b party_sent [OF p] party_sent [OF q] by (simp_all split: if_splits)
  have "rseen l < length (sent (lft l)) \<or> lseen l < length (sent (rgt l))" if "k < 4"
    using that b k party_sent [OF p] party_sent [OF q] by (auto split: if_splits)
  then have "\<exists>l'. link_step ca cb l l'" if "k < 4"
    using that link_step.intros by blast
  moreover have "st (lft l) = LS_OPENED \<and> st (rgt l) = LS_OPENED \<and> P 2 (lft l) \<and> Q 2 (rgt l)" if "k = 4"
  proof -
    have "lseen l = 2" "rseen l = 2"
      using that k two by linarith+
    with p q show ?thesis
      by (simp add: party_def)
  qed
  ultimately show ?thesis
    using k two by simp
qed

end
