(* ===== verification/Ppp_Fsm_Properties.thy ===== *)
theory Ppp_Fsm_Properties
  imports Ppp_Link
begin

text \<open>
  The properties of the option negotiation automaton: it never waits without a timeout, gives up on a silent peer,
  opens only on an agreement, and two automata whose protocols agree open the link.
\<close>

section \<open>A silent peer\<close>

lemma timeout_again:
  assumes ok: "callbacks_ok cbs" and inv: "fsm_inv f" and w: "waiting (st f)" and r: "0 < retransmits f"
  shows "waiting (st (fsm_event cbs Timeout f))" and "retransmits (fsm_event cbs Timeout f) = retransmits f - 1"
    and "st (fsm_event cbs Timeout f) = LS_CLOSING \<longleftrightarrow> st f = LS_CLOSING"
  using inv w r
  by (cases "st f"; auto simp: fsm_event_def fsm_timeout_def Let_def fsm_inv_def core_simps [OF ok] sconfreq_simps [OF ok])+

lemma timeout_last:
  assumes ok: "callbacks_ok cbs" and inv: "fsm_inv f" and w: "waiting (st f)" and r: "retransmits f \<le> 0"
  shows "st (fsm_event cbs Timeout f) = (if st f = LS_CLOSING then LS_CLOSED else LS_STOPPED)"
  using inv w r by (cases "st f") (auto simp: fsm_event_def fsm_timeout_def Let_def fsm_inv_def core_simps [OF ok])

lemma timeouts_end:
  assumes ok: "callbacks_ok cbs"
  shows "fsm_inv f \<Longrightarrow> waiting (st f) \<Longrightarrow> nat (retransmits f) = n \<Longrightarrow>
    st (fsm_run cbs (replicate (n + 1) Timeout) f) = (if st f = LS_CLOSING then LS_CLOSED else LS_STOPPED)"
proof (induction n arbitrary: f)
  case 0
  then show ?case
    using timeout_last [OF ok] by (simp add: fsm_run_def)
next
  case (Suc n)
  then have r: "0 < retransmits f"
    by simp
  note again = timeout_again [OF ok Suc.prems(1,2) r]
  have "nat (retransmits (fsm_event cbs Timeout f)) = n"
    using Suc.prems(3) again(2) by simp
  from Suc.IH [OF event_inv [OF ok Suc.prems(1)] again(1) this] again(3) show ?case
    by (simp add: fsm_run_def)
qed

lemma init_inv: "fsm_inv (fsm_init f)"
  by (simp add: fsm_inv_def fsm_init_def)

section \<open>Opening\<close>

text \<open>Only a request and an acknowledgement open the automaton.\<close>

lemma events_do_not_open:
  assumes ok: "callbacks_ok cbs" and s: "st f \<noteq> LS_OPENED"
  shows "st (fsm_lowerup cbs f) \<noteq> LS_OPENED" and "st (fsm_lowerdown cbs f) \<noteq> LS_OPENED"
    and "st (fsm_close cbs reason f) \<noteq> LS_OPENED" and "st (fsm_timeout cbs f) \<noteq> LS_OPENED"
    and "st (fsm_protreject cbs f) \<noteq> LS_OPENED" and "st (fsm_rtermreq cbs i f) \<noteq> LS_OPENED"
    and "st (fsm_rtermack cbs f) \<noteq> LS_OPENED" and "st (fsm_rcoderej inp f) \<noteq> LS_OPENED"
  using s
  by (cases "st f"; simp add: fsm_lowerup_def fsm_lowerdown_def fsm_close_def fsm_timeout_def fsm_protreject_def
      fsm_rtermreq_def fsm_rtermack_def fsm_rcoderej_def Let_def TIMEOUT_def UNTIMEOUT_def sconfreq_simps [OF ok] core_simps [OF ok])+

lemma open_does_not_open:
  assumes ok: "callbacks_ok cbs" and s: "st f \<noteq> LS_OPENED"
  shows "st (fsm_open cbs f) \<noteq> LS_OPENED"
proof -
  have r: "st (fsm_lowerup cbs (fsm_lowerdown cbs g)) \<noteq> LS_OPENED" if "st g \<noteq> LS_OPENED" for g
    using events_do_not_open(1,2) [OF ok] that by blast
  show ?thesis
    using s r [of f] r [of "f\<lparr>st := LS_STOPPING\<rparr>"]
    by (cases "st f") (simp_all add: fsm_open_def sconfreq_simps [OF ok] core_simps [OF ok])
qed

lemma nakrej_does_not_open:
  assumes ok: "callbacks_ok cbs" and s: "st f \<noteq> LS_OPENED"
  shows "st (fsm_rconfnakrej cbs code i inp f) \<noteq> LS_OPENED"
proof -
  let ?r = "case (if code = CONFNAK then nakci cbs else rejci cbs) of Some proc \<Rightarrow> proc f inp | None \<Rightarrow> (0, f)"
  obtain a g where g: "?r = (a, g)"
    by fastforce
  have "left f (snd ?r)"
    using ok by (auto simp: callbacks_ok_def split: option.split)
  then have "st g \<noteq> LS_OPENED"
    using s left_opened by (simp add: g)
  with s show ?thesis
    by (cases "st g") (simp_all add: fsm_rconfnakrej_def g Let_def UNTIMEOUT_def sconfreq_simps [OF ok])
qed

lemma ack_opens:
  assumes ok: "callbacks_ok cbs" and s: "st f \<noteq> LS_OPENED" and o: "st (fsm_rconfack cbs i inp f) = LS_OPENED"
  shows "st f = LS_ACKSENT \<and> i = reqid f \<and> \<not> seen_ack f \<and> fst (check_ack cbs inp f)"
proof -
  obtain a g where g: "check_ack cbs inp f = (a, g)"
    by fastforce
  then have "st g = st f"
    using check_ack_core [OF ok g] by (simp add: same_core_def)
  with s o show ?thesis
    by (cases "st f")
       (simp_all add: fsm_rconfack_def g Let_def UNTIMEOUT_def sconfreq_simps [OF ok] core_simps [OF ok] split: if_splits)
qed

lemma request_opens:
  assumes ok: "callbacks_ok cbs" and s: "st f \<noteq> LS_OPENED" and o: "st (fsm_rconfreq cbs i inp f) = LS_OPENED"
  shows "st f = LS_ACKRCVD \<and> fst (check_ci cbs inp f) = CONFACK"
proof -
  have r: "st g = LS_ACKRCVD \<and> fst (check_ci cbs inp g) = CONFACK" if "st (rconf_reply cbs i inp g) = LS_OPENED" for g
    using reply_state(1) [OF ok, of inp g] that by (cases "check_ci cbs inp g") (auto split: if_splits)
  show ?thesis
    using s o r by (cases "st f") (auto simp: rconfreq_reply dest: r)
qed

lemma input_opens:
  assumes ok: "callbacks_ok cbs" and s: "st f \<noteq> LS_OPENED" and o: "st (fsm_input cbs p f) = LS_OPENED"
  shows "\<exists>inp. (st f = LS_ACKSENT \<and> p ! 0 = CONFACK \<and> p ! 1 = reqid f \<and> \<not> seen_ack f \<and> fst (check_ack cbs inp f) \<or>
     st f = LS_ACKRCVD \<and> p ! 0 = CONFREQ \<and> fst (check_ci cbs inp f) = CONFACK) \<and> (\<exists>n. inp = take n (drop 4 p))"
proof -
  have x: "st (snd (case cb_extcode cbs of Some g \<Rightarrow> g f c i q | None \<Rightarrow> (False, f))) \<noteq> LS_OPENED" for c i q
  proof (cases "cb_extcode cbs")
    case (Some g)
    then have "left f (snd (g f c i q))"
      using ok unfolding callbacks_ok_def by blast
    with Some s show ?thesis
      by (simp add: left_opened)
  qed (simp add: s)
  then have y: "st g \<noteq> LS_OPENED"
    if "(case cb_extcode cbs of Some g \<Rightarrow> g f c i q | None \<Rightarrow> (False, f)) = (b, g)" for c i q b g
    using that by (metis snd_conv)
  let ?inp = "take (nat (int (unat (be16 (p ! 2) (p ! 3))) - HEADERLEN)) (drop 4 p)"
  have "p ! 0 = CONFREQ \<and> st (fsm_rconfreq cbs (p ! 1) ?inp f) = LS_OPENED \<or>
      p ! 0 = CONFACK \<and> st (fsm_rconfack cbs (p ! 1) ?inp f) = LS_OPENED"
    using o s events_do_not_open(6-8) [OF ok s] nakrej_does_not_open [OF ok s]
    unfolding fsm_input_def Let_def by (auto split: if_splits prod.splits dest: y)
  then show ?thesis
    using request_opens [OF ok s] ack_opens [OF ok s] by blast
qed

section \<open>A Terminate-Ack on an open link\<close>

text \<open>
  The automaton tells the upper layers that the link is down and requests again, but its state remains open, with a
  timeout pending; the down event of the lower layer then leaves that timeout behind.
\<close>

lemma rtermack_stays_open:
  assumes ok: "callbacks_ok cbs" and s: "st f = LS_OPENED"
  shows "st (fsm_rtermack cbs f) = LS_OPENED" and "0 < timer (fsm_rtermack cbs f)"
    and "0 < timer (fsm_lowerdown cbs (fsm_rtermack cbs f))"
  using s by (simp_all add: fsm_rtermack_def fsm_lowerdown_def sconfreq_simps [OF ok] core_simps [OF ok])

section \<open>Properties\<close>

text \<open>
  C22: from its initialisation on, whatever packets, timeouts and events come in whatever order, the automaton never
  waits without a pending timeout, and its restart counter stays between zero and the ten requests it allows.
\<close>

theorem fsm_never_stuck:
  assumes "callbacks_ok cbs" and "waiting (st (fsm_run cbs es (fsm_init f)))"
  shows "0 < timer (fsm_run cbs es (fsm_init f)) \<and> 0 \<le> retransmits (fsm_run cbs es (fsm_init f)) \<and>
    retransmits (fsm_run cbs es (fsm_init f)) \<le> FSM_DEFMAXCONFREQS"
  using run_inv [OF assms(1) init_inv] assms(2) unfolding fsm_inv_def by blast

text \<open>
  C23: when the peer falls silent, the automaton stops after its remaining retransmissions: at most eleven timeouts
  bring every waiting state to \<open>LS_CLOSED\<close>, if it was closing, or to \<open>LS_STOPPED\<close>.
\<close>

theorem silent_peer_gives_up:
  assumes "callbacks_ok cbs" and "g = fsm_run cbs es (fsm_init f)" and "waiting (st g)"
  shows "\<exists>n\<le>11. st (fsm_run cbs (replicate n Timeout) g) = (if st g = LS_CLOSING then LS_CLOSED else LS_STOPPED)"
proof -
  have inv: "fsm_inv g"
    unfolding assms(2) by (rule run_inv [OF assms(1) init_inv])
  then have "nat (retransmits g) + 1 \<le> 11"
    using assms(3) by (auto simp: fsm_inv_def FSM_DEFMAXCONFREQS_def nat_le_iff)
  with timeouts_end [OF assms(1) inv assms(3) refl] show ?thesis
    by blast
qed

text \<open>
  The automaton opens only on an agreement. The step that opens it reads a Configure-Ack for its outstanding
  request, with the options it asked for, after it acknowledged the peer's request; or reads the peer's request, which
  it acknowledges, after its own was acknowledged.
\<close>

theorem opens_on_agreement:
  assumes "callbacks_ok cbs" and "st f \<noteq> LS_OPENED" and "st (fsm_event cbs e f) = LS_OPENED"
  shows "\<exists>p inp. e = Input p \<and>
    (st f = LS_ACKSENT \<and> p ! 0 = CONFACK \<and> p ! 1 = reqid f \<and> \<not> seen_ack f \<and> fst (check_ack cbs inp f) \<or>
     st f = LS_ACKRCVD \<and> p ! 0 = CONFREQ \<and> fst (check_ci cbs inp f) = CONFACK) \<and> (\<exists>n. inp = take n (drop 4 p))"
proof (cases e)
  case (Input p)
  with input_opens [OF assms(1,2)] assms(3) show ?thesis
    by (simp add: fsm_event_def)
next
  case Timeout
  with assms events_do_not_open(4) [OF assms(1), of "f\<lparr>timer := timer f - 1\<rparr>"] show ?thesis
    by (simp add: fsm_event_def split: if_splits)
qed (use assms(3) events_do_not_open [OF assms(1,2)] open_does_not_open [OF assms(1,2)] in \<open>simp_all add: fsm_event_def\<close>)

text \<open>
  Two automata whose protocols accept each other's requests open the link. However the packets of the two
  directions interleave, at most four packets are read, a packet is always left to read before that, and after the
  fourth both ends are open.
\<close>

lemma agreeing_ends_open:
  assumes "callbacks_ok ca" "negotiates n P ca ci ci'" "callbacks_ok cb" "negotiates n Q cb ci' ci" "n + 4 < 65536"
    and "st a = LS_CLOSED" "\<not> opt_silent a" "first_request ca a = (ci, a1)" "P 0 a1" "sent a1 = []"
    and "st b = LS_CLOSED" "\<not> opt_silent b" "first_request cb b = (ci', b1)" "Q 0 b1" "sent b1 = []"
    and "protocol a = protocol b" and "link_reach ca cb (link_open ca cb a b) k l"
  shows "k \<le> 4 \<and> (k < 4 \<longrightarrow> (\<exists>l'. link_step ca cb l l')) \<and>
    (k = 4 \<longrightarrow> st (lft l) = LS_OPENED \<and> st (rgt l) = LS_OPENED \<and> P 2 (lft l) \<and> Q 2 (rgt l))"
proof -
  note p = party_start [OF assms(1,2,6-10), of "f_id b + 1"] party_start [OF assms(3,4,11-15), of "f_id a + 1"]
  have "link_inv P Q (protocol a) (f_id a + 1) ci (f_id b + 1) ci' 0 (link_open ca cb a b)"
    using p by (simp add: link_inv_def link_open_def assms(16))
  from link_inv_outcome [OF link_reach_inv [OF assms(17) this assms(1-5)]] show ?thesis .
qed

text \<open>A protocol with one option, a maximum receive unit, which accepts what the peer asks for.\<close>

definition mru_option :: "u8 list" where
  "mru_option = [1, 4, 5, 220]"

definition mru_callbacks :: "unit fsm_callbacks" where
  "mru_callbacks = \<lparr>resetci = None, cilen = Some (\<lambda>f. 4), addci = Some (\<lambda>f n. (mru_option, f)),
     ackci = Some (\<lambda>f p. (p = mru_option, f)), nakci = None, rejci = None, reqci = Some (\<lambda>f p b. (CONFACK, p, f)),
     cb_up = None, cb_down = None, cb_starting = None, cb_finished = None, cb_retransmit = None, cb_extcode = None\<rparr>"

definition closed_fsm :: "u8 \<Rightarrow> fsm" where
  "closed_fsm i = \<lparr>protocol = 0xc021, st = LS_CLOSED, opt_passive = False, opt_restart = False, opt_silent = False,
     f_id = i, reqid = 0, seen_ack = False, timeouttime = FSM_DEFTIMEOUT, maxconfreqtransmits = FSM_DEFMAXCONFREQS,
     retransmits = 0, maxtermtransmits = FSM_DEFMAXTERMREQS, nakloops = 0, maxnakloops = FSM_DEFMAXNAKLOOPS,
     term_reason = [], peer_mru = 1500, timer = 0, sent = []\<rparr>"

lemma mru_ok: "callbacks_ok mru_callbacks"
  by (simp add: callbacks_ok_def mru_callbacks_def keeps_def call_def)

lemma fsm_never_stuck_witness:
  "0 < timer (fsm_run mru_callbacks [Open, LowerUp] (fsm_init (closed_fsm 0)))"
  by (rule fsm_never_stuck [OF mru_ok, THEN conjunct1])
     (simp add: fsm_run_def fsm_event_def fsm_init_def fsm_open_def fsm_lowerup_def call_def mru_callbacks_def)

lemma silent_peer_gives_up_witness:
  "\<exists>n\<le>11. st (fsm_run mru_callbacks (replicate n Timeout) (fsm_run mru_callbacks [Open, LowerUp] (fsm_init (closed_fsm 0)))) = LS_STOPPED"
proof -
  let ?g = "fsm_run mru_callbacks [Open, LowerUp] (fsm_init (closed_fsm 0))"
  have "st ?g = LS_REQSENT"
    by (simp add: fsm_run_def fsm_event_def fsm_init_def fsm_open_def fsm_lowerup_def call_def mru_callbacks_def)
  with silent_peer_gives_up [OF mru_ok refl, of "[Open, LowerUp]" "closed_fsm 0"] show ?thesis
    by simp
qed

lemma opens_on_agreement_witness:
  "\<exists>p inp. Input ([CONFACK, 1, 0, 8] @ mru_option) = Input p \<and>
    (st ((fsm_open mru_callbacks (closed_fsm 0))\<lparr>st := LS_ACKSENT\<rparr>) = LS_ACKSENT \<and> p ! 0 = CONFACK \<and> p ! 1 = 1 \<and>
     fst (check_ack mru_callbacks inp ((fsm_open mru_callbacks (closed_fsm 0))\<lparr>st := LS_ACKSENT\<rparr>)))"
proof -
  let ?f = "(fsm_open mru_callbacks (closed_fsm 0))\<lparr>st := LS_ACKSENT\<rparr>"
  have r: "reqid ?f = 1" "\<not> seen_ack ?f"
    by (simp_all add: fsm_open_def closed_fsm_def sconfreq_simps [OF mru_ok])
  have "st (fsm_event mru_callbacks (Input ([CONFACK, 1, 0, 8] @ mru_option)) ?f) = LS_OPENED"
    using r by (simp add: fsm_event_def fsm_input_def Let_def HEADERLEN_def mru_option_def be16_def CONFACK_def CONFREQ_def
        fsm_rconfack_def check_ack_def mru_callbacks_def UNTIMEOUT_def call_def)
  from opens_on_agreement [OF mru_ok _ this] r(1) show ?thesis
    by auto
qed

end
