(* ===== verification/Ppp_Lcp_Properties.thy ===== *)
theory Ppp_Lcp_Properties
  imports "HOL-Library.Sublist" Ppp_Lcp Ppp_Fsm_Properties
begin

text \<open>
  The properties of the link control protocol: its callbacks keep the automaton's rules, an acknowledgement is accepted
  exactly if it repeats the request, two ends whose options fit open the link, and what a request can do to the buffer
  for counterproposals.
\<close>

section \<open>Numbers\<close>

lemma length_put [simp]: "length (PUTSHORT s) = 2" "length (PUTLONG l) = 4"
  by (simp_all add: PUTSHORT_def PUTLONG_def)

lemma get_put [simp]: "GETSHORT (PUTSHORT s) = s" "GETSHORT (PUTSHORT s @ r) = s"
  by (simp_all add: GETSHORT_def PUTSHORT_def be16_def hi8_def lo8_def; rule bit_word_eqI; auto simp: bit_simps)+

lemma long_bytes:
  "push_bit 8 (push_bit 8 (push_bit 8 (ucast (ucast (drop_bit 24 l) :: u8)) OR ucast (ucast (drop_bit 16 l) :: u8)) OR
     ucast (ucast (drop_bit 8 l) :: u8)) OR ucast (ucast l :: u8) = (l :: u32)" (is "?x = l")
proof (rule bit_word_eqI)
  fix n
  assume n: "n < LENGTH(32)"
  consider "n < 8" | "8 \<le> n" "n < 16" | "16 \<le> n" "n < 24" | "24 \<le> n" "n < 32"
    using n by fastforce
  then show "bit ?x n = bit l n"
    by cases (auto simp: bit_or_iff bit_push_bit_iff bit_unsigned_iff bit_drop_bit_eq)
qed

lemma get_put_long [simp]: "GETLONG (PUTLONG l @ r) = l" "GETLONG (PUTLONG l) = l"
  unfolding GETLONG_def PUTLONG_def using long_bytes [of l] by simp_all

section \<open>Requests and their acknowledgement\<close>

definition cis_bytes :: "(bool \<times> u8 \<times> u8 list) list \<Rightarrow> u8 list" where
  "cis_bytes cs = concat (map (\<lambda>(neg, opt, val). if neg then ci_bytes opt val else []) cs)"

lemma cis_bytes_simps [simp]:
  "cis_bytes [] = []"
  "cis_bytes ((neg, opt, val) # cs) = (if neg then ci_bytes opt val else []) @ cis_bytes cs"
  by (simp_all add: cis_bytes_def)

lemma length_ci_bytes [simp]: "length (ci_bytes opt val) = 2 + length val"
  by (simp add: ci_bytes_def)

lemma ACKCI_iff: "ACKCI (neg, opt, val) p = Some r \<longleftrightarrow> p = (if neg then ci_bytes opt val else []) @ r"
proof (cases "neg \<and> 2 + length val \<le> length p")
  case True
  then obtain a b q where p: "p = a # b # q"
    by (cases p; cases "tl p") auto
  show ?thesis
    using True unfolding p by (auto simp: ACKCI_def ci_bytes_def) (metis append_take_drop_id)+
next
  case False
  then have "neg \<Longrightarrow> p \<noteq> ci_bytes opt val @ r"
    by (auto simp: ci_bytes_def)
  with False show ?thesis
    by (auto simp: ACKCI_def)
qed

lemma ack_all_iff: "ack_all cs p = Some r \<longleftrightarrow> p = cis_bytes cs @ r"
proof (induction cs arbitrary: p)
  case (Cons c cs)
  obtain neg opt val where c: "c = (neg, opt, val)"
    by (cases c)
  have "ack_all (c # cs) p = Some r \<longleftrightarrow> (\<exists>q. ACKCI c p = Some q \<and> ack_all cs q = Some r)"
    by (cases "ACKCI c p") auto
  also have "\<dots> \<longleftrightarrow> p = cis_bytes (c # cs) @ r"
    unfolding Cons.IH c ACKCI_iff by auto
  finally show ?case .
qed auto

lemma addci_bytes: "lcp_addci f n = (cis_bytes (lcp_cis (lcp_gotoptions f)), f)"
  by (simp add: lcp_addci_def cis_bytes_def)

lemma cilen_bytes: "lcp_cilen f = int (length (cis_bytes (lcp_cis (lcp_gotoptions f))))"
  by (simp add: lcp_cilen_def lcp_cis_def Let_def CILEN_VOID_def CILEN_CHAR_def CILEN_SHORT_def CILEN_CHAP_def CILEN_LONG_def
      CILEN_LQR_def CILEN_CBCP_def)

lemma cis_bytes_le: "length (cis_bytes (lcp_cis go)) \<le> 36"
  by (simp add: lcp_cis_def)

lemma request_ci_lcp: "request_ci lcp_callbacks f = (cis_bytes (lcp_cis (lcp_gotoptions f)), f)"
  by (simp add: request_ci_def lcp_callbacks_def lcp_base_def addci_bytes)

lemma check_ack_lcp: "check_ack lcp_callbacks p f = (p = cis_bytes (lcp_cis (lcp_gotoptions f)), f)"
  by (simp add: check_ack_def lcp_callbacks_def lcp_base_def lcp_ackci_def ack_all_iff)

section \<open>The callbacks and the automaton\<close>

lemmas lcp_core_defs = same_core_def magic_def upcall_def Let_def

lemma lcp_up_core: "same_core f (lcp_up f)"
  by (cases "neg_magicnumber (lcp_gotoptions f)"; cases "neg_magicnumber (lcp_hisoptions f)"; cases "neg_mru (lcp_hisoptions f)")
    (simp_all add: lcp_up_def lcp_core_defs)

lemma lcp_core [simp]:
  "same_core f (lcp_resetci f)" "same_core f (lcp_down f)" "same_core f (lcp_starting f)"
  "same_core f (lcp_finished f)" "same_core f (snd (lcp_addci f n))" "same_core f (snd (lcp_ackci f p))"
  by (simp_all add: lcp_core_defs lcp_resetci_def lcp_down_def lcp_starting_def lcp_finished_def lcp_addci_def lcp_ackci_def)

lemma lcp_rejci_core [simp]: "same_core f (snd (lcp_rejci f p))"
  by (cases "rej_options (lcp_gotoptions f) p") (simp_all add: lcp_rejci_def same_core_def)

lemma lcp_close_callbacks: "fsm_close lcp_base reason f = fsm_close lcp_callbacks reason f"
  "fsm_protreject lcp_base f = fsm_protreject lcp_callbacks f"
  by (cases "st f"; simp add: fsm_close_def fsm_protreject_def lcp_callbacks_def)+

lemma hisoptions_core [simp]: "same_core f (f\<lparr>lcp_hisoptions := h\<rparr>)" "same_core f (snd (magic f))"
  by (simp_all add: same_core_def magic_def)

lemma reqci_magic_core: "same_core f (snd (snd (reqci_magic p f)))"
  by (cases "magic f") (use hisoptions_core(2) [of f] in \<open>auto simp: reqci_magic_def Let_def simp del: hisoptions_core(2)\<close>)

lemma reqci_mru_core: "same_core f (snd (snd (reqci_mru p f)))"
  by (simp add: reqci_mru_def Let_def)

lemma reqci_asyncmap_core: "same_core f (snd (snd (reqci_asyncmap p f)))"
  by (simp add: reqci_asyncmap_def Let_def)

lemma reqci_auth_core: "same_core f (snd (snd (reqci_auth p f)))"
  by (simp add: reqci_auth_def Let_def)

lemma reqci_quality_core: "same_core f (snd (snd (reqci_quality p f)))"
  by (simp add: reqci_quality_def Let_def)

lemmas reqci_cores = reqci_mru_core reqci_asyncmap_core reqci_auth_core reqci_quality_core

lemma reqci_option_core: "same_core f (snd (snd (reqci_option p f)))"
  unfolding reqci_option_def Let_def using reqci_cores [of f p] reqci_magic_core [of f p] by (simp split: if_split)

lemma same_core_trans: "same_core f g \<Longrightarrow> same_core g h \<Longrightarrow> same_core f h"
  by (simp add: same_core_def)

text \<open>A malformed option, and the step over a well-formed one.\<close>

definition good_ci :: "u8 list \<Rightarrow> bool" where
  "good_ci p \<longleftrightarrow> 2 \<le> length p \<and> 2 \<le> unat (p ! 1) \<and> unat (p ! 1) \<le> length p"

lemma reqci_loop_bad:
  "p \<noteq> [] \<Longrightarrow> \<not> good_ci p \<Longrightarrow> reqci_loop rid p acc nak f = (reqci_verdict rid 0 p CONFREJ acc, nak, f)"
  by (subst reqci_loop.simps) (auto simp: good_ci_def)

lemma reqci_loop_step:
  assumes "good_ci p" "reqci_option (take (unat (p ! 1)) p) f = (orc, nb, g)"
  shows "reqci_loop rid p acc nak f =
    reqci_loop rid (drop (unat (p ! 1)) p) (reqci_verdict rid (p ! 0) (take (unat (p ! 1)) p) orc acc) (nak @ nb) g"
proof -
  have "p \<noteq> []" "\<not> (length p < 2 \<or> unat (p ! 1) < 2 \<or> length p < unat (p ! 1))"
    using assms(1) by (auto simp: good_ci_def)
  then show ?thesis
    by (subst reqci_loop.simps) (simp only: if_False Let_def assms(2) prod.case)
qed

lemma reqci_loop_Nil [simp]: "reqci_loop rid [] acc nak f = (acc, nak, f)"
  by (simp add: reqci_loop.simps)

lemma reqci_loop_induct [case_names Nil bad step]:
  assumes "\<And>acc nak f. P [] acc nak f" "\<And>p acc nak f. p \<noteq> [] \<Longrightarrow> \<not> good_ci p \<Longrightarrow> P p acc nak f"
    and "\<And>p acc nak f orc nb g. good_ci p \<Longrightarrow> reqci_option (take (unat (p ! 1)) p) f = (orc, nb, g) \<Longrightarrow>
      P (drop (unat (p ! 1)) p) (reqci_verdict rid (p ! 0) (take (unat (p ! 1)) p) orc acc) (nak @ nb) g \<Longrightarrow> P p acc nak f"
  shows "P p acc nak f"
proof (induction "length p" arbitrary: p acc nak f rule: less_induct)
  case (less p acc nak f)
  show ?case
  proof (cases "good_ci p")
    case True
    obtain orc nb g where o: "reqci_option (take (unat (p ! 1)) p) f = (orc, nb, g)"
      by (cases "reqci_option (take (unat (p ! 1)) p) f")
    from True have "length (drop (unat (p ! 1)) p) < length p"
      by (auto simp: good_ci_def)
    with assms(3) [OF True o] less show ?thesis
      by blast
  next
    case False
    with assms(1,2) show ?thesis
      by (cases "p = []") auto
  qed
qed

lemma reqci_loop_core: "same_core f (snd (snd (reqci_loop rid p acc nak f)))"
proof (induction p acc nak f rule: reqci_loop_induct [where rid = rid])
  case (step p acc nak f orc nb g)
  have "same_core f g"
    using reqci_option_core [of f "take (unat (p ! 1)) p"] step(2) by simp
  then show ?case
    using step(3) unfolding reqci_loop_step [OF step(1,2)] by (rule same_core_trans)
qed (simp_all add: reqci_loop_bad)

lemma reqci_core: "same_core f (snd (snd (lcp_reqci f p b)))"
proof -
  let ?f = "f\<lparr>lcp_hisoptions := no_options\<rparr>"
  obtain rc rej nak g where l: "reqci_loop b p (CONFACK, []) [] ?f = ((rc, rej), nak, g)"
    by (metis prod.collapse)
  have "same_core ?f g"
    using reqci_loop_core [of ?f b p "(CONFACK, [])" "[]"] unfolding l by simp
  then show ?thesis
    by (simp add: lcp_reqci_def l Let_def same_core_def)
qed

lemma lcp_base_ok: "callbacks_ok lcp_base"
  by (simp add: callbacks_ok_def lcp_base_def keeps_def call_def lcp_up_core reqci_core)
    (simp add: left_def)

text \<open>\<open>lcp_close\<close> and \<open>lcp_protrej\<close> take the automaton down.\<close>

lemma lcp_close_inv: "fsm_inv f \<Longrightarrow> fsm_inv (lcp_close reason f)"
  using close_inv [OF lcp_base_ok, of f reason]
  by (auto simp: lcp_close_def fsm_inv_def lcp_finished_def upcall_def)

lemma lcp_close_left: "left f (lcp_close reason f)"
proof -
  have "st (lcp_close reason f) \<in> {LS_INITIAL, LS_CLOSED, LS_CLOSING, LS_STOPPING}"
    by (cases "st f") (auto simp: lcp_close_def fsm_close_def lcp_finished_def upcall_def UNTIMEOUT_def Let_def)
  then show ?thesis
    using lcp_close_inv [of f reason] by (simp add: left_def)
qed

lemma lcp_protrej_left: "st f = LS_OPENED \<Longrightarrow> left f (lcp_protrej f)"
  using rterm_inv(4) [OF lcp_base_ok, of f] by (simp add: left_def lcp_protrej_def) (simp add: fsm_protreject_def Let_def)

lemma left_options: "left f g \<Longrightarrow> left f (g\<lparr>lcp_gotoptions := x\<rparr>)"
  by (auto simp: left_def same_core_def fsm_inv_def)

lemma left_trans: "same_core f g \<Longrightarrow> left g h \<Longrightarrow> left f h"
  using same_core_trans by (auto simp: left_def fsm_inv_core)

lemma same_core_left: "same_core f g \<Longrightarrow> left f g"
  by (simp add: left_def)

lemma nakci_left: "left f (snd (lcp_nakci f p))"
proof -
  obtain loop r where n: "nak_options (lcp_wantoptions f) (lcp_gotoptions f) (fst (magic f)) p = (loop, r)"
    by fastforce
  define g where "g = (if loop then snd (magic f) else f)"
  have g: "same_core f g" "st g = st f"
    by (simp_all add: g_def magic_def same_core_def)
  note left = left_trans [OF g(1) left_options [OF lcp_close_left]] left_trans [OF g(1) left_options [OF left_refl]]
    same_core_left [OF g(1)]
  show ?thesis
    using left unfolding g_def by (cases r; cases loop) (simp_all add: lcp_nakci_def n Let_def)
qed

lemma extcode_left: "left f (snd (lcp_extcode f c i p))"
proof -
  have "left f (lcp_rprotrej p f)"
    using lcp_protrej_left [of f] by (simp add: lcp_rprotrej_def Let_def left_def same_core_def upcall_def)
  moreover have "left f (lcp_received_echo_reply p f)"
    by (simp add: lcp_received_echo_reply_def left_def same_core_def)
  ultimately show ?thesis
    by (simp add: lcp_extcode_def same_core_left)
qed

lemma lcp_callbacks_ok: "callbacks_ok lcp_callbacks"
  by (simp add: callbacks_ok_def lcp_callbacks_def lcp_base_def keeps_def call_def lcp_up_core reqci_core nakci_left extcode_left
      same_core_left)

section \<open>Entry points\<close>

lemma lcp_event_inv:
  assumes "fsm_inv f"
  shows "fsm_inv (lcp_event e f)"
proof -
  have up: "fsm_inv (f\<lparr>tx := a, rx := b, peer_mru := c, lcp_allowoptions := d\<rparr>)" for a b c d
    using assms by (simp add: fsm_inv_def)
  have op: "fsm_inv (f\<lparr>opt_passive := a, opt_restart := b, opt_silent := c\<rparr>)" for a b c
    using assms by (simp add: fsm_inv_def)
  note inv = lowerup_inv [OF lcp_callbacks_ok up] lowerdown_inv [OF lcp_callbacks_ok assms] open_inv [OF lcp_callbacks_ok op]
    lcp_close_inv [OF assms] input_inv [OF lcp_callbacks_ok assms] rterm_inv(4) [OF lcp_base_ok assms]
    event_inv [OF lcp_callbacks_ok assms]
  show ?thesis
    by (cases e) (simp_all add: lcp_event_def lcp_lowerup_def lcp_lowerdown_def lcp_open_def lcp_input_def lcp_protrej_def Let_def inv)
qed

lemma lcp_init_inv: "fsm_inv (lcp_init f)"
  by (simp add: lcp_init_def Let_def fsm_inv_def fsm_init_def FSM_DEFMAXCONFREQS_def FSM_DEFMAXTERMREQS_def)

lemma lcp_run_inv: "fsm_inv (fold lcp_event es (lcp_init f))"
proof -
  have "fsm_inv f \<Longrightarrow> fsm_inv (fold lcp_event es f)" for f :: "'a lcp_scheme"
    by (induction es arbitrary: f) (simp_all add: lcp_event_inv)
  then show ?thesis
    using lcp_init_inv by blast
qed

section \<open>Requests that fit\<close>

text \<open>A request \<open>go\<close> fits the peer if the peer allows its options \<open>ao\<close>, and the magic numbers differ; \<open>own\<close> is the peer's request.\<close>

definition fits :: "lcp_options \<Rightarrow> lcp_options \<Rightarrow> lcp_options \<Rightarrow> bool" where
  "fits ao own go \<longleftrightarrow>
     (neg_mru go \<and> mru go \<noteq> PPP_DEFMRU \<longrightarrow> neg_mru ao \<and> PPP_MINMRU \<le> mru go) \<and>
     (neg_asyncmap go \<and> asyncmap go \<noteq> 0xFFFFFFFF \<longrightarrow> neg_asyncmap ao \<and> asyncmap ao AND NOT (asyncmap go) = 0) \<and>
     (neg_chap go \<longrightarrow> neg_chap ao \<and> chap_mdtype go = CHAP_DIGEST_MD5) \<and> (\<not> neg_chap go \<and> neg_upap go \<longrightarrow> neg_upap ao) \<and>
     (neg_lqr go \<longrightarrow> neg_lqr ao) \<and> \<not> neg_cbcp go \<and>
     (neg_magicnumber go \<longrightarrow> (neg_magicnumber ao \<or> neg_magicnumber own) \<and> (neg_magicnumber own \<longrightarrow> magicnumber own \<noteq> magicnumber go)) \<and>
     (neg_pcompression go \<longrightarrow> neg_pcompression ao) \<and> (neg_accompression go \<longrightarrow> neg_accompression ao)"

text \<open>What the receiver of a request remembers of it, option by option.\<close>

definition rec_mru :: "lcp_options \<Rightarrow> lcp_options \<Rightarrow> lcp_options" where
  "rec_mru go h = (if neg_mru go \<and> mru go \<noteq> PPP_DEFMRU then h\<lparr>neg_mru := True, mru := mru go\<rparr> else h)"

definition rec_asyncmap :: "lcp_options \<Rightarrow> lcp_options \<Rightarrow> lcp_options" where
  "rec_asyncmap go h = (if neg_asyncmap go \<and> asyncmap go \<noteq> 0xFFFFFFFF then h\<lparr>neg_asyncmap := True, asyncmap := asyncmap go\<rparr> else h)"

definition rec_auth :: "lcp_options \<Rightarrow> lcp_options \<Rightarrow> lcp_options" where
  "rec_auth go h = (if neg_chap go then h\<lparr>chap_mdtype := chap_mdtype go, neg_chap := True\<rparr>
     else if neg_upap go then h\<lparr>neg_upap := True\<rparr> else h)"

definition rec_magic :: "lcp_options \<Rightarrow> lcp_options \<Rightarrow> lcp_options" where
  "rec_magic go h = (if neg_magicnumber go then h\<lparr>neg_magicnumber := True, magicnumber := magicnumber go\<rparr> else h)"

definition rec_compression :: "lcp_options \<Rightarrow> lcp_options \<Rightarrow> lcp_options" where
  "rec_compression go h =
     (let h = (if neg_pcompression go then h\<lparr>neg_pcompression := True\<rparr> else h)
      in if neg_accompression go then h\<lparr>neg_accompression := True\<rparr> else h)"

definition recorded :: "lcp_options \<Rightarrow> lcp_options" where
  "recorded go = rec_compression go (rec_magic go (rec_auth go (rec_asyncmap go (rec_mru go no_options))))"

lemmas cilen_defs = CILEN_VOID_def CILEN_CHAR_def CILEN_SHORT_def CILEN_CHAP_def CILEN_LONG_def CILEN_LQR_def
lemmas ci_defs = CI_MRU_def CI_ASYNCMAP_def CI_AUTHTYPE_def CI_QUALITY_def CI_MAGICNUMBER_def CI_PCOMPRESSION_def
  CI_ACCOMPRESSION_def CI_CALLBACK_def
lemmas code_defs = CONFACK_def CONFNAK_def CONFREJ_def

text \<open>An accepted option leaves everything to the rest.\<close>

lemma accept_step:
  assumes "length val \<le> 200" "reqci_option (ci_bytes opt val) f = (CONFACK, [], g)"
  shows "reqci_loop rid (ci_bytes opt val @ rest) (CONFACK, []) nak f = reqci_loop rid rest (CONFACK, []) nak g"
proof -
  let ?p = "ci_bytes opt val @ rest"
  have "?p ! 1 = of_nat (2 + length val)"
    by (simp add: ci_bytes_def)
  moreover have "unat (of_nat (2 + length val) :: u8) = 2 + length val"
    using assms(1) by (subst unat_of_nat) simp
  ultimately have l: "unat (?p ! 1) = 2 + length val"
    by simp
  have t: "take (unat (?p ! 1)) ?p = ci_bytes opt val" "drop (unat (?p ! 1)) ?p = rest"
    unfolding l by (simp_all add: ci_bytes_def)
  have "good_ci ?p"
    using l by (simp add: good_ci_def)
  from reqci_loop_step [OF this, unfolded t, OF assms(2)] show ?thesis
    by (simp add: reqci_verdict_def code_defs)
qed

lemma accept_option:
  assumes "neg \<Longrightarrow> length val \<le> 200 \<and> reqci_option (ci_bytes opt val) f = (CONFACK, [], g)" "\<not> neg \<Longrightarrow> g = f"
  shows "reqci_loop rid ((if neg then ci_bytes opt val else []) @ rest) (CONFACK, []) nak f = reqci_loop rid rest (CONFACK, []) nak g"
  using accept_step assms by (cases neg) auto

lemma ci_drop [simp]: "drop 2 (ci_bytes opt val) = val" "ci_bytes opt val ! 0 = opt"
  by (simp_all add: ci_bytes_def)

lemma accept_mru:
  assumes "fits (lcp_allowoptions f) own go"
  shows "reqci_loop rid ((if neg_mru go \<and> mru go \<noteq> PPP_DEFMRU then ci_bytes CI_MRU (PUTSHORT (mru go)) else []) @ rest) (CONFACK, []) nak
      (f\<lparr>lcp_hisoptions := h\<rparr>) = reqci_loop rid rest (CONFACK, []) nak (f\<lparr>lcp_hisoptions := rec_mru go h\<rparr>)"
  using assms by (intro accept_option) (auto simp: fits_def rec_mru_def reqci_option_def reqci_mru_def Let_def cilen_defs not_less)

lemma accept_asyncmap:
  assumes "fits (lcp_allowoptions f) own go"
  shows "reqci_loop rid ((if neg_asyncmap go \<and> asyncmap go \<noteq> 0xFFFFFFFF then ci_bytes CI_ASYNCMAP (PUTLONG (asyncmap go)) else []) @ rest)
      (CONFACK, []) nak (f\<lparr>lcp_hisoptions := h\<rparr>) = reqci_loop rid rest (CONFACK, []) nak (f\<lparr>lcp_hisoptions := rec_asyncmap go h\<rparr>)"
  using assms by (intro accept_option) (auto simp: fits_def rec_asyncmap_def reqci_option_def reqci_asyncmap_def Let_def cilen_defs ci_defs)

lemma accept_auth:
  assumes "fits (lcp_allowoptions f) own go" "\<not> neg_chap h" "\<not> neg_upap h"
  shows "reqci_loop rid ((if neg_chap go then ci_bytes CI_AUTHTYPE (PUTSHORT PPP_CHAP @ [chap_mdtype go]) else []) @
      (if \<not> neg_chap go \<and> neg_upap go then ci_bytes CI_AUTHTYPE (PUTSHORT PPP_PAP) else []) @ rest)
      (CONFACK, []) nak (f\<lparr>lcp_hisoptions := h\<rparr>) = reqci_loop rid rest (CONFACK, []) nak (f\<lparr>lcp_hisoptions := rec_auth go h\<rparr>)"
proof (cases "neg_chap go")
  case True
  have "ci_bytes CI_AUTHTYPE (PUTSHORT PPP_CHAP @ [CHAP_DIGEST_MD5]) ! 4 = CHAP_DIGEST_MD5"
    by (simp add: ci_bytes_def PUTSHORT_def)
  with True assms show ?thesis
    by (simp add: rec_auth_def)
      (rule accept_step; simp add: fits_def reqci_option_def reqci_auth_def Let_def cilen_defs ci_defs PPP_CHAP_def PPP_PAP_def)
next
  case False
  have "reqci_loop rid ((if \<not> neg_chap go \<and> neg_upap go then ci_bytes CI_AUTHTYPE (PUTSHORT PPP_PAP) else []) @ rest)
      (CONFACK, []) nak (f\<lparr>lcp_hisoptions := h\<rparr>) = reqci_loop rid rest (CONFACK, []) nak (f\<lparr>lcp_hisoptions := rec_auth go h\<rparr>)"
    using assms False
    by (intro accept_option) (auto simp: fits_def rec_auth_def reqci_option_def reqci_auth_def Let_def cilen_defs ci_defs)
  with False show ?thesis
    by simp
qed

lemma accept_quality:
  assumes "fits (lcp_allowoptions f) own go"
  shows "reqci_loop rid ((if neg_lqr go then ci_bytes CI_QUALITY (PUTSHORT PPP_LQR @ PUTLONG (lqr_period go)) else []) @
      (if neg_cbcp go then ci_bytes CI_CALLBACK [CBCP_OPT] else []) @ rest)
      (CONFACK, []) nak (f\<lparr>lcp_hisoptions := h\<rparr>) = reqci_loop rid rest (CONFACK, []) nak (f\<lparr>lcp_hisoptions := h\<rparr>)"
proof -
  have c: "\<not> neg_cbcp go"
    using assms by (simp add: fits_def)
  show ?thesis
    unfolding if_not_P [OF c] append_Nil using assms
    by (intro accept_option) (simp_all add: fits_def reqci_option_def reqci_quality_def Let_def cilen_defs ci_defs)
qed

lemma accept_magic:
  assumes "fits (lcp_allowoptions f) (lcp_gotoptions f) go"
  shows "reqci_loop rid ((if neg_magicnumber go then ci_bytes CI_MAGICNUMBER (PUTLONG (magicnumber go)) else []) @ rest)
      (CONFACK, []) nak (f\<lparr>lcp_hisoptions := h\<rparr>) = reqci_loop rid rest (CONFACK, []) nak (f\<lparr>lcp_hisoptions := rec_magic go h\<rparr>)"
proof (rule accept_option)
  assume "neg_magicnumber go"
  with assms have c: "neg_magicnumber (lcp_allowoptions f) \<or> neg_magicnumber (lcp_gotoptions f)"
      "\<not> (neg_magicnumber (lcp_gotoptions f) \<and> magicnumber go = magicnumber (lcp_gotoptions f))" "neg_magicnumber go"
    by (simp_all add: fits_def) metis
  let ?p = "ci_bytes CI_MAGICNUMBER (PUTLONG (magicnumber go))" and ?f = "f\<lparr>lcp_hisoptions := h\<rparr>"
  have "\<not> (\<not> (neg_magicnumber (lcp_allowoptions ?f) \<or> neg_magicnumber (lcp_gotoptions ?f)) \<or> length ?p \<noteq> CILEN_LONG)"
    using c(1) by (simp add: cilen_defs)
  moreover have "\<not> (neg_magicnumber (lcp_gotoptions ?f) \<and> GETLONG (drop 2 ?p) = magicnumber (lcp_gotoptions ?f))"
    using c(2) by simp
  ultimately have "reqci_magic ?p ?f = (CONFACK, [], ?f\<lparr>lcp_hisoptions := (lcp_hisoptions ?f)\<lparr>neg_magicnumber := True,
      magicnumber := GETLONG (drop 2 ?p)\<rparr>\<rparr>)"
    unfolding reqci_magic_def Let_def by (simp only: if_False)
  then show "length (PUTLONG (magicnumber go)) \<le> 200 \<and> reqci_option ?p ?f = (CONFACK, [], f\<lparr>lcp_hisoptions := rec_magic go h\<rparr>)"
    using c(3) by (simp add: reqci_option_def ci_defs Let_def rec_magic_def)
qed (simp add: rec_magic_def)

lemma accept_compression:
  assumes "fits (lcp_allowoptions f) own go"
  shows "reqci_loop rid ((if neg_pcompression go then ci_bytes CI_PCOMPRESSION [] else []) @
      (if neg_accompression go then ci_bytes CI_ACCOMPRESSION [] else []) @ rest)
      (CONFACK, []) nak (f\<lparr>lcp_hisoptions := h\<rparr>) = reqci_loop rid rest (CONFACK, []) nak (f\<lparr>lcp_hisoptions := rec_compression go h\<rparr>)"
proof -
  let ?h = "if neg_pcompression go then h\<lparr>neg_pcompression := True\<rparr> else h"
  have "reqci_loop rid ((if neg_pcompression go then ci_bytes CI_PCOMPRESSION [] else []) @ rest') (CONFACK, []) nak
      (f\<lparr>lcp_hisoptions := h\<rparr>) = reqci_loop rid rest' (CONFACK, []) nak (f\<lparr>lcp_hisoptions := ?h\<rparr>)" for rest'
    using assms by (intro accept_option) (simp_all add: fits_def reqci_option_def Let_def cilen_defs ci_defs)
  moreover have "reqci_loop rid ((if neg_accompression go then ci_bytes CI_ACCOMPRESSION [] else []) @ rest) (CONFACK, []) nak
      (f\<lparr>lcp_hisoptions := ?h\<rparr>) = reqci_loop rid rest (CONFACK, []) nak (f\<lparr>lcp_hisoptions := rec_compression go h\<rparr>)"
    using assms by (intro accept_option) (auto simp: fits_def rec_compression_def reqci_option_def Let_def cilen_defs ci_defs)
  ultimately show ?thesis
    by simp
qed

text \<open>The whole request is acknowledged, and what it asks for is remembered.\<close>

lemma request_accepted:
  assumes "fits (lcp_allowoptions f) (lcp_gotoptions f) go"
  shows "lcp_reqci f (cis_bytes (lcp_cis go)) rid = (CONFACK, cis_bytes (lcp_cis go), f\<lparr>lcp_hisoptions := recorded go\<rparr>)"
proof -
  let ?h = "rec_asyncmap go (rec_mru go no_options)"
  have h: "\<not> neg_chap ?h" "\<not> neg_upap ?h"
    by (simp_all add: rec_asyncmap_def rec_mru_def no_options_def)
  note steps = accept_mru [OF assms, of _ _ _ no_options] accept_asyncmap [OF assms, of _ _ _ "rec_mru go no_options"]
    accept_auth [OF assms h] accept_quality [OF assms, of _ _ _ "rec_auth go ?h"] accept_magic [OF assms, of _ _ _ "rec_auth go ?h"]
    accept_compression [OF assms, of _ "[]" _ "rec_magic go (rec_auth go ?h)", unfolded append_Nil2]
  have "cis_bytes (lcp_cis go) = (if neg_mru go \<and> mru go \<noteq> PPP_DEFMRU then ci_bytes CI_MRU (PUTSHORT (mru go)) else []) @
      (if neg_asyncmap go \<and> asyncmap go \<noteq> 0xFFFFFFFF then ci_bytes CI_ASYNCMAP (PUTLONG (asyncmap go)) else []) @
      (if neg_chap go then ci_bytes CI_AUTHTYPE (PUTSHORT PPP_CHAP @ [chap_mdtype go]) else []) @
      (if \<not> neg_chap go \<and> neg_upap go then ci_bytes CI_AUTHTYPE (PUTSHORT PPP_PAP) else []) @
      (if neg_lqr go then ci_bytes CI_QUALITY (PUTSHORT PPP_LQR @ PUTLONG (lqr_period go)) else []) @
      (if neg_cbcp go then ci_bytes CI_CALLBACK [CBCP_OPT] else []) @
      (if neg_magicnumber go then ci_bytes CI_MAGICNUMBER (PUTLONG (magicnumber go)) else []) @
      (if neg_pcompression go then ci_bytes CI_PCOMPRESSION [] else []) @
      (if neg_accompression go then ci_bytes CI_ACCOMPRESSION [] else [])"
    by (simp add: lcp_cis_def)
  then have "reqci_loop rid (cis_bytes (lcp_cis go)) (CONFACK, []) [] (f\<lparr>lcp_hisoptions := no_options\<rparr>) =
      ((CONFACK, []), [], f\<lparr>lcp_hisoptions := recorded go\<rparr>)"
    by (simp only: steps reqci_loop_Nil recorded_def)
  then show ?thesis
    by (simp add: lcp_reqci_def)
qed

section \<open>Two ends\<close>

text \<open>The options an end requests when it opens.\<close>

definition next_options :: "'a lcp_scheme \<Rightarrow> lcp_options" where
  "next_options f = (lcp_wantoptions f)\<lparr>magicnumber := rnd f (rnd_pos f), numloops := 0\<rparr>"

lemma first_request_lcp:
  "\<exists>g. first_request lcp_callbacks f = (cis_bytes (lcp_cis (next_options f)), g) \<and> lcp_gotoptions g = next_options f \<and>
    lcp_allowoptions g = lcp_allowoptions f \<and> peer_mru g = int (unat PPP_MRU) \<and> sent g = sent f"
proof -
  define g where "g = lcp_resetci f"
  have g: "lcp_gotoptions g = next_options f" "lcp_allowoptions g = lcp_allowoptions f" "peer_mru g = int (unat PPP_MRU)" "sent g = sent f"
    by (simp_all add: g_def lcp_resetci_def magic_def upcall_def Let_def next_options_def)
  have c: "call (resetci lcp_callbacks) f = g"
    by (simp add: call_def lcp_callbacks_def lcp_base_def g_def)
  show ?thesis
    unfolding first_request_def Let_def c request_ci_lcp using g by simp
qed

text \<open>The character maps an end has configured after an agreement: its own request, and the peer's.\<close>

definition maps_set :: "lcp_options \<Rightarrow> lcp_options \<Rightarrow> 'a lcp_scheme \<Rightarrow> bool" where
  "maps_set own peer f \<longleftrightarrow> (\<forall>i<4.
     inACCM (rx f) ! i = ucast (drop_bit (8 * i) (if neg_asyncmap own then asyncmap own else 0)) \<and>
     outACCM (tx f) ! i = ucast (drop_bit (8 * i)
       (if neg_asyncmap peer \<and> asyncmap peer \<noteq> 0xFFFFFFFF then asyncmap peer else 0xFFFFFFFF) AND 0xff))"

definition lcp_end :: "lcp_options \<Rightarrow> lcp_options \<Rightarrow> lcp_options \<Rightarrow> nat \<Rightarrow> 'a lcp_scheme \<Rightarrow> bool" where
  "lcp_end own peer ao k f \<longleftrightarrow>
     (if k < 2 then lcp_gotoptions f = own \<and> lcp_allowoptions f = ao \<and> 40 \<le> peer_mru f \<and> (k = 1 \<longrightarrow> lcp_hisoptions f = recorded peer)
      else maps_set own peer f)"

lemma rec_maps [simp]:
  "neg_asyncmap (rec_mru go h) = neg_asyncmap h" "asyncmap (rec_mru go h) = asyncmap h"
  "neg_asyncmap (rec_auth go h) = neg_asyncmap h" "asyncmap (rec_auth go h) = asyncmap h"
  "neg_asyncmap (rec_magic go h) = neg_asyncmap h" "asyncmap (rec_magic go h) = asyncmap h"
  "neg_asyncmap (rec_compression go h) = neg_asyncmap h" "asyncmap (rec_compression go h) = asyncmap h"
  by (simp_all add: rec_mru_def rec_auth_def rec_magic_def rec_compression_def)

lemma recorded_asyncmap: "neg_asyncmap (recorded go) \<longleftrightarrow> neg_asyncmap go \<and> asyncmap go \<noteq> 0xFFFFFFFF"
  "neg_asyncmap (recorded go) \<Longrightarrow> asyncmap (recorded go) = asyncmap go"
proof -
  have "\<not> neg_asyncmap no_options"
    by (simp add: no_options_def)
  then show "neg_asyncmap (recorded go) \<longleftrightarrow> neg_asyncmap go \<and> asyncmap go \<noteq> 0xFFFFFFFF"
    "neg_asyncmap (recorded go) \<Longrightarrow> asyncmap (recorded go) = asyncmap go"
    by (simp_all add: recorded_def rec_asyncmap_def split: if_splits)
qed

lemma lcp_up_effect:
  assumes "lcp_gotoptions f = own" "lcp_hisoptions f = recorded peer"
  shows "maps_set own peer (lcp_up f) \<and> sent (lcp_up f) = sent f"
proof -
  have s: "sent (lcp_up f) = sent f"
    "\<exists>t. outACCM (tx (lcp_up f)) = load_accm (if neg_asyncmap (lcp_hisoptions f) then asyncmap (lcp_hisoptions f) else 0xffffffff) t"
    "\<exists>r. inACCM (rx (lcp_up f)) = map (\<lambda>i. ucast (drop_bit (8 * i) (if neg_asyncmap (lcp_gotoptions f) then asyncmap (lcp_gotoptions f) else 0))) [0 ..< 4] @ r"
    by (cases "neg_magicnumber (lcp_gotoptions f)"; cases "neg_magicnumber (lcp_hisoptions f)"; cases "neg_mru (lcp_hisoptions f)";
        force simp: lcp_up_def upcall_def Let_def ppp_send_config_def ppp_recv_config_def)+
  have "outACCM (tx (lcp_up f)) ! i = ucast (drop_bit (8 * i)
      (if neg_asyncmap (recorded peer) then asyncmap (recorded peer) else 0xffffffff) AND 0xff)" if "i < 4" for i
    using s(2) that unfolding assms by (auto simp: load_accm_def nth_append)
  moreover have "inACCM (rx (lcp_up f)) ! i = ucast (drop_bit (8 * i) (if neg_asyncmap own then asyncmap own else 0))" if "i < 4" for i
    using s(3) that unfolding assms by (auto simp: nth_append)
  ultimately show ?thesis
    using s(1) by (auto simp: maps_set_def recorded_asyncmap)
qed

lemma lcp_negotiates:
  assumes "fits ao own peer"
  shows "negotiates 36 (lcp_end own peer ao) lcp_callbacks (cis_bytes (lcp_cis own)) (cis_bytes (lcp_cis peer))"
  unfolding negotiates_def
proof (intro conjI allI impI)
  fix f :: "'a lcp_scheme"
  assume P: "lcp_end own peer ao 0 f"
  then have "fits (lcp_allowoptions f) (lcp_gotoptions f) peer"
    using assms by (simp add: lcp_end_def)
  from request_accepted [OF this] P
  show "\<exists>g. check_ci lcp_callbacks (cis_bytes (lcp_cis peer)) f = (CONFACK, cis_bytes (lcp_cis peer), g) \<and>
      lcp_end own peer ao 1 g \<and> sent g = sent f"
    by (simp add: check_ci_def lcp_callbacks_def lcp_base_def lcp_end_def)
next
  fix f :: "'a lcp_scheme"
  assume "lcp_end own peer ao 1 f"
  then show "\<exists>g. check_ack lcp_callbacks (cis_bytes (lcp_cis own)) f = (True, g) \<and> lcp_end own peer ao 1 g \<and> sent g = sent f"
    by (simp add: check_ack_lcp lcp_end_def)
next
  fix f :: "'a lcp_scheme"
  assume "lcp_end own peer ao 1 f"
  then have "maps_set own peer (lcp_up f) \<and> sent (lcp_up f) = sent f"
    by (intro lcp_up_effect) (simp_all add: lcp_end_def)
  then show "lcp_end own peer ao 2 (call (cb_up lcp_callbacks) f)" "sent (call (cb_up lcp_callbacks) f) = sent f"
    by (simp_all add: lcp_end_def call_def lcp_callbacks_def lcp_base_def)
next
  fix k and f g :: "'a lcp_scheme"
  assume "k < 2" "lcp_end own peer ao k f" "fsm.more g = fsm.more f" "peer_mru g = peer_mru f"
  then show "lcp_end own peer ao k g"
    by (cases f; cases g) (simp add: lcp_end_def)
next
  fix k and f :: "'a lcp_scheme"
  assume "k < 2" "lcp_end own peer ao k f"
  then show "int 36 + HEADERLEN \<le> peer_mru f"
    by (simp add: lcp_end_def HEADERLEN_def)
qed (rule cis_bytes_le)+

text \<open>What one end escapes is what the other one drops if it is not escaped.\<close>

lemma maps_agree:
  assumes "maps_set oa ob a" "maps_set ob oa b" "i < 4"
  shows "inACCM (rx b) ! i AND NOT (outACCM (tx a) ! i) = 0"
proof (rule bit_word_eqI)
  fix n
  have i: "inACCM (rx b) ! i = ucast (drop_bit (8 * i) (if neg_asyncmap ob then asyncmap ob else 0))"
    and o: "outACCM (tx a) ! i = ucast (drop_bit (8 * i)
       (if neg_asyncmap ob \<and> asyncmap ob \<noteq> 0xFFFFFFFF then asyncmap ob else 0xFFFFFFFF) AND 0xff)"
    using assms by (simp_all add: maps_set_def)
  have m: "(0xFF :: u32) = mask 8" "(0xFFFFFFFF :: u32) = mask 32"
    by (simp_all add: mask_eq_exp_minus_1)
  assume "n < LENGTH(8)"
  then show "bit (inACCM (rx b) ! i AND NOT (outACCM (tx a) ! i)) n = bit 0 n"
    unfolding i o m using assms(3) by (auto simp: bit_simps)
qed

text \<open>
  C6: two ends whose options fit open the link. Started by \<open>lcp_open\<close>, whatever the interleaving of their packets, they
  read at most four packets, always have one to read before that, and after the fourth both are open; each then escapes
  at least the characters that the other one's receiver would drop.
\<close>

theorem lcp_ends_open:
  assumes "st a = LS_CLOSED" "\<not> opt_silent a" "sent a = []" and "st b = LS_CLOSED" "\<not> opt_silent b" "sent b = []"
    and "fits (lcp_allowoptions b) (next_options b) (next_options a)" "fits (lcp_allowoptions a) (next_options a) (next_options b)"
    and "protocol a = protocol b" and "link_reach lcp_callbacks lcp_callbacks (link_open lcp_callbacks lcp_callbacks a b) k l"
  shows "k \<le> 4 \<and> (k < 4 \<longrightarrow> (\<exists>l'. link_step lcp_callbacks lcp_callbacks l l')) \<and>
    (k = 4 \<longrightarrow> st (lft l) = LS_OPENED \<and> st (rgt l) = LS_OPENED \<and>
      (\<forall>i<4. inACCM (rx (rgt l)) ! i AND NOT (outACCM (tx (lft l)) ! i) = 0 \<and>
        inACCM (rx (lft l)) ! i AND NOT (outACCM (tx (rgt l)) ! i) = 0))"
proof -
  let ?oa = "next_options a" and ?ob = "next_options b"
  obtain a1 where a1: "first_request lcp_callbacks a = (cis_bytes (lcp_cis ?oa), a1)" "lcp_end ?oa ?ob (lcp_allowoptions a) 0 a1" "sent a1 = []"
    using first_request_lcp [of a] assms(3) by (auto simp: lcp_end_def PPP_MRU_def)
  obtain b1 where b1: "first_request lcp_callbacks b = (cis_bytes (lcp_cis ?ob), b1)" "lcp_end ?ob ?oa (lcp_allowoptions b) 0 b1" "sent b1 = []"
    using first_request_lcp [of b] assms(6) by (auto simp: lcp_end_def PPP_MRU_def)
  have out: "k \<le> 4 \<and> (k < 4 \<longrightarrow> (\<exists>l'. link_step lcp_callbacks lcp_callbacks l l')) \<and>
    (k = 4 \<longrightarrow> st (lft l) = LS_OPENED \<and> st (rgt l) = LS_OPENED \<and> lcp_end ?oa ?ob (lcp_allowoptions a) 2 (lft l) \<and>
      lcp_end ?ob ?oa (lcp_allowoptions b) 2 (rgt l))"
    by (rule agreeing_ends_open [OF lcp_callbacks_ok lcp_negotiates [OF assms(8)] lcp_callbacks_ok lcp_negotiates [OF assms(7)] _
        assms(1,2) a1 assms(4,5) b1 assms(9,10)]) simp
  moreover have "inACCM (rx (rgt l)) ! i AND NOT (outACCM (tx (lft l)) ! i) = 0" "inACCM (rx (lft l)) ! i AND NOT (outACCM (tx (rgt l)) ! i) = 0"
    if "k = 4" "i < 4" for i
    using out that maps_agree [of ?oa ?ob "lft l" "rgt l" i] maps_agree [of ?ob ?oa "rgt l" "lft l" i] by (simp_all add: lcp_end_def)
  ultimately show ?thesis
    by blast
qed

text \<open>Two automata that have been initialised, with the default options, differ in their random numbers.\<close>

definition example_lcp :: "PPPControl \<Rightarrow> PPPControlRx \<Rightarrow> u32 \<Rightarrow> lcp" where
  "example_lcp t r m = \<lparr>protocol = PPP_LCP, st = LS_CLOSED, opt_passive = False, opt_restart = False, opt_silent = False,
     f_id = 0, reqid = 0, seen_ack = False, timeouttime = FSM_DEFTIMEOUT, maxconfreqtransmits = FSM_DEFMAXCONFREQS,
     retransmits = 0, maxtermtransmits = FSM_DEFMAXTERMREQS, nakloops = 0, maxnakloops = FSM_DEFMAXNAKLOOPS,
     term_reason = [], peer_mru = 1500, timer = 0, sent = [], lcp_wantoptions = lcp_want_defaults no_options,
     lcp_gotoptions = no_options, lcp_allowoptions = lcp_allow_defaults no_options, lcp_hisoptions = no_options,
     xmit_accm = init_accm, tx = t, rx = r, echos_pending = 0, rnd = (\<lambda>_. m), rnd_pos = 0, nak_overrun = False, upcalls = []\<rparr>"

lemma example_fits:
  "m \<noteq> m' \<Longrightarrow> fits (lcp_allowoptions (example_lcp t r m)) (next_options (example_lcp t r m)) (next_options (example_lcp t r m'))"
  by (simp add: fits_def example_lcp_def next_options_def lcp_want_defaults_def lcp_allow_defaults_def)

theorem lcp_ends_open_witness:
  "\<forall>t r. \<exists>l. link_reach lcp_callbacks lcp_callbacks (link_open lcp_callbacks lcp_callbacks (example_lcp t r 1) (example_lcp t r 2)) 4 l \<and>
     st (lft l) = LS_OPENED \<and> st (rgt l) = LS_OPENED"
proof (intro allI)
  fix t r
  let ?a = "example_lcp t r 1" and ?b = "example_lcp t r 2"
  let ?l0 = "link_open lcp_callbacks lcp_callbacks ?a ?b"
  have t: "k \<le> 4 \<and> (k < 4 \<longrightarrow> (\<exists>l'. link_step lcp_callbacks lcp_callbacks l l')) \<and>
      (k = 4 \<longrightarrow> st (lft l) = LS_OPENED \<and> st (rgt l) = LS_OPENED)"
    if "link_reach lcp_callbacks lcp_callbacks ?l0 k l" for k l
    using lcp_ends_open [OF _ _ _ _ _ _ _ _ _ that] example_fits [of 1 2 t r] example_fits [of 2 1 t r]
    by (auto simp: example_lcp_def)
  have next_step: "\<exists>l. link_reach lcp_callbacks lcp_callbacks ?l0 (Suc k) l"
    if "\<exists>l. link_reach lcp_callbacks lcp_callbacks ?l0 k l" "k < 4" for k
    using that t link_reach.step by blast
  have "\<exists>l. link_reach lcp_callbacks lcp_callbacks ?l0 0 l"
    using link_reach.start by blast
  then have "\<exists>l. link_reach lcp_callbacks lcp_callbacks ?l0 4 l"
    using next_step [of 0] next_step [of 1] next_step [of 2] next_step [of 3] by (simp add: eval_nat_numeral)
  with t show "\<exists>l. link_reach lcp_callbacks lcp_callbacks ?l0 4 l \<and> st (lft l) = LS_OPENED \<and> st (rgt l) = LS_OPENED"
    by blast
qed

section \<open>Acknowledgements\<close>

text \<open>
  C24: an acknowledgement is good exactly if it repeats the request, byte for byte; and the length that is announced for
  the request is the length of what is sent.
\<close>

theorem lcp_ack_exact:
  "(fst (lcp_ackci f p) \<longleftrightarrow> p = fst (lcp_addci f n)) \<and> int (length (fst (lcp_addci f n))) = lcp_cilen f"
  by (simp add: lcp_ackci_def ack_all_iff addci_bytes cilen_bytes)

section \<open>The size of an answer\<close>

lemma nak_size:
  assumes "reqci_option p f = (orc, nb, g)" "2 \<le> length p"
  shows "4 * length nb \<le> 5 * length p"
proof -
  have "4 * length (fst (snd (reqci_mru p f))) \<le> 5 * length p" "4 * length (fst (snd (reqci_asyncmap p f))) \<le> 5 * length p"
    "4 * length (fst (snd (reqci_quality p f))) \<le> 5 * length p"
    by (simp_all add: reqci_mru_def reqci_asyncmap_def reqci_quality_def Let_def cilen_defs)
  moreover have "4 * length (fst (snd (reqci_auth p f))) \<le> 5 * length p"
    by (simp add: reqci_auth_def Let_def cilen_defs)
  moreover have "4 * length (fst (snd (reqci_magic p f))) \<le> 5 * length p"
    by (cases "magic f") (simp add: reqci_magic_def Let_def cilen_defs)
  moreover have "nb = fst (snd (reqci_option p f))"
    using assms(1) by simp
  ultimately show ?thesis
    by (simp add: reqci_option_def Let_def)
qed

lemma verdict_codes:
  "fst acc \<in> {CONFACK, CONFNAK, CONFREJ} \<Longrightarrow> fst (reqci_verdict rid t cip orc acc) \<in> {CONFACK, CONFNAK, CONFREJ}"
  by (cases acc) (auto simp: reqci_verdict_def Let_def code_defs)

lemma verdict_size: "length (snd (reqci_verdict rid t cip orc acc)) \<le> length (snd acc) + length cip"
  by (cases acc) (simp add: reqci_verdict_def Let_def)

lemma reqci_overrun: "nak_overrun (snd (snd (reqci_option p f))) = nak_overrun f"
proof -
  have "nak_overrun (snd (snd (reqci_auth p f))) = nak_overrun f" "nak_overrun (snd (snd (reqci_mru p f))) = nak_overrun f"
    "nak_overrun (snd (snd (reqci_asyncmap p f))) = nak_overrun f" "nak_overrun (snd (snd (reqci_quality p f))) = nak_overrun f"
    by (simp_all add: reqci_auth_def reqci_mru_def reqci_asyncmap_def reqci_quality_def Let_def)
  moreover have "nak_overrun (snd (snd (reqci_magic p f))) = nak_overrun f"
    by (simp add: reqci_magic_def magic_def Let_def)
  ultimately show ?thesis
    by (simp add: reqci_option_def Let_def)
qed

lemma nak_grows:
  fixes a b c l u :: nat
  shows "4 * c \<le> 4 * (a + b) + 5 * (l - u) \<Longrightarrow> 4 * b \<le> 5 * u \<Longrightarrow> u \<le> l \<Longrightarrow> 4 * c \<le> 4 * a + 5 * l"
  by (simp add: diff_mult_distrib2)

lemma reqci_loop_size:
  assumes "reqci_loop rid p acc nak f = (acc', nak', g)"
  shows "(fst acc \<in> {CONFACK, CONFNAK, CONFREJ} \<longrightarrow> fst acc' \<in> {CONFACK, CONFNAK, CONFREJ}) \<and>
    length (snd acc') \<le> length (snd acc) + length p \<and> 4 * length nak' \<le> 4 * length nak + 5 * length p \<and> nak_overrun g = nak_overrun f"
  using assms
proof (induction p acc nak f arbitrary: acc' nak' g rule: reqci_loop_induct [where rid = rid])
  case (bad p acc nak f)
  then show ?case
    using verdict_codes [of acc rid 0 p CONFREJ] verdict_size [of rid 0 p CONFREJ acc] by (auto simp: reqci_loop_bad)
next
  case (step p acc nak f orc nb h)
  let ?n = "unat (p ! 1)" and ?v = "reqci_verdict rid (p ! 0) (take (unat (p ! 1)) p) orc acc"
  have n: "2 \<le> ?n" "?n \<le> length p"
    using step(1) by (simp_all add: good_ci_def)
  have "reqci_loop rid (drop ?n p) ?v (nak @ nb) h = (acc', nak', g)"
    using step(4) reqci_loop_step [OF step(1,2)] by simp
  note ih = step(3) [OF this]
  have "fst acc \<in> {CONFACK, CONFNAK, CONFREJ} \<longrightarrow> fst acc' \<in> {CONFACK, CONFNAK, CONFREJ}"
    using ih verdict_codes by blast
  moreover have "length (snd acc') \<le> length (snd acc) + length p"
  proof -
    have "length (snd acc') \<le> length (snd ?v) + (length p - ?n)"
      using conjunct1 [OF conjunct2 [OF ih]] by (simp only: length_drop)
    moreover have "length (snd ?v) \<le> length (snd acc) + ?n"
      using verdict_size [of rid "p ! 0" "take ?n p" orc acc] n by (simp only: length_take min.absorb2)
    ultimately show ?thesis
      using n by linarith
  qed
  moreover have "4 * length nak' \<le> 4 * length nak + 5 * length p"
  proof -
    have "4 * length nak' \<le> 4 * (length nak + length nb) + 5 * (length p - ?n)"
      using conjunct1 [OF conjunct2 [OF conjunct2 [OF ih]]] by (simp only: length_append length_drop)
    moreover have "4 * length nb \<le> 5 * ?n"
      using nak_size [OF step(2)] n by (simp only: length_take min.absorb2)
    ultimately show ?thesis
      using n(2) by (rule nak_grows)
  qed
  moreover have "nak_overrun g = nak_overrun f"
    using ih reqci_overrun [of "take ?n p" f] step(2) by simp
  ultimately show ?case
    by (intro conjI)
qed simp

text \<open>
  The options of a request; what is left when the length of an option does not fit counts as one.
\<close>

function request_options :: "u8 list \<Rightarrow> u8 list list" where
  "request_options p =
     (if p = [] then [] else if \<not> good_ci p then [p]
      else take (unat (p ! 1)) p # request_options (drop (unat (p ! 1)) p))"
  by pat_completeness auto
termination
  by (relation "measure length") (auto simp: good_ci_def)

declare request_options.simps [simp del]

lemma request_options_simps:
  "request_options [] = []" "p \<noteq> [] \<Longrightarrow> \<not> good_ci p \<Longrightarrow> request_options p = [p]"
  "good_ci p \<Longrightarrow> request_options p = take (unat (p ! 1)) p # request_options (drop (unat (p ! 1)) p)"
  by (subst request_options.simps, auto simp: good_ci_def)+

lemma concat_request_options: "concat (request_options p) = p"
  by (induction p rule: request_options.induct) (metis append_take_drop_id concat.simps append_Nil2 request_options.simps)

lemma verdict_rejects: "snd (reqci_verdict rid t cip orc acc) \<in> {snd acc, snd acc @ cip}"
  by (cases acc) (simp add: reqci_verdict_def Let_def)

text \<open>What is collected for a Reject are options of the request, in their order.\<close>

lemma reqci_loop_rejects:
  "reqci_loop rid p acc nak f = (acc', nak', g) \<Longrightarrow> \<exists>os. subseq os (request_options p) \<and> snd acc' = snd acc @ concat os"
proof (induction p acc nak f arbitrary: acc' nak' g rule: reqci_loop_induct [where rid = rid])
  case (bad p acc nak f)
  then have "snd acc' \<in> {snd acc, snd acc @ p}"
    using verdict_rejects [of rid 0 p CONFREJ acc] by (auto simp: reqci_loop_bad)
  then show ?case
    using bad(1,2) by (intro exI [of _ "if snd acc' = snd acc then [] else [p]"]) (auto simp: request_options_simps)
next
  case (step p acc nak f orc nb h)
  let ?o = "take (unat (p ! 1)) p"
  have "reqci_loop rid (drop (unat (p ! 1)) p) (reqci_verdict rid (p ! 0) ?o orc acc) (nak @ nb) h = (acc', nak', g)"
    using step(4) reqci_loop_step [OF step(1,2)] by simp
  from step(3) [OF this] obtain os where os: "subseq os (request_options (drop (unat (p ! 1)) p))"
    "snd acc' = snd (reqci_verdict rid (p ! 0) ?o orc acc) @ concat os"
    by blast
  consider "snd (reqci_verdict rid (p ! 0) ?o orc acc) = snd acc" | "snd (reqci_verdict rid (p ! 0) ?o orc acc) = snd acc @ ?o"
    using verdict_rejects [of rid "p ! 0" ?o orc acc] by blast
  then show ?case
  proof cases
    case 1
    with os show ?thesis
      unfolding request_options_simps(3) [OF step(1)] by (intro exI [of _ os]) (simp add: list_emb_Cons)
  next
    case 2
    with os show ?thesis
      unfolding request_options_simps(3) [OF step(1)] by (intro exI [of _ "?o # os"]) simp
  qed
next
  case (Nil acc nak f)
  then show ?case
    by (intro exI [of _ "[]"]) simp
qed

text \<open>
  C25: the answer to a request is an Ack of exactly the request, a Reject that consists of options of the request in
  their order, or a Nak at most a quarter longer than the request; the buffer for counterproposals is not overrun by a
  request of at most 1200 bytes.
\<close>

theorem lcp_reply_bounds:
  assumes "lcp_reqci f p rid = (rc, out, g)"
  shows "(rc = CONFACK \<and> out = p \<or> rc = CONFNAK \<and> 4 * length out \<le> 5 * length p \<or>
      rc = CONFREJ \<and> length out \<le> length p \<and> (\<exists>os. subseq os (request_options p) \<and> out = concat os)) \<and>
    (length p \<le> 1200 \<longrightarrow> nak_overrun g = nak_overrun f)"
proof -
  obtain rc' rej nak h where l: "reqci_loop rid p (CONFACK, []) [] (f\<lparr>lcp_hisoptions := no_options\<rparr>) = ((rc', rej), nak, h)"
    by (metis prod.collapse)
  from reqci_loop_size [OF this] have s: "rc' \<in> {CONFACK, CONFNAK, CONFREJ}" "length rej \<le> length p"
      "4 * length nak \<le> 5 * length p" "nak_overrun h = nak_overrun f"
    by simp_all
  have r: "rc = rc'" "out = (if rc' = CONFACK then p else if rc' = CONFNAK then nak else rej)"
      "nak_overrun g = (nak_overrun h \<or> unat PPP_MRU < length nak)"
    using assms by (auto simp: lcp_reqci_def l Let_def)
  have "length p \<le> 1200 \<Longrightarrow> \<not> unat PPP_MRU < length nak"
    using s(3) by (simp add: PPP_MRU_def)
  moreover have "\<exists>os. subseq os (request_options p) \<and> rej = concat os"
    using reqci_loop_rejects [OF l] by simp
  ultimately show ?thesis
    using s r by auto
qed

theorem lcp_reply_bounds_witness:
  "\<forall>t r. \<exists>rc out g. lcp_reqci (example_lcp t r 1) [3, 4, 0, 0] False = (rc, out, g) \<and> \<not> nak_overrun g"
proof (intro allI)
  fix t r
  obtain rc out g where l: "lcp_reqci (example_lcp t r 1) [3, 4, 0, 0] False = (rc, out, g)"
    by (metis prod.collapse)
  from lcp_reply_bounds [OF this] have "nak_overrun g = nak_overrun (example_lcp t r 1)"
    by simp
  with l show "\<exists>rc out g. lcp_reqci (example_lcp t r 1) [3, 4, 0, 0] False = (rc, out, g) \<and> \<not> nak_overrun g"
    by (simp add: example_lcp_def)
qed

text \<open>
  C40: but a longer request can overrun it. More than 300 authentication options of four bytes, with a protocol that is
  neither PAP nor CHAP, fit a packet of 1500 bytes; each of them is answered by five bytes in \<open>nak_buffer\<close>, which has 1500,
  whether or not the answer is sent.
\<close>

theorem lcp_nak_overrun:
  assumes "neg_chap (lcp_allowoptions f)" "be16 x y \<noteq> PPP_PAP" "be16 x y \<noteq> PPP_CHAP" "300 < n"
  shows "nak_overrun (snd (snd (lcp_reqci f (concat (replicate n [3, 4, x, y])) rid)))"
proof -
  have one: "reqci_option [3, 4, x, y] h = (CONFNAK, [CI_AUTHTYPE, of_nat CILEN_CHAP] @ PUTSHORT PPP_CHAP @
      [chap_mdtype (lcp_allowoptions h)], h)" if "lcp_allowoptions h = lcp_allowoptions f" for h :: "'a lcp_scheme"
    using assms(1-3) that by (simp add: reqci_option_def reqci_auth_def Let_def ci_defs cilen_defs GETSHORT_def)
  have loop: "\<exists>acc' nak' g. reqci_loop rid (concat (replicate n [3, 4, x, y])) acc nak h = (acc', nak', g) \<and>
      length nak' = length nak + 5 * n" if "lcp_allowoptions h = lcp_allowoptions f" for acc nak and h :: "'a lcp_scheme"
    using that
  proof (induction n arbitrary: acc nak)
    case (Suc n)
    let ?p = "concat (replicate (Suc n) [3, 4, x, y])"
    have p: "good_ci ?p" "take (unat (?p ! 1)) ?p = [3, 4, x, y]" "drop (unat (?p ! 1)) ?p = concat (replicate n [3, 4, x, y])"
      by (simp_all add: good_ci_def)
    note step = reqci_loop_step [OF p(1), unfolded p(2), OF one [OF Suc.prems], unfolded p(3)]
    let ?nb = "[CI_AUTHTYPE, of_nat CILEN_CHAP] @ PUTSHORT PPP_CHAP @ [chap_mdtype (lcp_allowoptions h)]"
    have "length (nak @ ?nb) = length nak + 5"
      by (simp add: cilen_defs PUTSHORT_def)
    with Suc.IH [OF Suc.prems, of "reqci_verdict rid (?p ! 0) [3, 4, x, y] CONFNAK acc" "nak @ ?nb"] obtain acc' nak' g
      where "reqci_loop rid (concat (replicate n [3, 4, x, y])) (reqci_verdict rid (?p ! 0) [3, 4, x, y] CONFNAK acc) (nak @ ?nb) h =
          (acc', nak', g)" "length nak' = length nak + 5 + 5 * n"
      by auto
    with step have "reqci_loop rid ?p acc nak h = (acc', nak', g)" "length nak' = length nak + 5 * Suc n"
      by simp_all
    then show ?case
      by blast
  qed simp
  obtain acc' nak' g where l: "reqci_loop rid (concat (replicate n [3, 4, x, y])) (CONFACK, []) [] (f\<lparr>lcp_hisoptions := no_options\<rparr>) =
      (acc', nak', g)" "length nak' = 5 * n"
    using loop [of "f\<lparr>lcp_hisoptions := no_options\<rparr>" "(CONFACK, [])" "[]"] by auto
  then show ?thesis
    using assms(4) by (cases acc') (simp add: lcp_reqci_def Let_def PPP_MRU_def)
qed

theorem lcp_nak_overrun_witness:
  "\<forall>t r. nak_overrun (snd (snd (lcp_reqci (example_lcp t r 1) (concat (replicate 301 [3, 4, 0, 0])) False)))"
  using lcp_nak_overrun [of "example_lcp t r 1" 0 0 301 False for t r]
  by (simp add: example_lcp_def lcp_allow_defaults_def be16_def PPP_PAP_def PPP_CHAP_def)

end
