(* ===== verification/Fw_Flash.thy ===== *)
theory Fw_Flash
  imports Prelude
begin

text \<open>
  The driver of the serial flash (\<open>flash25spi/flash25spi.cpp\<close>).

  The chip is hardware: its state \<open>'c\<close> and what it does with the signals are a parameter \<open>bus\<close>, with the two
  operations the driver uses, the chip select pin (\<open>_enable->write\<close>) and the exchange of a byte (\<open>_spi->write\<close>).
  A function that may poll for ever or divide by zero returns an \<open>option\<close>.
\<close>

unbundle bit_operations_syntax

section \<open>The bus and the driver object\<close>

record 'c bus =
  enable_write :: "bool \<Rightarrow> 'c \<Rightarrow> 'c"
  spi_write :: "u8 \<Rightarrow> 'c \<Rightarrow> u8 \<times> 'c"

record flash25spi =
  f_size :: u32
  f_pageSize :: u32
  f_sectorSize :: u32
  f_blockSize :: u32

record dataBase =
  vendor :: u8
  device :: u8
  capacity :: u8
  memsize :: u32
  blocksize :: u32
  sectorsize :: u32
  pagesize :: u32

definition entry :: "u8 \<Rightarrow> u8 \<Rightarrow> u8 \<Rightarrow> u32 \<Rightarrow> u32 \<Rightarrow> u32 \<Rightarrow> u32 \<Rightarrow> dataBase" where
  "entry v d c m b s p = \<lparr>vendor = v, device = d, capacity = c, memsize = m, blocksize = b, sectorsize = s, pagesize = p\<rparr>"

definition devices :: "dataBase list" where
  "devices =
    [entry 0xEF 0x40 0x17 0x800000 0x8000 0x1000 0x100,
     entry 0x1c 0x31 0x10 0x10000 0x8000 0x1000 0x100,
     entry 0x1c 0x31 0x11 0x20000 0x8000 0x1000 0x100,
     entry 0x1c 0x31 0x12 0x40000 0x10000 0x1000 0x100,
     entry 0x1c 0x31 0x13 0x80000 0x10000 0x1000 0x100,
     entry 0x1c 0x31 0x14 0x100000 0x10000 0x1000 0x100,
     entry 0x1c 0x31 0x15 0x200000 0x10000 0x1000 0x100,
     entry 0x1c 0x30 0x15 0x200000 0x10000 0x1000 0x100,
     entry 0x1c 0x31 0x16 0x400000 0x10000 0x1000 0x100,
     entry 0x1c 0x30 0x16 0x400000 0x10000 0x1000 0x100,
     entry 0x1c 0x30 0x17 0x800000 0x10000 0x1000 0x100,
     entry 0x1c 0x30 0x18 0x1000000 0x10000 0x1000 0x100,
     entry 0x20 0x20 0x10 0x10000 0x8000 0 0x100,
     entry 0x20 0x20 0x16 0x400000 0x10000 0 0x100,
     entry 0x00 0x00 0x00 0x00 0x00 0x00 0x00]"

definition HIGH :: "u32 \<Rightarrow> u8" where "HIGH x = ucast (drop_bit 16 (x AND 0xff0000))"
definition MID :: "u32 \<Rightarrow> u8" where "MID x = ucast (drop_bit 8 (x AND 0xff00))"
definition LOW :: "u32 \<Rightarrow> u8" where "LOW x = ucast (x AND 0xff)"

section \<open>Transactions\<close>

text \<open>Bytes sent one after the other; the answers of the chip.\<close>

fun spi_send :: "'c bus \<Rightarrow> u8 list \<Rightarrow> 'c \<Rightarrow> u8 list \<times> 'c" where
  "spi_send bus [] c = ([], c)"
| "spi_send bus (b # bs) c =
     (let (r, c) = spi_write bus b c;
          (rs, c) = spi_send bus bs c
      in (r # rs, c))"

text \<open>The pin is low while the bytes of a command are sent.\<close>

definition transact :: "'c bus \<Rightarrow> u8 list \<Rightarrow> 'c \<Rightarrow> u8 list \<times> 'c" where
  "transact bus bs c =
     (let c = enable_write bus False c;
          (rs, c) = spi_send bus bs c
      in (rs, enable_write bus True c))"

section \<open>Detection\<close>

text \<open>The search ends at the device found, or at the end of the table, with the size zero.\<close>

fun find_device :: "dataBase list \<Rightarrow> u8 \<Rightarrow> u8 \<Rightarrow> u8 \<Rightarrow> flash25spi \<Rightarrow> flash25spi" where
  "find_device [] v d c f = f"
| "find_device (e # es) v d c f =
     (if vendor e = 0 then f
      else if v = vendor e \<and> d = device e \<and> c = capacity e
      then f\<lparr>f_size := memsize e, f_blockSize := blocksize e, f_sectorSize := sectorsize e, f_pageSize := pagesize e\<rparr>
      else find_device es v d c f)"

text \<open>The object is allocated with arbitrary contents; the constructor sets the size to zero.\<close>

definition flash25spi_init :: "'c bus \<Rightarrow> flash25spi \<Rightarrow> 'c \<Rightarrow> flash25spi \<times> 'c" where
  "flash25spi_init bus f c =
     (let c = enable_write bus True c;
          (rs, c) = transact bus [0x9f, 0, 0, 0] c
      in (find_device devices (rs ! 1) (rs ! 2) (rs ! 3) (f\<lparr>f_size := 0\<rparr>), c))"

section \<open>Status and write enable\<close>

definition readStatus :: "'c bus \<Rightarrow> 'c \<Rightarrow> u8 \<times> 'c" where
  "readStatus bus c = (let (rs, c) = transact bus [0x5, 0x00] c in (rs ! 1, c))"

text \<open>The condition is read as in C: the comparison with zero binds stronger than the conjunction with one.\<close>

partial_function (option) waitForWrite :: "'c bus \<Rightarrow> 'c \<Rightarrow> 'c option" where
  "waitForWrite bus c =
     (let (status, c) = readStatus bus c
      in if (of_bool (0 = status) :: u32) AND 1 \<noteq> 0 then Some c else waitForWrite bus c)"

definition enableWrite :: "'c bus \<Rightarrow> 'c \<Rightarrow> 'c" where
  "enableWrite bus c = snd (transact bus [0x06] c)"

section \<open>Reading\<close>

definition flash_read :: "'c bus \<Rightarrow> flash25spi \<Rightarrow> u32 \<Rightarrow> u32 \<Rightarrow> 'c \<Rightarrow> u8 list option \<times> 'c" where
  "flash_read bus f startAdr len c =
     (if f_size f < startAdr + len then (None, c)
      else if len = 0 then (None, c)
      else
        let (rs, c) = transact bus ([0x03, HIGH startAdr, MID startAdr, LOW startAdr] @ replicate (unat len) 0) c
        in (Some (drop 4 rs), c))"

section \<open>Writing\<close>

definition writePage :: "'c bus \<Rightarrow> u32 \<Rightarrow> u8 list \<Rightarrow> 'c \<Rightarrow> (bool \<times> 'c) option" where
  "writePage bus startAdr data c =
     (let c = enableWrite bus c;
          (_, c) = transact bus ([0x02, HIGH startAdr, MID startAdr, LOW startAdr] @ data) c
      in do { c \<leftarrow> waitForWrite bus c; Some (True, c) })"

text \<open>
  The part of the data that goes into the current page. The variable is an \<open>int\<close>; it is added to and compared
  with unsigned values. A page size of zero is a division by zero.
\<close>

definition page_part :: "flash25spi \<Rightarrow> u32 \<Rightarrow> u32 \<Rightarrow> u32 \<Rightarrow> u32" where
  "page_part f startAdr ofs len =
     (let pageLen = f_pageSize f - (startAdr + ofs) mod f_pageSize f
      in if len < ofs + pageLen then len - ofs else pageLen)"

partial_function (option) write_pages ::
  "'c bus \<Rightarrow> flash25spi \<Rightarrow> u32 \<Rightarrow> u32 \<Rightarrow> u8 list \<Rightarrow> u32 \<Rightarrow> 'c \<Rightarrow> (bool \<times> 'c) option" where
  "write_pages bus f startAdr len data ofs c =
     (if ofs < len
      then if f_pageSize f = 0 then None
           else
             let pageLen = page_part f startAdr ofs len
             in do {
               (b, c) \<leftarrow> writePage bus (startAdr + ofs) (take (unat pageLen) (drop (unat ofs) data)) c;
               if \<not> b then Some (False, c) else write_pages bus f startAdr len data (ofs + pageLen) c }
      else Some (True, c))"

definition flash_write :: "'c bus \<Rightarrow> flash25spi \<Rightarrow> u32 \<Rightarrow> u32 \<Rightarrow> u8 list \<Rightarrow> 'c \<Rightarrow> (bool \<times> 'c) option" where
  "flash_write bus f startAdr len data c =
     (if f_size f < startAdr + len then Some (False, c) else write_pages bus f startAdr len data 0 c)"

section \<open>Erasing\<close>

definition clearBlock :: "'c bus \<Rightarrow> flash25spi \<Rightarrow> u32 \<Rightarrow> 'c \<Rightarrow> 'c option" where
  "clearBlock bus f addr c =
     (let addr = addr AND NOT (f_blockSize f - 1);
          c = enableWrite bus c;
          (_, c) = transact bus [0xd8, HIGH addr, MID addr, LOW addr] c
      in waitForWrite bus c)"

definition clearSector :: "'c bus \<Rightarrow> flash25spi \<Rightarrow> u32 \<Rightarrow> 'c \<Rightarrow> 'c option" where
  "clearSector bus f addr c =
     (if f_sectorSize f = 0 then clearBlock bus f addr c
      else
        let addr = addr AND NOT (f_sectorSize f - 1);
            c = enableWrite bus c;
            (_, c) = transact bus [0x20, HIGH addr, MID addr, LOW addr] c
        in waitForWrite bus c)"

definition clearMem :: "'c bus \<Rightarrow> 'c \<Rightarrow> 'c option" where
  "clearMem bus c =
     (let c = enableWrite bus c;
          (_, c) = transact bus [0xc7] c
      in waitForWrite bus c)"

section \<open>The memory of the chip\<close>

text \<open>
  What the driver does, on the memory as a function from addresses to bytes: a program operation clears bits, an
  erase sets all bits of a unit.
\<close>

definition mem_read :: "(nat \<Rightarrow> u8) \<Rightarrow> nat \<Rightarrow> nat \<Rightarrow> u8 list" where
  "mem_read m a n = map (\<lambda>i. m (a + i)) [0..<n]"

definition mem_program :: "(nat \<Rightarrow> u8) \<Rightarrow> nat \<Rightarrow> u8 list \<Rightarrow> nat \<Rightarrow> u8" where
  "mem_program m a bs = (\<lambda>x. if a \<le> x \<and> x < a + length bs then m x AND bs ! (x - a) else m x)"

definition mem_erase :: "(nat \<Rightarrow> u8) \<Rightarrow> nat \<Rightarrow> nat \<Rightarrow> nat \<Rightarrow> u8" where
  "mem_erase m unit a = (\<lambda>x. if x div unit = a div unit then 0xff else m x)"

text \<open>
  The W25Q64 as its data sheet describes it. \<open>idle m c\<close>: the chip is deselected, no operation is running and its
  memory is \<open>m\<close>; \<open>armed m c\<close>: also, its write enable latch is set; \<open>busy m c\<close>: an operation runs
  that leaves the memory \<open>m\<close>. The status register of an idle chip reads zero; a running operation ends, so that the
  status becomes zero after some number of reads (\<open>left c\<close>).
\<close>

definition addr_bytes3 :: "nat \<Rightarrow> u8 list" where
  "addr_bytes3 a = [of_nat (a div 65536), of_nat (a div 256), of_nat a]"

definition w25q64 ::
  "'c bus \<Rightarrow> ((nat \<Rightarrow> u8) \<Rightarrow> 'c \<Rightarrow> bool) \<Rightarrow> ((nat \<Rightarrow> u8) \<Rightarrow> 'c \<Rightarrow> bool) \<Rightarrow> ((nat \<Rightarrow> u8) \<Rightarrow> 'c \<Rightarrow> bool) \<Rightarrow> ('c \<Rightarrow> nat) \<Rightarrow> bool"
where
  "w25q64 bus idle armed busy left \<longleftrightarrow>
     (\<forall>m c. idle m c \<longrightarrow>
        idle m (enable_write bus True c) \<and> tl (fst (transact bus [0x9f, 0, 0, 0] c)) = [0xEF, 0x40, 0x17] \<and>
        idle m (snd (transact bus [0x9f, 0, 0, 0] c))) \<and>
     (\<forall>m c a n. idle m c \<and> a + n \<le> 0x800000 \<longrightarrow>
        drop 4 (fst (transact bus ([0x03] @ addr_bytes3 a @ replicate n 0) c)) = mem_read m a n \<and>
        idle m (snd (transact bus ([0x03] @ addr_bytes3 a @ replicate n 0) c))) \<and>
     (\<forall>m c. idle m c \<longrightarrow> armed m (snd (transact bus [0x06] c))) \<and>
     (\<forall>m c a bs. armed m c \<and> a < 0x800000 \<and> 0 < length bs \<and> a mod 256 + length bs \<le> 256 \<longrightarrow>
        busy (mem_program m a bs) (snd (transact bus ([0x02] @ addr_bytes3 a @ bs) c))) \<and>
     (\<forall>m c a. armed m c \<and> a < 0x800000 \<longrightarrow>
        busy (mem_erase m 0x10000 a) (snd (transact bus ([0xd8] @ addr_bytes3 a) c))) \<and>
     (\<forall>m c a. armed m c \<and> a < 0x800000 \<longrightarrow>
        busy (mem_erase m 0x1000 a) (snd (transact bus ([0x20] @ addr_bytes3 a) c))) \<and>
     (\<forall>m c. armed m c \<longrightarrow> busy (\<lambda>x. 0xff) (snd (transact bus [0xc7] c))) \<and>
     (\<forall>m c. busy m c \<longrightarrow>
        (if fst (transact bus [0x05, 0] c) ! 1 = 0 then idle m (snd (transact bus [0x05, 0] c))
         else busy m (snd (transact bus [0x05, 0] c)) \<and> left (snd (transact bus [0x05, 0] c)) < left c))"

section \<open>The driver implements the memory operations\<close>

definition W25Q64 :: flash25spi where
  "W25Q64 = \<lparr>f_size = 0x800000, f_pageSize = 0x100, f_sectorSize = 0x1000, f_blockSize = 0x8000\<rparr>"

lemma find_w25q64: "find_device devices 0xEF 0x40 0x17 f = f\<lparr>f_size := 0x800000, f_blockSize := 0x8000, f_sectorSize := 0x1000, f_pageSize := 0x100\<rparr>"
  by (simp add: devices_def entry_def)

lemma address_bytes: "[HIGH x, MID x, LOW x] = addr_bytes3 (unat x)"
proof -
  have m: "0xff0000 = push_bit 16 (mask 8 :: u32)" "0xff00 = push_bit 8 (mask 8 :: u32)" "0xff = (mask 8 :: u32)"
    by (simp_all add: mask_eq_exp_minus_1)
  have n: "unat x div 65536 = drop_bit 16 (unat x)" "unat x div 256 = drop_bit 8 (unat x)"
    by (simp_all add: drop_bit_eq_div)
  have "HIGH x = of_nat (drop_bit 16 (unat x))" "MID x = of_nat (drop_bit 8 (unat x))" "LOW x = of_nat (unat x)"
    unfolding HIGH_def MID_def LOW_def m
    by (auto simp: bit_simps simp del: push_bit_mask_eq of_nat_unat intro!: bit_word_eqI)
  then show ?thesis
    by (simp add: addr_bytes3_def n)
qed

lemma mem_program_append: "mem_program (mem_program m a xs) (a + length xs) ys = mem_program m a (xs @ ys)"
  by (auto simp: mem_program_def fun_eq_iff nth_append)

lemma mem_program_Nil [simp]: "mem_program m a [] = m"
  unfolding mem_program_def by (rule ext) auto

text \<open>The rules of the chip, one by one.\<close>

lemma chip_rules:
  assumes "w25q64 bus idle armed busy left"
  shows "idle m c \<Longrightarrow> a + n \<le> 0x800000 \<Longrightarrow>
      drop 4 (fst (transact bus ([0x03] @ addr_bytes3 a @ replicate n 0) c)) = mem_read m a n"
    and "idle m c \<Longrightarrow> a + n \<le> 0x800000 \<Longrightarrow> idle m (snd (transact bus ([0x03] @ addr_bytes3 a @ replicate n 0) c))"
    and "idle m c \<Longrightarrow> armed m (snd (transact bus [0x06] c))"
    and "armed m c \<Longrightarrow> a < 0x800000 \<Longrightarrow> 0 < length bs \<Longrightarrow> a mod 256 + length bs \<le> 256 \<Longrightarrow>
      busy (mem_program m a bs) (snd (transact bus ([0x02] @ addr_bytes3 a @ bs) c))"
    and "armed m c \<Longrightarrow> a < 0x800000 \<Longrightarrow> busy (mem_erase m 0x10000 a) (snd (transact bus ([0xd8] @ addr_bytes3 a) c))"
    and "armed m c \<Longrightarrow> a < 0x800000 \<Longrightarrow> busy (mem_erase m 0x1000 a) (snd (transact bus ([0x20] @ addr_bytes3 a) c))"
    and "armed m c \<Longrightarrow> busy (\<lambda>x. 0xff) (snd (transact bus [0xc7] c))"
    and "busy m c \<Longrightarrow> if fst (transact bus [0x05, 0] c) ! 1 = 0 then idle m (snd (transact bus [0x05, 0] c))
         else busy m (snd (transact bus [0x05, 0] c)) \<and> left (snd (transact bus [0x05, 0] c)) < left c"
    and "idle m c \<Longrightarrow> idle m (enable_write bus True c)"
    and "idle m c \<Longrightarrow> tl (fst (transact bus [0x9f, 0, 0, 0] c)) = [0xEF, 0x40, 0x17]"
    and "idle m c \<Longrightarrow> idle m (snd (transact bus [0x9f, 0, 0, 0] c))"
proof -
  note w = assms [unfolded w25q64_def]
  note ident = w [THEN conjunct1] and w = w [THEN conjunct2]
  note read = w [THEN conjunct1] and w = w [THEN conjunct2]
  note enable = w [THEN conjunct1] and w = w [THEN conjunct2]
  note prog = w [THEN conjunct1] and w = w [THEN conjunct2]
  note block = w [THEN conjunct1] and w = w [THEN conjunct2]
  note sector = w [THEN conjunct1] and w = w [THEN conjunct2]
  note chip = w [THEN conjunct1] and status = w [THEN conjunct2]
  show "idle m c \<Longrightarrow> a + n \<le> 0x800000 \<Longrightarrow>
      drop 4 (fst (transact bus ([0x03] @ addr_bytes3 a @ replicate n 0) c)) = mem_read m a n"
    and "idle m c \<Longrightarrow> a + n \<le> 0x800000 \<Longrightarrow> idle m (snd (transact bus ([0x03] @ addr_bytes3 a @ replicate n 0) c))"
    using read by blast+
  show "idle m c \<Longrightarrow> armed m (snd (transact bus [0x06] c))"
    using enable by blast
  show "armed m c \<Longrightarrow> a < 0x800000 \<Longrightarrow> 0 < length bs \<Longrightarrow> a mod 256 + length bs \<le> 256 \<Longrightarrow>
      busy (mem_program m a bs) (snd (transact bus ([0x02] @ addr_bytes3 a @ bs) c))"
    using prog by blast
  show "armed m c \<Longrightarrow> a < 0x800000 \<Longrightarrow> busy (mem_erase m 0x10000 a) (snd (transact bus ([0xd8] @ addr_bytes3 a) c))"
    using block by blast
  show "armed m c \<Longrightarrow> a < 0x800000 \<Longrightarrow> busy (mem_erase m 0x1000 a) (snd (transact bus ([0x20] @ addr_bytes3 a) c))"
    using sector by blast
  show "armed m c \<Longrightarrow> busy (\<lambda>x. 0xff) (snd (transact bus [0xc7] c))"
    using chip by blast
  show "busy m c \<Longrightarrow> if fst (transact bus [0x05, 0] c) ! 1 = 0 then idle m (snd (transact bus [0x05, 0] c))
         else busy m (snd (transact bus [0x05, 0] c)) \<and> left (snd (transact bus [0x05, 0] c)) < left c"
    using status by blast
  show "idle m c \<Longrightarrow> idle m (enable_write bus True c)"
    and "idle m c \<Longrightarrow> tl (fst (transact bus [0x9f, 0, 0, 0] c)) = [0xEF, 0x40, 0x17]"
    and "idle m c \<Longrightarrow> idle m (snd (transact bus [0x9f, 0, 0, 0] c))"
    using ident by blast+
qed

text \<open>Polling ends, with the operation done.\<close>

lemma waitForWrite_ends:
  assumes "w25q64 bus idle armed busy left"
  shows "busy m c \<Longrightarrow> \<exists>c'. waitForWrite bus c = Some c' \<and> idle m c'"
proof (induction "left c" arbitrary: c rule: less_induct)
  case less
  obtain rs c' where t: "transact bus [0x05, 0] c = (rs, c')"
    by fastforce
  have s: "if rs ! 1 = 0 then idle m c' else busy m c' \<and> left c' < left c"
    using chip_rules(8) [OF assms less.prems] unfolding t fst_conv snd_conv .
  have r: "readStatus bus c = (rs ! 1, c')"
    by (simp add: readStatus_def t)
  show ?case
  proof (cases "rs ! 1 = 0")
    case True
    with s r show ?thesis
      by (subst waitForWrite.simps) simp
  next
    case False
    with s less.hyps obtain c'' where "waitForWrite bus c' = Some c''" "idle m c''"
      by auto
    with False r show ?thesis
      by (subst waitForWrite.simps) simp
  qed
qed

lemma transact_address: "transact bus ([k, HIGH x, MID x, LOW x] @ bs) = transact bus ([k] @ addr_bytes3 (unat x) @ bs)"
  by (simp add: address_bytes [symmetric])

text \<open>A page is programmed.\<close>

lemma writePage_refines:
  assumes chip: "w25q64 bus idle armed busy left" and i: "idle m c"
    and a: "unat x < 0x800000" "0 < length bs" "unat x mod 256 + length bs \<le> 256"
  shows "\<exists>c'. writePage bus x bs c = Some (True, c') \<and> idle (mem_program m (unat x) bs) c'"
proof -
  have "armed m (enableWrite bus c)"
    unfolding enableWrite_def by (rule chip_rules(3) [OF chip i])
  from chip_rules(4) [OF chip this a]
  have "busy (mem_program m (unat x) bs) (snd (transact bus ([0x02, HIGH x, MID x, LOW x] @ bs) (enableWrite bus c)))"
    by (simp only: transact_address)
  from waitForWrite_ends [OF chip this] show ?thesis
    by (auto simp: writePage_def Let_def split_def)
qed

text \<open>The pages together program the data, wherever they begin.\<close>

lemma page_part_size:
  assumes s: "unat start + unat len \<le> 0x800000" and o: "unat ofs < unat len" and f: "f_pageSize f = 0x100"
  shows "0 < unat (page_part f start ofs len)"
    and "unat ofs + unat (page_part f start ofs len) \<le> unat len"
    and "unat (start + ofs) = unat start + unat ofs"
    and "unat (start + ofs) mod 256 + unat (page_part f start ofs len) \<le> 256"
proof -
  have so: "unat (start + ofs) = unat start + unat ofs"
    using s o by (simp add: unat_word_ariths)
  define r where "r = unat (start + ofs) mod 256"
  have r: "r < 256" and ur: "unat ((start + ofs) mod 0x100) = r"
    by (simp_all add: r_def unat_mod)
  have p: "unat (0x100 - (start + ofs) mod 0x100) = 256 - r"
    using r by (subst unat_sub) (simp_all add: word_le_nat_alt ur)
  have q: "unat (ofs + (0x100 - (start + ofs) mod 0x100)) = unat ofs + (256 - r)"
    using s o r by (simp add: unat_word_ariths p)
  have d: "unat (len - ofs) = unat len - unat ofs"
    using o by (subst unat_sub) (simp_all add: word_le_nat_alt)
  have "unat (page_part f start ofs len) = (if unat len < unat ofs + (256 - r) then unat len - unat ofs else 256 - r)"
    by (simp add: page_part_def f Let_def word_less_nat_alt q d p)
  then have "0 < unat (page_part f start ofs len) \<and> unat ofs + unat (page_part f start ofs len) \<le> unat len \<and>
      r + unat (page_part f start ofs len) \<le> 256"
    using o r by auto
  then show "0 < unat (page_part f start ofs len)" "unat ofs + unat (page_part f start ofs len) \<le> unat len"
    "unat (start + ofs) = unat start + unat ofs"
    "unat (start + ofs) mod 256 + unat (page_part f start ofs len) \<le> 256"
    by (simp_all only: r_def so)
qed

lemma write_pages_refines:
  assumes chip: "w25q64 bus idle armed busy left" and f: "f_pageSize f = 0x100"
    and s: "unat start + unat len \<le> 0x800000" and d: "length data = unat len"
  shows "idle m c \<Longrightarrow> unat ofs \<le> unat len \<Longrightarrow>
    \<exists>c'. write_pages bus f start len data ofs c = Some (True, c') \<and>
      idle (mem_program m (unat start + unat ofs) (drop (unat ofs) data)) c'"
proof (induction "unat len - unat ofs" arbitrary: ofs m c rule: less_induct)
  case less
  show ?case
  proof (cases "unat ofs < unat len")
    case False
    then show ?thesis
      using less.prems d by (subst write_pages.simps) (simp add: word_less_nat_alt)
  next
    case True
    let ?p = "page_part f start ofs len"
    note p = page_part_size [OF s True f]
    have l: "length (take (unat ?p) (drop (unat ofs) data)) = unat ?p"
      using p(2) d by simp
    have "unat (start + ofs) < 0x800000"
      using p(3) True s by simp
    then obtain c1 where c1: "writePage bus (start + ofs) (take (unat ?p) (drop (unat ofs) data)) c = Some (True, c1)"
        "idle (mem_program m (unat (start + ofs)) (take (unat ?p) (drop (unat ofs) data))) c1"
      using writePage_refines [OF chip less.prems(1), of "start + ofs" "take (unat ?p) (drop (unat ofs) data)"] p l True d by auto
    have u: "unat (ofs + ?p) = unat ofs + unat ?p"
      using p(2) s by (simp add: unat_word_ariths)
    have lt: "unat len - unat (ofs + ?p) < unat len - unat ofs"
      unfolding u using p(1,2) True by linarith
    obtain c2 where c2: "write_pages bus f start len data (ofs + ?p) c1 = Some (True, c2)"
        "idle (mem_program (mem_program m (unat (start + ofs)) (take (unat ?p) (drop (unat ofs) data)))
          (unat start + unat (ofs + ?p)) (drop (unat (ofs + ?p)) data)) c2"
      using less.hyps [OF lt c1(2)] p(2) unfolding u by blast
    have parts: "take (unat ?p) (drop (unat ofs) data) @ drop (unat ofs + unat ?p) data = drop (unat ofs) data"
      by (metis append_take_drop_id drop_drop add.commute)
    have "mem_program (mem_program m (unat (start + ofs)) (take (unat ?p) (drop (unat ofs) data)))
          (unat start + unat (ofs + ?p)) (drop (unat (ofs + ?p)) data) =
        mem_program m (unat start + unat ofs) (drop (unat ofs) data)"
      using mem_program_append [of m "unat start + unat ofs" "take (unat ?p) (drop (unat ofs) data)"
          "drop (unat ?p) (drop (unat ofs) data)"] l
      by (simp add: u p(3) parts add.assoc add.commute [of "unat ?p"])
    with c1 c2 True f show ?thesis
      by (subst write_pages.simps) (simp add: Let_def word_less_nat_alt)
  qed
qed

lemma flash_write_refines:
  assumes "w25q64 bus idle armed busy left" and "f_pageSize f = 0x100" "f_size f = 0x800000"
    and "unat start + length data \<le> 0x800000" and "idle m c"
  shows "\<exists>c'. flash_write bus f start (of_nat (length data)) data c = Some (True, c') \<and> idle (mem_program m (unat start) data) c'"
proof -
  have l: "unat (of_nat (length data) :: u32) = length data"
    using assms(4) by (intro unat_of_nat_u32) simp
  have "\<not> f_size f < start + of_nat (length data)"
    using assms(3,4) by (simp add: word_less_nat_alt unat_word_ariths l)
  with write_pages_refines [OF assms(1,2), of start "of_nat (length data)" data m c 0] assms(4,5) l show ?thesis
    by (simp add: flash_write_def)
qed

lemma flash_write_range:
  assumes "f_size f = 0x800000" and "0x800000 < unat start + unat len" "unat start + unat len < 2 ^ 32"
  shows "flash_write bus f start len data c = Some (False, c)"
  using assms by (simp add: flash_write_def word_less_nat_alt unat_word_ariths)

lemma flash_read_refines:
  assumes "w25q64 bus idle armed busy left" and "f_size f = 0x800000" and "unat start + unat len \<le> 0x800000" "0 < unat len"
    and "idle m c"
  shows "\<exists>c'. flash_read bus f start len c = (Some (mem_read m (unat start) (unat len)), c') \<and> idle m c'"
proof -
  have "\<not> f_size f < start + len" "len \<noteq> 0"
    using assms(2-4) by (auto simp: word_less_nat_alt unat_word_ariths)
  with chip_rules(1,2) [OF assms(1,5,3)] show ?thesis
    by (auto simp: flash_read_def Let_def split_def transact_address simp del: append_Cons append_Nil)
qed

text \<open>The block of the driver is half a block of the chip, which erases the whole.\<close>

lemma clearBlock_refines:
  assumes chip: "w25q64 bus idle armed busy left" and f: "f_blockSize f = 0x8000" and a: "unat x < 0x800000" and i: "idle m c"
  shows "\<exists>c'. clearBlock bus f x c = Some c' \<and> idle (mem_erase m 0x10000 (unat x)) c'"
proof -
  let ?x = "x AND NOT (f_blockSize f - 1)"
  have e: "unat ?x = unat x div 32768 * 32768"
  proof -
    have "f_blockSize f - 1 = mask 15"
      by (simp add: f mask_eq_exp_minus_1)
    then have "?x = push_bit 15 (drop_bit 15 x)"
      by (auto simp: bit_simps intro!: bit_word_eqI)
    moreover have "unat (drop_bit 15 x) = unat x div 32768"
      by (simp add: drop_bit_eq_div unat_div)
    ultimately show ?thesis
      using a by (simp add: push_bit_eq_mult unat_word_ariths)
  qed
  have "armed m (enableWrite bus c)"
    unfolding enableWrite_def by (rule chip_rules(3) [OF chip i])
  moreover have "unat ?x < 0x800000"
    unfolding e using a by (metis div_times_less_eq_dividend le_less_trans)
  ultimately have "busy (mem_erase m 0x10000 (unat ?x)) (snd (transact bus [0xd8, HIGH ?x, MID ?x, LOW ?x] (enableWrite bus c)))"
    using chip_rules(5) [OF chip] transact_address [of bus "0xd8" ?x "[]"] by simp
  moreover have "mem_erase m 0x10000 (unat ?x) = mem_erase m 0x10000 (unat x)"
  proof -
    have "unat ?x div 65536 = unat x div 65536"
      unfolding e using div_mult2_eq [of "unat x div 32768 * 32768" 32768 2] div_mult2_eq [of "unat x" 32768 2] by simp
    then show ?thesis
      by (simp add: mem_erase_def)
  qed
  ultimately show ?thesis
    using waitForWrite_ends [OF chip] by (fastforce simp: clearBlock_def Let_def split_def)
qed

text \<open>The constructor finds the device and leaves the memory alone.\<close>

lemma flash_init_refines:
  assumes chip: "w25q64 bus idle armed busy left" and i: "idle m c"
  shows "\<exists>c'. flash25spi_init bus f c = (W25Q64, c') \<and> idle m c'"
proof -
  have i': "idle m (enable_write bus True c)"
    by (rule chip_rules(9) [OF chip i])
  obtain rs c' where t: "transact bus [0x9f, 0, 0, 0] (enable_write bus True c) = (rs, c')"
    by fastforce
  have "tl rs = [0xEF, 0x40, 0x17]" "idle m c'"
    using chip_rules(10,11) [OF chip i'] unfolding t fst_conv snd_conv by blast+
  then have "rs ! 1 = 0xEF" "rs ! 2 = 0x40" "rs ! 3 = 0x17"
    by (cases rs; simp add: numeral_2_eq_2 numeral_3_eq_3)+
  with \<open>idle m c'\<close> show ?thesis
    unfolding flash25spi_init_def t Let_def split_def fst_conv snd_conv
    by (simp add: find_w25q64 W25Q64_def)
qed

end
