(* ===== verification/Fw_Update.thy ===== *)
theory Fw_Update
  imports Fw_Flash
begin

text \<open>
  The client of the update server (\<open>USER/remoteupdate.cpp\<close>): registration, status reports, the query for a new
  version, the download of the image into the serial flash, and the task that drives them.

  The network is a script: its next element says what becomes of the next request, as a function of the request. An
  answer is what \<open>CoapPDU\<close> and \<open>MbedJSONValue\<close> make of the datagram. The end of the script is a task still
  waiting, \<open>None\<close>; so is undefined behaviour. The EEPROM is a script as well, of acknowledgements.
\<close>

section \<open>Constants\<close>

definition BYTEPAYLOADLEN :: nat where "BYTEPAYLOADLEN = 1024"
definition USER_IMG_MAP_BUF_CLEAR_FLAG :: u32 where "USER_IMG_MAP_BUF_CLEAR_FLAG = 0xFFFFFFFF"
definition USER_IMG_MAP_BUF_VAILE_FLAG :: u32 where "USER_IMG_MAP_BUF_VAILE_FLAG = 0x04030201"
definition USER_IMG_MAP_BUF_FLAG_LEN :: u32 where "USER_IMG_MAP_BUF_FLAG_LEN = 0x04"
definition USER_IMG_MAP_BUF_START :: u32 where "USER_IMG_MAP_BUF_START = 0x00"
definition USER_IMG_MAP_BUF_SIZE :: u32 where "USER_IMG_MAP_BUF_SIZE = 0x40000"
definition USER_IMG_MAP_BLOCK_SIZE :: u32 where "USER_IMG_MAP_BLOCK_SIZE = 0x8000"
definition HDR_NAME_4CHAR_LEN :: nat where "HDR_NAME_4CHAR_LEN = 4"
definition HDR_NAME_8CHAR_LEN :: nat where "HDR_NAME_8CHAR_LEN = 8"
definition FILENAME_MAX_LEN :: nat where "FILENAME_MAX_LEN = 128"

section \<open>State\<close>

datatype DeviceUpdateStep = DEVICE_UPDATE_IDELING | DEVICE_UPDATE_COMMAND | USER_DEVICE_UPDATE_ONGOING
  | USER_DEVICE_UPDATE_COMPLETE | MYSELF_DEVICE_UPDATE_ONGOING | MYSELF_DEVICE_UPDATE_COMPLETE

datatype request = Register | Status int | NewVersion | Downfile u16 int "u8 list" "u8 list"

text \<open>The members of a JSON object the client looks at; \<open>None\<close> is a missing member.\<close>

record answer =
  payload :: "u8 list"
  block2_next :: int
  success :: "bool option"
  already_registered :: bool
  command_update :: bool
  j_type :: "int option"
  j_version :: "u8 list option"
  j_files :: "u8 list list"

datatype outcome = SendFails | NoReply | Malformed | Answer answer

text \<open>
  The strings of \<open>updateinfo\<close> are one piece of memory, as in the structure: the version, eight bytes, and four file
  names of 128. So are the last two strings of the header, the user software version and the user hardware version.
\<close>

record GetUpdateinfo =
  u_type :: int
  names :: "u8 list"
  fileLength :: int

record 'c dev =
  messageID :: u16
  updateCommandFlag :: bool
  lostConnectionFlag :: bool
  updateinfo :: GetUpdateinfo
  userVersion :: "u8 list"
  queued :: nat
  userFirmwareSendCompleteFlag :: bool
  chip :: 'c
  net :: "(request \<Rightarrow> outcome) list"
  i2c :: "bool list"
  eeprom_log :: "u8 list list"

section \<open>C strings\<close>

text \<open>Copying a string with its terminator to an offset of a piece of memory; beyond its end is undefined.\<close>

definition c_str :: "u8 list \<Rightarrow> u8 list" where
  "c_str s = takeWhile (\<lambda>b. b \<noteq> 0) s"

definition strcpy :: "nat \<Rightarrow> u8 list \<Rightarrow> u8 list \<Rightarrow> u8 list option" where
  "strcpy off src mem =
     (let bs = c_str src @ [0]
      in if off + length bs \<le> length mem then Some (take off mem @ bs @ drop (off + length bs) mem) else None)"

section \<open>Requests\<close>

definition exchange :: "request \<Rightarrow> 'c dev \<Rightarrow> (outcome \<times> 'c dev) option" where
  "exchange r s = (case net s of [] \<Rightarrow> None | o1 # os \<Rightarrow> Some (o1 r, s\<lparr>net := os, messageID := messageID s + 1\<rparr>))"

fun register_loop :: "nat \<Rightarrow> 'c dev \<Rightarrow> (int \<times> 'c dev) option" where
  "register_loop 0 s = Some (-1, s)"
| "register_loop (Suc tryNum) s =
     do { (o1, s) \<leftarrow> exchange Register s;
          case o1 of
            SendFails \<Rightarrow> Some (-2, s)
          | NoReply \<Rightarrow> Some (-3, s)
          | Malformed \<Rightarrow> Some (-4, s)
          | Answer a \<Rightarrow>
              if success a \<noteq> None \<and> (success a = Some True \<or> already_registered a) then Some (0, s)
              else register_loop tryNum s }"

definition deviceRegister :: "'c dev \<Rightarrow> (int \<times> 'c dev) option" where
  "deviceRegister s = register_loop 5 s"

fun status_loop :: "nat \<Rightarrow> int \<Rightarrow> 'c dev \<Rightarrow> (int \<times> 'c dev) option" where
  "status_loop 0 status s = Some (-1, s)"
| "status_loop (Suc tryNum) status s =
     do { (o1, s) \<leftarrow> exchange (Status status) s;
          case o1 of
            SendFails \<Rightarrow> Some (-2, s\<lparr>lostConnectionFlag := True\<rparr>)
          | NoReply \<Rightarrow> Some (-3, s\<lparr>lostConnectionFlag := True\<rparr>)
          | Malformed \<Rightarrow> Some (-4, s)
          | Answer a \<Rightarrow>
              if success a = Some True
              then
                let s = (if command_update a then s\<lparr>updateCommandFlag := True\<rparr> else s)
                in Some (0, if lostConnectionFlag s then s\<lparr>lostConnectionFlag := False\<rparr> else s)
              else status_loop tryNum status s }"

definition deviceStatusReport :: "int \<Rightarrow> 'c dev \<Rightarrow> (int \<times> 'c dev) option" where
  "deviceStatusReport status s = status_loop 5 status s"

text \<open>The file names are copied one after the other; a name that is too long is skipped.\<close>

fun copy_files :: "nat \<Rightarrow> u8 list list \<Rightarrow> u8 list \<Rightarrow> u8 list option" where
  "copy_files i [] mem = Some mem"
| "copy_files i (f # fs) mem =
     do { mem \<leftarrow> (if length (c_str f) \<le> FILENAME_MAX_LEN
                 then strcpy (HDR_NAME_8CHAR_LEN + i * FILENAME_MAX_LEN) f mem else Some mem);
          copy_files (i + 1) fs mem }"

definition clear_info :: GetUpdateinfo where
  "clear_info = \<lparr>u_type = 0, names = replicate (HDR_NAME_8CHAR_LEN + 4 * FILENAME_MAX_LEN) 0, fileLength = 0\<rparr>"

fun info_loop :: "nat \<Rightarrow> 'c dev \<Rightarrow> (int \<times> 'c dev) option" where
  "info_loop 0 s = Some (-1, s)"
| "info_loop (Suc tryNum) s =
     do { (o1, s) \<leftarrow> exchange NewVersion s;
          case o1 of
            SendFails \<Rightarrow> Some (-2, s)
          | NoReply \<Rightarrow> Some (-3, s)
          | Malformed \<Rightarrow> Some (-4, s)
          | Answer a \<Rightarrow>
              if success a = Some True
              then
                let s = s\<lparr>updateinfo := clear_info\<rparr>
                in case (j_type a, j_version a) of
                     (Some t, Some v) \<Rightarrow>
                       do { mem \<leftarrow> (if length (c_str v) \<le> HDR_NAME_8CHAR_LEN
                                    then strcpy 0 v (names clear_info) else Some (names clear_info));
                            mem \<leftarrow> copy_files 0 (j_files a) mem;
                            Some (0, s\<lparr>updateinfo := clear_info\<lparr>u_type := t, names := mem\<rparr>\<rparr>) }
                   | _ \<Rightarrow> Some (-5, s)
              else info_loop tryNum s }"

definition deviceGetUpdateinfo :: "'c dev \<Rightarrow> (int \<times> 'c dev) option" where
  "deviceGetUpdateinfo s = info_loop 5 s"

definition newVersionNo :: "GetUpdateinfo \<Rightarrow> u8 list" where
  "newVersionNo u = c_str (names u)"

definition fileName0 :: "GetUpdateinfo \<Rightarrow> u8 list" where
  "fileName0 u = c_str (drop HDR_NAME_8CHAR_LEN (names u))"

section \<open>The download\<close>

text \<open>A flag is an \<open>int\<close> in the order of its bytes in memory.\<close>

definition flash32 :: "u8 list \<Rightarrow> u32" where
  "flash32 bs = ucast (bs ! 0) OR push_bit 8 (ucast (bs ! 1)) OR push_bit 16 (ucast (bs ! 2)) OR push_bit 24 (ucast (bs ! 3))"

definition flash32_bytes :: "u32 \<Rightarrow> u8 list" where
  "flash32_bytes x = [ucast x, ucast (drop_bit 8 x), ucast (drop_bit 16 x), ucast (drop_bit 24 x)]"

fun clear_blocks :: "'c bus \<Rightarrow> flash25spi \<Rightarrow> u32 \<Rightarrow> nat \<Rightarrow> nat \<Rightarrow> 'c \<Rightarrow> 'c option" where
  "clear_blocks bus f addr i 0 c = Some c"
| "clear_blocks bus f addr i (Suc n) c =
     do { c \<leftarrow> clearBlock bus f (addr + of_nat i * USER_IMG_MAP_BLOCK_SIZE) c; clear_blocks bus f addr (i + 1) n c }"

text \<open>
  The buffer for the image: the first whose flag is clear. It is marked, and the other one is erased. The result is
  the address for the image and the address of the other buffer, or twice the value of a cleared flag.
\<close>

definition take_buffer :: "'c bus \<Rightarrow> flash25spi \<Rightarrow> nat \<Rightarrow> 'c \<Rightarrow> (u32 \<times> u32 \<times> 'c) option" where
  "take_buffer bus f i c =
     do { (_, c) \<leftarrow> flash_write bus f (USER_IMG_MAP_BUF_START + of_nat i * USER_IMG_MAP_BUF_SIZE) USER_IMG_MAP_BUF_FLAG_LEN
             (flash32_bytes USER_IMG_MAP_BUF_VAILE_FLAG) c;
          let (blockAddr, brotherBlockAddr) =
            (if i = 0 then (USER_IMG_MAP_BUF_START + USER_IMG_MAP_BUF_FLAG_LEN, USER_IMG_MAP_BUF_START + USER_IMG_MAP_BUF_SIZE)
             else (USER_IMG_MAP_BUF_START + USER_IMG_MAP_BUF_SIZE + USER_IMG_MAP_BUF_FLAG_LEN, USER_IMG_MAP_BUF_START));
          c \<leftarrow> clear_blocks bus f brotherBlockAddr 0 (unat (USER_IMG_MAP_BUF_SIZE div USER_IMG_MAP_BLOCK_SIZE)) c;
          Some (blockAddr, brotherBlockAddr, c) }"

fun find_buffer :: "'c bus \<Rightarrow> flash25spi \<Rightarrow> nat list \<Rightarrow> 'c \<Rightarrow> (u32 \<times> u32 \<times> 'c) option" where
  "find_buffer bus f [] c = Some (USER_IMG_MAP_BUF_CLEAR_FLAG, USER_IMG_MAP_BUF_CLEAR_FLAG, c)"
| "find_buffer bus f (i # is) c =
     (let (r, c) = flash_read bus f (USER_IMG_MAP_BUF_START + of_nat i * USER_IMG_MAP_BUF_SIZE) USER_IMG_MAP_BUF_FLAG_LEN c
      in case r of
           None \<Rightarrow> find_buffer bus f is c
         | Some bs \<Rightarrow> if flash32 bs = USER_IMG_MAP_BUF_CLEAR_FLAG then take_buffer bus f i c else find_buffer bus f is c)"

text \<open>The value of the block option: number and size, with the bytes swapped.\<close>

definition coapBlockValue :: "int \<Rightarrow> u16" where
  "coapBlockValue n =
     (let v = push_bit 4 (word_of_int n) OR 0x6 :: u16
      in push_bit 8 (v AND 0xFF) OR (drop_bit 8 v AND 0xFF))"

partial_function (option) download_loop ::
  "'c bus \<Rightarrow> flash25spi \<Rightarrow> u32 \<Rightarrow> int \<Rightarrow> (u16 \<Rightarrow> request) \<Rightarrow> int \<Rightarrow> int \<Rightarrow> int \<Rightarrow> int \<Rightarrow> 'c dev \<Rightarrow> (int \<times> 'c dev) option"
where
  "download_loop bus f blockAddr status req coapBlockNum nextCoapBlock tryNum1 tryNum2 s =
     do { (_, s) \<leftarrow> (if coapBlockNum mod 8 = 0 then deviceStatusReport status s else Some (0, s));
          (o1, s) \<leftarrow> exchange (req (coapBlockValue coapBlockNum)) s;
          case o1 of
            SendFails \<Rightarrow> Some (-2, s)
          | NoReply \<Rightarrow>
              if tryNum1 \<noteq> 0
              then if nextCoapBlock \<noteq> 0
                   then download_loop bus f blockAddr status req coapBlockNum nextCoapBlock (tryNum1 - 1) tryNum2 s
                   else Some (0, s)
              else Some (-3, s)
          | Malformed \<Rightarrow> Some (-4, s)
          | Answer a \<Rightarrow>
              if length (payload a) \<noteq> BYTEPAYLOADLEN \<and> success a \<noteq> None
              then if tryNum2 \<noteq> 0
                   then download_loop bus f blockAddr status req coapBlockNum 1 5 (tryNum2 - 1) s
                   else Some (-5, s)
              else
                let s = s\<lparr>updateinfo := (updateinfo s)\<lparr>fileLength := fileLength (updateinfo s) + int (length (payload a))\<rparr>\<rparr>
                in do {
                  (ok, c) \<leftarrow> flash_write bus f (blockAddr + word_of_int (coapBlockNum * 1024)) (of_nat (length (payload a))) (payload a) (chip s);
                  let s = s\<lparr>chip := c\<rparr>;
                  if \<not> ok then Some (-5, s)
                  else if block2_next a \<noteq> 0
                  then download_loop bus f blockAddr status req (coapBlockNum + 1) (block2_next a) 5 5 s
                  else Some (0, s) } }"

definition deviceGetSaveUpdatefile :: "'c bus \<Rightarrow> flash25spi \<Rightarrow> int \<Rightarrow> 'c dev \<Rightarrow> (int \<times> 'c dev) option" where
  "deviceGetSaveUpdatefile bus garbage status s =
     (let req = (\<lambda>v. Downfile v (u_type (updateinfo s)) (fileName0 (updateinfo s)) (newVersionNo (updateinfo s)));
          (f, c) = flash25spi_init bus garbage (chip s)
      in do {
        (blockAddr, brotherBlockAddr, c) \<leftarrow> find_buffer bus f [0, 1] c;
        let s = s\<lparr>chip := c\<rparr>;
        if blockAddr = USER_IMG_MAP_BUF_CLEAR_FLAG \<or> brotherBlockAddr = USER_IMG_MAP_BUF_CLEAR_FLAG then Some (-1, s)
        else download_loop bus f blockAddr status req 0 0 5 5 s })"

section \<open>The version in the EEPROM\<close>

text \<open>Polling for the acknowledgement of the EEPROM.\<close>

fun ack_poll :: "bool list \<Rightarrow> bool list option" where
  "ack_poll [] = None"
| "ack_poll (acked # acks) = (if acked then Some acks else ack_poll acks)"

text \<open>
  The bytes for the EEPROM: two of the address, the offset of the user software version in the header, and eight of the
  version, in a buffer of ten.
\<close>

definition version_offset :: nat where
  "version_offset = 4 + HDR_NAME_4CHAR_LEN + HDR_NAME_8CHAR_LEN + HDR_NAME_4CHAR_LEN + HDR_NAME_8CHAR_LEN + HDR_NAME_4CHAR_LEN"

definition version_data :: "u8 list \<Rightarrow> u8 list option" where
  "version_data version =
     (let data = [of_nat (version_offset div 256), of_nat version_offset] @ replicate HDR_NAME_8CHAR_LEN 0
      in if length (c_str version) \<le> HDR_NAME_8CHAR_LEN then strcpy 2 version data else Some data)"

text \<open>The log records what has been written.\<close>

fun version_loop :: "nat \<Rightarrow> u8 list \<Rightarrow> u8 list \<Rightarrow> 'c dev \<Rightarrow> (int \<times> 'c dev) option" where
  "version_loop 0 data version s = Some (-1, s)"
| "version_loop (Suc n) data version s =
     (case i2c s of
        [] \<Rightarrow> None
      | ok # acks \<Rightarrow>
          if \<not> ok then version_loop n data version (s\<lparr>i2c := acks\<rparr>)
          else do {
            acks \<leftarrow> ack_poll acks;
            mem \<leftarrow> (if length (c_str version) \<le> HDR_NAME_8CHAR_LEN then strcpy 0 version (userVersion s) else Some (userVersion s));
            Some (0, s\<lparr>i2c := acks, eeprom_log := eeprom_log s @ [data], userVersion := mem\<rparr>) })"

definition updateUserVersionNo :: "u8 list \<Rightarrow> 'c dev \<Rightarrow> (int \<times> 'c dev) option" where
  "updateUserVersionNo version s = do { data \<leftarrow> version_data version; version_loop 3 data version s }"

section \<open>The task\<close>

text \<open>A call that is repeated while it fails, at most \<open>n\<close> more times.\<close>

fun retry :: "nat \<Rightarrow> ('c dev \<Rightarrow> (int \<times> 'c dev) option) \<Rightarrow> 'c dev \<Rightarrow> (int \<times> 'c dev) option" where
  "retry 0 f s = f s"
| "retry (Suc n) f s = do { (r, s) \<leftarrow> f s; if r \<noteq> 0 then retry n f s else Some (r, s) }"

text \<open>
  One pass of the loop; \<open>queued\<close> counts the messages to the sender of the image. The queue has room for
  one (\<open>Queue<char, 1>\<close> in \<open>main.cpp\<close>); the put does not wait, and a message for which there is no room is lost.
\<close>

definition update_step :: "'c bus \<Rightarrow> flash25spi \<Rightarrow> DeviceUpdateStep \<times> 'c dev \<Rightarrow> (DeviceUpdateStep \<times> 'c dev) option" where
  "update_step bus garbage x =
     (case x of (step, s) \<Rightarrow>
       (case step of
          DEVICE_UPDATE_IDELING \<Rightarrow>
            do { (r, s) \<leftarrow> retry 5 (deviceStatusReport 1) s;
                 Some (if r = 0 \<and> updateCommandFlag s then (DEVICE_UPDATE_COMMAND, s\<lparr>updateCommandFlag := False\<rparr>)
                       else (DEVICE_UPDATE_IDELING, s)) }
        | DEVICE_UPDATE_COMMAND \<Rightarrow>
            do { (r, s) \<leftarrow> retry 5 deviceGetUpdateinfo s;
                 Some (if r = 0
                       then (if u_type (updateinfo s) = 1 then USER_DEVICE_UPDATE_ONGOING
                             else if u_type (updateinfo s) = 0 then MYSELF_DEVICE_UPDATE_ONGOING
                             else DEVICE_UPDATE_COMMAND, s)
                       else (DEVICE_UPDATE_COMMAND, s)) }
        | USER_DEVICE_UPDATE_ONGOING \<Rightarrow>
            do { (r, s) \<leftarrow> retry 5 (deviceGetSaveUpdatefile bus garbage 2) s;
                 Some (if r = 0 then (USER_DEVICE_UPDATE_COMPLETE, s\<lparr>queued := if queued s < 1 then queued s + 1 else queued s\<rparr>)
                       else (USER_DEVICE_UPDATE_ONGOING, s)) }
        | USER_DEVICE_UPDATE_COMPLETE \<Rightarrow>
            do { (_, s) \<leftarrow> retry 5 (deviceStatusReport 2) s;
                 if userFirmwareSendCompleteFlag s
                 then do {
                   (r, s) \<leftarrow> updateUserVersionNo (newVersionNo (updateinfo s)) (s\<lparr>userFirmwareSendCompleteFlag := False\<rparr>);
                   (_, s) \<leftarrow> (if r = 0 then deviceRegister s else Some (0, s));
                   Some (DEVICE_UPDATE_IDELING, s) }
                 else Some (USER_DEVICE_UPDATE_COMPLETE, s) }
        | MYSELF_DEVICE_UPDATE_ONGOING \<Rightarrow> Some (MYSELF_DEVICE_UPDATE_ONGOING, s)
        | MYSELF_DEVICE_UPDATE_COMPLETE \<Rightarrow> Some (MYSELF_DEVICE_UPDATE_COMPLETE, s)))"

text \<open>The task registers, whatever comes of it, and enters the loop.\<close>

definition startRemoteUpdate :: "'c dev \<Rightarrow> (DeviceUpdateStep \<times> 'c dev) option" where
  "startRemoteUpdate s = do { (_, s) \<leftarrow> retry 120 deviceRegister s; Some (DEVICE_UPDATE_IDELING, s) }"

text \<open>
  The task and the task that sends the image take turns. The sender takes a message; in the end it reports that the
  image was sent, or it reports nothing. What it does with the flash is left open.
\<close>

datatype update_event = Pass | Sent | Not_sent

inductive update_trans :: "'c bus \<Rightarrow> flash25spi \<Rightarrow> update_event \<Rightarrow> DeviceUpdateStep \<times> 'c dev \<Rightarrow> DeviceUpdateStep \<times> 'c dev \<Rightarrow> bool"
  for bus :: "'c bus" and garbage :: flash25spi where
  pass: "update_step bus garbage x = Some y \<Longrightarrow> update_trans bus garbage Pass x y"
| sent: "0 < queued s \<Longrightarrow>
    update_trans bus garbage Sent (step, s) (step, s\<lparr>queued := queued s - 1, userFirmwareSendCompleteFlag := True, chip := c\<rparr>)"
| not_sent: "0 < queued s \<Longrightarrow> update_trans bus garbage Not_sent (step, s) (step, s\<lparr>queued := queued s - 1, chip := c\<rparr>)"

inductive update_run :: "'c bus \<Rightarrow> flash25spi \<Rightarrow> update_event list \<Rightarrow> DeviceUpdateStep \<times> 'c dev \<Rightarrow> DeviceUpdateStep \<times> 'c dev \<Rightarrow> bool"
  for bus :: "'c bus" and garbage :: flash25spi where
  stop: "update_run bus garbage [] x x"
| go: "update_trans bus garbage e x y \<Longrightarrow> update_run bus garbage es y z \<Longrightarrow> update_run bus garbage (e # es) x z"

inductive_cases update_passE: "update_trans bus garbage Pass x y"
inductive_simps update_run_Nil [simp]: "update_run bus garbage [] x y"
inductive_simps update_run_Cons: "update_run bus garbage (e # es) x y"

end
