(* ===== verification/Fw_Send.thy ===== *)
theory Fw_Send
  imports Fw_Update Bytes
begin

text \<open>
  Sending the downloaded image to the user's microcontroller: the serial protocol of
  \<open>USER/userfirmwarepro.cpp\<close> and the task \<open>userFirmwareSend\<close> of \<open>USER/main.cpp\<close>.

  The serial line is a script: for each frame sent, the bytes that arrive while the sender waits. The list
  \<open>wire\<close> records the frames sent. More received bytes than the receive buffer holds are undefined behaviour, \<open>None\<close>,
  as is the end of the script.
\<close>

section \<open>State\<close>

definition BAG_SIZE :: nat where "BAG_SIZE = 512"
definition UC_GET_VER :: u8 where "UC_GET_VER = 0xC0"
definition UC_WRITE_FLASH :: u8 where "UC_WRITE_FLASH = 0xC1"
definition UC_RUN_CODE :: u8 where "UC_RUN_CODE = 0xC2"

text \<open>The object, the global variable \<open>mask\<close> and the line; the 1024 bytes of \<open>recvMsg\<close> live within \<open>CheckCode\<close>.\<close>

record userfwpro =
  ubuf :: "u8 list"
  tbuf :: "u8 list"
  address :: u32
  cnt :: u32
  mask :: u32
  serial :: "(u8 list \<Rightarrow> u8 list) list"
  wire :: "u8 list list"

definition RECV_SIZE :: nat where "RECV_SIZE = 1024"

definition initial_mask :: u32 where "initial_mask = 0x20504149"

text \<open>The constructor clears the object; the mask is not part of it.\<close>

definition userfwpro_init :: "userfwpro \<Rightarrow> userfwpro" where
  "userfwpro_init u = u\<lparr>ubuf := replicate 1024 0, tbuf := replicate 4 0, address := 0, cnt := 0\<rparr>"

section \<open>Frames\<close>

definition checksum :: "u8 list \<Rightarrow> u8" where
  "checksum bs = sum_list bs"

definition frame_of :: "u8 list \<Rightarrow> u8 list" where
  "frame_of d =
     (let h = [0xF0, of_nat (length d div 0x100), of_nat (length d mod 0x100)] @ d
      in h @ [checksum h])"

text \<open>The first complete answer in the bytes received: a frame that is announced but incomplete ends the search.\<close>

fun find_answer :: "u8 list \<Rightarrow> u8 list option" where
  "find_answer [] = None"
| "find_answer (b # bs) =
     (if length (b # bs) \<le> 3 then None
      else if b = 0xA0
      then
        let l = unat (bs ! 0) * 0x100 + unat (bs ! 1)
        in if length (b # bs) < l + 4 then None
           else if checksum (take (l + 3) (b # bs)) = (b # bs) ! (l + 3) then Some (take l (drop 3 (b # bs)))
           else find_answer bs
      else find_answer bs)"

text \<open>Three attempts; the answer is copied to the front of the buffer, and its length returned.\<close>

fun check_loop :: "nat \<Rightarrow> u8 list \<Rightarrow> userfwpro \<Rightarrow> (int \<times> userfwpro) option" where
  "check_loop 0 d u = Some (-1, u)"
| "check_loop (Suc tries) d u =
     (case serial u of
        [] \<Rightarrow> None
      | line # lines \<Rightarrow>
          let u = u\<lparr>serial := lines, wire := wire u @ [frame_of d]\<rparr>;
              received = line (frame_of d)
          in if RECV_SIZE < length received then None
             else case find_answer received of
                    Some ans \<Rightarrow> Some (int (length ans), u\<lparr>ubuf := memcpy 0 ans (ubuf u)\<rparr>)
                  | None \<Rightarrow> check_loop tries d u)"

definition CheckCode :: "nat \<Rightarrow> userfwpro \<Rightarrow> (int \<times> userfwpro) option" where
  "CheckCode len u = check_loop 3 (take len (ubuf u)) u"

section \<open>Commands\<close>

text \<open>The string \<open>TheCut_IAP_V\<close>.\<close>

definition version_text :: "u8 list" where
  "version_text = [0x54, 0x68, 0x65, 0x43, 0x75, 0x74, 0x5F, 0x49, 0x41, 0x50, 0x5F, 0x56]"

fun strstr :: "u8 list \<Rightarrow> u8 list \<Rightarrow> bool" where
  "strstr [] t = (t = [])"
| "strstr (b # bs) t = (take (length t) (b # bs) = t \<or> strstr bs t)"

definition getUserVersion :: "userfwpro \<Rightarrow> (int \<times> userfwpro) option" where
  "getUserVersion u =
     do { (r, u) \<leftarrow> CheckCode 1 (u\<lparr>ubuf := (ubuf u)[0 := UC_GET_VER]\<rparr>);
          if r < 0 then Some (-1, u)
          else
            let u = u\<lparr>ubuf := (ubuf u)[unat (ubuf u ! 1) + 2 := 0]\<rparr>
            in Some (if strstr (c_str (ubuf u)) version_text then 0 else -2, u) }"

definition runUserFirmware :: "userfwpro \<Rightarrow> (int \<times> userfwpro) option" where
  "runUserFirmware u =
     do { (r, u) \<leftarrow> CheckCode 1 (u\<lparr>ubuf := (ubuf u)[0 := UC_RUN_CODE]\<rparr>);
          Some (if r < 0 then -1 else if ubuf u ! 1 = 0 then 0 else -2, u) }"

section \<open>A packet of the image\<close>

fun words :: "u8 list \<Rightarrow> u32 list" where
  "words (a # b # c # d # bs) = flash32 [a, b, c, d] # words bs"
| "words _ = []"

definition bytes :: "u32 list \<Rightarrow> u8 list" where
  "bytes ws = concat (map flash32_bytes ws)"

text \<open>Each word is combined with the word before it in the file, the first of a packet with the mask.\<close>

fun unmask :: "u32 \<Rightarrow> u32 list \<Rightarrow> u32 list \<times> u32" where
  "unmask m [] = ([], m)"
| "unmask m (w # ws) = (let (r, m') = unmask w ws in ((w XOR m) # r, m'))"

text \<open>Each word is combined with the one before it in the packet, from the last down to the second.\<close>

fun chain_words :: "u32 \<Rightarrow> u32 list \<Rightarrow> u32 list" where
  "chain_words p [] = []"
| "chain_words p (w # ws) = (w XOR p) # chain_words w ws"

definition write_header :: "u32 \<Rightarrow> nat \<Rightarrow> u8 list" where
  "write_header a n = [UC_WRITE_FLASH, ucast (a div 0x1000000), ucast (a div 0x10000), ucast (a div 0x100), ucast a,
     of_nat (n div 0x100), of_nat (n mod 0x100)]"

text \<open>
  The second word of the image is withheld: erased bytes go in its place, and the last packet writes it.
\<close>

definition prepare_packet :: "u8 list \<Rightarrow> userfwpro \<Rightarrow> userfwpro" where
  "prepare_packet pbuf u =
     (let (ws, m) = unmask (mask u) (words (take BAG_SIZE pbuf));
          u = u\<lparr>ubuf := memcpy 7 (bytes ws) (ubuf u), mask := m\<rparr>;
          u = (if cnt u = 0
               then u\<lparr>tbuf := take 4 (drop 11 (ubuf u)), ubuf := memcpy 11 (replicate 4 0xFF) (ubuf u), address := 0\<rparr> else u)
      in u\<lparr>ubuf := memcpy 7 (bytes (chain_words 0 (words (take BAG_SIZE (drop 7 (ubuf u)))))) (ubuf u)\<rparr>)"

definition transmit :: "int \<Rightarrow> userfwpro \<Rightarrow> (int \<times> userfwpro) option" where
  "transmit fileLen u =
     (if cnt u + word_of_int (fileLen mod int BAG_SIZE) < word_of_int (fileLen + int BAG_SIZE)
      then do {
        (r, u) \<leftarrow> CheckCode (BAG_SIZE + 7) (u\<lparr>ubuf := memcpy 0 (write_header (address u) BAG_SIZE) (ubuf u)\<rparr>);
        if r < 0 then Some (-1, u)
        else if ubuf u ! 7 = 0 then Some (-1, u)
        else Some (0, u\<lparr>cnt := cnt u + of_nat BAG_SIZE, address := address u + of_nat BAG_SIZE\<rparr>) }
      else do {
        (r, u) \<leftarrow> CheckCode (4 + 7) (u\<lparr>ubuf := memcpy 7 (tbuf u) (memcpy 0 (write_header 4 4) (ubuf u))\<rparr>);
        if r < 0 then Some (-1, u)
        else if ubuf u ! 7 = 0 then Some (-1, u)
        else Some (0, u) })"

definition sendUserFirmware :: "u8 list \<Rightarrow> int \<Rightarrow> userfwpro \<Rightarrow> (int \<times> userfwpro) option" where
  "sendUserFirmware pbuf fileLen u = transmit fileLen (prepare_packet pbuf u)"

section \<open>The task\<close>

text \<open>The buffer to send: the first whose flag is valid.\<close>

fun find_image :: "'c bus \<Rightarrow> flash25spi \<Rightarrow> nat list \<Rightarrow> 'c \<Rightarrow> u32 \<times> 'c" where
  "find_image bus f [] c = (USER_IMG_MAP_BUF_CLEAR_FLAG, c)"
| "find_image bus f (i # is) c =
     (let (r, c) = flash_read bus f (USER_IMG_MAP_BUF_START + of_nat i * USER_IMG_MAP_BUF_SIZE) USER_IMG_MAP_BUF_FLAG_LEN c
      in case r of
           None \<Rightarrow> find_image bus f is c
         | Some bs \<Rightarrow>
             if flash32 bs = USER_IMG_MAP_BUF_VAILE_FLAG
             then (if i = 0 then USER_IMG_MAP_BUF_START + USER_IMG_MAP_BUF_FLAG_LEN
                   else USER_IMG_MAP_BUF_START + USER_IMG_MAP_BUF_SIZE + USER_IMG_MAP_BUF_FLAG_LEN, c)
             else find_image bus f is c)"

text \<open>
  A packet that cannot be read, or that fails, is skipped. The length of the file is a sum of payload lengths and is not
  negative, so that the rounding of \<open>div\<close> and \<open>mod\<close> is that of the code.
\<close>

fun send_packets :: "'c bus \<Rightarrow> flash25spi \<Rightarrow> u32 \<Rightarrow> int \<Rightarrow> nat list \<Rightarrow> userfwpro \<Rightarrow> 'c \<Rightarrow> (userfwpro \<times> 'c) option" where
  "send_packets bus f blockAddr fileLen [] u c = Some (u, c)"
| "send_packets bus f blockAddr fileLen (j # js) u c =
     (let (r, c) = flash_read bus f (blockAddr + of_nat (j * BAG_SIZE)) (of_nat BAG_SIZE) c
      in case r of
           None \<Rightarrow> send_packets bus f blockAddr fileLen js u c
         | Some readBuf \<Rightarrow>
             do { (_, u) \<leftarrow> sendUserFirmware readBuf fileLen u; send_packets bus f blockAddr fileLen js u c })"

partial_function (option) await_version :: "userfwpro \<Rightarrow> userfwpro option" where
  "await_version u = do { (r, u) \<leftarrow> getUserVersion u; if r \<noteq> 0 then await_version u else Some u }"

text \<open>What the task does with a message; the first result says whether it goes on.\<close>

definition send_image :: "'c bus \<Rightarrow> flash25spi \<Rightarrow> userfwpro \<Rightarrow> 'c dev \<Rightarrow> (bool \<times> userfwpro \<times> 'c dev) option" where
  "send_image bus f u s =
     do { u \<leftarrow> await_version (userfwpro_init u);
          let (blockAddr, c) = find_image bus f [0, 1] (chip s);
          if blockAddr = USER_IMG_MAP_BUF_CLEAR_FLAG then Some (False, u, s\<lparr>chip := c\<rparr>)
          else do {
            let len = fileLength (updateinfo s);
            (u, c) \<leftarrow> send_packets bus f blockAddr len [0..<nat (len div int BAG_SIZE + 2)] u c;
            (r, u) \<leftarrow> runUserFirmware u;
            Some (True, u, s\<lparr>chip := c, userFirmwareSendCompleteFlag := (if r \<noteq> 0 then userFirmwareSendCompleteFlag s else True)\<rparr>) } }"

end
