(* ===== verification/Fw_Download.thy ===== *)
theory Fw_Download
  imports Fw_Update
begin

text \<open>
  The two image buffers of the serial flash and the download into them: which buffer an image goes to, and that the
  image arrives as the server sent it.
\<close>

section \<open>The two buffers\<close>

definition buf_flag :: "(nat \<Rightarrow> u8) \<Rightarrow> nat \<Rightarrow> u32" where
  "buf_flag m i = flash32 (mem_read m (i * 0x40000) 4)"

definition blank :: "(nat \<Rightarrow> u8) \<Rightarrow> nat \<Rightarrow> bool" where
  "blank m i \<longleftrightarrow> (\<forall>x. i * 0x40000 \<le> x \<and> x < (i + 1) * 0x40000 \<longrightarrow> m x = 0xff)"

text \<open>One buffer holds an image and the other is blank, or both are blank.\<close>

definition image_inv :: "(nat \<Rightarrow> u8) \<Rightarrow> bool" where
  "image_inv m \<longleftrightarrow> blank m 0 \<and> blank m 1 \<or> buf_flag m 0 = USER_IMG_MAP_BUF_VAILE_FLAG \<and> blank m 1 \<or>
     blank m 0 \<and> buf_flag m 1 = USER_IMG_MAP_BUF_VAILE_FLAG"

lemma read4: "mem_read m a 4 = [m a, m (a + 1), m (a + 2), m (a + 3)]"
  by (simp add: mem_read_def upt_rec eval_nat_numeral)

lemma flash32_vaile: "flash32 (flash32_bytes USER_IMG_MAP_BUF_VAILE_FLAG) = USER_IMG_MAP_BUF_VAILE_FLAG"
  by (simp add: flash32_def flash32_bytes_def USER_IMG_MAP_BUF_VAILE_FLAG_def)

lemma blank_flag: "blank m i \<Longrightarrow> buf_flag m i = USER_IMG_MAP_BUF_CLEAR_FLAG"
  by (simp add: blank_def buf_flag_def read4 flash32_def USER_IMG_MAP_BUF_CLEAR_FLAG_def)

lemma vaile_not_clear: "USER_IMG_MAP_BUF_VAILE_FLAG \<noteq> USER_IMG_MAP_BUF_CLEAR_FLAG"
  by (simp add: USER_IMG_MAP_BUF_VAILE_FLAG_def USER_IMG_MAP_BUF_CLEAR_FLAG_def)

lemma ff_and [simp]: "(0xff :: u8) AND b = b"
proof -
  have "(0xff :: u8) = - 1"
    by simp
  then show ?thesis
    by (simp only: and.left_neutral)
qed

lemma program_blank:
  assumes "blank m i" and "i * 0x40000 \<le> a" "a + length bs \<le> (i + 1) * 0x40000"
  shows "mem_read (mem_program m a bs) a (length bs) = bs"
  using assms by (intro nth_equalityI) (simp_all add: mem_read_def mem_program_def blank_def)

section \<open>Erasing a buffer\<close>

definition mem_clear :: "(nat \<Rightarrow> u8) \<Rightarrow> nat set \<Rightarrow> nat \<Rightarrow> u8" where
  "mem_clear m S = (\<lambda>x. if x div 0x10000 \<in> S then 0xff else m x)"

lemma clear_blocks_refines:
  assumes chip: "w25q64 bus idle armed busy left" and f: "f_blockSize f = 0x8000"
  shows "unat addr + (i + n) * 0x8000 \<le> 0x800000 \<Longrightarrow> idle m c \<Longrightarrow>
    \<exists>c'. clear_blocks bus f addr i n c = Some c' \<and>
      idle (mem_clear m ((\<lambda>j. (unat addr + j * 0x8000) div 0x10000) ` {i..<i + n})) c'"
proof (induction n arbitrary: i m c)
  case 0
  then show ?case
    by (simp add: mem_clear_def)
next
  case (Suc n)
  let ?a = "addr + of_nat i * USER_IMG_MAP_BLOCK_SIZE"
  let ?S = "(\<lambda>j. (unat addr + j * 0x8000) div 0x10000) ` {i + 1..<i + 1 + n}"
  have a: "unat ?a = unat addr + i * 0x8000"
  proof -
    have "unat (of_nat i * USER_IMG_MAP_BLOCK_SIZE) = i * 0x8000"
      using Suc.prems(1) by (simp add: USER_IMG_MAP_BLOCK_SIZE_def unat_word_ariths unat_of_nat)
    then show ?thesis
      using Suc.prems(1) by (simp add: unat_word_ariths)
  qed
  have "unat ?a < 0x800000"
    using Suc.prems(1) unfolding a by simp
  then obtain c1 where c1: "clearBlock bus f ?a c = Some c1" "idle (mem_erase m 0x10000 (unat ?a)) c1"
    using clearBlock_refines [OF chip f _ Suc.prems(2)] by blast
  have "unat addr + (i + 1 + n) * 0x8000 \<le> 0x800000"
    using Suc.prems(1) by simp
  from Suc.IH [OF this c1(2)] obtain c2 where c2: "clear_blocks bus f addr (i + 1) n c1 = Some c2"
      "idle (mem_clear (mem_erase m 0x10000 (unat ?a)) ?S) c2"
    by blast
  have "{i..<i + Suc n} = insert i {i + 1..<i + 1 + n}"
    by auto
  then have "mem_clear (mem_erase m 0x10000 (unat ?a)) ?S =
      mem_clear m ((\<lambda>j. (unat addr + j * 0x8000) div 0x10000) ` {i..<i + Suc n})"
    by (simp add: mem_clear_def mem_erase_def a fun_eq_iff del: atLeastLessThan_iff)
  with c1 c2 show ?case
    by simp
qed

text \<open>Eight blocks of the driver are the whole buffer.\<close>

lemma buffer_blocks: "(\<lambda>j. (b * 0x40000 + j * 0x8000) div 0x10000) ` {0..<0 + 8} = {4 * b..<4 * b + 4 :: nat}"
proof -
  have "(b * 0x40000 + j * 0x8000) div 0x10000 = 4 * b + j div 2" for j :: nat
  proof -
    have "b * 0x40000 + j * 0x8000 = (8 * b + j) * 0x8000"
      by simp
    then show ?thesis
      using div_mult2_eq [of "(8 * b + j) * 0x8000" "0x8000" 2] by simp
  qed
  moreover have "4 * b + k \<in> (\<lambda>j. 4 * b + j div 2) ` {0..<8}" if "k < 4" for k
    by (rule image_eqI [of _ _ "2 * k"]) (use that in auto)
  then have "(\<lambda>j. 4 * b + j div 2) ` {0..<8} = {4 * b..<4 * b + 4}"
    by (fastforce simp: le_iff_add)
  ultimately show ?thesis
    by simp
qed

definition mem_blank :: "(nat \<Rightarrow> u8) \<Rightarrow> nat \<Rightarrow> nat \<Rightarrow> u8" where
  "mem_blank m b = (\<lambda>x. if x div 0x40000 = b then 0xff else m x)"

lemma clear_buffer:
  assumes chip: "w25q64 bus idle armed busy left" and b: "b < 2" "unat addr = b * 0x40000" and i: "idle m c"
  shows "\<exists>c'. clear_blocks bus W25Q64 addr 0 8 c = Some c' \<and> idle (mem_blank m b) c'"
proof -
  have "unat addr + (0 + 8) * 0x8000 \<le> 0x800000"
    using b by simp
  from clear_blocks_refines [OF chip _ this i, of W25Q64]
  obtain c' where c': "clear_blocks bus W25Q64 addr 0 8 c = Some c'"
      "idle (mem_clear m ((\<lambda>j. (unat addr + j * 0x8000) div 0x10000) ` {0..<0 + 8})) c'"
    by (auto simp: W25Q64_def)
  have "x div 0x10000 \<in> {4 * b..<4 * b + 4} \<longleftrightarrow> x div 0x40000 = b" for x
    using div_mult2_eq [of x "0x10000" 4] by auto
  then have "mem_clear m ((\<lambda>j. (unat addr + j * 0x8000) div 0x10000) ` {0..<0 + 8}) = mem_blank m b"
    unfolding b(2) buffer_blocks mem_clear_def mem_blank_def by presburger
  with c' show ?thesis
    by metis
qed

section \<open>Choosing the buffer\<close>

text \<open>The buffer is marked and its brother erased.\<close>

definition marked :: "(nat \<Rightarrow> u8) \<Rightarrow> nat \<Rightarrow> nat \<Rightarrow> u8" where
  "marked m i = mem_blank (mem_program m (i * 0x40000) (flash32_bytes USER_IMG_MAP_BUF_VAILE_FLAG)) (1 - i)"

lemma blank_mem_blank: "blank (mem_blank m b) b"
  by (auto simp: blank_def mem_blank_def)

lemma marked_other: "blank (marked m i) (1 - i)"
  unfolding marked_def by (rule blank_mem_blank)

lemma length_le32 [simp]: "length (flash32_bytes x) = 4"
  by (simp add: flash32_bytes_def)

text \<open>Inside the buffer the mark is the only thing written.\<close>

lemma marked_inside:
  assumes "i < 2" "blank m i" and "i * 0x40000 \<le> x" "x < (i + 1) * 0x40000"
  shows "marked m i x = (if x < i * 0x40000 + 4 then flash32_bytes USER_IMG_MAP_BUF_VAILE_FLAG ! (x - i * 0x40000) else 0xff)"
proof -
  have d: "x div 0x40000 = i"
    using assms(3,4) by (intro div_nat_eqI) simp_all
  have "i \<noteq> 1 - i"
    using assms(1) by arith
  then have "x div 0x40000 \<noteq> 1 - i"
    unfolding d .
  with assms(2-4) show ?thesis
    by (simp add: marked_def mem_blank_def mem_program_def blank_def)
qed

lemma program_flag:
  assumes "i * 0x40000 + 4 \<le> a" "\<And>j. j < 4 \<Longrightarrow> m (i * 0x40000 + j) = flash32_bytes USER_IMG_MAP_BUF_VAILE_FLAG ! j"
  shows "buf_flag (mem_program m a bs) i = USER_IMG_MAP_BUF_VAILE_FLAG"
proof -
  have "mem_read (mem_program m a bs) (i * 0x40000) 4 = flash32_bytes USER_IMG_MAP_BUF_VAILE_FLAG"
    using assms by (intro nth_equalityI) (simp_all add: mem_read_def mem_program_def)
  then show ?thesis
    unfolding buf_flag_def by (simp only: flash32_vaile)
qed

lemma buffer_address:
  assumes "i < 2"
  shows "unat (USER_IMG_MAP_BUF_START + of_nat i * USER_IMG_MAP_BUF_SIZE) = i * 0x40000"
  using assms by (simp add: USER_IMG_MAP_BUF_START_def USER_IMG_MAP_BUF_SIZE_def unat_word_ariths unat_of_nat)

text \<open>The mark is written first; what is left is to erase the brother.\<close>

lemma take_buffer_marks:
  assumes chip: "w25q64 bus idle armed busy left" and i: "i < 2" and c: "idle m c"
  shows "\<exists>c1. idle (mem_program m (i * 0x40000) (flash32_bytes USER_IMG_MAP_BUF_VAILE_FLAG)) c1 \<and>
    take_buffer bus W25Q64 i c =
      map_option (\<lambda>c2. (of_nat (i * 0x40000 + 4), of_nat ((1 - i) * 0x40000), c2)) (clear_blocks bus W25Q64 (of_nat ((1 - i) * 0x40000)) 0 8 c1)"
proof -
  let ?a = "USER_IMG_MAP_BUF_START + of_nat i * USER_IMG_MAP_BUF_SIZE"
  let ?v = "flash32_bytes USER_IMG_MAP_BUF_VAILE_FLAG"
  have "unat ?a + length ?v \<le> 0x800000"
    using i by (simp add: buffer_address)
  from flash_write_refines [OF chip _ _ this c, of W25Q64]
  obtain c1 where c1: "flash_write bus W25Q64 ?a USER_IMG_MAP_BUF_FLAG_LEN ?v c = Some (True, c1)"
      "idle (mem_program m (i * 0x40000) ?v) c1"
    using i by (auto simp: W25Q64_def buffer_address USER_IMG_MAP_BUF_FLAG_LEN_def)
  have n: "unat (USER_IMG_MAP_BUF_SIZE div USER_IMG_MAP_BLOCK_SIZE) = 8"
    by (simp add: USER_IMG_MAP_BUF_SIZE_def USER_IMG_MAP_BLOCK_SIZE_def)
  have "i = 0 \<or> i = 1"
    using i by auto
  with c1 show ?thesis
    by (intro exI [of _ c1]) (auto simp: take_buffer_def n USER_IMG_MAP_BUF_START_def USER_IMG_MAP_BUF_SIZE_def
        USER_IMG_MAP_BUF_FLAG_LEN_def USER_IMG_MAP_BLOCK_SIZE_def map_option_case split: option.splits)
qed

lemma clear_brother:
  assumes chip: "w25q64 bus idle armed busy left" and i: "i < 2"
    and c: "idle (mem_program m (i * 0x40000) (flash32_bytes USER_IMG_MAP_BUF_VAILE_FLAG)) c"
  shows "\<exists>c'. clear_blocks bus W25Q64 (of_nat ((1 - i) * 0x40000)) 0 8 c = Some c' \<and> idle (marked m i) c'"
proof -
  have "1 - i < 2" "unat (of_nat ((1 - i) * 0x40000) :: u32) = (1 - i) * 0x40000"
    using unat_of_nat_u32 [of "(1 - i) * 0x40000"] by simp_all
  from clear_buffer [OF chip this c] show ?thesis
    unfolding marked_def .
qed

lemma take_buffer_refines:
  assumes chip: "w25q64 bus idle armed busy left" and i: "i < 2" and c: "idle m c"
  shows "\<exists>c'. take_buffer bus W25Q64 i c = Some (of_nat (i * 0x40000 + 4), of_nat ((1 - i) * 0x40000), c') \<and> idle (marked m i) c'"
  using take_buffer_marks [OF assms] clear_brother [OF chip i] by fastforce

lemma flag_read:
  assumes chip: "w25q64 bus idle armed busy left" and i: "i < 2" and c: "idle m c"
  shows "\<exists>c' bs. flash_read bus W25Q64 (USER_IMG_MAP_BUF_START + of_nat i * USER_IMG_MAP_BUF_SIZE) USER_IMG_MAP_BUF_FLAG_LEN c =
      (Some bs, c') \<and> idle m c' \<and> flash32 bs = buf_flag m i"
proof -
  let ?a = "USER_IMG_MAP_BUF_START + of_nat i * USER_IMG_MAP_BUF_SIZE"
  have l: "unat USER_IMG_MAP_BUF_FLAG_LEN = 4"
    by (simp add: USER_IMG_MAP_BUF_FLAG_LEN_def)
  have "unat ?a + unat USER_IMG_MAP_BUF_FLAG_LEN \<le> 0x800000"
    using i by (simp add: buffer_address l)
  from flash_read_refines [OF chip _ this _ c, of W25Q64] show ?thesis
    by (auto simp: W25Q64_def buffer_address [OF i] l buf_flag_def)
qed

text \<open>One step of the search.\<close>

lemma find_buffer_step:
  assumes chip: "w25q64 bus idle armed busy left" and i: "i < 2" and c: "idle m c"
  shows "\<exists>c'. idle m c' \<and> find_buffer bus W25Q64 (i # is) c =
    (if buf_flag m i = USER_IMG_MAP_BUF_CLEAR_FLAG then take_buffer bus W25Q64 i c' else find_buffer bus W25Q64 is c')"
  using flag_read [OF chip i c] by (auto simp: Let_def split_def)

lemma find_buffer_takes:
  assumes chip: "w25q64 bus idle armed busy left" and c: "idle m c"
    and i: "i < 2" "blank m i" "i = 1 \<Longrightarrow> buf_flag m 0 \<noteq> USER_IMG_MAP_BUF_CLEAR_FLAG"
  shows "\<exists>c'. idle m c' \<and> find_buffer bus W25Q64 [0, 1] c = take_buffer bus W25Q64 i c'"
proof (cases "i = 0")
  case True
  then show ?thesis
    using find_buffer_step [OF chip _ c, of 0 "[1]"] blank_flag [OF i(2)] by auto
next
  case False
  then have "i = 1"
    using i(1) by arith
  with i have i: "i = 1" "blank m 1" "buf_flag m 0 \<noteq> USER_IMG_MAP_BUF_CLEAR_FLAG"
    by auto
  obtain c1 where c1: "idle m c1" "find_buffer bus W25Q64 [0, 1] c = find_buffer bus W25Q64 [1] c1"
    using find_buffer_step [OF chip _ c, of 0 "[1]"] i(3) by auto
  then show ?thesis
    using find_buffer_step [OF chip _ c1(1), of 1 "[]"] blank_flag [OF i(2)] \<open>i = 1\<close> by auto
qed

lemma find_buffer_refines:
  assumes chip: "w25q64 bus idle armed busy left" and m: "image_inv m" and c: "idle m c"
  shows "\<exists>i c'. i < 2 \<and> blank m i \<and> idle (marked m i) c' \<and>
    find_buffer bus W25Q64 [0, 1] c = Some (of_nat (i * 0x40000 + 4), of_nat ((1 - i) * 0x40000), c')"
proof -
  obtain i where i: "i < 2" "blank m i" "i = 1 \<Longrightarrow> buf_flag m 0 \<noteq> USER_IMG_MAP_BUF_CLEAR_FLAG"
  proof (cases "blank m 0")
    case True
    with that [of 0] show thesis
      by simp
  next
    case False
    with m vaile_not_clear that [of 1] show thesis
      by (auto simp: image_inv_def)
  qed
  obtain c1 where "idle m c1" "find_buffer bus W25Q64 [0, 1] c = take_buffer bus W25Q64 i c1"
    using find_buffer_takes [OF chip c i] by blast
  with take_buffer_refines [OF chip i(1)] i show ?thesis
    by metis
qed

section \<open>The server\<close>

text \<open>The block number a server reads from the option, and the block of the file it stands for.\<close>

definition block_number :: "u16 \<Rightarrow> nat" where
  "block_number v = unat (drop_bit 4 (push_bit 8 (v AND 0xFF) OR (drop_bit 8 v AND 0xFF)))"

definition chunk :: "u8 list \<Rightarrow> nat \<Rightarrow> u8 list" where
  "chunk file k = take 1024 (drop (1024 * k) file)"

text \<open>
  A server that has the file: when it answers a request for a block, it sends that block, which is no JSON object with
  a member \<open>success\<close>, and says whether more follow. Requests and answers may be lost or damaged.
\<close>

definition serves_file :: "u8 list \<Rightarrow> (request \<Rightarrow> outcome) \<Rightarrow> bool" where
  "serves_file file f \<longleftrightarrow> (\<forall>v t n ver a. f (Downfile v t n ver) = Answer a \<longrightarrow>
     success a = None \<and> payload a = chunk file (block_number v) \<and>
     (block2_next a \<noteq> 0 \<longleftrightarrow> 1024 * (block_number v + 1) < length file))"

lemma block_number_value:
  assumes "k < 4096"
  shows "block_number (coapBlockValue (int k)) = k"
proof -
  define w :: u16 where "w = push_bit 4 (of_nat k) OR 0x6"
  have ff: "(0xFF :: u16) = mask 8"
    by (simp add: mask_eq_exp_minus_1)
  have c: "coapBlockValue (int k) = push_bit 8 (w AND 0xFF) OR (drop_bit 8 w AND 0xFF)"
    by (simp add: coapBlockValue_def w_def)
  have "push_bit 8 ((push_bit 8 (w AND 0xFF) OR (drop_bit 8 w AND 0xFF)) AND 0xFF) OR
      (drop_bit 8 (push_bit 8 (w AND 0xFF) OR (drop_bit 8 w AND 0xFF)) AND 0xFF) = w"
    unfolding ff by (rule bit_word_eqI) (auto simp: bit_simps simp del: push_bit_mask_eq)
  moreover have "drop_bit 4 w = of_nat k"
  proof -
    have "drop_bit 4 w = drop_bit 4 (push_bit 4 (of_nat k))"
      by (simp add: w_def drop_bit_or)
    moreover have "unat (push_bit 4 (of_nat k) :: u16) = 16 * k"
      using assms by (simp add: push_bit_eq_mult unat_word_ariths unat_of_nat)
    ultimately have "unat (drop_bit 4 w) = k"
      by (simp add: drop_bit_eq_div unat_div)
    then show ?thesis
      by (metis of_nat_unat ucast_id)
  qed
  ultimately show ?thesis
    unfolding block_number_def c using assms by (simp add: unat_of_nat)
qed

lemma chunk_append: "1024 * k \<le> length file \<Longrightarrow> take (1024 * k) file @ chunk file k = take (1024 * (k + 1)) file"
  by (simp add: chunk_def take_add [symmetric] add.commute)

section \<open>The exchanges\<close>

text \<open>An exchange consumes the script and touches nothing else the download relies on.\<close>

definition same_flash :: "'c dev \<Rightarrow> 'c dev \<Rightarrow> bool" where
  "same_flash s s' \<longleftrightarrow> chip s' = chip s \<and> updateinfo s' = updateinfo s \<and> set (net s') \<subseteq> set (net s) \<and> length (net s') \<le> length (net s)"

lemma same_flash_refl: "same_flash s s"
  by (simp add: same_flash_def)

lemma same_flash_trans: "same_flash s t \<Longrightarrow> same_flash t u \<Longrightarrow> same_flash s u"
  by (auto simp: same_flash_def)

lemma exchange_frame: "exchange r s = Some (o1, s') \<Longrightarrow> same_flash s s' \<and> length (net s') < length (net s) \<and> (\<exists>f\<in>set (net s). o1 = f r)"
  by (auto simp: exchange_def same_flash_def split: list.splits)

lemma status_loop_frame: "status_loop n status s = Some (r, s') \<Longrightarrow> same_flash s s'"
proof (induction n status s rule: status_loop.induct)
  case (2 n status s)
  from 2(2) obtain o1 t where e: "exchange (Status status) s = Some (o1, t)"
    by (auto simp: bind_eq_Some_conv)
  have f: "same_flash s t"
    using exchange_frame [OF e] by blast
  have "same_flash t s'"
    using 2(2) 2(1) [OF e] by (auto simp: e same_flash_def Let_def split: outcome.splits if_splits)
  with f show ?case
    by (rule same_flash_trans)
qed (simp add: same_flash_refl)

section \<open>The image arrives\<close>

text \<open>The flash while block \<open>k\<close> is awaited: the blocks before it are stored.\<close>

definition stored :: "((nat \<Rightarrow> u8) \<Rightarrow> 'c \<Rightarrow> bool) \<Rightarrow> (nat \<Rightarrow> u8) \<Rightarrow> nat \<Rightarrow> u8 list \<Rightarrow> nat \<Rightarrow> 'c dev \<Rightarrow> bool" where
  "stored idle m b file n s \<longleftrightarrow> idle (mem_program m b (take n file)) (chip s)"

lemma stored_frame: "same_flash s s' \<Longrightarrow> stored idle m b file n s' = stored idle m b file n s"
  by (simp add: stored_def same_flash_def)

lemma image_address:
  assumes "unat b \<le> 0x40004" "k < 256"
  shows "unat (b + word_of_int (int k * 1024) :: u32) = unat b + 1024 * k"
proof -
  have "word_of_int (int k * 1024) = (of_nat (1024 * k) :: u32)"
    by (simp add: mult.commute)
  moreover have "unat (of_nat (1024 * k) :: u32) = 1024 * k"
    using assms(2) by (intro unat_of_nat_u32) simp
  ultimately show ?thesis
    using assms by (simp add: unat_word_ariths del: of_nat_mult)
qed

lemma store_block:
  assumes chip: "w25q64 bus idle armed busy left" and b: "unat b \<le> 0x40004" and l: "length file \<le> 0x3FFFC"
    and k: "k = 0 \<or> 1024 * k < length file" and s: "stored idle m (unat b) file (1024 * k) s"
  shows "\<exists>c. flash_write bus W25Q64 (b + word_of_int (int k * 1024)) (of_nat (length (chunk file k))) (chunk file k) (chip s) =
      Some (True, c) \<and> idle (mem_program m (unat b) (take (1024 * (k + 1)) file)) c"
proof -
  have k1: "1024 * k \<le> length file" and k2: "k < 256"
    using k l by auto
  note a = image_address [OF b k2]
  have "length (chunk file k) \<le> length file - 1024 * k"
    by (simp add: chunk_def)
  then have "unat (b + word_of_int (int k * 1024)) + length (chunk file k) \<le> 0x800000"
    unfolding a using k1 l b by linarith
  from flash_write_refines [OF chip _ _ this s [unfolded stored_def], of W25Q64]
  obtain c where c: "flash_write bus W25Q64 (b + word_of_int (int k * 1024)) (of_nat (length (chunk file k))) (chunk file k) (chip s) =
        Some (True, c)"
      "idle (mem_program (mem_program m (unat b) (take (1024 * k) file)) (unat (b + word_of_int (int k * 1024))) (chunk file k)) c"
    by (auto simp: W25Q64_def)
  have "unat (b + word_of_int (int k * 1024)) = unat b + length (take (1024 * k) file)"
    unfolding a using k1 by simp
  with c show ?thesis
    by (simp only: mem_program_append chunk_append [OF k1]) blast
qed

text \<open>One round of the loop, after the report and the exchange.\<close>

lemma download_step:
  assumes "(if n mod 8 = 0 then deviceStatusReport st s else Some (0, s)) = Some (q, s1)"
    and "exchange (req (coapBlockValue n)) s1 = Some (o1, s2)"
  shows "download_loop bus f b st req n nextb t1 t2 s =
    (case o1 of
       SendFails \<Rightarrow> Some (-2, s2)
     | NoReply \<Rightarrow>
         if t1 \<noteq> 0 then if nextb \<noteq> 0 then download_loop bus f b st req n nextb (t1 - 1) t2 s2 else Some (0, s2)
         else Some (-3, s2)
     | Malformed \<Rightarrow> Some (-4, s2)
     | Answer a \<Rightarrow>
         if length (payload a) \<noteq> BYTEPAYLOADLEN \<and> success a \<noteq> None
         then if t2 \<noteq> 0 then download_loop bus f b st req n 1 5 (t2 - 1) s2 else Some (-5, s2)
         else
           let s = s2\<lparr>updateinfo := (updateinfo s2)\<lparr>fileLength := fileLength (updateinfo s2) + int (length (payload a))\<rparr>\<rparr>
           in do {
             (ok, c) \<leftarrow> flash_write bus f (b + word_of_int (n * 1024)) (of_nat (length (payload a))) (payload a) (chip s);
             let s = s\<lparr>chip := c\<rparr>;
             if \<not> ok then Some (-5, s)
             else if block2_next a \<noteq> 0 then download_loop bus f b st req (n + 1) (block2_next a) 5 5 s
             else Some (0, s) })"
  by (subst download_loop.simps) (simp add: assms)

lemma download_loop_image:
  assumes chip: "w25q64 bus idle armed busy left" and b: "unat b \<le> 0x40004" and l: "length file \<le> 0x3FFFC"
    and req: "\<And>v. \<exists>t n ver. req v = Downfile v t n ver"
  shows "\<forall>f\<in>set (net s). serves_file file f \<Longrightarrow> (k = 0 \<and> nextb = 0 \<or> 1024 * k < length file \<and> nextb \<noteq> 0) \<Longrightarrow>
    stored idle m (unat b) file (1024 * k) s \<Longrightarrow> fileLength (updateinfo s) = L + 1024 * int k \<Longrightarrow>
    download_loop bus W25Q64 b st req (int k) nextb t1 t2 s = Some (r, s') \<Longrightarrow>
    \<exists>n\<le>length file. stored idle m (unat b) file n s' \<and> fileLength (updateinfo s') = L + int n \<and>
      (r = 0 \<longrightarrow> n = 0 \<or> n = length file)"
proof (induction "length (net s)" arbitrary: s k nextb t1 t2 rule: less_induct)
  case less
  note prems = less.prems
  have kl: "1024 * k \<le> length file" and k256: "k < 4096"
    using prems(2) l by auto
  from prems(5) obtain q s1 o1 s2 where
      s1: "(if int k mod 8 = 0 then deviceStatusReport st s else Some (0, s)) = Some (q, s1)"
      and s2: "exchange (req (coapBlockValue (int k))) s1 = Some (o1, s2)"
    by (subst (asm) download_loop.simps) (auto simp: bind_eq_Some_conv)
  have f1: "same_flash s s1"
    using s1 status_loop_frame by (auto simp: deviceStatusReport_def same_flash_refl split: if_splits)
  obtain f where f2: "same_flash s1 s2" "length (net s2) < length (net s1)" and f: "f \<in> set (net s1)" "o1 = f (req (coapBlockValue (int k)))"
    using exchange_frame [OF s2] by blast
  have fr: "same_flash s s2"
    by (rule same_flash_trans [OF f1 f2(1)])
  have shorter: "length (net s2) < length (net s)" and serve2: "\<forall>f\<in>set (net s2). serves_file file f"
    using f1 f2 fr prems(1) by (auto simp: same_flash_def)
  have st2: "stored idle m (unat b) file (1024 * k) s2" "fileLength (updateinfo s2) = L + 1024 * int k"
    using prems(3,4) stored_frame [OF fr] fr by (simp_all add: same_flash_def)
  have here: ?case if "r = 0 \<longrightarrow> k = 0" "s' = s2"
    using that st2 kl by (intro exI [of _ "1024 * k"]) auto
  note step = prems(5) [unfolded download_step [where req = req and n = "int k", OF s1 s2]]
  show ?case
  proof (cases o1)
    case SendFails
    with step show ?thesis
      by (intro here) auto
  next
    case NoReply
    show ?thesis
    proof (cases "t1 \<noteq> 0 \<and> nextb \<noteq> 0")
      case True
      with step NoReply have "download_loop bus W25Q64 b st req (int k) nextb (t1 - 1) t2 s2 = Some (r, s')"
        by auto
      from less.hyps [OF shorter serve2 prems(2) st2 this] show ?thesis .
    next
      case False
      with step NoReply prems(2) show ?thesis
        by (intro here) (auto split: if_splits)
    qed
  next
    case Malformed
    with step show ?thesis
      by (intro here) auto
  next
    case (Answer a)
    obtain t n ver where "req (coapBlockValue (int k)) = Downfile (coapBlockValue (int k)) t n ver"
      using req by blast
    then have "f (Downfile (coapBlockValue (int k)) t n ver) = Answer a"
      using f(2) Answer by simp
    moreover have "serves_file file f"
      using f(1) f1 prems(1) by (auto simp: same_flash_def)
    ultimately have a: "success a = None" "payload a = chunk file k" "block2_next a \<noteq> 0 \<longleftrightarrow> 1024 * (k + 1) < length file"
      unfolding serves_file_def using block_number_value [OF k256] by metis+
    have k': "k = 0 \<or> 1024 * k < length file"
      using prems(2) by blast
    obtain c where c: "flash_write bus W25Q64 (b + word_of_int (int k * 1024)) (of_nat (length (chunk file k)))
        (chunk file k) (chip s2) = Some (True, c)"
        "idle (mem_program m (unat b) (take (1024 * (k + 1)) file)) c"
      using store_block [OF chip b l k' st2(1)] by blast
    define s3 where "s3 = s2\<lparr>updateinfo := (updateinfo s2)\<lparr>fileLength := fileLength (updateinfo s2) + int (length (chunk file k))\<rparr>,
        chip := c\<rparr>"
    have n3: "net s3 = net s2"
      by (simp add: s3_def)
    have st3: "stored idle m (unat b) file (1024 * (k + 1)) s3"
      using c(2) by (simp add: stored_def s3_def)
    have lc: "length (chunk file k) = min 1024 (length file - 1024 * k)"
      by (simp add: chunk_def)
    show ?thesis
    proof (cases "1024 * (k + 1) < length file")
      case True
      then have "download_loop bus W25Q64 b st req (int (k + 1)) (block2_next a) 5 5 s3 = Some (r, s')"
        using step Answer a c(1) by (simp add: s3_def Let_def add.commute mult.commute)
      moreover have "fileLength (updateinfo s3) = L + 1024 * int (k + 1)"
        using st2(2) lc True by (simp add: s3_def)
      ultimately show ?thesis
        using less.hyps [OF _ _ _ st3] shorter serve2 a(3) True unfolding n3 by blast
    next
      case False
      then have "r = 0" "s' = s3"
        using step Answer a c(1) by (simp_all add: s3_def Let_def add.commute mult.commute)
      moreover have "fileLength (updateinfo s3) = L + int (length file)"
        using st2(2) lc False kl by (simp add: s3_def)
      moreover have "take (1024 * (k + 1)) file = take (length file) file"
        using False by simp
      ultimately show ?thesis
        using st3 unfolding stored_def by (intro exI [of _ "length file"]) simp
    qed
  qed
qed

text \<open>A server that always answers; the client gets through to the end of the file.\<close>

definition reliable :: "(request \<Rightarrow> outcome) \<Rightarrow> bool" where
  "reliable f \<longleftrightarrow> (\<forall>r. \<exists>a. f r = Answer a)"

lemma status_loop_total:
  "n \<le> length (net s) \<Longrightarrow> \<exists>r s'. status_loop n st s = Some (r, s') \<and> length (net s) \<le> length (net s') + n"
proof (induction n st s rule: status_loop.induct)
  case (2 n st s)
  then obtain f fs where n: "net s = f # fs"
    by (cases "net s") auto
  let ?s = "s\<lparr>net := fs, messageID := messageID s + 1\<rparr>"
  have e: "exchange (Status st) s = Some (f (Status st), ?s)"
    by (simp add: exchange_def n)
  show ?case
  proof (cases "\<exists>a. f (Status st) = Answer a \<and> success a \<noteq> Some True")
    case True
    then obtain a where a: "f (Status st) = Answer a" "success a \<noteq> Some True"
      by blast
    obtain r s' where "status_loop n st ?s = Some (r, s')" "length (net ?s) \<le> length (net s') + n"
      using "2.IH" [OF e _ a] "2.prems" n by auto
    with a e n show ?thesis
      by auto
  next
    case False
    with e n show ?thesis
      by (auto simp: Let_def split: outcome.splits)
  qed
qed simp

lemma download_loop_total:
  assumes chip: "w25q64 bus idle armed busy left" and b: "unat b \<le> 0x40004" and l: "length file \<le> 0x3FFFC"
    and req: "\<And>v. \<exists>t n ver. req v = Downfile v t n ver"
  shows "\<forall>f\<in>set (net s). serves_file file f \<and> reliable f \<Longrightarrow> k = 0 \<or> 1024 * k < length file \<Longrightarrow>
    6 * (length file div 1024 + 1 - k) \<le> length (net s) \<Longrightarrow> stored idle m (unat b) file (1024 * k) s \<Longrightarrow>
    fileLength (updateinfo s) = L + 1024 * int k \<Longrightarrow>
    \<exists>s'. download_loop bus W25Q64 b st req (int k) nextb t1 t2 s = Some (0, s') \<and>
      stored idle m (unat b) file (length file) s' \<and> fileLength (updateinfo s') = L + int (length file)"
proof (induction "length file div 1024 + 1 - k" arbitrary: s k nextb t1 t2 rule: less_induct)
  case less
  note prems = less.prems
  have kl: "k \<le> length file div 1024" and k256: "k < 4096"
    using prems(2) l by auto
  then have l6: "6 * (length file div 1024 + 1 - (k + 1)) + 6 \<le> length (net s)"
    using prems(3) by simp
  obtain q s1 where s1: "(if int k mod 8 = 0 then deviceStatusReport st s else Some (0, s)) = Some (q, s1)"
      and n1: "length (net s) \<le> length (net s1) + 5"
  proof (cases "int k mod 8 = 0")
    case True
    obtain q s1 where "status_loop 5 st s = Some (q, s1)" "length (net s) \<le> length (net s1) + 5"
      using status_loop_total [of 5 s st] l6 by auto
    with True that show thesis
      by (simp add: deviceStatusReport_def)
  qed (use that in simp)
  have f1: "same_flash s s1"
    using s1 status_loop_frame by (auto simp: deviceStatusReport_def same_flash_refl split: if_splits)
  obtain f fs where fs: "net s1 = f # fs"
    using n1 l6 by (cases "net s1") auto
  define s2 where "s2 = s1\<lparr>net := fs, messageID := messageID s1 + 1\<rparr>"
  have s2: "exchange (req (coapBlockValue (int k))) s1 = Some (f (req (coapBlockValue (int k))), s2)"
    by (simp add: exchange_def fs s2_def)
  have fr: "same_flash s s2"
    using same_flash_trans [OF f1] exchange_frame [OF s2] by blast
  have fin: "f \<in> set (net s)"
    using f1 fs by (auto simp: same_flash_def)
  obtain t n ver where d: "req (coapBlockValue (int k)) = Downfile (coapBlockValue (int k)) t n ver"
    using req by blast
  obtain a where a0: "f (req (coapBlockValue (int k))) = Answer a"
    using prems(1) fin by (auto simp: reliable_def)
  have a: "success a = None" "payload a = chunk file k" "block2_next a \<noteq> 0 \<longleftrightarrow> 1024 * (k + 1) < length file"
    using prems(1) fin a0 block_number_value [OF k256] unfolding serves_file_def d by metis+
  have st2: "stored idle m (unat b) file (1024 * k) s2" "fileLength (updateinfo s2) = L + 1024 * int k"
    using prems(4,5) stored_frame [OF fr] fr by (simp_all add: same_flash_def)
  obtain c where c: "flash_write bus W25Q64 (b + word_of_int (int k * 1024)) (of_nat (length (chunk file k)))
      (chunk file k) (chip s2) = Some (True, c)"
      "idle (mem_program m (unat b) (take (1024 * (k + 1)) file)) c"
    using store_block [OF chip b l prems(2) st2(1)] by blast
  define s3 where "s3 = s2\<lparr>updateinfo := (updateinfo s2)\<lparr>fileLength := fileLength (updateinfo s2) + int (length (chunk file k))\<rparr>,
      chip := c\<rparr>"
  have st3: "stored idle m (unat b) file (1024 * (k + 1)) s3"
    using c(2) by (simp add: stored_def s3_def)
  have lc: "length (chunk file k) = min 1024 (length file - 1024 * k)"
    by (simp add: chunk_def)
  have step: "download_loop bus W25Q64 b st req (int k) nextb t1 t2 s =
      (if block2_next a \<noteq> 0 then download_loop bus W25Q64 b st req (int (k + 1)) (block2_next a) 5 5 s3 else Some (0, s3))"
    unfolding download_step [where req = req and n = "int k", OF s1 s2] using a0 a(1,2) c(1)
    by (simp add: s3_def Let_def add.commute mult.commute)
  show ?case
  proof (cases "1024 * (k + 1) < length file")
    case True
    have i1: "\<forall>f\<in>set (net s3). serves_file file f \<and> reliable f"
      using prems(1) fr by (auto simp: same_flash_def s3_def)
    have i2: "k + 1 = 0 \<or> 1024 * (k + 1) < length file"
      using True by blast
    have i3: "6 * (length file div 1024 + 1 - (k + 1)) \<le> length (net s3)"
      using l6 n1 fs by (simp add: s3_def s2_def)
    have i4: "fileLength (updateinfo s3) = L + 1024 * int (k + 1)"
      using st2(2) lc True by (simp add: s3_def)
    have i5: "length file div 1024 + 1 - (k + 1) < length file div 1024 + 1 - k"
      using kl by simp
    have "block2_next a \<noteq> 0"
      using a(3) True by blast
    with less.hyps [OF i5 i1 i2 i3 st3 i4] show ?thesis
      unfolding step by (simp only: if_True simp_thms)
  next
    case False
    moreover have "fileLength (updateinfo s3) = L + int (length file)"
      using st2(2) lc False prems(2) by (auto simp: s3_def)
    moreover have "stored idle m (unat b) file (length file) s3"
      using False st3 by (simp add: stored_def)
    ultimately show ?thesis
      unfolding step using a(3) by simp
  qed
qed

section \<open>The whole download\<close>

text \<open>The image buffer after \<open>n\<close> bytes of the file.\<close>

definition holds :: "(nat \<Rightarrow> u8) \<Rightarrow> nat \<Rightarrow> u8 list \<Rightarrow> bool" where
  "holds m i img \<longleftrightarrow> buf_flag m i = USER_IMG_MAP_BUF_VAILE_FLAG \<and> blank m (1 - i) \<and>
     mem_read m (i * 0x40000 + 4) (length img) = img"

lemma holds_inv: "i < 2 \<Longrightarrow> holds m i img \<Longrightarrow> image_inv m"
  by (auto simp: holds_def image_inv_def less_2_cases_iff)

lemma programmed_holds:
  assumes i: "i < 2" and m: "blank m i" and l: "length img \<le> 0x3FFFC"
  shows "holds (mem_program (marked m i) (i * 0x40000 + 4) img) i img"
proof -
  let ?m = "mem_program (marked m i) (i * 0x40000 + 4) img"
  have "marked m i (i * 0x40000 + j) = flash32_bytes USER_IMG_MAP_BUF_VAILE_FLAG ! j" if "j < 4" for j
    using marked_inside [OF i m, of "i * 0x40000 + j"] that by simp
  then have "buf_flag ?m i = USER_IMG_MAP_BUF_VAILE_FLAG"
    by (intro program_flag) simp_all
  moreover have "blank ?m (1 - i)"
  proof -
    have "?m x = marked m i x" if "(1 - i) * 0x40000 \<le> x" "x < (1 - i + 1) * 0x40000" for x
    proof -
      have "i = 0 \<or> i = 1"
        using i by auto
      then have "\<not> (i * 0x40000 + 4 \<le> x \<and> x < i * 0x40000 + 4 + length img)"
        using that l by auto
      then show ?thesis
        unfolding mem_program_def by (simp only: if_False)
    qed
    then show ?thesis
      using marked_other [of m i] unfolding blank_def by metis
  qed
  moreover have "mem_read ?m (i * 0x40000 + 4) (length img) = img"
  proof (intro nth_equalityI)
    fix j assume "j < length (mem_read ?m (i * 0x40000 + 4) (length img))"
    then have j: "j < length img"
      by (simp add: mem_read_def)
    have "marked m i (i * 0x40000 + 4 + j) = 0xff"
      using marked_inside [OF i m, of "i * 0x40000 + 4 + j"] j l by simp
    with j show "mem_read ?m (i * 0x40000 + 4) (length img) ! j = img ! j"
      by (simp add: mem_read_def mem_program_def)
  qed (simp add: mem_read_def)
  ultimately show ?thesis
    by (simp add: holds_def)
qed

lemma download_from:
  assumes "flash25spi_init bus g (chip s) = (W25Q64, c0)" and i: "i < 2"
    and "find_buffer bus W25Q64 [0, 1] c0 = Some (of_nat (i * 0x40000 + 4), of_nat ((1 - i) * 0x40000), c1)"
  shows "\<exists>req. (\<forall>v. \<exists>t n ver. req v = Downfile v t n ver) \<and> unat (of_nat (i * 0x40000 + 4) :: u32) = i * 0x40000 + 4 \<and>
    deviceGetSaveUpdatefile bus g st s = download_loop bus W25Q64 (of_nat (i * 0x40000 + 4)) st req 0 0 5 5 (s\<lparr>chip := c1\<rparr>)"
proof -
  have u: "unat (of_nat (i * 0x40000 + 4) :: u32) = i * 0x40000 + 4" "unat (of_nat ((1 - i) * 0x40000) :: u32) = (1 - i) * 0x40000"
    by (rule unat_of_nat_u32, use i in simp)+
  have "(of_nat (i * 0x40000 + 4) :: u32) \<noteq> USER_IMG_MAP_BUF_CLEAR_FLAG"
    "(of_nat ((1 - i) * 0x40000) :: u32) \<noteq> USER_IMG_MAP_BUF_CLEAR_FLAG"
    using i u by (auto simp: USER_IMG_MAP_BUF_CLEAR_FLAG_def less_2_cases_iff)
  with assms u(1) show ?thesis
    by (intro exI [of _ "\<lambda>v. Downfile v (u_type (updateinfo s)) (fileName0 (updateinfo s)) (newVersionNo (updateinfo s))"])
      (auto simp: deviceGetSaveUpdatefile_def Let_def)
qed

lemma download_start:
  assumes chip: "w25q64 bus idle armed busy left" and m: "image_inv m" and c: "idle m (chip s)"
  shows "\<exists>i c1 req. i < 2 \<and> blank m i \<and> idle (marked m i) c1 \<and> (\<forall>v. \<exists>t n ver. req v = Downfile v t n ver) \<and>
    unat (of_nat (i * 0x40000 + 4) :: u32) = i * 0x40000 + 4 \<and>
    deviceGetSaveUpdatefile bus g st s = download_loop bus W25Q64 (of_nat (i * 0x40000 + 4)) st req 0 0 5 5 (s\<lparr>chip := c1\<rparr>)"
proof -
  obtain c0 where c0: "flash25spi_init bus g (chip s) = (W25Q64, c0)" "idle m c0"
    using flash_init_refines [OF chip c] by blast
  obtain i c1 where i: "i < 2" "blank m i" "idle (marked m i) c1"
      "find_buffer bus W25Q64 [0, 1] c0 = Some (of_nat (i * 0x40000 + 4), of_nat ((1 - i) * 0x40000), c1)"
    using find_buffer_refines [OF chip m c0(2)] by blast
  from download_from [OF c0(1) i(1,4), of st] i show ?thesis
    by blast
qed

end
