(* ===== verification/Fw_Delivery.thy ===== *)
theory Fw_Delivery
  imports Fw_Send Fw_Download
begin

text \<open>
  What the user's microcontroller receives. Its loader is not part of the firmware; the reference receiver below
  undoes the chaining of a packet and programs the words at the address of the packet.
\<close>

section \<open>Words and bytes\<close>

lemma flash32_list: "flash32 [a, b, c, d] = ucast a OR push_bit 8 (ucast b) OR push_bit 16 (ucast c) OR push_bit 24 (ucast d)"
  by (simp add: flash32_def)

lemma flash32_bytes [simp]: "flash32 (flash32_bytes x) = x"
proof -
  have "bit (flash32 (flash32_bytes x)) n = bit x n" if "n < 32" for n
  proof -
    consider "n < 8" | "8 \<le> n" "n < 16" | "16 \<le> n" "n < 24" | "24 \<le> n"
      by linarith
    then show ?thesis
      using that by cases (auto simp: flash32_bytes_def flash32_list bit_simps)
  qed
  then show ?thesis
    by (intro bit_word_eqI) simp
qed

lemma u8_bit [simp]: "\<not> bit (a :: u8) (8 + n)" "\<not> bit (a :: u8) (16 + n)" "\<not> bit (a :: u8) (24 + n)"
  using bit_imp_le_length [of a "8 + n"] bit_imp_le_length [of a "16 + n"] bit_imp_le_length [of a "24 + n"] by auto

lemma flash32_bytes_le32 [simp]: "flash32_bytes (flash32 [a, b, c, d]) = [a, b, c, d]"
  unfolding flash32_bytes_def flash32_list by (auto simp: bit_simps intro!: bit_word_eqI)

lemma words_bytes [simp]: "words (bytes ws) = ws"
proof (induction ws)
  case (Cons w ws)
  have "words (flash32_bytes w @ bytes ws) = w # words (bytes ws)"
    using flash32_bytes [of w] by (simp add: flash32_bytes_def)
  with Cons show ?case
    by (simp add: bytes_def)
qed (simp add: bytes_def)

lemma bytes_words: "length bs mod 4 = 0 \<Longrightarrow> bytes (words bs) = bs"
  by (induction bs rule: words.induct) (simp_all add: bytes_def)

lemma length_bytes [simp]: "length (bytes ws) = 4 * length ws"
  by (induction ws) (simp_all add: bytes_def)

lemma bytes_append [simp]: "bytes (xs @ ys) = bytes xs @ bytes ys"
  by (simp add: bytes_def)

lemma words_append: "length xs mod 4 = 0 \<Longrightarrow> words (xs @ ys) = words xs @ words ys"
  by (induction xs rule: words.induct) simp_all

lemma length_words: "length (words bs) = length bs div 4"
  by (induction bs rule: words.induct) simp_all

section \<open>The ciphers\<close>

text \<open>The inverse of the chaining, and of the masking.\<close>

fun unchain :: "u32 \<Rightarrow> u32 list \<Rightarrow> u32 list" where
  "unchain p [] = []"
| "unchain p (x # xs) = (x XOR p) # unchain (x XOR p) xs"

lemma unchain_chain [simp]: "unchain p (chain_words p ws) = ws"
  by (induction ws arbitrary: p) (simp_all add: xor.assoc)

lemma length_unchain [simp]: "length (unchain p ws) = length ws"
  by (induction ws arbitrary: p) simp_all

lemma length_chain [simp]: "length (chain_words p ws) = length ws"
  by (induction ws arbitrary: p) simp_all

lemma unmask_chain: "fst (unmask m ws) = chain_words m ws"
  by (induction ws arbitrary: m) (simp_all add: split_def Let_def)

lemma snd_unmask: "snd (unmask m ws) = last (m # ws)"
  by (induction ws arbitrary: m) (auto simp: split_def Let_def)

lemma chain_words_append: "chain_words m (xs @ ys) = chain_words m xs @ chain_words (last (m # xs)) ys"
  by (induction xs arbitrary: m) auto

lemma chain_unchain [simp]: "chain_words m (unchain m ws) = ws"
  by (induction ws arbitrary: m) (simp_all add: xor.assoc)

section \<open>Frames\<close>

definition unframe :: "u8 list \<Rightarrow> u8 list option" where
  "unframe f =
     (if length f < 4 then None
      else
        let l = unat (f ! 1) * 0x100 + unat (f ! 2)
        in if f ! 0 = 0xF0 \<and> length f = l + 4 \<and> checksum (take (l + 3) f) = f ! (l + 3) then Some (take l (drop 3 f)) else None)"

lemma unframe_frame:
  assumes "length d < 0x10000"
  shows "unframe (frame_of d) = Some d"
proof -
  have l: "unat (of_nat (length d div 0x100) :: u8) * 0x100 + unat (of_nat (length d mod 0x100) :: u8) = length d"
    using assms by (simp add: unat_of_nat)
  define h where "h = [0xF0, of_nat (length d div 0x100), of_nat (length d mod 0x100)] @ d"
  have h: "frame_of d = h @ [checksum h]" "length h = length d + 3"
    by (simp_all add: frame_of_def h_def)
  have "h ! 0 = 0xF0" "h ! 1 = of_nat (length d div 0x100)" "h ! 2 = of_nat (length d mod 0x100)" "drop 3 h = d"
    by (simp_all add: h_def numeral_2_eq_2 numeral_3_eq_3)
  then show ?thesis
    using l h by (simp add: unframe_def Let_def nth_append)
qed

section \<open>The reference receiver\<close>

definition load :: "(nat \<Rightarrow> u8) \<Rightarrow> u8 list \<Rightarrow> nat \<Rightarrow> u8" where
  "load m d =
     (if d \<noteq> [] \<and> d ! 0 = UC_WRITE_FLASH
      then mem_program m (((unat (d ! 1) * 256 + unat (d ! 2)) * 256 + unat (d ! 3)) * 256 + unat (d ! 4)) (bytes (unchain 0 (words (drop 7 d))))
      else m)"

definition receive :: "(nat \<Rightarrow> u8) \<Rightarrow> u8 list list \<Rightarrow> nat \<Rightarrow> u8" where
  "receive m fs = fold (\<lambda>f m. case unframe f of None \<Rightarrow> m | Some d \<Rightarrow> load m d) fs m"

lemma receive_append: "receive m (xs @ ys) = receive (receive m xs) ys"
  by (simp add: receive_def)

lemma base256:
  "((n div 0x1000000 * 256 + n div 0x10000 mod 256) * 256 + n div 0x100 mod 256) * 256 + n mod 256 = (n :: nat)"
proof -
  have "n div 0x1000000 = n div 0x10000 div 256" "n div 0x10000 = n div 0x100 div 256"
    using div_mult2_eq [of n "0x10000" 256] div_mult2_eq [of n "0x100" 256] by simp_all
  then show ?thesis
    by (metis div_mult_mod_eq)
qed

lemma header_address:
  "((unat (ucast (a div 0x1000000) :: u8) * 256 + unat (ucast (a div 0x10000) :: u8)) * 256 + unat (ucast (a div 0x100) :: u8)) * 256
     + unat (ucast a :: u8) = unat (a :: u32)"
proof -
  have "unat a < 2 ^ 32"
    using unsigned_less [of a] by simp
  then have "unat a div 0x1000000 mod 256 = unat a div 0x1000000"
    by simp
  then show ?thesis
    using base256 [of "unat a"] by (simp add: unat_ucast_u32_u8 unat_div)
qed

lemma load_packet:
  "load m (write_header a n @ bytes (chain_words 0 ws)) = mem_program m (unat a) (bytes ws)"
proof -
  have l: "length (write_header a n) = 7"
    by (simp add: write_header_def)
  have "write_header a n ! 0 = UC_WRITE_FLASH" "write_header a n ! 1 = ucast (a div 0x1000000)"
    "write_header a n ! 2 = ucast (a div 0x10000)" "write_header a n ! 3 = ucast (a div 0x100)" "write_header a n ! 4 = ucast a"
    by (simp_all add: write_header_def)
  then have "load m (write_header a n @ bs) = mem_program m (unat a) (bytes (unchain 0 (words bs)))" for bs
    using header_address [of a] l by (auto simp: load_def nth_append)
  then show ?thesis
    by simp
qed

section \<open>An acknowledged packet\<close>

text \<open>A peer that acknowledges: its answer is found, and its eighth byte is not zero.\<close>

definition acks :: "(u8 list \<Rightarrow> u8 list) \<Rightarrow> bool" where
  "acks f \<longleftrightarrow> (\<forall>fr. \<exists>ans. length (f fr) \<le> RECV_SIZE \<and> find_answer (f fr) = Some ans \<and> 8 \<le> length ans \<and> ans ! 7 \<noteq> 0)"

definition sizes :: "userfwpro \<Rightarrow> bool" where
  "sizes u \<longleftrightarrow> length (ubuf u) = 1024 \<and> length (tbuf u) = 4"

lemma find_answer_length: "find_answer bs = Some ans \<Longrightarrow> length ans + 4 \<le> length bs"
  by (induction bs rule: find_answer.induct) (auto simp: Let_def split: if_splits)

lemma CheckCode_ack:
  assumes "acks f" "serial u = f # fs" "sizes u"
  shows "\<exists>r buf. 0 \<le> r \<and> length buf = 1024 \<and> buf ! 7 \<noteq> 0 \<and>
    CheckCode len u = Some (r, u\<lparr>serial := fs, wire := wire u @ [frame_of (take len (ubuf u))], ubuf := buf\<rparr>)"
proof -
  obtain ans where ans: "length (f (frame_of (take len (ubuf u)))) \<le> RECV_SIZE"
      "find_answer (f (frame_of (take len (ubuf u)))) = Some ans" "8 \<le> length ans" "ans ! 7 \<noteq> 0"
    using assms(1) unfolding acks_def by blast
  have "length ans \<le> 1024"
    using find_answer_length [OF ans(2)] ans(1) by (simp add: RECV_SIZE_def)
  then have "length (memcpy 0 ans (ubuf u)) = 1024" "memcpy 0 ans (ubuf u) ! 7 \<noteq> 0"
    using assms(3) ans by (simp_all add: sizes_def length_memcpy) (simp add: memcpy_def nth_append)
  with ans assms(2) show ?thesis
    by (intro exI [of _ "int (length ans)"] exI [of _ "memcpy 0 ans (ubuf u)"]) (simp add: CheckCode_def numeral_3_eq_3)
qed

text \<open>The image part of the buffer as the packet is prepared.\<close>

lemma split_buffer:
  assumes "length buf = 1024"
  shows "\<exists>xs ys zs. buf = xs @ ys @ zs \<and> length xs = 7 \<and> length ys = 512 \<and> length zs = 505"
  using assms by (intro exI [of _ "take 7 buf"] exI [of _ "take 512 (drop 7 buf)"] exI [of _ "drop 512 (drop 7 buf)"])
    (simp add: append_take_drop_id del: drop_drop)

definition withheld :: "u32 list \<Rightarrow> u32 list" where
  "withheld ws = ws[1 := 0xFFFFFFFF]"

lemma replicate4: "replicate 4 x = [x, x, x, x]"
  by (simp add: numeral_eq_Suc)

lemma erased_word: "flash32_bytes 0xFFFFFFFF = replicate 4 0xFF"
  by (simp add: flash32_bytes_def replicate4)

lemma withhold:
  assumes "length ws = 128" "length xs = 7"
  shows "take 4 (drop 11 (xs @ bytes ws @ zs)) = flash32_bytes (ws ! 1)"
    and "memcpy 11 (replicate 4 0xFF) (xs @ bytes ws @ zs) = xs @ bytes (withheld ws) @ zs"
proof -
  obtain w0 w1 rest where w: "ws = w0 # w1 # rest"
    using assms(1) by (cases ws; cases "tl ws") auto
  have b: "xs @ bytes ws @ zs = (xs @ flash32_bytes w0) @ flash32_bytes w1 @ (bytes rest @ zs)"
    by (simp add: w bytes_def)
  show "take 4 (drop 11 (xs @ bytes ws @ zs)) = flash32_bytes (ws ! 1)"
    unfolding b using assms(2) by (simp add: w)
  show "memcpy 11 (replicate 4 0xFF) (xs @ bytes ws @ zs) = xs @ bytes (withheld ws) @ zs"
    unfolding b using assms(2) by (subst memcpy_mid) (simp_all add: w withheld_def bytes_def erased_word)
qed

lemma packet_condition:
  assumes "0 \<le> fl" "fl < 2 ^ 31" "int j \<le> fl div 512 + 1"
  shows "(of_nat (512 * j) + word_of_int (fl mod int BAG_SIZE) < (word_of_int (fl + int BAG_SIZE) :: u32)) \<longleftrightarrow> int j \<le> fl div 512"
proof -
  obtain q r where fl: "fl = 512 * q + r" "0 \<le> r" "r < 512"
    using mult_div_mod_eq [of 512 fl] pos_mod_bound [of 512 fl] pos_mod_sign [of 512 fl] by (metis zero_less_numeral)
  then have d: "fl div 512 = q" "fl mod 512 = r"
    by simp_all
  have j: "int j \<le> q + 1"
    using assms(3) unfolding d .
  have u: "uint (word_of_int k :: u32) = k" if "0 \<le> k" "k < 2 ^ 32" for k
    using that by (simp add: uint_word_of_int)
  have "uint (word_of_int (512 * int j + r) :: u32) = 512 * int j + r"
    using assms(2) j fl by (intro u) simp_all
  moreover have "uint (word_of_int (fl + 512) :: u32) = fl + 512"
    using assms(1,2) by (intro u) simp_all
  moreover have "(of_nat (512 * j) + word_of_int r :: u32) = word_of_int (512 * int j + r)"
    by simp
  moreover have "512 * int j + r < fl + 512 \<longleftrightarrow> int j \<le> q"
    using fl by linarith
  ultimately show ?thesis
    by (simp only: BAG_SIZE_def of_nat_numeral word_less_def d)
qed

text \<open>The packet of chunk \<open>j\<close>; in the first one the second word is withheld.\<close>

definition packet_words :: "nat \<Rightarrow> u32 list \<Rightarrow> u32 list" where
  "packet_words j ws = (if j = 0 then withheld ws else ws)"

lemma length_packet_words [simp]: "length (packet_words j ws) = length ws"
  by (simp add: packet_words_def withheld_def)

definition data_frame :: "nat \<Rightarrow> u32 list \<Rightarrow> u8 list" where
  "data_frame j ws = frame_of (write_header (of_nat (512 * j)) 512 @ bytes (chain_words 0 (packet_words j ws)))"

definition last_frame :: "u32 \<Rightarrow> u8 list" where
  "last_frame w = frame_of (write_header 4 4 @ bytes (chain_words 0 [w]))"

text \<open>The buffer before the header is written.\<close>

lemma prepared:
  assumes u: "sizes u" and p: "length pbuf = 512" and j: "cnt u = of_nat (512 * j)" "j < 2 ^ 23"
    and ws: "ws = chain_words (mask u) (words pbuf)"
  shows "\<exists>xs zs. length xs = 7 \<and> length zs = 505 \<and>
    prepare_packet pbuf u = u\<lparr>mask := last (mask u # words pbuf), ubuf := xs @ bytes (chain_words 0 (packet_words j ws)) @ zs,
      tbuf := (if j = 0 then flash32_bytes (ws ! 1) else tbuf u), address := (if j = 0 then 0 else address u)\<rparr>"
proof -
  obtain xs ys zs where b: "ubuf u = xs @ ys @ zs" "length xs = 7" "length ys = 512" "length zs = 505"
    using split_buffer u unfolding sizes_def by blast
  have lw: "length ws = 128"
    using p by (simp add: ws length_words)
  have m: "unmask (mask u) (words pbuf) = (ws, last (mask u # words pbuf))"
    unfolding ws unmask_chain [symmetric] snd_unmask [symmetric] by simp
  have c: "cnt u = 0 \<longleftrightarrow> j = 0"
  proof -
    have "unat (of_nat (512 * j) :: u32) = 512 * j"
      using j(2) by (intro unat_of_nat_u32) simp
    then show ?thesis
      unfolding j(1) by (metis mult_is_0 of_nat_0 unat_0 zero_neq_numeral)
  qed
  have t: "take BAG_SIZE pbuf = pbuf"
    using p by (simp add: BAG_SIZE_def)
  define v1 where "v1 = u\<lparr>ubuf := memcpy 7 (bytes ws) (ubuf u), mask := last (mask u # words pbuf)\<rparr>"
  have v1: "ubuf v1 = xs @ bytes ws @ zs"
    unfolding v1_def using b lw by (simp add: memcpy_mid)
  define v2 where "v2 = (if cnt v1 = 0
      then v1\<lparr>tbuf := take 4 (drop 11 (ubuf v1)), ubuf := memcpy 11 (replicate 4 0xFF) (ubuf v1), address := 0\<rparr> else v1)"
  have v2: "v2 = u\<lparr>mask := last (mask u # words pbuf), ubuf := xs @ bytes (packet_words j ws) @ zs,
      tbuf := (if j = 0 then flash32_bytes (ws ! 1) else tbuf u), address := (if j = 0 then 0 else address u)\<rparr>"
  proof -
    have "cnt v1 = cnt u" "mask v1 = last (mask u # words pbuf)" "tbuf v1 = tbuf u" "address v1 = address u"
      by (simp_all add: v1_def)
    with v1 withhold [OF lw b(2), of zs] c show ?thesis
      unfolding v2_def packet_words_def by (simp add: v1_def)
  qed
  define v where "v = v2\<lparr>ubuf := memcpy 7 (bytes (chain_words 0 (words (take BAG_SIZE (drop 7 (ubuf v2)))))) (ubuf v2)\<rparr>"
  have "take BAG_SIZE (drop 7 (ubuf v2)) = bytes (packet_words j ws)"
    using b lw by (simp add: v2 BAG_SIZE_def)
  then have "v = v2\<lparr>ubuf := xs @ bytes (chain_words 0 (packet_words j ws)) @ zs\<rparr>"
    using b lw by (simp add: v_def v2 memcpy_mid)
  moreover have "prepare_packet pbuf u = v"
    unfolding prepare_packet_def t m Let_def case_prod_conv v_def v2_def v1_def ..
  ultimately show ?thesis
    using b(2,4) by (intro exI [of _ xs] exI [of _ zs]) (simp add: v2)
qed

lemma length_header [simp]: "length (write_header a n) = 7"
  by (simp add: write_header_def)

lemma send_packet:
  assumes u: "sizes u" and p: "length pbuf = 512" and j: "cnt u = of_nat (512 * j)" "j = 0 \<or> address u = of_nat (512 * j)"
    and fl: "0 \<le> fl" "fl < 2 ^ 31" "int j \<le> fl div 512" and s: "acks f" "serial u = f # fs"
    and ws: "ws = chain_words (mask u) (words pbuf)"
  shows "\<exists>u'. sendUserFirmware pbuf fl u = Some (0, u') \<and> sizes u' \<and> cnt u' = of_nat (512 * (j + 1)) \<and>
    address u' = of_nat (512 * (j + 1)) \<and> mask u' = last (mask u # words pbuf) \<and> serial u' = fs \<and>
    wire u' = wire u @ [data_frame j ws] \<and> tbuf u' = (if j = 0 then flash32_bytes (ws ! 1) else tbuf u)"
proof -
  have "j < 2 ^ 23"
    using fl by simp
  from prepared [OF u p j(1) this ws] obtain xs zs where x: "length xs = 7" "length zs = 505" and
    v: "prepare_packet pbuf u = u\<lparr>mask := last (mask u # words pbuf), ubuf := xs @ bytes (chain_words 0 (packet_words j ws)) @ zs,
      tbuf := (if j = 0 then flash32_bytes (ws ! 1) else tbuf u), address := (if j = 0 then 0 else address u)\<rparr>"
    by blast
  define w where "w = prepare_packet pbuf u"
  note w = v [folded w_def]
  have a: "address w = of_nat (512 * j)"
    using j(2) by (auto simp: w)
  have lw: "length ws = 128"
    using p by (simp add: ws length_words)
  define x where "x = w\<lparr>ubuf := memcpy 0 (write_header (address w) BAG_SIZE) (ubuf w)\<rparr>"
  have "ubuf x = write_header (of_nat (512 * j)) 512 @ bytes (chain_words 0 (packet_words j ws)) @ zs"
    unfolding x_def a using x by (simp add: w memcpy_front BAG_SIZE_def)
  moreover have "length (tbuf x) = 4"
    using u by (simp add: x_def w sizes_def flash32_bytes_def)
  ultimately have su: "sizes x" and
      tk: "take (BAG_SIZE + 7) (ubuf x) = write_header (of_nat (512 * j)) 512 @ bytes (chain_words 0 (packet_words j ws))"
    using x lw by (simp_all add: sizes_def BAG_SIZE_def)
  have sv: "serial x = f # fs"
    using s(2) by (simp add: x_def w)
  obtain r buf where r: "0 \<le> r" "length buf = 1024" "buf ! 7 \<noteq> 0"
      "CheckCode (BAG_SIZE + 7) x = Some (r, x\<lparr>serial := fs, wire := wire x @ [data_frame j ws], ubuf := buf\<rparr>)"
    using CheckCode_ack [OF s(1) sv su, of "BAG_SIZE + 7"] unfolding tk data_frame_def by blast
  have "cnt w + word_of_int (fl mod int BAG_SIZE) < word_of_int (fl + int BAG_SIZE)"
    using packet_condition [OF fl(1,2), of j] fl(3) j(1) by (simp add: w)
  with r have "transmit fl w = Some (0, (x\<lparr>serial := fs, wire := wire x @ [data_frame j ws], ubuf := buf\<rparr>)
      \<lparr>cnt := cnt x + of_nat BAG_SIZE, address := address x + of_nat BAG_SIZE\<rparr>)"
    unfolding transmit_def x_def [symmetric] by simp
  moreover have "cnt x = of_nat (512 * j)" "address x = of_nat (512 * j)" "mask x = last (mask u # words pbuf)" "wire x = wire u"
      "tbuf x = (if j = 0 then flash32_bytes (ws ! 1) else tbuf u)"
    using a j(1) by (simp_all add: x_def w)
  ultimately show ?thesis
    unfolding sendUserFirmware_def w_def [symmetric] using r(2) \<open>length (tbuf x) = 4\<close>
    by (simp add: sizes_def BAG_SIZE_def algebra_simps)
qed

text \<open>The packet after the last chunk writes the withheld word.\<close>

lemma send_last:
  assumes u: "sizes u" and p: "length pbuf = 512" and j: "cnt u = of_nat (512 * j)" "0 < j"
    and fl: "0 \<le> fl" "fl < 2 ^ 31" "int j = fl div 512 + 1" and s: "acks f" "serial u = f # fs" and t: "tbuf u = flash32_bytes y"
  shows "\<exists>u'. sendUserFirmware pbuf fl u = Some (0, u') \<and> sizes u' \<and> serial u' = fs \<and> wire u' = wire u @ [last_frame y] \<and>
    mask u' = last (mask u # words pbuf)"
proof -
  define ws where "ws = chain_words (mask u) (words pbuf)"
  have "j < 2 ^ 23"
    using fl by simp
  from prepared [OF u p j(1) this ws_def] obtain xs zs where x: "length xs = 7" "length zs = 505" and
    v: "prepare_packet pbuf u = u\<lparr>mask := last (mask u # words pbuf), ubuf := xs @ bytes (chain_words 0 (packet_words j ws)) @ zs,
      tbuf := (if j = 0 then flash32_bytes (ws ! 1) else tbuf u), address := (if j = 0 then 0 else address u)\<rparr>"
    by blast
  define w where "w = prepare_packet pbuf u"
  note w = v [folded w_def]
  have lw: "length ws = 128"
    using p by (simp add: ws_def length_words)
  have tv: "tbuf w = flash32_bytes y"
    using t j(2) by (simp add: w)
  define x where "x = w\<lparr>ubuf := memcpy 7 (tbuf w) (memcpy 0 (write_header 4 4) (ubuf w))\<rparr>"
  let ?b = "bytes (chain_words 0 (packet_words j ws))"
  have ub: "ubuf x = write_header 4 4 @ flash32_bytes y @ drop 4 ?b @ zs"
  proof -
    have "memcpy 0 (write_header 4 4) (ubuf w) = write_header 4 4 @ take 4 ?b @ drop 4 ?b @ zs"
      using x by (simp add: w memcpy_front)
    then show ?thesis
      unfolding x_def tv using lw by simp (subst memcpy_mid, simp_all)
  qed
  then have su: "sizes x" and tk: "take (4 + 7) (ubuf x) = write_header 4 4 @ flash32_bytes y"
    using lw x(2) tv by (simp_all add: sizes_def x_def)
  have sv: "serial x = f # fs"
    using s(2) by (simp add: x_def w)
  have lf: "last_frame y = frame_of (write_header 4 4 @ flash32_bytes y)"
    by (simp add: last_frame_def bytes_def)
  obtain r buf where r: "0 \<le> r" "length buf = 1024" "buf ! 7 \<noteq> 0"
      "CheckCode (4 + 7) x = Some (r, x\<lparr>serial := fs, wire := wire x @ [last_frame y], ubuf := buf\<rparr>)"
    using CheckCode_ack [OF s(1) sv su, of "4 + 7"] unfolding tk lf by blast
  have "\<not> cnt w + word_of_int (fl mod int BAG_SIZE) < word_of_int (fl + int BAG_SIZE)"
    using packet_condition [OF fl(1,2), of j] fl(3) j(1) by (simp add: w)
  with r have "transmit fl w = Some (0, x\<lparr>serial := fs, wire := wire x @ [last_frame y], ubuf := buf\<rparr>)"
    unfolding transmit_def x_def [symmetric] by simp
  moreover have "mask x = last (mask u # words pbuf)" "wire x = wire u" "length (tbuf x) = 4"
    by (simp_all add: x_def w [unfolded t] tv)
  ultimately show ?thesis
    unfolding sendUserFirmware_def w_def [symmetric] using r(2) by (simp add: sizes_def)
qed

section \<open>The image on the wire\<close>

lemma chain_take: "chain_words m (take n ws) = take n (chain_words m ws)"
proof (induction ws arbitrary: m n)
  case (Cons w ws)
  then show ?case
    by (cases n) simp_all
qed simp

lemma chain_drop: "n \<le> length ws \<Longrightarrow> chain_words (last (m # take n ws)) (drop n ws) = drop n (chain_words m ws)"
  by (metis append_take_drop_id chain_words_append append_eq_conv_conj length_chain length_take min.absorb2)

text \<open>The words of chunk \<open>j\<close> as they are stored in the user's device: a slice of the unmasked image.\<close>

definition slice :: "nat \<Rightarrow> u32 list \<Rightarrow> u32 list" where
  "slice j ws = take 128 (drop (128 * j) ws)"

lemma chain_slice:
  "128 * (j + 1) \<le> length ws \<Longrightarrow> chain_words (last (m # take (128 * j) ws)) (slice j ws) = slice j (chain_words m ws)"
  unfolding slice_def chain_take by (subst chain_drop) simp_all

lemma last_slice:
  "128 * (j + 1) \<le> length ws \<Longrightarrow> last (last (m # take (128 * j) ws) # slice j ws) = last (m # take (128 * (j + 1)) ws)"
proof -
  assume l: "128 * (j + 1) \<le> length ws"
  have "take (128 * (j + 1)) ws = take (128 * j) ws @ slice j ws"
    by (simp add: slice_def take_add [symmetric] add.commute)
  moreover have "slice j ws \<noteq> []"
    using l by (simp add: slice_def)
  ultimately show ?thesis
    by simp
qed

text \<open>The sender before chunk \<open>j\<close> of the words \<open>ws\<close> in the flash, with the initial mask \<open>m0\<close>.\<close>

definition at_chunk :: "u32 \<Rightarrow> u32 list \<Rightarrow> nat \<Rightarrow> userfwpro \<Rightarrow> bool" where
  "at_chunk m0 ws j u \<longleftrightarrow> sizes u \<and> cnt u = of_nat (512 * j) \<and> (j = 0 \<or> address u = of_nat (512 * j)) \<and>
     mask u = last (m0 # take (128 * j) ws) \<and> (j = 0 \<or> tbuf u = flash32_bytes (chain_words m0 ws ! 1)) \<and> (\<forall>f\<in>set (serial u). acks f)"

lemma check_none: "serial u = [] \<Longrightarrow> CheckCode n u = None"
  by (simp add: CheckCode_def numeral_3_eq_3)

lemma read_chunk:
  assumes chip: "w25q64 bus idle armed busy left" and c: "idle m c" and b: "unat B + 512 * (j + 1) \<le> 0x800000"
  shows "\<exists>c'. flash_read bus W25Q64 (B + of_nat (j * BAG_SIZE)) (of_nat BAG_SIZE) c = (Some (mem_read m (unat B + 512 * j) 512), c') \<and> idle m c'"
proof -
  have "unat (of_nat (j * BAG_SIZE) :: u32) = 512 * j"
    using b unat_of_nat_u32 [of "j * BAG_SIZE"] by (simp add: BAG_SIZE_def)
  then have u: "unat (B + of_nat (j * BAG_SIZE)) = unat B + 512 * j"
    using b by (simp add: unat_word_ariths)
  have l: "unat (of_nat BAG_SIZE :: u32) = 512"
    by (simp add: BAG_SIZE_def)
  show ?thesis
    using flash_read_refines [OF chip _ _ _ c, of W25Q64 "B + of_nat (j * BAG_SIZE)" "of_nat BAG_SIZE"] b
    unfolding u l by (simp add: W25Q64_def)
qed

lemma words_slice:
  assumes "length bs = 512 * n" "j < n"
  shows "words (take 512 (drop (512 * j) bs)) = slice j (words bs)"
proof -
  let ?x = "take (512 * j) bs" and ?y = "take 512 (drop (512 * j) bs)" and ?z = "drop 512 (drop (512 * j) bs)"
  have t: "length ?x = 512 * j" "length ?y = 512"
    using assms by simp_all
  have m: "(512 * j) mod 4 = 0"
    using mod_mult_self1_is_0 [of 4 "128 * j"] by simp
  have "bs = ?x @ ?y @ ?z"
    by (metis append_take_drop_id)
  then have "words bs = words (?x @ ?y @ ?z)"
    by (rule arg_cong)
  also have "\<dots> = words ?x @ words ?y @ words ?z"
    using words_append [of ?x "?y @ ?z"] words_append [of ?y ?z] unfolding t m by simp
  finally have w: "words bs = words ?x @ words ?y @ words ?z" .
  have "length (words (take (512 * j) bs)) = 128 * j" "length (words (take 512 (drop (512 * j) bs))) = 128"
    using t by (simp_all add: length_words)
  then show ?thesis
    by (simp add: slice_def w)
qed

lemma send_chunks:
  assumes chip: "w25q64 bus idle armed busy left" and b: "unat B + 512 * (q + 2) \<le> 0x800000"
    and fl: "0 \<le> fl" "fl < 2 ^ 31" "int q = fl div 512" and ws: "ws = words (mem_read m (unat B) (512 * (q + 2)))"
  shows "j \<le> q + 1 \<Longrightarrow> at_chunk m0 ws j u \<Longrightarrow> idle m c \<Longrightarrow> q + 1 - j + k \<le> length (serial u) \<Longrightarrow>
    \<exists>u1 c1. send_packets bus W25Q64 B fl ([j..<q + 1] @ js) u c = send_packets bus W25Q64 B fl js u1 c1 \<and>
      at_chunk m0 ws (q + 1) u1 \<and> idle m c1 \<and> k \<le> length (serial u1) \<and>
      wire u1 = wire u @ map (\<lambda>j. data_frame j (slice j (chain_words m0 ws))) [j..<q + 1]"
proof (induction "q + 1 - j" arbitrary: j u c)
  case 0
  then show ?case
    by auto
next
  case (Suc n)
  then have jq: "j < q + 1" and r: "[j..<q + 1] = j # [j + 1..<q + 1]"
    by (simp_all add: upt_conv_Cons del: upt_Suc)
  let ?p = "mem_read m (unat B + 512 * j) 512"
  let ?w = "slice j (chain_words m0 ws)"
  obtain c2 where c2: "flash_read bus W25Q64 (B + of_nat (j * BAG_SIZE)) (of_nat BAG_SIZE) c = (Some ?p, c2)" "idle m c2"
    using read_chunk [OF chip Suc.prems(3), of B j] jq b by auto
  have lm: "length (mem_read m (unat B) (512 * (q + 2))) = 512 * (q + 2)"
    by (simp add: mem_read_def)
  then have lw: "length ws = 128 * (q + 2)"
    by (simp add: ws length_words)
  have p: "?p = take 512 (drop (512 * j) (mem_read m (unat B) (512 * (q + 2))))"
    using jq by (intro nth_equalityI) (simp_all add: mem_read_def add.assoc)
  have pw: "words ?p = slice j ws"
    unfolding p ws using words_slice [OF lm, of j] jq by simp
  have lp: "length ?p = 512"
    by (simp add: mem_read_def)
  have cw: "?w = chain_words (mask u) (words ?p)"
    using Suc.prems(2) chain_slice [of j ws m0] lw jq by (simp add: at_chunk_def pw)
  have step: "send_packets bus W25Q64 B fl ([j..<q + 1] @ js) u c =
      do { (_, u) \<leftarrow> sendUserFirmware ?p fl u; send_packets bus W25Q64 B fl ([j + 1..<q + 1] @ js) u c2 }"
    using c2(1) unfolding r by simp
  obtain f fs where f: "serial u = f # fs" "acks f"
    using Suc.prems(2,4) jq by (cases "serial u") (auto simp: at_chunk_def)
  have jfl: "int j \<le> fl div 512"
    using jq fl(3) by simp
  obtain u2 where u2: "sendUserFirmware ?p fl u = Some (0, u2)" "sizes u2" "cnt u2 = of_nat (512 * (j + 1))"
      "address u2 = of_nat (512 * (j + 1))" "mask u2 = last (mask u # words ?p)" "serial u2 = fs"
      "wire u2 = wire u @ [data_frame j ?w]" "tbuf u2 = (if j = 0 then flash32_bytes (?w ! 1) else tbuf u)"
    using send_packet [OF _ lp _ _ fl(1,2) jfl f(2,1) cw] Suc.prems(2) unfolding at_chunk_def by blast
  have "at_chunk m0 ws (j + 1) u2"
  proof -
    have mu: "mask u = last (m0 # take (128 * j) ws)"
      using Suc.prems(2) unfolding at_chunk_def by blast
    have "mask u2 = last (m0 # take (128 * (j + 1)) ws)"
      unfolding u2(5) pw mu by (rule last_slice) (use lw jq in simp)
    moreover have "tbuf u2 = flash32_bytes (chain_words m0 ws ! 1)"
      using u2(8) Suc.prems(2) lw by (auto simp: at_chunk_def slice_def)
    ultimately show ?thesis
      using u2 Suc.prems(2) f(1) by (simp add: at_chunk_def)
  qed
  moreover have e: "send_packets bus W25Q64 B fl ([j..<q + 1] @ js) u c = send_packets bus W25Q64 B fl ([j + 1..<q + 1] @ js) u2 c2"
    using step u2(1) by simp
  moreover have "n = q + 1 - (j + 1)" "j + 1 \<le> q + 1" "q + 1 - (j + 1) + k \<le> length (serial u2)"
    using Suc.hyps(2) Suc.prems(4) jq f(1) u2(6) by simp_all
  ultimately obtain u1 c1 where "send_packets bus W25Q64 B fl ([j + 1..<q + 1] @ js) u2 c2 = send_packets bus W25Q64 B fl js u1 c1"
      "at_chunk m0 ws (q + 1) u1" "idle m c1" "k \<le> length (serial u1)"
      "wire u1 = wire u2 @ map (\<lambda>j. data_frame j (slice j (chain_words m0 ws))) [j + 1..<q + 1]"
    using Suc.hyps(1) [OF _ _ _ c2(2)] by blast
  then show ?case
    using u2(7) e unfolding r by (intro exI [of _ u1] exI [of _ c1]) simp
qed

section \<open>What the receiver stores\<close>

lemma slice_packet:
  "packet_words j (slice j V) = slice j (withheld V)"
  by (cases j) (simp_all add: packet_words_def withheld_def slice_def take_update_swap drop_update_cancel)

lemma receive_data:
  assumes "length w = 128" "512 * j < 2 ^ 32"
  shows "receive m [data_frame j w] = mem_program m (512 * j) (bytes (packet_words j w))"
proof -
  let ?d = "write_header (of_nat (512 * j)) 512 @ bytes (chain_words 0 (packet_words j w))"
  have "unframe (frame_of ?d) = Some ?d"
    using assms(1) by (intro unframe_frame) simp
  moreover have "unat (of_nat (512 * j) :: u32) = 512 * j"
    using assms(2) by (rule unat_of_nat_u32)
  ultimately show ?thesis
    by (simp add: receive_def data_frame_def load_packet del: of_nat_mult)
qed

lemma receive_chunks:
  assumes "length V = 128 * N" "512 * N < 2 ^ 32"
  shows "n \<le> N \<Longrightarrow> receive m (map (\<lambda>j. data_frame j (slice j V)) [0..<n]) = mem_program m 0 (bytes (take (128 * n) (withheld V)))"
proof (induction n)
  case 0
  then show ?case
    by (simp add: receive_def bytes_def)
next
  case (Suc n)
  have l: "length (slice n V) = 128"
    using assms(1) Suc.prems by (simp add: slice_def)
  have lv: "length (withheld V) = 128 * N"
    using assms(1) by (simp add: withheld_def)
  have "receive m (map (\<lambda>j. data_frame j (slice j V)) [0..<Suc n]) =
      receive (receive m (map (\<lambda>j. data_frame j (slice j V)) [0..<n])) [data_frame n (slice n V)]"
    by (simp add: receive_append)
  also have "\<dots> = mem_program (mem_program m 0 (bytes (take (128 * n) (withheld V)))) (512 * n) (bytes (slice n (withheld V)))"
    using Suc assms l by (simp add: receive_data slice_packet)
  also have "\<dots> = mem_program m 0 (bytes (take (128 * n) (withheld V)) @ bytes (slice n (withheld V)))"
    using mem_program_append [of m 0 "bytes (take (128 * n) (withheld V))"] lv Suc.prems by simp
  also have "\<dots> = mem_program m 0 (bytes (take (128 * Suc n) (withheld V)))"
    by (simp add: slice_def take_add [symmetric] bytes_append [symmetric] add.commute del: bytes_append)
  finally show ?case .
qed

lemma program_gap:
  assumes "length xs = 4" "length ys = 4"
  shows "mem_program (mem_program (\<lambda>_. 0xff) 0 (xs @ replicate 4 0xff @ zs)) 4 ys = mem_program (\<lambda>_. 0xff) 0 (xs @ ys @ zs)"
  using assms by (auto simp: mem_program_def fun_eq_iff nth_append not_less)

lemma receive_image:
  assumes "length V = 128 * N" "0 < N" "512 * N < 2 ^ 32"
  shows "receive (\<lambda>_. 0xff) (map (\<lambda>j. data_frame j (slice j V)) [0..<N] @ [last_frame (V ! 1)]) = mem_program (\<lambda>_. 0xff) 0 (bytes V)"
proof -
  obtain w0 w1 rest where V: "V = w0 # w1 # rest"
    using assms(1,2) by (cases V; cases "tl V") auto
  have "unframe (last_frame w1) = Some (write_header 4 4 @ bytes (chain_words 0 [w1]))"
    unfolding last_frame_def by (rule unframe_frame) simp
  then have last: "receive m [last_frame w1] = mem_program m 4 (bytes [w1])" for m
    using load_packet [of m 4 4 "[w1]"] by (simp add: receive_def)
  have "receive (\<lambda>_. 0xff) (map (\<lambda>j. data_frame j (slice j V)) [0..<N]) = mem_program (\<lambda>_. 0xff) 0 (bytes (withheld V))"
    using receive_chunks [OF assms(1,3), of N] assms(1) by (simp add: withheld_def)
  moreover have "bytes (withheld V) = flash32_bytes w0 @ replicate 4 0xff @ bytes rest"
    by (simp add: V withheld_def bytes_def erased_word)
  moreover have "bytes V = flash32_bytes w0 @ bytes [w1] @ bytes rest"
    by (simp add: V bytes_def)
  ultimately show ?thesis
    using program_gap [of "flash32_bytes w0" "bytes [w1]" "bytes rest"] by (simp add: receive_append last V)
qed

text \<open>Requests for the version and the start of the firmware store nothing.\<close>

lemma receive_command: "c \<noteq> UC_WRITE_FLASH \<Longrightarrow> receive m (replicate n (frame_of [c])) = m"
  by (induction n) (simp_all add: receive_def unframe_frame load_def)

section \<open>The task\<close>

lemma CheckCode_partial:
  assumes "CheckCode n u = Some (r, u')" "sizes u" "\<forall>f\<in>set (serial u). acks f"
  shows "\<exists>f buf. serial u = f # serial u' \<and> u' = u\<lparr>serial := serial u', wire := wire u @ [frame_of (take n (ubuf u))], ubuf := buf\<rparr> \<and> length buf = 1024"
proof -
  obtain f fs where f: "serial u = f # fs"
    using assms(1) check_none [of u n] by (cases "serial u") auto
  with assms(3) CheckCode_ack [of f u fs n] assms(1,2) show ?thesis
    by auto
qed

text \<open>A loader: it acknowledges, and its answer to the query for the version names it.\<close>

definition loader :: "(u8 list \<Rightarrow> u8 list) \<Rightarrow> bool" where
  "loader f \<longleftrightarrow> acks f \<and> (\<forall>u fs. sizes u \<and> serial u = f # fs \<longrightarrow> (\<exists>u'. getUserVersion u = Some (0, u')))"

lemma getUserVersion_frame:
  assumes g: "getUserVersion u = Some (r, u1)" and s: "sizes u" and a: "\<forall>f\<in>set (serial u). acks f"
  shows "\<exists>f fs buf. serial u = f # fs \<and> u1 = u\<lparr>serial := fs, wire := wire u @ [frame_of [UC_GET_VER]], ubuf := buf\<rparr> \<and> length buf = 1024"
proof -
  let ?u = "u\<lparr>ubuf := (ubuf u)[0 := UC_GET_VER]\<rparr>"
  from g obtain r2 u2 where c: "CheckCode 1 ?u = Some (r2, u2)"
      and u1: "u1 = u2 \<or> u1 = u2\<lparr>ubuf := (ubuf u2)[unat (ubuf u2 ! 1) + 2 := 0]\<rparr>"
    by (auto simp: getUserVersion_def bind_eq_Some_conv Let_def split: if_splits)
  have "sizes ?u" "\<forall>f\<in>set (serial ?u). acks f"
    using s a by (simp_all add: sizes_def)
  from CheckCode_partial [OF c this] obtain f buf where f: "serial ?u = f # serial u2"
      and u2: "u2 = ?u\<lparr>serial := serial u2, wire := wire ?u @ [frame_of (take 1 (ubuf ?u))], ubuf := buf\<rparr>" and b: "length buf = 1024"
    by blast
  define fs where "fs = serial u2"
  have tk: "take 1 ((ubuf u)[0 := UC_GET_VER]) = [UC_GET_VER]"
    using s by (cases "ubuf u") (simp_all add: sizes_def)
  have u2': "u2 = u\<lparr>serial := fs, wire := wire u @ [frame_of [UC_GET_VER]], ubuf := buf\<rparr>"
    using u2 tk unfolding fs_def by simp
  have "\<exists>buf. u1 = u\<lparr>serial := fs, wire := wire u @ [frame_of [UC_GET_VER]], ubuf := buf\<rparr> \<and> length buf = 1024"
    using u1
  proof
    assume "u1 = u2"
    with u2' b show ?thesis
      by blast
  next
    assume "u1 = u2\<lparr>ubuf := (ubuf u2)[unat (ubuf u2 ! 1) + 2 := 0]\<rparr>"
    then have "u1 = u\<lparr>serial := fs, wire := wire u @ [frame_of [UC_GET_VER]], ubuf := buf[unat (buf ! 1) + 2 := 0]\<rparr>"
      unfolding u2' by simp
    moreover have "length (buf[unat (buf ! 1) + 2 := 0]) = 1024"
      using b by simp
    ultimately show ?thesis
      by blast
  qed
  with f show ?thesis
    unfolding fs_def by auto
qed

lemma await_version_loader:
  assumes "loader f" "serial u = f # fs" "sizes u" "\<forall>f\<in>set fs. acks f"
  shows "\<exists>buf. await_version u = Some (u\<lparr>serial := fs, wire := wire u @ [frame_of [UC_GET_VER]], ubuf := buf\<rparr>) \<and> length buf = 1024"
proof -
  obtain u1 where g: "getUserVersion u = Some (0, u1)"
    using assms(1-3) unfolding loader_def by blast
  moreover have "\<forall>f\<in>set (serial u). acks f"
    using assms(1,2,4) by (simp add: loader_def)
  ultimately show ?thesis
    using getUserVersion_frame [OF g assms(3)] assms(2) by (subst await_version.simps) auto
qed

lemma take_bytes: "take (4 * n) (bytes ws) = bytes (take n ws)"
proof (induction n arbitrary: ws)
  case (Suc n)
  show ?case
  proof (cases ws)
    case (Cons w ws')
    then have "bytes ws = flash32_bytes w @ bytes ws'"
      by (simp add: bytes_def)
    moreover have "bytes (take (Suc n) ws) = flash32_bytes w @ bytes (take n ws')"
      using Cons by (simp add: bytes_def)
    ultimately show ?thesis
      by (simp add: Suc.IH)
  qed (simp add: bytes_def)
qed (simp add: bytes_def)

lemma take_words: "take n (words bs) = words (take (4 * n) bs)"
proof (induction bs arbitrary: n rule: words.induct)
  case (1 a b c d bs)
  have "4 * Suc k = Suc (Suc (Suc (Suc (4 * k))))" for k
    by simp
  with 1 show ?case
    by (cases n) (simp_all del: mult_Suc_right)
qed (auto simp: take_Cons')

lemma take_mem_read: "n \<le> k \<Longrightarrow> take n (mem_read m a k) = mem_read m a n"
  by (simp add: mem_read_def take_map)

lemma length_mem_read [simp]: "length (mem_read m a n) = n"
  by (simp add: mem_read_def)

lemma read_programmed: "n \<le> length bs \<Longrightarrow> mem_read (mem_program (\<lambda>_. 0xff) 0 bs) 0 n = take n bs"
  by (intro nth_equalityI) (simp_all add: mem_read_def mem_program_def)

lemma find_image_holds:
  assumes chip: "w25q64 bus idle armed busy left" and i: "i < 2" and h: "holds m i img" and c: "idle m c"
  shows "\<exists>c'. find_image bus W25Q64 [0, 1] c = (of_nat (i * 0x40000 + 4), c') \<and> idle m c'"
proof -
  have v: "buf_flag m i = USER_IMG_MAP_BUF_VAILE_FLAG" and b: "blank m (1 - i)"
    using h by (simp_all add: holds_def)
  obtain c0 bs0 where f0: "flash_read bus W25Q64 (USER_IMG_MAP_BUF_START + of_nat 0 * USER_IMG_MAP_BUF_SIZE) USER_IMG_MAP_BUF_FLAG_LEN c =
      (Some bs0, c0)" "idle m c0" "flash32 bs0 = buf_flag m 0"
    using flag_read [OF chip _ c, of 0] by auto
  obtain c1 bs1 where f1: "flash_read bus W25Q64 (USER_IMG_MAP_BUF_START + of_nat 1 * USER_IMG_MAP_BUF_SIZE) USER_IMG_MAP_BUF_FLAG_LEN c0 =
      (Some bs1, c1)" "idle m c1" "flash32 bs1 = buf_flag m 1"
    using flag_read [OF chip _ f0(2), of 1] by auto
  consider "i = 0" | "i = 1"
    using i by linarith
  then show ?thesis
  proof cases
    case 1
    with f0 v show ?thesis
      by (simp add: USER_IMG_MAP_BUF_START_def USER_IMG_MAP_BUF_FLAG_LEN_def)
  next
    case 2
    then have "buf_flag m 0 \<noteq> USER_IMG_MAP_BUF_VAILE_FLAG"
      using blank_flag [of m 0] b vaile_not_clear by simp
    with 2 f0 f1 v show ?thesis
      by (simp add: USER_IMG_MAP_BUF_START_def USER_IMG_MAP_BUF_FLAG_LEN_def USER_IMG_MAP_BUF_SIZE_def)
  qed
qed

text \<open>All the packets: the chunks of the image, then the withheld word.\<close>

lemma send_packets_frames:
  assumes chip: "w25q64 bus idle armed busy left" and b: "unat B + 512 * (q + 2) \<le> 0x800000"
    and fl: "0 \<le> fl" "fl < 2 ^ 31" "int q = fl div 512" and ws: "ws = words (mem_read m (unat B) (512 * (q + 2)))"
    and u: "sizes u" "cnt u = 0" "\<forall>f\<in>set (serial u). acks f" and c: "idle m c"
    and n: "q + 2 + k \<le> length (serial u)"
  shows "\<exists>u' c'. send_packets bus W25Q64 B fl [0..<q + 2] u c = Some (u', c') \<and> k \<le> length (serial u') \<and>
    wire u' = wire u @ map (\<lambda>j. data_frame j (slice j (chain_words (mask u) ws))) [0..<q + 1] @ [last_frame (chain_words (mask u) ws ! 1)] \<and>
    sizes u' \<and> (\<forall>f\<in>set (serial u'). acks f) \<and> idle m c' \<and> mask u' = last (mask u # ws)"
proof -
  have a: "at_chunk (mask u) ws 0 u"
    using u by (simp add: at_chunk_def)
  have js: "[0..<q + 2] = [0..<q + 1] @ [q + 1]"
    by simp
  have "q + 1 - 0 + (k + 1) \<le> length (serial u)"
    using n by simp
  then obtain u1 c1 where u1: "send_packets bus W25Q64 B fl ([0..<q + 1] @ [q + 1]) u c = send_packets bus W25Q64 B fl [q + 1] u1 c1"
      "at_chunk (mask u) ws (q + 1) u1" "idle m c1" "k + 1 \<le> length (serial u1)"
      "wire u1 = wire u @ map (\<lambda>j. data_frame j (slice j (chain_words (mask u) ws))) [0..<q + 1]"
    using send_chunks [OF chip b fl ws _ a c] by blast
  let ?p = "mem_read m (unat B + 512 * (q + 1)) 512"
  obtain c2 where c2: "flash_read bus W25Q64 (B + of_nat ((q + 1) * BAG_SIZE)) (of_nat BAG_SIZE) c1 = (Some ?p, c2)" "idle m c2"
    using read_chunk [OF chip u1(3), of B "q + 1"] b by auto
  have step: "send_packets bus W25Q64 B fl [0..<q + 2] u c = do { (_, u) \<leftarrow> sendUserFirmware ?p fl u1; Some (u, c2) }"
    unfolding js u1(1) using c2(1) by simp
  obtain f fs where f: "serial u1 = f # fs" "acks f" "\<forall>f\<in>set fs. acks f"
    using u1(2,4) by (cases "serial u1") (auto simp: at_chunk_def)
  have "int (q + 1) = fl div 512 + 1"
    using fl(3) by simp
  from send_last [OF _ _ _ _ fl(1,2) this f(2,1), of ?p "chain_words (mask u) ws ! 1"] u1(2)
  obtain u2 where u2: "sendUserFirmware ?p fl u1 = Some (0, u2)" "sizes u2" "serial u2 = fs"
      "wire u2 = wire u1 @ [last_frame (chain_words (mask u) ws ! 1)]" "mask u2 = last (mask u1 # words ?p)"
    by (auto simp: at_chunk_def)
  have lw: "length ws = 128 * (q + 2)"
    by (simp add: ws length_words)
  have p: "?p = take 512 (drop (512 * (q + 1)) (mem_read m (unat B) (512 * (q + 2))))"
    by (intro nth_equalityI) (simp_all add: mem_read_def add.assoc)
  have pw: "words ?p = slice (q + 1) ws"
    unfolding p ws by (rule words_slice [of _ "q + 2"]) simp_all
  have "mask u1 = last (mask u # take (128 * (q + 1)) ws)"
    using u1(2) unfolding at_chunk_def by blast
  then have "mask u2 = last (mask u # take (128 * (q + 1 + 1)) ws)"
    unfolding u2(5) pw by (simp only:) (rule last_slice, simp add: lw)
  then have "mask u2 = last (mask u # ws)"
    using lw by simp
  moreover have "send_packets bus W25Q64 B fl [0..<q + 2] u c = Some (u2, c2)"
    using step u2(1) by simp
  ultimately show ?thesis
    using u1(4,5) u2 f c2(2) by (intro exI [of _ u2] exI [of _ c2]) simp
qed

lemma receive_version: "receive m [frame_of [UC_GET_VER]] = m" "receive m [frame_of [UC_RUN_CODE]] = m"
  using receive_command [of UC_GET_VER m 1] receive_command [of UC_RUN_CODE m 1]
  by (simp_all add: UC_GET_VER_def UC_RUN_CODE_def UC_WRITE_FLASH_def)

lemma image_received:
  assumes "length ws = 128 * (q + 2)" "take n ws = cipher" "4 * n \<le> 512 * (q + 1)" "512 * (q + 1) < 2 ^ 32"
  shows "mem_read (receive (\<lambda>_. 0xff) (map (\<lambda>j. data_frame j (slice j (chain_words k ws))) [0..<q + 1] @ [last_frame (chain_words k ws ! 1)])) 0 (4 * n) = bytes (chain_words k cipher)"
proof -
  let ?V = "take (128 * (q + 1)) (chain_words k ws)"
  have l: "length ?V = 128 * (q + 1)"
    using assms(1) by simp
  have sl: "slice j (chain_words k ws) = slice j ?V" if "j < q + 1" for j
    using that by (simp add: slice_def drop_take min_def)
  have "map (\<lambda>j. data_frame j (slice j (chain_words k ws))) [0..<q + 1] = map (\<lambda>j. data_frame j (slice j ?V)) [0..<q + 1]"
    by (rule map_cong [OF refl], subst sl) auto
  moreover have "chain_words k ws ! 1 = ?V ! 1"
    by simp
  ultimately have "receive (\<lambda>_. 0xff) (map (\<lambda>j. data_frame j (slice j (chain_words k ws))) [0..<q + 1] @ [last_frame (chain_words k ws ! 1)]) =
      mem_program (\<lambda>_. 0xff) 0 (bytes ?V)"
    using receive_image [OF l _ assms(4)] by (simp only:)
  then have "mem_read (receive (\<lambda>_. 0xff) (map (\<lambda>j. data_frame j (slice j (chain_words k ws))) [0..<q + 1] @ [last_frame (chain_words k ws ! 1)])) 0 (4 * n) =
      take (4 * n) (bytes ?V)"
    using assms(3) l by (simp only:) (rule read_programmed, simp)
  also have "\<dots> = bytes (chain_words k (take n ws))"
    using assms(3) by (simp add: take_bytes chain_take min_def)
  finally show ?thesis
    using assms(2) by simp
qed

text \<open>The frames of an image before the last word: the query for the version, then the packets.\<close>

definition image_frames :: "nat \<Rightarrow> u32 list \<Rightarrow> u8 list list" where
  "image_frames q V = [frame_of [UC_GET_VER]] @ map (\<lambda>j. data_frame j (slice j V)) [0..<q + 1]"

text \<open>What a run of the task puts on the wire, and what the receiver makes of it.\<close>

lemma send_image_frames:
  assumes chip: "w25q64 bus idle armed busy left" and c: "idle m (chip s)" and i: "i < 2"
    and h: "holds m i (bytes cipher)" and len: "fileLength (updateinfo s) = int (4 * length cipher)"
    and l: "4 * length cipher \<le> 0x3FFFC" and a: "\<forall>f\<in>set (serial u). loader f" "length cipher div 128 + 4 \<le> length (serial u)"
  shows "\<exists>u' s' q ws. send_image bus W25Q64 u s = Some (True, u', s') \<and>
    drop (length (wire u)) (wire u') = image_frames q (chain_words (mask u) ws) @ [last_frame (chain_words (mask u) ws ! 1), frame_of [UC_RUN_CODE]] \<and>
    length ws = 128 * (q + 2) \<and> take (length cipher) ws = cipher \<and> 4 * length cipher \<le> 512 * (q + 1) \<and> q \<le> 511"
proof -
  let ?fl = "fileLength (updateinfo s)"
  let ?B = "of_nat (i * 0x40000 + 4) :: u32"
  let ?q = "nat (?fl div 512)"
  have B: "unat ?B = i * 0x40000 + 4"
    by (rule unat_of_nat_u32) (use i in simp)
  have ncl: "?B \<noteq> USER_IMG_MAP_BUF_CLEAR_FLAG"
    using i B by (auto simp: USER_IMG_MAP_BUF_CLEAR_FLAG_def less_2_cases_iff)
  have q: "int ?q = ?fl div 512" "nat (?fl div int BAG_SIZE + 2) = ?q + 2"
    using len by (simp_all add: BAG_SIZE_def nat_add_distrib)
  have fl: "0 \<le> ?fl" "?fl < 2 ^ 31"
    using len l by simp_all
  have ql: "4 * length cipher < 512 * (?q + 1)" "?q \<le> 511" "?q = length cipher div 128"
    using len l by simp_all
  obtain f fs where f: "serial u = f # fs" "?q + 2 + 1 \<le> length fs"
    using a(2) unfolding ql(3) by (cases "serial u") auto
  have "loader f" "\<forall>f\<in>set fs. acks f" "serial (userfwpro_init u) = f # fs" "sizes (userfwpro_init u)"
    using a(1) f by (simp_all add: userfwpro_init_def sizes_def loader_def)
  from await_version_loader [OF this(1,3,4,2)] obtain buf where v: "await_version (userfwpro_init u) =
      Some ((userfwpro_init u)\<lparr>serial := fs, wire := wire u @ [frame_of [UC_GET_VER]], ubuf := buf\<rparr>)" "length buf = 1024"
    by (auto simp: userfwpro_init_def)
  define v1 where "v1 = (userfwpro_init u)\<lparr>serial := fs, wire := wire u @ [frame_of [UC_GET_VER]], ubuf := buf\<rparr>"
  have sv: "sizes v1" "cnt v1 = 0" "\<forall>f\<in>set (serial v1). acks f" "mask v1 = mask u" "wire v1 = wire u @ [frame_of [UC_GET_VER]]"
      "?q + 2 + 1 \<le> length (serial v1)"
    using v(2) a(1) f by (auto simp: v1_def sizes_def userfwpro_init_def loader_def)
  obtain c1 where c1: "find_image bus W25Q64 [0, 1] (chip s) = (?B, c1)" "idle m c1"
    using find_image_holds [OF chip i h c] by blast
  let ?ws = "words (mem_read m (unat ?B) (512 * (?q + 2)))"
  have b: "unat ?B + 512 * (?q + 2) \<le> 0x800000"
    unfolding B using i ql(2) by simp
  from send_packets_frames [OF chip b fl q(1) refl sv(1-3) c1(2) sv(6)] obtain w c2 where
    w: "send_packets bus W25Q64 ?B ?fl [0..<?q + 2] v1 c1 = Some (w, c2)" "1 \<le> length (serial w)" "sizes w" "\<forall>f\<in>set (serial w). acks f"
      "wire w = wire v1 @ map (\<lambda>j. data_frame j (slice j (chain_words (mask u) ?ws))) [0..<?q + 1] @ [last_frame (chain_words (mask u) ?ws ! 1)]"
    unfolding sv(4) by blast
  let ?w = "w\<lparr>ubuf := (ubuf w)[0 := UC_RUN_CODE]\<rparr>"
  obtain g gs where g: "serial ?w = g # gs" "acks g" "sizes ?w"
    using w(2-4) by (cases "serial w") (auto simp: sizes_def)
  have tk: "take 1 (ubuf ?w) = [UC_RUN_CODE]"
    using w(3) by (cases "ubuf w") (simp_all add: sizes_def)
  obtain r x where run: "runUserFirmware w = Some (r, x)" "wire x = wire w @ [frame_of [UC_RUN_CODE]]"
    using CheckCode_ack [OF g(2,1,3), of 1] unfolding tk by (auto simp: runUserFirmware_def)
  have e: "send_image bus W25Q64 u s = Some (True, x, s\<lparr>chip := c2,
      userFirmwareSendCompleteFlag := (if r \<noteq> 0 then userFirmwareSendCompleteFlag s else True)\<rparr>)"
    unfolding send_image_def v(1) v1_def [symmetric]
    by (simp only: bind.bind_lunit c1(1) Let_def case_prod_conv ncl if_False q(2) w(1) run(1))
  have wire: "drop (length (wire u)) (wire x) = [frame_of [UC_GET_VER]] @
      (map (\<lambda>j. data_frame j (slice j (chain_words (mask u) ?ws))) [0..<?q + 1] @ [last_frame (chain_words (mask u) ?ws ! 1)]) @
      [frame_of [UC_RUN_CODE]]"
    using w(5) run(2) sv(5) by simp
  have lw: "length ?ws = 128 * (?q + 2)"
    by (simp add: length_words)
  have tk: "take (length cipher) ?ws = cipher"
  proof -
    have "take (4 * length cipher) (mem_read m (unat ?B) (512 * (?q + 2))) = bytes cipher"
      unfolding B using h ql(1) by (simp add: take_mem_read holds_def)
    then show ?thesis
      by (simp add: take_words)
  qed
  have "drop (length (wire u)) (wire x) =
      image_frames ?q (chain_words (mask u) ?ws) @ [last_frame (chain_words (mask u) ?ws ! 1), frame_of [UC_RUN_CODE]]"
    unfolding wire by (simp add: image_frames_def)
  with e lw tk ql(1,2) show ?thesis
    by (intro exI [of _ x] exI [of _ "s\<lparr>chip := c2,
      userFirmwareSendCompleteFlag := (if r \<noteq> 0 then userFirmwareSendCompleteFlag s else True)\<rparr>"] exI [of _ ?q] exI [of _ ?ws]) simp
qed

lemma receive_image_frames: "receive m (image_frames q V) = receive m (map (\<lambda>j. data_frame j (slice j V)) [0..<q + 1])"
  by (simp only: image_frames_def receive_append receive_version)

lemma send_image_received:
  assumes chip: "w25q64 bus idle armed busy left" and c: "idle m (chip s)" and i: "i < 2"
    and h: "holds m i (bytes cipher)" and len: "fileLength (updateinfo s) = int (4 * length cipher)"
    and l: "4 * length cipher \<le> 0x3FFFC" and a: "\<forall>f\<in>set (serial u). loader f" "length cipher div 128 + 4 \<le> length (serial u)"
  shows "\<exists>u' s'. send_image bus W25Q64 u s = Some (True, u', s') \<and>
    mem_read (receive (\<lambda>_. 0xff) (drop (length (wire u)) (wire u'))) 0 (4 * length cipher) = bytes (chain_words (mask u) cipher)"
proof -
  obtain u' s' q ws where x: "send_image bus W25Q64 u s = Some (True, u', s')"
      "drop (length (wire u)) (wire u') = image_frames q (chain_words (mask u) ws) @ [last_frame (chain_words (mask u) ws ! 1), frame_of [UC_RUN_CODE]]"
      "length ws = 128 * (q + 2)" "take (length cipher) ws = cipher" "4 * length cipher \<le> 512 * (q + 1)" "q \<le> 511"
    using send_image_frames [OF assms] by blast
  have "receive (\<lambda>_. 0xff) (drop (length (wire u)) (wire u')) =
      receive (\<lambda>_. 0xff) (map (\<lambda>j. data_frame j (slice j (chain_words (mask u) ws))) [0..<q + 1] @ [last_frame (chain_words (mask u) ws ! 1)])"
    unfolding x(2) receive_append receive_image_frames
    using receive_append [of _ "[last_frame (chain_words (mask u) ws ! 1)]" "[frame_of [UC_RUN_CODE]]"] by (simp add: receive_version)
  with image_received [OF x(3,4,5), of "mask u"] x(1,6) show ?thesis
    by simp
qed

text \<open>
  The order on the wire: while the packets of the image arrive, the second word stays erased, and when they have arrived
  nothing else is missing.
\<close>

lemma image_order:
  assumes V: "length V = 128 * (q + 2)" and q: "512 * (q + 1) < 2 ^ 32"
  shows "mem_read (receive (\<lambda>_. 0xff) (take k (image_frames q V))) 4 4 = replicate 4 0xff"
    and "a < 4 \<or> 8 \<le> a \<Longrightarrow> receive (\<lambda>_. 0xff) (image_frames q V @ [last_frame (V ! 1)]) a = receive (\<lambda>_. 0xff) (image_frames q V) a"
proof -
  let ?V = "take (128 * (q + 1)) V"
  have l: "length ?V = 128 * (q + 1)" using V by simp
  have sl: "map (\<lambda>j. data_frame j (slice j V)) [0..<n] = map (\<lambda>j. data_frame j (slice j ?V)) [0..<n]" if "n \<le> q + 1" for n
    using that by (intro map_cong [OF refl], subst (2) slice_def) (simp add: slice_def drop_take min_def)
  have chunks: "receive (\<lambda>_. 0xff) (map (\<lambda>j. data_frame j (slice j V)) [0..<n]) = mem_program (\<lambda>_. 0xff) 0 (bytes (take (128 * n) (withheld ?V)))"
    if "n \<le> q + 1" for n
    unfolding sl [OF that] by (rule receive_chunks [OF l q that])
  have erased: "mem_program (\<lambda>_. 0xff) 0 (bytes (take m (withheld ?V))) x = 0xff" if "4 \<le> x" "x < 8" for m x
  proof -
    obtain w0 w1 rest where "?V = w0 # w1 # rest" using l by (cases ?V; cases "tl ?V") auto
    then have w: "withheld ?V = w0 # 0xFFFFFFFF # rest" by (simp add: withheld_def)
    have e: "bytes (0xFFFFFFFF # r) = replicate 4 0xff @ bytes r" for r by (simp add: bytes_def erased_word)
    have c: "bytes (w0 # r) = flash32_bytes w0 @ bytes r" for r by (simp add: bytes_def)
    show ?thesis
    proof (cases "m \<le> 1")
      case True
      then have "length (bytes (take m (withheld ?V))) \<le> 4" by simp
      then show ?thesis using that by (simp add: mem_program_def)
    next
      case False
      then obtain k where "m = Suc (Suc k)" by (cases m; cases "m - 1") auto
      then have "take m (withheld ?V) = w0 # 0xFFFFFFFF # take k rest" unfolding w by simp
      then have "bytes (take m (withheld ?V)) = flash32_bytes w0 @ replicate 4 0xff @ bytes (take k rest)" by (simp only: c e)
      moreover have "x - 4 < 4" using that by arith
      ultimately show ?thesis using that by (simp add: mem_program_def nth_append)
    qed
  qed
  show "mem_read (receive (\<lambda>_. 0xff) (take k (image_frames q V))) 4 4 = replicate 4 0xff"
  proof (cases k)
    case 0
    then show ?thesis by (simp add: receive_def mem_read_def replicate4 upt_rec)
  next
    case (Suc n)
    define j where "j = min n (q + 1)"
    have "take k (image_frames q V) = [frame_of [UC_GET_VER]] @ map (\<lambda>j. data_frame j (slice j V)) [0..<j]"
      by (simp add: Suc image_frames_def take_map j_def min_def del: upt_Suc)
    then have "receive (\<lambda>_. 0xff) (take k (image_frames q V)) = mem_program (\<lambda>_. 0xff) 0 (bytes (take (128 * j) (withheld ?V)))"
      using chunks [of j] by (simp only: receive_append receive_version) (simp add: j_def)
    then show ?thesis using erased by (intro nth_equalityI) (simp_all add: mem_read_def)
  qed
  show "receive (\<lambda>_. 0xff) (image_frames q V @ [last_frame (V ! 1)]) a = receive (\<lambda>_. 0xff) (image_frames q V) a" if "a < 4 \<or> 8 \<le> a"
  proof -
    have "unframe (last_frame w) = Some (write_header 4 4 @ bytes (chain_words 0 [w]))" for w
      unfolding last_frame_def by (rule unframe_frame) simp
    then have "receive m [last_frame w] = mem_program m 4 (bytes [w])" for m w
      using load_packet [of m 4 4 "[w]"] by (simp add: receive_def)
    moreover have "\<not> (4 \<le> a \<and> a < 8)" using that by arith
    ultimately show ?thesis by (auto simp: receive_append mem_program_def bytes_def)
  qed
qed

text \<open>No frame of the image is the command to run.\<close>

lemma image_frames_no_run: "frame_of [UC_RUN_CODE] \<notin> set (image_frames q V @ [last_frame w])"
proof -
  have "length (frame_of d) = length d + 4" for d
    by (simp add: frame_of_def Let_def)
  then have "frame_of [UC_RUN_CODE] \<noteq> frame_of d" if "1 < length d" for d
    using that by (metis One_nat_def add_right_cancel length_Cons less_irrefl list.size(3))
  then have "frame_of [UC_RUN_CODE] \<noteq> data_frame j x" "frame_of [UC_RUN_CODE] \<noteq> last_frame w" for j x
    by (simp_all add: data_frame_def last_frame_def)
  moreover have "frame_of [UC_RUN_CODE] \<noteq> frame_of [UC_GET_VER]"
    by (simp add: frame_of_def UC_RUN_CODE_def UC_GET_VER_def Let_def)
  ultimately show ?thesis
    by (auto simp: image_frames_def simp del: upt_Suc)
qed

end
