(* ===== verification/Fw_Power.thy ===== *)
theory Fw_Power
  imports Fw_Download
begin

text \<open>
  Losing power during the update. A recording bus keeps the states the chip goes through, one for every signal of the
  driver; a state in the record is one the chip can be left in when the power fails. The recording bus behaves as the chip
  does, and what holds of a record still holds when it grows.
\<close>

definition recording :: "'c bus \<Rightarrow> ('c \<times> 'c list) bus" where
  "recording bus =
     \<lparr>enable_write = (\<lambda>b (c, l). let c' = enable_write bus b c in (c', l @ [c'])),
      spi_write = (\<lambda>b (c, l). let (r, c') = spi_write bus b c in (r, (c', l @ [c'])))\<rparr>"

definition recorded :: "('c list \<Rightarrow> bool) \<Rightarrow> ('m \<Rightarrow> 'c \<Rightarrow> bool) \<Rightarrow> 'm \<Rightarrow> 'c \<times> 'c list \<Rightarrow> bool" where
  "recorded P idle m x \<longleftrightarrow> idle m (fst x) \<and> snd x \<noteq> [] \<and> last (snd x) = fst x \<and> P (snd x)"

lemma enable_write_recording: "enable_write (recording bus) b (c, l) = (enable_write bus b c, l @ [enable_write bus b c])"
  by (simp add: recording_def Let_def)

lemma spi_send_recording: "\<exists>xs. spi_send (recording bus) bs (c, l) = (fst (spi_send bus bs c), (snd (spi_send bus bs c), l @ xs))"
proof (induction bs arbitrary: c l)
  case (Cons b bs)
  obtain r c' where b: "spi_write bus b c = (r, c')" by fastforce
  obtain xs where "spi_send (recording bus) bs (c', l @ [c']) = (fst (spi_send bus bs c'), (snd (spi_send bus bs c'), l @ [c'] @ xs))"
    using Cons.IH [of c' "l @ [c']"] by auto
  then show ?case using b by (auto simp: recording_def split_def Let_def)
qed simp

lemma transact_recording:
  "\<exists>xs. transact (recording bus) bs (c, l) = (fst (transact bus bs c), (snd (transact bus bs c), l @ xs @ [snd (transact bus bs c)]))"
proof -
  let ?c = "enable_write bus False c"
  obtain xs where "spi_send (recording bus) bs (?c, l @ [?c]) = (fst (spi_send bus bs ?c), (snd (spi_send bus bs ?c), l @ [?c] @ xs))"
    using spi_send_recording [of bus bs ?c "l @ [?c]"] by auto
  then show ?thesis by (auto simp: transact_def Let_def split_def enable_write_recording)
qed

lemma recorded_transact:
  assumes "\<And>l xs. P l \<Longrightarrow> P (l @ xs)" "P (snd x)"
  shows "fst (transact (recording bus) bs x) = fst (transact bus bs (fst x))"
    and "recorded P I m (snd (transact (recording bus) bs x)) \<longleftrightarrow> I m (snd (transact bus bs (fst x)))"
    and "fst (snd (transact (recording bus) bs x)) = snd (transact bus bs (fst x))"
proof -
  obtain xs where t: "transact (recording bus) bs x =
      (fst (transact bus bs (fst x)), (snd (transact bus bs (fst x)), snd x @ xs @ [snd (transact bus bs (fst x))]))"
    using transact_recording [of bus bs "fst x" "snd x"] by auto
  then show "fst (transact (recording bus) bs x) = fst (transact bus bs (fst x))"
    and "recorded P I m (snd (transact (recording bus) bs x)) \<longleftrightarrow> I m (snd (transact bus bs (fst x)))"
    and "fst (snd (transact (recording bus) bs x)) = snd (transact bus bs (fst x))"
    using assms by (simp_all add: recorded_def)
qed

lemma w25q64_recording:
  assumes chip: "w25q64 bus idle armed busy left" and P: "\<And>l xs. P l \<Longrightarrow> P (l @ xs)"
  shows "w25q64 (recording bus) (recorded P idle) (recorded P armed) (recorded P busy) (left \<circ> fst)"
proof -
  have T: "fst (transact (recording bus) bs x) = fst (transact bus bs (fst x))"
    "recorded P J m' (snd (transact (recording bus) bs x)) \<longleftrightarrow> J m' (snd (transact bus bs (fst x)))"
    "(left \<circ> fst) (snd (transact (recording bus) bs x)) = left (snd (transact bus bs (fst x)))"
    if "recorded P I m x" for I :: "(nat \<Rightarrow> u8) \<Rightarrow> 'a \<Rightarrow> bool" and J :: "(nat \<Rightarrow> u8) \<Rightarrow> 'a \<Rightarrow> bool" and m m' x bs
    using recorded_transact [where P = P and x = x and bus = bus and bs = bs, OF P] that by (simp_all add: recorded_def)
  have I: "recorded P I m x \<Longrightarrow> I m (fst x)" for I :: "(nat \<Rightarrow> u8) \<Rightarrow> 'a \<Rightarrow> bool" and m x
    by (simp add: recorded_def)
  note rules = chip_rules [OF chip]
  show ?thesis
    unfolding w25q64_def
  proof (intro conjI allI impI; (elim conjE)?)
    fix m x assume "recorded P idle m x"
    note T = T [OF this] and i = I [OF this]
    show "recorded P idle m (enable_write (recording bus) True x)"
      using \<open>recorded P idle m x\<close> rules(9) P by (cases x) (simp add: recorded_def enable_write_recording)
    show "tl (fst (transact (recording bus) [0x9f, 0, 0, 0] x)) = [0xEF, 0x40, 0x17]"
      "recorded P idle m (snd (transact (recording bus) [0x9f, 0, 0, 0] x))"
      "recorded P armed m (snd (transact (recording bus) [0x06] x))"
      unfolding T by (fact rules(10) [OF i] rules(11) [OF i] rules(3) [OF i])+
    fix a n :: nat assume a: "a + n \<le> 0x800000"
    show "drop 4 (fst (transact (recording bus) ([0x03] @ addr_bytes3 a @ replicate n 0) x)) = mem_read m a n"
      "recorded P idle m (snd (transact (recording bus) ([0x03] @ addr_bytes3 a @ replicate n 0) x))"
      unfolding T by (fact rules(1,2) [OF i a])+
  next
    fix m x assume "recorded P armed m x"
    note T = T [OF this] and i = I [OF this]
    show "recorded P busy (\<lambda>x. 0xff) (snd (transact (recording bus) [0xc7] x))"
      unfolding T by (fact rules(7) [OF i])
    fix a :: nat assume a: "a < 0x800000"
    show "recorded P busy (mem_erase m 0x10000 a) (snd (transact (recording bus) ([0xd8] @ addr_bytes3 a) x))"
      "recorded P busy (mem_erase m 0x1000 a) (snd (transact (recording bus) ([0x20] @ addr_bytes3 a) x))"
      unfolding T by (fact rules(5,6) [OF i a])+
    fix bs :: "u8 list" assume "0 < length bs" "a mod 256 + length bs \<le> 256"
    then show "recorded P busy (mem_program m a bs) (snd (transact (recording bus) ([0x02] @ addr_bytes3 a @ bs) x))"
      unfolding T by (fact rules(4) [OF i a])
  next
    fix m x assume "recorded P busy m x"
    note T = T [OF this] and i = I [OF this]
    show "if fst (transact (recording bus) [0x05, 0] x) ! 1 = 0 then recorded P idle m (snd (transact (recording bus) [0x05, 0] x))
      else recorded P busy m (snd (transact (recording bus) [0x05, 0] x)) \<and>
        (left \<circ> fst) (snd (transact (recording bus) [0x05, 0] x)) < (left \<circ> fst) x"
      unfolding T unfolding o_apply by (fact rules(8) [OF i])
  qed
qed

section \<open>The power fails between the mark and the erasure\<close>

text \<open>With both buffers marked every download gives up at once.\<close>

lemma both_marked_blocks:
  assumes chip: "w25q64 bus idle armed busy left" and c: "idle m (chip s)"
    and f: "buf_flag m 0 \<noteq> USER_IMG_MAP_BUF_CLEAR_FLAG" "buf_flag m 1 \<noteq> USER_IMG_MAP_BUF_CLEAR_FLAG"
  shows "\<exists>s'. deviceGetSaveUpdatefile bus g st s = Some (-1, s') \<and> idle m (chip s') \<and> net s' = net s"
proof -
  obtain c0 where c0: "flash25spi_init bus g (chip s) = (W25Q64, c0)" "idle m c0"
    using flash_init_refines [OF chip c] by blast
  obtain c1 where c1: "idle m c1" "find_buffer bus W25Q64 [0, 1] c0 = find_buffer bus W25Q64 [1] c1"
    using find_buffer_step [OF chip _ c0(2), of 0 "[1]"] f by auto
  obtain c2 where c2: "idle m c2" "find_buffer bus W25Q64 [1] c1 = find_buffer bus W25Q64 [] c2"
    using find_buffer_step [OF chip _ c1(1), of 1 "[]"] f by auto
  have "deviceGetSaveUpdatefile bus g st s = Some (-1, s\<lparr>chip := c2\<rparr>)"
    unfolding deviceGetSaveUpdatefile_def c0 Let_def case_prod_conv c1(2) c2(2) by simp
  with c2(1) show ?thesis
    by auto
qed

text \<open>The mark in a blank buffer leaves the mark of the other one.\<close>

lemma mark_flags:
  assumes i: "i < 2" "blank m i" and j: "j < 2"
  shows "buf_flag (mem_program m (i * 0x40000) (flash32_bytes USER_IMG_MAP_BUF_VAILE_FLAG)) j =
    (if j = i then USER_IMG_MAP_BUF_VAILE_FLAG else buf_flag m j)"
proof (cases "j = i")
  case True
  have "mem_read (mem_program m (i * 0x40000) (flash32_bytes USER_IMG_MAP_BUF_VAILE_FLAG)) (i * 0x40000) 4 = flash32_bytes USER_IMG_MAP_BUF_VAILE_FLAG"
    using program_blank [OF i(2), of "i * 0x40000" "flash32_bytes USER_IMG_MAP_BUF_VAILE_FLAG"] by simp
  with True show ?thesis
    by (simp add: buf_flag_def flash32_vaile)
next
  case False
  then have "j = 0 \<and> i = 1 \<or> j = 1 \<and> i = 0"
    using i(1) j by auto
  then show ?thesis
    by (auto simp: buf_flag_def read4 mem_program_def)
qed

text \<open>The state with both buffers marked is in the record when the second buffer has been taken, and it stays there.\<close>

lemma marking_recorded:
  assumes chip: "w25q64 bus idle armed busy left" and i: "i < 2" and x: "recorded (\<lambda>_. True) idle m x"
  shows "\<exists>c1 x'. idle (mem_program m (i * 0x40000) (flash32_bytes USER_IMG_MAP_BUF_VAILE_FLAG)) c1 \<and>
    take_buffer (recording bus) W25Q64 i x = Some (of_nat (i * 0x40000 + 4), of_nat ((1 - i) * 0x40000), x') \<and>
    recorded (\<lambda>l. c1 \<in> set l) idle (marked m i) x'"
proof -
  let ?m = "mem_program m (i * 0x40000) (flash32_bytes USER_IMG_MAP_BUF_VAILE_FLAG)"
  obtain x1 where x1: "recorded (\<lambda>_. True) idle ?m x1" "take_buffer (recording bus) W25Q64 i x =
      map_option (\<lambda>c2. (of_nat (i * 0x40000 + 4), of_nat ((1 - i) * 0x40000), c2)) (clear_blocks (recording bus) W25Q64 (of_nat ((1 - i) * 0x40000)) 0 8 x1)"
    using take_buffer_marks [OF w25q64_recording [OF chip] i x] by blast
  then have r: "idle ?m (fst x1)" "recorded (\<lambda>l. fst x1 \<in> set l) idle ?m x1"
    using last_in_set [of "snd x1"] by (simp_all add: recorded_def)
  then obtain x' where "clear_blocks (recording bus) W25Q64 (of_nat ((1 - i) * 0x40000)) 0 8 x1 = Some x'"
      "recorded (\<lambda>l. fst x1 \<in> set l) idle (marked m i) x'"
    using clear_brother [OF w25q64_recording [OF chip, of "\<lambda>l. fst x1 \<in> set l"] i r(2)] by auto
  with x1(2) r(1) show ?thesis
    by auto
qed

end
