(* ===== verification/Fw_Chip.thy ===== *)
theory Fw_Chip
  imports Fw_Flash
begin

text \<open>
  A chip that behaves as the data sheet of the W25Q64 says: the assumption \<open>w25q64\<close> under which the flash driver
  is verified can be met.
\<close>

record sim =
  cells :: "nat \<Rightarrow> u8"
  latch :: bool
  selected :: bool
  rx :: "u8 list"
  running :: nat

definition sim_addr :: "u8 list \<Rightarrow> nat" where
  "sim_addr bs = 65536 * unat (bs ! 1) + 256 * unat (bs ! 2) + unat (bs ! 3)"

definition sim_answer :: "sim \<Rightarrow> u8 list \<Rightarrow> u8" where
  "sim_answer s bs =
     (if bs = [] then 0
      else if hd bs = 0x03 \<and> 4 \<le> length bs then cells s (sim_addr bs + (length bs - 4))
      else if hd bs = 0x9f then [0xEF, 0x40, 0x17] ! ((length bs - 1) mod 3)
      else if hd bs = 0x05 then (if 0 < running s then 1 else 0)
      else 0)"

definition sim_exec :: "sim \<Rightarrow> sim" where
  "sim_exec s =
     (let bs = rx s; start = (\<lambda>m. s\<lparr>cells := m, latch := False, running := 3\<rparr>)
      in if bs = [] then s
         else if hd bs = 0x06 then s\<lparr>latch := True\<rparr>
         else if hd bs = 0x05 then s\<lparr>running := running s - 1\<rparr>
         else if \<not> latch s then s
         else if hd bs = 0x02 then start (mem_program (cells s) (sim_addr bs) (drop 4 bs))
         else if hd bs = 0xd8 then start (mem_erase (cells s) 0x10000 (sim_addr bs))
         else if hd bs = 0x20 then start (mem_erase (cells s) 0x1000 (sim_addr bs))
         else if hd bs = 0xc7 then start (\<lambda>x. 0xff)
         else s)"

definition sim_bus :: "sim bus" where
  "sim_bus = \<lparr>enable_write = (\<lambda>high s. 
       if \<not> high then s\<lparr>selected := True, rx := []\<rparr> else if selected s then sim_exec (s\<lparr>selected := False\<rparr>) else s),
     spi_write = (\<lambda>b s. (sim_answer s (rx s), s\<lparr>rx := rx s @ [b]\<rparr>))\<rparr>"

lemma sim_send:
  "spi_send sim_bus bs s = (map (\<lambda>i. sim_answer s (rx s @ take i bs)) [0..<length bs], s\<lparr>rx := rx s @ bs\<rparr>)"
proof (induction bs arbitrary: s)
  case (Cons b bs)
  have a: "sim_answer (s\<lparr>rx := r\<rparr>) q = sim_answer s q" for r q
    by (simp add: sim_answer_def)
  have "map (\<lambda>i. sim_answer s (rx s @ take i (b # bs))) [0..<length (b # bs)] =
      sim_answer s (rx s) # map (\<lambda>i. sim_answer s (rx s @ b # take i bs)) [0..<length bs]"
    by (simp add: upt_conv_Cons map_Suc_upt [symmetric] del: upt_Suc)
  then show ?case
    by (simp add: Cons.IH) (simp add: sim_bus_def a)
qed simp

lemma sim_transact:
  "transact sim_bus bs s = (map (\<lambda>i. sim_answer s (take i bs)) [0..<length bs], sim_exec (s\<lparr>rx := bs, selected := False\<rparr>))"
proof -
  have a: "sim_answer (s\<lparr>selected := True, rx := r\<rparr>) q = sim_answer s q" for r q
    by (simp add: sim_answer_def)
  have "enable_write sim_bus False s = s\<lparr>selected := True, rx := []\<rparr>"
    "selected t \<Longrightarrow> enable_write sim_bus True t = sim_exec (t\<lparr>selected := False\<rparr>)" for t
    by (simp_all add: sim_bus_def)
  then show ?thesis
    by (simp add: transact_def sim_send a)
qed

lemma sim_addr_bytes:
  assumes "a < 0x1000000"
  shows "sim_addr ([k] @ addr_bytes3 a @ bs) = a"
proof -
  have "a div 65536 < 256"
    using assms by simp
  then have t: "a div 65536 mod 256 = a div 65536"
    by (rule mod_less)
  have d: "a div 65536 = a div 256 div 256"
    using div_mult2_eq [of a 256 256] by simp
  have "sim_addr ([k] @ addr_bytes3 a @ bs) = 65536 * unat (of_nat (a div 65536) :: u8) +
      256 * unat (of_nat (a div 256) :: u8) + unat (of_nat a :: u8)"
    by (simp add: sim_addr_def addr_bytes3_def nth_Cons')
  also have "\<dots> = 65536 * (a div 65536) + 256 * (a div 256 mod 256) + a mod 256"
    using t by (simp add: unat_of_nat)
  also have "\<dots> = a"
    unfolding d using mult_div_mod_eq [of 256 a] mult_div_mod_eq [of 256 "a div 256"] by linarith
  finally show ?thesis .
qed

lemma sim_exec_block:
  assumes "rx s = 0xd8 # bs" and "latch s"
  shows "sim_exec s = s\<lparr>cells := mem_erase (cells s) 0x10000 (sim_addr (0xd8 # bs)), latch := False, running := 3\<rparr>"
proof -
  have "(0xd8 :: u8) \<noteq> 6" "(0xd8 :: u8) \<noteq> 5" "(0xd8 :: u8) \<noteq> 2"
    by simp_all
  with assms show ?thesis
    unfolding sim_exec_def Let_def assms(1) list.sel by (simp only: list.distinct refl if_False if_True not_True_eq_False)
qed

lemma take_four: "take (i + 4) (a # b # c # d # xs) = a # b # c # d # take i xs"
  by (simp add: eval_nat_numeral)

lemma sim_w25q64:
  "w25q64 sim_bus (\<lambda>m s. cells s = m \<and> running s = 0 \<and> \<not> selected s)
     (\<lambda>m s. cells s = m \<and> running s = 0 \<and> latch s \<and> \<not> selected s) (\<lambda>m s. cells s = m \<and> \<not> selected s) running"
proof -
  have read: "drop 4 (fst (transact sim_bus ([0x03] @ addr_bytes3 a @ replicate n 0) s)) = mem_read (cells s) a n"
    if "a + n \<le> 0x800000" for s a n
  proof -
    let ?bs = "[0x03] @ addr_bytes3 a @ replicate n 0"
    have "sim_answer s (take (i + 4) ?bs) = cells s (a + i)" if "i < n" for i
    proof -
      have t: "take (i + 4) ?bs = [0x03] @ addr_bytes3 a @ replicate i 0"
        using that by (simp add: addr_bytes3_def take_four min_def)
      have "length ([0x03] @ addr_bytes3 a @ replicate i 0) = i + 4"
        by (simp add: addr_bytes3_def)
      with t sim_addr_bytes [of a 3 "replicate i 0"] \<open>a + n \<le> 0x800000\<close> show ?thesis
        by (simp add: sim_answer_def)
    qed
    then have "map (\<lambda>i. sim_answer s (take i ?bs)) [4..<4 + n] = map (\<lambda>i. cells s (a + i)) [0..<n]"
      by (intro nth_equalityI) (simp_all add: add.commute [of 4])
    moreover have "length ?bs = 4 + n"
      by (simp add: addr_bytes3_def)
    ultimately show ?thesis
      by (simp only: sim_transact fst_conv drop_map drop_upt add_0 mem_read_def)
  qed
  have block: "cells (sim_exec (s\<lparr>rx := [0xd8] @ addr_bytes3 a, selected := False\<rparr>)) = mem_erase (cells s) 0x10000 a"
    if "latch s" "a < 0x800000" for s a
    using that sim_addr_bytes [of a "0xd8" "[]"] by (simp add: sim_exec_block)
  have status: "sim_answer s [5] = (if 0 < running s then 1 else 0)" for s
    by (simp add: sim_answer_def)
  have l: "length (addr_bytes3 a) = 3" for a
    by (simp add: addr_bytes3_def)
  have sel: "selected (sim_exec s) = selected s" for s
    by (simp add: sim_exec_def Let_def)
  have high: "\<not> selected s \<Longrightarrow> enable_write sim_bus True s = s" for s
    by (simp add: sim_bus_def)
  have ident: "sim_answer s [0x9f] = 0xEF" "sim_answer s [0x9f, 0] = 0x40" "sim_answer s [0x9f, 0, 0] = 0x17" for s
    by (simp_all add: sim_answer_def)
  show ?thesis
    unfolding w25q64_def using read block
    by (intro conjI allI impI)
       (simp_all add: sim_transact sim_exec_def Let_def sim_addr_bytes [simplified] sim_addr_bytes [where bs = "[]", simplified] l status sel high ident)
qed

end
