(* ===== verification/Fw_Board.thy ===== *)
theory Fw_Board
  imports Fw_Send
begin

text \<open>
  The header of the board in the EEPROM (\<open>read_eeprom\<close>, \<open>write_eeprom\<close> and the start of \<open>main\<close> in
  \<open>USER/main.cpp\<close>).

  The header is the memory of \<open>struct stm32f411xx_baseboard_id\<close>, 44 bytes. The EEPROM is a script: acknowledgements
  of writes, and results of reads, each with the memory it leaves in the header. The log records what has been written.
\<close>

section \<open>The header\<close>

definition DEVICE_MAGIC_ID :: u32 where "DEVICE_MAGIC_ID = 0xEE3355AA"

text \<open>The strings \<open>T1\<close>, \<open>V1.0\<close>, \<open>H1\<close>, \<open>F1.0\<close>, \<open>UT1\<close>, \<open>UV1.0\<close> and \<open>UH1\<close>.\<close>

definition DEVICE_TYPE :: "u8 list" where "DEVICE_TYPE = [0x54, 0x31, 0]"
definition DEVICE_SOFTWARE_VERSION :: "u8 list" where "DEVICE_SOFTWARE_VERSION = [0x56, 0x31, 0x2E, 0x30, 0]"
definition DEVICE_HARDWARE_VERSION :: "u8 list" where "DEVICE_HARDWARE_VERSION = [0x48, 0x31, 0]"
definition DEVICE_FIRMWARE_VERSION :: "u8 list" where "DEVICE_FIRMWARE_VERSION = [0x46, 0x31, 0x2E, 0x30, 0]"
definition USER_DEVICE_TYPE :: "u8 list" where "USER_DEVICE_TYPE = [0x55, 0x54, 0x31, 0]"
definition USER_DEVICE_SOFTWARE_VERSION :: "u8 list" where "USER_DEVICE_SOFTWARE_VERSION = [0x55, 0x56, 0x31, 0x2E, 0x30, 0]"
definition USER_DEVICE_HARDWARE_VERSION :: "u8 list" where "USER_DEVICE_HARDWARE_VERSION = [0x55, 0x48, 0x31, 0]"

definition HEADER_LEN :: nat where
  "HEADER_LEN = version_offset + HDR_NAME_8CHAR_LEN + HDR_NAME_4CHAR_LEN"

record board =
  header :: "u8 list"
  b_acks :: "bool list"
  b_reads :: "(bool \<times> u8 list) list"
  b_log :: "u8 list list"

section \<open>Reading and writing\<close>

fun read_loop :: "nat \<Rightarrow> board \<Rightarrow> board option" where
  "read_loop 0 b = Some b"
| "read_loop (Suc n) b =
     (case b_acks b of
        [] \<Rightarrow> None
      | ok # acks \<Rightarrow>
          let b = b\<lparr>b_acks := acks\<rparr>
          in if \<not> ok then read_loop n b
             else case b_reads b of
                    [] \<Rightarrow> None
                  | (ok, mem) # rs \<Rightarrow>
                      let b = b\<lparr>header := mem, b_reads := rs\<rparr>
                      in if \<not> ok then read_loop n b else Some b)"

definition default_header :: "u8 list \<Rightarrow> u8 list option" where
  "default_header h =
     do { h \<leftarrow> strcpy 4 DEVICE_TYPE (memcpy 0 (flash32_bytes DEVICE_MAGIC_ID) h);
          h \<leftarrow> strcpy 8 DEVICE_SOFTWARE_VERSION h;
          h \<leftarrow> strcpy 16 DEVICE_HARDWARE_VERSION h;
          h \<leftarrow> strcpy 20 DEVICE_FIRMWARE_VERSION h;
          h \<leftarrow> strcpy 28 USER_DEVICE_TYPE h;
          h \<leftarrow> strcpy 32 USER_DEVICE_SOFTWARE_VERSION h;
          strcpy 40 USER_DEVICE_HARDWARE_VERSION h }"

definition read_eeprom :: "board \<Rightarrow> (int \<times> board) option" where
  "read_eeprom b =
     do { b \<leftarrow> read_loop 10 b;
          if flash32 (header b) \<noteq> DEVICE_MAGIC_ID
          then do { h \<leftarrow> default_header (header b); Some (-1, b\<lparr>header := h\<rparr>) }
          else Some (0, b) }"

text \<open>One attempt; then the acknowledgement is polled.\<close>

definition write_eeprom :: "board \<Rightarrow> (int \<times> board) option" where
  "write_eeprom b =
     (case b_acks b of
        [] \<Rightarrow> None
      | ok # acks \<Rightarrow>
          if \<not> ok then Some (-1, b\<lparr>b_acks := acks\<rparr>)
          else do { acks \<leftarrow> ack_poll acks;
                    Some (0, b\<lparr>b_acks := acks, b_log := b_log b @ [[0, 0] @ header b]\<rparr>) })"

text \<open>The first part of \<open>main\<close>: -1 is its return, which ends the firmware.\<close>

definition identify_board :: "board \<Rightarrow> (int \<times> board) option" where
  "identify_board b =
     do { (r, b) \<leftarrow> read_eeprom b;
          if r < 0
          then do { (r, b) \<leftarrow> write_eeprom b; Some (if r < 0 then -1 else 0, b) }
          else Some (0, b) }"

section \<open>The contents of the EEPROM\<close>

text \<open>What the writes of a log make of the memory: two bytes of address, then the data.\<close>

definition ee_apply :: "u8 list \<Rightarrow> u8 list \<Rightarrow> u8 list" where
  "ee_apply mem w = memcpy (256 * unat (w ! 0) + unat (w ! 1)) (drop 2 w) mem"

definition ee_contents :: "u8 list list \<Rightarrow> u8 list \<Rightarrow> u8 list" where
  "ee_contents log mem = foldl ee_apply mem log"

lemma ee_contents_append: "ee_contents (xs @ ys) mem = ee_contents ys (ee_contents xs mem)"
  by (simp add: ee_contents_def)

lemma ee_contents_one: "ee_contents [w] mem = ee_apply mem w"
  by (simp add: ee_contents_def)

lemma c_str_append: "0 \<notin> set s \<Longrightarrow> c_str (s @ t) = s @ c_str t"
  by (induction s) (auto simp: c_str_def)

lemma c_str_no_zero: "0 \<notin> set (c_str s)"
  by (auto simp: c_str_def dest: set_takeWhileD)

lemma c_str_again [simp]: "c_str (c_str s @ 0 # t) = c_str s"
  by (simp add: c_str_append [OF c_str_no_zero]) (simp add: c_str_def)

lemma strcpy_Some: "off + length (c_str v) < length mem \<Longrightarrow>
    strcpy off v mem = Some (take off mem @ c_str v @ 0 # drop (off + length (c_str v) + 1) mem)"
  by (simp add: strcpy_def)

lemma strcpy_length: "strcpy off v mem = Some mem' \<Longrightarrow> length mem' = length mem"
  by (auto simp: strcpy_def Let_def split: if_splits)

lemma drop_strcpy: "strcpy off v mem = Some mem' \<Longrightarrow> c_str (drop off mem') = c_str v"
  by (auto simp: strcpy_def Let_def split: if_splits)

text \<open>The default header fits its memory, whatever was there, and has the magic number.\<close>

lemma default_header_fits:
  assumes "length h = HEADER_LEN"
  shows "\<exists>h'. default_header h = Some h' \<and> length h' = HEADER_LEN \<and> flash32 h' = DEVICE_MAGIC_ID \<and>
    c_str (drop version_offset h') = c_str USER_DEVICE_SOFTWARE_VERSION"
proof -
  have l: "length h = 44"
    using assms by (simp add: HEADER_LEN_def version_offset_def HDR_NAME_4CHAR_LEN_def HDR_NAME_8CHAR_LEN_def)
  show ?thesis
    using l
    by (simp add: default_header_def strcpy_def c_str_def memcpy_def flash32_bytes_def flash32_def DEVICE_MAGIC_ID_def DEVICE_TYPE_def
        DEVICE_SOFTWARE_VERSION_def DEVICE_HARDWARE_VERSION_def DEVICE_FIRMWARE_VERSION_def USER_DEVICE_TYPE_def
        USER_DEVICE_SOFTWARE_VERSION_def USER_DEVICE_HARDWARE_VERSION_def HEADER_LEN_def version_offset_def
        HDR_NAME_4CHAR_LEN_def HDR_NAME_8CHAR_LEN_def nth_append)
qed

text \<open>Writing the version changes its eight bytes and nothing else.\<close>

text \<open>A version of eight characters does not fit: with its end it overruns the buffer that is sent to the EEPROM.\<close>

lemma version_not_eight: "version_data v = Some data \<Longrightarrow> length (c_str v) \<noteq> 8"
  by (auto simp: version_data_def strcpy_def HDR_NAME_8CHAR_LEN_def Let_def)

lemma version_write:
  assumes "length mem = HEADER_LEN" "version_data v = Some data"
  shows "length (ee_apply mem data) = HEADER_LEN \<and> take version_offset (ee_apply mem data) = take version_offset mem \<and>
    drop (version_offset + HDR_NAME_8CHAR_LEN) (ee_apply mem data) = drop (version_offset + HDR_NAME_8CHAR_LEN) mem \<and>
    c_str (drop version_offset (ee_apply mem data)) = (if length (c_str v) < 8 then c_str v else [])"
proof -
  have l: "length mem = 44"
    using assms(1) by (simp add: HEADER_LEN_def version_offset_def HDR_NAME_4CHAR_LEN_def HDR_NAME_8CHAR_LEN_def)
  note n8 = version_not_eight [OF assms(2)]
  have data: "data = [0, 32] @ (if length (c_str v) < 8 then c_str v @ 0 # replicate (7 - length (c_str v)) 0 else replicate 8 0)"
    using assms(2) n8
    by (auto simp: version_data_def strcpy_def version_offset_def HDR_NAME_4CHAR_LEN_def HDR_NAME_8CHAR_LEN_def Let_def split: if_splits)
  have off: "version_offset = 32"
    by (simp add: version_offset_def HDR_NAME_4CHAR_LEN_def HDR_NAME_8CHAR_LEN_def)
  have "length (drop 2 data) = 8"
    by (auto simp: data)
  moreover have "256 * unat (data ! 0) + unat (data ! 1) = 32"
    by (simp add: data)
  ultimately have ap: "ee_apply mem data = take 32 mem @ drop 2 data @ drop 40 mem" "length (drop 2 data) = 8"
    by (simp_all add: ee_apply_def memcpy_def)
  then have "drop 32 (ee_apply mem data) = drop 2 data @ drop 40 mem"
    using l by simp
  also have "c_str \<dots> = (if length (c_str v) < 8 then c_str v else [])"
    by (auto simp: data) (simp add: c_str_def)
  finally show ?thesis
    using ap l by (simp add: off HEADER_LEN_def HDR_NAME_4CHAR_LEN_def HDR_NAME_8CHAR_LEN_def)
qed

lemma read_good:
  assumes "b_acks b = True # as" "b_reads b = (True, mem) # rs" "flash32 mem = DEVICE_MAGIC_ID"
  shows "\<exists>b'. identify_board b = Some (0, b') \<and> header b' = mem \<and> b_log b' = b_log b"
  using assms by (simp add: identify_board_def read_eeprom_def eval_nat_numeral)

lemma flash32_take: "4 \<le> n \<Longrightarrow> flash32 (take n h) = flash32 h"
  by (simp add: flash32_def)

lemma read_loop_length:
  "read_loop n b = Some b' \<Longrightarrow> length (header b) = k \<Longrightarrow> \<forall>(ok, mem)\<in>set (b_reads b). length mem = k \<Longrightarrow>
    length (header b') = k \<and> b_log b' = b_log b"
  by (induction n b rule: read_loop.induct) (fastforce simp: Let_def split: list.splits if_splits prod.splits)+

end
