(* ===== verification/Fw_Properties.thy ===== *)
theory Fw_Properties
  imports Fw_Delivery Fw_Power Fw_Chip Fw_Board
begin

text \<open>
  The properties of the remote update: the flash driver, the download of an image, its delivery to the user's device,
  the two together, and how they fail.
\<close>

section \<open>The flash driver\<close>

text \<open>
  C11: the driver writes any data that lies within the chip as one program operation on its memory, wherever it begins
  and however many pages it spans; reading gives back the memory; clearing a block erases the block of the chip that
  contains it. Every call returns.
\<close>

theorem flash_driver_refines:
  assumes "w25q64 bus idle armed busy left" and "idle m c"
    and "unat start + length data \<le> 0x800000" and "unat from + unat len \<le> 0x800000" "0 < unat len" and "unat blk < 0x800000"
  shows "(\<exists>c'. flash_write bus W25Q64 start (of_nat (length data)) data c = Some (True, c') \<and> idle (mem_program m (unat start) data) c') \<and>
    (\<exists>c'. flash_read bus W25Q64 from len c = (Some (mem_read m (unat from) (unat len)), c') \<and> idle m c') \<and>
    (\<exists>c'. clearBlock bus W25Q64 blk c = Some c' \<and> idle (mem_erase m 0x10000 (unat blk)) c')"
  using flash_write_refines [OF assms(1) _ _ assms(3,2), of W25Q64] flash_read_refines [OF assms(1) _ assms(4,5,2), of W25Q64]
    clearBlock_refines [OF assms(1) _ assms(6,2), of W25Q64]
  by (simp add: W25Q64_def)

section \<open>The download\<close>

lemma download_total:
  assumes "w25q64 bus idle armed busy left" and "image_inv m" "idle m (chip s)" and "length file \<le> 0x3FFFC"
    and "\<forall>f\<in>set (net s). serves_file file f \<and> reliable f" and "6 * (length file div 1024 + 1) \<le> length (net s)"
  shows "\<exists>s' m' i. deviceGetSaveUpdatefile bus garbage st s = Some (0, s') \<and> idle m' (chip s') \<and> i < 2 \<and> holds m' i file \<and>
    fileLength (updateinfo s') = fileLength (updateinfo s) + int (length file)"
proof -
  obtain i c1 req where i: "i < 2" "blank m i" "idle (marked m i) c1" "\<forall>v. \<exists>t n ver. req v = Downfile v t n ver"
      "unat (of_nat (i * 0x40000 + 4) :: u32) = i * 0x40000 + 4"
      "deviceGetSaveUpdatefile bus garbage st s = download_loop bus W25Q64 (of_nat (i * 0x40000 + 4)) st req 0 0 5 5 (s\<lparr>chip := c1\<rparr>)"
    using download_start [OF assms(1-3)] by blast
  let ?s = "s\<lparr>chip := c1\<rparr>"
  have b: "unat (of_nat (i * 0x40000 + 4) :: u32) \<le> 0x40004"
    unfolding i(5) using i(1) by simp
  have st: "stored idle (marked m i) (unat (of_nat (i * 0x40000 + 4) :: u32)) file (1024 * 0) ?s"
    using i(3) by (simp add: stored_def)
  have "\<exists>s'. download_loop bus W25Q64 (of_nat (i * 0x40000 + 4)) st req (int 0) 0 5 5 ?s = Some (0, s') \<and>
      stored idle (marked m i) (unat (of_nat (i * 0x40000 + 4) :: u32)) file (length file) s' \<and>
      fileLength (updateinfo s') = fileLength (updateinfo s) + int (length file)"
    by (rule download_loop_total [OF assms(1) b assms(4) _ _ _ _ st]) (use i(4) assms(5,6) in simp_all)
  then obtain s' where s': "deviceGetSaveUpdatefile bus garbage st s = Some (0, s')"
      "idle (mem_program (marked m i) (i * 0x40000 + 4) file) (chip s')"
      "fileLength (updateinfo s') = fileLength (updateinfo s) + int (length file)"
    unfolding i(5,6) stored_def by auto
  with programmed_holds [OF i(1,2) assms(4)] i(1) show ?thesis
    by blast
qed

text \<open>
  C33: with a server that has the file and a network that loses nothing, the download succeeds: the image is in one of
  the buffers, which is marked, the other buffer is blank, and the length of the file has been counted.
\<close>

theorem download_succeeds:
  assumes "w25q64 bus idle armed busy left" and "image_inv m" "idle m (chip s)" and "length file \<le> 0x3FFFC"
    and "\<forall>f\<in>set (net s). serves_file file f \<and> reliable f" and "6 * (length file div 1024 + 1) \<le> length (net s)"
  shows "\<exists>s' m' i. deviceGetSaveUpdatefile bus garbage st s = Some (0, s') \<and> idle m' (chip s') \<and> i < 2 \<and> holds m' i file \<and>
    fileLength (updateinfo s') = fileLength (updateinfo s) + int (length file)"
  by (rule download_total [OF assms])

text \<open>
  C5: whatever the network loses or damages, however often the download is interrupted by errors, the buffers stay
  consistent: a marked one and a blank one, so that the next attempt finds a buffer. The length counted is that of the
  part that arrived; the download reports success with the whole file, or with nothing.
\<close>

theorem download_safe:
  assumes "w25q64 bus idle armed busy left" and "image_inv m" "idle m (chip s)" and "length file \<le> 0x3FFFC"
    and "\<forall>f\<in>set (net s). serves_file file f" and "deviceGetSaveUpdatefile bus garbage st s = Some (r, s')"
  shows "\<exists>m' i n. idle m' (chip s') \<and> image_inv m' \<and> i < 2 \<and> n \<le> length file \<and> holds m' i (take n file) \<and>
    fileLength (updateinfo s') = fileLength (updateinfo s) + int n \<and> (r = 0 \<longrightarrow> n = 0 \<or> n = length file)"
proof -
  obtain i c1 req where i: "i < 2" "blank m i" "idle (marked m i) c1" "\<forall>v. \<exists>t n ver. req v = Downfile v t n ver"
      "unat (of_nat (i * 0x40000 + 4) :: u32) = i * 0x40000 + 4"
      "deviceGetSaveUpdatefile bus garbage st s = download_loop bus W25Q64 (of_nat (i * 0x40000 + 4)) st req 0 0 5 5 (s\<lparr>chip := c1\<rparr>)"
    using download_start [OF assms(1-3)] by blast
  let ?s = "s\<lparr>chip := c1\<rparr>"
  have b: "unat (of_nat (i * 0x40000 + 4) :: u32) \<le> 0x40004"
    unfolding i(5) using i(1) by simp
  have st: "stored idle (marked m i) (unat (of_nat (i * 0x40000 + 4) :: u32)) file (1024 * 0) ?s"
    using i(3) by (simp add: stored_def)
  have "\<exists>n\<le>length file. stored idle (marked m i) (unat (of_nat (i * 0x40000 + 4) :: u32)) file n s' \<and>
      fileLength (updateinfo s') = fileLength (updateinfo s) + int n \<and> (r = 0 \<longrightarrow> n = 0 \<or> n = length file)"
    by (rule download_loop_image [OF assms(1) b assms(4) _ _ _ st, of _ 0]) (use i(4,6) assms(5,6) in simp_all)
  then obtain n where n: "n \<le> length file" "idle (mem_program (marked m i) (i * 0x40000 + 4) (take n file)) (chip s')"
      "fileLength (updateinfo s') = fileLength (updateinfo s) + int n" "r = 0 \<longrightarrow> n = 0 \<or> n = length file"
    unfolding i(5) stored_def by blast
  have "holds (mem_program (marked m i) (i * 0x40000 + 4) (take n file)) i (take n file)"
    by (rule programmed_holds [OF i(1,2)]) (use assms(4) in simp)
  with n i(1) holds_inv show ?thesis
    by blast
qed

section \<open>How the download fails\<close>

text \<open>
  C36: the buffer for the new image is marked before the old image is erased. Every download that starts with an image in
  either buffer goes through a state of the chip (one between two signals of the driver) in which both are marked. If the
  power fails there, then from that memory on every download gives up at once with \<open>-1\<close>, without a request to the server
  and without a change of the memory.
\<close>

theorem interrupted_marking_blocks:
  assumes "w25q64 bus idle armed busy left" and "i < 2" "holds m i img" "chip s = (c, [c])" "idle m c" and "length file \<le> 0x3FFFC"
    and "\<forall>f\<in>set (net s). serves_file file f" and "deviceGetSaveUpdatefile (recording bus) garbage st s = Some (r, s')"
  shows "\<exists>c1\<in>set (snd (chip s')). \<exists>m1. idle m1 c1 \<and>
    buf_flag m1 0 = USER_IMG_MAP_BUF_VAILE_FLAG \<and> buf_flag m1 1 = USER_IMG_MAP_BUF_VAILE_FLAG \<and>
    (\<forall>garbage2 st2 s2. idle m1 (chip s2) \<longrightarrow>
      (\<exists>s3. deviceGetSaveUpdatefile bus garbage2 st2 s2 = Some (-1, s3) \<and> idle m1 (chip s3) \<and> net s3 = net s2))"
proof -
  define j where "j = 1 - i"
  have j: "j < 2" "blank m j" "1 - j = i" and f: "buf_flag m i = USER_IMG_MAP_BUF_VAILE_FLAG"
    using assms(2,3) by (auto simp: j_def holds_def)
  have "j \<noteq> i"
    using assms(2) unfolding j_def by arith
  note rec = w25q64_recording [OF assms(1)]
  have x: "recorded (\<lambda>_. True) idle m (chip s)"
    using assms(4,5) by (simp add: recorded_def)
  obtain x0 where x0: "flash25spi_init (recording bus) garbage (chip s) = (W25Q64, x0)" "recorded (\<lambda>_. True) idle m x0"
    using flash_init_refines [OF rec x] by blast
  have "buf_flag m 0 \<noteq> USER_IMG_MAP_BUF_CLEAR_FLAG" if "j = 1"
    using f that j(3) vaile_not_clear by simp
  then obtain x1 where x1: "recorded (\<lambda>_. True) idle m x1"
      "find_buffer (recording bus) W25Q64 [0, 1] x0 = take_buffer (recording bus) W25Q64 j x1"
    using find_buffer_takes [OF rec x0(2) j(1,2)] by auto
  let ?m1 = "mem_program m (j * 0x40000) (flash32_bytes USER_IMG_MAP_BUF_VAILE_FLAG)"
  obtain c1 x2 where c1: "idle ?m1 c1" "recorded (\<lambda>l. c1 \<in> set l) idle (marked m j) x2"
      "find_buffer (recording bus) W25Q64 [0, 1] x0 = Some (of_nat (j * 0x40000 + 4), of_nat ((1 - j) * 0x40000), x2)"
    using marking_recorded [OF assms(1) j(1) x1(1)] x1(2) by auto
  obtain req where req: "\<And>v. \<exists>t n ver. req v = Downfile v t n ver" "unat (of_nat (j * 0x40000 + 4) :: u32) = j * 0x40000 + 4"
      "deviceGetSaveUpdatefile (recording bus) garbage st s =
        download_loop (recording bus) W25Q64 (of_nat (j * 0x40000 + 4)) st req 0 0 5 5 (s\<lparr>chip := x2\<rparr>)"
    using download_from [OF x0(1) j(1) c1(3), of st] by blast
  have keep: "w25q64 (recording bus) (recorded (\<lambda>l. c1 \<in> set l) idle) (recorded (\<lambda>l. c1 \<in> set l) armed)
      (recorded (\<lambda>l. c1 \<in> set l) busy) (left \<circ> fst)"
    by (rule rec) simp
  have b: "unat (of_nat (j * 0x40000 + 4) :: u32) \<le> 0x40004"
    unfolding req(2) using j(1) by simp
  have st: "stored (recorded (\<lambda>l. c1 \<in> set l) idle) (marked m j) (unat (of_nat (j * 0x40000 + 4) :: u32)) file (1024 * 0) (s\<lparr>chip := x2\<rparr>)"
    using c1(2) by (simp add: stored_def)
  have "\<exists>n\<le>length file. stored (recorded (\<lambda>l. c1 \<in> set l) idle) (marked m j) (unat (of_nat (j * 0x40000 + 4) :: u32)) file n s' \<and>
      fileLength (updateinfo s') = fileLength (updateinfo s) + int n \<and> (r = 0 \<longrightarrow> n = 0 \<or> n = length file)"
    by (rule download_loop_image [OF keep b assms(6) req(1) _ _ st, of 0]) (use assms(7,8) req(3) in simp_all)
  then have "c1 \<in> set (snd (chip s'))"
    by (auto simp: stored_def recorded_def)
  moreover have m1: "buf_flag ?m1 0 = USER_IMG_MAP_BUF_VAILE_FLAG" "buf_flag ?m1 1 = USER_IMG_MAP_BUF_VAILE_FLAG"
    using mark_flags [OF j(1,2), of 0] mark_flags [OF j(1,2), of 1] f assms(2) j(1) \<open>j \<noteq> i\<close> by (auto simp: less_2_cases_iff)
  moreover have "\<exists>s3. deviceGetSaveUpdatefile bus g2 st2 s2 = Some (-1, s3) \<and> idle ?m1 (chip s3) \<and> net s3 = net s2"
    if "idle ?m1 (chip s2)" for g2 st2 s2
    using both_marked_blocks [OF assms(1) that] m1 vaile_not_clear by simp
  ultimately show ?thesis
    using c1(1) by blast
qed

text \<open>
  C38: when the answer to the request for the first block is lost, the loop ends as if the file were complete: the
  download reports success with an empty image in a marked buffer, and the old image is erased.
\<close>

theorem lost_first_block_is_success:
  assumes "w25q64 bus idle armed busy left" and "image_inv m" "idle m (chip s)"
    and "net s = f # g # fs" "f (Status st) = Answer a" "success a = Some True" "\<forall>v t n ver. g (Downfile v t n ver) = NoReply"
  shows "\<exists>s' m' i. deviceGetSaveUpdatefile bus garbage st s = Some (0, s') \<and> idle m' (chip s') \<and> i < 2 \<and> holds m' i [] \<and>
    fileLength (updateinfo s') = fileLength (updateinfo s)"
proof -
  obtain i c1 req where i: "i < 2" "blank m i" "idle (marked m i) c1" "\<forall>v. \<exists>t n ver. req v = Downfile v t n ver"
      "deviceGetSaveUpdatefile bus garbage st s = download_loop bus W25Q64 (of_nat (i * 0x40000 + 4)) st req 0 0 5 5 (s\<lparr>chip := c1\<rparr>)"
    using download_start [OF assms(1-3)] by blast
  let ?s = "s\<lparr>chip := c1\<rparr>"
  have "\<exists>s1. deviceStatusReport st ?s = Some (0, s1) \<and> net s1 = g # fs \<and> updateinfo s1 = updateinfo s \<and> chip s1 = c1"
    using assms(4-6) by (simp add: deviceStatusReport_def eval_nat_numeral exchange_def Let_def)
  then obtain s1 where s1: "(if (0 :: int) mod 8 = 0 then deviceStatusReport st ?s else Some (0, ?s)) = Some (0, s1)"
      "net s1 = g # fs" "updateinfo s1 = updateinfo s" "chip s1 = c1"
    by auto
  have "g (req (coapBlockValue 0)) = NoReply"
    using assms(7) i(4) by metis
  then have s2: "exchange (req (coapBlockValue 0)) s1 = Some (NoReply, s1\<lparr>net := fs, messageID := messageID s1 + 1\<rparr>)"
    by (simp add: exchange_def s1(2))
  have "deviceGetSaveUpdatefile bus garbage st s = Some (0, s1\<lparr>net := fs, messageID := messageID s1 + 1\<rparr>)"
    unfolding i(5) download_step [where req = req and n = 0, OF s1(1) s2] by simp
  moreover have "holds (marked m i) i []"
    using programmed_holds [OF i(1,2), of "[]"] by simp
  ultimately show ?thesis
    using i(1,3) s1(3,4) by (intro exI [of _ "s1\<lparr>net := fs, messageID := messageID s1 + 1\<rparr>"] exI [of _ "marked m i"] exI [of _ i]) simp
qed

section \<open>The delivery\<close>

text \<open>
  C4: an image encrypted for the initial mask is delivered in the clear: when the loader of the user's device
  acknowledges, it holds, after undoing the chaining of the packets, the image before its encryption. The second word comes
  last: until all the packets have arrived it is erased, whatever part of the frames has been received; then it is the only
  thing missing; one further frame writes it, and only then is the image started.
\<close>

theorem image_delivered:
  assumes "w25q64 bus idle armed busy left" and "idle m (chip s)" and "i < 2" "holds m i (bytes (unchain initial_mask plain))"
    and "fileLength (updateinfo s) = int (4 * length plain)" "4 * length plain \<le> 0x3FFFC"
    and "\<forall>f\<in>set (serial u). loader f" "length plain div 128 + 4 \<le> length (serial u)" and "mask u = initial_mask"
  shows "\<exists>u' s' fs w. send_image bus W25Q64 u s = Some (True, u', s') \<and>
    mem_read (receive (\<lambda>_. 0xff) (drop (length (wire u)) (wire u'))) 0 (4 * length plain) = bytes plain \<and>
    drop (length (wire u)) (wire u') = fs @ [w, frame_of [UC_RUN_CODE]] \<and> frame_of [UC_RUN_CODE] \<notin> set (fs @ [w]) \<and>
    (\<forall>k. mem_read (receive (\<lambda>_. 0xff) (take k fs)) 4 4 = replicate 4 0xff) \<and>
    (\<forall>a. a < 4 \<or> 8 \<le> a \<longrightarrow> receive (\<lambda>_. 0xff) (fs @ [w]) a = receive (\<lambda>_. 0xff) fs a) \<and>
    mem_read (receive (\<lambda>_. 0xff) (fs @ [w])) 0 (4 * length plain) = bytes plain"
proof -
  obtain u' s' q ws where x: "send_image bus W25Q64 u s = Some (True, u', s')"
      "drop (length (wire u)) (wire u') = image_frames q (chain_words (mask u) ws) @ [last_frame (chain_words (mask u) ws ! 1), frame_of [UC_RUN_CODE]]"
      "length ws = 128 * (q + 2)" "q \<le> 511"
    using send_image_frames [OF assms(1-4) _ _ assms(7), unfolded length_unchain, OF assms(5,6,8)] by blast
  let ?fs = "image_frames q (chain_words (mask u) ws)" and ?w = "last_frame (chain_words (mask u) ws ! 1)"
  have got: "mem_read (receive (\<lambda>_. 0xff) (drop (length (wire u)) (wire u'))) 0 (4 * length plain) = bytes plain"
    using send_image_received [OF assms(1-4) _ _ assms(7), unfolded length_unchain, OF assms(5,6,8)] assms(9) x(1) by simp
  moreover have "receive (\<lambda>_. 0xff) (drop (length (wire u)) (wire u')) = receive (\<lambda>_. 0xff) (?fs @ [?w])"
    unfolding x(2) using receive_append [of _ "?fs @ [?w]" "[frame_of [UC_RUN_CODE]]"] by (simp add: receive_version)
  moreover have "length (chain_words (mask u) ws) = 128 * (q + 2)" "512 * (q + 1) < 2 ^ 32" using x(3,4) by simp_all
  note image_order [OF this]
  ultimately show ?thesis
    using x(1,2) image_frames_no_run by (intro exI [of _ u'] exI [of _ s'] exI [of _ ?fs] exI [of _ ?w]) simp
qed

lemma bytes_inject: "bytes xs = bytes ys \<longleftrightarrow> xs = ys"
  by (metis words_bytes)

lemma chain_wrong_mask: "chain_words k (unchain k' ws) = ws \<longleftrightarrow> ws = [] \<or> k = k'"
proof (cases ws)
  case (Cons w r)
  have "(w XOR k') XOR k = w \<longleftrightarrow> k = k'"
  proof
    assume "(w XOR k') XOR k = w"
    then have "w XOR (w XOR (k' XOR k)) = 0"
      by (simp add: xor.assoc)
    then have "k' XOR k = 0"
      by (simp add: xor.assoc [symmetric])
    then have "k' XOR (k' XOR k) = k'"
      by simp
    then show "k = k'"
      by (simp add: xor.assoc [symmetric])
  qed (simp add: xor.assoc)
  with Cons show ?thesis
    by auto
qed simp

text \<open>
  C37: the mask is a global variable that a delivery leaves at the last word it read, and nothing resets it. With any
  other value than the initial one, an image encrypted for the initial mask arrives corrupted.
\<close>

theorem stale_mask_corrupts:
  assumes "w25q64 bus idle armed busy left" and "idle m (chip s)" and "i < 2" "holds m i (bytes (unchain initial_mask plain))"
    and "fileLength (updateinfo s) = int (4 * length plain)" "4 * length plain \<le> 0x3FFFC" "plain \<noteq> []"
    and "\<forall>f\<in>set (serial u). loader f" "length plain div 128 + 4 \<le> length (serial u)" and "mask u \<noteq> initial_mask"
  shows "\<exists>u' s'. send_image bus W25Q64 u s = Some (True, u', s') \<and>
    mem_read (receive (\<lambda>_. 0xff) (drop (length (wire u)) (wire u'))) 0 (4 * length plain) \<noteq> bytes plain"
  using send_image_received [OF assms(1-4) _ _ assms(8), unfolded length_unchain, OF assms(5,6,9)] assms(7,10)
  by (auto simp: bytes_inject chain_wrong_mask)

section \<open>From the server to the device\<close>

text \<open>
  C1: the whole update. The server has the encrypted image, the network and the serial line work, and the mask is
  fresh: after the download and the delivery, the user's device holds the image.
\<close>

theorem update_end_to_end:
  assumes "w25q64 bus idle armed busy left" and "image_inv m" "idle m (chip s)" and "file = bytes (unchain initial_mask plain)"
    and "4 * length plain \<le> 0x3FFFC" and "\<forall>f\<in>set (net s). serves_file file f \<and> reliable f"
    and "6 * (4 * length plain div 1024 + 1) \<le> length (net s)" and "fileLength (updateinfo s) = 0"
    and "\<forall>f\<in>set (serial u). loader f" "length plain div 128 + 4 \<le> length (serial u)" and "mask u = initial_mask"
  shows "\<exists>s1 u' s2. deviceGetSaveUpdatefile bus garbage 2 s = Some (0, s1) \<and> send_image bus W25Q64 u s1 = Some (True, u', s2) \<and>
    mem_read (receive (\<lambda>_. 0xff) (drop (length (wire u)) (wire u'))) 0 (4 * length plain) = bytes plain"
proof -
  have l: "length file = 4 * length plain"
    by (simp add: assms(4))
  obtain s1 m' i where s1: "deviceGetSaveUpdatefile bus garbage 2 s = Some (0, s1)" "idle m' (chip s1)" "i < 2" "holds m' i file"
      "fileLength (updateinfo s1) = fileLength (updateinfo s) + int (length file)"
    using download_succeeds [OF assms(1-3) _ assms(6), unfolded l, OF assms(5,7)] l by metis
  have "fileLength (updateinfo s1) = int (4 * length (unchain initial_mask plain))"
    using s1(5) assms(8) l by simp
  from send_image_received [OF assms(1) s1(2,3) s1(4) [unfolded assms(4)] this _ assms(9)] assms(5,10,11)
  show ?thesis
    using s1(1) by auto
qed

section \<open>Concrete runs\<close>

text \<open>A blank chip, a server with a small file, and a loader that always gives the same answer.\<close>

definition blank_chip :: sim where
  "blank_chip = \<lparr>cells = \<lambda>_. 0xff, latch = False, selected = False, rx = [], running = 0\<rparr>"

definition sim_idle :: "(nat \<Rightarrow> u8) \<Rightarrow> sim \<Rightarrow> bool" where
  "sim_idle m s \<longleftrightarrow> cells s = m \<and> running s = 0 \<and> \<not> selected s"

definition reply :: "u8 list \<Rightarrow> int \<Rightarrow> bool option \<Rightarrow> outcome" where
  "reply p nxt ok = Answer \<lparr>payload = p, block2_next = nxt, success = ok, already_registered = False, command_update = False,
     j_type = None, j_version = None, j_files = []\<rparr>"

definition file_server :: "u8 list \<Rightarrow> request \<Rightarrow> outcome" where
  "file_server file r =
     (case r of
        Downfile v t n ver \<Rightarrow> reply (chunk file (block_number v)) (of_bool (1024 * (block_number v + 1) < length file)) None
      | _ \<Rightarrow> reply [] 0 (Some True))"

definition new_dev :: "'c \<Rightarrow> (request \<Rightarrow> outcome) list \<Rightarrow> int \<Rightarrow> 'c dev" where
  "new_dev c n len = \<lparr>messageID = 0, updateCommandFlag = False, lostConnectionFlag = False,
     updateinfo = \<lparr>u_type = 1, names = replicate 520 0, fileLength = len\<rparr>, userVersion = replicate 12 0, queued = 0,
     userFirmwareSendCompleteFlag = False, chip = c, net = n, i2c = [], eeprom_log = []\<rparr>"

definition loader_answer :: "u8 list" where
  "loader_answer = [0x20, 0x0C] @ version_text"

definition loader_reply :: "u8 list \<Rightarrow> u8 list" where
  "loader_reply fr = [0xA0, 0, 0x0E] @ loader_answer @ [checksum ([0xA0, 0, 0x0E] @ loader_answer)]"

definition new_sender :: "u32 \<Rightarrow> nat \<Rightarrow> userfwpro" where
  "new_sender k n = \<lparr>ubuf = [], tbuf = [], address = 0, cnt = 0, mask = k, serial = replicate n loader_reply, wire = []\<rparr>"

lemma sim_chip: "w25q64 sim_bus sim_idle (\<lambda>m s. cells s = m \<and> running s = 0 \<and> latch s \<and> \<not> selected s)
    (\<lambda>m s. cells s = m \<and> \<not> selected s) running"
  using sim_w25q64 unfolding sim_idle_def .

lemma blank_idle: "sim_idle (\<lambda>_. 0xff) blank_chip"
  by (simp add: sim_idle_def blank_chip_def)

lemma blank_inv: "image_inv (\<lambda>_. 0xff)"
  by (simp add: image_inv_def blank_def)

lemma file_server_serves: "serves_file file (file_server file)" "reliable (file_server file)"
  by (auto simp: serves_file_def reliable_def file_server_def reply_def split: request.splits)

lemma file_server_script: "f \<in> set (replicate n (file_server file)) \<Longrightarrow> serves_file file f \<and> reliable f"
  using file_server_serves by auto

lemma loader_loader: "loader loader_reply"
proof -
  have ans: "find_answer (loader_reply fr) = Some loader_answer" "length (loader_reply fr) \<le> RECV_SIZE" for fr
    by (simp_all add: loader_reply_def loader_answer_def version_text_def RECV_SIZE_def checksum_def)
  have a: "8 \<le> length loader_answer" "loader_answer ! 7 \<noteq> 0"
    by (simp_all add: loader_answer_def version_text_def)
  have "\<exists>u'. getUserVersion u = Some (0, u')" if u: "sizes u" "serial u = loader_reply # fs" for u fs
  proof -
    let ?b = "memcpy 0 loader_answer ((ubuf u)[0 := UC_GET_VER])"
    have "?b ! 1 = 0x0C"
      by (simp add: memcpy_def loader_answer_def)
    moreover have "?b[14 := 0] = loader_answer @ 0 # drop 15 ((ubuf u)[0 := UC_GET_VER])"
    proof -
      have l: "length loader_answer = 14" "14 < length ((ubuf u)[0 := UC_GET_VER])"
        using u(1) by (simp_all add: sizes_def loader_answer_def version_text_def)
      show ?thesis
        using l Cons_nth_drop_Suc [OF l(2), symmetric] by (simp add: memcpy_def list_update_append)
    qed
    ultimately show ?thesis
      using u ans by (simp add: not_less getUserVersion_def CheckCode_def numeral_3_eq_3 Let_def c_str_def loader_answer_def version_text_def)
  qed
  with ans a show ?thesis
    unfolding loader_def acks_def by blast
qed

lemma flash_driver_refines_witness:
  "\<exists>c'. flash_write sim_bus W25Q64 0xFE 4 [1, 2, 3, 4] blank_chip = Some (True, c') \<and>
     sim_idle (mem_program (\<lambda>_. 0xff) 0xFE [1, 2, 3, 4]) c'"
  using flash_driver_refines [OF sim_chip blank_idle, of "0xFE" "[1, 2, 3, 4]" 0 4 0] by simp

lemma download_succeeds_witness:
  "\<exists>s' m' i. deviceGetSaveUpdatefile sim_bus W25Q64 2 (new_dev blank_chip (replicate 6 (file_server [1, 2, 3])) 0) = Some (0, s') \<and>
     sim_idle m' (chip s') \<and> i < 2 \<and> holds m' i [1, 2, 3] \<and> fileLength (updateinfo s') = 3"
  using download_succeeds [OF sim_chip blank_inv, of "new_dev blank_chip (replicate 6 (file_server [1, 2, 3])) 0" "[1, 2, 3]" W25Q64 2]
    blank_idle file_server_script [of _ 6 "[1, 2, 3]"]
  by (simp add: new_dev_def)

lemma download_safe_witness:
  "\<exists>s' m' i n. deviceGetSaveUpdatefile sim_bus W25Q64 2 (new_dev blank_chip (replicate 6 (file_server [1, 2, 3])) 0) = Some (0, s') \<and>
     sim_idle m' (chip s') \<and> image_inv m' \<and> holds m' i (take n [1, 2, 3])"
proof -
  let ?s = "new_dev blank_chip (replicate 6 (file_server [1, 2, 3])) 0"
  have h: "sim_idle (\<lambda>_. 0xff) (chip ?s)" "\<forall>f\<in>set (net ?s). serves_file [1, 2, 3] f \<and> reliable f"
    "6 * (length [1, 2, 3 :: u8] div 1024 + 1) \<le> length (net ?s)" "length [1, 2, 3 :: u8] \<le> 0x3FFFC"
    using blank_idle file_server_script [of _ 6 "[1, 2, 3]"] by (simp_all add: new_dev_def)
  obtain s' where s': "deviceGetSaveUpdatefile sim_bus W25Q64 2 ?s = Some (0, s')"
    using download_total [OF sim_chip blank_inv h(1,4,2,3)] by blast
  with download_safe [OF sim_chip blank_inv h(1,4) _ s'] h(2) show ?thesis
    by blast
qed

text \<open>A download on the simulated chip that holds an image, recorded.\<close>

lemma interrupted_marking_blocks_witness:
  "let c = blank_chip\<lparr>cells := mem_program (marked (\<lambda>_. 0xff) 0) 4 [7]\<rparr> in
   \<exists>s' m1. deviceGetSaveUpdatefile (recording sim_bus) W25Q64 2 (new_dev (c, [c]) (replicate 6 (file_server [1, 2, 3])) 0) = Some (0, s') \<and>
     (\<exists>c1\<in>set (snd (chip s')). sim_idle m1 c1 \<and>
       (\<exists>s3. deviceGetSaveUpdatefile sim_bus W25Q64 2 (new_dev c1 [] 0) = Some (-1, s3) \<and> sim_idle m1 (chip s3)))"
proof -
  let ?m = "mem_program (marked (\<lambda>_. 0xff) 0) 4 [7]"
  let ?c = "blank_chip\<lparr>cells := ?m\<rparr>"
  let ?s = "new_dev (?c, [?c]) (replicate 6 (file_server [1, 2, 3])) 0"
  have "holds (mem_program (marked (\<lambda>_. 0xff) 0) (0 * 0x40000 + 4) [7]) 0 [7]"
    by (rule programmed_holds) (simp_all add: blank_def)
  then have m: "(0 :: nat) < 2" "holds ?m 0 [7]"
    by simp_all
  have i: "sim_idle ?m ?c" "chip ?s = (?c, [?c])"
    by (simp_all add: sim_idle_def new_dev_def blank_chip_def)
  have h: "\<forall>f\<in>set (net ?s). serves_file [1, 2, 3] f \<and> reliable f"
    "6 * (length [1, 2, 3 :: u8] div 1024 + 1) \<le> length (net ?s)" "length [1, 2, 3 :: u8] \<le> 0x3FFFC"
    using file_server_script [of _ 6 "[1, 2, 3]"] by (simp_all add: new_dev_def)
  have r: "recorded (\<lambda>_. True) sim_idle ?m (chip ?s)"
    using i by (simp add: recorded_def)
  obtain s' where s': "deviceGetSaveUpdatefile (recording sim_bus) W25Q64 2 ?s = Some (0, s')"
    by (rule exE [OF download_total [OF w25q64_recording [OF sim_chip] holds_inv [OF m] r h(3,1,2), of W25Q64 2]]) blast+
  have "\<forall>f\<in>set (net ?s). serves_file [1, 2, 3] f"
    using h(1) by blast
  from interrupted_marking_blocks [OF sim_chip m i(2,1) h(3) this s']
  obtain c1 m1 where c1: "c1 \<in> set (snd (chip s'))" "sim_idle m1 c1"
    "\<And>g st s2. sim_idle m1 (chip s2) \<Longrightarrow> \<exists>s3. deviceGetSaveUpdatefile sim_bus g st s2 = Some (-1, s3) \<and> sim_idle m1 (chip s3) \<and> net s3 = net s2"
    by blast
  have "sim_idle m1 (chip (new_dev c1 [] 0))"
    using c1(2) by (simp add: new_dev_def)
  with s' c1 show ?thesis
    unfolding Let_def by blast
qed

lemma lost_first_block_is_success_witness:
  "\<exists>s' m' i. deviceGetSaveUpdatefile sim_bus W25Q64 2 (new_dev blank_chip [file_server [1, 2, 3], \<lambda>_. NoReply] 0) = Some (0, s') \<and>
     sim_idle m' (chip s') \<and> holds m' i [] \<and> fileLength (updateinfo s') = 0"
proof -
  let ?s = "new_dev blank_chip [file_server [1, 2, 3], \<lambda>_. NoReply] 0"
  obtain a where "file_server [1, 2, 3] (Status 2) = Answer a" "success a = Some True"
    by (simp add: file_server_def reply_def)
  moreover have "sim_idle (\<lambda>_. 0xff) (chip ?s)" "net ?s = file_server [1, 2, 3] # (\<lambda>_. NoReply) # []" "fileLength (updateinfo ?s) = 0"
    using blank_idle by (simp_all add: new_dev_def)
  ultimately show ?thesis
    using lost_first_block_is_success [OF sim_chip blank_inv, of ?s "file_server [1, 2, 3]" "\<lambda>_. NoReply" "[]" 2 a W25Q64] by metis
qed

lemma image_delivered_witness:
  "\<exists>u' s'. send_image sim_bus W25Q64 (new_sender initial_mask 4)
       (new_dev (blank_chip\<lparr>cells := mem_program (marked (\<lambda>_. 0xff) 0) 4 (bytes (unchain initial_mask [5, 6]))\<rparr>) [] 8) = Some (True, u', s') \<and>
     mem_read (receive (\<lambda>_. 0xff) (wire u')) 0 8 = bytes [5, 6] \<and>
     (\<exists>fs w. wire u' = fs @ [w, frame_of [UC_RUN_CODE]] \<and> mem_read (receive (\<lambda>_. 0xff) fs) 4 4 = replicate 4 0xff)"
proof -
  let ?m = "mem_program (marked (\<lambda>_. 0xff) 0) 4 (bytes (unchain initial_mask [5, 6]))"
  let ?s = "new_dev (blank_chip\<lparr>cells := ?m\<rparr>) [] 8"
  have "holds (mem_program (marked (\<lambda>_. 0xff) 0) (0 * 0x40000 + 4) (bytes (unchain initial_mask [5, 6]))) 0 (bytes (unchain initial_mask [5, 6]))"
    by (rule programmed_holds) (simp_all add: blank_def)
  then have "holds ?m 0 (bytes (unchain initial_mask [5, 6]))"
    by simp
  moreover have "sim_idle ?m (chip ?s)" "fileLength (updateinfo ?s) = int (4 * length [5, 6 :: u32])"
    by (simp_all add: sim_idle_def new_dev_def blank_chip_def)
  ultimately show ?thesis
    using image_delivered [OF sim_chip, of ?m ?s 0 "[5, 6]" "new_sender initial_mask 4"] loader_loader
    by (simp add: new_sender_def) (metis order_refl take_all)
qed

lemma stale_mask_corrupts_witness:
  "\<exists>u' s'. send_image sim_bus W25Q64 (new_sender 0xFFFFFFFF 4)
       (new_dev (blank_chip\<lparr>cells := mem_program (marked (\<lambda>_. 0xff) 0) 4 (bytes (unchain initial_mask [5, 6]))\<rparr>) [] 8) = Some (True, u', s') \<and>
     mem_read (receive (\<lambda>_. 0xff) (wire u')) 0 8 \<noteq> bytes [5, 6]"
proof -
  let ?m = "mem_program (marked (\<lambda>_. 0xff) 0) 4 (bytes (unchain initial_mask [5, 6]))"
  let ?s = "new_dev (blank_chip\<lparr>cells := ?m\<rparr>) [] 8"
  have "holds (mem_program (marked (\<lambda>_. 0xff) 0) (0 * 0x40000 + 4) (bytes (unchain initial_mask [5, 6]))) 0 (bytes (unchain initial_mask [5, 6]))"
    by (rule programmed_holds) (simp_all add: blank_def)
  then have "holds ?m 0 (bytes (unchain initial_mask [5, 6]))"
    by simp
  moreover have "sim_idle ?m (chip ?s)" "fileLength (updateinfo ?s) = int (4 * length [5, 6 :: u32])"
    by (simp_all add: sim_idle_def new_dev_def blank_chip_def)
  moreover have "(0xFFFFFFFF :: u32) \<noteq> initial_mask"
    by (simp add: initial_mask_def)
  ultimately show ?thesis
    using stale_mask_corrupts [OF sim_chip, of ?m ?s 0 "[5, 6]" "new_sender 0xFFFFFFFF 4"] loader_loader
    by (simp add: new_sender_def)
qed

lemma update_end_to_end_witness:
  "\<exists>s1 u' s2. deviceGetSaveUpdatefile sim_bus W25Q64 2
       (new_dev blank_chip (replicate 6 (file_server (bytes (unchain initial_mask [5, 6])))) 0) = Some (0, s1) \<and>
     send_image sim_bus W25Q64 (new_sender initial_mask 4) s1 = Some (True, u', s2) \<and>
     mem_read (receive (\<lambda>_. 0xff) (wire u')) 0 8 = bytes [5, 6]"
proof -
  let ?file = "bytes (unchain initial_mask [5, 6])"
  let ?s = "new_dev blank_chip (replicate 6 (file_server ?file)) 0"
  have "sim_idle (\<lambda>_. 0xff) (chip ?s)" "\<forall>f\<in>set (net ?s). serves_file ?file f \<and> reliable f" "fileLength (updateinfo ?s) = 0" "length (net ?s) = 6"
    using blank_idle file_server_script [of _ 6 ?file] by (simp_all add: new_dev_def)
  then show ?thesis
    using update_end_to_end [OF sim_chip blank_inv, of ?s ?file "[5, 6]" "new_sender initial_mask 4" W25Q64] loader_loader
    by (simp add: new_sender_def)
qed

section \<open>The version\<close>

text \<open>
  The announced version and file name can be read back from the structure, the name always, the version if it has
  at most seven characters. A version of eight characters passes the check of its length, but the copy of the file name
  overwrites its terminator: the version that is read, sent to the server and written to the EEPROM is then the version
  followed by the file name.
\<close>

theorem update_info_strings:
  assumes "length (c_str v) \<le> 8" "length (c_str f) < 128"
  shows "\<exists>m1 m2. strcpy 0 v (names clear_info) = Some m1 \<and> copy_files 0 [f] m1 = Some m2 \<and>
    fileName0 (clear_info\<lparr>names := m2\<rparr>) = c_str f \<and>
    newVersionNo (clear_info\<lparr>names := m2\<rparr>) = (if length (c_str v) < 8 then c_str v else c_str v @ c_str f)"
proof -
  let ?m1 = "c_str v @ [0] @ replicate (519 - length (c_str v)) 0"
  let ?m2 = "take 8 ?m1 @ c_str f @ [0] @ drop (9 + length (c_str f)) ?m1"
  have m1: "strcpy 0 v (names clear_info) = Some ?m1"
    using assms(1) by (simp add: strcpy_def clear_info_def HDR_NAME_8CHAR_LEN_def FILENAME_MAX_LEN_def)
  have l: "length ?m1 = 520"
    using assms(1) by simp
  have m2: "copy_files 0 [f] ?m1 = Some ?m2"
    using assms(2) l by (simp add: strcpy_def HDR_NAME_8CHAR_LEN_def FILENAME_MAX_LEN_def add.commute del: append_Cons)
  have "c_str (drop 8 ?m2) = c_str f"
    using l by simp
  moreover have "c_str ?m2 = (if length (c_str v) < 8 then c_str v else c_str v @ c_str f)"
  proof (cases "length (c_str v) < 8")
    case True
    then have "take 8 ?m1 = c_str v @ 0 # replicate (7 - length (c_str v)) 0"
      by (simp add: take_Cons' min_def)
    with True show ?thesis
      by simp
  next
    case False
    then have "take 8 ?m1 = c_str v"
      using assms(1) by simp
    with False show ?thesis
      by (simp add: c_str_append c_str_no_zero)
  qed
  ultimately show ?thesis
    using m1 m2 by (intro exI [of _ ?m1] exI [of _ ?m2]) (simp add: fileName0_def newVersionNo_def HDR_NAME_8CHAR_LEN_def)
qed

lemma update_info_strings_witness:
  "\<exists>m1 m2. strcpy 0 [86, 49, 46, 48, 46, 48, 46, 49] (names clear_info) = Some m1 \<and> copy_files 0 [[97, 98]] m1 = Some m2 \<and>
     newVersionNo (clear_info\<lparr>names := m2\<rparr>) = [86, 49, 46, 48, 46, 48, 46, 49, 97, 98]"
  using update_info_strings [of "[86, 49, 46, 48, 46, 48, 46, 49]" "[97, 98]"] by (auto simp: c_str_def)

section \<open>The task\<close>

text \<open>What an operation leaves alone: the recorded version and the report of the sender.\<close>

definition keeps_version :: "'c dev \<Rightarrow> 'c dev \<Rightarrow> bool" where
  "keeps_version s s' \<longleftrightarrow> userVersion s' = userVersion s \<and> userFirmwareSendCompleteFlag s' = userFirmwareSendCompleteFlag s \<and>
     queued s' = queued s"

lemma keeps_version_refl: "keeps_version s s"
  by (simp add: keeps_version_def)

lemma keeps_version_trans: "keeps_version s t \<Longrightarrow> keeps_version t u \<Longrightarrow> keeps_version s u"
  by (simp add: keeps_version_def)

lemma exchange_version: "exchange r s = Some (o1, s') \<Longrightarrow> keeps_version s s'"
  by (auto simp: exchange_def keeps_version_def split: list.splits)

lemma register_version: "register_loop n s = Some (r, s') \<Longrightarrow> keeps_version s s'"
proof (induction n s rule: register_loop.induct)
  case (2 n s)
  from 2(2) obtain o1 t where e: "exchange Register s = Some (o1, t)"
    by (auto simp: bind_eq_Some_conv)
  have "keeps_version t s'"
    using 2(2) 2(1) [OF e] by (auto simp: e keeps_version_def split: outcome.splits if_splits)
  with exchange_version [OF e] show ?case
    by (rule keeps_version_trans)
qed (simp add: keeps_version_refl)

lemma status_version: "status_loop n st s = Some (r, s') \<Longrightarrow> keeps_version s s'"
proof (induction n st s rule: status_loop.induct)
  case (2 n st s)
  from 2(2) obtain o1 t where e: "exchange (Status st) s = Some (o1, t)"
    by (auto simp: bind_eq_Some_conv)
  have "keeps_version t s'"
    using 2(2) 2(1) [OF e] by (auto simp: e keeps_version_def Let_def split: outcome.splits if_splits)
  with exchange_version [OF e] show ?case
    by (rule keeps_version_trans)
qed (simp add: keeps_version_refl)

lemma info_version: "info_loop n s = Some (r, s') \<Longrightarrow> keeps_version s s'"
proof (induction n s rule: info_loop.induct)
  case (2 n s)
  from 2(2) obtain o1 t where e: "exchange NewVersion s = Some (o1, t)"
    by (auto simp: bind_eq_Some_conv)
  have "keeps_version t s'"
    using 2(2) 2(1) [OF e]
    by (auto simp: e keeps_version_def Let_def bind_eq_Some_conv split: outcome.splits if_splits option.splits)
  with exchange_version [OF e] show ?case
    by (rule keeps_version_trans)
qed (simp add: keeps_version_refl)

lemma download_version: "download_loop bus f b st req n nextb t1 t2 s = Some (r, s') \<Longrightarrow> keeps_version s s'"
proof (induction "length (net s)" arbitrary: s n nextb t1 t2 rule: less_induct)
  case less
  from less.prems obtain q s1 o1 s2 where
      s1: "(if n mod 8 = 0 then deviceStatusReport st s else Some (0, s)) = Some (q, s1)"
      and s2: "exchange (req (coapBlockValue n)) s1 = Some (o1, s2)"
    by (subst (asm) download_loop.simps) (auto simp: bind_eq_Some_conv)
  have k1: "keeps_version s s1"
    using s1 status_version by (auto simp: deviceStatusReport_def keeps_version_refl split: if_splits)
  have "same_flash s s1"
    using s1 status_loop_frame by (auto simp: deviceStatusReport_def same_flash_refl split: if_splits)
  then have shorter: "length (net s2) < length (net s)"
    using exchange_frame [OF s2] by (auto simp: same_flash_def)
  have k2: "keeps_version s s2"
    using keeps_version_trans [OF k1 exchange_version [OF s2]] .
  have upd: "keeps_version s s3" if "userVersion s3 = userVersion s2" "userFirmwareSendCompleteFlag s3 = userFirmwareSendCompleteFlag s2"
      "queued s3 = queued s2" for s3
    using k2 that by (simp add: keeps_version_def)
  have rec: "keeps_version s s'" if "keeps_version s s3" "net s3 = net s2"
      "download_loop bus f b st req n' nextb' t1' t2' s3 = Some (r, s')" for s3 n' nextb' t1' t2'
    using less.hyps [of s3, OF _ that(3)] shorter that(1,2) by (auto elim: keeps_version_trans)
  note step = less.prems [unfolded download_step [where req = req and n = n, OF s1 s2]]
  show ?case
  proof (cases o1)
    case NoReply
    with step k2 rec [OF k2 refl] show ?thesis
      by (auto split: if_splits)
  next
    case (Answer a)
    show ?thesis
    proof (cases "length (payload a) \<noteq> BYTEPAYLOADLEN \<and> success a \<noteq> None")
      case True
      with step Answer k2 rec [OF k2 refl] show ?thesis
        by (auto split: if_splits)
    next
      case False
      define s3 where "s3 = (\<lambda>c. s2\<lparr>updateinfo := (updateinfo s2)\<lparr>fileLength := fileLength (updateinfo s2) + int (length (payload a))\<rparr>, chip := c\<rparr>)"
      have k3: "keeps_version s (s3 c)" and n3: "net (s3 c) = net s2" for c
        using k2 by (simp_all add: s3_def keeps_version_def)
      note step = step [unfolded Answer outcome.case if_not_P [OF False] Let_def]
      from step obtain ok c where w: "flash_write bus f (b + word_of_int (n * 1024)) (of_nat (length (payload a))) (payload a) (chip s2) = Some (ok, c)"
        by (cases "flash_write bus f (b + word_of_int (n * 1024)) (of_nat (length (payload a))) (payload a) (chip s2)") auto
      have "s' = s3 c \<or> download_loop bus f b st req (n + 1) (block2_next a) 5 5 (s3 c) = Some (r, s')"
        using step w unfolding s3_def by (auto split: if_splits)
      then show ?thesis
        using k3 rec [OF k3 n3] by blast
    qed
  qed (use step k2 in auto)
qed

lemma save_version:
  assumes "deviceGetSaveUpdatefile bus garbage st s = Some (r, s')"
  shows "keeps_version s s'"
proof -
  obtain f c where i: "flash25spi_init bus garbage (chip s) = (f, c)"
    by fastforce
  from assms obtain a b c' where t: "find_buffer bus f [0, 1] c = Some (a, b, c')"
    by (auto simp: deviceGetSaveUpdatefile_def i bind_eq_Some_conv)
  have k: "keeps_version s (s\<lparr>chip := c'\<rparr>)"
    by (simp add: keeps_version_def)
  from assms show ?thesis
    unfolding deviceGetSaveUpdatefile_def i Let_def prod.case t Option.bind.simps
    using k keeps_version_trans [OF k download_version] by (auto split: if_splits)
qed

lemma retry_version:
  assumes "\<And>s r s'. f s = Some (r, s') \<Longrightarrow> keeps_version s s'"
  shows "retry n f s = Some (r, s') \<Longrightarrow> keeps_version s s'"
proof (induction n arbitrary: s)
  case (Suc n)
  then obtain q t where "f s = Some (q, t)" "(q \<noteq> 0 \<and> retry n f t = Some (r, s')) \<or> t = s'"
    by (auto simp: bind_eq_Some_conv split: if_splits)
  with assms Suc.IH show ?case
    using keeps_version_trans by blast
qed (use assms in simp)

lemma operation_version:
  "retry n deviceRegister s = Some (r, s') \<Longrightarrow> keeps_version s s'"
  "retry n (deviceStatusReport st) s = Some (r, s') \<Longrightarrow> keeps_version s s'"
  "retry n deviceGetUpdateinfo s = Some (r, s') \<Longrightarrow> keeps_version s s'"
  "retry n (deviceGetSaveUpdatefile bus garbage st) s = Some (r, s') \<Longrightarrow> keeps_version s s'"
  by (erule retry_version [rotated], simp add: deviceRegister_def deviceStatusReport_def deviceGetUpdateinfo_def
      register_version status_version info_version save_version)+

lemma step_version:
  assumes "update_step bus garbage (step, s) = Some (step', s')"
  shows "userVersion s' = userVersion s \<and> userFirmwareSendCompleteFlag s' = userFirmwareSendCompleteFlag s \<or>
    step = USER_DEVICE_UPDATE_COMPLETE \<and> step' = DEVICE_UPDATE_IDELING \<and> userFirmwareSendCompleteFlag s"
proof (cases step)
  case USER_DEVICE_UPDATE_COMPLETE
  with assms obtain r t where t: "retry 5 (deviceStatusReport 2) s = Some (r, t)"
    by (auto simp: update_step_def bind_eq_Some_conv)
  from operation_version(2) [OF t] have "userFirmwareSendCompleteFlag t = userFirmwareSendCompleteFlag s" "userVersion t = userVersion s"
    by (simp_all add: keeps_version_def)
  with assms USER_DEVICE_UPDATE_COMPLETE t show ?thesis
    by (auto simp: update_step_def bind_eq_Some_conv split: if_splits)
next
  case DEVICE_UPDATE_IDELING
  with assms operation_version(2) [of 5 1 s] show ?thesis
    by (auto simp: update_step_def keeps_version_def bind_eq_Some_conv split: if_splits)
next
  case DEVICE_UPDATE_COMMAND
  with assms operation_version(3) [of 5 s] show ?thesis
    by (auto simp: update_step_def keeps_version_def bind_eq_Some_conv split: if_splits)
next
  case USER_DEVICE_UPDATE_ONGOING
  with assms operation_version(4) [of 5 bus garbage 2 s] show ?thesis
    by (auto simp: update_step_def keeps_version_def bind_eq_Some_conv split: if_splits)
qed (use assms in \<open>auto simp: update_step_def\<close>)

lemma run_version:
  assumes "update_run bus garbage es x y" "\<not> userFirmwareSendCompleteFlag (snd x)" "Sent \<notin> set es"
  shows "userVersion (snd y) = userVersion (snd x)"
  using assms
proof induction
  case (go e x y es z)
  obtain step s step' s' where xy: "x = (step, s)" "y = (step', s')"
    by fastforce
  have "userVersion s' = userVersion s \<and> \<not> userFirmwareSendCompleteFlag s'"
    using go.hyps(1) go.prems step_version [of bus garbage step s step' s'] by (cases rule: update_trans.cases) (auto simp: xy)
  with go xy show ?case
    by simp
qed simp

text \<open>
  C12: the version the device has on record for the user firmware, the one it reports to the server and keeps in the
  EEPROM, is never ahead of the delivery. However the task and the sender take turns, and whatever the server, the
  flash and the EEPROM do: as long as the sender has not reported an image as sent, the recorded version is the old one.
\<close>

theorem version_needs_delivery:
  assumes "update_run bus garbage es (step, s) (step', s')" "\<not> userFirmwareSendCompleteFlag s" "Sent \<notin> set es"
  shows "userVersion s' = userVersion s"
  using run_version [OF assms(1)] assms(2,3) by simp

text \<open>
  An update of the device itself ends the service. Once the server has announced one (type 0), the task passes
  through its loop without a request to the server and without another state, for good.
\<close>

theorem own_update_hangs:
  assumes "update_run bus garbage es (MYSELF_DEVICE_UPDATE_ONGOING, s) (step', s')"
  shows "step' = MYSELF_DEVICE_UPDATE_ONGOING \<and> net s' = net s \<and> messageID s' = messageID s \<and> userVersion s' = userVersion s"
proof -
  have "fst x = MYSELF_DEVICE_UPDATE_ONGOING \<Longrightarrow> fst y = MYSELF_DEVICE_UPDATE_ONGOING \<and> net (snd y) = net (snd x) \<and>
      messageID (snd y) = messageID (snd x) \<and> userVersion (snd y) = userVersion (snd x)"
    if "update_run bus garbage es x y" for x y
    using that
  proof induction
    case (go e x y es z)
    from go.hyps(1) go.prems have "fst y = MYSELF_DEVICE_UPDATE_ONGOING \<and> net (snd y) = net (snd x) \<and>
        messageID (snd y) = messageID (snd x) \<and> userVersion (snd y) = userVersion (snd x)"
      by (cases rule: update_trans.cases) (auto simp: update_step_def split: prod.splits)
    with go show ?case
      by simp
  qed simp
  with assms show ?thesis
    by fastforce
qed

lemma version_needs_delivery_witness:
  "\<exists>step' s'. update_run sim_bus W25Q64 [Not_sent, Pass] (USER_DEVICE_UPDATE_COMPLETE, (new_dev blank_chip [file_server []] 0)\<lparr>queued := 1\<rparr>) (step', s') \<and>
     userVersion s' = replicate 12 0"
proof -
  let ?s = "(new_dev blank_chip [file_server []] 0)\<lparr>queued := 1\<rparr>"
  let ?t = "(new_dev blank_chip [] 0)\<lparr>messageID := 1\<rparr>"
  have "update_trans sim_bus W25Q64 Not_sent (USER_DEVICE_UPDATE_COMPLETE, ?s) (USER_DEVICE_UPDATE_COMPLETE, ?s\<lparr>queued := queued ?s - 1, chip := blank_chip\<rparr>)"
    by (rule update_trans.not_sent) simp
  moreover have "update_trans sim_bus W25Q64 Pass (USER_DEVICE_UPDATE_COMPLETE, ?s\<lparr>queued := queued ?s - 1, chip := blank_chip\<rparr>) (USER_DEVICE_UPDATE_COMPLETE, ?t)"
    by (rule update_trans.pass) (simp add: update_step_def eval_nat_numeral deviceStatusReport_def exchange_def new_dev_def file_server_def reply_def)
  ultimately have run: "update_run sim_bus W25Q64 [Not_sent, Pass] (USER_DEVICE_UPDATE_COMPLETE, ?s) (USER_DEVICE_UPDATE_COMPLETE, ?t)"
    by (auto simp: update_run_Cons)
  have "userVersion ?t = userVersion ?s"
    by (rule version_needs_delivery [OF run]) (simp_all add: new_dev_def)
  then have "userVersion ?t = replicate 12 0"
    by (simp only: new_dev_def dev.simps)
  with run show ?thesis
    by blast
qed

lemma own_update_hangs_witness:
  "update_run sim_bus W25Q64 [Pass] (MYSELF_DEVICE_UPDATE_ONGOING, new_dev blank_chip [] 0) (MYSELF_DEVICE_UPDATE_ONGOING, new_dev blank_chip [] 0) \<and>
   net (new_dev blank_chip [] 0) = []"
proof -
  have "update_run sim_bus W25Q64 [Pass] (MYSELF_DEVICE_UPDATE_ONGOING, new_dev blank_chip [] 0) (MYSELF_DEVICE_UPDATE_ONGOING, new_dev blank_chip [] 0)"
    by (auto simp: update_run_Cons update_step_def intro: update_trans.pass)
  with own_update_hangs [OF this] show ?thesis
    by (simp add: new_dev_def)
qed

section \<open>The board\<close>

lemma version_loop_effect:
  "version_loop n data v s = Some (0, s') \<Longrightarrow> eeprom_log s' = eeprom_log s @ [data] \<and>
    (if length (c_str v) \<le> 8 then strcpy 0 v (userVersion s) = Some (userVersion s') else userVersion s' = userVersion s)"
  by (induction n data v s rule: version_loop.induct)
    (auto simp: bind_eq_Some_conv HDR_NAME_8CHAR_LEN_def split: list.splits if_splits)

text \<open>
  C34: what the device records survives a restart. After a call of the version update that returns success the next start
  identifies the board and writes nothing, and all of the header but the eight bytes of the version field is as it was. If the
  version had at most seven characters, the field and the running device hold it. A longer one is not recorded, although the
  call returns success: the running device keeps its old version, and the field is empty, so that after the restart there is
  none. (With exactly eight characters the copy overruns its buffer, and the call has no result.)
\<close>

theorem version_survives_restart:
  assumes "updateUserVersionNo v s = Some (0, s')"
    and "length mem = HEADER_LEN" "flash32 mem = DEVICE_MAGIC_ID"
    and "b_acks b = True # as" "b_reads b = (True, ee_contents (drop (length (eeprom_log s)) (eeprom_log s')) mem) # rs"
  shows "\<exists>b'. identify_board b = Some (0, b') \<and> b_log b' = b_log b \<and>
    take version_offset (header b') = take version_offset mem \<and>
    drop (version_offset + HDR_NAME_8CHAR_LEN) (header b') = drop (version_offset + HDR_NAME_8CHAR_LEN) mem \<and>
    c_str (drop version_offset (header b')) = (if length (c_str v) < 8 then c_str v else []) \<and>
    c_str (userVersion s') = (if length (c_str v) < 8 then c_str v else c_str (userVersion s))"
proof -
  from assms(1) obtain data where d: "version_data v = Some data" "version_loop 3 data v s = Some (0, s')"
    by (auto simp: updateUserVersionNo_def bind_eq_Some_conv)
  note e = version_loop_effect [OF d(2)]
  have c: "ee_contents (drop (length (eeprom_log s)) (eeprom_log s')) mem = ee_apply mem data"
    using e by (simp add: ee_contents_one)
  note w = version_write [OF assms(2) d(1)]
  have off: "4 \<le> version_offset"
    by (simp add: version_offset_def)
  have "flash32 (ee_apply mem data) = DEVICE_MAGIC_ID"
    using w assms(3) flash32_take [OF off, of mem] flash32_take [OF off, of "ee_apply mem data"] by simp
  with read_good assms(4,5) c obtain b' where "identify_board b = Some (0, b')" "header b' = ee_apply mem data" "b_log b' = b_log b"
    by metis
  moreover have "c_str (userVersion s') = (if length (c_str v) < 8 then c_str v else c_str (userVersion s))"
    using e version_not_eight [OF d(1)] drop_strcpy [of 0 v "userVersion s" "userVersion s'"] by (auto split: if_splits)
  ultimately show ?thesis
    using w by simp
qed

text \<open>
  The first start of a board, whose EEPROM has no valid header, writes the default one; the next start finds it.
  Whatever the memory held, the seven default strings fit their fields.
\<close>

theorem first_start_initialises:
  assumes "length (header b) = HEADER_LEN" "\<forall>(ok, mem)\<in>set (b_reads b). length mem = HEADER_LEN"
    and "identify_board b = Some (0, b1)" "b_log b1 \<noteq> b_log b" "length mem = HEADER_LEN"
    and "b_acks b2 = True # as" "b_reads b2 = (True, ee_contents (drop (length (b_log b)) (b_log b1)) mem) # rs"
  shows "\<exists>b3. identify_board b2 = Some (0, b3) \<and> header b3 = header b1 \<and> b_log b3 = b_log b2 \<and>
    c_str (drop version_offset (header b3)) = c_str USER_DEVICE_SOFTWARE_VERSION"
proof -
  from assms(3) obtain b' where b': "read_loop 10 b = Some b'"
    by (auto simp: identify_board_def read_eeprom_def bind_eq_Some_conv)
  from read_loop_length [OF b' assms(1,2)] have l: "length (header b') = HEADER_LEN" "b_log b' = b_log b"
    by blast+
  from default_header_fits [OF l(1)] obtain h where h: "default_header (header b') = Some h" "length h = HEADER_LEN"
      "flash32 h = DEVICE_MAGIC_ID" "c_str (drop version_offset h) = c_str USER_DEVICE_SOFTWARE_VERSION"
    by blast
  have "header b1 = h \<and> b_log b1 = b_log b @ [[0, 0] @ h]"
    using assms(3,4) l(2)
    by (auto simp: identify_board_def read_eeprom_def b' h(1) write_eeprom_def bind_eq_Some_conv split: if_splits list.splits)
  moreover have "ee_contents [[0, 0] @ h] mem = h"
    using h(2) assms(5) by (simp add: ee_contents_one ee_apply_def memcpy_def)
  ultimately show ?thesis
    using read_good [OF assms(6), of h rs] assms(7) h by auto
qed

lemma version_survives_restart_witness:
  "\<exists>s'. updateUserVersionNo [86, 50, 0] ((new_dev blank_chip [] 0)\<lparr>i2c := [True, True]\<rparr>) = Some (0, s') \<and>
     c_str (userVersion s') = [86, 50] \<and>
     (\<exists>b'. identify_board \<lparr>header = [], b_acks = [True],
        b_reads = [(True, ee_contents (eeprom_log s') (flash32_bytes DEVICE_MAGIC_ID @ replicate 40 7))], b_log = []\<rparr> = Some (0, b') \<and>
        c_str (drop version_offset (header b')) = [86, 50])"
proof -
  let ?s = "(new_dev blank_chip [] 0)\<lparr>i2c := [True, True]\<rparr>" and ?v = "[86, 50, 0] :: u8 list"
  let ?mem = "flash32_bytes DEVICE_MAGIC_ID @ replicate 40 7"
  have v: "c_str ?v = [86, 50]"
    by (simp add: c_str_def)
  have s: "i2c ?s = [True, True]" "length (userVersion ?s) = 12"
    by (simp_all add: new_dev_def)
  obtain data where d: "version_data ?v = Some data"
    by (simp add: version_data_def v strcpy_def Let_def HDR_NAME_8CHAR_LEN_def)
  have three: "version_loop 3 = version_loop (Suc 2)"
    by (simp only: numeral_3_eq_3 numeral_2_eq_2)
  obtain s' where s': "updateUserVersionNo ?v ?s = Some (0, s')"
    using s unfolding updateUserVersionNo_def d three version_loop.simps by (simp add: v strcpy_def HDR_NAME_8CHAR_LEN_def)
  have m: "length ?mem = HEADER_LEN" "flash32 ?mem = DEVICE_MAGIC_ID"
    by (simp_all add: flash32_bytes_def flash32_def DEVICE_MAGIC_ID_def HEADER_LEN_def version_offset_def HDR_NAME_4CHAR_LEN_def HDR_NAME_8CHAR_LEN_def)
  have l: "eeprom_log ?s = []"
    by (simp add: new_dev_def)
  show ?thesis
    using version_survives_restart [OF s' m, of "\<lparr>header = [], b_acks = [True],
        b_reads = [(True, ee_contents (eeprom_log s') ?mem)], b_log = []\<rparr>" "[]" "[]"] s' v l by auto
qed

lemma first_start_initialises_witness:
  "\<exists>b1 b3. identify_board \<lparr>header = replicate 44 0, b_acks = [True, True, True], b_reads = [(True, replicate 44 0xff)], b_log = []\<rparr> = Some (0, b1) \<and>
     identify_board \<lparr>header = [], b_acks = [True], b_reads = [(True, ee_contents (b_log b1) (replicate 44 0xff))], b_log = []\<rparr> = Some (0, b3) \<and>
     header b3 = header b1"
proof -
  let ?b = "\<lparr>header = replicate 44 0, b_acks = [True, True, True], b_reads = [(True, replicate 44 0xff)], b_log = []\<rparr>"
  have l: "length (replicate 44 (0xff :: u8)) = HEADER_LEN" "length (header ?b) = HEADER_LEN"
    by (simp_all add: HEADER_LEN_def version_offset_def HDR_NAME_4CHAR_LEN_def HDR_NAME_8CHAR_LEN_def)
  from default_header_fits [OF l(1)] obtain h where h: "default_header (replicate 44 0xff) = Some h"
    by blast
  have m: "flash32 (replicate 44 (0xff :: u8)) \<noteq> DEVICE_MAGIC_ID"
    by (simp add: flash32_def DEVICE_MAGIC_ID_def)
  have r: "read_loop 10 ?b = Some (?b\<lparr>b_acks := [True, True], header := replicate 44 0xff, b_reads := []\<rparr>)"
    using read_loop.simps(2) [of 9 ?b] by (simp del: read_loop.simps)
  obtain b1 where b1: "identify_board ?b = Some (0, b1)" "b_log b1 = [[0, 0] @ h]"
    unfolding identify_board_def read_eeprom_def r using m h by (simp add: write_eeprom_def)
  show ?thesis
    using first_start_initialises [OF l(2) _ b1(1) _ l(1), of "\<lparr>header = [], b_acks = [True],
        b_reads = [(True, ee_contents (b_log b1) (replicate 44 0xff))], b_log = []\<rparr>" "[]" "[]"] b1 l(1) by auto
qed

end
