(* ===== verification/Coap_Pdu.thy ===== *)
theory Coap_Pdu
  imports Bytes Lwip_Def
begin

text \<open>
  CoAP packets (\<open>cantcoap/cantcoap.cpp\<close>): the container, its constructors, header fields, token, options, payload and
  the check of a received packet.

  The memory of a packet is a list of bytes of the length \<open>bufferLength\<close>. A function returns \<open>None\<close> when it reads or
  writes beyond that memory or uses a pointer that \<open>realloc\<close> has made invalid, and otherwise the result code of
  the method and the packet. The heap is an argument: for a size the contents of a fresh block of that size, or
  \<open>None\<close> if there is no memory.
\<close>

unbundle bit_operations_syntax

type_synonym heap = "nat \<Rightarrow> u8 list option"

section \<open>Constants\<close>

definition COAP_HDR_SIZE :: nat where "COAP_HDR_SIZE = 4"
definition COAP_OPTION_HDR_BYTE :: u16 where "COAP_OPTION_HDR_BYTE = 1"
definition COAP_CONFIRMABLE :: u8 where "COAP_CONFIRMABLE = 0x00"
definition COAP_EMPTY :: u8 where "COAP_EMPTY = 0x00"
definition COAP_POST :: u8 where "COAP_POST = 0x02"
definition COAP_DELETE :: u8 where "COAP_DELETE = 0x04"
definition COAP_CREATED :: u8 where "COAP_CREATED = 0x41"
definition COAP_CONTENT :: u8 where "COAP_CONTENT = 0x45"
definition COAP_BAD_REQUEST :: u8 where "COAP_BAD_REQUEST = 0x80"
definition COAP_NOT_ACCEPTABLE :: u8 where "COAP_NOT_ACCEPTABLE = 0x86"
definition COAP_PRECONDITION_FAILED :: u8 where "COAP_PRECONDITION_FAILED = 0x8C"
definition COAP_UNSUPPORTED_CONTENT_FORMAT :: u8 where "COAP_UNSUPPORTED_CONTENT_FORMAT = 0x8F"
definition COAP_INTERNAL_SERVER_ERROR :: u8 where "COAP_INTERNAL_SERVER_ERROR = 0xA0"
definition COAP_PROXYING_NOT_SUPPORTED :: u8 where "COAP_PROXYING_NOT_SUPPORTED = 0xA5"
definition COAP_OPTION_URI_PATH :: u16 where "COAP_OPTION_URI_PATH = 11"
definition COAP_OPTION_CONTENT_FORMAT :: u16 where "COAP_OPTION_CONTENT_FORMAT = 12"
definition COAP_OPTION_BLOCK2 :: u16 where "COAP_OPTION_BLOCK2 = 23"

section \<open>The packet\<close>

text \<open>A pointer to the payload: an offset into the memory; invalid after the memory has been reallocated.\<close>

datatype payptr = Null | At nat | Invalid

record CoapPDU =
  pdu :: "u8 list"
  pduLength :: nat
  constructedFromBuffer :: bool
  bufferLength :: nat
  payloadPointer :: payptr
  payloadLength :: nat
  numOptions :: nat
  maxAddedOptionNumber :: u16

definition rd :: "CoapPDU \<Rightarrow> nat \<Rightarrow> u8 option" where
  "rd p i = (if i < length (pdu p) then Some (pdu p ! i) else None)"

definition wr :: "nat \<Rightarrow> u8 list \<Rightarrow> CoapPDU \<Rightarrow> CoapPDU option" where
  "wr i bs p = (if i + length bs \<le> length (pdu p) then Some (p\<lparr>pdu := memcpy i bs (pdu p)\<rparr>) else None)"

text \<open>
  Making room for a packet of a new length: the object's own memory is reallocated, a buffer of the caller has to be
  large enough. \<open>None\<close> is failure.
\<close>

definition make_room :: "heap \<Rightarrow> nat \<Rightarrow> CoapPDU \<Rightarrow> CoapPDU option" where
  "make_room h n p =
     (if \<not> constructedFromBuffer p
      then case h n of
             None \<Rightarrow> None
           | Some blk \<Rightarrow>
               Some (p\<lparr>pdu := take n (pdu p @ drop (length (pdu p)) blk), bufferLength := n, pduLength := n,
                 payloadPointer := (case payloadPointer p of Null \<Rightarrow> Null | _ \<Rightarrow> Invalid)\<rparr>)
      else if bufferLength p < n then None else Some (p\<lparr>pduLength := n\<rparr>))"

section \<open>Header\<close>

definition setVersion :: "u8 \<Rightarrow> CoapPDU \<Rightarrow> (int \<times> CoapPDU) option" where
  "setVersion version p =
     (if 3 < version then Some (0, p)
      else do { b \<leftarrow> rd p 0; p \<leftarrow> wr 0 [(b AND 0x3F) OR push_bit 6 version] p; Some (1, p) })"

definition getVersion :: "CoapPDU \<Rightarrow> u8 option" where
  "getVersion p = do { b \<leftarrow> rd p 0; Some (drop_bit 6 (b AND 0xC0)) }"

definition setType :: "u8 \<Rightarrow> CoapPDU \<Rightarrow> CoapPDU option" where
  "setType mt p = do { b \<leftarrow> rd p 0; wr 0 [(b AND 0xCF) OR mt] p }"

definition getType :: "CoapPDU \<Rightarrow> u8 option" where
  "getType p = do { b \<leftarrow> rd p 0; Some (b AND 0x30) }"

definition setTokenLength :: "u8 \<Rightarrow> CoapPDU \<Rightarrow> (int \<times> CoapPDU) option" where
  "setTokenLength n p =
     (if 8 < n then Some (1, p) else do { b \<leftarrow> rd p 0; p \<leftarrow> wr 0 [(b AND 0xF0) OR n] p; Some (0, p) })"

definition getTokenLength :: "CoapPDU \<Rightarrow> nat option" where
  "getTokenLength p = do { b \<leftarrow> rd p 0; Some (unat (b AND 0x0F)) }"

definition setCode :: "u8 \<Rightarrow> CoapPDU \<Rightarrow> CoapPDU option" where
  "setCode code p = wr 1 [code] p"

definition getCode :: "CoapPDU \<Rightarrow> u8 option" where
  "getCode p = rd p 1"

definition setMessageID :: "u16 \<Rightarrow> CoapPDU \<Rightarrow> CoapPDU option" where
  "setMessageID mid p =
     (let networkOrder = lwip_htons mid in wr 2 [ucast (drop_bit 8 networkOrder), ucast (networkOrder AND 0x00FF)] p)"

definition getMessageID :: "CoapPDU \<Rightarrow> u16 option" where
  "getMessageID p = do { a \<leftarrow> rd p 2; b \<leftarrow> rd p 3; Some (lwip_ntohs (push_bit 8 (ucast a) OR ucast b)) }"

section \<open>Constructors\<close>

definition CoapPDU_new :: "heap \<Rightarrow> CoapPDU option" where
  "CoapPDU_new h =
     (case h 4 of
        None \<Rightarrow> None
      | Some _ \<Rightarrow>
          Option.bind (setVersion 1 \<lparr>pdu = replicate 4 0, pduLength = 4, constructedFromBuffer = False, bufferLength = 4,
            payloadPointer = Null, payloadLength = 0, numOptions = 0, maxAddedOptionNumber = 0\<rparr>) (\<lambda>(_, p). Some p))"

definition CoapPDU_buffer :: "u8 list \<Rightarrow> nat \<Rightarrow> CoapPDU option" where
  "CoapPDU_buffer buf n =
     (let p = \<lparr>pdu = buf, pduLength = n, constructedFromBuffer = True, bufferLength = length buf,
        payloadPointer = Null, payloadLength = 0, numOptions = 0, maxAddedOptionNumber = 0\<rparr>
      in if n = 0
         then do { p \<leftarrow> wr 0 [0, 0, 0, 0] (p\<lparr>pduLength := 4\<rparr>); (_, p) \<leftarrow> setVersion 1 p; Some p }
         else Some p)"

definition CoapPDU_external :: "u8 list \<Rightarrow> nat \<Rightarrow> CoapPDU" where
  "CoapPDU_external buf n =
     \<lparr>pdu = take n buf, pduLength = n, constructedFromBuffer = True, bufferLength = n,
        payloadPointer = Null, payloadLength = 0, numOptions = 0, maxAddedOptionNumber = 0\<rparr>"

definition setPDULength :: "nat \<Rightarrow> CoapPDU \<Rightarrow> CoapPDU" where
  "setPDULength n p = p\<lparr>pduLength := n\<rparr>"

definition reset :: "CoapPDU \<Rightarrow> CoapPDU" where
  "reset p = p\<lparr>pdu := replicate (bufferLength p) 0, pduLength := 4, numOptions := 0, maxAddedOptionNumber := 0,
     payloadPointer := Null, payloadLength := 0\<rparr>"

section \<open>Moving the rest of a packet\<close>

fun shift_up :: "nat \<Rightarrow> nat \<Rightarrow> nat \<Rightarrow> u8 list \<Rightarrow> u8 list" where
  "shift_up 0 destPointer srcPointer m = m"
| "shift_up (Suc shiftAmount) destPointer srcPointer m =
     shift_up shiftAmount (destPointer - 1) (srcPointer - 1) (m[destPointer := m ! srcPointer])"

definition shiftPDUUp :: "nat \<Rightarrow> nat \<Rightarrow> CoapPDU \<Rightarrow> CoapPDU" where
  "shiftPDUUp shiftOffset shiftAmount p =
     p\<lparr>pdu := shift_up shiftAmount (pduLength p - 1) (pduLength p - 1 - shiftOffset) (pdu p)\<rparr>"

fun shift_down :: "nat \<Rightarrow> nat \<Rightarrow> nat \<Rightarrow> u8 list \<Rightarrow> u8 list" where
  "shift_down 0 startLocation srcPointer m = m"
| "shift_down (Suc shiftAmount) startLocation srcPointer m =
     shift_down shiftAmount (startLocation + 1) (srcPointer + 1) (m[startLocation := m ! srcPointer])"

definition shiftPDUDown :: "nat \<Rightarrow> nat \<Rightarrow> nat \<Rightarrow> CoapPDU \<Rightarrow> CoapPDU" where
  "shiftPDUDown startLocation shiftOffset shiftAmount p =
     p\<lparr>pdu := shift_down shiftAmount startLocation (startLocation + shiftOffset) (pdu p)\<rparr>"

section \<open>Token\<close>

text \<open>
  The old length of the packet is kept in eight bits; for a packet of 256 bytes and more the block to be moved then
  begins before the memory. If the packet shrinks, the object's own memory is reallocated at the end.
\<close>

definition setToken :: "heap \<Rightarrow> u8 list \<Rightarrow> CoapPDU \<Rightarrow> (int \<times> CoapPDU) option" where
  "setToken h token p =
     (let tokenLength = length token
      in if tokenLength = 0 then Some (1, p)
         else do {
           oldTokenLength \<leftarrow> getTokenLength p;
           if tokenLength = oldTokenLength then do { p \<leftarrow> wr 4 token p; Some (0, p) }
           else
             let oldPDULength = pduLength p mod 256;
                 newLength = pduLength p - oldTokenLength + tokenLength
             in if oldPDULength < newLength
                then case make_room h newLength p of
                       None \<Rightarrow> Some (1, p\<lparr>pduLength := oldPDULength\<rparr>)
                     | Some p \<Rightarrow>
                         let shiftAmount = newLength - tokenLength - COAP_HDR_SIZE
                         in if oldPDULength < shiftAmount then None
                            else do {
                              let p = shiftPDUUp (newLength - oldPDULength) shiftAmount p;
                              p \<leftarrow> wr 4 token p;
                              (_, p) \<leftarrow> setTokenLength (of_nat tokenLength) p;
                              Some (0, p) }
                else do {
                  p \<leftarrow> wr 4 token (p\<lparr>pduLength := newLength\<rparr>);
                  let p = shiftPDUDown (COAP_HDR_SIZE + tokenLength) (oldPDULength - newLength)
                    (oldPDULength - oldTokenLength - COAP_HDR_SIZE) p;
                  if \<not> constructedFromBuffer p
                  then case make_room h newLength p of
                         None \<Rightarrow> Some (1, p)
                       | Some p \<Rightarrow> Option.bind (setTokenLength (of_nat tokenLength) p) (\<lambda>(_, p). Some (0, p))
                  else Option.bind (setTokenLength (of_nat tokenLength) p) (\<lambda>(_, p). Some (0, p)) } })"

section \<open>Reading an option\<close>

definition computeExtraBytes :: "u16 \<Rightarrow> nat" where
  "computeExtraBytes n = (if n < 13 then 0 else if n < 269 then 1 else 2)"

definition getOptionDelta :: "CoapPDU \<Rightarrow> nat \<Rightarrow> u16 option" where
  "getOptionDelta p pos =
     do { b \<leftarrow> rd p pos;
          let delta = drop_bit 4 (ucast b AND 0xF0);
          if delta < 13 then Some delta
          else if delta = 13 then do { c \<leftarrow> rd p (pos + 1); Some (ucast c + 13) }
          else if delta = 14
          then do { c \<leftarrow> rd p (pos + 1); d \<leftarrow> rd p (pos + 2);
                    Some (lwip_ntohs (push_bit 8 (ucast c) OR ucast d) + 269) }
          else Some delta }"

definition getOptionValueLength :: "CoapPDU \<Rightarrow> nat \<Rightarrow> u16 option" where
  "getOptionValueLength p pos =
     do { b \<leftarrow> rd p pos;
          let delta = (drop_bit 4 (ucast b AND 0xF0) :: u16);
          let len = ucast b AND 0x0F;
          if len < 13 then Some len
          else
            let offset = pos + 1 + (if delta = 13 then 1 else if delta = 14 then 2 else 0)
            in if len = 13 then do { c \<leftarrow> rd p offset; Some (ucast c + 13) }
               else do { c \<leftarrow> rd p offset; d \<leftarrow> rd p (offset + 1);
                         Some (lwip_ntohs (push_bit 8 (ucast c) OR ucast d) + 269) } }"

text \<open>The length of an option from its delta and the length of its value.\<close>

definition option_total :: "u16 \<Rightarrow> u16 \<Rightarrow> nat" where
  "option_total delta len = 1 + computeExtraBytes delta + computeExtraBytes len + unat len"

section \<open>The check of a received packet\<close>

definition code_ok :: "u8 \<Rightarrow> bool" where
  "code_ok code \<longleftrightarrow> \<not> (code < COAP_EMPTY \<or> (COAP_DELETE < code \<and> code < COAP_CREATED) \<or>
     (COAP_CONTENT < code \<and> code < COAP_BAD_REQUEST) \<or> (COAP_NOT_ACCEPTABLE < code \<and> code < COAP_PRECONDITION_FAILED) \<or>
     code = 0x8E \<or> (COAP_UNSUPPORTED_CONTENT_FORMAT < code \<and> code < COAP_INTERNAL_SERVER_ERROR) \<or>
     COAP_PROXYING_NOT_SUPPORTED < code)"

function validate_loop :: "nat \<Rightarrow> nat \<Rightarrow> nat \<Rightarrow> CoapPDU \<Rightarrow> (int \<times> CoapPDU) option" where
  "validate_loop optionPos bytesRemaining num p =
     (if bytesRemaining = 0 then Some (1, p\<lparr>payloadPointer := Null, payloadLength := 0, numOptions := num\<rparr>)
      else do {
        optionHeader \<leftarrow> rd p optionPos;
        if optionHeader = 0xFF
        then if 1 < bytesRemaining
             then Some (1, p\<lparr>payloadPointer := At (optionPos + 1), payloadLength := bytesRemaining - 1, numOptions := num\<rparr>)
             else Some (0, p\<lparr>payloadPointer := Null, payloadLength := 0\<rparr>)
        else
          let upperNibble = drop_bit 4 (optionHeader AND 0xF0);
              lowerNibble = optionHeader AND 0x0F
          in if upperNibble = 0x0F \<or> lowerNibble = 0x0F then Some (0, p)
             else if bytesRemaining - 1 < computeExtraBytes (ucast upperNibble) then Some (0, p)
             else if bytesRemaining - 1 < computeExtraBytes (ucast upperNibble) + computeExtraBytes (ucast lowerNibble) then Some (0, p)
             else do {
               optionDelta \<leftarrow> getOptionDelta p optionPos;
               optionValueLength \<leftarrow> getOptionValueLength p optionPos;
               let totalLength = option_total optionDelta optionValueLength;
               if pduLength p < optionPos + totalLength then Some (0, p)
               else validate_loop (optionPos + totalLength) (bytesRemaining - totalLength) (num + 1) p } })"
  by pat_completeness auto
termination
  by (relation "measure (\<lambda>(_, n, _, _). n)") (auto simp: option_total_def)

declare validate_loop.simps [simp del]

definition validate :: "CoapPDU \<Rightarrow> (int \<times> CoapPDU) option" where
  "validate p =
     (if pduLength p < 4 then Some (0, p)
      else do {
        tokenLength \<leftarrow> getTokenLength p;
        if 8 < tokenLength then Some (0, p)
        else if pduLength p < COAP_HDR_SIZE + tokenLength then Some (0, p)
        else do {
          code \<leftarrow> getCode p;
          if \<not> code_ok code then Some (0, p)
          else
            let optionPos = COAP_HDR_SIZE + tokenLength
            in if optionPos = pduLength p then Some (1, p\<lparr>numOptions := 0, payloadLength := 0\<rparr>)
               else validate_loop optionPos (pduLength p - optionPos) 0 p } })"

section \<open>The options of a packet\<close>

record CoapOption =
  optionDelta :: u16
  optionNumber :: u16
  optionValueLength :: u16
  totalLength :: nat
  optionPointer :: nat
  optionValuePointer :: nat

fun options_loop :: "nat \<Rightarrow> nat \<Rightarrow> u16 \<Rightarrow> CoapPDU \<Rightarrow> CoapOption list option" where
  "options_loop 0 optionPos number p = Some []"
| "options_loop (Suc n) optionPos number p =
     do { delta \<leftarrow> getOptionDelta p optionPos;
          let number = number + delta;
          len \<leftarrow> getOptionValueLength p optionPos;
          let total = option_total delta len;
          os \<leftarrow> options_loop n (optionPos + total) number p;
          Some (\<lparr>optionDelta = delta, optionNumber = number, optionValueLength = len, totalLength = total,
            optionPointer = optionPos, optionValuePointer = optionPos + total - unat len\<rparr> # os) }"

definition getOptions :: "CoapPDU \<Rightarrow> CoapOption list option" where
  "getOptions p =
     (if numOptions p = 0 then Some []
      else do { tokenLength \<leftarrow> getTokenLength p; options_loop (numOptions p) (COAP_HDR_SIZE + tokenLength) 0 p })"

fun block2_loop :: "CoapOption list \<Rightarrow> CoapPDU \<Rightarrow> int option" where
  "block2_loop [] p = Some 0"
| "block2_loop (opt # opts) p =
     (if optionNumber opt = COAP_OPTION_BLOCK2
      then do {
        val \<leftarrow> (if optionValueLength opt = 1 then rd p (optionValuePointer opt)
                else if optionValueLength opt = 2 then rd p (optionValuePointer opt + 1) else Some 0);
        if val AND 0x08 \<noteq> 0 then Some 1 else block2_loop opts p }
      else block2_loop opts p)"

definition getOptionsBlock2Next :: "CoapPDU \<Rightarrow> int option" where
  "getOptionsBlock2Next p = do { opts \<leftarrow> getOptions p; block2_loop opts p }"

section \<open>Adding an option\<close>

text \<open>A nibble and the further bytes of a delta or a length.\<close>

definition extended :: "u16 \<Rightarrow> u8 \<times> u8 list" where
  "extended n =
     (if n < 13 then (ucast n, [])
      else if n < 269 then (13, [ucast (n - 13)])
      else let order = lwip_htons (n - 269) in (14, [ucast (drop_bit 8 order), ucast (order AND 0x00FF)]))"

definition option_bytes :: "u16 \<Rightarrow> u8 list \<Rightarrow> u8 list" where
  "option_bytes delta val =
     (let (d, ds) = extended delta; (l, ls) = extended (of_nat (length val))
      in [push_bit 4 d OR l] @ ds @ ls @ val)"

definition insertOption :: "nat \<Rightarrow> u16 \<Rightarrow> u8 list \<Rightarrow> CoapPDU \<Rightarrow> CoapPDU option" where
  "insertOption pos delta val p = wr pos (option_bytes delta val) p"

definition setOptionDelta :: "nat \<Rightarrow> u16 \<Rightarrow> CoapPDU \<Rightarrow> CoapPDU option" where
  "setOptionDelta pos delta p =
     (let (d, ds) = extended delta
      in do { b \<leftarrow> rd p pos; wr pos ([(b AND 0x0F) OR push_bit 4 d] @ ds) p })"

function find_position :: "u16 \<Rightarrow> nat \<Rightarrow> u16 \<Rightarrow> CoapPDU \<Rightarrow> (nat \<times> u16) option" where
  "find_position number optionPos prev p =
     (if pduLength p \<le> optionPos then Some (optionPos, prev)
      else do {
        b \<leftarrow> rd p optionPos;
        if b = 0xFF then Some (optionPos, prev)
        else do {
          delta \<leftarrow> getOptionDelta p optionPos;
          let current = prev + delta;
          len \<leftarrow> getOptionValueLength p optionPos;
          if number < current then Some (optionPos, prev)
          else find_position number (optionPos + option_total delta len) current p } })"
  by pat_completeness auto
termination
  by (relation "measure (\<lambda>(_, pos, _, p). pduLength p - pos)") (auto simp: option_total_def)

declare find_position.simps [simp del]

definition findInsertionPosition :: "u16 \<Rightarrow> CoapPDU \<Rightarrow> (nat \<times> u16) option" where
  "findInsertionPosition number p =
     do { tokenLength \<leftarrow> getTokenLength p;
          if maxAddedOptionNumber p \<le> number \<or> pduLength p = COAP_HDR_SIZE + tokenLength
          then Some (pduLength p, maxAddedOptionNumber p)
          else find_position number (COAP_HDR_SIZE + tokenLength) 0 p }"

text \<open>The length of the new option, in sixteen bits.\<close>

definition option_length :: "u16 \<Rightarrow> u16 \<Rightarrow> nat" where
  "option_length delta len = unat (COAP_OPTION_HDR_BYTE + of_nat (computeExtraBytes delta) + of_nat (computeExtraBytes len) + len)"

definition append_option :: "heap \<Rightarrow> u16 \<Rightarrow> u16 \<Rightarrow> u8 list \<Rightarrow> nat \<Rightarrow> CoapPDU \<Rightarrow> (int \<times> CoapPDU) option" where
  "append_option h number delta val len p =
     (let pos = pduLength p; p = p\<lparr>maxAddedOptionNumber := number\<rparr>
      in case make_room h (pduLength p + len) p of
           None \<Rightarrow> Some (1, p)
         | Some p \<Rightarrow> do { p \<leftarrow> insertOption pos delta val p; Some (0, p\<lparr>numOptions := numOptions p + 1\<rparr>) })"

text \<open>
  Before an option: the rest of the packet moves up, the header of the next option is rewritten, since its delta
  gets smaller, and the new option goes into the gap.
\<close>

definition insert_before :: "heap \<Rightarrow> u16 \<Rightarrow> u16 \<Rightarrow> u16 \<Rightarrow> u8 list \<Rightarrow> nat \<Rightarrow> nat \<Rightarrow> CoapPDU \<Rightarrow> (int \<times> CoapPDU) option" where
  "insert_before h number prev delta val len pos p =
     do { nextOptionDelta \<leftarrow> getOptionDelta p pos;
          let newNext = int (unat prev) + int (unat nextOptionDelta) - int (unat number);
          let adjust = int (computeExtraBytes (word_of_int newNext)) - int (computeExtraBytes nextOptionDelta);
          let mallocLength = nat (int len + adjust);
          case make_room h (pduLength p + mallocLength) p of
            None \<Rightarrow> Some (1, p)
          | Some p \<Rightarrow> do {
              let p = shiftPDUUp mallocLength (pduLength p - (pos + mallocLength)) p;
              b \<leftarrow> rd p (pos + mallocLength);
              let nextHeaderPos = nat (int (pos + mallocLength) - adjust);
              p \<leftarrow> wr nextHeaderPos [b] p;
              p \<leftarrow> setOptionDelta nextHeaderPos (word_of_int newNext) p;
              p \<leftarrow> insertOption pos delta val p;
              Some (0, p) } }"

definition addOption :: "heap \<Rightarrow> u16 \<Rightarrow> u8 list \<Rightarrow> CoapPDU \<Rightarrow> (int \<times> CoapPDU) option" where
  "addOption h number val p =
     do { (pos, prev) \<leftarrow> findInsertionPosition number p;
          let delta = number - prev;
          let len = option_length delta (of_nat (length val));
          if pos = pduLength p then append_option h number delta val len p
          else insert_before h number prev delta val len pos p }"

section \<open>Shorthands\<close>

text \<open>The path, a string without its terminator, is split at its slashes; a copy of each part is made in a block of sixteen bytes, or a larger one.\<close>

function uri_loop :: "heap \<Rightarrow> u8 list \<Rightarrow> CoapPDU \<Rightarrow> (int \<times> CoapPDU) option" where
  "uri_loop h s p =
     (if s = [] \<or> tl s = [] then Some (0, p)
      else
        let s' = (if hd s = 0x2F then tl s else s);
            part = takeWhile (\<lambda>b. b \<noteq> 0x2F) s'
        in if 16 < length part + 1 \<and> h (length part + 1) = None then Some (1, p)
           else do { (r, p) \<leftarrow> addOption h COAP_OPTION_URI_PATH part p;
                     if r \<noteq> 0 then Some (1, p) else uri_loop h (drop (length part) s') p })"
  by pat_completeness auto
termination
proof (relation "measure (\<lambda>(h, s, p). length s)", goal_cases)
  case (2 h s p s' part x r p')
  then show ?case
    by (cases s) (auto split: if_splits)
qed simp

declare uri_loop.simps [simp del]

definition setURI :: "heap \<Rightarrow> u8 list \<Rightarrow> CoapPDU \<Rightarrow> (int \<times> CoapPDU) option" where
  "setURI h uri p =
     (if uri = [] then Some (1, p)
      else if length uri = 1 then do { (_, p) \<leftarrow> addOption h COAP_OPTION_URI_PATH uri p; Some (0, p) }
      else if h 16 = None then Some (1, p)
      else uri_loop h uri p)"

definition setContentFormat :: "heap \<Rightarrow> u16 \<Rightarrow> CoapPDU \<Rightarrow> (int \<times> CoapPDU) option" where
  "setContentFormat h format p =
     do { (r, p) \<leftarrow> addOption h COAP_OPTION_CONTENT_FORMAT
            (if format = 0 then []
             else if format < 256 then [ucast format]
             else [ucast (drop_bit 8 (lwip_htons format)), ucast (lwip_htons format AND 0x00FF)]) p;
          Some (if r \<noteq> 0 then 1 else 0, p) }"

section \<open>Payload\<close>

definition mallocPayload :: "heap \<Rightarrow> nat \<Rightarrow> CoapPDU \<Rightarrow> payptr \<times> CoapPDU" where
  "mallocPayload h len p =
     (if len = 0 then (Null, p)
      else if len = payloadLength p then (payloadPointer p, p)
      else
        let newLen = (if payloadLength p \<noteq> 0 then pduLength p + len - payloadLength p else pduLength p + len + 1);
            old = pduLength p
        in case make_room h newLen p of
             None \<Rightarrow> (Null, p)
           | Some p \<Rightarrow>
               if payloadPointer p = Null
               then (At (old + 1), p\<lparr>pdu := (pdu p)[old := 0xFF], payloadPointer := At (old + 1), payloadLength := len\<rparr>)
               else (payloadPointer p, p\<lparr>payloadLength := len\<rparr>))"

definition setPayload :: "heap \<Rightarrow> u8 list \<Rightarrow> CoapPDU \<Rightarrow> (int \<times> CoapPDU) option" where
  "setPayload h payload p =
     (case mallocPayload h (length payload) p of
        (Null, p) \<Rightarrow> Some (1, p)
      | (At i, p) \<Rightarrow> do { p \<leftarrow> wr i payload p; Some (0, p) }
      | (Invalid, p) \<Rightarrow> None)"

text \<open>The payload as a reader of \<open>getPayloadPointer\<close> and \<open>getPayloadLength\<close> sees it.\<close>

definition read_payload :: "CoapPDU \<Rightarrow> u8 list option" where
  "read_payload p =
     (if payloadLength p = 0 then Some []
      else case payloadPointer p of
             At i \<Rightarrow> if i + payloadLength p \<le> length (pdu p) then Some (take (payloadLength p) (drop i (pdu p))) else None
           | _ \<Rightarrow> None)"

text \<open>The memory from the payload on, as a reader of a text at \<open>getPayloadPointer\<close> sees it.\<close>

definition payload_memory :: "CoapPDU \<Rightarrow> u8 list option" where
  "payload_memory p = (case payloadPointer p of At i \<Rightarrow> Some (drop i (pdu p)) | _ \<Rightarrow> None)"

definition rd_bytes :: "CoapPDU \<Rightarrow> nat \<Rightarrow> nat \<Rightarrow> u8 list option" where
  "rd_bytes p i n = (if i + n \<le> length (pdu p) then Some (take n (drop i (pdu p))) else None)"

text \<open>A copy of the payload in fresh memory; the inner \<open>None\<close> is the null pointer.\<close>

definition getPayloadCopy :: "heap \<Rightarrow> CoapPDU \<Rightarrow> u8 list option option" where
  "getPayloadCopy h p =
     (if payloadLength p = 0 then Some None
      else if h (payloadLength p) = None then Some None
      else case payloadPointer p of
             At i \<Rightarrow> do { bs \<leftarrow> rd_bytes p i (payloadLength p); Some (Some bs) }
           | _ \<Rightarrow> None)"

definition getTokenPointer :: "CoapPDU \<Rightarrow> nat option option" where
  "getTokenPointer p = do { n \<leftarrow> getTokenLength p; Some (if n = 0 then None else Some 4) }"

section \<open>Reading a path\<close>

text \<open>
  The path is written to a buffer of the caller, the parts with a slash before each. The result is the code, what is
  stored in \<open>outLen\<close>, if anything, and the buffer. Inside the loop \<open>Inl\<close> is a return from the function.
\<close>

definition put :: "nat \<Rightarrow> u8 list \<Rightarrow> u8 list \<Rightarrow> u8 list option" where
  "put i bs m = (if i + length bs \<le> length m then Some (memcpy i bs m) else None)"

type_synonym uri_result = "int \<times> nat option \<times> u8 list"

fun get_uri_loop :: "CoapOption list \<Rightarrow> nat \<Rightarrow> nat \<Rightarrow> u8 list \<Rightarrow> CoapPDU \<Rightarrow> (uri_result + nat \<times> nat \<times> u8 list) option" where
  "get_uri_loop [] pos bytesLeft dst p = Some (Inr (pos, bytesLeft, dst))"
| "get_uri_loop (opt # opts) pos bytesLeft dst p =
     (let oLen = unat (optionValueLength opt)
      in if optionNumber opt \<noteq> COAP_OPTION_URI_PATH then get_uri_loop opts pos bytesLeft dst p
         else if bytesLeft < oLen then Some (Inl (1, None, dst))
         else do {
           val \<leftarrow> rd_bytes p (optionValuePointer opt) oLen;
           if val = [0x2F] then do { dst \<leftarrow> put pos [0] dst; Some (Inl (0, Some 1, dst)) }
           else do {
             dst \<leftarrow> put pos val dst;
             if 1 \<le> bytesLeft - oLen
             then do { dst \<leftarrow> put (pos + oLen) [0x2F] dst;
                       get_uri_loop opts (pos + oLen + 1) (bytesLeft - oLen - 1) dst p }
             else Some (Inl (1, None, dst)) } })"

definition getURI :: "u8 list \<Rightarrow> nat \<Rightarrow> CoapPDU \<Rightarrow> uri_result option" where
  "getURI dst dstlen p =
     (if dstlen = 0 then do { dst \<leftarrow> put 0 [0] dst; Some (1, Some 0, dst) }
      else if numOptions p = 0 then do { dst \<leftarrow> put 0 [0] dst; Some (0, Some 0, dst) }
      else do {
        opts \<leftarrow> getOptions p;
        if 1 \<le> dstlen - 1
        then do {
          dst \<leftarrow> put 0 [0x2F] dst;
          r \<leftarrow> get_uri_loop opts 1 (dstlen - 2) dst p;
          case r of
            Inl result \<Rightarrow> Some result
          | Inr (pos, bytesLeft, dst) \<Rightarrow> do {
              dst \<leftarrow> put (pos - 1) [0] dst;
              Some (0, Some (dstlen - 1 - (bytesLeft + 1)), dst) } }
        else Some (1, None, dst) })"

end
