(* ===== verification/Coap_Codec.thy ===== *)
theory Coap_Codec
  imports Coap_Pdu
begin

text \<open>
  The encoding of options, and what the functions of \<open>Coap_Pdu\<close> make of encoded options: reading them, walking over
  them, adding one. A list of options is a list of numbers and values.
\<close>

type_synonym opts = "(u16 \<times> u8 list) list"

section \<open>Nibbles and extended values\<close>

lemma masks: "0xF0 = push_bit 4 (mask 4 :: u8)" "0x0F = (mask 4 :: u8)" "0xF0 = push_bit 4 (mask 4 :: u16)" "0x0F = (mask 4 :: u16)"
    "0x00FF = (mask 8 :: u16)"
  by (simp_all add: mask_eq_exp_minus_1)

lemma nibble_bits:
  assumes "(d :: u8) < 16" "bit d i"
  shows "i < 4"
proof (rule ccontr)
  assume "\<not> i < 4"
  then have "(2 :: nat) ^ 4 \<le> 2 ^ i"
    by (intro power_increasing) simp_all
  moreover have "unat d < 16"
    using assms(1) by (simp add: word_less_nat_alt)
  ultimately have "\<not> bit (unat d) i"
    by (simp add: bit_iff_odd)
  with assms(2) show False
    by (simp add: bit_unsigned_iff)
qed

lemma header_nibbles:
  fixes d l :: u8
  assumes "d < 16" "l < 16"
  defines "h \<equiv> push_bit 4 d OR l"
  shows "drop_bit 4 (h AND 0xF0) = d" "h AND 0x0F = l" "drop_bit 4 (ucast h AND 0xF0) = (ucast d :: u16)"
    "ucast h AND 0x0F = (ucast l :: u16)" "(h AND 0x0F) OR push_bit 4 e = push_bit 4 e OR l"
proof -
  note b = nibble_bits [OF assms(1)] nibble_bits [OF assms(2)]
  show "drop_bit 4 (h AND 0xF0) = d" "drop_bit 4 (ucast h AND 0xF0) = (ucast d :: u16)"
    unfolding h_def masks
    by (rule bit_word_eqI; auto simp: bit_simps dest: b)+
  show l: "h AND 0x0F = l"
    unfolding h_def masks by (rule bit_word_eqI) (auto simp: bit_simps dest: b)
  show "ucast h AND 0x0F = (ucast l :: u16)"
    unfolding h_def masks by (rule bit_word_eqI) (auto simp: bit_simps dest: b)
  show "(h AND 0x0F) OR push_bit 4 e = push_bit 4 e OR l"
    by (simp add: l or.commute)
qed

lemma two_bytes: "push_bit 8 (ucast (ucast (drop_bit 8 x) :: u8)) OR ucast (ucast (x AND 0x00FF) :: u8) = (x :: u16)"
  unfolding masks by (rule bit_word_eqI) (auto simp: bit_simps)

text \<open>A small number is its nibble; a larger one has a nibble of 13 or 14 and one or two further bytes.\<close>

lemma extended_cases:
  obtains (short) "n < 13" "extended n = (ucast n, [])" "computeExtraBytes n = 0" "(ucast n :: u8) < 13"
      "ucast (ucast n :: u8) = n"
    | (one) a where "\<not> n < 13" "n < 269" "extended n = (13, [a])" "computeExtraBytes n = 1" "ucast a + 13 = n"
    | (two) a b where "\<not> n < 13" "\<not> n < 269" "extended n = (14, [a, b])" "computeExtraBytes n = 2"
      "lwip_ntohs (push_bit 8 (ucast a) OR ucast b) + 269 = n"
proof -
  have narrow: "ucast (ucast m :: u8) = m" if "unat m < 256" for m :: u16
    using that by (intro word_unat_eq_iff [THEN iffD2]) (simp add: unsigned_ucast_eq take_bit_eq_mod unat_mod)
  consider "n < 13" | "\<not> n < 13" "n < 269" | "\<not> n < 13" "\<not> n < 269"
    by blast
  then show thesis
  proof cases
    case 1
    then have n: "unat n < 13"
      by (simp add: word_less_nat_alt)
    show ?thesis
    proof (rule short)
      show "ucast (ucast n :: u8) = n"
        using n by (intro narrow) simp
      show "(ucast n :: u8) < 13"
        using n by (simp add: word_less_nat_alt unsigned_ucast_eq take_bit_eq_mod)
    qed (use 1 in \<open>simp_all add: extended_def computeExtraBytes_def\<close>)
  next
    case 2
    then have "unat (n - 13) < 256"
      by (simp add: word_less_nat_alt unat_sub_if')
    with 2 show ?thesis
      by (intro one [of "ucast (n - 13)"]) (simp_all add: extended_def computeExtraBytes_def narrow)
  next
    case 3
    let ?o = "lwip_htons (n - 269)"
    have "lwip_ntohs (push_bit 8 (ucast (ucast (drop_bit 8 ?o) :: u8)) OR ucast (ucast (?o AND 0x00FF) :: u8)) + 269 = n"
      unfolding two_bytes by simp
    with 3 show ?thesis
      by (intro two) (simp_all add: extended_def computeExtraBytes_def Let_def)
  qed
qed

lemma extended_nibble: "fst (extended n) < 15" "length (snd (extended n)) = computeExtraBytes n"
  by (cases n rule: extended_cases; simp add: word_less_nat_alt)+

lemma nibble_extra: "computeExtraBytes (ucast (fst (extended n))) \<le> computeExtraBytes n"
proof (cases n rule: extended_cases)
  case short
  then show ?thesis
    by (simp add: computeExtraBytes_def word_less_nat_alt)
qed (simp_all add: computeExtraBytes_def)

section \<open>Reading an encoded option\<close>

lemma option_header:
  obtains d ds l ls where "extended delta = (d, ds)" "extended (of_nat (length v)) = (l, ls)" "d < 15" "l < 15"
    "length ds = computeExtraBytes delta" "length ls = computeExtraBytes (of_nat (length v))"
    "option_bytes delta v = (push_bit 4 d OR l) # ds @ ls @ v"
  using extended_nibble [of delta] extended_nibble [of "of_nat (length v)"]
  by (cases "extended delta", cases "extended (of_nat (length v))") (simp add: option_bytes_def)

lemma unat_length: "length v < 65536 \<Longrightarrow> unat (of_nat (length v) :: u16) = length v"
  by (simp add: unat_of_nat)

lemma option_bytes_length: "length v < 65536 \<Longrightarrow> length (option_bytes delta v) = option_total delta (of_nat (length v))"
  by (rule option_header [of delta v]) (simp add: option_total_def unat_length)

lemma rd_at: "pdu p = pre @ b # post \<Longrightarrow> rd p (length pre) = Some b"
  by (simp add: rd_def)

lemma rd_after: "pdu p = pre @ bs @ post \<Longrightarrow> i < length bs \<Longrightarrow> rd p (length pre + i) = Some (bs ! i)"
  by (simp add: rd_def nth_append)

lemma nibble_less: "(d :: u8) < 15 \<Longrightarrow> d < 16"
  by (simp add: word_less_nat_alt)

lemma nibble_widen: "(ucast (d :: u8) :: u16) = ucast d" "(ucast (13 :: u8) :: u16) = 13" "(ucast (14 :: u8) :: u16) = 14"
  by simp_all

lemma read_delta:
  assumes "pdu p = pre @ option_bytes delta v @ post"
  shows "getOptionDelta p (length pre) = Some delta"
proof -
  obtain d ds l ls where e: "extended delta = (d, ds)" "d < 15" "l < 15" "option_bytes delta v = (push_bit 4 d OR l) # ds @ ls @ v"
    by (rule option_header)
  have h: "rd p (length pre) = Some (push_bit 4 d OR l)"
    using assms by (simp add: e(4) rd_def)
  note n = header_nibbles(3) [OF nibble_less [OF e(2)] nibble_less [OF e(3)]]
  have f: "i < length ds \<Longrightarrow> rd p (length pre + Suc i) = Some (ds ! i)" for i
    using assms by (simp add: e(4) rd_def nth_append)
  show ?thesis
  proof (cases delta rule: extended_cases)
    case short
    then show ?thesis
      using e(1) unfolding getOptionDelta_def h Let_def Option.bind.simps n by auto
  next
    case (one a)
    then show ?thesis
      using e(1) f [of 0] unfolding getOptionDelta_def h Let_def Option.bind.simps n by auto
  next
    case (two a b)
    then show ?thesis
      using e(1) f [of 0] f [of 1] unfolding getOptionDelta_def h Let_def Option.bind.simps n by auto
  qed
qed

lemma read_length:
  assumes "pdu p = pre @ option_bytes delta v @ post"
  shows "getOptionValueLength p (length pre) = Some (of_nat (length v))"
proof -
  obtain d ds l ls where e: "extended delta = (d, ds)" "extended (of_nat (length v)) = (l, ls)" "d < 15" "l < 15"
      "length ds = computeExtraBytes delta" "option_bytes delta v = (push_bit 4 d OR l) # ds @ ls @ v"
    by (rule option_header)
  have h: "rd p (length pre) = Some (push_bit 4 d OR l)"
    using assms by (simp add: e(6) rd_def)
  note n = header_nibbles(3,4) [OF nibble_less [OF e(3)] nibble_less [OF e(4)]]
  have f: "i < length ls \<Longrightarrow> rd p (length pre + Suc (length ds + i)) = Some (ls ! i)" for i
    using assms by (simp add: e(6) rd_def nth_append)
  have skip: "(if (ucast d :: u16) = 13 then 1 else if (ucast d :: u16) = 14 then 2 else 0 :: nat) = length ds"
    by (cases delta rule: extended_cases) (use e(1,5) in \<open>auto simp: word_less_nat_alt unsigned_ucast_eq\<close>)
  show ?thesis
  proof (cases "of_nat (length v) :: u16" rule: extended_cases)
    case short
    then show ?thesis
      using e(2) unfolding getOptionValueLength_def h Let_def Option.bind.simps n by auto
  next
    case (one a)
    then show ?thesis
      using e(2) f [of 0] unfolding getOptionValueLength_def h Let_def Option.bind.simps n skip by auto
  next
    case (two a b)
    then show ?thesis
      using e(2) f [of 0] f [of 1] unfolding getOptionValueLength_def h Let_def Option.bind.simps n skip by auto
  qed
qed

section \<open>Encoded lists of options\<close>

fun encode :: "u16 \<Rightarrow> opts \<Rightarrow> u8 list" where
  "encode prev [] = []"
| "encode prev ((n, v) # os) = option_bytes (n - prev) v @ encode n os"

definition good_opts :: "opts \<Rightarrow> bool" where
  "good_opts os \<longleftrightarrow> sorted (map fst os) \<and> (\<forall>(n, v)\<in>set os. length v \<le> 65530)"

fun last_number :: "u16 \<Rightarrow> opts \<Rightarrow> u16" where
  "last_number prev [] = prev"
| "last_number prev ((n, v) # os) = last_number n os"

lemma good_opts_Nil [simp]: "good_opts []"
  by (simp add: good_opts_def)

lemma good_opts_Cons: "good_opts ((n, v) # os) \<longleftrightarrow> good_opts os \<and> length v \<le> 65530 \<and> (\<forall>(m, w)\<in>set os. n \<le> m)"
  by (auto simp: good_opts_def)

lemma encode_append: "encode prev (xs @ ys) = encode prev xs @ encode (last_number prev xs) ys"
  by (induction prev xs rule: encode.induct) simp_all

lemma last_number_append: "last_number prev (xs @ ys) = last_number (last_number prev xs) ys"
  by (induction prev xs rule: last_number.induct) simp_all

text \<open>The options as a reader of \<open>getOptions\<close> sees them.\<close>

definition option_view :: "CoapPDU \<Rightarrow> CoapOption \<Rightarrow> u16 \<times> u8 list" where
  "option_view p opt = (optionNumber opt, take (unat (optionValueLength opt)) (drop (optionValuePointer opt) (pdu p)))"

definition read_options :: "CoapPDU \<Rightarrow> opts option" where
  "read_options p = map_option (map (option_view p)) (getOptions p)"

lemma option_bytes_value:
  assumes "length v < 65536" "pdu p = pre @ option_bytes delta v @ post"
  shows "take (length v) (drop (length pre + length (option_bytes delta v) - length v) (pdu p)) = v"
  by (rule option_header [of delta v]) (use assms in simp)

lemma options_encoded:
  assumes "pdu p = pre @ encode prev os @ post" "good_opts os"
  shows "\<exists>opts. options_loop (length os) (length pre) prev p = Some opts \<and> map (option_view p) opts = os \<and>
    (\<forall>opt\<in>set opts. optionValuePointer opt + unat (optionValueLength opt) \<le> length pre + length (encode prev os))"
  using assms
proof (induction prev os arbitrary: pre rule: encode.induct)
  case (2 prev n v os)
  have v: "length v < 65536"
    using "2.prems"(2) by (simp add: good_opts_Cons)
  let ?b = "option_bytes (n - prev) v"
  have p: "pdu p = pre @ ?b @ (encode n os @ post)" "pdu p = (pre @ ?b) @ encode n os @ post"
    using "2.prems"(1) by simp_all
  have t: "option_total (n - prev) (of_nat (length v)) = length ?b"
    by (simp add: option_bytes_length v)
  obtain opts where o: "options_loop (length os) (length pre + length ?b) n p = Some opts" "map (option_view p) opts = os"
      "\<forall>opt\<in>set opts. optionValuePointer opt + unat (optionValueLength opt) \<le> length pre + length ?b + length (encode n os)"
    using "2.IH" [OF p(2)] "2.prems"(2) by (auto simp: good_opts_Cons)
  have "length v \<le> length ?b"
    by (rule option_header [of "n - prev" v]) simp
  then show ?case
    using o option_bytes_value [OF v p(1)] read_delta [OF p(1)] read_length [OF p(1)]
    by (auto simp: Let_def t unat_length [OF v] option_view_def add.assoc)
qed simp

text \<open>The check of a packet walks over encoded options, up to the payload or the end.\<close>

lemma option_header_byte:
  assumes "rd p pos = Some h" "h = hd (option_bytes delta v)"
  shows "h \<noteq> 0xFF" "drop_bit 4 (h AND 0xF0) \<noteq> 0x0F" "h AND 0x0F \<noteq> 0x0F"
    "computeExtraBytes (ucast (drop_bit 4 (h AND 0xF0))) \<le> computeExtraBytes delta"
    "computeExtraBytes (ucast (h AND 0x0F)) \<le> computeExtraBytes (of_nat (length v))"
proof -
  obtain d ds l ls where e: "extended delta = (d, ds)" "extended (of_nat (length v)) = (l, ls)" "d < 15" "l < 15"
      "option_bytes delta v = (push_bit 4 d OR l) # ds @ ls @ v"
    by (rule option_header)
  have h: "h = push_bit 4 d OR l"
    using assms(2) by (simp add: e(5))
  note n = header_nibbles(1,2) [OF nibble_less [OF e(3)] nibble_less [OF e(4)], folded h]
  show "drop_bit 4 (h AND 0xF0) \<noteq> 0x0F"
    unfolding n(1) using e(3) by auto
  then show "h \<noteq> 0xFF"
    by auto
  show "h AND 0x0F \<noteq> 0x0F"
    unfolding n(2) using e(4) by auto
  show "computeExtraBytes (ucast (drop_bit 4 (h AND 0xF0))) \<le> computeExtraBytes delta"
    unfolding n(1) using nibble_extra [of delta] by (simp add: e(1))
  show "computeExtraBytes (ucast (h AND 0x0F)) \<le> computeExtraBytes (of_nat (length v))"
    unfolding n(2) using nibble_extra [of "of_nat (length v)"] by (simp add: e(2))
qed

definition payload_bytes :: "u8 list \<Rightarrow> u8 list" where
  "payload_bytes pay = (if pay = [] then [] else 0xFF # pay)"

lemma option_bytes_not_Nil [simp]: "option_bytes delta v \<noteq> []"
  by (rule option_header [of delta v]) simp

lemma validate_step:
  assumes "rd p pos = Some h" "h \<noteq> 0xFF" "drop_bit 4 (h AND 0xF0) \<noteq> 0x0F" "h AND 0x0F \<noteq> 0x0F"
    and "computeExtraBytes (ucast (drop_bit 4 (h AND 0xF0))) + computeExtraBytes (ucast (h AND 0x0F)) + 1 \<le> n"
    and "getOptionDelta p pos = Some delta" "getOptionValueLength p pos = Some len" "pos + option_total delta len \<le> pduLength p"
  shows "validate_loop pos n k p = validate_loop (pos + option_total delta len) (n - option_total delta len) (k + 1) p"
proof -
  have n: "n \<noteq> 0" "\<not> n - 1 < computeExtraBytes (ucast (drop_bit 4 (h AND 0xF0)))"
      "\<not> n - 1 < computeExtraBytes (ucast (drop_bit 4 (h AND 0xF0))) + computeExtraBytes (ucast (h AND 0x0F))"
      "\<not> pduLength p < pos + option_total delta len" "\<not> (drop_bit 4 (h AND 0xF0) = 0x0F \<or> h AND 0x0F = 0x0F)"
    using assms(3,4,5,8) by linarith+
  show ?thesis
    unfolding validate_loop.simps [of pos] assms(1,6,7) Option.bind.simps Let_def if_not_P [OF n(1)] if_not_P [OF assms(2)]
      if_not_P [OF n(2)] if_not_P [OF n(3)] if_not_P [OF n(4)] if_not_P [OF n(5)] ..
qed

lemma validate_walk:
  assumes "pdu p = pre @ encode prev os @ rest" "good_opts os" "pduLength p = length pre + length (encode prev os) + n"
  shows "validate_loop (length pre) (length (encode prev os) + n) k p =
    validate_loop (length pre + length (encode prev os)) n (k + length os) p"
  using assms
proof (induction prev os arbitrary: pre k rule: encode.induct)
  case (2 prev m v os)
  have v: "length v < 65536"
    using "2.prems"(2) by (simp add: good_opts_Cons)
  let ?b = "option_bytes (m - prev) v"
  have p: "pdu p = pre @ ?b @ (encode m os @ rest)" "pdu p = (pre @ ?b) @ encode m os @ rest"
    using "2.prems"(1) by simp_all
  have t: "option_total (m - prev) (of_nat (length v)) = length ?b"
    by (simp add: option_bytes_length v)
  have h: "rd p (length pre) = Some (hd ?b)"
    using p(1) by (cases ?b) (auto simp: rd_def)
  note c = option_header_byte [OF h refl]
  have l: "1 + computeExtraBytes (m - prev) + computeExtraBytes (of_nat (length v)) \<le> length ?b"
    using t by (simp add: option_total_def)
  have "validate_loop (length pre) (length ?b + (length (encode m os) + n)) k p =
      validate_loop (length pre + length ?b) (length (encode m os) + n) (k + 1) p"
    using validate_step [OF h c(1,2,3) _ read_delta [OF p(1)] read_length [OF p(1)]] c(4,5) l "2.prems"(3) by (simp add: t)
  also have "\<dots> = validate_loop (length (pre @ ?b)) (length (encode m os) + n) (k + 1) p"
    by simp
  also note "2.IH" [OF p(2)]
  finally show ?case
    using "2.prems"(2,3) by (simp add: good_opts_Cons add.assoc)
qed simp

lemma validate_encoded:
  assumes "pdu p = pre @ encode prev os @ payload_bytes pay @ rest" "good_opts os"
    and "pduLength p = length pre + length (encode prev os @ payload_bytes pay)"
  shows "validate_loop (length pre) (length (encode prev os @ payload_bytes pay)) k p =
    Some (1, p\<lparr>payloadPointer := (if pay = [] then Null else At (length pre + length (encode prev os) + 1)),
      payloadLength := length pay, numOptions := k + length os\<rparr>)"
proof -
  let ?here = "length pre + length (encode prev os)"
  have w: "validate_loop (length pre) (length (encode prev os @ payload_bytes pay)) k p =
      validate_loop ?here (length (payload_bytes pay)) (k + length os) p"
    using validate_walk [OF assms(1,2), of "length (payload_bytes pay)" k] assms(3) by simp
  have r: "rd p ?here = Some 0xFF" if "pay \<noteq> []"
    using assms(1) that by (simp add: payload_bytes_def rd_def nth_append)
  show ?thesis
    unfolding w by (subst validate_loop.simps) (use r in \<open>auto simp: payload_bytes_def\<close>)
qed

section \<open>A received packet\<close>

text \<open>What the first bytes of a buffer hold: header, token, options and payload.\<close>

definition packet_bytes :: "u8 list \<Rightarrow> u8 list \<Rightarrow> opts \<Rightarrow> u8 list \<Rightarrow> u8 list" where
  "packet_bytes hdr tok os pay = hdr @ tok @ encode 0 os @ payload_bytes pay"

definition good_header :: "u8 list \<Rightarrow> u8 list \<Rightarrow> bool" where
  "good_header hdr tok \<longleftrightarrow> length hdr = 4 \<and> unat (hdr ! 0 AND 0x0F) = length tok \<and> length tok \<le> 8 \<and> code_ok (hdr ! 1)"

lemma token_length:
  assumes "pdu p = hdr @ bs" "good_header hdr tok"
  shows "getTokenLength p = Some (length tok)" "getCode p = Some (hdr ! 1)"
  using assms by (auto simp: getTokenLength_def getCode_def rd_def good_header_def nth_append)

lemma parse_encoded:
  assumes "pdu p = packet_bytes hdr tok os pay @ rest" "pduLength p = length (packet_bytes hdr tok os pay)"
    and "good_header hdr tok" "good_opts os" "payloadPointer p = Null"
  shows "\<exists>q. validate p = Some (1, q) \<and> read_options q = Some os \<and> read_payload q = Some pay \<and> pdu q = pdu p \<and>
    numOptions q = length os \<and> (pay \<noteq> [] \<longrightarrow> payloadPointer q = At (length (hdr @ tok @ encode 0 os) + 1))"
proof -
  let ?pre = "hdr @ tok"
  have p: "pdu p = ?pre @ encode 0 os @ payload_bytes pay @ rest"
    using assms(1) by (simp add: packet_bytes_def)
  have l: "length ?pre = COAP_HDR_SIZE + length tok"
    using assms(3) by (simp add: good_header_def COAP_HDR_SIZE_def)
  define q where "q = p\<lparr>payloadPointer := (if pay = [] then Null else At (length ?pre + length (encode 0 os) + 1)),
      payloadLength := length pay, numOptions := length os\<rparr>"
  have t: "getTokenLength p = Some (length tok)" "getCode p = Some (hdr ! 1)" "getTokenLength q = Some (length tok)"
    using token_length [of p hdr "tok @ encode 0 os @ payload_bytes pay @ rest" tok]
      token_length [of q hdr "tok @ encode 0 os @ payload_bytes pay @ rest" tok] p assms(3) by (simp_all add: q_def)
  have len: "pduLength p = length ?pre + length (encode 0 os @ payload_bytes pay)"
    using assms(2) by (simp add: packet_bytes_def)
  have "validate p = Some (1, q)"
  proof (cases "encode 0 os @ payload_bytes pay = []")
    case True
    then have "os = []" "pay = []"
      by (cases os; auto simp: payload_bytes_def split: if_splits)+
    then have "q = p\<lparr>numOptions := 0, payloadLength := 0\<rparr>"
      using assms(5) by (simp add: q_def)
    moreover have "pduLength p = COAP_HDR_SIZE + length tok"
      using len l True by simp
    ultimately show ?thesis
      using t assms(3) by (simp add: validate_def good_header_def COAP_HDR_SIZE_def)
  next
    case False
    then have "length ?pre < pduLength p"
      by (simp add: len)
    then have "validate p = validate_loop (length ?pre) (length (encode 0 os @ payload_bytes pay)) 0 p"
      using t assms(3) l len False by (auto simp: validate_def good_header_def COAP_HDR_SIZE_def Let_def)
    also have "\<dots> = Some (1, q)"
      using validate_encoded [OF p assms(4) len] by (simp add: q_def)
    finally show ?thesis .
  qed
  moreover have "read_options q = Some os"
  proof -
    have "pdu q = ?pre @ encode 0 os @ (payload_bytes pay @ rest)"
      by (simp add: q_def p)
    from options_encoded [OF this assms(4)] obtain opts where "options_loop (length os) (length ?pre) 0 q = Some opts"
        "map (option_view q) opts = os"
      by blast
    then show ?thesis
      using t(3) l by (cases os) (auto simp: read_options_def getOptions_def q_def)
  qed
  moreover have "read_payload q = Some pay"
    by (auto simp: read_payload_def q_def p payload_bytes_def)
  ultimately show ?thesis
    by (auto simp: q_def)
qed

section \<open>Moving bytes\<close>

lemma shift_up_length [simp]: "length (shift_up k d s m) = length m"
  by (induction k d s m rule: shift_up.induct) simp_all

lemma nth_shift_up:
  "s < d \<Longrightarrow> k \<le> s + 1 \<Longrightarrow> d < length m \<Longrightarrow> i < length m \<Longrightarrow>
    shift_up k d s m ! i = (if d < i + k \<and> i \<le> d then m ! (i - (d - s)) else m ! i)"
proof (induction k d s m rule: shift_up.induct)
  case (2 k d s m)
  show ?case
  proof (cases "s = 0")
    case True
    with 2 show ?thesis
      by (auto simp: nth_list_update)
  next
    case False
    then have "shift_up k (d - 1) (s - 1) (m[d := m ! s]) ! i =
        (if d - 1 < i + k \<and> i \<le> d - 1 then m[d := m ! s] ! (i - (d - 1 - (s - 1))) else m[d := m ! s] ! i)"
      using 2 by (intro "2.IH") auto
    with False 2 show ?thesis
      by (auto simp: nth_list_update)
  qed
qed auto

text \<open>The block behind the first \<open>a\<close> bytes moves up by \<open>n\<close>.\<close>

lemma shift_up_same [simp]: "shift_up k d d m = m"
  by (induction k arbitrary: d) simp_all

lemma shift_up_block:
  assumes "length xs = a" "length ys = k" "a + k + n \<le> length m" "take (a + k) m = xs @ ys"
  shows "\<exists>zs. length zs = n \<and> shift_up k (a + k + n - 1) (a + k - 1) m = xs @ zs @ ys @ drop (a + k + n) m"
proof (cases "k = 0 \<or> n = 0")
  case True
  then have "shift_up k (a + k + n - 1) (a + k - 1) m = m"
    by (auto simp: shift_up_same)
  moreover have "m = take a m @ take n (drop a m) @ drop (a + n) m"
    by (metis append_take_drop_id drop_drop add.commute)
  moreover have "take a m = xs"
  proof -
    have "take a m = take a (take (a + k) m)"
      by (simp add: min_def)
    with assms(1,4) show ?thesis
      by simp
  qed
  moreover have "m = xs @ ys @ drop (a + k) m"
    using append_take_drop_id [of "a + k" m] assms(4) by simp
  ultimately show ?thesis
    using assms True by (intro exI [of _ "take n (drop a m)"]) auto
next
  case False
  let ?r = "shift_up k (a + k + n - 1) (a + k - 1) m"
  have nth: "?r ! i = (if a + n \<le> i \<and> i < a + k + n then m ! (i - n) else m ! i)" if "i < length m" for i
  proof -
    have b: "a + k - 1 < a + k + n - 1" "k \<le> a + k - 1 + 1" "a + k + n - 1 < length m"
      using False assms(3) by linarith+
    show ?thesis
      using nth_shift_up [OF b that] False by auto
  qed
  have m: "m ! i = (xs @ ys) ! i" if "i < a + k" for i
    using that assms(4) nth_take [of i "a + k" m] by simp
  have "?r = xs @ take n (drop a ?r) @ ys @ drop (a + k + n) m"
  proof (rule nth_equalityI)
    show "length ?r = length (xs @ take n (drop a ?r) @ ys @ drop (a + k + n) m)"
      using assms by simp
  next
    fix i
    assume "i < length ?r"
    then show "?r ! i = (xs @ take n (drop a ?r) @ ys @ drop (a + k + n) m) ! i"
      using assms(1-3) m [of i] m [of "i - n"] nth [of i] by (auto simp: nth_append min_def add.commute)
  qed
  then show ?thesis
    using assms by (intro exI [of _ "take n (drop a ?r)"]) simp
qed

section \<open>Making room\<close>

definition plenty :: "heap \<Rightarrow> bool" where
  "plenty h \<longleftrightarrow> (\<forall>n. \<exists>blk. h n = Some blk \<and> length blk = n)"

text \<open>Enough memory for some more bytes.\<close>

definition room :: "heap \<Rightarrow> nat \<Rightarrow> CoapPDU \<Rightarrow> bool" where
  "room h n p \<longleftrightarrow> (if constructedFromBuffer p then pduLength p + n \<le> bufferLength p else plenty h)"

definition sized :: "CoapPDU \<Rightarrow> bool" where
  "sized p \<longleftrightarrow> length (pdu p) = bufferLength p \<and> pduLength p \<le> bufferLength p \<and> payloadPointer p = Null \<and> payloadLength p = 0"

text \<open>What adding options leaves alone.\<close>

definition same_kind :: "CoapPDU \<Rightarrow> CoapPDU \<Rightarrow> bool" where
  "same_kind p q \<longleftrightarrow> constructedFromBuffer q = constructedFromBuffer p \<and> (constructedFromBuffer p \<longrightarrow> bufferLength q = bufferLength p)"

lemma room_mono: "room h n p \<Longrightarrow> m \<le> n \<Longrightarrow> room h m p"
  by (auto simp: room_def split: if_splits)

lemma make_room_keeps:
  assumes "sized p" "room h n p"
  shows "\<exists>q. make_room h (pduLength p + n) p = Some q \<and> sized q \<and> same_kind p q \<and> pduLength q = pduLength p + n \<and>
    take (pduLength p) (pdu q) = take (pduLength p) (pdu p) \<and> numOptions q = numOptions p \<and>
    maxAddedOptionNumber q = maxAddedOptionNumber p"
proof (cases "constructedFromBuffer p")
  case True
  with assms show ?thesis
    by (auto simp: make_room_def room_def sized_def same_kind_def)
next
  case False
  with assms obtain blk where "h (pduLength p + n) = Some blk" "length blk = pduLength p + n"
    by (auto simp: room_def plenty_def)
  with False assms(1) show ?thesis
    by (auto simp: make_room_def sized_def same_kind_def min_def)
qed

section \<open>Where an option belongs\<close>

lemma find_position_encoded:
  assumes "pdu p = pre @ encode prev os @ rest" "pduLength p = length pre + length (encode prev os)" "good_opts os"
  shows "find_position n (length pre) prev p =
    Some (length pre + length (encode prev (takeWhile (\<lambda>(m, w). m \<le> n) os)), last_number prev (takeWhile (\<lambda>(m, w). m \<le> n) os))"
  using assms
proof (induction prev os arbitrary: pre rule: encode.induct)
  case (1 prev)
  then show ?case
    by (simp add: find_position.simps)
next
  case (2 prev m w os)
  have w: "length w < 65536"
    using "2.prems"(3) by (simp add: good_opts_Cons)
  let ?b = "option_bytes (m - prev) w"
  have p: "pdu p = pre @ ?b @ (encode m os @ rest)" "pdu p = (pre @ ?b) @ encode m os @ rest"
    using "2.prems"(1) by simp_all
  have h: "rd p (length pre) = Some (hd ?b)"
    using p(1) by (cases ?b) (auto simp: rd_def)
  have pos: "\<not> pduLength p \<le> length pre"
    using "2.prems"(2) by simp
  have step: "find_position n (length pre) prev p = (if n < m then Some (length pre, prev)
      else find_position n (length pre + length ?b) m p)"
    unfolding find_position.simps [of n "length pre"] h Option.bind.simps Let_def read_delta [OF p(1)] read_length [OF p(1)]
      if_not_P [OF pos] if_not_P [OF option_header_byte(1) [OF h refl]]
    by (simp add: option_bytes_length [OF w])
  show ?case
  proof (cases "n < m")
    case True
    then show ?thesis
      unfolding step by simp
  next
    case False
    then show ?thesis
      unfolding step using "2.IH" [OF p(2)] "2.prems"(2,3) by (simp add: good_opts_Cons add.assoc)
  qed
qed

definition insert_option :: "u16 \<times> u8 list \<Rightarrow> opts \<Rightarrow> opts" where
  "insert_option o1 os = takeWhile (\<lambda>(m, w). m \<le> fst o1) os @ o1 # dropWhile (\<lambda>(m, w). m \<le> fst o1) os"

lemma set_insert_option: "set (insert_option o1 os) = insert o1 (set os)"
proof -
  have "set os = set (takeWhile P os) \<union> set (dropWhile P os)" for P :: "u16 \<times> u8 list \<Rightarrow> bool"
    by (simp flip: set_append)
  from this [of "\<lambda>(m, w). m \<le> fst o1"] show ?thesis
    by (auto simp: insert_option_def)
qed

lemma good_opts_insert:
  assumes "good_opts os" "length v \<le> 65530"
  shows "good_opts (insert_option (n, v) os)"
  using assms
proof (induction os)
  case (Cons o1 os)
  obtain m w where o1: "o1 = (m, w)"
    by fastforce
  note s = set_insert_option [of "(n, v)" os]
  show ?case
  proof (cases "m \<le> n")
    case True
    then have "insert_option (n, v) (o1 # os) = o1 # insert_option (n, v) os"
      by (simp add: insert_option_def o1)
    with Cons True s o1 show ?thesis
      by (auto simp: good_opts_Cons)
  next
    case False
    then have "insert_option (n, v) (o1 # os) = (n, v) # o1 # os"
      by (simp add: insert_option_def o1)
    with Cons False o1 show ?thesis
      by (auto simp: good_opts_Cons)
  qed
qed (simp add: insert_option_def good_opts_Cons)

lemma good_opts_append: "good_opts (xs @ ys) \<Longrightarrow> good_opts xs \<and> good_opts ys"
  by (auto simp: good_opts_def sorted_append)

lemma good_opts_split:
  "good_opts os \<Longrightarrow> good_opts (takeWhile P os)" "good_opts os \<Longrightarrow> good_opts (dropWhile P os)"
  using good_opts_append [of "takeWhile P os" "dropWhile P os"] by simp_all

text \<open>All numbers are at most the last one.\<close>

lemma last_number_max: "good_opts os \<Longrightarrow> (m, w) \<in> set os \<Longrightarrow> m \<le> last_number prev os"
proof (induction os arbitrary: prev m w)
  case (Cons o1 os)
  obtain k x where o1: "o1 = (k, x)"
    by fastforce
  show ?case
  proof (cases os)
    case Nil
    with Cons.prems o1 show ?thesis
      by simp
  next
    case (Cons o2 os')
    with Cons.prems Cons.IH [of m w k] Cons.IH [of "fst o2" "snd o2" k] o1 show ?thesis
      by (auto simp: good_opts_Cons intro: order_trans)
  qed
qed simp

lemma last_number_le: "good_opts os \<Longrightarrow> \<forall>(m, w)\<in>set os. m \<le> n \<Longrightarrow> prev \<le> n \<Longrightarrow> last_number prev os \<le> n"
  by (induction prev os rule: last_number.induct) (auto simp: good_opts_Cons)

section \<open>Adding an option\<close>

text \<open>A packet under construction: a header, a token, some options, and no payload yet.\<close>

definition packet :: "CoapPDU \<Rightarrow> u8 list \<Rightarrow> u8 list \<Rightarrow> opts \<Rightarrow> bool" where
  "packet p hdr tok os \<longleftrightarrow> sized p \<and> take (pduLength p) (pdu p) = hdr @ tok @ encode 0 os \<and> length hdr = 4 \<and>
     unat (hdr ! 0 AND 0x0F) = length tok \<and> good_opts os \<and> maxAddedOptionNumber p = last_number 0 os"

lemma extra_le: "computeExtraBytes n \<le> 2"
  by (simp add: computeExtraBytes_def)

lemma option_length_total: "length v \<le> 65530 \<Longrightarrow> option_length delta (of_nat (length v)) = length (option_bytes delta v)"
proof -
  assume v: "length v \<le> 65530"
  have e: "unat (of_nat (computeExtraBytes n) :: u16) = computeExtraBytes n" for n
    using extra_le [of n] by (simp add: unat_of_nat)
  have l: "unat (of_nat (length v) :: u16) = length v"
    using v by (simp add: unat_of_nat)
  show ?thesis
    using v extra_le [of delta] extra_le [of "of_nat (length v)"]
    by (simp add: option_length_def option_bytes_length option_total_def COAP_OPTION_HDR_BYTE_def unat_word_ariths e l)
qed

lemma insertOption_at:
  assumes "pdu p = pre @ post" "length (option_bytes delta v) \<le> length post"
  shows "insertOption (length pre) delta v p =
    Some (p\<lparr>pdu := pre @ option_bytes delta v @ drop (length (option_bytes delta v)) post\<rparr>)"
  using assms by (simp add: insertOption_def wr_def memcpy_at)

lemma append_option_effect:
  assumes "sized p" "length v \<le> 65530" "room h (length (option_bytes delta v)) p"
  shows "\<exists>q. append_option h n delta v (option_length delta (of_nat (length v))) p = Some (0, q) \<and> sized q \<and> same_kind p q \<and>
    take (pduLength q) (pdu q) = take (pduLength p) (pdu p) @ option_bytes delta v \<and> maxAddedOptionNumber q = n \<and>
    numOptions q = numOptions p + 1"
proof -
  let ?b = "option_bytes delta v" and ?p = "p\<lparr>maxAddedOptionNumber := n\<rparr>"
  have "sized ?p" "room h (length ?b) ?p" "same_kind ?p = same_kind p"
    using assms by (simp_all add: sized_def room_def same_kind_def fun_eq_iff)
  with make_room_keeps [of ?p h "length ?b"] obtain q where q: "make_room h (pduLength p + length ?b) ?p = Some q" "sized q" "same_kind p q"
      "pduLength q = pduLength p + length ?b" "take (pduLength p) (pdu q) = take (pduLength p) (pdu p)"
      "numOptions q = numOptions p" "maxAddedOptionNumber q = n"
    by auto
  let ?pre = "take (pduLength p) (pdu q)" and ?post = "drop (pduLength p) (pdu q)"
  have l: "length ?pre = pduLength p" "length ?b \<le> length ?post"
    using q(2,4) by (auto simp: sized_def)
  have i: "insertOption (pduLength p) delta v q = Some (q\<lparr>pdu := ?pre @ ?b @ drop (length ?b) ?post\<rparr>)"
    using insertOption_at [of q ?pre ?post delta v] l by simp
  show ?thesis
    using q l assms(1) i
    by (auto simp: append_option_def option_length_total [OF assms(2)] Let_def sized_def same_kind_def)
qed

text \<open>Rewriting the delta of the option that follows.\<close>

lemma setOptionDelta_at:
  assumes "pdu p = pre @ (push_bit 4 d OR l) # gap @ post" "d < 15" "l < 15"
    and "extended delta = (d', ds')" "length gap = length ds'"
  shows "setOptionDelta (length pre) delta p = Some (p\<lparr>pdu := pre @ (push_bit 4 d' OR l) # ds' @ post\<rparr>)"
proof -
  have "rd p (length pre) = Some (push_bit 4 d OR l)"
    using assms(1) by (simp add: rd_def)
  with header_nibbles(5) [OF nibble_less [OF assms(2)] nibble_less [OF assms(3)], of d'] show ?thesis
    using assms by (simp add: setOptionDelta_def wr_def memcpy_def)
qed

lemma insert_before_effect:
  assumes "sized p" "take (pduLength p) (pdu p) = pre @ option_bytes (m - prev) w @ post" "prev \<le> n" "n < m"
    and "length v \<le> 65530" "length w < 65536" "room h (length (option_bytes (n - prev) v)) p"
  shows "\<exists>q. insert_before h n prev (n - prev) v (option_length (n - prev) (of_nat (length v))) (length pre) p = Some (0, q) \<and>
    sized q \<and> same_kind p q \<and> take (pduLength q) (pdu q) = pre @ option_bytes (n - prev) v @ option_bytes (m - n) w @ post \<and>
    maxAddedOptionNumber q = maxAddedOptionNumber p \<and> numOptions q = numOptions p"
proof -
  let ?b = "option_bytes (n - prev) v"
  obtain d ds l ls where e: "extended (m - prev) = (d, ds)" "extended (of_nat (length w)) = (l, ls)" "d < 15" "l < 15"
      "length ds = computeExtraBytes (m - prev)" "option_bytes (m - prev) w = (push_bit 4 d OR l) # ds @ ls @ w"
    by (rule option_header)
  obtain d' ds' where e': "extended (m - n) = (d', ds')" "length ds' = computeExtraBytes (m - n)"
      "option_bytes (m - n) w = (push_bit 4 d' OR l) # ds' @ ls @ w"
    using extended_nibble(2) [of "m - n"] by (cases "extended (m - n)") (simp add: option_bytes_def e(2))
  have u: "unat (m - n) = unat m - unat n" "unat (m - prev) = unat m - unat prev" "unat (n - prev) = unat n - unat prev"
      "unat prev \<le> unat n" "unat n < unat m"
    using assms(3,4) by (auto simp: word_le_nat_alt word_less_nat_alt unat_sub)
  have ext: "computeExtraBytes x = (if unat x < 13 then 0 else if unat x < 269 then 1 else 2)" for x
    by (simp add: computeExtraBytes_def word_less_nat_alt)
  have "1 + computeExtraBytes (n - prev) \<le> length ?b"
    using assms(5) by (simp add: option_bytes_length option_total_def)
  then have c: "length ds' \<le> length ds" "length ds \<le> length ds' + length ?b"
    using u(4,5) unfolding e(5) e'(2) ext u(1-3) by (auto split: if_splits)
  let ?old = "(push_bit 4 d OR l) # ds @ ls @ w" and ?len = "option_length (n - prev) (of_nat (length v))"
  have p: "pdu p = pre @ option_bytes (m - prev) w @ (post @ drop (pduLength p) (pdu p))"
    using arg_cong [OF assms(2), of "\<lambda>x. x @ drop (pduLength p) (pdu p)"] by simp
  have new: "int (unat prev) + int (unat (m - prev)) - int (unat n) = int (unat (m - n))"
    using u by simp
  have newword: "word_of_int (int (unat (m - n))) = m - n"
    by simp
  let ?ml = "length ?b + length ds' - length ds"
  have ml: "nat (int ?len + (int (computeExtraBytes (m - n)) - int (computeExtraBytes (m - prev)))) = ?ml"
    using c by (simp add: option_length_total [OF assms(5)] e(5) e'(2) nat_diff_distrib)
  have np: "nat (int (length pre + ?ml) - (int (computeExtraBytes (m - n)) - int (computeExtraBytes (m - prev)))) = length pre + length ?b"
    using c by (simp add: e(5) e'(2))
  have "room h ?ml p"
    using c(1) by (intro room_mono [OF assms(7)]) simp
  from make_room_keeps [OF assms(1) this]
  obtain q where q: "make_room h (pduLength p + ?ml) p = Some q" "sized q" "same_kind p q" "pduLength q = pduLength p + ?ml"
      "take (pduLength p) (pdu q) = take (pduLength p) (pdu p)" "numOptions q = numOptions p" "maxAddedOptionNumber q = maxAddedOptionNumber p"
    by blast
  have len: "pduLength p = length pre + length (?old @ post)"
    using arg_cong [OF assms(2), of length] assms(1) by (simp add: sized_def e(6))
  obtain G where G: "length G = ?ml"
      "pdu (shiftPDUUp ?ml (pduLength q - (length pre + ?ml)) q) = pre @ G @ (?old @ post) @ drop (pduLength q) (pdu q)"
    using shift_up_block [of pre "length pre" "?old @ post" "length (?old @ post)" ?ml "pdu q"] q(2,4,5) assms(2) len
    by (auto simp: shiftPDUUp_def sized_def e(6) add.assoc)
  let ?R = "drop (pduLength q) (pdu q)" and ?h = "push_bit 4 d OR l" and ?rest = "ls @ w @ post @ drop (pduLength q) (pdu q)"
  define G' where "G' = G @ take (length ds - length ds') (?h # ds)"
  obtain x gap where x: "drop (length ds - length ds') (?h # ds) = x # gap"
    by (cases "drop (length ds - length ds') (?h # ds)") auto
  have gap: "length gap = length ds'"
    using arg_cong [OF x, of length] c(1) by simp
  have G': "length G' = length ?b"
    using c by (simp add: G'_def G(1))
  define q1 where "q1 = shiftPDUUp ?ml (pduLength q - (length pre + ?ml)) q"
  have q1: "pdu q1 = pre @ G @ ?h # ds @ ?rest" "pdu q1 = (pre @ G') @ x # gap @ ?rest"
    using G(2) append_take_drop_id [of "length ds - length ds'" "?h # ds"] unfolding x q1_def G'_def by (simp, metis append.assoc append_Cons)
  have r: "rd q1 (length pre + ?ml) = Some ?h"
    using q1(1) G(1) by (simp add: rd_def nth_append)
  define q2 where "q2 = q1\<lparr>pdu := (pre @ G') @ ?h # gap @ ?rest\<rparr>"
  have w2: "wr (length pre + length ?b) [?h] q1 = Some q2"
    using q1(2) G' memcpy_at [of "length pre + length ?b" "pre @ G'" "[?h]" "x # gap @ ?rest"] by (simp add: wr_def q2_def)
  define q3 where "q3 = q2\<lparr>pdu := (pre @ G') @ (push_bit 4 d' OR l) # ds' @ ?rest\<rparr>"
  have w3: "setOptionDelta (length pre + length ?b) (m - n) q2 = Some q3"
    using setOptionDelta_at [OF _ e(3,4) e'(1) gap, of q2 "pre @ G'" ?rest] G' by (simp add: q2_def q3_def)
  have w4: "insertOption (length pre) (n - prev) v q3 = Some (q3\<lparr>pdu := pre @ ?b @ (push_bit 4 d' OR l) # ds' @ ?rest\<rparr>)"
    using insertOption_at [of q3 pre "G' @ (push_bit 4 d' OR l) # ds' @ ?rest" "n - prev" v] G' by (simp add: q3_def)
  have kind: "pduLength q1 = pduLength q" "sized q1 = sized q" "same_kind p q1 = same_kind p q" "numOptions q1 = numOptions q"
      "maxAddedOptionNumber q1 = maxAddedOptionNumber q"
    by (simp_all add: q1_def shiftPDUUp_def sized_def same_kind_def)
  have "insert_before h n prev (n - prev) v ?len (length pre) p = Some (0, q3\<lparr>pdu := pre @ ?b @ (push_bit 4 d' OR l) # ds' @ ?rest\<rparr>)"
    unfolding insert_before_def read_delta [OF p] Option.bind.simps Let_def new newword ml q(1) option.case q1_def [symmetric] r np w2 w3 w4 ..
  moreover have "length (pdu q1) = length (pdu q)"
    by (simp add: q1_def shiftPDUUp_def)
  then have "length (pre @ ?b @ (push_bit 4 d' OR l) # ds' @ ?rest) = length (pdu q)"
    using q1(1) G(1) c by simp
  moreover have "pduLength q = length (pre @ ?b @ (push_bit 4 d' OR l) # ds' @ ls @ w @ post)"
    using q(4) len c by simp
  ultimately show ?thesis
    using q(2,3,6,7) by (intro exI [of _ "q3\<lparr>pdu := pre @ ?b @ (push_bit 4 d' OR l) # ds' @ ?rest\<rparr>"])
      (auto simp: q3_def q2_def q1_def shiftPDUUp_def sized_def same_kind_def e'(3))
qed

end
