(* ===== verification/Coap_Client.thy ===== *)
theory Coap_Client
  imports Coap_Codec Fw_Update
begin

text \<open>
  How the update client uses the packets (\<open>USER/remoteupdate.cpp\<close>): the request it builds and what it reads from an
  answer; and what the methods that build a packet do to a packet under construction.
\<close>

section \<open>Requests and answers\<close>

text \<open>The option value is the memory of an unsigned short, low byte first.\<close>

definition short_bytes :: "u16 \<Rightarrow> u8 list" where
  "short_bytes x = [ucast x, ucast (drop_bit 8 x)]"

definition build_request :: "heap \<Rightarrow> u8 list \<Rightarrow> u16 option \<Rightarrow> u8 list \<Rightarrow> u16 \<Rightarrow> CoapPDU option" where
  "build_request h uri block body mid =
     do { p \<leftarrow> CoapPDU_new h;
          (_, p) \<leftarrow> setVersion 1 p;
          p \<leftarrow> setType COAP_CONFIRMABLE p;
          p \<leftarrow> setCode COAP_POST p;
          (_, p) \<leftarrow> setToken h [3, 2, 1, 1] p;
          (_, p) \<leftarrow> setURI h uri p;
          (_, p) \<leftarrow> (case block of None \<Rightarrow> Some (0, p) | Some v \<Rightarrow> addOption h COAP_OPTION_BLOCK2 (short_bytes v) p);
          (_, p) \<leftarrow> setPayload h body p;
          setMessageID mid p }"

text \<open>The bytes that are sent, and a buffer of the receiver with a packet of some length at its beginning.\<close>

definition datagram :: "CoapPDU \<Rightarrow> u8 list" where
  "datagram p = take (pduLength p) (pdu p)"

definition receive_packet :: "u8 list \<Rightarrow> nat \<Rightarrow> (int \<times> CoapPDU) option" where
  "receive_packet buffer ret = do { p \<leftarrow> CoapPDU_buffer buffer (length buffer); validate (setPDULength ret p) }"

lemma receive_packet_buffer: "buffer \<noteq> [] \<Longrightarrow> receive_packet buffer n =
    validate \<lparr>pdu = buffer, pduLength = n, constructedFromBuffer = True, bufferLength = length buffer,
      payloadPointer = Null, payloadLength = 0, numOptions = 0, maxAddedOptionNumber = 0\<rparr>"
  by (simp add: receive_packet_def CoapPDU_buffer_def setPDULength_def Let_def)

lemma receive_encoded:
  assumes "good_header hdr tok" "good_opts os"
  shows "\<exists>q. receive_packet (packet_bytes hdr tok os pay @ rest) (length (packet_bytes hdr tok os pay)) = Some (1, q) \<and>
    read_options q = Some os \<and> read_payload q = Some pay \<and> pdu q = packet_bytes hdr tok os pay @ rest \<and> numOptions q = length os \<and>
    (pay \<noteq> [] \<longrightarrow> payload_memory q = Some (pay @ rest))"
proof -
  have "packet_bytes hdr tok os pay @ rest \<noteq> []"
    using assms(1) by (auto simp: packet_bytes_def good_header_def)
  note r = receive_packet_buffer [OF this, of "length (packet_bytes hdr tok os pay)"]
  obtain q where q: "receive_packet (packet_bytes hdr tok os pay @ rest) (length (packet_bytes hdr tok os pay)) = Some (1, q)"
      "read_options q = Some os" "read_payload q = Some pay" "pdu q = packet_bytes hdr tok os pay @ rest" "numOptions q = length os"
      "pay \<noteq> [] \<longrightarrow> payloadPointer q = At (length (hdr @ tok @ encode 0 os) + 1)"
    using parse_encoded [OF _ _ assms, of "\<lparr>pdu = packet_bytes hdr tok os pay @ rest, pduLength = length (packet_bytes hdr tok os pay),
        constructedFromBuffer = True, bufferLength = length (packet_bytes hdr tok os pay @ rest), payloadPointer = Null,
        payloadLength = 0, numOptions = 0, maxAddedOptionNumber = 0\<rparr>" pay rest] unfolding r by auto
  have "packet_bytes hdr tok os pay @ rest = (hdr @ tok @ encode 0 os @ [0xFF]) @ pay @ rest" if "pay \<noteq> []"
    using that by (simp add: packet_bytes_def payload_bytes_def)
  then have "drop (length (hdr @ tok @ encode 0 os) + 1) (packet_bytes hdr tok os pay @ rest) = pay @ rest" if "pay \<noteq> []"
    using that by simp
  with q show ?thesis
    by (auto simp: payload_memory_def)
qed

section \<open>The flag of the block option\<close>

definition block2_flag :: "opts \<Rightarrow> int" where
  "block2_flag os =
     (if \<exists>(n, v)\<in>set os. n = COAP_OPTION_BLOCK2 \<and>
          (length v = 1 \<and> v ! 0 AND 0x08 \<noteq> 0 \<or> length v = 2 \<and> v ! 1 AND 0x08 \<noteq> 0) then 1 else 0)"

lemma block2_loop_flag:
  assumes "\<forall>opt\<in>set opts. optionValuePointer opt + unat (optionValueLength opt) \<le> length (pdu p)"
  shows "block2_loop opts p = Some (block2_flag (map (option_view p) opts))"
  using assms
proof (induction opts)
  case (Cons opt opts)
  let ?v = "take (unat (optionValueLength opt)) (drop (optionValuePointer opt) (pdu p))"
  have l: "length ?v = unat (optionValueLength opt)"
    using Cons.prems by auto
  have one: "optionValueLength opt = 1 \<longleftrightarrow> length ?v = 1" "optionValueLength opt = 2 \<longleftrightarrow> length ?v = 2"
    unfolding l by (simp_all add: word_unat_eq_iff)
  have r: "length ?v = 1 \<Longrightarrow> rd p (optionValuePointer opt) = Some (?v ! 0)"
      "length ?v = 2 \<Longrightarrow> rd p (optionValuePointer opt + 1) = Some (?v ! 1)"
    using Cons.prems l by (auto simp: rd_def)
  have ih: "block2_loop opts p = Some (block2_flag (map (option_view p) opts))"
    using Cons by simp
  have flag: "block2_flag ((n, v) # os) = (if n = COAP_OPTION_BLOCK2 \<and>
      (length v = 1 \<and> v ! 0 AND 0x08 \<noteq> 0 \<or> length v = 2 \<and> v ! 1 AND 0x08 \<noteq> 0) then 1 else block2_flag os)" for n v os
    by (auto simp: block2_flag_def)
  show ?case
    unfolding list.map option_view_def flag block2_loop.simps ih one using r by auto
qed (simp add: block2_flag_def)

lemma getOptionsBlock2Next_flag:
  assumes "pdu p = hdr @ tok @ encode 0 os @ post" "good_header hdr tok" "good_opts os" "numOptions p = length os"
  shows "getOptionsBlock2Next p = Some (block2_flag os)"
proof (cases "os = []")
  case True
  then show ?thesis
    using assms by (simp add: getOptionsBlock2Next_def getOptions_def block2_flag_def)
next
  case False
  have p: "pdu p = (hdr @ tok) @ encode 0 os @ post"
    using assms(1) by simp
  from options_encoded [OF this assms(3)] obtain opts where o: "options_loop (length os) (length (hdr @ tok)) 0 p = Some opts"
      "map (option_view p) opts = os"
      "\<forall>opt\<in>set opts. optionValuePointer opt + unat (optionValueLength opt) \<le> length (hdr @ tok) + length (encode 0 os)"
    by blast
  have b: "block2_loop opts p = Some (block2_flag os)"
    using block2_loop_flag [of opts p] o(2,3) p by fastforce
  show ?thesis
    using False o(1) b token_length [OF assms(1,2)] assms(2,4)
    by (simp add: getOptionsBlock2Next_def getOptions_def good_header_def COAP_HDR_SIZE_def)
qed

section \<open>Building a packet\<close>

lemma packet_datagram: "packet p hdr tok os \<Longrightarrow> datagram p = packet_bytes hdr tok os []"
  by (simp add: packet_def datagram_def packet_bytes_def payload_bytes_def)

lemma option_bytes_le: "length v \<le> 65530 \<Longrightarrow> length (option_bytes delta v) \<le> length v + 5"
  using extra_le [of delta] extra_le [of "of_nat (length v)"]
  by (simp add: option_bytes_length option_total_def unat_of_nat)

text \<open>An option goes to its place, behind the options with the same number.\<close>

lemma addOption_effect:
  assumes "packet p hdr tok os" "length v \<le> 65530" "room h (length v + 5) p"
  shows "\<exists>q. addOption h n v p = Some (0, q) \<and> packet q hdr tok (insert_option (n, v) os) \<and> same_kind p q \<and>
    numOptions q = numOptions p + (if last_number 0 os \<le> n then 1 else 0)"
proof -
  note pk = assms(1) [unfolded packet_def]
  let ?pre = "hdr @ tok" and ?here = "takeWhile (\<lambda>(m, w). m \<le> n) os" and ?tail = "dropWhile (\<lambda>(m, w). m \<le> n) os"
  have p: "pdu p = ?pre @ encode 0 os @ drop (pduLength p) (pdu p)"
    using arg_cong [OF pk [THEN conjunct2, THEN conjunct1], of "\<lambda>x. x @ drop (pduLength p) (pdu p)"] by simp
  have len: "pduLength p = length ?pre + length (encode 0 os)"
    using arg_cong [OF pk [THEN conjunct2, THEN conjunct1], of length] pk [THEN conjunct1]
      pk [THEN conjunct2, THEN conjunct2, THEN conjunct1] by (simp add: sized_def)
  have t: "getTokenLength p = Some (length tok)"
  proof -
    have "0 < pduLength p" "length hdr = 4" "pduLength p \<le> length (pdu p)"
      using len pk by (auto simp: sized_def)
    then have "pdu p ! 0 = hdr ! 0" "0 < length (pdu p)"
      using nth_take [of 0 "pduLength p" "pdu p"] pk [THEN conjunct2, THEN conjunct1] by (auto simp: nth_append)
    with pk show ?thesis
      by (simp add: getTokenLength_def rd_def)
  qed
  have l: "length ?pre = COAP_HDR_SIZE + length tok"
    using pk by (simp add: COAP_HDR_SIZE_def)
  have all_le: "\<forall>(m, w)\<in>set os. m \<le> n" if "last_number 0 os \<le> n"
    using last_number_max [of os _ _ 0] pk that by (auto intro: order_trans)
  show ?thesis
  proof (cases "last_number 0 os \<le> n")
    case True
    then have "?here = os" "?tail = []"
      using all_le by (auto simp: takeWhile_eq_all_conv dropWhile_eq_Nil_conv)
    then have ins: "insert_option (n, v) os = os @ [(n, v)]"
      by (simp add: insert_option_def)
    have "findInsertionPosition n p = Some (pduLength p, last_number 0 os)"
      using t pk True by (simp add: findInsertionPosition_def)
    moreover obtain q where "append_option h n (n - last_number 0 os) v (option_length (n - last_number 0 os) (of_nat (length v))) p = Some (0, q)"
        "sized q" "same_kind p q" "take (pduLength q) (pdu q) = take (pduLength p) (pdu p) @ option_bytes (n - last_number 0 os) v"
        "maxAddedOptionNumber q = n" "numOptions q = numOptions p + 1"
      using append_option_effect [of p v h "n - last_number 0 os" n] pk assms(2) room_mono [OF assms(3) option_bytes_le [OF assms(2)]]
      by blast
    ultimately show ?thesis
      using pk True ins good_opts_insert [of os v n] assms(2)
      by (simp add: addOption_def packet_def encode_append last_number_append)
  next
    case False
    then obtain m x rest where tl: "?tail = (m, x) # rest"
    proof (cases ?tail)
      case Nil
      then have "\<forall>(m, w)\<in>set os. m \<le> n"
        by (simp add: dropWhile_eq_Nil_conv)
      then have "last_number 0 os \<le> n"
        using last_number_le [of os n 0] pk by simp
      with False show ?thesis
        by simp
    qed (use that in \<open>auto split: prod.splits\<close>)
    have nm: "n < m"
      using hd_dropWhile [of "\<lambda>(m, w). m \<le> n" os] tl by auto
    have os: "os = ?here @ (m, x) # rest"
      using takeWhile_dropWhile_id [of "\<lambda>(m, w). m \<le> n" os] tl by simp
    have good: "good_opts ?here" "length x < 65536"
      using pk good_opts_split good_opts_split(2) [of os "\<lambda>(m, w). m \<le> n"] tl by (auto simp: good_opts_Cons)
    have prev: "last_number 0 ?here \<le> n"
      using last_number_le [OF good(1), of n 0] by (auto dest: set_takeWhileD)
    let ?P = "?pre @ encode 0 ?here" and ?prev = "last_number 0 ?here"
    have enc: "encode 0 os = encode 0 ?here @ option_bytes (m - ?prev) x @ encode m rest"
      by (subst os) (simp add: encode_append)
    have "os \<noteq> []"
      using tl by auto
    then have "pduLength p \<noteq> COAP_HDR_SIZE + length tok"
      using len l enc by simp
    then have f: "findInsertionPosition n p = Some (length ?P, ?prev)"
      using t pk False find_position_encoded [OF p len, of n] l by (simp add: findInsertionPosition_def)
    have "take (pduLength p) (pdu p) = ?P @ option_bytes (m - ?prev) x @ encode m rest"
      using pk enc by simp
    from insert_before_effect [OF _ this prev nm assms(2) good(2), of h] pk room_mono [OF assms(3) option_bytes_le [OF assms(2)]]
    obtain q where q: "insert_before h n ?prev (n - ?prev) v (option_length (n - ?prev) (of_nat (length v))) (length ?P) p = Some (0, q)"
        "sized q" "same_kind p q" "take (pduLength q) (pdu q) = ?P @ option_bytes (n - ?prev) v @ option_bytes (m - n) x @ encode m rest"
        "maxAddedOptionNumber q = maxAddedOptionNumber p" "numOptions q = numOptions p"
      by blast
    have ne: "length ?P \<noteq> pduLength p"
      using len enc by simp
    have ins: "insert_option (n, v) os = ?here @ (n, v) # (m, x) # rest"
      by (simp add: insert_option_def tl)
    have "last_number 0 (insert_option (n, v) os) = last_number 0 os"
      unfolding ins by (subst os) (simp add: last_number_append)
    moreover have "encode 0 (insert_option (n, v) os) = encode 0 ?here @ option_bytes (n - ?prev) v @ option_bytes (m - n) x @ encode m rest"
      unfolding ins by (simp add: encode_append)
    ultimately show ?thesis
      using q f ne pk False good_opts_insert [of os v n] assms(2) by (simp add: addOption_def packet_def)
  qed
qed

lemma setPayload_effect:
  assumes "packet p hdr tok os" "body \<noteq> []" "room h (length body + 1) p"
  shows "\<exists>q. setPayload h body p = Some (0, q) \<and> datagram q = packet_bytes hdr tok os body \<and> pduLength q \<le> length (pdu q)"
proof -
  note pk = assms(1) [unfolded packet_def]
  obtain q where q: "make_room h (pduLength p + (length body + 1)) p = Some q" "sized q" "pduLength q = pduLength p + (length body + 1)"
      "take (pduLength p) (pdu q) = take (pduLength p) (pdu p)"
    using make_room_keeps [OF _ assms(3)] pk by blast
  have null: "payloadLength p = 0" "payloadPointer q = Null"
    using pk q(2) by (simp_all add: sized_def)
  let ?q = "q\<lparr>pdu := (pdu q)[pduLength p := 0xFF], payloadPointer := At (pduLength p + 1), payloadLength := length body\<rparr>"
  have m: "mallocPayload h (length body) p = (At (pduLength p + 1), ?q)"
    using assms(2) q(1) null by (simp add: mallocPayload_def Let_def)
  have l: "pduLength p + 1 + length body \<le> length (pdu q)" "length (take (pduLength p) (pdu p)) = pduLength p"
    using q(2,3) pk [THEN conjunct1] by (simp_all add: sized_def)
  then have "setPayload h body p = Some (0, ?q\<lparr>pdu := memcpy (pduLength p + 1) body ((pdu q)[pduLength p := 0xFF])\<rparr>)"
    by (simp add: setPayload_def m wr_def)
  moreover have "take (pduLength q) (memcpy (pduLength p + 1) body ((pdu q)[pduLength p := 0xFF])) = take (pduLength p) (pdu p) @ 0xFF # body"
  proof -
    have "take (pduLength p + 1) ((pdu q)[pduLength p := 0xFF]) = take (pduLength p) (pdu q) @ [0xFF]"
      using l by (simp add: take_Suc_conv_app_nth)
    with l q(3,4) show ?thesis
      by (simp add: memcpy_def)
  qed
  ultimately show ?thesis
    using pk [THEN conjunct2, THEN conjunct1] assms(2) l q(3)
    by (simp add: datagram_def packet_bytes_def payload_bytes_def length_memcpy)
qed

section \<open>The client's packets\<close>

definition new_packet :: CoapPDU where
  "new_packet = \<lparr>pdu = [0x44, COAP_POST, 0, 0, 3, 2, 1, 1], pduLength = 8, constructedFromBuffer = False, bufferLength = 8,
     payloadPointer = Null, payloadLength = 0, numOptions = 0, maxAddedOptionNumber = 0\<rparr>"

text \<open>The header and the token of every request.\<close>

lemma request_start:
  assumes "plenty h"
  shows "do { p \<leftarrow> CoapPDU_new h; (_, p) \<leftarrow> setVersion 1 p; p \<leftarrow> setType COAP_CONFIRMABLE p; p \<leftarrow> setCode COAP_POST p;
      (_, p) \<leftarrow> setToken h [3, 2, 1, 1] p; f p } = f new_packet"
proof -
  obtain b4 b8 where b: "h 4 = Some b4" "h 8 = Some b8" "length b8 = 8"
    using assms by (meson plenty_def)
  let ?p = "\<lambda>m. \<lparr>pdu = m, pduLength = 4, constructedFromBuffer = False, bufferLength = 4,
     payloadPointer = Null, payloadLength = 0, numOptions = 0, maxAddedOptionNumber = 0\<rparr>"
  have r: "replicate 4 (0 :: u8) = [0, 0, 0, 0]"
    by (simp add: numeral_eq_Suc)
  have c: "CoapPDU_new h = Some (?p [0x40, 0, 0, 0])"
    by (simp add: CoapPDU_new_def b r setVersion_def rd_def wr_def memcpy_def)
  have v: "setVersion 1 (?p [0x40, 0, 0, 0]) = Some (1, ?p [0x40, 0, 0, 0])"
    by (simp add: setVersion_def rd_def wr_def memcpy_def)
  have t: "setType COAP_CONFIRMABLE (?p [0x40, 0, 0, 0]) = Some (?p [0x40, 0, 0, 0])"
    by (simp add: setType_def rd_def wr_def memcpy_def COAP_CONFIRMABLE_def)
  have d: "setCode COAP_POST (?p [0x40, 0, 0, 0]) = Some (?p [0x40, COAP_POST, 0, 0])"
    by (simp add: setCode_def wr_def memcpy_def)
  let ?q = "\<lparr>pdu = [0x40, COAP_POST, 0, 0] @ drop 4 b8, pduLength = 8, constructedFromBuffer = False, bufferLength = 8,
     payloadPointer = Null, payloadLength = 0, numOptions = 0, maxAddedOptionNumber = 0\<rparr>"
  have m: "make_room h 8 (?p [0x40, COAP_POST, 0, 0]) = Some ?q"
    using b by (simp add: make_room_def eval_nat_numeral)
  have s: "shiftPDUUp 4 0 ?q = ?q"
    by (simp add: shiftPDUUp_def)
  have w: "wr 4 [3, 2, 1, 1] ?q = Some (?q\<lparr>pdu := [0x40, COAP_POST, 0, 0, 3, 2, 1, 1]\<rparr>)"
    using b(3) by (simp add: wr_def memcpy_def)
  have l: "setTokenLength 4 (?q\<lparr>pdu := [0x40, COAP_POST, 0, 0, 3, 2, 1, 1]\<rparr>) = Some (0, new_packet)"
    by (simp add: setTokenLength_def rd_def wr_def memcpy_def new_packet_def)
  have "setToken h [3, 2, 1, 1] (?p [0x40, COAP_POST, 0, 0]) = Some (0, new_packet)"
    using m s w l by (simp add: setToken_def getTokenLength_def rd_def COAP_HDR_SIZE_def Let_def)
  with c v t d show ?thesis
    by simp
qed

lemma new_packet_packet: "packet new_packet [0x44, COAP_POST, 0, 0] [3, 2, 1, 1] []"
  by (simp add: packet_def new_packet_def sized_def)

lemma room_new: "plenty h \<Longrightarrow> same_kind new_packet p \<Longrightarrow> room h n p"
  by (simp add: same_kind_def new_packet_def room_def)

lemma same_kind_trans: "same_kind p q \<Longrightarrow> same_kind q r \<Longrightarrow> same_kind p r"
  by (simp add: same_kind_def)

text \<open>A path without slashes is one option.\<close>

lemma setURI_one:
  assumes "packet p hdr tok []" "plenty h" "same_kind new_packet p" "0x2F \<notin> set uri" "2 \<le> length uri" "length uri \<le> 65530"
  shows "\<exists>q. setURI h uri p = Some (0, q) \<and> packet q hdr tok [(COAP_OPTION_URI_PATH, uri)] \<and> same_kind new_packet q \<and>
    numOptions q = numOptions p + 1"
proof -
  obtain q where q: "addOption h COAP_OPTION_URI_PATH uri p = Some (0, q)" "packet q hdr tok [(COAP_OPTION_URI_PATH, uri)]"
      "same_kind p q" "numOptions q = numOptions p + 1"
    using addOption_effect [OF assms(1,6) room_new [OF assms(2,3)], of COAP_OPTION_URI_PATH]
    by (auto simp: insert_option_def)
  have tw: "takeWhile (\<lambda>b. b \<noteq> 0x2F) uri = uri"
    using assms(4) by (auto simp: takeWhile_eq_all_conv)
  have "hd uri \<noteq> 0x2F" "tl uri \<noteq> []" "uri \<noteq> []"
    using assms(4,5) by (cases uri; cases "tl uri"; auto)+
  moreover have "h n \<noteq> None" for n
    using assms(2) by (auto simp: plenty_def)
  ultimately have "uri_loop h uri p = Some (0, q)"
    using q(1) by (subst uri_loop.simps) (simp add: Let_def tw uri_loop.simps [of h "[]"])
  then show ?thesis
    using assms(5) q \<open>\<And>n. h n \<noteq> None\<close> same_kind_trans [OF assms(3) q(3)] by (auto simp: setURI_def)
qed

definition id_bytes :: "u16 \<Rightarrow> u8 list" where
  "id_bytes mid = [ucast (drop_bit 8 (lwip_htons mid)), ucast (lwip_htons mid AND 0x00FF)]"

lemma setMessageID_effect:
  assumes "datagram p = packet_bytes [a, b, c, d] tok os pay" "pduLength p \<le> length (pdu p)"
  shows "\<exists>q. setMessageID mid p = Some q \<and> datagram q = packet_bytes ([a, b] @ id_bytes mid) tok os pay \<and>
    pduLength q = length (datagram q)"
proof -
  obtain r where "pdu p = [a, b, c, d] @ tok @ encode 0 os @ payload_bytes pay @ r"
    using arg_cong [OF assms(1), of "\<lambda>x. x @ drop (pduLength p) (pdu p)"] by (simp add: datagram_def packet_bytes_def)
  then have p: "pdu p = [a, b, c, d] @ (tok @ encode 0 os @ payload_bytes pay @ r)" (is "_ = _ @ ?r") .
  have l: "pduLength p = length (packet_bytes [a, b, c, d] tok os pay)"
    using arg_cong [OF assms(1), of length] assms(2) by (simp add: datagram_def)
  have "setMessageID mid p = Some (p\<lparr>pdu := [a, b] @ id_bytes mid @ ?r\<rparr>)"
    by (simp add: setMessageID_def Let_def wr_def p memcpy_def id_bytes_def)
  moreover have "take (pduLength p) ([a, b] @ id_bytes mid @ ?r) = packet_bytes ([a, b] @ id_bytes mid) tok os pay"
    by (simp add: l packet_bytes_def id_bytes_def)
  ultimately show ?thesis
    by (simp add: datagram_def packet_bytes_def id_bytes_def l)
qed

lemma getMessageID_bytes: "pdu p = [a, b] @ id_bytes mid @ r \<Longrightarrow> getMessageID p = Some mid"
  unfolding getMessageID_def id_bytes_def rd_def by (simp add: two_bytes)

text \<open>The block number and the size, most significant byte first.\<close>

lemma block_bytes:
  assumes "b < 4096"
  shows "short_bytes (coapBlockValue (int b)) = [of_nat (b div 16), of_nat (b mod 16 * 16 + 6)]"
proof -
  define w :: u16 where "w = push_bit 4 (of_nat b) OR 0x6"
  have ff: "(0xFF :: u16) = mask 8"
    by (simp add: mask_eq_exp_minus_1)
  have c: "coapBlockValue (int b) = push_bit 8 (w AND 0xFF) OR (drop_bit 8 w AND 0xFF)"
    by (simp add: coapBlockValue_def w_def)
  have six: "(0x6 :: u16) = mask 4 AND 0x6"
    by (simp add: mask_eq_exp_minus_1)
  have "push_bit 4 (of_nat b) AND mask 4 = (0 :: u16)"
    by (rule bit_word_eqI) (auto simp: bit_simps)
  then have "(push_bit 4 (of_nat b) AND 0x6 :: u16) = 0"
    by (subst six, subst and.assoc [symmetric]) (simp only: zero_and_eq)
  then have "w = push_bit 4 (of_nat b) + 0x6"
    by (simp add: w_def disjunctive_add_eq_or)
  then have uw: "unat w = 16 * b + 6"
    using assms by (simp add: push_bit_eq_mult unat_word_ariths unat_of_nat)
  have narrow: "unat (ucast x :: u8) = unat x mod 256" for x :: u16
    by (simp add: unsigned_ucast_eq take_bit_eq_mod unat_mod)
  have "unat (drop_bit 8 w) = (16 * b + 6) div (16 * 16)"
    by (simp add: uw drop_bit_eq_div unat_div)
  also have "\<dots> = b div 16"
    unfolding div_mult2_eq by simp
  finally have "unat (ucast (drop_bit 8 w) :: u8) = b div 16"
    using assms unfolding narrow by simp
  moreover have "unat (ucast w :: u8) = b mod 16 * 16 + 6"
    using mod_mult2_eq [of "16 * b + 6" 16 16] unfolding narrow uw by simp
  ultimately have u: "ucast (drop_bit 8 w) = (of_nat (b div 16) :: u8)" "ucast w = (of_nat (b mod 16 * 16 + 6) :: u8)"
    by (metis of_nat_unat ucast_id)+
  have "short_bytes (coapBlockValue (int b)) = [ucast (drop_bit 8 w), ucast w]"
    unfolding short_bytes_def c ff
    by (auto intro!: bit_word_eqI simp: bit_simps simp del: push_bit_mask_eq)
  with u show ?thesis
    by simp
qed

lemma request_built:
  assumes "plenty h" "0x2F \<notin> set uri" "2 \<le> length uri" "length uri \<le> 65530" "body \<noteq> []"
    and "os = (case block of None \<Rightarrow> [] | Some v \<Rightarrow> [(COAP_OPTION_BLOCK2, short_bytes v)])"
  shows "\<exists>p. build_request h uri block body mid = Some p \<and> pduLength p = length (datagram p) \<and>
    datagram p = packet_bytes ([0x44, COAP_POST] @ id_bytes mid) [3, 2, 1, 1] ((COAP_OPTION_URI_PATH, uri) # os) body"
proof -
  let ?hdr = "[0x44, COAP_POST, 0, 0]" and ?tok = "[3, 2, 1, 1]"
  from setURI_one [OF new_packet_packet assms(1) _ assms(2-4)] obtain p1 where p1: "setURI h uri new_packet = Some (0, p1)"
      "packet p1 ?hdr ?tok [(COAP_OPTION_URI_PATH, uri)]" "same_kind new_packet p1"
    by (auto simp: same_kind_def)
  obtain p2 r where p2: "(case block of None \<Rightarrow> Some (0, p1) | Some v \<Rightarrow> addOption h COAP_OPTION_BLOCK2 (short_bytes v) p1) = Some (r, p2)"
      "packet p2 ?hdr ?tok ((COAP_OPTION_URI_PATH, uri) # os)" "same_kind new_packet p2"
  proof (cases block)
    case None
    with p1 assms(6) show ?thesis
      by (intro that) simp_all
  next
    case (Some v)
    have "length (short_bytes v) \<le> 65530"
      by (simp add: short_bytes_def)
    from addOption_effect [OF p1(2) this room_new [OF assms(1) p1(3)], of COAP_OPTION_BLOCK2] obtain q where
        "addOption h COAP_OPTION_BLOCK2 (short_bytes v) p1 = Some (0, q)"
        "packet q ?hdr ?tok (insert_option (COAP_OPTION_BLOCK2, short_bytes v) [(COAP_OPTION_URI_PATH, uri)])" "same_kind p1 q"
      by blast
    moreover have "insert_option (COAP_OPTION_BLOCK2, short_bytes v) [(COAP_OPTION_URI_PATH, uri)] = (COAP_OPTION_URI_PATH, uri) # os"
      using Some assms(6) by (simp add: insert_option_def COAP_OPTION_BLOCK2_def COAP_OPTION_URI_PATH_def)
    ultimately show ?thesis
      using Some same_kind_trans [OF p1(3)] by (intro that) simp_all
  qed
  from setPayload_effect [OF p2(2) assms(5) room_new [OF assms(1) p2(3)]] obtain p3 where p3: "setPayload h body p2 = Some (0, p3)"
      "datagram p3 = packet_bytes ?hdr ?tok ((COAP_OPTION_URI_PATH, uri) # os) body" "pduLength p3 \<le> length (pdu p3)"
    by blast
  from setMessageID_effect [OF p3(2,3), of mid] show ?thesis
    unfolding build_request_def request_start [OF assms(1)] using p1(1) p2(1) p3(1) by auto
qed

section \<open>Headers\<close>

lemmas codes = code_ok_def COAP_POST_def COAP_EMPTY_def COAP_DELETE_def COAP_CREATED_def COAP_CONTENT_def COAP_BAD_REQUEST_def
  COAP_NOT_ACCEPTABLE_def COAP_PRECONDITION_FAILED_def COAP_UNSUPPORTED_CONTENT_FORMAT_def COAP_INTERNAL_SERVER_ERROR_def
  COAP_PROXYING_NOT_SUPPORTED_def

lemma request_header: "good_header ([0x44, COAP_POST] @ id_bytes mid) [3, 2, 1, 1]"
  by (simp add: good_header_def id_bytes_def codes)

lemma content_header: "good_header [0x40, 0x45, 0, 1] []"
  by (simp add: good_header_def codes)

end
