(* ===== verification/Coap_Uri.thy ===== *)
theory Coap_Uri
  imports Coap_Client
begin

text \<open>
  Paths: \<open>setURI\<close> makes an option of every part of a path, and \<open>getURI\<close> puts the parts together again
  (\<open>cantcoap/cantcoap.cpp\<close>).
\<close>

definition uri_text :: "u8 list list \<Rightarrow> u8 list" where
  "uri_text parts = concat (map (\<lambda>s. 0x2F # s) parts)"

lemma uri_text_simps [simp]: "uri_text [] = []" "uri_text (s # ps) = 0x2F # s @ uri_text ps"
  by (simp_all add: uri_text_def)

text \<open>Strings without slashes, of which the last is not empty.\<close>

definition path_parts :: "u8 list list \<Rightarrow> bool" where
  "path_parts ps \<longleftrightarrow> ps \<noteq> [] \<and> last ps \<noteq> [] \<and> (\<forall>s\<in>set ps. 0 \<notin> set s \<and> 0x2F \<notin> set s \<and> length s \<le> 65530)"

section \<open>Setting a path\<close>

lemma next_part:
  assumes "0x2F \<notin> set s"
  shows "takeWhile (\<lambda>b. b \<noteq> 0x2F) (s @ uri_text ps) = s"
proof -
  have "takeWhile (\<lambda>b. b \<noteq> 0x2F) (uri_text ps) = []"
    by (cases ps) simp_all
  then show ?thesis
    using assms by (subst takeWhile_append2) auto
qed

text \<open>An option whose number is not less than any other goes to the end.\<close>

lemma insert_last: "\<forall>(m, w)\<in>set os. m \<le> n \<Longrightarrow> insert_option (n, v) os = os @ [(n, v)]"
  by (auto simp: insert_option_def takeWhile_eq_all_conv dropWhile_eq_Nil_conv)

lemma uri_loop_parts:
  assumes "plenty h"
  shows "packet p hdr tok os \<Longrightarrow> \<forall>(m, w)\<in>set os. m \<le> COAP_OPTION_URI_PATH \<Longrightarrow> same_kind new_packet p \<Longrightarrow>
    ps = [] \<or> last ps \<noteq> [] \<Longrightarrow> \<forall>s\<in>set ps. 0x2F \<notin> set s \<and> length s \<le> 65530 \<Longrightarrow>
    \<exists>q. uri_loop h (uri_text ps) p = Some (0, q) \<and> packet q hdr tok (os @ map (Pair COAP_OPTION_URI_PATH) ps)"
proof (induction ps arbitrary: p os)
  case Nil
  then show ?case
    by (simp add: uri_loop.simps)
next
  case (Cons s ps)
  obtain blk where heap: "h (length s + 1) = Some blk"
    using assms by (auto simp: plenty_def)
  obtain q where q: "addOption h COAP_OPTION_URI_PATH s p = Some (0, q)"
      "packet q hdr tok (os @ [(COAP_OPTION_URI_PATH, s)])" "same_kind p q"
    using addOption_effect [OF Cons.prems(1) _ room_new [OF assms Cons.prems(3)], of s COAP_OPTION_URI_PATH]
      Cons.prems(2,5) insert_last [OF Cons.prems(2)] by auto
  have "s @ uri_text ps \<noteq> []"
    using Cons.prems(4) by (cases ps) auto
  then have "uri_loop h (uri_text (s # ps)) p = uri_loop h (uri_text ps) q"
    using Cons.prems(5) q(1) heap by (subst uri_loop.simps) (auto simp: Let_def next_part)
  moreover have "\<exists>q'. uri_loop h (uri_text ps) q = Some (0, q') \<and>
      packet q' hdr tok ((os @ [(COAP_OPTION_URI_PATH, s)]) @ map (Pair COAP_OPTION_URI_PATH) ps)"
    using Cons.prems by (intro Cons.IH q(2) same_kind_trans [OF _ q(3)]) (auto split: if_splits)
  ultimately show ?case
    by simp
qed

lemma setURI_parts:
  assumes "plenty h" "path_parts ps" "packet p hdr tok []" "same_kind new_packet p"
  shows "\<exists>q. setURI h (uri_text ps) p = Some (0, q) \<and> packet q hdr tok (map (Pair COAP_OPTION_URI_PATH) ps)"
proof -
  have "\<exists>q. uri_loop h (uri_text ps) p = Some (0, q) \<and> packet q hdr tok ([] @ map (Pair COAP_OPTION_URI_PATH) ps)"
    using assms(2) by (intro uri_loop_parts [OF assms(1,3) _ assms(4)]) (auto simp: path_parts_def)
  moreover have "uri_text ps \<noteq> []" "length (uri_text ps) \<noteq> 1"
    using assms(2) by (cases ps; cases "tl ps"; auto simp: path_parts_def)+
  moreover have "h 16 \<noteq> None"
    using assms(1) by (auto simp: plenty_def)
  ultimately show ?thesis
    by (simp add: setURI_def)
qed

section \<open>Reading a path\<close>

text \<open>The parts of a path among the options.\<close>

definition path_of :: "opts \<Rightarrow> u8 list list" where
  "path_of os = map snd (filter (\<lambda>(n, v). n = COAP_OPTION_URI_PATH) os)"

definition slashed :: "u8 list list \<Rightarrow> u8 list" where
  "slashed ps = concat (map (\<lambda>s. s @ [0x2F]) ps)"

lemma slashed_text: "[0x2F] @ slashed ps = uri_text ps @ [0x2F]"
  by (induction ps) (simp_all add: slashed_def)

lemma get_uri_loop_parts:
  assumes "\<forall>opt\<in>set opts. optionValuePointer opt + unat (optionValueLength opt) \<le> length (pdu p)"
    and "[0x2F] \<notin> set (path_of (map (option_view p) opts))"
    and "length (slashed (path_of (map (option_view p) opts))) \<le> bytesLeft" "bytesLeft \<le> length rest"
  shows "get_uri_loop opts (length pre) bytesLeft (pre @ rest) p =
    (let out = slashed (path_of (map (option_view p) opts))
     in Some (Inr (length pre + length out, bytesLeft - length out, pre @ out @ drop (length out) rest)))"
  using assms
proof (induction opts arbitrary: pre bytesLeft rest)
  case Nil
  then show ?case
    by (simp add: path_of_def slashed_def)
next
  case (Cons opt opts)
  define v and n where "v = take (unat (optionValueLength opt)) (drop (optionValuePointer opt) (pdu p))"
    and "n = unat (optionValueLength opt)"
  note v_def = this
  have v: "rd_bytes p (optionValuePointer opt) n = Some v" "length v = n"
    using Cons.prems(1) by (auto simp: rd_bytes_def v_def)
  show ?case
  proof (cases "optionNumber opt = COAP_OPTION_URI_PATH")
    case False
    then show ?thesis
      using Cons.IH [of bytesLeft rest pre] Cons.prems by (simp add: path_of_def option_view_def)
  next
    case True
    then have path: "path_of (map (option_view p) (opt # opts)) = v # path_of (map (option_view p) opts)"
      by (simp add: path_of_def option_view_def v_def)
    let ?out = "slashed (path_of (map (option_view p) opts))" and ?left = "bytesLeft - length v - 1"
    have ne: "v \<noteq> [0x2F]"
      using Cons.prems(2) unfolding path by auto
    have room: "length v + 1 + length ?out \<le> bytesLeft"
      using Cons.prems(3) unfolding path by (simp add: slashed_def)
    have put1: "put (length pre) v (pre @ rest) = Some (pre @ v @ drop n rest)"
      using room Cons.prems(4) v(2) by (simp add: put_def memcpy_def)
    have put2: "put (length pre + n) [0x2F] (pre @ v @ drop n rest) = Some ((pre @ v @ [0x2F]) @ drop (n + 1) rest)"
      using room Cons.prems(4) v(2) by (simp add: put_def memcpy_def add.commute)
    have left: "1 \<le> bytesLeft - n" "\<not> bytesLeft < n"
      using room v(2) by auto
    have "get_uri_loop (opt # opts) (length pre) bytesLeft (pre @ rest) p =
        get_uri_loop opts (length pre + n + 1) (bytesLeft - n - 1) ((pre @ v @ [0x2F]) @ drop (n + 1) rest) p"
      unfolding get_uri_loop.simps Let_def v_def(2) [symmetric] v(1) Option.bind.simps if_not_P [OF ne] put1 put2
      using True left by simp
    also have "\<dots> = get_uri_loop opts (length (pre @ v @ [0x2F])) ?left ((pre @ v @ [0x2F]) @ drop (length v + 1) rest) p"
      using v(2) by simp
    also have "\<dots> = Some (Inr (length (pre @ v @ [0x2F]) + length ?out, ?left - length ?out,
        (pre @ v @ [0x2F]) @ ?out @ drop (length ?out) (drop (length v + 1) rest)))"
      using Cons.prems room unfolding path
      by (subst Cons.IH) (auto simp: Let_def)
    finally show ?thesis
      unfolding path by (simp add: slashed_def Let_def add.commute)
  qed
qed

lemma getURI_text:
  assumes "getOptions p = Some opts" "numOptions p \<noteq> 0"
    and "\<forall>opt\<in>set opts. optionValuePointer opt + unat (optionValueLength opt) \<le> length (pdu p)"
    and "path_of (map (option_view p) opts) = ps" "[0x2F] \<notin> set ps" "length (uri_text ps) + 2 \<le> dstlen" "dstlen \<le> length dst"
  shows "getURI dst dstlen p = Some (0, Some (length (uri_text ps)), memcpy 0 (uri_text ps @ [0]) dst)"
proof -
  have l: "length (slashed ps) = length (uri_text ps)"
    using arg_cong [OF slashed_text, of length ps] by simp
  obtain d rest where dst: "dst = d # rest"
    using assms(6,7) by (cases dst) auto
  obtain k where k: "dstlen = length (uri_text ps) + 2 + k"
    using assms(6) by (auto simp: le_iff_add)
  let ?out = "slashed ps"
  have "put 0 [0x2F] dst = Some ([0x2F] @ rest)"
    by (simp add: put_def memcpy_def dst)
  moreover have "get_uri_loop opts (length [0x2F :: u8]) (dstlen - 2) ([0x2F] @ rest) p =
      Some (Inr (1 + length ?out, dstlen - 2 - length ?out, [0x2F] @ ?out @ drop (length ?out) rest))"
    using assms(3,5-7) l dst unfolding assms(4) [symmetric]
    by (subst get_uri_loop_parts) (auto simp: Let_def)
  moreover have "put (length (uri_text ps)) [0] ([0x2F] @ ?out @ drop (length ?out) rest) = Some (memcpy 0 (uri_text ps @ [0]) dst)"
    unfolding append_assoc [symmetric] slashed_text using assms(6,7) l by (simp add: put_def memcpy_def dst)
  ultimately show ?thesis
    using assms(1,2) l by (simp add: getURI_def k)
qed

text \<open>The path of a received packet.\<close>

lemma getURI_received:
  assumes "getOptions p = Some opts" "read_options p = Some os" "numOptions p = length os" "os \<noteq> []"
    and "\<forall>opt\<in>set opts. optionValuePointer opt + unat (optionValueLength opt) \<le> length (pdu p)"
    and "path_of os = ps" "[0x2F] \<notin> set ps" "length (uri_text ps) + 2 \<le> dstlen" "dstlen \<le> length dst"
  shows "getURI dst dstlen p = Some (0, Some (length (uri_text ps)), memcpy 0 (uri_text ps @ [0]) dst)"
  using assms by (intro getURI_text [OF assms(1) _ assms(5)]) (auto simp: read_options_def)

lemma path_of_parts: "path_of (map (Pair COAP_OPTION_URI_PATH) ps) = ps"
  by (induction ps) (simp_all add: path_of_def)

end
