(* ===== verification/Coap_Properties.thy ===== *)
theory Coap_Properties
  imports Coap_Uri
begin

text \<open>
  Properties of the CoAP packets: adding an option refines insertion into an ordered list, a request can be read
  back, an answer is read as it was encoded, and how far the check of a packet reads.
\<close>

section \<open>How far the check of a packet reads\<close>

lemma header_split:
  obtains d l where "h = push_bit 4 d OR l" "d < 16" "l < (16 :: u8)"
proof
  show "drop_bit 4 h < 16"
    using unat_u8_less [of h] by (simp add: word_less_nat_alt drop_bit_eq_div unat_div)
  have "h AND 0x0F = take_bit 4 h"
    unfolding masks by (rule take_bit_eq_mask [symmetric])
  then show "h AND 0x0F < 16"
    by (simp add: word_less_nat_alt unsigned_take_bit_eq take_bit_eq_mod unat_mod)
  show "h = push_bit 4 (drop_bit 4 h) OR (h AND 0x0F)"
    unfolding masks by (rule bit_word_eqI) (auto simp: bit_simps)
qed

lemma nibble_extra_value: "(d :: u8) < 16 \<Longrightarrow> computeExtraBytes (ucast d) = (if d < 13 then 0 else 1)"
  by (auto simp: computeExtraBytes_def word_less_nat_alt)

text \<open>The header of an option and its extensions lie at most two bytes behind the packet.\<close>

lemma option_readable:
  assumes "rd p pos = Some h" "drop_bit 4 (h AND 0xF0) \<noteq> 0x0F" "h AND 0x0F \<noteq> 0x0F"
    and "pos + 1 + computeExtraBytes (ucast (drop_bit 4 (h AND 0xF0))) + computeExtraBytes (ucast (h AND 0x0F)) + 2 \<le> length (pdu p)"
  shows "\<exists>delta len. getOptionDelta p pos = Some delta \<and> getOptionValueLength p pos = Some len"
proof -
  obtain d l where h: "h = push_bit 4 d OR l" "d < 16" "l < 16"
    by (rule header_split)
  note n = header_nibbles [OF h(2,3), folded h(1)]
  have x: "computeExtraBytes (ucast d) = (if d < 13 then 0 else 1)" "computeExtraBytes (ucast l) = (if l < 13 then 0 else 1)"
    using nibble_extra_value h by simp_all
  have u: "(ucast d :: u16) < 13 \<longleftrightarrow> d < 13" "(ucast l :: u16) < 13 \<longleftrightarrow> l < 13" "(ucast d :: u16) = 13 \<longleftrightarrow> d = 13"
      "(ucast d :: u16) = 14 \<longleftrightarrow> d = 14" "(ucast l :: u16) = 13 \<longleftrightarrow> l = 13"
    by (simp_all add: word_less_nat_alt word_unat_eq_iff)
  have "\<exists>delta. getOptionDelta p pos = Some delta"
    using assms(4) unfolding getOptionDelta_def assms(1) Let_def Option.bind.simps n u x by (auto simp: rd_def split: if_splits)
  moreover have "\<exists>len. getOptionValueLength p pos = Some len"
    using assms(4) unfolding getOptionValueLength_def assms(1) Let_def Option.bind.simps n u x by (auto simp: rd_def split: if_splits)
  ultimately show ?thesis
    by blast
qed

lemma reads_cong:
  assumes "pdu q = pdu p"
  shows "getOptionDelta q = getOptionDelta p" "getOptionValueLength q = getOptionValueLength p" "getTokenLength q = getTokenLength p"
proof -
  have "rd q = rd p"
    using assms by (simp add: rd_def fun_eq_iff)
  note r = this
  show "getOptionDelta q = getOptionDelta p" "getOptionValueLength q = getOptionValueLength p" "getTokenLength q = getTokenLength p"
    by ((rule ext)?, simp only: getOptionDelta_def getOptionValueLength_def getTokenLength_def r)+
qed

text \<open>An accepted packet: its options and its payload lie within it.\<close>

definition within :: "CoapPDU \<Rightarrow> nat \<Rightarrow> CoapOption list \<Rightarrow> bool" where
  "within q n opts \<longleftrightarrow> (\<forall>opt\<in>set opts. optionValuePointer opt + unat (optionValueLength opt) \<le> n) \<and>
     (payloadLength q = 0 \<or> (\<exists>i. payloadPointer q = At i \<and> i + payloadLength q = n))"

lemma validate_loop_reads:
  "pos + n = pduLength p \<Longrightarrow> pduLength p + 2 \<le> length (pdu p) \<Longrightarrow>
    \<exists>r q. validate_loop pos n k p = Some (r, q) \<and> pdu q = pdu p \<and> (r = 0 \<or> r = 1 \<and> k \<le> numOptions q \<and>
      (\<forall>num. \<exists>opts. options_loop (numOptions q - k) pos num q = Some opts \<and> within q (pduLength p) opts))"
proof (induction n arbitrary: pos k rule: less_induct)
  case (less n)
  show ?case
  proof (cases "n = 0")
    case True
    then show ?thesis
      by (simp add: validate_loop.simps within_def)
  next
    case False
    then obtain h where h: "rd p pos = Some h"
      using less.prems by (auto simp: rd_def)
    let ?u = "drop_bit 4 (h AND 0xF0)" and ?l = "h AND 0x0F"
    note unfold = validate_loop.simps [of pos n k p, unfolded if_not_P [OF False] h Option.bind.simps Let_def]
    consider (payload) "h = 0xFF" | (bad) "h \<noteq> 0xFF" "?u = 0x0F \<or> ?l = 0x0F \<or> n - 1 < computeExtraBytes (ucast ?u) + computeExtraBytes (ucast ?l)"
      | (opt) "h \<noteq> 0xFF" "?u \<noteq> 0x0F" "?l \<noteq> 0x0F" "computeExtraBytes (ucast ?u) + computeExtraBytes (ucast ?l) \<le> n - 1"
      by linarith
    then show ?thesis
    proof cases
      case payload
      then show ?thesis
        unfolding unfold using less.prems by (auto simp: within_def)
    next
      case bad
      then show ?thesis
        unfolding unfold by auto
    next
      case opt
      then have "pos + 1 + computeExtraBytes (ucast ?u) + computeExtraBytes (ucast ?l) + 2 \<le> length (pdu p)"
        using less.prems False by linarith
      from option_readable [OF h opt(2,3) this] obtain delta len where d: "getOptionDelta p pos = Some delta"
          "getOptionValueLength p pos = Some len"
        by blast
      let ?t = "option_total delta len"
      show ?thesis
      proof (cases "pos + ?t \<le> pduLength p")
        case False
        then have "validate_loop pos n k p = Some (0, p)"
          unfolding unfold d Option.bind.simps using opt by (simp add: not_le)
        then show ?thesis
          by simp
      next
        case True
        have t: "n - ?t < n" "pos + ?t + (n - ?t) = pduLength p" "1 \<le> ?t" "unat len \<le> ?t"
          using True False less.prems(1) \<open>n \<noteq> 0\<close> by (auto simp: option_total_def)
        from less.IH [OF t(1,2) less.prems(2), of "k + 1"] obtain r q where q: "validate_loop (pos + ?t) (n - ?t) (k + 1) p = Some (r, q)"
            "pdu q = pdu p" "r = 0 \<or> r = 1 \<and> k + 1 \<le> numOptions q \<and>
              (\<forall>num. \<exists>opts. options_loop (numOptions q - (k + 1)) (pos + ?t) num q = Some opts \<and> within q (pduLength p) opts)"
          by blast
        have step: "validate_loop pos n k p = Some (r, q)"
          using validate_step [OF h opt(1-3) _ d True] opt(4) \<open>n \<noteq> 0\<close> q(1) by simp
        have "\<exists>opts. options_loop (numOptions q - k) pos num q = Some opts \<and> within q (pduLength p) opts"
          if le: "k + 1 \<le> numOptions q" and loop: "\<And>num. \<exists>opts. options_loop (numOptions q - (k + 1)) (pos + ?t) num q = Some opts \<and> within q (pduLength p) opts" for num
        proof -
          have n: "numOptions q - k = Suc (numOptions q - (k + 1))"
            using le by simp
          obtain opts where "options_loop (numOptions q - (k + 1)) (pos + ?t) (num + delta) q = Some opts" "within q (pduLength p) opts"
            using loop by blast
          then show ?thesis
            unfolding n using d t(4) True by (simp add: reads_cong [OF q(2)] Let_def within_def)
        qed
        with q(3) show ?thesis
          using step q(2) by (intro exI [of _ r] exI [of _ q]) auto
      qed
    qed
  qed
qed

section \<open>Theorems\<close>

text \<open>
  C28: options can be added in any order. On a packet whose bytes encode an ordered list of options, \<open>addOption\<close> has the effect
  of inserting into that list, behind the options with the same number; it does so also where the rest of the packet has
  to be moved and the header of the next option rewritten. The count of options, however, grows only if the new one is the
  last.
\<close>

theorem addOption_inserts:
  assumes "packet p hdr tok os" "length v \<le> 65530" "room h (length v + 5) p"
  shows "\<exists>q. addOption h n v p = Some (0, q) \<and> packet q hdr tok (insert_option (n, v) os) \<and>
    numOptions q = numOptions p + (if \<forall>(m, w)\<in>set os. m \<le> n then 1 else 0)"
proof -
  have os: "good_opts os"
    using assms(1) by (simp add: packet_def)
  have last: "last_number 0 os \<le> n \<longleftrightarrow> (\<forall>(m, w)\<in>set os. m \<le> n)"
  proof
    assume le: "last_number 0 os \<le> n"
    show "\<forall>(m, w)\<in>set os. m \<le> n"
    proof safe
      fix m w
      assume "(m, w) \<in> set os"
      from last_number_max [OF os this] le show "m \<le> n"
        by (rule order.trans)
    qed
  next
    assume "\<forall>(m, w)\<in>set os. m \<le> n"
    then show "last_number 0 os \<le> n"
      by (rule last_number_le [OF os]) (rule word_zero_le)
  qed
  show ?thesis
    using addOption_effect [OF assms, of n] unfolding last by blast
qed

theorem addOption_inserts_witness:
  "\<exists>q. addOption (\<lambda>n. Some (replicate n 0)) 3 [0x68] new_packet = Some (0, q) \<and>
    packet q [0x44, COAP_POST, 0, 0] [3, 2, 1, 1] [(3, [0x68])]"
proof -
  have "room (\<lambda>n. Some (replicate n 0)) (length [0x68 :: u8] + 5) new_packet"
    by (simp add: room_def plenty_def new_packet_def)
  from addOption_inserts [OF new_packet_packet _ this, of 3] show ?thesis
    by (auto simp: insert_option_def)
qed

text \<open>
  An answer is read as it was encoded. From a buffer that begins with a header, a token, encoded options and a payload,
  \<open>validate\<close> accepts the packet, \<open>getOptions\<close> finds the options with their values and the payload is the payload;
  \<open>getOptionsBlock2Next\<close> tells whether one of the block options has its flag for more blocks set.
\<close>

theorem answer_parsed:
  assumes "good_header hdr tok" "good_opts os"
  shows "\<exists>q. receive_packet (packet_bytes hdr tok os pay @ rest) (length (packet_bytes hdr tok os pay)) = Some (1, q) \<and>
    read_options q = Some os \<and> read_payload q = Some pay \<and> getOptionsBlock2Next q = Some (block2_flag os)"
proof -
  from receive_encoded [OF assms] obtain q where q: "receive_packet (packet_bytes hdr tok os pay @ rest) (length (packet_bytes hdr tok os pay)) = Some (1, q)"
      "read_options q = Some os" "read_payload q = Some pay" "pdu q = packet_bytes hdr tok os pay @ rest" "numOptions q = length os"
    by blast
  moreover have "getOptionsBlock2Next q = Some (block2_flag os)"
    using getOptionsBlock2Next_flag [OF _ assms q(5)] q(4) by (simp add: packet_bytes_def)
  ultimately show ?thesis
    by blast
qed

theorem answer_parsed_witness:
  "\<exists>q. receive_packet ([0x40, 0x45, 0, 1, 0xFF, 0x7B] @ [0, 0]) (length [0x40, 0x45, 0, 1, 0xFF, 0x7B :: u8]) = Some (1, q) \<and> read_options q = Some [] \<and> read_payload q = Some [0x7B]"
  using answer_parsed [OF content_header, of "[]" "[0x7B]" "[0, 0]"]
  by (auto simp: good_opts_def packet_bytes_def payload_bytes_def)

text \<open>
  C29: the request for a block reaches the server as it is meant. The datagram that the client builds for a block (header, token,
  path, block option, JSON text, message number) is a packet, and read back it has the code, the number, the path and the text,
  and a block option with the number and the size 1024 of the block, most significant byte first.
\<close>

theorem request_roundtrip:
  assumes "plenty h" "0x2F \<notin> set uri" "2 \<le> length uri" "length uri \<le> 65530" "body \<noteq> []" "b < 4096"
  shows "\<exists>p q. build_request h uri (Some (coapBlockValue (int b))) body mid = Some p \<and>
    receive_packet (datagram p @ rest) (pduLength p) = Some (1, q) \<and>
    getCode q = Some COAP_POST \<and> getMessageID q = Some mid \<and> read_payload q = Some body \<and>
    read_options q = Some [(COAP_OPTION_URI_PATH, uri), (COAP_OPTION_BLOCK2, [of_nat (b div 16), of_nat (b mod 16 * 16 + 6)])]"
proof -
  let ?os = "[(COAP_OPTION_URI_PATH, uri), (COAP_OPTION_BLOCK2, short_bytes (coapBlockValue (int b)))]"
  let ?hdr = "[0x44, COAP_POST] @ id_bytes mid" and ?tok = "[3, 2, 1, 1]"
  obtain p where p: "build_request h uri (Some (coapBlockValue (int b))) body mid = Some p" "pduLength p = length (datagram p)"
      "datagram p = packet_bytes ?hdr ?tok ?os body"
    using request_built [OF assms(1-5) refl, of "Some (coapBlockValue (int b))" mid] by auto
  have hd: "good_header ?hdr ?tok"
    by (rule request_header)
  have os: "good_opts ?os"
    using assms(4) by (simp add: good_opts_Cons short_bytes_def COAP_OPTION_URI_PATH_def COAP_OPTION_BLOCK2_def)
  from receive_encoded [OF hd os, of body rest] obtain q where q: "receive_packet (datagram p @ rest) (pduLength p) = Some (1, q)"
      "read_options q = Some ?os" "read_payload q = Some body" "pdu q = packet_bytes ?hdr ?tok ?os body @ rest"
    unfolding p by blast
  have "getCode q = Some COAP_POST"
    using token_length(2) [OF _ hd, of q "?tok @ encode 0 ?os @ payload_bytes body @ rest"] q(4) by (simp add: packet_bytes_def)
  moreover have "getMessageID q = Some mid"
    by (rule getMessageID_bytes [of q "0x44" COAP_POST mid "?tok @ encode 0 ?os @ payload_bytes body @ rest"]) (simp add: q(4) packet_bytes_def)
  ultimately show ?thesis
    using p(1) q(1-3) unfolding block_bytes [OF assms(6)] by blast
qed

theorem request_roundtrip_witness:
  "\<exists>p q. build_request (\<lambda>n. Some (replicate n 0)) [0x75, 0x70] (Some (coapBlockValue (int 5))) [0x7B] 7 = Some p \<and>
    receive_packet (datagram p @ []) (pduLength p) = Some (1, q) \<and> read_payload q = Some [0x7B] \<and>
    read_options q = Some [(COAP_OPTION_URI_PATH, [0x75, 0x70]), (COAP_OPTION_BLOCK2, [0, 0x56])]"
  using request_roundtrip [of "\<lambda>n. Some (replicate n 0)" "[0x75, 0x70]" "[0x7B]" 5 7 "[]"] by (auto simp: plenty_def)

text \<open>
  C32: whatever arrives, the check of a packet does not read far. If the buffer is at least two bytes larger than what was
  received, \<open>validate\<close> ends with a verdict; after it has accepted the packet, the options and the payload can be read, and
  all values lie within the received bytes.
\<close>

theorem parser_bounds:
  assumes "ret + 2 \<le> length buffer"
  shows "\<exists>r q. receive_packet buffer ret = Some (r, q) \<and> (r = 0 \<or> r = 1 \<and>
    (\<exists>opts. getOptions q = Some opts \<and> within q ret opts \<and> getOptionsBlock2Next q \<noteq> None \<and> read_payload q \<noteq> None))"
proof -
  let ?p = "\<lparr>pdu = buffer, pduLength = ret, constructedFromBuffer = True, bufferLength = length buffer,
      payloadPointer = Null, payloadLength = 0, numOptions = 0, maxAddedOptionNumber = 0\<rparr>"
  have r: "receive_packet buffer ret = validate ?p"
    using assms by (intro receive_packet_buffer) auto
  define b0 b1 where "b0 = unat (buffer ! 0 AND 0x0F)" and "b1 = buffer ! 1"
  have b: "getTokenLength ?p = Some b0" "getCode ?p = Some b1"
    using assms by (auto simp: getTokenLength_def getCode_def rd_def b0_def b1_def)
  have later: "getOptionsBlock2Next q \<noteq> None \<and> read_payload q \<noteq> None"
    if "getOptions q = Some opts" "within q ret opts" "pdu q = buffer" for q opts
  proof -
    have "\<forall>opt\<in>set opts. optionValuePointer opt + unat (optionValueLength opt) \<le> length (pdu q)"
      using that(2,3) assms by (auto simp: within_def)
    then show ?thesis
      using that assms block2_loop_flag [of opts q] by (auto simp: getOptionsBlock2Next_def read_payload_def within_def)
  qed
  show ?thesis
  proof (cases "4 \<le> ret \<and> b0 \<le> 8 \<and> 4 + b0 \<le> ret \<and> code_ok b1")
    case False
    then show ?thesis
      unfolding r validate_def using b by (auto simp: COAP_HDR_SIZE_def not_le)
  next
    case True
    show ?thesis
    proof (cases "4 + b0 = ret")
      case True': True
      let ?q = "?p\<lparr>numOptions := 0, payloadLength := 0\<rparr>"
      have "validate ?p = Some (1, ?q)"
        using True True' b by (simp add: validate_def COAP_HDR_SIZE_def Let_def)
      moreover have o: "getOptions ?q = Some []" "within ?q ret []"
        by (simp_all add: getOptions_def within_def)
      ultimately show ?thesis
        unfolding r using later [OF o] by auto
    next
      case False
      then have v: "validate ?p = validate_loop (4 + b0) (ret - (4 + b0)) 0 ?p"
        using True b by (simp add: validate_def COAP_HDR_SIZE_def Let_def)
      from validate_loop_reads [of "4 + b0" "ret - (4 + b0)" ?p 0] True assms
      obtain s q where q: "validate ?p = Some (s, q)" "pdu q = buffer" "s = 0 \<or> s = 1 \<and>
          (\<exists>opts. options_loop (numOptions q) (4 + b0) 0 q = Some opts \<and> within q ret opts)"
        unfolding v by auto
      have t: "getTokenLength q = Some b0"
        using b(1) reads_cong(3) [of q ?p] q(2) by simp
      have "\<exists>opts. getOptions q = Some opts \<and> within q ret opts" if "s = 1"
        using q(3) that t by (auto simp: getOptions_def COAP_HDR_SIZE_def)
      with q later show ?thesis
        unfolding r by blast
    qed
  qed
qed

theorem parser_bounds_witness:
  "\<exists>r q. receive_packet [0x40, 0x45, 0, 1, 0xE0, 1, 2, 3] 6 = Some (r, q) \<and> (r = 0 \<or> r = 1)"
  using parser_bounds [of 6 "[0x40, 0x45, 0, 1, 0xE0, 1, 2, 3]"] by auto

text \<open>
  C39: but it may read two bytes too far. The space for a two-byte extension is checked as if it were one byte: a packet that fills
  the buffer and ends in an option header with such an extension and one more byte makes \<open>validate\<close> read beyond the buffer.
\<close>

theorem parser_overread:
  assumes "good_header hdr tok" "good_opts os" "n < 13"
  shows "receive_packet (hdr @ tok @ encode 0 os @ [0xE0 OR n, x]) (length (hdr @ tok @ encode 0 os @ [0xE0 OR n, x])) = None"
proof -
  let ?buf = "hdr @ tok @ encode 0 os @ [0xE0 OR n, x]" and ?h = "0xE0 OR n"
  let ?p = "\<lparr>pdu = ?buf, pduLength = length ?buf, constructedFromBuffer = True, bufferLength = length ?buf,
      payloadPointer = Null, payloadLength = 0, numOptions = 0, maxAddedOptionNumber = 0\<rparr>"
  let ?pre = "hdr @ tok" and ?pos = "length (hdr @ tok) + length (encode 0 os)"
  have n: "n < 16" "(14 :: u8) < 16"
    using assms(3) by (simp_all add: word_less_nat_alt)
  have e0: "?h = push_bit 4 14 OR n"
    by simp
  note nib = header_nibbles [OF n(2,1), folded e0]
  have rd: "rd ?p ?pos = Some ?h" "rd ?p (?pos + 1) = Some x" "rd ?p (?pos + 2) = None"
    by (simp_all add: rd_def nth_append)
  have delta: "getOptionDelta ?p ?pos = None"
    unfolding getOptionDelta_def rd Option.bind.simps Let_def nib by simp
  have ne: "?h \<noteq> 0xFF"
    using nib(2) assms(3) by auto
  have "validate ?p = validate_loop (length ?pre) (length (encode 0 os) + 2) 0 ?p"
    using token_length [of ?p hdr "tok @ encode 0 os @ [?h, x]" tok] assms(1)
    by (simp add: validate_def good_header_def COAP_HDR_SIZE_def Let_def)
  also have "\<dots> = validate_loop ?pos 2 (0 + length os) ?p"
    using validate_walk [of ?p ?pre 0 os "[?h, x]" 2 0] assms(2) by simp
  also have "\<dots> = None"
    unfolding validate_loop.simps [of ?pos] rd Option.bind.simps Let_def delta if_not_P [OF ne] nib
    using assms(3) n nibble_extra_value [of n] by (auto simp: computeExtraBytes_def)
  finally show ?thesis
    by (subst receive_packet_buffer) simp_all
qed

theorem parser_overread_witness: "receive_packet [0x40, 0x45, 0, 1, 0xE0, 1] (length [0x40, 0x45, 0, 1, 0xE0, 1 :: u8]) = None"
  using parser_overread [OF content_header, of "[]" 0 1] by (simp add: good_opts_def)

text \<open>
  A path is received as it was set. From a path with any number of parts, \<open>setURI\<close> makes a packet in which the receiver,
  with a buffer of two bytes more than the path, finds the path again by \<open>getURI\<close>, with its length and a terminator.
\<close>

theorem uri_roundtrip:
  assumes "plenty h" "path_parts ps" "length (uri_text ps) + 2 \<le> dstlen" "dstlen \<le> length dst"
  shows "\<exists>p q. setURI h (uri_text ps) new_packet = Some (0, p) \<and>
    receive_packet (datagram p @ rest) (length (datagram p)) = Some (1, q) \<and>
    getURI dst dstlen q = Some (0, Some (length (uri_text ps)), memcpy 0 (uri_text ps @ [0]) dst)"
proof -
  let ?hdr = "[0x44, COAP_POST, 0, 0]" and ?tok = "[3, 2, 1, 1]" and ?os = "map (Pair COAP_OPTION_URI_PATH) ps"
  obtain p where p: "setURI h (uri_text ps) new_packet = Some (0, p)" "packet p ?hdr ?tok ?os"
    using setURI_parts [OF assms(1,2) new_packet_packet] by (auto simp: same_kind_def)
  have hd: "good_header ?hdr ?tok"
    by (simp add: good_header_def codes)
  have os: "good_opts ?os"
    using p(2) by (simp add: packet_def)
  from receive_encoded [OF hd os, of "[]" rest] packet_datagram [OF p(2)] obtain q where
      q: "receive_packet (datagram p @ rest) (length (datagram p)) = Some (1, q)" "read_options q = Some ?os"
      "pdu q = packet_bytes ?hdr ?tok ?os [] @ rest" "numOptions q = length ?os"
    by auto
  have pdu: "pdu q = (?hdr @ ?tok) @ encode 0 ?os @ rest"
    using q(3) by (simp add: packet_bytes_def payload_bytes_def)
  from options_encoded [OF pdu os] obtain opts where o: "options_loop (length ?os) (length (?hdr @ ?tok)) 0 q = Some opts"
      "\<forall>opt\<in>set opts. optionValuePointer opt + unat (optionValueLength opt) \<le> length (?hdr @ ?tok) + length (encode 0 ?os)"
    by blast
  have ne: "?os \<noteq> []" "[0x2F] \<notin> set ps"
    using assms(2) by (auto simp: path_parts_def)
  have "getTokenLength q = Some (length ?tok)"
    using token_length(1) [OF _ hd, of q "?tok @ encode 0 ?os @ rest"] pdu by simp
  then have "getOptions q = options_loop (length ?os) (4 + length ?tok) 0 q"
    unfolding getOptions_def COAP_HDR_SIZE_def q(4) using ne(1) by (subst if_not_P) auto
  also have "4 + length ?tok = length (?hdr @ ?tok)"
    by simp
  finally have "getOptions q = Some opts"
    unfolding o(1) .
  moreover have "\<forall>opt\<in>set opts. optionValuePointer opt + unat (optionValueLength opt) \<le> length (pdu q)"
    using o(2) unfolding pdu by auto
  ultimately have "getURI dst dstlen q = Some (0, Some (length (uri_text ps)), memcpy 0 (uri_text ps @ [0]) dst)"
    by (rule getURI_received [OF _ q(2,4) ne(1) _ path_of_parts ne(2) assms(3,4)])
  with p(1) q(1) show ?thesis
    by blast
qed

theorem uri_roundtrip_witness:
  "\<exists>p q. setURI (\<lambda>n. Some (replicate n 0)) [0x2F, 0x61, 0x2F, 0x62] new_packet = Some (0, p) \<and>
    receive_packet (datagram p @ []) (length (datagram p)) = Some (1, q) \<and>
    getURI (replicate 7 0xAA) 6 q = Some (0, Some 4, [0x2F, 0x61, 0x2F, 0x62, 0, 0xAA, 0xAA])"
proof -
  have uri: "uri_text [[0x61], [0x62]] = [0x2F, 0x61, 0x2F, 0x62]"
    by simp
  have out: "memcpy 0 ([0x2F, 0x61, 0x2F, 0x62] @ [0]) (replicate 7 0xAA) = [0x2F, 0x61, 0x2F, 0x62, 0, 0xAA, 0xAA :: u8]"
    by (simp add: memcpy_def numeral_eq_Suc)
  have len: "length [0x2F, 0x61, 0x2F, 0x62 :: u8] = 4"
    by simp
  have hyps: "plenty (\<lambda>n. Some (replicate n 0))" "path_parts [[0x61], [0x62]]" "length (uri_text [[0x61], [0x62]]) + 2 \<le> 6"
    "6 \<le> length (replicate 7 (0xAA :: u8))"
    by (simp_all add: plenty_def path_parts_def)
  from uri_roundtrip [OF hyps, of "[]"] show ?thesis
    unfolding uri out len .
qed

end
