(* ===== verification/Clib.thy ===== *)
theory Clib
  imports Prelude Complex_Main "HOL-Library.Log_Nat"
begin

text \<open>
  Of the standard library of C what the program uses to convert numbers to text and back: \<open>sprintf\<close> with \<open>%d\<close> and \<open>%f\<close>,
  \<open>strtod\<close>, and the conversion of a double to an integer.

  A double is a sign and a magnitude, exact, with \<open>None\<close> for infinity; the results are rounded to 53 bits, to the nearest
  and in the middle to the even one. Texts are lists of bytes.
\<close>

abbreviation ascii :: "string \<Rightarrow> u8 list" where
  "ascii s \<equiv> map of_char s"

section \<open>Doubles\<close>

datatype double = Double (negative: bool) (magnitude: "rat option")

definition round_half_even :: "rat \<Rightarrow> int" where
  "round_half_even x =
     (let k = \<lfloor>x\<rfloor>; d = x - of_int k in if d < 1 / 2 \<or> d = 1 / 2 \<and> even k then k else k + 1)"

text \<open>The exponent of the greatest power of two that is not above a positive number.\<close>

definition exponent2 :: "rat \<Rightarrow> int" where
  "exponent2 x =
     (let (n, d) = quotient_of x; k = int (floorlog 2 (nat n)) - int (floorlog 2 (nat d))
      in if 2 powi k \<le> x then k else k - 1)"

definition round_double :: "rat \<Rightarrow> rat option" where
  "round_double x =
     (if x = 0 then Some 0
      else
        let e = max (exponent2 x - 52) (- 1074); r = of_int (round_half_even (x / 2 powi e)) * 2 powi e
        in if r < 2 ^ 1024 then Some r else None)"

text \<open>Conversion to an integer of 32 bits, towards zero; undefined if it does not fit.\<close>

definition double_to_int :: "double \<Rightarrow> u32 option" where
  "double_to_int x =
     do { m \<leftarrow> magnitude x;
          let k = (if negative x then - \<lfloor>m\<rfloor> else \<lfloor>m\<rfloor>);
          if - (2 ^ 31) \<le> k \<and> k < 2 ^ 31 then Some (word_of_int k) else None }"

section \<open>Printing\<close>

fun decimal :: "nat \<Rightarrow> u8 list" where
  "decimal n = (if n < 10 then [of_nat (48 + n)] else decimal (n div 10) @ [of_nat (48 + n mod 10)])"

declare decimal.simps [simp del]

definition sprintf_d :: "u32 \<Rightarrow> u8 list" where
  "sprintf_d w = (if sint w < 0 then 45 # decimal (nat (- sint w)) else decimal (nat (sint w)))"

definition sprintf_f :: "double \<Rightarrow> u8 list" where
  "sprintf_f x = (if negative x then [45] else []) @
     (case magnitude x of
        None \<Rightarrow> ascii ''inf''
      | Some m \<Rightarrow>
          let n = nat (round_half_even (m * 10 ^ 6)); frac = decimal (n mod 10 ^ 6)
          in decimal (n div 10 ^ 6) @ [46] @ replicate (6 - length frac) 48 @ frac)"

text \<open>Writing a text with its terminator into a buffer of a size; beyond its end is undefined.\<close>

definition into_buffer :: "nat \<Rightarrow> u8 list \<Rightarrow> u8 list option" where
  "into_buffer n s = (if length s < n then Some s else None)"

section \<open>Reading\<close>

definition is_digit :: "u8 \<Rightarrow> bool" where
  "is_digit c = (48 \<le> c \<and> c \<le> 57)"

definition number :: "u8 list \<Rightarrow> nat" where
  "number ds = foldl (\<lambda>n c. 10 * n + (unat c - 48)) 0 ds"

definition sign :: "u8 list \<Rightarrow> bool \<times> u8 list" where
  "sign s = (if s \<noteq> [] \<and> hd s = 45 then (True, tl s) else if s \<noteq> [] \<and> hd s = 43 then (False, tl s) else (False, s))"

text \<open>
  The value of the longest beginning that is a number, and how many characters it has. Leading space, hexadecimal
  numbers and names are left out: the program only converts texts of digits, signs, points and the letter e.
\<close>

definition strtod :: "u8 list \<Rightarrow> double \<times> nat" where
  "strtod s =
     (let (neg, r) = sign s;
          ip = takeWhile is_digit r; r = dropWhile is_digit r;
          point = (r \<noteq> [] \<and> hd r = 46);
          fp = (if point then takeWhile is_digit (tl r) else []);
          r = (if point then dropWhile is_digit (tl r) else r)
      in if ip = [] \<and> fp = [] then (Double False (Some 0), 0)
         else
           let (e, r) =
             (if r \<noteq> [] \<and> (hd r = 101 \<or> hd r = 69)
              then let (eneg, er) = sign (tl r); ds = takeWhile is_digit er
                in if ds = [] then (0, r)
                   else (if eneg then - int (number ds) else int (number ds), dropWhile is_digit er)
              else (0, r))
           in (Double neg (round_double (of_nat (number (ip @ fp)) * 10 powi (e - int (length fp)))), length s - length r))"

section \<open>Integers survive\<close>

lemma round_int [simp]: "round_half_even (of_int k) = k"
  by (simp add: round_half_even_def)

lemma exponent_int:
  assumes "0 < n" "n < 2 ^ 53"
  shows "0 \<le> exponent2 (of_nat n)" "exponent2 (of_nat n) \<le> 52"
proof -
  have q: "quotient_of (of_nat n) = (int n, 1)"
    using quotient_of_int [of "int n"] by simp
  have b: "2 ^ (floorlog 2 n - 1) \<le> n" "floorlog 2 n \<le> 53" "0 < floorlog 2 n"
    using floorlog_bounds [of n 2] assms floorlog_leD floorlog_le_iff [of 2 n 53] by (auto simp: floorlog_def)
  have one: "floorlog 2 (Suc 0) = Suc 0"
    by (simp add: floorlog_def)
  have "exponent2 (of_nat n) = (let k = int (floorlog 2 n) - 1 in if 2 powi k \<le> (of_nat n :: rat) then k else k - 1)"
    by (simp add: exponent2_def q one)
  moreover have "(2 :: rat) powi (int (floorlog 2 n) - 1) \<le> of_nat n"
  proof -
    have "int (floorlog 2 n) - 1 = int (floorlog 2 n - 1)"
      using b(3) by linarith
    then have "(2 :: rat) powi (int (floorlog 2 n) - 1) = of_nat (2 ^ (floorlog 2 n - 1))"
      by (simp only: power_int_of_nat of_nat_power of_nat_numeral)
    then show ?thesis
      using b(1) by (simp only: of_nat_le_iff)
  qed
  ultimately have "exponent2 (of_nat n) = int (floorlog 2 n) - 1"
    by (simp add: Let_def)
  with b show "0 \<le> exponent2 (of_nat n)" "exponent2 (of_nat n) \<le> 52"
    by simp_all
qed

lemma round_double_nat:
  assumes "n < 2 ^ 53"
  shows "round_double (of_nat n) = Some (of_nat n)"
proof (cases "n = 0")
  case False
  let ?e = "exponent2 (of_nat n) - 52"
  from exponent_int [OF _ assms] False have e: "?e \<le> 0" "- 52 \<le> ?e"
    by auto
  have "(of_nat n :: rat) / 2 powi ?e = of_int (int n * 2 ^ nat (- ?e))"
  proof -
    have "?e = - int (nat (- ?e))"
      using e(1) by simp
    then have "(2 :: rat) powi ?e = inverse (2 ^ nat (- ?e))"
      by (metis power_int_minus power_int_of_nat)
    then show ?thesis
      by (simp only: divide_inverse inverse_inverse_eq of_int_mult of_int_of_nat_eq of_int_power of_int_numeral)
  qed
  then have "of_int (round_half_even (of_nat n / 2 powi ?e)) * 2 powi ?e = (of_nat n / 2 powi ?e :: rat) * 2 powi ?e"
    by (simp only: round_int)
  moreover have "\<dots> = of_nat n"
    by simp
  moreover have "(of_nat n :: rat) < 2 ^ 1024"
  proof -
    have "(of_nat n :: rat) < of_nat (2 ^ 53)"
      using assms by (simp only: of_nat_less_iff)
    also have "\<dots> = 2 ^ 53"
      by (simp only: of_nat_power of_nat_numeral)
    also have "\<dots> \<le> (2 :: rat) ^ 1024"
      by (rule power_increasing) simp_all
    finally show ?thesis .
  qed
  ultimately show ?thesis
    using False e by (simp add: round_double_def Let_def)
qed (simp add: round_double_def)

text \<open>The text of an integer: its digits, and that it is read back.\<close>

lemma digit_of_nat:
  assumes "d < 10"
  shows "is_digit (of_nat (48 + d)) \<and> unat (of_nat (48 + d) :: u8) = 48 + d"
proof -
  have "unat (of_nat (48 + d) :: u8) = 48 + d"
    using assms by (simp add: unat_of_nat del: of_nat_add)
  then show ?thesis
    using assms by (simp add: is_digit_def word_le_nat_alt)
qed

lemma number_snoc: "number (ds @ [c]) = 10 * number ds + (unat c - 48)"
  by (simp add: number_def)

lemma decimal_number: "number (decimal n) = n \<and> (\<forall>c\<in>set (decimal n). is_digit c) \<and> decimal n \<noteq> []"
proof (induction n rule: decimal.induct)
  case (1 n)
  show ?case
  proof (cases "n < 10")
    case True
    then show ?thesis
      using digit_of_nat [of n] by (simp add: decimal.simps [of n] number_def)
  next
    case False
    then show ?thesis
      using 1 digit_of_nat [of "n mod 10"] by (simp add: decimal.simps [of n] number_snoc)
  qed
qed

lemma is_digit_simps [simp]: "\<not> is_digit 45" "\<not> is_digit 43" "\<not> is_digit 46" "\<not> is_digit 101" "\<not> is_digit 69"
  by (simp_all add: is_digit_def)

lemma digits_taken [simp]:
  "\<forall>c\<in>set ds. is_digit c \<Longrightarrow> takeWhile is_digit ds = ds" "\<forall>c\<in>set ds. is_digit c \<Longrightarrow> dropWhile is_digit ds = []"
  by (simp_all add: takeWhile_eq_all_conv)

lemma strtod_digits:
  assumes "\<forall>c\<in>set ds. is_digit c" "ds \<noteq> []" "number ds < 2 ^ 53"
  shows "strtod ds = (Double False (Some (of_nat (number ds))), length ds)"
    "strtod (45 # ds) = (Double True (Some (of_nat (number ds))), Suc (length ds))"
proof -
  have "hd ds \<noteq> 45" "hd ds \<noteq> 43"
    using assms(1,2) hd_in_set [of ds] by (metis is_digit_simps(1), metis is_digit_simps(2))
  then have "sign ds = (False, ds)" "sign (45 # ds) = (True, ds)"
    by (simp_all add: sign_def)
  then show "strtod ds = (Double False (Some (of_nat (number ds))), length ds)"
    "strtod (45 # ds) = (Double True (Some (of_nat (number ds))), Suc (length ds))"
    using assms by (simp_all add: strtod_def Let_def round_double_nat)
qed

lemma int_roundtrip:
  "strtod (sprintf_d w) = (Double (sint w < 0) (Some (of_nat (nat \<bar>sint w\<bar>))), length (sprintf_d w))"
  "double_to_int (Double (sint w < 0) (Some (of_nat (nat \<bar>sint w\<bar>)))) = Some w"
proof -
  have r: "- (2 ^ 31) \<le> sint w" "sint w < 2 ^ 31"
    using sint_greater_eq [of w] sint_less [of w] by simp_all
  then have "nat \<bar>sint w\<bar> < 2 ^ 53"
    by (simp add: nat_less_iff)
  moreover have "nat \<bar>sint w\<bar> = (if sint w < 0 then nat (- sint w) else nat (sint w))"
    by simp
  ultimately show "strtod (sprintf_d w) = (Double (sint w < 0) (Some (of_nat (nat \<bar>sint w\<bar>))), length (sprintf_d w))"
    using decimal_number strtod_digits by (simp add: sprintf_d_def)
  show "double_to_int (Double (sint w < 0) (Some (of_nat (nat \<bar>sint w\<bar>)))) = Some w"
  proof -
    have "\<lfloor>of_nat (nat \<bar>sint w\<bar>) :: rat\<rfloor> = \<bar>sint w\<bar>"
      by (simp only: floor_of_nat)
    then have "(if sint w < 0 then - \<lfloor>of_nat (nat \<bar>sint w\<bar>) :: rat\<rfloor> else \<lfloor>of_nat (nat \<bar>sint w\<bar>) :: rat\<rfloor>) = sint w"
      by (simp only:) arith
    with r show ?thesis
      unfolding double_to_int_def double.sel bind.simps Let_def by (simp del: of_nat_nat)
  qed
qed

lemma sprintf_d_digits: "c \<in> set (sprintf_d w) \<Longrightarrow> is_digit c \<or> c = 45"
  using decimal_number by (auto simp: sprintf_d_def split: if_splits)

lemma sprintf_d_hd: "sprintf_d w \<noteq> []"
  using decimal_number by (simp add: sprintf_d_def)

end
