(* ===== verification/Json.thy ===== *)
theory Json
  imports Clib Fw_Update
begin

text \<open>
  JSON values (\<open>MbedJSONValue\<close>): the class with its copies and accesses, the serializer, and the parser.

  A value owns its elements and members, so it is a tree; it has a type, a union, an array of elements and an array of
  named members, which are independent of each other (\<open>index_array\<close> and \<open>index_token\<close> are the lengths of the lists).
  \<open>Undef\<close> is a union that has not been written, whose string has been deleted, or that holds a double out of the range of
  an integer. A reference is an index into the list, or \<open>None\<close> for the new object that is returned, and lost, if there is
  none. Characters are bytes; the end of the input, -1, is \<open>None\<close>.
\<close>

section \<open>Values\<close>

definition NB_TOKEN :: nat where "NB_TOKEN = 20"

datatype Type = TypeNull | TypeBoolean | TypeInt | TypeDouble | TypeString | TypeArray | TypeObject

datatype uvalue = Undef | AsBool bool | AsInt u32 | AsDouble double | AsString "u8 list"

datatype json = JSON (jtype: Type) (uval: uvalue) (elems: "json list") (toks: "(u8 list \<times> json) list")

definition json_null :: json where "json_null = JSON TypeNull Undef [] []"
definition json_bool :: "bool \<Rightarrow> json" where "json_bool b = JSON TypeBoolean (AsBool b) [] []"
definition json_int :: "u32 option \<Rightarrow> json" where
  "json_int n = JSON TypeInt (case n of None \<Rightarrow> Undef | Some n \<Rightarrow> AsInt n) [] []"
definition json_double :: "double \<Rightarrow> json" where "json_double d = JSON TypeDouble (AsDouble d) [] []"
definition json_string :: "u8 list \<Rightarrow> json" where "json_string s = JSON TypeString (AsString s) [] []"

definition strcmp_eq :: "u8 list \<Rightarrow> u8 list \<Rightarrow> bool" where
  "strcmp_eq a b = (c_str a = c_str b)"

definition clean :: "json \<Rightarrow> json" where
  "clean j =
     (case jtype j of
        TypeString \<Rightarrow> JSON TypeNull Undef (elems j) (toks j)
      | TypeArray \<Rightarrow> JSON TypeNull (uval j) [] (toks j)
      | TypeObject \<Rightarrow> JSON TypeNull (uval j) (elems j) []
      | _ \<Rightarrow> JSON TypeNull (uval j) (elems j) (toks j))"

definition hasMember :: "u8 list \<Rightarrow> json \<Rightarrow> bool" where
  "hasMember name j = list_ex (\<lambda>(n, _). strcmp_eq name n) (toks j)"

text \<open>Access by an index or a name (\<open>operator[]\<close>), which creates the element or member; then reading and writing it.\<close>

definition index_array :: "nat \<Rightarrow> json \<Rightarrow> nat option \<times> json" where
  "index_array i j =
     (if i < NB_TOKEN \<and> length (elems j) = i then (Some i, JSON TypeArray (uval j) (elems j @ [json_null]) (toks j))
      else if i < NB_TOKEN \<and> i < length (elems j) then (Some i, JSON TypeArray (uval j) (elems j) (toks j))
      else (None, JSON TypeArray (uval j) (elems j) (toks j)))"

fun find_token :: "u8 list \<Rightarrow> (u8 list \<times> 'a) list \<Rightarrow> nat option" where
  "find_token k [] = None"
| "find_token k ((n, _) # ts) = (if strcmp_eq k n then Some 0 else map_option Suc (find_token k ts))"

definition index_token :: "u8 list \<Rightarrow> json \<Rightarrow> nat \<times> json" where
  "index_token k j =
     (case find_token k (toks j) of
        Some i \<Rightarrow> (i, JSON TypeObject (uval j) (elems j) (toks j))
      | None \<Rightarrow>
          let ts = (if NB_TOKEN \<le> length (toks j) then take (NB_TOKEN - 1) (toks j) else toks j)
          in (length ts, JSON TypeObject (uval j) (elems j) (ts @ [(k, json_null)])))"

definition elem_at :: "nat option \<Rightarrow> json \<Rightarrow> json" where
  "elem_at r j = (case r of None \<Rightarrow> json_null | Some i \<Rightarrow> elems j ! i)"

definition set_elem :: "nat option \<Rightarrow> json \<Rightarrow> json \<Rightarrow> json" where
  "set_elem r x j = (case r of None \<Rightarrow> j | Some i \<Rightarrow> JSON (jtype j) (uval j) ((elems j)[i := x]) (toks j))"

definition token_at :: "nat \<Rightarrow> json \<Rightarrow> json" where
  "token_at i j = snd (toks j ! i)"

definition set_token :: "nat \<Rightarrow> json \<Rightarrow> json \<Rightarrow> json" where
  "set_token i x j = JSON (jtype j) (uval j) (elems j) ((toks j)[i := (fst (toks j ! i), x)])"

text \<open>The member of a union is read whatever the type is; \<open>None\<close> if another one has been written.\<close>

definition get_bool :: "json \<Rightarrow> bool option" where
  "get_bool j = (case uval j of AsBool b \<Rightarrow> Some b | _ \<Rightarrow> None)"

definition get_int :: "json \<Rightarrow> u32 option" where
  "get_int j = (case uval j of AsInt n \<Rightarrow> Some n | _ \<Rightarrow> None)"

definition get_double :: "json \<Rightarrow> double option" where
  "get_double j = (case uval j of AsDouble d \<Rightarrow> Some d | _ \<Rightarrow> None)"

definition get_string :: "json \<Rightarrow> u8 list option" where
  "get_string j = (case uval j of AsString s \<Rightarrow> Some s | _ \<Rightarrow> None)"

definition json_size :: "json \<Rightarrow> int option" where
  "json_size j =
     (case jtype j of
        TypeString \<Rightarrow> map_option (\<lambda>s. int (length s)) (get_string j)
      | TypeArray \<Rightarrow> Some (int (length (elems j)))
      | TypeObject \<Rightarrow> Some (int (length (toks j)))
      | _ \<Rightarrow> Some (- 1))"

text \<open>
  Copying (\<open>operator=\<close>) into another object. After the elements of an array the members are copied as well: the case
  has no \<open>break\<close>. What is read for a name is the first member with that name.
\<close>

fun assign_elems :: "nat \<Rightarrow> (json \<Rightarrow> json) list \<Rightarrow> json \<Rightarrow> json" where
  "assign_elems i [] out = out"
| "assign_elems i (a # as) out =
     (let (r, out) = index_array i out in assign_elems (i + 1) as (set_elem r (a (elem_at r out)) out))"

fun assign_tokens :: "(u8 list \<times> (json \<Rightarrow> json)) list \<Rightarrow> u8 list list \<Rightarrow> json \<Rightarrow> json" where
  "assign_tokens all [] out = out"
| "assign_tokens all (k # ks) out =
     (let (i, out) = index_token k out;
          a = (case find_token k all of Some m \<Rightarrow> snd (all ! m) | None \<Rightarrow> (\<lambda>out. out))
      in assign_tokens all ks (set_token i (a (token_at i out)) out))"

fun assign :: "json \<Rightarrow> json \<Rightarrow> json" where
  "assign (JSON t v es ts) out =
     (let out = clean out;
          out = JSON t (if t \<in> {TypeBoolean, TypeInt, TypeDouble, TypeString} then v else uval out) (elems out) (toks out);
          out = (if t = TypeArray then assign_elems 0 (map assign es) out else out)
      in if t = TypeArray \<or> t = TypeObject
         then assign_tokens (map (\<lambda>(k, e). (k, assign e)) ts) (map fst ts) out else out)"

declare assign.simps [simp del]

section \<open>Serializing\<close>

definition hex_digit :: "u8 \<Rightarrow> u8" where
  "hex_digit x = (if x < 10 then 48 + x else 87 + x)"

definition escape :: "u8 \<Rightarrow> u8 list" where
  "escape c =
     (if c = 34 \<or> c = 92 \<or> c = 47 then [92, c]
      else if c = 8 then [92, 98]
      else if c = 12 then [92, 102]
      else if c = 10 then [92, 110]
      else if c = 13 then [92, 114]
      else if c = 9 then [92, 116]
      else if c < 32 \<or> c = 127 then [92, 117, 48, 48, hex_digit (drop_bit 4 c), hex_digit (c AND 15)]
      else [c])"

definition serialize_str :: "u8 list \<Rightarrow> u8 list" where
  "serialize_str s = [34] @ concat (map escape s) @ [34]"

text \<open>Numbers are printed into ten bytes. For other types the null pointer is returned as a string, which is undefined.\<close>

definition to_str :: "json \<Rightarrow> u8 list option" where
  "to_str j =
     (case jtype j of
        TypeNull \<Rightarrow> Some (ascii ''null'')
      | TypeBoolean \<Rightarrow> map_option (\<lambda>b. if b then ascii ''true'' else ascii ''false'') (get_bool j)
      | TypeInt \<Rightarrow> do { n \<leftarrow> get_int j; into_buffer 10 (sprintf_d n) }
      | TypeDouble \<Rightarrow> do { d \<leftarrow> get_double j; into_buffer 10 (sprintf_f d) }
      | _ \<Rightarrow> None)"

fun commas :: "u8 list list \<Rightarrow> u8 list" where
  "commas [] = []"
| "commas [x] = x"
| "commas (x # y # zs) = x @ [44] @ commas (y # zs)"

fun serialize :: "json \<Rightarrow> u8 list option" where
  "serialize (JSON t v es ts) =
     (if t = TypeString then map_option serialize_str (get_string (JSON t v es ts))
      else if t = TypeArray then map_option (\<lambda>xs. [91] @ commas xs @ [93]) (those (map serialize es))
      else if t = TypeObject
      then map_option (\<lambda>xs. [123] @ commas xs @ [125])
        (those (map (\<lambda>(k, e). map_option (\<lambda>x. serialize_str k @ [58] @ x) (serialize e)) ts))
      else to_str (JSON t v es ts))"

section \<open>Input\<close>

record input =
  cur_rest :: "u8 list"
  last_ch :: "u8 option"
  ungot :: bool
  line_no :: nat

definition new_input :: "u8 list \<Rightarrow> input" where
  "new_input s = \<lparr>cur_rest = s, last_ch = None, ungot = False, line_no = 1\<rparr>"

definition getc :: "input \<Rightarrow> u8 option \<times> input" where
  "getc inp =
     (if ungot inp then (last_ch inp, inp\<lparr>ungot := False\<rparr>)
      else case cur_rest inp of
        [] \<Rightarrow> (None, inp\<lparr>last_ch := None\<rparr>)
      | c # cs \<Rightarrow> (Some c, inp\<lparr>line_no := (if last_ch inp = Some 10 then line_no inp + 1 else line_no inp), cur_rest := cs, last_ch := Some c\<rparr>))"

definition ungetc :: "input \<Rightarrow> input" where
  "ungetc inp = (if last_ch inp \<noteq> None then inp\<lparr>ungot := True\<rparr> else inp)"

text \<open>The characters that are still to be read.\<close>

definition ahead :: "input \<Rightarrow> u8 list" where
  "ahead inp = (if ungot inp then (case last_ch inp of None \<Rightarrow> [] | Some c \<Rightarrow> [c]) else []) @ cur_rest inp"

lemma getc_shorter: "getc inp = (Some c, inp') \<Longrightarrow> ahead inp = c # ahead inp'"
  by (auto simp: getc_def ahead_def split: if_splits list.splits)

function skip_ws :: "input \<Rightarrow> input" where
  "skip_ws inp =
     (let (ch, inp) = getc inp
      in if ch = Some 32 \<or> ch = Some 9 \<or> ch = Some 10 \<or> ch = Some 13 then skip_ws inp else ungetc inp)"
  by pat_completeness auto
termination
  by (relation "measure (\<lambda>inp. length (ahead inp))") (auto dest: getc_shorter [OF sym])

declare skip_ws.simps [simp del]

definition expect :: "u8 \<Rightarrow> input \<Rightarrow> bool \<times> input" where
  "expect c inp = (let inp = skip_ws inp; (ch, inp) = getc inp in if ch \<noteq> Some c then (False, ungetc inp) else (True, inp))"

fun match :: "u8 list \<Rightarrow> input \<Rightarrow> bool \<times> input" where
  "match [] inp = (True, inp)"
| "match (p # ps) inp = (let (ch, inp) = getc inp in if ch \<noteq> Some p then (False, ungetc inp) else match ps inp)"

section \<open>Parsing\<close>

definition unescape :: "u8 \<Rightarrow> u8 option" where
  "unescape c =
     (if c = 34 \<or> c = 92 \<or> c = 47 then Some c
      else if c = 98 then Some 8
      else if c = 102 then Some 12
      else if c = 110 then Some 10
      else if c = 114 then Some 13
      else if c = 116 then Some 9
      else None)"

function string_loop :: "u8 list \<Rightarrow> input \<Rightarrow> bool \<times> u8 list \<times> input" where
  "string_loop s inp =
     (let (ch, inp) = getc inp
      in case ch of
           None \<Rightarrow> (False, s, ungetc inp)
         | Some c \<Rightarrow>
             if c < 32 then (False, s, ungetc inp)
             else if c = 34 then (True, s, inp)
             else if c = 92
             then
               let (ch, inp) = getc inp
               in case ch of
                    None \<Rightarrow> (False, s, inp)
                  | Some e \<Rightarrow> (case unescape e of None \<Rightarrow> (False, s, inp) | Some v \<Rightarrow> string_loop (s @ [v]) inp)
             else string_loop (s @ [c]) inp)"
  by pat_completeness auto
termination
  by (relation "measure (\<lambda>(_, inp). length (ahead inp))") (auto dest!: getc_shorter [OF sym])

declare string_loop.simps [simp del]

definition parse_string :: "json \<Rightarrow> input \<Rightarrow> bool \<times> json \<times> input" where
  "parse_string out inp =
     (let out = assign (json_string []) out; (ok, s, inp) = string_loop [] inp
      in (ok, JSON (jtype out) (AsString s) (elems out) (toks out), inp))"

definition number_char :: "u8 \<Rightarrow> bool" where
  "number_char c = (is_digit c \<or> c = 43 \<or> c = 45 \<or> c = 46 \<or> c = 101 \<or> c = 69)"

function number_loop :: "u8 list \<Rightarrow> input \<Rightarrow> u8 list \<times> input" where
  "number_loop s inp =
     (let (ch, inp) = getc inp
      in case ch of
           None \<Rightarrow> (s, ungetc inp)
         | Some c \<Rightarrow> if number_char c then number_loop (s @ [c]) inp else (s, ungetc inp))"
  by pat_completeness auto
termination
  by (relation "measure (\<lambda>(_, inp). length (ahead inp))") (auto dest!: getc_shorter [OF sym])

declare number_loop.simps [simp del]

definition parse_number :: "json \<Rightarrow> input \<Rightarrow> bool \<times> json \<times> input" where
  "parse_number out inp =
     (let (s, inp) = number_loop [] inp; (d, n) = strtod s;
          v = (if 46 \<in> set s \<or> 101 \<in> set s \<or> 43 \<in> set s then json_double d else json_int (double_to_int d))
      in (n = length s, assign v out, inp))"

text \<open>
  The parser of a value, of an array, of its elements from an index on, of an object, and of its members:
  \<open>_parse\<close>, \<open>_parse_array\<close> and its loop, \<open>_parse_object\<close> and its loop.
\<close>

datatype production = Value | Array | Elements nat | Object | Members

partial_function (option) parse_run :: "production \<Rightarrow> json \<Rightarrow> input \<Rightarrow> (bool \<times> json \<times> input) option" where
  "parse_run what out inp =
     (case what of
        Value \<Rightarrow>
          (let (ch, inp) = getc (skip_ws inp)
           in if ch = Some 110
              then let (ok, inp) = match (ascii ''ull'') inp in Some (ok, if ok then assign json_null out else out, inp)
              else if ch = Some 102
              then let (ok, inp) = match (ascii ''alse'') inp in Some (ok, if ok then assign (json_bool False) out else out, inp)
              else if ch = Some 116
              then let (ok, inp) = match (ascii ''rue'') inp in Some (ok, if ok then assign (json_bool True) out else out, inp)
              else if ch = Some 34 then Some (parse_string out inp)
              else if ch = Some 91 then parse_run Array out inp
              else if ch = Some 123 then parse_run Object out inp
              else if (case ch of None \<Rightarrow> False | Some c \<Rightarrow> is_digit c \<or> c = 45) then Some (parse_number out (ungetc inp))
              else Some (False, out, ungetc inp))
      | Array \<Rightarrow> (let (found, inp) = expect 93 inp in if found then Some (True, out, inp) else parse_run (Elements 0) out inp)
      | Elements i \<Rightarrow>
          (let (r, out) = index_array i out
           in do { (ok, x, inp) \<leftarrow> parse_run Value (elem_at r out) inp;
                   let out = set_elem r x out;
                   if \<not> ok then Some (False, out, inp)
                   else let (more, inp) = expect 44 inp
                     in if more then parse_run (Elements (i + 1)) out inp
                        else let (found, inp) = expect 93 inp in Some (found, out, inp) })
      | Object \<Rightarrow> (let (found, inp) = expect 125 inp in if found then Some (True, out, inp) else parse_run Members out inp)
      | Members \<Rightarrow>
          (let (quote, inp) = expect 34 inp
           in if \<not> quote then Some (False, out, inp)
              else
                let (ok, key, inp) = parse_string json_null inp
                in if \<not> ok then Some (False, out, inp)
                   else
                     let (colon, inp) = expect 58 inp
                     in if \<not> colon then Some (False, out, inp)
                        else do {
                          (ok, val, inp) \<leftarrow> parse_run Value json_null inp;
                          if \<not> ok then Some (False, out, inp)
                          else do {
                            k \<leftarrow> get_string key;
                            let (i, out) = index_token (c_str k) out;
                            let out = set_token i (assign val (token_at i out)) out;
                            let (more, inp) = expect 44 inp;
                            if more then parse_run Members out inp
                            else let (found, inp) = expect 125 inp in Some (found, out, inp) } }))"

declare parse_run.simps [code]

text \<open>
  The text begins at some place of the memory and ends with a zero byte, beyond the end of the memory undefined. The
  result is the message for the first syntax error, with the rest of its line; what follows the value is not looked at.
\<close>

function error_loop :: "u8 list \<Rightarrow> input \<Rightarrow> u8 list" where
  "error_loop err inp =
     (let (ch, inp) = getc inp
      in case ch of
           None \<Rightarrow> err
         | Some c \<Rightarrow> if c = 10 then err else error_loop (if 32 \<le> c then err @ [c] else err) inp)"
  by pat_completeness auto
termination
  by (relation "measure (\<lambda>(_, inp). length (ahead inp))") (auto dest!: getc_shorter [OF sym])

declare error_loop.simps [simp del]

definition parse :: "json \<Rightarrow> u8 list \<Rightarrow> (u8 list \<times> json) option" where
  "parse out mem =
     (if 0 \<notin> set mem then None
      else do {
        (ok, out, inp) \<leftarrow> parse_run Value out (new_input (c_str mem));
        Some (if ok then [] else error_loop (ascii ''syntax error at line '' @ decimal (line_no inp) @ ascii '' near: '') inp, out) })"

end
