(* ===== verification/Json_Parse.thy ===== *)
theory Json_Parse
  imports Json
begin

text \<open>
  The parser in terms of the characters ahead: what each reading function takes from them (\<open>reads\<close>), that the parser
  ends with a well-typed value on every text, and that it reads what the serializer writes.
\<close>

section \<open>Reading characters\<close>

definition reads :: "input \<Rightarrow> u8 list \<Rightarrow> bool" where
  "reads inp s = ((ungot inp \<longrightarrow> last_ch inp \<noteq> None) \<and> ahead inp = s)"

abbreviation is_ws :: "u8 \<Rightarrow> bool" where
  "is_ws c \<equiv> c = 32 \<or> c = 9 \<or> c = 10 \<or> c = 13"

lemma reads_new: "reads (new_input s) s"
  by (simp add: reads_def new_input_def ahead_def)

lemma getc_reads:
  assumes "reads inp (c # s)"
  obtains inp' where "getc inp = (Some c, inp')" "reads inp' s" "reads (ungetc inp') (c # s)"
  using assms by (cases "ungot inp"; cases "last_ch inp"; cases "cur_rest inp")
    (auto simp: reads_def ahead_def getc_def ungetc_def)

lemma getc_end:
  assumes "reads inp []"
  obtains inp' where "getc inp = (None, inp')" "reads inp' []" "reads (ungetc inp') []"
  using assms by (cases "ungot inp"; cases "last_ch inp"; cases "cur_rest inp")
    (auto simp: reads_def ahead_def getc_def ungetc_def)

lemma skip_ws_reads: "reads inp s \<Longrightarrow> reads (skip_ws inp) (dropWhile is_ws s)"
proof (induction s arbitrary: inp)
  case Nil
  then obtain inp' where "getc inp = (None, inp')" "reads (ungetc inp') []"
    by (rule getc_end)
  then show ?case
    by (simp add: skip_ws.simps [of inp])
next
  case (Cons c s)
  from Cons.prems obtain inp' where "getc inp = (Some c, inp')" "reads inp' s" "reads (ungetc inp') (c # s)"
    by (rule getc_reads)
  with Cons.IH show ?case
    by (simp add: skip_ws.simps [of inp])
qed

text \<open>What \<open>expect\<close> finds, and what is left.\<close>

definition after :: "u8 \<Rightarrow> u8 list \<Rightarrow> bool \<times> u8 list" where
  "after c s = (case dropWhile is_ws s of [] \<Rightarrow> (False, []) | d # r \<Rightarrow> if d = c then (True, r) else (False, d # r))"

lemma expect_reads:
  assumes "reads inp s"
  obtains inp' where "expect c inp = (fst (after c s), inp')" "reads inp' (snd (after c s))"
proof (cases "dropWhile is_ws s")
  case Nil
  from skip_ws_reads [OF assms] Nil have "reads (skip_ws inp) []"
    by simp
  then obtain inp' where "getc (skip_ws inp) = (None, inp')" "reads (ungetc inp') []"
    by (rule getc_end)
  moreover have "after c s = (False, [])"
    by (simp only: after_def Nil list.case)
  ultimately show ?thesis
    using that by (simp add: expect_def)
next
  case (Cons d r)
  from skip_ws_reads [OF assms] Cons have "reads (skip_ws inp) (d # r)"
    by simp
  then obtain inp' where "getc (skip_ws inp) = (Some d, inp')" "reads inp' r" "reads (ungetc inp') (d # r)"
    by (rule getc_reads)
  moreover have "after c s = (if d = c then (True, r) else (False, d # r))"
    by (simp only: after_def Cons list.case)
  ultimately show ?thesis
    using that by (cases "d = c") (simp_all add: expect_def)
qed

lemma after_shorter: "length (snd (after c s)) \<le> length s \<and> (fst (after c s) \<longrightarrow> length (snd (after c s)) < length s)"
  using length_dropWhile_le [of is_ws s] by (auto simp: after_def split: list.splits)

lemma after_found [simp]: "\<not> is_ws c \<Longrightarrow> after c (c # s) = (True, s)"
  by (simp add: after_def)

lemma after_other [simp]: "\<not> is_ws d \<Longrightarrow> d \<noteq> c \<Longrightarrow> after c (d # s) = (False, d # s)"
  by (simp add: after_def)

lemma match_reads:
  assumes "reads inp s"
  obtains ok inp' t where "match ps inp = (ok, inp')" "reads inp' t" "length t \<le> length s"
    "s = ps @ r \<Longrightarrow> ok \<and> t = r"
proof -
  have "\<exists>ok inp' t. match ps inp = (ok, inp') \<and> reads inp' t \<and> length t \<le> length s \<and> (s = ps @ r \<longrightarrow> ok \<and> t = r)"
    using assms
  proof (induction ps arbitrary: inp s)
    case (Cons p ps)
    show ?case
    proof (cases s)
      case Nil
      with Cons.prems have "reads inp []"
        by simp
      then obtain inp' where "getc inp = (None, inp')" "reads (ungetc inp') []"
        by (rule getc_end)
      with Nil show ?thesis
        by auto
    next
      case (Cons d s')
      with Cons.prems have "reads inp (d # s')"
        by simp
      then obtain inp' where g: "getc inp = (Some d, inp')" "reads inp' s'" "reads (ungetc inp') (d # s')"
        by (rule getc_reads)
      show ?thesis
      proof (cases "d = p")
        case True
        from Cons.IH [OF g(2)] g(1) True Cons show ?thesis
          by (auto intro: le_SucI)
      next
        case False
        with g Cons show ?thesis
          by auto
      qed
    qed
  qed auto
  with that show ?thesis
    by blast
qed

section \<open>Strings and numbers\<close>

lemma string_loop_reads:
  assumes "reads inp s"
  shows "\<exists>ok t inp' r. string_loop acc inp = (ok, t, inp') \<and> reads inp' r \<and> length r \<le> length s"
  using assms
proof (induction "length s" arbitrary: acc inp s rule: less_induct)
  case less
  show ?case
  proof (cases s)
    case Nil
    with less.prems have "reads inp []"
      by simp
    then obtain inp' where "getc inp = (None, inp')" "reads (ungetc inp') []"
      by (rule getc_end)
    then show ?thesis
      by (auto simp: string_loop.simps [of acc inp])
  next
    case (Cons c s')
    with less.prems have "reads inp (c # s')"
      by simp
    then obtain inp' where g: "getc inp = (Some c, inp')" "reads inp' s'" "reads (ungetc inp') (c # s')"
      by (rule getc_reads)
    note step = string_loop.simps [of acc inp, unfolded g(1) Let_def prod.case option.case]
    have ih: "\<exists>ok t i r'. string_loop a i0 = (ok, t, i) \<and> reads i r' \<and> length r' \<le> length s" if "reads i0 r0" "length r0 < length s" for a i0 r0
      using less.hyps [OF that(2,1)] that(2) by (meson less_imp_le order.trans)
    consider "c < 32" | "\<not> c < 32" "c = 34" | "\<not> c < 32" "c = 92" | "\<not> c < 32" "c \<noteq> 34" "c \<noteq> 92"
      by blast
    then show ?thesis
    proof cases
      case 1
      with step g(3) Cons show ?thesis
        by auto
    next
      case 2
      with step g(2) Cons show ?thesis
        by auto
    next
      case 3
      show ?thesis
      proof (cases s')
        case Nil
        with g(2) have "reads inp' []"
          by simp
        then obtain i2 where "getc inp' = (None, i2)" "reads i2 []"
          by (rule getc_end)
        with step 3 show ?thesis
          by auto
      next
        case (Cons e s2)
        with g(2) have "reads inp' (e # s2)"
          by simp
        then obtain i2 where e: "getc inp' = (Some e, i2)" "reads i2 s2"
          by (rule getc_reads)
        have "length s2 < length s"
          using \<open>s = c # s'\<close> Cons by simp
        with ih [OF e(2)] e step 3 show ?thesis
          by (cases "unescape e") auto
      qed
    next
      case 4
      with step ih [OF g(2)] Cons show ?thesis
        by simp
    qed
  qed
qed

lemma number_loop_reads: "reads inp s \<Longrightarrow> \<exists>inp'. number_loop acc inp = (acc @ takeWhile number_char s, inp') \<and> reads inp' (dropWhile number_char s)"
proof (induction s arbitrary: acc inp)
  case Nil
  then obtain inp' where "getc inp = (None, inp')" "reads (ungetc inp') []"
    by (rule getc_end)
  then show ?case
    by (simp add: number_loop.simps [of acc inp])
next
  case (Cons c s)
  from Cons.prems obtain inp' where "getc inp = (Some c, inp')" "reads inp' s" "reads (ungetc inp') (c # s)"
    by (rule getc_reads)
  with Cons.IH [of inp' "acc @ [c]"] show ?case
    by (simp add: number_loop.simps [of acc inp])
qed

section \<open>Well-typed values\<close>

text \<open>
  The union holds what the type says (a number out of the range of an integer leaves it unspecified), only an array has elements and only an object has members, of which there are at
  most \<open>NB_TOKEN\<close>, with different names.
\<close>

fun well_typed :: "json \<Rightarrow> bool" where
  "well_typed (JSON t v es ts) =
     ((t \<noteq> TypeArray \<longrightarrow> es = []) \<and> (t \<noteq> TypeObject \<longrightarrow> ts = []) \<and>
      (t = TypeBoolean \<longrightarrow> (\<exists>b. v = AsBool b)) \<and> (t = TypeInt \<longrightarrow> v = Undef \<or> (\<exists>n. v = AsInt n)) \<and>
      (t = TypeDouble \<longrightarrow> (\<exists>d. v = AsDouble d)) \<and> (t = TypeString \<longrightarrow> (\<exists>s. v = AsString s)) \<and>
      length es \<le> NB_TOKEN \<and> (\<forall>e\<in>set es. well_typed e) \<and>
      length ts \<le> NB_TOKEN \<and> distinct (map (c_str \<circ> fst) ts) \<and> (\<forall>p\<in>set ts. well_typed (snd p)))"

text \<open>The union is not written where it is not used, as in an object that has not been reused.\<close>

fun fresh_union :: "json \<Rightarrow> bool" where
  "fresh_union (JSON t v es ts) =
     ((t \<in> {TypeNull, TypeArray, TypeObject} \<longrightarrow> v = Undef) \<and> (\<forall>e\<in>set es. fresh_union e) \<and> (\<forall>p\<in>set ts. fresh_union (snd p)))"

lemma well_typed_new [simp]:
  "well_typed json_null" "well_typed (json_bool b)" "well_typed (json_int n)" "well_typed (json_double d)" "well_typed (json_string s)"
  by (simp_all add: json_null_def json_bool_def json_int_def json_double_def json_string_def split: option.split)

lemma index_array_next:
  "length es < NB_TOKEN \<Longrightarrow> index_array (length es) (JSON t u es ts) = (Some (length es), JSON TypeArray u (es @ [json_null]) ts)"
  by (simp add: index_array_def)

lemma index_array_full: "length es = NB_TOKEN \<Longrightarrow> NB_TOKEN \<le> i \<Longrightarrow> index_array i (JSON t u es ts) = (None, JSON TypeArray u es ts)"
  by (simp add: index_array_def)

lemma elem_last [simp]:
  "elem_at (Some (length es)) (JSON t u (es @ [x]) ts) = x"
  "set_elem (Some (length es)) y (JSON t u (es @ [x]) ts) = JSON t u (es @ [y]) ts"
  by (simp_all add: elem_at_def set_elem_def)

lemma elem_lost [simp]: "elem_at None j = json_null" "set_elem None x j = j"
  by (simp_all add: elem_at_def set_elem_def)

lemma find_token_None: "find_token k ts = None \<longleftrightarrow> c_str k \<notin> c_str ` fst ` set ts"
proof (induction ts)
  case (Cons p ts)
  then show ?case
    by (cases p) (simp add: strcmp_eq_def)
qed simp

lemma find_token_Some: "find_token k ts = Some i \<Longrightarrow> i < length ts \<and> c_str (fst (ts ! i)) = c_str k"
  by (induction ts arbitrary: i) (auto simp: strcmp_eq_def split: if_splits)

lemma find_token_distinct: "distinct (map (c_str \<circ> fst) ts) \<Longrightarrow> i < length ts \<Longrightarrow> find_token (fst (ts ! i)) ts = Some i"
proof (induction ts arbitrary: i)
  case (Cons p ts)
  show ?case
  proof (cases i)
    case (Suc j)
    with Cons.prems have "ts ! j \<in> set ts" "(c_str \<circ> fst) p \<notin> (c_str \<circ> fst) ` set ts"
      by simp_all
    then have "c_str (fst (ts ! j)) \<noteq> c_str (fst p)"
      by (metis comp_apply imageI)
    with Cons Suc show ?thesis
      by (cases p) (simp add: strcmp_eq_def)
  qed (cases p, simp add: strcmp_eq_def)
qed simp

lemma index_token_next:
  assumes "c_str k \<notin> c_str ` fst ` set ts" "length ts < NB_TOKEN"
  shows "index_token k (JSON t u es ts) = (length ts, JSON TypeObject u es (ts @ [(k, json_null)]))"
  using assms find_token_None [of k ts] by (simp add: index_token_def)

lemma token_last [simp]:
  "token_at (length ts) (JSON t u es (ts @ [(k, x)])) = x"
  "set_token (length ts) y (JSON t u es (ts @ [(k, x)])) = JSON t u es (ts @ [(k, y)])"
  by (simp_all add: token_at_def set_token_def)

section \<open>Copies\<close>

text \<open>Copying the elements of an array, or the members of an object, one by one.\<close>

lemma assign_elems_eq:
  "length ds + length as \<le> NB_TOKEN \<Longrightarrow>
    assign_elems (length ds) as (JSON t u ds ts) = JSON (if as = [] then t else TypeArray) u (ds @ map (\<lambda>a. a json_null) as) ts"
proof (induction as arbitrary: ds t)
  case (Cons a as)
  have "assign_elems (length ds) (a # as) (JSON t u ds ts) = assign_elems (length (ds @ [a json_null])) as (JSON TypeArray u (ds @ [a json_null]) ts)"
    using Cons.prems by (simp add: index_array_next)
  also have "\<dots> = JSON TypeArray u ((ds @ [a json_null]) @ map (\<lambda>a. a json_null) as) ts"
    using Cons.IH [of "ds @ [a json_null]" TypeArray] Cons.prems by simp
  finally show ?case
    by simp
qed simp

lemma assign_tokens_eq:
  assumes "distinct (map (c_str \<circ> fst) (ds @ ts))" "length (ds @ ts) \<le> NB_TOKEN"
    "\<forall>p\<in>set as. find_token (fst p) all \<noteq> None \<and> snd (all ! the (find_token (fst p) all)) = snd p"
    "ts = map (\<lambda>p. (fst p, snd p json_null)) as"
  shows "assign_tokens all (map fst as) (JSON t u es ds) = JSON (if as = [] then t else TypeObject) u es (ds @ ts)"
  using assms
proof (induction as arbitrary: ds t ts)
  case (Cons p as)
  obtain k a where p: "p = (k, a)"
    by (cases p)
  let ?ts = "map (\<lambda>p. (fst p, snd p json_null)) as"
  have "c_str k \<notin> c_str ` fst ` set ds" "length ds < NB_TOKEN"
    using Cons.prems(1,2,4) by (auto simp: p image_iff)
  with index_token_next have i: "index_token k (JSON t u es ds) = (length ds, JSON TypeObject u es (ds @ [(k, json_null)]))"
    by simp
  from Cons.prems(3) obtain m where m: "find_token k all = Some m" "snd (all ! m) = a"
    by (auto simp: p)
  have "assign_tokens all (map fst (p # as)) (JSON t u es ds) = assign_tokens all (map fst as) (JSON TypeObject u es (ds @ [(k, a json_null)]))"
    by (simp add: p i m)
  also have "\<dots> = JSON TypeObject u es ((ds @ [(k, a json_null)]) @ ?ts)"
    using Cons.IH [of "ds @ [(k, a json_null)]" ?ts TypeObject] Cons.prems by (simp add: p)
  finally show ?case
    using Cons.prems(4) by (simp add: p)
qed simp

lemma copies:
  assumes "distinct (map (c_str \<circ> fst) ts)" "p \<in> set ts"
  shows "find_token (fst p) ts \<noteq> None \<and> snd (ts ! the (find_token (fst p) ts)) = snd p"
proof -
  from assms(2) obtain i where i: "i < length ts" "ts ! i = p"
    by (auto simp: in_set_conv_nth)
  with find_token_distinct [OF assms(1) i(1)] show ?thesis
    by simp
qed

lemma clean_typed: "well_typed e \<Longrightarrow> elems (clean e) = [] \<and> toks (clean e) = []"
  by (cases e; cases "jtype e") (auto simp: clean_def)

text \<open>Copying a well-typed value over another one: elements and members are copied into new objects.\<close>

lemma assign_eq:
  assumes "well_typed (JSON t v es ts)" "well_typed e"
  shows "assign (JSON t v es ts) e = JSON t (if t \<in> {TypeBoolean, TypeInt, TypeDouble, TypeString} then v else uval (clean e))
    (map (\<lambda>x. assign x json_null) es) (map (\<lambda>p. (fst p, assign (snd p) json_null)) ts)"
proof -
  let ?u = "if t \<in> {TypeBoolean, TypeInt, TypeDouble, TypeString} then v else uval (clean e)"
  let ?all = "map (\<lambda>(k, e). (k, assign e)) ts" and ?ts = "map (\<lambda>p. (fst p, assign (snd p) json_null)) ts"
  have c: "elems (clean e) = []" "toks (clean e) = []"
    using clean_typed [OF assms(2)] by simp_all
  have d: "distinct (map (c_str \<circ> fst) ts)" "length ts \<le> NB_TOKEN" "length es \<le> NB_TOKEN"
    using assms(1) by simp_all
  have fst: "map (c_str \<circ> fst) ?all = map (c_str \<circ> fst) ts" "map fst ?all = map fst ts"
    by (auto simp: comp_def)
  have e: "assign_elems 0 (map assign es) (JSON t ?u [] []) = JSON (if es = [] then t else TypeArray) ?u (map (\<lambda>x. assign x json_null) es) []"
    using assign_elems_eq [of "[]" "map assign es"] d(3) by (simp add: comp_def)
  have o1: "assign_tokens ?all (map fst ts) (JSON t ?u [] []) = JSON (if ts = [] then t else TypeObject) ?u [] ?ts"
   proof -
    have "assign_tokens ?all (map fst ?all) (JSON t ?u [] []) = JSON (if ?all = [] then t else TypeObject) ?u [] ([] @ ?ts)"
    proof (rule assign_tokens_eq)
      show "\<forall>p\<in>set ?all. find_token (fst p) ?all \<noteq> None \<and> snd (?all ! the (find_token (fst p) ?all)) = snd p"
        using copies [of ?all] d(1) unfolding fst by blast
    qed (use d(1,2) in \<open>simp_all add: comp_def case_prod_unfold\<close>)
    then show ?thesis
      unfolding fst by simp
  qed
  consider "t = TypeArray" "ts = []" | "t = TypeObject" "es = []" | "t \<noteq> TypeArray" "t \<noteq> TypeObject" "es = []" "ts = []"
    using assms(1) by auto
  then show ?thesis
  proof cases
    case 1
    then show ?thesis
      using e by (simp add: assign.simps Let_def c)
  next
    case 2
    then show ?thesis
      using o1 by (simp add: assign.simps Let_def c)
  qed (simp add: assign.simps Let_def c)
qed

lemma snd_in_snds: "snd p \<in> Basic_BNFs.snds p"
  by (cases p) (simp add: prod_set_simps)

lemma names_of_copies: "c_str \<circ> fst \<circ> (\<lambda>p. (fst p, g p)) = c_str \<circ> fst"
  by (simp add: fun_eq_iff)

lemma assign_typed: "well_typed v \<Longrightarrow> well_typed e \<Longrightarrow> well_typed (assign v e)"
proof (induction v arbitrary: e)
  case (JSON t v es ts)
  have "\<forall>x\<in>set es. well_typed (assign x json_null)" "\<forall>p\<in>set ts. well_typed (assign (snd p) json_null)"
    using JSON.IH(1) JSON.IH(2) JSON.prems(1) by (auto simp: prod_set_simps)
  then show ?case
    using JSON.prems by (simp add: assign_eq [OF JSON.prems] names_of_copies)
qed

text \<open>The copy into a new object is the value itself.\<close>

lemma assign_new: "well_typed v \<Longrightarrow> fresh_union v \<Longrightarrow> assign v json_null = v"
proof (induction v)
  case (JSON t v es ts)
  have "map (\<lambda>x. assign x json_null) es = es" "map (\<lambda>p. (fst p, assign (snd p) json_null)) ts = ts"
  proof -
    have "assign x json_null = x" if "x \<in> set es" for x
      using JSON.IH(1) [OF that] JSON.prems that by simp
    then show "map (\<lambda>x. assign x json_null) es = es"
      by (intro map_idI)
    have "assign (snd p) json_null = snd p" if "p \<in> set ts" for p
    proof -
      have "well_typed (snd p)" "fresh_union (snd p)"
        using JSON.prems that by auto
      with JSON.IH(2) [OF that snd_in_snds] show ?thesis .
    qed
    then show "map (\<lambda>p. (fst p, assign (snd p) json_null)) ts = ts"
      by (intro map_idI) (simp add: prod_eq_iff)
  qed
  moreover have "uval (clean json_null) = Undef"
    by (simp add: clean_def json_null_def)
  moreover have "t \<notin> {TypeBoolean, TypeInt, TypeDouble, TypeString} \<Longrightarrow> v = Undef"
    using JSON.prems(2) by (cases t) auto
  ultimately show ?case
    using assign_eq [OF JSON.prems(1) well_typed_new(1)] by (simp)
qed

section \<open>Every text\<close>

lemma parse_string_reads:
  assumes "reads inp s"
  shows "\<exists>ok t inp' r. parse_string out inp = (ok, t, inp') \<and> reads inp' r \<and> length r \<le> length s \<and> get_string t \<noteq> None \<and>
    (well_typed out \<longrightarrow> well_typed t)"
proof -
  from string_loop_reads [OF assms, of "[]"] obtain ok t inp' r where l: "string_loop [] inp = (ok, t, inp')" "reads inp' r" "length r \<le> length s"
    by blast
  have "well_typed (assign (json_string []) out) \<and> jtype (assign (json_string []) out) = TypeString" if "well_typed out"
    using that assign_typed [of "json_string []" out] assign_eq [of TypeString "AsString []" "[]" "[]" out] by (simp add: json_string_def)
  moreover have "well_typed (JSON (jtype x) (AsString t) (elems x) (toks x))" if "well_typed x" "jtype x = TypeString" for x t
    using that by (cases x) simp
  ultimately show ?thesis
    using l by (auto simp: parse_string_def get_string_def Let_def)
qed

lemma parse_number_reads:
  assumes "reads inp s"
  shows "\<exists>ok t inp' r. parse_number out inp = (ok, t, inp') \<and> reads inp' r \<and> length r \<le> length s \<and> (well_typed out \<longrightarrow> well_typed t)"
proof -
  from number_loop_reads [OF assms, of "[]"] obtain inp' where l: "number_loop [] inp = (takeWhile number_char s, inp')"
      "reads inp' (dropWhile number_char s)"
    by auto
  show ?thesis
    using l length_dropWhile_le [of number_char s] by (auto simp: parse_number_def assign_typed split: prod.split)
qed

text \<open>What a production starts from, for its result to be well typed.\<close>

fun start_typed :: "production \<Rightarrow> json \<Rightarrow> bool" where
  "start_typed (Elements i) out = (well_typed out \<and> toks out = [] \<and> length (elems out) = min i NB_TOKEN)"
| "start_typed Members out = (well_typed out \<and> elems out = [])"
| "start_typed _ out = (well_typed out \<and> elems out = [] \<and> toks out = [])"

definition good_run :: "production \<Rightarrow> json \<Rightarrow> input \<Rightarrow> u8 list \<Rightarrow> bool" where
  "good_run what out inp s =
     (\<exists>ok v inp' r. parse_run what out inp = Some (ok, v, inp') \<and> reads inp' r \<and> length r \<le> length s \<and> (start_typed what out \<longrightarrow> well_typed v))"

lemma good_runI:
  "parse_run what out inp = Some (ok, v, inp') \<Longrightarrow> reads inp' r \<Longrightarrow> length r \<le> length s \<Longrightarrow> (start_typed what out \<Longrightarrow> well_typed v) \<Longrightarrow>
    good_run what out inp s"
  unfolding good_run_def by blast

lemma good_run_step:
  assumes "parse_run w out inp = parse_run w' out' inp'" "good_run w' out' inp' r" "length r \<le> length s"
    "start_typed w out \<Longrightarrow> start_typed w' out'"
  shows "good_run w out inp s"
  using assms unfolding good_run_def by (metis order.trans)

lemma good_value:
  assumes "reads inp s" "\<And>w inp' r. w = Array \<or> w = Object \<Longrightarrow> reads inp' r \<Longrightarrow> length r < length s \<Longrightarrow> good_run w out inp' r"
  shows "good_run Value out inp s"
proof -
  note r = skip_ws_reads [OF assms(1)] and l = length_dropWhile_le [of is_ws s]
  show ?thesis
  proof (cases "dropWhile is_ws s")
    case Nil
    with r have "reads (skip_ws inp) []"
      by simp
    then obtain inp' where "getc (skip_ws inp) = (None, inp')" "reads (ungetc inp') []"
      by (rule getc_end)
    then show ?thesis
      by (intro good_runI [of _ _ _ False out "ungetc inp'" "[]"]) (simp_all add: parse_run.simps [of Value])
  next
    case (Cons c s')
    with r have "reads (skip_ws inp) (c # s')"
      by simp
    then obtain inp' where g: "getc (skip_ws inp) = (Some c, inp')" "reads inp' s'" "reads (ungetc inp') (c # s')"
      by (rule getc_reads)
    have len: "length s' < length s" "length (c # s') \<le> length s"
      using l Cons by simp_all
    note step = parse_run.simps [of Value out inp, unfolded production.case g(1) Let_def prod.case option.case]
    have word: "good_run Value out inp s" if "parse_run Value out inp = (let (ok, i) = match ps inp' in Some (ok, if ok then assign v out else out, i))"
      "well_typed v" for ps v
    proof -
      from g(2) obtain ok i t where "match ps inp' = (ok, i)" "reads i t" "length t \<le> length s'"
        by (rule match_reads)
      with that len show ?thesis
        by (intro good_runI [of _ _ _ ok "if ok then assign v out else out" i t]) (auto simp: assign_typed)
    qed
    consider "c = 110" | "c = 102" | "c = 116" | "c = 34" | "c = 91" | "c = 123" | "c \<notin> {110, 102, 116, 34, 91, 123}" "is_digit c \<or> c = 45"
      | "c \<notin> {110, 102, 116, 34, 91, 123}" "\<not> (is_digit c \<or> c = 45)"
      by blast
    then show ?thesis
    proof cases
      case 1
      then show ?thesis
        by (intro word [of "ascii ''ull''" json_null]) (simp_all add: step)
    next
      case 2
      then show ?thesis
        by (intro word [of "ascii ''alse''" "json_bool False"]) (simp_all add: step)
    next
      case 3
      then show ?thesis
        by (intro word [of "ascii ''rue''" "json_bool True"]) (simp_all add: step)
    next
      case 4
      with step parse_string_reads [OF g(2), of out] len show ?thesis
        by (auto intro!: good_runI)
    next
      case 5
      with step assms(2) [OF _ g(2) len(1), of Array] len show ?thesis
        by (fastforce simp: good_run_def)
    next
      case 6
      with step assms(2) [OF _ g(2) len(1), of Object] len show ?thesis
        by (fastforce simp: good_run_def)
    next
      case 7
      with step parse_number_reads [OF g(3), of out] len show ?thesis
        by (auto intro!: good_runI)
    next
      case 8
      with step g(3) len show ?thesis
        by (intro good_runI [of _ _ _ False out "ungetc inp'" "c # s'"]) auto
    qed
  qed
qed

lemma good_elements:
  assumes "reads inp s" "\<And>x inp' r. reads inp' r \<Longrightarrow> length r \<le> length s \<Longrightarrow> good_run Value x inp' r"
    "\<And>x inp' r. reads inp' r \<Longrightarrow> length r < length s \<Longrightarrow> good_run (Elements (i + 1)) x inp' r"
  shows "good_run (Elements i) out inp s"
proof -
  obtain q out1 where ia: "index_array i out = (q, out1)"
    by (cases "index_array i out")
  have "elem_at q out1 = json_null \<Longrightarrow> start_typed Value (elem_at q out1)"
    by (simp add: json_null_def)
  with assms(2) [OF assms(1) order.refl, of "elem_at q out1"] obtain ok x inp1 r1 where
    v: "parse_run Value (elem_at q out1) inp = Some (ok, x, inp1)" "reads inp1 r1" "length r1 \<le> length s"
      "elem_at q out1 = json_null \<Longrightarrow> well_typed x"
    unfolding good_run_def by blast
  have typed: "start_typed (Elements (i + 1)) (set_elem q x out1) \<and> well_typed (set_elem q x out1)" if "start_typed (Elements i) out"
  proof -
    obtain t u es ts where out: "out = JSON t u es ts"
      by (cases out)
    show ?thesis
    proof (cases "i < NB_TOKEN")
      case True
      then have len: "length es = i"
        using that by (simp add: out)
      with True ia index_array_next [of es t u ts] have q: "q = Some (length es)" "out1 = JSON TypeArray u (es @ [json_null]) ts"
        by (simp_all add: out)
      from v(4) have "well_typed x"
        by (simp only: q elem_last)
      then show ?thesis
        using that True len unfolding q elem_last by (simp add: out)
    next
      case False
      then have len: "length es = NB_TOKEN"
        using that by (simp add: out)
      with False ia index_array_full [of es i t u ts] have q: "q = None" "out1 = JSON TypeArray u es ts"
        by (simp_all add: out)
      show ?thesis
        using that False len unfolding q elem_lost by (simp add: out)
    qed
  qed
  note step = parse_run.simps [of "Elements i" out inp, unfolded production.case ia Let_def prod.case v(1) bind.simps]
  show ?thesis
  proof (cases ok)
    case False
    with step v typed show ?thesis
      by (intro good_runI [of _ _ _ False "set_elem q x out1" inp1 r1]) auto
  next
    case True
    from v(2) obtain inp2 where c: "expect 44 inp1 = (fst (after 44 r1), inp2)" "reads inp2 (snd (after 44 r1))"
      by (rule expect_reads)
    from c(2) obtain inp3 where d: "expect 93 inp2 = (fst (after 93 (snd (after 44 r1))), inp3)"
        "reads inp3 (snd (after 93 (snd (after 44 r1))))"
      by (rule expect_reads)
    show ?thesis
    proof (cases "fst (after 44 r1)")
      case True
      with after_shorter [of 44 r1] v(3) have len: "length (snd (after 44 r1)) < length s"
        by linarith
      show ?thesis
      proof (rule good_run_step [OF _ assms(3) [OF c(2) len]])
        show "parse_run (Elements i) out inp = parse_run (Elements (i + 1)) (set_elem q x out1) inp2"
          using step c(1) True \<open>ok\<close> by simp
      qed (use typed len in auto)
    next
      case False
      have "length (snd (after 93 (snd (after 44 r1)))) \<le> length s"
        using after_shorter [of 44 r1] after_shorter [of 93 "snd (after 44 r1)"] v(3) by linarith
      with False \<open>ok\<close> step c d typed show ?thesis
        by (intro good_runI [of _ _ _ "fst (after 93 (snd (after 44 r1)))" "set_elem q x out1" inp3]) auto
    qed
  qed
qed


text \<open>A member is put into an object: replaced, added, or, if the object is full, put in the place of the last one.\<close>

lemma token_put:
  assumes "well_typed out" "elems out = []" "well_typed v" "index_token k out = (i, out1)"
  shows "well_typed (set_token i (assign v (token_at i out1)) out1) \<and> elems (set_token i (assign v (token_at i out1)) out1) = []"
proof -
  obtain t u es ts where out: "out = JSON t u es ts"
    by (cases out)
  show ?thesis
  proof (cases "find_token k ts")
    case (Some m)
    with assms(4) have i: "i = m" "out1 = JSON TypeObject u es ts"
      by (simp_all add: index_token_def out)
    have m: "m < length ts"
      using find_token_Some [OF Some] by simp
    then have "well_typed (assign v (snd (ts ! m)))"
      using assms(1,3) by (intro assign_typed) (auto simp: out)
    moreover have "map (c_str \<circ> fst) (ts[m := (fst (ts ! m), x)]) = map (c_str \<circ> fst) ts" for x
      using m by (simp add: map_update list_update_same_conv)
    ultimately show ?thesis
      using assms(1,2) m by (auto simp: i out set_token_def token_at_def dest: set_update_subset_insert [THEN subsetD])
  next
    case None
    let ?ts = "if NB_TOKEN \<le> length ts then take (NB_TOKEN - 1) ts else ts"
    from assms(4) None have i: "i = length ?ts" "out1 = JSON TypeObject u es (?ts @ [(k, json_null)])"
      by (cases "NB_TOKEN \<le> length ts"; simp add: index_token_def out Let_def)+
    have sub: "set ?ts \<subseteq> set ts" "length ?ts < NB_TOKEN"
      using assms(1) by (auto simp: out NB_TOKEN_def dest: in_set_takeD)
    have "distinct (map (c_str \<circ> fst) ?ts)"
      using assms(1) by (simp add: out take_map [symmetric])
    moreover have "c_str k \<notin> (c_str \<circ> fst) ` set ?ts"
      using None sub(1) find_token_None [of k ts] by (auto simp: image_image)
    moreover have "well_typed (assign v json_null)"
      using assms(3) by (rule assign_typed) simp
    ultimately show ?thesis
      using assms(1,2) sub unfolding i token_last by (auto simp: out)
  qed
qed

lemma good_members:
  assumes "reads inp s" "\<And>inp' r. reads inp' r \<Longrightarrow> length r < length s \<Longrightarrow> good_run Value json_null inp' r"
    "\<And>x inp' r. reads inp' r \<Longrightarrow> length r < length s \<Longrightarrow> good_run Members x inp' r"
  shows "good_run Members out inp s"
proof -
  let ?r1 = "snd (after 34 s)"
  from assms(1) obtain inp1 where q: "expect 34 inp = (fst (after 34 s), inp1)" "reads inp1 ?r1"
    by (rule expect_reads)
  note step1 = parse_run.simps [of Members out inp, unfolded production.case q(1) Let_def prod.case]
  show ?thesis
  proof (cases "fst (after 34 s)")
    case False
    with step1 q(2) after_shorter [of 34 s] show ?thesis
      by (intro good_runI [of _ _ _ False out inp1 ?r1]) auto
  next
    case quote: True
    with after_shorter [of 34 s] have l1: "length ?r1 < length s"
      by blast
    from parse_string_reads [OF q(2), of json_null] obtain ok key inp2 r2 k where
      k: "parse_string json_null inp1 = (ok, key, inp2)" "reads inp2 r2" "length r2 \<le> length ?r1" "get_string key = Some k"
      by auto
    let ?r3 = "snd (after 58 r2)"
    from k(2) obtain inp3 where c: "expect 58 inp2 = (fst (after 58 r2), inp3)" "reads inp3 ?r3"
      by (rule expect_reads)
    have l3: "length ?r3 < length s" "length r2 \<le> length s"
      using after_shorter [of 58 r2] k(3) l1 by linarith+
    show ?thesis
    proof (cases "ok \<and> fst (after 58 r2)")
      case False
      show ?thesis
      proof (cases ok)
        case True
        with False step1 quote k c l3 show ?thesis
          by (intro good_runI [of _ _ _ False out inp3 ?r3]) auto
      next
        case False
        with step1 quote k l3 show ?thesis
          by (intro good_runI [of _ _ _ False out inp2 r2]) auto
      qed
    next
      case colon: True
      from assms(2) [OF c(2) l3(1)] obtain ok4 val inp4 r4 where
        v: "parse_run Value json_null inp3 = Some (ok4, val, inp4)" "reads inp4 r4" "length r4 \<le> length ?r3"
          "start_typed Value json_null \<longrightarrow> well_typed val"
        unfolding good_run_def by blast
      have val: "well_typed val"
        using v(4) by (simp add: json_null_def)
      obtain i out1 where it: "index_token (c_str k) out = (i, out1)"
        by (cases "index_token (c_str k) out")
      let ?out = "set_token i (assign val (token_at i out1)) out1" and ?r5 = "snd (after 44 r4)"
      from v(2) obtain inp5 where m: "expect 44 inp4 = (fst (after 44 r4), inp5)" "reads inp5 ?r5"
        by (rule expect_reads)
      from m(2) obtain inp6 where e: "expect 125 inp5 = (fst (after 125 ?r5), inp6)" "reads inp6 (snd (after 125 ?r5))"
        by (rule expect_reads)
      have l5: "length ?r5 < length s" "length (snd (after 125 ?r5)) \<le> length s" "length r4 \<le> length s"
        using after_shorter [of 44 r4] after_shorter [of 125 ?r5] v(3) l3 by linarith+
      have typed: "start_typed Members ?out \<and> well_typed ?out" if "start_typed Members out"
        using that token_put [of out val "c_str k" i out1] val it by simp
      have step: "parse_run Members out inp = (if \<not> ok4 then Some (False, out, inp4)
          else if fst (after 44 r4) then parse_run Members ?out inp5 else Some (fst (after 125 ?r5), ?out, inp6))"
        using step1 quote k(1,4) c(1) colon v(1) it m(1) e(1) by (simp add: Let_def)
      consider "\<not> ok4" | "ok4" "fst (after 44 r4)" | "ok4" "\<not> fst (after 44 r4)"
        by blast
      then show ?thesis
      proof cases
        case 1
        with step v(2) l5(3) show ?thesis
          by (intro good_runI [of _ _ _ False out inp4 r4]) auto
      next
        case 2
        show ?thesis
        proof (rule good_run_step [OF _ assms(3) [OF m(2) l5(1)]])
          show "parse_run Members out inp = parse_run Members ?out inp5"
            using step 2 by simp
        qed (use typed l5(1) in auto)
      next
        case 3
        with step e(2) l5(2) typed show ?thesis
          by (intro good_runI [of _ _ _ "fst (after 125 ?r5)" ?out inp6 "snd (after 125 ?r5)"]) auto
      qed
    qed
  qed
qed

lemma good_bracket:
  assumes "reads inp s" "\<And>inp' r. reads inp' r \<Longrightarrow> length r \<le> length s \<Longrightarrow> good_run w' out inp' r"
    "w = Array \<and> w' = Elements 0 \<or> w = Object \<and> w' = Members"
  shows "good_run w out inp s"
proof -
  define c :: u8 where "c = (if w = Array then 93 else 125)"
  from assms(1) obtain inp1 where q: "expect c inp = (fst (after c s), inp1)" "reads inp1 (snd (after c s))"
    by (rule expect_reads)
  have l: "length (snd (after c s)) \<le> length s"
    using after_shorter [of c s] by blast
  have step: "parse_run w out inp = (if fst (after c s) then Some (True, out, inp1) else parse_run w' out inp1)"
    using assms(3) q(1) by (auto simp: parse_run.simps [of w] c_def)
  show ?thesis
  proof (cases "fst (after c s)")
    case True
    with step q(2) l assms(3) show ?thesis
      by (intro good_runI [of _ _ _ True out inp1 "snd (after c s)"]) auto
  next
    case False
    with step have "parse_run w out inp = parse_run w' out inp1"
      by simp
    then show ?thesis
      by (rule good_run_step [OF _ assms(2) [OF q(2) l] l]) (use assms(3) in auto)
  qed
qed

text \<open>Every production ends, on every text, and leaves a well-typed value.\<close>

fun production_rank :: "production \<Rightarrow> nat" where
  "production_rank Value = 0"
| "production_rank (Elements i) = 1"
| "production_rank Members = 1"
| "production_rank _ = 2"

lemma parse_run_good: "reads inp s \<Longrightarrow> good_run what out inp s"
proof (induction "3 * length s + production_rank what" arbitrary: what out inp s rule: less_induct)
  case less
  show ?case
  proof (cases what)
    case Value
    show ?thesis
      unfolding Value by (rule good_value [OF less.prems]) (auto intro!: less.hyps simp: Value)
  next
    case Array
    show ?thesis
      unfolding Array by (rule good_bracket [OF less.prems, of "Elements 0"]) (auto intro!: less.hyps simp: Array)
  next
    case (Elements i)
    show ?thesis
      unfolding Elements by (rule good_elements [OF less.prems]) (auto intro!: less.hyps simp: Elements)
  next
    case Object
    show ?thesis
      unfolding Object by (rule good_bracket [OF less.prems, of Members]) (auto intro!: less.hyps simp: Object)
  next
    case Members
    show ?thesis
      unfolding Members by (rule good_members [OF less.prems]) (auto intro!: less.hyps simp: Members)
  qed
qed

lemma parse_returns: "0 \<in> set mem \<Longrightarrow> \<exists>err v. parse out mem = Some (err, v) \<and> (well_typed out \<and> elems out = [] \<and> toks out = [] \<longrightarrow> well_typed v)"
  using parse_run_good [OF reads_new [of "c_str mem"], of Value out] by (auto simp: parse_def good_run_def)

section \<open>What has been written\<close>

text \<open>
  The values that survive: strings without the control characters that are written as \<open>\u\<close>, integers of at most nine
  characters, no doubles, no empty arrays or objects.
\<close>

definition plain_text :: "u8 list \<Rightarrow> bool" where
  "plain_text s = (\<forall>c\<in>set s. (32 \<le> c \<and> c \<noteq> 127) \<or> c \<in> {8, 9, 10, 12, 13})"

fun sendable :: "json \<Rightarrow> bool" where
  "sendable (JSON t v es ts) =
     (case t of
        TypeNull \<Rightarrow> True
      | TypeBoolean \<Rightarrow> True
      | TypeInt \<Rightarrow> (case v of AsInt n \<Rightarrow> length (sprintf_d n) < 10 | _ \<Rightarrow> False)
      | TypeDouble \<Rightarrow> False
      | TypeString \<Rightarrow> (case v of AsString s \<Rightarrow> plain_text s | _ \<Rightarrow> False)
      | TypeArray \<Rightarrow> es \<noteq> [] \<and> (\<forall>e\<in>set es. sendable e)
      | TypeObject \<Rightarrow> ts \<noteq> [] \<and> (\<forall>p\<in>set ts. plain_text (fst p) \<and> sendable (snd p)))"

definition accepts :: "production \<Rightarrow> json \<Rightarrow> u8 list \<Rightarrow> json \<Rightarrow> u8 list \<Rightarrow> bool" where
  "accepts what out s v r = (\<forall>inp. reads inp s \<longrightarrow> (\<exists>inp'. parse_run what out inp = Some (True, v, inp') \<and> reads inp' r))"

lemma plain_c_str: "plain_text s \<Longrightarrow> c_str s = s"
  unfolding c_str_def plain_text_def by (subst takeWhile_eq_all_conv) auto

lemma escape_plain:
  assumes "(32 \<le> c \<and> c \<noteq> 127) \<or> c \<in> {8, 9, 10, 12, 13 :: u8}"
  shows "(escape c = [c] \<and> \<not> c < 32 \<and> c \<noteq> 34 \<and> c \<noteq> 92) \<or> (\<exists>e. escape c = [92, e] \<and> unescape e = Some c)"
  using assms by (auto simp: escape_def unescape_def not_less)

lemma string_prefix:
  assumes "plain_text s" "reads inp (concat (map escape s) @ r)"
  shows "\<exists>inp'. string_loop acc inp = string_loop (acc @ s) inp' \<and> reads inp' r"
  using assms
proof (induction s arbitrary: acc inp)
  case (Cons c s)
  from Cons.prems(1) have s: "plain_text s"
    by (simp add: plain_text_def)
  from Cons.prems(1) escape_plain [of c]
  consider "escape c = [c]" "\<not> c < 32" "c \<noteq> 34" "c \<noteq> 92" | e where "escape c = [92, e]" "unescape e = Some c"
    by (auto simp: plain_text_def)
  then show ?case
  proof cases
    case 1
    with Cons.prems(2) have "reads inp (c # concat (map escape s) @ r)"
      by simp
    then obtain inp' where "getc inp = (Some c, inp')" "reads inp' (concat (map escape s) @ r)"
      by (rule getc_reads)
    with Cons.IH [OF s, of inp' "acc @ [c]"] 1 show ?thesis
      by (simp add: string_loop.simps [of acc inp])
  next
    case (2 e)
    with Cons.prems(2) have "reads inp (92 # e # concat (map escape s) @ r)"
      by simp
    then obtain i1 where i1: "getc inp = (Some 92, i1)" "reads i1 (e # concat (map escape s) @ r)"
      by (rule getc_reads)
    from i1(2) obtain i2 where "getc i1 = (Some e, i2)" "reads i2 (concat (map escape s) @ r)"
      by (rule getc_reads)
    with Cons.IH [OF s, of i2 "acc @ [c]"] i1 2 show ?thesis
      by (simp add: string_loop.simps [of acc inp])
  qed
qed auto

lemma string_written:
  assumes "plain_text s" "reads inp (concat (map escape s) @ [34] @ r)"
  shows "\<exists>inp'. string_loop acc inp = (True, acc @ s, inp') \<and> reads inp' r"
proof -
  from string_prefix [OF assms, of acc] obtain i1 where i1: "string_loop acc inp = string_loop (acc @ s) i1" "reads i1 (34 # r)"
    by auto
  from i1(2) obtain i2 where "getc i1 = (Some 34, i2)" "reads i2 r"
    by (rule getc_reads)
  with i1(1) show ?thesis
    by (simp add: string_loop.simps [of "acc @ s" i1])
qed

lemma parse_string_written:
  assumes "plain_text s" "reads inp (concat (map escape s) @ [34] @ r)"
  shows "\<exists>inp'. parse_string json_null inp = (True, json_string s, inp') \<and> reads inp' r"
proof -
  from string_written [OF assms, of "[]"] obtain inp' where "string_loop [] inp = (True, s, inp')" "reads inp' r"
    by auto
  moreover have "assign (json_string []) json_null = json_string []"
    by (rule assign_new) (simp_all add: json_string_def)
  ultimately show ?thesis
    by (simp add: parse_string_def json_string_def)
qed

lemma number_char_sprintf: "c \<in> set (sprintf_d n) \<Longrightarrow> number_char c"
  using sprintf_d_digits by (auto simp: number_char_def)

lemma parse_number_written:
  assumes "reads inp (sprintf_d n @ r)" "r = [] \<or> \<not> number_char (hd r)"
  shows "\<exists>inp'. parse_number json_null inp = (True, json_int (Some n), inp') \<and> reads inp' r"
proof -
  have "takeWhile number_char (sprintf_d n @ r) = sprintf_d n" "dropWhile number_char (sprintf_d n @ r) = r"
    using number_char_sprintf assms(2) by (cases r; simp add: takeWhile_append dropWhile_append)+
  with number_loop_reads [OF assms(1), of "[]"] obtain inp' where l: "number_loop [] inp = (sprintf_d n, inp')" "reads inp' r"
    by auto
  have "46 \<notin> set (sprintf_d n)" "101 \<notin> set (sprintf_d n)" "43 \<notin> set (sprintf_d n)"
    using sprintf_d_digits [of _ n] is_digit_simps by fastforce+
  moreover have "assign (json_int (Some n)) json_null = json_int (Some n)"
    by (rule assign_new) (simp_all add: json_int_def)
  ultimately show ?thesis
    using l int_roundtrip [of n] by (simp add: parse_number_def)
qed

text \<open>What may follow a value: after a number, something that is not part of it.\<close>

definition starts :: "u8 list \<Rightarrow> bool" where
  "starts s = (s \<noteq> [] \<and> \<not> is_ws (hd s) \<and> hd s \<noteq> 93)"

definition follows :: "json \<Rightarrow> u8 list \<Rightarrow> bool" where
  "follows v r = (jtype v = TypeInt \<longrightarrow> r = [] \<or> \<not> number_char (hd r))"

definition written :: "json \<Rightarrow> u8 list \<Rightarrow> bool" where
  "written v s = (serialize v = Some s \<and> starts s \<and> 0 \<notin> set s \<and> (\<forall>r. follows v r \<longrightarrow> accepts Value json_null (s @ r) v r))"

lemma follows_delimiter [simp]: "follows v (44 # r)" "follows v (93 # r)" "follows v (125 # r)"
  by (simp_all add: follows_def number_char_def is_digit_def)

lemma value_begins:
  assumes "reads inp (c # r)" "\<not> is_ws c"
  obtains inp' where "getc (skip_ws inp) = (Some c, inp')" "reads inp' r" "reads (ungetc inp') (c # r)"
  using skip_ws_reads [OF assms(1)] assms(2) by (auto elim: getc_reads)

lemma word_written:
  assumes "c = 110 \<and> ps = ascii ''ull'' \<and> v = json_null \<or> c = 102 \<and> ps = ascii ''alse'' \<and> v = json_bool False \<or>
    c = 116 \<and> ps = ascii ''rue'' \<and> v = json_bool True"
  shows "accepts Value json_null (c # ps @ r) v r"
  unfolding accepts_def
proof (intro allI impI)
  fix inp
  assume "reads inp (c # ps @ r)"
  moreover have "\<not> is_ws c"
    using assms by auto
  ultimately obtain inp' where g: "getc (skip_ws inp) = (Some c, inp')" "reads inp' (ps @ r)"
    by (rule value_begins)
  from g(2) obtain ok i t where m: "match ps inp' = (ok, i)" "reads i t" "ps @ r = ps @ r \<Longrightarrow> ok \<and> t = r"
    by (rule match_reads [where ps = ps and r = r]) blast
  have "assign v json_null = v"
    using assms by (intro assign_new) (auto simp: json_null_def json_bool_def)
  with g m show "\<exists>inp'. parse_run Value json_null inp = Some (True, v, inp') \<and> reads inp' r"
    using assms by (auto simp: parse_run.simps [of Value])
qed

lemma elements_written:
  assumes "list_all2 written es xs" "es \<noteq> []" "length ds + length es \<le> NB_TOKEN"
  shows "accepts (Elements (length ds)) (JSON t u ds ts) (commas xs @ 93 # r) (JSON TypeArray u (ds @ es) ts) r"
  using assms
proof (induction es arbitrary: xs ds t)
  case (Cons e es)
  then obtain x ys where xs: "xs = x # ys" "written e x" "list_all2 written es ys"
    by (auto simp: list_all2_Cons1)
  note ia = index_array_next [of ds t u ts]
  let ?rest = "if es = [] then 93 # r else 44 # commas ys @ 93 # r"
  have body: "commas xs @ 93 # r = x @ ?rest"
    using xs by (cases ys) auto
  show ?case
    unfolding accepts_def body
  proof (intro allI impI)
    fix inp
    assume "reads inp (x @ ?rest)"
    moreover have "accepts Value json_null (x @ ?rest) e ?rest"
      using xs(2) by (simp add: written_def)
    ultimately obtain inp1 where v: "parse_run Value json_null inp = Some (True, e, inp1)" "reads inp1 ?rest"
      unfolding accepts_def by blast
    from v(2) obtain inp2 where c: "expect 44 inp1 = (fst (after 44 ?rest), inp2)" "reads inp2 (snd (after 44 ?rest))"
      by (rule expect_reads)
    note step = parse_run.simps [of "Elements (length ds)" "JSON t u ds ts" inp]
    have len: "length ds < NB_TOKEN"
      using Cons.prems(3) by simp
    show "\<exists>inp'. parse_run (Elements (length ds)) (JSON t u ds ts) inp = Some (True, JSON TypeArray u (ds @ e # es) ts, inp') \<and> reads inp' r"
    proof (cases "es = []")
      case True
      from c(2) obtain inp3 where d: "expect 93 inp2 = (fst (after 93 (snd (after 44 ?rest))), inp3)"
          "reads inp3 (snd (after 93 (snd (after 44 ?rest))))"
        by (rule expect_reads)
      with True c step ia [OF len] v show ?thesis
        by simp
    next
      case False
      then have "accepts (Elements (length (ds @ [e]))) (JSON TypeArray u (ds @ [e]) ts) (commas ys @ 93 # r) (JSON TypeArray u ((ds @ [e]) @ es) ts) r"
        using Cons.prems(3) xs(3) by (intro Cons.IH) simp_all
      moreover have "reads inp2 (commas ys @ 93 # r)"
        using c(2) False by simp
      ultimately obtain inp' where "parse_run (Elements (length (ds @ [e]))) (JSON TypeArray u (ds @ [e]) ts) inp2 =
          Some (True, JSON TypeArray u ((ds @ [e]) @ es) ts, inp')" "reads inp' r"
        unfolding accepts_def by blast
      with False c step ia [OF len] v show ?thesis
        by simp
    qed
  qed
qed simp

text \<open>A member: its name, a colon, its value.\<close>

definition member_written :: "u8 list \<times> json \<Rightarrow> u8 list \<Rightarrow> bool" where
  "member_written p x = (\<exists>s. plain_text (fst p) \<and> written (snd p) s \<and> well_typed (snd p) \<and> fresh_union (snd p) \<and>
     x = serialize_str (fst p) @ [58] @ s)"

lemma members_written:
  assumes "list_all2 member_written ts xs" "ts \<noteq> []" "length ds + length ts \<le> NB_TOKEN" "distinct (map (c_str \<circ> fst) (ds @ ts))"
  shows "accepts Members (JSON t u es ds) (commas xs @ 125 # r) (JSON TypeObject u es (ds @ ts)) r"
  using assms
proof (induction ts arbitrary: xs ds t)
  case (Cons p ts)
  then obtain x ys where xs: "xs = x # ys" "member_written p x" "list_all2 member_written ts ys"
    by (auto simp: list_all2_Cons1)
  obtain k v where p: "p = (k, v)"
    by (cases p)
  from xs(2) obtain s where s: "plain_text k" "written v s" "assign v json_null = v" "x = serialize_str k @ [58] @ s"
    by (auto simp: member_written_def p assign_new)
  let ?rest = "if ts = [] then 125 # r else 44 # commas ys @ 125 # r"
  let ?t2 = "58 # s @ ?rest" and ?t1 = "concat (map escape k) @ [34] @ 58 # s @ ?rest"
  have body: "commas xs @ 125 # r = 34 # ?t1"
    using xs(1,3) s(4) by (cases ys) (auto simp: serialize_str_def)
  have it: "index_token (c_str k) (JSON t u es ds) = (length ds, JSON TypeObject u es (ds @ [(k, json_null)]))"
    using Cons.prems(3,4) plain_c_str [OF s(1)] by (subst plain_c_str [OF s(1)], intro index_token_next) (auto simp: p image_iff)
  show ?case
    unfolding accepts_def body
  proof (intro allI impI)
    fix inp
    assume "reads inp (34 # ?t1)"
    then obtain inp1 where q: "expect 34 inp = (fst (after 34 (34 # ?t1)), inp1)" "reads inp1 (snd (after 34 (34 # ?t1)))"
      by (rule expect_reads)
    then have "reads inp1 ?t1"
      by simp
    from parse_string_written [OF s(1) this] obtain inp2 where k: "parse_string json_null inp1 = (True, json_string k, inp2)" "reads inp2 ?t2"
      by blast
    from k(2) obtain inp3 where c: "expect 58 inp2 = (fst (after 58 ?t2), inp3)" "reads inp3 (snd (after 58 ?t2))"
      by (rule expect_reads)
    moreover have "accepts Value json_null (s @ ?rest) v ?rest"
      using s(2) by (simp add: written_def)
    ultimately obtain inp4 where v: "parse_run Value json_null inp3 = Some (True, v, inp4)" "reads inp4 ?rest"
      unfolding accepts_def by auto
    from v(2) obtain inp5 where m: "expect 44 inp4 = (fst (after 44 ?rest), inp5)" "reads inp5 (snd (after 44 ?rest))"
      by (rule expect_reads)
    have step: "parse_run Members (JSON t u es ds) inp =
        (if fst (after 44 ?rest) then parse_run Members (JSON TypeObject u es (ds @ [(k, v)])) inp5
         else let (found, i) = expect 125 inp5 in Some (found, JSON TypeObject u es (ds @ [(k, v)]), i))"
      using q(1) k(1) c(1) v(1) m(1) s(3) it
      by (simp add: parse_run.simps [of Members "JSON t u es ds" inp] get_string_def json_string_def)
    show "\<exists>inp'. parse_run Members (JSON t u es ds) inp = Some (True, JSON TypeObject u es (ds @ p # ts), inp') \<and> reads inp' r"
    proof (cases "ts = []")
      case True
      from m(2) obtain inp6 where e: "expect 125 inp5 = (fst (after 125 (snd (after 44 ?rest))), inp6)"
          "reads inp6 (snd (after 125 (snd (after 44 ?rest))))"
        by (rule expect_reads)
      with True step p show ?thesis
        by simp
    next
      case False
      then have "accepts Members (JSON TypeObject u es (ds @ [(k, v)])) (commas ys @ 125 # r) (JSON TypeObject u es ((ds @ [(k, v)]) @ ts)) r"
        using Cons.prems(3,4) xs(3) by (intro Cons.IH) (simp_all add: p)
      moreover have "reads inp5 (commas ys @ 125 # r)"
        using m(2) False by simp
      ultimately show ?thesis
        using False step p unfolding accepts_def by simp
    qed
  qed
qed simp

lemma those_map:
  assumes "\<forall>x\<in>set xs. \<exists>y. f x = Some y \<and> P x y"
  shows "\<exists>ys. those (map f xs) = Some ys \<and> list_all2 P xs ys"
  using assms
proof (induction xs)
  case (Cons x xs)
  then obtain y ys where "f x = Some y" "P x y" "those (map f xs) = Some ys" "list_all2 P xs ys"
    by auto
  then show ?case
    by auto
qed simp

lemma commas_bytes: "c \<in> set (commas xs) \<Longrightarrow> c = 44 \<or> (\<exists>x\<in>set xs. c \<in> set x)"
  by (induction xs rule: commas.induct) auto

lemma commas_no_zero:
  assumes "list_all2 P es xs" "\<And>e x. P e x \<Longrightarrow> 0 \<notin> set x"
  shows "0 \<notin> set (commas xs)"
proof -
  have "\<forall>x\<in>set xs. 0 \<notin> set x"
    using assms by (induction rule: list_all2_induct) auto
  with commas_bytes [of 0 xs] show ?thesis
    by auto
qed

lemma commas_hd: "list_all2 P es xs \<Longrightarrow> es \<noteq> [] \<Longrightarrow> (\<And>e x. P e x \<Longrightarrow> x \<noteq> []) \<Longrightarrow> hd (commas xs @ r) = hd (hd xs) \<and> commas xs \<noteq> [] \<and> P (hd es) (hd xs)"
  by (cases es; cases xs rule: commas.cases) auto

lemma serialize_str_no_zero:
  assumes "plain_text s"
  shows "0 \<notin> set (serialize_str s)"
proof -
  have "0 \<notin> set (escape c)" if "c \<in> set s" for c
    using escape_plain [of c] assms that by (auto simp: plain_text_def unescape_def)
  then show ?thesis
    by (auto simp: serialize_str_def)
qed

lemma sprintf_d_start: "starts (sprintf_d n) \<and> 0 \<notin> set (sprintf_d n)"
proof
  have "hd (sprintf_d n) \<in> set (sprintf_d n)"
    using sprintf_d_hd [of n] by simp
  from sprintf_d_digits [OF this] show "starts (sprintf_d n)"
    using sprintf_d_hd [of n] by (auto simp: starts_def is_digit_def)
  show "0 \<notin> set (sprintf_d n)"
    using sprintf_d_digits [of 0 n] by (auto simp: is_digit_def)
qed

lemma string_value_written: "plain_text s \<Longrightarrow> accepts Value json_null (serialize_str s @ r) (json_string s) r"
  unfolding accepts_def
proof (intro allI impI)
  fix inp
  assume s: "plain_text s" and "reads inp (serialize_str s @ r)"
  then have "reads inp (34 # concat (map escape s) @ [34] @ r)"
    by (simp add: serialize_str_def)
  then obtain inp' where "getc (skip_ws inp) = (Some 34, inp')" "reads inp' (concat (map escape s) @ [34] @ r)"
    by (rule value_begins) simp
  with parse_string_written [OF s this(2)] show "\<exists>inp'. parse_run Value json_null inp = Some (True, json_string s, inp') \<and> reads inp' r"
    by (simp add: parse_run.simps [of Value])
qed

lemma number_value_written:
  assumes "r = [] \<or> \<not> number_char (hd r)"
  shows "accepts Value json_null (sprintf_d n @ r) (json_int (Some n)) r"
  unfolding accepts_def
proof (intro allI impI)
  fix inp
  assume "reads inp (sprintf_d n @ r)"
  then have "reads inp (hd (sprintf_d n) # tl (sprintf_d n) @ r)"
    using sprintf_d_hd [of n] by (cases "sprintf_d n") auto
  moreover have "\<not> is_ws (hd (sprintf_d n))"
    using sprintf_d_start [of n] by (simp add: starts_def)
  ultimately obtain inp' where g: "getc (skip_ws inp) = (Some (hd (sprintf_d n)), inp')"
      "reads (ungetc inp') (hd (sprintf_d n) # tl (sprintf_d n) @ r)"
    by (rule value_begins)
  have "reads (ungetc inp') (sprintf_d n @ r)"
    using g(2) sprintf_d_hd [of n] by (cases "sprintf_d n") auto
  note num = parse_number_written [OF this assms]
  have "is_digit (hd (sprintf_d n)) \<or> hd (sprintf_d n) = 45"
    using sprintf_d_digits [OF hd_in_set [OF sprintf_d_hd]] .
  then show "\<exists>inp'. parse_run Value json_null inp = Some (True, json_int (Some n), inp') \<and> reads inp' r"
    using g(1) num by (auto simp: parse_run.simps [of Value] is_digit_def)
qed

text \<open>An array or an object after its opening bracket.\<close>

lemma bracket_written:
  assumes "b = 91 \<and> w = Array \<and> w' = Elements 0 \<and> c = 93 \<or> b = 123 \<and> w = Object \<and> w' = Members \<and> c = 125"
    "accepts w' json_null s v r" "s \<noteq> []" "\<not> is_ws (hd s)" "hd s \<noteq> c"
  shows "accepts Value json_null (b # s) v r"
  unfolding accepts_def
proof (intro allI impI)
  fix inp
  assume "reads inp (b # s)"
  moreover have "\<not> is_ws b"
    using assms(1) by auto
  ultimately obtain inp' where g: "getc (skip_ws inp) = (Some b, inp')" "reads inp' s"
    by (rule value_begins)
  from g(2) obtain inp2 where e: "expect c inp' = (fst (after c s), inp2)" "reads inp2 (snd (after c s))"
    by (rule expect_reads)
  have "after c s = (False, s)"
    using assms(3,4,5) by (cases s) auto
  with e assms(2) obtain i where "parse_run w' json_null inp2 = Some (True, v, i)" "reads i r"
    unfolding accepts_def by auto
  with g(1) e(1) \<open>after c s = (False, s)\<close> assms(1) show "\<exists>inp'. parse_run Value json_null inp = Some (True, v, inp') \<and> reads inp' r"
    by (auto simp: parse_run.simps [of Value] parse_run.simps [of Array] parse_run.simps [of Object])
qed

text \<open>Every value that survives is written to a text that is read as that value.\<close>

lemma value_written: "well_typed v \<Longrightarrow> fresh_union v \<Longrightarrow> sendable v \<Longrightarrow> \<exists>s. written v s"
proof (induction v)
  case (JSON t v es ts)
  show ?case
  proof (cases t)
    case TypeNull
    then have "JSON t v es ts = json_null"
      using JSON.prems by (simp add: json_null_def)
    then show ?thesis
      using word_written [of 110 "ascii ''ull''" json_null] by (auto simp: written_def starts_def to_str_def json_null_def)
  next
    case TypeBoolean
    then obtain b where "JSON t v es ts = json_bool b"
      using JSON.prems by (auto simp: json_bool_def)
    then show ?thesis
      using word_written [of 102 "ascii ''alse''" "json_bool False"] word_written [of 116 "ascii ''rue''" "json_bool True"]
      by (cases b) (auto simp: written_def starts_def to_str_def get_bool_def json_bool_def)
  next
    case TypeInt
    then obtain n where "JSON t v es ts = json_int (Some n)" "length (sprintf_d n) < 10"
      using JSON.prems by (auto simp: json_int_def split: uvalue.splits)
    moreover have "accepts Value json_null (sprintf_d n @ r) (json_int (Some n)) r" if "follows (json_int (Some n)) r" for r
      using that by (intro number_value_written) (simp add: follows_def json_int_def)
    moreover have "serialize (json_int (Some n)) = Some (sprintf_d n)" if "length (sprintf_d n) < 10"
      using that by (simp add: to_str_def get_int_def json_int_def into_buffer_def)
    ultimately show ?thesis
      using sprintf_d_start [of n] by (auto simp: written_def)
  next
    case TypeDouble
    with JSON.prems show ?thesis
      by simp
  next
    case TypeString
    then obtain s where "JSON t v es ts = json_string s" "plain_text s"
      using JSON.prems by (auto simp: json_string_def split: uvalue.splits)
    then show ?thesis
      using string_value_written [of s] serialize_str_no_zero [of s]
      by (auto simp: written_def starts_def get_string_def json_string_def) (simp_all add: serialize_str_def)
  next
    case TypeArray
    have "\<forall>e\<in>set es. \<exists>s. serialize e = Some s \<and> written e s"
      using JSON.IH(1) JSON.prems TypeArray by (auto simp: written_def)
    from those_map [OF this] obtain xs where xs: "those (map serialize es) = Some xs" "list_all2 written es xs"
      by blast
    have es: "es \<noteq> []" "length es \<le> NB_TOKEN" "ts = []" "v = Undef"
      using JSON.prems TypeArray by simp_all
    have "hd (commas xs @ [93] @ r) = hd (hd xs) \<and> commas xs \<noteq> [] \<and> written (hd es) (hd xs)" for r
      by (rule commas_hd [OF xs(2) es(1)]) (simp add: written_def starts_def)
    then have h: "\<not> is_ws (hd (commas xs @ [93] @ r))" "hd (commas xs @ [93] @ r) \<noteq> 93" for r
      by (simp_all add: written_def starts_def)
    have "accepts Value json_null (91 # commas xs @ [93] @ r) (JSON TypeArray Undef es []) r" for r
      using elements_written [OF xs(2) es(1), of "[]" TypeNull Undef "[]" r] es(2) h [of r]
      by (intro bracket_written [of _ Array "Elements 0" 93]) (simp_all add: json_null_def)
    moreover have "0 \<notin> set (commas xs)"
      by (rule commas_no_zero [OF xs(2)]) (simp add: written_def)
    ultimately show ?thesis
      using TypeArray xs(1) es by (intro exI [of _ "[91] @ commas xs @ [93]"]) (simp add: written_def starts_def)
  next
    case TypeObject
    let ?f = "\<lambda>(k, e). map_option (\<lambda>x. serialize_str k @ [58] @ x) (serialize e)"
    have "\<forall>p\<in>set ts. \<exists>y. ?f p = Some y \<and> member_written p y"
    proof
      fix p
      assume p: "p \<in> set ts"
      then have "well_typed (snd p)" "fresh_union (snd p)" "sendable (snd p)" "plain_text (fst p)"
        using JSON.prems TypeObject by auto
      moreover from JSON.IH(2) [OF p snd_in_snds] this obtain s where "written (snd p) s"
        by blast
      ultimately show "\<exists>y. ?f p = Some y \<and> member_written p y"
        by (cases p) (auto simp: member_written_def written_def)
    qed
    from those_map [OF this] obtain xs where xs: "those (map ?f ts) = Some xs" "list_all2 member_written ts xs"
      by blast
    have ts: "ts \<noteq> []" "length ts \<le> NB_TOKEN" "es = []" "v = Undef" "distinct (map (c_str \<circ> fst) ts)"
      using JSON.prems TypeObject by simp_all
    have hx: "hd (commas xs @ [125] @ r) = hd (hd xs) \<and> commas xs \<noteq> [] \<and> member_written (hd ts) (hd xs)" for r
      by (rule commas_hd [OF xs(2) ts(1)]) (auto simp: member_written_def serialize_str_def)
    have h: "hd (commas xs @ [125] @ r) = 34" for r
      using hx [of r] by (auto simp: member_written_def serialize_str_def)
    have "accepts Value json_null (123 # commas xs @ [125] @ r) (JSON TypeObject Undef [] ts) r" for r
      using members_written [OF xs(2) ts(1), of "[]" TypeNull Undef "[]" r] ts(2,5) h [of r]
      by (intro bracket_written [of _ Object Members 125]) (simp_all add: json_null_def)
    moreover have "0 \<notin> set (commas xs)"
      using serialize_str_no_zero by (intro commas_no_zero [OF xs(2)]) (auto simp: member_written_def written_def)
    ultimately show ?thesis
      using TypeObject xs(1) ts by (intro exI [of _ "[123] @ commas xs @ [125]"]) (simp add: written_def starts_def)
  qed
qed

text \<open>What follows in memory does not matter, as long as there is a zero byte in it.\<close>

lemma parse_written:
  assumes "written v s" "0 \<in> set mem" "follows v (c_str mem)"
  shows "parse json_null (s @ mem) = Some ([], v)"
proof -
  have "c_str (s @ mem) = s @ c_str mem"
    using assms(1) unfolding c_str_def written_def by (subst takeWhile_append2) auto
  moreover have "accepts Value json_null (s @ c_str mem) v (c_str mem)"
    using assms(1,3) by (simp add: written_def)
  ultimately obtain inp' where "parse_run Value json_null (new_input (c_str (s @ mem))) = Some (True, v, inp')"
    unfolding accepts_def using reads_new by metis
  with assms(2) show ?thesis
    by (simp add: parse_def)
qed

end
