(* ===== verification/Json_Client.thy ===== *)
theory Json_Client
  imports Json_Parse Coap_Client
begin

text \<open>
  How the update client uses JSON (\<open>USER/remoteupdate.cpp\<close>): what it looks at in an answer, and the texts it sends. The
  record \<open>answer\<close> of \<open>Fw_Update\<close> is what these reads find.
\<close>

section \<open>Answers\<close>

definition SUCCESS :: "u8 list" where "SUCCESS = ascii ''success''"
definition MSG :: "u8 list" where "MSG = ascii ''msg''"
definition ALREADY_REGISTERED :: "u8 list" where "ALREADY_REGISTERED = ascii ''already registered!''"
definition COMMAND :: "u8 list" where "COMMAND = ascii ''command''"
definition UPDATE :: "u8 list" where "UPDATE = ascii ''update''"
definition TYPE_NAME :: "u8 list" where "TYPE_NAME = ascii ''type''"
definition NEWVERSIONNO :: "u8 list" where "NEWVERSIONNO = ascii ''newVersionNo''"
definition FILENAMES :: "u8 list" where "FILENAMES = ascii ''fileNames''"

text \<open>The member with a name, which is created if there is none, and the changed object.\<close>

definition at_name :: "u8 list \<Rightarrow> json \<Rightarrow> json \<times> json" where
  "at_name k j = (let (i, j) = index_token k j in (token_at i j, j))"

text \<open>The conditions under which the registration, a status report and a block that is not full are answered.\<close>

definition register_test :: "json \<Rightarrow> bool option" where
  "register_test j =
     (if hasMember SUCCESS j
      then
        let (x, j) = at_name SUCCESS j
        in do { b \<leftarrow> get_bool x;
                if b then Some True
                else let (x, j) = at_name MSG j in do { s \<leftarrow> get_string x; Some (strcmp_eq s ALREADY_REGISTERED) } }
      else Some False)"

definition success_test :: "json \<Rightarrow> bool option" where
  "success_test j = (if hasMember SUCCESS j then get_bool (fst (at_name SUCCESS j)) else Some False)"

definition command_test :: "json \<Rightarrow> bool option" where
  "command_test j =
     (if hasMember COMMAND j then do { s \<leftarrow> get_string (fst (at_name COMMAND j)); Some (strcmp_eq s UPDATE) } else Some False)"

text \<open>The names of the files, one after the other, each access with its side effects.\<close>

partial_function (option) file_loop :: "nat \<Rightarrow> json \<Rightarrow> u8 list list option" where
  "file_loop i j =
     (let (k, j) = index_token FILENAMES j; x = token_at k j
      in do { n \<leftarrow> json_size x;
              if int i < n
              then
                let (r, x) = index_array i x; j = set_token k x j
                in do { s \<leftarrow> get_string (elem_at r x); fs \<leftarrow> file_loop (i + 1) j; Some (s # fs) }
              else Some [] })"

declare file_loop.simps [code]

text \<open>Type, version and files, if the type and the version are there.\<close>

definition info_test :: "json \<Rightarrow> (int \<times> u8 list \<times> u8 list list) option option" where
  "info_test j =
     (if hasMember TYPE_NAME j \<and> hasMember NEWVERSIONNO j
      then
        let (x, j) = at_name TYPE_NAME j
        in do { t \<leftarrow> get_int x;
                let (y, j) = at_name NEWVERSIONNO j;
                v \<leftarrow> get_string y;
                fs \<leftarrow> file_loop 0 j;
                Some (Some (sint t, v, fs)) }
      else Some None)"

section \<open>What an answer says\<close>

definition lookup :: "u8 list \<Rightarrow> json \<Rightarrow> json option" where
  "lookup k j = map_option (\<lambda>i. snd (toks j ! i)) (find_token k (toks j))"

text \<open>An object says what an answer has; the order of the members, and others, do not matter.\<close>

definition says :: "json \<Rightarrow> answer \<Rightarrow> bool" where
  "says j a =
     (lookup SUCCESS j = map_option json_bool (success a) \<and>
      (success a = Some False \<longrightarrow> (\<exists>m. lookup MSG j = Some (json_string m) \<and> (already_registered a \<longleftrightarrow> m = ALREADY_REGISTERED) \<and> plain_text m)) \<and>
      (case lookup COMMAND j of
         None \<Rightarrow> \<not> command_update a
       | Some x \<Rightarrow> \<exists>c. x = json_string c \<and> plain_text c \<and> (command_update a \<longleftrightarrow> c = UPDATE)) \<and>
      lookup TYPE_NAME j = map_option (\<lambda>t. json_int (Some (word_of_int t))) (j_type a) \<and>
      (\<forall>t. j_type a = Some t \<longrightarrow> - (2 ^ 31) \<le> t \<and> t < 2 ^ 31) \<and>
      lookup NEWVERSIONNO j = map_option json_string (j_version a) \<and>
      lookup FILENAMES j = (if j_files a = [] then None else Some (JSON TypeArray Undef (map json_string (j_files a)) [])) \<and>
      length (j_files a) \<le> NB_TOKEN)"

lemma hasMember_lookup: "hasMember k j = (lookup k j \<noteq> None)"
proof -
  have "list_ex (\<lambda>(n, _). strcmp_eq k n) ts = (find_token k ts \<noteq> None)" for ts :: "(u8 list \<times> json) list"
    by (induction ts) auto
  then show ?thesis
    by (simp add: hasMember_def lookup_def)
qed

text \<open>Access to a member that is there changes nothing in an object.\<close>

lemma at_name_there: "jtype j = TypeObject \<Longrightarrow> lookup k j = Some x \<Longrightarrow> at_name k j = (x, j)"
  by (cases j) (auto simp: at_name_def index_token_def lookup_def token_at_def)

lemma success_test_says:
  assumes "jtype j = TypeObject" "says j a"
  shows "success_test j = Some (success a = Some True)"
proof (cases "success a")
  case None
  with assms(2) show ?thesis
    by (simp add: success_test_def hasMember_lookup says_def)
next
  case (Some b)
  with assms(2) have "lookup SUCCESS j = Some (json_bool b)"
    by (simp add: says_def)
  with at_name_there [OF assms(1) this] Some show ?thesis
    by (simp add: success_test_def hasMember_lookup get_bool_def json_bool_def)
qed

lemma plain_strcmp: "plain_text a \<Longrightarrow> plain_text b \<Longrightarrow> strcmp_eq a b = (a = b)"
  by (simp add: strcmp_eq_def plain_c_str)

lemma plain_names [simp]: "plain_text ALREADY_REGISTERED" "plain_text UPDATE"
  by (simp_all add: plain_text_def ALREADY_REGISTERED_def UPDATE_def)

lemma register_test_says:
  assumes "jtype j = TypeObject" "says j a"
  shows "register_test j = Some (success a \<noteq> None \<and> (success a = Some True \<or> already_registered a))"
proof (cases "success a")
  case None
  with assms(2) show ?thesis
    by (simp add: register_test_def hasMember_lookup says_def)
next
  case (Some b)
  with assms(2) have l: "lookup SUCCESS j = Some (json_bool b)"
    by (simp add: says_def)
  note s = at_name_there [OF assms(1) this]
  show ?thesis
  proof (cases b)
    case True
    with s l Some show ?thesis
      by (simp add: register_test_def hasMember_lookup get_bool_def json_bool_def)
  next
    case False
    with assms(2) Some obtain m where m: "lookup MSG j = Some (json_string m)" "already_registered a \<longleftrightarrow> m = ALREADY_REGISTERED" "plain_text m"
      by (auto simp: says_def)
    from at_name_there [OF assms(1) m(1)] s l m False Some show ?thesis
      by (simp add: register_test_def hasMember_lookup get_bool_def json_bool_def get_string_def json_string_def plain_strcmp)
  qed
qed

lemma command_test_says:
  assumes "jtype j = TypeObject" "says j a"
  shows "command_test j = Some (command_update a)"
proof (cases "lookup COMMAND j")
  case None
  with assms(2) show ?thesis
    by (simp add: command_test_def hasMember_lookup says_def)
next
  case (Some x)
  with assms(2) obtain c where "x = json_string c" "plain_text c" "command_update a \<longleftrightarrow> c = UPDATE"
    by (auto simp: says_def)
  with at_name_there [OF assms(1) Some] Some show ?thesis
    by (simp add: command_test_def hasMember_lookup get_string_def json_string_def plain_strcmp)
qed

lemma file_loop_there:
  assumes "jtype j = TypeObject" "lookup FILENAMES j = Some (JSON TypeArray Undef (map json_string fs) [])" "length fs \<le> NB_TOKEN"
    "i \<le> length fs"
  shows "file_loop i j = Some (drop i fs)"
  using assms(4)
proof (induction "length fs - i" arbitrary: i)
  case (Suc n)
  then have i: "i < length fs"
    by simp
  let ?x = "JSON TypeArray Undef (map json_string fs) []"
  obtain k where k: "find_token FILENAMES (toks j) = Some k" "snd (toks j ! k) = ?x"
    using assms(2) by (auto simp: lookup_def)
  then have "k < length (toks j)"
    using find_token_Some by blast
  then have same: "set_token k ?x j = j"
    using k(2) by (cases j) (simp add: set_token_def, metis list_update_id prod.collapse)
  have "index_token FILENAMES j = (k, j)"
    using k(1) assms(1) by (cases j) (simp add: index_token_def)
  moreover have "index_array i ?x = (Some i, ?x)"
    using i assms(3) by (simp add: index_array_def)
  moreover have "get_string (elem_at (Some i) ?x) = Some (fs ! i)"
    using i by (simp add: elem_at_def get_string_def json_string_def)
  moreover have "file_loop (i + 1) j = Some (drop (i + 1) fs)"
    using Suc by (intro Suc.hyps(1)) simp_all
  moreover have "token_at k j = ?x" "json_size ?x = Some (int (length fs))"
    using k(2) by (simp_all add: token_at_def json_size_def)
  ultimately show ?case
    using i same by (simp add: file_loop.simps [of i j] Cons_nth_drop_Suc)
next
  case 0
  then have i: "i = length fs"
    by simp
  let ?x = "JSON TypeArray Undef (map json_string fs) []"
  obtain k where k: "find_token FILENAMES (toks j) = Some k" "snd (toks j ! k) = ?x"
    using assms(2) by (auto simp: lookup_def)
  have "index_token FILENAMES j = (k, j)"
    using k(1) assms(1) by (cases j) (simp add: index_token_def)
  moreover have "token_at k j = ?x" "json_size ?x = Some (int (length fs))"
    using k(2) by (simp_all add: token_at_def json_size_def)
  ultimately show ?case
    using i by (simp add: file_loop.simps [of "length fs" j])
qed

text \<open>Without the names of files, the access creates a member without a value, which has no size.\<close>

lemma file_loop_missing: "lookup FILENAMES j = None \<Longrightarrow> file_loop 0 j = Some []"
proof -
  assume l: "lookup FILENAMES j = None"
  obtain t u es ts where j: "j = JSON t u es ts"
    by (cases j)
  obtain ds where "index_token FILENAMES j = (length ds, JSON TypeObject u es (ds @ [(FILENAMES, json_null)]))"
    using l by (auto simp: j index_token_def lookup_def Let_def)
  then show ?thesis
    by (simp add: file_loop.simps [of 0 j] json_size_def json_null_def)
qed

lemma info_test_says:
  assumes "jtype j = TypeObject" "says j a"
  shows "info_test j = Some (case (j_type a, j_version a) of (Some t, Some v) \<Rightarrow> Some (t, v, j_files a) | _ \<Rightarrow> None)"
proof (cases "j_type a = None \<or> j_version a = None")
  case True
  with assms(2) show ?thesis
    by (auto simp: info_test_def hasMember_lookup says_def split: option.split)
next
  case False
  then obtain t v where tv: "j_type a = Some t" "j_version a = Some v"
    by auto
  with assms(2) have l: "lookup TYPE_NAME j = Some (json_int (Some (word_of_int t)))" "lookup NEWVERSIONNO j = Some (json_string v)"
    by (simp_all add: says_def)
  have "file_loop 0 j = Some (j_files a)"
  proof (cases "j_files a = []")
    case True
    with assms(2) file_loop_missing [of j] show ?thesis
      by (simp add: says_def)
  next
    case False
    with assms(2) file_loop_there [OF assms(1), of "j_files a" 0] show ?thesis
      by (simp add: says_def)
  qed
  moreover have "sint (word_of_int t :: u32) = t"
    using assms(2) tv(1) by (simp add: says_def sint_sbintrunc' signed_take_bit_int_eq_self_iff)
  ultimately show ?thesis
    using at_name_there [OF assms(1) l(1)] at_name_there [OF assms(1) l(2)] l tv
    by (simp add: info_test_def hasMember_lookup get_int_def json_int_def get_string_def json_string_def)
qed

section \<open>Requests\<close>

text \<open>Setting a member (\<open>json[name] = value\<close>), one after the other into a new object.\<close>

definition put_name :: "json \<Rightarrow> u8 list \<times> json \<Rightarrow> json" where
  "put_name j p = (let (i, j) = index_token (fst p) j in set_token i (assign (snd p) (token_at i j)) j)"

definition put_all :: "(u8 list \<times> json) list \<Rightarrow> json" where
  "put_all ps = foldl put_name json_null ps"

text \<open>
  The members of the four requests: of the registration the seven strings of the header, of a status report the status and
  the time, of a request for a block the type, the name of the file and the version.
\<close>

fun request_members :: "u8 list \<Rightarrow> u8 list list \<Rightarrow> u32 \<Rightarrow> request \<Rightarrow> (u8 list \<times> json) list" where
  "request_members uid hdr tt Register =
     zip (map ascii [''devType'', ''softVerNo'', ''hardVerNo'', ''firmwareNo'', ''userDevType'', ''userSoftVerNo'', ''userHardVerNo''])
       (map json_string hdr) @
     [(ascii ''mobile'', json_string (ascii ''15811112222'')), (ascii ''devUniqId'', json_string uid)]"
| "request_members uid hdr tt (Status s) =
     [(ascii ''devUniqId'', json_string uid), (ascii ''status'', json_int (Some (word_of_int s))),
      (ascii ''timestamp'', json_string (decimal (unat tt)))]"
| "request_members uid hdr tt NewVersion = [(ascii ''devUniqId'', json_string uid)]"
| "request_members uid hdr tt (Downfile v t n ver) =
     [(ascii ''devUniqId'', json_string uid), (ascii ''type'', json_int (Some (word_of_int t))),
      (ascii ''fileName'', json_string n), (ascii ''newVersionNo'', json_string ver)]"

definition request_text :: "u8 list \<Rightarrow> u8 list list \<Rightarrow> u32 \<Rightarrow> request \<Rightarrow> u8 list option" where
  "request_text uid hdr tt r = serialize (put_all (request_members uid hdr tt r))"

text \<open>The path and the block option of a request.\<close>

fun request_uri :: "request \<Rightarrow> u8 list" where
  "request_uri Register = ascii ''register''"
| "request_uri (Status s) = ascii ''deviceStatus''"
| "request_uri NewVersion = ascii ''newVersion''"
| "request_uri (Downfile v t n ver) = ascii ''downfile''"

fun request_block :: "request \<Rightarrow> u16 option" where
  "request_block (Downfile v t n ver) = Some v"
| "request_block _ = None"

lemma put_all_snoc: "put_all (ps @ [p]) = put_name (put_all ps) p"
  by (simp add: put_all_def)

lemma put_all_object:
  assumes "distinct (map (c_str \<circ> fst) ps)" "length ps \<le> NB_TOKEN" "\<forall>p\<in>set ps. well_typed (snd p) \<and> fresh_union (snd p)"
  shows "put_all ps = JSON (if ps = [] then TypeNull else TypeObject) Undef [] ps"
  using assms
proof (induction ps rule: rev_induct)
  case (snoc p ps)
  obtain k v where p: "p = (k, v)"
    by (cases p)
  have ih: "put_all ps = JSON (if ps = [] then TypeNull else TypeObject) Undef [] ps"
    using snoc by simp
  have "c_str k \<notin> c_str ` fst ` set ps" "length ps < NB_TOKEN"
    using snoc.prems by (auto simp: p image_iff)
  from index_token_next [OF this] have "index_token k (put_all ps) = (length ps, JSON TypeObject Undef [] (ps @ [(k, json_null)]))"
    by (simp add: ih)
  moreover have "assign v json_null = v"
    using snoc.prems(3) by (intro assign_new) (auto simp: p)
  ultimately show ?case
    by (simp add: put_all_snoc put_name_def p)
qed (simp add: put_all_def json_null_def)

definition request_object :: "u8 list \<Rightarrow> u8 list list \<Rightarrow> u32 \<Rightarrow> request \<Rightarrow> json" where
  "request_object uid hdr tt r = JSON TypeObject Undef [] (request_members uid hdr tt r)"

text \<open>What the strings and numbers of a request have to be like.\<close>

definition request_ok :: "u8 list \<Rightarrow> u8 list list \<Rightarrow> request \<Rightarrow> bool" where
  "request_ok uid hdr r \<longleftrightarrow> plain_text uid \<and> length hdr = 7 \<and> (\<forall>h\<in>set hdr. plain_text h) \<and>
     (case r of
        Status s \<Rightarrow> length (sprintf_d (word_of_int s)) < 10
      | Downfile v t n ver \<Rightarrow> length (sprintf_d (word_of_int t)) < 10 \<and> plain_text n \<and> plain_text ver
      | _ \<Rightarrow> True)"

lemma decimal_plain: "plain_text (decimal n)"
  unfolding plain_text_def
proof
  fix c
  assume "c \<in> set (decimal n)"
  with decimal_number [of n] have "is_digit c"
    by blast
  then show "32 \<le> c \<and> c \<noteq> 127 \<or> c \<in> {8, 9, 10, 12, 13}"
    by (auto simp: is_digit_def word_le_nat_alt)
qed

lemma json_forms [simp]: "fresh_union (json_string s)" "fresh_union (json_int (Some n))" "sendable (json_string s) = plain_text s"
  "sendable (json_int (Some n)) = (length (sprintf_d n) < 10)"
  by (simp_all add: json_string_def json_int_def)

lemma ascii_c_str: "0 \<notin> set s \<Longrightarrow> c_str s = s"
  unfolding c_str_def by (subst takeWhile_eq_all_conv) auto

lemma length_7: "length xs = 7 \<Longrightarrow> \<exists>a b c d e f g. xs = [a, b, c, d, e, f, g]"
  by (auto simp: numeral_eq_Suc length_Suc_conv)

lemma request_members_ok:
  assumes "request_ok uid hdr r"
  shows "well_typed (request_object uid hdr tt r) \<and> fresh_union (request_object uid hdr tt r) \<and>
    sendable (request_object uid hdr tt r) \<and> put_all (request_members uid hdr tt r) = request_object uid hdr tt r"
proof -
  let ?ms = "request_members uid hdr tt r"
  have plain: "\<forall>p\<in>set ?ms. plain_text (fst p) \<and> well_typed (snd p) \<and> fresh_union (snd p) \<and> sendable (snd p)"
  proof (cases r)
    case Register
    obtain a b c d e f g where "hdr = [a, b, c, d, e, f, g]"
      using length_7 [of hdr] assms unfolding request_ok_def by blast
    with assms Register show ?thesis
      by (simp add: request_ok_def) (simp add: plain_text_def)
  next
    case (Status s)
    with assms show ?thesis
      by (simp add: request_ok_def decimal_plain) (simp add: plain_text_def)
  next
    case NewVersion
    with assms show ?thesis
      by (simp add: request_ok_def) (simp add: plain_text_def)
  next
    case (Downfile v t n ver)
    with assms show ?thesis
      by (simp add: request_ok_def) (simp add: plain_text_def)
  qed
  have names: "distinct (map fst ?ms)" "?ms \<noteq> []" "length ?ms \<le> NB_TOKEN"
  proof -
    have m: "map fst ?ms = (case r of Register \<Rightarrow> map ascii [''devType'', ''softVerNo'', ''hardVerNo'', ''firmwareNo'', ''userDevType'',
        ''userSoftVerNo'', ''userHardVerNo'', ''mobile'', ''devUniqId''] | Status s \<Rightarrow> map ascii [''devUniqId'', ''status'', ''timestamp'']
      | NewVersion \<Rightarrow> [ascii ''devUniqId''] | Downfile v t n ver \<Rightarrow> map ascii [''devUniqId'', ''type'', ''fileName'', ''newVersionNo''])"
      using assms by (cases r) (auto simp: request_ok_def)
    show "distinct (map fst ?ms)"
      unfolding m by (cases r) simp_all
    have "length (map fst ?ms) \<le> NB_TOKEN"
      unfolding m by (cases r) (simp_all add: NB_TOKEN_def)
    then show "length ?ms \<le> NB_TOKEN"
      by (simp only: length_map)
    show "?ms \<noteq> []"
      by (cases r) simp_all
  qed
  have c: "map (c_str \<circ> fst) ?ms = map fst ?ms"
    using plain plain_c_str by simp
  have d: "distinct (map (c_str \<circ> fst) ?ms)"
    unfolding c by (rule names(1))
  then have "put_all ?ms = request_object uid hdr tt r"
    using put_all_object [OF d names(3)] plain names(2) by (simp add: request_object_def)
  with d plain names show ?thesis
    by (simp add: request_object_def)
qed

end
