(* ===== verification/Json_Properties.thy ===== *)
theory Json_Properties
  imports Json_Client
begin

text \<open>
  The properties of the JSON values: the parser ends on every text with a well-typed value; what the serializer writes is
  read back; the answers of the server and the requests of the client, through JSON and CoAP; and what goes wrong.
\<close>

text \<open>
  C31: the parser returns on every text, and whatever the text is, broken or not, the value it leaves is well typed: the
  union holds what the type says (of a number out of the range of an integer, an unspecified value), only arrays have elements and only objects members, at most twenty of them, with
  different names. So the reads of the client are determined by the types it finds.
\<close>

theorem parse_well_typed:
  assumes "0 \<in> set mem"
  shows "\<exists>err v. parse json_null mem = Some (err, v) \<and> well_typed v"
  using parse_returns [OF assms, of json_null] by (auto simp: json_null_def)

theorem parse_well_typed_witness: "\<exists>err v. parse json_null (ascii ''[1,'' @ [0]) = Some (err, v) \<and> well_typed v"
  by (rule parse_well_typed) simp

text \<open>
  C30: a value survives being sent. Every value of nulls, booleans, integers of at most nine characters, strings without the
  control characters that are written in hexadecimal, and arrays and objects of them that are not empty (nor larger than the parser's arrays, nor with a name twice), is written,
  and the text is read as the value, whatever follows it in memory (after an integer, anything but a character of a number).
  Excluded (\<open>sendable\<close>) are doubles, integers of ten or more characters, which overrun the buffer they are printed into,
  other control characters, and empty arrays and objects.
\<close>

theorem json_roundtrip:
  assumes "well_typed v" "fresh_union v" "sendable v" "0 \<in> set mem" "jtype v = TypeInt \<Longrightarrow> \<not> number_char (hd mem)"
  shows "\<exists>s. serialize v = Some s \<and> parse json_null (s @ mem) = Some ([], v)"
proof -
  obtain s where s: "written v s"
    using value_written [OF assms(1-3)] by blast
  have "follows v (c_str mem)"
    using assms(5) by (cases mem) (auto simp: follows_def c_str_def number_char_def)
  from parse_written [OF s assms(4) this] s show ?thesis
    by (auto simp: written_def)
qed

definition example_json :: json where
  "example_json = JSON TypeObject Undef [] [(ascii ''a'', JSON TypeArray Undef [json_null, json_bool True, json_string [10, 34, 200]] []),
     (ascii ''b'', json_string [])]"

lemma example_json_ok: "well_typed example_json" "fresh_union example_json" "sendable example_json"
  by (auto simp: example_json_def json_null_def json_bool_def json_string_def plain_text_def NB_TOKEN_def c_str_def)

theorem json_roundtrip_witness: "\<exists>s. serialize example_json = Some s \<and> parse json_null (s @ [7, 0]) = Some ([], example_json)"
  by (rule json_roundtrip) (simp_all add: example_json_ok, simp add: example_json_def)

text \<open>
  C8: an answer is read as the server means it. If a packet carries the text of an object that says what an answer has,
  in any order and with any other members, then the client accepts the packet, parses the object, whatever the buffer
  has behind the packet as long as a zero byte is in it, and its tests find what the answer has.
\<close>

theorem answer_read:
  assumes "well_typed j" "fresh_union j" "sendable j" "jtype j = TypeObject" "says j a"
    and "good_header hdr tok" "good_opts os" "0 \<in> set mem"
  shows "\<exists>s q m. serialize j = Some s \<and>
    receive_packet (packet_bytes hdr tok os s @ mem) (length (packet_bytes hdr tok os s)) = Some (1, q) \<and>
    payload_memory q = Some m \<and> parse json_null m = Some ([], j) \<and>
    register_test j = Some (success a \<noteq> None \<and> (success a = Some True \<or> already_registered a)) \<and>
    success_test j = Some (success a = Some True) \<and> command_test j = Some (command_update a) \<and>
    info_test j = Some (case (j_type a, j_version a) of (Some t, Some v) \<Rightarrow> Some (t, v, j_files a) | _ \<Rightarrow> None)"
proof -
  obtain s where s: "written j s"
    using value_written [OF assms(1-3)] by blast
  then have "s \<noteq> []"
    by (simp add: written_def starts_def)
  with receive_encoded [OF assms(6,7), of s mem] obtain q where
    "receive_packet (packet_bytes hdr tok os s @ mem) (length (packet_bytes hdr tok os s)) = Some (1, q)"
    "payload_memory q = Some (s @ mem)"
    by blast
  moreover have "parse json_null (s @ mem) = Some ([], j)"
    using assms(4) by (intro parse_written [OF s assms(8)]) (simp add: follows_def)
  ultimately show ?thesis
    using s register_test_says [OF assms(4,5)] success_test_says [OF assms(4,5)] command_test_says [OF assms(4,5)]
      info_test_says [OF assms(4,5)] by (auto simp: written_def)
qed

definition example_answer :: answer where
  "example_answer = \<lparr>payload = [], block2_next = 0, success = Some True, already_registered = False, command_update = False,
     j_type = Some 1, j_version = Some (ascii ''UV2.0''), j_files = [ascii ''a.bin'']\<rparr>"

definition example_object :: json where
  "example_object = JSON TypeObject Undef [] [(NEWVERSIONNO, json_string (ascii ''UV2.0'')), (SUCCESS, json_bool True),
     (FILENAMES, JSON TypeArray Undef [json_string (ascii ''a.bin'')] []), (TYPE_NAME, json_int (Some 1))]"

lemma decimal_1: "decimal 1 = [49]"
  by (simp add: decimal.simps)

lemma example_object_ok: "well_typed example_object" "fresh_union example_object" "sendable example_object" "jtype example_object = TypeObject"
    "says example_object example_answer"
proof -
  show "well_typed example_object" "fresh_union example_object" "jtype example_object = TypeObject"
    by (auto simp: example_object_def json_bool_def json_string_def json_int_def NB_TOKEN_def c_str_def
        SUCCESS_def NEWVERSIONNO_def FILENAMES_def TYPE_NAME_def)
  show "sendable example_object"
    using decimal_1 by (simp add: example_object_def json_bool_def json_string_def json_int_def plain_text_def sprintf_d_def
        SUCCESS_def NEWVERSIONNO_def FILENAMES_def TYPE_NAME_def)
  show "says example_object example_answer"
    by (simp add: says_def lookup_def example_object_def example_answer_def strcmp_eq_def c_str_def NB_TOKEN_def
        SUCCESS_def NEWVERSIONNO_def FILENAMES_def TYPE_NAME_def COMMAND_def MSG_def)
qed

theorem answer_read_witness:
  "\<exists>s q. serialize example_object = Some s \<and>
    receive_packet (packet_bytes [0x40, 0x45, 0, 1] [] [] s @ [0, 9]) (length (packet_bytes [0x40, 0x45, 0, 1] [] [] s)) = Some (1, q) \<and>
    info_test example_object = Some (Some (1, ascii ''UV2.0'', [ascii ''a.bin'']))"
proof -
  have "good_header [0x40, 0x45, 0, 1] []"
    by (simp add: good_header_def codes)
  from answer_read [OF example_object_ok this, of "[]" "[0, 9]"] show ?thesis
    by (auto simp: good_opts_def example_answer_def)
qed

text \<open>
  C9: a request reaches the server as it is meant. For each of the four requests the client's text is written, the packet
  with the path, the block option and the text is built, and on the other side the packet is accepted, its path is
  the one of the request, and its text is read as the object with the members of the request.
\<close>

theorem request_read:
  assumes "request_ok uid hdr r" "plenty h" "0 \<in> set mem"
  shows "\<exists>body p q m. request_text uid hdr tt r = Some body \<and>
    build_request h (request_uri r) (request_block r) body mid = Some p \<and>
    receive_packet (datagram p @ mem) (pduLength p) = Some (1, q) \<and>
    read_options q = Some ((COAP_OPTION_URI_PATH, request_uri r) #
      (case request_block r of None \<Rightarrow> [] | Some v \<Rightarrow> [(COAP_OPTION_BLOCK2, short_bytes v)])) \<and>
    payload_memory q = Some m \<and> parse json_null m = Some ([], request_object uid hdr tt r)"
proof -
  let ?j = "request_object uid hdr tt r"
  let ?block = "case request_block r of None \<Rightarrow> [] | Some v \<Rightarrow> [(COAP_OPTION_BLOCK2, short_bytes v)]"
  note ok = request_members_ok [OF assms(1), of tt]
  from ok obtain s where s: "written ?j s"
    using value_written by blast
  then have ne: "s \<noteq> []" and body: "request_text uid hdr tt r = Some s"
    using ok by (simp_all add: written_def starts_def request_text_def)
  have uri: "0x2F \<notin> set (request_uri r)" "2 \<le> length (request_uri r)" "length (request_uri r) \<le> 12"
    by (cases r; simp)+
  from request_built [OF assms(2) uri(1,2) _ ne, of ?block "request_block r" mid] uri(3) obtain p where p:
      "build_request h (request_uri r) (request_block r) s mid = Some p" "pduLength p = length (datagram p)"
      "datagram p = packet_bytes ([0x44, COAP_POST] @ id_bytes mid) [3, 2, 1, 1] ((COAP_OPTION_URI_PATH, request_uri r) # ?block) s"
    by auto
  have os: "good_opts ((COAP_OPTION_URI_PATH, request_uri r) # ?block)"
    using uri(3) by (cases "request_block r")
      (simp_all add: good_opts_Cons good_opts_def short_bytes_def COAP_OPTION_URI_PATH_def COAP_OPTION_BLOCK2_def)
  from receive_encoded [OF request_header os, of mid s mem] ne obtain q where q:
      "receive_packet (datagram p @ mem) (pduLength p) = Some (1, q)"
      "read_options q = Some ((COAP_OPTION_URI_PATH, request_uri r) # ?block)" "payload_memory q = Some (s @ mem)"
    unfolding p(2,3) by blast
  have "parse json_null (s @ mem) = Some ([], ?j)"
    by (rule parse_written [OF s assms(3)]) (simp add: follows_def request_object_def)
  with body p(1) q show ?thesis
    by blast
qed

theorem request_read_witness:
  "\<exists>body p q. request_text (ascii ''0A'') (replicate 7 (ascii ''V1'')) 5 (Status 3) = Some body \<and>
    build_request (\<lambda>n. Some (replicate n 0)) (ascii ''deviceStatus'') None body 9 = Some p \<and>
    receive_packet (datagram p @ [0]) (pduLength p) = Some (1, q)"
proof -
  have "decimal 3 = [51]"
    by (simp add: decimal.simps)
  then have "request_ok (ascii ''0A'') (replicate 7 (ascii ''V1'')) (Status 3)"
    by (simp add: request_ok_def plain_text_def sprintf_d_def)
  moreover have "plenty (\<lambda>n. Some (replicate n 0))"
    by (simp add: plenty_def)
  ultimately show ?thesis
    using request_read [of "ascii ''0A''" "replicate 7 (ascii ''V1'')" "Status 3" "\<lambda>n. Some (replicate n 0)" "[0]" 5 9] by auto
qed

section \<open>What goes wrong\<close>

text \<open>A string with another control character is written with a \<open>\u\<close> escape, which the parser does not know.\<close>

lemma escape_unreadable:
  assumes "plain_text a" "c < 32 \<and> c \<notin> {8, 9, 10, 12, 13} \<or> c = 127" "0 \<in> set mem"
  shows "\<exists>s err v. serialize (json_string (a @ c # b)) = Some s \<and> parse json_null (s @ mem) = Some (err, v) \<and> err \<noteq> []"
proof -
  define d where "d = [hex_digit (drop_bit 4 c), hex_digit (c AND 15)] @ concat (map escape b) @ [34]"
  have c: "escape c = [92, 117, 48, 48, hex_digit (drop_bit 4 c), hex_digit (c AND 15)]"
    using assms(2) by (auto simp: escape_def)
  let ?s = "serialize_str (a @ c # b)" and ?t = "48 # 48 # d"
  have s: "?s = 34 # concat (map escape a) @ 92 # 117 # ?t"
    by (simp add: serialize_str_def c d_def)
  obtain r where r: "c_str (?s @ mem) = 34 # concat (map escape a) @ 92 # 117 # r"
  proof -
    have "0 \<notin> set (34 # concat (map escape a) @ [92, 117])"
      using serialize_str_no_zero [OF assms(1)] by (auto simp: serialize_str_def)
    then have "c_str ((34 # concat (map escape a) @ [92, 117]) @ ?t @ mem) = (34 # concat (map escape a) @ [92, 117]) @ c_str (?t @ mem)"
      unfolding c_str_def by (intro takeWhile_append2) auto
    with that show ?thesis
      by (simp add: s)
  qed
  let ?i = "new_input (c_str (?s @ mem))"
  have "reads ?i (34 # concat (map escape a) @ 92 # 117 # r)"
    unfolding r by (rule reads_new)
  then obtain i1 where i1: "getc (skip_ws ?i) = (Some 34, i1)" "reads i1 (concat (map escape a) @ 92 # 117 # r)"
    by (rule value_begins) simp
  from string_prefix [OF assms(1) i1(2), of "[]"] obtain i2 where i2: "string_loop [] i1 = string_loop a i2" "reads i2 (92 # 117 # r)"
    by auto
  from i2(2) obtain i3 where i3: "getc i2 = (Some 92, i3)" "reads i3 (117 # r)"
    by (rule getc_reads)
  from i3(2) obtain i4 where i4: "getc i3 = (Some 117, i4)" "reads i4 r"
    by (rule getc_reads)
  have "string_loop [] i1 = (False, a, i4)"
    using i2(1) i3(1) i4(1) by (simp add: string_loop.simps [of a i2] unescape_def)
  then obtain v where "parse_run Value json_null ?i = Some (False, v, i4)"
    using i1(1) by (simp add: parse_run.simps [of Value] parse_string_def Let_def)
  moreover have "error_loop err i \<noteq> []" if "err \<noteq> []" for err i
    using that by (induction err i rule: error_loop.induct) (subst error_loop.simps, auto split: prod.split option.split)
  moreover have "serialize (json_string (a @ c # b)) = Some ?s"
    by (simp add: json_string_def get_string_def)
  ultimately show ?thesis
    using assms(3) by (auto simp: parse_def)
qed

text \<open>An empty array or object is read as null.\<close>

lemma empty_lost: "parse json_null (ascii ''[]'' @ [0]) = Some ([], json_null)" "parse json_null (ascii ''{}'' @ [0]) = Some ([], json_null)"
proof -
  have r: "reads (new_input (ascii t)) (ascii t)" for t
    by (rule reads_new)
  have "parse json_null (ascii [b, e] @ [0]) = Some ([], json_null)" if "b = CHR ''['' \<and> e = CHR '']'' \<or> b = CHR ''{'' \<and> e = CHR ''}''" for b e
  proof -
    have "reads (new_input (ascii [b, e])) (of_char b # [of_char e])"
      using r [of "[b, e]"] by simp
    moreover have "\<not> is_ws (of_char b)"
      using that by auto
    ultimately obtain i where i: "getc (skip_ws (new_input (ascii [b, e]))) = (Some (of_char b), i)" "reads i [of_char e]"
      by (rule value_begins)
    from i(2) obtain i2 where "expect (of_char e) i = (fst (after (of_char e) [of_char e]), i2)"
      by (rule expect_reads)
    with i(1) that show ?thesis
      by (auto simp: parse_def c_str_def parse_run.simps [of Value] parse_run.simps [of Array] parse_run.simps [of Object])
  qed
  then show "parse json_null (ascii ''[]'' @ [0]) = Some ([], json_null)" "parse json_null (ascii ''{}'' @ [0]) = Some ([], json_null)"
    by blast+
qed

text \<open>A refused registration without a message: the string of a member that is not there is read.\<close>

lemma register_undefined:
  assumes "jtype j = TypeObject" "lookup SUCCESS j = Some (json_bool False)" "lookup MSG j = None"
  shows "register_test j = None"
proof -
  obtain t u es ts where j: "j = JSON t u es ts"
    by (cases j)
  obtain ds where "index_token MSG j = (length ds, JSON TypeObject u es (ds @ [(MSG, json_null)]))"
    using assms(3) by (auto simp: j index_token_def lookup_def Let_def)
  then show ?thesis
    using at_name_there [OF assms(1,2)] assms(2)
    by (simp add: register_test_def hasMember_lookup at_name_def get_bool_def json_bool_def get_string_def json_null_def)
qed

end
