(* ===== verification/Spec2Isabelle.thy ===== *)
theory Spec2Isabelle
  imports Rtx_Properties Lwip_Properties Lwip_Heap_Properties Ppp_Properties Ppp_Lcp_Properties Fw_Properties Coap_Properties Json_Properties
begin

text \<open>
  A verification development of the firmware of a base board with an STM32F411 that registers with an update server
  over a cellular modem, downloads images for a second microcontroller (the user's) into a serial flash and writes them
  into that microcontroller. All paths are relative to \<open>src/\<close>.

  \<^bold>\<open>The program.\<close> The application is \<open>USER/main.cpp\<close> (the tasks), \<open>USER/remoteupdate.cpp\<close> (the client of the update
  server) and \<open>USER/userfirmwarepro.cpp\<close> (the serial protocol of the user's microcontroller). The client builds and
  reads CoAP packets (\<open>cantcoap\<close>) with JSON texts (\<open>MbedJSONValue\<close>), stores images through the driver of the serial flash (\<open>flash25spi\<close>) and keeps the
  version in an EEPROM; the sender reads the flash and talks to the loader of the user's microcontroller. Datagrams go
  through lwIP (\<open>lwip/lwip\<close>) and its PPP to the modem. All tasks run on the RTX kernel
  (\<open>rtos/rtx/TARGET_CORTEX_M\<close>). The parts meet in these places: the tasks call the CMSIS layer of the kernel, whose
  services, interrupts and tick are the steps of the system of \<open>Rtx_Kernel\<close>; the client and the sender share the flash,
  the structure \<open>updateinfo\<close> and the flags of the two tasks; PPP hands the frames it accepts to IP, whose checksum and
  addresses are modelled.

  \<^bold>\<open>Conventions\<close> (\<open>Prelude\<close>). Machine integers are words of their width; C structures are records, pointers to control
  blocks are identifiers with \<open>None\<close> for null. A fallible operation returns an option: \<open>None\<close> is a dereferenced null
  pointer, an access outside a block of memory, a call of an error handler that does not return or a loop that does
  not end; status codes of the C code are values. Loops that may not end are partial functions into the option type,
  so no fuel is chosen anywhere, and that they end is part of the theorems (\<open>calls_return\<close>, \<open>download_succeeds\<close>,
  \<open>parser_bounds\<close>). What the environment does (the server, the serial line, the EEPROM, the receiver of posts) is a
  script, a list of reactions that the program consumes; the theorems say how long a script has to be. Code outside the
  repository, and the chips, enter as arguments with named assumptions, each with an instance.

  \<^bold>\<open>The kernel.\<close> \<open>Rtx_State\<close> has the control blocks of \<open>rt_TypeDef.h\<close>. \<open>Rtx_List\<close> (ready list and waiting lists of
  \<open>rt_List.c\<close>, with the invariant \<open>lists_inv X q s\<close>: the list of block \<open>h\<close> holds the tasks \<open>q h\<close> in order of priority),
  \<open>Rtx_Delay\<close> and \<open>Rtx_Timeout\<close> (the delta list of timeouts and its tick), \<open>Rtx_Task\<close> and \<open>Rtx_Threads\<close> (\<open>rt_Task.c\<close>,
  \<open>rt_Time.c\<close>; the invariant \<open>sched\<close> of the scheduler), \<open>Rtx_Semaphore\<close>, \<open>Rtx_Mutex\<close>, \<open>Rtx_Mailbox\<close>, \<open>Rtx_Event\<close>,
  \<open>Rtx_MemBox\<close> (one theory for each \<open>rt_\<close> file), \<open>Rtx_Psq\<close> (posts of interrupts: \<open>rt_psq_enq\<close>, \<open>isr_\<close> functions,
  \<open>rt_pop_req\<close>), \<open>Rtx_System\<close> (tick, round robin, suspend and resume of \<open>rt_System.c\<close>), \<open>Rtx_Timer\<close> and \<open>Rtx_Cmsis\<close>
  (\<open>rt_CMSIS.c\<close>), \<open>Rtx_Service\<close> (the invariant \<open>kinv\<close> of the whole kernel and its preservation by every service),
  \<open>Rtx_Boot\<close> (start), \<open>Rtx_Kernel\<close> (the transition relation \<open>kstep\<close> and reachability \<open>reach\<close>), \<open>Rtx_Example\<close> (a state with
  a task in every kind of list, used by the instances) and \<open>Rtx_Properties\<close>. \<open>Ring\<close> is the interface of the ring
  buffers of mailboxes and of posts, interpreted for both. The theorems on the kernel as a whole are in this theory: in
  every reachable state one task runs and has the highest priority (\<open>highest_priority_runs\<close>), tasks wait only for what
  is not available (\<open>objects_consistent\<close>), admissible calls return (\<open>calls_return\<close>), and the start establishes the
  invariant (\<open>kernel_starts\<close>). Admissible (\<open>allowed\<close>, \<open>call_valid\<close>) is what the CMSIS specification asks of callers; it
  excludes the calls that the invariant does not survive, which the manifest lists as findings, among them that a thread
  terminates another one that owns a mutex. That a thread terminates itself is always admissible. \<open>X\<close> is a ghost, the
  set of terminated tasks without those that terminated themselves while they owned a mutex or a post was pending for them
  (\<open>dead_after\<close>). The steps of \<open>reach\<close> are service calls, semaphore and signal posts of interrupts, the service of posts, and the
  tick; user timers, mail queues and messages put or taken by interrupts are modelled but not among them.

  \<^bold>\<open>The network.\<close> \<open>Lwip_Def\<close> (byte order, \<open>core/def.c\<close>), \<open>Lwip_Chksum\<close> (\<open>core/ipv4/inet_chksum.c\<close>: three algorithms, all
  instances of the locale \<open>chksum_impl\<close>, equal to each other and to the sum modulo 65535), \<open>Lwip_Ip\<close>
  (\<open>core/ipv4/ip_addr.c\<close>), with \<open>Lwip_Properties\<close>. \<open>Lwip_Mem\<close> is the heap of the stack (\<open>core/mem.c\<close>), with the headers of
  its blocks among the bytes of its memory; \<open>Lwip_Heap\<close> relates it to a list of blocks (\<open>heap_of h bs\<close>), on which each operation
  is a short recursion, and \<open>Lwip_Heap_Properties\<close> follows its users through any history: what they own is apart, aligned
  and kept, and everything comes back. \<open>Ppp_Frame\<close> and \<open>Ppp_Input\<close> (\<open>netif/ppp/ppp.c\<close>: sending with
  \<open>pppifOutput\<close> and \<open>pppWrite\<close>, receiving with \<open>pppInProc\<close> and \<open>pppInput\<close>) with \<open>Ppp_Properties\<close>: what is sent is
  received, a changed byte is noticed, no buffer is lost, and the one input that crashes the receiver. \<open>Ppp_Fsm\<close>
  (\<open>netif/ppp/fsm.c\<close>) is the negotiation automaton with the callbacks of its protocol as an argument; \<open>Ppp_Link\<close> connects
  two of them by queues of packets (\<open>link_step\<close>, \<open>link_reach\<close>); \<open>Ppp_Fsm_Properties\<close> shows that the automaton never waits
  without a timeout, gives up after at most eleven, opens only on agreement, and that two ends that agree open
  (\<open>agreeing_ends_open\<close>, for any protocol whose options do). \<open>Ppp_Lcp\<close> is such a protocol, \<open>netif/ppp/lcp.c\<close>: its options,
  the callbacks of the automaton and the entry points. The calls of the authentication module (\<open>auth.c\<close>) are listed in
  \<open>upcalls\<close>, random numbers are an arbitrary sequence, \<open>nak_overrun\<close> is a ghost, \<open>lcp_phase\<close> is left out, and echo requests
  are not sent since \<open>LCP_ECHOINTERVAL\<close> is zero. \<open>Ppp_Lcp_Properties\<close>: the callbacks keep the contract of the automaton, two
  ends whose options fit open the link, an acknowledgement has to repeat the request, and what the answers consist of and their sizes, with
  the request that overruns the buffer of counterproposals.

  \<^bold>\<open>The update.\<close> \<open>Fw_Flash\<close> is the driver (\<open>flash25spi.cpp\<close>) over a bus, a parameter; \<open>w25q64\<close> is the assumption that the
  chip behaves as its data sheet says, and \<open>Fw_Chip\<close> a chip that does. \<open>Fw_Update\<close> is \<open>remoteupdate.cpp\<close>: the functions
  \<open>deviceRegister\<close>, \<open>deviceStatusReport\<close>, \<open>deviceGetUpdateinfo\<close>, \<open>deviceGetSaveUpdatefile\<close>, \<open>updateUserVersionNo\<close> and the
  task \<open>startRemoteUpdate\<close> (\<open>update_step\<close>; \<open>update_run\<close> interleaves it with the sender). \<open>Fw_Send\<close> is
  \<open>userfirmwarepro.cpp\<close> and the task \<open>userFirmwareSend\<close>, \<open>Fw_Board\<close> the header of the board in the EEPROM. \<open>Fw_Download\<close> has
  the abstract view of the flash (\<open>holds m i bs\<close>: buffer \<open>i\<close> is marked and holds \<open>bs\<close>; \<open>image_inv\<close>: at most one buffer is
  marked and the other one is erased) and the download in terms of it; \<open>Fw_Delivery\<close> the decryption, the order of
  the frames and a reference receiver (\<open>receive\<close>, a specification: the loader of the user's device is not in the repository);
  \<open>Fw_Power\<close> records the states the chip goes through, in any of which the power may fail. \<open>Fw_Properties\<close>: the driver refines program, read and erase; a download ends with a prefix of the file in
  the marked buffer whatever happens, and with the file if the server answers; the image arrives; the composition of
  both (\<open>update_end_to_end\<close>); the version is recorded only after the delivery and survives a restart; and the ways in
  which the update fails. The bounds in the theorems are those of the code: 256 Kbytes less four bytes for an image
  with its flag, blocks of 1024 bytes, packets of 512 bytes; \<open>6 * (n div 1024 + 1)\<close> reactions of the server are enough
  because each block needs at most one status report with its retries and one answer.

  \<^bold>\<open>The packets.\<close> \<open>Bytes\<close> has copies in blocks of memory. \<open>Coap_Pdu\<close> is \<open>cantcoap.cpp\<close>: the container on its memory, with the
  heap as an argument, and every method that changes or reads it. \<open>Coap_Codec\<close> has the abstract view (\<open>packet p hdr tok
  os\<close>: the memory encodes an ordered list of options) and what each method does to it; \<open>Coap_Client\<close> the request of the
  client and the bytes of a received packet; \<open>Coap_Uri\<close> the paths; \<open>Coap_Properties\<close>: adding an option inserts into the
  list, a request and an answer are read as they were meant, a path is read back, the check of a packet ends with a
  verdict and reads at most two bytes beyond it, and when it reads beyond the buffer. \<open>Clib\<close> has what the
  program uses of the C library to convert numbers, \<open>Json\<close> is \<open>MbedJSONValue\<close>: the class with its copies, the serializer and the parser
  (\<open>parse_run\<close>). \<open>Json_Parse\<close> shows what each reading function takes from the characters ahead (\<open>reads\<close>), that copies of
  well-typed values (\<open>well_typed\<close>, \<open>fresh_union\<close>) are equal to them, and both directions of the parser: it ends on every text, and reads what
  was written. \<open>Json_Client\<close> has the tests of the client on an answer and the texts of its requests; \<open>says\<close> relates an object to the
  record \<open>answer\<close> of \<open>Fw_Update\<close>. \<open>Json_Properties\<close> puts JSON and CoAP together: the scripts of \<open>Fw_Update\<close> start where the packets
  end, and \<open>answer_read\<close> and \<open>request_read\<close> show that nothing is lost on the way.

  \<^bold>\<open>Not modelled.\<close> The registers, stacks and instructions of a context switch (assembly); the drivers of the vendor
  (\<open>mbed\<close>), which act on peripherals; the USB host, the 3G dongle and the AT commands of the modem
  (\<open>USBHost\<close>, \<open>USBHost3GModule\<close>, \<open>CellularModem\<close>, \<open>CellularUSBModem\<close>, \<open>HuaweiUSBModule\<close>), hardware-driven code whose
  only effect here is the serial line under PPP; of lwIP the TCP and UDP layers, the memory pools, the sockets and the auxiliary
  protocols, third-party code that is a carrier of datagrams for the program, and of PPP the control protocol of the
  network layer, authentication and header compression (\<open>ipcp.c\<close>, \<open>auth.c\<close>, \<open>pap.c\<close>, \<open>chap.c\<close>, \<open>md5.c\<close>, \<open>vj.c\<close>);
  the HTTP client, which is not called; the C++ wrappers of the kernel objects; the functions that print.
\<close>

section \<open>The kernel as a whole\<close>

text \<open>
  C2: in every state the system reaches from its start there is exactly one running task among the
  tasks that have not been terminated, it is the one the kernel takes for the running one, and no
  ready task has a higher priority.
\<close>

theorem highest_priority_runs:
  assumes "booted x0" and "reach clk x0 (X, s)"
  shows "\<exists>n. run s = Some n \<and> n \<notin> X \<and> (\<forall>t. t \<notin> X \<longrightarrow> state_of s t = RUNNING \<longleftrightarrow> t = n) \<and>
    (\<forall>t. t \<notin> X \<longrightarrow> state_of s t = READY \<longrightarrow> prio_of s t \<le> prio_of s n)"
proof -
  from booted_reach [OF assms] obtain q d n where k: "kinv X q d n s" and n: "run s = Some n"
    by blast
  note K = krunD [OF kinvD(2) [OF k]]
  have "t \<notin> X \<Longrightarrow> state_of s t = RUNNING \<longleftrightarrow> t = n" for t
    using K(10) [of t] by auto
  moreover have "t \<notin> X \<Longrightarrow> state_of s t = READY \<Longrightarrow> prio_of s t \<le> prio_of s n" for t
    using K(7) [of t] kinvD(3) [OF k] by (auto simp: top_prio_def)
  ultimately show ?thesis
    using n K(11) by blast
qed

theorem highest_priority_runs_witness:
  "\<exists>x0 s n. booted x0 \<and> reach 1000 x0 ({}, s) \<and> run s = Some n \<and>
    (\<forall>t. state_of s t = READY \<longrightarrow> prio_of s t \<le> prio_of s n)"
proof -
  from reach_example obtain x0 s where x: "booted x0" "reach 1000 x0 ({}, s)"
    by blast
  from highest_priority_runs [OF this] x show ?thesis
    by (metis empty_iff)
qed



text \<open>
  C10: in every state the system reaches from its start a service call of the running thread that
  meets the kernel's obligations on its callers returns: no loop runs forever and no null pointer
  is followed.
\<close>

theorem calls_return:
  assumes "booted x0" and "reach clk x0 (X, s)" and "run s = Some n" and "n \<noteq> idle_TCB"
    and "allowed X c n s" and "call_valid c s"
  shows "\<exists>s'. exec clk c s = Some s' \<and> reach clk x0 (dead_after X c n s, ctx_switch s')"
proof -
  from booted_reach [OF assms(1,2)] assms(3) obtain q d where k: "kinv X q d n s"
    by auto
  from allowed_call_ok [OF k assms(3-5), of clk] assms(6) obtain s' where e: "exec clk c s = Some s'"
    by (auto simp: call_ok_def steps_ok_def)
  with assms(2) kstep.svc [OF assms(3-5) e] show ?thesis
    by (blast intro: reach.step)
qed

theorem calls_return_witness:
  "\<exists>x0 s s'. booted x0 \<and> exec 1000 (SemaphoreWait 0 5) s = Some s' \<and> reach 1000 x0 ({}, ctx_switch s')"
proof -
  from booted_example obtain s where s: "booted ({}, s)" "run s = Some 1"
    by blast
  have "(1::nat) \<noteq> idle_TCB" "allowed {} (SemaphoreWait 0 5) 1 s" "call_valid (SemaphoreWait 0 5) s"
    by (simp_all add: idle_TCB_def)
  from calls_return [OF s(1) reach.start s(2) this, of 1000] obtain s' where
    e: "exec 1000 (SemaphoreWait 0 5) s = Some s'"
    and r: "reach 1000 ({}, s) (dead_after {} (SemaphoreWait 0 5) 1 s, ctx_switch s')"
    by blast
  from r have "reach 1000 ({}, s) ({}, ctx_switch s')"
    by simp
  with s(1) e show ?thesis
    by blast
qed

text \<open>
  C13: from cleared memory and a valid configuration \<open>osKernelInitialize\<close> and \<open>osKernelStart\<close> return
  \<open>osOK\<close>; after the first context switch the thread of the timers runs, and the invariant of the
  kernel holds.
\<close>

theorem kernel_starts:
  assumes "cleared (kern o1)" and "conf_ok cf" and "\<not> os_initialized o1" and "\<not> os_running o1"
    and "control \<noteq> 1" and "control \<noteq> 3 \<or> \<not> privileged"
  shows "\<exists>o2 o3 td. cf_timer_thread cf = Some td \<and> osKernelInitialize False cf o1 = Some (osOK, o2) \<and>
    osKernelStart False control privileged cf o2 = Some (osOK, o3) \<and> osKernelRunning o3 \<and>
    run (ctx_switch (kern o3)) = Some (td_tcb td) \<and> sys_ok ({}, ctx_switch (kern o3))"
  using boot_sys_ok [OF assms(1-4)] assms(5,6)
  by (auto simp: osKernelInitialize_def osKernelStart_def osKernelRunning_def)

theorem kernel_starts_witness:
  "\<exists>o2 o3. osKernelInitialize False boot_conf boot_os = Some (osOK, o2) \<and>
    osKernelStart False 0 True boot_conf o2 = Some (osOK, o3) \<and> run (ctx_switch (kern o3)) = Some 1"
  using kernel_starts [OF boot_example, of 0 True] by (auto simp: boot_conf_def)

end
